(* ===== verification/Prelude.thy ===== *)
theory Prelude
  imports Main "HOL-Library.Word" "HOL-Library.Multiset"
begin

section \<open>Shared types, clocks and list lemmas\<close>

text \<open>
  What every theory of the development uses: the names of the machine types of the C++
  code, the saturating clock test that guards all its revision counters, and lemmas on
  lists that are looked up first-match, updated by index or kept in key order.
\<close>

subsection \<open>Machine types\<close>

text \<open>
  \<open>std::uint64_t\<close> and \<open>std::uint32_t\<close> counters that can wrap are words.
  A runtime \<open>NodeHandle\<close> indexes a vector and is a natural number;
  \<open>INVALID_NODE\<close> is \<open>None\<close> wherever the code can store or return it.
\<close>

type_synonym u8 = "8 word"
type_synonym u32 = "32 word"
type_synonym u64 = "64 word"
type_synonym node_handle = nat

named_theorems clock_simps \<open>facts on wrap-around counters\<close>
named_theorems list_frames \<open>lengths and untouched entries of updated lists\<close>

subsection \<open>Counters\<close>

lemma max_u64_unat: "unat (- 1 :: u64) = 2 ^ 64 - 1"
  by (simp add: unsigned_minus_1_eq_mask mask_eq_exp_minus_1)

lemma unat_next [clock_simps]:
  fixes w :: "'a::len word"
  assumes "w \<noteq> - 1"
  shows "unat (w + 1) = unat w + 1"
proof -
  from assms have "w + 1 \<noteq> 0"
    by (metis add_eq_0_iff2)
  then show ?thesis
    by (simp add: unat_eq_zero unatSuc flip: add.commute [of 1 w])
qed

lemma less_next [clock_simps]:
  fixes w :: "'a::len word"
  assumes "w \<noteq> - 1"
  shows "w < w + 1"
  by (simp add: word_less_nat_alt unat_next [OF assms])

lemma le_next [clock_simps]:
  fixes v w :: "'a::len word"
  assumes "w \<noteq> - 1" and "v \<le> w"
  shows "v \<le> w + 1"
  using assms less_next [of w] by (meson order.trans order.strict_implies_order)

lemma neq_next: "w + 1 \<noteq> (w :: 'a::len word)"
  by simp

subsection \<open>First-match search\<close>

text \<open>\<open>std::ranges::find\<close> and \<open>find_if\<close>: the index of the first match.\<close>

fun find_index :: "('a \<Rightarrow> bool) \<Rightarrow> 'a list \<Rightarrow> nat option" where
  "find_index P [] = None"
| "find_index P (x # xs) =
     (if P x then Some 0 else map_option Suc (find_index P xs))"

lemma find_index_None: "find_index P xs = None \<longleftrightarrow> (\<forall>x \<in> set xs. \<not> P x)"
  by (induction xs) auto

lemma find_index_SomeD:
  "find_index P xs = Some i \<Longrightarrow> i < length xs \<and> P (xs ! i) \<and> (\<forall>j < i. \<not> P (xs ! j))"
proof (induction xs arbitrary: i)
  case Nil
  then show ?case by simp
next
  case (Cons x xs)
  show ?case
  proof (cases "P x")
    case True
    with Cons.prems show ?thesis by auto
  next
    case False
    with Cons.prems obtain k where k: "find_index P xs = Some k" and i: "i = Suc k"
      by auto
    with Cons.IH [OF k] False show ?thesis
      by (auto simp: nth_Cons split: nat.splits)
  qed
qed

lemma find_index_ex: "x \<in> set xs \<Longrightarrow> P x \<Longrightarrow> \<exists>i. find_index P xs = Some i"
  using find_index_None [of P xs] by (cases "find_index P xs") auto

lemma find_index_unique:
  assumes "i < length xs" and "P (xs ! i)" and "\<And>j. j < length xs \<Longrightarrow> P (xs ! j) \<Longrightarrow> j = i"
  shows "find_index P xs = Some i"
proof -
  from assms(1,2) have "\<exists>k. find_index P xs = Some k"
    by (intro find_index_ex [of "xs ! i"]) auto
  then obtain k where k: "find_index P xs = Some k" by blast
  from find_index_SomeD [OF k] assms(3) have "k = i" by blast
  with k show ?thesis by simp
qed

lemma find_Some_mem: "find P xs = Some x \<Longrightarrow> x \<in> set xs \<and> P x"
  by (auto simp: find_Some_iff)

subsection \<open>Positions in a distinct list\<close>

definition position :: "'a list \<Rightarrow> 'a \<Rightarrow> nat" where
  "position xs x = length (takeWhile (\<lambda>y. y \<noteq> x) xs)"

lemma position_less: "x \<in> set xs \<Longrightarrow> position xs x < length xs"
  unfolding position_def by (induction xs) auto

lemma nth_position: "x \<in> set xs \<Longrightarrow> xs ! position xs x = x"
  unfolding position_def by (induction xs) auto

lemma position_nth: "distinct xs \<Longrightarrow> i < length xs \<Longrightarrow> position xs (xs ! i) = i"
proof -
  assume d: "distinct xs" and i: "i < length xs"
  then have "xs ! i \<in> set xs" by simp
  then show ?thesis
    using nth_position [of "xs ! i" xs] position_less [of "xs ! i" xs] d i
    by (auto simp: nth_eq_iff_index_eq)
qed

lemma position_append_in: "x \<in> set ys \<Longrightarrow> position (ys @ zs) x = position ys x"
  unfolding position_def by (induction ys) auto

lemma position_append_notin: "x \<notin> set ys \<Longrightarrow> position (ys @ zs) x = length ys + position zs x"
  unfolding position_def by (induction ys) auto

lemma position_at [simp]: "x \<notin> set ys \<Longrightarrow> position (ys @ x # zs) x = length ys"
  by (simp add: position_append_notin) (simp add: position_def)

lemma position_later:
  assumes "distinct (ys @ x # zs)" and "c \<in> set (ys @ x # zs)"
    and "position (ys @ x # zs) x < position (ys @ x # zs) c"
  shows "c \<in> set zs"
proof (rule ccontr)
  assume "c \<notin> set zs"
  with assms(2) consider "c \<in> set ys" | "c = x" by auto
  then show False
  proof cases
    case 1
    with position_less [of c ys] assms(1,3) show False
      by (simp add: position_append_in)
  next
    case 2
    with assms(3) show False by simp
  qed
qed

lemma position_earlier:
  assumes "distinct (ys @ x # zs)"
    and "position (ys @ x # zs) c < position (ys @ x # zs) x"
  shows "c \<in> set ys"
  using assms position_append_notin [of c ys "x # zs"] by (cases "c \<in> set ys") simp_all

lemma position_inj: "x \<in> set xs \<Longrightarrow> y \<in> set xs \<Longrightarrow> position xs x = position xs y \<Longrightarrow> x = y"
  by (metis nth_position)

lemma inj_on_position: "inj_on (position xs) (set xs)"
  by (auto intro!: inj_onI dest: position_inj)

lemma map_position_self: "distinct xs \<Longrightarrow> map (position xs) xs = [0..<length xs]"
  by (rule nth_equalityI) (auto simp: position_nth)

lemma sorted_position_self: "distinct xs \<Longrightarrow> sorted (map (position xs) xs)"
  by (simp add: map_position_self)

subsection \<open>Lists determined by their order and their elements\<close>

lemma sorted_key_unique:
  assumes "inj_on f (set xs \<union> set ys)"
    and "distinct xs" and "distinct ys" and "set xs = set ys"
    and "sorted (map f xs)" and "sorted (map f ys)"
  shows "xs = ys"
proof -
  from assms have "map f xs = map f ys"
    by (intro sorted_distinct_set_unique) (auto simp: distinct_map)
  with assms(1) show ?thesis by (metis map_inj_on)
qed

lemma sorted_filter_position:
  "distinct xs \<Longrightarrow> sorted (map (position xs) (filter P xs))"
  using sorted_filter [of "position xs" xs P] sorted_position_self by blast

lemma eq_filter_position:
  assumes "distinct order" and "set ys \<subseteq> set order" and "distinct ys"
    and "sorted (map (position order) ys)"
  shows "ys = filter (\<lambda>x. x \<in> set ys) order"
proof (rule sorted_key_unique [where f = "position order"])
  show "inj_on (position order) (set ys \<union> set (filter (\<lambda>x. x \<in> set ys) order))"
    by (rule inj_on_subset [OF inj_on_position]) (use assms(2) in auto)
  show "sorted (map (position order) (filter (\<lambda>x. x \<in> set ys) order))"
    using assms(1) by (rule sorted_filter_position)
qed (use assms in auto)

lemma distinct_concat_disjoint:
  assumes "distinct (concat xss)" and "i < j" and "j < length xss"
  shows "set (xss ! i) \<inter> set (xss ! j) = {}"
proof -
  have split: "xss = take i xss @ xss ! i # drop (Suc i) xss"
    using assms by (intro id_take_nth_drop) simp
  have "drop (Suc i) xss ! (j - Suc i) \<in> set (drop (Suc i) xss)"
    using assms by (intro nth_mem) simp
  then have "xss ! j \<in> set (drop (Suc i) xss)" using assms by simp
  moreover have "set (xss ! i) \<inter> set (concat (drop (Suc i) xss)) = {}"
    using assms(1) by (subst (asm) split) (auto simp del: append_take_drop_id)
  ultimately show ?thesis by auto
qed

lemma distinct_concat_index:
  assumes "distinct (concat xss)" and "i < length xss" and "j < length xss"
    and "n \<in> set (xss ! i)" and "n \<in> set (xss ! j)"
  shows "i = j"
  using distinct_concat_disjoint [of xss i j] distinct_concat_disjoint [of xss j i] assms
  by (metis disjoint_iff linorder_neqE_nat)

subsection \<open>Folds of index updates\<close>

lemma length_fold_upd [list_frames]:
  assumes "\<And>x ys. length (f x ys) = length ys"
  shows "length (fold f xs ys) = length ys"
  by (induction xs arbitrary: ys) (simp_all add: assms)

lemma nth_fold_upd_other [list_frames]:
  assumes "\<And>x ys. x \<in> set xs \<Longrightarrow> f x ys ! i = ys ! i"
  shows "fold f xs ys ! i = ys ! i"
  using assms by (induction xs arbitrary: ys) simp_all

lemma fold_stamp_nth:
  "i < length ys \<Longrightarrow> fold (\<lambda>x ys. ys[x := v]) xs ys ! i = (if i \<in> set xs then v else ys ! i)"
  by (induction xs arbitrary: ys) (auto simp: nth_list_update)

end
