(* ===== verification/Active_Motion.thy ===== *)
theory Active_Motion
  imports Prelude "HOL-Library.Product_Lexorder"
begin

section \<open>The sparse set of moving nodes\<close>

text \<open>
  \<open>extensions/motion\<close>: \<open>motion_state.hpp\<close>, \<open>motion_error.hpp\<close> and \<open>active_motion_set.hpp\<close>. The set keeps the moving
  nodes of one frozen topology in ascending handle order. There are two ways of applying a
  batch: one record at a time, and a sort, coalesce and merge through a workspace. The
  stationarity test of the motion policy is an argument. A handle is searched with
  \<open>std::ranges::lower_bound\<close>, whose result on an ordered vector is the number of smaller
  handles.
\<close>

subsection \<open>Data\<close>

record ('v, 'w) motion_state =
  linear_velocity :: 'v
  angular_velocity :: 'w

record ('v, 'w) motion_update =
  upd_node :: node_handle
  upd_state :: "('v, 'w) motion_state"

record ('v, 'w) active_motion_record =
  amr_node :: node_handle
  amr_state :: "('v, 'w) motion_state"

datatype motion_error =
    me_none
  | me_invalid_node
  | me_invalid_step
  | me_tick_exhausted
  | me_state_size_mismatch
  | me_topology_mismatch
  | me_revision_exhausted
  | me_transform_failure

record ('v, 'w) active_motion_set =
  am_topology_identity :: nat
  am_node_count :: nat
  am_records :: "('v, 'w) active_motion_record list"
  am_mutation_generation :: u64

record ('v, 'w) normalized_update =
  nu_update :: "('v, 'w) motion_update"
  nu_input_order :: nat

record ('v, 'w) active_motion_update_workspace =
  aw_updates :: "('v, 'w) normalized_update list"
  aw_merged :: "('v, 'w) active_motion_record list"
  aw_stationary :: "bool list"

definition new_update_workspace :: "('v, 'w) active_motion_update_workspace" where
  "new_update_workspace = \<lparr>aw_updates = [], aw_merged = [], aw_stationary = []\<rparr>"

definition new_motion_set :: "nat \<Rightarrow> nat \<Rightarrow> ('v, 'w) active_motion_set" where
  "new_motion_set identity nodes =
     \<lparr>am_topology_identity = identity, am_node_count = nodes, am_records = [], am_mutation_generation = 0\<rparr>"

subsection \<open>One record at a time\<close>

definition lower_bound :: "node_handle \<Rightarrow> ('v, 'w) active_motion_record list \<Rightarrow> nat" where
  "lower_bound node rs = length (takeWhile (\<lambda>r. amr_node r < node) rs)"

definition occupied :: "node_handle \<Rightarrow> ('v, 'w) active_motion_record list \<Rightarrow> bool" where
  "occupied node rs \<longleftrightarrow> (let at = lower_bound node rs in at < length rs \<and> amr_node (rs ! at) = node)"

definition erase_at :: "nat \<Rightarrow> 'b list \<Rightarrow> 'b list" where
  "erase_at i xs = take i xs @ drop (i + 1) xs"

definition insert_at :: "nat \<Rightarrow> 'b \<Rightarrow> 'b list \<Rightarrow> 'b list" where
  "insert_at i x xs = take i xs @ x # drop i xs"

definition set_motion ::
  "(('v, 'w) motion_state \<Rightarrow> bool) \<Rightarrow> node_handle \<Rightarrow> ('v, 'w) motion_state \<Rightarrow>
   ('v, 'w) active_motion_set \<Rightarrow> motion_error \<times> ('v, 'w) active_motion_set" where
  "set_motion stationary node state s =
     (if am_node_count s \<le> node then (me_invalid_node, s)
      else let rs = am_records s; at = lower_bound node rs; exists = occupied node rs;
               bump = am_mutation_generation s + 1
           in if stationary state
              then (me_none,
                    if exists then s\<lparr>am_records := erase_at at rs, am_mutation_generation := bump\<rparr> else s)
              else (me_none,
                    s\<lparr>am_records :=
                        (if exists then rs[at := (rs ! at)\<lparr>amr_state := state\<rparr>]
                         else insert_at at \<lparr>amr_node = node, amr_state = state\<rparr> rs),
                      am_mutation_generation := bump\<rparr>))"

definition deactivate ::
  "node_handle \<Rightarrow> ('v, 'w) active_motion_set \<Rightarrow> motion_error \<times> ('v, 'w) active_motion_set" where
  "deactivate node s =
     (if am_node_count s \<le> node then (me_invalid_node, s)
      else let rs = am_records s
           in (me_none,
               if occupied node rs
               then s\<lparr>am_records := erase_at (lower_bound node rs) rs,
                      am_mutation_generation := am_mutation_generation s + 1\<rparr>
               else s))"

definition clear_motion :: "('v, 'w) active_motion_set \<Rightarrow> ('v, 'w) active_motion_set" where
  "clear_motion s =
     (if am_records s \<noteq> []
      then s\<lparr>am_records := [], am_mutation_generation := am_mutation_generation s + 1\<rparr> else s)"

text \<open>The sink of the per-record overload stops at the first error.\<close>

fun push_updates ::
  "(('v, 'w) motion_state \<Rightarrow> bool) \<Rightarrow> ('v, 'w) motion_update list \<Rightarrow>
   ('v, 'w) active_motion_set \<Rightarrow> motion_error \<times> ('v, 'w) active_motion_set" where
  "push_updates stationary [] s = (me_none, s)"
| "push_updates stationary (u # us) s =
     (case set_motion stationary (upd_node u) (upd_state u) s of
        (me_none, s) \<Rightarrow> push_updates stationary us s
      | (error, s) \<Rightarrow> (error, s))"

definition valid_updates :: "('v, 'w) motion_update list \<Rightarrow> ('v, 'w) active_motion_set \<Rightarrow> bool" where
  "valid_updates updates s \<longleftrightarrow> list_all (\<lambda>u. upd_node u < am_node_count s) updates"

definition apply_updates ::
  "(('v, 'w) motion_state \<Rightarrow> bool) \<Rightarrow> ('v, 'w) motion_update list \<Rightarrow>
   ('v, 'w) active_motion_set \<Rightarrow> motion_error \<times> ('v, 'w) active_motion_set" where
  "apply_updates stationary updates s =
     (if \<not> valid_updates updates s then (me_invalid_node, s)
      else push_updates stationary updates s)"

subsection \<open>A whole batch at once\<close>

text \<open>Ascending handles, and inside one handle the last input first.\<close>

definition normalized :: "('v, 'w) motion_update list \<Rightarrow> ('v, 'w) normalized_update list" where
  "normalized updates =
     sort_key (\<lambda>e. (upd_node (nu_update e), - int (nu_input_order e)))
       (map (\<lambda>(u, i). \<lparr>nu_update = u, nu_input_order = i\<rparr>) (zip updates [0..<length updates]))"

text \<open>\<open>std::ranges::unique\<close> with the handle as projection, keeping the first of each run.\<close>

fun unique_nodes :: "('v, 'w) normalized_update list \<Rightarrow> ('v, 'w) normalized_update list" where
  "unique_nodes [] = []"
| "unique_nodes [e] = [e]"
| "unique_nodes (e # f # es) =
     (if upd_node (nu_update e) = upd_node (nu_update f) then unique_nodes (e # es)
      else e # unique_nodes (f # es))"

text \<open>
  The counting pass and the merge walk both vectors by index. The suffixes that remain are the
  arguments here; an update is paired with its stationary flag.
\<close>

fun count_merged ::
  "('v, 'w) active_motion_record list \<Rightarrow> (('v, 'w) motion_update \<times> bool) list \<Rightarrow> nat" where
  "count_merged [] [] = 0"
| "count_merged (e # es) [] = 1 + count_merged es []"
| "count_merged [] ((u, still) # us) = (if still then 0 else 1) + count_merged [] us"
| "count_merged (e # es) ((u, still) # us) =
     (if amr_node e < upd_node u then 1 + count_merged es ((u, still) # us)
      else (if still then 0 else 1) +
        count_merged (if amr_node e = upd_node u then es else e # es) us)"

fun merge_updates ::
  "('v, 'w) active_motion_record list \<Rightarrow> (('v, 'w) motion_update \<times> bool) list \<Rightarrow>
   ('v, 'w) active_motion_record list \<Rightarrow> bool \<Rightarrow> ('v, 'w) active_motion_record list \<times> bool" where
  "merge_updates [] [] merged mutated = (merged, mutated)"
| "merge_updates (e # es) [] merged mutated = merge_updates es [] (merged @ [e]) mutated"
| "merge_updates [] ((u, still) # us) merged mutated =
     merge_updates [] us
       (if still then merged else merged @ [\<lparr>amr_node = upd_node u, amr_state = upd_state u\<rparr>])
       (mutated \<or> \<not> still)"
| "merge_updates (e # es) ((u, still) # us) merged mutated =
     (if amr_node e < upd_node u then merge_updates es ((u, still) # us) (merged @ [e]) mutated
      else let same_node = (amr_node e = upd_node u)
           in merge_updates (if same_node then es else e # es) us
                (if still then merged else merged @ [\<lparr>amr_node = upd_node u, amr_state = upd_state u\<rparr>])
                (mutated \<or> same_node \<or> \<not> still))"

definition apply_updates_bulk ::
  "(('v, 'w) motion_state \<Rightarrow> bool) \<Rightarrow> ('v, 'w) motion_update list \<Rightarrow>
   ('v, 'w) active_motion_update_workspace \<Rightarrow> ('v, 'w) active_motion_set \<Rightarrow>
   motion_error \<times> ('v, 'w) active_motion_set \<times> ('v, 'w) active_motion_update_workspace" where
  "apply_updates_bulk stationary updates ws s =
     (if \<not> valid_updates updates s then (me_invalid_node, s, ws)
      else
        let entries = unique_nodes (normalized updates);
            still = map (\<lambda>e. stationary (upd_state (nu_update e))) entries;
            (merged, mutated) = merge_updates (am_records s) (zip (map nu_update entries) still) [] False;
            ws = ws\<lparr>aw_updates := entries, aw_stationary := still\<rparr>
        in if mutated
           then (me_none,
                 s\<lparr>am_records := merged, am_mutation_generation := am_mutation_generation s + 1\<rparr>,
                 ws\<lparr>aw_merged := am_records s\<rparr>)
           else (me_none, s, ws\<lparr>aw_merged := []\<rparr>))"

subsection \<open>The invariant and the map the set stands for\<close>

definition motion_set_ok :: "('v, 'w) active_motion_set \<Rightarrow> bool" where
  "motion_set_ok s \<longleftrightarrow>
     sorted_wrt (<) (map amr_node (am_records s)) \<and>
     (\<forall>r \<in> set (am_records s). amr_node r < am_node_count s)"

definition record_map :: "('v, 'w) active_motion_record list \<Rightarrow> node_handle \<Rightarrow> ('v, 'w) motion_state option" where
  "record_map rs = map_of (map (\<lambda>r. (amr_node r, amr_state r)) rs)"

definition motion_of :: "('v, 'w) active_motion_set \<Rightarrow> node_handle \<Rightarrow> ('v, 'w) motion_state option" where
  "motion_of s = record_map (am_records s)"

subsection \<open>Searching an ordered vector\<close>

abbreviation ascending :: "('v, 'w) active_motion_record list \<Rightarrow> bool" where
  "ascending rs \<equiv> sorted_wrt (<) (map amr_node rs)"

lemma record_map_simps [simp]:
  "record_map [] = Map.empty"
  "record_map (r # rs) = (record_map rs)(amr_node r \<mapsto> amr_state r)"
  "record_map (rs @ rs') = record_map rs' ++ record_map rs"
  by (simp_all add: record_map_def)

lemma record_map_dom: "dom (record_map rs) = amr_node ` set rs"
  by (simp add: record_map_def dom_map_of_conv_image_fst image_image)

lemma record_map_None: "record_map rs n = None \<longleftrightarrow> n \<notin> amr_node ` set rs"
  using record_map_dom [of rs] by auto

text \<open>The vector around the lower bound of a handle.\<close>

lemma lower_bound_split:
  assumes asc: "ascending rs"
  obtains ls es where "rs = ls @ es" and "lower_bound n rs = length ls"
    and "\<forall>r \<in> set ls. amr_node r < n" and "\<forall>r \<in> set es. n \<le> amr_node r"
    and "occupied n rs \<longleftrightarrow> (\<exists>e es'. es = e # es' \<and> amr_node e = n)"
proof
  let ?P = "\<lambda>r. amr_node r < n"
  show "rs = takeWhile ?P rs @ dropWhile ?P rs" by simp
  show lb: "lower_bound n rs = length (takeWhile ?P rs)" by (simp add: lower_bound_def)
  show "\<forall>r \<in> set (takeWhile ?P rs). amr_node r < n" by (auto dest: set_takeWhileD)
  show "\<forall>r \<in> set (dropWhile ?P rs). n \<le> amr_node r"
    using asc
  proof (induction rs)
    case (Cons r rs)
    then show ?case by (auto simp: not_less)
  qed simp
  have eq: "takeWhile ?P rs @ dropWhile ?P rs = rs" by simp
  show "occupied n rs \<longleftrightarrow> (\<exists>e es'. dropWhile ?P rs = e # es' \<and> amr_node e = n)"
  proof (cases "dropWhile ?P rs")
    case Nil
    with eq have tw: "takeWhile ?P rs = rs" by (metis append_Nil2)
    have "\<not> occupied n rs" unfolding occupied_def Let_def lb tw by simp
    then show ?thesis unfolding Nil by simp
  next
    case (Cons e es)
    with eq have rs: "rs = takeWhile ?P rs @ e # es" by simp
    then have "length (takeWhile ?P rs) < length rs" by (metis length_append less_add_same_cancel1 length_greater_0_conv list.discI)
    moreover have "rs ! length (takeWhile ?P rs) = e" by (metis rs nth_append_length)
    ultimately show ?thesis using Cons by (simp add: occupied_def lb Let_def)
  qed
qed

lemma record_map_absent: "\<forall>r \<in> set rs. amr_node r \<noteq> n \<Longrightarrow> record_map rs n = None"
  by (auto simp: record_map_None)

lemma occupied_iff: "ascending rs \<Longrightarrow> occupied n rs \<longleftrightarrow> record_map rs n \<noteq> None"
proof -
  assume asc: "ascending rs"
  then obtain ls es where *: "rs = ls @ es" "\<forall>r \<in> set ls. amr_node r < n" "\<forall>r \<in> set es. n \<le> amr_node r"
    "occupied n rs \<longleftrightarrow> (\<exists>e es'. es = e # es' \<and> amr_node e = n)" by (rule lower_bound_split)
  have ls: "n \<notin> amr_node ` set ls" using *(2) by auto
  have es: "n \<in> amr_node ` set es \<longleftrightarrow> (\<exists>e es'. es = e # es' \<and> amr_node e = n)"
  proof (cases es)
    case (Cons e es')
    then have "\<forall>r \<in> set es'. amr_node e < amr_node r" using asc *(1) by (simp add: sorted_wrt_append)
    with Cons *(3) show ?thesis by force
  qed simp
  have "record_map rs n \<noteq> None \<longleftrightarrow> n \<in> amr_node ` set es"
    using ls record_map_None [of rs n] *(1) by auto
  with es *(4) show ?thesis by simp
qed

lemma erase_spec:
  assumes asc: "ascending rs" and occ: "occupied n rs"
  shows "ascending (erase_at (lower_bound n rs) rs)"
    and "record_map (erase_at (lower_bound n rs) rs) = (record_map rs)(n := None)"
    and "amr_node ` set (erase_at (lower_bound n rs) rs) \<subseteq> amr_node ` set rs"
proof -
  obtain ls e es where s: "rs = ls @ e # es" "lower_bound n rs = length ls" "\<forall>r \<in> set ls. amr_node r < n"
    "amr_node e = n"
    using lower_bound_split [OF asc, of n] occ by metis
  then have e: "erase_at (lower_bound n rs) rs = ls @ es" by (simp add: erase_at_def)
  have fresh: "\<forall>r \<in> set es. amr_node r \<noteq> n" using asc s(1,4) by (auto simp: sorted_wrt_append)
  show "ascending (erase_at (lower_bound n rs) rs)" using asc unfolding e by (simp add: s(1) sorted_wrt_append)
  show "amr_node ` set (erase_at (lower_bound n rs) rs) \<subseteq> amr_node ` set rs" unfolding e by (auto simp: s(1))
  have "record_map ls n = None" using s(3) by (intro record_map_absent) auto
  with record_map_absent [OF fresh]
  show "record_map (erase_at (lower_bound n rs) rs) = (record_map rs)(n := None)"
    unfolding e by (auto simp: s(1,4) map_add_def fun_eq_iff split: option.split)
qed

lemma overwrite_spec:
  assumes asc: "ascending rs" and occ: "occupied n rs"
    and rs'_def: "rs' = rs[lower_bound n rs := (rs ! lower_bound n rs)\<lparr>amr_state := v\<rparr>]"
  shows "ascending rs'" and "record_map rs' = (record_map rs)(n \<mapsto> v)" and "amr_node ` set rs' = amr_node ` set rs"
proof -
  obtain ls e es where s: "rs = ls @ e # es" "lower_bound n rs = length ls" "amr_node e = n"
    "\<forall>r \<in> set ls. amr_node r < n"
    using lower_bound_split [OF asc, of n] occ by metis
  then have e: "rs' = ls @ e\<lparr>amr_state := v\<rparr> # es" by (simp add: rs'_def)
  have fresh: "\<forall>r \<in> set es. amr_node r \<noteq> n" using asc s(1,3) by (auto simp: sorted_wrt_append)
  show "ascending rs'" using asc by (simp add: e s(1) sorted_wrt_append)
  show "amr_node ` set rs' = amr_node ` set rs" by (simp add: e s(1))
  have "record_map ls n = None" using s(4) by (intro record_map_absent) auto
  with record_map_absent [OF fresh] show "record_map rs' = (record_map rs)(n \<mapsto> v)"
    by (auto simp: e s(1,3) map_add_def fun_eq_iff split: option.split)
qed

lemma insert_spec:
  assumes asc: "ascending rs" and free: "\<not> occupied n rs"
    and rs'_def: "rs' = insert_at (lower_bound n rs) \<lparr>amr_node = n, amr_state = v\<rparr> rs"
  shows "ascending rs'" and "record_map rs' = (record_map rs)(n \<mapsto> v)"
    and "amr_node ` set rs' = insert n (amr_node ` set rs)"
proof -
  obtain ls es where s: "rs = ls @ es" "lower_bound n rs = length ls" "\<forall>r \<in> set ls. amr_node r < n"
    "\<forall>r \<in> set es. n \<le> amr_node r"
    using lower_bound_split [OF asc, of n] by metis
  then have e: "rs' = ls @ \<lparr>amr_node = n, amr_state = v\<rparr> # es" by (simp add: rs'_def insert_at_def)
  have none: "record_map rs n = None" using occupied_iff [OF asc, of n] free by simp
  then have "\<forall>r \<in> set es. amr_node r \<noteq> n" by (auto simp: s(1) record_map_None map_add_def split: option.splits)
  with s have es: "\<forall>r \<in> set es. n < amr_node r" by (auto simp: less_le)
  show "ascending rs'" using asc s(3) es by (auto simp: e s(1) sorted_wrt_append)
  show "amr_node ` set rs' = insert n (amr_node ` set rs)" by (simp add: e s(1))
  have "record_map es n = None" "record_map ls n = None"
    using es s(3) by (intro record_map_absent; fastforce)+
  then show "record_map rs' = (record_map rs)(n \<mapsto> v)"
    by (auto simp: e s(1) map_add_def fun_eq_iff split: option.split)
qed

lemma ascending_record_map_unique:
  assumes "ascending rs" and "ascending rs'" and eq: "record_map rs = record_map rs'"
  shows "rs = rs'"
proof -
  have "set (map amr_node rs) = set (map amr_node rs')" using eq record_map_dom [of rs] record_map_dom [of rs'] by simp
  with assms have nodes: "map amr_node rs = map amr_node rs'"
    by (intro sorted_distinct_set_unique) (auto simp: strict_sorted_iff)
  have look: "record_map xs (amr_node (xs ! i)) = Some (amr_state (xs ! i))"
    if "ascending xs" "i < length xs" for xs :: "('a, 'b) active_motion_record list" and i
    using that by (auto simp: record_map_def strict_sorted_iff comp_def intro!: map_of_is_SomeI)
  show ?thesis
  proof (rule nth_equalityI)
    show len: "length rs = length rs'" using nodes by (metis length_map)
    show "rs ! i = rs' ! i" if i: "i < length rs" for i
    proof -
      have "amr_node (rs ! i) = amr_node (rs' ! i)" using nodes i len by (metis nth_map)
      moreover from this have "amr_state (rs ! i) = amr_state (rs' ! i)"
        using look [OF assms(1) i] look [OF assms(2), of i] i len eq by simp
      ultimately show ?thesis by simp
    qed
  qed
qed

subsection \<open>The operations as updates of a map\<close>

definition wanted :: "(('v, 'w) motion_state \<Rightarrow> bool) \<Rightarrow> ('v, 'w) motion_state \<Rightarrow> ('v, 'w) motion_state option" where
  "wanted stationary v = (if stationary v then None else Some v)"

lemma motion_set_okD:
  "motion_set_ok s \<Longrightarrow> ascending (am_records s)"
  "motion_set_ok s \<Longrightarrow> r \<in> set (am_records s) \<Longrightarrow> amr_node r < am_node_count s"
  by (simp_all add: motion_set_ok_def)

lemma motion_set_okI:
  "ascending (am_records s) \<Longrightarrow> amr_node ` set (am_records s) \<subseteq> {..< am_node_count s} \<Longrightarrow> motion_set_ok s"
  by (auto simp: motion_set_ok_def)

lemma set_motion_spec:
  assumes ok: "motion_set_ok s" and n: "n < am_node_count s"
  shows "fst (set_motion stationary n v s) = me_none"
    and "motion_set_ok (snd (set_motion stationary n v s))"
    and "motion_of (snd (set_motion stationary n v s)) = (motion_of s)(n := wanted stationary v)"
    and "am_node_count (snd (set_motion stationary n v s)) = am_node_count s"
    and "am_topology_identity (snd (set_motion stationary n v s)) = am_topology_identity s"
proof -
  note asc = motion_set_okD(1) [OF ok]
  have sub: "amr_node ` set (am_records s) \<subseteq> {..< am_node_count s}" using motion_set_okD(2) [OF ok] by auto
  show "fst (set_motion stationary n v s) = me_none"
    and "am_node_count (snd (set_motion stationary n v s)) = am_node_count s"
    and "am_topology_identity (snd (set_motion stationary n v s)) = am_topology_identity s"
    using n by (simp_all add: set_motion_def Let_def)
  consider "stationary v" "occupied n (am_records s)" | "stationary v" "\<not> occupied n (am_records s)"
    | "\<not> stationary v" "occupied n (am_records s)" | "\<not> stationary v" "\<not> occupied n (am_records s)" by blast
  then have "motion_set_ok (snd (set_motion stationary n v s)) \<and>
      motion_of (snd (set_motion stationary n v s)) = (motion_of s)(n := wanted stationary v)"
  proof cases
    case 1
    with erase_spec(1,2) [OF asc 1(2)] n subset_trans [OF erase_spec(3) [OF asc 1(2)] sub] show ?thesis
      by (simp add: set_motion_def Let_def wanted_def motion_of_def motion_set_okI)
  next
    case 2
    with occupied_iff [OF asc, of n] n ok show ?thesis
      by (auto simp: set_motion_def Let_def wanted_def motion_of_def)
  next
    case 3
    with overwrite_spec [OF asc 3(2) refl, of v] n sub show ?thesis
      by (simp add: set_motion_def Let_def wanted_def motion_of_def motion_set_okI)
  next
    case 4
    with insert_spec [OF asc 4(2) refl, of v] n sub show ?thesis
      by (simp add: set_motion_def Let_def wanted_def motion_of_def motion_set_okI)
  qed
  then show "motion_set_ok (snd (set_motion stationary n v s))"
    and "motion_of (snd (set_motion stationary n v s)) = (motion_of s)(n := wanted stationary v)" by auto
qed

lemma deactivate_spec:
  assumes ok: "motion_set_ok s" and n: "n < am_node_count s"
  shows "fst (deactivate n s) = me_none" and "motion_set_ok (snd (deactivate n s))"
    and "motion_of (snd (deactivate n s)) = (motion_of s)(n := None)"
    and "am_node_count (snd (deactivate n s)) = am_node_count s"
proof -
  have "deactivate n s = set_motion (\<lambda>_. True) n undefined s"
    using n by (simp add: deactivate_def set_motion_def Let_def)
  with set_motion_spec [OF ok n, of "\<lambda>_. True" undefined]
  show "fst (deactivate n s) = me_none" and "motion_set_ok (snd (deactivate n s))"
    and "motion_of (snd (deactivate n s)) = (motion_of s)(n := None)"
    and "am_node_count (snd (deactivate n s)) = am_node_count s"
    by (simp_all add: wanted_def)
qed

lemma clear_motion_spec:
  "motion_set_ok (clear_motion s)" "motion_of (clear_motion s) = Map.empty"
  by (auto simp: clear_motion_def motion_set_ok_def motion_of_def)

lemma new_motion_set_ok: "motion_set_ok (new_motion_set i n)" "motion_of (new_motion_set i n) = Map.empty"
  by (simp_all add: new_motion_set_def motion_set_ok_def motion_of_def)

subsection \<open>The contract of a keyed store, and what a batch does to one\<close>

locale keyed_store =
  fixes lookup :: "'s \<Rightarrow> nat \<Rightarrow> 'v option"
    and put :: "nat \<Rightarrow> 'v \<Rightarrow> 's \<Rightarrow> 's"
    and kept :: "'v \<Rightarrow> 'v option"
    and bound :: "'s \<Rightarrow> nat"
    and inv :: "'s \<Rightarrow> bool"
  assumes inv_put: "inv s \<Longrightarrow> n < bound s \<Longrightarrow> inv (put n v s)"
    and bound_put: "inv s \<Longrightarrow> n < bound s \<Longrightarrow> bound (put n v s) = bound s"
    and lookup_put: "inv s \<Longrightarrow> n < bound s \<Longrightarrow> lookup (put n v s) = (lookup s)(n := kept v)"
begin

lemma fold_put:
  assumes "inv s" and "fst ` set us \<subseteq> {..< bound s}"
  shows "inv (fold (\<lambda>(n, v). put n v) us s) \<and> bound (fold (\<lambda>(n, v). put n v) us s) = bound s \<and>
    lookup (fold (\<lambda>(n, v). put n v) us s) = fold (\<lambda>(n, v) m. m(n := kept v)) us (lookup s)"
  using assms
proof (induction us arbitrary: s)
  case (Cons u us)
  obtain n v where u: "u = (n, v)" by fastforce
  then have n: "n < bound s" using Cons.prems(2) by simp
  have "inv (put n v s)" "bound (put n v s) = bound s" "lookup (put n v s) = (lookup s)(n := kept v)"
    using inv_put bound_put lookup_put Cons.prems(1) n by auto
  moreover have "fst ` set us \<subseteq> {..< bound (put n v s)}"
    using Cons.prems(2) calculation(2) by simp
  ultimately show ?case using Cons.IH [of "put n v s"] by (simp add: u fun_upd_def)
qed simp

lemma fold_upd_last:
  "fold (\<lambda>(n, v) m. m(n := kept v)) us m n =
   (case map_of (rev us) n of None \<Rightarrow> m n | Some v \<Rightarrow> kept v)"
  by (induction us arbitrary: m) (auto simp: map_add_def split: option.split)

lemma lookup_fold_put:
  assumes "inv s" and "fst ` set us \<subseteq> {..< bound s}"
  shows "lookup (fold (\<lambda>(n, v). put n v) us s) n =
    (case map_of (rev us) n of None \<Rightarrow> lookup s n | Some v \<Rightarrow> kept v)"
  using fold_put [OF assms] by (simp add: fold_upd_last)

end

interpretation motion_store: keyed_store motion_of "\<lambda>n v s. snd (set_motion stationary n v s)"
  "wanted stationary" am_node_count motion_set_ok
  by unfold_locales (simp_all add: set_motion_spec)

lemma push_updates_fold:
  assumes "motion_set_ok s" and "valid_updates us s"
  shows "push_updates stationary us s =
    (me_none, fold (\<lambda>(n, v) s. snd (set_motion stationary n v s)) (map (\<lambda>u. (upd_node u, upd_state u)) us) s)"
  using assms
proof (induction us arbitrary: s)
  case (Cons u us)
  then have n: "upd_node u < am_node_count s" by (simp add: valid_updates_def)
  note spec = set_motion_spec [OF Cons.prems(1) n, of stationary "upd_state u"]
  have "valid_updates us (snd (set_motion stationary (upd_node u) (upd_state u) s))"
    using Cons.prems(2) spec(4) by (simp add: valid_updates_def)
  with Cons.IH [OF spec(2)] spec(1) show ?case by (simp add: split_beta)
qed simp

definition last_update :: "('v, 'w) motion_update list \<Rightarrow> node_handle \<Rightarrow> ('v, 'w) motion_state option" where
  "last_update us n = map_of (rev (map (\<lambda>u. (upd_node u, upd_state u)) us)) n"

lemma apply_updates_spec:
  assumes ok: "motion_set_ok s" and valid: "valid_updates us s"
  shows "fst (apply_updates stationary us s) = me_none"
    and "motion_set_ok (snd (apply_updates stationary us s))"
    and "motion_of (snd (apply_updates stationary us s)) n =
      (case last_update us n of None \<Rightarrow> motion_of s n | Some v \<Rightarrow> wanted stationary v)"
proof -
  have b: "fst ` set (map (\<lambda>u. (upd_node u, upd_state u)) us) \<subseteq> {..< am_node_count s}"
    using valid by (auto simp: valid_updates_def list_all_iff)
  show "fst (apply_updates stationary us s) = me_none"
    and "motion_set_ok (snd (apply_updates stationary us s))"
    and "motion_of (snd (apply_updates stationary us s)) n =
      (case last_update us n of None \<Rightarrow> motion_of s n | Some v \<Rightarrow> wanted stationary v)"
    unfolding apply_updates_def push_updates_fold [OF ok valid] last_update_def
    using valid motion_store.fold_put [OF ok b] motion_store.lookup_fold_put [OF ok b] by auto
qed

subsection \<open>The batch merge computes the same set\<close>

lemma unique_nodes_hd: "es \<noteq> [] \<Longrightarrow> hd (unique_nodes es) = hd es \<and> unique_nodes es \<noteq> []"
  by (induction es rule: unique_nodes.induct) auto

abbreviation entry_node :: "('v, 'w) normalized_update \<Rightarrow> node_handle" where
  "entry_node e \<equiv> upd_node (nu_update e)"

lemma unique_nodes_spec:
  assumes "sorted (map entry_node es)"
  shows "sorted_wrt (<) (map entry_node (unique_nodes es)) \<and> set (unique_nodes es) \<subseteq> set es \<and>
    (\<forall>n. map_of (map (\<lambda>e. (entry_node e, nu_update e)) (unique_nodes es)) n =
         map_of (map (\<lambda>e. (entry_node e, nu_update e)) es) n)"
  using assms
proof (induction es rule: unique_nodes.induct)
  case (3 e f es)
  show ?case
  proof (cases "entry_node e = entry_node f")
    case True
    with 3 show ?thesis by auto
  next
    case False
    with 3 have IH: "sorted_wrt (<) (map entry_node (unique_nodes (f # es)))"
      "set (unique_nodes (f # es)) \<subseteq> set (f # es)" by auto
    have "entry_node e < entry_node x" if "x \<in> set (f # es)" for x
      using 3(3) False that by auto
    with IH False 3 show ?thesis by auto
  qed
qed simp_all

text \<open>Sorting puts the last input of each handle first, so coalescing keeps it.\<close>

lemma normalized_sorted: "sorted (map entry_node (normalized us))"
proof -
  have "sorted (map (\<lambda>e. (entry_node e, - int (nu_input_order e))) (normalized us))"
    by (simp add: normalized_def)
  then show ?thesis
    by (simp add: sorted_wrt_map) (erule sorted_wrt_mono_rel [rotated], auto)
qed

lemma map_of_sorted_unique:
  fixes k :: "'b \<Rightarrow> nat"
  assumes "sorted (map (\<lambda>e. (k e, g e :: int)) es)" and "e \<in> set es"
    and "\<And>f. f \<in> set es \<Longrightarrow> k f = k e \<Longrightarrow> f \<noteq> e \<Longrightarrow> g e < g f"
  shows "map_of (map (\<lambda>e. (k e, h e)) es) (k e) = Some (h e)"
  using assms
proof (induction es)
  case (Cons f es)
  show ?case
  proof (cases "k f = k e")
    case True
    have "f = e"
    proof (rule ccontr)
      assume "f \<noteq> e"
      with Cons.prems(3) [of f] True have "g e < g f" by simp
      moreover have "e \<in> set es" using Cons.prems(2) \<open>f \<noteq> e\<close> by simp
      then have "(k f, g f) \<le> (k e, g e)" using Cons.prems(1) by simp
      ultimately show False using True by simp
    qed
    then show ?thesis by simp
  next
    case False
    with Cons show ?thesis by auto
  qed
qed simp

lemma last_update_index:
  assumes "i < length us" and "\<And>j. i < j \<Longrightarrow> j < length us \<Longrightarrow> upd_node (us ! j) \<noteq> upd_node (us ! i)"
  shows "last_update us (upd_node (us ! i)) = Some (upd_state (us ! i))"
proof -
  have split: "us = take i us @ us ! i # drop (Suc i) us" using assms(1) by (rule id_take_nth_drop)
  have "upd_node u \<noteq> upd_node (us ! i)" if "u \<in> set (drop (Suc i) us)" for u
    using assms that by (auto simp: in_set_conv_nth)
  then have "map_of (rev (map (\<lambda>u. (upd_node u, upd_state u)) (drop (Suc i) us))) (upd_node (us ! i)) = None"
    by (force simp: map_of_eq_None_iff)
  then show ?thesis
    unfolding last_update_def by (subst split) (simp add: map_add_def del: append_take_drop_id)
qed

lemma last_update_None: "last_update us n = None \<longleftrightarrow> n \<notin> upd_node ` set us"
  by (auto simp: last_update_def map_of_eq_None_iff image_image)

lemma last_index_exists:
  assumes "n \<in> upd_node ` set us"
  obtains i where "i < length us" and "upd_node (us ! i) = n"
    and "\<forall>j. i < j \<longrightarrow> j < length us \<longrightarrow> upd_node (us ! j) \<noteq> n"
proof -
  let ?I = "{i. i < length us \<and> upd_node (us ! i) = n}"
  have "finite ?I" "?I \<noteq> {}" using assms by (auto simp: in_set_conv_nth image_iff)
  then have "Max ?I \<in> ?I" "\<And>j. j \<in> ?I \<Longrightarrow> j \<le> Max ?I" using Max_in [of ?I] by simp_all
  then show ?thesis using that [of "Max ?I"] by fastforce
qed

lemma normalized_lookup:
  "map_option upd_state (map_of (map (\<lambda>e. (entry_node e, nu_update e)) (normalized us)) n) = last_update us n"
proof (cases "n \<in> upd_node ` set us")
  case False
  then have "n \<notin> entry_node ` set (normalized us)"
    by (auto simp: normalized_def dest: set_zip_leftD)
  then have "map_of (map (\<lambda>e. (entry_node e, nu_update e)) (normalized us)) n = None"
    by (simp add: map_of_eq_None_iff image_image)
  with False last_update_None [of us n] show ?thesis by simp
next
  case True
  then obtain i where i: "i < length us" "upd_node (us ! i) = n"
    "\<forall>j. i < j \<longrightarrow> j < length us \<longrightarrow> upd_node (us ! j) \<noteq> n" by (rule last_index_exists)
  let ?e = "\<lparr>nu_update = us ! i, nu_input_order = i\<rparr>"
  have mem: "f \<in> set (normalized us) \<longleftrightarrow> (\<exists>j < length us. f = \<lparr>nu_update = us ! j, nu_input_order = j\<rparr>)" for f
    by (auto simp: normalized_def set_zip image_iff) (metis nth_upt add_0 case_prod_conv)
  have "map_of (map (\<lambda>e. (entry_node e, nu_update e)) (normalized us)) (entry_node ?e) = Some (nu_update ?e)"
  proof (rule map_of_sorted_unique [where g = "\<lambda>e. - int (nu_input_order e)"])
    show "sorted (map (\<lambda>e. (entry_node e, - int (nu_input_order e))) (normalized us))"
      by (simp add: normalized_def)
    show "?e \<in> set (normalized us)" using i by (auto simp: mem)
    show "- int (nu_input_order ?e) < - int (nu_input_order f)"
      if f: "f \<in> set (normalized us)" "entry_node f = entry_node ?e" "f \<noteq> ?e" for f
    proof -
      obtain j where j: "j < length us" "f = \<lparr>nu_update = us ! j, nu_input_order = j\<rparr>" using f(1) mem by blast
      then have "upd_node (us ! j) = n" "j \<noteq> i" using f i(2) by auto
      with i(3) j(1) have "j < i" by (metis linorder_neqE_nat)
      then show ?thesis by (simp add: j(2))
    qed
  qed
  then have "map_of (map (\<lambda>e. (entry_node e, nu_update e)) (normalized us)) n = Some (us ! i)"
    by (simp add: i(2))
  with last_update_index [of i us] i show ?thesis by simp
qed

definition pending_map :: "(('v, 'w) motion_update \<times> bool) list \<Rightarrow> node_handle \<Rightarrow> (('v, 'w) motion_state \<times> bool) option" where
  "pending_map us = map_of (map (\<lambda>(u, still). (upd_node u, (upd_state u, still))) us)"

abbreviation pending_ascending :: "(('v, 'w) motion_update \<times> bool) list \<Rightarrow> bool" where
  "pending_ascending us \<equiv> sorted_wrt (<) (map (upd_node \<circ> fst) us)"

text \<open>What the merge of two ordered vectors must hold at a handle.\<close>

definition merged_map ::
  "('v, 'w) active_motion_record list \<Rightarrow> (('v, 'w) motion_update \<times> bool) list \<Rightarrow> node_handle \<Rightarrow>
   ('v, 'w) motion_state option" where
  "merged_map es us n =
     (case pending_map us n of
        None \<Rightarrow> record_map es n
      | Some (v, still) \<Rightarrow> if still then None else Some v)"

lemma pending_map_simps [simp]:
  "pending_map [] = Map.empty"
  "pending_map ((u, still) # us) = (pending_map us)(upd_node u \<mapsto> (upd_state u, still))"
  by (simp_all add: pending_map_def)

lemma pending_absent: "\<forall>u \<in> set us. n < upd_node (fst u) \<Longrightarrow> pending_map us n = None"
  by (induction us) auto

lemma merge_acc:
  "merge_updates es us merged mutated =
   (merged @ fst (merge_updates es us [] False), mutated \<or> snd (merge_updates es us [] False))"
proof (induction es us arbitrary: merged mutated rule: count_merged.induct)
  case (2 e es)
  show ?case using 2 [of "merged @ [e]" mutated] 2 [of "[e]" False] by simp
next
  case (3 u still us)
  let ?x = "if still then [] else [\<lparr>amr_node = upd_node u, amr_state = upd_state u\<rparr>]"
  show ?case using 3 [of "merged @ ?x" "mutated \<or> \<not> still"] 3 [of ?x "\<not> still"] by auto
next
  case (4 e es u still us)
  let ?x = "if still then [] else [\<lparr>amr_node = upd_node u, amr_state = upd_state u\<rparr>]"
  show ?case
  proof (cases "amr_node e < upd_node u")
    case True
    show ?thesis using True 4(1) [OF True, of "merged @ [e]" mutated] 4(1) [OF True, of "[e]" False] by simp
  next
    case False
    let ?m = "amr_node e = upd_node u \<or> \<not> still"
    show ?thesis
      using False 4(2) [OF False, of "merged @ ?x" "mutated \<or> ?m"] 4(2) [OF False, of ?x ?m]
      by (auto simp: Let_def)
  qed
qed simp

lemma merge_spec:
  assumes "ascending es" and "pending_ascending us"
  shows "ascending (fst (merge_updates es us [] False)) \<and>
    amr_node ` set (fst (merge_updates es us [] False)) \<subseteq> amr_node ` set es \<union> (upd_node \<circ> fst) ` set us \<and>
    (\<forall>n. record_map (fst (merge_updates es us [] False)) n = merged_map es us n) \<and>
    length (fst (merge_updates es us [] False)) = count_merged es us \<and>
    (\<not> snd (merge_updates es us [] False) \<longrightarrow> fst (merge_updates es us [] False) = es)"
  using assms
proof (induction es us rule: count_merged.induct)
  case 1
  then show ?case by (simp add: merged_map_def)
next
  case (2 e es)
  then show ?case by (subst (1 2 3 4 5 6) merge_updates.simps, subst (1 2 3 4 5 6) merge_acc) (auto simp: merged_map_def)
next
  case (3 u still us)
  let ?r = "merge_updates [] us [] False"
  have IH: "ascending (fst ?r)" "amr_node ` set (fst ?r) \<subseteq> (upd_node \<circ> fst) ` set us"
    "\<And>n. record_map (fst ?r) n = merged_map [] us n" "length (fst ?r) = count_merged [] us"
    "\<not> snd ?r \<longrightarrow> fst ?r = []"
    using 3 by auto
  have "\<forall>x \<in> set us. upd_node u < upd_node (fst x)" using 3(3) by auto
  note fresh = pending_absent [OF this] and above = this
  let ?x = "if still then [] else [\<lparr>amr_node = upd_node u, amr_state = upd_state u\<rparr>]"
  have eq: "merge_updates [] ((u, still) # us) [] False = (?x @ fst ?r, \<not> still \<or> snd ?r)"
    using merge_acc [of "[]" us ?x "\<not> still"] by auto
  have "upd_node u < amr_node r" if "r \<in> set (fst ?r)" for r
    using IH(2) above that by fastforce
  then show ?case
    unfolding eq fst_conv snd_conv
    using IH fresh by (auto simp: merged_map_def)
next
  case (4 e es u still us)
  have asc: "ascending es" "\<forall>r \<in> set es. amr_node e < amr_node r" using 4(3) by auto
  have pend: "pending_ascending us" "\<forall>x \<in> set us. upd_node u < upd_node (fst x)" using 4(4) by (simp_all add: comp_def)
  show ?case
  proof (cases "amr_node e < upd_node u")
    case True
    let ?r = "merge_updates es ((u, still) # us) [] False"
    have IH: "ascending (fst ?r)"
      "amr_node ` set (fst ?r) \<subseteq> amr_node ` set es \<union> (upd_node \<circ> fst) ` set ((u, still) # us)"
      "\<And>n. record_map (fst ?r) n = merged_map es ((u, still) # us) n"
      "length (fst ?r) = count_merged es ((u, still) # us)" "\<not> snd ?r \<longrightarrow> fst ?r = es"
      using 4(1) [OF True asc(1) 4(4)] by auto
    have eq: "merge_updates (e # es) ((u, still) # us) [] False = (e # fst ?r, snd ?r)"
      using merge_acc [of es "(u, still) # us" "[e]" False] True by simp
    have "amr_node e < amr_node r" if "r \<in> set (fst ?r)" for r
      using IH(2) asc(2) pend(2) True that by fastforce
    moreover have "\<forall>x \<in> set ((u, still) # us). amr_node e < upd_node (fst x)" using True pend(2) by force
    note pending_absent [OF this]
    ultimately show ?thesis
      unfolding eq fst_conv snd_conv
      using IH True by (auto simp: merged_map_def split: option.split)
  next
    case False
    let ?es = "if amr_node e = upd_node u then es else e # es"
    let ?r = "merge_updates ?es us [] False"
    let ?x = "if still then [] else [\<lparr>amr_node = upd_node u, amr_state = upd_state u\<rparr>]"
    have esx: "ascending ?es" "\<forall>r \<in> set ?es. upd_node u < amr_node r" using asc False 4(3) by auto
    have IH: "ascending (fst ?r)" "amr_node ` set (fst ?r) \<subseteq> amr_node ` set ?es \<union> (upd_node \<circ> fst) ` set us"
      "\<And>n. record_map (fst ?r) n = merged_map ?es us n" "length (fst ?r) = count_merged ?es us"
      "\<not> snd ?r \<longrightarrow> fst ?r = ?es"
      using 4(2) [OF False esx(1) pend(1)] by auto
    have eq: "merge_updates (e # es) ((u, still) # us) [] False =
        (?x @ fst ?r, amr_node e = upd_node u \<or> \<not> still \<or> snd ?r)"
      using merge_acc [of ?es us ?x "amr_node e = upd_node u \<or> \<not> still"] False by (auto simp: Let_def)
    have above: "upd_node u < amr_node r" if "r \<in> set (fst ?r)" for r
      using IH(2) esx(2) pend(2) that by fastforce
    have none: "record_map ?es (upd_node u) = None" using esx(2) by (intro record_map_absent) fastforce
    have "record_map (?x @ fst ?r) n = merged_map (e # es) ((u, still) # us) n" for n
      using IH(3) [of n] pending_absent [OF pend(2)] none
      by (auto simp: merged_map_def map_add_def split: option.splits if_splits)
    with IH(1,2,4,5) above show ?thesis
      unfolding eq fst_conv snd_conv using False by (auto simp: sorted_wrt_append split: if_splits)
  qed
qed

lemma zip_map_both: "zip (map f xs) (map g xs) = map (\<lambda>x. (f x, g x)) xs"
  by (induction xs) auto

lemma map_of_map_values:
  "map_of (map (\<lambda>e. (k e, f (g e))) es) n = map_option f (map_of (map (\<lambda>e. (k e, g e)) es) n)"
  by (induction es) auto

lemma bulk_pending:
  fixes stationary :: "('v, 'w) motion_state \<Rightarrow> bool" and us :: "('v, 'w) motion_update list"
  defines "es \<equiv> unique_nodes (normalized us)"
  defines "ps \<equiv> zip (map nu_update es) (map (\<lambda>e. stationary (upd_state (nu_update e))) es)"
  shows "pending_ascending ps"
    and "pending_map ps n = map_option (\<lambda>v. (v, stationary v)) (last_update us n)"
    and "(upd_node \<circ> fst) ` set ps \<subseteq> upd_node ` set us"
proof -
  have ps: "ps = map (\<lambda>e. (nu_update e, stationary (upd_state (nu_update e)))) es"
    unfolding ps_def by (simp add: zip_map_both)
  note spec = unique_nodes_spec [OF normalized_sorted [of us]]
  show "pending_ascending ps" using spec by (simp add: ps es_def comp_def)
  have "pending_map ps n = map_option (\<lambda>u. (upd_state u, stationary (upd_state u)))
      (map_of (map (\<lambda>e. (entry_node e, nu_update e)) es) n)"
    unfolding map_of_map_values [symmetric] by (simp add: pending_map_def ps comp_def)
  also have "\<dots> = map_option (\<lambda>v. (v, stationary v))
      (map_option upd_state (map_of (map (\<lambda>e. (entry_node e, nu_update e)) es) n))"
    by (simp add: option.map_comp comp_def)
  also have "map_option upd_state (map_of (map (\<lambda>e. (entry_node e, nu_update e)) es) n) = last_update us n"
    using spec normalized_lookup [of us n] by (simp add: es_def)
  finally show "pending_map ps n = map_option (\<lambda>v. (v, stationary v)) (last_update us n)" .
  have "nu_update ` set (normalized us) \<subseteq> set us"
    by (auto simp: normalized_def dest: set_zip_leftD)
  with spec show "(upd_node \<circ> fst) ` set ps \<subseteq> upd_node ` set us"
    by (fastforce simp: ps es_def)
qed

lemma apply_updates_bulk_spec:
  assumes ok: "motion_set_ok s" and valid: "valid_updates us s"
  shows "fst (apply_updates_bulk stationary us ws s) = me_none"
    and "motion_set_ok (fst (snd (apply_updates_bulk stationary us ws s)))"
    and "motion_of (fst (snd (apply_updates_bulk stationary us ws s))) n =
      (case last_update us n of None \<Rightarrow> motion_of s n | Some v \<Rightarrow> wanted stationary v)"
    and "am_node_count (fst (snd (apply_updates_bulk stationary us ws s))) = am_node_count s"
proof -
  let ?es = "unique_nodes (normalized us)"
  let ?ps = "zip (map nu_update ?es) (map (\<lambda>e. stationary (upd_state (nu_update e))) ?es)"
  let ?r = "merge_updates (am_records s) ?ps [] False"
  let ?s = "fst (snd (apply_updates_bulk stationary us ws s))"
  note pend = bulk_pending [of us stationary]
  note ms = merge_spec [OF motion_set_okD(1) [OF ok] pend(1)]
  note m_asc = ms [THEN conjunct1] and m_sub = ms [THEN conjunct2, THEN conjunct1]
    and m_map = ms [THEN conjunct2, THEN conjunct2, THEN conjunct1, THEN spec]
    and m_same = ms [THEN conjunct2, THEN conjunct2, THEN conjunct2, THEN conjunct2]
  have records: "am_records ?s = fst ?r"
    using m_same valid by (auto simp: apply_updates_bulk_def Let_def split_beta)
  show "fst (apply_updates_bulk stationary us ws s) = me_none"
    and count: "am_node_count ?s = am_node_count s"
    using valid by (auto simp: apply_updates_bulk_def Let_def split_beta)
  have "amr_node ` set (fst ?r) \<subseteq> {..< am_node_count s}"
  proof -
    have "amr_node ` set (am_records s) \<subseteq> {..< am_node_count s}" using motion_set_okD(2) [OF ok] by auto
    moreover have "upd_node ` set us \<subseteq> {..< am_node_count s}"
      using valid by (auto simp: valid_updates_def list_all_iff)
    then have "(upd_node \<circ> fst) ` set ?ps \<subseteq> {..< am_node_count s}" using pend(3) by (rule order_trans [rotated])
    ultimately have "amr_node ` set (am_records s) \<union> (upd_node \<circ> fst) ` set ?ps \<subseteq> {..< am_node_count s}"
      by (rule Un_least)
    from order_trans [OF m_sub this] show ?thesis .
  qed
  with m_asc show "motion_set_ok ?s" by (intro motion_set_okI) (simp_all only: records count)
  have "motion_of ?s n = merged_map (am_records s) ?ps n" by (simp only: motion_of_def records m_map)
  then show "motion_of ?s n = (case last_update us n of None \<Rightarrow> motion_of s n | Some v \<Rightarrow> wanted stationary v)"
    by (simp add: merged_map_def pend(2) motion_of_def wanted_def split: option.split)
qed

subsection \<open>Reachable motion sets\<close>

inductive motion_reachable ::
  "(('v, 'w) motion_state \<Rightarrow> bool) \<Rightarrow> nat \<Rightarrow> nat \<Rightarrow> ('v, 'w) active_motion_set \<Rightarrow> bool"
  for stationary identity nodes where
  "motion_reachable stationary identity nodes (new_motion_set identity nodes)"
| "motion_reachable stationary identity nodes s \<Longrightarrow>
   motion_reachable stationary identity nodes (snd (set_motion stationary n v s))"
| "motion_reachable stationary identity nodes s \<Longrightarrow>
   motion_reachable stationary identity nodes (snd (deactivate n s))"
| "motion_reachable stationary identity nodes s \<Longrightarrow>
   motion_reachable stationary identity nodes (clear_motion s)"
| "motion_reachable stationary identity nodes s \<Longrightarrow>
   motion_reachable stationary identity nodes (snd (apply_updates stationary us s))"
| "motion_reachable stationary identity nodes s \<Longrightarrow>
   motion_reachable stationary identity nodes (fst (snd (apply_updates_bulk stationary us ws s)))"

definition only_moving :: "(('v, 'w) motion_state \<Rightarrow> bool) \<Rightarrow> ('v, 'w) active_motion_set \<Rightarrow> bool" where
  "only_moving stationary s \<longleftrightarrow> (\<forall>n v. motion_of s n = Some v \<longrightarrow> \<not> stationary v)"

lemma only_moving_wanted:
  "only_moving stationary s \<Longrightarrow> motion_of s' = (motion_of s)(n := wanted stationary v) \<Longrightarrow> only_moving stationary s'"
  by (auto simp: only_moving_def wanted_def)

lemma only_moving_batch:
  "only_moving stationary s \<Longrightarrow>
   (\<And>n. motion_of s' n = (case last_update us n of None \<Rightarrow> motion_of s n | Some v \<Rightarrow> wanted stationary v)) \<Longrightarrow>
   only_moving stationary s'"
  by (auto simp: only_moving_def wanted_def split: option.splits if_splits)

lemma batch_invalid:
  "\<not> valid_updates us s \<Longrightarrow> apply_updates stationary us s = (me_invalid_node, s)"
  "\<not> valid_updates us s \<Longrightarrow> apply_updates_bulk stationary us ws s = (me_invalid_node, s, ws)"
  by (simp_all add: apply_updates_def apply_updates_bulk_def)

lemma motion_reachable_ok:
  "motion_reachable stationary identity nodes s \<Longrightarrow>
   motion_set_ok s \<and> only_moving stationary s \<and> am_node_count s = nodes \<and> am_topology_identity s = identity"
proof (induction rule: motion_reachable.induct)
  case 1
  then show ?case by (simp add: new_motion_set_ok only_moving_def) (simp add: new_motion_set_def)
next
  case (2 s n v)
  show ?case
  proof (cases "n < am_node_count s")
    case True
    with 2 set_motion_spec [of s n stationary v] only_moving_wanted [of stationary s _ n v] show ?thesis by auto
  next
    case False
    with 2 show ?thesis by (simp add: set_motion_def)
  qed
next
  case (3 s n)
  show ?case
  proof (cases "n < am_node_count s")
    case True
    have "am_topology_identity (snd (deactivate n s)) = am_topology_identity s" by (simp add: deactivate_def Let_def)
    with True 3 deactivate_spec [of s n] show ?thesis by (auto simp: only_moving_def)
  next
    case False
    with 3 show ?thesis by (simp add: deactivate_def)
  qed
next
  case (4 s)
  then show ?case using clear_motion_spec [of s] by (simp add: only_moving_def) (simp add: clear_motion_def)
next
  case (5 s us)
  show ?case
  proof (cases "valid_updates us s")
    case True
    have "am_node_count (snd (push_updates stationary us s)) = am_node_count s \<and>
        am_topology_identity (snd (push_updates stationary us s)) = am_topology_identity s"
      for us and s :: "('a, 'b) active_motion_set"
      by (induction us arbitrary: s)
        (auto simp: set_motion_def Let_def split: prod.splits motion_error.splits if_splits)
    with True 5 apply_updates_spec [of s us stationary] only_moving_batch [of stationary s _ us] show ?thesis
      by (auto simp: apply_updates_def)
  qed (use 5 in \<open>simp add: batch_invalid\<close>)
next
  case (6 s us ws)
  show ?case
  proof (cases "valid_updates us s")
    case True
    have "am_topology_identity (fst (snd (apply_updates_bulk stationary us ws s))) = am_topology_identity s"
      by (simp add: apply_updates_bulk_def Let_def split_beta)
    with True 6 apply_updates_bulk_spec [of s us stationary ws] only_moving_batch [of stationary s _ us]
    show ?thesis by auto
  qed (use 6 in \<open>simp add: batch_invalid\<close>)
qed

subsection \<open>Properties of the motion set\<close>

text \<open>Whatever sequence of single updates, removals, batches of either kind and clears built
  it, the motion set is ordered by strictly ascending handle, holds only handles of its
  topology, and holds no stationary record: integration visits each moving node once, in
  handle order.\<close>

theorem motion_sets_stay_ordered:
  assumes "motion_reachable stationary identity nodes s"
  shows "sorted_wrt (<) (map amr_node (am_records s)) \<and>
    list_all (\<lambda>r. amr_node r < nodes \<and> \<not> stationary (amr_state r)) (am_records s)"
proof -
  have ok: "motion_set_ok s" "only_moving stationary s" "am_node_count s = nodes"
    using motion_reachable_ok [OF assms] by auto
  have "motion_of s (amr_node r) = Some (amr_state r)" if "r \<in> set (am_records s)" for r
    using that motion_set_okD(1) [OF ok(1)]
    by (auto simp: motion_of_def record_map_def strict_sorted_iff comp_def intro!: map_of_is_SomeI)
  with ok show ?thesis by (auto simp: motion_set_ok_def only_moving_def list_all_iff)
qed

definition moving :: "int \<Rightarrow> (int, int) motion_state" where
  "moving x = \<lparr>linear_velocity = x, angular_velocity = 0\<rparr>"

definition at_rest :: "(int, int) motion_state \<Rightarrow> bool" where
  "at_rest v \<longleftrightarrow> linear_velocity v = 0 \<and> angular_velocity v = 0"

definition two_moving :: "(int, int) active_motion_set" where
  "two_moving = snd (apply_updates at_rest
     [\<lparr>upd_node = 3, upd_state = moving 5\<rparr>, \<lparr>upd_node = 1, upd_state = moving 2\<rparr>] (new_motion_set 7 4))"

lemma two_moving_reachable: "motion_reachable at_rest 7 4 two_moving"
  unfolding two_moving_def by (intro motion_reachable.intros)

lemma two_moving_records:
  "two_moving = \<lparr>am_topology_identity = 7, am_node_count = 4,
     am_records = [\<lparr>amr_node = 1, amr_state = moving 2\<rparr>, \<lparr>amr_node = 3, amr_state = moving 5\<rparr>],
     am_mutation_generation = 2\<rparr>"
  unfolding two_moving_def by code_simp

theorem motion_sets_stay_ordered_witness:
  "sorted_wrt (<) (map amr_node (am_records two_moving)) \<and> map amr_node (am_records two_moving) = [1, 3] \<and>
   list_all (\<lambda>r. amr_node r < 4 \<and> \<not> at_rest (amr_state r)) (am_records two_moving)"
  using motion_sets_stay_ordered [OF two_moving_reachable] by (simp add: two_moving_records)

text \<open>C10. The two batch overloads agree: on an ordered set, applying updates one by one and
  sorting, coalescing and merging them give the same records and the same error; a batch with
  a foreign handle is refused by both and changes nothing.\<close>

theorem batch_overloads_agree:
  assumes "motion_set_ok s"
  shows "fst (apply_updates_bulk stationary us ws s) = fst (apply_updates stationary us s) \<and>
    am_records (fst (snd (apply_updates_bulk stationary us ws s))) = am_records (snd (apply_updates stationary us s)) \<and>
    (\<not> valid_updates us s \<longrightarrow> apply_updates_bulk stationary us ws s = (me_invalid_node, s, ws))"
proof (cases "valid_updates us s")
  case True
  note one = apply_updates_spec [OF assms True, of stationary]
  note bulk = apply_updates_bulk_spec [OF assms True, of stationary ws]
  have "record_map (am_records (fst (snd (apply_updates_bulk stationary us ws s)))) =
      record_map (am_records (snd (apply_updates stationary us s)))"
    using one(3) bulk(3) by (intro ext) (simp add: motion_of_def)
  with motion_set_okD(1) [OF one(2)] motion_set_okD(1) [OF bulk(2)] show ?thesis
    using True one(1) bulk(1) by (auto intro: ascending_record_map_unique)
qed (simp add: batch_invalid)

theorem batch_overloads_agree_witness:
  "motion_set_ok two_moving \<and>
   am_records (fst (snd (apply_updates_bulk at_rest
     [\<lparr>upd_node = 2, upd_state = moving 9\<rparr>, \<lparr>upd_node = 3, upd_state = moving 0\<rparr>] new_update_workspace two_moving))) =
   am_records (snd (apply_updates at_rest
     [\<lparr>upd_node = 2, upd_state = moving 9\<rparr>, \<lparr>upd_node = 3, upd_state = moving 0\<rparr>] two_moving))"
  using batch_overloads_agree [of two_moving at_rest
      "[\<lparr>upd_node = 2, upd_state = moving 9\<rparr>, \<lparr>upd_node = 3, upd_state = moving 0\<rparr>]" new_update_workspace]
    motion_reachable_ok [OF two_moving_reachable] by blast

text \<open>A bulk batch is last-write-wins on the map of motion states: a node's final state is
  the last one the batch gives it, dropped when it is stationary, and a node the batch does
  not name keeps its state. The counting pass that reserves both vectors is exact.\<close>

theorem bulk_batch_is_last_write_wins:
  assumes "motion_set_ok s" and "valid_updates us s"
  shows "motion_of (fst (snd (apply_updates_bulk stationary us ws s))) n =
      (case last_update us n of None \<Rightarrow> motion_of s n
       | Some v \<Rightarrow> if stationary v then None else Some v) \<and>
    length (fst (merge_updates (am_records s)
        (map (\<lambda>e. (nu_update e, stationary (upd_state (nu_update e)))) (unique_nodes (normalized us))) [] False)) =
      count_merged (am_records s)
        (map (\<lambda>e. (nu_update e, stationary (upd_state (nu_update e)))) (unique_nodes (normalized us)))"
  using apply_updates_bulk_spec(3) [OF assms, of stationary ws n]
    merge_spec [OF motion_set_okD(1) [OF assms(1)] bulk_pending(1) [of us stationary]]
  by (simp add: wanted_def zip_map_both split: option.split)

theorem bulk_batch_is_last_write_wins_witness:
  "motion_of (fst (snd (apply_updates_bulk at_rest
      [\<lparr>upd_node = 2, upd_state = moving 9\<rparr>, \<lparr>upd_node = 2, upd_state = moving 4\<rparr>] new_update_workspace two_moving))) 2 = Some (moving 4)"
proof -
  have "valid_updates [\<lparr>upd_node = 2, upd_state = moving 9\<rparr>, \<lparr>upd_node = 2, upd_state = moving 4\<rparr>] two_moving"
    by (simp add: valid_updates_def two_moving_records)
  moreover have "motion_set_ok two_moving" using motion_reachable_ok [OF two_moving_reachable] by simp
  ultimately show ?thesis
    using bulk_batch_is_last_write_wins [of two_moving
        "[\<lparr>upd_node = 2, upd_state = moving 9\<rparr>, \<lparr>upd_node = 2, upd_state = moving 4\<rparr>]" at_rest new_update_workspace 2]
    by (simp add: last_update_def at_rest_def moving_def)
qed

end
