(* ===== verification/Polytree_View.thy ===== *)
theory Polytree_View
  imports Prelude
begin

section \<open>The frozen topology as the scene code reads it\<close>

text \<open>
  The frozen polytree (\<open>wz::core::graph::Polytree\<close>, a git submodule) is not part of the
  repository. Every definition that reads it takes it as an argument: a record of what the
  scene code observes through \<open>parent\<close>, \<open>node_count\<close> and \<open>evaluation_plan\<close>, and the
  address of the object, which the code stores as \<open>const void *\<close>. What the code relies on is
  the named hypothesis \<open>wf_polytree\<close>: handles are dense, the cached topological order lists
  every node once with parents first, the reverse order is its reverse, the roots are listed
  in that order, and the dependency levels partition the nodes with parents on strictly
  earlier levels.
\<close>

record polytree =
  pt_identity :: nat
  node_count :: nat
  parent :: "node_handle \<Rightarrow> node_handle option"
  topological_order :: "node_handle list"
  reverse_topological_order :: "node_handle list"
  pt_roots :: "node_handle list"
  dependency_levels :: "node_handle list list"

definition parents_first :: "polytree \<Rightarrow> bool" where
  "parents_first t \<longleftrightarrow> (\<forall>n < node_count t. \<forall>p. parent t n = Some p \<longrightarrow>
     p < node_count t \<and>
     position (topological_order t) p < position (topological_order t) n)"

definition levels_ok :: "polytree \<Rightarrow> bool" where
  "levels_ok t \<longleftrightarrow>
     distinct (concat (dependency_levels t)) \<and>
     set (concat (dependency_levels t)) = {..< node_count t} \<and>
     (\<forall>i < length (dependency_levels t). \<forall>n \<in> set (dependency_levels t ! i). \<forall>p.
        parent t n = Some p \<longrightarrow> (\<exists>j < i. p \<in> set (dependency_levels t ! j)))"

definition wf_polytree :: "polytree \<Rightarrow> bool" where
  "wf_polytree t \<longleftrightarrow>
     distinct (topological_order t) \<and>
     set (topological_order t) = {..< node_count t} \<and>
     parents_first t \<and>
     reverse_topological_order t = rev (topological_order t) \<and>
     pt_roots t = filter (\<lambda>n. parent t n = None) (topological_order t) \<and>
     levels_ok t"

subsection \<open>Subtrees\<close>

text \<open>\<open>descends t a d\<close>: \<open>d\<close> is \<open>a\<close> or lies below it.\<close>

inductive descends :: "polytree \<Rightarrow> node_handle \<Rightarrow> node_handle \<Rightarrow> bool" for t a where
  descends_refl: "descends t a a"
| descends_step: "descends t a p \<Longrightarrow> parent t d = Some p \<Longrightarrow> descends t a d"

inductive_cases descends_rootE: "descends t a d"

lemma descends_trans:
  assumes "descends t b c" and "descends t a b"
  shows "descends t a c"
  using assms by (induction) (auto intro: descends.intros)

lemma descends_parentI: "parent t d = Some p \<Longrightarrow> descends t p d"
  by (auto intro: descends.intros)

lemma descends_cases_parent:
  "descends t a d \<Longrightarrow> a = d \<or> (\<exists>p. parent t d = Some p \<and> descends t a p)"
  by (auto elim: descends_rootE)

lemma descends_chain:
  assumes "descends t a d" and "descends t b d"
  shows "descends t a b \<or> descends t b a"
  using assms
proof (induction)
  case descends_refl
  then show ?case by simp
next
  case (descends_step p d)
  from descends_cases_parent [OF descends_step.prems] descends_step.hyps(2)
  consider "b = d" | "descends t b p" by auto
  then show ?case
  proof cases
    case 1
    with descends_step.hyps show ?thesis by (auto intro: descends.intros)
  next
    case 2
    with descends_step.IH show ?thesis by simp
  qed
qed

definition subtree :: "polytree \<Rightarrow> node_handle \<Rightarrow> node_handle set" where
  "subtree t a = {d. d < node_count t \<and> descends t a d}"

lemma finite_subtree [simp, intro]: "finite (subtree t a)"
  by (rule finite_subset [of _ "{..< node_count t}"]) (auto simp: subtree_def)

subsection \<open>Consequences of well-formedness\<close>

abbreviation rank :: "polytree \<Rightarrow> node_handle \<Rightarrow> nat" where
  "rank t \<equiv> position (topological_order t)"

lemma wf_orderD:
  assumes "wf_polytree t"
  shows "distinct (topological_order t)" "set (topological_order t) = {..< node_count t}"
    "length (topological_order t) = node_count t"
  using assms distinct_card [of "topological_order t"] by (auto simp: wf_polytree_def)

lemma wf_parentD:
  assumes "wf_polytree t" and "n < node_count t" and "parent t n = Some p"
  shows "p < node_count t" "rank t p < rank t n"
  using assms by (auto simp: wf_polytree_def parents_first_def)

lemma wf_reverseD: "wf_polytree t \<Longrightarrow> reverse_topological_order t = rev (topological_order t)"
  by (simp add: wf_polytree_def)

lemma wf_rootsD:
  "wf_polytree t \<Longrightarrow> pt_roots t = filter (\<lambda>n. parent t n = None) (topological_order t)"
  by (simp add: wf_polytree_def)

lemma rank_less: "wf_polytree t \<Longrightarrow> n < node_count t \<Longrightarrow> rank t n < node_count t"
  using position_less [of n "topological_order t"] by (simp add: wf_orderD)

lemma rank_inj:
  "wf_polytree t \<Longrightarrow> m < node_count t \<Longrightarrow> n < node_count t \<Longrightarrow> rank t m = rank t n \<Longrightarrow> m = n"
  using position_inj [of m "topological_order t" n] by (simp add: wf_orderD)

lemma nth_rank: "wf_polytree t \<Longrightarrow> n < node_count t \<Longrightarrow> topological_order t ! rank t n = n"
  by (simp add: nth_position wf_orderD)

lemma rank_nth: "wf_polytree t \<Longrightarrow> i < node_count t \<Longrightarrow> rank t (topological_order t ! i) = i"
  by (simp add: position_nth wf_orderD)

lemma order_nth_less: "wf_polytree t \<Longrightarrow> i < node_count t \<Longrightarrow> topological_order t ! i < node_count t"
  using wf_orderD [of t] nth_mem [of i "topological_order t"] by auto

lemma descends_rank:
  assumes "wf_polytree t" and "descends t a d" and "d < node_count t"
  shows "a < node_count t \<and> rank t a \<le> rank t d \<and> (rank t a = rank t d \<longrightarrow> a = d)"
  using assms(2,3)
proof (induction)
  case descends_refl
  then show ?case by simp
next
  case (descends_step p d)
  with wf_parentD [OF assms(1), of d p] show ?case by force
qed

lemma descends_antisym:
  assumes "wf_polytree t" and "descends t a b" and "descends t b a" and "b < node_count t"
  shows "a = b"
  using descends_rank [OF assms(1,2,4)] descends_rank [OF assms(1,3)] by auto

lemma subtree_self: "a < node_count t \<Longrightarrow> a \<in> subtree t a"
  by (simp add: subtree_def descends_refl)

lemma subtree_parent:
  "p \<in> subtree t a \<Longrightarrow> parent t d = Some p \<Longrightarrow> d < node_count t \<Longrightarrow> d \<in> subtree t a"
  by (auto simp: subtree_def intro: descends_step)

lemma subtree_children_disjoint:
  assumes wf: "wf_polytree t" and "parent t c = Some p" and "parent t d = Some p"
    and "c < node_count t" and "d < node_count t" and "c \<noteq> d"
  shows "subtree t c \<inter> subtree t d = {}"
proof (rule ccontr)
  assume "subtree t c \<inter> subtree t d \<noteq> {}"
  then obtain x where "descends t c x" "descends t d x" by (auto simp: subtree_def)
  from descends_chain [OF this] show False
  proof
    assume "descends t c d"
    with descends_cases_parent [OF this] assms have "descends t c p" by auto
    with descends_rank [OF wf this] wf_parentD [OF wf assms(4,2)] show False by auto
  next
    assume "descends t d c"
    with descends_cases_parent [OF this] assms have "descends t d p" by auto
    with descends_rank [OF wf this] wf_parentD [OF wf assms(5,3)] show False by auto
  qed
qed

subsection \<open>Induction along the topological order\<close>

lemma rank_induct [consumes 2, case_names node]:
  assumes wf: "wf_polytree t" and n: "n < node_count t"
    and step: "\<And>n. n < node_count t \<Longrightarrow>
      (\<And>p. parent t n = Some p \<Longrightarrow> p < node_count t \<Longrightarrow> P p) \<Longrightarrow> P n"
  shows "P n"
  using n
proof (induction "rank t n" arbitrary: n rule: less_induct)
  case less
  show ?case
  proof (rule step [OF less.prems])
    fix p
    assume "parent t n = Some p" and "p < node_count t"
    with wf_parentD [OF wf less.prems] less.hyps show "P p" by blast
  qed
qed

end
