(* ===== verification/Transform_State.thy ===== *)
theory Transform_State
  imports Polytree_View
begin

section \<open>Runtime transform records and their direct-dirty frontier\<close>

text \<open>
  \<open>include/scene_polytree/transform_record.hpp\<close> and \<open>transform_state.hpp\<close>: one record per
  frozen node, the exact list of directly dirty nodes, the shared revision clock and the two
  generation counters that make evaluation plans one-shot. The transform type is a type
  variable.
\<close>

subsection \<open>Data\<close>

record 'a transform_record =
  r_local :: 'a
  r_world :: 'a
  r_local_revision :: u64
  r_world_revision :: u64
  r_dirty :: bool

datatype transform_error =
    te_none
  | te_invalid_node
  | te_state_size_mismatch
  | te_invalid_scope
  | te_stale_plan
  | te_topology_mismatch
  | te_revision_exhausted

record 'a transform_state =
  m_records :: "'a transform_record list"
  m_dirty_nodes :: "node_handle list"
  m_revision :: u64
  m_mutation_generation :: u64
  m_evaluation_generation :: u64

subsection \<open>Construction and observers\<close>

definition make_state :: "'a transform_record list \<Rightarrow> u64 \<Rightarrow> 'a transform_state" where
  "make_state records revision =
     \<lparr>m_records = records,
      m_dirty_nodes = filter (\<lambda>node. r_dirty (records ! node)) [0..<length records],
      m_revision = revision, m_mutation_generation = 1, m_evaluation_generation = 0\<rparr>"

definition state_size :: "'a transform_state \<Rightarrow> nat" where
  "state_size st = length (m_records st)"

definition has_dirty_transforms :: "'a transform_state \<Rightarrow> bool" where
  "has_dirty_transforms st \<longleftrightarrow> m_dirty_nodes st \<noteq> []"

definition record_at :: "'a transform_state \<Rightarrow> node_handle \<Rightarrow> 'a transform_record" where
  "record_at st node = m_records st ! node"

definition local_of :: "'a transform_state \<Rightarrow> node_handle \<Rightarrow> 'a" where
  "local_of st node = r_local (record_at st node)"

definition world_of :: "'a transform_state \<Rightarrow> node_handle \<Rightarrow> 'a" where
  "world_of st node = r_world (record_at st node)"

definition revision_available :: "'a transform_state \<Rightarrow> bool" where
  "revision_available st \<longleftrightarrow> m_revision st \<noteq> - 1"

subsection \<open>Mutation\<close>

definition set_local ::
  "node_handle \<Rightarrow> 'a \<Rightarrow> 'a transform_state \<Rightarrow> transform_error \<times> 'a transform_state" where
  "set_local node loc st =
     (if length (m_records st) \<le> node then (te_invalid_node, st)
      else if \<not> revision_available st then (te_revision_exhausted, st)
      else let target = m_records st ! node;
               rev = m_revision st + 1
           in (te_none,
               st\<lparr>m_dirty_nodes :=
                    (if r_dirty target then m_dirty_nodes st else m_dirty_nodes st @ [node]),
                  m_records := (m_records st)[node := target
                    \<lparr>r_local := loc, r_local_revision := rev, r_dirty := True\<rparr>],
                  m_revision := rev,
                  m_mutation_generation := m_mutation_generation st + 1\<rparr>))"

definition mark_dirty ::
  "node_handle \<Rightarrow> 'a transform_state \<Rightarrow> transform_error \<times> 'a transform_state" where
  "mark_dirty node st =
     (if length (m_records st) \<le> node then (te_invalid_node, st)
      else if \<not> revision_available st then (te_revision_exhausted, st)
      else let target = m_records st ! node
           in (te_none,
               st\<lparr>m_dirty_nodes :=
                    (if r_dirty target then m_dirty_nodes st else m_dirty_nodes st @ [node]),
                  m_records := (m_records st)[node := target\<lparr>r_dirty := True\<rparr>],
                  m_revision := m_revision st + 1,
                  m_mutation_generation := m_mutation_generation st + 1\<rparr>))"

text \<open>
  The three accessors of \<open>detail::transform_state_access\<close> that evaluation uses: starting
  an evaluation ticks the evaluation generation always and the clock only when there is
  work; compaction drops the frontier entries that are clean again.
\<close>

definition begin_evaluation :: "bool \<Rightarrow> 'a transform_state \<Rightarrow> 'a transform_state" where
  "begin_evaluation has_work st =
     st\<lparr>m_evaluation_generation := m_evaluation_generation st + 1,
        m_revision := (if has_work then m_revision st + 1 else m_revision st)\<rparr>"

definition update_record ::
  "node_handle \<Rightarrow> 'a transform_record \<Rightarrow> 'a transform_state \<Rightarrow> 'a transform_state" where
  "update_record node r st = st\<lparr>m_records := (m_records st)[node := r]\<rparr>"

definition compact_dirty_frontier :: "'a transform_state \<Rightarrow> 'a transform_state" where
  "compact_dirty_frontier st =
     st\<lparr>m_dirty_nodes := filter (\<lambda>node. r_dirty (m_records st ! node)) (m_dirty_nodes st)\<rparr>"

subsection \<open>Invariants\<close>

text \<open>The frontier lists the directly dirty nodes, each once.\<close>

definition frontier_exact :: "'a transform_state \<Rightarrow> bool" where
  "frontier_exact st \<longleftrightarrow>
     distinct (m_dirty_nodes st) \<and>
     set (m_dirty_nodes st) = {n. n < length (m_records st) \<and> r_dirty (m_records st ! n)}"

text \<open>No record carries a revision from the future.\<close>

definition clock_ok :: "'a transform_state \<Rightarrow> bool" where
  "clock_ok st \<longleftrightarrow> (\<forall>r \<in> set (m_records st).
     r_local_revision r \<le> m_revision st \<and> r_world_revision r \<le> m_revision st)"

named_theorems state_ops \<open>definitions of the transform-state operations\<close>

declare set_local_def [state_ops] mark_dirty_def [state_ops] begin_evaluation_def [state_ops]
  update_record_def [state_ops] compact_dirty_frontier_def [state_ops]

lemma frontier_exact_make_state: "frontier_exact (make_state records revision)"
  by (auto simp: frontier_exact_def make_state_def)

lemma clock_ok_make_state:
  assumes "\<And>r. r \<in> set records \<Longrightarrow> r_local_revision r \<le> revision \<and> r_world_revision r \<le> revision"
  shows "clock_ok (make_state records revision)"
  using assms by (simp add: clock_ok_def make_state_def)

lemma frontier_exact_mem:
  "frontier_exact st \<Longrightarrow> n < length (m_records st) \<Longrightarrow>
   n \<in> set (m_dirty_nodes st) \<longleftrightarrow> r_dirty (m_records st ! n)"
  by (auto simp: frontier_exact_def)

text \<open>Both mutations write one record and set its dirty flag: the shared core.\<close>

lemma frontier_exact_updI:
  assumes "frontier_exact st" and "node < length (m_records st)"
    and "m_records st' = (m_records st)[node := r]" and "r_dirty r"
    and "m_dirty_nodes st' =
      (if r_dirty (m_records st ! node) then m_dirty_nodes st else m_dirty_nodes st @ [node])"
  shows "frontier_exact st'"
  using assms by (auto simp: frontier_exact_def nth_list_update)

lemma clock_ok_updI:
  assumes "clock_ok st" and "m_revision st \<noteq> - 1"
    and "m_records st' = (m_records st)[node := r]" and "m_revision st' = m_revision st + 1"
    and "r_local_revision r \<le> m_revision st + 1" and "r_world_revision r \<le> m_revision st + 1"
  shows "clock_ok st'"
  using assms by (auto simp: clock_ok_def intro: le_next dest!: set_update_subset_insert [THEN subsetD])

lemma frontier_exact_set_local: "frontier_exact st \<Longrightarrow> frontier_exact (snd (set_local node loc st))"
  by (auto simp: set_local_def Let_def not_le intro!: frontier_exact_updI [where st = st and node = node])

lemma frontier_exact_mark_dirty: "frontier_exact st \<Longrightarrow> frontier_exact (snd (mark_dirty node st))"
  by (auto simp: mark_dirty_def Let_def not_le intro!: frontier_exact_updI [where st = st and node = node])

lemma clock_ok_nth:
  "clock_ok st \<Longrightarrow> n < length (m_records st) \<Longrightarrow>
   r_local_revision (m_records st ! n) \<le> m_revision st \<and>
   r_world_revision (m_records st ! n) \<le> m_revision st"
  by (simp add: clock_ok_def)

lemma clock_ok_set_local: "clock_ok st \<Longrightarrow> clock_ok (snd (set_local node loc st))"
  using clock_ok_nth [of st node]
  by (auto simp: set_local_def Let_def revision_available_def not_le intro: le_next
      intro!: clock_ok_updI [where st = st and node = node])

lemma clock_ok_mark_dirty: "clock_ok st \<Longrightarrow> clock_ok (snd (mark_dirty node st))"
  using clock_ok_nth [of st node]
  by (auto simp: mark_dirty_def Let_def revision_available_def not_le intro: le_next
      intro!: clock_ok_updI [where st = st and node = node])

lemma compact_dirty_frontier_exact:
  assumes "distinct (m_dirty_nodes st)"
    and "{n. n < length (m_records st) \<and> r_dirty (m_records st ! n)} \<subseteq> set (m_dirty_nodes st)"
    and "set (m_dirty_nodes st) \<subseteq> {..< length (m_records st)}"
  shows "frontier_exact (compact_dirty_frontier st)"
  using assms by (auto simp: frontier_exact_def compact_dirty_frontier_def)

subsection \<open>Frames of the mutations\<close>

lemma length_set_local [list_frames]:
  "length (m_records (snd (set_local node loc st))) = length (m_records st)"
  by (simp add: set_local_def Let_def)

lemma length_mark_dirty [list_frames]:
  "length (m_records (snd (mark_dirty node st))) = length (m_records st)"
  by (simp add: mark_dirty_def Let_def)

lemma set_local_other:
  "n \<noteq> node \<Longrightarrow> m_records (snd (set_local node loc st)) ! n = m_records st ! n"
  by (simp add: set_local_def Let_def)

lemma mark_dirty_other:
  "n \<noteq> node \<Longrightarrow> m_records (snd (mark_dirty node st)) ! n = m_records st ! n"
  by (simp add: mark_dirty_def Let_def)

lemma set_local_error: "fst (set_local node loc st) \<noteq> te_none \<Longrightarrow> snd (set_local node loc st) = st"
  by (simp add: set_local_def Let_def split: if_splits)

lemma mark_dirty_error: "fst (mark_dirty node st) \<noteq> te_none \<Longrightarrow> snd (mark_dirty node st) = st"
  by (simp add: mark_dirty_def Let_def split: if_splits)

lemma set_local_ok:
  "fst (set_local node loc st) = te_none \<longleftrightarrow>
   node < length (m_records st) \<and> m_revision st \<noteq> - 1"
  by (auto simp: set_local_def Let_def revision_available_def)

lemma set_local_ok_record:
  assumes "fst (set_local node loc st) = te_none"
  shows "m_records (snd (set_local node loc st)) ! node =
    (m_records st ! node)\<lparr>r_local := loc, r_local_revision := m_revision st + 1, r_dirty := True\<rparr>"
proof -
  from assms have "node < length (m_records st)" "m_revision st \<noteq> - 1" by (simp_all add: set_local_ok)
  then show ?thesis by (simp add: set_local_def Let_def revision_available_def)
qed

lemma set_local_ok_revision:
  "fst (set_local node loc st) = te_none \<Longrightarrow> m_revision (snd (set_local node loc st)) = m_revision st + 1"
  by (auto simp: set_local_def Let_def split: if_splits)

lemmas state_frames = length_set_local length_mark_dirty set_local_other mark_dirty_other

end
