(* ===== verification/Transform_Workspace.thy ===== *)
theory Transform_Workspace
  imports Transform_State
begin

section \<open>The reusable planning workspace and its cached topology metadata\<close>

text \<open>
  \<open>include/scene_polytree/transform_evaluation.hpp\<close>, class
  \<open>transform_evaluation_workspace\<close>: per-node stamps that are valid for one plan only (they
  are compared with the workspace generation) and metadata cached for one topology, keyed by
  the topology's address and node count. \<open>prepare\<close> opens a generation and rebuilds the
  metadata when the key does not match. Ranks, subtree bounds and levels are
  \<open>std::uint32_t\<close> in the code and bounded by the node count, so they are naturals here.
\<close>

subsection \<open>Data\<close>

record transform_evaluation_workspace =
  m_affected :: "u64 list"
  m_owner :: "node_handle option list"
  m_selected :: "u64 list"
  m_topological_rank :: "nat list"
  m_subtree_end :: "nat list"
  m_subtree_size :: "nat list"
  m_dependency_level :: "nat list"
  m_dependency_nodes :: "node_handle list"
  m_dependency_offsets :: "nat list"
  m_dependency_cursor :: "nat list"
  m_dirty_candidates :: "node_handle list"
  m_dirty_roots :: "node_handle list"
  m_affected_nodes :: "node_handle list"
  m_selected_dirty_roots :: "node_handle list"
  m_selected_nodes :: "node_handle list"
  m_requested_roots :: "node_handle list"
  m_topology_identity :: "nat option"
  m_subtrees_are_contiguous :: bool
  m_maximum_level_width :: nat
  m_generation :: u64

definition new_workspace :: transform_evaluation_workspace where
  "new_workspace =
     \<lparr>m_affected = [], m_owner = [], m_selected = [], m_topological_rank = [],
      m_subtree_end = [], m_subtree_size = [], m_dependency_level = [],
      m_dependency_nodes = [], m_dependency_offsets = [], m_dependency_cursor = [],
      m_dirty_candidates = [], m_dirty_roots = [], m_affected_nodes = [],
      m_selected_dirty_roots = [], m_selected_nodes = [], m_requested_roots = [],
      m_topology_identity = None, m_subtrees_are_contiguous = False,
      m_maximum_level_width = 0, m_generation = 0\<rparr>"

subsection \<open>Building the metadata\<close>

text \<open>\<open>std::vector::resize\<close>: keep a prefix, fill with \<open>d\<close>.\<close>

definition resize :: "nat \<Rightarrow> 'a \<Rightarrow> 'a list \<Rightarrow> 'a list" where
  "resize n d xs = take n xs @ replicate (n - length xs) d"

definition rank_step :: "polytree \<Rightarrow> nat \<Rightarrow> nat list \<Rightarrow> nat list" where
  "rank_step t pos rk = rk[topological_order t ! pos := pos]"

definition first_end_step :: "polytree \<Rightarrow> nat \<Rightarrow> nat list \<Rightarrow> nat list" where
  "first_end_step t pos se = se[topological_order t ! pos := pos + 1]"

definition end_step :: "polytree \<Rightarrow> node_handle \<Rightarrow> nat list \<Rightarrow> nat list" where
  "end_step t node se =
     (case parent t node of
        None \<Rightarrow> se
      | Some p \<Rightarrow> se[p := max (se ! p) (se ! node)])"

definition size_step :: "polytree \<Rightarrow> node_handle \<Rightarrow> nat list \<Rightarrow> nat list" where
  "size_step t node sz =
     (case parent t node of
        None \<Rightarrow> sz
      | Some p \<Rightarrow> sz[p := sz ! p + sz ! node])"

definition level_step :: "polytree \<Rightarrow> nat \<Rightarrow> nat list \<times> nat \<Rightarrow> nat list \<times> nat" where
  "level_step t level = (\<lambda>(dl, width).
     let level_nodes = dependency_levels t ! level
     in (fold (\<lambda>node dl. dl[node := level]) level_nodes dl, max width (length level_nodes)))"

definition build_metadata ::
  "polytree \<Rightarrow> transform_evaluation_workspace \<Rightarrow> transform_evaluation_workspace" where
  "build_metadata t ws =
     (let n = node_count t;
          positions = [0..<n];
          (rk, se) = fold (\<lambda>pos (rk, se). (rank_step t pos rk, first_end_step t pos se)) positions
                       (resize n 0 (m_topological_rank ws), resize n 0 (m_subtree_end ws));
          (se, sz) = fold (\<lambda>node (se, sz). (end_step t node se, size_step t node sz))
                       (reverse_topological_order t) (se, replicate n 1);
          (dl, width) = fold (level_step t) [0..<length (dependency_levels t)]
                          (resize n 0 (m_dependency_level ws), 0)
      in ws\<lparr>m_topology_identity := Some (pt_identity t),
            m_affected := replicate n 0,
            m_owner := replicate n None,
            m_selected := replicate n 0,
            m_topological_rank := rk,
            m_subtree_end := se,
            m_subtree_size := sz,
            m_dependency_level := dl,
            m_maximum_level_width := width,
            m_subtrees_are_contiguous :=
              list_all (\<lambda>node. se ! node - rk ! node = sz ! node) (topological_order t)\<rparr>)"

definition open_generation ::
  "transform_evaluation_workspace \<Rightarrow> transform_evaluation_workspace" where
  "open_generation ws =
     (if m_generation ws + 1 = 0
      then ws\<lparr>m_affected := map (\<lambda>_. 0) (m_affected ws),
              m_selected := map (\<lambda>_. 0) (m_selected ws), m_generation := 1\<rparr>
      else ws\<lparr>m_generation := m_generation ws + 1\<rparr>)"

definition clear_results ::
  "transform_evaluation_workspace \<Rightarrow> transform_evaluation_workspace" where
  "clear_results ws =
     ws\<lparr>m_dirty_candidates := [], m_dirty_roots := [], m_affected_nodes := [],
        m_selected_dirty_roots := [], m_selected_nodes := []\<rparr>"

definition prepare ::
  "polytree \<Rightarrow> transform_evaluation_workspace \<Rightarrow> transform_evaluation_workspace" where
  "prepare t ws =
     (let ws = open_generation ws;
          ws = (if m_topology_identity ws \<noteq> Some (pt_identity t) \<or>
                   length (m_topological_rank ws) \<noteq> node_count t
                then build_metadata t ws else ws)
      in clear_results ws)"

subsection \<open>What the metadata means\<close>

definition metadata_ok :: "polytree \<Rightarrow> transform_evaluation_workspace \<Rightarrow> bool" where
  "metadata_ok t ws \<longleftrightarrow>
     length (m_affected ws) = node_count t \<and>
     length (m_owner ws) = node_count t \<and>
     length (m_selected ws) = node_count t \<and>
     length (m_topological_rank ws) = node_count t \<and>
     length (m_dependency_level ws) = node_count t \<and>
     (\<forall>a < node_count t. m_topological_rank ws ! a = rank t a) \<and>
     (\<forall>a < node_count t. \<forall>d \<in> subtree t a. rank t d < m_subtree_end ws ! a) \<and>
     (\<forall>a < node_count t. m_subtree_size ws ! a = card (subtree t a)) \<and>
     (\<forall>i < length (dependency_levels t). \<forall>n \<in> set (dependency_levels t ! i).
        m_dependency_level ws ! n = i) \<and>
     (m_subtrees_are_contiguous ws \<longrightarrow> (\<forall>a < node_count t.
        m_subtree_end ws ! a - m_topological_rank ws ! a = m_subtree_size ws ! a))"

text \<open>
  The cache key is the address and the node count. \<open>cache_coherent\<close> says that a workspace
  whose key matches holds this topology's metadata: true of a new workspace, kept by every
  plan for the same topology, and broken only by putting another topology with as many nodes
  at the same address.
\<close>

definition cache_coherent :: "polytree \<Rightarrow> transform_evaluation_workspace \<Rightarrow> bool" where
  "cache_coherent t ws \<longleftrightarrow>
     (m_topology_identity ws = Some (pt_identity t) \<and>
      length (m_topological_rank ws) = node_count t \<longrightarrow> metadata_ok t ws)"

definition stamps_ok :: "transform_evaluation_workspace \<Rightarrow> bool" where
  "stamps_ok ws \<longleftrightarrow>
     (\<forall>s \<in> set (m_affected ws) \<union> set (m_selected ws). s \<le> m_generation ws)"

definition prepared :: "polytree \<Rightarrow> transform_evaluation_workspace \<Rightarrow> bool" where
  "prepared t ws \<longleftrightarrow>
     metadata_ok t ws \<and> m_topology_identity ws = Some (pt_identity t) \<and>
     stamps_ok ws \<and>
     (\<forall>a < node_count t. m_affected ws ! a \<noteq> m_generation ws \<and>
        m_selected ws ! a \<noteq> m_generation ws) \<and>
     m_dirty_candidates ws = [] \<and> m_dirty_roots ws = [] \<and> m_affected_nodes ws = [] \<and>
     m_selected_dirty_roots ws = [] \<and> m_selected_nodes ws = []"

lemma metadata_ok_cong:
  assumes "length (m_affected ws') = length (m_affected ws)"
    and "length (m_owner ws') = length (m_owner ws)"
    and "length (m_selected ws') = length (m_selected ws)"
    and "m_topological_rank ws' = m_topological_rank ws"
    and "m_subtree_end ws' = m_subtree_end ws"
    and "m_subtree_size ws' = m_subtree_size ws"
    and "m_dependency_level ws' = m_dependency_level ws"
    and "m_subtrees_are_contiguous ws' = m_subtrees_are_contiguous ws"
  shows "metadata_ok t ws' = metadata_ok t ws"
  using assms by (simp only: metadata_ok_def)

lemma metadata_ok_lengths:
  assumes "metadata_ok t ws"
  shows "length (m_affected ws) = node_count t" "length (m_owner ws) = node_count t"
    "length (m_selected ws) = node_count t" "length (m_dependency_level ws) = node_count t"
  using assms by (simp_all add: metadata_ok_def)

lemma metadata_ok_rank:
  "metadata_ok t ws \<Longrightarrow> a < node_count t \<Longrightarrow> m_topological_rank ws ! a = rank t a"
  by (simp add: metadata_ok_def)

lemma metadata_ok_end:
  "metadata_ok t ws \<Longrightarrow> d \<in> subtree t a \<Longrightarrow> a < node_count t \<Longrightarrow> rank t d < m_subtree_end ws ! a"
  by (simp add: metadata_ok_def)

lemma metadata_ok_contiguous:
  "metadata_ok t ws \<Longrightarrow> m_subtrees_are_contiguous ws \<Longrightarrow> a < node_count t \<Longrightarrow>
   m_subtree_end ws ! a - rank t a = card (subtree t a)"
  unfolding metadata_ok_def by metis

lemma metadata_ok_level:
  "metadata_ok t ws \<Longrightarrow> i < length (dependency_levels t) \<Longrightarrow> n \<in> set (dependency_levels t ! i) \<Longrightarrow>
   m_dependency_level ws ! n = i"
  by (simp add: metadata_ok_def)

subsection \<open>The passes over the topological order\<close>

lemma length_resize [simp]: "length (resize n d xs) = n"
  by (simp add: resize_def)

lemma fold_pair:
  "fold (\<lambda>x (a, b). (f x a, g x b)) xs (a, b) = (fold f xs a, fold g xs b)"
  by (induction xs arbitrary: a b) simp_all

lemma length_steps [simp]:
  "length (rank_step t pos rk) = length rk"
  "length (first_end_step t pos se) = length se"
  "length (end_step t node se) = length se"
  "length (size_step t node sz) = length sz"
  by (simp_all add: rank_step_def first_end_step_def end_step_def size_step_def split: option.split)

lemma step_None:
  "parent t node = None \<Longrightarrow> end_step t node se = se"
  "parent t node = None \<Longrightarrow> size_step t node sz = sz"
  by (simp_all add: end_step_def size_step_def)

lemma step_Some:
  "parent t node = Some p \<Longrightarrow> end_step t node se = se[p := max (se ! p) (se ! node)]"
  "parent t node = Some p \<Longrightarrow> size_step t node sz = sz[p := sz ! p + sz ! node]"
  by (simp_all add: end_step_def size_step_def)

lemma fold_positions_nth:
  assumes "distinct order" and "k \<le> length order" and "a \<in> set (take k order)" and "a < length xs"
  shows "fold (\<lambda>pos xs. xs[order ! pos := f pos]) [0..<k] xs ! a = f (position order a)"
  using assms(2,3)
proof (induction k)
  case 0
  then show ?case by simp
next
  case (Suc k)
  have len: "length (fold (\<lambda>pos xs. xs[order ! pos := f pos]) [0..<k] xs) = length xs"
    by (rule length_fold_upd) simp
  have split: "take (Suc k) order = take k order @ [order ! k]"
    using Suc.prems(1) by (simp add: take_Suc_conv_app_nth)
  show ?case
  proof (cases "a = order ! k")
    case True
    with assms(1,4) Suc.prems(1) len show ?thesis by (simp add: position_nth)
  next
    case False
    with Suc split show ?thesis by (simp add: nth_list_update)
  qed
qed

lemma rank_pass:
  assumes wf: "wf_polytree t" and "length rk = node_count t" and "a < node_count t"
  shows "fold (rank_step t) [0..<node_count t] rk ! a = rank t a"
proof -
  have "fold (\<lambda>pos xs. xs[topological_order t ! pos := pos]) [0..<node_count t] rk ! a = rank t a"
    using assms wf_orderD [OF wf] by (intro fold_positions_nth) auto
  moreover have "rank_step t = (\<lambda>pos xs. xs[topological_order t ! pos := pos])"
    by (intro ext) (simp add: rank_step_def)
  ultimately show ?thesis by simp
qed

lemma first_end_pass:
  assumes wf: "wf_polytree t" and "length se = node_count t" and "a < node_count t"
  shows "fold (first_end_step t) [0..<node_count t] se ! a = rank t a + 1"
proof -
  have "fold (\<lambda>pos xs. xs[topological_order t ! pos := pos + 1]) [0..<node_count t] se ! a = rank t a + 1"
    using assms wf_orderD [OF wf] by (intro fold_positions_nth) auto
  moreover have "first_end_step t = (\<lambda>pos xs. xs[topological_order t ! pos := pos + 1])"
    by (intro ext) (simp add: first_end_step_def)
  ultimately show ?thesis by simp
qed

text \<open>
  \<open>seen t xs a\<close>: what the reverse pass has folded into node \<open>a\<close> once the suffix \<open>xs\<close> of the
  topological order is processed: \<open>a\<close> and the subtrees of its children in \<open>xs\<close>.
\<close>

definition seen :: "polytree \<Rightarrow> node_handle list \<Rightarrow> node_handle \<Rightarrow> node_handle set" where
  "seen t xs a = insert a (\<Union>c \<in> {c \<in> set xs. parent t c = Some a}. subtree t c)"

lemma seen_Nil [simp]: "seen t [] a = {a}"
  by (simp add: seen_def)

lemma seen_Cons:
  "seen t (x # xs) a = (if parent t x = Some a then seen t xs a \<union> subtree t x else seen t xs a)"
  by (auto simp: seen_def)

lemma finite_seen [simp]: "finite (seen t xs a)"
  by (simp add: seen_def)

lemma seen_complete:
  assumes wf: "wf_polytree t" and a: "a < node_count t"
    and sub: "set xs \<subseteq> {..< node_count t}"
    and all: "\<And>c. c < node_count t \<Longrightarrow> parent t c = Some a \<Longrightarrow> c \<in> set xs"
  shows "seen t xs a = subtree t a"
proof (intro equalityI subsetI)
  fix d assume "d \<in> seen t xs a"
  then consider "d = a" | c where "c \<in> set xs" "parent t c = Some a" "d \<in> subtree t c"
    by (auto simp: seen_def)
  then show "d \<in> subtree t a"
    using a by cases (auto simp: subtree_def intro: descends_refl descends_trans descends_parentI)
next
  fix d assume "d \<in> subtree t a"
  then have "descends t a d" and "d < node_count t" by (auto simp: subtree_def)
  then show "d \<in> seen t xs a"
  proof (induction)
    case descends_refl
    then show ?case by (simp add: seen_def)
  next
    case (descends_step p d)
    from wf_parentD [OF wf descends_step.prems descends_step.hyps(2)] descends_step.IH
    have p: "p \<in> seen t xs a" by simp
    show ?case
    proof (cases "p = a")
      case True
      with descends_step all [of d] show ?thesis
        by (auto simp: seen_def subtree_self)
    next
      case False
      with p obtain c where "c \<in> set xs" "parent t c = Some a" "p \<in> subtree t c"
        by (auto simp: seen_def)
      with subtree_parent [of p t c d] descends_step show ?thesis by (auto simp: seen_def)
    qed
  qed
qed

text \<open>The reverse pass, suffix by suffix.\<close>

lemma seen_suffix:
  assumes wf: "wf_polytree t" and split: "topological_order t = ys @ x # xs"
  shows "x < node_count t" "set xs \<subseteq> {..< node_count t}" "seen t xs x = subtree t x"
proof -
  from split wf_orderD(2) [OF wf] have mem: "set (ys @ x # xs) = {..< node_count t}" by simp
  then have x: "x \<in> {..< node_count t}" by (metis in_set_conv_decomp)
  from mem have xs: "set xs \<subseteq> {..< node_count t}" by auto
  show "x < node_count t" using x by simp
  show "set xs \<subseteq> {..< node_count t}" by (rule xs)
  show "seen t xs x = subtree t x"
  proof (rule seen_complete [OF wf])
    fix c assume c: "c < node_count t" and par: "parent t c = Some x"
    from wf_parentD [OF wf c par] split
    have "position (ys @ x # xs) x < position (ys @ x # xs) c" by simp
    with wf_orderD(1) [OF wf] split mem c show "c \<in> set xs"
      by (intro position_later [of ys x xs]) auto
  qed (use x xs in auto)
qed

lemma seen_disjoint:
  assumes wf: "wf_polytree t" and split: "topological_order t = ys @ x # xs"
    and par: "parent t x = Some p"
  shows "seen t xs p \<inter> subtree t x = {}"
proof -
  have x: "x < node_count t" and xs: "set xs \<subseteq> {..< node_count t}"
    using seen_suffix [OF wf split] by auto
  have notin: "x \<notin> set xs" using wf_orderD(1) [OF wf] split by simp
  have "p \<notin> subtree t x"
    using descends_rank [OF wf, of x p] wf_parentD [OF wf x par] by (auto simp: subtree_def)
  moreover have "subtree t c \<inter> subtree t x = {}" if "c \<in> set xs" "parent t c = Some p" for c
    using subtree_children_disjoint [OF wf that(2) par] that xs x notin by auto
  ultimately show ?thesis by (auto simp: seen_def)
qed

lemma length_fold_steps [simp]:
  "length (fold (rank_step t) ps xs) = length xs"
  "length (fold (first_end_step t) ps xs) = length xs"
  "length (fold (end_step t) ns xs) = length xs"
  "length (fold (size_step t) ns xs) = length xs"
  by (rule length_fold_upd, simp)+

lemma size_pass:
  assumes wf: "wf_polytree t" and "topological_order t = ys @ xs" and "a < node_count t"
  shows "fold (size_step t) (rev xs) (replicate (node_count t) 1) ! a = card (seen t xs a)"
  using assms(2,3)
proof (induction xs arbitrary: ys a)
  case Nil
  then show ?case by simp
next
  case (Cons x xs)
  let ?sz = "fold (size_step t) (rev xs) (replicate (node_count t) 1)"
  have split: "topological_order t = (ys @ [x]) @ xs" using Cons.prems(1) by simp
  note IH = Cons.IH [OF split]
  have x: "x < node_count t" and sub: "seen t xs x = subtree t x"
    using seen_suffix [OF wf Cons.prems(1)] by auto
  show ?case
  proof (cases "parent t x")
    case None
    with IH [OF Cons.prems(2)] show ?thesis by (simp add: step_None seen_Cons)
  next
    case (Some p)
    have "card (seen t xs p \<union> subtree t x) = card (seen t xs p) + card (subtree t x)"
      using seen_disjoint [OF wf Cons.prems(1) Some] by (intro card_Un_disjoint) auto
    with Some IH [OF x] IH [OF Cons.prems(2)] sub Cons.prems(2) show ?thesis
      by (auto simp: step_Some seen_Cons nth_list_update)
  qed
qed

lemma end_pass:
  assumes wf: "wf_polytree t" and "topological_order t = ys @ xs"
    and "a < node_count t" and "d \<in> seen t xs a"
    and len: "length se = node_count t"
    and init: "\<And>a. a < node_count t \<Longrightarrow> rank t a < se ! a"
  shows "rank t d < fold (end_step t) (rev xs) se ! a"
  using assms(2-4)
proof (induction xs arbitrary: ys a d)
  case Nil
  with init show ?case by simp
next
  case (Cons x xs)
  have split: "topological_order t = (ys @ [x]) @ xs" using Cons.prems(1) by simp
  note IH = Cons.IH [OF split]
  have x: "x < node_count t" and sub: "seen t xs x = subtree t x"
    using seen_suffix [OF wf Cons.prems(1)] by auto
  show ?case
  proof (cases "parent t x")
    case None
    with IH Cons.prems show ?thesis by (simp add: step_None seen_Cons)
  next
    case (Some p)
    have "p < node_count t" using wf_parentD [OF wf x Some] by simp
    with Some IH [OF x, of d] IH [OF Cons.prems(2), of d] sub Cons.prems(2,3) len show ?thesis
      by (auto simp: step_Some seen_Cons nth_list_update less_max_iff_disj split: if_splits)
  qed
qed

text \<open>The level pass writes every node of a level once: levels are disjoint.\<close>

lemma level_step_pair:
  "level_step t l (dl, w) =
   (fold (\<lambda>node dl. dl[node := l]) (dependency_levels t ! l) dl,
    max w (length (dependency_levels t ! l)))"
  by (simp add: level_step_def Let_def)

lemma level_pass_untouched:
  assumes "\<And>l. l \<in> set ls \<Longrightarrow> n \<notin> set (dependency_levels t ! l)"
  shows "fst (fold (level_step t) ls (dl, w)) ! n = dl ! n"
  using assms
proof (induction ls arbitrary: dl w)
  case (Cons l ls)
  have "fold (\<lambda>node dl. dl[node := l]) (dependency_levels t ! l) dl ! n = dl ! n"
    using Cons.prems [of l] by (intro nth_fold_upd_other) (metis list.set_intros(1) nth_list_update_neq)
  with Cons show ?case by (simp add: level_step_pair)
qed simp

lemma length_level_pass: "length (fst (fold (level_step t) ls (dl, w))) = length dl"
proof (induction ls arbitrary: dl w)
  case (Cons l ls)
  then show ?case by (simp add: level_step_pair length_fold_upd)
qed simp

lemma level_index_unique:
  assumes "levels_ok t" and "i < length (dependency_levels t)" and "j < length (dependency_levels t)"
    and "n \<in> set (dependency_levels t ! i)" and "n \<in> set (dependency_levels t ! j)"
  shows "i = j"
  using assms distinct_concat_index [of "dependency_levels t"] by (auto simp: levels_ok_def)

lemma level_pass:
  assumes "levels_ok t" and "distinct ls" and "set ls \<subseteq> {..< length (dependency_levels t)}"
    and "i \<in> set ls" and "n \<in> set (dependency_levels t ! i)" and "n < length dl"
  shows "fst (fold (level_step t) ls (dl, w)) ! n = i"
  using assms(2-)
proof (induction ls arbitrary: dl w)
  case (Cons l ls)
  let ?dl = "fold (\<lambda>node dl. dl[node := l]) (dependency_levels t ! l) dl"
  have len: "length ?dl = length dl" by (rule length_fold_upd) simp
  show ?case
  proof (cases "i = l")
    case True
    have "?dl ! n = l" using True Cons.prems by (simp add: fold_stamp_nth)
    moreover have "n \<notin> set (dependency_levels t ! k)" if "k \<in> set ls" for k
      using level_index_unique [OF assms(1), of k i n] that True Cons.prems by auto
    ultimately show ?thesis
      using True by (simp add: level_step_pair level_pass_untouched)
  next
    case False
    with Cons len show ?thesis by (simp add: level_step_pair)
  qed
qed simp

subsection \<open>Preparing a workspace\<close>

lemma build_metadata_ok:
  assumes wf: "wf_polytree t"
  shows "metadata_ok t (build_metadata t ws)"
proof -
  let ?n = "node_count t"
  define rk where "rk = fold (rank_step t) [0..<?n] (resize ?n 0 (m_topological_rank ws))"
  define se0 where "se0 = fold (first_end_step t) [0..<?n] (resize ?n 0 (m_subtree_end ws))"
  define se where "se = fold (end_step t) (rev (topological_order t)) se0"
  define sz where "sz = fold (size_step t) (rev (topological_order t)) (replicate ?n (Suc 0))"
  define lv where "lv = fold (level_step t) [0..<length (dependency_levels t)]
    (resize ?n 0 (m_dependency_level ws), 0)"
  have all: "topological_order t = [] @ topological_order t" by simp
  have sub: "seen t (topological_order t) a = subtree t a" if "a < ?n" for a
    by (rule seen_complete [OF wf that]) (simp_all add: wf_orderD [OF wf])
  have rk: "\<forall>a < ?n. rk ! a = rank t a"
    unfolding rk_def by (intro allI impI rank_pass [OF wf]) simp_all
  have se: "\<forall>a < ?n. \<forall>d \<in> subtree t a. rank t d < se ! a"
    unfolding se_def using sub
    by (intro allI impI ballI end_pass [OF wf all])
      (auto simp: se0_def first_end_pass [OF wf])
  have sz: "\<forall>a < ?n. sz ! a = card (subtree t a)"
    unfolding sz_def using sub size_pass [OF wf all] by simp
  have "levels_ok t" using wf by (simp add: wf_polytree_def)
  then have lv: "\<forall>i < length (dependency_levels t). \<forall>n \<in> set (dependency_levels t ! i). fst lv ! n = i"
    unfolding lv_def using level_pass [of t "[0..<length (dependency_levels t)]"]
    by (auto simp: levels_ok_def intro!: level_pass)
  show ?thesis
    using rk se sz lv wf_orderD(2) [OF wf]
    by (simp add: build_metadata_def metadata_ok_def Let_def fold_pair wf_reverseD [OF wf]
        split_beta length_level_pass list_all_iff flip: rk_def se0_def se_def sz_def lv_def)
      (simp add: rk_def lv_def length_level_pass)
qed

lemma open_generation_stamps:
  assumes "stamps_ok ws"
  shows "s \<in> set (m_affected (open_generation ws)) \<union> set (m_selected (open_generation ws)) \<Longrightarrow>
      s < m_generation (open_generation ws)"
    and "m_generation (open_generation ws) \<noteq> 0"
proof -
  show "s < m_generation (open_generation ws)"
    if s: "s \<in> set (m_affected (open_generation ws)) \<union> set (m_selected (open_generation ws))"
  proof (cases "m_generation ws + 1 = 0")
    case True
    with s show ?thesis by (auto simp: open_generation_def)
  next
    case False
    then have "m_generation ws \<noteq> - 1" by auto
    moreover have "s \<le> m_generation ws"
      using s assms False by (auto simp: open_generation_def stamps_ok_def)
    ultimately show ?thesis
      using False less_next [of "m_generation ws"] by (simp add: open_generation_def)
  qed
qed (simp add: open_generation_def)

lemma open_generation_metadata: "metadata_ok t (open_generation ws) = metadata_ok t ws"
  by (rule metadata_ok_cong) (simp_all add: open_generation_def)

lemma open_generation_key [simp]:
  "m_topology_identity (open_generation ws) = m_topology_identity ws"
  "m_topological_rank (open_generation ws) = m_topological_rank ws"
  "m_requested_roots (open_generation ws) = m_requested_roots ws"
  by (simp_all add: open_generation_def)

lemma build_metadata_fields [simp]:
  "m_affected (build_metadata t ws) = replicate (node_count t) 0"
  "m_selected (build_metadata t ws) = replicate (node_count t) 0"
  "m_generation (build_metadata t ws) = m_generation ws"
  "m_requested_roots (build_metadata t ws) = m_requested_roots ws"
  "m_topology_identity (build_metadata t ws) = Some (pt_identity t)"
  by (simp_all add: build_metadata_def Let_def split_beta)

lemma clear_results_metadata: "metadata_ok t (clear_results ws) = metadata_ok t ws"
  by (rule metadata_ok_cong) (simp_all add: clear_results_def)

lemma prepared_clear_results:
  assumes "metadata_ok t ws" and "m_topology_identity ws = Some (pt_identity t)"
    and "\<And>s. s \<in> set (m_affected ws) \<union> set (m_selected ws) \<Longrightarrow> s < m_generation ws"
  shows "prepared t (clear_results ws)"
proof -
  have "m_affected ws ! a \<noteq> m_generation ws \<and> m_selected ws ! a \<noteq> m_generation ws"
    if "a < node_count t" for a
    using assms(1,3) that nth_mem [of a "m_affected ws"] nth_mem [of a "m_selected ws"]
    by (fastforce simp: metadata_ok_def)
  with assms show ?thesis
    by (auto simp: prepared_def clear_results_metadata) 
      (auto simp: clear_results_def stamps_ok_def intro: order.strict_implies_order)
qed

lemma prepare_prepared:
  assumes wf: "wf_polytree t" and coh: "cache_coherent t ws" and st: "stamps_ok ws"
  shows "prepared t (prepare t ws)"
proof (cases "m_topology_identity ws \<noteq> Some (pt_identity t) \<or>
    length (m_topological_rank ws) \<noteq> node_count t")
  case True
  then have "prepare t ws = clear_results (build_metadata t (open_generation ws))"
    by (auto simp: prepare_def)
  moreover have "0 < m_generation (open_generation ws)"
    using open_generation_stamps(2) [OF st] by (simp add: word_gt_0)
  ultimately show ?thesis
    using build_metadata_ok [OF wf] by (auto intro!: prepared_clear_results)
next
  case False
  then have "prepare t ws = clear_results (open_generation ws)" by (auto simp: prepare_def)
  with False coh open_generation_stamps(1) [OF st] show ?thesis
    by (auto intro!: prepared_clear_results simp: open_generation_metadata cache_coherent_def)
qed

lemma prepare_requested [simp]: "m_requested_roots (prepare t ws) = m_requested_roots ws"
  by (simp add: prepare_def clear_results_def Let_def)

lemma stamps_ok_new: "stamps_ok new_workspace"
  by (simp add: stamps_ok_def new_workspace_def)

lemma cache_coherent_new: "cache_coherent t new_workspace"
  by (simp add: cache_coherent_def new_workspace_def)

lemma prepared_coherent: "prepared t ws \<Longrightarrow> cache_coherent t ws \<and> stamps_ok ws"
  by (simp add: prepared_def cache_coherent_def)

end
