(* ===== verification/Transform_Plan.thy ===== *)
theory Transform_Plan
  imports Transform_Workspace
begin

section \<open>Dirty planning\<close>

text \<open>
  \<open>detail::make_plan\<close> of \<open>transform_evaluation.hpp\<close>. The code has four ways of finding the
  affected nodes: nothing is dirty, everything is dirty, cached contiguous subtree ranges, and
  a sweep over the whole order. They share one contract, the locale \<open>affected_collector\<close>:
  the dirty roots and the affected nodes, both in topological order, of the rule
  \<open>affected(node) = directly_dirty(node) OR affected(parent(node))\<close>. The two collectors a partial
  plan can follow also stamp every affected node and record its owner (\<open>owned_collector\<close>).
\<close>

subsection \<open>The plan and its four collectors\<close>

record transform_evaluation_plan =
  plan_dirty_roots :: "node_handle list"
  plan_ordered_nodes :: "node_handle list"
  plan_source_revision :: u64
  plan_mutation_generation :: u64
  plan_evaluation_generation :: u64
  plan_topology_identity :: nat
  plan_workspace_generation :: u64

definition collect_clean ::
  "polytree \<Rightarrow> 'a transform_state \<Rightarrow> transform_evaluation_workspace \<Rightarrow> transform_evaluation_workspace" where
  "collect_clean t st ws = ws"

definition collect_all ::
  "polytree \<Rightarrow> 'a transform_state \<Rightarrow> transform_evaluation_workspace \<Rightarrow> transform_evaluation_workspace" where
  "collect_all t st ws =
     ws\<lparr>m_dirty_roots := pt_roots t, m_affected_nodes := topological_order t\<rparr>"

definition cached_subtree ::
  "polytree \<Rightarrow> transform_evaluation_workspace \<Rightarrow> node_handle \<Rightarrow> node_handle list" where
  "cached_subtree t ws a =
     (let first = m_topological_rank ws ! a
      in take (m_subtree_end ws ! a - first) (drop first (topological_order t)))"

definition contiguous_step ::
  "polytree \<Rightarrow> node_handle \<Rightarrow> transform_evaluation_workspace \<Rightarrow> transform_evaluation_workspace" where
  "contiguous_step t candidate ws =
     (if m_affected ws ! candidate = m_generation ws then ws
      else let nodes = cached_subtree t ws candidate
           in ws\<lparr>m_dirty_roots := m_dirty_roots ws @ [candidate],
                 m_affected := fold (\<lambda>node xs. xs[node := m_generation ws]) nodes (m_affected ws),
                 m_owner := fold (\<lambda>node xs. xs[node := Some candidate]) nodes (m_owner ws),
                 m_affected_nodes := m_affected_nodes ws @ nodes\<rparr>)"

definition ranked_candidates ::
  "'a transform_state \<Rightarrow> transform_evaluation_workspace \<Rightarrow> node_handle list" where
  "ranked_candidates st ws =
     (let rank_of = (\<lambda>node. m_topological_rank ws ! node)
      in if sorted (map rank_of (m_dirty_nodes st)) then m_dirty_nodes st
         else sort_key rank_of (m_dirty_nodes st))"

definition collect_contiguous ::
  "polytree \<Rightarrow> 'a transform_state \<Rightarrow> transform_evaluation_workspace \<Rightarrow> transform_evaluation_workspace" where
  "collect_contiguous t st ws =
     (let cs = ranked_candidates st ws
      in fold (contiguous_step t) cs (ws\<lparr>m_dirty_candidates := cs\<rparr>))"

definition sweep_step ::
  "polytree \<Rightarrow> 'a transform_state \<Rightarrow> node_handle \<Rightarrow> transform_evaluation_workspace \<Rightarrow>
   transform_evaluation_workspace" where
  "sweep_step t st node ws =
     (let parent_affected = (case parent t node of
            None \<Rightarrow> False
          | Some p \<Rightarrow> m_affected ws ! p = m_generation ws)
      in if \<not> r_dirty (m_records st ! node) \<and> \<not> parent_affected then ws
         else let owner = (if parent_affected then m_owner ws ! the (parent t node) else Some node)
              in ws\<lparr>m_affected := (m_affected ws)[node := m_generation ws],
                    m_owner := (m_owner ws)[node := owner],
                    m_affected_nodes := m_affected_nodes ws @ [node],
                    m_dirty_roots :=
                      (if parent_affected then m_dirty_roots ws else m_dirty_roots ws @ [node])\<rparr>)"

definition collect_sweep ::
  "polytree \<Rightarrow> 'a transform_state \<Rightarrow> transform_evaluation_workspace \<Rightarrow> transform_evaluation_workspace" where
  "collect_sweep t st ws = fold (sweep_step t st) (topological_order t) ws"

definition collect_affected ::
  "polytree \<Rightarrow> 'a transform_state \<Rightarrow> bool \<Rightarrow> transform_evaluation_workspace \<Rightarrow>
   transform_evaluation_workspace" where
  "collect_affected t st partial ws =
     (if \<not> has_dirty_transforms st then collect_clean t st ws
      else if \<not> partial \<and> length (m_dirty_nodes st) = node_count t then collect_all t st ws
      else if m_subtrees_are_contiguous ws then collect_contiguous t st ws
      else collect_sweep t st ws)"

subsection \<open>Scope validation and the plan\<close>

text \<open>
  \<open>std::ranges::all_of\<close> with the stamping predicate: it stops at the first handle that is out
  of range, repeated, unaffected or not its own owner, keeping the stamps set so far.
\<close>

fun check_scope ::
  "transform_evaluation_workspace \<Rightarrow> u64 list \<Rightarrow> node_handle list \<Rightarrow> bool \<times> u64 list" where
  "check_scope ws selected [] = (True, selected)"
| "check_scope ws selected (root # roots) =
     (if length selected \<le> root \<or> selected ! root = m_generation ws \<or>
         m_affected ws ! root \<noteq> m_generation ws \<or> m_owner ws ! root \<noteq> Some root
      then (False, selected)
      else check_scope ws (selected[root := m_generation ws]) roots)"

definition owner_selected ::
  "transform_evaluation_workspace \<Rightarrow> u64 list \<Rightarrow> node_handle \<Rightarrow> bool" where
  "owner_selected ws selected node \<longleftrightarrow> selected ! the (m_owner ws ! node) = m_generation ws"

definition plan_of ::
  "polytree \<Rightarrow> 'a transform_state \<Rightarrow> transform_evaluation_workspace \<Rightarrow> node_handle list \<Rightarrow>
   node_handle list \<Rightarrow> transform_evaluation_plan" where
  "plan_of t st ws roots nodes =
     \<lparr>plan_dirty_roots = roots, plan_ordered_nodes = nodes,
      plan_source_revision = m_revision st,
      plan_mutation_generation = m_mutation_generation st,
      plan_evaluation_generation = m_evaluation_generation st,
      plan_topology_identity = pt_identity t,
      plan_workspace_generation = m_generation ws\<rparr>"

definition make_plan ::
  "polytree \<Rightarrow> 'a transform_state \<Rightarrow> transform_evaluation_workspace \<Rightarrow> node_handle list \<Rightarrow> bool \<Rightarrow>
   (transform_error + transform_evaluation_plan) \<times> transform_evaluation_workspace" where
  "make_plan t st ws selected_roots partial =
     (if length (m_records st) \<noteq> node_count t then (Inl te_state_size_mismatch, ws)
      else
        let ws = ws\<lparr>m_requested_roots := (if partial then selected_roots else [])\<rparr>;
            ws = collect_affected t st partial (prepare t ws)
        in if partial then
             (case check_scope ws (m_selected ws) (m_requested_roots ws) of
                (False, selected) \<Rightarrow> (Inl te_invalid_scope, ws\<lparr>m_selected := selected\<rparr>)
              | (True, selected) \<Rightarrow>
                  let roots = filter (\<lambda>root. selected ! root = m_generation ws) (m_dirty_roots ws);
                      nodes = filter (owner_selected ws selected) (m_affected_nodes ws);
                      ws = ws\<lparr>m_selected := selected, m_selected_dirty_roots := roots,
                              m_selected_nodes := nodes\<rparr>
                  in (Inr (plan_of t st ws roots nodes), ws))
           else (Inr (plan_of t st ws (m_dirty_roots ws) (m_affected_nodes ws)), ws))"

definition make_transform_evaluation_plan ::
  "polytree \<Rightarrow> 'a transform_state \<Rightarrow> transform_evaluation_workspace \<Rightarrow>
   (transform_error + transform_evaluation_plan) \<times> transform_evaluation_workspace" where
  "make_transform_evaluation_plan t st ws = make_plan t st ws [] False"

definition make_partial_evaluation_plan ::
  "polytree \<Rightarrow> 'a transform_state \<Rightarrow> transform_evaluation_workspace \<Rightarrow> node_handle list \<Rightarrow>
   (transform_error + transform_evaluation_plan) \<times> transform_evaluation_workspace" where
  "make_partial_evaluation_plan t st ws selected_dirty_roots = make_plan t st ws selected_dirty_roots True"

subsection \<open>The rule the plan implements\<close>

inductive is_affected :: "polytree \<Rightarrow> 'a transform_state \<Rightarrow> node_handle \<Rightarrow> bool" for t st where
  directly_dirty: "r_dirty (m_records st ! n) \<Longrightarrow> is_affected t st n"
| parent_affected: "parent t n = Some p \<Longrightarrow> is_affected t st p \<Longrightarrow> is_affected t st n"

inductive_simps is_affected_unfold: "is_affected t st n"

definition canonical_nodes :: "polytree \<Rightarrow> 'a transform_state \<Rightarrow> node_handle list" where
  "canonical_nodes t st = filter (is_affected t st) (topological_order t)"

definition canonical_roots :: "polytree \<Rightarrow> 'a transform_state \<Rightarrow> node_handle list" where
  "canonical_roots t st =
     filter (\<lambda>n. is_affected t st n \<and> (\<forall>p. parent t n = Some p \<longrightarrow> \<not> is_affected t st p))
       (topological_order t)"

definition plannable :: "polytree \<Rightarrow> 'a transform_state \<Rightarrow> bool" where
  "plannable t st \<longleftrightarrow>
     wf_polytree t \<and> frontier_exact st \<and> length (m_records st) = node_count t"

lemma is_affected_descends:
  "is_affected t st n \<longleftrightarrow> (\<exists>a. r_dirty (m_records st ! a) \<and> descends t a n)"
proof
  assume "is_affected t st n"
  then show "\<exists>a. r_dirty (m_records st ! a) \<and> descends t a n"
    by induction (auto intro: descends.intros)
next
  assume "\<exists>a. r_dirty (m_records st ! a) \<and> descends t a n"
  then obtain a where "r_dirty (m_records st ! a)" and "descends t a n" by blast
  from this(2,1) show "is_affected t st n"
    by induction (auto intro: is_affected.intros)
qed

lemma is_affected_below: "is_affected t st a \<Longrightarrow> descends t a d \<Longrightarrow> is_affected t st d"
  unfolding is_affected_descends by (blast intro: descends_trans)

lemma plannableD:
  assumes "plannable t st"
  shows "wf_polytree t" "frontier_exact st" "length (m_records st) = node_count t"
    "distinct (m_dirty_nodes st)"
    "set (m_dirty_nodes st) = {n. n < node_count t \<and> r_dirty (m_records st ! n)}"
  using assms by (auto simp: plannable_def frontier_exact_def)

lemma is_affected_subtree:
  assumes "plannable t st" and "n < node_count t"
  shows "is_affected t st n \<longleftrightarrow> (\<exists>c \<in> set (m_dirty_nodes st). n \<in> subtree t c)"
  using assms(2) descends_rank [OF plannableD(1) [OF assms(1)]] plannableD(5) [OF assms(1)]
  by (auto simp: is_affected_descends subtree_def)

lemma set_canonical_nodes:
  "wf_polytree t \<Longrightarrow> set (canonical_nodes t st) = {n. n < node_count t \<and> is_affected t st n}"
  by (auto simp: canonical_nodes_def wf_orderD)

lemma distinct_canonical [simp]:
  "wf_polytree t \<Longrightarrow> distinct (canonical_nodes t st)"
  "wf_polytree t \<Longrightarrow> distinct (canonical_roots t st)"
  by (auto simp: canonical_nodes_def canonical_roots_def wf_orderD)

text \<open>A canonical root is a directly dirty node without a directly dirty proper ancestor.\<close>

lemma canonical_root_iff:
  assumes pl: "plannable t st"
  shows "n \<in> set (canonical_roots t st) \<longleftrightarrow>
    n \<in> set (m_dirty_nodes st) \<and> (\<forall>d \<in> set (m_dirty_nodes st). descends t d n \<longrightarrow> d = n)"
    (is "?L \<longleftrightarrow> ?R")
proof
  assume ?L
  then have n: "n < node_count t" and aff: "is_affected t st n"
    and top: "\<And>p. parent t n = Some p \<Longrightarrow> \<not> is_affected t st p"
    using wf_orderD [OF plannableD(1) [OF pl]] by (auto simp: canonical_roots_def)
  from aff top have "r_dirty (m_records st ! n)" by (auto simp: is_affected_unfold [of t st n])
  moreover have "d = n" if "d \<in> set (m_dirty_nodes st)" and "descends t d n" for d
    using descends_cases_parent [OF that(2)] top that plannableD(5) [OF pl]
    by (auto simp: is_affected_descends)
  ultimately show ?R using n plannableD(5) [OF pl] by auto
next
  assume R: ?R
  then have n: "n < node_count t" and dirty: "r_dirty (m_records st ! n)"
    using plannableD(5) [OF pl] by auto
  note wf = plannableD(1) [OF pl]
  have "\<not> is_affected t st p" if par: "parent t n = Some p" for p
  proof
    have p: "p < node_count t" "rank t p < rank t n" using wf_parentD [OF wf n par] by auto
    assume "is_affected t st p"
    then obtain d where d: "d \<in> set (m_dirty_nodes st)" "descends t d p"
      using is_affected_subtree [OF pl p(1)] by (auto simp: subtree_def)
    with par R have "d = n" by (blast intro: descends_step)
    with d descends_rank [OF wf d(2) p(1)] p show False by simp
  qed
  with n dirty wf_orderD(2) [OF wf] show ?L
    by (auto simp: canonical_roots_def intro: directly_dirty)
qed

subsection \<open>The contract of the collectors\<close>

text \<open>What a collector leaves alone.\<close>

definition collector_frame ::
  "polytree \<Rightarrow> transform_evaluation_workspace \<Rightarrow> transform_evaluation_workspace \<Rightarrow> bool" where
  "collector_frame t ws ws' \<longleftrightarrow>
     m_generation ws' = m_generation ws \<and> m_selected ws' = m_selected ws \<and>
     m_requested_roots ws' = m_requested_roots ws \<and>
     m_topology_identity ws' = m_topology_identity ws \<and>
     m_dependency_level ws' = m_dependency_level ws \<and>
     m_maximum_level_width ws' = m_maximum_level_width ws \<and>
     metadata_ok t ws' \<and> stamps_ok ws'"

text \<open>The stamps and owners after collecting the subtrees of the nodes in \<open>D\<close>.\<close>

definition owned_by ::
  "polytree \<Rightarrow> node_handle set \<Rightarrow> node_handle set \<Rightarrow> transform_evaluation_workspace \<Rightarrow> bool" where
  "owned_by t A R ws \<longleftrightarrow>
     (\<forall>x < node_count t. m_affected ws ! x = m_generation ws \<longleftrightarrow> x \<in> A) \<and>
     (\<forall>x \<in> A. \<exists>r \<in> R. m_owner ws ! x = Some r \<and> descends t r x)"

locale affected_collector =
  fixes collect :: "polytree \<Rightarrow> 'a transform_state \<Rightarrow> transform_evaluation_workspace \<Rightarrow>
      transform_evaluation_workspace"
    and admissible :: "polytree \<Rightarrow> 'a transform_state \<Rightarrow> transform_evaluation_workspace \<Rightarrow> bool"
  assumes collect_nodes:
    "plannable t st \<Longrightarrow> prepared t ws \<Longrightarrow> admissible t st ws \<Longrightarrow>
     m_affected_nodes (collect t st ws) = canonical_nodes t st"
    and collect_roots:
    "plannable t st \<Longrightarrow> prepared t ws \<Longrightarrow> admissible t st ws \<Longrightarrow>
     m_dirty_roots (collect t st ws) = canonical_roots t st"
    and collect_frame:
    "plannable t st \<Longrightarrow> prepared t ws \<Longrightarrow> admissible t st ws \<Longrightarrow>
     collector_frame t ws (collect t st ws)"
begin

lemma collect_downward_closed:
  assumes "plannable t st" and "prepared t ws" and "admissible t st ws"
    and "p \<in> set (m_affected_nodes (collect t st ws))" and "parent t d = Some p"
    and "d < node_count t"
  shows "d \<in> set (m_affected_nodes (collect t st ws))"
  using assms collect_nodes [OF assms(1-3)] set_canonical_nodes [OF plannableD(1) [OF assms(1)], of st]
  by (auto intro: is_affected.intros)

lemma collect_covers_dirty:
  assumes "plannable t st" and "prepared t ws" and "admissible t st ws"
  shows "set (m_dirty_nodes st) \<subseteq> set (m_affected_nodes (collect t st ws))"
  using collect_nodes [OF assms] set_canonical_nodes [OF plannableD(1) [OF assms(1)], of st]
    plannableD(5) [OF assms(1)] by (auto intro: is_affected.intros)

end

locale owned_collector = affected_collector +
  assumes collect_owned:
    "plannable t st \<Longrightarrow> prepared t ws \<Longrightarrow> admissible t st ws \<Longrightarrow>
     owned_by t (set (canonical_nodes t st)) (set (canonical_roots t st)) (collect t st ws)"

text \<open>Nothing dirty.\<close>

lemma no_dirty_canonical:
  assumes "plannable t st" and "\<not> has_dirty_transforms st"
  shows "canonical_nodes t st = []" "canonical_roots t st = []"
  using assms is_affected_subtree [OF assms(1)] wf_orderD(2) [OF plannableD(1) [OF assms(1)]]
  by (auto simp: canonical_nodes_def canonical_roots_def has_dirty_transforms_def filter_empty_conv)

lemma prepared_frame: "prepared t ws \<Longrightarrow> collector_frame t ws ws"
  by (simp add: prepared_def collector_frame_def)

interpretation clean: owned_collector collect_clean
  "\<lambda>t st ws. \<not> has_dirty_transforms (st :: 'a transform_state)"
proof unfold_locales
  fix t and st :: "'a transform_state" and ws
  assume a: "plannable t st" "prepared t ws" "\<not> has_dirty_transforms st"
  note none = no_dirty_canonical [OF a(1,3)]
  show "m_affected_nodes (collect_clean t st ws) = canonical_nodes t st"
    and "m_dirty_roots (collect_clean t st ws) = canonical_roots t st"
    using a(2) none by (simp_all add: collect_clean_def prepared_def)
  show "collector_frame t ws (collect_clean t st ws)"
    using a(2) by (simp add: collect_clean_def prepared_frame)
  show "owned_by t (set (canonical_nodes t st)) (set (canonical_roots t st)) (collect_clean t st ws)"
    using a(2) none by (simp add: collect_clean_def prepared_def owned_by_def)
qed

text \<open>Everything dirty: the cached views of the generic plan are the result.\<close>

lemma all_dirty:
  assumes pl: "plannable t st" and "length (m_dirty_nodes st) = node_count t"
  shows "set (m_dirty_nodes st) = {..< node_count t}"
proof (rule card_subset_eq)
  show "set (m_dirty_nodes st) \<subseteq> {..< node_count t}" using plannableD(5) [OF pl] by auto
  show "card (set (m_dirty_nodes st)) = card {..< node_count t}"
    using distinct_card [OF plannableD(4) [OF pl]] assms(2) by simp
qed simp

interpretation all: affected_collector collect_all
  "\<lambda>t st ws. length (m_dirty_nodes (st :: 'a transform_state)) = node_count t"
proof unfold_locales
  fix t and st :: "'a transform_state" and ws
  assume a: "plannable t st" "prepared t ws" "length (m_dirty_nodes st) = node_count t"
  note wf = plannableD(1) [OF a(1)]
  have aff: "is_affected t st n" if "n < node_count t" for n
    using all_dirty [OF a(1,3)] plannableD(5) [OF a(1)] that by (auto intro: directly_dirty)
  show "m_affected_nodes (collect_all t st ws) = canonical_nodes t st"
    using aff wf_orderD(2) [OF wf]
    by (simp add: collect_all_def canonical_nodes_def filter_id_conv)
  show "m_dirty_roots (collect_all t st ws) = canonical_roots t st"
    using aff wf_orderD(2) [OF wf] wf_parentD(1) [OF wf]
    by (auto simp: collect_all_def canonical_roots_def wf_rootsD [OF wf] intro!: filter_cong)
  show "collector_frame t ws (collect_all t st ws)"
    using a(2) metadata_ok_cong [of "collect_all t st ws" ws t]
    by (simp add: collect_all_def collector_frame_def prepared_def stamps_ok_def)
qed

text \<open>Contiguous subtree ranges.\<close>

lemma cached_subtree_eq:
  assumes "metadata_ok t ws" and "a < node_count t"
  shows "cached_subtree t ws a =
    take (m_subtree_end ws ! a - rank t a) (drop (rank t a) (topological_order t))"
  using assms by (simp add: cached_subtree_def Let_def metadata_ok_rank)

lemma set_take_drop_nth:
  assumes "distinct xs"
  shows "set (take k (drop i xs)) = {x \<in> set xs. i \<le> position xs x \<and> position xs x < i + k}"
proof (rule set_eqI)
  fix x
  have "x \<in> set (take k (drop i xs)) \<longleftrightarrow>
      (\<exists>j. j < length (take k (drop i xs)) \<and> take k (drop i xs) ! j = x)"
    by (simp only: in_set_conv_nth)
  also have "\<dots> \<longleftrightarrow> (\<exists>j. j < k \<and> i + j < length xs \<and> xs ! (i + j) = x)"
    by (rule ex_cong1) (auto simp: less_diff_conv add.commute)
  also have "\<dots> \<longleftrightarrow> x \<in> set xs \<and> i \<le> position xs x \<and> position xs x < i + k"
  proof
    assume "\<exists>j. j < k \<and> i + j < length xs \<and> xs ! (i + j) = x"
    then show "x \<in> set xs \<and> i \<le> position xs x \<and> position xs x < i + k"
      using assms by (auto simp: position_nth)
  next
    assume "x \<in> set xs \<and> i \<le> position xs x \<and> position xs x < i + k"
    then show "\<exists>j. j < k \<and> i + j < length xs \<and> xs ! (i + j) = x"
      using nth_position [of x xs] position_less [of x xs]
      by (intro exI [of _ "position xs x - i"]) auto
  qed
  finally show "x \<in> set (take k (drop i xs)) \<longleftrightarrow>
      x \<in> {x \<in> set xs. i \<le> position xs x \<and> position xs x < i + k}" by simp
qed

lemma cached_subtree_set:
  assumes wf: "wf_polytree t" and md: "metadata_ok t ws" and contig: "m_subtrees_are_contiguous ws"
    and a: "a < node_count t"
  shows "set (cached_subtree t ws a) = subtree t a"
proof -
  let ?e = "m_subtree_end ws ! a" and ?seg = "cached_subtree t ws a"
  have seg: "set ?seg = {x. x < node_count t \<and> rank t a \<le> rank t x \<and> rank t x < rank t a + (?e - rank t a)}"
    using wf_orderD [OF wf] by (auto simp: cached_subtree_eq [OF md a] set_take_drop_nth)
  have "subtree t a \<subseteq> set ?seg"
  proof
    fix d assume d: "d \<in> subtree t a"
    with descends_rank [OF wf, of a d] metadata_ok_end [OF md d a]
    show "d \<in> set ?seg" by (auto simp: seg subtree_def)
  qed
  moreover have "card (set ?seg) \<le> card (subtree t a)"
    using card_length [of ?seg] metadata_ok_contiguous [OF md contig a]
    by (simp add: cached_subtree_eq [OF md a])
  ultimately show ?thesis by (metis card_seteq List.finite_set)
qed

text \<open>A range keeps the order, and every node ranked between two of its nodes is in it.\<close>

lemma cached_subtree_sorted:
  assumes wf: "wf_polytree t" and md: "metadata_ok t ws" and a: "a < node_count t"
  shows "sorted_wrt (\<lambda>x y. rank t x < rank t y) (cached_subtree t ws a)"
proof -
  have "sorted_wrt (\<lambda>x y. rank t x < rank t y) (topological_order t)"
    using wf_orderD [OF wf]
    by (auto simp: sorted_wrt_iff_nth_less position_nth)
  then show ?thesis
    by (simp add: cached_subtree_eq [OF md a] sorted_wrt_take sorted_wrt_drop)
qed

lemma cached_subtree_convex:
  assumes wf: "wf_polytree t" and md: "metadata_ok t ws" and contig: "m_subtrees_are_contiguous ws"
    and "a < node_count t" and "x \<in> subtree t a" and "c < node_count t"
    and "rank t a < rank t c" and "c \<notin> subtree t a"
  shows "rank t x < rank t c"
proof (rule ccontr)
  assume "\<not> rank t x < rank t c"
  moreover have "x \<in> set (cached_subtree t ws a)" and "c \<notin> set (cached_subtree t ws a)"
    using cached_subtree_set [OF wf md contig assms(4)] assms by auto
  ultimately show False
    using assms wf_orderD [OF wf]
    by (auto simp: cached_subtree_eq [OF md assms(4)] set_take_drop_nth)
qed

text \<open>
  The loop over the candidates in rank order. After the candidates in \<open>D\<close>, the workspace holds
  the union of their subtrees, ordered, and the topmost candidates as roots.
\<close>

definition topmost :: "polytree \<Rightarrow> node_handle set \<Rightarrow> node_handle set" where
  "topmost t D = {c \<in> D. \<forall>d \<in> D. descends t d c \<longrightarrow> d = c}"

definition covered :: "polytree \<Rightarrow> node_handle set \<Rightarrow> node_handle set" where
  "covered t D = (\<Union>c \<in> D. subtree t c)"

abbreviation rank_ascending :: "polytree \<Rightarrow> node_handle list \<Rightarrow> bool" where
  "rank_ascending t \<equiv> sorted_wrt (\<lambda>x y. rank t x < rank t y)"

definition collected ::
  "polytree \<Rightarrow> node_handle set \<Rightarrow> transform_evaluation_workspace \<Rightarrow> bool" where
  "collected t D ws \<longleftrightarrow>
     set (m_affected_nodes ws) = covered t D \<and> rank_ascending t (m_affected_nodes ws) \<and>
     set (m_dirty_roots ws) = topmost t D \<and> rank_ascending t (m_dirty_roots ws) \<and>
     owned_by t (covered t D) (topmost t D) ws"

lemma owned_byD:
  assumes "owned_by t A R ws"
  shows "x < node_count t \<Longrightarrow> m_affected ws ! x = m_generation ws \<longleftrightarrow> x \<in> A"
    and "x \<in> A \<Longrightarrow> \<exists>r \<in> R. m_owner ws ! x = Some r \<and> descends t r x"
  using assms by (auto simp: owned_by_def)

lemma covered_bounded: "x \<in> covered t D \<Longrightarrow> x < node_count t"
  by (auto simp: covered_def subtree_def)

lemma topmost_subset: "topmost t D \<subseteq> D"
  by (auto simp: topmost_def)

lemma covered_insert_covered:
  assumes "c \<in> covered t D"
  shows "covered t (insert c D) = covered t D"
  using assms by (auto simp: covered_def subtree_def intro: descends_trans)

lemma topmost_insert_covered:
  assumes wf: "wf_polytree t" and D: "D \<subseteq> {..< node_count t}" and c: "c \<in> covered t D"
    and later: "\<And>d. d \<in> D \<Longrightarrow> rank t d < rank t c"
  shows "topmost t (insert c D) = topmost t D"
proof -
  have "\<not> descends t c d" if "d \<in> D" for d
    using descends_rank [OF wf, of c d] later [OF that] D that by auto
  moreover obtain d where "d \<in> D" "descends t d c" using c by (auto simp: covered_def subtree_def)
  moreover from this later have "d \<noteq> c" by auto
  ultimately show ?thesis by (auto simp: topmost_def)
qed

lemma topmost_insert_fresh:
  assumes wf: "wf_polytree t" and D: "D \<subseteq> {..< node_count t}" and c: "c \<notin> covered t D"
    and later: "\<And>d. d \<in> D \<Longrightarrow> rank t d < rank t c" and "c < node_count t"
  shows "topmost t (insert c D) = insert c (topmost t D)"
proof -
  have "\<not> descends t c d" if "d \<in> D" for d
    using descends_rank [OF wf, of c d] later [OF that] D that by auto
  moreover have "\<not> descends t d c" if "d \<in> D" for d
    using c that assms(5) by (auto simp: covered_def subtree_def)
  ultimately show ?thesis by (auto simp: topmost_def)
qed

lemma contiguous_step_frame:
  assumes md: "metadata_ok t ws" and "stamps_ok ws"
  shows "collector_frame t ws (contiguous_step t c ws)"
    and "m_subtrees_are_contiguous (contiguous_step t c ws) = m_subtrees_are_contiguous ws"
proof -
  let ?ws = "contiguous_step t c ws"
  have "metadata_ok t ?ws"
    using md by (subst metadata_ok_cong [of ?ws ws]) (simp_all add: contiguous_step_def Let_def length_fold_upd)
  moreover have "set (fold (\<lambda>node xs. xs[node := v]) ns xs) \<subseteq> insert v (set xs)"
    for v :: u64 and ns xs
    by (induction ns arbitrary: xs) (auto dest!: set_update_subset_insert [THEN subsetD])
  then have "stamps_ok ?ws"
    using assms(2) by (fastforce simp: stamps_ok_def contiguous_step_def Let_def)
  ultimately show "collector_frame t ws ?ws"
    by (simp add: collector_frame_def contiguous_step_def Let_def)
qed (simp add: contiguous_step_def Let_def)

lemma contiguous_step_collected:
  assumes wf: "wf_polytree t" and md: "metadata_ok t ws" and contig: "m_subtrees_are_contiguous ws"
    and D: "D \<subseteq> {..< node_count t}" and inv: "collected t D ws"
    and c: "c < node_count t" and later: "\<And>d. d \<in> D \<Longrightarrow> rank t d < rank t c"
  shows "collected t (insert c D) (contiguous_step t c ws)"
proof (cases "c \<in> covered t D")
  case True
  with inv c have "contiguous_step t c ws = ws"
    using owned_byD(1) [of t "covered t D"] by (auto simp: collected_def contiguous_step_def)
  with inv True show ?thesis
    by (simp add: collected_def covered_insert_covered topmost_insert_covered [OF wf D True later])
next
  case False
  let ?seg = "cached_subtree t ws c" and ?ws = "contiguous_step t c ws"
  have seg: "set ?seg = subtree t c" by (rule cached_subtree_set [OF wf md contig c])
  have own: "owned_by t (covered t D) (topmost t D) ws" using inv by (simp add: collected_def)
  have ws': "?ws = ws\<lparr>m_dirty_roots := m_dirty_roots ws @ [c],
      m_affected := fold (\<lambda>node xs. xs[node := m_generation ws]) ?seg (m_affected ws),
      m_owner := fold (\<lambda>node xs. xs[node := Some c]) ?seg (m_owner ws),
      m_affected_nodes := m_affected_nodes ws @ ?seg\<rparr>"
    using False owned_byD(1) [OF own c] by (simp add: contiguous_step_def Let_def)
  have cov: "covered t (insert c D) = covered t D \<union> subtree t c" by (auto simp: covered_def)
  have top: "topmost t (insert c D) = insert c (topmost t D)"
    by (rule topmost_insert_fresh [OF wf D False later c])
  have before: "rank t x < rank t y" if "x \<in> covered t D" and "y \<in> subtree t c" for x y
  proof -
    from that(1) obtain d where d: "d \<in> D" "x \<in> subtree t d" by (auto simp: covered_def)
    have "c \<notin> subtree t d" using False d by (auto simp: covered_def)
    with cached_subtree_convex [OF wf md contig _ d(2) c later [OF d(1)]] D d
    have "rank t x < rank t c" by auto
    with descends_rank [OF wf, of c y] that(2) show ?thesis by (auto simp: subtree_def)
  qed
  have "rank_ascending t (m_affected_nodes ws @ ?seg)"
    using inv before cached_subtree_sorted [OF wf md c] seg by (auto simp: collected_def sorted_wrt_append)
  moreover have "rank_ascending t (m_dirty_roots ws @ [c])"
    using inv later topmost_subset [of t D] by (auto simp: collected_def sorted_wrt_append)
  moreover have "owned_by t (covered t D \<union> subtree t c) (insert c (topmost t D)) ?ws"
    using own seg metadata_ok_lengths [OF md] covered_bounded [of _ t D]
    by (auto simp: owned_by_def ws' fold_stamp_nth subtree_def)
  ultimately show ?thesis
    using inv seg by (simp add: collected_def cov top) (auto simp: ws')
qed

lemma contiguous_fold_collected:
  assumes wf: "wf_polytree t" and "metadata_ok t ws" and "stamps_ok ws"
    and "m_subtrees_are_contiguous ws"
    and "collected t D ws" and "D \<subseteq> {..< node_count t}" and "set cs \<subseteq> {..< node_count t}"
    and "rank_ascending t cs" and "\<And>d c. d \<in> D \<Longrightarrow> c \<in> set cs \<Longrightarrow> rank t d < rank t c"
  shows "collected t (D \<union> set cs) (fold (contiguous_step t) cs ws) \<and>
    collector_frame t ws (fold (contiguous_step t) cs ws)"
  using assms(2-)
proof (induction cs arbitrary: D ws)
  case Nil
  then show ?case by (simp add: collector_frame_def)
next
  case (Cons c cs)
  let ?ws = "contiguous_step t c ws"
  note frame = contiguous_step_frame [OF Cons.prems(1,2), of c]
  have "collected t (insert c D) ?ws"
    using Cons.prems by (intro contiguous_step_collected [OF wf]) auto
  moreover have "metadata_ok t ?ws" "stamps_ok ?ws"
    using frame by (simp_all add: collector_frame_def)
  moreover have "rank t d < rank t x" if "d \<in> insert c D" and "x \<in> set cs" for d x
    using that Cons.prems(7,8) by auto
  ultimately have "collected t (insert c D \<union> set cs) (fold (contiguous_step t) cs ?ws) \<and>
      collector_frame t ?ws (fold (contiguous_step t) cs ?ws)"
    using Cons.prems frame(2) by (intro Cons.IH) auto
  with frame(1) show ?case by (auto simp: collector_frame_def)
qed

lemma rank_ascending_unique:
  assumes "rank_ascending t xs" and "rank_ascending t ys" and "set xs = set ys"
  shows "xs = ys"
proof -
  have "sorted_wrt (<) (map (rank t) xs)" "sorted_wrt (<) (map (rank t) ys)"
    using assms(1,2) by (simp_all add: sorted_wrt_map)
  then have "map (rank t) xs = map (rank t) ys"
    using assms(3) by (intro sorted_distinct_set_unique) (auto simp: strict_sorted_iff)
  moreover have "inj_on (rank t) (set xs \<union> set ys)"
  proof (rule inj_onI)
    fix x y assume "x \<in> set xs \<union> set ys" "y \<in> set xs \<union> set ys" "rank t x = rank t y"
    then show "x = y"
      using assms(1,3) by (auto simp: in_set_conv_nth sorted_wrt_iff_nth_less)
        (metis assms(1) in_set_conv_nth linorder_neqE_nat order_less_irrefl sorted_wrt_nth_less)
  qed
  ultimately show ?thesis by (metis map_inj_on)
qed

lemma rank_ascending_order: "wf_polytree t \<Longrightarrow> rank_ascending t (topological_order t)"
  using wf_orderD [of t] by (auto simp: sorted_wrt_iff_nth_less position_nth)

lemma canonical_as_collected:
  assumes pl: "plannable t st"
  shows "set (canonical_nodes t st) = covered t (set (m_dirty_nodes st))"
    and "set (canonical_roots t st) = topmost t (set (m_dirty_nodes st))"
    and "rank_ascending t (canonical_nodes t st)" and "rank_ascending t (canonical_roots t st)"
proof -
  note wf = plannableD(1) [OF pl]
  show "set (canonical_nodes t st) = covered t (set (m_dirty_nodes st))"
  proof (rule set_eqI)
    fix x
    show "x \<in> set (canonical_nodes t st) \<longleftrightarrow> x \<in> covered t (set (m_dirty_nodes st))"
      using set_canonical_nodes [OF wf, of st] is_affected_subtree [OF pl, of x]
        covered_bounded [of x t "set (m_dirty_nodes st)"] by (auto simp: covered_def)
  qed
  show "set (canonical_roots t st) = topmost t (set (m_dirty_nodes st))"
    by (rule set_eqI) (simp add: canonical_root_iff [OF pl] topmost_def)
qed (simp_all add: canonical_nodes_def canonical_roots_def sorted_wrt_filter
    rank_ascending_order [OF plannableD(1) [OF pl]])

lemma collected_canonical:
  assumes pl: "plannable t st" and "collected t (set (m_dirty_nodes st)) ws"
  shows "m_affected_nodes ws = canonical_nodes t st" "m_dirty_roots ws = canonical_roots t st"
    "owned_by t (set (canonical_nodes t st)) (set (canonical_roots t st)) ws"
  using assms(2) canonical_as_collected [OF pl]
  by (auto simp: collected_def intro!: rank_ascending_unique [of t])

lemma ranked_candidates:
  assumes pl: "plannable t st" and md: "metadata_ok t ws"
  shows "set (ranked_candidates st ws) = set (m_dirty_nodes st)"
    and "rank_ascending t (ranked_candidates st ws)"
proof -
  let ?cs = "ranked_candidates st ws" and ?rank = "\<lambda>n. m_topological_rank ws ! n"
  show cs: "set ?cs = set (m_dirty_nodes st)" by (simp add: ranked_candidates_def Let_def)
  have sub: "set ?cs \<subseteq> {..< node_count t}" using cs plannableD(5) [OF pl] by auto
  have "sorted (map ?rank ?cs)" by (simp add: ranked_candidates_def Let_def)
  moreover have "map ?rank ?cs = map (rank t) ?cs"
    using sub metadata_ok_rank [OF md] by (intro map_cong) auto
  ultimately have "sorted (map (rank t) ?cs)" by simp
  moreover have "distinct (map (rank t) ?cs)"
  proof -
    have "distinct ?cs" using plannableD(4) [OF pl] by (simp add: ranked_candidates_def Let_def)
    moreover have "inj_on (rank t) (set ?cs)"
      using sub rank_inj [OF plannableD(1) [OF pl]] by (intro inj_onI) auto
    ultimately show ?thesis by (simp add: distinct_map)
  qed
  ultimately show "rank_ascending t ?cs"
    using strict_sorted_iff [of "map (rank t) ?cs"] by (simp add: sorted_wrt_map)
qed

lemma collected_start:
  assumes "prepared t ws"
  shows "collected t {} (ws\<lparr>m_dirty_candidates := cs\<rparr>)"
  using assms by (auto simp: prepared_def collected_def covered_def topmost_def owned_by_def)

lemma collect_contiguous_collected:
  assumes pl: "plannable t st" and prep: "prepared t ws" and contig: "m_subtrees_are_contiguous ws"
  shows "collected t (set (m_dirty_nodes st)) (collect_contiguous t st ws)"
    and "collector_frame t ws (collect_contiguous t st ws)"
proof -
  let ?cs = "ranked_candidates st ws"
  let ?ws = "ws\<lparr>m_dirty_candidates := ?cs\<rparr>"
  have md: "metadata_ok t ws" "stamps_ok ws" using prep by (simp_all add: prepared_def)
  have "metadata_ok t ?ws" "stamps_ok ?ws"
    using md by (simp_all add: metadata_ok_cong [of ?ws ws] stamps_ok_def)
  then have "collected t ({} \<union> set ?cs) (fold (contiguous_step t) ?cs ?ws) \<and>
      collector_frame t ?ws (fold (contiguous_step t) ?cs ?ws)"
    using ranked_candidates [OF pl md(1)] plannableD [OF pl] contig prep
    by (intro contiguous_fold_collected) (auto simp: collected_start)
  then show "collected t (set (m_dirty_nodes st)) (collect_contiguous t st ws)"
    and "collector_frame t ws (collect_contiguous t st ws)"
    using ranked_candidates(1) [OF pl md(1)]
    by (auto simp: collect_contiguous_def Let_def collector_frame_def)
qed

interpretation contiguous: owned_collector collect_contiguous
  "\<lambda>t (st :: 'a transform_state) ws. m_subtrees_are_contiguous ws"
  by unfold_locales
    (simp_all add: collect_contiguous_collected collected_canonical [OF _ collect_contiguous_collected(1)])

text \<open>The sweep, for orders whose subtrees are not contiguous.\<close>

definition is_root :: "polytree \<Rightarrow> 'a transform_state \<Rightarrow> node_handle \<Rightarrow> bool" where
  "is_root t st n \<longleftrightarrow> is_affected t st n \<and> (\<forall>p. parent t n = Some p \<longrightarrow> \<not> is_affected t st p)"

definition swept ::
  "polytree \<Rightarrow> 'a transform_state \<Rightarrow> node_handle list \<Rightarrow> transform_evaluation_workspace \<Rightarrow> bool" where
  "swept t st ps ws \<longleftrightarrow>
     m_affected_nodes ws = filter (is_affected t st) ps \<and>
     m_dirty_roots ws = filter (is_root t st) ps \<and>
     owned_by t {x \<in> set ps. is_affected t st x} (set (canonical_roots t st)) ws"

lemma sweep_step_frame:
  assumes md: "metadata_ok t ws" and "stamps_ok ws"
  shows "collector_frame t ws (sweep_step t st n ws)"
proof -
  let ?ws = "sweep_step t st n ws"
  have "metadata_ok t ?ws"
    using md by (subst metadata_ok_cong [of ?ws ws]) (simp_all add: sweep_step_def Let_def)
  moreover have "stamps_ok ?ws"
    using assms(2) by (auto simp: stamps_ok_def sweep_step_def Let_def
        dest!: set_update_subset_insert [THEN subsetD])
  ultimately show ?thesis by (simp add: collector_frame_def sweep_step_def Let_def)
qed

lemma sweep_step_swept:
  assumes pl: "plannable t st" and md: "metadata_ok t ws"
    and split: "topological_order t = ps @ n # qs" and inv: "swept t st ps ws"
  shows "swept t st (ps @ [n]) (sweep_step t st n ws)"
proof -
  note wf = plannableD(1) [OF pl]
  let ?R = "set (canonical_roots t st)" and ?A = "{x \<in> set ps. is_affected t st x}"
  have own: "owned_by t ?A ?R ws" using inv by (simp add: swept_def)
  have n: "n < node_count t" and ps: "set ps \<subseteq> {..< node_count t}" and new: "n \<notin> set ps"
    using split wf_orderD(1,2) [OF wf] by (auto simp: set_eq_iff)
  have par: "p \<in> set ps" "p < node_count t" if "parent t n = Some p" for p
  proof -
    show "p < node_count t" using wf_parentD(1) [OF wf n that] .
    show "p \<in> set ps"
      using wf_parentD(2) [OF wf n that] wf_orderD(1) [OF wf] position_earlier [of ps n qs p] split
      by simp
  qed
  have pa: "(case parent t n of None \<Rightarrow> False | Some p \<Rightarrow> m_affected ws ! p = m_generation ws) \<longleftrightarrow>
      (\<exists>p. parent t n = Some p \<and> is_affected t st p)"
    using par owned_byD(1) [OF own] by (auto split: option.split)
  have aff: "is_affected t st n \<longleftrightarrow>
      r_dirty (m_records st ! n) \<or> (\<exists>p. parent t n = Some p \<and> is_affected t st p)"
    by (subst is_affected_unfold) auto
  have root: "n \<in> ?R \<longleftrightarrow> is_root t st n"
    using n wf_orderD(2) [OF wf] by (auto simp: canonical_roots_def is_root_def)
  show ?thesis
  proof (cases "is_affected t st n")
    case False
    with aff pa inv have "sweep_step t st n ws = ws" by (simp add: sweep_step_def Let_def)
    moreover have "{x \<in> set (ps @ [n]). is_affected t st x} = ?A" using False by auto
    ultimately show ?thesis using inv False by (simp add: swept_def is_root_def)
  next
    case True
    let ?pa = "\<exists>p. parent t n = Some p \<and> is_affected t st p"
    let ?owner = "if ?pa then m_owner ws ! the (parent t n) else Some n"
    have ws': "sweep_step t st n ws = ws\<lparr>m_affected := (m_affected ws)[n := m_generation ws],
        m_owner := (m_owner ws)[n := ?owner], m_affected_nodes := m_affected_nodes ws @ [n],
        m_dirty_roots := (if ?pa then m_dirty_roots ws else m_dirty_roots ws @ [n])\<rparr>"
      using True aff by (auto simp: sweep_step_def Let_def pa)
    have "\<exists>r \<in> ?R. ?owner = Some r \<and> descends t r n"
    proof (cases ?pa)
      case pa: True
      then obtain p where p: "parent t n = Some p" "p \<in> ?A" using par by blast
      with owned_byD(2) [OF own p(2)] pa show ?thesis by (auto intro: descends_step)
    next
      case False
      with True root show ?thesis by (auto simp: is_root_def intro: descends_refl)
    qed
    moreover have "{x \<in> set (ps @ [n]). is_affected t st x} = insert n ?A" using True by auto
    ultimately have "owned_by t {x \<in> set (ps @ [n]). is_affected t st x} ?R (sweep_step t st n ws)"
      using own new n ps metadata_ok_lengths [OF md]
      by (auto simp: owned_by_def ws' nth_list_update)
    with inv True show ?thesis by (auto simp: swept_def ws' is_root_def)
  qed
qed

lemma sweep_fold:
  assumes pl: "plannable t st" and "metadata_ok t ws" and "stamps_ok ws" and "swept t st ps ws"
    and "topological_order t = ps @ qs"
  shows "swept t st (ps @ qs) (fold (sweep_step t st) qs ws) \<and>
    collector_frame t ws (fold (sweep_step t st) qs ws)"
  using assms(2-)
proof (induction qs arbitrary: ps ws)
  case Nil
  then show ?case by (simp add: collector_frame_def)
next
  case (Cons n qs)
  let ?ws = "sweep_step t st n ws"
  note frame = sweep_step_frame [OF Cons.prems(1,2), of st n]
  have "swept t st (ps @ [n]) ?ws"
    using Cons.prems by (intro sweep_step_swept [OF pl]) auto
  moreover have "metadata_ok t ?ws" "stamps_ok ?ws" using frame by (simp_all add: collector_frame_def)
  ultimately show ?case
    using Cons.IH [of ?ws "ps @ [n]"] Cons.prems(4) frame by (auto simp: collector_frame_def)
qed

lemma collect_sweep_swept:
  assumes pl: "plannable t st" and prep: "prepared t ws"
  shows "swept t st (topological_order t) (collect_sweep t st ws)"
    and "collector_frame t ws (collect_sweep t st ws)"
proof -
  have "swept t st [] ws" using prep by (auto simp: swept_def owned_by_def prepared_def)
  with sweep_fold [OF pl, of ws "[]" "topological_order t"] prep
  show "swept t st (topological_order t) (collect_sweep t st ws)"
    and "collector_frame t ws (collect_sweep t st ws)"
    by (simp_all add: prepared_def collect_sweep_def)
qed

interpretation sweep: owned_collector collect_sweep
  "\<lambda>t (st :: 'a transform_state) ws. True"
proof unfold_locales
  fix t and st :: "'a transform_state" and ws
  assume a: "plannable t st" "prepared t ws"
  note sw = collect_sweep_swept [OF a]
  show "m_affected_nodes (collect_sweep t st ws) = canonical_nodes t st"
    using sw(1) by (simp add: swept_def canonical_nodes_def)
  show "m_dirty_roots (collect_sweep t st ws) = canonical_roots t st"
    using sw(1) by (simp add: swept_def canonical_roots_def is_root_def [abs_def])
  show "collector_frame t ws (collect_sweep t st ws)" by (rule sw(2))
  show "owned_by t (set (canonical_nodes t st)) (set (canonical_roots t st)) (collect_sweep t st ws)"
    using sw(1) by (simp add: swept_def canonical_nodes_def)
qed

subsection \<open>What a plan selects\<close>

lemma collect_affected_canonical:
  assumes "plannable t st" and "prepared t ws"
  shows "m_affected_nodes (collect_affected t st partial ws) = canonical_nodes t st"
    and "m_dirty_roots (collect_affected t st partial ws) = canonical_roots t st"
    and "collector_frame t ws (collect_affected t st partial ws)"
  using assms clean.collect_nodes clean.collect_roots clean.collect_frame
    all.collect_nodes all.collect_roots all.collect_frame
    contiguous.collect_nodes contiguous.collect_roots contiguous.collect_frame
    sweep.collect_nodes sweep.collect_roots sweep.collect_frame
  by (auto simp: collect_affected_def)

lemma collect_affected_owned:
  assumes "plannable t st" and "prepared t ws"
  shows "owned_by t (set (canonical_nodes t st)) (set (canonical_roots t st))
    (collect_affected t st True ws)"
  using assms clean.collect_owned contiguous.collect_owned sweep.collect_owned
  by (auto simp: collect_affected_def)

text \<open>Validation of a partial scope: the own-owner test picks out exactly the dirty roots.\<close>

definition antichain :: "polytree \<Rightarrow> node_handle set \<Rightarrow> bool" where
  "antichain t R \<longleftrightarrow> (\<forall>r \<in> R. \<forall>r' \<in> R. descends t r r' \<longrightarrow> r = r')"

lemma antichain_roots: "plannable t st \<Longrightarrow> antichain t (set (canonical_roots t st))"
  using canonical_root_iff [of t st] by (auto simp: antichain_def)

lemma roots_are_nodes: "set (canonical_roots t st) \<subseteq> set (canonical_nodes t st)"
  by (auto simp: canonical_roots_def canonical_nodes_def)

lemma own_owner_iff:
  assumes own: "owned_by t A R ws" and "R \<subseteq> A" and "A \<subseteq> {..< node_count t}" and "antichain t R"
  shows "x < node_count t \<and> m_affected ws ! x = m_generation ws \<and> m_owner ws ! x = Some x \<longleftrightarrow> x \<in> R"
proof
  assume x: "x < node_count t \<and> m_affected ws ! x = m_generation ws \<and> m_owner ws ! x = Some x"
  then have "x \<in> A" using owned_byD(1) [OF own, of x] by blast
  with owned_byD(2) [OF own, of x] x show "x \<in> R" by auto
next
  assume x: "x \<in> R"
  with assms have "x \<in> A" "x < node_count t" by auto
  with owned_byD(2) [OF own this(1)] owned_byD(1) [OF own this(2)] x assms(4)
  show "x < node_count t \<and> m_affected ws ! x = m_generation ws \<and> m_owner ws ! x = Some x"
    by (auto simp: antichain_def)
qed

lemma check_scope_iff:
  assumes root: "\<And>x. x < node_count t \<and> m_affected ws ! x = m_generation ws \<and>
      m_owner ws ! x = Some x \<longleftrightarrow> x \<in> R"
    and "length selected = node_count t"
  shows "fst (check_scope ws selected rs) \<longleftrightarrow>
      distinct rs \<and> set rs \<subseteq> R \<and> (\<forall>r \<in> set rs. selected ! r \<noteq> m_generation ws)"
    and "fst (check_scope ws selected rs) \<Longrightarrow>
      snd (check_scope ws selected rs) = fold (\<lambda>r xs. xs[r := m_generation ws]) rs selected"
  using assms(2)
proof (induction rs arbitrary: selected)
  case (Cons r rs)
  {
    case 1
    show ?case
    proof (cases "r \<in> R \<and> selected ! r \<noteq> m_generation ws")
      case True
      then have "check_scope ws selected (r # rs) = check_scope ws (selected[r := m_generation ws]) rs"
        and "r < length selected"
        using root [of r] 1 by auto
      then show ?thesis
        using True Cons.IH(1) [of "selected[r := m_generation ws]"] 1
        by (auto simp: nth_list_update split: if_splits)
    next
      case False
      then have "fst (check_scope ws selected (r # rs)) = False" using root [of r] 1 by auto
      with False show ?thesis by auto
    qed
  next
    case 2
    then show ?case
      using Cons.IH(2) [of "selected[r := m_generation ws]"] by (auto split: if_splits)
  }
qed simp_all

lemma check_scope_frame:
  "length (snd (check_scope ws selected rs)) = length selected"
  "set (snd (check_scope ws selected rs)) \<subseteq> insert (m_generation ws) (set selected)"
proof (induction rs arbitrary: selected)
  case (Cons r rs)
  {
    case 1
    show ?case using Cons.IH(1) by simp
  next
    case 2
    show ?case
      using Cons.IH(2) [of "selected[r := m_generation ws]"] set_update_subset_insert [of selected r "m_generation ws"]
      by auto
  }
qed auto

lemma owner_selected_iff:
  assumes own: "owned_by t A R ws" and "antichain t R" and "set rs \<subseteq> R" and "R \<subseteq> {..< node_count t}"
    and "length selected = node_count t" and "\<And>x. x < node_count t \<Longrightarrow> selected ! x \<noteq> m_generation ws"
    and "x \<in> A"
  shows "owner_selected ws (fold (\<lambda>r xs. xs[r := m_generation ws]) rs selected) x \<longleftrightarrow>
    (\<exists>r \<in> set rs. descends t r x)"
proof -
  obtain r where r: "r \<in> R" "m_owner ws ! x = Some r" "descends t r x"
    using owned_byD(2) [OF own assms(7)] by blast
  have "r < node_count t" using r assms(4) by auto
  then have "owner_selected ws (fold (\<lambda>r xs. xs[r := m_generation ws]) rs selected) x \<longleftrightarrow> r \<in> set rs"
    using r assms(5,6) by (simp add: owner_selected_def fold_stamp_nth)
  also have "\<dots> \<longleftrightarrow> (\<exists>r \<in> set rs. descends t r x)"
    using r descends_chain [of t _ x r] assms(2,3) by (auto simp: antichain_def)
  finally show ?thesis .
qed

text \<open>The two kinds of plan, whatever collector ran.\<close>

lemma full_plan:
  assumes "plannable t st" and "cache_coherent t ws" and "stamps_ok ws"
  shows "\<exists>ws'. make_transform_evaluation_plan t st ws =
      (Inr (plan_of t st ws' (canonical_roots t st) (canonical_nodes t st)), ws') \<and>
    metadata_ok t ws' \<and> stamps_ok ws' \<and> cache_coherent t ws'"
proof -
  let ?ws0 = "ws\<lparr>m_requested_roots := []\<rparr>"
  have "cache_coherent t ?ws0" "stamps_ok ?ws0"
    using assms metadata_ok_cong [of ?ws0 ws t] by (simp_all add: cache_coherent_def stamps_ok_def)
  then have prep: "prepared t (prepare t ?ws0)"
    using plannableD(1) [OF assms(1)] by (intro prepare_prepared)
  let ?ws = "collect_affected t st False (prepare t ?ws0)"
  note col = collect_affected_canonical [OF assms(1) prep, of False]
  show ?thesis
    using col plannableD(3) [OF assms(1)] prep
    by (intro exI [of _ ?ws])
      (simp add: make_transform_evaluation_plan_def make_plan_def Let_def collector_frame_def cache_coherent_def)
qed

lemma make_partial_plan_eq:
  assumes "length (m_records st) = node_count t"
    and "w = collect_affected t st True (prepare t (ws\<lparr>m_requested_roots := rs\<rparr>))"
    and "m_requested_roots w = rs" and "check_scope w (m_selected w) rs = (ok, sel)"
  shows "make_partial_evaluation_plan t st ws rs =
    (if ok
     then let roots = filter (\<lambda>root. sel ! root = m_generation w) (m_dirty_roots w);
              nodes = filter (owner_selected w sel) (m_affected_nodes w);
              w' = w\<lparr>m_selected := sel, m_selected_dirty_roots := roots, m_selected_nodes := nodes\<rparr>
          in (Inr (plan_of t st w' roots nodes), w')
     else (Inl te_invalid_scope, w\<lparr>m_selected := sel\<rparr>))"
  using assms(1,3,4)
  by (cases ok) (simp_all add: make_partial_evaluation_plan_def make_plan_def Let_def flip: assms(2))

lemma partial_plan:
  assumes pl: "plannable t st" and "cache_coherent t ws" and "stamps_ok ws"
  shows "\<exists>ws'. metadata_ok t ws' \<and> stamps_ok ws' \<and> cache_coherent t ws' \<and>
    make_partial_evaluation_plan t st ws rs =
      (if distinct rs \<and> set rs \<subseteq> set (canonical_roots t st)
       then Inr (plan_of t st ws' (filter (\<lambda>r. r \<in> set rs) (canonical_roots t st))
              (filter (\<lambda>x. \<exists>r \<in> set rs. descends t r x) (canonical_nodes t st)))
       else Inl te_invalid_scope, ws')"
proof -
  note wf = plannableD(1) [OF pl]
  let ?ws0 = "ws\<lparr>m_requested_roots := rs\<rparr>"
  have "cache_coherent t ?ws0" "stamps_ok ?ws0"
    using assms metadata_ok_cong [of ?ws0 ws t] by (simp_all add: cache_coherent_def stamps_ok_def)
  then have prep: "prepared t (prepare t ?ws0)" using wf by (intro prepare_prepared)
  define w where "w = collect_affected t st True (prepare t ?ws0)"
  let ?R = "set (canonical_roots t st)" and ?A = "set (canonical_nodes t st)"
  have col: "m_affected_nodes w = canonical_nodes t st" "m_dirty_roots w = canonical_roots t st"
    and frame: "collector_frame t (prepare t ?ws0) w" and own: "owned_by t ?A ?R w"
    using collect_affected_canonical [OF pl prep] collect_affected_owned [OF pl prep]
    by (simp_all add: w_def)
  have A: "?R \<subseteq> ?A" "?A \<subseteq> {..< node_count t}" "antichain t ?R"
    using roots_are_nodes [of t st] set_canonical_nodes [OF wf, of st] antichain_roots [OF pl] by auto
  then have in_nodes: "x < node_count t" if "x \<in> ?R" for x using that by auto
  have sel: "length (m_selected w) = node_count t" "m_requested_roots w = rs"
    and fresh: "\<And>x. x < node_count t \<Longrightarrow> m_selected w ! x \<noteq> m_generation w"
    and w: "metadata_ok t w" "stamps_ok w"
    using frame prep metadata_ok_lengths(3) [of t w] by (auto simp: collector_frame_def prepared_def)
  obtain ok sel' where chk: "check_scope w (m_selected w) rs = (ok, sel')" by fastforce
  have ok: "ok \<longleftrightarrow> distinct rs \<and> set rs \<subseteq> ?R"
    and sel': "ok \<Longrightarrow> sel' = fold (\<lambda>r xs. xs[r := m_generation w]) rs (m_selected w)"
    using check_scope_iff [OF own_owner_iff [OF own A] sel(1), of rs] chk fresh in_nodes by auto
  have len: "length sel' = node_count t" and sub: "set sel' \<subseteq> insert (m_generation w) (set (m_selected w))"
    using check_scope_frame [of w "m_selected w" rs] chk sel(1) by simp_all
  let ?w = "w\<lparr>m_selected := sel'\<rparr>"
  have upd: "metadata_ok t (?w\<lparr>m_selected_dirty_roots := rs', m_selected_nodes := ns'\<rparr>)"
    "stamps_ok (?w\<lparr>m_selected_dirty_roots := rs', m_selected_nodes := ns'\<rparr>)"
    "metadata_ok t ?w" "stamps_ok ?w" for rs' ns'
    using w sub len by (auto simp: metadata_ok_cong [of "?w\<lparr>m_selected_dirty_roots := rs', m_selected_nodes := ns'\<rparr>" w]
        metadata_ok_cong [of ?w w] stamps_ok_def metadata_ok_lengths)
  note eq = make_partial_plan_eq [OF plannableD(3) [OF pl] w_def sel(2) chk]
  show ?thesis
  proof (cases ok)
    case False
    with ok upd eq show ?thesis by (intro exI [of _ ?w]) (auto simp: cache_coherent_def)
  next
    case True
    have roots: "filter (\<lambda>root. sel' ! root = m_generation w) (canonical_roots t st) =
        filter (\<lambda>r. r \<in> set rs) (canonical_roots t st)"
      using True sel' fresh in_nodes sel(1) by (intro filter_cong) (auto simp: fold_stamp_nth)
    have nodes: "filter (owner_selected w sel') (canonical_nodes t st) =
        filter (\<lambda>x. \<exists>r \<in> set rs. descends t r x) (canonical_nodes t st)"
    proof (rule filter_cong [OF refl])
      fix x assume "x \<in> ?A"
      with owner_selected_iff [OF own A(3) _ _ sel(1) fresh, of rs x] True ok sel' A
      show "owner_selected w sel' x \<longleftrightarrow> (\<exists>r \<in> set rs. descends t r x)" by auto
    qed
    let ?ws' = "?w\<lparr>m_selected_dirty_roots := filter (\<lambda>r. r \<in> set rs) (canonical_roots t st),
        m_selected_nodes := filter (\<lambda>x. \<exists>r \<in> set rs. descends t r x) (canonical_nodes t st)\<rparr>"
    have "make_partial_evaluation_plan t st ws rs =
        (Inr (plan_of t st ?ws' (filter (\<lambda>r. r \<in> set rs) (canonical_roots t st))
              (filter (\<lambda>x. \<exists>r \<in> set rs. descends t r x) (canonical_nodes t st))), ?ws')"
      using True eq col roots nodes by (simp add: plan_of_def Let_def)
    with True ok upd show ?thesis
      by (intro exI [of _ ?ws']) (simp add: cache_coherent_def)
  qed
qed

end
