(* ===== verification/Transform_Evaluation.thy ===== *)
theory Transform_Evaluation
  imports Transform_Plan
begin

section \<open>Evaluating a plan\<close>

text \<open>
  The two overloads of \<open>evaluate_transforms\<close> in \<open>transform_evaluation.hpp\<close> and
  \<open>changed_transform_nodes_since\<close>. The composition of the policy is an argument (the policy is
  a template parameter of the code). A plan is used with the workspace its pointer leads to:
  \<open>None\<close> stands for the null pointer of a default-constructed plan. The parallel overload
  takes the executor as its number of workers and a schedule: the order in which the
  callbacks of one \<open>execute\<close> call happen, any permutation of the nodes of the level.
\<close>

subsection \<open>Sequential evaluation\<close>

record transform_evaluation_result =
  res_error :: transform_error
  res_changed_nodes :: "node_handle list"
  res_world_revision :: u64

definition world_from ::
  "polytree \<Rightarrow> ('a \<Rightarrow> 'a \<Rightarrow> 'a) \<Rightarrow> 'a transform_state \<Rightarrow> node_handle \<Rightarrow> 'a" where
  "world_from t compose st node =
     (case parent t node of
        None \<Rightarrow> local_of st node
      | Some p \<Rightarrow> compose (world_of st p) (local_of st node))"

definition evaluation_push ::
  "polytree \<Rightarrow> ('a \<Rightarrow> 'a \<Rightarrow> 'a) \<Rightarrow> u64 \<Rightarrow> node_handle \<Rightarrow> 'a transform_state \<Rightarrow> 'a transform_state" where
  "evaluation_push t compose revision node st =
     update_record node ((record_at st node)
       \<lparr>r_world := world_from t compose st node, r_world_revision := revision, r_dirty := False\<rparr>) st"

definition check_plan ::
  "polytree \<Rightarrow> 'a transform_state \<Rightarrow> transform_evaluation_plan \<Rightarrow>
   transform_evaluation_workspace option \<Rightarrow> transform_error" where
  "check_plan t st plan wsp =
     (if plan_topology_identity plan \<noteq> pt_identity t then te_topology_mismatch
      else if (case wsp of None \<Rightarrow> True
               | Some ws \<Rightarrow> m_generation ws \<noteq> plan_workspace_generation plan) \<or>
           plan_source_revision plan \<noteq> m_revision st \<or>
           plan_mutation_generation plan \<noteq> m_mutation_generation st \<or>
           plan_evaluation_generation plan \<noteq> m_evaluation_generation st
      then te_stale_plan
      else if plan_ordered_nodes plan \<noteq> [] \<and> \<not> revision_available st then te_revision_exhausted
      else te_none)"

definition evaluate_transforms ::
  "polytree \<Rightarrow> ('a \<Rightarrow> 'a \<Rightarrow> 'a) \<Rightarrow> 'a transform_state \<Rightarrow> transform_evaluation_plan \<Rightarrow>
   transform_evaluation_workspace option \<Rightarrow> transform_evaluation_result \<times> 'a transform_state" where
  "evaluate_transforms t compose st plan wsp =
     (let error = check_plan t st plan wsp
      in if error \<noteq> te_none
         then (\<lparr>res_error = error, res_changed_nodes = [], res_world_revision = m_revision st\<rparr>, st)
         else
           let nodes = plan_ordered_nodes plan;
               st = begin_evaluation (nodes \<noteq> []) st;
               revision = m_revision st;
               st = fold (evaluation_push t compose revision) nodes st
           in (\<lparr>res_error = te_none, res_changed_nodes = nodes, res_world_revision = revision\<rparr>,
               compact_dirty_frontier st))"

definition changed_transform_nodes_since ::
  "polytree \<Rightarrow> 'a transform_state \<Rightarrow> u64 \<Rightarrow> node_handle list" where
  "changed_transform_nodes_since t st since =
     filter (\<lambda>node. r_world_revision (record_at st node) > since) (topological_order t)"

subsection \<open>Dependency batches\<close>

definition count_step ::
  "transform_evaluation_workspace \<Rightarrow> node_handle \<Rightarrow> nat list \<Rightarrow> nat list" where
  "count_step ws node offsets =
     (let i = m_dependency_level ws ! node + 1 in offsets[i := offsets ! i + 1])"

fun partial_sum :: "nat \<Rightarrow> nat list \<Rightarrow> nat list" where
  "partial_sum acc [] = []"
| "partial_sum acc (x # xs) = (acc + x) # partial_sum (acc + x) xs"

definition place_step ::
  "transform_evaluation_workspace \<Rightarrow> node_handle \<Rightarrow> nat list \<times> node_handle list \<Rightarrow>
   nat list \<times> node_handle list" where
  "place_step ws node = (\<lambda>(cursor, nodes).
     let level = m_dependency_level ws ! node; at = cursor ! level
     in (cursor[level := at + 1], nodes[at := node]))"

definition prepare_dependency_batches ::
  "polytree \<Rightarrow> node_handle list \<Rightarrow> transform_evaluation_workspace \<Rightarrow>
   nat \<times> transform_evaluation_workspace" where
  "prepare_dependency_batches t ordered ws =
     (let level_count = length (dependency_levels t);
          counts = fold (count_step ws) ordered (replicate (level_count + 1) 0);
          maximum_batch = fold max counts 0;
          offsets = partial_sum 0 counts;
          (cursor, nodes) = fold (place_step ws) ordered
             (offsets, resize (length ordered) 0 (m_dependency_nodes ws))
      in (maximum_batch,
          ws\<lparr>m_affected := fold (\<lambda>node xs. xs[node := m_generation ws]) ordered (m_affected ws),
             m_dependency_offsets := offsets, m_dependency_cursor := cursor,
             m_dependency_nodes := nodes\<rparr>))"

definition level_span :: "transform_evaluation_workspace \<Rightarrow> nat \<Rightarrow> node_handle list" where
  "level_span ws level =
     (let first = m_dependency_offsets ws ! level
      in take (m_dependency_offsets ws ! (level + 1) - first) (drop first (m_dependency_nodes ws)))"

subsection \<open>Parallel evaluation\<close>

definition write_world ::
  "polytree \<Rightarrow> ('a \<Rightarrow> 'a \<Rightarrow> 'a) \<Rightarrow> node_handle \<Rightarrow> 'a transform_state \<Rightarrow> 'a transform_state" where
  "write_world t compose node st =
     update_record node ((record_at st node)\<lparr>r_world := world_from t compose st node\<rparr>) st"

definition commit_node :: "u64 \<Rightarrow> node_handle \<Rightarrow> 'a transform_state \<Rightarrow> 'a transform_state" where
  "commit_node revision node st =
     update_record node ((record_at st node)\<lparr>r_world_revision := revision, r_dirty := False\<rparr>) st"

type_synonym schedule = "nat \<Rightarrow> node_handle list \<Rightarrow> node_handle list"

definition is_schedule :: "schedule \<Rightarrow> bool" where
  "is_schedule sched \<longleftrightarrow> (\<forall>level nodes. mset (sched level nodes) = mset nodes)"

definition run_levels ::
  "polytree \<Rightarrow> ('a \<Rightarrow> 'a \<Rightarrow> 'a) \<Rightarrow> schedule \<Rightarrow> transform_evaluation_workspace \<Rightarrow>
   'a transform_state \<Rightarrow> 'a transform_state" where
  "run_levels t compose sched ws st =
     fold (\<lambda>level. fold (write_world t compose) (sched level (level_span ws level)))
       [0..<length (m_dependency_offsets ws) - 1] st"

definition evaluate_transforms_on ::
  "nat \<Rightarrow> nat \<Rightarrow> schedule \<Rightarrow> polytree \<Rightarrow> ('a \<Rightarrow> 'a \<Rightarrow> 'a) \<Rightarrow> 'a transform_state \<Rightarrow>
   transform_evaluation_plan \<Rightarrow> transform_evaluation_workspace option \<Rightarrow>
   transform_evaluation_result \<times> 'a transform_state \<times> transform_evaluation_workspace option" where
  "evaluate_transforms_on workers minimum_task_grain sched t compose st plan wsp =
     (let error = check_plan t st plan wsp;
          sequential = (\<lambda>wsp. case evaluate_transforms t compose st plan wsp of
             (result, st) \<Rightarrow> (result, st, wsp))
      in case (error, wsp) of
           (te_none, Some ws) \<Rightarrow>
             let nodes = plan_ordered_nodes plan; grain = max 1 minimum_task_grain
             in if length nodes div grain < 2 \<or> workers = 0 \<or> m_maximum_level_width ws div grain < 2
                then sequential (Some ws)
                else case prepare_dependency_batches t nodes ws of (maximum_batch, ws) \<Rightarrow>
                  if maximum_batch div grain < 2 then sequential (Some ws)
                  else
                    let st = begin_evaluation (nodes \<noteq> []) st;
                        revision = m_revision st;
                        st = fold (commit_node revision) nodes (run_levels t compose sched ws st)
                    in (\<lparr>res_error = te_none, res_changed_nodes = nodes,
                         res_world_revision = revision\<rparr>, compact_dirty_frontier st, Some ws)
         | _ \<Rightarrow> (\<lparr>res_error = error, res_changed_nodes = [], res_world_revision = m_revision st\<rparr>,
                  st, wsp))"

subsection \<open>What writing worlds in a dependency order does\<close>

text \<open>
  An order in which no node comes after one of its children: each world is computed once its
  parent's is final.
\<close>

definition dependency_order :: "polytree \<Rightarrow> node_handle list \<Rightarrow> bool" where
  "dependency_order t xs \<longleftrightarrow>
     distinct xs \<and> sorted_wrt (\<lambda>x y. parent t x \<noteq> Some y) xs \<and> (\<forall>x \<in> set xs. parent t x \<noteq> Some x)"

text \<open>The final worlds: every node of the set satisfies its equation, the rest is untouched.\<close>

definition worlds_written ::
  "polytree \<Rightarrow> ('a \<Rightarrow> 'a \<Rightarrow> 'a) \<Rightarrow> node_handle set \<Rightarrow> 'a transform_state \<Rightarrow> 'a transform_state \<Rightarrow> bool" where
  "worlds_written t compose A st st' \<longleftrightarrow>
     length (m_records st') = length (m_records st) \<and>
     (\<forall>n < length (m_records st). m_records st' ! n =
        (if n \<in> A then (m_records st ! n)\<lparr>r_world := world_from t compose st' n\<rparr>
         else m_records st ! n))"

lemma write_world_records [simp]:
  "length (m_records (write_world t compose n st)) = length (m_records st)"
  "m_dirty_nodes (write_world t compose n st) = m_dirty_nodes st"
  "m_revision (write_world t compose n st) = m_revision st"
  "m_mutation_generation (write_world t compose n st) = m_mutation_generation st"
  "m_evaluation_generation (write_world t compose n st) = m_evaluation_generation st"
  "n < length (m_records st) \<Longrightarrow> x < length (m_records st) \<Longrightarrow>
   m_records (write_world t compose n st) ! x =
    (if x = n then (m_records st ! n)\<lparr>r_world := world_from t compose st n\<rparr> else m_records st ! x)"
  by (simp_all add: write_world_def update_record_def record_at_def nth_list_update)

lemma fold_write_world_fields [simp]:
  "length (m_records (fold (write_world t compose) xs st)) = length (m_records st)"
  "m_dirty_nodes (fold (write_world t compose) xs st) = m_dirty_nodes st"
  "m_revision (fold (write_world t compose) xs st) = m_revision st"
  "m_mutation_generation (fold (write_world t compose) xs st) = m_mutation_generation st"
  "m_evaluation_generation (fold (write_world t compose) xs st) = m_evaluation_generation st"
  by (induction xs arbitrary: st) simp_all

lemma world_from_cong:
  assumes "local_of st' n = local_of st n"
    and "\<And>p. parent t n = Some p \<Longrightarrow> world_of st' p = world_of st p"
  shows "world_from t compose st' n = world_from t compose st n"
  using assms by (auto simp: world_from_def split: option.split)

lemma dependency_order_snoc:
  "dependency_order t (xs @ [n]) \<longleftrightarrow>
   dependency_order t xs \<and> n \<notin> set xs \<and> parent t n \<noteq> Some n \<and> (\<forall>x \<in> set xs. parent t x \<noteq> Some n)"
  by (auto simp: dependency_order_def sorted_wrt_append)

lemma fold_write_world:
  assumes wf: "wf_polytree t" and "dependency_order t xs"
    and "set xs \<subseteq> {..< node_count t}" and "length (m_records st) = node_count t"
  shows "worlds_written t compose (set xs) st (fold (write_world t compose) xs st)"
  using assms(2,3)
proof (induction xs rule: rev_induct)
  case Nil
  then show ?case by (simp add: worlds_written_def)
next
  case (snoc n xs)
  let ?s = "fold (write_world t compose) xs st"
  let ?s' = "write_world t compose n ?s"
  have n: "n < node_count t" "n \<notin> set xs" using snoc.prems by (auto simp: dependency_order_snoc)
  have len: "length (m_records ?s) = node_count t" using assms(4) by simp
  have IH: "worlds_written t compose (set xs) st ?s"
    using snoc by (auto simp: dependency_order_snoc)
  have same: "world_from t compose ?s' x = world_from t compose ?s x"
    if x: "x \<in> set (xs @ [n])" for x
  proof (rule world_from_cong)
    have xn: "x < node_count t" using x snoc.prems(2) by auto
    show "local_of ?s' x = local_of ?s x" using xn n len by (simp add: local_of_def record_at_def)
    fix p assume p: "parent t x = Some p"
    then have "p \<noteq> n" using x snoc.prems(1) by (auto simp: dependency_order_snoc)
    then show "world_of ?s' p = world_of ?s p"
      using wf_parentD(1) [OF wf xn p] n len by (simp add: world_of_def record_at_def)
  qed
  show ?case
    unfolding worlds_written_def
  proof (intro conjI allI impI)
    fix x assume "x < length (m_records st)"
    then have x: "x < node_count t" by (simp add: assms(4))
    show "m_records (fold (write_world t compose) (xs @ [n]) st) ! x =
        (if x \<in> set (xs @ [n])
         then (m_records st ! x)\<lparr>r_world := world_from t compose (fold (write_world t compose) (xs @ [n]) st) x\<rparr>
         else m_records st ! x)"
      using IH x n len same [of x] by (auto simp: worlds_written_def assms(4))
  qed simp
qed

lemma worlds_written_unique:
  assumes wf: "wf_polytree t" and len: "length (m_records st) = node_count t"
    and 1: "worlds_written t compose A st s1" and 2: "worlds_written t compose A st s2"
  shows "m_records s1 = m_records s2"
proof (rule nth_equalityI)
  show "length (m_records s1) = length (m_records s2)" using 1 2 by (simp add: worlds_written_def)
  have "m_records s1 ! n = m_records s2 ! n" if "n < node_count t" for n
    using wf that
  proof (induction n rule: rank_induct)
    case (node n)
    have "world_from t compose s1 n = world_from t compose s2 n" if "n \<in> A"
    proof (rule world_from_cong)
      show "local_of s1 n = local_of s2 n"
        using 1 2 node len that by (simp add: worlds_written_def local_of_def record_at_def)
      show "world_of s1 p = world_of s2 p" if "parent t n = Some p" for p
        using node wf_parentD(1) [OF wf node(1) that] that by (simp add: world_of_def record_at_def)
    qed
    with 1 2 node len show ?case by (simp add: worlds_written_def)
  qed
  then show "m_records s1 ! i = m_records s2 ! i" if "i < length (m_records s1)" for i
    using that 1 len by (simp add: worlds_written_def)
qed

text \<open>Sequential evaluation writes and commits in one step; the two steps commute.\<close>

lemma evaluation_push_split:
  assumes "n < length (m_records st)"
  shows "evaluation_push t compose v n st = commit_node v n (write_world t compose n st)"
  using assms by (simp add: evaluation_push_def commit_node_def write_world_def update_record_def record_at_def)

lemma commit_node_records [simp]:
  "length (m_records (commit_node v n st)) = length (m_records st)"
  "m_dirty_nodes (commit_node v n st) = m_dirty_nodes st"
  "m_revision (commit_node v n st) = m_revision st"
  "m_mutation_generation (commit_node v n st) = m_mutation_generation st"
  "m_evaluation_generation (commit_node v n st) = m_evaluation_generation st"
  "n < length (m_records st) \<Longrightarrow> x < length (m_records st) \<Longrightarrow>
   m_records (commit_node v n st) ! x =
    (if x = n then (m_records st ! n)\<lparr>r_world_revision := v, r_dirty := False\<rparr> else m_records st ! x)"
  by (simp_all add: commit_node_def update_record_def record_at_def nth_list_update)

lemma commit_record_swap:
  "r\<lparr>r_world_revision := v, r_dirty := d, r_world := w\<rparr> = r\<lparr>r_world := w, r_world_revision := v, r_dirty := d\<rparr>"
  by (cases r) simp

lemma write_commit_swap:
  assumes "m < length (m_records st)" and "n < length (m_records st)"
    and "\<And>p. parent t m = Some p \<Longrightarrow> p < length (m_records st)"
  shows "write_world t compose m (commit_node v n st) = commit_node v n (write_world t compose m st)"
proof -
  have "world_from t compose (commit_node v n st) m = world_from t compose st m"
    using assms by (intro world_from_cong) (simp_all add: local_of_def world_of_def record_at_def)
  then show ?thesis
    using assms
    by (cases "m = n")
      (simp_all add: commit_node_def write_world_def update_record_def record_at_def nth_list_update
        list_update_swap commit_record_swap)
qed

lemma fold_commit_fields [simp]:
  "length (m_records (fold (commit_node v) xs st)) = length (m_records st)"
  "m_dirty_nodes (fold (commit_node v) xs st) = m_dirty_nodes st"
  "m_revision (fold (commit_node v) xs st) = m_revision st"
  "m_mutation_generation (fold (commit_node v) xs st) = m_mutation_generation st"
  "m_evaluation_generation (fold (commit_node v) xs st) = m_evaluation_generation st"
  by (induction xs arbitrary: st) simp_all

lemma fold_commit_nth:
  assumes "set xs \<subseteq> {..< length (m_records st)}" and "x < length (m_records st)"
  shows "m_records (fold (commit_node v) xs st) ! x =
    (if x \<in> set xs then (m_records st ! x)\<lparr>r_world_revision := v, r_dirty := False\<rparr>
     else m_records st ! x)"
  using assms by (induction xs arbitrary: st) auto

lemma write_fold_commit_swap:
  assumes "set xs \<subseteq> {..< length (m_records st)}" and "m < length (m_records st)"
    and "\<And>p. parent t m = Some p \<Longrightarrow> p < length (m_records st)"
  shows "write_world t compose m (fold (commit_node v) xs st) =
    fold (commit_node v) xs (write_world t compose m st)"
  using assms by (induction xs arbitrary: st) (simp_all add: write_commit_swap)

lemma fold_push_split:
  assumes wf: "wf_polytree t" and "set xs \<subseteq> {..< node_count t}" and "length (m_records st) = node_count t"
  shows "fold (evaluation_push t compose v) xs st =
    fold (commit_node v) xs (fold (write_world t compose) xs st)"
  using assms(2)
proof (induction xs rule: rev_induct)
  case (snoc n xs)
  then have n: "n < node_count t" by simp
  from snoc show ?case
    using wf_parentD(1) [OF wf n] assms(3)
    by (simp add: evaluation_push_split write_fold_commit_swap)
qed simp

text \<open>The evaluated state, and that any two dependency orders of the same nodes reach it.\<close>

lemma write_world_order:
  assumes wf: "wf_polytree t" and "dependency_order t xs" and "dependency_order t ys"
    and "set xs = set ys" and "set xs \<subseteq> {..< node_count t}" and "length (m_records st) = node_count t"
  shows "fold (write_world t compose) xs st = fold (write_world t compose) ys st"
proof -
  have "m_records (fold (write_world t compose) xs st) = m_records (fold (write_world t compose) ys st)"
    using assms fold_write_world [OF wf assms(2), of st compose] fold_write_world [OF wf assms(3), of st compose]
    by (intro worlds_written_unique [OF wf assms(6)]) auto
  then show ?thesis by simp
qed

lemma commit_fold_order:
  assumes "set xs = set ys" and "set xs \<subseteq> {..< length (m_records st)}"
  shows "fold (commit_node v) xs st = fold (commit_node v) ys st"
proof -
  have "m_records (fold (commit_node v) xs st) = m_records (fold (commit_node v) ys st)"
    using assms by (intro nth_equalityI) (simp_all add: fold_commit_nth)
  then show ?thesis by simp
qed

subsection \<open>The dependency batches are a stable counting sort by level\<close>

definition below :: "('b \<Rightarrow> nat) \<Rightarrow> 'b list \<Rightarrow> nat \<Rightarrow> nat" where
  "below lev xs l = length (filter (\<lambda>x. lev x < l) xs)"

lemma below_Suc: "below lev xs (Suc l) = below lev xs l + length (filter (\<lambda>x. lev x = l) xs)"
  by (induction xs) (auto simp: below_def less_Suc_eq)

lemma below_mono: "l \<le> l' \<Longrightarrow> below lev xs l \<le> below lev xs l'"
  by (induction l' rule: nat_induct_at_least [of l]) (simp_all add: below_Suc)

lemma below_0 [simp]: "below lev xs 0 = 0"
  by (simp add: below_def)

lemma below_le: "below lev xs l \<le> length xs"
  by (simp add: below_def)

lemma length_partial_sum [simp]: "length (partial_sum acc xs) = length xs"
  by (induction xs arbitrary: acc) simp_all

lemma partial_sum_nth: "i < length xs \<Longrightarrow> partial_sum acc xs ! i = acc + sum_list (take (Suc i) xs)"
  by (induction xs arbitrary: acc i) (auto simp: nth_Cons split: nat.split)

lemma count_pass:
  assumes "\<And>x. x \<in> set xs \<Longrightarrow> m_dependency_level ws ! x < L" and "length counts = L + 1"
  shows "length (fold (count_step ws) xs counts) = L + 1 \<and>
    (\<forall>i \<le> L. fold (count_step ws) xs counts ! i =
       counts ! i + (if i = 0 then 0 else length (filter (\<lambda>x. m_dependency_level ws ! x = i - 1) xs)))"
  using assms
proof (induction xs arbitrary: counts)
  case (Cons x xs)
  let ?c = "count_step ws x counts"
  have "length ?c = L + 1" using Cons.prems by (simp add: count_step_def Let_def)
  with Cons.IH [of ?c] Cons.prems show ?case
    by (auto simp: count_step_def Let_def nth_list_update)
qed auto

lemma batch_offsets:
  assumes "\<And>x. x \<in> set xs \<Longrightarrow> m_dependency_level ws ! x < L" and "i \<le> L"
  shows "partial_sum 0 (fold (count_step ws) xs (replicate (L + 1) 0)) ! i =
    below (\<lambda>x. m_dependency_level ws ! x) xs i"
proof -
  let ?lev = "\<lambda>x. m_dependency_level ws ! x" and ?c = "fold (count_step ws) xs (replicate (L + 1) 0)"
  have c: "length ?c = L + 1" "\<And>i. i \<le> L \<Longrightarrow> ?c ! i =
      (if i = 0 then 0 else length (filter (\<lambda>x. ?lev x = i - 1) xs))"
    using count_pass [of xs ws L "replicate (L + 1) 0"] assms(1)
    by (auto simp: less_Suc_eq_le simp del: replicate.simps)
  have "sum_list (take (Suc i) ?c) = below ?lev xs i" using assms(2)
  proof (induction i)
    case 0
    with c show ?case by (simp add: take_Suc_conv_app_nth)
  next
    case (Suc i)
    with c show ?case by (simp add: take_Suc_conv_app_nth [of "Suc i"] below_Suc)
  qed
  with c assms(2) show ?thesis by (simp add: partial_sum_nth)
qed

definition placed :: "('b \<Rightarrow> nat) \<Rightarrow> 'b list \<Rightarrow> nat \<Rightarrow> 'b list \<Rightarrow> nat list \<times> 'b list \<Rightarrow> bool" where
  "placed lev xs L ps = (\<lambda>(cursor, out).
     length cursor = L + 1 \<and> length out = length xs \<and>
     (\<forall>l < L. cursor ! l = below lev xs l + length (filter (\<lambda>x. lev x = l) ps)) \<and>
     (\<forall>l < L. \<forall>k < length (filter (\<lambda>x. lev x = l) ps).
        out ! (below lev xs l + k) = filter (\<lambda>x. lev x = l) ps ! k))"

lemma place_step_placed:
  assumes inv: "placed (\<lambda>x. m_dependency_level ws ! x) xs L ps co"
    and split: "xs = ps @ n # qs" and "m_dependency_level ws ! n < L"
  shows "placed (\<lambda>x. m_dependency_level ws ! x) xs L (ps @ [n]) (place_step ws n co)"
proof -
  let ?lev = "\<lambda>x. m_dependency_level ws ! x"
  obtain cursor out where co: "co = (cursor, out)" by fastforce
  let ?f = "\<lambda>l ys. length (filter (\<lambda>x. ?lev x = l) ys)" and ?off = "below ?lev xs"
  let ?at = "?off (?lev n) + ?f (?lev n) ps"
  have at: "cursor ! ?lev n = ?at" using inv assms(3) by (simp add: placed_def co)
  have fit: "?f l ps \<le> ?f l xs" for l by (simp add: split)
  have fit': "?f (?lev n) ps < ?f (?lev n) xs" by (simp add: split)
  have at_less: "?at < ?off (Suc (?lev n))" using fit' by (simp add: below_Suc)
  then have len: "?at < length xs" using below_le [of ?lev xs "Suc (?lev n)"] by linarith
  have other: "?off l + k \<noteq> ?at" if l: "l \<noteq> ?lev n" and k: "k < ?f l ps" for l k
  proof -
    have below: "?off l + k < ?off (Suc l)" using k fit [of l] by (simp add: below_Suc)
    consider "l < ?lev n" | "?lev n < l" using l by linarith
    then show ?thesis
    proof cases
      case 1
      then have "?off (Suc l) \<le> ?off (?lev n)" by (intro below_mono) simp
      with below show ?thesis by linarith
    next
      case 2
      then have "?off (Suc (?lev n)) \<le> ?off l" by (intro below_mono) simp
      with at_less show ?thesis by linarith
    qed
  qed
  have step: "place_step ws n co = (cursor[?lev n := ?at + 1], out[?at := n])"
    by (simp add: co place_step_def Let_def at)
  have out: "out[?at := n] ! (?off l + k) = filter (\<lambda>x. ?lev x = l) (ps @ [n]) ! k"
    if l: "l < L" and k: "k < ?f l (ps @ [n])" for l k
  proof (cases "k < ?f l ps")
    case True
    moreover have "?off l + k \<noteq> ?at" using other [of l k] True by (cases "l = ?lev n") auto
    ultimately show ?thesis
      using inv l by (simp add: placed_def co nth_append)
  next
    case False
    with k have "?lev n = l" "k = ?f l ps" by (auto split: if_splits)
    with inv len show ?thesis by (simp add: placed_def co nth_append)
  qed
  have cur: "cursor[?lev n := ?at + 1] ! l = ?off l + ?f l (ps @ [n])" if "l < L" for l
    using inv that by (simp add: placed_def co nth_list_update)
  show ?thesis
    unfolding step placed_def prod.case
    using inv out cur by (simp add: placed_def co)
qed

lemma place_pass:
  assumes "placed (\<lambda>x. m_dependency_level ws ! x) xs L ps co" and "xs = ps @ qs"
    and "\<And>x. x \<in> set xs \<Longrightarrow> m_dependency_level ws ! x < L"
  shows "placed (\<lambda>x. m_dependency_level ws ! x) xs L xs (fold (place_step ws) qs co)"
  using assms(1,2)
proof (induction qs arbitrary: ps co)
  case (Cons n qs)
  have "placed (\<lambda>x. m_dependency_level ws ! x) xs L (ps @ [n]) (place_step ws n co)"
    using Cons.prems assms(3) by (intro place_step_placed) auto
  with Cons.IH [of "ps @ [n]"] Cons.prems show ?case by simp
qed simp

lemma batch_spans:
  assumes "\<And>x. x \<in> set xs \<Longrightarrow> m_dependency_level ws ! x < length (dependency_levels t)"
    and b: "prepare_dependency_batches t xs ws = (mb, ws')"
  shows "length (m_dependency_offsets ws') = length (dependency_levels t) + 1"
    and "l < length (dependency_levels t) \<Longrightarrow>
      level_span ws' l = filter (\<lambda>x. m_dependency_level ws ! x = l) xs"
proof -
  let ?L = "length (dependency_levels t)" and ?lev = "\<lambda>x. m_dependency_level ws ! x"
  let ?c = "fold (count_step ws) xs (replicate (?L + 1) 0)"
  let ?co = "fold (place_step ws) xs (partial_sum 0 ?c, resize (length xs) 0 (m_dependency_nodes ws))"
  have c: "length ?c = ?L + 1" using count_pass [of xs ws ?L "replicate (?L + 1) 0"] assms(1) by auto
  have off: "partial_sum 0 ?c ! i = below ?lev xs i" if "i \<le> ?L" for i
    using batch_offsets [OF assms(1) that] .
  have fields: "m_dependency_offsets ws' = partial_sum 0 ?c" "m_dependency_nodes ws' = snd ?co"
    using b by (auto simp: prepare_dependency_batches_def Let_def split_beta)
  show "length (m_dependency_offsets ws') = ?L + 1" using c by (simp add: fields)
  have "placed ?lev xs ?L [] (partial_sum 0 ?c, resize (length xs) 0 (m_dependency_nodes ws))"
    using c off by (simp add: placed_def)
  then have "placed ?lev xs ?L xs ?co" using assms(1) by (intro place_pass) auto
  then have out: "length (snd ?co) = length xs" "\<And>l k. l < ?L \<Longrightarrow> k < length (filter (\<lambda>x. ?lev x = l) xs) \<Longrightarrow>
      snd ?co ! (below ?lev xs l + k) = filter (\<lambda>x. ?lev x = l) xs ! k"
    by (auto simp: placed_def split_beta)
  show "level_span ws' l = filter (\<lambda>x. ?lev x = l) xs" if l: "l < ?L"
  proof -
    have span: "level_span ws' l =
        take (length (filter (\<lambda>x. ?lev x = l) xs)) (drop (below ?lev xs l) (snd ?co))"
      using l off [of l] off [of "Suc l"]
      by (simp add: level_span_def Let_def fields below_Suc del: replicate.simps)
    show ?thesis
      using out l below_le [of ?lev xs "Suc l"]
      by (intro nth_equalityI) (auto simp: span below_Suc)
  qed
qed

subsection \<open>Every schedule of the levels gives the sequential result\<close>

lemma metadata_level:
  assumes wf: "wf_polytree t" and md: "metadata_ok t ws" and n: "n < node_count t"
  shows "m_dependency_level ws ! n < length (dependency_levels t)"
    and "parent t n = Some p \<Longrightarrow> m_dependency_level ws ! p < m_dependency_level ws ! n"
proof -
  have lv: "levels_ok t" using wf by (simp add: wf_polytree_def)
  then have "n \<in> set (concat (dependency_levels t))" using n by (simp add: levels_ok_def)
  then obtain i where i: "i < length (dependency_levels t)" "n \<in> set (dependency_levels t ! i)"
    by (metis UN_E in_set_conv_nth set_concat)
  then show "m_dependency_level ws ! n < length (dependency_levels t)"
    using metadata_ok_level [OF md] by simp
  assume "parent t n = Some p"
  with lv i obtain j where "j < i" "p \<in> set (dependency_levels t ! j)"
    unfolding levels_ok_def by metis
  with i metadata_ok_level [OF md, of i n] metadata_ok_level [OF md, of j p] show "m_dependency_level ws ! p < m_dependency_level ws ! n" by simp
qed

lemma levels_concat:
  assumes "distinct xs" and perm: "\<And>l. l < L \<Longrightarrow> mset (f l) = mset (filter (\<lambda>x. lev x = l) xs)"
  shows "distinct (concat (map f [0..<L])) \<and> set (concat (map f [0..<L])) = {x \<in> set xs. lev x < L} \<and>
    sorted_wrt (\<lambda>x y. lev x \<le> lev y) (concat (map f [0..<L]))"
  using perm
proof (induction L)
  case (Suc L)
  have "mset (f L) = mset (filter (\<lambda>x. lev x = L) xs)" using Suc.prems by simp
  then have f: "set (f L) = {x \<in> set xs. lev x = L}" "distinct (f L)"
    using mset_eq_setD [of "f L" "filter (\<lambda>x. lev x = L) xs"]
      mset_eq_imp_distinct_iff [of "f L" "filter (\<lambda>x. lev x = L) xs"]
      distinct_filter [OF assms(1), of "\<lambda>x. lev x = L"] by simp_all
  have "sorted_wrt (\<lambda>x y. lev x \<le> lev y) ys" if "\<forall>y \<in> set ys. lev y = L" for ys
    using that by (induction ys) auto
  with f have asc: "sorted_wrt (\<lambda>x y. lev x \<le> lev y) (f L)" by simp
  have IH: "distinct (concat (map f [0..<L]))" "set (concat (map f [0..<L])) = {x \<in> set xs. lev x < L}"
    "sorted_wrt (\<lambda>x y. lev x \<le> lev y) (concat (map f [0..<L]))"
    using Suc by simp_all
  have split: "concat (map f [0..<Suc L]) = concat (map f [0..<L]) @ f L" by simp
  show ?case
    unfolding split using f asc IH by (auto simp: sorted_wrt_append simp del: set_concat)
qed simp

lemma ascending_dependency_order:
  assumes wf: "wf_polytree t" and "rank_ascending t xs" and "set xs \<subseteq> {..< node_count t}"
  shows "dependency_order t xs"
proof -
  have "sorted_wrt (\<lambda>x y. parent t x \<noteq> Some y) xs"
    by (rule sorted_wrt_mono_rel [OF _ assms(2)]) (use wf_parentD(2) [OF wf] assms(3) in fastforce)
  moreover have "distinct xs"
    using assms(2) by (metis distinct_map strict_sorted_iff sorted_wrt_map)
  ultimately show ?thesis
    using wf_parentD(2) [OF wf] assms(3) by (fastforce simp: dependency_order_def)
qed

lemma fold_concat_map: "fold g (concat (map f xs)) s = fold (\<lambda>x. fold g (f x)) xs s"
  by (induction xs arbitrary: s) simp_all

lemma run_levels_sequential:
  assumes wf: "wf_polytree t" and md: "metadata_ok t ws" and len: "length (m_records st) = node_count t"
    and asc: "rank_ascending t nodes" and sub: "set nodes \<subseteq> {..< node_count t}"
    and b: "prepare_dependency_batches t nodes ws = (mb, ws')" and sched: "is_schedule sched"
  shows "run_levels t compose sched ws' st = fold (write_world t compose) nodes st"
proof -
  let ?lev = "\<lambda>x. m_dependency_level ws ! x" and ?L = "length (dependency_levels t)"
  let ?f = "\<lambda>l. sched l (level_span ws' l)"
  have lev: "?lev x < ?L" if "x \<in> set nodes" for x using metadata_level(1) [OF wf md] that sub by auto
  note spans = batch_spans [OF lev b]
  note order = ascending_dependency_order [OF wf asc sub]
  have "mset (?f l) = mset (filter (\<lambda>x. ?lev x = l) nodes)" if "l < ?L" for l
    using sched spans(2) [OF _ that] by (simp add: is_schedule_def)
  with levels_concat [of nodes ?L ?f ?lev] order
  have c: "distinct (concat (map ?f [0..<?L]))" "set (concat (map ?f [0..<?L])) = set nodes"
    "sorted_wrt (\<lambda>x y. ?lev x \<le> ?lev y) (concat (map ?f [0..<?L]))"
    using lev by (auto simp: dependency_order_def)
  have up: "?lev y < ?lev x" if "parent t x = Some y" "x \<in> set nodes" for x y
    using metadata_level(2) [OF wf md _ that(1)] sub that(2) by auto
  have "sorted_wrt (\<lambda>x y. parent t x \<noteq> Some y) (concat (map ?f [0..<?L]))"
    by (rule sorted_wrt_mono_rel [OF _ c(3)]) (use up c(2) in fastforce)
  with c up have "dependency_order t (concat (map ?f [0..<?L]))"
    by (fastforce simp: dependency_order_def)
  then have "fold (write_world t compose) (concat (map ?f [0..<?L])) st = fold (write_world t compose) nodes st"
    using c(2) sub len by (intro write_world_order [OF wf _ order]) auto
  moreover have "run_levels t compose sched ws' st = fold (write_world t compose) (concat (map ?f [0..<?L])) st"
    using spans(1) by (simp add: run_levels_def fold_concat_map del: upt_Suc)
  ultimately show ?thesis by simp
qed

text \<open>The nodes of one level never read a world that another node of the level writes.\<close>

lemma levels_are_race_free:
  assumes wf: "wf_polytree t" and md: "metadata_ok t ws" and sub: "set nodes \<subseteq> {..< node_count t}"
    and b: "prepare_dependency_batches t nodes ws = (mb, ws')" and l: "l < length (dependency_levels t)"
    and "n \<in> set (level_span ws' l)" and "parent t n = Some p"
  shows "p \<notin> set (level_span ws' l)"
proof -
  have lev: "m_dependency_level ws ! x < length (dependency_levels t)" if "x \<in> set nodes" for x
    using metadata_level(1) [OF wf md] that sub by auto
  show ?thesis
    using assms(6) metadata_level(2) [OF wf md _ assms(7)] sub by (auto simp: batch_spans(2) [OF lev b l])
qed

lemma evaluate_on_sequential:
  assumes wf: "wf_polytree t" and md: "\<And>ws. wsp = Some ws \<Longrightarrow> metadata_ok t ws"
    and len: "length (m_records st) = node_count t"
    and asc: "rank_ascending t (plan_ordered_nodes plan)"
    and sub: "set (plan_ordered_nodes plan) \<subseteq> {..< node_count t}" and sched: "is_schedule sched"
  shows "\<exists>wsp'. evaluate_transforms_on workers grain sched t compose st plan wsp =
    (fst (evaluate_transforms t compose st plan wsp), snd (evaluate_transforms t compose st plan wsp), wsp')"
proof (cases "check_plan t st plan wsp = te_none")
  case False
  then show ?thesis
    by (cases "check_plan t st plan wsp"; cases wsp)
      (auto simp: evaluate_transforms_on_def evaluate_transforms_def Let_def)
next
  case True
  then obtain ws where ws: "wsp = Some ws" by (cases wsp) (auto simp: check_plan_def split: if_splits)
  let ?nodes = "plan_ordered_nodes plan"
  obtain mb ws' where b: "prepare_dependency_batches t ?nodes ws = (mb, ws')" by fastforce
  have "m_generation ws' = m_generation ws"
    using b by (auto simp: prepare_dependency_batches_def Let_def split_beta)
  then have chk: "check_plan t st plan (Some ws') = te_none"
    using True by (simp add: check_plan_def ws split: if_splits)
  let ?st = "begin_evaluation (?nodes \<noteq> []) st"
  have len': "length (m_records ?st) = node_count t" by (simp add: begin_evaluation_def len)
  note run = run_levels_sequential [OF wf md [OF ws] len' asc sub b sched]
  note push = fold_push_split [OF wf sub len']
  show ?thesis
    using True chk
    by (simp add: evaluate_transforms_on_def evaluate_transforms_def Let_def ws b run push split_beta)
qed

subsection \<open>The contract of an evaluator\<close>

definition evaluable ::
  "polytree \<Rightarrow> 'a transform_state \<Rightarrow> transform_evaluation_plan \<Rightarrow>
   transform_evaluation_workspace option \<Rightarrow> bool" where
  "evaluable t st plan wsp \<longleftrightarrow>
     wf_polytree t \<and> length (m_records st) = node_count t \<and> frontier_exact st \<and>
     rank_ascending t (plan_ordered_nodes plan) \<and>
     set (plan_ordered_nodes plan) \<subseteq> {..< node_count t} \<and>
     (\<forall>ws. wsp = Some ws \<longrightarrow> metadata_ok t ws)"

text \<open>
  What an accepted plan does: the planned nodes satisfy their world equation in the new
  state, carry its revision and are clean; everything else is as before.
\<close>

definition next_revision :: "'a transform_state \<Rightarrow> node_handle list \<Rightarrow> u64" where
  "next_revision st nodes = (if nodes = [] then m_revision st else m_revision st + 1)"

definition evaluated ::
  "polytree \<Rightarrow> ('a \<Rightarrow> 'a \<Rightarrow> 'a) \<Rightarrow> node_handle list \<Rightarrow> 'a transform_state \<Rightarrow> 'a transform_state \<Rightarrow> bool" where
  "evaluated t compose nodes st st' \<longleftrightarrow>
     length (m_records st') = length (m_records st) \<and>
     (\<forall>n < length (m_records st). m_records st' ! n =
        (if n \<in> set nodes
         then (m_records st ! n)\<lparr>r_world := world_from t compose st' n,
                r_world_revision := next_revision st nodes, r_dirty := False\<rparr>
         else m_records st ! n)) \<and>
     m_dirty_nodes st' = filter (\<lambda>n. n \<notin> set nodes) (m_dirty_nodes st) \<and>
     m_revision st' = next_revision st nodes \<and>
     m_mutation_generation st' = m_mutation_generation st \<and>
     m_evaluation_generation st' = m_evaluation_generation st + 1"

definition worlds_ok :: "polytree \<Rightarrow> ('a \<Rightarrow> 'a \<Rightarrow> 'a) \<Rightarrow> 'a transform_state \<Rightarrow> bool" where
  "worlds_ok t compose st \<longleftrightarrow>
     (\<forall>n < node_count t. \<not> r_dirty (m_records st ! n) \<longrightarrow> world_of st n = world_from t compose st n)"

definition closed_downward :: "polytree \<Rightarrow> node_handle list \<Rightarrow> bool" where
  "closed_downward t nodes \<longleftrightarrow>
     (\<forall>d < node_count t. \<forall>p. parent t d = Some p \<longrightarrow> p \<in> set nodes \<longrightarrow> d \<in> set nodes)"

text \<open>
  The abstract specification of a world transform: the composition of the locals along the
  path from the root, whatever the history of mutations and evaluations.
\<close>

inductive path_world ::
  "polytree \<Rightarrow> ('a \<Rightarrow> 'a \<Rightarrow> 'a) \<Rightarrow> (node_handle \<Rightarrow> 'a) \<Rightarrow> node_handle \<Rightarrow> 'a \<Rightarrow> bool"
  for t compose loc where
  path_root: "parent t n = None \<Longrightarrow> path_world t compose loc n (loc n)"
| path_child: "parent t n = Some p \<Longrightarrow> path_world t compose loc p w \<Longrightarrow>
    path_world t compose loc n (compose w (loc n))"

lemma path_world_deterministic:
  "path_world t compose loc n w \<Longrightarrow> path_world t compose loc n w' \<Longrightarrow> w = w'"
proof (induction arbitrary: w' rule: path_world.induct)
  case (path_root n)
  from path_root.prems path_root.hyps show ?case by (cases rule: path_world.cases) simp_all
next
  case (path_child n p w)
  from path_child.prems show ?case
  proof (cases rule: path_world.cases)
    case path_root
    with path_child.hyps show ?thesis by simp
  next
    case (path_child p' v)
    then have "p' = p" using path_child.hyps by simp
    with path_child \<open>\<And>w'. path_world t compose loc p w' \<Longrightarrow> w = w'\<close> show ?thesis by blast
  qed
qed

lemma worlds_ok_path:
  assumes wf: "wf_polytree t" and ok: "worlds_ok t compose st" and n: "n < node_count t"
    and clean: "\<And>n. n < node_count t \<Longrightarrow> \<not> r_dirty (m_records st ! n)"
  shows "path_world t compose (local_of st) n (world_of st n)"
  using wf n
proof (induction n rule: rank_induct)
  case (node n)
  with ok clean have eq: "world_of st n = world_from t compose st n" by (simp add: worlds_ok_def)
  show ?case
  proof (cases "parent t n")
    case None
    with path_root [of t n compose "local_of st"] show ?thesis by (simp add: eq world_from_def)
  next
    case (Some p)
    with node wf_parentD(1) [OF wf node(1)] path_child [of t n p compose "local_of st" "world_of st p"]
    show ?thesis by (simp add: eq world_from_def)
  qed
qed

lemma worlds_ok_mutate:
  assumes wf: "wf_polytree t" and ok: "worlds_ok t compose st"
    and same: "\<And>n. n \<noteq> node \<Longrightarrow> m_records st' ! n = m_records st ! n"
    and world: "r_world (m_records st' ! node) = r_world (m_records st ! node)"
    and dirty: "r_dirty (m_records st' ! node)"
  shows "worlds_ok t compose st'"
proof -
  have w: "world_of st' x = world_of st x" for x
    using same world by (cases "x = node") (simp_all add: world_of_def record_at_def)
  show ?thesis
    unfolding worlds_ok_def
  proof (intro allI impI)
    fix n assume n: "n < node_count t" and nd: "\<not> r_dirty (m_records st' ! n)"
    then have "n \<noteq> node" using dirty by auto
    then have "m_records st' ! n = m_records st ! n" by (rule same)
    with ok n nd w show "world_of st' n = world_from t compose st' n"
      by (simp add: worlds_ok_def world_from_def local_of_def record_at_def split: option.split)
  qed
qed

lemma worlds_ok_set_local:
  assumes "wf_polytree t" and "worlds_ok t compose st"
  shows "worlds_ok t compose (snd (set_local node loc st))"
proof (cases "fst (set_local node loc st) = te_none")
  case True
  from assms show ?thesis
    by (rule worlds_ok_mutate [where node = node])
      (simp_all add: set_local_other set_local_ok_record [OF True])
qed (simp add: set_local_error assms)

lemma worlds_ok_mark_dirty:
  assumes "wf_polytree t" and "worlds_ok t compose st"
  shows "worlds_ok t compose (snd (mark_dirty node st))"
proof (cases "fst (mark_dirty node st) = te_none")
  case True
  from assms show ?thesis
    by (rule worlds_ok_mutate [where node = node])
      (use True in \<open>auto simp: mark_dirty_def Let_def split: if_splits\<close>)
qed (simp add: mark_dirty_error assms)

lemma worlds_ok_all_dirty: "(\<And>r. r \<in> set (m_records st) \<Longrightarrow> r_dirty r) \<Longrightarrow>
  length (m_records st) = node_count t \<Longrightarrow> worlds_ok t compose st"
  by (simp add: worlds_ok_def)

text \<open>The locale both evaluators are instances of.\<close>

locale world_evaluator =
  fixes evaluate :: "polytree \<Rightarrow> ('a \<Rightarrow> 'a \<Rightarrow> 'a) \<Rightarrow> 'a transform_state \<Rightarrow> transform_evaluation_plan \<Rightarrow>
      transform_evaluation_workspace option \<Rightarrow> transform_evaluation_result \<times> 'a transform_state"
    and usable :: bool
  assumes reject: "usable \<Longrightarrow> check_plan t st plan wsp \<noteq> te_none \<Longrightarrow>
      evaluate t compose st plan wsp =
      (\<lparr>res_error = check_plan t st plan wsp, res_changed_nodes = [], res_world_revision = m_revision st\<rparr>, st)"
    and accept_result: "usable \<Longrightarrow> evaluable t st plan wsp \<Longrightarrow> check_plan t st plan wsp = te_none \<Longrightarrow>
      fst (evaluate t compose st plan wsp) =
      \<lparr>res_error = te_none, res_changed_nodes = plan_ordered_nodes plan,
       res_world_revision = next_revision st (plan_ordered_nodes plan)\<rparr>"
    and accept_state: "usable \<Longrightarrow> evaluable t st plan wsp \<Longrightarrow> check_plan t st plan wsp = te_none \<Longrightarrow>
      evaluated t compose (plan_ordered_nodes plan) st (snd (evaluate t compose st plan wsp))"
begin

lemma evaluate_frontier:
  assumes "usable" and ev: "evaluable t st plan wsp"
  shows "frontier_exact (snd (evaluate t compose st plan wsp))"
proof (cases "check_plan t st plan wsp = te_none")
  case True
  from accept_state [OF assms(1,2) True, of compose] ev show ?thesis
    by (auto simp: evaluable_def evaluated_def frontier_exact_def split: if_splits)
next
  case False
  with reject [OF assms(1)] ev show ?thesis by (simp add: evaluable_def)
qed

lemma evaluate_worlds_ok:
  assumes "usable" and ev: "evaluable t st plan wsp" and ok: "worlds_ok t compose st"
    and closed: "closed_downward t (plan_ordered_nodes plan)"
  shows "worlds_ok t compose (snd (evaluate t compose st plan wsp))"
proof (cases "check_plan t st plan wsp = te_none")
  case True
  let ?s = "snd (evaluate t compose st plan wsp)" and ?N = "plan_ordered_nodes plan"
  note eff = accept_state [OF assms(1,2) True, of compose]
  have wf: "wf_polytree t" and len: "length (m_records st) = node_count t"
    using ev by (simp_all add: evaluable_def)
  show ?thesis
    unfolding worlds_ok_def
  proof (intro allI impI)
    fix n assume n: "n < node_count t" and nd: "\<not> r_dirty (m_records ?s ! n)"
    show "world_of ?s n = world_from t compose ?s n"
    proof (cases "n \<in> set ?N")
      case True
      with eff n len show ?thesis by (simp add: evaluated_def world_of_def record_at_def)
    next
      case False
      have "world_of ?s p = world_of st p" if p: "parent t n = Some p" for p
      proof -
        have "p \<notin> set ?N" using closed n p False by (auto simp: closed_downward_def)
        with eff len wf_parentD(1) [OF wf n p] show ?thesis
          by (simp add: evaluated_def world_of_def record_at_def)
      qed
      moreover have "m_records ?s ! n = m_records st ! n"
        using False eff n len by (simp add: evaluated_def)
      ultimately have "world_from t compose ?s n = world_from t compose st n"
        by (intro world_from_cong) (simp_all add: local_of_def record_at_def)
      with ok n nd \<open>m_records ?s ! n = m_records st ! n\<close> show ?thesis
        by (simp add: worlds_ok_def world_of_def record_at_def)
    qed
  qed
next
  case False
  with reject [OF assms(1)] ok show ?thesis by simp
qed

lemma evaluate_clock:
  assumes "usable" and ev: "evaluable t st plan wsp" and "clock_ok st"
  shows "clock_ok (snd (evaluate t compose st plan wsp))"
proof (cases "check_plan t st plan wsp = te_none")
  case True
  let ?s = "snd (evaluate t compose st plan wsp)" and ?N = "plan_ordered_nodes plan"
  note eff = accept_state [OF assms(1,2) True, of compose]
  have up: "m_revision st \<le> next_revision st ?N"
    using True by (auto simp: check_plan_def next_revision_def revision_available_def
        split: if_splits intro: le_next)
  have "r_local_revision (m_records ?s ! n) \<le> m_revision ?s \<and>
      r_world_revision (m_records ?s ! n) \<le> m_revision ?s" if "n < length (m_records st)" for n
    using that eff clock_ok_nth [OF assms(3) that] up by (auto simp: evaluated_def)
  with eff show ?thesis by (auto simp: clock_ok_def evaluated_def in_set_conv_nth)
next
  case False
  with reject [OF assms(1)] assms(3) show ?thesis by simp
qed

lemma evaluate_changed_since:
  assumes "usable" and ev: "evaluable t st plan wsp" and ck: "clock_ok st"
    and acc: "check_plan t st plan wsp = te_none"
  shows "changed_transform_nodes_since t (snd (evaluate t compose st plan wsp)) (m_revision st) =
    plan_ordered_nodes plan"
proof -
  let ?s = "snd (evaluate t compose st plan wsp)" and ?N = "plan_ordered_nodes plan"
  note eff = accept_state [OF assms(1,2) acc, of compose]
  have wf: "wf_polytree t" and len: "length (m_records st) = node_count t"
    and asc: "rank_ascending t ?N" and sub: "set ?N \<subseteq> {..< node_count t}"
    using ev by (simp_all add: evaluable_def)
  have "m_revision st < next_revision st ?N" if "?N \<noteq> []"
    using that acc by (auto simp: check_plan_def next_revision_def revision_available_def
        split: if_splits intro: less_next)
  then have up: "m_revision st < next_revision st ?N" if "n \<in> set ?N" for n using that by force
  have "r_world_revision (record_at ?s n) > m_revision st \<longleftrightarrow> n \<in> set ?N" if n: "n < node_count t" for n
    using eff n len clock_ok_nth [OF ck, of n] up by (auto simp: evaluated_def record_at_def)
  then have "changed_transform_nodes_since t ?s (m_revision st) =
      filter (\<lambda>n. n \<in> set ?N) (topological_order t)"
    using wf_orderD(2) [OF wf] by (auto simp: changed_transform_nodes_since_def intro!: filter_cong)
  also have "\<dots> = ?N"
    using asc sub rank_ascending_order [OF wf] wf_orderD(2) [OF wf]
    by (intro rank_ascending_unique [of t]) (auto simp: sorted_wrt_filter)
  finally show ?thesis .
qed

end

lemma begin_evaluation_fields [simp]:
  "m_records (begin_evaluation b st) = m_records st"
  "m_dirty_nodes (begin_evaluation b st) = m_dirty_nodes st"
  "m_mutation_generation (begin_evaluation b st) = m_mutation_generation st"
  "m_evaluation_generation (begin_evaluation b st) = m_evaluation_generation st + 1"
  "m_revision (begin_evaluation (nodes \<noteq> []) st) = next_revision st nodes"
  by (simp_all add: begin_evaluation_def next_revision_def)

lemma compact_fields [simp]:
  "m_records (compact_dirty_frontier st) = m_records st"
  "m_revision (compact_dirty_frontier st) = m_revision st"
  "m_mutation_generation (compact_dirty_frontier st) = m_mutation_generation st"
  "m_evaluation_generation (compact_dirty_frontier st) = m_evaluation_generation st"
  by (simp_all add: compact_dirty_frontier_def)

lemma sequential_evaluated:
  assumes ev: "evaluable t st plan wsp" and acc: "check_plan t st plan wsp = te_none"
  shows "evaluated t compose (plan_ordered_nodes plan) st (snd (evaluate_transforms t compose st plan wsp))"
proof -
  let ?N = "plan_ordered_nodes plan"
  let ?v = "next_revision st ?N" and ?b = "begin_evaluation (?N \<noteq> []) st"
  let ?w = "fold (write_world t compose) ?N ?b"
  let ?c = "fold (commit_node ?v) ?N ?w"
  have wf: "wf_polytree t" and len: "length (m_records st) = node_count t" and fr: "frontier_exact st"
    and asc: "rank_ascending t ?N" and sub: "set ?N \<subseteq> {..< node_count t}"
    using ev by (simp_all add: evaluable_def)
  have s': "snd (evaluate_transforms t compose st plan wsp) = compact_dirty_frontier ?c"
    using acc len by (simp add: evaluate_transforms_def Let_def fold_push_split [OF wf sub])
  have w: "worlds_written t compose (set ?N) ?b ?w"
    by (rule fold_write_world [OF wf ascending_dependency_order [OF wf asc sub] sub]) (simp add: len)
  have c: "m_records ?c ! n = (if n \<in> set ?N
      then (m_records ?w ! n)\<lparr>r_world_revision := ?v, r_dirty := False\<rparr> else m_records ?w ! n)"
    if "n < node_count t" for n
    using that sub len by (simp add: fold_commit_nth)
  have wc: "world_from t compose ?c n = world_from t compose ?w n" if n: "n < node_count t" for n
    using c n wf_parentD(1) [OF wf n]
    by (intro world_from_cong) (simp_all add: local_of_def world_of_def record_at_def)
  have recs: "m_records ?c ! n = (if n \<in> set ?N
      then (m_records st ! n)\<lparr>r_world := world_from t compose ?c n, r_world_revision := ?v, r_dirty := False\<rparr>
      else m_records st ! n)" if n: "n < node_count t" for n
    using w n len by (simp add: c wc worlds_written_def)
  have "filter (\<lambda>node. r_dirty (m_records ?c ! node)) (m_dirty_nodes st) =
      filter (\<lambda>n. n \<notin> set ?N) (m_dirty_nodes st)"
    using fr len recs by (intro filter_cong) (auto simp: frontier_exact_def)
  then have "m_dirty_nodes (compact_dirty_frontier ?c) = filter (\<lambda>n. n \<notin> set ?N) (m_dirty_nodes st)"
    by (simp add: compact_dirty_frontier_def)
  moreover have "world_from t compose (compact_dirty_frontier ?c) n = world_from t compose ?c n" for n
    by (rule world_from_cong) (simp_all add: local_of_def world_of_def record_at_def)
  ultimately show ?thesis using recs len by (simp add: s' evaluated_def)
qed

interpretation sequential: world_evaluator evaluate_transforms True
  by unfold_locales
    (simp_all add: sequential_evaluated, simp_all add: evaluate_transforms_def Let_def)

definition evaluate_in_parallel ::
  "nat \<Rightarrow> nat \<Rightarrow> schedule \<Rightarrow> polytree \<Rightarrow> ('a \<Rightarrow> 'a \<Rightarrow> 'a) \<Rightarrow> 'a transform_state \<Rightarrow>
   transform_evaluation_plan \<Rightarrow> transform_evaluation_workspace option \<Rightarrow>
   transform_evaluation_result \<times> 'a transform_state" where
  "evaluate_in_parallel workers grain sched t compose st plan wsp =
     (case evaluate_transforms_on workers grain sched t compose st plan wsp of
        (result, st, wsp) \<Rightarrow> (result, st))"

lemma evaluate_in_parallel_sequential:
  assumes "evaluable t st plan wsp" and "is_schedule sched"
  shows "evaluate_in_parallel workers grain sched t compose st plan wsp =
    evaluate_transforms t compose st plan wsp"
proof -
  obtain wsp' where "evaluate_transforms_on workers grain sched t compose st plan wsp =
    (fst (evaluate_transforms t compose st plan wsp), snd (evaluate_transforms t compose st plan wsp), wsp')"
    using evaluate_on_sequential [of t wsp st plan sched workers grain compose] assms
    by (auto simp: evaluable_def)
  then show ?thesis by (simp add: evaluate_in_parallel_def)
qed

lemma evaluate_in_parallel_reject:
  "check_plan t st plan wsp \<noteq> te_none \<Longrightarrow>
   evaluate_in_parallel workers grain sched t compose st plan wsp =
   (\<lparr>res_error = check_plan t st plan wsp, res_changed_nodes = [], res_world_revision = m_revision st\<rparr>, st)"
  by (cases "check_plan t st plan wsp"; cases wsp)
    (simp_all add: evaluate_in_parallel_def evaluate_transforms_on_def Let_def)

interpretation parallel: world_evaluator
  "evaluate_in_parallel workers grain sched" "is_schedule sched"
  by unfold_locales
    (simp_all add: evaluate_in_parallel_reject evaluate_in_parallel_sequential
      sequential.accept_result sequential.accept_state)

subsection \<open>Plans made from the state are evaluable\<close>

lemma canonical_closed:
  "wf_polytree t \<Longrightarrow> closed_downward t (canonical_nodes t st)"
  by (auto simp: closed_downward_def set_canonical_nodes intro: is_affected.intros)

lemma partial_closed:
  assumes "wf_polytree t"
  shows "closed_downward t (filter (\<lambda>x. \<exists>r \<in> set rs. descends t r x) (canonical_nodes t st))"
  using assms by (auto simp: closed_downward_def set_canonical_nodes intro: is_affected.intros descends_step)

lemma canonical_ascending:
  "wf_polytree t \<Longrightarrow> rank_ascending t (filter P (canonical_nodes t st))"
  by (simp add: canonical_nodes_def sorted_wrt_filter rank_ascending_order)

lemma plan_of_evaluable:
  assumes pl: "plannable t st" and "metadata_ok t ws"
  shows "evaluable t st (plan_of t st ws' roots (filter P (canonical_nodes t st))) (Some ws)"
  using assms canonical_ascending [OF plannableD(1) [OF pl], of P st]
    set_canonical_nodes [OF plannableD(1) [OF pl], of st]
  by (auto simp: evaluable_def plannable_def plan_of_def)

lemma plan_of_check:
  "check_plan t st (plan_of t st ws roots nodes) (Some ws) =
   (if nodes \<noteq> [] \<and> m_revision st = - 1 then te_revision_exhausted else te_none)"
  by (simp add: check_plan_def plan_of_def revision_available_def)

lemma full_plan_evaluable:
  assumes "plannable t st" and "cache_coherent t ws" and "stamps_ok ws"
  obtains plan ws' where "make_transform_evaluation_plan t st ws = (Inr plan, ws')"
    and "plan_ordered_nodes plan = canonical_nodes t st" and "plan_dirty_roots plan = canonical_roots t st"
    and "evaluable t st plan (Some ws')" and "closed_downward t (plan_ordered_nodes plan)"
    and "check_plan t st plan (Some ws') =
      (if canonical_nodes t st \<noteq> [] \<and> m_revision st = - 1 then te_revision_exhausted else te_none)"
    and "cache_coherent t ws'" and "stamps_ok ws'"
proof -
  obtain ws' where p: "make_transform_evaluation_plan t st ws =
      (Inr (plan_of t st ws' (canonical_roots t st) (canonical_nodes t st)), ws')"
    and ws': "metadata_ok t ws'" "stamps_ok ws'" "cache_coherent t ws'"
    using full_plan [OF assms] by blast
  show ?thesis
    using that [OF p] ws' plan_of_evaluable [OF assms(1) ws'(1), of ws' "canonical_roots t st" "\<lambda>_. True"]
      canonical_closed [OF plannableD(1) [OF assms(1)], of st]
    by (simp add: plan_of_check) (simp add: plan_of_def)
qed

end
