(* ===== verification/Transform_System.thy ===== *)
theory Transform_System
  imports Transform_Evaluation
begin

section \<open>A scene's transforms as a system of interleaved operations\<close>

text \<open>
  What a client may do with one topology, one state and one workspace, in any order: set
  locals, mark nodes dirty, make full and partial plans, hold on to plans, and evaluate any
  plan it holds, sequentially or in parallel. The invariant below is what makes held plans
  safe: the revision is guarded against wrap-around and grows with every change of the
  records, so a plan whose source revision is the state's was made from the same records.
\<close>

record 'a transform_system =
  sys_state :: "'a transform_state"
  sys_workspace :: transform_evaluation_workspace
  sys_plans :: "transform_evaluation_plan list"

inductive system_step ::
  "polytree \<Rightarrow> ('a \<Rightarrow> 'a \<Rightarrow> 'a) \<Rightarrow> 'a transform_system \<Rightarrow> 'a transform_system \<Rightarrow> bool"
  for t compose where
  step_set_local:
    "system_step t compose sys (sys\<lparr>sys_state := snd (set_local node loc (sys_state sys))\<rparr>)"
| step_mark_dirty:
    "system_step t compose sys (sys\<lparr>sys_state := snd (mark_dirty node (sys_state sys))\<rparr>)"
| step_full_plan:
    "make_transform_evaluation_plan t (sys_state sys) (sys_workspace sys) = (outcome, ws) \<Longrightarrow>
     system_step t compose sys (sys\<lparr>sys_workspace := ws,
       sys_plans := (case outcome of Inl e \<Rightarrow> sys_plans sys | Inr plan \<Rightarrow> plan # sys_plans sys)\<rparr>)"
| step_partial_plan:
    "make_partial_evaluation_plan t (sys_state sys) (sys_workspace sys) roots = (outcome, ws) \<Longrightarrow>
     system_step t compose sys (sys\<lparr>sys_workspace := ws,
       sys_plans := (case outcome of Inl e \<Rightarrow> sys_plans sys | Inr plan \<Rightarrow> plan # sys_plans sys)\<rparr>)"
| step_evaluate:
    "plan \<in> set (sys_plans sys) \<Longrightarrow>
     evaluate_transforms t compose (sys_state sys) plan (Some (sys_workspace sys)) = (result, st) \<Longrightarrow>
     system_step t compose sys (sys\<lparr>sys_state := st\<rparr>)"
| step_evaluate_on:
    "plan \<in> set (sys_plans sys) \<Longrightarrow> is_schedule sched \<Longrightarrow>
     evaluate_transforms_on workers grain sched t compose (sys_state sys) plan
       (Some (sys_workspace sys)) = (result, st, Some ws) \<Longrightarrow>
     system_step t compose sys (sys\<lparr>sys_state := st, sys_workspace := ws\<rparr>)"

text \<open>Systems start from a state whose clean records are right, and a new workspace.\<close>

definition initial_system :: "polytree \<Rightarrow> ('a \<Rightarrow> 'a \<Rightarrow> 'a) \<Rightarrow> 'a transform_system \<Rightarrow> bool" where
  "initial_system t compose sys \<longleftrightarrow>
     sys_workspace sys = new_workspace \<and> sys_plans sys = [] \<and>
     length (m_records (sys_state sys)) = node_count t \<and> frontier_exact (sys_state sys) \<and>
     clock_ok (sys_state sys) \<and> worlds_ok t compose (sys_state sys)"

inductive reachable_system ::
  "polytree \<Rightarrow> ('a \<Rightarrow> 'a \<Rightarrow> 'a) \<Rightarrow> 'a transform_system \<Rightarrow> bool" for t compose where
  reach_init: "initial_system t compose sys \<Longrightarrow> reachable_system t compose sys"
| reach_step: "reachable_system t compose sys \<Longrightarrow> system_step t compose sys sys' \<Longrightarrow> reachable_system t compose sys'"

subsection \<open>The invariant\<close>

definition state_ok :: "polytree \<Rightarrow> ('a \<Rightarrow> 'a \<Rightarrow> 'a) \<Rightarrow> 'a transform_state \<Rightarrow> bool" where
  "state_ok t compose st \<longleftrightarrow>
     length (m_records st) = node_count t \<and> frontier_exact st \<and> clock_ok st \<and> worlds_ok t compose st"

definition plan_held :: "polytree \<Rightarrow> 'a transform_state \<Rightarrow> transform_evaluation_plan \<Rightarrow> bool" where
  "plan_held t st plan \<longleftrightarrow>
     plan_source_revision plan \<le> m_revision st \<and>
     (plan_source_revision plan = m_revision st \<longrightarrow>
        (\<exists>P. plan_ordered_nodes plan = filter P (canonical_nodes t st)) \<and>
        closed_downward t (plan_ordered_nodes plan))"

definition system_ok :: "polytree \<Rightarrow> ('a \<Rightarrow> 'a \<Rightarrow> 'a) \<Rightarrow> 'a transform_system \<Rightarrow> bool" where
  "system_ok t compose sys \<longleftrightarrow>
     state_ok t compose (sys_state sys) \<and>
     cache_coherent t (sys_workspace sys) \<and> stamps_ok (sys_workspace sys) \<and>
     (sys_plans sys \<noteq> [] \<longrightarrow> metadata_ok t (sys_workspace sys)) \<and>
     (\<forall>plan \<in> set (sys_plans sys). plan_held t (sys_state sys) plan)"

lemma state_ok_plannable: "wf_polytree t \<Longrightarrow> state_ok t compose st \<Longrightarrow> plannable t st"
  by (simp add: state_ok_def plannable_def)

lemma state_ok_set_local:
  "wf_polytree t \<Longrightarrow> state_ok t compose st \<Longrightarrow> state_ok t compose (snd (set_local node loc st))"
  by (simp add: state_ok_def frontier_exact_set_local clock_ok_set_local worlds_ok_set_local state_frames)

lemma state_ok_mark_dirty:
  "wf_polytree t \<Longrightarrow> state_ok t compose st \<Longrightarrow> state_ok t compose (snd (mark_dirty node st))"
  by (simp add: state_ok_def frontier_exact_mark_dirty clock_ok_mark_dirty worlds_ok_mark_dirty state_frames)

lemma plan_held_mono:
  assumes "plan_held t st plan" and "m_revision st < m_revision st' \<or> st' = st"
  shows "plan_held t st' plan"
  using assms by (auto simp: plan_held_def)

lemma set_local_revision:
  "m_revision st < m_revision (snd (set_local node loc st)) \<or> snd (set_local node loc st) = st"
  by (auto simp: set_local_def Let_def revision_available_def intro: less_next)

lemma mark_dirty_revision:
  "m_revision st < m_revision (snd (mark_dirty node st)) \<or> snd (mark_dirty node st) = st"
  by (auto simp: mark_dirty_def Let_def revision_available_def intro: less_next)

lemma canonical_nodes_cong: "m_records st' = m_records st \<Longrightarrow> canonical_nodes t st' = canonical_nodes t st"
proof -
  assume "m_records st' = m_records st"
  then have "is_affected t st' = is_affected t st" by (intro ext) (simp add: is_affected_descends)
  then show ?thesis by (simp add: canonical_nodes_def)
qed

lemma plan_held_evaluated:
  assumes "plan_held t st plan" and eff: "evaluated t compose nodes st st'"
    and "nodes \<noteq> [] \<Longrightarrow> m_revision st \<noteq> - 1"
  shows "plan_held t st' plan"
proof (cases "nodes = []")
  case True
  with eff have "m_records st' = m_records st" by (intro nth_equalityI) (simp_all add: evaluated_def)
  with eff True assms(1) canonical_nodes_cong [of st' st t] show ?thesis
    by (auto simp: plan_held_def evaluated_def next_revision_def)
next
  case False
  with assms have "m_revision st < m_revision st'"
    by (simp add: evaluated_def next_revision_def less_next)
  with assms(1) show ?thesis by (auto intro: plan_held_mono)
qed

lemma held_plan_evaluable:
  assumes wf: "wf_polytree t" and ok: "system_ok t compose sys" and "plan \<in> set (sys_plans sys)"
    and chk: "check_plan t (sys_state sys) plan wsp = te_none"
  shows "evaluable t (sys_state sys) plan (Some (sys_workspace sys))"
    and "closed_downward t (plan_ordered_nodes plan)"
proof -
  let ?st = "sys_state sys"
  have held: "plan_held t ?st plan" and md: "metadata_ok t (sys_workspace sys)"
    and st: "state_ok t compose ?st"
    using ok assms(3) by (auto simp: system_ok_def)
  have "plan_source_revision plan = m_revision ?st"
    using chk by (simp add: check_plan_def split: if_splits)
  with held obtain P where P: "plan_ordered_nodes plan = filter P (canonical_nodes t ?st)"
    and closed: "closed_downward t (plan_ordered_nodes plan)" by (auto simp: plan_held_def)
  show "closed_downward t (plan_ordered_nodes plan)" by (rule closed)
  have "set (plan_ordered_nodes plan) \<subseteq> {..< node_count t}"
    using set_canonical_nodes [OF wf, of ?st] by (auto simp: P)
  then show "evaluable t ?st plan (Some (sys_workspace sys))"
    using wf md st canonical_ascending [OF wf, of P ?st] by (simp add: evaluable_def P state_ok_def)
qed

lemma evaluate_state_ok:
  assumes wf: "wf_polytree t" and ok: "system_ok t compose sys" and "plan \<in> set (sys_plans sys)"
  shows "state_ok t compose (snd (evaluate_transforms t compose (sys_state sys) plan (Some (sys_workspace sys))))
    \<and> (\<forall>p \<in> set (sys_plans sys).
      plan_held t (snd (evaluate_transforms t compose (sys_state sys) plan (Some (sys_workspace sys)))) p)"
proof (cases "check_plan t (sys_state sys) plan (Some (sys_workspace sys)) = te_none")
  case True
  note ev = held_plan_evaluable [OF wf ok assms(3) True]
  note eff = sequential.accept_state [OF TrueI ev(1) True, of compose]
  have st: "state_ok t compose (sys_state sys)" and plans: "\<And>p. p \<in> set (sys_plans sys) \<Longrightarrow> plan_held t (sys_state sys) p"
    using ok by (auto simp: system_ok_def)
  have "plan_ordered_nodes plan \<noteq> [] \<Longrightarrow> m_revision (sys_state sys) \<noteq> - 1"
    using True by (simp add: check_plan_def revision_available_def split: if_splits)
  with plan_held_evaluated [OF plans eff] have "\<And>p. p \<in> set (sys_plans sys) \<Longrightarrow>
    plan_held t (snd (evaluate_transforms t compose (sys_state sys) plan (Some (sys_workspace sys)))) p" by simp
  moreover have "state_ok t compose (snd (evaluate_transforms t compose (sys_state sys) plan (Some (sys_workspace sys))))"
    using sequential.evaluate_frontier [OF TrueI ev(1), of compose] sequential.evaluate_clock [OF TrueI ev(1), of compose]
      sequential.evaluate_worlds_ok [OF TrueI ev(1) _ ev(2), of compose] st eff
    by (simp add: state_ok_def evaluated_def)
  ultimately show ?thesis by blast
next
  case False
  with sequential.reject [OF TrueI False] ok show ?thesis by (simp add: system_ok_def)
qed

lemma evaluate_on_workspace:
  assumes "evaluate_transforms_on workers grain sched t compose st plan (Some ws) = (result, st', Some ws')"
    and "metadata_ok t ws" and "stamps_ok ws" and "cache_coherent t ws"
  shows "metadata_ok t ws' \<and> stamps_ok ws' \<and> cache_coherent t ws'"
proof -
  have "ws' = ws \<or> ws' = snd (prepare_dependency_batches t (plan_ordered_nodes plan) ws)"
    using assms(1) by (auto simp: evaluate_transforms_on_def Let_def split_beta
        split: transform_error.splits if_splits)
  moreover have "set (fold (\<lambda>node xs. xs[node := v]) ns xs) \<subseteq> insert v (set xs)" for v :: u64 and ns xs
    by (induction ns arbitrary: xs) (auto dest!: set_update_subset_insert [THEN subsetD])
  ultimately show ?thesis
    using assms(2-) metadata_ok_cong [of "snd (prepare_dependency_batches t (plan_ordered_nodes plan) ws)" ws t]
    by (fastforce simp: prepare_dependency_batches_def Let_def split_beta stamps_ok_def cache_coherent_def
        length_fold_upd)
qed

lemma worlds_ok_path_cong:
  assumes wf: "wf_polytree t" and "worlds_ok t compose st" and n: "n < node_count t"
    and "\<And>n. n < node_count t \<Longrightarrow> \<not> r_dirty (m_records st ! n)"
    and loc: "\<And>n. n < node_count t \<Longrightarrow> local_of st n = loc n"
  shows "path_world t compose loc n (world_of st n)"
proof -
  have "path_world t compose (local_of st) n (world_of st n)" using assms(1-4) by (rule worlds_ok_path)
  then show ?thesis using n
  proof (induction rule: path_world.induct)
    case (path_root n)
    with path_world.path_root [of t n compose loc] loc show ?case by simp
  next
    case (path_child n p w)
    with path_world.path_child [of t n p compose loc w] loc wf_parentD(1) [OF wf path_child.prems path_child.hyps(1)]
    show ?case by simp
  qed
qed

lemma plan_of_held:
  assumes "closed_downward t (filter P (canonical_nodes t st))"
  shows "plan_held t st (plan_of t st ws roots (filter P (canonical_nodes t st)))"
  using assms by (auto simp: plan_held_def plan_of_def)

lemma full_plan_held:
  assumes "plannable t st" and "cache_coherent t ws" and "stamps_ok ws"
    and "make_transform_evaluation_plan t st ws = (outcome, ws')"
  shows "metadata_ok t ws' \<and> stamps_ok ws' \<and> cache_coherent t ws' \<and>
    (\<exists>plan. outcome = Inr plan \<and> plan_held t st plan)"
proof -
  have "plan_held t st (plan_of t st ws' (canonical_roots t st) (canonical_nodes t st))"
    using plan_of_held [of t "\<lambda>_. True" st] canonical_closed [OF plannableD(1) [OF assms(1)], of st] by simp
  with full_plan [OF assms(1-3)] assms(4) show ?thesis by auto
qed

lemma partial_plan_held:
  assumes "plannable t st" and "cache_coherent t ws" and "stamps_ok ws"
    and "make_partial_evaluation_plan t st ws rs = (outcome, ws')"
  shows "metadata_ok t ws' \<and> stamps_ok ws' \<and> cache_coherent t ws' \<and>
    (\<forall>plan. outcome = Inr plan \<longrightarrow> plan_held t st plan)"
proof -
  note plan_of_held [OF partial_closed [OF plannableD(1) [OF assms(1)], of rs st]]
  with partial_plan [OF assms(1-3), of rs] assms(4) show ?thesis by (auto split: if_splits)
qed

lemma held_plan_in_parallel:
  assumes wf: "wf_polytree t" and ok: "system_ok t compose sys" and plan: "plan \<in> set (sys_plans sys)"
    and sched: "is_schedule sched"
    and ev: "evaluate_transforms_on workers grain sched t compose (sys_state sys) plan (Some (sys_workspace sys)) =
      (result, st', Some ws')"
  shows "st' = snd (evaluate_transforms t compose (sys_state sys) plan (Some (sys_workspace sys)))"
proof (cases "check_plan t (sys_state sys) plan (Some (sys_workspace sys)) = te_none")
  case True
  with evaluate_in_parallel_sequential [OF held_plan_evaluable(1) [OF wf ok plan True] sched, of workers grain compose] ev
  show ?thesis by (simp add: evaluate_in_parallel_def) (metis snd_conv)
next
  case False
  with evaluate_in_parallel_reject [OF False, of workers grain sched compose] sequential.reject [OF TrueI False, of compose] ev
  show ?thesis by (simp add: evaluate_in_parallel_def)
qed

lemma system_ok_step:
  assumes wf: "wf_polytree t" and ok: "system_ok t compose sys" and step: "system_step t compose sys sys'"
  shows "system_ok t compose sys'"
proof -
  have st: "state_ok t compose (sys_state sys)" and ws: "cache_coherent t (sys_workspace sys)" "stamps_ok (sys_workspace sys)"
    and md: "sys_plans sys \<noteq> [] \<Longrightarrow> metadata_ok t (sys_workspace sys)"
    and plans: "\<And>p. p \<in> set (sys_plans sys) \<Longrightarrow> plan_held t (sys_state sys) p"
    using ok by (auto simp: system_ok_def)
  note pl = state_ok_plannable [OF wf st]
  from step show ?thesis
  proof cases
    case (step_set_local node loc)
    with st ws md plan_held_mono [OF plans set_local_revision] state_ok_set_local [OF wf st] show ?thesis
      by (simp add: system_ok_def)
  next
    case (step_mark_dirty node)
    with st ws md plan_held_mono [OF plans mark_dirty_revision] state_ok_mark_dirty [OF wf st] show ?thesis
      by (simp add: system_ok_def)
  next
    case (step_full_plan outcome ws')
    with full_plan_held [OF pl ws step_full_plan(2)] st plans show ?thesis by (auto simp: system_ok_def)
  next
    case (step_partial_plan roots outcome ws')
    with partial_plan_held [OF pl ws step_partial_plan(2)] st plans show ?thesis
      by (auto simp: system_ok_def split: sum.split)
  next
    case (step_evaluate plan result st')
    with evaluate_state_ok [OF wf ok step_evaluate(2)] ws md show ?thesis by (auto simp: system_ok_def)
  next
    case (step_evaluate_on plan sched workers grain result st' ws')
    from step_evaluate_on(2) have mdw: "metadata_ok t (sys_workspace sys)"
      using md by (cases "sys_plans sys") auto
    note st' = held_plan_in_parallel [OF wf ok step_evaluate_on(2-4)]
    with step_evaluate_on(1) evaluate_state_ok [OF wf ok step_evaluate_on(2)]
      evaluate_on_workspace [OF step_evaluate_on(4) mdw ws(2,1)]
    show ?thesis by (auto simp: system_ok_def)
  qed
qed

lemma initial_system_ok: "initial_system t compose sys \<Longrightarrow> system_ok t compose sys"
  by (auto simp: initial_system_def system_ok_def state_ok_def cache_coherent_new stamps_ok_new)

lemma reachable_system_ok:
  assumes "wf_polytree t" and "reachable_system t compose sys"
  shows "system_ok t compose sys"
  using assms(2) by induction (auto intro: initial_system_ok system_ok_step [OF assms(1)])

subsection \<open>A full plan and its evaluation\<close>

lemma full_evaluation:
  assumes wf: "wf_polytree t" and st: "state_ok t compose st"
    and cs: "cache_coherent t ws" "stamps_ok ws" and room: "m_revision st \<noteq> - 1 \<or> m_dirty_nodes st = []"
  shows "\<exists>plan ws' st'. make_transform_evaluation_plan t st ws = (Inr plan, ws') \<and>
    cache_coherent t ws' \<and> stamps_ok ws' \<and>
    evaluate_transforms t compose st plan (Some ws') =
      (\<lparr>res_error = te_none, res_changed_nodes = canonical_nodes t st,
        res_world_revision = next_revision st (canonical_nodes t st)\<rparr>, st') \<and>
    state_ok t compose st' \<and> \<not> has_dirty_transforms st' \<and>
    m_revision st' = next_revision st (canonical_nodes t st) \<and>
    (\<forall>n < node_count t. \<not> r_dirty (record_at st' n) \<and> local_of st' n = local_of st n \<and>
       path_world t compose (local_of st) n (world_of st' n))"
proof -
  note pl = state_ok_plannable [OF wf st]
  have len: "length (m_records st) = node_count t" using st by (simp add: state_ok_def)
  obtain plan ws' where p: "make_transform_evaluation_plan t st ws = (Inr plan, ws')"
    and nodes: "plan_ordered_nodes plan = canonical_nodes t st" and "plan_dirty_roots plan = canonical_roots t st"
    and ev: "evaluable t st plan (Some ws')" and closed: "closed_downward t (plan_ordered_nodes plan)"
    and chk': "check_plan t st plan (Some ws') =
      (if canonical_nodes t st \<noteq> [] \<and> m_revision st = - 1 then te_revision_exhausted else te_none)"
    and cs': "cache_coherent t ws'" "stamps_ok ws'"
    by (rule full_plan_evaluable [OF pl cs])
  have chk: "check_plan t st plan (Some ws') = te_none"
    using room no_dirty_canonical(1) [OF pl] by (auto simp: chk' has_dirty_transforms_def)
  define st' where "st' = snd (evaluate_transforms t compose st plan (Some ws'))"
  note eff = sequential.accept_state [OF TrueI ev chk, of compose, folded st'_def]
  have len': "length (m_records st') = node_count t" using eff len by (simp add: evaluated_def)
  have clean: "\<not> r_dirty (m_records st' ! n)" if "n < node_count t" for n
    using eff that len set_canonical_nodes [OF wf, of st]
    by (auto simp: evaluated_def nodes intro: directly_dirty split: if_splits)
  have ok': "worlds_ok t compose st'" "frontier_exact st'" "clock_ok st'"
    using sequential.evaluate_worlds_ok [OF TrueI ev _ closed, of compose]
      sequential.evaluate_frontier [OF TrueI ev, of compose] sequential.evaluate_clock [OF TrueI ev, of compose] st
    by (simp_all add: state_ok_def st'_def)
  have loc: "local_of st' n = local_of st n" if "n < node_count t" for n
    using eff that len by (simp add: evaluated_def local_of_def record_at_def)
  have path: "path_world t compose (local_of st) n (world_of st' n)" if "n < node_count t" for n
    using worlds_ok_path_cong [OF wf ok'(1) that clean loc] .
  have "set (m_dirty_nodes st') = {}" using ok'(2) len' clean by (auto simp: frontier_exact_def)
  then have "\<not> has_dirty_transforms st'" by (simp add: has_dirty_transforms_def)
  moreover have "fst (evaluate_transforms t compose st plan (Some ws')) =
      \<lparr>res_error = te_none, res_changed_nodes = canonical_nodes t st,
       res_world_revision = next_revision st (canonical_nodes t st)\<rparr>"
    using sequential.accept_result [OF TrueI ev chk, of compose] nodes by simp
  moreover have "m_revision st' = next_revision st (canonical_nodes t st)"
    using eff nodes by (simp add: evaluated_def)
  ultimately show ?thesis
    using p cs' ok' len' clean loc path
    by (intro exI [of _ plan] exI [of _ ws'] exI [of _ st'])
      (simp add: prod_eq_iff st'_def [symmetric] state_ok_def record_at_def)
qed

subsection \<open>Generations\<close>

lemma evaluate_generation:
  "check_plan t st plan wsp = te_none \<Longrightarrow>
   m_evaluation_generation (snd (evaluate_transforms t compose st plan wsp)) = m_evaluation_generation st + 1"
proof -
  have "m_evaluation_generation (fold (evaluation_push t compose v) ns s) = m_evaluation_generation s" for v ns and s :: "'a transform_state"
    by (induction ns arbitrary: s) (simp_all add: evaluation_push_def update_record_def)
  then show "check_plan t st plan wsp = te_none \<Longrightarrow> ?thesis" by (simp add: evaluate_transforms_def Let_def)
qed

lemma collect_affected_generation:
  "m_generation (collect_affected t st partial ws) = m_generation ws"
proof -
  have "m_generation (fold (contiguous_step t) cs w) = m_generation w" for cs w
    by (induction cs arbitrary: w) (simp_all add: contiguous_step_def Let_def)
  moreover have "m_generation (fold (sweep_step t st) ns w) = m_generation w" for ns w
    by (induction ns arbitrary: w) (simp_all add: sweep_step_def Let_def)
  ultimately show ?thesis
    by (simp add: collect_affected_def collect_clean_def collect_all_def collect_contiguous_def
        collect_sweep_def Let_def)
qed

lemma prepare_generation: "m_generation (prepare t ws) \<noteq> m_generation ws"
proof -
  have "m_generation (open_generation ws) \<noteq> m_generation ws"
  proof (cases "m_generation ws + 1 = 0")
    case True
    then have "m_generation ws = - 1" by (simp add: eq_neg_iff_add_eq_0)
    with True show ?thesis by (simp add: open_generation_def)
  qed (simp add: open_generation_def)
  then show ?thesis by (simp add: prepare_def clear_results_def Let_def)
qed

lemma make_full_plan_generation:
  "length (m_records st) = node_count t \<Longrightarrow>
   m_generation (snd (make_transform_evaluation_plan t st ws)) \<noteq> m_generation ws"
  using prepare_generation [of t "ws\<lparr>m_requested_roots := []\<rparr>"]
  by (simp add: make_transform_evaluation_plan_def make_plan_def Let_def collect_affected_generation)

subsection \<open>A concrete scene\<close>

text \<open>
  Four nodes in breadth-first order: 1 and 2 below 0, and 3 below 1, so the subtree of 1 is
  not a contiguous range of the order. The composition is addition of offsets.
\<close>

definition small_tree :: polytree where
  "small_tree =
     \<lparr>pt_identity = 7, node_count = 4,
      parent = (\<lambda>n. if n = 1 \<or> n = 2 then Some 0 else if n = 3 then Some 1 else None),
      topological_order = [0, 1, 2, 3], reverse_topological_order = [3, 2, 1, 0],
      pt_roots = filter (\<lambda>n. (if n = 1 \<or> n = 2 then Some 0 else if n = 3 then Some 1 else None :: nat option) = None) [0, 1, 2, 3],
      dependency_levels = [[0], [1, 2], [3]]\<rparr>"

definition fresh_record :: "int \<Rightarrow> int transform_record" where
  "fresh_record x = \<lparr>r_local = x, r_world = 0, r_local_revision = 0, r_world_revision = 0, r_dirty = True\<rparr>"

definition small_state :: "int transform_state" where
  "small_state = make_state (map fresh_record [1, 10, 100, 1000]) 0"

lemma less_4: "(n :: nat) < 4 \<longleftrightarrow> n = 0 \<or> n = 1 \<or> n = 2 \<or> n = 3"
  by auto

lemma small_tree_wf: "wf_polytree small_tree"
proof -
  have "{..< 4 :: nat} = {0, 1, 2, 3}" by auto
  moreover have "parents_first small_tree"
    by (auto simp: parents_first_def small_tree_def less_4 position_def)
  moreover have "levels_ok small_tree"
    using calculation(1)
    by (auto simp: levels_ok_def small_tree_def numeral_3_eq_3 less_Suc_eq nth_Cons split: nat.splits)
  ultimately show ?thesis by (simp add: wf_polytree_def small_tree_def)
qed

lemma small_initial:
  "initial_system small_tree (+) \<lparr>sys_state = small_state, sys_workspace = new_workspace, sys_plans = []\<rparr>"
  by (auto simp: initial_system_def small_state_def frontier_exact_make_state make_state_def small_tree_def
      fresh_record_def worlds_ok_def less_4 intro!: clock_ok_make_state [of "map fresh_record [1, 10, 100, 1000]" 0, unfolded make_state_def, simplified]
      frontier_exact_make_state [of "map fresh_record [1, 10, 100, 1000]" 0, unfolded make_state_def, simplified])

subsection \<open>Properties\<close>

text \<open>The scene's data while it runs: the state every reachable system is in.\<close>

lemmas reachable_state_ok = reachable_system_ok [unfolded system_ok_def, THEN conjunct1]

lemma small_reachable: "reachable_system small_tree (+)
  \<lparr>sys_state = small_state, sys_workspace = new_workspace, sys_plans = []\<rparr>"
  using small_initial by (rule reach_init)

lemma small_plannable: "plannable small_tree small_state"
  using state_ok_plannable [OF small_tree_wf reachable_state_ok [OF small_tree_wf small_reachable]] by simp

text \<open>C1. Full evaluation brings the scene to its specification: after a full plan is made and
  evaluated, no node is dirty, the frontier is empty, and the world transform of every node is
  the composition of the current locals along its path from the root, whatever the history
  of mutations, partial plans and evaluations that led there.\<close>

theorem full_evaluation_reaches_specification:
  assumes "wf_polytree t" and "reachable_system t compose sys" and "m_revision (sys_state sys) \<noteq> - 1"
    and "make_transform_evaluation_plan t (sys_state sys) (sys_workspace sys) = (outcome, ws)"
  shows "\<exists>plan result st. outcome = Inr plan \<and>
    evaluate_transforms t compose (sys_state sys) plan (Some ws) = (result, st) \<and>
    res_error result = te_none \<and> \<not> has_dirty_transforms st \<and>
    (\<forall>n < node_count t. \<not> r_dirty (record_at st n) \<and> local_of st n = local_of (sys_state sys) n \<and>
       path_world t compose (local_of (sys_state sys)) n (world_of st n))"
proof -
  have ok: "system_ok t compose sys" using assms by (intro reachable_system_ok)
  then have st: "state_ok t compose (sys_state sys)"
    and cs: "cache_coherent t (sys_workspace sys)" "stamps_ok (sys_workspace sys)"
    by (simp_all add: system_ok_def)
  from full_evaluation [OF assms(1) st cs] assms(3,4) show ?thesis by fastforce
qed

theorem full_evaluation_reaches_specification_witness:
  "\<exists>plan result st.
    fst (make_transform_evaluation_plan small_tree small_state new_workspace) = Inr plan \<and>
    evaluate_transforms small_tree (+) small_state plan
      (Some (snd (make_transform_evaluation_plan small_tree small_state new_workspace))) = (result, st) \<and>
    res_error result = te_none \<and> \<not> has_dirty_transforms st \<and>
    (\<forall>n < node_count small_tree. \<not> r_dirty (record_at st n) \<and> local_of st n = local_of small_state n \<and>
       path_world small_tree (+) (local_of small_state) n (world_of st n))"
  using full_evaluation_reaches_specification [OF small_tree_wf small_reachable,
      of "fst (make_transform_evaluation_plan small_tree small_state new_workspace)"
        "snd (make_transform_evaluation_plan small_tree small_state new_workspace)"]
  by (simp add: small_state_def make_state_def)

text \<open>C2. A full plan is exactly the planner's rule: its nodes are the nodes that are directly
  dirty or below a directly dirty one, in topological order and each once, its roots the
  affected nodes without an affected parent, whichever of the four collectors of the code ran
  and whatever the workspace was used for before on this topology.\<close>

theorem full_plan_is_canonical:
  assumes "wf_polytree t" and "reachable_system t compose sys"
    and "make_transform_evaluation_plan t (sys_state sys) (sys_workspace sys) = (outcome, ws)"
  shows "\<exists>plan. outcome = Inr plan \<and>
    plan_ordered_nodes plan = filter (is_affected t (sys_state sys)) (topological_order t) \<and>
    distinct (plan_ordered_nodes plan) \<and>
    plan_dirty_roots plan = filter (\<lambda>n. is_affected t (sys_state sys) n \<and>
      (\<forall>p. parent t n = Some p \<longrightarrow> \<not> is_affected t (sys_state sys) p)) (topological_order t)"
proof -
  have ok: "system_ok t compose sys" using assms by (intro reachable_system_ok)
  then have pl: "plannable t (sys_state sys)" and cs: "cache_coherent t (sys_workspace sys)" "stamps_ok (sys_workspace sys)"
    using state_ok_plannable [OF assms(1)] by (auto simp: system_ok_def)
  from full_plan [OF pl cs] assms(3) show ?thesis
    using distinct_canonical(1) [OF assms(1), of "sys_state sys"]
    by (auto simp: plan_of_def) (simp_all add: canonical_nodes_def canonical_roots_def)
qed

theorem full_plan_is_canonical_witness:
  "\<exists>plan. fst (make_transform_evaluation_plan small_tree small_state new_workspace) = Inr plan \<and>
    plan_ordered_nodes plan = filter (is_affected small_tree small_state) (topological_order small_tree) \<and>
    distinct (plan_ordered_nodes plan) \<and>
    plan_dirty_roots plan = filter (\<lambda>n. is_affected small_tree small_state n \<and>
      (\<forall>p. parent small_tree n = Some p \<longrightarrow> \<not> is_affected small_tree small_state p)) (topological_order small_tree)"
  using full_plan_is_canonical [OF small_tree_wf small_reachable, of _
      "snd (make_transform_evaluation_plan small_tree small_state new_workspace)"]
  by (simp add: prod_eq_iff)

text \<open>C3. A partial plan is accepted exactly for a list of distinct handles that are all dirty
  roots; then it plans the subtrees of the selected roots and nothing else, in topological
  order. Every other selection, an ordinary dirty descendant, a repeated or foreign handle,
  is an invalid scope.\<close>

theorem partial_plan_is_exact:
  assumes "wf_polytree t" and "reachable_system t compose sys"
    and "make_partial_evaluation_plan t (sys_state sys) (sys_workspace sys) rs = (outcome, ws)"
  shows "if distinct rs \<and> set rs \<subseteq> set (canonical_roots t (sys_state sys))
    then \<exists>plan. outcome = Inr plan \<and>
      plan_ordered_nodes plan = filter (\<lambda>n. \<exists>r \<in> set rs. descends t r n) (topological_order t) \<and>
      plan_dirty_roots plan = filter (\<lambda>n. n \<in> set rs) (topological_order t)
    else outcome = Inl te_invalid_scope"
proof -
  have ok: "system_ok t compose sys" using assms by (intro reachable_system_ok)
  then have pl: "plannable t (sys_state sys)" and cs: "cache_coherent t (sys_workspace sys)" "stamps_ok (sys_workspace sys)"
    using state_ok_plannable [OF assms(1)] by (auto simp: system_ok_def)
  show ?thesis
  proof (cases "distinct rs \<and> set rs \<subseteq> set (canonical_roots t (sys_state sys))")
    case True
    then have aff: "is_affected t (sys_state sys) r" if "r \<in> set rs" for r
      using that by (auto simp: canonical_roots_def)
    have "filter (\<lambda>n. \<exists>r \<in> set rs. descends t r n) (canonical_nodes t (sys_state sys)) =
        filter (\<lambda>n. \<exists>r \<in> set rs. descends t r n) (topological_order t)"
      using aff by (auto simp: canonical_nodes_def intro!: filter_cong dest: is_affected_below)
    moreover have "filter (\<lambda>n. n \<in> set rs) (canonical_roots t (sys_state sys)) =
        filter (\<lambda>n. n \<in> set rs) (topological_order t)"
      using True by (auto simp: canonical_roots_def intro!: filter_cong)
    ultimately show ?thesis
      using True partial_plan [OF pl cs, of rs] assms(3) by (auto simp: plan_of_def)
  next
    case False
    with partial_plan [OF pl cs, of rs] assms(3) show ?thesis by auto
  qed
qed

theorem partial_plan_is_exact_witness:
  "if distinct [0 :: nat] \<and> set [0] \<subseteq> set (canonical_roots small_tree small_state)
    then \<exists>plan. fst (make_partial_evaluation_plan small_tree small_state new_workspace [0]) = Inr plan \<and>
      plan_ordered_nodes plan = filter (\<lambda>n. \<exists>r \<in> set [0]. descends small_tree r n) (topological_order small_tree) \<and>
      plan_dirty_roots plan = filter (\<lambda>n. n \<in> set [0]) (topological_order small_tree)
    else fst (make_partial_evaluation_plan small_tree small_state new_workspace [0]) = Inl te_invalid_scope"
  using partial_plan_is_exact [OF small_tree_wf small_reachable, of "[0]"
      "fst (make_partial_evaluation_plan small_tree small_state new_workspace [0])"
      "snd (make_partial_evaluation_plan small_tree small_state new_workspace [0])"]
  by simp

text \<open>C4. Parallel evaluation is sequential evaluation: for any plan a client holds, any
  number of workers, any grain and any order in which the executor runs the callbacks of each
  dependency level, the result and the state are those of the sequential overload.\<close>

theorem parallel_evaluation_is_sequential:
  assumes "wf_polytree t" and "reachable_system t compose sys" and "plan \<in> set (sys_plans sys)"
    and "is_schedule sched"
  shows "\<exists>ws. evaluate_transforms_on workers grain sched t compose (sys_state sys) plan (Some (sys_workspace sys)) =
    (fst (evaluate_transforms t compose (sys_state sys) plan (Some (sys_workspace sys))),
     snd (evaluate_transforms t compose (sys_state sys) plan (Some (sys_workspace sys))), ws)"
proof -
  let ?wsp = "Some (sys_workspace sys)"
  have ok: "system_ok t compose sys" using assms by (intro reachable_system_ok)
  show ?thesis
  proof (cases "check_plan t (sys_state sys) plan ?wsp = te_none")
    case True
    from held_plan_evaluable(1) [OF assms(1) ok assms(3) True] assms(4) show ?thesis
      by (intro evaluate_on_sequential) (auto simp: evaluable_def)
  next
    case False
    then show ?thesis
      using evaluate_in_parallel_reject [OF False, of workers grain sched compose] sequential.reject [OF TrueI False, of compose]
      by (auto simp: evaluate_in_parallel_def split: prod.splits)
  qed
qed

definition small_workspace :: transform_evaluation_workspace where
  "small_workspace = snd (make_transform_evaluation_plan small_tree small_state new_workspace)"

definition small_plan :: transform_evaluation_plan where
  "small_plan = plan_of small_tree small_state small_workspace [0] [0, 1, 2, 3]"

lemma small_plan_made:
  "make_transform_evaluation_plan small_tree small_state new_workspace = (Inr small_plan, small_workspace)"
  unfolding small_plan_def small_workspace_def small_tree_def by code_simp

definition small_planned :: "int transform_system" where
  "small_planned = \<lparr>sys_state = small_state, sys_workspace = small_workspace, sys_plans = [small_plan]\<rparr>"

lemma small_planned_reachable: "reachable_system small_tree (+) small_planned"
  using reach_step [OF small_reachable step_full_plan, of "Inr small_plan" small_workspace] small_plan_made
  by (simp add: small_planned_def)

theorem parallel_evaluation_is_sequential_witness:
  "is_schedule (\<lambda>_. rev) \<and>
   (\<exists>ws. evaluate_transforms_on 2 1 (\<lambda>_. rev) small_tree (+) small_state small_plan (Some small_workspace) =
    (fst (evaluate_transforms small_tree (+) small_state small_plan (Some small_workspace)),
     snd (evaluate_transforms small_tree (+) small_state small_plan (Some small_workspace)), ws))"
  using parallel_evaluation_is_sequential [OF small_tree_wf small_planned_reachable, of small_plan "\<lambda>_. rev" 2 1]
  by (simp add: is_schedule_def small_planned_def)

text \<open>C5. The data invariants hold in every state that any interleaving of mutations, plans and
  evaluations, of plans held across other operations too, can reach: the frontier lists the
  directly dirty nodes each once, no record is from the future, every clean record's world is
  its parent's world composed with its local, and the cached metadata is this topology's.\<close>

theorem reachable_systems_keep_invariants:
  assumes "wf_polytree t" and "reachable_system t compose sys"
  shows "distinct (m_dirty_nodes (sys_state sys)) \<and>
    set (m_dirty_nodes (sys_state sys)) = {n. n < node_count t \<and> r_dirty (record_at (sys_state sys) n)} \<and>
    clock_ok (sys_state sys) \<and>
    (\<forall>n < node_count t. \<not> r_dirty (record_at (sys_state sys) n) \<longrightarrow>
       world_of (sys_state sys) n = world_from t compose (sys_state sys) n) \<and>
    cache_coherent t (sys_workspace sys)"
  using reachable_system_ok [OF assms]
  by (simp add: system_ok_def state_ok_def frontier_exact_def worlds_ok_def record_at_def)

lemma evaluated_planned:
  "evaluated t compose nodes st st' \<Longrightarrow> n < length (m_records st) \<Longrightarrow> n \<in> set nodes \<Longrightarrow>
   m_records st' ! n = (m_records st ! n)\<lparr>r_world := world_from t compose st' n,
     r_world_revision := next_revision st nodes, r_dirty := False\<rparr>"
  by (simp add: evaluated_def)

lemma small_plan_check: "check_plan small_tree small_state small_plan (Some small_workspace) = te_none"
  by (simp add: small_plan_def plan_of_check) (simp add: small_state_def make_state_def)

lemma small_evaluation:
  "evaluate_transforms small_tree (+) small_state small_plan (Some small_workspace) =
   (\<lparr>res_error = te_none, res_changed_nodes = [0, 1, 2, 3], res_world_revision = 1\<rparr>,
    compact_dirty_frontier (fold (evaluation_push small_tree (+) 1) [0, 1, 2, 3] (begin_evaluation True small_state)))"
proof -
  have nodes: "plan_ordered_nodes small_plan = [0, 1, 2, 3]" by (simp add: small_plan_def plan_of_def)
  have "m_revision (begin_evaluation True small_state) = 1"
    by (simp add: begin_evaluation_def small_state_def make_state_def)
  then show ?thesis
    by (simp add: evaluate_transforms_def Let_def small_plan_check nodes del: begin_evaluation_fields)
qed

definition small_evaluated :: "int transform_state" where
  "small_evaluated = snd (evaluate_transforms small_tree (+) small_state small_plan (Some small_workspace))"

lemma small_evaluated_reachable:
  "reachable_system small_tree (+)
    \<lparr>sys_state = small_evaluated, sys_workspace = small_workspace, sys_plans = [small_plan]\<rparr>"
proof -
  have "system_step small_tree (+) small_planned (small_planned\<lparr>sys_state := small_evaluated\<rparr>)"
    by (rule step_evaluate [of small_plan _ _ _ "fst (evaluate_transforms small_tree (+) small_state small_plan (Some small_workspace))"])
      (simp_all add: small_planned_def small_evaluated_def)
  from reach_step [OF small_planned_reachable this] show ?thesis by (simp add: small_planned_def)
qed

theorem reachable_systems_keep_invariants_witness:
  "m_dirty_nodes small_evaluated = [] \<and> clock_ok small_evaluated \<and>
   world_of small_evaluated 3 = 1011 \<and> cache_coherent small_tree small_workspace"
proof -
  have ev: "evaluable small_tree small_state small_plan (Some small_workspace)"
    using held_plan_evaluable(1) [OF small_tree_wf reachable_system_ok [OF small_tree_wf small_planned_reachable],
        of small_plan "Some small_workspace"] small_plan_check by (simp add: small_planned_def)
  have eff: "evaluated small_tree (+) [0, 1, 2, 3] small_state small_evaluated"
    using sequential.accept_state [OF TrueI ev small_plan_check, of "(+)"]
    by (simp add: small_evaluated_def) (simp add: small_plan_def plan_of_def)
  have len: "length (m_records small_state) = 4" by (simp add: small_state_def make_state_def)
  have locs: "map (local_of small_state) [0, 1, 2, 3] = [1, 10, 100, 1000]"
    by (simp add: small_state_def make_state_def local_of_def record_at_def fresh_record_def)
  have rec: "local_of small_evaluated n = local_of small_state n \<and> \<not> r_dirty (record_at small_evaluated n)"
    if n: "n \<in> set [0, 1, 2, 3]" for n
  proof -
    have "n < length (m_records small_state)" using n len by auto
    with eff n have "m_records small_evaluated ! n = (m_records small_state ! n)\<lparr>
        r_world := world_from small_tree (+) small_evaluated n,
        r_world_revision := next_revision small_state [0, 1, 2, 3], r_dirty := False\<rparr>"
      by (intro evaluated_planned)
    then show ?thesis by (simp add: local_of_def record_at_def)
  qed
  with locs have loc: "map (local_of small_evaluated) [0, 1, 3] = [1, 10, 1000]"
    "map (\<lambda>n. r_dirty (record_at small_evaluated n)) [0, 1, 2, 3] = [False, False, False, False]"
    by simp_all
  note inv = reachable_systems_keep_invariants [OF small_tree_wf small_evaluated_reachable, unfolded transform_system.simps]
  have nodes: "node_count small_tree = 4" by (simp add: small_tree_def)
  have "set (m_dirty_nodes small_evaluated) = {n. n < 4 \<and> r_dirty (record_at small_evaluated n)}"
    using inv nodes by metis
  moreover have "\<not> r_dirty (record_at small_evaluated n)" if "n < 4" for n
    using that loc(2) unfolding less_4 by (elim disjE) simp_all
  ultimately have "set (m_dirty_nodes small_evaluated) = {}" by simp
  then have "m_dirty_nodes small_evaluated = []" by simp
  moreover have world: "world_of small_evaluated n = world_from small_tree (+) small_evaluated n"
    if "n < 4" "\<not> r_dirty (record_at small_evaluated n)" for n
    using inv that nodes by metis
  have "world_of small_evaluated 3 = 1011"
    using world [of 0] world [of 1] world [of 3] loc by (simp add: world_from_def small_tree_def)
  ultimately show ?thesis using inv by blast
qed

text \<open>C6. Plans are one-shot: once a plan has been evaluated, once a local has been set or a
  node marked dirty, or once another plan has been made in its workspace for any topology and
  state, the plan is refused as stale and evaluating it changes nothing.\<close>

theorem plans_are_one_shot:
  assumes "check_plan t st plan (Some ws) = te_none"
  shows "check_plan t (snd (evaluate_transforms t compose st plan (Some ws))) plan (Some ws) = te_stale_plan \<and>
    (fst (set_local node loc st) = te_none \<longrightarrow>
      check_plan t (snd (set_local node loc st)) plan (Some ws) = te_stale_plan) \<and>
    (fst (mark_dirty node st) = te_none \<longrightarrow>
      check_plan t (snd (mark_dirty node st)) plan (Some ws) = te_stale_plan) \<and>
    (length (m_records st2) = node_count t2 \<longrightarrow>
      check_plan t st plan (Some (snd (make_transform_evaluation_plan t2 st2 ws))) = te_stale_plan) \<and>
    (\<forall>st3 wsp. check_plan t st3 plan wsp = te_stale_plan \<longrightarrow>
      evaluate_transforms t compose st3 plan wsp =
      (\<lparr>res_error = te_stale_plan, res_changed_nodes = [], res_world_revision = m_revision st3\<rparr>, st3))"
proof -
  have fields: "plan_topology_identity plan = pt_identity t" "plan_workspace_generation plan = m_generation ws"
    "plan_source_revision plan = m_revision st" "plan_mutation_generation plan = m_mutation_generation st"
    "plan_evaluation_generation plan = m_evaluation_generation st"
    using assms by (simp_all add: check_plan_def split: if_splits)
  have "check_plan t (snd (evaluate_transforms t compose st plan (Some ws))) plan (Some ws) = te_stale_plan"
    using assms fields by (simp add: check_plan_def [of t "snd _"] evaluate_generation)
  moreover have "fst (set_local node loc st) = te_none \<Longrightarrow>
      check_plan t (snd (set_local node loc st)) plan (Some ws) = te_stale_plan"
    using fields by (auto simp: check_plan_def set_local_def Let_def split: if_splits)
  moreover have "fst (mark_dirty node st) = te_none \<Longrightarrow>
      check_plan t (snd (mark_dirty node st)) plan (Some ws) = te_stale_plan"
    using fields by (auto simp: check_plan_def mark_dirty_def Let_def split: if_splits)
  moreover have "length (m_records st2) = node_count t2 \<Longrightarrow>
      check_plan t st plan (Some (snd (make_transform_evaluation_plan t2 st2 ws))) = te_stale_plan"
    using fields make_full_plan_generation [of st2 t2 ws] by (simp add: check_plan_def)
  ultimately show ?thesis by (simp add: sequential.reject)
qed

theorem plans_are_one_shot_witness:
  "check_plan small_tree (snd (evaluate_transforms small_tree (+) small_state small_plan (Some small_workspace)))
     small_plan (Some small_workspace) = te_stale_plan \<and>
   check_plan small_tree (snd (set_local 3 5 small_state)) small_plan (Some small_workspace) = te_stale_plan"
proof -
  note small_plan_check
  moreover have "fst (set_local 3 5 small_state) = te_none"
    by (simp add: set_local_ok small_state_def make_state_def)
  ultimately show ?thesis
    using plans_are_one_shot [of small_tree small_state small_plan small_workspace "(+)" 3 5 small_state small_tree] by blast
qed

text \<open>The nodes reported as changed since a revision are exact: after an accepted evaluation
  of a held plan, the query from the plan's source revision returns the plan's nodes, which
  are also the nodes the result reports.\<close>

theorem changed_nodes_are_the_planned_nodes:
  assumes "wf_polytree t" and "reachable_system t compose sys" and "plan \<in> set (sys_plans sys)"
    and "evaluate_transforms t compose (sys_state sys) plan (Some (sys_workspace sys)) = (result, st)"
    and "res_error result = te_none"
  shows "changed_transform_nodes_since t st (plan_source_revision plan) = plan_ordered_nodes plan \<and>
    res_changed_nodes result = plan_ordered_nodes plan"
proof -
  let ?wsp = "Some (sys_workspace sys)"
  have ok: "system_ok t compose sys" using assms by (intro reachable_system_ok)
  then have ck: "clock_ok (sys_state sys)" by (simp add: system_ok_def state_ok_def)
  have chk: "check_plan t (sys_state sys) plan ?wsp = te_none"
    using assms(4,5) sequential.reject [OF TrueI, of t "sys_state sys" plan ?wsp compose] by fastforce
  then have "plan_source_revision plan = m_revision (sys_state sys)"
    by (simp add: check_plan_def split: if_splits)
  then show ?thesis
    using sequential.evaluate_changed_since [OF TrueI held_plan_evaluable(1) [OF assms(1) ok assms(3) chk] ck chk, of compose]
      sequential.accept_result [OF TrueI held_plan_evaluable(1) [OF assms(1) ok assms(3) chk] chk, of compose] assms(4)
    by simp
qed

theorem changed_nodes_are_the_planned_nodes_witness:
  "changed_transform_nodes_since small_tree
     (snd (evaluate_transforms small_tree (+) small_state small_plan (Some small_workspace))) 0 = [0, 1, 2, 3]"
  using changed_nodes_are_the_planned_nodes [OF small_tree_wf small_planned_reachable, of small_plan
      "fst (evaluate_transforms small_tree (+) small_state small_plan (Some small_workspace))"] small_evaluation
  by (simp add: small_planned_def) (simp add: small_plan_def plan_of_def small_state_def make_state_def)

subsection \<open>A topology replaced in place\<close>

text \<open>
  The metadata cache is keyed by the topology's address and node count. When the object at
  that address is replaced by another frozen scene with as many nodes, the key still matches
  and the next plan works on the old metadata. The collectors differ in what they read: the
  contiguous one takes the old subtree ranges, the other three only the topology handed in.
\<close>

lemma prepare_same_key:
  assumes "pt_identity t = pt_identity old" and "node_count t = node_count old"
    and "m_topology_identity ws = Some (pt_identity old)" and "metadata_ok old ws"
  shows "prepare t ws = prepare old ws"
    and "m_subtrees_are_contiguous (prepare t ws) = m_subtrees_are_contiguous ws"
proof -
  have "length (m_topological_rank ws) = node_count old" using assms(4) by (simp add: metadata_ok_def)
  with assms(1-3) show "prepare t ws = prepare old ws"
    and "m_subtrees_are_contiguous (prepare t ws) = m_subtrees_are_contiguous ws"
    by (simp_all add: prepare_def Let_def clear_results_def open_generation_def)
qed

lemma collect_contiguous_order:
  assumes "topological_order t = topological_order old"
  shows "collect_contiguous t st ws = collect_contiguous old st ws"
proof -
  have "contiguous_step t = contiguous_step old"
    by (intro ext) (simp add: contiguous_step_def cached_subtree_def assms)
  then show ?thesis by (simp add: collect_contiguous_def)
qed

text \<open>The sweep does not look at the metadata: it commutes with exchanging it.\<close>

definition with_metadata ::
  "transform_evaluation_workspace \<Rightarrow> transform_evaluation_workspace \<Rightarrow> transform_evaluation_workspace" where
  "with_metadata src ws =
     ws\<lparr>m_topological_rank := m_topological_rank src, m_subtree_end := m_subtree_end src,
        m_subtree_size := m_subtree_size src, m_dependency_level := m_dependency_level src,
        m_subtrees_are_contiguous := m_subtrees_are_contiguous src\<rparr>"

lemma fold_sweep_with_metadata:
  "fold (sweep_step t st) ns (with_metadata src ws) = with_metadata src (fold (sweep_step t st) ns ws)"
proof (induction ns arbitrary: ws)
  case (Cons n ns)
  have "sweep_step t st n (with_metadata src ws) = with_metadata src (sweep_step t st n ws)"
    by (cases ws; cases "parent t n") (simp_all add: sweep_step_def Let_def with_metadata_def)
  with Cons show ?case by simp
qed simp

lemma prepared_with_metadata:
  assumes "wf_polytree t" and "prepared old ws"
    and "pt_identity t = pt_identity old" and "node_count t = node_count old"
  shows "prepared t (with_metadata (build_metadata t ws) ws)"
proof -
  let ?m = "build_metadata t ws"
  have built: "metadata_ok t ?m" by (rule build_metadata_ok [OF assms(1)])
  have lengths: "length (m_affected ws) = length (m_affected ?m)" "length (m_owner ws) = length (m_owner ?m)"
    "length (m_selected ws) = length (m_selected ?m)"
    using assms(2,4) built by (simp_all add: prepared_def metadata_ok_def)
  have "metadata_ok t (with_metadata ?m ws)"
    using built lengths by (subst metadata_ok_cong [of _ ?m]) (simp_all add: with_metadata_def)
  with assms(2-4) show ?thesis by (simp add: prepared_def with_metadata_def stamps_ok_def)
qed

lemma sweep_of_replaced:
  assumes "plannable t st" and "prepared old ws"
    and "pt_identity t = pt_identity old" and "node_count t = node_count old"
  shows "m_affected_nodes (collect_sweep t st ws) = canonical_nodes t st"
    and "m_dirty_roots (collect_sweep t st ws) = canonical_roots t st"
proof -
  let ?m = "build_metadata t ws"
  have prep: "prepared t (with_metadata ?m ws)"
    using plannableD(1) [OF assms(1)] assms(2-4) by (rule prepared_with_metadata)
  have "collect_sweep t st (with_metadata ?m ws) = with_metadata ?m (collect_sweep t st ws)"
    by (simp add: collect_sweep_def fold_sweep_with_metadata)
  then show "m_affected_nodes (collect_sweep t st ws) = canonical_nodes t st"
    and "m_dirty_roots (collect_sweep t st ws) = canonical_roots t st"
    using sweep.collect_nodes [OF assms(1) prep TrueI] sweep.collect_roots [OF assms(1) prep TrueI]
    by (simp_all add: with_metadata_def)
qed

text \<open>The topology whose rule a full plan really follows.\<close>

definition planned_topology ::
  "polytree \<Rightarrow> polytree \<Rightarrow> 'a transform_state \<Rightarrow> transform_evaluation_workspace \<Rightarrow> polytree" where
  "planned_topology old t st ws =
     (if m_subtrees_are_contiguous ws \<and> length (m_dirty_nodes st) \<noteq> node_count t then old else t)"

lemma collect_affected_of_replaced:
  assumes wf: "wf_polytree old" and pl: "plannable t st" and prep: "prepared old ws"
    and same: "pt_identity t = pt_identity old" "node_count t = node_count old"
      "topological_order t = topological_order old"
  shows "m_affected_nodes (collect_affected t st False ws) = canonical_nodes (planned_topology old t st ws) st \<and>
    m_dirty_roots (collect_affected t st False ws) = canonical_roots (planned_topology old t st ws) st"
proof -
  have old: "plannable old st" using pl wf same(2) by (simp add: plannable_def)
  consider (clean) "\<not> has_dirty_transforms st"
    | (all) "has_dirty_transforms st" "length (m_dirty_nodes st) = node_count t"
    | (contiguous) "has_dirty_transforms st" "length (m_dirty_nodes st) \<noteq> node_count t" "m_subtrees_are_contiguous ws"
    | (sweep) "has_dirty_transforms st" "length (m_dirty_nodes st) \<noteq> node_count t" "\<not> m_subtrees_are_contiguous ws"
    by blast
  then show ?thesis
  proof cases
    case clean
    with prep no_dirty_canonical [OF pl clean] no_dirty_canonical [OF old clean] show ?thesis
      by (simp add: collect_affected_def collect_clean_def planned_topology_def prepared_def)
  next
    case all
    have "prepared t (with_metadata (build_metadata t ws) ws)"
      by (rule prepared_with_metadata [OF plannableD(1) [OF pl] prep same(1,2)])
    with all all.collect_nodes [OF pl _ all(2)] all.collect_roots [OF pl _ all(2)] show ?thesis
      by (simp add: collect_affected_def planned_topology_def) (simp add: collect_all_def)
  next
    case contiguous
    with contiguous.collect_nodes [OF old prep] contiguous.collect_roots [OF old prep]
      collect_contiguous_order [OF same(3), of st ws] show ?thesis
      by (simp add: collect_affected_def planned_topology_def)
  next
    case sweep
    with sweep_of_replaced [OF pl prep same(1,2)] show ?thesis
      by (simp add: collect_affected_def planned_topology_def)
  qed
qed

text \<open>No collector rebuilds the metadata: they stay those of the topology they were made for.\<close>

definition same_metadata :: "transform_evaluation_workspace \<Rightarrow> transform_evaluation_workspace \<Rightarrow> bool" where
  "same_metadata ws ws' \<longleftrightarrow>
     m_topology_identity ws' = m_topology_identity ws \<and> m_generation ws' = m_generation ws \<and>
     length (m_affected ws') = length (m_affected ws) \<and> length (m_owner ws') = length (m_owner ws) \<and>
     length (m_selected ws') = length (m_selected ws) \<and>
     m_topological_rank ws' = m_topological_rank ws \<and> m_subtree_end ws' = m_subtree_end ws \<and>
     m_subtree_size ws' = m_subtree_size ws \<and> m_dependency_level ws' = m_dependency_level ws \<and>
     m_subtrees_are_contiguous ws' = m_subtrees_are_contiguous ws"

lemma same_metadata_fold:
  assumes "\<And>x ws. same_metadata ws (step x ws)"
  shows "same_metadata ws (fold step xs ws)"
proof (induction xs arbitrary: ws)
  case (Cons x xs)
  from assms [of ws x] Cons [of "step x ws"] show ?case by (simp add: same_metadata_def)
qed (simp add: same_metadata_def)

lemma collect_affected_same_metadata: "same_metadata ws (collect_affected t st partial ws)"
proof -
  have "same_metadata ws (contiguous_step t c ws)" for c ws
    by (simp add: same_metadata_def contiguous_step_def Let_def length_fold_upd)
  then have "same_metadata ws (collect_contiguous t st ws)"
    using same_metadata_fold [of "contiguous_step t" "ws\<lparr>m_dirty_candidates := ranked_candidates st ws\<rparr>"]
    by (simp add: collect_contiguous_def Let_def same_metadata_def)
  moreover have "same_metadata ws (sweep_step t st n ws)" for n ws
    by (simp add: same_metadata_def sweep_step_def Let_def)
  then have "same_metadata ws (collect_sweep t st ws)"
    unfolding collect_sweep_def by (rule same_metadata_fold)
  ultimately show ?thesis
    by (simp add: collect_affected_def collect_clean_def collect_all_def) (simp add: same_metadata_def)
qed

text \<open>The workspace a full plan for a topology leaves.\<close>

definition made_for :: "polytree \<Rightarrow> transform_evaluation_workspace \<Rightarrow> bool" where
  "made_for t ws \<longleftrightarrow> metadata_ok t ws \<and> stamps_ok ws \<and> m_topology_identity ws = Some (pt_identity t)"

lemma full_plan_leaves:
  assumes pl: "plannable t st" and "cache_coherent t ws" and "stamps_ok ws"
    and plan: "make_transform_evaluation_plan t st ws = (r, ws')"
  shows "made_for t ws'"
proof -
  let ?ws0 = "ws\<lparr>m_requested_roots := []\<rparr>"
  have "cache_coherent t ?ws0" "stamps_ok ?ws0"
    using assms(2,3) metadata_ok_cong [of ?ws0 ws t] by (simp_all add: cache_coherent_def stamps_ok_def)
  then have prep: "prepared t (prepare t ?ws0)"
    using plannableD(1) [OF pl] by (intro prepare_prepared)
  have "ws' = collect_affected t st False (prepare t ?ws0)"
    using plan plannableD(3) [OF pl] by (simp add: make_transform_evaluation_plan_def make_plan_def Let_def)
  with collect_affected_canonical(3) [OF pl prep, of False] prep show ?thesis
    by (simp add: made_for_def collector_frame_def prepared_def)
qed

lemma plan_of_replaced:
  assumes wf: "wf_polytree old" and pl: "plannable t st" and made: "made_for old ws"
    and same: "pt_identity t = pt_identity old" "node_count t = node_count old"
      "topological_order t = topological_order old"
  shows "\<exists>ws'. make_transform_evaluation_plan t st ws =
      (Inr (plan_of t st ws' (canonical_roots (planned_topology old t st ws) st)
         (canonical_nodes (planned_topology old t st ws) st)), ws') \<and>
    metadata_ok old ws' \<and> m_topology_identity ws' = Some (pt_identity t)"
proof -
  let ?ws0 = "ws\<lparr>m_requested_roots := []\<rparr>"
  have md: "metadata_ok old ?ws0" "stamps_ok ?ws0" "m_topology_identity ?ws0 = Some (pt_identity old)"
    using made metadata_ok_cong [of ?ws0 ws old] by (simp_all add: made_for_def stamps_ok_def)
  note key = prepare_same_key [OF same(1,2) md(3,1)]
  have prep: "prepared old (prepare old ?ws0)"
    using md by (intro prepare_prepared wf) (simp_all add: cache_coherent_def)
  let ?w = "prepare t ?ws0" and ?ws = "collect_affected t st False (prepare t ?ws0)"
  have "planned_topology old t st ?w = planned_topology old t st ws"
    using key(2) by (simp add: planned_topology_def)
  moreover have "metadata_ok old ?w" "m_topology_identity ?w = Some (pt_identity old)"
    using prep by (simp_all add: key(1) prepared_def)
  then have "metadata_ok old ?ws" "m_topology_identity ?ws = Some (pt_identity t)"
    using collect_affected_same_metadata [of ?w t st False] metadata_ok_cong [of ?ws ?w old] same(1)
    by (simp_all add: same_metadata_def)
  ultimately show ?thesis
    using collect_affected_of_replaced [OF wf pl prep same] plannableD(3) [OF pl]
    by (intro exI [of _ ?ws])
      (simp add: make_transform_evaluation_plan_def make_plan_def Let_def key(1))
qed

definition flat_tree :: polytree where
  "flat_tree =
     \<lparr>pt_identity = 7, node_count = 4, parent = (\<lambda>n. if n \<in> {1, 2, 3} then Some 0 else None),
      topological_order = [0, 1, 2, 3], reverse_topological_order = [3, 2, 1, 0],
      pt_roots = [0], dependency_levels = [[0], [1, 2, 3]]\<rparr>"

definition chain_tree :: polytree where
  "chain_tree =
     \<lparr>pt_identity = 7, node_count = 4, parent = (\<lambda>n. if n \<in> {1, 2, 3} then Some (n - 1) else None),
      topological_order = [0, 1, 2, 3], reverse_topological_order = [3, 2, 1, 0],
      pt_roots = [0], dependency_levels = [[0], [1], [2], [3]]\<rparr>"

definition chain_state :: "int transform_state" where
  "chain_state = make_state (map (\<lambda>b. \<lparr>r_local = 0, r_world = 0, r_local_revision = 0,
     r_world_revision = 0, r_dirty = b\<rparr>) [False, True, False, False]) 0"

definition flat_workspace :: transform_evaluation_workspace where
  "flat_workspace = snd (make_transform_evaluation_plan flat_tree small_state new_workspace)"

lemma chain_tree_wf: "wf_polytree chain_tree"
proof -
  have "{..< 4 :: nat} = {0, 1, 2, 3}" by auto
  moreover have "parents_first chain_tree"
    by (auto simp: parents_first_def chain_tree_def less_4 position_def)
  moreover have "levels_ok chain_tree"
    using calculation(1)
    by (auto simp: levels_ok_def chain_tree_def less_Suc_eq nth_Cons split: nat.splits)
  ultimately show ?thesis by (simp add: wf_polytree_def chain_tree_def)
qed

lemma flat_tree_wf: "wf_polytree flat_tree"
proof -
  have "{..< 4 :: nat} = {0, 1, 2, 3}" by auto
  moreover have "parents_first flat_tree"
    by (auto simp: parents_first_def flat_tree_def less_4 position_def)
  moreover have "levels_ok flat_tree"
    using calculation(1)
    by (auto simp: levels_ok_def flat_tree_def less_Suc_eq nth_Cons split: nat.splits)
  ultimately show ?thesis by (simp add: wf_polytree_def flat_tree_def)
qed

lemma flat_plannable: "plannable flat_tree small_state"
  using small_plannable flat_tree_wf by (simp add: plannable_def flat_tree_def small_tree_def)

lemma chain_plannable: "plannable chain_tree chain_state"
  using chain_tree_wf by (simp add: plannable_def chain_state_def frontier_exact_make_state)
    (simp add: make_state_def chain_tree_def)

text \<open>C7. A topology replaced in place is planned with the metadata of the old one: take a workspace last
  used for a plan of the old topology and any topology at the same address with as many nodes in the
  same order. When the old subtrees were contiguous and not every node is dirty, the full plan holds
  exactly the nodes affected in the old topology, so one that is affected only in the new one is
  missing; in the other cases it holds those of the new topology. Either way the plan is accepted, its
  evaluation reports no other node as changed, and the workspace keeps the old metadata for the plans
  to come.\<close>

theorem replaced_topology_plans_with_stale_metadata:
  assumes "plannable old st0" and "cache_coherent old ws0" and "stamps_ok ws0"
    and "make_transform_evaluation_plan old st0 ws0 = (earlier, ws)" and "plannable t st"
    and "pt_identity t = pt_identity old" and "node_count t = node_count old"
    and "topological_order t = topological_order old" and "revision_available st"
    and "effective = (if m_subtrees_are_contiguous ws \<and> length (m_dirty_nodes st) \<noteq> node_count t then old else t)"
  shows "\<exists>plan ws'. make_transform_evaluation_plan t st ws = (Inr plan, ws') \<and>
    plan_ordered_nodes plan = canonical_nodes effective st \<and>
    plan_dirty_roots plan = canonical_roots effective st \<and>
    (\<forall>n. is_affected t st n \<and> \<not> is_affected effective st n \<longrightarrow> n \<notin> set (plan_ordered_nodes plan)) \<and>
    check_plan t st plan (Some ws') = te_none \<and>
    res_changed_nodes (fst (evaluate_transforms t compose st plan (Some ws'))) = canonical_nodes effective st \<and>
    metadata_ok old ws' \<and> m_topology_identity ws' = Some (pt_identity t)"
proof -
  note made = full_plan_leaves [OF assms(1-4)]
  have eff: "effective = planned_topology old t st ws" by (simp add: planned_topology_def assms(10))
  obtain ws' where plan: "make_transform_evaluation_plan t st ws =
      (Inr (plan_of t st ws' (canonical_roots effective st) (canonical_nodes effective st)), ws')"
    and md: "metadata_ok old ws'" "m_topology_identity ws' = Some (pt_identity t)"
    using plan_of_replaced [OF plannableD(1) [OF assms(1)] assms(5) made assms(6-8)] eff by blast
  let ?plan = "plan_of t st ws' (canonical_roots effective st) (canonical_nodes effective st)"
  have fields: "plan_ordered_nodes ?plan = canonical_nodes effective st"
    "plan_dirty_roots ?plan = canonical_roots effective st" by (simp_all add: plan_of_def)
  have "n \<notin> set (plan_ordered_nodes ?plan)" if "\<not> is_affected effective st n" for n
    unfolding fields using that by (simp add: canonical_nodes_def)
  moreover have chk: "check_plan t st ?plan (Some ws') = te_none"
    using assms(9) by (simp add: check_plan_def plan_of_def)
  moreover have "res_changed_nodes (fst (evaluate_transforms t compose st ?plan (Some ws'))) = canonical_nodes effective st"
    using chk by (simp add: evaluate_transforms_def Let_def fields)
  ultimately show ?thesis using plan md fields by blast
qed

lemma flat_chain_affected: "canonical_nodes flat_tree chain_state = [1]" "is_affected chain_tree chain_state 2"
proof -
  have "is_affected flat_tree chain_state n \<longleftrightarrow> n = 1" if "n < 4" for n
    using that less_4 [of n] is_affected_unfold [of flat_tree chain_state n] is_affected_unfold [of flat_tree chain_state 0]
    by (auto simp: flat_tree_def chain_state_def make_state_def)
  then show "canonical_nodes flat_tree chain_state = [1]"
    by (simp add: canonical_nodes_def) (simp add: flat_tree_def)
  show "is_affected chain_tree chain_state 2"
    by (rule parent_affected [of _ _ 1])
      (auto simp: chain_tree_def chain_state_def make_state_def intro!: directly_dirty)
qed

text \<open>A flat scene replaced by a chain: node 1 is dirty, nodes 2 and 3 hang below it, and the plan
  holds node 1 only.\<close>

theorem replaced_topology_plans_with_stale_metadata_witness:
  "is_affected chain_tree chain_state 2 \<and>
   (\<exists>plan ws'. make_transform_evaluation_plan chain_tree chain_state flat_workspace = (Inr plan, ws') \<and>
      plan_ordered_nodes plan = [1] \<and>
      res_changed_nodes (fst (evaluate_transforms chain_tree (+) chain_state plan (Some ws'))) = [1])"
proof -
  have contiguous: "m_subtrees_are_contiguous flat_workspace" by code_simp
  have dirty: "length (m_dirty_nodes chain_state) = 1" and room: "revision_available chain_state" by code_simp+
  have count: "node_count chain_tree = 4" by (simp add: chain_tree_def)
  have same: "pt_identity chain_tree = pt_identity flat_tree" "node_count chain_tree = node_count flat_tree"
    "topological_order chain_tree = topological_order flat_tree" by (simp_all add: chain_tree_def flat_tree_def)
  have made: "make_transform_evaluation_plan flat_tree small_state new_workspace =
      (fst (make_transform_evaluation_plan flat_tree small_state new_workspace), flat_workspace)"
    by (simp add: flat_workspace_def)
  have eff: "flat_tree = (if m_subtrees_are_contiguous flat_workspace \<and>
      length (m_dirty_nodes chain_state) \<noteq> node_count chain_tree then flat_tree else chain_tree)"
    by (simp add: contiguous dirty count)
  show ?thesis
    using replaced_topology_plans_with_stale_metadata [OF flat_plannable cache_coherent_new stamps_ok_new
        made chain_plannable same room eff, of "(+)"]
    unfolding flat_chain_affected(1) using flat_chain_affected(2) by blast
qed

end
