(* ===== verification/Motion_Evaluation.thy ===== *)
theory Motion_Evaluation
  imports Active_Motion Transform_System
begin

section \<open>One fixed step of a moving scene\<close>

text \<open>
  \<open>fixed_step.hpp\<close> and \<open>motion_evaluation.hpp\<close> of \<open>extensions/motion\<close>. \<open>advance_motion_scene\<close> checks everything it can
  before it changes anything: the step, the tick, the topology, the sizes, the handles and
  the room left on the revision clock for one local edit per moving node and one world
  revision. The integration of the motion policy and the composition of the transform policy
  are arguments. A duration is a number of nanoseconds that the code only compares with zero.
\<close>

subsection \<open>Data\<close>

record fixed_motion_step =
  step_tick :: u64
  step_delta :: int

record fixed_step_sequence =
  fs_delta :: int
  fs_next_tick :: u64

definition next_step :: "fixed_step_sequence \<Rightarrow> fixed_motion_step" where
  "next_step seq = \<lparr>step_tick = fs_next_tick seq, step_delta = fs_delta seq\<rparr>"

definition complete_step :: "fixed_step_sequence \<Rightarrow> fixed_step_sequence" where
  "complete_step seq = seq\<lparr>fs_next_tick := fs_next_tick seq + 1\<rparr>"

record 'a local_motion_update =
  lmu_node :: node_handle
  lmu_local :: 'a

record 'a motion_evaluation_workspace =
  mw_updates :: "'a local_motion_update list"
  mw_integrated_nodes :: "node_handle list"

record motion_evaluation_result =
  mr_error :: motion_error
  mr_transform_status :: transform_error
  mr_integrated_nodes :: "node_handle list"
  mr_changed_nodes :: "node_handle list"
  mr_step :: fixed_motion_step
  mr_world_revision :: u64

definition map_transform_error :: "transform_error \<Rightarrow> motion_error" where
  "map_transform_error error =
     (case error of
        te_none \<Rightarrow> me_none
      | te_state_size_mismatch \<Rightarrow> me_state_size_mismatch
      | te_topology_mismatch \<Rightarrow> me_topology_mismatch
      | te_revision_exhausted \<Rightarrow> me_revision_exhausted
      | _ \<Rightarrow> me_transform_failure)"

subsection \<open>The step\<close>

text \<open>The sink that applies the integrated locals: it stops at the first error.\<close>

fun push_locals ::
  "'a local_motion_update list \<Rightarrow> 'a transform_state \<Rightarrow> node_handle list \<Rightarrow>
   transform_error \<times> 'a transform_state \<times> node_handle list" where
  "push_locals [] st integrated = (te_none, st, integrated)"
| "push_locals (u # us) st integrated =
     (case set_local (lmu_node u) (lmu_local u) st of
        (te_none, st) \<Rightarrow> push_locals us st (integrated @ [lmu_node u])
      | (error, st) \<Rightarrow> (error, st, integrated))"

definition revision_headroom ::
  "'a transform_state \<Rightarrow> ('v, 'w) active_motion_set \<Rightarrow> bool" where
  "revision_headroom st active \<longleftrightarrow>
     (let needs_world_revision = has_dirty_transforms st \<or> am_records active \<noteq> [];
          remaining = - 1 - m_revision st;
          size = length (am_records active)
      in \<not> (unat remaining < size \<or> needs_world_revision \<and> unat remaining - size = 0))"

definition check_step ::
  "polytree \<Rightarrow> 'a transform_state \<Rightarrow> ('v, 'w) active_motion_set \<Rightarrow> fixed_step_sequence \<Rightarrow> motion_error" where
  "check_step t st active seq =
     (if step_delta (next_step seq) \<le> 0 then me_invalid_step
      else if step_tick (next_step seq) = - 1 then me_tick_exhausted
      else if am_topology_identity active \<noteq> pt_identity t then me_topology_mismatch
      else if state_size st \<noteq> node_count t \<or> am_node_count active \<noteq> node_count t
      then me_state_size_mismatch
      else if \<not> list_all (\<lambda>r. amr_node r < node_count t) (am_records active) then me_invalid_node
      else if \<not> revision_headroom st active then me_revision_exhausted
      else me_none)"

definition integrated_updates ::
  "('a \<Rightarrow> ('v, 'w) motion_state \<Rightarrow> fixed_motion_step \<Rightarrow> 'a) \<Rightarrow> fixed_motion_step \<Rightarrow>
   'a transform_state \<Rightarrow> ('v, 'w) active_motion_set \<Rightarrow> 'a local_motion_update list" where
  "integrated_updates integrate step st active =
     map (\<lambda>r. \<lparr>lmu_node = amr_node r,
               lmu_local = integrate (local_of st (amr_node r)) (amr_state r) step\<rparr>)
       (am_records active)"

definition advance_motion_scene ::
  "polytree \<Rightarrow> ('a \<Rightarrow> ('v, 'w) motion_state \<Rightarrow> fixed_motion_step \<Rightarrow> 'a) \<Rightarrow> ('a \<Rightarrow> 'a \<Rightarrow> 'a) \<Rightarrow>
   'a transform_state \<Rightarrow> ('v, 'w) active_motion_set \<Rightarrow> fixed_step_sequence \<Rightarrow>
   'a motion_evaluation_workspace \<Rightarrow> transform_evaluation_workspace \<Rightarrow>
   motion_evaluation_result \<times> 'a transform_state \<times> fixed_step_sequence \<times>
   'a motion_evaluation_workspace \<times> transform_evaluation_workspace" where
  "advance_motion_scene t integrate compose st active seq mws tws =
     (let step = next_step seq;
          failed = (\<lambda>error status integrated st.
            \<lparr>mr_error = error, mr_transform_status = status, mr_integrated_nodes = integrated,
             mr_changed_nodes = [], mr_step = step, mr_world_revision = m_revision st\<rparr>);
          error = check_step t st active seq
      in if error \<noteq> me_none then (failed error te_none [] st, st, seq, mws, tws)
         else
           let updates = integrated_updates integrate step st active;
               (status, st, integrated) = push_locals updates st [];
               mws = mws\<lparr>mw_updates := updates, mw_integrated_nodes := integrated\<rparr>
           in if status \<noteq> te_none
              then (failed (map_transform_error status) status integrated st, st, seq, mws, tws)
              else case make_transform_evaluation_plan t st tws of
                (Inl e, tws) \<Rightarrow> (failed (map_transform_error e) e integrated st, st, seq, mws, tws)
              | (Inr plan, tws) \<Rightarrow>
                  (case evaluate_transforms t compose st plan (Some tws) of (result, st) \<Rightarrow>
                     if res_error result \<noteq> te_none
                     then (failed (map_transform_error (res_error result)) (res_error result) integrated st,
                           st, seq, mws, tws)
                     else (\<lparr>mr_error = me_none, mr_transform_status = te_none,
                            mr_integrated_nodes = integrated, mr_changed_nodes = res_changed_nodes result,
                            mr_step = step, mr_world_revision = res_world_revision result\<rparr>,
                           st, complete_step seq, mws, tws)))"

subsection \<open>Nothing fails after the checks\<close>

lemma revision_headroom_nat:
  "revision_headroom st active \<longleftrightarrow>
     unat (m_revision st) + length (am_records active) < 2 ^ 64 \<and>
     (has_dirty_transforms st \<or> am_records active \<noteq> [] \<longrightarrow>
       unat (m_revision st) + length (am_records active) < 2 ^ 64 - 1)"
proof -
  have "unat (- 1 - m_revision st) = 2 ^ 64 - 1 - unat (m_revision st)"
    using unat_sub [OF word_order.extremum [of "m_revision st"]] max_u64_unat by simp
  moreover have "unat (m_revision st) < 2 ^ 64" using unsigned_less [of "m_revision st"] by simp
  ultimately show ?thesis by (auto simp: revision_headroom_def Let_def)
qed

lemma push_locals_ok:
  assumes "\<And>u. u \<in> set us \<Longrightarrow> lmu_node u < length (m_records st)"
    and "unat (m_revision st) + length us < 2 ^ 64" and "distinct (map lmu_node us)"
    and wf: "wf_polytree t" and "state_ok t compose st"
  shows "\<exists>st'. push_locals us st xs = (te_none, st', xs @ map lmu_node us) \<and>
    state_ok t compose st' \<and> unat (m_revision st') = unat (m_revision st) + length us \<and>
    (\<forall>n. local_of st' n = (case map_of (map (\<lambda>u. (lmu_node u, lmu_local u)) us) n of
        None \<Rightarrow> local_of st n | Some v \<Rightarrow> v)) \<and>
    set (m_dirty_nodes st') = set (m_dirty_nodes st) \<union> lmu_node ` set us"
  using assms(1-3,5)
proof (induction us arbitrary: st xs)
  case Nil
  then show ?case by simp
next
  case (Cons u us)
  let ?n = "lmu_node u" and ?s = "snd (set_local (lmu_node u) (lmu_local u) st)"
  have "unat (m_revision st) < 2 ^ 64 - 1" using Cons.prems(2) by simp
  then have room: "m_revision st \<noteq> - 1" using max_u64_unat by auto
  then have ok: "fst (set_local ?n (lmu_local u) st) = te_none"
    using Cons.prems(1) by (simp add: set_local_ok)
  have rev: "unat (m_revision ?s) = unat (m_revision st) + 1"
    using set_local_ok_revision [OF ok] unat_next [OF room] by simp
  have st: "state_ok t compose ?s" using Cons.prems(4) by (rule state_ok_set_local [OF wf])
  have loc: "local_of ?s n = (if n = ?n then lmu_local u else local_of st n)" for n
    by (simp add: local_of_def record_at_def set_local_other set_local_ok_record [OF ok])
  have dirty: "set (m_dirty_nodes ?s) = insert ?n (set (m_dirty_nodes st))"
    using ok room frontier_exact_mem [of st ?n] Cons.prems(1,4)
    by (auto simp: set_local_def Let_def state_ok_def revision_available_def)
  obtain st' where st': "push_locals us ?s (xs @ [?n]) = (te_none, st', xs @ ?n # map lmu_node us)"
    "state_ok t compose st'" "unat (m_revision st') = unat (m_revision ?s) + length us"
    "\<forall>n. local_of st' n = (case map_of (map (\<lambda>u. (lmu_node u, lmu_local u)) us) n of
        None \<Rightarrow> local_of ?s n | Some v \<Rightarrow> v)"
    "set (m_dirty_nodes st') = set (m_dirty_nodes ?s) \<union> lmu_node ` set us"
    using Cons.IH [of ?s "xs @ [?n]"] Cons.prems(1-3) st rev
    by (auto simp: length_set_local)
  have "map_of (map (\<lambda>u. (lmu_node u, lmu_local u)) us) ?n = None"
    using Cons.prems(3) by (auto simp: map_of_eq_None_iff image_image)
  then have "local_of st' n = (case map_of (map (\<lambda>u. (lmu_node u, lmu_local u)) (u # us)) n of
        None \<Rightarrow> local_of st n | Some v \<Rightarrow> v)" for n
    using st'(4) loc by (auto split: option.split)
  moreover have "push_locals (u # us) st xs = (te_none, st', xs @ map lmu_node (u # us))"
    using ok st'(1) by (simp add: prod_eq_iff split: prod.split transform_error.split)
  ultimately show ?case using st' rev dirty by auto
qed

subsection \<open>What a step does\<close>

definition integrated_local ::
  "('a \<Rightarrow> ('v, 'w) motion_state \<Rightarrow> fixed_motion_step \<Rightarrow> 'a) \<Rightarrow> fixed_motion_step \<Rightarrow>
   'a transform_state \<Rightarrow> ('v, 'w) active_motion_set \<Rightarrow> node_handle \<Rightarrow> 'a" where
  "integrated_local integrate step st active n =
     (case motion_of active n of
        None \<Rightarrow> local_of st n
      | Some v \<Rightarrow> integrate (local_of st n) v step)"

lemma integrated_updates_lookup:
  "map_of (map (\<lambda>u. (lmu_node u, lmu_local u)) (integrated_updates integrate step st active)) n =
   map_option (\<lambda>v. integrate (local_of st n) v step) (motion_of active n)"
proof -
  have "map_of (map (\<lambda>r. (amr_node r, f (amr_node r) (amr_state r))) rs) n =
      map_option (f n) (map_of (map (\<lambda>r. (amr_node r, amr_state r)) rs) n)"
    for f :: "node_handle \<Rightarrow> ('b, 'c) motion_state \<Rightarrow> 'a" and rs
    by (induction rs) auto
  from this [of "\<lambda>k v. integrate (local_of st k) v step"] show ?thesis
    by (simp add: integrated_updates_def motion_of_def record_map_def comp_def)
qed

lemma check_stepD:
  assumes "check_step t st active seq = me_none"
  shows "0 < fs_delta seq" "fs_next_tick seq \<noteq> - 1" "am_topology_identity active = pt_identity t"
    "am_node_count active = node_count t" "length (m_records st) = node_count t"
    "\<And>r. r \<in> set (am_records active) \<Longrightarrow> amr_node r < node_count t" "revision_headroom st active"
  using assms by (auto simp: check_step_def next_step_def state_size_def list_all_iff split: if_splits)

lemma advance_rejected:
  "check_step t st active seq \<noteq> me_none \<Longrightarrow>
   advance_motion_scene t integrate compose st active seq mws tws =
   (\<lparr>mr_error = check_step t st active seq, mr_transform_status = te_none, mr_integrated_nodes = [],
     mr_changed_nodes = [], mr_step = next_step seq, mr_world_revision = m_revision st\<rparr>, st, seq, mws, tws)"
  by (simp add: advance_motion_scene_def Let_def)

lemma advance_accepted:
  fixes st :: "'a transform_state" and active :: "('v, 'w) active_motion_set"
  assumes wf: "wf_polytree t" and st: "state_ok t compose st" and ok: "motion_set_ok active"
    and cs: "cache_coherent t tws" "stamps_ok tws"
    and chk: "check_step t st active seq = me_none"
  shows "\<exists>(st1 :: 'a transform_state) st' mws' tws'. advance_motion_scene t integrate compose st active seq mws tws =
      (\<lparr>mr_error = me_none, mr_transform_status = te_none,
        mr_integrated_nodes = map amr_node (am_records active), mr_changed_nodes = canonical_nodes t st1,
        mr_step = next_step seq, mr_world_revision = m_revision st'\<rparr>, st', complete_step seq, mws', tws') \<and>
    set (m_dirty_nodes st1) = set (m_dirty_nodes st) \<union> amr_node ` set (am_records active) \<and>
    cache_coherent t tws' \<and> stamps_ok tws' \<and> plannable t st1 \<and>
    state_ok t compose st' \<and> \<not> has_dirty_transforms st' \<and>
    unat (m_revision st') = unat (m_revision st) + length (am_records active) +
      (if m_dirty_nodes st = [] \<and> am_records active = [] then 0 else 1) \<and>
    (\<forall>n < node_count t. local_of st' n = integrated_local integrate (next_step seq) st active n \<and>
       path_world t compose (integrated_local integrate (next_step seq) st active) n (world_of st' n))"
proof -
  let ?step = "next_step seq"
  let ?us = "integrated_updates integrate ?step st active"
  note chkD = check_stepD [OF chk]
  have nodes: "map lmu_node ?us = map amr_node (am_records active)" by (simp add: integrated_updates_def)
  have room: "unat (m_revision st) + length (am_records active) < 2 ^ 64"
    and room': "m_dirty_nodes st \<noteq> [] \<or> am_records active \<noteq> [] \<Longrightarrow>
      unat (m_revision st) + length (am_records active) < 2 ^ 64 - 1"
    using chkD(7) by (auto simp: revision_headroom_nat has_dirty_transforms_def)
  have dist: "distinct (map lmu_node ?us)"
    using motion_set_okD(1) [OF ok] by (simp add: nodes strict_sorted_iff)
  have bounds: "\<And>u. u \<in> set ?us \<Longrightarrow> lmu_node u < length (m_records st)"
    using chkD(5,6) by (auto simp: integrated_updates_def)
  have "unat (m_revision st) + length ?us < 2 ^ 64" using room by (simp add: integrated_updates_def)
  have conv: "(case map_option (\<lambda>v. integrate (local_of st n) v ?step) (motion_of active n) of
      None \<Rightarrow> local_of st n | Some v \<Rightarrow> v) = integrated_local integrate ?step st active n" for n
    by (simp add: integrated_local_def split: option.split)
  have size: "length ?us = length (am_records active)" "lmu_node ` set ?us = amr_node ` set (am_records active)"
    using arg_cong [OF nodes, of length] arg_cong [OF nodes, of set] by simp_all
  have "\<exists>st'. push_locals ?us st [] = (te_none, st', map amr_node (am_records active)) \<and>
      state_ok t compose st' \<and> unat (m_revision st') = unat (m_revision st) + length (am_records active) \<and>
      (\<forall>n. local_of st' n = integrated_local integrate ?step st active n) \<and>
      set (m_dirty_nodes st') = set (m_dirty_nodes st) \<union> amr_node ` set (am_records active)"
    using push_locals_ok [OF bounds \<open>unat (m_revision st) + length ?us < 2 ^ 64\<close> dist wf st, of "[]"]
    unfolding nodes integrated_updates_lookup conv size by simp
  then obtain st1 where
    st1: "push_locals ?us st [] = (te_none, st1, map amr_node (am_records active))"
      "state_ok t compose st1" "unat (m_revision st1) = unat (m_revision st) + length (am_records active)"
      "set (m_dirty_nodes st1) = set (m_dirty_nodes st) \<union> amr_node ` set (am_records active)"
    and loc: "\<And>n. local_of st1 n = integrated_local integrate ?step st active n"
    by blast
  have idle: "m_dirty_nodes st1 = [] \<longleftrightarrow> m_dirty_nodes st = [] \<and> am_records active = []"
    using st1(4) by (metis Un_empty image_is_empty set_empty)
  have free: "m_revision st1 \<noteq> - 1 \<or> m_dirty_nodes st1 = []"
  proof (cases "m_dirty_nodes st = [] \<and> am_records active = []")
    case False
    then have "unat (m_revision st1) < 2 ^ 64 - 1" using room' st1(3) by auto
    then show ?thesis using max_u64_unat by auto
  qed (simp add: idle)
  note pl = state_ok_plannable [OF wf st1(2)]
  have none: "canonical_nodes t st1 = [] \<longleftrightarrow> m_dirty_nodes st1 = []"
  proof
    assume "canonical_nodes t st1 = []"
    moreover have "set (m_dirty_nodes st1) \<subseteq> set (canonical_nodes t st1)"
      using set_canonical_nodes [OF wf, of st1] plannableD(5) [OF pl] by (auto intro: directly_dirty)
    ultimately show "m_dirty_nodes st1 = []" by simp
  next
    assume "m_dirty_nodes st1 = []"
    with no_dirty_canonical(1) [OF pl] show "canonical_nodes t st1 = []" by (simp add: has_dirty_transforms_def)
  qed
  obtain plan tws' st' where ev: "make_transform_evaluation_plan t st1 tws = (Inr plan, tws')"
    "cache_coherent t tws'" "stamps_ok tws'"
    "evaluate_transforms t compose st1 plan (Some tws') =
      (\<lparr>res_error = te_none, res_changed_nodes = canonical_nodes t st1,
        res_world_revision = next_revision st1 (canonical_nodes t st1)\<rparr>, st')"
    "state_ok t compose st'" "\<not> has_dirty_transforms st'"
    "m_revision st' = next_revision st1 (canonical_nodes t st1)"
    "\<And>n. n < node_count t \<Longrightarrow> local_of st' n = local_of st1 n \<and>
       path_world t compose (local_of st1) n (world_of st' n)"
    using full_evaluation [OF wf st1(2) cs free] by blast
  have rev: "unat (m_revision st') = unat (m_revision st) + length (am_records active) +
      (if m_dirty_nodes st = [] \<and> am_records active = [] then 0 else 1)"
    using ev(7) st1(3) free unat_next [of "m_revision st1"] by (auto simp: next_revision_def none idle)
  have "local_of st1 = integrated_local integrate ?step st active" using loc by (rule ext)
  with ev(8) have spec: "\<And>n. n < node_count t \<Longrightarrow> local_of st' n = integrated_local integrate ?step st active n \<and>
       path_world t compose (integrated_local integrate ?step st active) n (world_of st' n)" by metis
  let ?mws = "mws\<lparr>mw_updates := ?us, mw_integrated_nodes := map amr_node (am_records active)\<rparr>"
  have "advance_motion_scene t integrate compose st active seq mws tws =
      (\<lparr>mr_error = me_none, mr_transform_status = te_none,
        mr_integrated_nodes = map amr_node (am_records active), mr_changed_nodes = canonical_nodes t st1,
        mr_step = ?step, mr_world_revision = m_revision st'\<rparr>, st', complete_step seq, ?mws, tws')"
    using ev(1,4,7) st1(1) chk by (simp add: advance_motion_scene_def Let_def)
  then show ?thesis using st1(4) ev(2,3,5,6) pl rev spec by blast
qed

subsection \<open>Properties of the step\<close>

definition step_seconds :: fixed_step_sequence where
  "step_seconds = \<lparr>fs_delta = 16, fs_next_tick = 5\<rparr>"

definition slide :: "int \<Rightarrow> (int, int) motion_state \<Rightarrow> fixed_motion_step \<Rightarrow> int" where
  "slide x v step = x + linear_velocity v * step_delta step"

definition new_motion_workspace :: "'a motion_evaluation_workspace" where
  "new_motion_workspace = \<lparr>mw_updates = [], mw_integrated_nodes = []\<rparr>"

text \<open>C8. A step that passes its checks succeeds as a whole: no later call can fail. It advances
  the tick by one, integrates exactly the moving nodes in ascending handle order, sets their
  locals to what the policy makes of the old locals, leaves every other local alone, and
  leaves a scene with no dirty node in which every world is the composition of the new locals
  along its root path. It uses one revision per moving node and one for the worlds.\<close>

theorem accepted_step_reaches_specification:
  fixes st :: "'a transform_state" and active :: "('v, 'w) active_motion_set"
  assumes "wf_polytree t" and "reachable_system t compose sys" and "motion_set_ok active"
    and "check_step t (sys_state sys) active seq = me_none"
  shows "\<exists>result st mws' tws. advance_motion_scene t integrate compose (sys_state sys) active seq mws (sys_workspace sys) =
      (result, st, complete_step seq, mws', tws) \<and>
    mr_error result = me_none \<and> mr_transform_status result = te_none \<and>
    mr_integrated_nodes result = map amr_node (am_records active) \<and>
    fs_next_tick (complete_step seq) = fs_next_tick seq + 1 \<and>
    \<not> has_dirty_transforms st \<and> mr_world_revision result = m_revision st \<and>
    unat (m_revision st) = unat (m_revision (sys_state sys)) + length (am_records active) +
      (if \<not> has_dirty_transforms (sys_state sys) \<and> am_records active = [] then 0 else 1) \<and>
    (\<forall>n < node_count t.
       local_of st n = (case motion_of active n of
           None \<Rightarrow> local_of (sys_state sys) n
         | Some v \<Rightarrow> integrate (local_of (sys_state sys) n) v (next_step seq)) \<and>
       path_world t compose (local_of st) n (world_of st n))"
proof -
  have sys: "system_ok t compose sys" using assms(1,2) by (rule reachable_system_ok)
  then have st: "state_ok t compose (sys_state sys)"
    and cs: "cache_coherent t (sys_workspace sys)" "stamps_ok (sys_workspace sys)"
    by (simp_all add: system_ok_def)
  from advance_accepted [OF assms(1) st assms(3) cs assms(4), of integrate mws]
  obtain result st' mws' tws' where adv:
    "advance_motion_scene t integrate compose (sys_state sys) active seq mws (sys_workspace sys) =
      (result, st', complete_step seq, mws', tws')"
    and res: "mr_error result = me_none" "mr_transform_status result = te_none"
      "mr_integrated_nodes result = map amr_node (am_records active)" "mr_world_revision result = m_revision st'"
    and ok: "state_ok t compose st'" "\<not> has_dirty_transforms st'"
    and rev: "unat (m_revision st') = unat (m_revision (sys_state sys)) + length (am_records active) +
      (if m_dirty_nodes (sys_state sys) = [] \<and> am_records active = [] then 0 else 1)"
    and loc: "\<And>n. n < node_count t \<Longrightarrow>
      local_of st' n = integrated_local integrate (next_step seq) (sys_state sys) active n"
    by fastforce
  have "\<not> r_dirty (m_records st' ! n)" if "n < node_count t" for n
    using ok that by (auto simp: state_ok_def has_dirty_transforms_def frontier_exact_def)
  then have "path_world t compose (local_of st') n (world_of st' n)" if "n < node_count t" for n
    using ok(1) that assms(1) by (intro worlds_ok_path) (auto simp: state_ok_def)
  with adv res ok(2) rev loc show ?thesis
    by (intro exI [of _ result] exI [of _ st'] exI [of _ mws'] exI [of _ tws'])
      (simp add: complete_step_def has_dirty_transforms_def integrated_local_def)
qed

lemma small_step_checked: "check_step small_tree small_state two_moving step_seconds = me_none"
  by (simp add: check_step_def next_step_def step_seconds_def two_moving_records small_tree_def small_state_def
      make_state_def state_size_def revision_headroom_nat)

theorem accepted_step_reaches_specification_witness:
  "\<exists>result st mws' tws. advance_motion_scene small_tree slide (+) small_state two_moving step_seconds
      new_motion_workspace new_workspace = (result, st, complete_step step_seconds, mws', tws) \<and>
    mr_error result = me_none \<and> mr_integrated_nodes result = [1, 3] \<and>
    unat (m_revision st) = 3 \<and> local_of st 1 = 42 \<and> local_of st 3 = 1080 \<and> local_of st 2 = 100"
proof -
  have motion: "motion_of two_moving 1 = Some (moving 2)" "motion_of two_moving 3 = Some (moving 5)"
    "motion_of two_moving 2 = None" "map amr_node (am_records two_moving) = [1, 3]" "length (am_records two_moving) = 2"
    by (simp_all add: two_moving_records motion_of_def)
  have loc: "local_of small_state 1 = 10" "local_of small_state 2 = 100" "local_of small_state 3 = 1000"
    "m_revision small_state = 0" "node_count small_tree = 4" "has_dirty_transforms small_state"
    by (simp_all add: small_state_def make_state_def local_of_def record_at_def fresh_record_def small_tree_def has_dirty_transforms_def)
  have slide: "slide 10 (moving 2) (next_step step_seconds) = 42" "slide 1000 (moving 5) (next_step step_seconds) = 1080"
    by (simp_all add: slide_def moving_def next_step_def step_seconds_def)
  obtain result st mws' tws where
    r: "advance_motion_scene small_tree slide (+) small_state two_moving step_seconds new_motion_workspace new_workspace =
      (result, st, complete_step step_seconds, mws', tws)" "mr_error result = me_none"
      "mr_integrated_nodes result = [1, 3]" "unat (m_revision st) = 3"
    and l: "\<And>n. n < 4 \<Longrightarrow> local_of st n = (case motion_of two_moving n of
           None \<Rightarrow> local_of small_state n | Some v \<Rightarrow> slide (local_of small_state n) v (next_step step_seconds))"
    using accepted_step_reaches_specification [OF small_tree_wf small_reachable, of two_moving step_seconds slide new_motion_workspace,
        unfolded transform_system.select_convs]
      motion_reachable_ok [OF two_moving_reachable] small_step_checked motion loc by auto
  show ?thesis using r l [of 1] l [of 2] l [of 3] by (auto simp: motion loc slide simp del: One_nat_def)
qed

text \<open>C9. A step is all or nothing: it succeeds exactly when the step is positive, the tick and
  the revision clock have room (counted as naturals: one edit per moving node and one world
  revision) and the motion set belongs to the topology; otherwise the state, the tick and
  both workspaces are as they were.\<close>

theorem step_is_all_or_nothing:
  fixes st :: "'a transform_state" and active :: "('v, 'w) active_motion_set"
  assumes "wf_polytree t" and "reachable_system t compose sys" and "motion_set_ok active"
    and "advance_motion_scene t integrate compose (sys_state sys) active seq mws (sys_workspace sys) =
      (result, st, seq', mws', tws)"
  shows "(mr_error result = me_none \<longleftrightarrow>
      0 < fs_delta seq \<and> unat (fs_next_tick seq) < 2 ^ 64 - 1 \<and>
      am_topology_identity active = pt_identity t \<and> am_node_count active = node_count t \<and>
      unat (m_revision (sys_state sys)) + length (am_records active) +
        (if \<not> has_dirty_transforms (sys_state sys) \<and> am_records active = [] then 0 else 1) < 2 ^ 64) \<and>
    (mr_error result \<noteq> me_none \<longrightarrow>
      st = sys_state sys \<and> seq' = seq \<and> mws' = mws \<and> tws = sys_workspace sys)"
proof -
  have sys: "system_ok t compose sys" using assms(1,2) by (rule reachable_system_ok)
  then have ok: "state_ok t compose (sys_state sys)"
    and cs: "cache_coherent t (sys_workspace sys)" "stamps_ok (sys_workspace sys)"
    by (simp_all add: system_ok_def)
  then have size: "state_size (sys_state sys) = node_count t" by (simp add: state_size_def state_ok_def)
  have "fs_next_tick seq = - 1 \<longleftrightarrow> \<not> unat (fs_next_tick seq) < 2 ^ 64 - 1"
  proof -
    have "unat (fs_next_tick seq) < 2 ^ 64" using unsigned_less [of "fs_next_tick seq", where 'a = nat] by simp
    then show ?thesis using max_u64_unat by (auto simp: word_unat_eq_iff)
  qed
  then have chk: "check_step t (sys_state sys) active seq = me_none \<longleftrightarrow>
      0 < fs_delta seq \<and> unat (fs_next_tick seq) < 2 ^ 64 - 1 \<and>
      am_topology_identity active = pt_identity t \<and> am_node_count active = node_count t \<and>
      unat (m_revision (sys_state sys)) + length (am_records active) +
        (if \<not> has_dirty_transforms (sys_state sys) \<and> am_records active = [] then 0 else 1) < 2 ^ 64"
    using size motion_set_okD(2) [OF assms(3)]
    by (auto simp: check_step_def next_step_def revision_headroom_nat list_all_iff)
  show ?thesis
  proof (cases "check_step t (sys_state sys) active seq = me_none")
    case True
    from advance_accepted [OF assms(1) ok assms(3) cs True, of integrate mws] assms(4)
    have "mr_error result = me_none" by auto
    with True chk show ?thesis by simp
  next
    case False
    from advance_rejected [OF False, of integrate compose mws "sys_workspace sys"] assms(4)
    have "mr_error result = check_step t (sys_state sys) active seq" "st = sys_state sys \<and> seq' = seq \<and> mws' = mws \<and> tws = sys_workspace sys"
      by auto
    with False chk show ?thesis by simp
  qed
qed

theorem step_is_all_or_nothing_witness:
  "case advance_motion_scene small_tree slide (+) small_state two_moving
      (step_seconds\<lparr>fs_next_tick := - 1\<rparr>) new_motion_workspace new_workspace of
    (result, st, seq', mws', tws) \<Rightarrow> mr_error result \<noteq> me_none \<and> st = small_state \<and>
      seq' = step_seconds\<lparr>fs_next_tick := - 1\<rparr> \<and> tws = new_workspace"
proof -
  obtain result st seq' mws' tws where adv: "advance_motion_scene small_tree slide (+) small_state two_moving
      (step_seconds\<lparr>fs_next_tick := - 1\<rparr>) new_motion_workspace new_workspace = (result, st, seq', mws', tws)"
    using prod_cases5 by blast
  have "\<not> unat (fs_next_tick (step_seconds\<lparr>fs_next_tick := - 1\<rparr>)) < 2 ^ 64 - 1" using max_u64_unat by simp
  with step_is_all_or_nothing [OF small_tree_wf small_reachable, of two_moving slide "step_seconds\<lparr>fs_next_tick := - 1\<rparr>"
      new_motion_workspace result st seq' mws' tws, unfolded transform_system.select_convs] adv motion_reachable_ok [OF two_moving_reachable]
  show ?thesis by auto
qed

end
