(* ===== verification/Scene_Types.thy ===== *)
theory Scene_Types
  imports Prelude "HOL-Library.Char_ord" "HOL-Library.List_Lexorder" "HOL-Library.Product_Lexorder"
begin

section \<open>The data types of the O3DE integration\<close>

text \<open>
  \<open>ScenePolytreeTypes.h\<close>. An \<open>AZ::Name\<close> is a string, compared as the code compares it,
  lexicographically by character. An \<open>AZ::EntityId\<close> is a 64-bit value or \<open>None\<close> for the
  invalid id; an \<open>AssetId\<close> is a 128-bit guid with a 32-bit sub id. The engine's \<open>AZ::Transform\<close> is a type variable.
\<close>

type_synonym name = string
type_synonym entity_id = "u64 option"
type_synonym asset_id = "128 word \<times> u32"

datatype result_code =
    rc_success
  | rc_scene_not_found
  | rc_scene_not_ready
  | rc_registration_closed
  | rc_invalid_prefab
  | rc_asset_load_failed
  | rc_empty_prefab_hierarchy
  | rc_duplicate_binding_id
  | rc_dangling_parent
  | rc_cycle
  | rc_invalid_transform
  | rc_zero_capacity
  | rc_empty_scene
  | rc_missing_default_scene
  | rc_duplicate_default_scene
  | rc_stale_handle
  | rc_partition_mismatch
  | rc_slot_unavailable
  | rc_invalid_binding
  | rc_construction_failed
  | rc_invalid_configuration
  | rc_controller_factory_not_found
  | rc_controller_invalid_configuration
  | rc_controller_target_not_found
  | rc_controller_target_outside_instance
  | rc_controller_write_conflict
  | rc_controller_construction_failed
  | rc_controllers_active

record scene_polytree_failure =
  f_code :: result_code
  f_registration_key :: name
  f_asset_id :: asset_id
  f_node_id :: name

definition no_failure :: scene_polytree_failure where
  "no_failure = \<lparr>f_code = rc_success, f_registration_key = [], f_asset_id = (0, 0), f_node_id = []\<rparr>"

definition failure_of :: "result_code \<Rightarrow> name \<Rightarrow> scene_polytree_failure" where
  "failure_of code node = \<lparr>f_code = code, f_registration_key = [], f_asset_id = (0, 0), f_node_id = node\<rparr>"

record 'x node_descriptor =
  nd_binding_id :: name
  nd_parent_binding_id :: name
  nd_initial_local :: 'x

subsection \<open>Handles\<close>

text \<open>
  A handle is a value with a validity test; zero marks an invalid id or generation. The default
  of every handle is the invalid one, except that a fresh \<open>SpawnerHandle\<close> has generation 1.
\<close>

datatype lifecycle = lc_collecting | lc_building | lc_ready | lc_failed | lc_destroying

datatype scene_command_type =
    sct_place_slot
  | sct_bind_slot
  | sct_unbind_slot
  | sct_reset_slot
  | sct_release_slot
  | sct_attach_controllers
  | sct_detach_controllers

type_synonym scene_command_id = u64
type_synonym registration_token = u64
type_synonym scene_handle = u64

record scene_command_submission =
  scs_code :: result_code
  scs_command :: scene_command_id

definition submission_accepted :: "scene_command_submission \<Rightarrow> bool" where
  "submission_accepted s \<longleftrightarrow> scs_code s = rc_success \<and> scs_command s \<noteq> 0"

record spawner_handle =
  ph_scene :: scene_handle
  ph_partition :: u64
  ph_generation :: u32

definition no_spawner :: spawner_handle where
  "no_spawner = \<lparr>ph_scene = 0, ph_partition = 0, ph_generation = 1\<rparr>"

definition spawner_valid :: "spawner_handle \<Rightarrow> bool" where
  "spawner_valid h \<longleftrightarrow> ph_scene h \<noteq> 0 \<and> ph_partition h \<noteq> 0 \<and> ph_generation h \<noteq> 0"

record slot_handle =
  sh_spawner :: spawner_handle
  sh_slot :: u32
  sh_generation :: u32

definition no_slot :: slot_handle where
  "no_slot = \<lparr>sh_spawner = no_spawner, sh_slot = 0, sh_generation = 0\<rparr>"

definition slot_valid :: "slot_handle \<Rightarrow> bool" where
  "slot_valid h \<longleftrightarrow> spawner_valid (sh_spawner h) \<and> sh_generation h \<noteq> 0"

record scene_node_handle =
  nh_slot :: slot_handle
  nh_binding_id :: name

definition no_node :: scene_node_handle where
  "no_node = \<lparr>nh_slot = no_slot, nh_binding_id = []\<rparr>"

definition node_valid :: "scene_node_handle \<Rightarrow> bool" where
  "node_valid h \<longleftrightarrow> slot_valid (nh_slot h) \<and> nh_binding_id h \<noteq> []"

record instance_handle =
  ih_slot :: slot_handle
  ih_spawner_generation :: u32

definition instance_valid :: "instance_handle \<Rightarrow> bool" where
  "instance_valid h \<longleftrightarrow> slot_valid (ih_slot h) \<and> ih_spawner_generation h \<noteq> 0"

subsection \<open>Descriptors and results\<close>

record 'x partition_descriptor =
  pd_partition :: u64
  pd_capacity :: u32
  pd_nodes :: "'x node_descriptor list"

record 'x scene_descriptor =
  sd_permanent_nodes :: "'x node_descriptor list"
  sd_partitions :: "'x partition_descriptor list"
  sd_fixed_step :: int
  sd_max_catch_up :: u32

record 'x entity_binding =
  eb_binding_id :: name
  eb_entity :: entity_id
  eb_node_to_entity :: 'x

record slot_result =
  sr_code :: result_code
  sr_handle :: slot_handle

definition slot_succeeds :: "slot_result \<Rightarrow> bool" where
  "slot_succeeds r \<longleftrightarrow> sr_code r = rc_success \<and> slot_valid (sr_handle r)"

record node_result =
  nr_code :: result_code
  nr_handle :: scene_node_handle

definition node_succeeds :: "node_result \<Rightarrow> bool" where
  "node_succeeds r \<longleftrightarrow> nr_code r = rc_success \<and> node_valid (nr_handle r)"

lemmas validity_defs = spawner_valid_def slot_valid_def node_valid_def instance_valid_def

end
