(* ===== verification/Prefab_Topology.thy ===== *)
theory Prefab_Topology
  imports Scene_Types
begin

section \<open>Prefab topologies\<close>

text \<open>
  \<open>PrefabTopology.cpp\<close>: extracting a node hierarchy from prefab entities, and validating and
  normalizing a list of node descriptors. Both walk parent chains recursively with a visit
  state per node (0 new, 1 on the way, 2 done), so a cycle is met as a node on the way. An
  entity is what the code reads of it: nothing for a null pointer, and otherwise its id, its
  name and, when it has a transform component, the parent id and the local transform.
  Finiteness of a transform is an argument. An index outside the visit states is never used;
  the model leaves such a read unspecified, as the code does.
\<close>

subsection \<open>Data\<close>

record 'x transform_view =
  tv_parent :: entity_id
  tv_local :: 'x

record 'x entity_view =
  ev_id :: entity_id
  ev_name :: name
  ev_transform :: "'x transform_view option"

record 'x inferred_node =
  in_entity :: entity_id
  in_name :: name
  in_transform :: "'x transform_view"
  in_parent :: "nat option"
  in_depth :: nat
  in_path :: name

record 'x prefab_topology_result =
  ptr_nodes :: "'x node_descriptor list"
  ptr_entities :: "entity_id list"
  ptr_failure :: scene_polytree_failure

definition failed_topology :: "result_code \<Rightarrow> name \<Rightarrow> 'x prefab_topology_result" where
  "failed_topology code node = \<lparr>ptr_nodes = [], ptr_entities = [], ptr_failure = failure_of code node\<rparr>"

definition topology_succeeds :: "'x prefab_topology_result \<Rightarrow> bool" where
  "topology_succeeds r \<longleftrightarrow> f_code (ptr_failure r) = rc_success"

subsection \<open>Path segments\<close>

definition escape_char :: "char \<Rightarrow> string" where
  "escape_char c = (if c = CHR ''%'' then ''%25'' else if c = CHR ''/'' then ''%2F'' else [c])"

definition escape_path_segment :: "string \<Rightarrow> string" where
  "escape_path_segment name = concat (map escape_char name)"

subsection \<open>Extraction\<close>

text \<open>The collecting pass keeps the failure of the last offending entity.\<close>

definition collect_entity ::
  "('x \<Rightarrow> bool) \<Rightarrow> 'x entity_view option \<Rightarrow>
   'x inferred_node list \<times> (u64 \<Rightarrow> nat option) \<times> result_code \<Rightarrow>
   'x inferred_node list \<times> (u64 \<Rightarrow> nat option) \<times> result_code" where
  "collect_entity is_finite entity = (\<lambda>(inferred, by_entity, failure).
     case entity of
       None \<Rightarrow> (inferred, by_entity, failure)
     | Some e \<Rightarrow>
         (case ev_transform e of
            None \<Rightarrow> (inferred, by_entity, failure)
          | Some tv \<Rightarrow>
              (case ev_id e of
                 None \<Rightarrow> (inferred, by_entity, rc_invalid_binding)
               | Some entity_id \<Rightarrow>
                   if by_entity entity_id \<noteq> None then (inferred, by_entity, rc_invalid_binding)
                   else if \<not> is_finite (tv_local tv) then (inferred, by_entity, rc_invalid_transform)
                   else (inferred @ [\<lparr>in_entity = ev_id e, in_name = ev_name e, in_transform = tv,
                           in_parent = None, in_depth = 0, in_path = []\<rparr>],
                         by_entity(entity_id \<mapsto> length inferred), failure))))"

definition link_parent :: "(u64 \<Rightarrow> nat option) \<Rightarrow> 'x inferred_node \<Rightarrow> 'x inferred_node" where
  "link_parent by_entity node =
     (case tv_parent (in_transform node) of
        None \<Rightarrow> node
      | Some p \<Rightarrow> node\<lparr>in_parent := by_entity p\<rparr>)"

function build_path ::
  "nat \<Rightarrow> u8 list \<Rightarrow> 'x inferred_node list \<Rightarrow> result_code \<times> u8 list \<times> 'x inferred_node list" where
  "build_path index vs ns =
     (if index < length vs \<and> vs ! index = 0 then
        let vs = vs[index := 1]; segment = escape_path_segment (in_name (ns ! index))
        in if segment = [] then (rc_invalid_binding, vs, ns)
           else (case in_parent (ns ! index) of
               None \<Rightarrow> (rc_success, vs[index := 2], ns[index := (ns ! index)\<lparr>in_path := segment\<rparr>])
             | Some p \<Rightarrow>
                 (case build_path p vs ns of (code, vs, ns) \<Rightarrow>
                    if code \<noteq> rc_success then (code, vs, ns)
                    else (rc_success, vs[index := 2],
                          ns[index := (ns ! index)\<lparr>in_depth := in_depth (ns ! p) + 1,
                               in_path := in_path (ns ! p) @ ''/'' @ segment\<rparr>])))
      else if vs ! index = 1 then (rc_cycle, vs, ns)
      else (rc_success, vs, ns))"
  by pat_completeness auto

termination
proof (relation "measure (\<lambda>(index, vs, ns). length (filter (\<lambda>x. x = 0) vs))", goal_cases)
  case (2 index vs ns vs' segment p)
  then have "length (filter (\<lambda>x. x = 0) (vs[index := 1])) < length (filter (\<lambda>x. x = 0) vs)"
    by (subst (2) id_take_nth_drop [of index vs]) (auto simp: upd_conv_take_nth_drop)
  with 2 show ?case by simp
qed simp

text \<open>The loop over all indices: it stops at the first failure.\<close>

fun build_paths ::
  "nat list \<Rightarrow> u8 list \<Rightarrow> 'x inferred_node list \<Rightarrow> (result_code \<times> nat) option \<times> 'x inferred_node list" where
  "build_paths [] vs ns = (None, ns)"
| "build_paths (index # rest) vs ns =
     (case build_path index vs ns of (code, vs, ns) \<Rightarrow>
        if code \<noteq> rc_success then (Some (code, index), ns) else build_paths rest vs ns)"

text \<open>\<open>std::ranges::adjacent_find\<close>: the first of two neighbours with equal keys.\<close>

fun adjacent_find :: "('b \<Rightarrow> 'k) \<Rightarrow> 'b list \<Rightarrow> 'b option" where
  "adjacent_find key (x # y # zs) = (if key x = key y then Some x else adjacent_find key (y # zs))"
| "adjacent_find key _ = None"

definition describe_inferred :: "'x inferred_node list \<Rightarrow> 'x inferred_node \<Rightarrow> 'x node_descriptor" where
  "describe_inferred inferred node =
     \<lparr>nd_binding_id = in_path node,
      nd_parent_binding_id =
        (case in_parent node of
           None \<Rightarrow> []
         | Some _ \<Rightarrow>
             (case find (\<lambda>candidate. in_entity candidate = tv_parent (in_transform node)) inferred of
                Some candidate \<Rightarrow> in_path candidate)),
      nd_initial_local = tv_local (in_transform node)\<rparr>"

definition extract_entity_hierarchy ::
  "('x \<Rightarrow> bool) \<Rightarrow> 'x entity_view option list \<Rightarrow> 'x prefab_topology_result" where
  "extract_entity_hierarchy is_finite entities =
     (let (inferred, by_entity, entity_failure) =
            fold (collect_entity is_finite) entities ([], Map.empty, rc_success)
      in if entity_failure \<noteq> rc_success then failed_topology entity_failure []
         else if inferred = [] then failed_topology rc_empty_prefab_hierarchy []
         else
           case find (\<lambda>node. case tv_parent (in_transform node) of
               None \<Rightarrow> False | Some p \<Rightarrow> by_entity p = None) inferred of
             Some dangling \<Rightarrow> failed_topology rc_dangling_parent (in_name dangling)
           | None \<Rightarrow>
               let inferred = map (link_parent by_entity) inferred
               in case build_paths [0..<length inferred] (replicate (length inferred) 0) inferred of
                    (Some (code, index), inferred) \<Rightarrow> failed_topology code (in_name (inferred ! index))
                  | (None, inferred) \<Rightarrow>
                      let inferred = sort_key (\<lambda>node. (in_depth node, in_path node)) inferred
                      in case adjacent_find in_path inferred of
                           Some node \<Rightarrow> failed_topology rc_duplicate_binding_id (in_path node)
                         | None \<Rightarrow>
                             \<lparr>ptr_nodes = map (describe_inferred inferred) inferred,
                              ptr_entities = map in_entity inferred, ptr_failure = no_failure\<rparr>)"

subsection \<open>Validation\<close>

definition find_node :: "'x node_descriptor list \<Rightarrow> name \<Rightarrow> nat" where
  "find_node nodes binding = length (takeWhile (\<lambda>n. nd_binding_id n < binding) nodes)"

definition is_dangling :: "'x node_descriptor list \<Rightarrow> 'x node_descriptor \<Rightarrow> bool" where
  "is_dangling nodes node \<longleftrightarrow>
     nd_parent_binding_id node \<noteq> [] \<and>
     (let parent = find_node nodes (nd_parent_binding_id node)
      in parent = length nodes \<or> nd_binding_id (nodes ! parent) \<noteq> nd_parent_binding_id node)"

function visit :: "'x node_descriptor list \<Rightarrow> nat \<Rightarrow> u8 list \<Rightarrow> bool \<times> u8 list" where
  "visit nodes index vs =
     (if index < length vs \<and> vs ! index = 0 then
        let parent_id = nd_parent_binding_id (nodes ! index);
            (parent_valid, vs) = (if parent_id = [] then (True, vs[index := 1])
              else visit nodes (find_node nodes parent_id) (vs[index := 1]))
        in (parent_valid, vs[index := 2])
      else (vs ! index \<noteq> 1, vs))"
  by pat_completeness auto

termination
proof (relation "measure (\<lambda>(nodes, index, vs). length (filter (\<lambda>x. x = 0) vs))", goal_cases)
  case (2 nodes index vs parent_id)
  then have "length (filter (\<lambda>x. x = 0) (vs[index := 1])) < length (filter (\<lambda>x. x = 0) vs)"
    by (subst (2) id_take_nth_drop [of index vs]) (auto simp: upd_conv_take_nth_drop)
  then show ?case by simp
qed simp

fun find_cyclic :: "'x node_descriptor list \<Rightarrow> nat list \<Rightarrow> u8 list \<Rightarrow> nat option" where
  "find_cyclic nodes [] vs = None"
| "find_cyclic nodes (index # rest) vs =
     (case visit nodes index vs of (ok, vs) \<Rightarrow> if ok then find_cyclic nodes rest vs else Some index)"

text \<open>The depth recursion has no guard of its own: it returns because cycles are excluded.\<close>

partial_function (option) depth_from ::
  "'x node_descriptor list \<Rightarrow> nat \<Rightarrow> nat list \<Rightarrow> (nat \<times> nat list) option" where
  "depth_from nodes index depths =
     (if depths ! index \<noteq> 0 \<or> nd_parent_binding_id (nodes ! index) = [] then Some (depths ! index, depths)
      else Option.bind (depth_from nodes (find_node nodes (nd_parent_binding_id (nodes ! index))) depths)
             (\<lambda>r. Some (fst r + 1, (snd r)[index := fst r + 1])))"

declare depth_from.simps [code]

fun all_depths :: "'x node_descriptor list \<Rightarrow> nat list \<Rightarrow> nat list \<Rightarrow> nat list option" where
  "all_depths nodes [] depths = Some depths"
| "all_depths nodes (index # rest) depths =
     (case depth_from nodes index depths of
        None \<Rightarrow> None
      | Some (d, depths) \<Rightarrow> all_depths nodes rest depths)"

definition validate_and_normalize ::
  "('x \<Rightarrow> bool) \<Rightarrow> 'x node_descriptor list \<Rightarrow> 'x prefab_topology_result option" where
  "validate_and_normalize is_finite nodes =
     (if nodes = [] then Some (failed_topology rc_empty_prefab_hierarchy [])
      else case find (\<lambda>n. nd_binding_id n = [] \<or> \<not> is_finite (nd_initial_local n)) nodes of
        Some n \<Rightarrow> Some (failed_topology
          (if nd_binding_id n = [] then rc_invalid_binding else rc_invalid_transform) (nd_binding_id n))
      | None \<Rightarrow>
          let nodes = sort_key nd_binding_id nodes
          in case adjacent_find nd_binding_id nodes of
               Some n \<Rightarrow> Some (failed_topology rc_duplicate_binding_id (nd_binding_id n))
             | None \<Rightarrow>
                 (case find (is_dangling nodes) nodes of
                    Some n \<Rightarrow> Some (failed_topology rc_dangling_parent (nd_binding_id n))
                  | None \<Rightarrow>
                      (case find_cyclic nodes [0..<length nodes] (replicate (length nodes) 0) of
                         Some index \<Rightarrow> Some (failed_topology rc_cycle (nd_binding_id (nodes ! index)))
                       | None \<Rightarrow>
                           (case all_depths nodes [0..<length nodes] (replicate (length nodes) 0) of
                              None \<Rightarrow> None
                            | Some depths \<Rightarrow>
                                Some \<lparr>ptr_nodes = sort_key (\<lambda>n. (depths ! find_node nodes (nd_binding_id n),
                                         nd_binding_id n)) nodes,
                                      ptr_entities = [], ptr_failure = no_failure\<rparr>))))"

declare build_path.simps [simp del] visit.simps [simp del]

subsection \<open>Parent chains\<close>

text \<open>The number of steps from a node to its root; a node on a cycle has none.\<close>

inductive depth_is :: "(nat \<Rightarrow> nat option) \<Rightarrow> nat \<Rightarrow> nat \<Rightarrow> bool" for par where
  depth_root: "par i = None \<Longrightarrow> depth_is par i 0"
| depth_step: "par i = Some p \<Longrightarrow> depth_is par p d \<Longrightarrow> depth_is par i (Suc d)"

inductive_simps depth_is_unfold: "depth_is par i d"

inductive chain :: "(nat \<Rightarrow> nat option) \<Rightarrow> nat \<Rightarrow> nat \<Rightarrow> bool" for par where
  chain_refl: "chain par i i"
| chain_step: "par i = Some p \<Longrightarrow> chain par p j \<Longrightarrow> chain par i j"

lemma depth_is_unique: "depth_is par i d \<Longrightarrow> depth_is par i d' \<Longrightarrow> d = d'"
proof (induction arbitrary: d' rule: depth_is.induct)
  case (depth_root i)
  from depth_root.prems depth_root.hyps show ?case by (auto simp: depth_is_unfold [of par i])
next
  case (depth_step i p d)
  from depth_step.prems depth_step.hyps obtain e where "d' = Suc e" "depth_is par p e"
    by (auto simp: depth_is_unfold [of par i])
  with depth_step.IH show ?case by simp
qed

lemma chain_depth: "chain par i j \<Longrightarrow> depth_is par i d \<Longrightarrow> \<exists>e \<le> d. depth_is par j e"
proof (induction arbitrary: d rule: chain.induct)
  case (chain_step i p j)
  from chain_step.prems chain_step.hyps(1) obtain e where "d = Suc e" "depth_is par p e"
    by (auto simp: depth_is_unfold [of par i])
  with chain_step.IH [of e] show ?case by (auto intro: le_SucI)
qed auto

lemma no_way_back: "par i = Some p \<Longrightarrow> depth_is par i d \<Longrightarrow> \<not> chain par p i"
proof
  assume par: "par i = Some p" and d: "depth_is par i d" and "chain par p i"
  from par d obtain e where e: "d = Suc e" "depth_is par p e" by (auto simp: depth_is_unfold [of par i])
  from chain_depth [OF \<open>chain par p i\<close> e(2)] obtain f where "f \<le> e" "depth_is par i f" by blast
  with depth_is_unique [OF d, of f] e(1) show False by simp
qed

text \<open>Visit states: a node that is done has a depth; the nodes on the way are tracked exactly.\<close>

definition states_ok :: "u8 list \<Rightarrow> bool" where
  "states_ok vs \<longleftrightarrow> set vs \<subseteq> {0, 1, 2}"

definition done_ok :: "(nat \<Rightarrow> nat option) \<Rightarrow> u8 list \<Rightarrow> bool" where
  "done_ok par vs \<longleftrightarrow> (\<forall>j < length vs. vs ! j = 2 \<longrightarrow> (\<exists>d. depth_is par j d))"

definition off_chain :: "(nat \<Rightarrow> nat option) \<Rightarrow> nat \<Rightarrow> u8 list \<Rightarrow> bool" where
  "off_chain par i vs \<longleftrightarrow> (\<forall>j < length vs. vs ! j = 1 \<longrightarrow> \<not> chain par i j)"

lemma done_ok_done:
  assumes "done_ok par vs" and "depth_is par i d"
  shows "done_ok par (vs[i := 2])"
  unfolding done_ok_def
proof (intro allI impI)
  fix j assume "j < length (vs[i := 2])" "vs[i := 2] ! j = 2"
  with assms show "\<exists>d. depth_is par j d"
    by (cases "j = i") (auto simp: done_ok_def)
qed

lemma done_ok_on_the_way:
  assumes "done_ok par vs"
  shows "done_ok par (vs[i := 1])"
  unfolding done_ok_def
proof (intro allI impI)
  fix j assume "j < length (vs[i := 1])" "vs[i := 1] ! j = 2"
  with assms show "\<exists>d. depth_is par j d"
    by (cases "j = i") (auto simp: done_ok_def)
qed

lemma states_ok_upd: "states_ok vs \<Longrightarrow> s \<in> {0, 1, 2} \<Longrightarrow> states_ok (vs[i := s])"
  by (auto simp: states_ok_def dest!: set_update_subset_insert [THEN subsetD])

lemma states_ok_cases: "states_ok vs \<Longrightarrow> i < length vs \<Longrightarrow> vs ! i = 0 \<or> vs ! i = 1 \<or> vs ! i = 2"
  using nth_mem [of i vs] by (auto simp: states_ok_def dest!: subsetD)

lemma off_chain_parent:
  assumes "off_chain par i vs" and "par i = Some p" and "depth_is par i d"
  shows "off_chain par p (vs[i := 1])"
  unfolding off_chain_def
proof (intro allI impI)
  fix j assume j: "j < length (vs[i := 1])" "vs[i := 1] ! j = 1"
  show "\<not> chain par p j"
  proof (cases "j = i")
    case True
    with no_way_back [OF assms(2,3)] show ?thesis by simp
  next
    case False
    with j assms(1) have "\<not> chain par i j" by (simp add: off_chain_def)
    with chain_step [of par i p j] assms(2) show ?thesis by blast
  qed
qed

subsection \<open>The cycle check finds exactly the nodes without a root\<close>

definition parent_index :: "'x node_descriptor list \<Rightarrow> nat \<Rightarrow> nat option" where
  "parent_index nodes i =
     (if nd_parent_binding_id (nodes ! i) = [] then None
      else Some (find_node nodes (nd_parent_binding_id (nodes ! i))))"

definition parents_inside :: "'x node_descriptor list \<Rightarrow> bool" where
  "parents_inside nodes \<longleftrightarrow> (\<forall>i < length nodes. \<forall>p. parent_index nodes i = Some p \<longrightarrow> p < length nodes)"

lemma visit_new:
  assumes "i < length vs" and "vs ! i = 0"
  shows "visit nodes i vs =
    (case parent_index nodes i of
       None \<Rightarrow> (True, vs[i := 2])
     | Some p \<Rightarrow> (case visit nodes p (vs[i := 1]) of (ok, vs') \<Rightarrow> (ok, vs'[i := 2])))"
  using assms by (subst visit.simps) (simp add: parent_index_def)

lemma visit_old: "vs ! i \<noteq> 0 \<Longrightarrow> visit nodes i vs = (vs ! i \<noteq> 1, vs)"
  by (subst visit.simps) simp

lemma zero_states_decrease:
  assumes "i < length vs" and "vs ! i = (0 :: u8)"
  shows "length (filter (\<lambda>x. x = 0) (vs[i := 1])) < length (filter (\<lambda>x. x = 0) vs)"
  using assms by (subst (2) id_take_nth_drop [of i vs]) (auto simp: upd_conv_take_nth_drop)

lemma visit_spec:
  assumes inside: "parents_inside nodes" and "length vs = length nodes" and "i < length nodes"
    and "states_ok vs" and "done_ok (parent_index nodes) vs" and "visit nodes i vs = (ok, vs')"
  shows "length vs' = length nodes \<and> states_ok vs' \<and>
    (\<forall>j < length nodes. vs' ! j = 1 \<longleftrightarrow> vs ! j = 1) \<and>
    (ok \<longrightarrow> (\<exists>d. depth_is (parent_index nodes) i d) \<and> done_ok (parent_index nodes) vs') \<and>
    ((\<exists>d. depth_is (parent_index nodes) i d) \<and> off_chain (parent_index nodes) i vs \<longrightarrow> ok)"
  using assms(2-)
proof (induction "length (filter (\<lambda>x. x = 0) vs)" arbitrary: i vs ok vs' rule: less_induct)
  case less
  let ?par = "parent_index nodes"
  note len = less.prems(1) and i = less.prems(2) and st = less.prems(3) and dn = less.prems(4)
  show ?case
  proof (cases "vs ! i = 0")
    case new: True
    show ?thesis
    proof (cases "?par i")
      case None
      then have d: "depth_is ?par i 0" by (rule depth_root)
      have eq: "ok" "vs' = vs[i := 2]" using None new i len visit_new [of i vs nodes] less.prems(5) by auto
      have "vs[i := 2] ! j = 1 \<longleftrightarrow> vs ! j = 1" for j
        using new i len by (cases "j = i") (auto simp: nth_list_update)
      moreover have "done_ok ?par (vs[i := 2])" using dn d by (rule done_ok_done)
      ultimately show ?thesis using d st len by (auto simp: eq states_ok_upd)
    next
      case (Some p)
      then have p: "p < length nodes" using inside i by (auto simp: parents_inside_def)
      obtain vs1 where rec: "visit nodes p (vs[i := 1]) = (ok, vs1)" "vs' = vs1[i := 2]"
        using visit_new [of i vs nodes] new i len Some less.prems(5) by (auto split: prod.splits)
      have dn1: "done_ok ?par (vs[i := 1])" using dn by (rule done_ok_on_the_way)
      have IH: "length vs1 = length nodes" "states_ok vs1"
        "\<And>j. j < length nodes \<Longrightarrow> vs1 ! j = 1 \<longleftrightarrow> vs[i := 1] ! j = 1"
        "ok \<Longrightarrow> (\<exists>d. depth_is ?par p d) \<and> done_ok ?par vs1"
        "\<exists>d. depth_is ?par p d \<Longrightarrow> off_chain ?par p (vs[i := 1]) \<Longrightarrow> ok"
        using less.hyps [OF zero_states_decrease _ p _ dn1 rec(1)] new i len st by (auto simp: states_ok_upd)
      have up: "\<exists>d. depth_is ?par i d" if "ok" using IH(4) [OF that] Some by (blast intro: depth_step)
      have "done_ok ?par vs'" if "ok"
        using IH(4) [OF that] up [OF that] by (auto simp: rec(2) intro: done_ok_done)
      moreover have "vs' ! j = 1 \<longleftrightarrow> vs ! j = 1" if "j < length nodes" for j
        using IH(1,3) that new i len by (auto simp: rec(2) nth_list_update)
      moreover have "ok" if "depth_is ?par i d" "off_chain ?par i vs" for d
      proof -
        from that(1) Some obtain e where "depth_is ?par p e" by (auto simp: depth_is_unfold [of ?par i])
        with IH(5) off_chain_parent [OF that(2) Some that(1)] show ?thesis by blast
      qed
      ultimately show ?thesis using IH(1,2) up by (auto simp: rec(2) states_ok_upd)
    qed
  next
    case False
    then have eq: "ok = (vs ! i \<noteq> 1)" "vs' = vs" using visit_old [of vs i nodes] less.prems(5) by auto
    have "ok \<Longrightarrow> \<exists>d. depth_is ?par i d"
      using states_ok_cases [OF st, of i] False dn i len by (auto simp: eq done_ok_def)
    moreover have "off_chain ?par i vs \<Longrightarrow> ok" using i len chain_refl [of ?par i] by (auto simp: eq off_chain_def)
    ultimately show ?thesis using len st dn by (auto simp: eq)
  qed
qed

lemma find_cyclic_spec:
  assumes "parents_inside nodes" and "length vs = length nodes" and "set idxs \<subseteq> {..< length nodes}"
    and "states_ok vs" and "done_ok (parent_index nodes) vs" and "\<forall>j < length nodes. vs ! j \<noteq> 1"
  shows "case find_cyclic nodes idxs vs of
      None \<Rightarrow> \<forall>i \<in> set idxs. \<exists>d. depth_is (parent_index nodes) i d
    | Some i \<Rightarrow> i \<in> set idxs \<and> (\<nexists>d. depth_is (parent_index nodes) i d)"
  using assms(2-)
proof (induction idxs arbitrary: vs)
  case (Cons i idxs)
  obtain ok vs' where v: "visit nodes i vs = (ok, vs')" by fastforce
  have i: "i < length nodes" using Cons.prems by simp
  have off: "off_chain (parent_index nodes) i vs" using Cons.prems(1,5) by (simp add: off_chain_def)
  have s: "length vs' = length nodes" "states_ok vs'" "\<forall>j < length nodes. vs' ! j \<noteq> 1"
    "ok \<Longrightarrow> done_ok (parent_index nodes) vs'" "ok \<longleftrightarrow> (\<exists>d. depth_is (parent_index nodes) i d)"
    using visit_spec [OF assms(1) Cons.prems(1) i Cons.prems(3,4) v] off Cons.prems(5) by auto
  show ?case
  proof (cases ok)
    case True
    have "case find_cyclic nodes idxs vs' of
        None \<Rightarrow> \<forall>i \<in> set idxs. \<exists>d. depth_is (parent_index nodes) i d
      | Some i \<Rightarrow> i \<in> set idxs \<and> (\<nexists>d. depth_is (parent_index nodes) i d)"
      using Cons.IH [OF s(1) _ s(2) s(4) [OF True] s(3)] Cons.prems(2) by simp
    with True v s(5) show ?thesis by (auto split: option.splits)
  next
    case False
    with v s(5) show ?thesis by simp
  qed
qed simp

subsection \<open>The depth recursion returns the depth\<close>

definition depths_ok :: "(nat \<Rightarrow> nat option) \<Rightarrow> nat list \<Rightarrow> bool" where
  "depths_ok par depths \<longleftrightarrow> (\<forall>j < length depths. depths ! j \<noteq> 0 \<longrightarrow> depth_is par j (depths ! j))"

definition grows :: "nat list \<Rightarrow> nat list \<Rightarrow> bool" where
  "grows ds ds' \<longleftrightarrow> length ds' = length ds \<and> (\<forall>j < length ds. ds ! j \<noteq> 0 \<longrightarrow> ds' ! j = ds ! j)"

lemma grows_trans: "grows ds ds' \<Longrightarrow> grows ds' ds'' \<Longrightarrow> grows ds ds''"
  by (auto simp: grows_def)

lemma depth_from_spec:
  assumes inside: "parents_inside nodes" and "depth_is (parent_index nodes) i d"
    and "i < length nodes" and "length ds = length nodes" and "depths_ok (parent_index nodes) ds"
  shows "\<exists>ds'. depth_from nodes i ds = Some (d, ds') \<and> depths_ok (parent_index nodes) ds' \<and>
    grows ds ds' \<and> ds' ! i = d"
  using assms(2-)
proof (induction arbitrary: ds rule: depth_is.induct)
  case (depth_root i)
  then have d: "ds ! i = 0"
    using depth_is_unique [OF depth_is.depth_root [of "parent_index nodes" i], of "ds ! i"]
    by (auto simp: depths_ok_def)
  have "nd_parent_binding_id (nodes ! i) = []" using depth_root.hyps by (simp add: parent_index_def split: if_splits)
  with d depth_root.prems show ?case by (subst depth_from.simps) (simp add: grows_def)
next
  case (depth_step i p d)
  have di: "depth_is (parent_index nodes) i (Suc d)" by (rule depth_is.depth_step [OF depth_step.hyps])
  have p: "p < length nodes" "nd_parent_binding_id (nodes ! i) \<noteq> []"
    "find_node nodes (nd_parent_binding_id (nodes ! i)) = p"
    using inside depth_step.hyps(1) depth_step.prems(1)
    by (auto simp: parents_inside_def parent_index_def split: if_splits)
  show ?case
  proof (cases "ds ! i = 0")
    case True
    obtain ds' where r: "depth_from nodes p ds = Some (d, ds')" "depths_ok (parent_index nodes) ds'" "grows ds ds'"
      using depth_step.IH [OF p(1) depth_step.prems(2,3)] by blast
    have "depth_from nodes i ds = Some (Suc d, ds'[i := Suc d])"
      using True p r by (subst depth_from.simps) simp
    moreover have "depths_ok (parent_index nodes) (ds'[i := Suc d])"
      unfolding depths_ok_def
    proof (intro allI impI)
      fix j assume "j < length (ds'[i := Suc d])" "ds'[i := Suc d] ! j \<noteq> 0"
      with r(2) di show "depth_is (parent_index nodes) j (ds'[i := Suc d] ! j)"
        by (cases "j = i") (auto simp: depths_ok_def)
    qed
    moreover have "grows ds (ds'[i := Suc d])"
      unfolding grows_def
    proof (intro conjI allI impI)
      fix j assume "j < length ds" "ds ! j \<noteq> 0"
      with r(3) True show "ds'[i := Suc d] ! j = ds ! j" by (cases "j = i") (auto simp: grows_def)
    qed (use r(3) in \<open>simp add: grows_def\<close>)
    ultimately show ?thesis using r(3) depth_step.prems by (auto simp: grows_def)
  next
    case False
    then have "ds ! i = Suc d"
      using depth_step.prems depth_is_unique [OF di, of "ds ! i"] by (auto simp: depths_ok_def)
    with False depth_step.prems show ?thesis by (subst depth_from.simps) (simp add: grows_def)
  qed
qed

lemma all_depths_spec:
  assumes inside: "parents_inside nodes" and "length ds = length nodes" and "depths_ok (parent_index nodes) ds"
    and "set idxs \<subseteq> {..< length nodes}" and "\<forall>i \<in> set idxs. \<exists>d. depth_is (parent_index nodes) i d"
  shows "\<exists>ds'. all_depths nodes idxs ds = Some ds' \<and> depths_ok (parent_index nodes) ds' \<and> grows ds ds' \<and>
    (\<forall>i \<in> set idxs. depth_is (parent_index nodes) i (ds' ! i))"
  using assms(2-)
proof (induction idxs arbitrary: ds)
  case Nil
  then show ?case by (simp add: grows_def)
next
  case (Cons i idxs)
  then obtain d where d: "depth_is (parent_index nodes) i d" by auto
  have i: "i < length nodes" using Cons.prems by simp
  obtain ds1 where r: "depth_from nodes i ds = Some (d, ds1)" "depths_ok (parent_index nodes) ds1" "grows ds ds1" "ds1 ! i = d"
    using depth_from_spec [OF inside d i Cons.prems(1,2)] by blast
  have len: "length ds1 = length nodes" using r(3) Cons.prems(1) by (simp add: grows_def)
  obtain ds2 where s: "all_depths nodes idxs ds1 = Some ds2" "depths_ok (parent_index nodes) ds2" "grows ds1 ds2"
    "\<forall>i \<in> set idxs. depth_is (parent_index nodes) i (ds2 ! i)"
    using Cons.IH [OF len r(2)] Cons.prems(3,4) by auto
  have "depth_is (parent_index nodes) i (ds2 ! i)"
  proof (cases "ds2 ! i = 0")
    case True
    have "d = 0" using s(3) r(4) True i len by (auto simp: grows_def)
    with d True show ?thesis by simp
  next
    case False
    with s(2,3) len i show ?thesis by (simp add: depths_ok_def grows_def)
  qed
  with r s grows_trans [OF r(3) s(3)] show ?case by simp
qed

subsection \<open>Looking nodes up in the sorted list\<close>

lemma adjacent_find_None:
  fixes key :: "'b \<Rightarrow> 'k::linorder"
  assumes "sorted (map key xs)"
  shows "adjacent_find key xs = None \<longleftrightarrow> distinct (map key xs)"
  using assms
proof (induction key xs rule: adjacent_find.induct)
  case (1 key x y zs)
  then show ?case by (auto simp: antisym)
qed auto

lemma adjacent_find_Some:
  "adjacent_find key xs = Some x \<Longrightarrow> x \<in> set xs \<and> \<not> distinct (map key xs)"
  by (induction key xs rule: adjacent_find.induct) (auto split: if_splits)

lemma find_node_nth:
  assumes "sorted (map nd_binding_id nodes)" and "distinct (map nd_binding_id nodes)" and "i < length nodes"
  shows "find_node nodes (nd_binding_id (nodes ! i)) = i"
proof -
  let ?id = "nd_binding_id (nodes ! i)"
  have "sorted_wrt (<) (map nd_binding_id nodes)" using assms(1,2) by (simp add: strict_sorted_iff)
  then have lt: "nd_binding_id (nodes ! j) < nd_binding_id (nodes ! k)" if "j < k" "k < length nodes" for j k
    using that sorted_wrt_nth_less [of "(<)" "map nd_binding_id nodes" j k] by simp
  have "takeWhile (\<lambda>n. nd_binding_id n < ?id) nodes = take i nodes"
    by (rule takeWhile_eq_take_P_nth) (use lt assms(3) in auto)
  then show ?thesis using assms(3) by (simp add: find_node_def)
qed

lemma is_dangling_iff:
  assumes "sorted (map nd_binding_id nodes)" and "distinct (map nd_binding_id nodes)"
  shows "is_dangling nodes n \<longleftrightarrow>
    nd_parent_binding_id n \<noteq> [] \<and> nd_parent_binding_id n \<notin> nd_binding_id ` set nodes"
proof (cases "nd_parent_binding_id n \<in> nd_binding_id ` set nodes")
  case True
  then obtain i where "i < length nodes" "nd_parent_binding_id n = nd_binding_id (nodes ! i)"
    by (auto simp: in_set_conv_nth)
  with find_node_nth [OF assms] True show ?thesis by (auto simp: is_dangling_def)
next
  case False
  have "find_node nodes b \<le> length nodes" for b by (simp add: find_node_def length_takeWhile_le)
  with False show ?thesis
    by (auto simp: is_dangling_def Let_def le_less image_iff) (metis nth_mem)
qed

lemma parent_index_Some:
  assumes "sorted (map nd_binding_id nodes)" and "distinct (map nd_binding_id nodes)"
    and "parent_index nodes i = Some p" and "nd_parent_binding_id (nodes ! i) \<in> nd_binding_id ` set nodes"
  shows "p < length nodes" and "nd_binding_id (nodes ! p) = nd_parent_binding_id (nodes ! i)"
proof -
  obtain k where k: "k < length nodes" "nd_parent_binding_id (nodes ! i) = nd_binding_id (nodes ! k)"
    using assms(4) by (auto simp: in_set_conv_nth)
  then have "p = k" using assms(3) find_node_nth [OF assms(1,2) k(1)] by (auto simp: parent_index_def split: if_splits)
  with k show "p < length nodes" and "nd_binding_id (nodes ! p) = nd_parent_binding_id (nodes ! i)" by auto
qed


subsection \<open>Validation\<close>

text \<open>
  The depth of a node by the names its descriptors use: the number of parents above it. A node
  whose chain of parent names leaves the list, or never ends, has none.
\<close>

inductive named_depth :: "'x node_descriptor list \<Rightarrow> name \<Rightarrow> nat \<Rightarrow> bool" for nodes where
  named_root: "n \<in> set nodes \<Longrightarrow> nd_parent_binding_id n = [] \<Longrightarrow> named_depth nodes (nd_binding_id n) 0"
| named_child: "n \<in> set nodes \<Longrightarrow> nd_parent_binding_id n \<noteq> [] \<Longrightarrow>
    named_depth nodes (nd_parent_binding_id n) d \<Longrightarrow> named_depth nodes (nd_binding_id n) (Suc d)"

lemma named_depth_cong: "set nodes = set nodes' \<Longrightarrow> named_depth nodes b d \<Longrightarrow> named_depth nodes' b d"
  by (rotate_tac 1, induction rule: named_depth.induct) (auto intro: named_depth.intros)

lemma named_depth_set: "set nodes = set nodes' \<Longrightarrow> named_depth nodes b d \<longleftrightarrow> named_depth nodes' b d"
  using named_depth_cong [of nodes nodes'] named_depth_cong [of nodes' nodes] by auto

lemma named_depth_member: "named_depth nodes b d \<Longrightarrow> b \<in> nd_binding_id ` set nodes"
  by (induction rule: named_depth.induct) auto

lemma named_depth_parent:
  assumes "named_depth nodes (nd_binding_id n) d" and "n \<in> set nodes" and "distinct (map nd_binding_id nodes)"
  shows "nd_parent_binding_id n = [] \<and> d = 0 \<or>
    (\<exists>e. d = Suc e \<and> nd_parent_binding_id n \<noteq> [] \<and> named_depth nodes (nd_parent_binding_id n) e)"
  using assms(1)
proof cases
  case (named_root m)
  with assms(2,3) have "m = n" by (auto simp: distinct_map inj_on_def)
  with named_root show ?thesis by simp
next
  case (named_child m e)
  with assms(2,3) have "m = n" by (auto simp: distinct_map inj_on_def)
  with named_child show ?thesis by simp
qed

lemma named_depth_index:
  assumes "sorted (map nd_binding_id nodes)" and "distinct (map nd_binding_id nodes)"
    and "\<forall>n \<in> set nodes. nd_parent_binding_id n \<noteq> [] \<longrightarrow> nd_parent_binding_id n \<in> nd_binding_id ` set nodes"
    and "i < length nodes" and "depth_is (parent_index nodes) i d"
  shows "named_depth nodes (nd_binding_id (nodes ! i)) d"
  using assms(5,4)
proof (induction rule: depth_is.induct)
  case (depth_root i)
  then show ?case by (auto simp: parent_index_def split: if_splits intro!: named_root)
next
  case (depth_step i p d)
  have ne: "nd_parent_binding_id (nodes ! i) \<noteq> []"
    using depth_step.hyps by (simp add: parent_index_def split: if_splits)
  with assms(3) depth_step.prems have mem: "nd_parent_binding_id (nodes ! i) \<in> nd_binding_id ` set nodes" by auto
  note p = parent_index_Some [OF assms(1,2) depth_step.hyps(1) mem]
  show ?case using depth_step.IH [OF p(1)] ne depth_step.prems by (auto simp: p(2) intro!: named_child)
qed

lemma index_named_depth:
  assumes "sorted (map nd_binding_id nodes)" and "distinct (map nd_binding_id nodes)"
    and "named_depth nodes b d" and "i < length nodes" and "nd_binding_id (nodes ! i) = b"
  shows "depth_is (parent_index nodes) i d"
  using assms(3-)
proof (induction arbitrary: i rule: named_depth.induct)
  case (named_root n)
  then have "nodes ! i = n" using assms(2) by (auto simp: distinct_map inj_on_def)
  with named_root show ?case by (auto simp: parent_index_def intro: depth_root)
next
  case (named_child n d)
  then have n: "nodes ! i = n" using assms(2) by (auto simp: distinct_map inj_on_def)
  have "nd_parent_binding_id n \<in> nd_binding_id ` set nodes" using named_child.hyps by (rule_tac named_depth_member)
  then obtain p where p: "p < length nodes" "nd_binding_id (nodes ! p) = nd_parent_binding_id n"
    by (auto simp: in_set_conv_nth)
  then have "parent_index nodes i = Some p"
    using find_node_nth [OF assms(1,2) p(1)] named_child.hyps n by (simp add: parent_index_def)
  with named_child.IH [OF p] show ?case by (rule_tac depth_step)
qed

text \<open>What a normalized topology demands of its descriptors.\<close>

definition valid_topology :: "('x \<Rightarrow> bool) \<Rightarrow> 'x node_descriptor list \<Rightarrow> bool" where
  "valid_topology is_finite nodes \<longleftrightarrow>
     nodes \<noteq> [] \<and> (\<forall>n \<in> set nodes. nd_binding_id n \<noteq> [] \<and> is_finite (nd_initial_local n)) \<and>
     distinct (map nd_binding_id nodes) \<and> (\<forall>n \<in> set nodes. \<exists>d. named_depth nodes (nd_binding_id n) d)"

definition normalized_from :: "'x node_descriptor list \<Rightarrow> 'x node_descriptor list \<Rightarrow> bool" where
  "normalized_from nodes out \<longleftrightarrow>
     mset out = mset nodes \<and>
     (\<exists>depth. (\<forall>n \<in> set nodes. named_depth nodes (nd_binding_id n) (depth n)) \<and>
       sorted (map (\<lambda>n. (depth n, nd_binding_id n)) out))"

lemma distinct_map_sort_key [simp]: "distinct (map g (sort_key f xs)) = distinct (map g xs)"
  by (rule mset_eq_imp_distinct_iff) (simp add: mset_map)

lemma find_cong_set: "find P xs = None \<longleftrightarrow> (\<forall>x \<in> set xs. \<not> P x)"
  by (auto simp: find_None_iff)

lemma acyclic_tail:
  fixes nodes :: "'x node_descriptor list"
  defines "S \<equiv> sort_key nd_binding_id nodes"
  assumes "distinct (map nd_binding_id nodes)"
    and "\<forall>n \<in> set nodes. nd_parent_binding_id n \<noteq> [] \<longrightarrow> nd_parent_binding_id n \<in> nd_binding_id ` set nodes"
  shows "case find_cyclic S [0..<length S] (replicate (length S) 0) of
      Some i \<Rightarrow> i < length S \<and> (\<nexists>d. named_depth nodes (nd_binding_id (S ! i)) d)
    | None \<Rightarrow> (\<forall>n \<in> set nodes. \<exists>d. named_depth nodes (nd_binding_id n) d) \<and>
        (\<exists>ds. all_depths S [0..<length S] (replicate (length S) 0) = Some ds \<and>
          (\<forall>n \<in> set nodes. named_depth nodes (nd_binding_id n) (ds ! find_node S (nd_binding_id n))))"
proof -
  have sorted: "sorted (map nd_binding_id S)" by (simp add: S_def)
  have dist: "distinct (map nd_binding_id S)" using assms(2) by (simp add: S_def)
  have set: "set S = set nodes" by (simp add: S_def)
  have par: "\<forall>n \<in> set S. nd_parent_binding_id n \<noteq> [] \<longrightarrow> nd_parent_binding_id n \<in> nd_binding_id ` set S"
    using assms(3) by (simp add: set)
  have depth: "depth_is (parent_index S) i d \<longleftrightarrow> named_depth nodes (nd_binding_id (S ! i)) d" if "i < length S" for i d
    using named_depth_index [OF sorted dist par that] index_named_depth [OF sorted dist _ that refl]
      named_depth_set [OF set] by blast
  have inside: "parents_inside S" unfolding parents_inside_def
  proof (intro allI impI)
    fix i p assume i: "i < length S" and p: "parent_index S i = Some p"
    then have "nd_parent_binding_id (S ! i) \<noteq> []" by (auto simp: parent_index_def)
    with par i have "nd_parent_binding_id (S ! i) \<in> nd_binding_id ` set S" by auto
    with parent_index_Some(1) [OF sorted dist p] show "p < length S" by blast
  qed
  have "set [0..<length S] \<subseteq> {..< length S}" "states_ok (replicate (length S) 0)"
    "done_ok (parent_index S) (replicate (length S) 0)"
    by (auto simp: states_ok_def done_ok_def)
  then have cyc: "case find_cyclic S [0..<length S] (replicate (length S) 0) of
      None \<Rightarrow> \<forall>i < length S. \<exists>d. depth_is (parent_index S) i d
    | Some i \<Rightarrow> i < length S \<and> (\<nexists>d. depth_is (parent_index S) i d)"
    using find_cyclic_spec [OF inside, of "replicate (length S) 0" "[0..<length S]"]
    by (simp add: Ball_def split: option.splits)
  show ?thesis
  proof (cases "find_cyclic S [0..<length S] (replicate (length S) 0)")
    case (Some i)
    with cyc have "i < length S" "\<nexists>d. depth_is (parent_index S) i d"
      by simp_all
    with Some depth show ?thesis by simp
  next
    case None
    with cyc have all: "\<forall>i < length S. \<exists>d. depth_is (parent_index S) i d"
      by simp
    then obtain ds where ds: "all_depths S [0..<length S] (replicate (length S) 0) = Some ds"
      "\<forall>i < length S. depth_is (parent_index S) i (ds ! i)"
      using all_depths_spec [OF inside, of "replicate (length S) 0" "[0..<length S]"]
      by (fastforce simp: depths_ok_def lessThan_atLeast0)
    have "named_depth nodes (nd_binding_id n) (ds ! find_node S (nd_binding_id n))" if "n \<in> set nodes" for n
    proof -
      from that set obtain i where i: "i < length S" "S ! i = n" by (metis in_set_conv_nth)
      with ds(2) depth have "named_depth nodes (nd_binding_id n) (ds ! i)" by blast
      with find_node_nth [OF sorted dist i(1)] i(2) show ?thesis by simp
    qed
    with None ds(1) show ?thesis by auto
  qed
qed

text \<open>The diagnosis each failure code carries, with the node it names.\<close>

definition diagnosis_holds :: "('x \<Rightarrow> bool) \<Rightarrow> 'x node_descriptor list \<Rightarrow> scene_polytree_failure \<Rightarrow> bool" where
  "diagnosis_holds is_finite nodes f \<longleftrightarrow>
     f_code f = rc_empty_prefab_hierarchy \<and> nodes = [] \<or>
     f_code f = rc_invalid_binding \<and> (\<exists>n \<in> set nodes. nd_binding_id n = []) \<or>
     f_code f = rc_invalid_transform \<and> (\<exists>n \<in> set nodes. nd_binding_id n = f_node_id f \<and> \<not> is_finite (nd_initial_local n)) \<or>
     f_code f = rc_duplicate_binding_id \<and> f_node_id f \<in> nd_binding_id ` set nodes \<and> \<not> distinct (map nd_binding_id nodes) \<or>
     f_code f = rc_dangling_parent \<and> (\<exists>n \<in> set nodes. nd_binding_id n = f_node_id f \<and>
       nd_parent_binding_id n \<noteq> [] \<and> nd_parent_binding_id n \<notin> nd_binding_id ` set nodes) \<or>
     f_code f = rc_cycle \<and> f_node_id f \<in> nd_binding_id ` set nodes \<and> (\<nexists>d. named_depth nodes (f_node_id f) d)"

lemma validate_cases:
  "\<exists>r. validate_and_normalize is_finite nodes = Some r \<and>
     (if valid_topology is_finite nodes
      then ptr_failure r = no_failure \<and> ptr_entities r = [] \<and> normalized_from nodes (ptr_nodes r)
      else diagnosis_holds is_finite nodes (ptr_failure r) \<and> ptr_nodes r = [])"
proof -
  let ?S = "sort_key nd_binding_id nodes"
  let ?bad = "\<lambda>n. nd_binding_id n = [] \<or> \<not> is_finite (nd_initial_local n)"
  show ?thesis
  proof (cases "nodes = []")
    case True
    then show ?thesis
      by (simp add: validate_and_normalize_def valid_topology_def diagnosis_holds_def failed_topology_def failure_of_def)
  next
    case ne: False
    show ?thesis
    proof (cases "find ?bad nodes")
      case (Some n)
      then have n: "n \<in> set nodes" "?bad n" using find_Some_mem [of ?bad nodes n] by auto
      then have "\<not> valid_topology is_finite nodes" by (auto simp: valid_topology_def)
      moreover have "diagnosis_holds is_finite nodes (failure_of
          (if nd_binding_id n = [] then rc_invalid_binding else rc_invalid_transform) (nd_binding_id n))"
        using n by (auto simp: diagnosis_holds_def failure_of_def)
      ultimately show ?thesis using ne Some by (simp add: validate_and_normalize_def failed_topology_def)
    next
      case good: None
      then have each: "\<forall>n \<in> set nodes. nd_binding_id n \<noteq> [] \<and> is_finite (nd_initial_local n)"
        by (simp add: find_cong_set)
      show ?thesis
      proof (cases "adjacent_find nd_binding_id ?S")
        case (Some n)
        then have n: "n \<in> set nodes" "\<not> distinct (map nd_binding_id nodes)"
          using adjacent_find_Some [OF Some] by auto
        then have "\<not> valid_topology is_finite nodes" by (auto simp: valid_topology_def)
        moreover have "diagnosis_holds is_finite nodes (failure_of rc_duplicate_binding_id (nd_binding_id n))"
          using n by (auto simp: diagnosis_holds_def failure_of_def)
        ultimately show ?thesis using ne good Some
          by (simp add: validate_and_normalize_def failed_topology_def)
      next
        case dup: None
        then have dist: "distinct (map nd_binding_id nodes)"
          using adjacent_find_None [of nd_binding_id ?S] by simp
        then have dangling: "is_dangling ?S n \<longleftrightarrow>
            nd_parent_binding_id n \<noteq> [] \<and> nd_parent_binding_id n \<notin> nd_binding_id ` set nodes" for n
          using is_dangling_iff [of ?S n] by simp
        show ?thesis
        proof (cases "find (is_dangling ?S) ?S")
          case (Some n)
          then have n: "n \<in> set nodes" "is_dangling ?S n" using find_Some_mem [OF Some] by auto
          have "\<not> named_depth nodes (nd_binding_id n) d" for d
            using named_depth_parent [OF _ n(1) dist, of d] named_depth_member n(2) dangling [of n] by metis
          then have "\<not> valid_topology is_finite nodes" using n(1) by (auto simp: valid_topology_def)
          moreover have "diagnosis_holds is_finite nodes (failure_of rc_dangling_parent (nd_binding_id n))"
            using n dangling [of n] by (auto simp: diagnosis_holds_def failure_of_def)
          ultimately show ?thesis using ne good dup Some
            by (simp add: validate_and_normalize_def failed_topology_def)
        next
          case closed: None
          then have "\<forall>n \<in> set nodes. nd_parent_binding_id n \<noteq> [] \<longrightarrow> nd_parent_binding_id n \<in> nd_binding_id ` set nodes"
            unfolding find_cong_set dangling set_sort by blast
          note tail = acyclic_tail [OF dist this]
          show ?thesis
          proof (cases "find_cyclic ?S [0..<length ?S] (replicate (length ?S) 0)")
            case (Some i)
            then have i: "?S ! i \<in> set nodes" "\<nexists>d. named_depth nodes (nd_binding_id (?S ! i)) d"
              using tail nth_mem [of i ?S] by auto
            then have "\<not> valid_topology is_finite nodes" by (auto simp: valid_topology_def)
            moreover have "diagnosis_holds is_finite nodes (failure_of rc_cycle (nd_binding_id (?S ! i)))"
              using i by (auto simp: diagnosis_holds_def failure_of_def)
            ultimately show ?thesis using ne good dup closed Some
              by (simp add: validate_and_normalize_def failed_topology_def Let_def)
          next
            case acyclic: None
            then obtain ds where ds: "\<forall>n \<in> set nodes. \<exists>d. named_depth nodes (nd_binding_id n) d"
              "all_depths ?S [0..<length ?S] (replicate (length ?S) 0) = Some ds"
              "\<forall>n \<in> set nodes. named_depth nodes (nd_binding_id n) (ds ! find_node ?S (nd_binding_id n))"
              using tail by auto
            let ?key = "\<lambda>n. (ds ! find_node ?S (nd_binding_id n), nd_binding_id n)"
            have "valid_topology is_finite nodes" using ne each dist ds(1) by (simp add: valid_topology_def)
            moreover have "normalized_from nodes (sort_key ?key ?S)"
              unfolding normalized_from_def
              by (intro conjI exI [of _ "\<lambda>n. ds ! find_node ?S (nd_binding_id n)"]) (use ds(3) in auto)
            ultimately show ?thesis using ne good dup closed acyclic ds(2)
              by (simp add: validate_and_normalize_def Let_def)
          qed
        qed
      qed
    qed
  qed
qed

lemma named_depth_unique:
  assumes "distinct (map nd_binding_id nodes)"
  shows "named_depth nodes b d \<Longrightarrow> named_depth nodes b d' \<Longrightarrow> d = d'"
proof (induction arbitrary: d' rule: named_depth.induct)
  case (named_root n)
  then show ?case using named_depth_parent [OF named_root.prems named_root.hyps(1) assms] by auto
next
  case (named_child n d)
  then show ?case using named_depth_parent [OF named_child.prems named_child.hyps(1) assms] by blast
qed

lemma normalized_parents_first:
  assumes "normalized_from nodes out" and "distinct (map nd_binding_id nodes)" and "i < length out"
    and "nd_parent_binding_id (out ! i) \<noteq> []"
  shows "\<exists>j < i. nd_binding_id (out ! j) = nd_parent_binding_id (out ! i)"
proof -
  from assms(1) obtain depth where depth: "\<forall>n \<in> set nodes. named_depth nodes (nd_binding_id n) (depth n)"
    "sorted (map (\<lambda>n. (depth n, nd_binding_id n)) out)" "mset out = mset nodes"
    by (auto simp: normalized_from_def)
  then have set: "set out = set nodes" by (metis set_mset_mset)
  with assms(3) have n: "out ! i \<in> set nodes" using nth_mem by blast
  then obtain e where e: "depth (out ! i) = Suc e" "named_depth nodes (nd_parent_binding_id (out ! i)) e"
    using named_depth_parent [OF _ n assms(2)] depth(1) assms(4) by blast
  then obtain m where m: "m \<in> set nodes" "nd_binding_id m = nd_parent_binding_id (out ! i)"
    using named_depth_member [OF e(2)] by auto
  then obtain j where j: "j < length out" "out ! j = m" using set by (metis in_set_conv_nth)
  have "depth m = e" using named_depth_unique [OF assms(2)] depth(1) m e(2) by metis
  have "j < i"
  proof (rule ccontr)
    assume "\<not> j < i"
    then have "i \<le> j" by simp
    with depth(2) j(1) have "(depth (out ! i), nd_binding_id (out ! i)) \<le> (depth (out ! j), nd_binding_id (out ! j))"
      using sorted_nth_mono [of "map (\<lambda>n. (depth n, nd_binding_id n)) out" i j] by simp
    with \<open>depth m = e\<close> e(1) j(2) show False by (auto simp: less_eq_prod_def)
  qed
  with j m show ?thesis by auto
qed

text \<open>A topology has one normal form.\<close>

lemma normalized_unique:
  assumes dist: "distinct (map nd_binding_id nodes)" and a: "normalized_from nodes a" and b: "normalized_from nodes b"
  shows "a = b"
proof -
  from a obtain da where da: "\<forall>n \<in> set nodes. named_depth nodes (nd_binding_id n) (da n)"
    "sorted (map (\<lambda>n. (da n, nd_binding_id n)) a)" "mset a = mset nodes" by (auto simp: normalized_from_def)
  from b obtain db where db: "\<forall>n \<in> set nodes. named_depth nodes (nd_binding_id n) (db n)"
    "sorted (map (\<lambda>n. (db n, nd_binding_id n)) b)" "mset b = mset nodes" by (auto simp: normalized_from_def)
  have sets: "set a = set nodes" "set b = set nodes" using da(3) db(3) by (metis set_mset_mset)+
  have same: "da n = db n" if "n \<in> set nodes" for n
    using that da(1) db(1) named_depth_unique [OF dist] by blast
  let ?key = "\<lambda>n. (da n, nd_binding_id n)"
  have "map (\<lambda>n. (db n, nd_binding_id n)) b = map ?key b" using same sets(2) by auto
  with db(2) have sb: "sorted (map ?key b)" by simp
  have "inj_on nd_binding_id (set nodes)" using dist by (simp add: distinct_map)
  then have "inj_on ?key (set nodes)" by (auto simp: inj_on_def)
  then have "inj_on ?key (set a)" by (simp add: sets)
  from sort_key_inj_key_eq [OF _ this sb] sort_key_inj_key_eq [OF refl this da(2)] da(3) db(3)
  show ?thesis by simp
qed

subsection \<open>Extraction\<close>

lemma escape_path_segment_empty [simp]: "escape_path_segment name = [] \<longleftrightarrow> name = []"
  by (cases name) (auto simp: escape_path_segment_def escape_char_def)

text \<open>The path of a node: the escaped names from its root, joined by slashes.\<close>

inductive path_is :: "(nat \<Rightarrow> nat option) \<Rightarrow> (nat \<Rightarrow> name) \<Rightarrow> nat \<Rightarrow> nat \<Rightarrow> name \<Rightarrow> bool" for par seg where
  path_root: "par i = None \<Longrightarrow> seg i \<noteq> [] \<Longrightarrow> path_is par seg i 0 (seg i)"
| path_child: "par i = Some p \<Longrightarrow> seg i \<noteq> [] \<Longrightarrow> path_is par seg p d path \<Longrightarrow>
    path_is par seg i (Suc d) (path @ ''/'' @ seg i)"

lemma path_is_depth: "path_is par seg i d path \<Longrightarrow> depth_is par i d"
  by (induction rule: path_is.induct) (auto intro: depth_is.intros)

definition parent_of :: "'x inferred_node list \<Rightarrow> nat \<Rightarrow> nat option" where
  "parent_of ns i = in_parent (ns ! i)"

definition segment_of :: "'x inferred_node list \<Rightarrow> nat \<Rightarrow> name" where
  "segment_of ns i = escape_path_segment (in_name (ns ! i))"

text \<open>Building paths changes depths and paths only.\<close>

definition same_frame :: "'x inferred_node list \<Rightarrow> 'x inferred_node list \<Rightarrow> bool" where
  "same_frame ns ns' \<longleftrightarrow>
     map (\<lambda>n. n\<lparr>in_depth := 0, in_path := []\<rparr>) ns = map (\<lambda>n. n\<lparr>in_depth := 0, in_path := []\<rparr>) ns'"

lemma same_frame_length: "same_frame ns ns' \<Longrightarrow> length ns' = length ns"
  unfolding same_frame_def by (metis length_map)

lemma same_frame_nth:
  assumes "same_frame ns ns'" and "i < length ns"
  shows "in_parent (ns' ! i) = in_parent (ns ! i) \<and> in_name (ns' ! i) = in_name (ns ! i) \<and>
    in_transform (ns' ! i) = in_transform (ns ! i) \<and> in_entity (ns' ! i) = in_entity (ns ! i)"
proof -
  let ?f = "\<lambda>n :: 'a inferred_node. n\<lparr>in_depth := 0, in_path := []\<rparr>"
  have "map ?f ns ! i = map ?f ns' ! i" using assms(1) by (simp add: same_frame_def)
  then have "?f (ns ! i) = ?f (ns' ! i)" using assms same_frame_length [OF assms(1)] by simp
  then show ?thesis by (cases "ns ! i"; cases "ns' ! i") simp
qed

lemma same_frame_set:
  "same_frame ns ns' \<Longrightarrow> same_frame ns (ns'[i := (ns' ! i)\<lparr>in_depth := d, in_path := path\<rparr>])"
  "same_frame ns ns' \<Longrightarrow> same_frame ns (ns'[i := (ns' ! i)\<lparr>in_path := path\<rparr>])"
  unfolding same_frame_def by (simp_all add: map_update) (metis list_update_id map_update)+

definition built :: "'x inferred_node list \<Rightarrow> u8 list \<Rightarrow> 'x inferred_node list \<Rightarrow> bool" where
  "built base vs ns \<longleftrightarrow> same_frame base ns \<and> length vs = length base \<and> states_ok vs \<and>
     (\<forall>j < length base. vs ! j \<noteq> 2 \<longrightarrow> in_depth (ns ! j) = 0) \<and>
     (\<forall>j < length base. vs ! j = 2 \<longrightarrow>
        path_is (parent_of base) (segment_of base) j (in_depth (ns ! j)) (in_path (ns ! j)))"

lemma built_on_the_way:
  assumes "built base vs ns" and "i < length base" and "vs ! i = 0"
  shows "built base (vs[i := 1]) ns"
  unfolding built_def
proof (intro conjI allI impI)
  fix j assume "j < length base"
  with assms show "vs[i := 1] ! j \<noteq> 2 \<Longrightarrow> in_depth (ns ! j) = 0"
    "vs[i := 1] ! j = 2 \<Longrightarrow>
      path_is (parent_of base) (segment_of base) j (in_depth (ns ! j)) (in_path (ns ! j))"
    by (cases "j = i"; simp add: built_def)+
qed (use assms in \<open>auto simp: built_def states_ok_upd\<close>)

lemma built_done:
  assumes "built base vs ns" and "i < length base" and "path_is (parent_of base) (segment_of base) i d path"
    and "m = (ns ! i)\<lparr>in_depth := d, in_path := path\<rparr>"
  shows "built base (vs[i := 2]) (ns[i := m])"
  unfolding built_def
proof (intro conjI allI impI)
  have len: "length ns = length base" using assms(1) same_frame_length by (auto simp: built_def)
  fix j assume "j < length base"
  with assms len show "vs[i := 2] ! j \<noteq> 2 \<Longrightarrow> in_depth (ns[i := m] ! j) = 0"
    "vs[i := 2] ! j = 2 \<Longrightarrow>
      path_is (parent_of base) (segment_of base) j (in_depth (ns[i := m] ! j)) (in_path (ns[i := m] ! j))"
    by (cases "j = i"; simp add: built_def)+
qed (use assms same_frame_set in \<open>auto simp: built_def states_ok_upd\<close>)

lemma build_path_new:
  assumes "built base vs ns" and "i < length base" and "vs ! i = 0"
  shows "build_path i vs ns =
    (if segment_of base i = [] then (rc_invalid_binding, vs[i := 1], ns)
     else case parent_of base i of
       None \<Rightarrow> (rc_success, vs[i := 2], ns[i := (ns ! i)\<lparr>in_depth := 0, in_path := segment_of base i\<rparr>])
     | Some p \<Rightarrow> (case build_path p (vs[i := 1]) ns of (code, vs, ns) \<Rightarrow>
         if code \<noteq> rc_success then (code, vs, ns)
         else (rc_success, vs[i := 2], ns[i := (ns ! i)\<lparr>in_depth := in_depth (ns ! p) + 1,
                               in_path := in_path (ns ! p) @ ''/'' @ segment_of base i\<rparr>])))"
proof -
  have "i < length vs" "in_parent (ns ! i) = parent_of base i" "in_name (ns ! i) = in_name (base ! i)" "in_depth (ns ! i) = 0"
    using assms same_frame_nth [of base ns i] by (auto simp: built_def parent_of_def)
  moreover from this have "ns[i := (ns ! i)\<lparr>in_path := seg\<rparr>] = ns[i := (ns ! i)\<lparr>in_depth := 0, in_path := seg\<rparr>]" for seg
    by (cases "ns ! i") simp
  ultimately show ?thesis
    using assms(3) unfolding segment_of_def by (subst build_path.simps) (simp add: Let_def split: option.split)
qed

lemma build_path_spec:
  assumes inside: "\<forall>i < length base. \<forall>p. parent_of base i = Some p \<longrightarrow> p < length base"
    and "built base vs ns" and "i < length base" and "build_path i vs ns = (code, vs', ns')"
  shows "same_frame base ns' \<and>
    (if code = rc_success
     then built base vs' ns' \<and> vs' ! i = 2 \<and> (\<forall>j < length base. vs' ! j = 1 \<longleftrightarrow> vs ! j = 1) \<and>
       (\<forall>j < length base. vs ! j = 2 \<longrightarrow> vs' ! j = 2)
     else code = rc_cycle \<and> ((\<exists>d. depth_is (parent_of base) i d) \<longrightarrow> \<not> off_chain (parent_of base) i vs) \<or>
       code = rc_invalid_binding \<and> (\<exists>j < length base. in_name (base ! j) = []))"
  using assms(2-)
proof (induction "length (filter (\<lambda>x. x = 0) vs)" arbitrary: i vs ns code vs' ns' rule: less_induct)
  case less
  let ?par = "parent_of base" and ?seg = "segment_of base"
  note b = less.prems(1) and i = less.prems(2)
  have len: "length vs = length base" and frame: "same_frame base ns" using b by (auto simp: built_def)
  show ?case
  proof (cases "vs ! i = 0")
    case new: True
    note unfolded = build_path_new [OF b i new]
    show ?thesis
    proof (cases "?seg i = []")
      case True
      then have "in_name (base ! i) = []" by (simp add: segment_of_def)
      with True i frame less.prems(3) show ?thesis by (auto simp: unfolded)
    next
      case seg: False
      show ?thesis
      proof (cases "?par i")
        case None
        then have "path_is ?par ?seg i 0 (?seg i)" using seg by (rule path_root)
        note built_i = built_done [OF b i this refl]
        have eq: "code = rc_success" "vs' = vs[i := 2]" "ns' = ns[i := (ns ! i)\<lparr>in_depth := 0, in_path := ?seg i\<rparr>]"
          using less.prems(3) None seg by (auto simp: unfolded)
        have "vs' ! j = 1 \<longleftrightarrow> vs ! j = 1" "vs ! j = 2 \<longrightarrow> vs' ! j = 2" if "j < length base" for j
          using that i len new by (cases "j = i"; simp add: eq)+
        moreover have "built base vs' ns'" using built_i by (simp add: eq)
        ultimately show ?thesis using i len by (auto simp: eq(1,2) built_def)
      next
        case (Some p)
        then have p: "p < length base" using inside i by blast
        note b1 = built_on_the_way [OF b i new]
        obtain c1 vs1 ns1 where rec: "build_path p (vs[i := 1]) ns = (c1, vs1, ns1)" by (metis prod_cases3)
        note IH = less.hyps [OF zero_states_decrease [of i vs] b1 p rec]
        show ?thesis
        proof (cases "c1 = rc_success")
          case False
          have eq: "code = c1" "ns' = ns1" using less.prems(3) rec seg Some False by (auto simp: unfolded)
          have "\<not> off_chain ?par i vs"
            if on: "(\<exists>d. depth_is ?par p d) \<longrightarrow> \<not> off_chain ?par p (vs[i := 1])" and d: "depth_is ?par i d" for d
          proof -
            from d Some obtain e where "depth_is ?par p e" by (auto simp: depth_is_unfold [of ?par i])
            with on off_chain_parent [OF _ Some d] show ?thesis by blast
          qed
          with False IH i len new show ?thesis unfolding eq by (simp, blast)
        next
          case True
          then have r: "built base vs1 ns1" "vs1 ! p = 2" "\<forall>j < length base. vs1 ! j = 1 \<longleftrightarrow> vs[i := 1] ! j = 1"
            "\<forall>j < length base. vs[i := 1] ! j = 2 \<longrightarrow> vs1 ! j = 2" using IH i len new by auto
          have "path_is ?par ?seg i (Suc (in_depth (ns1 ! p))) (in_path (ns1 ! p) @ ''/'' @ ?seg i)"
            using r(1,2) p by (intro path_child [of ?par i p ?seg, OF Some seg]) (auto simp: built_def)
          note built_i = built_done [OF r(1) i this refl]
          have eq: "code = rc_success" "vs' = vs1[i := 2]" "ns' = ns1[i := (ns1 ! i)\<lparr>in_depth := Suc (in_depth (ns1 ! p)),
              in_path := in_path (ns1 ! p) @ ''/'' @ ?seg i\<rparr>]"
            using less.prems(3) rec seg Some True by (auto simp: unfolded)
          have len1: "length vs1 = length base" using r(1) by (simp add: built_def)
          have "vs' ! j = 1 \<longleftrightarrow> vs ! j = 1" if "j < length base" for j
            using r(3) that i len len1 new by (cases "j = i") (auto simp: eq)
          moreover have "vs' ! j = 2" if "j < length base" "vs ! j = 2" for j
            using r(4) that i len len1 new by (cases "j = i") (auto simp: eq)
          moreover have "built base vs' ns'" using built_i by (simp add: eq)
          ultimately show ?thesis using i len1 by (auto simp: eq(1,2) built_def)
        qed
      qed
    qed
  next
    case False
    then have eq: "build_path i vs ns = (if vs ! i = 1 then rc_cycle else rc_success, vs, ns)"
      by (subst build_path.simps) simp
    have "vs ! i = 2" if "vs ! i \<noteq> 1"
      using states_ok_cases [of vs i] False that i len b by (auto simp: built_def)
    moreover have "\<not> off_chain ?par i vs" if "vs ! i = 1"
      using that i len chain_refl [of ?par i] by (auto simp: off_chain_def)
    ultimately show ?thesis using less.prems(3) b frame by (auto simp: eq split: if_splits)
  qed
qed

lemma build_paths_spec:
  assumes inside: "\<forall>i < length base. \<forall>p. parent_of base i = Some p \<longrightarrow> p < length base"
    and "built base vs ns" and "set idxs \<subseteq> {..< length base}" and "\<forall>j < length base. vs ! j \<noteq> 1"
  shows "case build_paths idxs vs ns of
      (None, ns') \<Rightarrow> \<exists>vs'. built base vs' ns' \<and> (\<forall>i \<in> set idxs. vs' ! i = 2) \<and> (\<forall>j < length base. vs ! j = 2 \<longrightarrow> vs' ! j = 2)
    | (Some (code, i), ns') \<Rightarrow> same_frame base ns' \<and> i \<in> set idxs \<and>
        (code = rc_cycle \<and> (\<nexists>d. depth_is (parent_of base) i d) \<or>
         code = rc_invalid_binding \<and> (\<exists>j < length base. in_name (base ! j) = []))"
  using assms(2-)
proof (induction idxs arbitrary: vs ns)
  case Nil
  then show ?case by auto
next
  case (Cons i idxs)
  obtain code vs1 ns1 where rec: "build_path i vs ns = (code, vs1, ns1)" by (metis prod_cases3)
  have i: "i < length base" using Cons.prems by simp
  have off: "off_chain (parent_of base) i vs" using Cons.prems(1,3) by (auto simp: off_chain_def built_def)
  note r = build_path_spec [OF inside Cons.prems(1) i rec]
  show ?case
  proof (cases "code = rc_success")
    case True
    with r Cons.prems(3) have s: "built base vs1 ns1" "vs1 ! i = 2" "\<forall>j < length base. vs1 ! j \<noteq> 1"
      "\<forall>j < length base. vs ! j = 2 \<longrightarrow> vs1 ! j = 2" by auto
    have sub: "set idxs \<subseteq> {..< length base}" using Cons.prems(2) by simp
    from Cons.IH [OF s(1) sub s(3)] s(2,4) i show ?thesis
      by (auto simp: rec True split: option.splits prod.splits)
  next
    case False
    with r off show ?thesis by (auto simp: rec)
  qed
qed

text \<open>The collecting pass: the map finds every node by its entity, and nodes start blank.\<close>

definition collected ::
  "('x \<Rightarrow> bool) \<Rightarrow> 'x inferred_node list \<times> (u64 \<Rightarrow> nat option) \<times> result_code \<Rightarrow> bool" where
  "collected is_finite = (\<lambda>(inferred, by_entity, failure).
     (\<forall>k j. by_entity k = Some j \<longleftrightarrow> j < length inferred \<and> in_entity (inferred ! j) = Some k) \<and>
     (\<forall>n \<in> set inferred. is_finite (tv_local (in_transform n)) \<and> in_parent n = None \<and> in_depth n = 0 \<and> in_entity n \<noteq> None))"

lemma collect_entity_collected:
  assumes "collected is_finite acc"
  shows "collected is_finite (collect_entity is_finite e acc)"
proof -
  obtain inferred by_entity failure where acc: "acc = (inferred, by_entity, failure)" by (metis prod_cases3)
  show ?thesis
  proof (cases "collect_entity is_finite e acc = (inferred, by_entity, snd (snd (collect_entity is_finite e acc)))")
    case True
    then show ?thesis using assms by (metis (no_types, lifting) acc case_prod_conv collected_def)
  next
    case False
    then obtain v tv k where e: "e = Some v" "ev_transform v = Some tv" "ev_id v = Some k" "by_entity k = None"
      "is_finite (tv_local tv)"
      by (auto simp: acc collect_entity_def split: option.splits if_splits)
    have "by_entity k = Some j" if "j < length inferred" "in_entity (inferred ! j) = Some k" for j
      using assms that by (simp add: acc collected_def)
    with e(4) have "\<forall>j < length inferred. in_entity (inferred ! j) \<noteq> Some k" by auto
    with assms e show ?thesis
      by (auto simp: acc collect_entity_def collected_def nth_append less_Suc_eq)
  qed
qed

lemma collect_all: "collected is_finite acc \<Longrightarrow> collected is_finite (fold (collect_entity is_finite) es acc)"
  by (induction es arbitrary: acc) (simp_all add: collect_entity_collected)

lemma blank_collected: "collected is_finite ([], Map.empty, code)"
  by (simp add: collected_def)

lemma sorted_depth_paths:
  fixes ns :: "'x inferred_node list"
  assumes "sorted (map (\<lambda>n. (in_depth n, in_path n)) ns)" and "adjacent_find in_path ns = None"
    and "\<forall>n \<in> set ns. \<forall>m \<in> set ns. in_path n = in_path m \<longrightarrow> in_depth n = in_depth m"
  shows "distinct (map in_path ns)"
  using assms
proof (induction "in_path :: 'x inferred_node \<Rightarrow> name" ns rule: adjacent_find.induct)
  case (1 x y zs)
  from 1(3) have ne: "in_path x \<noteq> in_path y" and none: "adjacent_find in_path (y # zs) = None"
    by (simp_all split: if_splits)
  have depths: "\<forall>n \<in> set (y # zs). \<forall>m \<in> set (y # zs). in_path n = in_path m \<longrightarrow> in_depth n = in_depth m"
    using 1(4) by (meson list.set_intros(2))
  have "sorted (map (\<lambda>n. (in_depth n, in_path n)) (y # zs))" using 1(2) by simp
  from 1(1) [OF ne this none depths] have rest: "distinct (map in_path (y # zs))" .
  have "in_path x \<noteq> in_path z" if z: "z \<in> set zs" for z
  proof
    assume eq: "in_path x = in_path z"
    then have "in_depth x = in_depth z" using 1(4) z by (meson list.set_intros)
    with 1(2) z eq ne show False by (auto simp: less_eq_prod_def)
  qed
  with rest ne show ?case by auto
qed (simp_all (no_asm))

text \<open>Entities with the links the second pass has set.\<close>

definition linked :: "('x \<Rightarrow> bool) \<Rightarrow> 'x inferred_node list \<Rightarrow> bool" where
  "linked is_finite ns \<longleftrightarrow>
     (\<forall>i < length ns. is_finite (tv_local (in_transform (ns ! i))) \<and> in_entity (ns ! i) \<noteq> None \<and>
        in_depth (ns ! i) = 0 \<and>
        (case tv_parent (in_transform (ns ! i)) of
           None \<Rightarrow> in_parent (ns ! i) = None
         | Some k \<Rightarrow> \<exists>p < length ns. in_parent (ns ! i) = Some p \<and> in_entity (ns ! p) = Some k)) \<and>
     distinct (map in_entity ns)"

lemma link_parents:
  assumes "collected is_finite (inferred, by_entity, code)"
    and "find (\<lambda>node. case tv_parent (in_transform node) of
               None \<Rightarrow> False | Some p \<Rightarrow> by_entity p = None) inferred = None"
  shows "linked is_finite (map (link_parent by_entity) inferred)"
proof -
  have same: "in_entity (link_parent by_entity n) = in_entity n" "in_transform (link_parent by_entity n) = in_transform n"
    "in_depth (link_parent by_entity n) = in_depth n" for n :: "'a inferred_node"
    by (simp_all add: link_parent_def split: option.split)
  have here: "by_entity k = Some j \<longleftrightarrow> j < length inferred \<and> in_entity (inferred ! j) = Some k" for k j
    using assms(1) by (simp add: collected_def)
  have each: "is_finite (tv_local (in_transform n)) \<and> in_parent n = None \<and> in_depth n = 0 \<and> in_entity n \<noteq> None"
    if "n \<in> set inferred" for n using assms(1) that by (simp add: collected_def)
  have found: "by_entity k \<noteq> None" if "n \<in> set inferred" "tv_parent (in_transform n) = Some k" for n k
    using assms(2) that by (force simp: find_cong_set)
  have "distinct (map in_entity inferred)"
    unfolding distinct_conv_nth
  proof (intro allI impI)
    fix i j assume ij: "i < length (map in_entity inferred)" "j < length (map in_entity inferred)" "i \<noteq> j"
    then obtain k where k: "in_entity (inferred ! i) = Some k" using each [of "inferred ! i"] by auto
    with here [of k i] here [of k j] ij show "map in_entity inferred ! i \<noteq> map in_entity inferred ! j" by auto
  qed
  then have "distinct (map in_entity (map (link_parent by_entity) inferred))" by (simp add: same comp_def)
  moreover have "case tv_parent (in_transform (inferred ! i)) of
      None \<Rightarrow> in_parent (link_parent by_entity (inferred ! i)) = None
    | Some k \<Rightarrow> \<exists>p < length inferred. in_parent (link_parent by_entity (inferred ! i)) = Some p \<and>
        in_entity (map (link_parent by_entity) inferred ! p) = Some k" if i: "i < length inferred" for i
  proof (cases "tv_parent (in_transform (inferred ! i))")
    case None
    then show ?thesis using each [of "inferred ! i"] i by (simp add: link_parent_def)
  next
    case (Some k)
    then obtain p where "by_entity k = Some p" using found [of "inferred ! i" k] i by auto
    with here [of k p] Some have "p < length inferred" "in_entity (inferred ! p) = Some k"
      "in_parent (link_parent by_entity (inferred ! i)) = Some p" by (simp_all add: link_parent_def)
    with Some show ?thesis by (simp add: same)
  qed
  ultimately show ?thesis using each by (simp add: linked_def same cong: option.case_cong)
qed

text \<open>What the last pass returns for linked nodes with their paths built.\<close>

definition finish_extraction :: "'x inferred_node list \<Rightarrow> 'x prefab_topology_result" where
  "finish_extraction inferred =
     (case adjacent_find in_path inferred of
        Some node \<Rightarrow> failed_topology rc_duplicate_binding_id (in_path node)
      | None \<Rightarrow>
          \<lparr>ptr_nodes = map (describe_inferred inferred) inferred,
           ptr_entities = map in_entity inferred, ptr_failure = no_failure\<rparr>)"

lemma escape_no_slash: "CHR ''/'' \<notin> set (escape_path_segment name)"
  by (auto simp: escape_path_segment_def escape_char_def)

lemma path_is_slashes: "path_is (parent_of ns) (segment_of ns) i d path \<Longrightarrow> count_list path (CHR ''/'') = d"
  by (induction rule: path_is.induct) (simp_all add: segment_of_def escape_no_slash count_notin)

lemma path_is_unique: "path_is par seg i d path \<Longrightarrow> path_is par seg i d' path' \<Longrightarrow> d = d' \<and> path = path'"
proof (induction arbitrary: d' path' rule: path_is.induct)
  case (path_root i)
  from path_root.prems path_root.hyps show ?case by cases auto
next
  case (path_child i p d path)
  from path_child.prems path_child.hyps(1) obtain e q where "d' = Suc e" "path' = q @ ''/'' @ seg i" "path_is par seg p e q"
    by cases auto
  with path_child.IH show ?case by simp
qed

lemma linked_parent:
  assumes "linked is_finite L" and "i < length L"
  shows "case tv_parent (in_transform (L ! i)) of
      None \<Rightarrow> parent_of L i = None
    | Some k \<Rightarrow> \<exists>p < length L. parent_of L i = Some p \<and> in_entity (L ! p) = Some k"
  using assms(1) [unfolded linked_def, THEN conjunct1, THEN spec, THEN mp, OF assms(2)]
  unfolding parent_of_def by blast

lemma linked_root:
  assumes "linked is_finite L" and "i < length L" and "tv_parent (in_transform (L ! i)) = None"
  shows "parent_of L i = None"
  using linked_parent [OF assms(1,2)] by (simp add: assms(3))

lemma linked_child:
  assumes "linked is_finite L" and "i < length L" and "tv_parent (in_transform (L ! i)) = Some k"
  obtains p where "parent_of L i = Some p" "p < length L" "in_entity (L ! p) = Some k"
  using linked_parent [OF assms(1,2)] by (auto simp: assms(3))

lemma find_by_entity:
  assumes "distinct (map in_entity I)" and "n \<in> set I" and "in_entity n = Some k"
  shows "find (\<lambda>candidate. in_entity candidate = Some k) I = Some n"
proof -
  from assms obtain c where c: "find (\<lambda>candidate. in_entity candidate = Some k) I = Some c"
    by (cases "find (\<lambda>candidate. in_entity candidate = Some k) I") (auto simp: find_None_iff)
  have "c \<in> set I" "in_entity c = Some k" using find_Some_mem [OF c] by simp_all
  with assms have "c = n" by (auto simp: distinct_map inj_on_def)
  with c show ?thesis by simp
qed

lemma frame_entities:
  assumes "linked is_finite L" and "same_frame L B"
  shows "distinct (map in_entity B)"
proof -
  have "map in_entity B = map in_entity L"
    using same_frame_length [OF assms(2)] same_frame_nth [OF assms(2)] by (auto simp: list_eq_iff_nth_eq)
  with assms(1) show ?thesis by (simp add: linked_def)
qed

lemma extraction_normal:
  assumes linked: "linked is_finite L" and frame: "same_frame L B" and ne: "L \<noteq> []"
    and paths: "\<forall>i < length L. path_is (parent_of L) (segment_of L) i (in_depth (B ! i)) (in_path (B ! i))"
    and I: "I = sort_key (\<lambda>n. (in_depth n, in_path n)) B" and none: "adjacent_find in_path I = None"
    and nodes: "nodes = map (describe_inferred I) I"
  shows "valid_topology is_finite nodes \<and> normalized_from nodes nodes"
proof -
  have len: "length B = length L" using frame by (rule same_frame_length)
  note same = same_frame_nth [OF frame]
  have set: "set I = set B" by (simp add: I)
  have ents: "distinct (map in_entity I)" using frame_entities [OF linked frame] by (simp add: I)
  have slashes: "in_depth n = count_list (in_path n) (CHR ''/'')" if n: "n \<in> set I" for n
  proof -
    from n obtain i where "i < length L" "B ! i = n" by (auto simp: set in_set_conv_nth len)
    have "count_list (in_path (B ! i)) (CHR ''/'') = in_depth (B ! i)"
      by (rule path_is_slashes [OF paths [THEN spec, THEN mp, OF \<open>i < length L\<close>]])
    with \<open>B ! i = n\<close> show ?thesis by simp
  qed
  have depths: "\<forall>n \<in> set I. \<forall>m \<in> set I. in_path n = in_path m \<longrightarrow> in_depth n = in_depth m"
  proof (intro ballI impI)
    fix n m assume "n \<in> set I" "m \<in> set I" "in_path n = in_path m"
    with slashes [of n] slashes [of m] show "in_depth n = in_depth m" by simp
  qed
  have "sorted (map (\<lambda>n. (in_depth n, in_path n)) I)" by (simp add: I)
  from sorted_depth_paths [OF this none depths] have dist: "distinct (map in_path I)" .
  have ids: "map nd_binding_id nodes = map in_path I" by (simp add: nodes describe_inferred_def)
  have here: "describe_inferred I (B ! i) \<in> set nodes" "nd_binding_id (describe_inferred I (B ! i)) = in_path (B ! i)"
    if "i < length L" for i using that set len by (auto simp: nodes describe_inferred_def)
  have parent: "nd_parent_binding_id (describe_inferred I (B ! i)) =
      (case parent_of L i of None \<Rightarrow> [] | Some p \<Rightarrow> in_path (B ! p))"
    and inside: "parent_of L i = Some p \<Longrightarrow> p < length L" if i: "i < length L" for i p
  proof -
    show "p < length L" if "parent_of L i = Some p"
      using linked i that by (auto simp: linked_def parent_of_def split: option.splits)
    show "nd_parent_binding_id (describe_inferred I (B ! i)) =
      (case parent_of L i of None \<Rightarrow> [] | Some p \<Rightarrow> in_path (B ! p))"
    proof (cases "parent_of L i")
      case None
      then show ?thesis using same [OF i] by (simp add: describe_inferred_def parent_of_def)
    next
      case (Some p)
      then obtain k where k: "tv_parent (in_transform (L ! i)) = Some k" "p < length L" "in_entity (L ! p) = Some k"
        using linked i by (auto simp: linked_def parent_of_def split: option.splits)
      have at: "in_entity (B ! p) = Some k" "B ! p \<in> set I" using same [OF k(2)] k(2,3) len set by auto
      have c: "find (\<lambda>candidate. in_entity candidate = Some k) I = Some (B ! p)"
        by (rule find_by_entity [OF ents at(2,1)])
      with c Some k(1) same [OF i] show ?thesis by (simp add: describe_inferred_def parent_of_def)
    qed
  qed
  have nonempty: "in_path (B ! i) \<noteq> []" if "i < length L" for i
    using paths [THEN spec, THEN mp, OF that] by cases simp_all
  have depth: "named_depth nodes (in_path (B ! i)) (in_depth (B ! i))" if "i < length L" for i
    using that
  proof (induction "in_depth (B ! i)" arbitrary: i)
    case 0
    then have "path_is (parent_of L) (segment_of L) i 0 (in_path (B ! i))" using paths by metis
    then have "parent_of L i = None" by cases simp_all
    with parent [OF 0(2)] named_root [OF here(1) [OF 0(2)]] here(2) [OF 0(2)] 0(1) show ?case by simp
  next
    case (Suc d)
    then have "path_is (parent_of L) (segment_of L) i (Suc d) (in_path (B ! i))" using paths by metis
    then obtain p where p: "parent_of L i = Some p" "path_is (parent_of L) (segment_of L) p d (take (length (in_path (B ! i)) - Suc (length (segment_of L i))) (in_path (B ! i)))"
      by cases simp
    note pin = inside [OF Suc(3) p(1)]
    have "in_depth (B ! p) = d" using paths pin path_is_unique [OF p(2)] by blast
    with Suc(1) [of p] pin have up: "named_depth nodes (in_path (B ! p)) d" by simp
    from nonempty [OF pin] named_child [OF here(1) [OF Suc(3)]] up parent [OF Suc(3)] here(2) [OF Suc(3)] p(1) Suc(2) [symmetric]
    show ?case by simp
  qed
  have members: "\<exists>i < length L. n = describe_inferred I (B ! i)" if "n \<in> set nodes" for n
    using that by (auto simp: nodes set in_set_conv_nth len)
  have finite: "is_finite (nd_initial_local (describe_inferred I (B ! i)))" if "i < length L" for i
    using linked same [OF that] that by (simp add: linked_def describe_inferred_def)
  have "valid_topology is_finite nodes"
    unfolding valid_topology_def
  proof (intro conjI ballI)
    show "nodes \<noteq> []" using ne len here(1) [of 0] by (cases nodes) auto
    show "distinct (map nd_binding_id nodes)" using ids dist by simp
    fix n assume "n \<in> set nodes"
    from members [OF this] obtain i where i: "i < length L" "n = describe_inferred I (B ! i)" by blast
    show "nd_binding_id n \<noteq> []" using here(2) [OF i(1)] nonempty [OF i(1)] i(2) by simp
    show "is_finite (nd_initial_local n)" using finite [OF i(1)] i(2) by simp
    show "\<exists>d. named_depth nodes (nd_binding_id n) d" using depth [OF i(1)] here(2) [OF i(1)] i(2) by auto
  qed
  moreover have "normalized_from nodes nodes"
    unfolding normalized_from_def
  proof (intro conjI exI ballI)
    show "sorted (map (\<lambda>n. (count_list (nd_binding_id n) (CHR ''/''), nd_binding_id n)) nodes)"
    proof -
      have "map (\<lambda>n. (count_list (nd_binding_id n) (CHR ''/''), nd_binding_id n)) nodes = map (\<lambda>n. (in_depth n, in_path n)) I"
        by (auto simp: nodes describe_inferred_def slashes)
      then show ?thesis by (simp add: I)
    qed
    show "named_depth nodes (nd_binding_id n) (count_list (nd_binding_id n) (CHR ''/''))" if "n \<in> set nodes" for n
    proof -
      from members [OF that] obtain i where i: "i < length L" "n = describe_inferred I (B ! i)" by blast
      have "count_list (in_path (B ! i)) (CHR ''/'') = in_depth (B ! i)"
        by (rule path_is_slashes [OF paths [THEN spec, THEN mp, OF i(1)]])
      with depth [OF i(1)] here(2) [OF i(1)] i(2) show ?thesis by simp
    qed
  qed simp
  ultimately show ?thesis by blast
qed

lemma failed_topology_succeeds [simp]: "topology_succeeds (failed_topology code node) \<longleftrightarrow> code = rc_success"
  by (simp add: topology_succeeds_def failed_topology_def failure_of_def)

lemma linked_inside: "linked is_finite L \<Longrightarrow> \<forall>i < length L. \<forall>p. parent_of L i = Some p \<longrightarrow> p < length L"
  by (auto simp: linked_def parent_of_def split: option.splits)

lemma built_start:
  assumes "linked is_finite L"
  shows "built L (replicate (length L) 0) L"
  using assms by (auto simp: built_def linked_def states_ok_def same_frame_def)

lemma extraction_success:
  assumes "topology_succeeds (extract_entity_hierarchy is_finite entities)"
  obtains inferred by_entity L B I where
    "fold (collect_entity is_finite) entities ([], Map.empty, rc_success) = (inferred, by_entity, rc_success)"
    "inferred \<noteq> []" "L = map (link_parent by_entity) inferred" "linked is_finite L" "same_frame L B"
    "\<forall>i < length L. path_is (parent_of L) (segment_of L) i (in_depth (B ! i)) (in_path (B ! i))"
    "I = sort_key (\<lambda>n. (in_depth n, in_path n)) B" "adjacent_find in_path I = None"
    "extract_entity_hierarchy is_finite entities =
      \<lparr>ptr_nodes = map (describe_inferred I) I, ptr_entities = map in_entity I, ptr_failure = no_failure\<rparr>"
proof -
  obtain inferred by_entity code where coll:
    "fold (collect_entity is_finite) entities ([], Map.empty, rc_success) = (inferred, by_entity, code)"
    by (metis prod_cases3)
  have c: "collected is_finite (inferred, by_entity, code)"
    using collect_all [OF blank_collected, of is_finite entities rc_success] coll by simp
  note unfolded = extract_entity_hierarchy_def [of is_finite entities, unfolded coll Let_def prod.case]
  have 1: "code = rc_success" "inferred \<noteq> []" using assms by (auto simp: unfolded split: if_splits)
  have 2: "find (\<lambda>node. case tv_parent (in_transform node) of
               None \<Rightarrow> False | Some p \<Rightarrow> by_entity p = None) inferred = None"
    using assms 1 by (auto simp: unfolded split: option.splits)
  define L where "L = map (link_parent by_entity) inferred"
  have linked: "linked is_finite L" unfolding L_def by (rule link_parents [OF c 2])
  obtain failed B where build: "build_paths [0..<length L] (replicate (length L) 0) L = (failed, B)" by fastforce
  have sub: "set [0..<length L] \<subseteq> {..< length L}" and fresh: "\<forall>j < length L. replicate (length L) 0 ! j \<noteq> (1 :: u8)"
    by auto
  note spec = build_paths_spec [OF linked_inside [OF linked] built_start [OF linked] sub fresh, unfolded build]
  have 3: "failed = None"
  proof (cases failed)
    case (Some f)
    with spec have "fst f \<noteq> rc_success" by (auto split: prod.splits)
    then show ?thesis using assms 1 2 Some build by (auto simp: unfolded L_def split: prod.splits)
  qed
  with spec obtain vs where vs: "built L vs B" "\<forall>i < length L. vs ! i = 2" by auto
  define I where "I = sort_key (\<lambda>n. (in_depth n, in_path n)) B"
  have 4: "adjacent_find in_path I = None"
    using assms 1 2 3 build by (auto simp: unfolded L_def I_def split: option.splits)
  have 5: "extract_entity_hierarchy is_finite entities =
      \<lparr>ptr_nodes = map (describe_inferred I) I, ptr_entities = map in_entity I, ptr_failure = no_failure\<rparr>"
    using 1 2 3 4 build by (simp add: unfolded L_def I_def)
  show thesis
    by (rule that [of inferred by_entity L B I]) (use coll 1 L_def linked vs I_def 4 5 in \<open>auto simp: built_def\<close>)
qed

text \<open>The entities that take part: those with a transform component.\<close>

definition source_of :: "'x entity_view option \<Rightarrow> (entity_id \<times> name \<times> 'x transform_view) option" where
  "source_of entity = Option.bind entity (\<lambda>e. map_option (\<lambda>tv. (ev_id e, ev_name e, tv)) (ev_transform e))"

definition sources :: "'x entity_view option list \<Rightarrow> (entity_id \<times> name \<times> 'x transform_view) list" where
  "sources entities = List.map_filter source_of entities"

definition node_source :: "'x inferred_node \<Rightarrow> entity_id \<times> name \<times> 'x transform_view" where
  "node_source n = (in_entity n, in_name n, in_transform n)"

lemma collect_entity_sources:
  assumes "collect_entity is_finite e (ns, m, code) = (ns', m', rc_success)"
  shows "code = rc_success \<and> map node_source ns' = map node_source ns @ sources [e]"
  using assms
  by (auto simp: collect_entity_def sources_def List.map_filter_def source_of_def node_source_def
      split: option.splits if_splits)

lemma collect_sources:
  assumes "fold (collect_entity is_finite) es (ns, m, code) = (ns', m', rc_success)"
  shows "map node_source ns' = map node_source ns @ sources es"
proof -
  have "code = rc_success \<and> map node_source ns' = map node_source ns @ sources es"
    using assms
  proof (induction es arbitrary: ns m code)
    case Nil
    then show ?case by (simp add: sources_def List.map_filter_def)
  next
    case (Cons e es)
    obtain ns1 m1 c1 where s: "collect_entity is_finite e (ns, m, code) = (ns1, m1, c1)" by (metis prod_cases3)
    with Cons have r: "c1 = rc_success" "map node_source ns' = map node_source ns1 @ sources es" by simp_all
    from collect_entity_sources [OF s [unfolded r(1)]] r(2) show ?case
      by (simp add: sources_def List.map_filter_def split: option.splits)
  qed
  then show ?thesis ..
qed

text \<open>What entry \<open>i\<close> of an extracted topology says of the entity it stands for.\<close>

definition describes_source :: "'x prefab_topology_result \<Rightarrow> nat \<Rightarrow> entity_id \<times> name \<times> 'x transform_view \<Rightarrow> bool" where
  "describes_source r i = (\<lambda>(entity, name, tv). let n = ptr_nodes r ! i in
     ptr_entities r ! i = entity \<and> nd_initial_local n = tv_local tv \<and>
     (case tv_parent tv of
        None \<Rightarrow> nd_parent_binding_id n = [] \<and> nd_binding_id n = escape_path_segment name
      | Some k \<Rightarrow> nd_binding_id n = nd_parent_binding_id n @ ''/'' @ escape_path_segment name \<and>
          (\<exists>j. j < length (ptr_nodes r) \<and> ptr_entities r ! j = Some k \<and>
             nd_binding_id (ptr_nodes r ! j) = nd_parent_binding_id n)))"

lemma extraction_sources:
  assumes "topology_succeeds (extract_entity_hierarchy is_finite entities)"
  shows "\<exists>srcs. mset srcs = mset (sources entities) \<and>
    length srcs = length (ptr_nodes (extract_entity_hierarchy is_finite entities)) \<and>
    (\<forall>i < length srcs. describes_source (extract_entity_hierarchy is_finite entities) i (srcs ! i))"
proof -
  from assms obtain inferred by_entity L B I where
    coll: "fold (collect_entity is_finite) entities ([], Map.empty, rc_success) = (inferred, by_entity, rc_success)"
    and L: "L = map (link_parent by_entity) inferred" and linked: "linked is_finite L" and frame: "same_frame L B"
    and paths: "\<forall>i < length L. path_is (parent_of L) (segment_of L) i (in_depth (B ! i)) (in_path (B ! i))"
    and I: "I = sort_key (\<lambda>n. (in_depth n, in_path n)) B"
    and r: "extract_entity_hierarchy is_finite entities =
      \<lparr>ptr_nodes = map (describe_inferred I) I, ptr_entities = map in_entity I, ptr_failure = no_failure\<rparr>"
    by (rule extraction_success)
  have len: "length B = length L" using frame by (rule same_frame_length)
  note same = same_frame_nth [OF frame]
  have set: "set I = set B" and lenI: "length I = length L" by (simp_all add: I len)
  have ents: "distinct (map in_entity I)" using frame_entities [OF linked frame] by (simp add: I)
  have "map node_source B = map node_source L"
    using len same by (auto simp: list_eq_iff_nth_eq node_source_def)
  moreover have "map node_source L = map node_source inferred"
    by (simp add: L node_source_def link_parent_def split: option.split)
  ultimately have src: "map node_source B = sources entities" using collect_sources [OF coll] by simp
  have perm: "mset (map node_source I) = mset (sources entities)"
    by (simp add: I flip: src)
  have each: "describes_source (extract_entity_hierarchy is_finite entities) j (node_source (I ! j))" if j: "j < length I" for j
  proof -
    from j set obtain i where i: "i < length L" "B ! i = I ! j" using len by (metis in_set_conv_nth nth_mem)
    let ?n = "describe_inferred I (B ! i)"
    show ?thesis
    proof (cases "tv_parent (in_transform (L ! i))")
      case None
      have p: "parent_of L i = None" by (rule linked_root [OF linked i(1) None])
      from paths i have "path_is (parent_of L) (segment_of L) i (in_depth (B ! i)) (in_path (B ! i))" by blast
      then have "in_path (B ! i) = segment_of L i" using p by cases simp_all
      with None p same [OF i(1)] j show ?thesis
        by (simp add: describes_source_def r node_source_def describe_inferred_def segment_of_def parent_of_def flip: i(2))
    next
      case (Some k)
      obtain p where p: "parent_of L i = Some p" "p < length L" "in_entity (L ! p) = Some k"
        by (rule linked_child [OF linked i(1) Some])
      have at: "in_entity (B ! p) = Some k" "B ! p \<in> set I" using same [OF p(2)] p len set by auto
      have c: "find (\<lambda>candidate. in_entity candidate = Some k) I = Some (B ! p)"
        by (rule find_by_entity [OF ents at(2,1)])
      from paths i have "path_is (parent_of L) (segment_of L) i (in_depth (B ! i)) (in_path (B ! i))" by blast
      then obtain d path where q: "in_path (B ! i) = path @ ''/'' @ segment_of L i" "path_is (parent_of L) (segment_of L) p d path"
        using p(1) by cases auto
      have "path_is (parent_of L) (segment_of L) p (in_depth (B ! p)) (in_path (B ! p))" using paths p(2) by blast
      then have "path = in_path (B ! p)" using path_is_unique [OF q(2)] by blast
      moreover obtain l where l: "l < length I" "I ! l = B ! p" using at(2) by (auto simp: in_set_conv_nth)
      ultimately have "nd_binding_id ?n = nd_parent_binding_id ?n @ ''/'' @ escape_path_segment (in_name (B ! i)) \<and>
          (\<exists>l. l < length I \<and> in_entity (I ! l) = Some k \<and> in_path (I ! l) = nd_parent_binding_id ?n)"
        using c Some q(1) same [OF i(1)] at(1) p(1)
        by (auto simp: describe_inferred_def segment_of_def parent_of_def)
      with Some same [OF i(1)] j show ?thesis
        by (auto simp: describes_source_def r node_source_def describe_inferred_def Let_def simp flip: i(2))
    qed
  qed
  show ?thesis
    by (intro exI [of _ "map node_source I"])
      (use perm each in \<open>simp add: r\<close>)
qed

lemma extraction_normalized:
  assumes "topology_succeeds (extract_entity_hierarchy is_finite entities)"
  shows "valid_topology is_finite (ptr_nodes (extract_entity_hierarchy is_finite entities)) \<and>
    normalized_from (ptr_nodes (extract_entity_hierarchy is_finite entities))
      (ptr_nodes (extract_entity_hierarchy is_finite entities))"
proof -
  from assms obtain inferred by_entity L B I where
    "inferred \<noteq> []" "L = map (link_parent by_entity) inferred" and linked: "linked is_finite L" and frame: "same_frame L B"
    and paths: "\<forall>i < length L. path_is (parent_of L) (segment_of L) i (in_depth (B ! i)) (in_path (B ! i))"
    and I: "I = sort_key (\<lambda>n. (in_depth n, in_path n)) B" and none: "adjacent_find in_path I = None"
    and r: "extract_entity_hierarchy is_finite entities =
      \<lparr>ptr_nodes = map (describe_inferred I) I, ptr_entities = map in_entity I, ptr_failure = no_failure\<rparr>"
    by (rule extraction_success)
  then have "L \<noteq> []" by simp
  from extraction_normal [OF linked frame this paths I none refl] show ?thesis by (simp add: r)
qed

subsection \<open>Paths identify name chains\<close>

text \<open>The path of a chain of names, root first.\<close>

fun join_path :: "string list \<Rightarrow> string" where
  "join_path [] = []"
| "join_path [name] = escape_path_segment name"
| "join_path (name # names) = escape_path_segment name @ ''/'' @ join_path names"

lemma escape_char_code: "escape_char c @ xs = escape_char d @ ys \<longleftrightarrow> c = d \<and> xs = ys"
  by (auto simp: escape_char_def split: if_splits)

lemma escape_inj: "escape_path_segment a = escape_path_segment b \<longleftrightarrow> a = b"
proof (induction a arbitrary: b)
  case Nil
  then show ?case using escape_path_segment_empty [of b] by (auto simp: escape_path_segment_def)
next
  case (Cons c a)
  show ?case
  proof (cases b)
    case Nil
    then show ?thesis using escape_path_segment_empty [of "c # a"] by (auto simp: escape_path_segment_def)
  next
    case (Cons d b')
    have "escape_path_segment (x # xs) = escape_char x @ escape_path_segment xs" for x xs
      by (simp add: escape_path_segment_def)
    with Cons.IH [of b'] show ?thesis by (simp add: Cons escape_char_code)
  qed
qed

lemma split_at_slash:
  assumes "a @ ''/'' @ x = b @ ''/'' @ y" and "CHR ''/'' \<notin> set a" and "CHR ''/'' \<notin> set b"
  shows "a = b \<and> x = y"
proof -
  have t: "takeWhile (\<lambda>c. c \<noteq> CHR ''/'') (a @ ''/'' @ x) = a" if "CHR ''/'' \<notin> set a" for a x :: string
    using that by (subst takeWhile_append2) auto
  from t [OF assms(2), of x] t [OF assms(3), of y] assms(1) have "a = b" by simp
  with assms(1) show ?thesis by simp
qed

lemma join_path_inj: "as \<noteq> [] \<Longrightarrow> bs \<noteq> [] \<Longrightarrow> join_path as = join_path bs \<Longrightarrow> as = bs"
proof (induction as arbitrary: bs rule: join_path.induct)
  case (2 a)
  show ?case
  proof (cases bs rule: join_path.cases)
    case (3 b b' bs')
    with 2 escape_no_slash [of a] show ?thesis by auto
  qed (use 2 escape_inj in auto)
next
  case (3 a a' as)
  show ?case
  proof (cases bs rule: join_path.cases)
    case (2 b)
    with "3.prems" have "set (escape_path_segment a @ ''/'' @ join_path (a' # as)) = set (escape_path_segment b)" by simp
    with escape_no_slash [of b] show ?thesis by auto
  next
    case (3 b b' bs')
    with "3.prems" split_at_slash [OF _ escape_no_slash escape_no_slash, of a "join_path (a' # as)" b "join_path (b' # bs')"]
      "3.IH" [of "b' # bs'"] escape_inj [of a b] show ?thesis by simp
  qed (use 3 in auto)
qed simp

subsection \<open>Properties\<close>

text \<open>C11. Validating a topology always returns, and it succeeds exactly on the topologies that are
  valid: not empty, every id non-empty and unique, every transform finite, and every chain of
  parent ids ending at a root. A successful result is the one permutation of the input ordered by
  depth and id.\<close>

theorem validation_decides_topologies:
  "\<exists>r. validate_and_normalize is_finite nodes = Some r \<and>
     topology_succeeds r = valid_topology is_finite nodes \<and>
     (if topology_succeeds r then normalized_from nodes (ptr_nodes r)
      else ptr_nodes r = [] \<and> diagnosis_holds is_finite nodes (ptr_failure r))"
proof -
  obtain r where r: "validate_and_normalize is_finite nodes = Some r"
    "if valid_topology is_finite nodes
      then ptr_failure r = no_failure \<and> ptr_entities r = [] \<and> normalized_from nodes (ptr_nodes r)
      else diagnosis_holds is_finite nodes (ptr_failure r) \<and> ptr_nodes r = []"
    using validate_cases by blast
  have "f_code (ptr_failure r) \<noteq> rc_success" if "diagnosis_holds is_finite nodes (ptr_failure r)"
    using that by (auto simp: diagnosis_holds_def)
  with r show ?thesis by (auto simp: topology_succeeds_def no_failure_def split: if_splits)
qed

text \<open>Example descriptors: a root and its child, listed child first.\<close>

definition two_descriptors :: "nat node_descriptor list" where
  "two_descriptors =
     [\<lparr>nd_binding_id = ''a/b'', nd_parent_binding_id = ''a'', nd_initial_local = 1\<rparr>,
      \<lparr>nd_binding_id = ''a'', nd_parent_binding_id = [], nd_initial_local = 2\<rparr>]"

text \<open>In the result of a successful validation every node with a parent comes after it.\<close>

theorem normalized_parents_come_first:
  assumes "validate_and_normalize is_finite nodes = Some r" and "topology_succeeds r"
    and "i < length (ptr_nodes r)" and "nd_parent_binding_id (ptr_nodes r ! i) \<noteq> []"
  shows "\<exists>j < i. nd_binding_id (ptr_nodes r ! j) = nd_parent_binding_id (ptr_nodes r ! i)"
proof -
  obtain r' where r': "validate_and_normalize is_finite nodes = Some r'"
    "if valid_topology is_finite nodes
      then ptr_failure r' = no_failure \<and> ptr_entities r' = [] \<and> normalized_from nodes (ptr_nodes r')
      else diagnosis_holds is_finite nodes (ptr_failure r') \<and> ptr_nodes r' = []"
    using validate_cases by blast
  have "r' = r" using r'(1) assms(1) by simp
  with r'(2) assms(3) have "valid_topology is_finite nodes" "normalized_from nodes (ptr_nodes r)"
    by (auto split: if_splits)
  then show ?thesis using assms(3,4) by (intro normalized_parents_first) (auto simp: valid_topology_def)
qed

lemma two_descriptors_normal:
  "validate_and_normalize (\<lambda>x. x < 10) two_descriptors =
     Some \<lparr>ptr_nodes = rev two_descriptors, ptr_entities = [], ptr_failure = no_failure\<rparr>"
  by code_simp

theorem normalized_parents_come_first_witness:
  "\<exists>j < 1. nd_binding_id (rev two_descriptors ! j) = ''a''"
  using normalized_parents_come_first [OF two_descriptors_normal, of 1]
  by (simp add: two_descriptors_def topology_succeeds_def no_failure_def)

text \<open>C12. A successful extraction returns a valid topology in its normal form: validating its
  nodes succeeds and gives the same list back.\<close>

theorem extraction_is_a_fixpoint_of_validation:
  assumes "topology_succeeds (extract_entity_hierarchy is_finite entities)"
  shows "validate_and_normalize is_finite (ptr_nodes (extract_entity_hierarchy is_finite entities)) =
    Some \<lparr>ptr_nodes = ptr_nodes (extract_entity_hierarchy is_finite entities), ptr_entities = [], ptr_failure = no_failure\<rparr>"
proof -
  let ?nodes = "ptr_nodes (extract_entity_hierarchy is_finite entities)"
  obtain r where r: "validate_and_normalize is_finite ?nodes = Some r" "ptr_failure r = no_failure"
    "ptr_entities r = []" "normalized_from ?nodes (ptr_nodes r)"
    using validate_cases [of is_finite ?nodes] extraction_normalized [OF assms] by auto
  have "ptr_nodes r = ?nodes"
    using normalized_unique [OF _ r(4)] extraction_normalized [OF assms] by (auto simp: valid_topology_def)
  with r show ?thesis by (cases r) simp
qed

text \<open>Example entities: a child and its root, out of order, and an entity without a transform.\<close>

definition two_entities :: "nat entity_view option list" where
  "two_entities =
     [Some \<lparr>ev_id = Some 7, ev_name = ''b/c'', ev_transform = Some \<lparr>tv_parent = Some 3, tv_local = 1\<rparr>\<rparr>, None,
      Some \<lparr>ev_id = Some 5, ev_name = ''x'', ev_transform = None\<rparr>,
      Some \<lparr>ev_id = Some 3, ev_name = ''a'', ev_transform = Some \<lparr>tv_parent = None, tv_local = 2\<rparr>\<rparr>]"

lemma two_entities_extracted:
  "extract_entity_hierarchy (\<lambda>x. x < 10) two_entities =
     \<lparr>ptr_nodes = [\<lparr>nd_binding_id = ''a'', nd_parent_binding_id = [], nd_initial_local = 2\<rparr>,
        \<lparr>nd_binding_id = ''a/b%2Fc'', nd_parent_binding_id = ''a'', nd_initial_local = 1\<rparr>],
      ptr_entities = [Some 3, Some 7], ptr_failure = no_failure\<rparr>"
  by code_simp

theorem extraction_is_a_fixpoint_of_validation_witness:
  "validate_and_normalize (\<lambda>x. x < 10)
     (ptr_nodes (extract_entity_hierarchy (\<lambda>x. x < 10) two_entities)) \<noteq> None"
  using extraction_is_a_fixpoint_of_validation [of "\<lambda>x. x < 10" two_entities]
  by (simp add: two_entities_extracted topology_succeeds_def no_failure_def)

text \<open>C13. Every entity with a transform component is extracted exactly once, with its local
  transform, an id that extends the id of its parent by its escaped name, and its parent in the list.\<close>

theorem extraction_covers_entities:
  assumes "topology_succeeds (extract_entity_hierarchy is_finite entities)"
  shows "\<exists>srcs. mset srcs = mset (sources entities) \<and>
    length srcs = length (ptr_nodes (extract_entity_hierarchy is_finite entities)) \<and>
    (\<forall>i < length srcs. describes_source (extract_entity_hierarchy is_finite entities) i (srcs ! i))"
  by (rule extraction_sources [OF assms])

theorem extraction_covers_entities_witness:
  "\<exists>srcs. mset srcs = mset (sources two_entities) \<and> length srcs = 2"
  using extraction_covers_entities [of "\<lambda>x. x < 10" two_entities]
  by (auto simp: two_entities_extracted topology_succeeds_def no_failure_def)

text \<open>Escaping is injective and hides every slash, so a path identifies the chain of names it was
  built from.\<close>

theorem paths_identify_name_chains:
  "inj escape_path_segment \<and> CHR ''/'' \<notin> set (escape_path_segment name) \<and>
   inj_on join_path {names. names \<noteq> []}"
  by (auto simp: inj_on_def escape_inj escape_no_slash dest: join_path_inj)

end
