(* ===== verification/Controller_Types.thy ===== *)
theory Controller_Types
  imports Scene_Types
begin

section \<open>Controllers as the scene sees them\<close>

text \<open>
  \<open>ScenePolytreeControllerTypes.h\<close> and \<open>ScenePolytreeController.h\<close>. A controller type id is
  an \<open>AZ::TypeId\<close>: a 128-bit value, null when zero, whose text form orders as the value does
  (a fixed number of upper-case hexadecimal digits). Batches and factories are abstract classes
  of the host: their methods are the fields of a record of functions over a batch state \<open>'b\<close>.
  A method that is given a command sink may call it any number of times and act on what the
  calls return, so it denotes a tree of sink calls, \<open>sink_program\<close>, that ends with its result.
\<close>

type_synonym type_id = "128 word"

datatype target_access = ta_read_only | ta_read_write

datatype controller_result =
    cr_success
  | cr_invalid_handle
  | cr_stale_handle
  | cr_input_closed
  | cr_invalid_input
  | cr_input_queue_full
  | cr_invalid_target
  | cr_read_only_target
  | cr_invalid_configuration
  | cr_construction_failed
  | cr_factory_not_found
  | cr_factory_already_registered
  | cr_factory_in_use

record target_token =
  tt_index :: u32
  tt_generation :: u32

definition token_valid :: "target_token \<Rightarrow> bool" where
  "token_valid t \<longleftrightarrow> tt_generation t \<noteq> 0"

record state_handle =
  st_index :: u32
  st_generation :: u32

definition state_handle_valid :: "state_handle \<Rightarrow> bool" where
  "state_handle_valid h \<longleftrightarrow> st_generation h \<noteq> 0"

record controller_handle =
  ch_instance :: instance_handle
  ch_type_id :: type_id
  ch_state :: state_handle

definition controller_valid :: "controller_handle \<Rightarrow> bool" where
  "controller_valid h \<longleftrightarrow> instance_valid (ch_instance h) \<and> ch_type_id h \<noteq> 0 \<and> state_handle_valid (ch_state h)"

record target_reference =
  tr_slot :: name
  tr_prefab_entity :: entity_id
  tr_binding_id :: name
  tr_access :: target_access

record resolved_target =
  rt_slot :: name
  rt_node :: scene_node_handle
  rt_token :: target_token
  rt_access :: target_access

record 'cfg controller_declaration =
  cd_declaration_id :: name
  cd_type_id :: type_id
  cd_execution_order :: int
  cd_provider_binding_id :: name
  cd_configuration :: "'cfg option"
  cd_targets :: "target_reference list"

record create_result =
  cc_code :: controller_result
  cc_state :: state_handle

definition create_succeeds :: "create_result \<Rightarrow> bool" where
  "create_succeeds r \<longleftrightarrow> cc_code r = cr_success \<and> state_handle_valid (cc_state r)"

definition no_controller :: controller_handle where
  "no_controller =
     \<lparr>ch_instance = \<lparr>ih_slot = no_slot, ih_spawner_generation = 0\<rparr>, ch_type_id = 0,
      ch_state = \<lparr>st_index = 0, st_generation = 0\<rparr>\<rparr>"

record lookup_result =
  lr_code :: controller_result
  lr_handle :: controller_handle

definition lookup_succeeds :: "lookup_result \<Rightarrow> bool" where
  "lookup_succeeds r \<longleftrightarrow> lr_code r = cr_success \<and> controller_valid (lr_handle r)"

definition map_controller_result :: "controller_result \<Rightarrow> result_code" where
  "map_controller_result code =
     (case code of
        cr_success \<Rightarrow> rc_success
      | cr_factory_not_found \<Rightarrow> rc_controller_factory_not_found
      | cr_invalid_configuration \<Rightarrow> rc_controller_invalid_configuration
      | cr_invalid_target \<Rightarrow> rc_controller_target_not_found
      | cr_construction_failed \<Rightarrow> rc_controller_construction_failed
      | _ \<Rightarrow> rc_controller_construction_failed)"

subsection \<open>Calls to a command sink\<close>

datatype ('x, 'v, 'r) sink_program =
    Finish 'r
  | Set_local_transform target_token 'x "controller_result \<Rightarrow> ('x, 'v, 'r) sink_program"
  | Set_velocity target_token 'v 'v "controller_result \<Rightarrow> ('x, 'v, 'r) sink_program"
  | Stop_motion target_token "controller_result \<Rightarrow> ('x, 'v, 'r) sink_program"
  | Get_local_transform target_token "controller_result \<times> 'x option \<Rightarrow> ('x, 'v, 'r) sink_program"

text \<open>The virtual methods of a batch, and of a factory.\<close>

record ('x, 'v, 'cfg, 'inp, 'b) batch_methods =
  bm_create_controller ::
    "'b \<Rightarrow> instance_handle \<Rightarrow> name \<Rightarrow> 'cfg \<Rightarrow> resolved_target list \<Rightarrow> ('x, 'v, create_result \<times> 'b) sink_program"
  bm_close_input :: "'b \<Rightarrow> state_handle \<Rightarrow> controller_result \<times> 'b"
  bm_destroy_controller :: "'b \<Rightarrow> state_handle \<Rightarrow> controller_result \<times> 'b"
  bm_submit_input :: "'b \<Rightarrow> state_handle \<Rightarrow> 'inp \<Rightarrow> ('x, 'v, controller_result \<times> 'b) sink_program"
  bm_has_running_controllers :: "'b \<Rightarrow> bool"
  bm_fixed_step_batch :: "'b \<Rightarrow> u64 \<times> int \<Rightarrow> ('x, 'v, 'b) sink_program"

record 'b controller_factory =
  cf_type_id :: type_id
  cf_create_batch :: "'b option"

end
