(* ===== verification/Generational_Pool.thy ===== *)
theory Generational_Pool
  imports Prelude
begin

section \<open>Pools of slots with generations\<close>

text \<open>
  The integration hands out indices with a generation in three places: the slots of a scene,
  the targets of its controllers and the public handles of its controllers. A generation that
  is bumped on release skips zero, the value of an invalid handle. This theory has the bump,
  how long it takes to return to a value, and the contract such a pool keeps, as a locale.
\<close>

subsection \<open>Generations\<close>

definition next_generation :: "'a::len word \<Rightarrow> 'a word" where
  "next_generation g = (if g + 1 = 0 then g + 1 + 1 else g + 1)"

lemma next_generation_nonzero [simp]: "next_generation g \<noteq> 0"
  by (auto simp: next_generation_def)

text \<open>In the order of the naturals from one, a bump is an increment modulo the number of
  non-zero values.\<close>

lemma next_generation_unat:
  fixes g :: "'a::len word"
  assumes "g \<noteq> 0"
  shows "unat (next_generation g) - 1 = (unat g - 1 + 1) mod (2 ^ LENGTH('a) - 1)"
proof (cases "g = - 1")
  case True
  then have "unat g = 2 ^ LENGTH('a) - 1" by (simp add: unsigned_minus_1_eq_mask mask_eq_exp_minus_1)
  moreover have "(2 :: nat) ^ LENGTH('a) \<ge> 2" by (metis One_nat_def len_gt_0 numeral_2_eq_2 power_increasing one_le_numeral Suc_leI power_one_right)
  ultimately have "unat g - 1 + 1 = 2 ^ LENGTH('a) - 1" by simp
  moreover have "next_generation g = 1" using True by (simp add: next_generation_def)
  ultimately show ?thesis by simp
next
  case False
  from False have bump: "unat (g + 1) = unat g + 1" by (rule unat_next)
  have pos: "unat g > 0" using assms by (simp add: unat_gt_0)
  have "unat (g + 1) < 2 ^ LENGTH('a)" by (rule unsigned_less)
  then have "unat g < 2 ^ LENGTH('a) - 1" using bump by simp
  moreover have "g + 1 \<noteq> 0" using bump by auto
  then have "next_generation g = g + 1" by (simp add: next_generation_def)
  ultimately show ?thesis using bump pos by simp
qed

lemma generation_after:
  fixes g :: "'a::len word"
  assumes "g \<noteq> 0"
  shows "unat ((next_generation ^^ k) g) - 1 = (unat g - 1 + k) mod (2 ^ LENGTH('a) - 1) \<and> (next_generation ^^ k) g \<noteq> 0"
proof (induction k)
  case 0
  have "unat g < 2 ^ LENGTH('a)" by (rule unsigned_less)
  moreover have "unat g > 0" using assms by (simp add: unat_gt_0)
  ultimately have "unat g - 1 < 2 ^ LENGTH('a) - 1" by linarith
  then show ?case using assms by simp
next
  case (Suc k)
  with next_generation_unat [of "(next_generation ^^ k) g"] show ?case by (simp add: mod_Suc_eq)
qed

lemma generation_cycle:
  fixes g :: "'a::len word"
  assumes "g \<noteq> 0"
  shows "(next_generation ^^ k) g = g \<longleftrightarrow> (2 ^ LENGTH('a) - 1) dvd k"
proof -
  let ?m = "2 ^ LENGTH('a) - 1 :: nat" and ?h = "(next_generation ^^ k) g"
  have g: "unat g > 0" "unat g < 2 ^ LENGTH('a)" using assms unsigned_less [of g] by (auto simp: unat_gt_0)
  have h: "unat ?h - 1 = (unat g - 1 + k) mod ?m" "unat ?h > 0" using generation_after [OF assms, of k] by (auto simp: unat_gt_0)
  have "?h = g \<longleftrightarrow> unat ?h = unat g" by (rule word_unat_eq_iff)
  also have "\<dots> \<longleftrightarrow> unat ?h - 1 = unat g - 1" using g h(2) by linarith
  also have "\<dots> \<longleftrightarrow> (unat g - 1 + k) mod ?m = (unat g - 1) mod ?m"
  proof -
    have "unat g - 1 < ?m" using g by linarith
    then show ?thesis using h(1) by simp
  qed
  also have "\<dots> \<longleftrightarrow> ?m dvd k"
    by (metis add.commute add_diff_cancel_right' le_add2 mod_eq_dvd_iff_nat)
  finally show ?thesis .
qed

text \<open>A generation that is bumped on every release comes back to a value only after a full cycle of
  the 4294967295 non-zero values: until then no handle of the same slot is issued twice.\<close>

theorem generations_return_after_a_full_cycle:
  assumes "g \<noteq> 0"
  shows "(next_generation ^^ k) (g :: u32) = g \<longleftrightarrow> 4294967295 dvd k"
  using generation_cycle [OF assms, of k] by simp

theorem generations_return_after_a_full_cycle_witness:
  "(next_generation ^^ 7) (4294967295 :: u32) \<noteq> 4294967295"
  using generations_return_after_a_full_cycle [of "4294967295 :: u32" 7] by simp

subsection \<open>The contract of a pool\<close>

datatype ('a, 'h) pool_op = Acquire 'a | Release 'h

text \<open>A run of operations, with the handles it has issued.\<close>

fun pool_run ::
  "('a \<Rightarrow> 'p \<Rightarrow> 'h option \<times> 'p) \<Rightarrow> ('h \<Rightarrow> 'p \<Rightarrow> 'p) \<Rightarrow> ('a, 'h) pool_op list \<Rightarrow> 'p \<Rightarrow> 'h list \<times> 'p" where
  "pool_run acquire release [] p = ([], p)"
| "pool_run acquire release (Acquire a # ops) p =
     (case acquire a p of (h, p) \<Rightarrow>
        (case pool_run acquire release ops p of (hs, p) \<Rightarrow>
           (case h of None \<Rightarrow> (hs, p) | Some h \<Rightarrow> (h # hs, p))))"
| "pool_run acquire release (Release h # ops) p = pool_run acquire release ops (release h p)"

locale generational_pool =
  fixes inv :: "'p \<Rightarrow> bool" and live :: "'p \<Rightarrow> 'h \<Rightarrow> bool"
    and acquire :: "'a \<Rightarrow> 'p \<Rightarrow> 'h option \<times> 'p" and release :: "'h \<Rightarrow> 'p \<Rightarrow> 'p"
  assumes acquire_inv: "inv p \<Longrightarrow> inv (snd (acquire a p))"
    and acquire_fresh: "inv p \<Longrightarrow> acquire a p = (Some h, p') \<Longrightarrow> \<not> live p h"
    and acquire_live: "inv p \<Longrightarrow> acquire a p = (Some h, p') \<Longrightarrow> live p' h' \<longleftrightarrow> h' = h \<or> live p h'"
    and acquire_full: "inv p \<Longrightarrow> acquire a p = (None, p') \<Longrightarrow> p' = p"
    and release_inv: "inv p \<Longrightarrow> inv (release h p)"
    and release_live: "inv p \<Longrightarrow> live (release h p) h' \<longleftrightarrow> live p h' \<and> h' \<noteq> h"
begin

text \<open>A handle that is not live becomes live only by being issued.\<close>

lemma stale_until_issued:
  "inv p \<Longrightarrow> \<not> live p h \<Longrightarrow> pool_run acquire release ops p = (hs, p') \<Longrightarrow> h \<notin> set hs \<Longrightarrow> \<not> live p' h"
proof (induction ops arbitrary: p hs)
  case (Cons oper ops)
  show ?case
  proof (cases oper)
    case (Acquire a)
    obtain r p1 where a: "acquire a p = (r, p1)" by fastforce
    obtain hs1 where rest: "pool_run acquire release ops p1 = (hs1, p')"
      and hs: "hs = (case r of None \<Rightarrow> hs1 | Some h \<Rightarrow> h # hs1)"
      using Cons.prems(3) Acquire a by (auto split: prod.splits option.splits)
    then have r: "r \<noteq> Some h" and new: "h \<notin> set hs1" using Cons.prems(4) by (auto split: option.splits)
    have "\<not> live p1 h"
      using a r Cons.prems(1,2) acquire_live [of p a _ p1 h] acquire_full [of p a p1] by (cases r) auto
    moreover have "inv p1" using acquire_inv [OF Cons.prems(1), of a] a by simp
    ultimately show ?thesis using Cons.IH [OF _ _ rest new] by blast
  next
    case (Release k)
    with Cons.IH [OF release_inv [OF Cons.prems(1)]] Cons.prems show ?thesis by (auto simp: release_live)
  qed
qed simp

text \<open>A live handle stays live until it is released.\<close>

lemma live_until_released:
  "inv p \<Longrightarrow> live p h \<Longrightarrow> pool_run acquire release ops p = (hs, p') \<Longrightarrow> Release h \<notin> set ops \<Longrightarrow> live p' h"
proof (induction ops arbitrary: p hs)
  case (Cons oper ops)
  show ?case
  proof (cases oper)
    case (Acquire a)
    obtain r p1 where a: "acquire a p = (r, p1)" by fastforce
    obtain hs1 where rest: "pool_run acquire release ops p1 = (hs1, p')"
      using Cons.prems(3) Acquire a by (auto split: prod.splits option.splits)
    have "live p1 h"
      using a Cons.prems(1,2) acquire_live [of p a _ p1 h] acquire_full [of p a p1] by (cases r) auto
    moreover have "inv p1" using acquire_inv [OF Cons.prems(1), of a] a by simp
    ultimately show ?thesis using Cons.IH [OF _ _ rest] Cons.prems(4) by auto
  next
    case (Release k)
    with Cons.IH [OF release_inv [OF Cons.prems(1)]] Cons.prems show ?thesis by (auto simp: release_live)
  qed
qed simp

lemma run_inv: "inv p \<Longrightarrow> inv (snd (pool_run acquire release ops p))"
proof (induction ops arbitrary: p)
  case (Cons oper ops)
  show ?case
  proof (cases oper)
    case (Acquire a)
    obtain r p1 where a: "acquire a p = (r, p1)" by fastforce
    with acquire_inv [OF Cons.prems, of a] have "inv p1" by simp
    from Cons.IH [OF this] Acquire a show ?thesis by (cases "pool_run acquire release ops p1"; cases r) simp_all
  next
    case (Release h)
    with Cons.IH [OF release_inv [OF Cons.prems]] show ?thesis by simp
  qed
qed simp

end

end
