(* ===== verification/Scene_State.thy ===== *)
theory Scene_State
  imports Motion_Evaluation Controller_Types Generational_Pool
begin

section \<open>The state of a scene instance\<close>

text \<open>
  \<open>SceneInstance.h\<close> and the lookups of \<open>SceneInstance.cpp\<close>, with the policy of
  \<open>AzTransformPolicy.cpp\<close>. The engine's math is a record of functions: transforms \<open>'x\<close>,
  vectors \<open>'v\<close>, quaternions \<open>'q\<close> and floats \<open>'f\<close>. \<open>AzTransformValue\<close> only wraps a transform.
  The runtime scene is its frozen topology and its transform state. The scratch vectors that
  every use clears first (\<open>m_controllerMotionUpdates\<close>, \<open>m_changedScratch\<close>) are local values here.
  Durations are integers.
\<close>

subsection \<open>Engine math and the transform policy\<close>

record ('x, 'v, 'q, 'f) az_math =
  az_identity :: 'x
  az_mul :: "'x \<Rightarrow> 'x \<Rightarrow> 'x"
  az_inverse :: "'x \<Rightarrow> 'x"
  az_is_finite :: "'x \<Rightarrow> bool"
  az_translation :: "'x \<Rightarrow> 'v"
  az_set_translation :: "'v \<Rightarrow> 'x \<Rightarrow> 'x"
  az_rotation :: "'x \<Rightarrow> 'q"
  az_set_rotation :: "'q \<Rightarrow> 'x \<Rightarrow> 'x"
  az_zero :: 'v
  az_add :: "'v \<Rightarrow> 'v \<Rightarrow> 'v"
  az_scale :: "'v \<Rightarrow> 'f \<Rightarrow> 'v"
  az_vector_is_finite :: "'v \<Rightarrow> bool"
  az_vector_is_zero :: "'v \<Rightarrow> bool"
  az_rotate :: "'q \<Rightarrow> 'v \<Rightarrow> 'v"
  az_euler :: "'v \<Rightarrow> 'q"
  az_quaternion_mul :: "'q \<Rightarrow> 'q \<Rightarrow> 'q"
  az_normalized :: "'q \<Rightarrow> 'q"
  az_float_of :: "int \<Rightarrow> 'f"
  az_float_div :: "'f \<Rightarrow> 'f \<Rightarrow> 'f"

definition policy_compose :: "('x, 'v, 'q, 'f) az_math \<Rightarrow> 'x \<Rightarrow> 'x \<Rightarrow> 'x" where
  "policy_compose m parent_world loc = az_mul m parent_world loc"

definition policy_integrate ::
  "('x, 'v, 'q, 'f) az_math \<Rightarrow> 'x \<Rightarrow> ('v, 'v) motion_state \<Rightarrow> fixed_motion_step \<Rightarrow> 'x" where
  "policy_integrate m loc state step =
     (let seconds = az_float_div m (az_float_of m (step_delta step)) (az_float_of m 1000000000);
          moved = az_set_translation m
            (az_add m (az_translation m loc)
               (az_scale m (az_rotate m (az_rotation m loc) (linear_velocity state)) seconds)) loc;
          delta = az_euler m (az_scale m (angular_velocity state) seconds)
      in az_set_rotation m (az_normalized m (az_quaternion_mul m (az_rotation m loc) delta)) moved)"

definition policy_is_stationary :: "('x, 'v, 'q, 'f) az_math \<Rightarrow> ('v, 'v) motion_state \<Rightarrow> bool" where
  "policy_is_stationary m state \<longleftrightarrow>
     az_vector_is_zero m (linear_velocity state) \<and> az_vector_is_zero m (angular_velocity state)"

subsection \<open>Data\<close>

record 'x runtime_node_binding =
  rb_binding_id :: name
  rb_node :: node_handle
  rb_initial_local :: 'x

record 'x runtime_slot =
  rs_nodes :: "'x runtime_node_binding list"
  rs_generation :: u32
  rs_reserved :: bool

record 'x runtime_partition =
  rp_partition :: u64
  rp_slots :: "'x runtime_slot list"

record 'x entity_target =
  et_entity :: entity_id
  et_node_to_target :: 'x

definition no_target :: "('x, 'v, 'q, 'f) az_math \<Rightarrow> 'x entity_target" where
  "no_target m = \<lparr>et_entity = None, et_node_to_target = az_identity m\<rparr>"

record ('x, 'v) controller_target_record =
  ct_node :: scene_node_handle
  ct_runtime_node :: "node_handle option"
  ct_access :: target_access
  ct_pending_local :: 'x
  ct_pending_motion :: "('v, 'v) motion_state"
  ct_local_epoch :: u64
  ct_motion_epoch :: u64
  ct_generation :: u32
  ct_active :: bool

definition new_target_record :: "('x, 'v, 'q, 'f) az_math \<Rightarrow> ('x, 'v) controller_target_record" where
  "new_target_record m =
     \<lparr>ct_node = no_node, ct_runtime_node = None, ct_access = ta_read_only,
      ct_pending_local = az_identity m,
      ct_pending_motion = \<lparr>linear_velocity = az_zero m, angular_velocity = az_zero m\<rparr>,
      ct_local_epoch = 0, ct_motion_epoch = 0, ct_generation = 1, ct_active = False\<rparr>"

record controller_record =
  cn_handle :: controller_handle
  cn_batch_state :: state_handle
  cn_declaration_id :: name
  cn_targets :: "target_token list"
  cn_input_closed :: bool

record 'b controller_batch_entry =
  be_type_id :: type_id
  be_batch :: 'b

record ('x, 'v, 'b) scene_instance =
  si_topology :: polytree
  si_state :: "'x transform_state"
  si_partitions :: "'x runtime_partition list"
  si_motion :: "('v, 'v) active_motion_set"
  si_update_workspace :: "('v, 'v) active_motion_update_workspace"
  si_entity_bindings :: "'x entity_target list"
  si_entity_to_node :: "entity_id \<Rightarrow> node_handle option"
  si_batches :: "'b controller_batch_entry list"
  si_controllers :: "controller_record list"
  si_targets :: "('x, 'v) controller_target_record list"
  si_free_targets :: "u32 list"
  si_write_owners :: "u32 list"
  si_local_touched :: "u32 list"
  si_motion_touched :: "u32 list"
  si_sequence :: fixed_step_sequence
  si_motion_workspace :: "'x motion_evaluation_workspace"
  si_transform_workspace :: transform_evaluation_workspace
  si_evaluated_changes :: "node_handle list"
  si_evaluated_stamp :: "u64 list"
  si_topological_rank :: "nat list"
  si_accumulator :: int
  si_last_synchronized_revision :: u64
  si_max_catch_up :: u32
  si_last_synchronized_count :: u32
  si_evaluated_epoch :: u64
  si_command_epoch :: u64
  si_next_controller :: u32
  si_controller_generation :: u32
  si_direct_batch_valid :: bool
  si_active :: bool

subsection \<open>Construction\<close>

definition rank_positions :: "node_handle list \<Rightarrow> nat list \<Rightarrow> nat list" where
  "rank_positions order ranks =
     fold (\<lambda>index ranks. ranks[order ! index := index]) [0..<length order] ranks"

definition new_instance ::
  "('x, 'v, 'q, 'f) az_math \<Rightarrow> polytree \<Rightarrow> 'x transform_state \<Rightarrow> 'x runtime_partition list \<Rightarrow>
   int \<Rightarrow> u32 \<Rightarrow> ('x, 'v, 'b) scene_instance" where
  "new_instance m topology state partitions fixed_step max_catch_up =
     (let size = state_size state in
      \<lparr>si_topology = topology, si_state = state, si_partitions = partitions,
       si_motion = new_motion_set (pt_identity topology) (node_count topology),
       si_update_workspace = new_update_workspace,
       si_entity_bindings = replicate size (no_target m), si_entity_to_node = (\<lambda>_. None),
       si_batches = [], si_controllers = [], si_targets = [], si_free_targets = [],
       si_write_owners = replicate size 0, si_local_touched = [], si_motion_touched = [],
       si_sequence = \<lparr>fs_delta = fixed_step, fs_next_tick = 0\<rparr>,
       si_motion_workspace = new_motion_workspace, si_transform_workspace = new_workspace,
       si_evaluated_changes = [], si_evaluated_stamp = replicate size 0,
       si_topological_rank = rank_positions (topological_order topology) (replicate size 0),
       si_accumulator = 0, si_last_synchronized_revision = 0, si_max_catch_up = max_catch_up,
       si_last_synchronized_count = 0, si_evaluated_epoch = 1, si_command_epoch = 1,
       si_next_controller = 1, si_controller_generation = 1, si_direct_batch_valid = True,
       si_active = False\<rparr>)"

subsection \<open>Lookups\<close>

definition find_partition :: "'x runtime_partition list \<Rightarrow> spawner_handle \<Rightarrow> nat option" where
  "find_partition partitions spawner =
     (if spawner_valid spawner \<and> ph_generation spawner = 1
      then find_index (\<lambda>p. rp_partition p = ph_partition spawner) partitions else None)"

definition slot_of :: "'x runtime_partition list \<Rightarrow> nat \<times> nat \<Rightarrow> 'x runtime_slot" where
  "slot_of partitions at = rp_slots (partitions ! fst at) ! snd at"

definition find_slot :: "'x runtime_partition list \<Rightarrow> slot_handle \<Rightarrow> (nat \<times> nat) option" where
  "find_slot partitions slot =
     (case find_partition partitions (sh_spawner slot) of
        None \<Rightarrow> None
      | Some p \<Rightarrow>
          if length (rp_slots (partitions ! p)) \<le> unat (sh_slot slot) then None
          else let at = (p, unat (sh_slot slot)); s = slot_of partitions at
               in if rs_reserved s \<and> rs_generation s = sh_generation slot then Some at else None)"

definition update_slot ::
  "nat \<times> nat \<Rightarrow> ('x runtime_slot \<Rightarrow> 'x runtime_slot) \<Rightarrow> 'x runtime_partition list \<Rightarrow> 'x runtime_partition list" where
  "update_slot at f partitions =
     partitions[fst at := (partitions ! fst at)\<lparr>rp_slots :=
       (rp_slots (partitions ! fst at))[snd at := f (slot_of partitions at)]\<rparr>]"

definition find_binding :: "name \<Rightarrow> 'x runtime_node_binding list \<Rightarrow> 'x runtime_node_binding option" where
  "find_binding binding_id nodes = find (\<lambda>n. rb_binding_id n = binding_id) nodes"

definition find_node_binding :: "'x runtime_partition list \<Rightarrow> scene_node_handle \<Rightarrow> 'x runtime_node_binding option" where
  "find_node_binding partitions node =
     (case find_slot partitions (nh_slot node) of
        None \<Rightarrow> None
      | Some at \<Rightarrow>
          if nh_binding_id node = [] then None
          else find_binding (nh_binding_id node) (rs_nodes (slot_of partitions at)))"

definition resolve_node :: "slot_handle \<Rightarrow> name \<Rightarrow> ('x, 'v, 'b) scene_instance \<Rightarrow> node_result" where
  "resolve_node slot binding_id si =
     (case find_slot (si_partitions si) slot of
        None \<Rightarrow> \<lparr>nr_code = rc_stale_handle, nr_handle = no_node\<rparr>
      | Some at \<Rightarrow>
          (case find_binding binding_id (rs_nodes (slot_of (si_partitions si) at)) of
             None \<Rightarrow> \<lparr>nr_code = rc_invalid_binding, nr_handle = no_node\<rparr>
           | Some found \<Rightarrow>
               \<lparr>nr_code = rc_success, nr_handle = \<lparr>nh_slot = slot, nh_binding_id = rb_binding_id found\<rparr>\<rparr>))"

definition resolve_entity_node :: "slot_handle \<Rightarrow> entity_id \<Rightarrow> ('x, 'v, 'b) scene_instance \<Rightarrow> node_result" where
  "resolve_entity_node slot entity si =
     (case find_slot (si_partitions si) slot of
        None \<Rightarrow> \<lparr>nr_code = rc_stale_handle, nr_handle = no_node\<rparr>
      | Some at \<Rightarrow>
          (case si_entity_to_node si entity of
             None \<Rightarrow> \<lparr>nr_code = rc_invalid_binding, nr_handle = no_node\<rparr>
           | Some node \<Rightarrow>
               (case find (\<lambda>n. rb_node n = node) (rs_nodes (slot_of (si_partitions si) at)) of
                  None \<Rightarrow> \<lparr>nr_code = rc_partition_mismatch, nr_handle = no_node\<rparr>
                | Some binding \<Rightarrow>
                    \<lparr>nr_code = rc_success, nr_handle = \<lparr>nh_slot = slot, nh_binding_id = rb_binding_id binding\<rparr>\<rparr>)))"

definition find_batch :: "type_id \<Rightarrow> 'b controller_batch_entry list \<Rightarrow> nat option" where
  "find_batch type_id batches = find_index (\<lambda>e. be_type_id e = type_id) batches"

definition has_controllers :: "slot_handle \<Rightarrow> controller_record list \<Rightarrow> bool" where
  "has_controllers slot controllers \<longleftrightarrow> (\<exists>r \<in> set controllers. ih_slot (ch_instance (cn_handle r)) = slot)"

definition has_controller_type :: "type_id \<Rightarrow> controller_record list \<Rightarrow> bool" where
  "has_controller_type type_id controllers \<longleftrightarrow> (\<exists>r \<in> set controllers. ch_type_id (cn_handle r) = type_id)"

definition find_controller :: "instance_handle \<Rightarrow> name \<Rightarrow> controller_record list \<Rightarrow> lookup_result" where
  "find_controller inst declaration_id controllers =
     (case find (\<lambda>r. ch_instance (cn_handle r) = inst \<and> cn_declaration_id r = declaration_id) controllers of
        Some found \<Rightarrow> \<lparr>lr_code = cr_success, lr_handle = cn_handle found\<rparr>
      | None \<Rightarrow> \<lparr>lr_code = cr_stale_handle, lr_handle = no_controller\<rparr>)"

end
