(* ===== verification/Scene_Slots.thy ===== *)
theory Scene_Slots
  imports Scene_State
begin

section \<open>Slots: reserving, placing, binding and releasing\<close>

text \<open>
  The slot operations of \<open>SceneInstance.cpp\<close>. Reserving and releasing work on the partitions
  alone; binding keeps two maps between nodes and entities; clearing a slot drops its bindings
  and motion and restores its initial locals.
\<close>

subsection \<open>Operations\<close>

definition reserve_in :: "spawner_handle \<Rightarrow> 'x runtime_partition list \<Rightarrow> slot_result \<times> 'x runtime_partition list" where
  "reserve_in spawner partitions =
     (case find_partition partitions spawner of
        None \<Rightarrow> (\<lparr>sr_code = rc_partition_mismatch, sr_handle = no_slot\<rparr>, partitions)
      | Some p \<Rightarrow>
          (case find_index (\<lambda>s. \<not> rs_reserved s) (rp_slots (partitions ! p)) of
             None \<Rightarrow> (\<lparr>sr_code = rc_slot_unavailable, sr_handle = no_slot\<rparr>, partitions)
           | Some i \<Rightarrow>
               (\<lparr>sr_code = rc_success,
                 sr_handle = \<lparr>sh_spawner = spawner, sh_slot = word_of_nat i,
                   sh_generation = rs_generation (slot_of partitions (p, i))\<rparr>\<rparr>,
                update_slot (p, i) (\<lambda>s. s\<lparr>rs_reserved := True\<rparr>) partitions)))"

definition reserve_slot :: "spawner_handle \<Rightarrow> ('x, 'v, 'b) scene_instance \<Rightarrow> slot_result \<times> ('x, 'v, 'b) scene_instance" where
  "reserve_slot spawner si =
     (case reserve_in spawner (si_partitions si) of (r, partitions) \<Rightarrow> (r, si\<lparr>si_partitions := partitions\<rparr>))"

definition place_step ::
  "('x, 'v, 'q, 'f) az_math \<Rightarrow> polytree \<Rightarrow> 'x \<Rightarrow> 'x runtime_node_binding \<Rightarrow>
   bool \<times> 'x transform_state \<Rightarrow> bool \<times> 'x transform_state" where
  "place_step m t root_world node = (\<lambda>(applied, st).
     if parent t (rb_node node) \<noteq> None \<or> \<not> applied then (applied, st)
     else case set_local (rb_node node) (az_mul m root_world (rb_initial_local node)) st of
       (error, st) \<Rightarrow> (error = te_none, st))"

definition place_slot ::
  "('x, 'v, 'q, 'f) az_math \<Rightarrow> slot_handle \<Rightarrow> 'x \<Rightarrow> ('x, 'v, 'b) scene_instance \<Rightarrow>
   result_code \<times> ('x, 'v, 'b) scene_instance" where
  "place_slot m slot root_world si =
     (case find_slot (si_partitions si) slot of
        None \<Rightarrow> (rc_stale_handle, si)
      | Some at \<Rightarrow>
          if \<not> az_is_finite m root_world then (rc_invalid_transform, si)
          else case fold (place_step m (si_topology si) root_world) (rs_nodes (slot_of (si_partitions si) at))
                 (True, si_state si) of
            (applied, st) \<Rightarrow> (if applied then rc_success else rc_invalid_transform, si\<lparr>si_state := st\<rparr>))"

definition invalid_bindings ::
  "('x, 'v, 'q, 'f) az_math \<Rightarrow> 'x runtime_node_binding list \<Rightarrow> 'x entity_binding list \<Rightarrow> bool" where
  "invalid_bindings m nodes bindings \<longleftrightarrow>
     length bindings \<noteq> length nodes \<or>
     (\<exists>b \<in> set bindings. eb_binding_id b = [] \<or> eb_entity b = None \<or> \<not> az_is_finite m (eb_node_to_entity b))"

definition duplicate_bindings :: "'x entity_binding list \<Rightarrow> bool" where
  "duplicate_bindings bindings \<longleftrightarrow>
     (\<exists>b \<in> set bindings. count_list (map eb_binding_id bindings) (eb_binding_id b) \<noteq> 1 \<or>
        count_list (map eb_entity bindings) (eb_entity b) \<noteq> 1)"

definition missing_binding :: "'x runtime_node_binding list \<Rightarrow> 'x entity_binding list \<Rightarrow> bool" where
  "missing_binding nodes bindings \<longleftrightarrow> (\<exists>b \<in> set bindings. find_binding (eb_binding_id b) nodes = None)"

definition aliases_another_node ::
  "'x entity_target list \<Rightarrow> 'x runtime_node_binding list \<Rightarrow> 'x entity_binding list \<Rightarrow> bool" where
  "aliases_another_node targets nodes bindings \<longleftrightarrow>
     (\<exists>b \<in> set bindings.
        case find_index (\<lambda>t. et_entity t = eb_entity b) targets of
          None \<Rightarrow> False
        | Some existing \<Rightarrow> existing \<notin> rb_node ` set nodes)"

text \<open>\<open>emplace\<close> keeps an entry that is there.\<close>

definition bind_node ::
  "'x runtime_node_binding list \<Rightarrow> 'x entity_binding \<Rightarrow> ('x, 'v, 'b) scene_instance \<Rightarrow> ('x, 'v, 'b) scene_instance" where
  "bind_node nodes b si =
     (case find_binding (eb_binding_id b) nodes of
        None \<Rightarrow> si
      | Some n \<Rightarrow>
          si\<lparr>si_entity_bindings := (si_entity_bindings si)[rb_node n :=
                \<lparr>et_entity = eb_entity b, et_node_to_target = eb_node_to_entity b\<rparr>],
             si_entity_to_node :=
               (if si_entity_to_node si (eb_entity b) = None
                then (si_entity_to_node si)(eb_entity b \<mapsto> rb_node n) else si_entity_to_node si),
             si_state := snd (mark_dirty (rb_node n) (si_state si))\<rparr>)"

definition bind_slot ::
  "('x, 'v, 'q, 'f) az_math \<Rightarrow> slot_handle \<Rightarrow> 'x entity_binding list \<Rightarrow> ('x, 'v, 'b) scene_instance \<Rightarrow>
   result_code \<times> ('x, 'v, 'b) scene_instance" where
  "bind_slot m slot bindings si =
     (case find_slot (si_partitions si) slot of
        None \<Rightarrow> (rc_stale_handle, si)
      | Some at \<Rightarrow>
          let nodes = rs_nodes (slot_of (si_partitions si) at)
          in if invalid_bindings m nodes bindings then (rc_invalid_binding, si)
             else if duplicate_bindings bindings then (rc_invalid_binding, si)
             else if missing_binding nodes bindings then (rc_partition_mismatch, si)
             else if aliases_another_node (si_entity_bindings si) nodes bindings then (rc_invalid_binding, si)
             else (rc_success, (fold (bind_node nodes) bindings si)\<lparr>si_active := True\<rparr>))"

definition unbind_node ::
  "('x, 'v, 'q, 'f) az_math \<Rightarrow> 'x runtime_node_binding \<Rightarrow> ('x, 'v, 'b) scene_instance \<Rightarrow> ('x, 'v, 'b) scene_instance" where
  "unbind_node m n si =
     si\<lparr>si_entity_to_node := (si_entity_to_node si)(et_entity (si_entity_bindings si ! rb_node n) := None),
        si_entity_bindings := (si_entity_bindings si)[rb_node n := no_target m]\<rparr>"

definition unbind_slot ::
  "('x, 'v, 'q, 'f) az_math \<Rightarrow> slot_handle \<Rightarrow> ('x, 'v, 'b) scene_instance \<Rightarrow>
   result_code \<times> ('x, 'v, 'b) scene_instance" where
  "unbind_slot m slot si =
     (case find_slot (si_partitions si) slot of
        None \<Rightarrow> (rc_stale_handle, si)
      | Some at \<Rightarrow>
          if has_controllers slot (si_controllers si) then (rc_controllers_active, si)
          else (rc_success, fold (unbind_node m) (rs_nodes (slot_of (si_partitions si) at)) si))"

definition clear_node ::
  "('x, 'v, 'q, 'f) az_math \<Rightarrow> 'x runtime_node_binding \<Rightarrow> ('x, 'v, 'b) scene_instance \<Rightarrow> ('x, 'v, 'b) scene_instance" where
  "clear_node m n si =
     (let si = unbind_node m n si
      in si\<lparr>si_motion := snd (deactivate (rb_node n) (si_motion si)),
            si_state := snd (set_local (rb_node n) (rb_initial_local n) (si_state si))\<rparr>)"

definition clear_slot ::
  "('x, 'v, 'q, 'f) az_math \<Rightarrow> 'x runtime_slot \<Rightarrow> ('x, 'v, 'b) scene_instance \<Rightarrow> ('x, 'v, 'b) scene_instance" where
  "clear_slot m slot si = fold (clear_node m) (rs_nodes slot) si"

definition reset_slot ::
  "('x, 'v, 'q, 'f) az_math \<Rightarrow> slot_handle \<Rightarrow> ('x, 'v, 'b) scene_instance \<Rightarrow>
   result_code \<times> ('x, 'v, 'b) scene_instance" where
  "reset_slot m slot si =
     (case find_slot (si_partitions si) slot of
        None \<Rightarrow> (rc_stale_handle, si)
      | Some at \<Rightarrow>
          if has_controllers slot (si_controllers si) then (rc_controllers_active, si)
          else (rc_success, clear_slot m (slot_of (si_partitions si) at) si))"

definition release_in :: "slot_handle \<Rightarrow> 'x runtime_partition list \<Rightarrow> 'x runtime_partition list" where
  "release_in slot partitions =
     (case find_slot partitions slot of
        None \<Rightarrow> partitions
      | Some at \<Rightarrow>
          update_slot at (\<lambda>s. s\<lparr>rs_reserved := False, rs_generation := next_generation (rs_generation s)\<rparr>) partitions)"

definition release_slot ::
  "('x, 'v, 'q, 'f) az_math \<Rightarrow> slot_handle \<Rightarrow> ('x, 'v, 'b) scene_instance \<Rightarrow>
   result_code \<times> ('x, 'v, 'b) scene_instance" where
  "release_slot m slot si =
     (case find_slot (si_partitions si) slot of
        None \<Rightarrow> (rc_stale_handle, si)
      | Some at \<Rightarrow>
          if has_controllers slot (si_controllers si) then (rc_controllers_active, si)
          else (rc_success,
            let si = clear_slot m (slot_of (si_partitions si) at) si
            in si\<lparr>si_partitions := release_in slot (si_partitions si)\<rparr>))"

definition set_scene_active :: "bool \<Rightarrow> ('x, 'v, 'b) scene_instance \<Rightarrow> ('x, 'v, 'b) scene_instance" where
  "set_scene_active active si =
     (let si = si\<lparr>si_active := active\<rparr>
      in if active then si else si\<lparr>si_motion := clear_motion (si_motion si), si_accumulator := 0\<rparr>)"

definition correct_local ::
  "scene_node_handle \<Rightarrow> 'x \<Rightarrow> ('x, 'v, 'b) scene_instance \<Rightarrow> bool \<times> ('x, 'v, 'b) scene_instance" where
  "correct_local node loc si =
     (case find_node_binding (si_partitions si) node of
        None \<Rightarrow> (False, si)
      | Some n \<Rightarrow>
          (case set_local (rb_node n) loc (si_state si) of
             (error, st) \<Rightarrow> (error = te_none, si\<lparr>si_state := st\<rparr>)))"

subsection \<open>The slots of a spawner are a generational pool\<close>

definition slots_ok :: "'x runtime_partition list \<Rightarrow> bool" where
  "slots_ok partitions \<longleftrightarrow>
     (\<forall>p \<in> set partitions. length (rp_slots p) \<le> 2 ^ 32 \<and> (\<forall>s \<in> set (rp_slots p). rs_generation s \<noteq> 0))"

definition pool_handle :: "spawner_handle \<Rightarrow> u32 \<times> u32 \<Rightarrow> slot_handle" where
  "pool_handle spawner h = \<lparr>sh_spawner = spawner, sh_slot = fst h, sh_generation = snd h\<rparr>"

definition slot_live :: "spawner_handle \<Rightarrow> 'x runtime_partition list \<Rightarrow> u32 \<times> u32 \<Rightarrow> bool" where
  "slot_live spawner partitions h \<longleftrightarrow> find_slot partitions (pool_handle spawner h) \<noteq> None"

definition acquire_slot ::
  "spawner_handle \<Rightarrow> 'x runtime_partition list \<Rightarrow> (u32 \<times> u32) option \<times> 'x runtime_partition list" where
  "acquire_slot spawner partitions =
     (case reserve_in spawner partitions of (r, partitions) \<Rightarrow>
        (if sr_code r = rc_success then Some (sh_slot (sr_handle r), sh_generation (sr_handle r)) else None,
         partitions))"

definition retire_slot :: "spawner_handle \<Rightarrow> u32 \<times> u32 \<Rightarrow> 'x runtime_partition list \<Rightarrow> 'x runtime_partition list" where
  "retire_slot spawner h partitions = release_in (pool_handle spawner h) partitions"

lemma find_index_map: "find_index (\<lambda>x. P (f x)) xs = find_index P (map f xs)"
  by (induction xs) auto

lemma update_slot_ids [simp]: "map rp_partition (update_slot at f ps) = map rp_partition ps"
  by (cases "fst at < length ps") (simp_all add: update_slot_def map_update list_update_same_conv list_update_beyond)

lemma find_partition_update [simp]: "find_partition (update_slot at f ps) = find_partition ps"
  by (rule ext) (simp add: find_partition_def find_index_map [of "\<lambda>x. x = _" rp_partition])

lemma length_update_slot [simp]: "length (update_slot at f ps) = length ps"
  by (simp add: update_slot_def)

lemma slots_update [simp]:
  "length (rp_slots (update_slot at f ps ! q)) = length (rp_slots (ps ! q))"
  by (cases "fst at < length ps"; cases "q = fst at") (simp_all add: update_slot_def list_update_beyond)

lemma slot_of_update:
  assumes "fst at < length ps" and "snd at < length (rp_slots (ps ! fst at))"
  shows "slot_of (update_slot at f ps) at' = (if at' = at then f (slot_of ps at) else slot_of ps at')"
  using assms by (cases at; cases at'; cases "fst at' = fst at"; cases "snd at' = snd at")
    (auto simp: slot_of_def update_slot_def)

lemma find_partition_bound: "find_partition ps sp = Some p \<Longrightarrow> p < length ps"
  by (auto simp: find_partition_def split: if_splits dest: find_index_SomeD)

lemma find_slot_iff:
  "find_slot ps h = Some at \<longleftrightarrow>
     find_partition ps (sh_spawner h) = Some (fst at) \<and> snd at = unat (sh_slot h) \<and>
     snd at < length (rp_slots (ps ! fst at)) \<and> rs_reserved (slot_of ps at) \<and>
     rs_generation (slot_of ps at) = sh_generation h"
  by (cases at) (auto simp: find_slot_def Let_def split: option.splits)

lemma find_slot_bound: "find_slot ps h = Some at \<Longrightarrow> fst at < length ps \<and> snd at < length (rp_slots (ps ! fst at))"
  by (auto simp: find_slot_iff dest: find_partition_bound)

lemma slot_of_mem:
  "fst at < length ps \<Longrightarrow> snd at < length (rp_slots (ps ! fst at)) \<Longrightarrow>
   \<exists>p \<in> set ps. slot_of ps at \<in> set (rp_slots p)"
  unfolding slot_of_def by (intro bexI [of _ "ps ! fst at"]) simp_all

lemma slots_ok_update:
  assumes "slots_ok ps" and "fst at < length ps" and "snd at < length (rp_slots (ps ! fst at))"
    and "rs_generation (f (slot_of ps at)) \<noteq> 0"
  shows "slots_ok (update_slot at f ps)"
  unfolding slots_ok_def
proof (intro ballI conjI)
  fix p assume "p \<in> set (update_slot at f ps)"
  then consider "p \<in> set ps" |
    "p = (ps ! fst at)\<lparr>rp_slots := (rp_slots (ps ! fst at))[snd at := f (slot_of ps at)]\<rparr>"
    unfolding update_slot_def using set_update_subset_insert by fast
  note cases = this
  have mem: "ps ! fst at \<in> set ps" using assms(2) by simp
  from cases show "length (rp_slots p) \<le> 2 ^ 32"
    using assms(1) mem by cases (auto simp: slots_ok_def)
  fix s assume s: "s \<in> set (rp_slots p)"
  from cases show "rs_generation s \<noteq> 0"
  proof cases
    case 1
    with s assms(1) show ?thesis by (auto simp: slots_ok_def)
  next
    case 2
    with s have "s \<in> insert (f (slot_of ps at)) (set (rp_slots (ps ! fst at)))"
      using set_update_subset_insert by fastforce
    with assms(1,4) mem show ?thesis by (auto simp: slots_ok_def)
  qed
qed

lemma reserve_in_Some:
  assumes "acquire_slot spawner ps = (Some h, ps')"
  obtains p i where "find_partition ps spawner = Some p" "i < length (rp_slots (ps ! p))"
    "\<not> rs_reserved (slot_of ps (p, i))" "h = (word_of_nat i, rs_generation (slot_of ps (p, i)))"
    "ps' = update_slot (p, i) (\<lambda>s. s\<lparr>rs_reserved := True\<rparr>) ps"
  using assms
  by (auto simp: acquire_slot_def reserve_in_def slot_of_def split: option.splits dest: find_index_SomeD)

lemma reserve_in_None: "acquire_slot spawner ps = (None, ps') \<Longrightarrow> ps' = ps"
  by (auto simp: acquire_slot_def reserve_in_def split: option.splits)

lemma index_fits:
  assumes "slots_ok ps" and "p < length ps" and "i < length (rp_slots (ps ! p))"
  shows "unat (word_of_nat i :: u32) = i"
proof -
  have "length (rp_slots (ps ! p)) \<le> 2 ^ 32" using assms(1,2) by (auto simp: slots_ok_def)
  with assms(3) show ?thesis by (simp add: unsigned_of_nat take_bit_nat_eq_self)
qed

lemma slot_live_iff:
  "slot_live spawner ps h \<longleftrightarrow>
     (\<exists>p. find_partition ps spawner = Some p \<and> unat (fst h) < length (rp_slots (ps ! p)) \<and>
        rs_reserved (slot_of ps (p, unat (fst h))) \<and> rs_generation (slot_of ps (p, unat (fst h))) = snd h)"
  by (auto simp: slot_live_def find_slot_iff pool_handle_def)

lemma acquire_slot_effect:
  assumes "slots_ok ps" and "acquire_slot spawner ps = (Some h, ps')"
  shows "slots_ok ps' \<and> \<not> slot_live spawner ps h \<and> (\<forall>h'. slot_live spawner ps' h' \<longleftrightarrow> h' = h \<or> slot_live spawner ps h')"
proof -
  from assms(2) obtain p i where p: "find_partition ps spawner = Some p" and i: "i < length (rp_slots (ps ! p))"
    and free: "\<not> rs_reserved (slot_of ps (p, i))" and h: "h = (word_of_nat i, rs_generation (slot_of ps (p, i)))"
    and ps': "ps' = update_slot (p, i) (\<lambda>s. s\<lparr>rs_reserved := True\<rparr>) ps"
    by (rule reserve_in_Some)
  note lt = find_partition_bound [OF p]
  have idx: "unat (fst h) = i" using index_fits [OF assms(1) lt i] by (simp add: h)
  have "rs_generation (slot_of ps (p, i)) \<noteq> 0"
    using slot_of_mem [of "(p, i)" ps] lt i assms(1) by (auto simp: slots_ok_def)
  then have "slots_ok ps'" unfolding ps' using lt i assms(1) by (intro slots_ok_update) auto
  moreover have "\<not> slot_live spawner ps h" using p free by (simp add: slot_live_iff idx)
  moreover have "slot_live spawner ps' h' \<longleftrightarrow> h' = h \<or> slot_live spawner ps h'" for h'
  proof (cases "unat (fst h') = i")
    case True
    then have "fst h' = fst h" using idx by (metis word_unat_eq_iff)
    then have "h' = h \<longleftrightarrow> snd h' = rs_generation (slot_of ps (p, i))" by (auto simp: prod_eq_iff h)
    then show ?thesis
      using p lt i free True by (auto simp: slot_live_iff ps' slot_of_update)
  next
    case False
    then have "h' \<noteq> h" using idx by auto
    with p lt i False show ?thesis by (auto simp: slot_live_iff ps' slot_of_update)
  qed
  ultimately show ?thesis by blast
qed

lemma retire_slot_effect:
  assumes "slots_ok ps"
  shows "slots_ok (retire_slot spawner h ps) \<and>
    (\<forall>h'. slot_live spawner (retire_slot spawner h ps) h' \<longleftrightarrow> slot_live spawner ps h' \<and> h' \<noteq> h)"
proof (cases "find_slot ps (pool_handle spawner h)")
  case None
  then have "retire_slot spawner h ps = ps" "\<not> slot_live spawner ps h"
    by (simp_all add: retire_slot_def release_in_def slot_live_def)
  with assms show ?thesis by auto
next
  case (Some at)
  let ?f = "\<lambda>s. s\<lparr>rs_reserved := False, rs_generation := next_generation (rs_generation s)\<rparr>"
  have eq: "retire_slot spawner h ps = update_slot at ?f ps" by (simp add: retire_slot_def release_in_def Some)
  note lt = find_slot_bound [OF Some]
  have at: "find_partition ps spawner = Some (fst at)" "snd at = unat (fst h)" "rs_generation (slot_of ps at) = snd h"
    using Some by (auto simp: find_slot_iff pool_handle_def)
  have "slots_ok (update_slot at ?f ps)" using lt assms by (intro slots_ok_update) auto
  moreover have "slot_live spawner (update_slot at ?f ps) h' \<longleftrightarrow> slot_live spawner ps h' \<and> h' \<noteq> h" for h'
  proof (cases "unat (fst h') = snd at")
    case True
    then have "fst h' = fst h" using at(2) by (metis word_unat_eq_iff)
    then have "h' = h \<longleftrightarrow> snd h' = rs_generation (slot_of ps at)" by (auto simp: prod_eq_iff at)
    then show ?thesis using at(1) lt True by (cases at) (auto simp: slot_live_iff slot_of_update)
  next
    case False
    then have "h' \<noteq> h" using at(2) by auto
    with at(1) lt False show ?thesis by (cases at) (auto simp: slot_live_iff slot_of_update)
  qed
  ultimately show ?thesis by (simp add: eq)
qed

interpretation slot_pool: generational_pool slots_ok "slot_live spawner" "\<lambda>_ :: unit. acquire_slot spawner" "retire_slot spawner"
  for spawner
proof unfold_locales
  fix p p' :: "'a runtime_partition list" and h h' :: "u32 \<times> u32"
  assume ok: "slots_ok p"
  show "slots_ok (snd (acquire_slot spawner p))"
  proof (cases "acquire_slot spawner p")
    case (Pair r ps)
    with ok acquire_slot_effect [OF ok, of spawner] reserve_in_None [of spawner p] show ?thesis
      by (cases r) auto
  qed
  show "slots_ok (retire_slot spawner h p)" and "slot_live spawner (retire_slot spawner h p) h' \<longleftrightarrow> slot_live spawner p h' \<and> h' \<noteq> h"
    using retire_slot_effect [OF ok, of spawner h] by blast+
  show "\<not> slot_live spawner p h" if "acquire_slot spawner p = (Some h, p')"
    using acquire_slot_effect [OF ok that] by blast
  show "slot_live spawner p' h' \<longleftrightarrow> h' = h \<or> slot_live spawner p h'" if "acquire_slot spawner p = (Some h, p')"
    using acquire_slot_effect [OF ok that] by blast
  show "p' = p" if "acquire_slot spawner p = (None, p')" using that by (rule reserve_in_None)
qed

text \<open>A slot handle that is not live finds nothing until it is issued, whatever slots of the spawner are
  reserved and released in between.\<close>

lemma unissued_slots_find_nothing:
  assumes "slots_ok partitions" and "find_slot partitions (pool_handle spawner h) = None"
    and "pool_run (\<lambda>_ :: unit. acquire_slot spawner) (retire_slot spawner) ops partitions = (issued, partitions')"
    and "h \<notin> set issued"
  shows "find_slot partitions' (pool_handle spawner h) = None"
  using slot_pool.stale_until_issued [OF assms(1) _ assms(3,4)] assms(2) unfolding slot_live_def by blast

text \<open>
  The generation of a slot counts its releases. \<open>releases_of i ops\<close> counts those of a run that name slot \<open>i\<close>;
  a release that finds nothing changes nothing, so it bounds the bumps.
\<close>

definition releases_of :: "u32 \<Rightarrow> (unit, u32 \<times> u32) pool_op list \<Rightarrow> nat" where
  "releases_of i ops = length (filter (\<lambda>oper. case oper of Acquire _ \<Rightarrow> False | Release h \<Rightarrow> fst h = i) ops)"

lemma acquire_keeps_generation:
  assumes "slots_ok ps" and "find_partition ps spawner = Some p" and "acquire_slot spawner ps = (r, ps')"
    and "i < length (rp_slots (ps ! p))"
  shows "rs_generation (slot_of ps' (p, i)) = rs_generation (slot_of ps (p, i))"
    and "find_partition ps' spawner = Some p" and "length (rp_slots (ps' ! p)) = length (rp_slots (ps ! p))"
    and "r = Some h \<Longrightarrow> fst h = word_of_nat i \<Longrightarrow> snd h = rs_generation (slot_of ps (p, i))"
proof -
  have "rs_generation (slot_of ps' (p, i)) = rs_generation (slot_of ps (p, i)) \<and> find_partition ps' spawner = Some p \<and>
      length (rp_slots (ps' ! p)) = length (rp_slots (ps ! p)) \<and>
      (r = Some h \<longrightarrow> fst h = word_of_nat i \<longrightarrow> snd h = rs_generation (slot_of ps (p, i)))"
  proof (cases r)
    case None
    with reserve_in_None assms(2,3) show ?thesis by fastforce
  next
    case (Some k)
    with assms(3) have "acquire_slot spawner ps = (Some k, ps')" by simp
    then obtain q j where q: "find_partition ps spawner = Some q" and j: "j < length (rp_slots (ps ! q))"
      and k: "k = (word_of_nat j, rs_generation (slot_of ps (q, j)))"
      and ps': "ps' = update_slot (q, j) (\<lambda>s. s\<lparr>rs_reserved := True\<rparr>) ps"
      by (rule reserve_in_Some)
    note lt = find_partition_bound [OF q]
    have "i = j" if "(word_of_nat j :: u32) = word_of_nat i"
      using index_fits [OF assms(1) lt j] index_fits [OF assms(1) lt, of i] assms(2,4) q that by simp
    with q j k ps' lt assms(2) Some show ?thesis by (auto simp: slot_of_update)
  qed
  then show "rs_generation (slot_of ps' (p, i)) = rs_generation (slot_of ps (p, i))"
    and "find_partition ps' spawner = Some p" and "length (rp_slots (ps' ! p)) = length (rp_slots (ps ! p))"
    and "r = Some h \<Longrightarrow> fst h = word_of_nat i \<Longrightarrow> snd h = rs_generation (slot_of ps (p, i))"
    by auto
qed

lemma retire_bumps_generation:
  assumes "slots_ok ps" and "find_partition ps spawner = Some p" and "i < length (rp_slots (ps ! p))"
  shows "rs_generation (slot_of (retire_slot spawner h ps) (p, i)) =
      (if slot_live spawner ps h \<and> fst h = word_of_nat i then next_generation (rs_generation (slot_of ps (p, i)))
       else rs_generation (slot_of ps (p, i)))"
    and "find_partition (retire_slot spawner h ps) spawner = Some p"
    and "length (rp_slots (retire_slot spawner h ps ! p)) = length (rp_slots (ps ! p))"
proof -
  show "find_partition (retire_slot spawner h ps) spawner = Some p"
    using assms(2) by (simp add: retire_slot_def release_in_def split: option.split)
  show "length (rp_slots (retire_slot spawner h ps ! p)) = length (rp_slots (ps ! p))"
    by (simp add: retire_slot_def release_in_def split: option.split)
  show "rs_generation (slot_of (retire_slot spawner h ps) (p, i)) =
      (if slot_live spawner ps h \<and> fst h = word_of_nat i then next_generation (rs_generation (slot_of ps (p, i)))
       else rs_generation (slot_of ps (p, i)))"
  proof (cases "find_slot ps (pool_handle spawner h)")
    case None
    then show ?thesis by (simp add: slot_live_def retire_slot_def release_in_def)
  next
    case (Some at)
    note lt = find_slot_bound [OF Some]
    have at: "fst at = p" "snd at = unat (fst h)" using Some assms(2) by (auto simp: find_slot_iff pool_handle_def)
    have "fst h = word_of_nat i \<longleftrightarrow> snd at = i"
      using index_fits [OF assms(1) find_partition_bound [OF assms(2)] assms(3)] at(2) by (metis word_unat_eq_iff)
    then have "fst h = word_of_nat i \<longleftrightarrow> (p, i) = at" using at(1) by (auto simp: prod_eq_iff)
    then show ?thesis
      using Some lt by (simp add: slot_live_def retire_slot_def release_in_def slot_of_update)
  qed
qed

lemma run_generations:
  assumes "slots_ok ps" and "find_partition ps spawner = Some p" and "i < length (rp_slots (ps ! p))"
    and "pool_run (\<lambda>_ :: unit. acquire_slot spawner) (retire_slot spawner) ops ps = (issued, ps')"
  shows "\<exists>k \<le> releases_of (word_of_nat i) ops.
    find_partition ps' spawner = Some p \<and>
    rs_generation (slot_of ps' (p, i)) = (next_generation ^^ k) (rs_generation (slot_of ps (p, i))) \<and>
    (\<forall>h \<in> set issued. fst h = word_of_nat i \<longrightarrow>
       (\<exists>j \<le> k. snd h = (next_generation ^^ j) (rs_generation (slot_of ps (p, i)))))"
  using assms
proof (induction ops arbitrary: ps issued)
  case Nil
  then show ?case by (auto intro: exI [of _ 0])
next
  case (Cons oper ops)
  let ?g = "rs_generation (slot_of ps (p, i))"
  show ?case
  proof (cases oper)
    case (Acquire u)
    obtain r ps1 where a: "acquire_slot spawner ps = (r, ps1)" by fastforce
    obtain rest where run: "pool_run (\<lambda>_ :: unit. acquire_slot spawner) (retire_slot spawner) ops ps1 = (rest, ps')"
      and issued: "issued = (case r of None \<Rightarrow> rest | Some h \<Rightarrow> h # rest)"
      using Cons.prems(4) Acquire a by (auto split: prod.splits option.splits)
    note kept = acquire_keeps_generation [OF Cons.prems(1,2) a Cons.prems(3)]
    have "slots_ok ps1" using slot_pool.acquire_inv [OF Cons.prems(1), of spawner] a by simp
    from Cons.IH [OF this kept(2) _ run] kept(1,3) Cons.prems(3)
    obtain k where k: "k \<le> releases_of (word_of_nat i) ops" "find_partition ps' spawner = Some p"
      "rs_generation (slot_of ps' (p, i)) = (next_generation ^^ k) ?g"
      "\<forall>h \<in> set rest. fst h = word_of_nat i \<longrightarrow> (\<exists>j \<le> k. snd h = (next_generation ^^ j) ?g)"
      by auto
    have "\<exists>j \<le> k. snd h = (next_generation ^^ j) ?g" if "r = Some h" "fst h = word_of_nat i" for h
      using kept(4) [OF that] by (intro exI [of _ 0]) simp
    with k Acquire issued show ?thesis
      by (intro exI [of _ k]) (auto simp: releases_of_def split: option.splits)
  next
    case (Release h)
    let ?ps1 = "retire_slot spawner h ps"
    note bumped = retire_bumps_generation [OF Cons.prems(1-3), of h]
    have run: "pool_run (\<lambda>_ :: unit. acquire_slot spawner) (retire_slot spawner) ops ?ps1 = (issued, ps')"
      using Cons.prems(4) Release by simp
    define b where "b = (if slot_live spawner ps h \<and> fst h = word_of_nat i then 1 else 0 :: nat)"
    have g: "rs_generation (slot_of ?ps1 (p, i)) = (next_generation ^^ b) ?g" by (simp add: bumped(1) b_def)
    have after: "(next_generation ^^ k) ((next_generation ^^ b) ?g) = (next_generation ^^ (k + b)) ?g" for k
      by (simp add: funpow_add)
    have "slots_ok ?ps1" using slot_pool.release_inv [OF Cons.prems(1)] .
    from Cons.IH [OF this bumped(2) _ run] bumped(3) Cons.prems(3)
    obtain k where k: "k \<le> releases_of (word_of_nat i) ops" "find_partition ps' spawner = Some p"
      "rs_generation (slot_of ps' (p, i)) = (next_generation ^^ (k + b)) ?g"
      "\<forall>h \<in> set issued. fst h = word_of_nat i \<longrightarrow> (\<exists>j \<le> k. snd h = (next_generation ^^ (j + b)) ?g)"
      unfolding g after by auto
    have "k + b \<le> releases_of (word_of_nat i) (oper # ops)" using k(1) Release by (simp add: releases_of_def b_def)
    moreover have "\<exists>j \<le> k + b. snd h = (next_generation ^^ j) ?g" if "h \<in> set issued" "fst h = word_of_nat i" for h
      using k(4) that by (meson add_le_mono1)
    ultimately show ?thesis using k(2,3) by blast
  qed
qed

subsection \<open>The layout of a scene\<close>

text \<open>No node belongs to two slots, and binding ids are unique within a slot.\<close>

definition slot_nodes :: "'x runtime_partition list \<Rightarrow> node_handle list" where
  "slot_nodes partitions =
     concat (map (\<lambda>p. concat (map (\<lambda>s. map rb_node (rs_nodes s)) (rp_slots p))) partitions)"

definition layout_ok :: "('x, 'v, 'b) scene_instance \<Rightarrow> bool" where
  "layout_ok si \<longleftrightarrow>
     distinct (slot_nodes (si_partitions si)) \<and>
     set (slot_nodes (si_partitions si)) \<subseteq> {..< node_count (si_topology si)} \<and>
     (\<forall>p \<in> set (si_partitions si). \<forall>s \<in> set (rp_slots p). distinct (map rb_binding_id (rs_nodes s))) \<and>
     length (m_records (si_state si)) = node_count (si_topology si) \<and>
     length (si_entity_bindings si) = node_count (si_topology si) \<and>
     length (si_write_owners si) = node_count (si_topology si) \<and>
     length (si_evaluated_stamp si) = node_count (si_topology si)"

lemma distinct_concat_part: "distinct (concat xss) \<Longrightarrow> xs \<in> set xss \<Longrightarrow> distinct xs"
  by (induction xss) auto

lemma layout_slot:
  assumes "layout_ok si" and "fst at < length (si_partitions si)"
    and "snd at < length (rp_slots (si_partitions si ! fst at))"
  shows "distinct (map rb_node (rs_nodes (slot_of (si_partitions si) at)))"
    and "distinct (map rb_binding_id (rs_nodes (slot_of (si_partitions si) at)))"
    and "n \<in> set (rs_nodes (slot_of (si_partitions si) at)) \<Longrightarrow> rb_node n < node_count (si_topology si)"
proof -
  obtain p where p: "p \<in> set (si_partitions si)" "slot_of (si_partitions si) at \<in> set (rp_slots p)"
    using slot_of_mem [OF assms(2,3)] by blast
  let ?s = "slot_of (si_partitions si) at"
  have "distinct (slot_nodes (si_partitions si))" using assms(1) by (simp add: layout_ok_def)
  then have "distinct (concat (map (\<lambda>s. map rb_node (rs_nodes s)) (rp_slots p)))"
    unfolding slot_nodes_def by (rule distinct_concat_part) (use p(1) in simp)
  then show "distinct (map rb_node (rs_nodes ?s))"
    by (rule distinct_concat_part) (use p(2) in simp)
  show "distinct (map rb_binding_id (rs_nodes ?s))" using assms(1) p by (simp add: layout_ok_def)
  assume "n \<in> set (rs_nodes ?s)"
  then have "rb_node n \<in> set (slot_nodes (si_partitions si))" using p by (force simp: slot_nodes_def)
  moreover have "set (slot_nodes (si_partitions si)) \<subseteq> {..< node_count (si_topology si)}"
    using assms(1) by (simp add: layout_ok_def)
  ultimately show "rb_node n < node_count (si_topology si)" by blast
qed

lemma find_binding_mem: "find_binding b nodes = Some n \<Longrightarrow> n \<in> set nodes \<and> rb_binding_id n = b"
  by (auto simp: find_binding_def find_Some_iff)

lemma find_binding_None: "find_binding b nodes = None \<longleftrightarrow> b \<notin> rb_binding_id ` set nodes"
  by (auto simp: find_binding_def find_None_iff)

lemma find_binding_unique:
  "distinct (map rb_binding_id nodes) \<Longrightarrow> n \<in> set nodes \<Longrightarrow> find_binding (rb_binding_id n) nodes = Some n"
proof -
  assume d: "distinct (map rb_binding_id nodes)" and n: "n \<in> set nodes"
  obtain k where k: "find_binding (rb_binding_id n) nodes = Some k"
    using find_binding_None [of "rb_binding_id n" nodes] n by (cases "find_binding (rb_binding_id n) nodes") auto
  with find_binding_mem [OF k] d n have "k = n" by (auto simp: distinct_map inj_on_def)
  with k show ?thesis by simp
qed

subsection \<open>The two entity maps\<close>

text \<open>The map from entities to nodes is the inverse of the per-node targets.\<close>

definition entity_maps_ok :: "('x, 'v, 'b) scene_instance \<Rightarrow> bool" where
  "entity_maps_ok si \<longleftrightarrow>
     (\<forall>e n. si_entity_to_node si e = Some n \<longleftrightarrow>
        e \<noteq> None \<and> n < length (si_entity_bindings si) \<and> et_entity (si_entity_bindings si ! n) = e)"

definition node_for :: "'x runtime_node_binding list \<Rightarrow> 'x entity_binding \<Rightarrow> node_handle" where
  "node_for nodes b = (case find_binding (eb_binding_id b) nodes of Some n \<Rightarrow> rb_node n)"

definition target_of_binding :: "'x entity_binding \<Rightarrow> 'x entity_target" where
  "target_of_binding b = \<lparr>et_entity = eb_entity b, et_node_to_target = eb_node_to_entity b\<rparr>"

lemma bind_node_known:
  assumes "find_binding (eb_binding_id b) nodes \<noteq> None" and "si_entity_to_node si (eb_entity b) = None"
  shows "bind_node nodes b si =
    si\<lparr>si_entity_bindings := (si_entity_bindings si)[node_for nodes b := target_of_binding b],
       si_entity_to_node := (si_entity_to_node si)(eb_entity b \<mapsto> node_for nodes b),
       si_state := snd (mark_dirty (node_for nodes b) (si_state si))\<rparr>"
  using assms by (auto simp: bind_node_def node_for_def target_of_binding_def)

lemma fold_bind_fresh:
  assumes "\<forall>b \<in> set bs. find_binding (eb_binding_id b) nodes \<noteq> None" and "distinct (map eb_entity bs)"
    and "\<forall>b \<in> set bs. si_entity_to_node si (eb_entity b) = None"
  shows "fold (bind_node nodes) bs si =
    si\<lparr>si_entity_bindings := fold (\<lambda>b ts. ts[node_for nodes b := target_of_binding b]) bs (si_entity_bindings si),
       si_entity_to_node := fold (\<lambda>b m. m(eb_entity b \<mapsto> node_for nodes b)) bs (si_entity_to_node si),
       si_state := fold (\<lambda>b st. snd (mark_dirty (node_for nodes b) st)) bs (si_state si)\<rparr>"
  using assms
proof (induction bs arbitrary: si)
  case (Cons b bs)
  have step: "bind_node nodes b si =
    si\<lparr>si_entity_bindings := (si_entity_bindings si)[node_for nodes b := target_of_binding b],
       si_entity_to_node := (si_entity_to_node si)(eb_entity b \<mapsto> node_for nodes b),
       si_state := snd (mark_dirty (node_for nodes b) (si_state si))\<rparr>"
    using Cons.prems by (intro bind_node_known) auto
  have "fold (bind_node nodes) bs (bind_node nodes b si) =
    (bind_node nodes b si)\<lparr>si_entity_bindings := fold (\<lambda>b ts. ts[node_for nodes b := target_of_binding b]) bs (si_entity_bindings (bind_node nodes b si)),
       si_entity_to_node := fold (\<lambda>b m. m(eb_entity b \<mapsto> node_for nodes b)) bs (si_entity_to_node (bind_node nodes b si)),
       si_state := fold (\<lambda>b st. snd (mark_dirty (node_for nodes b) st)) bs (si_state (bind_node nodes b si))\<rparr>"
  proof (rule Cons.IH)
    have "eb_entity c \<noteq> eb_entity b" if "c \<in> set bs" for c
      using Cons.prems(2) that by (metis distinct.simps(2) imageI list.set_map list.simps(9))
    then show "\<forall>c \<in> set bs. si_entity_to_node (bind_node nodes b si) (eb_entity c) = None"
      using Cons.prems(3) by (simp add: step)
  qed (use Cons.prems in auto)
  then show ?case by (simp add: step fun_upd_def)
qed simp

lemma find_key_None: "distinct (map f (b # bs)) \<Longrightarrow> f b = k \<Longrightarrow> find (\<lambda>b. f b = k) bs = None"
  unfolding find_None_iff by (metis distinct.simps(2) imageI list.set_map list.simps(9))

lemma fold_targets_nth:
  assumes "distinct (map f bs)" and "\<forall>b \<in> set bs. f b < length ts"
  shows "length (fold (\<lambda>b ts. ts[f b := g b]) bs ts) = length ts" and
    "n < length ts \<Longrightarrow> fold (\<lambda>b ts. ts[f b := g b]) bs ts ! n =
      (case find (\<lambda>b. f b = n) bs of None \<Rightarrow> ts ! n | Some b \<Rightarrow> g b)"
proof -
  have len: "length (fold (\<lambda>b ts. ts[f b := g b]) bs ts) = length ts" for bs ts
    by (induction bs arbitrary: ts) auto
  then show "length (fold (\<lambda>b ts. ts[f b := g b]) bs ts) = length ts" .
  show "n < length ts \<Longrightarrow> fold (\<lambda>b ts. ts[f b := g b]) bs ts ! n =
      (case find (\<lambda>b. f b = n) bs of None \<Rightarrow> ts ! n | Some b \<Rightarrow> g b)"
    using assms
  proof (induction bs arbitrary: ts)
    case (Cons b bs)
    show ?case
    proof (cases "f b = n")
      case True
      have "find (\<lambda>b. f b = n) bs = None" by (rule find_key_None [OF Cons.prems(2) True])
      with Cons True show ?thesis by simp
    next
      case False
      with Cons show ?thesis by (simp split: option.split)
    qed
  qed simp
qed

lemma fold_map_nth:
  assumes "distinct (map f bs)"
  shows "fold (\<lambda>b m. m(f b \<mapsto> g b)) bs m e = (case find (\<lambda>b. f b = e) bs of None \<Rightarrow> m e | Some b \<Rightarrow> Some (g b))"
  using assms
proof (induction bs arbitrary: m)
  case (Cons b bs)
  show ?case
  proof (cases "f b = e")
    case True
    have "find (\<lambda>b. f b = e) bs = None" by (rule find_key_None [OF Cons.prems True])
    with Cons True show ?thesis by simp
  next
    case False
    with Cons show ?thesis by (simp split: option.split)
  qed
qed simp

subsection \<open>What binding does\<close>

definition bind_accepts ::
  "('x, 'v, 'q, 'f) az_math \<Rightarrow> 'x runtime_node_binding list \<Rightarrow> 'x entity_target list \<Rightarrow> 'x entity_binding list \<Rightarrow> bool" where
  "bind_accepts m nodes targets bindings \<longleftrightarrow>
     mset (map eb_binding_id bindings) = mset (map rb_binding_id nodes) \<and>
     distinct (map eb_entity bindings) \<and>
     (\<forall>b \<in> set bindings. eb_binding_id b \<noteq> [] \<and> eb_entity b \<noteq> None \<and> az_is_finite m (eb_node_to_entity b)) \<and>
     \<not> aliases_another_node targets nodes bindings"

lemma distinct_count: "distinct xs \<Longrightarrow> x \<in> set xs \<Longrightarrow> count_list xs x = 1"
  by (induction xs) auto

lemma all_counts_one: "(\<forall>x \<in> set xs. count_list (map f xs) (f x) = 1) \<longleftrightarrow> distinct (map f xs)"
proof
  assume a: "\<forall>x \<in> set xs. count_list (map f xs) (f x) = 1"
  show "distinct (map f xs)"
  proof (rule ccontr)
    assume "\<not> distinct (map f xs)"
    then obtain as y bs cs where "map f xs = as @ [y] @ bs @ [y] @ cs" using not_distinct_decomp by blast
    then have "count_list (map f xs) y \<ge> 2" "y \<in> set (map f xs)" by auto
    with a show False by auto
  qed
next
  assume "distinct (map f xs)"
  then show "\<forall>x \<in> set xs. count_list (map f xs) (f x) = 1" by (simp add: distinct_count)
qed

lemma bind_slot_accepts:
  assumes "layout_ok si" and "find_slot (si_partitions si) slot = Some at"
    and "nodes = rs_nodes (slot_of (si_partitions si) at)"
  shows "bind_slot m slot bindings si =
    (if bind_accepts m nodes (si_entity_bindings si) bindings
     then (rc_success, (fold (bind_node nodes) bindings si)\<lparr>si_active := True\<rparr>)
     else (fst (bind_slot m slot bindings si), si))"
    and "fst (bind_slot m slot bindings si) = rc_success \<longleftrightarrow>
      bind_accepts m nodes (si_entity_bindings si) bindings"
proof -
  have ids: "distinct (map rb_binding_id nodes)"
    using layout_slot(2) [OF assms(1)] find_slot_bound [OF assms(2)] assms(3) by blast
  have dup: "\<not> duplicate_bindings bindings \<longleftrightarrow> distinct (map eb_binding_id bindings) \<and> distinct (map eb_entity bindings)"
    by (auto simp: duplicate_bindings_def simp flip: all_counts_one)
  have same: "mset (map eb_binding_id bindings) = mset (map rb_binding_id nodes)"
    if "length bindings = length nodes" "distinct (map eb_binding_id bindings)" "\<not> missing_binding nodes bindings"
  proof -
    have "set (map eb_binding_id bindings) \<subseteq> set (map rb_binding_id nodes)"
      using that(3) by (auto simp: missing_binding_def find_binding_None)
    moreover have "card (set (map eb_binding_id bindings)) = card (set (map rb_binding_id nodes))"
      using that(1) distinct_card [OF that(2)] distinct_card [OF ids] by simp
    ultimately have "set (map eb_binding_id bindings) = set (map rb_binding_id nodes)"
      by (intro card_subset_eq) auto
    with that(2) ids show ?thesis by (simp only: set_eq_iff_mset_eq_distinct)
  qed
  have conv: "length bindings = length nodes \<and> distinct (map eb_binding_id bindings) \<and> \<not> missing_binding nodes bindings"
    if "mset (map eb_binding_id bindings) = mset (map rb_binding_id nodes)"
  proof -
    have "set (map eb_binding_id bindings) = set (map rb_binding_id nodes)" using that by (metis set_mset_mset)
    moreover have "length (map eb_binding_id bindings) = length (map rb_binding_id nodes)" using that by (metis size_mset)
    moreover have "distinct (map eb_binding_id bindings)" using mset_eq_imp_distinct_iff [OF that] ids by blast
    ultimately show ?thesis by (auto simp: missing_binding_def find_binding_None)
  qed
  have "bind_accepts m nodes (si_entity_bindings si) bindings \<longleftrightarrow>
      \<not> invalid_bindings m nodes bindings \<and> \<not> duplicate_bindings bindings \<and> \<not> missing_binding nodes bindings \<and>
      \<not> aliases_another_node (si_entity_bindings si) nodes bindings"
    using same conv unfolding bind_accepts_def dup by (auto simp: invalid_bindings_def)
  then show "bind_slot m slot bindings si =
    (if bind_accepts m nodes (si_entity_bindings si) bindings
     then (rc_success, (fold (bind_node nodes) bindings si)\<lparr>si_active := True\<rparr>)
     else (fst (bind_slot m slot bindings si), si))"
    and "fst (bind_slot m slot bindings si) = rc_success \<longleftrightarrow> bind_accepts m nodes (si_entity_bindings si) bindings"
    using assms(2,3) by (simp_all add: bind_slot_def Let_def)
qed

lemma node_for_distinct:
  assumes "distinct (map rb_node nodes)" and "distinct (map rb_binding_id nodes)"
    and "mset (map eb_binding_id bindings) = mset (map rb_binding_id nodes)"
  shows "distinct (map (node_for nodes) bindings)" and "set (map (node_for nodes) bindings) = rb_node ` set nodes"
    and "b \<in> set bindings \<Longrightarrow> \<exists>n \<in> set nodes. find_binding (eb_binding_id b) nodes = Some n \<and> node_for nodes b = rb_node n"
proof -
  have ids: "set (map eb_binding_id bindings) = rb_binding_id ` set nodes" "distinct (map eb_binding_id bindings)"
    using assms(2,3) mset_eq_imp_distinct_iff [OF assms(3)] mset_eq_setD [OF assms(3)] by auto
  show each: "\<exists>n \<in> set nodes. find_binding (eb_binding_id b) nodes = Some n \<and> node_for nodes b = rb_node n"
    if "b \<in> set bindings" for b
  proof -
    from that ids(1) obtain n where "n \<in> set nodes" "eb_binding_id b = rb_binding_id n" by force
    with find_binding_unique [OF assms(2)] show ?thesis by (auto simp: node_for_def)
  qed
  have inj: "rb_node n = rb_node n' \<Longrightarrow> n = n'" if "n \<in> set nodes" "n' \<in> set nodes" for n n'
    using that assms(1) by (auto simp: distinct_map inj_on_def)
  have "eb_binding_id b = eb_binding_id c" if "b \<in> set bindings" "c \<in> set bindings" "node_for nodes b = node_for nodes c" for b c
    using each [OF that(1)] each [OF that(2)] that(3) inj find_binding_mem by metis
  moreover have "inj_on eb_binding_id (set bindings)" using ids(2) by (simp add: distinct_map)
  ultimately have "inj_on (node_for nodes) (set bindings)" by (meson inj_onD inj_onI)
  then show "distinct (map (node_for nodes) bindings)" using ids(2) by (simp add: distinct_map)
  show "set (map (node_for nodes) bindings) = rb_node ` set nodes"
  proof
    show "set (map (node_for nodes) bindings) \<subseteq> rb_node ` set nodes" using each by force
    show "rb_node ` set nodes \<subseteq> set (map (node_for nodes) bindings)"
    proof
      fix k assume "k \<in> rb_node ` set nodes"
      then obtain n where n: "n \<in> set nodes" "k = rb_node n" by blast
      then obtain b where "b \<in> set bindings" "eb_binding_id b = rb_binding_id n" using ids(1) by force
      with n find_binding_unique [OF assms(2) n(1)] show "k \<in> set (map (node_for nodes) bindings)"
        by (force simp: node_for_def)
    qed
  qed
qed

definition slot_unbound :: "'x entity_target list \<Rightarrow> 'x runtime_node_binding list \<Rightarrow> bool" where
  "slot_unbound targets nodes \<longleftrightarrow> (\<forall>n \<in> set nodes. et_entity (targets ! rb_node n) = None)"

lemma unaliased_fresh:
  assumes maps: "entity_maps_ok si" and "slot_unbound (si_entity_bindings si) nodes"
    and "\<not> aliases_another_node (si_entity_bindings si) nodes bindings" and "b \<in> set bindings"
  shows "si_entity_to_node si (eb_entity b) = None"
proof (rule ccontr)
  assume "si_entity_to_node si (eb_entity b) \<noteq> None"
  then obtain k where "si_entity_to_node si (eb_entity b) = Some k" by blast
  with maps have k: "k < length (si_entity_bindings si)" "et_entity (si_entity_bindings si ! k) = eb_entity b" "eb_entity b \<noteq> None"
    by (auto simp: entity_maps_ok_def)
  then obtain j where j: "find_index (\<lambda>t. et_entity t = eb_entity b) (si_entity_bindings si) = Some j"
    using find_index_ex [of "si_entity_bindings si ! k" "si_entity_bindings si" "\<lambda>t. et_entity t = eb_entity b"] by auto
  with assms(3,4) have "j \<in> rb_node ` set nodes" by (auto simp: aliases_another_node_def)
  with assms(2) find_index_SomeD [OF j] k(3) show False by (auto simp: slot_unbound_def)
qed

lemma find_in_distinct: "distinct (map f xs) \<Longrightarrow> x \<in> set xs \<Longrightarrow> find (\<lambda>y. f y = f x) xs = Some x"
proof -
  assume d: "distinct (map f xs)" and x: "x \<in> set xs"
  then obtain y where y: "find (\<lambda>y. f y = f x) xs = Some y"
    by (cases "find (\<lambda>y. f y = f x) xs") (auto simp: find_None_iff)
  then have "y \<in> set xs" "f y = f x" by (auto simp: find_Some_iff)
  with d x have "y = x" by (auto simp: distinct_map inj_on_def)
  with y show ?thesis by simp
qed

lemma bind_effect:
  assumes lay: "layout_ok si" and maps: "entity_maps_ok si" and at: "find_slot (si_partitions si) slot = Some at"
    and nodes: "nodes = rs_nodes (slot_of (si_partitions si) at)"
    and free: "slot_unbound (si_entity_bindings si) nodes"
    and acc: "bind_accepts m nodes (si_entity_bindings si) bindings" and si': "si' = snd (bind_slot m slot bindings si)"
  shows "entity_maps_ok si'" and "layout_ok si'"
    and "b \<in> set bindings \<Longrightarrow> si_entity_bindings si' ! node_for nodes b = target_of_binding b"
    and "n \<notin> rb_node ` set nodes \<Longrightarrow> si_entity_bindings si' ! n = si_entity_bindings si ! n"
    and "b \<in> set bindings \<Longrightarrow> resolve_entity_node slot (eb_entity b) si' =
      \<lparr>nr_code = rc_success, nr_handle = \<lparr>nh_slot = slot, nh_binding_id = eb_binding_id b\<rparr>\<rparr>"
    and "si_state si' = fold (\<lambda>b st. snd (mark_dirty (node_for nodes b) st)) bindings (si_state si)"
proof -
  let ?f = "node_for nodes"
  note bound = find_slot_bound [OF at]
  note lay' = layout_slot [OF lay] 
  have nd: "distinct (map rb_node nodes)" and ids: "distinct (map rb_binding_id nodes)"
    using lay'(1,2) bound nodes by blast+
  have range: "rb_node n < length (si_entity_bindings si)" if "n \<in> set nodes" for n
    using lay'(3) [of at n] bound nodes lay that by (simp add: layout_ok_def)
  have same: "mset (map eb_binding_id bindings) = mset (map rb_binding_id nodes)" and ents: "distinct (map eb_entity bindings)"
    and valid: "\<forall>b \<in> set bindings. eb_entity b \<noteq> None" and noalias: "\<not> aliases_another_node (si_entity_bindings si) nodes bindings"
    using acc by (auto simp: bind_accepts_def)
  note for_nodes = node_for_distinct [OF nd ids same]
  have fresh: "\<forall>b \<in> set bindings. si_entity_to_node si (eb_entity b) = None"
    using unaliased_fresh [OF maps free noalias] by blast
  have found: "\<forall>b \<in> set bindings. find_binding (eb_binding_id b) nodes \<noteq> None" using for_nodes(3) by auto
  have lt: "\<forall>b \<in> set bindings. ?f b < length (si_entity_bindings si)" using for_nodes(3) range by fastforce
  have eq: "si' = si\<lparr>si_entity_bindings := fold (\<lambda>b ts. ts[?f b := target_of_binding b]) bindings (si_entity_bindings si),
       si_entity_to_node := fold (\<lambda>b m. m(eb_entity b \<mapsto> ?f b)) bindings (si_entity_to_node si),
       si_state := fold (\<lambda>b st. snd (mark_dirty (?f b) st)) bindings (si_state si), si_active := True\<rparr>"
    using bind_slot_accepts(1) [OF lay at nodes, of m bindings] acc fold_bind_fresh [OF found ents fresh] by (simp add: si')
  have len: "length (si_entity_bindings si') = length (si_entity_bindings si)"
    using fold_targets_nth(1) [OF for_nodes(1) lt] by (simp add: eq)
  have tgt: "si_entity_bindings si' ! n = (case find (\<lambda>b. ?f b = n) bindings of None \<Rightarrow> si_entity_bindings si ! n | Some b \<Rightarrow> target_of_binding b)"
    if "n < length (si_entity_bindings si)" for n
    using fold_targets_nth(2) [OF for_nodes(1) lt that] by (simp add: eq)
  have ent: "si_entity_to_node si' e = (case find (\<lambda>b. eb_entity b = e) bindings of None \<Rightarrow> si_entity_to_node si e | Some b \<Rightarrow> Some (?f b))" for e
    using fold_map_nth [OF ents] by (simp add: eq)
  show at_b: "si_entity_bindings si' ! ?f b = target_of_binding b" if "b \<in> set bindings" for b
    using tgt [of "?f b"] find_in_distinct [OF for_nodes(1) that] lt that by simp
  show off: "si_entity_bindings si' ! n = si_entity_bindings si ! n" if "n \<notin> rb_node ` set nodes" for n
  proof (cases "n < length (si_entity_bindings si)")
    case True
    have "find (\<lambda>b. ?f b = n) bindings = None" using that for_nodes(2) by (auto simp: find_None_iff)
    with tgt [OF True] show ?thesis by simp
  next
    case False
    have "fold (\<lambda>b ts. ts[?f b := target_of_binding b]) bs ts ! n = ts ! n"
      if "\<not> n < length ts" "\<forall>b \<in> set bs. ?f b < length ts" for bs and ts :: "'a entity_target list"
      using that by (induction bs arbitrary: ts) auto
    with False lt show ?thesis by (simp add: eq)
  qed
  show "si_state si' = fold (\<lambda>b st. snd (mark_dirty (?f b) st)) bindings (si_state si)" by (simp add: eq)
  have mark: "length (m_records (fold (\<lambda>b st. snd (mark_dirty (?f b) st)) bs st)) = length (m_records st)" for bs and st :: "'a transform_state"
    by (induction bs arbitrary: st) (simp_all add: length_mark_dirty)
  show lay'': "layout_ok si'" using lay len by (simp add: layout_ok_def eq mark)
  show "entity_maps_ok si'"
    unfolding entity_maps_ok_def
  proof (intro allI)
    fix e n
    show "si_entity_to_node si' e = Some n \<longleftrightarrow>
        e \<noteq> None \<and> n < length (si_entity_bindings si') \<and> et_entity (si_entity_bindings si' ! n) = e"
    proof (cases "n \<in> rb_node ` set nodes")
      case True
      then obtain b where b: "b \<in> set bindings" "?f b = n" unfolding for_nodes(2) [symmetric] by auto
      have "n < length (si_entity_bindings si)" using b lt by blast
      moreover have "si_entity_to_node si' e = Some n \<longleftrightarrow> e = eb_entity b"
      proof
        assume "e = eb_entity b"
        then show "si_entity_to_node si' e = Some n" using ent [of e] find_in_distinct [OF ents b(1)] b(2) by simp
      next
        assume a: "si_entity_to_node si' e = Some n"
        show "e = eb_entity b"
        proof (cases "find (\<lambda>b. eb_entity b = e) bindings")
          case None
          with a ent [of e] maps have "e \<noteq> None" "et_entity (si_entity_bindings si ! n) = e" by (auto simp: entity_maps_ok_def)
          with True free show ?thesis by (auto simp: slot_unbound_def)
        next
          case (Some c)
          then have "c \<in> set bindings" "eb_entity c = e" "?f c = n"
            using a ent [of e] find_Some_mem [OF Some] by simp_all
          with b for_nodes(1) have "c = b" by (auto simp: distinct_map inj_on_def)
          with \<open>eb_entity c = e\<close> show ?thesis by simp
        qed
      qed
      ultimately show ?thesis using at_b [OF b(1)] b valid len by (auto simp: target_of_binding_def)
    next
      case False
      have "find (\<lambda>b. eb_entity b = e) bindings = Some c \<Longrightarrow> ?f c \<noteq> n" for c
        using False for_nodes(2) by (auto simp: find_Some_iff)
      moreover have "si_entity_to_node si e \<noteq> Some n" if "find (\<lambda>b. eb_entity b = e) bindings \<noteq> None"
        using that fresh by (auto simp: find_Some_iff)
      ultimately have "si_entity_to_node si' e = Some n \<longleftrightarrow> si_entity_to_node si e = Some n"
        using ent [of e] by (auto split: option.splits)
      then show ?thesis using maps off [OF False] len by (simp add: entity_maps_ok_def)
    qed
  qed
  show "resolve_entity_node slot (eb_entity b) si' =
      \<lparr>nr_code = rc_success, nr_handle = \<lparr>nh_slot = slot, nh_binding_id = eb_binding_id b\<rparr>\<rparr>" if b: "b \<in> set bindings"
  proof -
    obtain n where n: "n \<in> set nodes" "find_binding (eb_binding_id b) nodes = Some n" "?f b = rb_node n"
      using for_nodes(3) [OF b] by blast
    have "find (\<lambda>k. rb_node k = rb_node n) nodes = Some n" using find_in_distinct [OF nd n(1)] .
    moreover have "si_entity_to_node si' (eb_entity b) = Some (rb_node n)"
      using ent [of "eb_entity b"] find_in_distinct [OF ents b] n(3) by simp
    ultimately show ?thesis
      using at nodes find_binding_mem [OF n(2)] by (simp add: resolve_entity_node_def eq)
  qed
qed

subsection \<open>What binding does to a slot that is bound\<close>

text \<open>
  Whatever the maps hold, the targets are overwritten; the map from entities keeps every entry it
  has, since \<open>emplace\<close> never replaces one, and gains the entities it does not know.
\<close>

lemma fold_bind_fields:
  assumes "\<forall>b \<in> set bs. find_binding (eb_binding_id b) nodes \<noteq> None"
  shows "si_entity_bindings (fold (bind_node nodes) bs si) =
      fold (\<lambda>b ts. ts[node_for nodes b := target_of_binding b]) bs (si_entity_bindings si)"
    and "si_partitions (fold (bind_node nodes) bs si) = si_partitions si"
proof -
  have "si_entity_bindings (fold (bind_node nodes) bs si) =
      fold (\<lambda>b ts. ts[node_for nodes b := target_of_binding b]) bs (si_entity_bindings si) \<and>
    si_partitions (fold (bind_node nodes) bs si) = si_partitions si"
    using assms
  proof (induction bs arbitrary: si)
    case (Cons b bs)
    have "si_entity_bindings (bind_node nodes b si) = (si_entity_bindings si)[node_for nodes b := target_of_binding b] \<and>
        si_partitions (bind_node nodes b si) = si_partitions si"
      using Cons.prems by (auto simp: bind_node_def node_for_def target_of_binding_def)
    with Cons show ?case by simp
  qed simp
  then show "si_entity_bindings (fold (bind_node nodes) bs si) =
      fold (\<lambda>b ts. ts[node_for nodes b := target_of_binding b]) bs (si_entity_bindings si)"
    and "si_partitions (fold (bind_node nodes) bs si) = si_partitions si" by simp_all
qed

lemma fold_bind_keeps_entity:
  "si_entity_to_node si e = Some n \<Longrightarrow> si_entity_to_node (fold (bind_node nodes) bs si) e = Some n"
proof (induction bs arbitrary: si)
  case (Cons b bs)
  have "si_entity_to_node (bind_node nodes b si) e = Some n"
    using Cons.prems by (auto simp: bind_node_def split: option.split)
  from Cons.IH [OF this] show ?case by simp
qed simp

lemma fold_bind_new_entity:
  assumes "distinct (map eb_entity bs)" and "\<forall>b \<in> set bs. find_binding (eb_binding_id b) nodes \<noteq> None"
    and "b \<in> set bs" and "si_entity_to_node si (eb_entity b) = None"
  shows "si_entity_to_node (fold (bind_node nodes) bs si) (eb_entity b) = Some (node_for nodes b)"
  using assms
proof (induction bs arbitrary: si)
  case (Cons c bs)
  show ?case
  proof (cases "b = c")
    case True
    with Cons.prems have "si_entity_to_node (bind_node nodes c si) (eb_entity b) = Some (node_for nodes b)"
      by (auto simp: bind_node_def node_for_def)
    then show ?thesis by (simp add: fold_bind_keeps_entity)
  next
    case False
    with Cons.prems(3) have "b \<in> set bs" by simp
    moreover from this have "eb_entity b \<noteq> eb_entity c"
      using Cons.prems(1) by (metis distinct.simps(2) imageI list.set_map list.simps(9))
    moreover from this Cons.prems(4) have "si_entity_to_node (bind_node nodes c si) (eb_entity b) = None"
      by (auto simp: bind_node_def split: option.split)
    ultimately show ?thesis using Cons by simp
  qed
qed simp

lemma rebind_effect:
  assumes lay: "layout_ok si" and at: "find_slot (si_partitions si) slot = Some at"
    and nodes: "nodes = rs_nodes (slot_of (si_partitions si) at)"
    and bound: "bind_slot m slot bindings si = (rc_success, si')"
  shows "b \<in> set bindings \<Longrightarrow> si_entity_bindings si' ! node_for nodes b = target_of_binding b"
    and "si_entity_to_node si e = Some k \<Longrightarrow> si_entity_to_node si' e = Some k"
    and "b \<in> set bindings \<Longrightarrow> si_entity_to_node si (eb_entity b) = None \<Longrightarrow>
      si_entity_to_node si' (eb_entity b) = Some (node_for nodes b)"
    and "n \<in> set nodes \<Longrightarrow> si_entity_to_node si' e = Some (rb_node n) \<Longrightarrow> resolve_entity_node slot e si' =
      \<lparr>nr_code = rc_success, nr_handle = \<lparr>nh_slot = slot, nh_binding_id = rb_binding_id n\<rparr>\<rparr>"
proof -
  note in_range = find_slot_bound [OF at]
  have nd: "distinct (map rb_node nodes)" and ids: "distinct (map rb_binding_id nodes)"
    using layout_slot(1,2) [OF lay] in_range nodes by blast+
  have range: "rb_node n < length (si_entity_bindings si)" if "n \<in> set nodes" for n
    using layout_slot(3) [OF lay, of at n] in_range nodes lay that by (simp add: layout_ok_def)
  have acc: "bind_accepts m nodes (si_entity_bindings si) bindings"
    using bind_slot_accepts(2) [OF lay at nodes, of m bindings] bound by simp
  then have same: "mset (map eb_binding_id bindings) = mset (map rb_binding_id nodes)"
    and ents: "distinct (map eb_entity bindings)" by (auto simp: bind_accepts_def)
  note for_nodes = node_for_distinct [OF nd ids same]
  have found: "\<forall>b \<in> set bindings. find_binding (eb_binding_id b) nodes \<noteq> None" using for_nodes(3) by auto
  have lt: "\<forall>b \<in> set bindings. node_for nodes b < length (si_entity_bindings si)" using for_nodes(3) range by fastforce
  have si': "si' = (fold (bind_node nodes) bindings si)\<lparr>si_active := True\<rparr>"
    using bind_slot_accepts(1) [OF lay at nodes, of m bindings] acc bound by simp
  show "b \<in> set bindings \<Longrightarrow> si_entity_bindings si' ! node_for nodes b = target_of_binding b"
    using fold_targets_nth(2) [OF for_nodes(1) lt, of "node_for nodes b" target_of_binding] find_in_distinct [OF for_nodes(1)] lt
    by (simp add: si' fold_bind_fields(1) [OF found])
  show "si_entity_to_node si e = Some k \<Longrightarrow> si_entity_to_node si' e = Some k"
    by (simp add: si' fold_bind_keeps_entity)
  show "b \<in> set bindings \<Longrightarrow> si_entity_to_node si (eb_entity b) = None \<Longrightarrow>
      si_entity_to_node si' (eb_entity b) = Some (node_for nodes b)"
    using fold_bind_new_entity [OF ents found] by (simp add: si')
  have "find_slot (si_partitions si') slot = Some at" "slot_of (si_partitions si') at = slot_of (si_partitions si) at"
    using at by (simp_all add: si' fold_bind_fields(2) [OF found])
  then show "n \<in> set nodes \<Longrightarrow> si_entity_to_node si' e = Some (rb_node n) \<Longrightarrow> resolve_entity_node slot e si' =
      \<lparr>nr_code = rc_success, nr_handle = \<lparr>nh_slot = slot, nh_binding_id = rb_binding_id n\<rparr>\<rparr>"
    using find_in_distinct [OF nd] nodes by (simp add: resolve_entity_node_def)
qed

subsection \<open>What unbinding and clearing do\<close>

lemma unbind_node_maps:
  assumes "entity_maps_ok si" and "rb_node n < length (si_entity_bindings si)"
  shows "entity_maps_ok (unbind_node m n si)"
  unfolding entity_maps_ok_def
proof (intro allI)
  fix e j
  let ?k = "rb_node n" and ?si = "unbind_node m n si"
  let ?e = "et_entity (si_entity_bindings si ! ?k)"
  have maps: "si_entity_to_node si e = Some j \<longleftrightarrow>
      e \<noteq> None \<and> j < length (si_entity_bindings si) \<and> et_entity (si_entity_bindings si ! j) = e" for e j
    using assms(1) by (simp add: entity_maps_ok_def)
  have "si_entity_to_node ?si e = (if e = ?e then None else si_entity_to_node si e)" by (simp add: unbind_node_def)
  moreover have "si_entity_bindings ?si ! j = (if j = ?k then no_target m else si_entity_bindings si ! j)"
    using assms(2) by (simp add: unbind_node_def)
  ultimately show "si_entity_to_node ?si e = Some j \<longleftrightarrow>
      e \<noteq> None \<and> j < length (si_entity_bindings ?si) \<and> et_entity (si_entity_bindings ?si ! j) = e"
    using maps [of e j] maps [of ?e ?k] assms(2)
    by (cases "j = ?k") (auto simp: unbind_node_def no_target_def)
qed

lemma clear_node_frame [simp]:
  "si_partitions (clear_node m n si) = si_partitions si" "si_controllers (clear_node m n si) = si_controllers si"
  "si_topology (clear_node m n si) = si_topology si" "si_write_owners (clear_node m n si) = si_write_owners si"
  "si_evaluated_stamp (clear_node m n si) = si_evaluated_stamp si" "si_targets (clear_node m n si) = si_targets si"
  "length (si_entity_bindings (clear_node m n si)) = length (si_entity_bindings si)"
  "length (m_records (si_state (clear_node m n si))) = length (m_records (si_state si))"
  by (simp_all add: clear_node_def unbind_node_def Let_def length_set_local)

lemma fold_clear_frame [simp]:
  "si_partitions (fold (clear_node m) ns si) = si_partitions si" "si_controllers (fold (clear_node m) ns si) = si_controllers si"
  "si_topology (fold (clear_node m) ns si) = si_topology si" "si_write_owners (fold (clear_node m) ns si) = si_write_owners si"
  "si_evaluated_stamp (fold (clear_node m) ns si) = si_evaluated_stamp si" "si_targets (fold (clear_node m) ns si) = si_targets si"
  "length (si_entity_bindings (fold (clear_node m) ns si)) = length (si_entity_bindings si)"
  "length (m_records (si_state (fold (clear_node m) ns si))) = length (m_records (si_state si))"
  by (induction ns arbitrary: si) simp_all

lemma clear_node_maps:
  "entity_maps_ok si \<Longrightarrow> rb_node n < length (si_entity_bindings si) \<Longrightarrow> entity_maps_ok (clear_node m n si)"
  using unbind_node_maps [of si n m] by (simp add: clear_node_def Let_def entity_maps_ok_def)

lemma fold_clear_maps:
  "entity_maps_ok si \<Longrightarrow> \<forall>n \<in> set ns. rb_node n < length (si_entity_bindings si) \<Longrightarrow> entity_maps_ok (fold (clear_node m) ns si)"
  by (induction ns arbitrary: si) (simp_all add: clear_node_maps)

lemma fold_unbind_maps:
  "entity_maps_ok si \<Longrightarrow> \<forall>n \<in> set ns. rb_node n < length (si_entity_bindings si) \<Longrightarrow> entity_maps_ok (fold (unbind_node m) ns si)"
proof (induction ns arbitrary: si)
  case (Cons n ns)
  have "length (si_entity_bindings (unbind_node m n si)) = length (si_entity_bindings si)" by (simp add: unbind_node_def)
  with Cons unbind_node_maps [of si n m] show ?case by simp
qed simp

text \<open>Clearing one node, and a list of distinct nodes, seen from every node.\<close>

definition clearable :: "('x, 'v, 'b) scene_instance \<Rightarrow> bool" where
  "clearable si \<longleftrightarrow> length (si_entity_bindings si) = length (m_records (si_state si)) \<and>
     motion_set_ok (si_motion si) \<and> am_node_count (si_motion si) = length (m_records (si_state si))"

lemma clear_node_effect:
  assumes ok: "clearable si" and n: "rb_node n < length (si_entity_bindings si)" and room: "m_revision (si_state si) \<noteq> - 1"
  shows "clearable (clear_node m n si)"
    and "si_entity_bindings (clear_node m n si) = (si_entity_bindings si)[rb_node n := no_target m]"
    and "local_of (si_state (clear_node m n si)) (rb_node n) = rb_initial_local n"
    and "k \<noteq> rb_node n \<Longrightarrow> record_at (si_state (clear_node m n si)) k = record_at (si_state si) k"
    and "motion_of (si_motion (clear_node m n si)) = (motion_of (si_motion si))(rb_node n := None)"
    and "m_revision (si_state (clear_node m n si)) = m_revision (si_state si) + 1"
proof -
  have len: "length (si_entity_bindings si) = length (m_records (si_state si))" and mo: "motion_set_ok (si_motion si)"
    and cnt: "rb_node n < am_node_count (si_motion si)" "am_node_count (si_motion si) = length (m_records (si_state si))"
    using ok n by (auto simp: clearable_def)
  note d = deactivate_spec [OF mo cnt(1)]
  have l: "fst (set_local (rb_node n) (rb_initial_local n) (si_state si)) = te_none"
    using n len room by (simp add: set_local_ok)
  show "clearable (clear_node m n si)"
    using ok d by (simp add: clearable_def clear_node_def unbind_node_def Let_def length_set_local)
  show "si_entity_bindings (clear_node m n si) = (si_entity_bindings si)[rb_node n := no_target m]"
    by (simp add: clear_node_def unbind_node_def Let_def)
  show "local_of (si_state (clear_node m n si)) (rb_node n) = rb_initial_local n"
    by (simp add: clear_node_def unbind_node_def Let_def local_of_def record_at_def set_local_ok_record [OF l])
  show "k \<noteq> rb_node n \<Longrightarrow> record_at (si_state (clear_node m n si)) k = record_at (si_state si) k"
    by (simp add: clear_node_def unbind_node_def Let_def record_at_def set_local_other)
  show "motion_of (si_motion (clear_node m n si)) = (motion_of (si_motion si))(rb_node n := None)"
    using d by (simp add: clear_node_def unbind_node_def Let_def)
  show "m_revision (si_state (clear_node m n si)) = m_revision (si_state si) + 1"
    by (simp add: clear_node_def unbind_node_def Let_def set_local_ok_revision [OF l])
qed

definition node_cleared :: "('x, 'v, 'q, 'f) az_math \<Rightarrow> 'x runtime_node_binding \<Rightarrow> ('x, 'v, 'b) scene_instance \<Rightarrow> bool" where
  "node_cleared m n si \<longleftrightarrow>
     si_entity_bindings si ! rb_node n = no_target m \<and> local_of (si_state si) (rb_node n) = rb_initial_local n \<and>
     motion_of (si_motion si) (rb_node n) = None"

definition node_kept :: "node_handle \<Rightarrow> ('x, 'v, 'b) scene_instance \<Rightarrow> ('x, 'v, 'b) scene_instance \<Rightarrow> bool" where
  "node_kept k si si' \<longleftrightarrow>
     si_entity_bindings si' ! k = si_entity_bindings si ! k \<and> record_at (si_state si') k = record_at (si_state si) k \<and>
     motion_of (si_motion si') k = motion_of (si_motion si) k"

lemma fold_clear_nodes:
  assumes "distinct (map rb_node ns)" and "\<forall>n \<in> set ns. rb_node n < length (si_entity_bindings si)"
    and "clearable si" and "unat (m_revision (si_state si)) + length ns < 2 ^ 64"
  shows "(\<forall>n \<in> set ns. node_cleared m n (fold (clear_node m) ns si)) \<and>
    (\<forall>k. k \<notin> rb_node ` set ns \<longrightarrow> node_kept k si (fold (clear_node m) ns si))"
  using assms
proof (induction ns arbitrary: si)
  case (Cons n ns)
  let ?s = "clear_node m n si"
  have room: "m_revision (si_state si) \<noteq> - 1" using Cons.prems(4) max_u64_unat by auto
  have n: "rb_node n < length (si_entity_bindings si)" using Cons.prems(2) by simp
  note e = clear_node_effect [where m = m, OF Cons.prems(3) n room]
  have rest: "(\<forall>n \<in> set ns. node_cleared m n (fold (clear_node m) ns ?s)) \<and>
    (\<forall>k. k \<notin> rb_node ` set ns \<longrightarrow> node_kept k ?s (fold (clear_node m) ns ?s))"
    using Cons.prems(1,2,4) e(1,2) unat_next [OF room] by (intro Cons.IH) (auto simp: e(6))
  have new: "rb_node n \<notin> rb_node ` set ns" using Cons.prems(1) by simp
  have "node_cleared m n (fold (clear_node m) ns ?s)"
    using rest new e n by (auto simp: node_kept_def node_cleared_def local_of_def)
  moreover have "node_kept k si (fold (clear_node m) ns ?s)" if "k \<notin> rb_node ` set (n # ns)" for k
  proof -
    have "node_kept k si ?s" using e that by (auto simp: node_kept_def)
    with rest that show ?thesis by (auto simp: node_kept_def)
  qed
  ultimately show ?case using rest by auto
qed (simp add: node_kept_def)

subsection \<open>A concrete scene\<close>

text \<open>
  Integers as transforms under addition; one partition of two slots over the four-node scene of
  \<open>Transform_System\<close>.
\<close>

definition int_math :: "(int, int, int, int) az_math" where
  "int_math =
     \<lparr>az_identity = 0, az_mul = (+), az_inverse = uminus, az_is_finite = (\<lambda>x. \<bar>x\<bar> < 1000000),
      az_translation = (\<lambda>x. x), az_set_translation = (\<lambda>v _. v), az_rotation = (\<lambda>_. 0), az_set_rotation = (\<lambda>_ x. x),
      az_zero = 0, az_add = (+), az_scale = (*), az_vector_is_finite = (\<lambda>v. \<bar>v\<bar> < 1000000), az_vector_is_zero = (\<lambda>v. v = 0),
      az_rotate = (\<lambda>_ v. v), az_euler = (\<lambda>v. v), az_quaternion_mul = (+), az_normalized = (\<lambda>q. q),
      az_float_of = (\<lambda>i. i), az_float_div = (\<lambda>a b. a)\<rparr>"

definition demo_partitions :: "int runtime_partition list" where
  "demo_partitions =
     [\<lparr>rp_partition = 7,
       rp_slots =
         [\<lparr>rs_nodes = [\<lparr>rb_binding_id = ''a'', rb_node = 0, rb_initial_local = 1\<rparr>,
                       \<lparr>rb_binding_id = ''b'', rb_node = 1, rb_initial_local = 10\<rparr>],
           rs_generation = 1, rs_reserved = False\<rparr>,
          \<lparr>rs_nodes = [\<lparr>rb_binding_id = ''a'', rb_node = 2, rb_initial_local = 100\<rparr>],
           rs_generation = 1, rs_reserved = False\<rparr>]\<rparr>]"

definition demo_scene :: "(int, int, unit) scene_instance" where
  "demo_scene = new_instance int_math small_tree small_state demo_partitions 16 4"

definition demo_spawner :: spawner_handle where
  "demo_spawner = \<lparr>ph_scene = 1, ph_partition = 7, ph_generation = 1\<rparr>"

definition demo_slot :: slot_handle where
  "demo_slot = \<lparr>sh_spawner = demo_spawner, sh_slot = 0, sh_generation = 1\<rparr>"

definition demo_reserved :: "(int, int, unit) scene_instance" where
  "demo_reserved = snd (reserve_slot demo_spawner demo_scene)"

definition demo_bindings :: "u64 \<Rightarrow> u64 \<Rightarrow> int entity_binding list" where
  "demo_bindings e f =
     [\<lparr>eb_binding_id = ''a'', eb_entity = Some e, eb_node_to_entity = 0\<rparr>,
      \<lparr>eb_binding_id = ''b'', eb_entity = Some f, eb_node_to_entity = 5\<rparr>]"

lemma demo_reserved_result: "fst (reserve_slot demo_spawner demo_scene) = \<lparr>sr_code = rc_success, sr_handle = demo_slot\<rparr>"
  by code_simp

lemma demo_layout: "layout_ok demo_reserved"
  unfolding layout_ok_def by (intro conjI; code_simp)

lemma demo_slots_ok: "slots_ok demo_partitions"
  by (simp add: slots_ok_def demo_partitions_def)

lemma reserve_slot_frame [simp]:
  "si_entity_bindings (snd (reserve_slot spawner si)) = si_entity_bindings si"
  "si_entity_to_node (snd (reserve_slot spawner si)) = si_entity_to_node si"
  "si_state (snd (reserve_slot spawner si)) = si_state si"
  "si_topology (snd (reserve_slot spawner si)) = si_topology si"
  "si_motion (snd (reserve_slot spawner si)) = si_motion si"
  by (simp_all add: reserve_slot_def split: prod.split)

lemma new_instance_maps: "entity_maps_ok (new_instance m t st ps step catch_up)"
  by (auto simp: entity_maps_ok_def new_instance_def no_target_def Let_def)

lemma demo_maps: "entity_maps_ok demo_reserved"
  using new_instance_maps [of int_math small_tree small_state demo_partitions 16 4]
  by (simp add: entity_maps_ok_def demo_reserved_def demo_scene_def)

subsection \<open>Properties\<close>

text \<open>C14. A released slot handle is dead: from the release of a live handle on, whatever slots of the spawner are
  reserved and released, no reservation returns that handle again and it finds nothing, as long as its
  slot is released fewer than 4294967295 times, when the generations come round. No reservation
  returns a handle that is live.\<close>

theorem stale_slots_stay_stale:
  assumes "slots_ok partitions" and "slot_live spawner partitions h"
    and "pool_run (\<lambda>_ :: unit. acquire_slot spawner) (retire_slot spawner) (Release h # ops) partitions = (issued, partitions')"
    and "releases_of (fst h) (Release h # ops) < 4294967295"
  shows "h \<notin> set issued \<and> find_slot partitions' (pool_handle spawner h) = None \<and>
    (\<forall>k ps. acquire_slot spawner partitions' = (Some k, ps) \<longrightarrow> find_slot partitions' (pool_handle spawner k) = None)"
proof -
  let ?i = "unat (fst h)" and ?ps = "retire_slot spawner h partitions"
  obtain p where p: "find_partition partitions spawner = Some p" "?i < length (rp_slots (partitions ! p))"
    "rs_generation (slot_of partitions (p, ?i)) = snd h"
    using assms(2) by (auto simp: slot_live_iff)
  note bumped = retire_bumps_generation [OF assms(1) p(1,2), of h]
  have g: "rs_generation (slot_of ?ps (p, ?i)) = next_generation (snd h)" using bumped(1) assms(2) p(3) by simp
  have "snd h \<noteq> 0"
    using slot_of_mem [of "(p, ?i)" partitions] find_partition_bound [OF p(1)] p(2,3) assms(1) by (auto simp: slots_ok_def)
  note cycle = generation_cycle [OF this]
  have run: "pool_run (\<lambda>_ :: unit. acquire_slot spawner) (retire_slot spawner) ops ?ps = (issued, partitions')"
    using assms(3) by simp
  have ok: "slots_ok ?ps" using slot_pool.release_inv [OF assms(1)] .
  have idx: "word_of_nat ?i = fst h" by simp
  from run_generations [OF ok bumped(2) _ run, of ?i] bumped(3) p(2) obtain k where
    k: "k \<le> releases_of (fst h) ops" "find_partition partitions' spawner = Some p"
    "rs_generation (slot_of partitions' (p, ?i)) = (next_generation ^^ k) (next_generation (snd h))"
    "\<forall>h' \<in> set issued. fst h' = fst h \<longrightarrow> (\<exists>j \<le> k. snd h' = (next_generation ^^ j) (next_generation (snd h)))"
    unfolding idx g by auto
  have moved: "(next_generation ^^ j) (next_generation (snd h)) \<noteq> snd h" if "j \<le> k" for j
  proof -
    have "Suc j < 4294967295" using that k(1) assms(4) by (simp add: releases_of_def)
    then have "(next_generation ^^ Suc j) (snd h) \<noteq> snd h" using cycle [of "Suc j"] by (auto dest: dvd_imp_le)
    then show ?thesis by (simp add: funpow_swap1)
  qed
  have "h \<notin> set issued" using k(4) moved by fastforce
  moreover have "find_slot partitions' (pool_handle spawner h) = None"
  proof (rule ccontr)
    assume "find_slot partitions' (pool_handle spawner h) \<noteq> None"
    then have "rs_generation (slot_of partitions' (p, ?i)) = snd h"
      using k(2) by (auto simp: find_slot_iff pool_handle_def)
    with k(3) moved [of k] show False by simp
  qed
  moreover have "slots_ok partitions'"
    using slot_pool.run_inv [OF assms(1), of spawner "Release h # ops"] assms(3) by simp
  then have "find_slot partitions' (pool_handle spawner k) = None" if "acquire_slot spawner partitions' = (Some k, ps)" for k ps
    using slot_pool.acquire_fresh that unfolding slot_live_def by blast
  ultimately show ?thesis by blast
qed

text \<open>Slot 0 is reserved, given back and reserved again: the second handle is another one.\<close>

theorem stale_slots_stay_stale_witness:
  "fst (acquire_slot demo_spawner demo_partitions) = Some (0, 1) \<and>
   fst (pool_run (\<lambda>_ :: unit. acquire_slot demo_spawner) (retire_slot demo_spawner) [Release (0, 1), Acquire ()]
     (snd (acquire_slot demo_spawner demo_partitions))) = [(0, 2)] \<and>
   find_slot (snd (pool_run (\<lambda>_ :: unit. acquire_slot demo_spawner) (retire_slot demo_spawner) [Release (0, 1), Acquire ()]
     (snd (acquire_slot demo_spawner demo_partitions)))) (pool_handle demo_spawner (0, 1)) = None"
proof -
  let ?ps = "snd (acquire_slot demo_spawner demo_partitions)"
  let ?run = "pool_run (\<lambda>_ :: unit. acquire_slot demo_spawner) (retire_slot demo_spawner) [Release (0, 1), Acquire ()] ?ps"
  have issued: "fst (acquire_slot demo_spawner demo_partitions) = Some (0, 1)" "fst ?run = [(0, 2)]" by code_simp+
  have ok: "slots_ok ?ps" using slot_pool.acquire_inv [OF demo_slots_ok] .
  have live: "slot_live demo_spawner ?ps (0, 1)" by code_simp
  have "releases_of (fst (0, 1)) [Release (0, 1), Acquire ()] < 4294967295" by (simp add: releases_of_def)
  from stale_slots_stay_stale [OF ok live _ this, of "fst ?run" "snd ?run"] issued show ?thesis by simp
qed

text \<open>C15. Rebinding a slot that is bound leaves stale entities. After any accepted binding every node of the
  slot drives the entity its binding names, but no entry of the map from entities is replaced or erased:
  an entity that drove a node before still resolves, successfully and to that old node, whether the new
  bindings drop it or move it to another node. The two maps disagree as soon as one node changes its entity.\<close>

theorem rebinding_leaves_stale_entities:
  assumes "layout_ok si" and "entity_maps_ok si" and "find_slot (si_partitions si) slot = Some at"
    and "nodes = rs_nodes (slot_of (si_partitions si) at)" and "bind_slot m slot bindings si = (rc_success, si')"
  shows "(\<forall>b \<in> set bindings. si_entity_bindings si' ! node_for nodes b = target_of_binding b) \<and>
    (\<forall>e k. si_entity_to_node si e = Some k \<longrightarrow> si_entity_to_node si' e = Some k) \<and>
    (\<forall>n \<in> set nodes. \<forall>e. et_entity (si_entity_bindings si ! rb_node n) = Some e \<longrightarrow>
      resolve_entity_node slot (Some e) si' =
        \<lparr>nr_code = rc_success, nr_handle = \<lparr>nh_slot = slot, nh_binding_id = rb_binding_id n\<rparr>\<rparr>) \<and>
    (\<forall>n \<in> set nodes. et_entity (si_entity_bindings si ! rb_node n) \<noteq> None \<longrightarrow>
      et_entity (si_entity_bindings si' ! rb_node n) \<noteq> et_entity (si_entity_bindings si ! rb_node n) \<longrightarrow>
      \<not> entity_maps_ok si')"
proof (intro conjI ballI allI impI)
  note e = rebind_effect [OF assms(1,3-5)]
  have mapped: "si_entity_to_node si' (et_entity (si_entity_bindings si ! rb_node n)) = Some (rb_node n)"
    if "n \<in> set nodes" and "et_entity (si_entity_bindings si ! rb_node n) \<noteq> None" for n
  proof (rule e(2))
    have "rb_node n < length (si_entity_bindings si)"
      using layout_slot(3) [OF assms(1), of at n] find_slot_bound [OF assms(3)] assms(1,4) that(1) by (simp add: layout_ok_def)
    with assms(2) that(2) show "si_entity_to_node si (et_entity (si_entity_bindings si ! rb_node n)) = Some (rb_node n)"
      unfolding entity_maps_ok_def by blast
  qed
  show "si_entity_bindings si' ! node_for nodes b = target_of_binding b" if "b \<in> set bindings" for b
    using that by (rule e(1))
  show "si_entity_to_node si' k = Some n" if "si_entity_to_node si k = Some n" for k n using that by (rule e(2))
  show "resolve_entity_node slot (Some k) si' =
      \<lparr>nr_code = rc_success, nr_handle = \<lparr>nh_slot = slot, nh_binding_id = rb_binding_id n\<rparr>\<rparr>"
    if "n \<in> set nodes" and "et_entity (si_entity_bindings si ! rb_node n) = Some k" for n k
    using e(4) [OF that(1)] mapped [OF that(1)] that(2) by simp
  show "\<not> entity_maps_ok si'"
    if "n \<in> set nodes" and "et_entity (si_entity_bindings si ! rb_node n) \<noteq> None"
      and "et_entity (si_entity_bindings si' ! rb_node n) \<noteq> et_entity (si_entity_bindings si ! rb_node n)" for n
    using mapped [OF that(1,2)] that(3) unfolding entity_maps_ok_def by blast
qed

definition demo_bound :: "(int, int, unit) scene_instance" where
  "demo_bound = snd (bind_slot int_math demo_slot (demo_bindings 5 6) demo_reserved)"

lemma demo_rebinding:
  "layout_ok demo_bound \<and> entity_maps_ok demo_bound"
proof -
  have found: "find_slot (si_partitions demo_reserved) demo_slot = Some (0, 0)" by code_simp
  have free: "slot_unbound (si_entity_bindings demo_reserved) (rs_nodes (slot_of (si_partitions demo_reserved) (0, 0)))"
    unfolding slot_unbound_def by code_simp
  have "fst (bind_slot int_math demo_slot (demo_bindings 5 6) demo_reserved) = rc_success" by code_simp
  then have "bind_accepts int_math (rs_nodes (slot_of (si_partitions demo_reserved) (0, 0))) (si_entity_bindings demo_reserved) (demo_bindings 5 6)"
    using bind_slot_accepts(2) [OF demo_layout found refl] by blast
  from bind_effect(1,2) [OF demo_layout demo_maps found refl free this] show ?thesis by (simp add: demo_bound_def)
qed

text \<open>Entities 5 and 6 swap their nodes, or are replaced by 7 and 8: entity 6 resolves to the second node as before,
  although the first one drives it, or none.\<close>

theorem rebinding_leaves_stale_entities_witness:
  "(\<exists>si'. bind_slot int_math demo_slot (demo_bindings 6 5) demo_bound = (rc_success, si') \<and>
      et_entity (si_entity_bindings si' ! 0) = Some 6 \<and>
      resolve_entity_node demo_slot (Some 6) si' =
        \<lparr>nr_code = rc_success, nr_handle = \<lparr>nh_slot = demo_slot, nh_binding_id = ''b''\<rparr>\<rparr>) \<and>
   (\<exists>si'. bind_slot int_math demo_slot (demo_bindings 7 8) demo_bound = (rc_success, si') \<and>
      et_entity (si_entity_bindings si' ! 0) = Some 7 \<and> et_entity (si_entity_bindings si' ! 1) = Some 8 \<and>
      resolve_entity_node demo_slot (Some 6) si' =
        \<lparr>nr_code = rc_success, nr_handle = \<lparr>nh_slot = demo_slot, nh_binding_id = ''b''\<rparr>\<rparr>)"
proof -
  let ?nodes = "rs_nodes (slot_of (si_partitions demo_bound) (0, 0))"
  have found: "find_slot (si_partitions demo_bound) demo_slot = Some (0, 0)" by code_simp
  have nodes: "?nodes = [\<lparr>rb_binding_id = ''a'', rb_node = 0, rb_initial_local = 1\<rparr>,
      \<lparr>rb_binding_id = ''b'', rb_node = 1, rb_initial_local = 10\<rparr>]" by code_simp
  have before: "et_entity (si_entity_bindings demo_bound ! 1) = Some 6" by code_simp
  have codes: "fst (bind_slot int_math demo_slot (demo_bindings 6 5) demo_bound) = rc_success"
    "fst (bind_slot int_math demo_slot (demo_bindings 7 8) demo_bound) = rc_success" by code_simp+
  have one: "\<exists>si'. bind_slot int_math demo_slot (demo_bindings e f) demo_bound = (rc_success, si') \<and>
      et_entity (si_entity_bindings si' ! 0) = Some e \<and> et_entity (si_entity_bindings si' ! 1) = Some f \<and>
      resolve_entity_node demo_slot (Some 6) si' =
        \<lparr>nr_code = rc_success, nr_handle = \<lparr>nh_slot = demo_slot, nh_binding_id = ''b''\<rparr>\<rparr>"
    if code: "fst (bind_slot int_math demo_slot (demo_bindings e f) demo_bound) = rc_success" for e f
  proof -
    obtain si' where si': "bind_slot int_math demo_slot (demo_bindings e f) demo_bound = (rc_success, si')"
      using code by (metis prod.collapse)
    note stale = rebinding_leaves_stale_entities [OF demo_rebinding [THEN conjunct1] demo_rebinding [THEN conjunct2]
        found refl si', unfolded nodes]
    from stale [THEN conjunct1] have "si_entity_bindings si' ! 0 = \<lparr>et_entity = Some e, et_node_to_target = 0\<rparr>"
      "si_entity_bindings si' ! 1 = \<lparr>et_entity = Some f, et_node_to_target = 5\<rparr>"
      by (simp_all add: demo_bindings_def node_for_def find_binding_def target_of_binding_def)
    moreover from stale before have "resolve_entity_node demo_slot (Some 6) si' =
        \<lparr>nr_code = rc_success, nr_handle = \<lparr>nh_slot = demo_slot, nh_binding_id = ''b''\<rparr>\<rparr>" by simp
    ultimately show ?thesis using si' by simp
  qed
  from one [OF codes(1)] one [OF codes(2)] show ?thesis by blast
qed

text \<open>Binding an unbound slot succeeds exactly when the bindings name each of its nodes once and give
  each a valid, finite and so far unbound entity; then every entity resolves to the node its binding
  names, that node drives it, the nodes of other slots keep their targets, and the two entity maps
  stay inverse. A refused binding changes nothing.\<close>

theorem binding_targets_every_node:
  assumes "layout_ok si" and "entity_maps_ok si" and "find_slot (si_partitions si) slot = Some at"
    and "nodes = rs_nodes (slot_of (si_partitions si) at)" and "slot_unbound (si_entity_bindings si) nodes"
    and "bind_slot m slot bindings si = (code, si')"
  shows "(code = rc_success \<longleftrightarrow> bind_accepts m nodes (si_entity_bindings si) bindings) \<and>
    entity_maps_ok si' \<and> (code \<noteq> rc_success \<longrightarrow> si' = si) \<and>
    (code = rc_success \<longrightarrow>
      (\<forall>b \<in> set bindings. si_entity_bindings si' ! node_for nodes b = target_of_binding b \<and>
         resolve_entity_node slot (eb_entity b) si' =
           \<lparr>nr_code = rc_success, nr_handle = \<lparr>nh_slot = slot, nh_binding_id = eb_binding_id b\<rparr>\<rparr>) \<and>
      (\<forall>n. n \<notin> rb_node ` set nodes \<longrightarrow> si_entity_bindings si' ! n = si_entity_bindings si ! n))"
proof (cases "bind_accepts m nodes (si_entity_bindings si) bindings")
  case True
  note acc = bind_slot_accepts [OF assms(1,3,4), of m bindings]
  have si': "si' = snd (bind_slot m slot bindings si)" using assms(6) by simp
  note e = bind_effect [OF assms(1-5) True si']
  from acc(2) True assms(6) have code: "code = rc_success" by simp
  have "\<forall>b \<in> set bindings. si_entity_bindings si' ! node_for nodes b = target_of_binding b \<and>
      resolve_entity_node slot (eb_entity b) si' =
        \<lparr>nr_code = rc_success, nr_handle = \<lparr>nh_slot = slot, nh_binding_id = eb_binding_id b\<rparr>\<rparr>"
    using e(3,5) by blast
  moreover have "\<forall>n. n \<notin> rb_node ` set nodes \<longrightarrow> si_entity_bindings si' ! n = si_entity_bindings si ! n"
    using e(4) by blast
  ultimately show ?thesis using True code e(1) by simp
next
  case False
  note acc = bind_slot_accepts [OF assms(1,3,4), of m bindings]
  from acc(1) False assms(6) have "si' = si" by simp
  moreover have "code \<noteq> rc_success" using acc(2) False assms(6) by simp
  ultimately show ?thesis using False assms(2) by simp
qed

lemma demo_slot_found: "find_slot (si_partitions demo_reserved) demo_slot = Some (0, 0)"
  by code_simp

lemma demo_slot_unbound:
  "slot_unbound (si_entity_bindings demo_reserved) (rs_nodes (slot_of (si_partitions demo_reserved) (0, 0)))"
  unfolding slot_unbound_def by code_simp

theorem binding_targets_every_node_witness:
  "resolve_entity_node demo_slot (Some 6) (snd (bind_slot int_math demo_slot (demo_bindings 5 6) demo_reserved)) =
     \<lparr>nr_code = rc_success, nr_handle = \<lparr>nh_slot = demo_slot, nh_binding_id = ''b''\<rparr>\<rparr>"
proof -
  have code: "fst (bind_slot int_math demo_slot (demo_bindings 5 6) demo_reserved) = rc_success" by code_simp
  have "\<lparr>eb_binding_id = ''b'', eb_entity = Some 6, eb_node_to_entity = 5\<rparr> \<in> set (demo_bindings 5 6)"
    by (simp add: demo_bindings_def)
  then show ?thesis
    using binding_targets_every_node [OF demo_layout demo_maps demo_slot_found refl demo_slot_unbound
        surjective_pairing, of int_math "demo_bindings 5 6"] code
    by fastforce
qed

text \<open>C16. Releasing a slot without controllers makes its handle stale and leaves its nodes clean: unbound,
  out of the motion set and back at their initial locals. The nodes of other slots keep their
  bindings, transform records and motion.\<close>

theorem released_slots_are_clean:
  assumes "layout_ok si" and "entity_maps_ok si" and "clearable si"
    and "find_slot (si_partitions si) slot = Some at" and "\<not> has_controllers slot (si_controllers si)"
    and "nodes = rs_nodes (slot_of (si_partitions si) at)"
    and "unat (m_revision (si_state si)) + length nodes < 2 ^ 64"
  shows "\<exists>si'. release_slot m slot si = (rc_success, si') \<and> find_slot (si_partitions si') slot = None \<and>
    entity_maps_ok si' \<and> (\<forall>n \<in> set nodes. node_cleared m n si') \<and>
    (\<forall>k. k \<notin> rb_node ` set nodes \<longrightarrow> node_kept k si si')"
proof -
  let ?c = "fold (clear_node m) nodes si"
  let ?si' = "?c\<lparr>si_partitions := release_in slot (si_partitions si)\<rparr>"
  note bound = find_slot_bound [OF assms(4)]
  have rel: "release_slot m slot si = (rc_success, ?si')"
    using assms(4-6) by (simp add: release_slot_def clear_slot_def Let_def)
  have lt: "\<forall>n \<in> set nodes. rb_node n < length (si_entity_bindings si)"
    using layout_slot(3) [OF assms(1), of at] bound assms(1,6) by (simp add: layout_ok_def)
  have nd: "distinct (map rb_node nodes)" using layout_slot(1) [OF assms(1), of at] bound assms(6) by simp
  note cleared = fold_clear_nodes [where m = m, OF nd lt assms(3,7)]
  have "find_slot (release_in slot (si_partitions si)) slot = None"
  proof (rule ccontr)
    assume "find_slot (release_in slot (si_partitions si)) slot \<noteq> None"
    then obtain at' where at': "find_slot (release_in slot (si_partitions si)) slot = Some at'" by blast
    then have "at' = at" using assms(4) by (auto simp: release_in_def find_slot_iff prod_eq_iff)
    with at' assms(4) bound show False by (auto simp: release_in_def find_slot_iff slot_of_update)
  qed
  moreover have "entity_maps_ok ?si'"
    using fold_clear_maps [OF assms(2) lt, of m] by (simp add: entity_maps_ok_def)
  moreover have "(\<forall>n \<in> set nodes. node_cleared m n ?si') \<and> (\<forall>k. k \<notin> rb_node ` set nodes \<longrightarrow> node_kept k si ?si')"
    using cleared by (simp add: node_cleared_def node_kept_def)
  ultimately show ?thesis using rel by auto
qed

lemma demo_clearable: "clearable demo_reserved"
  unfolding clearable_def
proof (intro conjI)
  show "motion_set_ok (si_motion demo_reserved)"
    by (simp add: demo_reserved_def demo_scene_def new_instance_def new_motion_set_ok Let_def)
qed code_simp+

theorem released_slots_are_clean_witness:
  "\<exists>si'. release_slot int_math demo_slot demo_reserved = (rc_success, si') \<and> find_slot (si_partitions si') demo_slot = None"
proof -
  have "\<not> has_controllers demo_slot (si_controllers demo_reserved)" by code_simp
  moreover have "m_revision (si_state demo_reserved) = 0"
    "length (rs_nodes (slot_of (si_partitions demo_reserved) (0, 0))) = 2" by code_simp+
  ultimately show ?thesis
    using released_slots_are_clean [OF demo_layout demo_maps demo_clearable demo_slot_found _ refl, of int_math] by auto
qed

end
