(* ===== verification/Scene_Commands.thy ===== *)
theory Scene_Commands
  imports Scene_Slots
begin

section \<open>Controller targets and buffered commands\<close>

text \<open>
  The controller targets of \<open>SceneInstance.cpp\<close> and the command sink. A controller writes
  through target tokens while a sink is bound; its writes go to the pending fields of the target
  records and are applied when the sink is closed. The epoch of the sink marks the records it has
  touched. \<open>INVALID_NODE\<close> is refused by every operation on nodes, so a target without a node
  leaves the transforms alone and makes a motion batch fail.
\<close>

subsection \<open>Targets\<close>

definition find_target :: "target_token \<Rightarrow> u64 \<Rightarrow> ('x, 'v, 'b) scene_instance \<Rightarrow> nat option" where
  "find_target target epoch si =
     (if epoch = 0 \<or> epoch \<noteq> si_command_epoch si \<or> \<not> token_valid target \<or>
         length (si_targets si) \<le> unat (tt_index target) then None
      else let record = si_targets si ! unat (tt_index target)
           in if \<not> ct_active record \<or> ct_generation record \<noteq> tt_generation target then None
              else Some (unat (tt_index target)))"

definition allocate_target ::
  "('x, 'v, 'q, 'f) az_math \<Rightarrow> scene_node_handle \<Rightarrow> node_handle \<Rightarrow> target_access \<Rightarrow>
   ('x, 'v, 'b) scene_instance \<Rightarrow> target_token \<times> ('x, 'v, 'b) scene_instance" where
  "allocate_target m node runtime_node access si =
     (let (index, si) =
            (if si_free_targets si = []
             then (word_of_nat (length (si_targets si)), si\<lparr>si_targets := si_targets si @ [new_target_record m]\<rparr>)
             else (last (si_free_targets si), si\<lparr>si_free_targets := butlast (si_free_targets si)\<rparr>));
          record = (si_targets si ! unat index)\<lparr>ct_node := node, ct_runtime_node := Some runtime_node,
            ct_access := access, ct_pending_local := az_identity m,
            ct_pending_motion := \<lparr>linear_velocity = az_zero m, angular_velocity = az_zero m\<rparr>,
            ct_local_epoch := 0, ct_motion_epoch := 0, ct_active := True\<rparr>
      in (\<lparr>tt_index = index, tt_generation = ct_generation record\<rparr>,
          si\<lparr>si_targets := (si_targets si)[unat index := record],
             si_write_owners := (if access = ta_read_write then (si_write_owners si)[runtime_node := index + 1]
                                 else si_write_owners si)\<rparr>))"

definition release_target :: "target_token \<Rightarrow> ('x, 'v, 'b) scene_instance \<Rightarrow> ('x, 'v, 'b) scene_instance" where
  "release_target target si =
     (if \<not> token_valid target \<or> length (si_targets si) \<le> unat (tt_index target) then si
      else let record = si_targets si ! unat (tt_index target)
           in if \<not> ct_active record \<or> ct_generation record \<noteq> tt_generation target then si
              else
                let owners =
                      (case ct_runtime_node record of
                         None \<Rightarrow> si_write_owners si
                       | Some n \<Rightarrow>
                           if ct_access record = ta_read_write \<and> si_write_owners si ! n = tt_index target + 1
                           then (si_write_owners si)[n := 0] else si_write_owners si)
                in si\<lparr>si_write_owners := owners,
                      si_targets := (si_targets si)[unat (tt_index target) := record
                        \<lparr>ct_active := False, ct_node := no_node, ct_runtime_node := None,
                         ct_generation := next_generation (ct_generation record)\<rparr>],
                      si_free_targets := si_free_targets si @ [tt_index target]\<rparr>)"

subsection \<open>Sinks\<close>

definition begin_commands :: "('x, 'v, 'b) scene_instance \<Rightarrow> ('x, 'v, 'b) scene_instance" where
  "begin_commands si =
     si\<lparr>si_local_touched := [], si_motion_touched := [], si_command_epoch := next_generation (si_command_epoch si)\<rparr>"

definition set_controller_local ::
  "('x, 'v, 'q, 'f) az_math \<Rightarrow> target_token \<Rightarrow> u64 \<Rightarrow> 'x \<Rightarrow> ('x, 'v, 'b) scene_instance \<Rightarrow>
   controller_result \<times> ('x, 'v, 'b) scene_instance" where
  "set_controller_local m target epoch loc si =
     (case find_target target epoch si of
        None \<Rightarrow> (cr_invalid_target, si)
      | Some i \<Rightarrow>
          let record = si_targets si ! i
          in if ct_access record \<noteq> ta_read_write then (cr_read_only_target, si)
             else if \<not> az_is_finite m loc then (cr_invalid_input, si)
             else (cr_success,
                   si\<lparr>si_targets := (si_targets si)[i := record\<lparr>ct_pending_local := loc, ct_local_epoch := epoch\<rparr>],
                      si_local_touched := (if ct_local_epoch record \<noteq> epoch
                        then si_local_touched si @ [tt_index target] else si_local_touched si)\<rparr>))"

definition set_controller_velocity ::
  "('x, 'v, 'q, 'f) az_math \<Rightarrow> target_token \<Rightarrow> u64 \<Rightarrow> 'v \<Rightarrow> 'v \<Rightarrow> ('x, 'v, 'b) scene_instance \<Rightarrow>
   controller_result \<times> ('x, 'v, 'b) scene_instance" where
  "set_controller_velocity m target epoch lin ang si =
     (case find_target target epoch si of
        None \<Rightarrow> (cr_invalid_target, si)
      | Some i \<Rightarrow>
          let record = si_targets si ! i
          in if ct_access record \<noteq> ta_read_write then (cr_read_only_target, si)
             else if \<not> az_vector_is_finite m lin \<or> \<not> az_vector_is_finite m ang then (cr_invalid_input, si)
             else (cr_success,
                   si\<lparr>si_targets := (si_targets si)[i := record
                        \<lparr>ct_pending_motion := \<lparr>linear_velocity = lin, angular_velocity = ang\<rparr>, ct_motion_epoch := epoch\<rparr>],
                      si_motion_touched := (if ct_motion_epoch record \<noteq> epoch
                        then si_motion_touched si @ [tt_index target] else si_motion_touched si)\<rparr>))"

definition get_controller_local ::
  "target_token \<Rightarrow> u64 \<Rightarrow> ('x, 'v, 'b) scene_instance \<Rightarrow> controller_result \<times> 'x option" where
  "get_controller_local target epoch si =
     (case find_target target epoch si of
        None \<Rightarrow> (cr_invalid_target, None)
      | Some i \<Rightarrow>
          let record = si_targets si ! i
          in (cr_success,
              if ct_local_epoch record = epoch then Some (ct_pending_local record)
              else (case ct_runtime_node record of
                      None \<Rightarrow> None
                    | Some n \<Rightarrow> Some (local_of (si_state si) n))))"

text \<open>Running a method that was given a sink of some epoch.\<close>

primrec run_sink ::
  "('x, 'v, 'q, 'f) az_math \<Rightarrow> u64 \<Rightarrow> ('x, 'v, 'r) sink_program \<Rightarrow> ('x, 'v, 'b) scene_instance \<Rightarrow>
   'r \<times> ('x, 'v, 'b) scene_instance" where
  "run_sink m epoch (Finish r) = (\<lambda>si. (r, si))"
| "run_sink m epoch (Set_local_transform target loc k) =
     (\<lambda>si. case set_controller_local m target epoch loc si of (code, si) \<Rightarrow> run_sink m epoch (k code) si)"
| "run_sink m epoch (Set_velocity target lin ang k) =
     (\<lambda>si. case set_controller_velocity m target epoch lin ang si of (code, si) \<Rightarrow> run_sink m epoch (k code) si)"
| "run_sink m epoch (Stop_motion target k) =
     (\<lambda>si. case set_controller_velocity m target epoch (az_zero m) (az_zero m) si of
        (code, si) \<Rightarrow> run_sink m epoch (k code) si)"
| "run_sink m epoch (Get_local_transform target k) =
     (\<lambda>si. run_sink m epoch (k (get_controller_local target epoch si)) si)"

definition apply_local ::
  "('x, 'v) controller_target_record list \<Rightarrow> u32 \<Rightarrow> 'x transform_state \<Rightarrow> 'x transform_state" where
  "apply_local targets index st =
     (case ct_runtime_node (targets ! unat index) of
        None \<Rightarrow> st
      | Some n \<Rightarrow> snd (set_local n (ct_pending_local (targets ! unat index)) st))"

definition motion_updates ::
  "('x, 'v) controller_target_record list \<Rightarrow> u32 list \<Rightarrow> ('v, 'v) motion_update list" where
  "motion_updates targets touched =
     map (\<lambda>i. \<lparr>upd_node = the (ct_runtime_node (targets ! unat i)),
               upd_state = ct_pending_motion (targets ! unat i)\<rparr>) touched"

definition end_commands ::
  "('x, 'v, 'q, 'f) az_math \<Rightarrow> bool \<Rightarrow> ('x, 'v, 'b) scene_instance \<Rightarrow> ('x, 'v, 'b) scene_instance" where
  "end_commands m apply_them si =
     (let si =
        (if apply_them then
           let si = si\<lparr>si_state := fold (apply_local (si_targets si)) (si_local_touched si) (si_state si)\<rparr>
           in if \<exists>i \<in> set (si_motion_touched si). ct_runtime_node (si_targets si ! unat i) = None then si
              else case apply_updates_bulk (policy_is_stationary m)
                     (motion_updates (si_targets si) (si_motion_touched si)) (si_update_workspace si) (si_motion si) of
                (_, motion, ws) \<Rightarrow> si\<lparr>si_motion := motion, si_update_workspace := ws\<rparr>
         else si)
      in si\<lparr>si_local_touched := [], si_motion_touched := []\<rparr>)"

subsection \<open>Targets: slots with generations, and one writer per node\<close>

definition targets_ok :: "('x, 'v, 'b) scene_instance \<Rightarrow> bool" where
  "targets_ok si \<longleftrightarrow>
     length (si_targets si) < 2 ^ 32 \<and> (\<forall>r \<in> set (si_targets si). ct_generation r \<noteq> 0) \<and>
     distinct (si_free_targets si) \<and>
     (\<forall>i. i \<in> set (si_free_targets si) \<longleftrightarrow>
        unat i < length (si_targets si) \<and> \<not> ct_active (si_targets si ! unat i))"

definition writes_node :: "('x, 'v) controller_target_record \<Rightarrow> node_handle \<Rightarrow> bool" where
  "writes_node r n \<longleftrightarrow> ct_active r \<and> ct_access r = ta_read_write \<and> ct_runtime_node r = Some n"

definition owners_ok :: "('x, 'v, 'b) scene_instance \<Rightarrow> bool" where
  "owners_ok si \<longleftrightarrow>
     (\<forall>i < length (si_targets si). \<forall>n < length (si_write_owners si).
        writes_node (si_targets si ! i) n \<longleftrightarrow> si_write_owners si ! n = word_of_nat (i + 1)) \<and>
     (\<forall>n < length (si_write_owners si). unat (si_write_owners si ! n) \<le> length (si_targets si)) \<and>
     (\<forall>r \<in> set (si_targets si). ct_active r \<longrightarrow> (\<exists>n < length (si_write_owners si). ct_runtime_node r = Some n))"

lemma word_index: "i < 2 ^ 32 \<Longrightarrow> unat (word_of_nat i :: u32) = i"
  by (simp add: unsigned_of_nat take_bit_nat_eq_self)

lemma word_index_inj: "i < 2 ^ 32 \<Longrightarrow> j < 2 ^ 32 \<Longrightarrow> (word_of_nat i :: u32) = word_of_nat j \<longleftrightarrow> i = j"
  by (metis word_index)

definition allocated_record ::
  "('x, 'v, 'q, 'f) az_math \<Rightarrow> scene_node_handle \<Rightarrow> node_handle \<Rightarrow> target_access \<Rightarrow>
   ('x, 'v) controller_target_record \<Rightarrow> ('x, 'v) controller_target_record" where
  "allocated_record m node runtime_node access r =
     r\<lparr>ct_node := node, ct_runtime_node := Some runtime_node,
       ct_access := access, ct_pending_local := az_identity m,
       ct_pending_motion := \<lparr>linear_velocity = az_zero m, angular_velocity = az_zero m\<rparr>,
       ct_local_epoch := 0, ct_motion_epoch := 0, ct_active := True\<rparr>"

text \<open>Where a new target goes: a fresh record at the end, or the last freed one.\<close>

definition fresh_targets :: "('x, 'v, 'q, 'f) az_math \<Rightarrow> ('x, 'v, 'b) scene_instance \<Rightarrow> ('x, 'v) controller_target_record list" where
  "fresh_targets m si = (if si_free_targets si = [] then si_targets si @ [new_target_record m] else si_targets si)"

definition fresh_index :: "('x, 'v, 'b) scene_instance \<Rightarrow> nat" where
  "fresh_index si = (if si_free_targets si = [] then length (si_targets si) else unat (last (si_free_targets si)))"

lemma allocate_target_eq:
  assumes "targets_ok si"
  shows "allocate_target m node n access si =
    (let i = fresh_index si; ts = fresh_targets m si; r = allocated_record m node n access (ts ! i) in
     (\<lparr>tt_index = word_of_nat i, tt_generation = ct_generation (ts ! i)\<rparr>,
      si\<lparr>si_free_targets := butlast (si_free_targets si), si_targets := ts[i := r],
         si_write_owners := (if access = ta_read_write then (si_write_owners si)[n := word_of_nat (i + 1)]
                             else si_write_owners si)\<rparr>))"
proof -
  have "length (si_targets si) < 2 ^ 32" using assms by (simp add: targets_ok_def)
  then have "unat (word_of_nat (length (si_targets si)) :: u32) = length (si_targets si)" by (rule word_index)
  then show ?thesis
    by (simp add: allocate_target_def Let_def fresh_index_def fresh_targets_def allocated_record_def add.commute)
qed

lemma fresh_spec:
  assumes "targets_ok si"
  shows "fresh_index si < length (fresh_targets m si)"
    and "\<not> ct_active (fresh_targets m si ! fresh_index si)"
    and "ct_generation (fresh_targets m si ! fresh_index si) \<noteq> 0"
    and "j < length (si_targets si) \<Longrightarrow> fresh_targets m si ! j = si_targets si ! j"
    and "j < length (fresh_targets m si) \<Longrightarrow> j \<noteq> fresh_index si \<Longrightarrow> j < length (si_targets si)"
    and "length (fresh_targets m si) \<le> length (si_targets si) + 1"
    and "length (si_targets si) \<le> length (fresh_targets m si)"
proof -
  have free: "unat i < length (si_targets si) \<and> \<not> ct_active (si_targets si ! unat i)"
    if "si_free_targets si \<noteq> []" "i = last (si_free_targets si)" for i
    using assms last_in_set [OF that(1)] that(2) by (simp add: targets_ok_def)
  have gen: "ct_generation (si_targets si ! j) \<noteq> 0" if "j < length (si_targets si)" for j
    using assms nth_mem [OF that] by (simp add: targets_ok_def)
  show "fresh_index si < length (fresh_targets m si)" "\<not> ct_active (fresh_targets m si ! fresh_index si)"
    "ct_generation (fresh_targets m si ! fresh_index si) \<noteq> 0"
    using free gen by (auto simp: fresh_index_def fresh_targets_def new_target_record_def)
  show "j < length (si_targets si) \<Longrightarrow> fresh_targets m si ! j = si_targets si ! j"
    and "j < length (fresh_targets m si) \<Longrightarrow> j \<noteq> fresh_index si \<Longrightarrow> j < length (si_targets si)"
    and "length (fresh_targets m si) \<le> length (si_targets si) + 1"
    and "length (si_targets si) \<le> length (fresh_targets m si)"
    by (auto simp: fresh_index_def fresh_targets_def nth_append split: if_splits)
qed

lemma last_not_butlast: "distinct xs \<Longrightarrow> xs \<noteq> [] \<Longrightarrow> x \<in> set (butlast xs) \<longleftrightarrow> x \<in> set xs \<and> x \<noteq> last xs"
  by (induction xs) auto

lemma allocate_targets_ok:
  assumes ok: "targets_ok si" and room: "length (si_targets si) + 1 < 2 ^ 32"
  shows "targets_ok (snd (allocate_target m node n access si))"
  unfolding targets_ok_def
proof (intro conjI allI)
  note f = fresh_spec [where m = m, OF ok]
  let ?i = "fresh_index si" and ?ts = "fresh_targets m si"
  let ?r = "allocated_record m node n access (?ts ! ?i)" and ?si = "snd (allocate_target m node n access si)"
  have ts: "si_targets ?si = ?ts[?i := ?r]" "si_free_targets ?si = butlast (si_free_targets si)"
    by (simp_all add: allocate_target_eq [OF ok] Let_def)
  show "length (si_targets ?si) < 2 ^ 32" using f(6) room by (simp add: ts)
  have "ct_generation (?ts ! j) \<noteq> 0" if "j < length ?ts" for j
  proof (cases "j = ?i")
    case False
    with f(4,5) that ok show ?thesis by (metis nth_mem targets_ok_def)
  qed (use f(3) in simp)
  then have "\<forall>r \<in> set ?ts. ct_generation r \<noteq> 0" by (auto simp: in_set_conv_nth)
  moreover have "ct_generation ?r = ct_generation (?ts ! ?i)" by (simp add: allocated_record_def)
  ultimately show "\<forall>r \<in> set (si_targets ?si). ct_generation r \<noteq> 0"
    using f(3) set_update_subset_insert [of ?ts ?i ?r] by (auto simp: ts)
  show "distinct (si_free_targets ?si)" using ok by (simp add: ts targets_ok_def distinct_butlast)
  fix j :: u32
  have lt: "length ?ts < 2 ^ 32" using f(6) room by simp
  have "j \<in> set (butlast (si_free_targets si)) \<longleftrightarrow> j \<in> set (si_free_targets si) \<and> unat j \<noteq> ?i"
  proof (cases "si_free_targets si = []")
    case False
    have "distinct (si_free_targets si)" using ok by (simp add: targets_ok_def)
    with False last_not_butlast [of "si_free_targets si" j] show ?thesis
      by (simp add: fresh_index_def word_unat_eq_iff)
  qed simp
  also have "\<dots> \<longleftrightarrow> unat j < length (si_targets si) \<and> \<not> ct_active (si_targets si ! unat j) \<and> unat j \<noteq> ?i"
    using ok by (auto simp: targets_ok_def)
  also have "\<dots> \<longleftrightarrow> unat j < length ?ts \<and> \<not> ct_active (?ts[?i := ?r] ! unat j)"
  proof (cases "unat j = ?i")
    case True
    with f(1) show ?thesis by (simp add: allocated_record_def)
  next
    case False
    have "unat j < length ?ts \<longleftrightarrow> unat j < length (si_targets si)" using f(5) [OF _ False] f(7) by (meson less_le_trans)
    with False f(4) [of "unat j"] show ?thesis by auto
  qed
  finally show "j \<in> set (si_free_targets ?si) \<longleftrightarrow>
      unat j < length (si_targets ?si) \<and> \<not> ct_active (si_targets ?si ! unat j)" by (simp add: ts)
qed

lemma owner_entry:
  assumes "owners_ok si" and "i < length (si_targets si)" and "n < length (si_write_owners si)"
  shows "writes_node (si_targets si ! i) n \<longleftrightarrow> si_write_owners si ! n = word_of_nat (i + 1)"
  using assms by (simp add: owners_ok_def)

lemma owner_bound:
  assumes "owners_ok si" and "n < length (si_write_owners si)"
  shows "unat (si_write_owners si ! n) \<le> length (si_targets si)"
  using assms by (simp add: owners_ok_def)

lemma target_node_bound:
  assumes "owners_ok si" and "i < length (si_targets si)" and "ct_active (si_targets si ! i)"
  shows "\<exists>n < length (si_write_owners si). ct_runtime_node (si_targets si ! i) = Some n"
  using assms nth_mem [OF assms(2)] by (simp add: owners_ok_def)

lemma owner_index:
  assumes "targets_ok si" and "i < length (si_targets si)"
  shows "unat (word_of_nat (i + 1) :: u32) = i + 1 \<or> i + 1 = 2 ^ 32" and "unat (word_of_nat i :: u32) = i"
proof -
  have "length (si_targets si) < 2 ^ 32" using assms(1) by (simp add: targets_ok_def)
  with assms(2) word_index [of "i + 1"] word_index [of i]
  show "unat (word_of_nat (i + 1) :: u32) = i + 1 \<or> i + 1 = 2 ^ 32" "unat (word_of_nat i :: u32) = i" by auto
qed

lemma allocate_owners_ok:
  assumes ok: "targets_ok si" and own: "owners_ok si" and room: "length (si_targets si) + 1 < 2 ^ 32"
    and n: "n < length (si_write_owners si)" and free: "access = ta_read_write \<Longrightarrow> si_write_owners si ! n = 0"
  shows "owners_ok (snd (allocate_target m node n access si))"
proof -
  note f = fresh_spec [where m = m, OF ok]
  let ?i = "fresh_index si" and ?ts = "fresh_targets m si"
  let ?r = "allocated_record m node n access (?ts ! ?i)" and ?si = "snd (allocate_target m node n access si)"
  let ?os = "if access = ta_read_write then (si_write_owners si)[n := word_of_nat (?i + 1)] else si_write_owners si"
  have ts: "si_targets ?si = ?ts[?i := ?r]" "si_write_owners ?si = ?os"
    by (simp_all add: allocate_target_eq [OF ok] Let_def)
  have lt: "length ?ts < 2 ^ 32" using f(6) room by simp
  have word: "(word_of_nat (j + 1) :: u32) = word_of_nat (?i + 1) \<longleftrightarrow> j = ?i" if "j < length ?ts" for j
    using word_index_inj [of "j + 1" "?i + 1"] that f(1) lt by simp
  have nonzero: "(word_of_nat (j + 1) :: u32) \<noteq> 0" if "j < length ?ts" for j
    using word_index [of "j + 1"] that lt by (metis add_is_0 one_neq_zero unsigned_0 less_trans_Suc Suc_eq_plus1 Suc_leI le_less_trans)
  have r: "writes_node ?r k \<longleftrightarrow> access = ta_read_write \<and> k = n" for k
    by (auto simp: writes_node_def allocated_record_def)
  have idle: "\<not> writes_node (?ts ! ?i) k" for k using f(2) by (simp add: writes_node_def)
  have unowned: "si_write_owners si ! k \<noteq> word_of_nat (?i + 1)" if k: "k < length (si_write_owners si)" for k
  proof (cases "?i < length (si_targets si)")
    case True
    with owner_entry [OF own True k] idle f(4) [OF True] show ?thesis by simp
  next
    case False
    have "unat (word_of_nat (?i + 1) :: u32) = ?i + 1" using f(1) lt by (intro word_index) simp
    with owner_bound [OF own k] False show ?thesis by auto
  qed
  show ?thesis
    unfolding owners_ok_def ts
  proof (intro conjI allI impI ballI)
    fix j k assume j: "j < length (?ts[?i := ?r])" and k: "k < length ?os"
    then have k': "k < length (si_write_owners si)" by (simp split: if_splits)
    show "writes_node (?ts[?i := ?r] ! j) k \<longleftrightarrow> ?os ! k = word_of_nat (j + 1)"
    proof (cases "j = ?i")
      case True
      then show ?thesis using r unowned [OF k'] j n by (simp add: nth_list_update)
    next
      case False
      then have jl: "j < length (si_targets si)" using f(5) j by simp
      have old: "writes_node (?ts ! j) k \<longleftrightarrow> si_write_owners si ! k = word_of_nat (j + 1)"
        using owner_entry [OF own jl k'] f(4) [OF jl] by simp
      have "?os ! k = word_of_nat (j + 1) \<longleftrightarrow> si_write_owners si ! k = word_of_nat (j + 1)"
      proof (cases "access = ta_read_write \<and> k = n")
        case True
        with word [of j] j False free nonzero [of j] n show ?thesis by auto
      qed (use n in \<open>auto simp: nth_list_update\<close>)
      with old False show ?thesis by simp
    qed
  next
    fix k assume "k < length ?os"
    then have k: "k < length (si_write_owners si)" by (simp split: if_splits)
    have "unat (word_of_nat (?i + 1) :: u32) = ?i + 1" using f(1) lt by (intro word_index) simp
    with owner_bound [OF own k] f(1,7) show "unat (?os ! k) \<le> length (?ts[?i := ?r])"
      using n by (cases "k = n") auto
  next
    fix x assume x: "x \<in> set (?ts[?i := ?r])" and "ct_active x"
    then obtain j where j: "j < length ?ts" "x = ?ts[?i := ?r] ! j" by (metis in_set_conv_nth length_list_update)
    show "\<exists>k < length ?os. ct_runtime_node x = Some k"
    proof (cases "j = ?i")
      case True
      with j n show ?thesis by (auto simp: allocated_record_def)
    next
      case False
      with f(4,5) j have "x = si_targets si ! j" "j < length (si_targets si)" by auto
      with target_node_bound [OF own] \<open>ct_active x\<close> show ?thesis by (auto split: if_splits)
    qed
  qed
qed

definition target_live :: "('x, 'v, 'b) scene_instance \<Rightarrow> target_token \<Rightarrow> bool" where
  "target_live si t \<longleftrightarrow> unat (tt_index t) < length (si_targets si) \<and>
     ct_active (si_targets si ! unat (tt_index t)) \<and> ct_generation (si_targets si ! unat (tt_index t)) = tt_generation t"

definition released_record :: "('x, 'v) controller_target_record \<Rightarrow> ('x, 'v) controller_target_record" where
  "released_record r =
     r\<lparr>ct_active := False, ct_node := no_node, ct_runtime_node := None, ct_generation := next_generation (ct_generation r)\<rparr>"

text \<open>The node a live target writes is the one it owns, so releasing it frees exactly that node.\<close>

definition freed_owners :: "('x, 'v) controller_target_record \<Rightarrow> u32 list \<Rightarrow> u32 list" where
  "freed_owners r owners =
     (case ct_runtime_node r of
        None \<Rightarrow> owners
      | Some n \<Rightarrow> if ct_access r = ta_read_write then owners[n := 0] else owners)"

lemma release_target_eq:
  assumes ok: "targets_ok si" and own: "owners_ok si"
  shows "release_target t si =
    (if target_live si t
     then si\<lparr>si_write_owners := freed_owners (si_targets si ! unat (tt_index t)) (si_write_owners si),
             si_targets := (si_targets si)[unat (tt_index t) := released_record (si_targets si ! unat (tt_index t))],
             si_free_targets := si_free_targets si @ [tt_index t]\<rparr>
     else si)"
proof (cases "target_live si t")
  case True
  let ?i = "unat (tt_index t)"
  let ?r = "si_targets si ! ?i"
  have i: "?i < length (si_targets si)" "ct_active ?r" "ct_generation ?r = tt_generation t"
    using True by (simp_all add: target_live_def)
  have "ct_generation ?r \<noteq> 0" using ok nth_mem [OF i(1)] by (simp add: targets_ok_def)
  then have valid: "token_valid t" using i(3) by (simp add: token_valid_def)
  obtain n where n: "n < length (si_write_owners si)" "ct_runtime_node ?r = Some n"
    using target_node_bound [OF own i(1,2)] by blast
  have "ct_access ?r = ta_read_write \<longleftrightarrow> si_write_owners si ! n = word_of_nat (?i + 1)"
    using owner_entry [OF own i(1) n(1)] i(2) n(2) by (simp add: writes_node_def)
  then have "ct_access ?r = ta_read_write \<longleftrightarrow> si_write_owners si ! n = tt_index t + 1"
    by (simp add: add.commute)
  with True valid i n show ?thesis
    by (auto simp: release_target_def Let_def freed_owners_def released_record_def)
next
  case False
  then show ?thesis by (auto simp: release_target_def target_live_def Let_def)
qed

lemma released_record_fields [simp]:
  "\<not> ct_active (released_record r)" "ct_generation (released_record r) = next_generation (ct_generation r)"
  "\<not> writes_node (released_record r) n"
  by (simp_all add: released_record_def writes_node_def)

lemma length_freed_owners [simp]: "length (freed_owners r os) = length os"
  by (simp add: freed_owners_def split: option.split)

lemma release_targets_ok:
  assumes ok: "targets_ok si" and own: "owners_ok si"
  shows "targets_ok (release_target t si)"
proof (cases "target_live si t")
  case True
  let ?i = "unat (tt_index t)"
  let ?r = "si_targets si ! ?i"
  have i: "?i < length (si_targets si)" "ct_active ?r" using True by (simp_all add: target_live_def)
  then have fresh: "tt_index t \<notin> set (si_free_targets si)" using ok by (simp add: targets_ok_def)
  have "\<forall>r \<in> set ((si_targets si)[?i := released_record ?r]). ct_generation r \<noteq> 0"
    using ok set_update_subset_insert [of "si_targets si" ?i "released_record ?r"] by (auto simp: targets_ok_def)
  moreover have "j \<in> set (si_free_targets si @ [tt_index t]) \<longleftrightarrow>
      unat j < length (si_targets si) \<and> \<not> ct_active ((si_targets si)[?i := released_record ?r] ! unat j)" for j
    using ok i by (cases "j = tt_index t") (auto simp: targets_ok_def nth_list_update word_unat_eq_iff)
  ultimately show ?thesis
    using ok fresh True by (simp add: release_target_eq [OF ok own] targets_ok_def)
next
  case False
  with ok show ?thesis by (simp add: release_target_eq [OF ok own])
qed

lemma release_owners_ok:
  assumes ok: "targets_ok si" and own: "owners_ok si"
  shows "owners_ok (release_target t si)"
proof (cases "target_live si t")
  case True
  let ?i = "unat (tt_index t)" and ?ts = "si_targets si" and ?os = "si_write_owners si"
  let ?r = "?ts ! ?i"
  have i: "?i < length ?ts" "ct_active ?r" using True by (simp_all add: target_live_def)
  obtain n where n: "n < length ?os" "ct_runtime_node ?r = Some n" using target_node_bound [OF own i] by blast
  have freed: "freed_owners ?r ?os ! k = (if writes_node ?r k then 0 else ?os ! k)" if "k < length ?os" for k
    using n i that by (auto simp: freed_owners_def writes_node_def nth_list_update)
  have lt: "length ?ts < 2 ^ 32" using ok by (simp add: targets_ok_def)
  have nonzero: "(word_of_nat (j + 1) :: u32) \<noteq> 0" if "j + 1 < 2 ^ 32" for j
    using word_index [OF that] by auto
  have ts: "si_targets (release_target t si) = ?ts[?i := released_record ?r]"
    "si_write_owners (release_target t si) = freed_owners ?r ?os"
    using True by (simp_all add: release_target_eq [OF ok own])
  show ?thesis
    unfolding owners_ok_def ts
  proof (intro conjI allI impI ballI)
    fix j k assume j: "j < length (?ts[?i := released_record ?r])" and k: "k < length (freed_owners ?r ?os)"
    then have jk: "j < length ?ts" "k < length ?os" by simp_all
    note old = owner_entry [OF own jk] and own_i = owner_entry [OF own i(1) jk(2)]
    have ne: "(word_of_nat (j + 1) :: u32) \<noteq> word_of_nat (?i + 1)" if "j \<noteq> ?i"
      using that word_index_inj [of "j + 1" "?i + 1"] jk(1) i(1) lt by simp
    show "writes_node (?ts[?i := released_record ?r] ! j) k \<longleftrightarrow> freed_owners ?r ?os ! k = word_of_nat (j + 1)"
    proof (cases "j = ?i")
      case True
      have "freed_owners ?r ?os ! k \<noteq> word_of_nat (?i + 1)"
        using own_i freed [OF jk(2)] nonzero [of ?i] i(1) lt by auto
      with True jk show ?thesis by simp
    next
      case False
      with old own_i ne freed [OF jk(2)] nonzero [of j] jk lt show ?thesis by auto
    qed
  next
    fix k assume "k < length (freed_owners ?r ?os)"
    then have k: "k < length ?os" by simp
    with owner_bound [OF own k] freed [OF k] show "unat (freed_owners ?r ?os ! k) \<le> length (?ts[?i := released_record ?r])"
      by simp
  next
    fix x assume x: "x \<in> set (?ts[?i := released_record ?r])" and act: "ct_active x"
    then obtain j where j: "j < length ?ts" "x = ?ts[?i := released_record ?r] ! j" by (metis in_set_conv_nth length_list_update)
    with act i have "j \<noteq> ?i" by auto
    with j have "x = ?ts ! j" by simp
    with target_node_bound [OF own j(1)] act show "\<exists>k < length (freed_owners ?r ?os). ct_runtime_node x = Some k" by simp
  qed
next
  case False
  with own show ?thesis by (simp add: release_target_eq [OF ok own])
qed

subsection \<open>Targets are a generational pool\<close>

text \<open>Allocation as the callers guard it: the node is one of the instance, and a written one has no
  owner yet. The bound is the width of the index.\<close>

definition acquire_target ::
  "('x, 'v, 'q, 'f) az_math \<Rightarrow> scene_node_handle \<times> node_handle \<times> target_access \<Rightarrow> ('x, 'v, 'b) scene_instance \<Rightarrow>
   target_token option \<times> ('x, 'v, 'b) scene_instance" where
  "acquire_target m = (\<lambda>(node, n, access) si.
     if length (si_targets si) + 1 < 2 ^ 32 \<and> n < length (si_write_owners si) \<and>
        (access = ta_read_write \<longrightarrow> si_write_owners si ! n = 0)
     then (case allocate_target m node n access si of (t, si) \<Rightarrow> (Some t, si)) else (None, si))"

lemma allocate_live:
  assumes "targets_ok si" and "length (si_targets si) + 1 < 2 ^ 32" and "allocate_target m node n access si = (t, si')"
  shows "\<not> target_live si t" and "target_live si' t' \<longleftrightarrow> t' = t \<or> target_live si t'"
proof -
  note f = fresh_spec [where m = m, OF assms(1)]
  let ?i = "fresh_index si" and ?ts = "fresh_targets m si"
  let ?r = "allocated_record m node n access (?ts ! ?i)"
  have eq: "t = \<lparr>tt_index = word_of_nat ?i, tt_generation = ct_generation (?ts ! ?i)\<rparr>" "si_targets si' = ?ts[?i := ?r]"
    using assms(3) by (auto simp: allocate_target_eq [OF assms(1)] Let_def)
  have idx: "unat (word_of_nat ?i :: u32) = ?i" using f(1,6) assms(2) by (intro word_index) simp
  show "\<not> target_live si t"
    using f(2,4) by (auto simp: target_live_def eq idx)
  show "target_live si' t' \<longleftrightarrow> t' = t \<or> target_live si t'"
  proof (cases "unat (tt_index t') = ?i")
    case True
    then have "tt_index t' = tt_index t" using idx by (simp add: eq word_unat_eq_iff)
    moreover have "\<not> target_live si t'" using True f(2,4) by (auto simp: target_live_def)
    ultimately show ?thesis
      using True f(1) by (cases t') (auto simp: target_live_def eq(2) allocated_record_def eq(1))
  next
    case False
    then have "t' \<noteq> t" using idx by (auto simp: eq)
    moreover have "unat (tt_index t') < length ?ts \<longleftrightarrow> unat (tt_index t') < length (si_targets si)"
      using f(5) [OF _ False] f(7) by (meson less_le_trans)
    ultimately show ?thesis using False f(4) by (auto simp: target_live_def eq(2))
  qed
qed

lemma release_live:
  assumes "targets_ok si" and "owners_ok si"
  shows "target_live (release_target t si) t' \<longleftrightarrow> target_live si t' \<and> t' \<noteq> t"
proof (cases "target_live si t")
  case True
  let ?i = "unat (tt_index t)"
  have i: "?i < length (si_targets si)" "ct_generation (si_targets si ! ?i) = tt_generation t"
    using True by (simp_all add: target_live_def)
  show ?thesis
  proof (cases "unat (tt_index t') = ?i")
    case same: True
    then have "tt_index t' = tt_index t" by (simp add: word_unat_eq_iff)
    with i have "target_live si t' \<Longrightarrow> t' = t" by (cases t; cases t') (auto simp: target_live_def)
    moreover have "\<not> target_live (release_target t si) t'"
      using True same i by (simp add: release_target_eq [OF assms] target_live_def)
    ultimately show ?thesis by blast
  next
    case False
    then have "t' \<noteq> t" by auto
    with True False show ?thesis by (simp add: release_target_eq [OF assms] target_live_def)
  qed
next
  case False
  then show ?thesis by (auto simp: release_target_eq [OF assms])
qed

definition target_pool_ok :: "('x, 'v, 'b) scene_instance \<Rightarrow> bool" where
  "target_pool_ok si \<longleftrightarrow> targets_ok si \<and> owners_ok si"

interpretation target_pool: generational_pool "target_pool_ok :: ('x, 'v, 'b) scene_instance \<Rightarrow> bool" target_live
  "acquire_target m" release_target
  for m :: "('x, 'v, 'q, 'f) az_math"
proof unfold_locales
  fix p p' :: "('x, 'v, 'b) scene_instance" and h h' :: target_token and a :: "scene_node_handle \<times> node_handle \<times> target_access"
  obtain node n access where a: "a = (node, n, access)" by (cases a)
  assume "target_pool_ok p"
  then have ok: "targets_ok p" "owners_ok p" by (simp_all add: target_pool_ok_def)
  show "target_pool_ok (release_target h p)"
    using release_targets_ok [OF ok] release_owners_ok [OF ok] by (simp add: target_pool_ok_def)
  show "target_live (release_target h p) h' \<longleftrightarrow> target_live p h' \<and> h' \<noteq> h"
    by (rule release_live [OF ok])
  show "target_pool_ok (snd (acquire_target m a p))"
  proof (cases "fst (acquire_target m a p)")
    case None
    then have "acquire_target m a p = (None, p)" by (auto simp: a acquire_target_def split: if_splits prod.splits)
    then show ?thesis using \<open>target_pool_ok p\<close> by simp
  next
    case (Some t)
    then have "snd (acquire_target m a p) = snd (allocate_target m node n access p)"
      and "length (si_targets p) + 1 < 2 ^ 32" "n < length (si_write_owners p)"
      and "access = ta_read_write \<Longrightarrow> si_write_owners p ! n = 0"
      by (auto simp: a acquire_target_def split: if_splits prod.splits)
    then show ?thesis using ok allocate_targets_ok allocate_owners_ok by (metis target_pool_ok_def)
  qed
  show "\<not> target_live p h" if "acquire_target m a p = (Some h, p')"
    using ok that allocate_live(1) [of p m node n access h p'] by (auto simp: a acquire_target_def split: if_splits prod.splits)
  show "target_live p' h' \<longleftrightarrow> h' = h \<or> target_live p h'" if "acquire_target m a p = (Some h, p')"
    using ok that allocate_live(2) [of p m node n access h p' h'] by (auto simp: a acquire_target_def split: if_splits prod.splits)
  show "p' = p" if "acquire_target m a p = (None, p')"
    using that by (auto simp: a acquire_target_def split: if_splits prod.splits)
qed

lemma stale_target_not_found: "\<not> target_live si t \<Longrightarrow> find_target t epoch si = None"
  by (auto simp: find_target_def target_live_def Let_def)

lemma one_writer:
  assumes "target_pool_ok si" and "i < length (si_targets si)" "j < length (si_targets si)"
    and "writes_node (si_targets si ! i) n" "writes_node (si_targets si ! j) n"
  shows "i = j"
proof -
  have own: "owners_ok si" and len: "length (si_targets si) < 2 ^ 32"
    using assms(1) by (simp_all add: target_pool_ok_def targets_ok_def)
  have n: "n < length (si_write_owners si)"
    using target_node_bound [OF own assms(2)] assms(4) by (auto simp: writes_node_def)
  have "(word_of_nat (i + 1) :: u32) = word_of_nat (j + 1)"
    using owner_entry [OF own assms(2) n] owner_entry [OF own assms(3) n] assms(4,5) by simp
  with assms(2,3) len show ?thesis by (cases "i + 1 = 2 ^ 32"; cases "j + 1 = 2 ^ 32") (auto simp: word_index_inj)
qed

text \<open>C17. Whatever targets are allocated and released, a token that is not live stays refused by the sink
  until it is issued anew, a token that is not released stays live, and no node ever has two targets that may
  write it. A target is allocated as the attach code does: for a node of the scene that nobody owns yet if it is
  to be written.\<close>

theorem target_tokens_are_exclusive:
  assumes "target_pool_ok si" and "pool_run (acquire_target m) release_target ops si = (issued, si')"
  shows "(\<not> target_live si t \<and> t \<notin> set issued \<longrightarrow> find_target t epoch si' = None) \<and>
    (target_live si t \<and> Release t \<notin> set ops \<longrightarrow> target_live si' t) \<and>
    (\<forall>i < length (si_targets si'). \<forall>j < length (si_targets si'). \<forall>n.
       writes_node (si_targets si' ! i) n \<and> writes_node (si_targets si' ! j) n \<longrightarrow> i = j)"
proof -
  have "target_pool_ok si'" using target_pool.run_inv [OF assms(1), of m ops] assms(2) by simp
  then show ?thesis
    using target_pool.stale_until_issued [OF assms(1) _ assms(2)] target_pool.live_until_released [OF assms(1) _ assms(2)]
      stale_target_not_found one_writer by meson
qed

lemma new_instance_pool_ok: "target_pool_ok (new_instance m t st ps step catch_up)"
  by (simp add: target_pool_ok_def targets_ok_def owners_ok_def new_instance_def Let_def)

theorem target_tokens_are_exclusive_witness:
  "find_target \<lparr>tt_index = 0, tt_generation = 1\<rparr> 1
     (snd (pool_run (acquire_target int_math) release_target
       [Release \<lparr>tt_index = 0, tt_generation = 1\<rparr>, Acquire (no_node, 2, ta_read_write)]
       (snd (acquire_target int_math (no_node, 1, ta_read_write) demo_scene)))) = None"
proof -
  let ?ops = "[Release \<lparr>tt_index = 0, tt_generation = 1\<rparr>, Acquire (no_node, 2, ta_read_write)]"
  let ?t = "\<lparr>tt_index = 0, tt_generation = 1\<rparr> :: target_token"
  let ?s = "snd (acquire_target int_math (no_node, 1, ta_read_write) demo_scene)"
  have "target_pool_ok demo_scene" unfolding demo_scene_def by (rule new_instance_pool_ok)
  then have s: "target_pool_ok (release_target ?t ?s)"
    by (intro target_pool.release_inv target_pool.acquire_inv)
  have run: "pool_run (acquire_target int_math) release_target [Acquire (no_node, 2, ta_read_write)] (release_target ?t ?s) =
      ([\<lparr>tt_index = 0, tt_generation = 2\<rparr>], snd (pool_run (acquire_target int_math) release_target ?ops ?s))"
  proof -
    have "fst (pool_run (acquire_target int_math) release_target ?ops ?s) = [\<lparr>tt_index = 0, tt_generation = 2\<rparr>]"
      by (simp add: acquire_target_def allocate_target_def release_target_def demo_scene_def new_instance_def state_size_def
          small_state_def make_state_def new_target_record_def token_valid_def next_generation_def Let_def)
    then show ?thesis by (simp add: prod_eq_iff)
  qed
  have "target_pool_ok ?s" using \<open>target_pool_ok demo_scene\<close> by (rule target_pool.acquire_inv)
  then have "\<not> target_live (release_target ?t ?s) ?t" by (simp add: target_pool.release_live)
  with target_tokens_are_exclusive [OF s run, of ?t 1] show ?thesis by simp
qed

end
