(* ===== verification/Scene_Buffers.thy ===== *)
theory Scene_Buffers
  imports Scene_Commands
begin

section \<open>What a command sink does\<close>

text \<open>
  The refinement of the command sink. A sink is specified as a write buffer over the targets of
  the scene: a write goes to the buffer, a read sees the buffer first and the scene otherwise,
  and nothing reaches the scene until the sink is closed. The epochs, touched lists and pending
  fields of \<open>SceneInstance\<close> implement it: every method called with a sink gets the answers of the
  buffer, and closing the sink writes exactly the buffered values or drops all of them.
\<close>

subsection \<open>The specification\<close>

record ('x, 'v) write_buffer =
  wb_local :: "nat \<Rightarrow> 'x option"
  wb_motion :: "nat \<Rightarrow> ('v, 'v) motion_state option"

definition empty_buffer :: "('x, 'v) write_buffer" where
  "empty_buffer = \<lparr>wb_local = Map.empty, wb_motion = Map.empty\<rparr>"

text \<open>The target a token grants, and whether it may be written.\<close>

definition grant_of :: "('x, 'v, 'b) scene_instance \<Rightarrow> target_token \<Rightarrow> (nat \<times> bool) option" where
  "grant_of si t =
     (if target_live si t
      then Some (unat (tt_index t), ct_access (si_targets si ! unat (tt_index t)) = ta_read_write) else None)"

definition scene_local :: "('x, 'v, 'b) scene_instance \<Rightarrow> nat \<Rightarrow> 'x option" where
  "scene_local si i = map_option (local_of (si_state si)) (ct_runtime_node (si_targets si ! i))"

definition put :: "(target_token \<Rightarrow> (nat \<times> bool) option) \<Rightarrow> target_token \<Rightarrow> bool \<Rightarrow> controller_result" where
  "put grant t fin =
     (case grant t of
        None \<Rightarrow> cr_invalid_target
      | Some (i, writable) \<Rightarrow>
          if \<not> writable then cr_read_only_target else if \<not> fin then cr_invalid_input else cr_success)"

definition put_local ::
  "('x, 'v, 'q, 'f) az_math \<Rightarrow> (target_token \<Rightarrow> (nat \<times> bool) option) \<Rightarrow> target_token \<Rightarrow> 'x \<Rightarrow>
   ('x, 'v) write_buffer \<Rightarrow> controller_result \<times> ('x, 'v) write_buffer" where
  "put_local m grant t loc buf =
     (put grant t (az_is_finite m loc),
      if put grant t (az_is_finite m loc) = cr_success
      then buf\<lparr>wb_local := (wb_local buf)(fst (the (grant t)) \<mapsto> loc)\<rparr> else buf)"

definition put_motion ::
  "('x, 'v, 'q, 'f) az_math \<Rightarrow> (target_token \<Rightarrow> (nat \<times> bool) option) \<Rightarrow> target_token \<Rightarrow> 'v \<Rightarrow> 'v \<Rightarrow>
   ('x, 'v) write_buffer \<Rightarrow> controller_result \<times> ('x, 'v) write_buffer" where
  "put_motion m grant t lin ang buf =
     (put grant t (az_vector_is_finite m lin \<and> az_vector_is_finite m ang),
      if put grant t (az_vector_is_finite m lin \<and> az_vector_is_finite m ang) = cr_success
      then buf\<lparr>wb_motion := (wb_motion buf)(fst (the (grant t)) \<mapsto> \<lparr>linear_velocity = lin, angular_velocity = ang\<rparr>)\<rparr>
      else buf)"

definition read_local ::
  "(target_token \<Rightarrow> (nat \<times> bool) option) \<Rightarrow> (nat \<Rightarrow> 'x option) \<Rightarrow> target_token \<Rightarrow> ('x, 'v) write_buffer \<Rightarrow>
   controller_result \<times> 'x option" where
  "read_local grant scene t buf =
     (case grant t of
        None \<Rightarrow> (cr_invalid_target, None)
      | Some (i, _) \<Rightarrow> (cr_success, case wb_local buf i of Some x \<Rightarrow> Some x | None \<Rightarrow> scene i))"

primrec run_buffer ::
  "('x, 'v, 'q, 'f) az_math \<Rightarrow> (target_token \<Rightarrow> (nat \<times> bool) option) \<Rightarrow> (nat \<Rightarrow> 'x option) \<Rightarrow>
   ('x, 'v, 'r) sink_program \<Rightarrow> ('x, 'v) write_buffer \<Rightarrow> 'r \<times> ('x, 'v) write_buffer" where
  "run_buffer m grant scene (Finish r) = (\<lambda>buf. (r, buf))"
| "run_buffer m grant scene (Set_local_transform t loc k) =
     (\<lambda>buf. case put_local m grant t loc buf of (code, buf) \<Rightarrow> run_buffer m grant scene (k code) buf)"
| "run_buffer m grant scene (Set_velocity t lin ang k) =
     (\<lambda>buf. case put_motion m grant t lin ang buf of (code, buf) \<Rightarrow> run_buffer m grant scene (k code) buf)"
| "run_buffer m grant scene (Stop_motion t k) =
     (\<lambda>buf. case put_motion m grant t (az_zero m) (az_zero m) buf of (code, buf) \<Rightarrow> run_buffer m grant scene (k code) buf)"
| "run_buffer m grant scene (Get_local_transform t k) =
     (\<lambda>buf. run_buffer m grant scene (k (read_local grant scene t buf)) buf)"

subsection \<open>The simulation\<close>

text \<open>What a write leaves alone in a target record.\<close>

definition quiet :: "('x, 'v) controller_target_record \<Rightarrow>
    scene_node_handle \<times> node_handle option \<times> target_access \<times> u32 \<times> bool" where
  "quiet r = (ct_node r, ct_runtime_node r, ct_access r, ct_generation r, ct_active r)"

lemma quiet_fields:
  assumes "quiet r = quiet r'"
  shows "ct_runtime_node r = ct_runtime_node r'" "ct_access r = ct_access r'" "ct_generation r = ct_generation r'"
    "ct_active r = ct_active r'"
  using assms by (simp_all add: quiet_def)

text \<open>One half of a buffer against its epochs, pending values and touched list.\<close>

definition half_sim ::
  "u64 \<Rightarrow> ('x, 'v) controller_target_record list \<Rightarrow> (('x, 'v) controller_target_record \<Rightarrow> u64) \<Rightarrow>
   (('x, 'v) controller_target_record \<Rightarrow> 'w) \<Rightarrow> u32 list \<Rightarrow> (nat \<Rightarrow> 'w option) \<Rightarrow> bool" where
  "half_sim e targets epoch_of pending touched buf \<longleftrightarrow>
     (\<forall>i < length targets. buf i = (if epoch_of (targets ! i) = e then Some (pending (targets ! i)) else None)) \<and>
     (\<forall>i. buf i \<noteq> None \<longrightarrow>
        i < length targets \<and> ct_access (targets ! i) = ta_read_write \<and> ct_active (targets ! i)) \<and>
     distinct touched \<and> (\<forall>i. i \<in> set touched \<longleftrightarrow> buf (unat i) \<noteq> None) \<and>
     (\<forall>r \<in> set targets. epoch_of r \<le> e)"

definition sink_sim ::
  "('x, 'v, 'b) scene_instance \<Rightarrow> ('x, 'v, 'b) scene_instance \<Rightarrow> ('x, 'v) write_buffer \<Rightarrow> bool" where
  "sink_sim si0 si buf \<longleftrightarrow>
     si = si0\<lparr>si_targets := si_targets si, si_local_touched := si_local_touched si, si_motion_touched := si_motion_touched si\<rparr> \<and>
     map quiet (si_targets si) = map quiet (si_targets si0) \<and>
     half_sim (si_command_epoch si0) (si_targets si) ct_local_epoch ct_pending_local (si_local_touched si) (wb_local buf) \<and>
     half_sim (si_command_epoch si0) (si_targets si) ct_motion_epoch ct_pending_motion (si_motion_touched si) (wb_motion buf)"

text \<open>The open sink of a scene: what it holds, and a scene that simulates itself.\<close>

definition pending_ok :: "('x, 'v, 'b) scene_instance \<Rightarrow> ('x, 'v) write_buffer \<Rightarrow> bool" where
  "pending_ok si buf \<longleftrightarrow>
     half_sim (si_command_epoch si) (si_targets si) ct_local_epoch ct_pending_local (si_local_touched si) (wb_local buf) \<and>
     half_sim (si_command_epoch si) (si_targets si) ct_motion_epoch ct_pending_motion (si_motion_touched si) (wb_motion buf)"

lemma sink_sim_refl: "sink_sim si si buf \<longleftrightarrow> pending_ok si buf"
  by (simp add: sink_sim_def pending_ok_def)

lemma half_sim_write:
  assumes sim: "half_sim e ts epoch_of pending touched buf" and i: "unat t < length ts"
    and rw: "ct_access r = ta_read_write" "ct_active r" and r: "epoch_of r = e" "pending r = x"
  shows "half_sim e (ts[unat t := r]) epoch_of pending
    (if epoch_of (ts ! unat t) \<noteq> e then touched @ [t] else touched) (buf(unat t \<mapsto> x))"
proof -
  have touched: "t \<in> set touched \<longleftrightarrow> epoch_of (ts ! unat t) = e" using sim i by (auto simp: half_sim_def)
  show ?thesis
    unfolding half_sim_def
  proof (intro conjI)
    show "\<forall>j < length (ts[unat t := r]). (buf(unat t \<mapsto> x)) j =
        (if epoch_of (ts[unat t := r] ! j) = e then Some (pending (ts[unat t := r] ! j)) else None)"
      using sim r by (auto simp: half_sim_def nth_list_update)
    show "\<forall>j. (buf(unat t \<mapsto> x)) j \<noteq> None \<longrightarrow> j < length (ts[unat t := r]) \<and>
        ct_access (ts[unat t := r] ! j) = ta_read_write \<and> ct_active (ts[unat t := r] ! j)"
      using sim rw i by (auto simp: half_sim_def nth_list_update)
    show "distinct (if epoch_of (ts ! unat t) \<noteq> e then touched @ [t] else touched)"
      using sim touched by (auto simp: half_sim_def)
    show "\<forall>j. j \<in> set (if epoch_of (ts ! unat t) \<noteq> e then touched @ [t] else touched) \<longleftrightarrow> (buf(unat t \<mapsto> x)) (unat j) \<noteq> None"
      using sim touched by (auto simp: half_sim_def word_unat_eq_iff)
    show "\<forall>r' \<in> set (ts[unat t := r]). epoch_of r' \<le> e"
      using sim r set_update_subset_insert [of ts "unat t" r] by (auto simp: half_sim_def)
  qed
qed

lemma half_sim_keep:
  assumes sim: "half_sim e ts epoch_of pending touched buf" and i: "i < length ts"
    and r: "quiet r = quiet (ts ! i)" "epoch_of r = epoch_of (ts ! i)" "pending r = pending (ts ! i)"
  shows "half_sim e (ts[i := r]) epoch_of pending touched buf"
proof -
  have "epoch_of r \<le> e" using sim i r(2) nth_mem by (auto simp: half_sim_def)
  then show ?thesis
    using sim r quiet_fields [OF r(1)] i set_update_subset_insert [of ts i r]
    unfolding half_sim_def by (auto simp: nth_list_update)
qed

definition sink_ready :: "('x, 'v, 'b) scene_instance \<Rightarrow> bool" where
  "sink_ready si \<longleftrightarrow> target_pool_ok si \<and> si_command_epoch si \<noteq> 0"

lemma sink_quiet:
  assumes "sink_sim si0 si buf"
  shows "length (si_targets si) = length (si_targets si0)"
    and "i < length (si_targets si0) \<Longrightarrow> quiet (si_targets si ! i) = quiet (si_targets si0 ! i)"
proof -
  have q: "map quiet (si_targets si) = map quiet (si_targets si0)" using assms by (simp add: sink_sim_def)
  then show len: "length (si_targets si) = length (si_targets si0)" using map_eq_imp_length_eq by blast
  assume "i < length (si_targets si0)"
  with q len show "quiet (si_targets si ! i) = quiet (si_targets si0 ! i)" by (metis nth_map)
qed

lemma sink_same:
  assumes "sink_sim si0 si buf"
  shows "si_command_epoch si = si_command_epoch si0" "si_state si = si_state si0"
    "si = si0\<lparr>si_targets := si_targets si, si_local_touched := si_local_touched si, si_motion_touched := si_motion_touched si\<rparr>"
proof -
  show eq: "si = si0\<lparr>si_targets := si_targets si, si_local_touched := si_local_touched si, si_motion_touched := si_motion_touched si\<rparr>"
    using assms by (simp add: sink_sim_def)
  show "si_command_epoch si = si_command_epoch si0" "si_state si = si_state si0"
    by (subst eq, simp)+
qed

lemma sink_sim_pending: "sink_sim si0 si buf \<Longrightarrow> pending_ok si buf"
  using sink_same(1) [of si0 si buf] by (simp add: sink_sim_def pending_ok_def)

lemma grant_cases:
  assumes "sink_ready si0" and "sink_sim si0 si buf"
  obtains (refused) "grant_of si0 t = None" "find_target t (si_command_epoch si0) si = None"
  | (granted) i where "i = unat (tt_index t)" "i < length (si_targets si)"
      "grant_of si0 t = Some (i, ct_access (si_targets si ! i) = ta_read_write)"
      "find_target t (si_command_epoch si0) si = Some i" "ct_active (si_targets si ! i)"
proof (cases "target_live si0 t")
  case True
  let ?i = "unat (tt_index t)"
  have i: "?i < length (si_targets si0)" "ct_active (si_targets si0 ! ?i)" "ct_generation (si_targets si0 ! ?i) = tt_generation t"
    using True by (simp_all add: target_live_def)
  note q = quiet_fields [OF sink_quiet(2) [OF assms(2) i(1)]]
  have "tt_generation t \<noteq> 0" using assms(1) i nth_mem [OF i(1)] by (auto simp: sink_ready_def target_pool_ok_def targets_ok_def)
  with i q assms(1) sink_quiet(1) [OF assms(2)] sink_same(1) [OF assms(2)]
  have "find_target t (si_command_epoch si0) si = Some ?i"
    by (simp add: find_target_def token_valid_def Let_def sink_ready_def)
  with i q sink_quiet(1) [OF assms(2)] True show thesis by (intro granted [of ?i]) (simp_all add: grant_of_def)
next
  case False
  have "find_target t (si_command_epoch si0) si = None"
  proof (cases "unat (tt_index t) < length (si_targets si0)")
    case True
    with False quiet_fields [OF sink_quiet(2) [OF assms(2) True]] show ?thesis
      by (simp add: find_target_def target_live_def Let_def)
  next
    case False
    with sink_quiet(1) [OF assms(2)] show ?thesis by (simp add: find_target_def)
  qed
  with False show thesis by (intro refused) (simp_all add: grant_of_def)
qed

lemma sink_simI:
  assumes "sink_sim si0 si buf" and "map quiet ts = map quiet (si_targets si)"
    and "half_sim (si_command_epoch si0) ts ct_local_epoch ct_pending_local lt (wb_local buf')"
    and "half_sim (si_command_epoch si0) ts ct_motion_epoch ct_pending_motion mt (wb_motion buf')"
  shows "sink_sim si0 (si\<lparr>si_targets := ts, si_local_touched := lt, si_motion_touched := mt\<rparr>) buf'"
proof -
  have "si\<lparr>si_targets := ts, si_local_touched := lt, si_motion_touched := mt\<rparr> =
      si0\<lparr>si_targets := ts, si_local_touched := lt, si_motion_touched := mt\<rparr>"
    by (subst sink_same(3) [OF assms(1)], simp)
  moreover have "map quiet (si_targets si) = map quiet (si_targets si0)" using assms(1) by (simp add: sink_sim_def)
  ultimately show ?thesis using assms(2-4) by (simp add: sink_sim_def)
qed

lemma map_quiet_update: "i < length ts \<Longrightarrow> quiet r = quiet (ts ! i) \<Longrightarrow> map quiet (ts[i := r]) = map quiet ts"
  by (simp add: map_update list_update_same_conv)

lemma set_controller_local_sim:
  assumes "sink_ready si0" and sim: "sink_sim si0 si buf"
    and "set_controller_local m t (si_command_epoch si0) loc si = (code, si')"
  shows "\<exists>buf'. put_local m (grant_of si0) t loc buf = (code, buf') \<and> sink_sim si0 si' buf'"
  using assms(1,2)
proof (cases rule: grant_cases [where t = t])
  case refused
  with assms(3) sim show ?thesis by (auto simp: set_controller_local_def put_local_def put_def)
next
  case (granted i)
  let ?r = "si_targets si ! i" and ?e = "si_command_epoch si0"
  show ?thesis
  proof (cases "ct_access ?r = ta_read_write \<and> az_is_finite m loc")
    case False
    with granted assms(3) sim show ?thesis
      by (auto simp: set_controller_local_def put_local_def put_def Let_def split: if_splits)
  next
    case True
    let ?n = "?r\<lparr>ct_pending_local := loc, ct_local_epoch := ?e\<rparr>"
    let ?lt = "if ct_local_epoch ?r \<noteq> ?e then si_local_touched si @ [tt_index t] else si_local_touched si"
    have si': "code = cr_success" "si' = si\<lparr>si_targets := (si_targets si)[i := ?n], si_local_touched := ?lt,
        si_motion_touched := si_motion_touched si\<rparr>"
      using granted assms(3) True by (auto simp: set_controller_local_def Let_def)
    have q: "quiet ?n = quiet ?r" by (simp add: quiet_def)
    have "sink_sim si0 si' (buf\<lparr>wb_local := (wb_local buf)(i \<mapsto> loc)\<rparr>)"
      unfolding si'(2)
    proof (rule sink_simI [OF sim map_quiet_update [OF granted(2) q]])
      show "half_sim ?e ((si_targets si)[i := ?n]) ct_local_epoch ct_pending_local ?lt
          (wb_local (buf\<lparr>wb_local := (wb_local buf)(i \<mapsto> loc)\<rparr>))"
        using half_sim_write [of ?e "si_targets si" ct_local_epoch ct_pending_local "si_local_touched si" "wb_local buf"
            "tt_index t" ?n loc] sim granted True by (simp add: sink_sim_def)
      show "half_sim ?e ((si_targets si)[i := ?n]) ct_motion_epoch ct_pending_motion (si_motion_touched si)
          (wb_motion (buf\<lparr>wb_local := (wb_local buf)(i \<mapsto> loc)\<rparr>))"
        using sim granted q by (auto simp: sink_sim_def intro!: half_sim_keep)
    qed
    with si' granted True show ?thesis by (simp add: put_local_def put_def)
  qed
qed

lemma set_controller_velocity_sim:
  assumes "sink_ready si0" and sim: "sink_sim si0 si buf"
    and "set_controller_velocity m t (si_command_epoch si0) lin ang si = (code, si')"
  shows "\<exists>buf'. put_motion m (grant_of si0) t lin ang buf = (code, buf') \<and> sink_sim si0 si' buf'"
  using assms(1,2)
proof (cases rule: grant_cases [where t = t])
  case refused
  with assms(3) sim show ?thesis by (auto simp: set_controller_velocity_def put_motion_def put_def)
next
  case (granted i)
  let ?r = "si_targets si ! i" and ?e = "si_command_epoch si0"
  show ?thesis
  proof (cases "ct_access ?r = ta_read_write \<and> az_vector_is_finite m lin \<and> az_vector_is_finite m ang")
    case False
    with granted assms(3) sim show ?thesis
      by (auto simp: set_controller_velocity_def put_motion_def put_def Let_def split: if_splits)
  next
    case True
    let ?v = "\<lparr>linear_velocity = lin, angular_velocity = ang\<rparr>"
    let ?n = "?r\<lparr>ct_pending_motion := ?v, ct_motion_epoch := ?e\<rparr>"
    let ?mt = "if ct_motion_epoch ?r \<noteq> ?e then si_motion_touched si @ [tt_index t] else si_motion_touched si"
    have si': "code = cr_success" "si' = si\<lparr>si_targets := (si_targets si)[i := ?n], si_local_touched := si_local_touched si,
        si_motion_touched := ?mt\<rparr>"
      using granted assms(3) True by (auto simp: set_controller_velocity_def Let_def)
    have q: "quiet ?n = quiet ?r" by (simp add: quiet_def)
    have "sink_sim si0 si' (buf\<lparr>wb_motion := (wb_motion buf)(i \<mapsto> ?v)\<rparr>)"
      unfolding si'(2)
    proof (rule sink_simI [OF sim map_quiet_update [OF granted(2) q]])
      show "half_sim ?e ((si_targets si)[i := ?n]) ct_motion_epoch ct_pending_motion ?mt
          (wb_motion (buf\<lparr>wb_motion := (wb_motion buf)(i \<mapsto> ?v)\<rparr>))"
        using half_sim_write [of ?e "si_targets si" ct_motion_epoch ct_pending_motion "si_motion_touched si" "wb_motion buf"
            "tt_index t" ?n ?v] sim granted True by (simp add: sink_sim_def)
      show "half_sim ?e ((si_targets si)[i := ?n]) ct_local_epoch ct_pending_local (si_local_touched si)
          (wb_local (buf\<lparr>wb_motion := (wb_motion buf)(i \<mapsto> ?v)\<rparr>))"
        using sim granted q by (auto simp: sink_sim_def intro!: half_sim_keep)
    qed
    with si' granted True show ?thesis by (simp add: put_motion_def put_def)
  qed
qed

lemma get_controller_local_sim:
  assumes "sink_ready si0" and sim: "sink_sim si0 si buf"
  shows "get_controller_local t (si_command_epoch si0) si = read_local (grant_of si0) (scene_local si0) t buf"
  using assms
proof (cases rule: grant_cases [where t = t])
  case (granted i)
  have i: "i < length (si_targets si0)" using granted(2) sink_quiet(1) [OF sim] by simp
  have "half_sim (si_command_epoch si0) (si_targets si) ct_local_epoch ct_pending_local (si_local_touched si) (wb_local buf)"
    using sim by (simp add: sink_sim_def)
  with granted quiet_fields(1) [OF sink_quiet(2) [OF sim i]] show ?thesis
    unfolding half_sim_def by (auto simp: get_controller_local_def read_local_def scene_local_def sink_same(2) [OF sim] split: option.split)
qed (simp add: get_controller_local_def read_local_def)

lemma run_sink_sim:
  assumes "sink_ready si0"
  shows "sink_sim si0 si buf \<Longrightarrow> run_sink m (si_command_epoch si0) p si = (r, si') \<Longrightarrow>
    \<exists>buf'. run_buffer m (grant_of si0) (scene_local si0) p buf = (r, buf') \<and> sink_sim si0 si' buf'"
proof (induction p arbitrary: si buf)
  case (Set_local_transform t loc k)
  obtain code s where w: "set_controller_local m t (si_command_epoch si0) loc si = (code, s)" by fastforce
  with set_controller_local_sim [OF assms Set_local_transform.prems(1) w] Set_local_transform show ?case by fastforce
next
  case (Set_velocity t lin ang k)
  obtain code s where w: "set_controller_velocity m t (si_command_epoch si0) lin ang si = (code, s)" by fastforce
  with set_controller_velocity_sim [OF assms Set_velocity.prems(1) w] Set_velocity show ?case by fastforce
next
  case (Stop_motion t k)
  obtain code s where w: "set_controller_velocity m t (si_command_epoch si0) (az_zero m) (az_zero m) si = (code, s)" by fastforce
  with set_controller_velocity_sim [OF assms Stop_motion.prems(1) w] Stop_motion show ?case by fastforce
next
  case (Get_local_transform t k)
  with get_controller_local_sim [OF assms Get_local_transform.prems(1), of t] show ?case by simp
qed simp

subsection \<open>Opening and closing a sink\<close>

text \<open>
  No record carries an epoch from the future, so a new epoch marks no record. The epoch is a
  64-bit counter; the statements below stop before it wraps.
\<close>

definition epochs_ok :: "('x, 'v, 'b) scene_instance \<Rightarrow> bool" where
  "epochs_ok si \<longleftrightarrow> si_command_epoch si \<noteq> 0 \<and>
     (\<forall>r \<in> set (si_targets si). ct_local_epoch r \<le> si_command_epoch si \<and> ct_motion_epoch r \<le> si_command_epoch si)"

lemma begin_commands_fields [simp]:
  "si_targets (begin_commands si) = si_targets si" "si_state (begin_commands si) = si_state si"
  "si_motion (begin_commands si) = si_motion si" "si_write_owners (begin_commands si) = si_write_owners si"
  "si_free_targets (begin_commands si) = si_free_targets si" "si_topology (begin_commands si) = si_topology si"
  "si_local_touched (begin_commands si) = []" "si_motion_touched (begin_commands si) = []"
  "si_command_epoch (begin_commands si) = next_generation (si_command_epoch si)"
  by (simp_all add: begin_commands_def)

lemma begin_commands_grant [simp]:
  "grant_of (begin_commands si) = grant_of si" "scene_local (begin_commands si) = scene_local si"
  by (auto simp: fun_eq_iff grant_of_def scene_local_def target_live_def)

lemma next_epoch: "si_command_epoch si \<noteq> - 1 \<Longrightarrow> next_generation (si_command_epoch si) = si_command_epoch si + 1"
  by (metis next_generation_def add_eq_0_iff2)

lemma begin_commands_sim:
  assumes "target_pool_ok si" and "epochs_ok si" and "si_command_epoch si \<noteq> - 1"
  shows "sink_ready (begin_commands si)" and "sink_sim (begin_commands si) (begin_commands si) empty_buffer"
proof -
  show "sink_ready (begin_commands si)"
    using assms(1) by (simp add: sink_ready_def target_pool_ok_def targets_ok_def owners_ok_def)
  let ?e = "next_generation (si_command_epoch si)"
  have lt: "si_command_epoch si < ?e" using less_next [OF assms(3)] next_epoch [OF assms(3)] by simp
  have "ct_local_epoch r < ?e \<and> ct_motion_epoch r < ?e" if "r \<in> set (si_targets si)" for r
    using assms(2) that lt by (meson epochs_ok_def le_less_trans)
  then show "sink_sim (begin_commands si) (begin_commands si) empty_buffer"
    unfolding sink_sim_def half_sim_def empty_buffer_def by (fastforce dest: nth_mem)
qed

text \<open>Applying the local writes: distinct nodes, so each one gets its own value.\<close>

lemma fold_set_local:
  fixes f :: "'i \<Rightarrow> node_handle" and g :: "'i \<Rightarrow> 'a"
  assumes "distinct (map f is)" and "\<forall>i \<in> set is. f i < length (m_records st)"
    and "unat (m_revision st) + length is < 2 ^ 64"
  defines "s \<equiv> fold (\<lambda>i st. snd (set_local (f i) (g i) st)) is st"
  shows "local_of s n = (case find (\<lambda>i. f i = n) is of None \<Rightarrow> local_of st n | Some i \<Rightarrow> g i) \<and>
    length (m_records s) = length (m_records st) \<and>
    unat (m_revision s) = unat (m_revision st) + length is \<and>
    (wf_polytree t \<longrightarrow> state_ok t compose st \<longrightarrow> state_ok t compose s)"
  using assms(1-3) unfolding s_def
proof (induction "is" arbitrary: st)
  case (Cons i "is")
  let ?st = "snd (set_local (f i) (g i) st)" and ?s = "fold (\<lambda>i st. snd (set_local (f i) (g i) st)) is"
  have room: "m_revision st \<noteq> - 1" using Cons.prems(3) max_u64_unat by auto
  have ok: "fst (set_local (f i) (g i) st) = te_none" using Cons.prems(2) room by (simp add: set_local_ok)
  have loc: "local_of ?st k = (if k = f i then g i else local_of st k)" for k
    by (simp add: local_of_def record_at_def set_local_other set_local_ok_record [OF ok])
  have rev: "unat (m_revision ?st) = unat (m_revision st) + 1"
    using set_local_ok_revision [OF ok] unat_next [OF room] by simp
  have "local_of (?s ?st) n = (case find (\<lambda>i. f i = n) is of None \<Rightarrow> local_of ?st n | Some i \<Rightarrow> g i) \<and>
    length (m_records (?s ?st)) = length (m_records ?st) \<and>
    unat (m_revision (?s ?st)) = unat (m_revision ?st) + length is \<and>
    (wf_polytree t \<longrightarrow> state_ok t compose ?st \<longrightarrow> state_ok t compose (?s ?st))"
    using Cons.prems rev by (intro Cons.IH) (auto simp: length_set_local)
  moreover have "f i = n \<Longrightarrow> find (\<lambda>i. f i = n) is = None" by (rule find_key_None [OF Cons.prems(1)])
  ultimately show ?case
    using loc rev by (auto simp: length_set_local intro: state_ok_set_local split: option.split)
qed simp

text \<open>The buffered value for a node is the one of the target that owns it.\<close>

definition written :: "('x, 'v, 'b) scene_instance \<Rightarrow> (nat \<Rightarrow> 'w option) \<Rightarrow> node_handle \<Rightarrow> 'w option" where
  "written si buf n = (if si_write_owners si ! n = 0 then None else buf (unat (si_write_owners si ! n - 1)))"

lemma owners_ok_cong:
  fixes si si' :: "('a, 'b, 'c) scene_instance"
  assumes "map quiet (si_targets si') = map quiet (si_targets si)" and "si_write_owners si' = si_write_owners si"
  shows "owners_ok si' = owners_ok si"
proof -
  have len: "length (si_targets si') = length (si_targets si)" using assms(1) map_eq_imp_length_eq by blast
  then have q: "quiet (si_targets si' ! i) = quiet (si_targets si ! i)" if "i < length (si_targets si)" for i
    using assms(1) that by (metis nth_map)
  note f = quiet_fields [OF q]
  have "(\<forall>r \<in> set (si_targets s). ct_active r \<longrightarrow> (\<exists>n < k. ct_runtime_node r = Some n)) \<longleftrightarrow>
      (\<forall>i < length (si_targets s). ct_active (si_targets s ! i) \<longrightarrow> (\<exists>n < k. ct_runtime_node (si_targets s ! i) = Some n))"
    for s :: "('a, 'b, 'c) scene_instance" and k
    by (metis in_set_conv_nth)
  then show ?thesis using len f assms(2) by (simp add: owners_ok_def writes_node_def)
qed

lemma targets_ok_cong:
  fixes si si' :: "('a, 'b, 'c) scene_instance"
  assumes "map quiet (si_targets si') = map quiet (si_targets si)" and "si_free_targets si' = si_free_targets si"
  shows "targets_ok si' = targets_ok si"
proof -
  have len: "length (si_targets si') = length (si_targets si)" using assms(1) map_eq_imp_length_eq by blast
  then have q: "quiet (si_targets si' ! i) = quiet (si_targets si ! i)" if "i < length (si_targets si)" for i
    using assms(1) that by (metis nth_map)
  note f = quiet_fields [OF q]
  have gen: "(\<forall>r \<in> set (si_targets s). ct_generation r \<noteq> 0) \<longleftrightarrow> (\<forall>i < length (si_targets s). ct_generation (si_targets s ! i) \<noteq> 0)"
    for s :: "('a, 'b, 'c) scene_instance"
    by (metis in_set_conv_nth)
  have g: "(\<forall>i < length (si_targets si). ct_generation (si_targets si' ! i) \<noteq> 0) =
      (\<forall>i < length (si_targets si). ct_generation (si_targets si ! i) \<noteq> 0)"
    using f(3) by metis
  have a: "(unat i < length (si_targets si) \<and> \<not> ct_active (si_targets si' ! unat i)) =
      (unat i < length (si_targets si) \<and> \<not> ct_active (si_targets si ! unat i))" for i :: u32
    using f(4) [of "unat i"] by blast
  show ?thesis unfolding targets_ok_def gen [of si] gen [of si'] len assms(2) g a by (rule refl)
qed

lemma sink_sim_pool_ok:
  assumes "sink_sim si0 si buf" and "target_pool_ok si0"
  shows "target_pool_ok si"
proof -
  have q: "map quiet (si_targets si) = map quiet (si_targets si0)" using assms(1) by (simp add: sink_sim_def)
  have w: "si_write_owners si = si_write_owners si0" "si_free_targets si = si_free_targets si0"
    by (subst sink_same(3) [OF assms(1)], simp)+
  have "owners_ok si = owners_ok si0" "targets_ok si = targets_ok si0"
    by (fact owners_ok_cong [OF q w(1)] targets_ok_cong [OF q w(2)])+
  with assms(2) show ?thesis by (simp only: target_pool_ok_def)
qed

lemma touched_node:
  assumes ok: "target_pool_ok si" and sim: "half_sim e (si_targets si) ep pend touched buf" and i: "i \<in> set touched"
  shows "\<exists>n < length (si_write_owners si). ct_runtime_node (si_targets si ! unat i) = Some n \<and> si_write_owners si ! n = i + 1"
proof -
  let ?r = "si_targets si ! unat i"
  have r: "unat i < length (si_targets si)" "ct_access ?r = ta_read_write" "ct_active ?r" using sim i by (auto simp: half_sim_def)
  have own: "owners_ok si" using ok by (simp add: target_pool_ok_def)
  obtain n where n: "n < length (si_write_owners si)" "ct_runtime_node ?r = Some n"
    using target_node_bound [OF own r(1,3)] by blast
  then have "si_write_owners si ! n = word_of_nat (unat i + 1)"
    using owner_entry [OF own r(1) n(1)] r by (simp add: writes_node_def)
  then show ?thesis using n by (auto simp: add.commute)
qed

lemma touched_distinct:
  assumes ok: "target_pool_ok si" and sim: "half_sim e (si_targets si) ep pend touched buf"
  shows "distinct (map (\<lambda>i. the (ct_runtime_node (si_targets si ! unat i))) touched)"
proof -
  have "i = j" if "i \<in> set touched" "j \<in> set touched"
    "the (ct_runtime_node (si_targets si ! unat i)) = the (ct_runtime_node (si_targets si ! unat j))" for i j
    using touched_node [OF ok sim that(1)] touched_node [OF ok sim that(2)] that(3) by auto
  then show ?thesis using sim by (auto simp: half_sim_def distinct_map inj_on_def)
qed

lemma find_unique: "distinct xs \<Longrightarrow> find (\<lambda>x. x = a) xs = (if a \<in> set xs then Some a else None)"
  by (induction xs) auto

lemma touched_lookup:
  assumes ok: "target_pool_ok si" and sim: "half_sim e (si_targets si) ep pend touched buf"
    and n: "n < length (si_write_owners si)"
  shows "map_option (\<lambda>i. pend (si_targets si ! unat i))
    (find (\<lambda>i. the (ct_runtime_node (si_targets si ! unat i)) = n) touched) = written si buf n"
proof -
  let ?w = "si_write_owners si ! n"
  have same: "the (ct_runtime_node (si_targets si ! unat i)) = n \<longleftrightarrow> i = ?w - 1 \<and> ?w \<noteq> 0" if i: "i \<in> set touched" for i
  proof -
    obtain k where k: "k < length (si_write_owners si)" "ct_runtime_node (si_targets si ! unat i) = Some k"
      "si_write_owners si ! k = i + 1" using touched_node [OF ok sim i] by blast
    have r: "unat i < length (si_targets si)" "ct_access (si_targets si ! unat i) = ta_read_write" "ct_active (si_targets si ! unat i)"
      using sim i by (auto simp: half_sim_def)
    have own: "owners_ok si" and len: "length (si_targets si) < 2 ^ 32" using ok by (simp_all add: target_pool_ok_def targets_ok_def)
    have "k = n \<longleftrightarrow> ?w = word_of_nat (unat i + 1)"
      using owner_entry [OF own r(1) n] r k(2) by (simp add: writes_node_def)
    moreover have "i + 1 \<noteq> 0"
    proof
      assume "i + 1 = 0"
      then have "i = - 1" by (simp add: add_eq_0_iff2)
      with r(1) len show False by (simp add: unsigned_minus_1_eq_mask mask_eq_exp_minus_1)
    qed
    ultimately show ?thesis using k(2) by (auto simp: add.commute)
  qed
  have "find (\<lambda>i. the (ct_runtime_node (si_targets si ! unat i)) = n) touched = find (\<lambda>i. i = ?w - 1 \<and> ?w \<noteq> 0) touched"
    using same by (intro find_cong) auto
  also have "\<dots> = (if ?w \<noteq> 0 \<and> ?w - 1 \<in> set touched then Some (?w - 1) else None)"
  proof (cases "?w = 0")
    case False
    then have "find (\<lambda>i. i = ?w - 1 \<and> ?w \<noteq> 0) touched = find (\<lambda>i. i = ?w - 1) touched" by simp
    with False find_unique [of touched "?w - 1"] sim show ?thesis by (simp add: half_sim_def)
  qed (simp add: find_None_iff)
  finally show ?thesis using sim by (auto simp: written_def half_sim_def)
qed

text \<open>Closing a sink.\<close>

lemma map_of_find: "map_of (map (\<lambda>i. (f i, g i)) xs) n = map_option g (find (\<lambda>i. f i = n) xs)"
  by (induction xs) auto

lemma last_update_distinct:
  assumes "distinct (map upd_node us)"
  shows "last_update us n = map_option upd_state (find (\<lambda>u. upd_node u = n) us)"
proof -
  let ?ps = "map (\<lambda>u. (upd_node u, upd_state u)) us"
  have d: "distinct (map fst ?ps)" using assms by (simp add: comp_def)
  have "map_of (rev ?ps) = map_of ?ps"
    by (rule map_of_inject_set [THEN iffD2]) (use d in \<open>simp_all only: rev_map [symmetric] distinct_rev set_rev\<close>)
  then show ?thesis by (simp add: last_update_def map_of_find)
qed

lemma find_map: "find P (map f xs) = map_option f (find (\<lambda>x. P (f x)) xs)"
  by (induction xs) auto

definition closable :: "('x, 'v, 'b) scene_instance \<Rightarrow> bool" where
  "closable si \<longleftrightarrow> length (si_write_owners si) = length (m_records (si_state si)) \<and>
     motion_set_ok (si_motion si) \<and> am_node_count (si_motion si) = length (m_records (si_state si))"

lemma end_commands_drop:
  "si_state (end_commands m False si) = si_state si" "si_motion (end_commands m False si) = si_motion si"
  by (simp_all add: end_commands_def)

lemma end_commands_same:
  "end_commands m ok si = si\<lparr>si_state := si_state (end_commands m ok si), si_motion := si_motion (end_commands m ok si),
     si_update_workspace := si_update_workspace (end_commands m ok si), si_local_touched := [], si_motion_touched := []\<rparr>"
  by (simp add: end_commands_def Let_def split: prod.split)

lemma end_commands_apply:
  assumes ok: "target_pool_ok si" and cl: "closable si" and sim: "pending_ok si buf"
    and room: "unat (m_revision (si_state si)) + length (si_targets si) < 2 ^ 64"
    and s_def: "s = end_commands m True si"
  shows "n < length (m_records (si_state si)) \<Longrightarrow> local_of (si_state s) n = (case written si (wb_local buf) n of None \<Rightarrow> local_of (si_state si) n | Some x \<Rightarrow> x)"
    and "n < length (m_records (si_state si)) \<Longrightarrow> motion_of (si_motion s) n = (case written si (wb_motion buf) n of
      None \<Rightarrow> motion_of (si_motion si) n | Some v \<Rightarrow> wanted (policy_is_stationary m) v)"
    and "closable s"
    and "unat (m_revision (si_state s)) \<le> unat (m_revision (si_state si)) + length (si_targets si)"
    and "wf_polytree t \<Longrightarrow> state_ok t compose (si_state si) \<Longrightarrow> state_ok t compose (si_state s)"
proof -
  let ?f = "\<lambda>i. the (ct_runtime_node (si_targets si ! unat i))"
  let ?ts = "si_targets si" and ?lt = "si_local_touched si" and ?mt = "si_motion_touched si"
  have len: "length (si_write_owners si) = length (m_records (si_state si))" and mo: "motion_set_ok (si_motion si)"
    and cnt: "am_node_count (si_motion si) = length (m_records (si_state si))" using cl by (simp_all add: closable_def)
  have lsim: "half_sim (si_command_epoch si) ?ts ct_local_epoch ct_pending_local ?lt (wb_local buf)"
    and msim: "half_sim (si_command_epoch si) ?ts ct_motion_epoch ct_pending_motion ?mt (wb_motion buf)"
    using sim by (simp_all add: pending_ok_def)
  note ln = touched_node [OF ok lsim] and mn = touched_node [OF ok msim]
  have "fold (apply_local ?ts) ?lt st = fold (\<lambda>i st. snd (set_local (?f i) (ct_pending_local (?ts ! unat i)) st)) ?lt st" for st
    using ln by (intro fold_cong refl) (fastforce simp: apply_local_def)
  moreover have bound: "\<forall>i \<in> set ?lt. ?f i < length (m_records (si_state si))" using ln len by fastforce
  moreover have "length ?lt \<le> length ?ts"
  proof -
    have "distinct (map unat ?lt)" using lsim by (simp add: half_sim_def distinct_map inj_on_def word_unat_eq_iff)
    moreover have "set (map unat ?lt) \<subseteq> {..< length ?ts}" using lsim by (auto simp: half_sim_def)
    ultimately show ?thesis by (metis card_lessThan card_mono distinct_card finite_lessThan length_map)
  qed
  moreover note fold_set_local [OF touched_distinct [OF ok lsim] bound, of "\<lambda>i. ct_pending_local (?ts ! unat i)" n t compose]
  ultimately have st: "local_of (fold (apply_local ?ts) ?lt (si_state si)) n =
      (case find (\<lambda>i. ?f i = n) ?lt of None \<Rightarrow> local_of (si_state si) n | Some i \<Rightarrow> ct_pending_local (?ts ! unat i))"
    "length (m_records (fold (apply_local ?ts) ?lt (si_state si))) = length (m_records (si_state si))"
    "unat (m_revision (fold (apply_local ?ts) ?lt (si_state si))) \<le> unat (m_revision (si_state si)) + length ?ts"
    "wf_polytree t \<Longrightarrow> state_ok t compose (si_state si) \<Longrightarrow> state_ok t compose (fold (apply_local ?ts) ?lt (si_state si))"
    using room by simp_all
  let ?us = "motion_updates ?ts ?mt"
  have some: "\<not> (\<exists>i \<in> set ?mt. ct_runtime_node (?ts ! unat i) = None)" using mn by fastforce
  have s: "si_state s = fold (apply_local ?ts) ?lt (si_state si)"
    "si_motion s = fst (snd (apply_updates_bulk (policy_is_stationary m) ?us (si_update_workspace si) (si_motion si)))"
    "si_write_owners s = si_write_owners si"
    using some by (auto simp: s_def end_commands_def Let_def split: prod.split)
  have valid: "valid_updates ?us (si_motion si)"
    using mn cnt len by (fastforce simp: valid_updates_def motion_updates_def list_all_iff)
  note b = apply_updates_bulk_spec [OF mo valid, of "policy_is_stationary m" "si_update_workspace si"]
  show "local_of (si_state s) n = (case written si (wb_local buf) n of None \<Rightarrow> local_of (si_state si) n | Some x \<Rightarrow> x)"
    if "n < length (m_records (si_state si))"
    unfolding s st(1) touched_lookup [OF ok lsim that [folded len], symmetric] by (simp split: option.split)
  have "map upd_node ?us = map ?f ?mt" by (simp add: motion_updates_def)
  then have "distinct (map upd_node ?us)" using touched_distinct [OF ok msim] by simp
  then have lu: "last_update ?us n = map_option (\<lambda>i. ct_pending_motion (?ts ! unat i)) (find (\<lambda>i. ?f i = n) ?mt)"
    by (simp add: last_update_distinct motion_updates_def find_map option.map_comp comp_def)
  show "motion_of (si_motion s) n = (case written si (wb_motion buf) n of
      None \<Rightarrow> motion_of (si_motion si) n | Some v \<Rightarrow> wanted (policy_is_stationary m) v)"
    if "n < length (m_records (si_state si))"
    unfolding s b(3) lu touched_lookup [OF ok msim that [folded len]] ..
  show "closable s" using b(2,4) st(2) len cnt by (simp add: closable_def s)
  show "unat (m_revision (si_state s)) \<le> unat (m_revision (si_state si)) + length (si_targets si)" using st(3) by (simp add: s)
  show "wf_polytree t \<Longrightarrow> state_ok t compose (si_state si) \<Longrightarrow> state_ok t compose (si_state s)" using st(4) by (simp add: s)
qed

lemma end_commands_targets [simp]:
  "si_targets (end_commands m ok si) = si_targets si" "si_write_owners (end_commands m ok si) = si_write_owners si"
  "si_free_targets (end_commands m ok si) = si_free_targets si" "si_command_epoch (end_commands m ok si) = si_command_epoch si"
  by (subst end_commands_same, simp)+

lemma end_commands_pool_ok [simp]: "target_pool_ok (end_commands m ok si) = target_pool_ok si"
  by (simp add: target_pool_ok_def targets_ok_def owners_ok_def)

lemma sink_sim_epochs_ok:
  assumes "sink_sim si0 si buf" and "si_command_epoch si0 \<noteq> 0"
  shows "epochs_ok si"
  using assms sink_same(1) [OF assms(1)] by (simp add: epochs_ok_def sink_sim_def half_sim_def)

text \<open>C18. A command sink is a buffered transaction. A method that is called with a sink gets exactly the
  answers of a write buffer: writes to stale or read-only targets and non-finite values are refused,
  reads see the writes of the same sink and otherwise the scene. Closing the sink with success gives
  every node the last value written by the target that owns it, a stationary motion ending its motion,
  and leaves the other nodes alone; closing it with failure changes no transform and no motion.\<close>

theorem sinks_are_buffered_transactions:
  assumes "target_pool_ok si" and "epochs_ok si" and "si_command_epoch si \<noteq> - 1" and "closable si"
    and "unat (m_revision (si_state si)) + length (si_targets si) < 2 ^ 64"
    and "run_sink m (next_generation (si_command_epoch si)) p (begin_commands si) = (r, si1)"
    and "run_buffer m (grant_of si) (scene_local si) p empty_buffer = (r', buf)"
  shows "r = r' \<and>
    (\<forall>n < length (m_records (si_state si)).
       local_of (si_state (end_commands m True si1)) n =
         (case written si (wb_local buf) n of None \<Rightarrow> local_of (si_state si) n | Some x \<Rightarrow> x) \<and>
       motion_of (si_motion (end_commands m True si1)) n =
         (case written si (wb_motion buf) n of
            None \<Rightarrow> motion_of (si_motion si) n | Some v \<Rightarrow> wanted (policy_is_stationary m) v)) \<and>
    si_state (end_commands m False si1) = si_state si \<and> si_motion (end_commands m False si1) = si_motion si \<and>
    (\<forall>ok. target_pool_ok (end_commands m ok si1) \<and> epochs_ok (end_commands m ok si1) \<and> closable (end_commands m ok si1))"
proof -
  let ?b = "begin_commands si"
  note b = begin_commands_sim [OF assms(1-3)]
  have "run_sink m (si_command_epoch ?b) p ?b = (r, si1)" using assms(6) by simp
  from run_sink_sim [OF b(1,2) this] assms(7)
  have r: "r = r'" and sim: "sink_sim ?b si1 buf" by simp_all
  have pool: "target_pool_ok si1" using b(1) by (intro sink_sim_pool_ok [OF sim]) (simp add: sink_ready_def)
  have same: "si_state si1 = si_state si" "si_motion si1 = si_motion si" "si_write_owners si1 = si_write_owners si"
    by (subst sink_same(3) [OF sim], simp)+
  have len: "length (si_targets si1) = length (si_targets si)" using sink_quiet(1) [OF sim] by simp
  have cl: "closable si1" using assms(4) by (simp add: closable_def same)
  have wr: "written si1 f n = written si f n" for f :: "nat \<Rightarrow> 'w option" and n by (simp add: written_def same)
  have room: "unat (m_revision (si_state si1)) + length (si_targets si1) < 2 ^ 64" using assms(5) same len by simp
  note e = end_commands_apply [OF pool cl sink_sim_pending [OF sim] room refl, where m = m]
  have "epochs_ok si1" using b(1) by (intro sink_sim_epochs_ok [OF sim]) (simp add: sink_ready_def)
  then have "epochs_ok (end_commands m ok si1)" for ok by (simp add: epochs_ok_def)
  moreover have "closable (end_commands m ok si1)" for ok
  proof (cases ok)
    case False
    with cl show ?thesis by (simp add: closable_def end_commands_drop)
  next
    case True
    with e(3) show ?thesis by simp
  qed
  ultimately show ?thesis
    using r pool e(1,2) [unfolded wr same] end_commands_drop [of m si1, unfolded same] by simp
qed

text \<open>A scene with one writable target.\<close>

definition demo_target_scene :: "(int, int, unit) scene_instance" where
  "demo_target_scene = snd (allocate_target int_math no_node 1 ta_read_write demo_scene)"

definition demo_token :: target_token where
  "demo_token = \<lparr>tt_index = 0, tt_generation = 1\<rparr>"

lemma new_instance_closable: "length (m_records st) = node_count t \<Longrightarrow> closable (new_instance m t st ps step catch_up)"
  by (simp add: closable_def new_instance_def Let_def state_size_def new_motion_set_ok) (simp add: new_motion_set_def)

lemma demo_target_ready:
  "target_pool_ok demo_target_scene" "epochs_ok demo_target_scene" "closable demo_target_scene"
proof -
  have pool: "target_pool_ok demo_scene" unfolding demo_scene_def by (rule new_instance_pool_ok)
  have f: "length (si_targets demo_scene) + 1 < 2 ^ 32" "1 < length (si_write_owners demo_scene)"
    "si_write_owners demo_scene ! 1 = 0" by (simp_all add: demo_scene_def new_instance_def Let_def state_size_def small_state_def make_state_def)
  with pool show "target_pool_ok demo_target_scene"
    unfolding demo_target_scene_def target_pool_ok_def
    by (intro conjI allocate_targets_ok allocate_owners_ok) (simp_all add: target_pool_ok_def)
  show "epochs_ok demo_target_scene" unfolding epochs_ok_def by code_simp
  have "closable demo_scene" unfolding demo_scene_def by (rule new_instance_closable) code_simp
  then show "closable demo_target_scene"
    unfolding demo_target_scene_def by (simp add: closable_def allocate_target_def Let_def split: prod.split)
qed

definition demo_writes :: "(int, int, int option) sink_program" where
  "demo_writes =
     Set_local_transform demo_token 42 (\<lambda>_. Set_velocity demo_token 3 0 (\<lambda>_.
     Set_local_transform demo_token 43 (\<lambda>_. Get_local_transform demo_token (\<lambda>r. Finish (snd r)))))"

theorem sinks_are_buffered_transactions_witness:
  "case run_sink int_math 2 demo_writes (begin_commands demo_target_scene) of
     (r, si1) \<Rightarrow> r = Some 43 \<and> local_of (si_state (end_commands int_math True si1)) 1 = 43 \<and>
       si_state (end_commands int_math False si1) = si_state demo_target_scene"
proof -
  obtain r si1 where run: "run_sink int_math 2 demo_writes (begin_commands demo_target_scene) = (r, si1)" by fastforce
  obtain r' buf where spec: "run_buffer int_math (grant_of demo_target_scene) (scene_local demo_target_scene) demo_writes empty_buffer = (r', buf)"
    by fastforce
  have fields: "si_command_epoch demo_target_scene = 1" "next_generation (1 :: u64) = 2"
    "m_revision (si_state demo_target_scene) = 0" "length (si_targets demo_target_scene) = 1"
    "length (m_records (si_state demo_target_scene)) = 4" by code_simp+
  have result: "r' = Some 43" "written demo_target_scene (wb_local buf) 1 = Some 43"
  proof -
    have "fst (run_buffer int_math (grant_of demo_target_scene) (scene_local demo_target_scene) demo_writes empty_buffer) = Some 43"
      by code_simp
    then show "r' = Some 43" using spec by simp
    have "written demo_target_scene (wb_local (snd (run_buffer int_math (grant_of demo_target_scene)
        (scene_local demo_target_scene) demo_writes empty_buffer))) 1 = Some 43" by code_simp
    then show "written demo_target_scene (wb_local buf) 1 = Some 43" using spec by simp
  qed
  have run': "run_sink int_math (next_generation (si_command_epoch demo_target_scene)) demo_writes
      (begin_commands demo_target_scene) = (r, si1)" using run by (simp add: fields)
  have hyps: "si_command_epoch demo_target_scene \<noteq> - 1"
    "unat (m_revision (si_state demo_target_scene)) + length (si_targets demo_target_scene) < 2 ^ 64"
    by (simp_all add: fields)
  have "(1 :: nat) < length (m_records (si_state demo_target_scene))" by (simp add: fields)
  with sinks_are_buffered_transactions [OF demo_target_ready(1,2) hyps(1) demo_target_ready(3) hyps(2) run' spec] result
  show ?thesis unfolding run prod.case by (metis option.simps(5))
qed

end
