(* ===== verification/Scene_Controllers.thy ===== *)
theory Scene_Controllers
  imports Scene_Buffers
begin

section \<open>Attaching, running and detaching controllers\<close>

text \<open>
  The controller operations of \<open>SceneInstance.cpp\<close>. The controllers of an instance are attached
  as a group: every declaration is checked before a target is allocated or a batch is called, and a
  failure while creating them takes back what was created. Batches are objects of the host: \<open>bm\<close>
  dispatches their virtual methods on the batch state \<open>'b\<close>. A factory resolver that is not set is
  \<open>None\<close>.
\<close>

subsection \<open>Preparing declarations\<close>

record prepared_target =
  pt_reference :: target_reference
  pt_node :: scene_node_handle
  pt_runtime_node :: node_handle

record 'b prepared_controller =
  pc_declaration :: nat
  pc_factory :: "'b controller_factory"
  pc_targets :: "prepared_target list"

text \<open>The order of declarations; \<open>TypeIdLess\<close> compares the text of fixed width, as the value orders.\<close>

definition declaration_key :: "'cfg controller_declaration \<Rightarrow> int \<times> name \<times> name \<times> type_id" where
  "declaration_key d = (cd_execution_order d, cd_provider_binding_id d, cd_declaration_id d, cd_type_id d)"

definition sort_declarations :: "'cfg controller_declaration list \<Rightarrow> 'cfg controller_declaration list" where
  "sort_declarations ds = sort_key declaration_key ds"

definition invalid_reference :: "target_reference list \<Rightarrow> target_reference \<Rightarrow> bool" where
  "invalid_reference targets target \<longleftrightarrow>
     tr_slot target = [] \<or> ((tr_prefab_entity target \<noteq> None) = (tr_binding_id target \<noteq> [])) \<or>
     count_list (map tr_slot targets) (tr_slot target) \<noteq> 1"

definition resolve_reference ::
  "instance_handle \<Rightarrow> target_reference \<Rightarrow> ('x, 'v, 'b) scene_instance \<Rightarrow> node_result" where
  "resolve_reference inst target si =
     (if tr_prefab_entity target \<noteq> None
      then resolve_entity_node (ih_slot inst) (tr_prefab_entity target) si
      else resolve_node (ih_slot inst) (tr_binding_id target) si)"

definition prepare_target ::
  "('x, 'v, 'b) scene_instance \<Rightarrow> instance_handle \<Rightarrow> nat \<Rightarrow> target_reference list \<Rightarrow> target_reference \<Rightarrow>
   u32 list \<times> prepared_target list \<Rightarrow> result_code + u32 list \<times> prepared_target list" where
  "prepare_target si inst index targets target = (\<lambda>(pending, prep).
     if invalid_reference targets target then Inl rc_controller_invalid_configuration
     else let resolved = resolve_reference inst target si in
       if \<not> node_succeeds resolved
       then Inl (if nr_code resolved = rc_partition_mismatch then rc_controller_target_outside_instance
                 else rc_controller_target_not_found)
       else (case find_node_binding (si_partitions si) (nr_handle resolved) of
               None \<Rightarrow> Inl rc_controller_invalid_configuration
             | Some node \<Rightarrow>
                 if \<exists>e \<in> set prep. pt_runtime_node e = rb_node node then Inl rc_controller_invalid_configuration
                 else if tr_access target = ta_read_write \<and>
                         (si_write_owners si ! rb_node node \<noteq> 0 \<or> pending ! rb_node node \<noteq> 0)
                 then Inl rc_controller_write_conflict
                 else Inr
                   (if tr_access target = ta_read_write then pending[rb_node node := word_of_nat (index + 1)] else pending,
                    prep @ [\<lparr>pt_reference = target, pt_node = nr_handle resolved, pt_runtime_node = rb_node node\<rparr>])))"

fun prepare_targets ::
  "('x, 'v, 'b) scene_instance \<Rightarrow> instance_handle \<Rightarrow> nat \<Rightarrow> target_reference list \<Rightarrow> target_reference list \<Rightarrow>
   u32 list \<times> prepared_target list \<Rightarrow> result_code + u32 list \<times> prepared_target list" where
  "prepare_targets si inst index targets [] acc = Inr acc"
| "prepare_targets si inst index targets (target # rest) acc =
     (case prepare_target si inst index targets target acc of
        Inl code \<Rightarrow> Inl code
      | Inr acc \<Rightarrow> prepare_targets si inst index targets rest acc)"

definition invalid_declaration :: "'cfg controller_declaration list \<Rightarrow> 'cfg controller_declaration \<Rightarrow> bool" where
  "invalid_declaration ds d \<longleftrightarrow>
     cd_declaration_id d = [] \<or> cd_type_id d = 0 \<or> cd_configuration d = None \<or> cd_targets d = [] \<or>
     count_list (map cd_declaration_id ds) (cd_declaration_id d) \<noteq> 1"

definition prepare_controller ::
  "('x, 'v, 'b) scene_instance \<Rightarrow> instance_handle \<Rightarrow> (type_id \<Rightarrow> 'b controller_factory option) \<Rightarrow>
   'cfg controller_declaration list \<Rightarrow> nat \<Rightarrow> u32 list \<times> 'b prepared_controller list \<Rightarrow>
   result_code + u32 list \<times> 'b prepared_controller list" where
  "prepare_controller si inst resolve_factory ds index = (\<lambda>(pending, prep).
     let d = ds ! index in
     if invalid_declaration ds d then Inl rc_controller_invalid_configuration
     else (case resolve_factory (cd_type_id d) of
             None \<Rightarrow> Inl rc_controller_factory_not_found
           | Some factory \<Rightarrow>
               if cf_type_id factory \<noteq> cd_type_id d then Inl rc_controller_factory_not_found
               else (case prepare_targets si inst index (cd_targets d) (cd_targets d) (pending, []) of
                       Inl code \<Rightarrow> Inl code
                     | Inr (pending, targets) \<Rightarrow>
                         Inr (pending, prep @
                           [\<lparr>pc_declaration = index, pc_factory = factory, pc_targets = targets\<rparr>]))))"

fun prepare_controllers ::
  "('x, 'v, 'b) scene_instance \<Rightarrow> instance_handle \<Rightarrow> (type_id \<Rightarrow> 'b controller_factory option) \<Rightarrow>
   'cfg controller_declaration list \<Rightarrow> nat list \<Rightarrow> u32 list \<times> 'b prepared_controller list \<Rightarrow>
   result_code + u32 list \<times> 'b prepared_controller list" where
  "prepare_controllers si inst resolve_factory ds [] acc = Inr acc"
| "prepare_controllers si inst resolve_factory ds (index # rest) acc =
     (case prepare_controller si inst resolve_factory ds index acc of
        Inl code \<Rightarrow> Inl code
      | Inr acc \<Rightarrow> prepare_controllers si inst resolve_factory ds rest acc)"

subsection \<open>Creating controllers\<close>

definition set_batch :: "nat \<Rightarrow> 'b \<Rightarrow> ('x, 'v, 'b) scene_instance \<Rightarrow> ('x, 'v, 'b) scene_instance" where
  "set_batch index batch si =
     si\<lparr>si_batches := (si_batches si)[index := (si_batches si ! index)\<lparr>be_batch := batch\<rparr>]\<rparr>"

text \<open>The batch of a type, made on first use.\<close>

definition ensure_batch ::
  "type_id \<Rightarrow> 'b controller_factory \<Rightarrow> ('x, 'v, 'b) scene_instance \<Rightarrow> (nat \<times> ('x, 'v, 'b) scene_instance) option" where
  "ensure_batch type_id factory si =
     (case find_batch type_id (si_batches si) of
        Some index \<Rightarrow> Some (index, si)
      | None \<Rightarrow>
          (case cf_create_batch factory of
             None \<Rightarrow> None
           | Some batch \<Rightarrow>
               Some (length (si_batches si),
                     si\<lparr>si_batches := si_batches si @ [\<lparr>be_type_id = type_id, be_batch = batch\<rparr>]\<rparr>)))"

definition allocate_prepared ::
  "('x, 'v, 'q, 'f) az_math \<Rightarrow> prepared_target \<Rightarrow> resolved_target list \<times> ('x, 'v, 'b) scene_instance \<Rightarrow>
   resolved_target list \<times> ('x, 'v, 'b) scene_instance" where
  "allocate_prepared m target = (\<lambda>(resolved, si).
     (case allocate_target m (pt_node target) (pt_runtime_node target) (tr_access (pt_reference target)) si of
        (token, si) \<Rightarrow>
          (resolved @ [\<lparr>rt_slot = tr_slot (pt_reference target), rt_node = pt_node target, rt_token = token,
                        rt_access = tr_access (pt_reference target)\<rparr>], si)))"

definition issue_handle :: "('x, 'v, 'b) scene_instance \<Rightarrow> state_handle \<times> ('x, 'v, 'b) scene_instance" where
  "issue_handle si =
     (\<lparr>st_index = si_next_controller si, st_generation = si_controller_generation si\<rparr>,
      if si_next_controller si + 1 = 0
      then si\<lparr>si_next_controller := 1, si_controller_generation := next_generation (si_controller_generation si)\<rparr>
      else si\<lparr>si_next_controller := si_next_controller si + 1\<rparr>)"

definition create_controller ::
  "('x, 'v, 'q, 'f) az_math \<Rightarrow> ('x, 'v, 'cfg, 'inp, 'b) batch_methods \<Rightarrow> instance_handle \<Rightarrow>
   'cfg controller_declaration list \<Rightarrow> 'b prepared_controller \<Rightarrow> ('x, 'v, 'b) scene_instance \<Rightarrow>
   result_code \<times> ('x, 'v, 'b) scene_instance" where
  "create_controller m bm inst ds prep si =
     (let d = ds ! pc_declaration prep in
      case ensure_batch (cd_type_id d) (pc_factory prep) si of
        None \<Rightarrow> (rc_controller_construction_failed, si)
      | Some (index, si) \<Rightarrow>
          (case fold (allocate_prepared m) (pc_targets prep) ([], si) of
             (resolved, si) \<Rightarrow>
               (let tokens = map rt_token resolved in
                case run_sink m (si_command_epoch si)
                       (bm_create_controller bm (be_batch (si_batches si ! index)) inst (cd_declaration_id d)
                         (the (cd_configuration d)) resolved) si of
                  ((created, batch), si) \<Rightarrow>
                    (let si = set_batch index batch si in
                     if \<not> create_succeeds created
                     then (if cc_code created = cr_success then rc_controller_construction_failed
                           else map_controller_result (cc_code created),
                           fold release_target tokens si)
                     else (case issue_handle si of
                             (handle, si) \<Rightarrow>
                               (rc_success,
                                si\<lparr>si_controllers := si_controllers si @
                                    [\<lparr>cn_handle = \<lparr>ch_instance = inst, ch_type_id = cd_type_id d, ch_state = handle\<rparr>,
                                      cn_batch_state = cc_state created, cn_declaration_id = cd_declaration_id d,
                                      cn_targets = tokens, cn_input_closed = False\<rparr>]\<rparr>))))))"

fun create_controllers ::
  "('x, 'v, 'q, 'f) az_math \<Rightarrow> ('x, 'v, 'cfg, 'inp, 'b) batch_methods \<Rightarrow> instance_handle \<Rightarrow>
   'cfg controller_declaration list \<Rightarrow> 'b prepared_controller list \<Rightarrow> ('x, 'v, 'b) scene_instance \<Rightarrow>
   result_code \<times> ('x, 'v, 'b) scene_instance" where
  "create_controllers m bm inst ds [] si = (rc_success, si)"
| "create_controllers m bm inst ds (prep # rest) si =
     (case create_controller m bm inst ds prep si of
        (code, si) \<Rightarrow> if code = rc_success then create_controllers m bm inst ds rest si else (code, si))"

subsection \<open>Closing and detaching\<close>

definition first_failure :: "controller_result \<Rightarrow> controller_result \<Rightarrow> controller_result" where
  "first_failure result code = (if result = cr_success then code else result)"

definition close_step ::
  "('x, 'v, 'cfg, 'inp, 'b) batch_methods \<Rightarrow> instance_handle \<Rightarrow> nat \<Rightarrow>
   controller_result \<times> ('x, 'v, 'b) scene_instance \<Rightarrow> controller_result \<times> ('x, 'v, 'b) scene_instance" where
  "close_step bm inst index = (\<lambda>(result, si).
     let record = si_controllers si ! index in
     if ch_instance (cn_handle record) \<noteq> inst \<or> cn_input_closed record then (result, si)
     else (case find_batch (ch_type_id (cn_handle record)) (si_batches si) of
             None \<Rightarrow> (first_failure result cr_stale_handle, si)
           | Some b \<Rightarrow>
               (case bm_close_input bm (be_batch (si_batches si ! b)) (cn_batch_state record) of
                  (closed, batch) \<Rightarrow>
                    (first_failure result closed,
                     (let si = set_batch b batch si in
                      if closed = cr_success
                      then si\<lparr>si_controllers := (si_controllers si)[index := record\<lparr>cn_input_closed := True\<rparr>]\<rparr>
                      else si)))))"

definition owns_controllers :: "instance_handle \<Rightarrow> controller_record list \<Rightarrow> bool" where
  "owns_controllers inst controllers \<longleftrightarrow> (\<exists>r \<in> set controllers. ch_instance (cn_handle r) = inst)"

definition close_controller_input ::
  "('x, 'v, 'cfg, 'inp, 'b) batch_methods \<Rightarrow> instance_handle \<Rightarrow> ('x, 'v, 'b) scene_instance \<Rightarrow>
   controller_result \<times> ('x, 'v, 'b) scene_instance" where
  "close_controller_input bm inst si =
     (if \<not> instance_valid inst then (cr_invalid_handle, si)
      else if find_slot (si_partitions si) (ih_slot inst) = None then (cr_stale_handle, si)
      else (case fold (close_step bm inst) [0..<length (si_controllers si)] (cr_success, si) of
              (result, si') \<Rightarrow> (if owns_controllers inst (si_controllers si) then result else cr_stale_handle, si')))"

definition destroy_step ::
  "('x, 'v, 'cfg, 'inp, 'b) batch_methods \<Rightarrow> instance_handle \<Rightarrow> controller_record \<Rightarrow>
   controller_result \<times> ('x, 'v, 'b) scene_instance \<Rightarrow> controller_result \<times> ('x, 'v, 'b) scene_instance" where
  "destroy_step bm inst record = (\<lambda>(result, si).
     if ch_instance (cn_handle record) \<noteq> inst then (result, si)
     else (case (case find_batch (ch_type_id (cn_handle record)) (si_batches si) of
                   None \<Rightarrow> (cr_stale_handle, si)
                 | Some b \<Rightarrow>
                     (case bm_destroy_controller bm (be_batch (si_batches si ! b)) (cn_batch_state record) of
                        (destroyed, batch) \<Rightarrow> (destroyed, set_batch b batch si))) of
             (destroyed, si) \<Rightarrow> (first_failure result destroyed, fold release_target (cn_targets record) si)))"

definition detach_controllers ::
  "('x, 'v, 'cfg, 'inp, 'b) batch_methods \<Rightarrow> instance_handle \<Rightarrow> ('x, 'v, 'b) scene_instance \<Rightarrow>
   controller_result \<times> ('x, 'v, 'b) scene_instance" where
  "detach_controllers bm inst si =
     (if \<not> instance_valid inst then (cr_invalid_handle, si)
      else (case close_controller_input bm inst si of
              (result, si) \<Rightarrow>
                (case fold (destroy_step bm inst) (si_controllers si) (result, si) of
                   (result, si) \<Rightarrow>
                     (let controllers = filter (\<lambda>r. ch_instance (cn_handle r) \<noteq> inst) (si_controllers si)
                      in (result,
                          si\<lparr>si_controllers := controllers,
                             si_batches := filter (\<lambda>b. has_controller_type (be_type_id b) controllers) (si_batches si)\<rparr>)))))"

definition attach_controllers ::
  "('x, 'v, 'q, 'f) az_math \<Rightarrow> ('x, 'v, 'cfg, 'inp, 'b) batch_methods \<Rightarrow> instance_handle \<Rightarrow>
   'cfg controller_declaration list \<Rightarrow> (type_id \<Rightarrow> 'b controller_factory option) option \<Rightarrow>
   ('x, 'v, 'b) scene_instance \<Rightarrow> result_code \<times> ('x, 'v, 'b) scene_instance" where
  "attach_controllers m bm inst declarations resolver si =
     (if \<not> instance_valid inst \<or> find_slot (si_partitions si) (ih_slot inst) = None then (rc_stale_handle, si)
      else if owns_controllers inst (si_controllers si) then (rc_controllers_active, si)
      else if declarations = [] then (rc_success, si)
      else (case resolver of
              None \<Rightarrow> (rc_controller_factory_not_found, si)
            | Some resolve_factory \<Rightarrow>
                (let ds = sort_declarations declarations in
                 case prepare_controllers si inst resolve_factory ds [0..<length ds]
                        (replicate (length (si_write_owners si)) 0, []) of
                   Inl code \<Rightarrow> (code, si)
                 | Inr (_, prep) \<Rightarrow>
                     (case create_controllers m bm inst ds prep (begin_commands si) of
                        (code, si) \<Rightarrow>
                          if code \<noteq> rc_success
                          then (code, snd (detach_controllers bm inst (end_commands m False si)))
                          else (rc_success,
                            (let si = end_commands m True si in si\<lparr>si_batches := sort_key be_type_id (si_batches si)\<rparr>))))))"

subsection \<open>Input and fixed steps\<close>

definition submit_controller_input ::
  "('x, 'v, 'q, 'f) az_math \<Rightarrow> ('x, 'v, 'cfg, 'inp, 'b) batch_methods \<Rightarrow> controller_handle \<Rightarrow> 'inp \<Rightarrow>
   ('x, 'v, 'b) scene_instance \<Rightarrow> controller_result \<times> ('x, 'v, 'b) scene_instance" where
  "submit_controller_input m bm controller inp si =
     (case find (\<lambda>r. cn_handle r = controller) (si_controllers si) of
        None \<Rightarrow> (cr_stale_handle, si)
      | Some found \<Rightarrow>
          (case find_batch (ch_type_id controller) (si_batches si) of
             None \<Rightarrow> (cr_stale_handle, si)
           | Some b \<Rightarrow>
               (let si = begin_commands si in
                case run_sink m (si_command_epoch si)
                       (bm_submit_input bm (be_batch (si_batches si ! b)) (cn_batch_state found) inp) si of
                  ((result, batch), si) \<Rightarrow>
                    (result, end_commands m (result = cr_success) (set_batch b batch si)))))"

definition has_running_controllers ::
  "('x, 'v, 'cfg, 'inp, 'b) batch_methods \<Rightarrow> ('x, 'v, 'b) scene_instance \<Rightarrow> bool" where
  "has_running_controllers bm si \<longleftrightarrow> (\<exists>e \<in> set (si_batches si). bm_has_running_controllers bm (be_batch e))"

definition run_batch ::
  "('x, 'v, 'q, 'f) az_math \<Rightarrow> ('x, 'v, 'cfg, 'inp, 'b) batch_methods \<Rightarrow> fixed_motion_step \<Rightarrow> nat \<Rightarrow>
   ('x, 'v, 'b) scene_instance \<Rightarrow> ('x, 'v, 'b) scene_instance" where
  "run_batch m bm step index si =
     (let batch = be_batch (si_batches si ! index) in
      if bm_has_running_controllers bm batch
      then (case run_sink m (si_command_epoch si) (bm_fixed_step_batch bm batch (step_tick step, step_delta step)) si of
              (batch, si) \<Rightarrow> set_batch index batch si)
      else si)"

definition run_controllers ::
  "('x, 'v, 'q, 'f) az_math \<Rightarrow> ('x, 'v, 'cfg, 'inp, 'b) batch_methods \<Rightarrow> fixed_motion_step \<Rightarrow>
   ('x, 'v, 'b) scene_instance \<Rightarrow> ('x, 'v, 'b) scene_instance" where
  "run_controllers m bm step si =
     end_commands m True (fold (run_batch m bm step) [0..<length (si_batches si)] (begin_commands si))"

end
