(* ===== verification/Scene_Attach.thy ===== *)
theory Scene_Attach
  imports Scene_Controllers
begin

section \<open>Controllers are attached all or none\<close>

text \<open>
  The controller operations seen through what they leave behind: the live targets, the write owners
  and the controllers. A live target is seen by its index, \<open>live_view\<close>; owners and tokens are
  functions of it, so an operation that restores it restores them.
\<close>

subsection \<open>The live targets of a scene\<close>

type_synonym live_target = "scene_node_handle \<times> node_handle option \<times> target_access \<times> u32 \<times> bool"

definition live_view :: "('x, 'v, 'b) scene_instance \<Rightarrow> nat \<Rightarrow> live_target option" where
  "live_view si i =
     (if i < length (si_targets si) \<and> ct_active (si_targets si ! i) then Some (quiet (si_targets si ! i)) else None)"

definition lt_node :: "live_target \<Rightarrow> node_handle option" where "lt_node q = fst (snd q)"
definition lt_access :: "live_target \<Rightarrow> target_access" where "lt_access q = fst (snd (snd q))"
definition lt_generation :: "live_target \<Rightarrow> u32" where "lt_generation q = fst (snd (snd (snd q)))"

lemma lt_simps [simp]:
  "lt_node (quiet r) = ct_runtime_node r" "lt_access (quiet r) = ct_access r" "lt_generation (quiet r) = ct_generation r"
  "lt_node (h, n, a, g, b) = n" "lt_access (h, n, a, g, b) = a" "lt_generation (h, n, a, g, b) = g"
  by (simp_all add: lt_node_def lt_access_def lt_generation_def quiet_def)

lemma live_view_cong:
  assumes "map quiet (si_targets si') = map quiet (si_targets si)"
  shows "live_view si' = live_view si"
proof
  fix i
  have len: "length (si_targets si') = length (si_targets si)" using assms map_eq_imp_length_eq by blast
  show "live_view si' i = live_view si i"
  proof (cases "i < length (si_targets si)")
    case True
    with assms len have "quiet (si_targets si' ! i) = quiet (si_targets si ! i)" by (metis nth_map)
    with quiet_fields(4) [OF this] len show ?thesis by (simp add: live_view_def)
  qed (simp add: live_view_def len)
qed

lemma target_live_view:
  "target_live si t \<longleftrightarrow> (\<exists>q. live_view si (unat (tt_index t)) = Some q \<and> lt_generation q = tt_generation t)"
  by (cases "ct_active (si_targets si ! unat (tt_index t))") (auto simp: target_live_def live_view_def simp del: split_paired_Ex)

lemma owner_view:
  assumes "target_pool_ok si" and "n < length (si_write_owners si)"
  shows "si_write_owners si ! n = (if \<exists>i q. live_view si i = Some q \<and> lt_access q = ta_read_write \<and> lt_node q = Some n
    then word_of_nat ((THE i. \<exists>q. live_view si i = Some q \<and> lt_access q = ta_read_write \<and> lt_node q = Some n) + 1) else 0)"
proof -
  have own: "owners_ok si" and len: "length (si_targets si) < 2 ^ 32" using assms(1) by (simp_all add: target_pool_ok_def targets_ok_def)
  let ?P = "\<lambda>i. \<exists>q. live_view si i = Some q \<and> lt_access q = ta_read_write \<and> lt_node q = Some n"
  have P: "?P i \<longleftrightarrow> i < length (si_targets si) \<and> writes_node (si_targets si ! i) n" for i
    by (auto simp: live_view_def writes_node_def simp del: split_paired_Ex)
  have entry: "?P i \<Longrightarrow> si_write_owners si ! n = word_of_nat (i + 1)" for i
    using P owner_entry [OF own _ assms(2)] by blast
  show ?thesis
  proof (cases "\<exists>i. ?P i")
    case True
    then obtain i where i: "?P i" by blast
    have "(THE i. ?P i) = i"
      using i by (intro the_equality) (metis P one_writer [OF assms(1)])+
    with True i entry [OF i] show ?thesis by auto
  next
    case False
    have "si_write_owners si ! n = 0"
    proof (rule ccontr)
      let ?w = "si_write_owners si ! n"
      assume w: "?w \<noteq> 0"
      have b: "unat ?w \<le> length (si_targets si)" by (rule owner_bound [OF own assms(2)])
      have pos: "unat ?w > 0" using w by (simp add: unat_gt_0)
      with b have i: "unat ?w - 1 < length (si_targets si)" by linarith
      have "?w = word_of_nat (unat ?w - 1 + 1)" using pos by simp
      with owner_entry [OF own i assms(2)] have "writes_node (si_targets si ! (unat ?w - 1)) n" by simp
      with P i False show False by blast
    qed
    with False show ?thesis by auto
  qed
qed

lemma owners_from_view:
  assumes "target_pool_ok si" "target_pool_ok si'" and "live_view si' = live_view si"
    and "length (si_write_owners si') = length (si_write_owners si)"
  shows "si_write_owners si' = si_write_owners si"
  using assms(4)
proof (rule nth_equalityI)
  fix n assume "n < length (si_write_owners si')"
  with assms(4) have "n < length (si_write_owners si)" "n < length (si_write_owners si')" by simp_all
  from owner_view [OF assms(1) this(1)] owner_view [OF assms(2) this(2)] show "si_write_owners si' ! n = si_write_owners si ! n"
    by (simp only: assms(3))
qed

lemma unowned_view:
  assumes "target_pool_ok si" and "n < length (si_write_owners si)"
  shows "si_write_owners si ! n = 0 \<longleftrightarrow> (\<forall>i q. live_view si i = Some q \<longrightarrow> lt_access q = ta_read_write \<longrightarrow> lt_node q \<noteq> Some n)"
proof -
  have own: "owners_ok si" and len: "length (si_targets si) < 2 ^ 32" using assms(1) by (simp_all add: target_pool_ok_def targets_ok_def)
  have "si_write_owners si ! n \<noteq> 0" if "live_view si i = Some q" "lt_access q = ta_read_write" "lt_node q = Some n" for i q
  proof -
    have i: "i < length (si_targets si)" "writes_node (si_targets si ! i) n"
      using that by (auto simp: live_view_def writes_node_def split: if_splits)
    with owner_entry [OF own i(1) assms(2)] have "si_write_owners si ! n = word_of_nat (i + 1)" by simp
    moreover have "unat (si_write_owners si ! n) \<le> length (si_targets si)" by (rule owner_bound [OF own assms(2)])
    ultimately show ?thesis using word_index [of "i + 1"] i(1) len by auto
  qed
  moreover have "si_write_owners si ! n = 0"
    if "\<forall>i q. live_view si i = Some q \<longrightarrow> lt_access q = ta_read_write \<longrightarrow> lt_node q \<noteq> Some n"
    using that unfolding owner_view [OF assms] by meson
  ultimately show ?thesis by blast
qed

subsection \<open>Allocation and release in the view\<close>

lemma allocate_view:
  assumes ok: "target_pool_ok si" and room: "length (si_targets si) + 1 < 2 ^ 32" and n: "n < length (si_write_owners si)"
    and free: "access = ta_read_write \<Longrightarrow> si_write_owners si ! n = 0"
    and a: "allocate_target m node n access si = (t, si')"
  shows "target_pool_ok si'" and "live_view si (unat (tt_index t)) = None"
    and "live_view si' = (live_view si)(unat (tt_index t) \<mapsto> (node, Some n, access, tt_generation t, True))"
    and "length (si_targets si') \<le> length (si_targets si) + 1"
    and "length (si_write_owners si') = length (si_write_owners si)"
proof -
  have tok: "targets_ok si" and own: "owners_ok si" using ok by (simp_all add: target_pool_ok_def)
  note f = fresh_spec [where m = m, OF tok]
  let ?i = "fresh_index si" and ?ts = "fresh_targets m si"
  have eq: "t = \<lparr>tt_index = word_of_nat ?i, tt_generation = ct_generation (?ts ! ?i)\<rparr>"
    "si_targets si' = ?ts[?i := allocated_record m node n access (?ts ! ?i)]"
    "length (si_write_owners si') = length (si_write_owners si)"
    using a by (auto simp: allocate_target_eq [OF tok] Let_def)
  have i: "unat (tt_index t) = ?i" using f(1,6) room by (simp add: eq word_index)
  show "target_pool_ok si'"
    using allocate_targets_ok [OF tok room, of m node n access] allocate_owners_ok [OF tok own room n, of access m node] free a
    by (simp add: target_pool_ok_def)
  show "live_view si (unat (tt_index t)) = None"
    using f(2,4) by (auto simp: live_view_def i)
  show "length (si_targets si') \<le> length (si_targets si) + 1" using f(6) by (simp add: eq)
  show "length (si_write_owners si') = length (si_write_owners si)" by (rule eq(3))
  show "live_view si' = (live_view si)(unat (tt_index t) \<mapsto> (node, Some n, access, tt_generation t, True))"
  proof
    fix j
    show "live_view si' j = ((live_view si)(unat (tt_index t) \<mapsto> (node, Some n, access, tt_generation t, True))) j"
    proof (cases "j = ?i")
      case True
      with f(1) show ?thesis by (simp add: live_view_def i eq(2) allocated_record_def quiet_def) (simp add: eq(1))
    next
      case False
      have "j < length ?ts \<longleftrightarrow> j < length (si_targets si)" using f(5) [OF _ False] f(7) by (meson less_le_trans)
      with False f(4) [of j] show ?thesis by (auto simp: live_view_def i eq(2))
    qed
  qed
qed

text \<open>Releasing tokens: those that are live lose their targets.\<close>

definition token_at :: "nat \<Rightarrow> live_target \<Rightarrow> target_token" where
  "token_at i q = \<lparr>tt_index = word_of_nat i, tt_generation = lt_generation q\<rparr>"

definition without :: "target_token set \<Rightarrow> (nat \<Rightarrow> live_target option) \<Rightarrow> nat \<Rightarrow> live_target option" where
  "without ts v i = (case v i of None \<Rightarrow> None | Some q \<Rightarrow> if token_at i q \<in> ts then None else Some q)"

lemma without_empty [simp]: "without {} v = v"
  by (auto simp: without_def fun_eq_iff split: option.split)

lemma without_without: "without A (without B v) = without (A \<union> B) v"
  by (auto simp: without_def fun_eq_iff split: option.split)

lemma view_bound: "target_pool_ok si \<Longrightarrow> live_view si i = Some q \<Longrightarrow> unat (word_of_nat i :: u32) = i"
  by (auto simp: live_view_def target_pool_ok_def targets_ok_def intro!: word_index split: if_splits)

lemma release_view:
  assumes ok: "target_pool_ok si"
  shows "live_view (release_target t si) = without {t} (live_view si)"
    and "length (si_targets (release_target t si)) = length (si_targets si)"
    and "length (si_write_owners (release_target t si)) = length (si_write_owners si)"
proof -
  have tok: "targets_ok si" and own: "owners_ok si" using ok by (simp_all add: target_pool_ok_def)
  note eq = release_target_eq [OF tok own, of t]
  show "length (si_targets (release_target t si)) = length (si_targets si)"
    "length (si_write_owners (release_target t si)) = length (si_write_owners si)"
    by (simp_all add: eq)
  show "live_view (release_target t si) = without {t} (live_view si)"
  proof
    fix i
    show "live_view (release_target t si) i = without {t} (live_view si) i"
    proof (cases "live_view si i")
      case None
      then show ?thesis
        by (cases "i = unat (tt_index t)") (auto simp: eq live_view_def without_def nth_list_update split: if_splits)
    next
      case (Some q)
      have i: "unat (word_of_nat i :: u32) = i" by (rule view_bound [OF ok Some])
      show ?thesis
      proof (cases "token_at i q = t")
        case True
        then have "unat (tt_index t) = i" "lt_generation q = tt_generation t" using i by (auto simp: token_at_def)
        with Some True show ?thesis by (auto simp: eq target_live_view without_def live_view_def nth_list_update)
      next
        case False
        then have "\<not> (target_live si t \<and> unat (tt_index t) = i)"
          using Some by (cases t) (auto simp: target_live_view token_at_def)
        with Some False show ?thesis by (auto simp: eq live_view_def without_def nth_list_update split: if_splits)
      qed
    qed
  qed
qed

lemma fold_release_view:
  assumes "target_pool_ok si"
  shows "target_pool_ok (fold release_target ts si) \<and> live_view (fold release_target ts si) = without (set ts) (live_view si) \<and>
    length (si_targets (fold release_target ts si)) = length (si_targets si) \<and>
    length (si_write_owners (fold release_target ts si)) = length (si_write_owners si)"
  using assms
proof (induction ts arbitrary: si)
  case (Cons t ts)
  have "target_pool_ok (release_target t si)" by (rule target_pool.release_inv [OF Cons.prems])
  with Cons.IH [of "release_target t si"] release_view [OF Cons.prems, of t] show ?case
    by (simp add: without_without Un_commute)
qed simp

subsection \<open>Frames\<close>

text \<open>What no controller operation touches before its commands are applied.\<close>

definition core :: "('x, 'v, 'b) scene_instance \<Rightarrow> _" where
  "core si =
     ((si_topology si, si_state si, si_partitions si, si_motion si, si_update_workspace si, si_entity_bindings si,
       si_entity_to_node si, si_sequence si, si_motion_workspace si, si_transform_workspace si),
      (si_evaluated_changes si, si_evaluated_stamp si, si_topological_rank si, si_accumulator si,
       si_last_synchronized_revision si, si_max_catch_up si, si_last_synchronized_count si, si_evaluated_epoch si,
       si_direct_batch_valid si, si_active si))"

lemma core_fields:
  assumes "core si' = core si"
  shows "si_topology si' = si_topology si" "si_state si' = si_state si" "si_partitions si' = si_partitions si"
    "si_motion si' = si_motion si" "si_entity_bindings si' = si_entity_bindings si" "si_entity_to_node si' = si_entity_to_node si"
  using assms by (simp_all add: core_def)

text \<open>What a sink does not touch either.\<close>

definition outer :: "('x, 'v, 'b) scene_instance \<Rightarrow> _" where
  "outer si = (core si, si_controllers si, si_batches si, si_free_targets si, si_write_owners si, si_command_epoch si,
     si_next_controller si, si_controller_generation si)"

lemma outer_fields:
  assumes "outer si' = outer si"
  shows "core si' = core si" "si_controllers si' = si_controllers si" "si_batches si' = si_batches si"
    "si_free_targets si' = si_free_targets si" "si_write_owners si' = si_write_owners si"
    "si_command_epoch si' = si_command_epoch si"
  using assms by (simp_all add: outer_def)

lemma set_controller_frame:
  "set_controller_local m t e loc si = (code, si') \<Longrightarrow>
     outer si' = outer si \<and> map quiet (si_targets si') = map quiet (si_targets si)"
  "set_controller_velocity m t e lin ang si = (code, si') \<Longrightarrow>
     outer si' = outer si \<and> map quiet (si_targets si') = map quiet (si_targets si)"
proof -
  have bound: "i < length (si_targets si)" if "find_target t e si = Some i" for i e
    using that by (auto simp: find_target_def Let_def split: if_splits)
  show "set_controller_local m t e loc si = (code, si') \<Longrightarrow>
     outer si' = outer si \<and> map quiet (si_targets si') = map quiet (si_targets si)"
    by (auto simp: set_controller_local_def Let_def outer_def core_def quiet_def dest!: bound
        intro!: map_quiet_update split: option.splits if_splits)
  show "set_controller_velocity m t e lin ang si = (code, si') \<Longrightarrow>
     outer si' = outer si \<and> map quiet (si_targets si') = map quiet (si_targets si)"
    by (auto simp: set_controller_velocity_def Let_def outer_def core_def quiet_def dest!: bound
        intro!: map_quiet_update split: option.splits if_splits)
qed

lemma run_sink_frame:
  "run_sink m e p si = (r, si') \<Longrightarrow> outer si' = outer si \<and> map quiet (si_targets si') = map quiet (si_targets si)"
proof (induction p arbitrary: si)
  case (Set_local_transform t loc k)
  obtain code s where w: "set_controller_local m t e loc si = (code, s)" by fastforce
  with set_controller_frame(1) [OF w] Set_local_transform show ?case by fastforce
next
  case (Set_velocity t lin ang k)
  obtain code s where w: "set_controller_velocity m t e lin ang si = (code, s)" by fastforce
  with set_controller_frame(2) [OF w] Set_velocity show ?case by fastforce
next
  case (Stop_motion t k)
  obtain code s where w: "set_controller_velocity m t e (az_zero m) (az_zero m) si = (code, s)" by fastforce
  with set_controller_frame(2) [OF w] Stop_motion show ?case by fastforce
next
  case (Get_local_transform t k)
  from Get_local_transform.prems Get_local_transform.IH [OF rangeI] show ?case by simp
qed simp

lemma pool_ok_cong:
  fixes si si' :: "('a, 'b, 'c) scene_instance"
  assumes "map quiet (si_targets si') = map quiet (si_targets si)"
    and "si_free_targets si' = si_free_targets si" and "si_write_owners si' = si_write_owners si"
  shows "target_pool_ok si' = target_pool_ok si"
  using owners_ok_cong [OF assms(1,3)] targets_ok_cong [OF assms(1,2)] by (simp add: target_pool_ok_def)

text \<open>An open sink: its targets are well formed and its buffer is represented.\<close>

definition sink_open :: "('x, 'v, 'b) scene_instance \<Rightarrow> bool" where
  "sink_open si \<longleftrightarrow> sink_ready si \<and> (\<exists>buf. pending_ok si buf)"

lemma sink_open_pool: "sink_open si \<Longrightarrow> target_pool_ok si"
  by (simp add: sink_open_def sink_ready_def)

lemma run_sink_open:
  fixes si si' :: "('x, 'v, 'b) scene_instance"
  assumes "sink_open si" and "run_sink m (si_command_epoch si) p si = (r, si')"
  shows "sink_open si'" and "live_view si' = live_view si" and "outer si' = outer si"
    and "length (si_targets si') = length (si_targets si)"
proof -
  note f = run_sink_frame [OF assms(2)]
  then show "outer si' = outer si" by (rule conjunct1)
  show "live_view si' = live_view si" by (rule live_view_cong [OF f [THEN conjunct2]])
  show "length (si_targets si') = length (si_targets si)" using f map_eq_imp_length_eq by blast
  have ready: "sink_ready si" using assms(1) by (simp add: sink_open_def)
  obtain buf where "sink_sim si si buf" using assms(1) by (auto simp: sink_open_def sink_sim_refl)
  from run_sink_sim [OF ready this assms(2)] obtain buf' where "sink_sim si si' buf'" by blast
  then have "pending_ok si' buf'" by (rule sink_sim_pending)
  moreover have "sink_ready si'"
    using ready pool_ok_cong [OF f [THEN conjunct2]] outer_fields [OF f [THEN conjunct1]] by (simp add: sink_ready_def)
  ultimately show "sink_open si'" by (auto simp: sink_open_def)
qed

lemma sink_open_same:
  assumes "sink_open si" and "si_targets si' = si_targets si" "si_free_targets si' = si_free_targets si"
    "si_write_owners si' = si_write_owners si" "si_command_epoch si' = si_command_epoch si"
    "si_local_touched si' = si_local_touched si" "si_motion_touched si' = si_motion_touched si"
  shows "sink_open si'"
  using assms by (simp add: sink_open_def sink_ready_def pending_ok_def target_pool_ok_def targets_ok_def owners_ok_def)

lemma allocate_half_sim:
  assumes ok: "targets_ok si" and e: "e \<noteq> 0" and sim: "half_sim e (si_targets si) ep pend touched buf"
    and new: "ep (allocated_record m node n access (fresh_targets m si ! fresh_index si)) = 0" and "ep (new_target_record m) = 0"
  shows "half_sim e ((fresh_targets m si)[fresh_index si := allocated_record m node n access (fresh_targets m si ! fresh_index si)])
    ep pend touched buf"
proof -
  note f = fresh_spec [where m = m, OF ok]
  let ?i = "fresh_index si" and ?ts = "fresh_targets m si"
  let ?r = "allocated_record m node n access (?ts ! ?i)"
  have none: "buf ?i = None"
  proof (rule ccontr)
    assume "buf ?i \<noteq> None"
    then have "?i < length (si_targets si)" "ct_active (si_targets si ! ?i)" using sim by (auto simp: half_sim_def)
    with f(2,4) show False by simp
  qed
  show ?thesis
    unfolding half_sim_def
  proof (intro conjI allI impI)
    fix j assume "j < length (?ts[?i := ?r])"
    then show "buf j = (if ep (?ts[?i := ?r] ! j) = e then Some (pend (?ts[?i := ?r] ! j)) else None)"
      using none new e f(1) f(4) [of j] f(5) [of j] sim by (cases "j = ?i") (auto simp: half_sim_def)
  next
    fix j assume b: "buf j \<noteq> None"
    then have j: "j \<noteq> ?i" "j < length (si_targets si)" "ct_access (si_targets si ! j) = ta_read_write" "ct_active (si_targets si ! j)"
      using none sim by (auto simp: half_sim_def)
    then show "j < length (?ts[?i := ?r])" "ct_access (?ts[?i := ?r] ! j) = ta_read_write" "ct_active (?ts[?i := ?r] ! j)"
      using f(4) [of j] f(7) by auto
  next
    show "distinct touched" "\<And>j. j \<in> set touched \<longleftrightarrow> buf (unat j) \<noteq> None" using sim by (auto simp: half_sim_def)
    have "ep r \<le> e" if "r \<in> set ?ts" for r
    proof -
      have "r \<in> set (si_targets si) \<or> r = new_target_record m" using that by (auto simp: fresh_targets_def split: if_splits)
      then show ?thesis using sim assms(5) by (auto simp: half_sim_def)
    qed
    then show "\<forall>r \<in> set (?ts[?i := ?r]). ep r \<le> e" using new set_update_subset_insert [of ?ts ?i ?r] by auto
  qed
qed

lemma allocate_frame:
  assumes "targets_ok si" and "allocate_target m node n access si = (t, si')"
  shows "core si' = core si" "si_controllers si' = si_controllers si" "si_batches si' = si_batches si"
    "si_command_epoch si' = si_command_epoch si" "si_local_touched si' = si_local_touched si"
    "si_motion_touched si' = si_motion_touched si"
  using assms(2) by (auto simp: allocate_target_eq [OF assms(1)] Let_def core_def)

lemma allocate_open:
  assumes open': "sink_open si" and room: "length (si_targets si) + 1 < 2 ^ 32" and n: "n < length (si_write_owners si)"
    and free: "access = ta_read_write \<Longrightarrow> si_write_owners si ! n = 0"
    and a: "allocate_target m node n access si = (t, si')"
  shows "sink_open si'"
proof -
  have pool: "target_pool_ok si" and e: "si_command_epoch si \<noteq> 0" using open' by (simp_all add: sink_open_def sink_ready_def)
  then have ok: "targets_ok si" by (simp add: target_pool_ok_def)
  obtain buf where b: "pending_ok si buf" using open' by (auto simp: sink_open_def)
  note fr = allocate_frame [OF ok a]
  have ts: "si_targets si' = (fresh_targets m si)[fresh_index si := allocated_record m node n access (fresh_targets m si ! fresh_index si)]"
    using a by (auto simp: allocate_target_eq [OF ok] Let_def)
  have "pending_ok si' buf"
    using b e unfolding pending_ok_def fr ts
    by (intro conjI allocate_half_sim [OF ok]) (simp_all add: allocated_record_def new_target_record_def)
  then show ?thesis using allocate_view(1) [OF pool room n free a] e fr(4) by (auto simp: sink_open_def sink_ready_def)
qed

subsection \<open>Adding targets to the view\<close>

definition view_of :: "prepared_target \<Rightarrow> target_token \<Rightarrow> live_target" where
  "view_of p t = (pt_node p, Some (pt_runtime_node p), tr_access (pt_reference p), tt_generation t, True)"

fun added ::
  "(nat \<Rightarrow> live_target option) \<Rightarrow> prepared_target list \<Rightarrow> target_token list \<Rightarrow> (nat \<Rightarrow> live_target option) \<Rightarrow> bool" where
  "added v [] [] v' \<longleftrightarrow> v' = v"
| "added v (p # ps) (t # ts) v' \<longleftrightarrow>
     v (unat (tt_index t)) = None \<and> added (v(unat (tt_index t) \<mapsto> view_of p t)) ps ts v'"
| "added v _ _ v' \<longleftrightarrow> False"

definition rw_nodes :: "prepared_target list \<Rightarrow> node_handle list" where
  "rw_nodes ps = map pt_runtime_node (filter (\<lambda>p. tr_access (pt_reference p) = ta_read_write) ps)"

lemma rw_nodes_simps [simp]:
  "rw_nodes [] = []" "rw_nodes (ps @ qs) = rw_nodes ps @ rw_nodes qs"
  "rw_nodes (p # ps) = (if tr_access (pt_reference p) = ta_read_write then pt_runtime_node p # rw_nodes ps else rw_nodes ps)"
  by (simp_all add: rw_nodes_def)

lemma rw_nodes_mem: "n \<in> set (rw_nodes ps) \<Longrightarrow> \<exists>p \<in> set ps. n = pt_runtime_node p"
  by (auto simp: rw_nodes_def)

definition view_writes :: "(nat \<Rightarrow> live_target option) \<Rightarrow> node_handle \<Rightarrow> bool" where
  "view_writes v n \<longleftrightarrow> (\<exists>i q. v i = Some q \<and> lt_access q = ta_read_write \<and> lt_node q = Some n)"

lemma unowned_writes:
  "target_pool_ok si \<Longrightarrow> n < length (si_write_owners si) \<Longrightarrow> si_write_owners si ! n = 0 \<longleftrightarrow> \<not> view_writes (live_view si) n"
  unfolding view_writes_def by (simp only: unowned_view) blast

lemma view_writes_update:
  "v i = None \<Longrightarrow> view_writes (v(i \<mapsto> view_of p t)) n \<longleftrightarrow>
    view_writes v n \<or> tr_access (pt_reference p) = ta_read_write \<and> pt_runtime_node p = n"
  by (auto simp: view_writes_def view_of_def split: if_splits) (metis option.distinct(1))+

lemma added_append: "added v ps ts v1 \<Longrightarrow> added v1 qs us v2 \<Longrightarrow> added v (ps @ qs) (ts @ us) v2"
  by (induction v ps ts v1 rule: added.induct) auto

lemma added_length: "added v ps ts v' \<Longrightarrow> length ts = length ps"
  by (induction v ps ts v' rule: added.induct) auto

lemma added_writes: "added v ps ts v' \<Longrightarrow> view_writes v' n \<longleftrightarrow> view_writes v n \<or> n \<in> set (rw_nodes ps)"
  by (induction v ps ts v' rule: added.induct) (auto simp: view_writes_update)

lemma added_keeps: "added v ps ts v' \<Longrightarrow> v i = Some q \<Longrightarrow> v' i = Some q"
proof (induction v ps ts v' rule: added.induct)
  case (2 v p ps t ts v')
  then have a: "v (unat (tt_index t)) = None" "added (v(unat (tt_index t) \<mapsto> view_of p t)) ps ts v'" by simp_all
  with 2(3) have "(v(unat (tt_index t) \<mapsto> view_of p t)) i = Some q" by auto
  with 2(1) [OF a(2)] show ?case by blast
qed simp_all

lemma added_new: "added v ps ts v' \<Longrightarrow> (p, t) \<in> set (zip ps ts) \<Longrightarrow> v' (unat (tt_index t)) = Some (view_of p t)"
  by (induction v ps ts v' rule: added.induct) (auto intro: added_keeps)

text \<open>Taking the added targets away gives back the view.\<close>

lemma without_added:
  assumes "added v ps ts v'" and "\<And>i q. v i = Some q \<Longrightarrow> unat (word_of_nat i :: u32) = i"
  shows "without (set ts) v' = v"
  using assms
proof (induction v ps ts v' rule: added.induct)
  case (2 v p ps t ts v')
  let ?i = "unat (tt_index t)"
  have fresh: "v ?i = None" and rest: "added (v(?i \<mapsto> view_of p t)) ps ts v'" using 2(2) by simp_all
  have "without (set ts) v' = v(?i \<mapsto> view_of p t)"
    using 2(1) [OF rest] 2(3) by (auto split: if_splits)
  then have "without (set (t # ts)) v' = without {t} (v(?i \<mapsto> view_of p t))"
    by (simp only: list.set(2) insert_is_Un [of t "set ts"] without_without [symmetric])
  also have "\<dots> = v"
  proof
    fix i
    show "without {t} (v(?i \<mapsto> view_of p t)) i = v i"
    proof (cases "i = ?i")
      case True
      then show ?thesis using fresh by (simp add: without_def token_at_def view_of_def)
    next
      case False
      have "token_at i q \<noteq> t" if "v i = Some q" for q
        using False 2(3) [OF that] by (auto simp: token_at_def)
      with False show ?thesis by (auto simp: without_def split: option.split)
    qed
  qed
  finally show ?case .
qed simp_all

definition resolved_of :: "prepared_target \<Rightarrow> target_token \<Rightarrow> resolved_target" where
  "resolved_of p t = \<lparr>rt_slot = tr_slot (pt_reference p), rt_node = pt_node p, rt_token = t, rt_access = tr_access (pt_reference p)\<rparr>"

lemma allocate_prepared_fold:
  assumes "sink_open si" and "\<forall>p \<in> set ps. pt_runtime_node p < length (si_write_owners si)"
    and "\<forall>n \<in> set (rw_nodes ps). si_write_owners si ! n = 0" and "distinct (rw_nodes ps)"
    and "length (si_targets si) + length ps < 2 ^ 32"
    and "fold (allocate_prepared m) ps (acc, si) = (resolved, si')"
  shows "\<exists>ts. resolved = acc @ map2 resolved_of ps ts \<and> added (live_view si) ps ts (live_view si') \<and> sink_open si' \<and>
    core si' = core si \<and> si_controllers si' = si_controllers si \<and> si_batches si' = si_batches si \<and>
    length (si_targets si') \<le> length (si_targets si) + length ps \<and>
    length (si_write_owners si') = length (si_write_owners si)"
  using assms
proof (induction ps arbitrary: acc si)
  case Nil
  then show ?case by (intro exI [of _ "[]"]) simp
next
  case (Cons p ps)
  let ?acc = "tr_access (pt_reference p)" and ?n = "pt_runtime_node p"
  obtain t s where a: "allocate_target m (pt_node p) ?n ?acc si = (t, s)" by fastforce
  have pool: "target_pool_ok si" using Cons.prems(1) by (rule sink_open_pool)
  then have tok: "targets_ok si" by (simp add: target_pool_ok_def)
  have n: "?n < length (si_write_owners si)" using Cons.prems(2) by simp
  have free: "si_write_owners si ! ?n = 0" if "?acc = ta_read_write" using Cons.prems(3) that by simp
  have room: "length (si_targets si) + 1 < 2 ^ 32" using Cons.prems(5) by simp
  note v = allocate_view [OF pool room n _ a]
  have v: "target_pool_ok s" "live_view si (unat (tt_index t)) = None"
    "live_view s = (live_view si)(unat (tt_index t) \<mapsto> (pt_node p, Some ?n, ?acc, tt_generation t, True))"
    "length (si_targets s) \<le> length (si_targets si) + 1" "length (si_write_owners s) = length (si_write_owners si)"
    using v free by blast+
  note fr = allocate_frame [OF tok a]
  have open': "sink_open s" by (rule allocate_open [OF Cons.prems(1) room n free a])
  have view: "live_view s = (live_view si)(unat (tt_index t) \<mapsto> view_of p t)" using v(3) by (simp add: view_of_def)
  have unowned: "\<forall>k \<in> set (rw_nodes ps). si_write_owners s ! k = 0"
  proof
    fix k assume k: "k \<in> set (rw_nodes ps)"
    then have kb: "k < length (si_write_owners si)" using Cons.prems(2) by (auto simp: rw_nodes_def)
    have ne: "?acc = ta_read_write \<Longrightarrow> ?n \<noteq> k" using Cons.prems(4) k by auto
    have "si_write_owners si ! k = 0" using Cons.prems(3) k by auto
    then have "\<not> view_writes (live_view si) k" using unowned_writes [OF pool kb] by simp
    then have "\<not> view_writes (live_view s) k" using ne view_writes_update [of "live_view si" "unat (tt_index t)" p t k, OF v(2)] by (auto simp: view)
    then show "si_write_owners s ! k = 0" using unowned_writes [OF v(1)] kb v(5) by simp
  qed
  have rest: "fold (allocate_prepared m) ps (acc @ [resolved_of p t], s) = (resolved, si')"
  proof -
    have "allocate_prepared m p (acc, si) = (acc @ [resolved_of p t], s)" using a by (simp add: allocate_prepared_def resolved_of_def)
    with Cons.prems(6) show ?thesis by simp
  qed
  have "\<forall>q \<in> set ps. pt_runtime_node q < length (si_write_owners s)" using Cons.prems(2) v(5) by simp
  moreover have "distinct (rw_nodes ps)" using Cons.prems(4) by (simp split: if_splits)
  moreover have "length (si_targets s) + length ps < 2 ^ 32" using Cons.prems(5) v(4) by simp
  ultimately obtain ts where ts: "resolved = (acc @ [resolved_of p t]) @ map2 resolved_of ps ts"
    "added (live_view s) ps ts (live_view si')" "sink_open si'"
    "core si' = core s" "si_controllers si' = si_controllers s" "si_batches si' = si_batches s"
    "length (si_targets si') \<le> length (si_targets s) + length ps" "length (si_write_owners si') = length (si_write_owners s)"
    using Cons.IH [OF open' _ unowned _ _ rest] by blast
  then show ?case
    using v fr view by (intro exI [of _ "t # ts"]) simp
qed

subsection \<open>Creating controllers\<close>

definition batch_types :: "('x, 'v, 'b) scene_instance \<Rightarrow> type_id list" where
  "batch_types si = map be_type_id (si_batches si)"

lemma find_batch_bound: "find_batch ty bs = Some i \<Longrightarrow> i < length bs \<and> be_type_id (bs ! i) = ty"
  by (auto simp: find_batch_def dest: find_index_SomeD)

lemma find_batch_None: "find_batch ty bs = None \<longleftrightarrow> ty \<notin> be_type_id ` set bs"
  by (auto simp: find_batch_def find_index_None)

lemma ensure_batch_types:
  assumes "ensure_batch ty f si = Some (i, s)"
  shows "\<exists>bs. s = si\<lparr>si_batches := bs\<rparr>" and "batch_types s = batch_types si @ (if ty \<in> set (batch_types si) then [] else [ty])"
proof -
  show "\<exists>bs. s = si\<lparr>si_batches := bs\<rparr>"
    using assms by (auto simp: ensure_batch_def split: option.splits intro: exI [of _ "si_batches si"])
  show "batch_types s = batch_types si @ (if ty \<in> set (batch_types si) then [] else [ty])"
    using assms find_batch_bound [of ty "si_batches si"]
    by (auto simp: ensure_batch_def batch_types_def find_batch_None split: option.splits)
qed

lemma set_batch_types [simp]: "batch_types (set_batch i b si) = batch_types si"
proof (cases "i < length (si_batches si)")
  case True
  then show ?thesis by (simp add: batch_types_def set_batch_def map_update list_update_same_conv)
qed (simp add: batch_types_def set_batch_def list_update_beyond)

lemma set_batch_fields [simp]:
  "core (set_batch i b si) = core si" "si_controllers (set_batch i b si) = si_controllers si"
  "si_targets (set_batch i b si) = si_targets si" "si_free_targets (set_batch i b si) = si_free_targets si"
  "si_write_owners (set_batch i b si) = si_write_owners si" "si_command_epoch (set_batch i b si) = si_command_epoch si"
  "si_local_touched (set_batch i b si) = si_local_touched si" "si_motion_touched (set_batch i b si) = si_motion_touched si"
  "live_view (set_batch i b si) = live_view si"
  by (simp_all add: set_batch_def core_def live_view_def fun_eq_iff)

lemma fold_release_fields:
  "core (fold release_target ts si) = core si \<and> si_controllers (fold release_target ts si) = si_controllers si \<and>
   si_batches (fold release_target ts si) = si_batches si"
  by (induction ts arbitrary: si) (simp_all add: release_target_def Let_def core_def)

lemma map_controller_success [simp]: "map_controller_result c = rc_success \<longleftrightarrow> c = cr_success"
  by (cases c) (simp_all add: map_controller_result_def)

definition new_controller :: "instance_handle \<Rightarrow> 'cfg controller_declaration \<Rightarrow> controller_record \<Rightarrow> bool" where
  "new_controller inst d r \<longleftrightarrow> ch_instance (cn_handle r) = inst \<and> ch_type_id (cn_handle r) = cd_type_id d \<and>
     cn_declaration_id r = cd_declaration_id d \<and> \<not> cn_input_closed r"

definition allocatable :: "prepared_target list \<Rightarrow> ('x, 'v, 'b) scene_instance \<Rightarrow> bool" where
  "allocatable ps si \<longleftrightarrow> (\<forall>p \<in> set ps. pt_runtime_node p < length (si_write_owners si)) \<and>
     (\<forall>n \<in> set (rw_nodes ps). si_write_owners si ! n = 0) \<and> distinct (rw_nodes ps) \<and>
     length (si_targets si) + length ps < 2 ^ 32"

lemma issue_handle_next:
  "issue_handle si = (h, s) \<Longrightarrow> \<exists>k g. s = si\<lparr>si_next_controller := k, si_controller_generation := g\<rparr>"
proof -
  assume "issue_handle si = (h, s)"
  then have "s = si\<lparr>si_next_controller := 1, si_controller_generation := next_generation (si_controller_generation si)\<rparr> \<or>
    s = si\<lparr>si_next_controller := si_next_controller si + 1, si_controller_generation := si_controller_generation si\<rparr>"
    by (auto simp: issue_handle_def split: if_splits)
  then show ?thesis by blast
qed

lemma map2_tokens: "length ts = length ps \<Longrightarrow> map rt_token (map2 resolved_of ps ts) = ts"
  by (induction ts ps rule: list_induct2) (simp_all add: resolved_of_def)

lemma create_controller_spec:
  assumes open': "sink_open si" and alloc: "allocatable (pc_targets pc) si"
    and c: "create_controller m bm inst ds pc si = (code, si')"
  shows "core si' = core si \<and> target_pool_ok si' \<and> length (si_write_owners si') = length (si_write_owners si) \<and>
    (\<exists>extra. batch_types si' = batch_types si @ extra \<and> distinct extra \<and>
       set extra \<subseteq> {cd_type_id (ds ! pc_declaration pc)} - set (batch_types si)) \<and>
    (code = rc_success \<longrightarrow> sink_open si' \<and> length (si_targets si') \<le> length (si_targets si) + length (pc_targets pc) \<and>
       cd_type_id (ds ! pc_declaration pc) \<in> set (batch_types si') \<and>
       (\<exists>r. si_controllers si' = si_controllers si @ [r] \<and> new_controller inst (ds ! pc_declaration pc) r \<and>
          added (live_view si) (pc_targets pc) (cn_targets r) (live_view si'))) \<and>
    (code \<noteq> rc_success \<longrightarrow> si_controllers si' = si_controllers si \<and> live_view si' = live_view si)"
proof -
  let ?d = "ds ! pc_declaration pc"
  have pool: "target_pool_ok si" using open' by (rule sink_open_pool)
  show ?thesis
  proof (cases "ensure_batch (cd_type_id ?d) (pc_factory pc) si")
    case None
    with c pool show ?thesis by (auto simp: create_controller_def Let_def)
  next
    case (Some found)
    obtain i s where e: "ensure_batch (cd_type_id ?d) (pc_factory pc) si = Some (i, s)" using Some by (cases found) simp
    note et = ensure_batch_types [OF e]
    have s: "core s = core si" "si_controllers s = si_controllers si" "live_view s = live_view si"
      "si_write_owners s = si_write_owners si" "si_targets s = si_targets si" and so: "sink_open s"
      using et(1) open' by (auto simp: core_def live_view_def intro: sink_open_same)
    obtain resolved s1 where f: "fold (allocate_prepared m) (pc_targets pc) ([], s) = (resolved, s1)" by fastforce
    obtain ts where ts: "resolved = map2 resolved_of (pc_targets pc) ts" "added (live_view s) (pc_targets pc) ts (live_view s1)"
      "sink_open s1" "core s1 = core s" "si_controllers s1 = si_controllers s" "si_batches s1 = si_batches s"
      "length (si_targets s1) \<le> length (si_targets s) + length (pc_targets pc)" "length (si_write_owners s1) = length (si_write_owners s)"
      using allocate_prepared_fold [OF so _ _ _ _ f] alloc s by (auto simp: allocatable_def)
    have tokens: "map rt_token resolved = ts"
      using map2_tokens [OF added_length [OF ts(2)]] ts(1) by simp
    obtain created batch s2 where r: "run_sink m (si_command_epoch s1)
        (bm_create_controller bm (be_batch (si_batches s1 ! i)) inst (cd_declaration_id ?d) (the (cd_configuration ?d)) resolved) s1 =
        ((created, batch), s2)" by (metis prod.exhaust)
    note ro = run_sink_open [OF ts(3) r]
    let ?s3 = "set_batch i batch s2"
    have s3: "core ?s3 = core si" "si_controllers ?s3 = si_controllers si" "live_view ?s3 = live_view s1"
      "batch_types ?s3 = batch_types s" "length (si_write_owners ?s3) = length (si_write_owners si)" "sink_open ?s3"
      "length (si_targets ?s3) \<le> length (si_targets si) + length (pc_targets pc)"
      using outer_fields [OF ro(3)] ro ts s by (auto simp: batch_types_def [of s2] batch_types_def [of s] intro: sink_open_same)
    have ex: "\<exists>extra. batch_types s = batch_types si @ extra \<and> distinct extra \<and> set extra \<subseteq> {cd_type_id ?d} - set (batch_types si)"
      using et(2) by auto
    show ?thesis
    proof (cases "create_succeeds created")
      case True
      obtain h s4 where h: "issue_handle ?s3 = (h, s4)" by fastforce
      obtain k g where s4: "s4 = ?s3\<lparr>si_next_controller := k, si_controller_generation := g\<rparr>"
        using issue_handle_next [OF h] by blast
      let ?r = "\<lparr>cn_handle = \<lparr>ch_instance = inst, ch_type_id = cd_type_id ?d, ch_state = h\<rparr>, cn_batch_state = cc_state created,
        cn_declaration_id = cd_declaration_id ?d, cn_targets = ts, cn_input_closed = False\<rparr>"
      have si': "code = rc_success" "si' = s4\<lparr>si_controllers := si_controllers s4 @ [?r]\<rparr>"
        using c e f r True h tokens by (simp_all add: create_controller_def Let_def)
      have same: "core si' = core ?s3" "si_controllers si' = si_controllers ?s3 @ [?r]" "live_view si' = live_view ?s3"
        "batch_types si' = batch_types ?s3" "si_write_owners si' = si_write_owners ?s3" "si_targets si' = si_targets ?s3"
        by (simp_all add: si'(2) s4 core_def live_view_def batch_types_def fun_eq_iff)
      have "sink_open si'" by (rule sink_open_same [OF s3(6)]) (simp_all add: si'(2) s4)
      then show ?thesis
        using same s3 ex et(2) ts(2) s sink_open_pool si'(1) by (auto simp: new_controller_def)
    next
      case False
      have si': "code \<noteq> rc_success" "si' = fold release_target ts ?s3"
        using c e f r False tokens by (auto simp: create_controller_def Let_def create_succeeds_def split: if_splits)
      have "unat (word_of_nat i :: u32) = i" if "live_view s i = Some q" for i q
        using that sink_open_pool [OF so] by (rule view_bound [rotated])
      from without_added [OF ts(2) this] fold_release_view [OF sink_open_pool [OF s3(6)], of ts] fold_release_fields [of ts ?s3] s3 s si' ex
      show ?thesis by (auto simp: batch_types_def)
    qed
  qed
qed

definition created_for ::
  "instance_handle \<Rightarrow> 'cfg controller_declaration list \<Rightarrow> 'b prepared_controller \<Rightarrow> controller_record \<Rightarrow> bool" where
  "created_for inst ds pc r \<longleftrightarrow>
     new_controller inst (ds ! pc_declaration pc) r \<and> length (cn_targets r) = length (pc_targets pc)"

lemma create_controllers_spec:
  assumes "sink_open si" and "allocatable (concat (map pc_targets pcs)) si"
    and "create_controllers m bm inst ds pcs si = (code, si')"
  shows "core si' = core si \<and> target_pool_ok si' \<and> length (si_write_owners si') = length (si_write_owners si) \<and>
    (\<exists>done rs extra. (code = rc_success \<longrightarrow> done = pcs \<and> sink_open si' \<and>
         length (si_targets si') \<le> length (si_targets si) + length (concat (map pc_targets pcs)) \<and>
         (\<forall>pc \<in> set pcs. cd_type_id (ds ! pc_declaration pc) \<in> set (batch_types si'))) \<and>
       si_controllers si' = si_controllers si @ rs \<and>
       list_all2 (created_for inst ds) done rs \<and>
       added (live_view si) (concat (map pc_targets done)) (concat (map cn_targets rs)) (live_view si') \<and>
       batch_types si' = batch_types si @ extra \<and> distinct extra \<and>
       set extra \<subseteq> (\<lambda>pc. cd_type_id (ds ! pc_declaration pc)) ` set pcs - set (batch_types si))"
  using assms
proof (induction pcs arbitrary: si)
  case Nil
  then show ?case
    by (auto intro!: exI [of _ "[]"] dest: sink_open_pool)
next
  case (Cons pc pcs)
  let ?ty = "\<lambda>pc. cd_type_id (ds ! pc_declaration pc)"
  obtain code1 s where c: "create_controller m bm inst ds pc si = (code1, s)" by fastforce
  have alloc: "allocatable (pc_targets pc) si" using Cons.prems(2) by (auto simp: allocatable_def)
  note step = create_controller_spec [OF Cons.prems(1) alloc c]
  obtain extra1 where x1: "batch_types s = batch_types si @ extra1" "distinct extra1" "set extra1 \<subseteq> {?ty pc} - set (batch_types si)"
    using step by blast
  show ?case
  proof (cases "code1 = rc_success")
    case False
    then have "code = code1" "si' = s" using Cons.prems(3) c by simp_all
    with False step x1 show ?thesis by (auto intro!: exI [of _ "[]"] exI [of _ extra1])
  next
    case True
    then obtain r where r: "sink_open s" "length (si_targets s) \<le> length (si_targets si) + length (pc_targets pc)"
      "?ty pc \<in> set (batch_types s)" "si_controllers s = si_controllers si @ [r]" "new_controller inst (ds ! pc_declaration pc) r"
      "added (live_view si) (pc_targets pc) (cn_targets r) (live_view s)" using step by blast
    have rest: "create_controllers m bm inst ds pcs s = (code, si')" using Cons.prems(3) c True by simp
    have len: "length (si_write_owners s) = length (si_write_owners si)" using step by blast
    have "allocatable (concat (map pc_targets pcs)) s"
      unfolding allocatable_def
    proof (intro conjI ballI)
      show "pt_runtime_node p < length (si_write_owners s)" if "p \<in> set (concat (map pc_targets pcs))" for p
        using Cons.prems(2) len that by (auto simp: allocatable_def)
      show "distinct (rw_nodes (concat (map pc_targets pcs)))" using Cons.prems(2) by (simp add: allocatable_def)
      show "length (si_targets s) + length (concat (map pc_targets pcs)) < 2 ^ 32"
        using Cons.prems(2) r(2) by (simp add: allocatable_def)
      fix n assume n: "n \<in> set (rw_nodes (concat (map pc_targets pcs)))"
      obtain p where p: "p \<in> set (concat (map pc_targets pcs))" "n = pt_runtime_node p" using n by (auto simp: rw_nodes_def)
      then have nb: "n < length (si_write_owners si)" using Cons.prems(2) by (auto simp: allocatable_def)
      have free: "si_write_owners si ! n = 0" and ne: "n \<notin> set (rw_nodes (pc_targets pc))"
        using Cons.prems(2) n by (auto simp: allocatable_def)
      have "\<not> view_writes (live_view si) n" using free unowned_writes [OF sink_open_pool [OF Cons.prems(1)] nb] by simp
      then have "\<not> view_writes (live_view s) n" using added_writes [OF r(6)] ne by simp
      then show "si_write_owners s ! n = 0" using unowned_writes [of s n] sink_open_pool [OF r(1)] nb len by simp
    qed
    from Cons.IH [OF r(1) this rest] obtain ds' rs extra where ih: "core si' = core s" "target_pool_ok si'"
      "length (si_write_owners si') = length (si_write_owners s)"
      "code = rc_success \<longrightarrow> ds' = pcs \<and> sink_open si' \<and>
         length (si_targets si') \<le> length (si_targets s) + length (concat (map pc_targets pcs)) \<and>
         (\<forall>pc \<in> set pcs. ?ty pc \<in> set (batch_types si'))"
      "si_controllers si' = si_controllers s @ rs" "list_all2 (created_for inst ds) ds' rs"
      "added (live_view s) (concat (map pc_targets ds')) (concat (map cn_targets rs)) (live_view si')"
      "batch_types si' = batch_types s @ extra" "distinct extra" "set extra \<subseteq> ?ty ` set pcs - set (batch_types s)"
      by blast
    have "added (live_view si) (concat (map pc_targets (pc # ds'))) (concat (map cn_targets (r # rs))) (live_view si')"
      using added_append [OF r(6) ih(7)] by simp
    moreover have "created_for inst ds pc r" using r(5) added_length [OF r(6)] by (simp add: created_for_def)
    ultimately show ?thesis
      using ih r x1 step len
      by (intro conjI exI [of _ "pc # ds'"] exI [of _ "r # rs"] exI [of _ "extra1 @ extra"]) auto
  qed
qed

subsection \<open>Closing and detaching\<close>

text \<open>Closing only marks the records of the instance.\<close>

definition marked :: "instance_handle \<Rightarrow> controller_record \<Rightarrow> controller_record \<Rightarrow> bool" where
  "marked inst r r' \<longleftrightarrow> r' = r \<or> ch_instance (cn_handle r) = inst \<and> r' = r\<lparr>cn_input_closed := True\<rparr>"

lemma marked_trans: "marked inst r r' \<Longrightarrow> marked inst r' r'' \<Longrightarrow> marked inst r r''"
  by (auto simp: marked_def)

definition closed_from :: "instance_handle \<Rightarrow> ('x, 'v, 'b) scene_instance \<Rightarrow> ('x, 'v, 'b) scene_instance \<Rightarrow> bool" where
  "closed_from inst si si' \<longleftrightarrow> core si' = core si \<and> si_targets si' = si_targets si \<and> si_free_targets si' = si_free_targets si \<and>
     si_write_owners si' = si_write_owners si \<and> si_command_epoch si' = si_command_epoch si \<and>
     batch_types si' = batch_types si \<and> list_all2 (marked inst) (si_controllers si) (si_controllers si')"

lemma closed_from_refl: "closed_from inst si si"
  by (simp add: closed_from_def marked_def list_all2_refl)

lemma closed_from_trans: "closed_from inst si si' \<Longrightarrow> closed_from inst si' si'' \<Longrightarrow> closed_from inst si si''"
  unfolding closed_from_def by (auto intro: list_all2_trans [OF marked_trans])

lemma close_step_closed: "i < length (si_controllers si) \<Longrightarrow> closed_from inst si (snd (close_step bm inst i (result, si)))"
proof -
  assume i: "i < length (si_controllers si)"
  let ?r = "si_controllers si ! i"
  have same: "closed_from inst si (set_batch b batch si)" for b batch
    by (simp add: closed_from_def marked_def list_all2_refl)
  have "closed_from inst si ((set_batch b batch si)\<lparr>si_controllers := (si_controllers si)[i := ?r\<lparr>cn_input_closed := True\<rparr>]\<rparr>)"
    if "ch_instance (cn_handle ?r) = inst" for b batch
  proof -
    have "list_all2 (marked inst) (si_controllers si) ((si_controllers si)[i := ?r\<lparr>cn_input_closed := True\<rparr>])"
      using that i by (auto simp: marked_def list_all2_conv_all_nth nth_list_update)
    then show ?thesis
      using same [of b batch] by (simp add: closed_from_def core_def batch_types_def)
  qed
  then show ?thesis
    using same by (auto simp: close_step_def Let_def closed_from_refl split: option.split prod.split)
qed

lemma fold_close_closed:
  "set is \<subseteq> {..< length (si_controllers si)} \<Longrightarrow> closed_from inst si (snd (fold (close_step bm inst) is (result, si)))"
proof (induction "is" arbitrary: result si)
  case (Cons i "is")
  obtain r s where c: "close_step bm inst i (result, si) = (r, s)" by fastforce
  have s: "closed_from inst si s" using close_step_closed [of i si inst bm result] Cons.prems c by simp
  then have "length (si_controllers s) = length (si_controllers si)" by (auto simp: closed_from_def dest: list_all2_lengthD)
  then have "closed_from inst s (snd (fold (close_step bm inst) is (r, s)))" using Cons.prems by (intro Cons.IH) auto
  with s c show ?case by (auto intro: closed_from_trans)
qed (simp add: closed_from_refl)

lemma close_controller_input_closed: "closed_from inst si (snd (close_controller_input bm inst si))"
  using fold_close_closed [of "[0..<length (si_controllers si)]" si inst bm cr_success, OF equalityD1 [OF atLeast_upt [symmetric]]]
  by (auto simp: close_controller_input_def closed_from_refl split: prod.split)

lemma closed_from_filter:
  assumes "list_all2 (marked inst) rs rs'"
  shows "filter (\<lambda>r. ch_instance (cn_handle r) \<noteq> inst) rs' = filter (\<lambda>r. ch_instance (cn_handle r) \<noteq> inst) rs"
    and "map cn_targets (filter (\<lambda>r. ch_instance (cn_handle r) = inst) rs') =
      map cn_targets (filter (\<lambda>r. ch_instance (cn_handle r) = inst) rs)"
  using assms by (induction rule: list_all2_induct) (auto simp: marked_def)

definition instance_tokens :: "instance_handle \<Rightarrow> controller_record list \<Rightarrow> target_token list" where
  "instance_tokens inst rs = concat (map cn_targets (filter (\<lambda>r. ch_instance (cn_handle r) = inst) rs))"

lemma fold_destroy:
  assumes "target_pool_ok si"
  shows "\<exists>s. snd (fold (destroy_step bm inst) rs (result, si)) = s \<and> target_pool_ok s \<and> core s = core si \<and>
    live_view s = without (set (instance_tokens inst rs)) (live_view si) \<and> si_controllers s = si_controllers si \<and>
    batch_types s = batch_types si \<and> length (si_write_owners s) = length (si_write_owners si)"
  using assms
proof (induction rs arbitrary: result si)
  case (Cons r rs)
  obtain code s where d: "destroy_step bm inst r (result, si) = (code, s)" by fastforce
  have s: "target_pool_ok s \<and> core s = core si \<and> si_controllers s = si_controllers si \<and> batch_types s = batch_types si \<and>
    live_view s = without (if ch_instance (cn_handle r) = inst then set (cn_targets r) else {}) (live_view si) \<and>
    length (si_write_owners s) = length (si_write_owners si)"
  proof (cases "ch_instance (cn_handle r) = inst")
    case False
    with d Cons.prems show ?thesis by (simp add: destroy_step_def)
  next
    case True
    obtain s0 where s0: "s = fold release_target (cn_targets r) s0" "s0 = si \<or> (\<exists>b batch. s0 = set_batch b batch si)"
      using d True by (auto simp: destroy_step_def split: option.splits prod.splits)
    have same: "target_pool_ok s0" "core s0 = core si" "si_controllers s0 = si_controllers si" "batch_types s0 = batch_types si"
      "live_view s0 = live_view si" "length (si_write_owners s0) = length (si_write_owners si)"
      using s0(2) Cons.prems by (auto simp: target_pool_ok_def targets_ok_def owners_ok_def live_view_def)
    with fold_release_view [OF same(1), of "cn_targets r"] fold_release_fields [of "cn_targets r" s0] True s0(1) show ?thesis
      by (simp add: batch_types_def)
  qed
  then have pool: "target_pool_ok s" by blast
  from Cons.IH [OF pool, of code] s d show ?case
    by (auto simp: instance_tokens_def without_without Un_commute)
qed (simp add: instance_tokens_def)

lemma detach_controllers_spec:
  assumes pool: "target_pool_ok si" and valid: "instance_valid inst" and d: "detach_controllers bm inst si = (code, si')"
  defines "kept \<equiv> filter (\<lambda>r. ch_instance (cn_handle r) \<noteq> inst) (si_controllers si)"
  shows "target_pool_ok si'" "core si' = core si" "si_controllers si' = kept"
    "live_view si' = without (set (instance_tokens inst (si_controllers si))) (live_view si)"
    "batch_types si' = filter (\<lambda>ty. has_controller_type ty kept) (batch_types si)"
    "length (si_write_owners si') = length (si_write_owners si)"
proof -
  obtain r1 s1 where c: "close_controller_input bm inst si = (r1, s1)" by fastforce
  have cl: "closed_from inst si s1" using close_controller_input_closed [of inst si bm] c by simp
  then have pool1: "target_pool_ok s1" and cs: "list_all2 (marked inst) (si_controllers si) (si_controllers s1)"
    using pool by (simp_all add: closed_from_def target_pool_ok_def targets_ok_def owners_ok_def)
  note flt = closed_from_filter [OF cs]
  obtain r2 s2 where f: "fold (destroy_step bm inst) (si_controllers s1) (r1, s1) = (r2, s2)" by fastforce
  from fold_destroy [OF pool1, of bm inst "si_controllers s1" r1] f
  have s2: "target_pool_ok s2" "core s2 = core s1" "live_view s2 = without (set (instance_tokens inst (si_controllers s1))) (live_view s1)"
    "si_controllers s2 = si_controllers s1" "batch_types s2 = batch_types s1" "length (si_write_owners s2) = length (si_write_owners s1)"
    by auto
  have si': "si' = s2\<lparr>si_controllers := kept, si_batches := filter (\<lambda>b. has_controller_type (be_type_id b) kept) (si_batches s2)\<rparr>"
    using d c f valid s2(4) flt(1) by (simp add: detach_controllers_def Let_def kept_def)
  show "target_pool_ok si'" using s2(1) by (simp add: si' target_pool_ok_def targets_ok_def owners_ok_def)
  show "core si' = core si" using s2(2) cl by (simp add: si' core_def closed_from_def)
  show "si_controllers si' = kept" by (simp add: si')
  have "live_view si' = live_view s2" "live_view s1 = live_view si"
    using cl by (simp_all add: si' live_view_def closed_from_def fun_eq_iff)
  then show "live_view si' = without (set (instance_tokens inst (si_controllers si))) (live_view si)"
    using s2(3) flt(2) by (simp add: instance_tokens_def)
  have "batch_types si' = filter (\<lambda>ty. has_controller_type ty kept) (batch_types s2)"
    by (simp add: si' batch_types_def filter_map comp_def)
  then show "batch_types si' = filter (\<lambda>ty. has_controller_type ty kept) (batch_types si)"
    using s2(5) cl by (simp add: closed_from_def)
  show "length (si_write_owners si') = length (si_write_owners si)" using s2(6) cl by (simp add: si' closed_from_def)
qed

subsection \<open>Preparing declarations\<close>

definition prepared_for ::
  "('x, 'v, 'b) scene_instance \<Rightarrow> instance_handle \<Rightarrow> target_reference \<Rightarrow> prepared_target \<Rightarrow> bool" where
  "prepared_for si inst ref p \<longleftrightarrow> pt_reference p = ref \<and> node_succeeds (resolve_reference inst ref si) \<and>
     pt_node p = nr_handle (resolve_reference inst ref si) \<and>
     (\<exists>nb. find_node_binding (si_partitions si) (pt_node p) = Some nb \<and> pt_runtime_node p = rb_node nb)"

lemma find_node_binding_bound:
  assumes "layout_ok si" and "find_node_binding (si_partitions si) h = Some nb"
  shows "rb_node nb < length (si_write_owners si)"
proof -
  obtain at where at: "find_slot (si_partitions si) (nh_slot h) = Some at"
    "find_binding (nh_binding_id h) (rs_nodes (slot_of (si_partitions si) at)) = Some nb"
    using assms(2) by (auto simp: find_node_binding_def split: option.splits if_splits)
  note b = find_slot_bound [OF at(1)]
  from layout_slot(3) [OF assms(1), of at nb] b find_binding_mem [OF at(2)] assms(1) show ?thesis
    by (simp add: layout_ok_def)
qed

text \<open>The pending owners mark the nodes that will be written.\<close>

lemma prepare_target_spec:
  assumes lay: "layout_ok si" and i: "index + 1 < 2 ^ 32"
    and p: "prepare_target si inst index refs ref (pending, prep) = Inr (pending', prep')"
    and len: "length pending = length (si_write_owners si)"
  shows "\<exists>q. prep' = prep @ [q] \<and> prepared_for si inst ref q \<and> pt_runtime_node q < length pending \<and>
    length pending' = length pending \<and>
    (\<forall>n \<in> set (rw_nodes [q]). si_write_owners si ! n = 0 \<and> pending ! n = 0) \<and>
    (\<forall>n < length pending. pending' ! n = 0 \<longleftrightarrow> pending ! n = 0 \<and> n \<notin> set (rw_nodes [q]))"
proof -
  obtain nb where nb: "find_node_binding (si_partitions si) (nr_handle (resolve_reference inst ref si)) = Some nb"
    "node_succeeds (resolve_reference inst ref si)"
    "\<not> (tr_access ref = ta_read_write \<and> (si_write_owners si ! rb_node nb \<noteq> 0 \<or> pending ! rb_node nb \<noteq> 0))"
    "pending' = (if tr_access ref = ta_read_write then pending[rb_node nb := word_of_nat (index + 1)] else pending)"
    "prep' = prep @ [\<lparr>pt_reference = ref, pt_node = nr_handle (resolve_reference inst ref si), pt_runtime_node = rb_node nb\<rparr>]"
    using p by (auto simp: prepare_target_def Let_def split: if_splits option.splits)
  have "rb_node nb < length pending" using find_node_binding_bound [OF lay nb(1)] len by simp
  moreover have "(word_of_nat (index + 1) :: u32) \<noteq> 0" using word_index [OF i] by auto
  ultimately show ?thesis using nb by (auto simp: prepared_for_def nth_list_update)
qed

lemma prepare_targets_spec:
  assumes lay: "layout_ok si" and i: "index + 1 < 2 ^ 32"
    and "prepare_targets si inst index refs rest (pending, prep) = Inr (pending', prep')"
    and "length pending = length (si_write_owners si)"
  shows "\<exists>qs. prep' = prep @ qs \<and> list_all2 (prepared_for si inst) rest qs \<and>
    (\<forall>q \<in> set qs. pt_runtime_node q < length pending) \<and> length pending' = length pending \<and> distinct (rw_nodes qs) \<and>
    (\<forall>n \<in> set (rw_nodes qs). si_write_owners si ! n = 0 \<and> pending ! n = 0) \<and>
    (\<forall>n < length pending. pending' ! n = 0 \<longleftrightarrow> pending ! n = 0 \<and> n \<notin> set (rw_nodes qs))"
  using assms(3,4)
proof (induction rest arbitrary: pending prep)
  case (Cons ref rest)
  obtain p1 t1 where s: "prepare_target si inst index refs ref (pending, prep) = Inr (p1, t1)"
    "prepare_targets si inst index refs rest (p1, t1) = Inr (pending', prep')"
    using Cons.prems(1) by (auto split: sum.splits)
  obtain q where q: "t1 = prep @ [q]" "prepared_for si inst ref q" "pt_runtime_node q < length pending" "length p1 = length pending"
    "\<forall>n \<in> set (rw_nodes [q]). si_write_owners si ! n = 0 \<and> pending ! n = 0"
    "\<forall>n < length pending. p1 ! n = 0 \<longleftrightarrow> pending ! n = 0 \<and> n \<notin> set (rw_nodes [q])"
    using prepare_target_spec [OF lay i s(1) Cons.prems(2)] by blast
  obtain qs where qs: "prep' = t1 @ qs" "list_all2 (prepared_for si inst) rest qs" "\<forall>q \<in> set qs. pt_runtime_node q < length p1"
    "length pending' = length p1" "distinct (rw_nodes qs)" "\<forall>n \<in> set (rw_nodes qs). si_write_owners si ! n = 0 \<and> p1 ! n = 0"
    "\<forall>n < length p1. pending' ! n = 0 \<longleftrightarrow> p1 ! n = 0 \<and> n \<notin> set (rw_nodes qs)"
    using Cons.IH [OF s(2)] q(4) Cons.prems(2) by auto
  have b: "n < length pending" if "n \<in> set (rw_nodes qs)" for n using qs(3) q(4) that by (auto simp: rw_nodes_def)
  have rw: "set (rw_nodes (q # qs)) = set (rw_nodes [q]) \<union> set (rw_nodes qs)" by simp
  show ?case
  proof (intro exI [of _ "q # qs"] conjI)
    show "distinct (rw_nodes (q # qs))" using qs(5,6) q(6) b by (auto split: if_splits)
    show "\<forall>n \<in> set (rw_nodes (q # qs)). si_write_owners si ! n = 0 \<and> pending ! n = 0"
      unfolding rw using q(5,6) qs(6) b by blast
    show "\<forall>n < length pending. pending' ! n = 0 \<longleftrightarrow> pending ! n = 0 \<and> n \<notin> set (rw_nodes (q # qs))"
      unfolding rw using q(4,6) qs(7) by auto
  qed (use q qs in auto)
qed simp

definition prepared_controller_ok ::
  "('x, 'v, 'b) scene_instance \<Rightarrow> instance_handle \<Rightarrow> 'cfg controller_declaration list \<Rightarrow> 'b prepared_controller \<Rightarrow> bool" where
  "prepared_controller_ok si inst ds pc \<longleftrightarrow> \<not> invalid_declaration ds (ds ! pc_declaration pc) \<and>
     list_all2 (prepared_for si inst) (cd_targets (ds ! pc_declaration pc)) (pc_targets pc)"

lemma prepare_controllers_spec:
  assumes lay: "layout_ok si" and i: "\<forall>k \<in> set is. k + 1 < 2 ^ 32"
    and "prepare_controllers si inst resolve_factory ds is (pending, prep) = Inr (pending', prep')"
    and "length pending = length (si_write_owners si)"
  shows "\<exists>pcs. prep' = prep @ pcs \<and> map pc_declaration pcs = is \<and> list_all (prepared_controller_ok si inst ds) pcs \<and>
    (\<forall>q \<in> set (concat (map pc_targets pcs)). pt_runtime_node q < length pending) \<and>
    distinct (rw_nodes (concat (map pc_targets pcs))) \<and>
    (\<forall>n \<in> set (rw_nodes (concat (map pc_targets pcs))). si_write_owners si ! n = 0 \<and> pending ! n = 0)"
  using assms(2-4)
proof (induction "is" arbitrary: pending prep)
  case (Cons k "is")
  obtain p1 t1 where s: "prepare_controller si inst resolve_factory ds k (pending, prep) = Inr (p1, t1)"
    "prepare_controllers si inst resolve_factory ds is (p1, t1) = Inr (pending', prep')"
    using Cons.prems(2) by (auto split: sum.splits)
  obtain factory qs where pc: "\<not> invalid_declaration ds (ds ! k)"
    "prepare_targets si inst k (cd_targets (ds ! k)) (cd_targets (ds ! k)) (pending, []) = Inr (p1, qs)"
    "t1 = prep @ [\<lparr>pc_declaration = k, pc_factory = factory, pc_targets = qs\<rparr>]"
    using s(1) by (auto simp: prepare_controller_def Let_def split: if_splits option.splits sum.splits)
  let ?pc = "\<lparr>pc_declaration = k, pc_factory = factory, pc_targets = qs\<rparr>"
  have "k + 1 < 2 ^ 32" using Cons.prems(1) by simp
  from prepare_targets_spec [OF lay this pc(2) Cons.prems(3)]
  have q: "list_all2 (prepared_for si inst) (cd_targets (ds ! k)) qs" "\<forall>q \<in> set qs. pt_runtime_node q < length pending"
    "length p1 = length pending" "distinct (rw_nodes qs)" "\<forall>n \<in> set (rw_nodes qs). si_write_owners si ! n = 0 \<and> pending ! n = 0"
    "\<forall>n < length pending. p1 ! n = 0 \<longleftrightarrow> pending ! n = 0 \<and> n \<notin> set (rw_nodes qs)"
    by auto
  obtain pcs where ih: "prep' = t1 @ pcs" "map pc_declaration pcs = is" "list_all (prepared_controller_ok si inst ds) pcs"
    "\<forall>q \<in> set (concat (map pc_targets pcs)). pt_runtime_node q < length p1" "distinct (rw_nodes (concat (map pc_targets pcs)))"
    "\<forall>n \<in> set (rw_nodes (concat (map pc_targets pcs))). si_write_owners si ! n = 0 \<and> p1 ! n = 0"
    using Cons.IH [OF _ s(2)] Cons.prems(1,3) q(3) by auto
  let ?rest = "rw_nodes (concat (map pc_targets pcs))"
  have b: "n < length pending" if n: "n \<in> set ?rest" for n
  proof -
    obtain p where "p \<in> set (concat (map pc_targets pcs))" "n = pt_runtime_node p" using rw_nodes_mem [OF n] by blast
    with ih(4) q(3) show ?thesis by auto
  qed
  have rw: "rw_nodes (concat (map pc_targets (?pc # pcs))) = rw_nodes qs @ ?rest" by simp
  show ?case
  proof (intro exI [of _ "?pc # pcs"] conjI)
    show "distinct (rw_nodes (concat (map pc_targets (?pc # pcs))))" unfolding rw using q(4,6) ih(5,6) b by auto
    show "\<forall>n \<in> set (rw_nodes (concat (map pc_targets (?pc # pcs)))). si_write_owners si ! n = 0 \<and> pending ! n = 0"
      unfolding rw using q(5,6) ih(6) b by auto
    show "list_all (prepared_controller_ok si inst ds) (?pc # pcs)" using pc(1) q(1) ih(3) by (simp add: prepared_controller_ok_def)
    show "\<forall>q \<in> set (concat (map pc_targets (?pc # pcs))). pt_runtime_node q < length pending" using q(2,3) ih(4) by auto
  qed (use pc ih in simp_all)
qed simp

subsection \<open>Attaching\<close>

definition batches_ok :: "('x, 'v, 'b) scene_instance \<Rightarrow> bool" where
  "batches_ok si \<longleftrightarrow> distinct (batch_types si) \<and>
     set (batch_types si) = (\<lambda>r. ch_type_id (cn_handle r)) ` set (si_controllers si)"

text \<open>The room the 32-bit indices leave for the targets of the declarations.\<close>

definition attach_room :: "'cfg controller_declaration list \<Rightarrow> ('x, 'v, 'b) scene_instance \<Rightarrow> bool" where
  "attach_room ds si \<longleftrightarrow> length ds < 2 ^ 32 \<and>
     length (si_targets si) + sum_list (map (\<lambda>d. length (cd_targets d)) ds) < 2 ^ 32"

lemma length_sort_declarations [simp]: "length (sort_declarations ds) = length ds"
  by (simp add: sort_declarations_def)

lemma attach_room_sort: "attach_room (sort_declarations ds) si = attach_room ds si"
proof -
  have "mset (map (\<lambda>d. length (cd_targets d)) (sort_declarations ds)) = mset (map (\<lambda>d. length (cd_targets d)) ds)"
    by (simp add: sort_declarations_def)
  then have "sum_list (map (\<lambda>d. length (cd_targets d)) (sort_declarations ds)) = sum_list (map (\<lambda>d. length (cd_targets d)) ds)"
    by (metis sum_mset_sum_list)
  then show ?thesis by (simp add: attach_room_def)
qed

definition attach_ready :: "('x, 'v, 'b) scene_instance \<Rightarrow> bool" where
  "attach_ready si \<longleftrightarrow> layout_ok si \<and> target_pool_ok si \<and> epochs_ok si \<and> si_command_epoch si \<noteq> - 1 \<and> batches_ok si"

lemma core_begin [simp]: "core (begin_commands si) = core si"
  by (simp add: begin_commands_def core_def)

lemma begin_same [simp]:
  "live_view (begin_commands si) = live_view si" "si_controllers (begin_commands si) = si_controllers si"
  "batch_types (begin_commands si) = batch_types si"
  by (simp_all add: begin_commands_def live_view_def batch_types_def fun_eq_iff)

lemma begin_open: "target_pool_ok si \<Longrightarrow> epochs_ok si \<Longrightarrow> si_command_epoch si \<noteq> - 1 \<Longrightarrow> sink_open (begin_commands si)"
  using begin_commands_sim [of si] by (auto simp: sink_open_def sink_sim_refl)

lemma core_end_drop [simp]: "core (end_commands m False si) = core si"
  by (simp add: end_commands_def core_def)

lemma end_same [simp]:
  "live_view (end_commands m ok si) = live_view si" "si_controllers (end_commands m ok si) = si_controllers si"
  "batch_types (end_commands m ok si) = batch_types si" "si_batches (end_commands m ok si) = si_batches si"
proof -
  show "si_controllers (end_commands m ok si) = si_controllers si" "si_batches (end_commands m ok si) = si_batches si"
    by (subst end_commands_same, simp)+
  then show "batch_types (end_commands m ok si) = batch_types si" by (simp add: batch_types_def)
  show "live_view (end_commands m ok si) = live_view si" by (simp add: live_view_def fun_eq_iff)
qed

text \<open>The declarations that passed, with their targets allocatable.\<close>

lemma prepared_allocatable:
  assumes ready: "attach_ready si" and room: "attach_room ds si"
    and p: "prepare_controllers si inst resolve_factory ds [0..<length ds] (replicate (length (si_write_owners si)) 0, []) = Inr (pending, pcs)"
  shows "map pc_declaration pcs = [0..<length ds]" "list_all (prepared_controller_ok si inst ds) pcs"
    "allocatable (concat (map pc_targets pcs)) (begin_commands si)"
proof -
  have lay: "layout_ok si" using ready by (simp add: attach_ready_def)
  have "\<forall>k \<in> set [0..<length ds]. k + 1 < 2 ^ 32 \<or> k + 1 = 2 ^ 32" using room by (auto simp: attach_room_def)
  have i: "\<forall>k \<in> set [0..<length ds]. k + 1 < 2 ^ 32"
    using room by (auto simp: attach_room_def)
  obtain pcs' where s: "pcs = [] @ pcs'" "map pc_declaration pcs' = [0..<length ds]" "list_all (prepared_controller_ok si inst ds) pcs'"
    "\<forall>q \<in> set (concat (map pc_targets pcs')). pt_runtime_node q < length (si_write_owners si)"
    "distinct (rw_nodes (concat (map pc_targets pcs')))"
    "\<forall>n \<in> set (rw_nodes (concat (map pc_targets pcs'))). si_write_owners si ! n = 0"
    using prepare_controllers_spec [OF lay i p] by auto
  then show "map pc_declaration pcs = [0..<length ds]" and ok: "list_all (prepared_controller_ok si inst ds) pcs" by simp_all
  have "length (concat (map pc_targets pcs)) = sum_list (map (\<lambda>pc. length (pc_targets pc)) pcs)"
    by (simp add: length_concat comp_def)
  also have "\<dots> = sum_list (map (\<lambda>pc. length (cd_targets (ds ! pc_declaration pc))) pcs)"
    using ok by (intro arg_cong [of _ _ sum_list] map_cong refl)
      (auto simp: list_all_iff prepared_controller_ok_def dest: list_all2_lengthD [symmetric])
  also have "map (\<lambda>pc. length (cd_targets (ds ! pc_declaration pc))) pcs = map (\<lambda>k. length (cd_targets (ds ! k))) (map pc_declaration pcs)"
    by simp
  also have "\<dots> = map (\<lambda>d. length (cd_targets d)) (map (nth ds) [0..<length ds])"
    using s(1,2) by (simp del: map_nth)
  also have "map (nth ds) [0..<length ds] = ds" by (rule map_nth)
  finally have "length (si_targets si) + length (concat (map pc_targets pcs)) < 2 ^ 32" using room by (simp add: attach_room_def)
  with s show "allocatable (concat (map pc_targets pcs)) (begin_commands si)" by (simp add: allocatable_def)
qed

lemma new_tokens:
  assumes "list_all2 (created_for inst ds) pcs rs"
    and "\<not> owns_controllers inst old"
  shows "instance_tokens inst (old @ rs) = concat (map cn_targets rs)"
    and "filter (\<lambda>r. ch_instance (cn_handle r) \<noteq> inst) (old @ rs) = old"
proof -
  have new: "\<forall>r \<in> set rs. ch_instance (cn_handle r) = inst"
    using assms(1) by (induction rule: list_all2_induct) (auto simp: created_for_def new_controller_def)
  have old: "\<forall>r \<in> set old. ch_instance (cn_handle r) \<noteq> inst" using assms(2) by (auto simp: owns_controllers_def)
  from new have "filter (\<lambda>r. ch_instance (cn_handle r) = inst) rs = rs" "filter (\<lambda>r. ch_instance (cn_handle r) \<noteq> inst) rs = []"
    by (simp_all add: filter_id_conv filter_empty_conv)
  moreover from old have "filter (\<lambda>r. ch_instance (cn_handle r) = inst) old = []" "filter (\<lambda>r. ch_instance (cn_handle r) \<noteq> inst) old = old"
    by (simp_all add: filter_id_conv filter_empty_conv)
  ultimately show "instance_tokens inst (old @ rs) = concat (map cn_targets rs)"
    "filter (\<lambda>r. ch_instance (cn_handle r) \<noteq> inst) (old @ rs) = old"
    by (simp_all add: instance_tokens_def)
qed

lemma attach_failure:
  fixes si si' :: "('x, 'v, 'b) scene_instance"
  assumes ready: "attach_ready si" and room: "attach_room declarations si"
    and a: "attach_controllers m bm inst declarations resolver si = (code, si')" and fail: "code \<noteq> rc_success"
  shows "core si' = core si \<and> si_controllers si' = si_controllers si \<and> live_view si' = live_view si \<and>
    si_write_owners si' = si_write_owners si \<and> batch_types si' = batch_types si \<and> target_pool_ok si'"
proof (cases "si' = si")
  case True
  with ready show ?thesis by (simp add: attach_ready_def)
next
  case False
  let ?ds = "sort_declarations declarations"
  have pool: "target_pool_ok si" using ready by (simp add: attach_ready_def)
  obtain f pending pcs code1 s1 where valid: "instance_valid inst" and free: "\<not> owns_controllers inst (si_controllers si)"
    and p: "prepare_controllers si inst f ?ds [0..<length ?ds] (replicate (length (si_write_owners si)) 0, []) = Inr (pending, pcs)"
    and c: "create_controllers m bm inst ?ds pcs (begin_commands si) = (code1, s1)"
    and d: "code1 = code" "si' = snd (detach_controllers bm inst (end_commands m False s1))"
    using a fail False
    by (auto simp: attach_controllers_def Let_def split: if_splits option.splits sum.splits prod.splits)
  have room': "attach_room ?ds si" using room by (simp add: attach_room_sort)
  note prep = prepared_allocatable [OF ready room' p]
  have open': "sink_open (begin_commands si)" using ready by (intro begin_open) (simp_all add: attach_ready_def)
  obtain pd :: "'b prepared_controller list" and rs extra where s1: "core s1 = core si" "target_pool_ok s1" "length (si_write_owners s1) = length (si_write_owners si)"
    "si_controllers s1 = si_controllers si @ rs" "list_all2 (created_for inst ?ds) pd rs"
    "added (live_view si) (concat (map pc_targets pd)) (concat (map cn_targets rs)) (live_view s1)"
    "batch_types s1 = batch_types si @ extra"
    "set extra \<subseteq> (\<lambda>pc. cd_type_id (?ds ! pc_declaration pc)) ` set pcs - set (batch_types si)"
    using create_controllers_spec [OF open' prep(3) c] unfolding core_begin begin_same begin_commands_fields
    by blast
  note nt = new_tokens [OF s1(5) free]
  obtain r where dt: "detach_controllers bm inst (end_commands m False s1) = (r, si')" using d(2) by (metis prod.collapse)
  note ds = detach_controllers_spec [OF _ valid dt]
  have pool1: "target_pool_ok (end_commands m False s1)" using s1(2) by simp
  have bound: "unat (word_of_nat i :: u32) = i" if "live_view si i = Some q" for i q using pool that by (rule view_bound)
  have view: "live_view si' = live_view si"
    using ds(4) [OF pool1] without_added [OF s1(6) bound] nt(1) s1(4) by simp
  have used: "has_controller_type ty (si_controllers si) \<longleftrightarrow> ty \<in> set (batch_types si)" for ty
    using ready by (auto simp: attach_ready_def batches_ok_def has_controller_type_def)
  have "filter (\<lambda>ty. has_controller_type ty (si_controllers si)) (batch_types si @ extra) = batch_types si"
    unfolding used using s1(8) by (auto simp: filter_id_conv filter_empty_conv)
  then have types: "batch_types si' = batch_types si" using ds(5) [OF pool1] nt(2) s1(4,7) by simp
  have len: "length (si_write_owners si') = length (si_write_owners si)" using ds(6) [OF pool1] s1(3) by simp
  show ?thesis
    using ds(1-3) [OF pool1] nt(2) s1(1,4) view types owners_from_view [OF pool ds(1) [OF pool1] view len] by simp
qed

text \<open>A target reference and the token it was granted.\<close>

definition reference_granted ::
  "('x, 'v, 'b) scene_instance \<Rightarrow> instance_handle \<Rightarrow> ('x, 'v, 'b) scene_instance \<Rightarrow> target_reference \<Rightarrow> target_token \<Rightarrow> bool" where
  "reference_granted si inst si' ref t \<longleftrightarrow>
     (\<exists>nb. find_node_binding (si_partitions si) (nr_handle (resolve_reference inst ref si)) = Some nb \<and>
        live_view si' (unat (tt_index t)) =
          Some (nr_handle (resolve_reference inst ref si), Some (rb_node nb), tr_access ref, tt_generation t, True) \<and>
        (tr_access ref = ta_read_write \<longrightarrow>
           si_write_owners si ! rb_node nb = 0 \<and> si_write_owners si' ! rb_node nb = tt_index t + 1))"

lemma zip_concat_mem:
  assumes "list_all2 (created_for inst ds) pcs rs" and "(pc, r) \<in> set (zip pcs rs)" and "(p, t) \<in> set (zip (pc_targets pc) (cn_targets r))"
  shows "(p, t) \<in> set (zip (concat (map pc_targets pcs)) (concat (map cn_targets rs)))"
  using assms by (induction rule: list_all2_induct) (auto simp: created_for_def)

lemma owner_of_live:
  assumes "target_pool_ok si" and "live_view si (unat (tt_index t)) = Some (h, Some n, ta_read_write, g, b)"
  shows "si_write_owners si ! n = tt_index t + 1"
proof -
  let ?i = "unat (tt_index t)"
  have i: "?i < length (si_targets si)" "writes_node (si_targets si ! ?i) n"
    using assms(2) by (auto simp: live_view_def writes_node_def quiet_def split: if_splits)
  have own: "owners_ok si" using assms(1) by (simp add: target_pool_ok_def)
  have "n < length (si_write_owners si)" using target_node_bound [OF own i(1)] i(2) by (auto simp: writes_node_def)
  from owner_entry [OF own i(1) this] i(2) show ?thesis by (simp add: add.commute)
qed

lemma prepare_fails:
  "prepare_target si inst index refs ref acc \<noteq> Inl rc_success"
  "prepare_targets si inst index refs rest acc \<noteq> Inl rc_success"
  "prepare_controllers si inst f ds is acc' \<noteq> Inl rc_success"
proof -
  show target: "prepare_target si inst index refs ref acc \<noteq> Inl rc_success" for index refs ref acc
    by (cases acc) (auto simp: prepare_target_def Let_def split: option.splits)
  show targets: "prepare_targets si inst index refs rest acc \<noteq> Inl rc_success" for index refs rest acc
    using target by (induction rest arbitrary: acc) (auto split: sum.split)
  have controller: "prepare_controller si inst f ds k acc' \<noteq> Inl rc_success" for k acc'
    using targets by (cases acc') (auto simp: prepare_controller_def Let_def split: option.splits sum.splits)
  show "prepare_controllers si inst f ds is acc' \<noteq> Inl rc_success"
    using controller by (induction "is" arbitrary: acc') (auto split: sum.split)
qed

text \<open>How a successful attachment went: its preparation, the creation, and the order of the batches.\<close>

lemma attach_shape:
  fixes si si' :: "('x, 'v, 'b) scene_instance"
  assumes some: "declarations \<noteq> []"
    and a: "attach_controllers m bm inst declarations resolver si = (rc_success, si')"
  obtains f pending pcs s1 where
    "prepare_controllers si inst f (sort_declarations declarations) [0..<length (sort_declarations declarations)]
       (replicate (length (si_write_owners si)) 0, []) = Inr (pending, pcs)"
    "create_controllers m bm inst (sort_declarations declarations) pcs (begin_commands si) = (rc_success, s1)"
    "si' = (end_commands m True s1)\<lparr>si_batches := sort_key be_type_id (si_batches (end_commands m True s1))\<rparr>"
  using assms
  by (auto simp: attach_controllers_def Let_def prepare_fails split: if_splits option.splits sum.splits prod.splits)

lemma attach_success:
  fixes si si' :: "('x, 'v, 'b) scene_instance"
  assumes ready: "attach_ready si" and room: "attach_room declarations si" and some: "declarations \<noteq> []"
    and a: "attach_controllers m bm inst declarations resolver si = (rc_success, si')"
  shows "\<exists>rs. si_controllers si' = si_controllers si @ rs \<and>
    list_all2 (\<lambda>d r. new_controller inst d r \<and> list_all2 (reference_granted si inst si') (cd_targets d) (cn_targets r))
      (sort_declarations declarations) rs \<and>
    live_view si \<subseteq>\<^sub>m live_view si' \<and> target_pool_ok si' \<and> batches_ok si'"
proof -
  let ?ds = "sort_declarations declarations"
  have pool: "target_pool_ok si" using ready by (simp add: attach_ready_def)
  obtain f pending pcs s1
    where p: "prepare_controllers si inst f ?ds [0..<length ?ds] (replicate (length (si_write_owners si)) 0, []) = Inr (pending, pcs)"
      and c: "create_controllers m bm inst ?ds pcs (begin_commands si) = (rc_success, s1)"
      and si': "si' = (end_commands m True s1)\<lparr>si_batches := sort_key be_type_id (si_batches (end_commands m True s1))\<rparr>"
    using attach_shape [OF some a] by blast
  have room': "attach_room ?ds si" using room by (simp add: attach_room_sort)
  note prep = prepared_allocatable [OF ready room' p]
  have open': "sink_open (begin_commands si)" using ready by (intro begin_open) (simp_all add: attach_ready_def)
  obtain pd rs extra where s1: "target_pool_ok s1" "pd = pcs" "\<forall>pc \<in> set pcs. cd_type_id (?ds ! pc_declaration pc) \<in> set (batch_types s1)"
    "si_controllers s1 = si_controllers si @ rs" "list_all2 (created_for inst ?ds) pd rs"
    "added (live_view si) (concat (map pc_targets pd)) (concat (map cn_targets rs)) (live_view s1)"
    "batch_types s1 = batch_types si @ extra" "distinct extra"
    "set extra \<subseteq> (\<lambda>pc. cd_type_id (?ds ! pc_declaration pc)) ` set pcs - set (batch_types si)"
    using create_controllers_spec [OF open' prep(3) c] unfolding core_begin begin_same begin_commands_fields by blast
  have cr: "list_all2 (created_for inst ?ds) pcs rs"
    and ad: "added (live_view si) (concat (map pc_targets pcs)) (concat (map cn_targets rs)) (live_view s1)"
    using s1(2,5,6) by simp_all
  have same: "live_view si' = live_view s1" "si_controllers si' = si_controllers si @ rs" "si_write_owners si' = si_write_owners s1"
    "mset (batch_types si') = mset (batch_types s1)"
    using s1(4) end_same(3) [of m True s1] by (simp_all add: si' live_view_def fun_eq_iff batch_types_def)
  have pool': "target_pool_ok si'" using s1(1) by (simp add: si' target_pool_ok_def targets_ok_def owners_ok_def)
  have lens: "length pcs = length ?ds" using prep(1) by (metis length_map length_upt minus_nat.diff_0)
  have decl: "pc_declaration (pcs ! k) = k" if "k < length ?ds" for k
    using prep(1) that lens by (metis add_0 nth_map nth_upt)
  have granted: "list_all2 (reference_granted si inst si') (cd_targets (?ds ! k)) (cn_targets (rs ! k))" if k: "k < length ?ds" for k
  proof -
    have pc: "prepared_controller_ok si inst ?ds (pcs ! k)" using prep(2) k lens by (simp add: list_all_length)
    then have l: "list_all2 (prepared_for si inst) (cd_targets (?ds ! k)) (pc_targets (pcs ! k))"
      using decl [OF k] by (simp add: prepared_controller_ok_def)
    have r: "created_for inst ?ds (pcs ! k) (rs ! k)" using list_all2_nthD [OF cr] k lens by simp
    have len: "length (cn_targets (rs ! k)) = length (pc_targets (pcs ! k))" using r by (simp add: created_for_def)
    have lrs: "length rs = length pcs" using cr by (simp add: list_all2_lengthD)
    have "(pcs ! k, rs ! k) \<in> set (zip pcs rs)" using k lens lrs by (auto simp: in_set_zip)
    note mem = zip_concat_mem [OF cr this]
    have "reference_granted si inst si' (cd_targets (?ds ! k) ! j) (cn_targets (rs ! k) ! j)"
      if j: "j < length (cd_targets (?ds ! k))" for j
    proof -
      let ?p = "pc_targets (pcs ! k) ! j" and ?t = "cn_targets (rs ! k) ! j" and ?ref = "cd_targets (?ds ! k) ! j"
      have lj: "length (pc_targets (pcs ! k)) = length (cd_targets (?ds ! k))" using l by (simp add: list_all2_lengthD)
      have "(?p, ?t) \<in> set (zip (pc_targets (pcs ! k)) (cn_targets (rs ! k)))" using j lj len by (auto simp: in_set_zip)
      then have view: "live_view si' (unat (tt_index ?t)) = Some (view_of ?p ?t)" using added_new [OF ad mem] same(1) by simp
      have pf: "prepared_for si inst ?ref ?p" using list_all2_nthD [OF l j] .
      then obtain nb where nb: "find_node_binding (si_partitions si) (nr_handle (resolve_reference inst ?ref si)) = Some nb"
        "pt_runtime_node ?p = rb_node nb" by (auto simp: prepared_for_def)
      have v: "live_view si' (unat (tt_index ?t)) =
          Some (nr_handle (resolve_reference inst ?ref si), Some (rb_node nb), tr_access ?ref, tt_generation ?t, True)"
        using view pf nb by (simp add: view_of_def prepared_for_def)
      have "si_write_owners si ! rb_node nb = 0" if "tr_access ?ref = ta_read_write"
      proof -
        have "?p \<in> set (concat (map pc_targets pcs))" using j lj k lens by (auto intro!: bexI [of _ "pcs ! k"])
        then have "rb_node nb \<in> set (rw_nodes (concat (map pc_targets pcs)))"
          using that pf nb(2) by (force simp: rw_nodes_def prepared_for_def)
        with prep(3) show ?thesis by (simp add: allocatable_def)
      qed
      with nb v owner_of_live [OF pool'] show ?thesis by (auto simp: reference_granted_def)
    qed
    then show ?thesis using l len by (simp add: list_all2_conv_all_nth)
  qed
  have lrs: "length rs = length ?ds" using cr lens by (simp add: list_all2_lengthD)
  have new: "new_controller inst (?ds ! k) (rs ! k)" if "k < length ?ds" for k
    using list_all2_nthD [OF cr, of k] that lens decl [OF that] by (simp add: created_for_def)
  have types: "set (batch_types si') = (\<lambda>r. ch_type_id (cn_handle r)) ` set (si_controllers si')"
  proof -
    have "(\<lambda>r. ch_type_id (cn_handle r)) ` set rs = (\<lambda>pc. cd_type_id (?ds ! pc_declaration pc)) ` set pcs"
    proof -
      have "map (\<lambda>r. ch_type_id (cn_handle r)) rs = map (\<lambda>pc. cd_type_id (?ds ! pc_declaration pc)) pcs"
        using lrs lens new decl by (intro nth_equalityI) (simp_all add: new_controller_def)
      then show ?thesis by (metis list.set_map)
    qed
    moreover have "set (batch_types si') = set (batch_types s1)" using same(4) by (metis set_mset_mset)
    ultimately show ?thesis
      using s1(3,7,9) ready same(2) by (auto simp: attach_ready_def batches_ok_def image_Un)
  qed
  have "distinct (batch_types s1)" using s1(7-9) ready by (auto simp: attach_ready_def batches_ok_def)
  then have "distinct (batch_types si')" using same(4) by (metis mset_eq_imp_distinct_iff)
  then have "batches_ok si'" using types by (simp add: batches_ok_def)
  moreover have "live_view si \<subseteq>\<^sub>m live_view si'"
    unfolding map_le_def using added_keeps [OF ad] same(1) by (metis domD)
  moreover have "list_all2 (\<lambda>d r. new_controller inst d r \<and> list_all2 (reference_granted si inst si') (cd_targets d) (cn_targets r)) ?ds rs"
    using lrs new granted by (simp add: list_all2_conv_all_nth)
  ultimately show ?thesis using same(2) pool' by blast
qed

subsection \<open>The properties\<close>

lemma end_commands_set_batch:
  "si_state (end_commands m ok (set_batch b batch s)) = si_state (end_commands m ok s)"
  "si_motion (end_commands m ok (set_batch b batch s)) = si_motion (end_commands m ok s)"
  by (auto simp: end_commands_def set_batch_def Let_def split: prod.split)

lemma live_from_view: "live_view si' = live_view si \<Longrightarrow> target_live si' t = target_live si t"
  by (simp only: target_live_view)

lemma live_without:
  assumes "target_pool_ok si" and "live_view si' = without S (live_view si)"
  shows "target_live si' t \<longleftrightarrow> target_live si t \<and> t \<notin> S"
proof -
  have "token_at (unat (tt_index t)) q = t" if "lt_generation q = tt_generation t" for q
    using that by (simp add: token_at_def)
  then show ?thesis by (auto simp: target_live_view assms(2) without_def split: option.splits if_splits)
qed

text \<open>C19. Attaching is all or nothing: a failed attach, whichever declaration, factory or controller made it
  fail, leaves the transforms, the motion, the controllers, the write owners, the live targets and the set of
  batches as they were. Only the states of batches that were called, the generations of the targets it
  used and the command epoch have moved on.\<close>

theorem failed_attach_changes_nothing:
  assumes "attach_ready si" and "attach_room declarations si"
    and "attach_controllers m bm inst declarations resolver si = (code, si')" and "code \<noteq> rc_success"
  shows "si_state si' = si_state si \<and> si_motion si' = si_motion si \<and> si_partitions si' = si_partitions si \<and>
    si_controllers si' = si_controllers si \<and> si_write_owners si' = si_write_owners si \<and>
    map be_type_id (si_batches si') = map be_type_id (si_batches si) \<and>
    (\<forall>t. target_live si' t = target_live si t) \<and> target_pool_ok si'"
  using attach_failure [OF assms] core_fields [of si' si] live_from_view [of si' si] by (simp add: batch_types_def)

text \<open>C20. A successful attach adds one controller per declaration, in execution order, each with one live target
  per reference of its declaration: the target is the node the reference resolves to, with the access asked for,
  and a written node was owned by nobody before and is owned by that target now. Targets that were live stay live,
  no node has two writers, and every type in use has exactly one batch.\<close>

theorem attached_controllers_are_granted:
  assumes "attach_ready si" and "attach_room declarations si" and "declarations \<noteq> []"
    and "attach_controllers m bm inst declarations resolver si = (rc_success, si')"
  shows "\<exists>rs. si_controllers si' = si_controllers si @ rs \<and>
    list_all2 (\<lambda>d r. new_controller inst d r \<and> list_all2 (reference_granted si inst si') (cd_targets d) (cn_targets r))
      (sort_declarations declarations) rs \<and>
    (\<forall>t. target_live si t \<longrightarrow> target_live si' t) \<and> target_pool_ok si' \<and> batches_ok si'"
proof -
  have "target_live si t \<longrightarrow> target_live si' t" if "live_view si \<subseteq>\<^sub>m live_view si'" for t
    using that by (auto simp: target_live_view map_le_def dom_def)
  with attach_success [OF assms] show ?thesis by blast
qed

text \<open>C21. Detaching removes exactly the controllers of the instance and frees exactly their targets, whatever the
  batches answer: every other token stays live, no transform and no motion changes, and the batches that are
  left are those still in use.\<close>

theorem detach_frees_its_targets:
  assumes "target_pool_ok si" and "instance_valid inst" and "detach_controllers bm inst si = (code, si')"
  shows "si_controllers si' = filter (\<lambda>r. ch_instance (cn_handle r) \<noteq> inst) (si_controllers si) \<and>
    (\<forall>t. target_live si' t \<longleftrightarrow> target_live si t \<and> t \<notin> set (instance_tokens inst (si_controllers si))) \<and>
    target_pool_ok si' \<and> si_state si' = si_state si \<and> si_motion si' = si_motion si \<and>
    map be_type_id (si_batches si') =
      filter (\<lambda>ty. has_controller_type ty (si_controllers si')) (map be_type_id (si_batches si))"
  using detach_controllers_spec [OF assms] live_without [OF assms(1) detach_controllers_spec(4) [OF assms]] core_fields [of si' si]
  by (simp add: batch_types_def)

text \<open>C22. Submitted input is a transaction. The batch of the controller answers with the sink of a write buffer;
  if it succeeds, every node gets the last value written by the target that owns it and the rest stays, and
  if it fails, or the handle is stale, no transform and no motion changes.\<close>

theorem submitted_input_is_a_transaction:
  assumes "target_pool_ok si" and "epochs_ok si" and "si_command_epoch si \<noteq> - 1" and "closable si"
    and "unat (m_revision (si_state si)) + length (si_targets si) < 2 ^ 64"
    and "submit_controller_input m bm controller inp si = (code, si')"
  shows "(code \<noteq> cr_success \<longrightarrow> si_state si' = si_state si \<and> si_motion si' = si_motion si) \<and>
    (\<forall>found b result batch buf. find (\<lambda>r. cn_handle r = controller) (si_controllers si) = Some found \<and>
       find_batch (ch_type_id controller) (si_batches si) = Some b \<and>
       run_buffer m (grant_of si) (scene_local si) (bm_submit_input bm (be_batch (si_batches si ! b)) (cn_batch_state found) inp)
         empty_buffer = ((result, batch), buf) \<longrightarrow>
       code = result \<and> (result = cr_success \<longrightarrow> (\<forall>n < length (m_records (si_state si)).
         local_of (si_state si') n = (case written si (wb_local buf) n of None \<Rightarrow> local_of (si_state si) n | Some x \<Rightarrow> x) \<and>
         motion_of (si_motion si') n = (case written si (wb_motion buf) n of
           None \<Rightarrow> motion_of (si_motion si) n | Some v \<Rightarrow> wanted (policy_is_stationary m) v))))"
proof -
  let ?b = "\<lambda>f b. bm_submit_input bm (be_batch (si_batches si ! b)) (cn_batch_state f) inp"
  show ?thesis
  proof (cases "\<exists>found b. find (\<lambda>r. cn_handle r = controller) (si_controllers si) = Some found \<and>
      find_batch (ch_type_id controller) (si_batches si) = Some b")
    case False
    then have "code = cr_stale_handle \<and> si' = si"
      using assms(6) by (auto simp: submit_controller_input_def split: option.splits)
    with False show ?thesis by auto
  next
    case True
    then obtain f b where fb: "find (\<lambda>r. cn_handle r = controller) (si_controllers si) = Some f"
      "find_batch (ch_type_id controller) (si_batches si) = Some b" by blast
    obtain r ba s1 where run: "run_sink m (next_generation (si_command_epoch si)) (?b f b) (begin_commands si) = ((r, ba), s1)"
      by (metis prod.exhaust)
    obtain x buf where spec: "run_buffer m (grant_of si) (scene_local si) (?b f b) empty_buffer = (x, buf)" by fastforce
    note t = sinks_are_buffered_transactions [OF assms(1-5) run spec]
    have "si_batches (begin_commands si) = si_batches si" by (simp add: begin_commands_def)
    then have "code = r" "si' = end_commands m (r = cr_success) (set_batch b ba s1)"
      using assms(6) fb run by (auto simp: submit_controller_input_def Let_def)
    then have "code = r" "si_state si' = si_state (end_commands m (r = cr_success) s1)"
      "si_motion si' = si_motion (end_commands m (r = cr_success) s1)" by (simp_all only: end_commands_set_batch)
    with t have "code \<noteq> cr_success \<longrightarrow> si_state si' = si_state si \<and> si_motion si' = si_motion si"
      and "r = cr_success \<Longrightarrow> \<forall>n < length (m_records (si_state si)).
        local_of (si_state si') n = (case written si (wb_local buf) n of None \<Rightarrow> local_of (si_state si) n | Some x \<Rightarrow> x) \<and>
        motion_of (si_motion si') n = (case written si (wb_motion buf) n of
           None \<Rightarrow> motion_of (si_motion si) n | Some v \<Rightarrow> wanted (policy_is_stationary m) v)"
      and "x = (r, ba)" by (simp_all (no_asm_simp))
    with fb spec \<open>code = r\<close> show ?thesis by fastforce
  qed
qed

subsection \<open>A host with one kind of batch\<close>

text \<open>Its controllers write their first target when they are created; one name fails to construct.\<close>

definition demo_methods :: "(int, int, unit, int, unit) batch_methods" where
  "demo_methods =
     \<lparr>bm_create_controller = (\<lambda>_ _ declaration _ targets.
        if declaration = ''bad''
        then Finish (\<lparr>cc_code = cr_construction_failed, cc_state = \<lparr>st_index = 0, st_generation = 0\<rparr>\<rparr>, ())
        else Set_local_transform (rt_token (hd targets)) 77
          (\<lambda>_. Finish (\<lparr>cc_code = cr_success, cc_state = \<lparr>st_index = 1, st_generation = 1\<rparr>\<rparr>, ()))),
      bm_close_input = (\<lambda>_ _. (cr_success, ())), bm_destroy_controller = (\<lambda>_ _. (cr_success, ())),
      bm_submit_input = (\<lambda>_ _ inp. Set_local_transform demo_token inp (\<lambda>code. Finish (code, ()))),
      bm_has_running_controllers = (\<lambda>_. False), bm_fixed_step_batch = (\<lambda>b _. Finish b)\<rparr>"

definition demo_factory :: "type_id \<Rightarrow> unit controller_factory option" where
  "demo_factory ty = Some \<lparr>cf_type_id = ty, cf_create_batch = Some ()\<rparr>"

definition demo_declaration :: "name \<Rightarrow> name \<Rightarrow> unit controller_declaration" where
  "demo_declaration declaration binding =
     \<lparr>cd_declaration_id = declaration, cd_type_id = 5, cd_execution_order = 0, cd_provider_binding_id = ''p'',
      cd_configuration = Some (),
      cd_targets = [\<lparr>tr_slot = ''s'', tr_prefab_entity = None, tr_binding_id = binding, tr_access = ta_read_write\<rparr>]\<rparr>"

definition demo_instance :: instance_handle where
  "demo_instance = \<lparr>ih_slot = demo_slot, ih_spawner_generation = 1\<rparr>"

lemma demo_reserved_fields:
  "si_targets demo_reserved = []" "si_free_targets demo_reserved = []" "si_write_owners demo_reserved = [0, 0, 0, 0]"
  "si_command_epoch demo_reserved = 1" "si_batches demo_reserved = []" "si_controllers demo_reserved = []"
  by code_simp+

lemma demo_attach_ready: "attach_ready demo_reserved" and demo_attach_room:
  "attach_room [demo_declaration a b] demo_reserved" "attach_room [demo_declaration a b, demo_declaration c d] demo_reserved"
  by (simp_all add: attach_ready_def attach_room_def demo_layout target_pool_ok_def targets_ok_def owners_ok_def epochs_ok_def
      batches_ok_def batch_types_def demo_reserved_fields demo_declaration_def nth_Cons split: nat.split)

theorem failed_attach_changes_nothing_witness:
  "si_write_owners (snd (attach_controllers int_math demo_methods demo_instance
     [demo_declaration ''a'' ''a'', demo_declaration ''bad'' ''b''] (Some demo_factory) demo_reserved)) = [0, 0, 0, 0]"
proof -
  have "fst (attach_controllers int_math demo_methods demo_instance
     [demo_declaration ''a'' ''a'', demo_declaration ''bad'' ''b''] (Some demo_factory) demo_reserved) = rc_controller_construction_failed"
    by code_simp
  then show ?thesis
    using failed_attach_changes_nothing [OF demo_attach_ready demo_attach_room(2) [of "''a''" "''a''" "''bad''" "''b''"]
        prod.collapse [symmetric], of int_math demo_methods demo_instance "Some demo_factory"]
    by (simp add: demo_reserved_fields)
qed

definition demo_attached :: "(int, int, unit) scene_instance" where
  "demo_attached = snd (attach_controllers int_math demo_methods demo_instance [demo_declaration ''a'' ''b''] (Some demo_factory) demo_reserved)"

lemma demo_attached: "attach_controllers int_math demo_methods demo_instance [demo_declaration ''a'' ''b''] (Some demo_factory) demo_reserved =
    (rc_success, demo_attached)"
proof -
  have "fst (attach_controllers int_math demo_methods demo_instance [demo_declaration ''a'' ''b''] (Some demo_factory) demo_reserved) = rc_success"
    by code_simp
  then show ?thesis by (simp add: demo_attached_def prod_eq_iff)
qed

theorem attached_controllers_are_granted_witness:
  "length (si_controllers demo_attached) = 1 \<and> target_pool_ok demo_attached \<and> batches_ok demo_attached"
proof -
  have "length (sort_declarations [demo_declaration ''a'' ''b'']) = 1" by simp
  with attached_controllers_are_granted [OF demo_attach_ready demo_attach_room(1) _ demo_attached] show ?thesis
    by (auto simp: demo_reserved_fields dest: list_all2_lengthD)
qed


definition demo_handle :: controller_handle where
  "demo_handle = \<lparr>ch_instance = demo_instance, ch_type_id = 5, ch_state = \<lparr>st_index = 1, st_generation = 1\<rparr>\<rparr>"

lemma demo_instance_valid: "instance_valid demo_instance" by code_simp

lemma demo_attached_pool: "target_pool_ok demo_attached"
  using attach_success [OF demo_attach_ready demo_attach_room(1) _ demo_attached] by blast

theorem detach_frees_its_targets_witness:
  "\<not> target_live (snd (detach_controllers demo_methods demo_instance demo_attached)) demo_token \<and>
   si_controllers (snd (detach_controllers demo_methods demo_instance demo_attached)) = []"
proof -
  have "demo_token \<in> set (instance_tokens demo_instance (si_controllers demo_attached))"
    "filter (\<lambda>r. ch_instance (cn_handle r) \<noteq> demo_instance) (si_controllers demo_attached) = []" by code_simp+
  then show ?thesis
    using detach_frees_its_targets [OF demo_attached_pool demo_instance_valid prod.collapse [symmetric], of demo_methods] by simp
qed

theorem submitted_input_is_a_transaction_witness:
  "local_of (si_state (snd (submit_controller_input int_math demo_methods demo_handle 9 demo_attached))) 1 = 9"
proof -
  let ?s = demo_attached
  have f: "find (\<lambda>r. cn_handle r = demo_handle) (si_controllers ?s) = Some (hd (si_controllers ?s))"
    "find_batch (ch_type_id demo_handle) (si_batches ?s) = Some 0" "si_command_epoch ?s = 2"
    "length (m_records (si_state ?s)) = 4" "m_revision (si_state ?s) = 1" "length (si_targets ?s) = 1" by code_simp+
  have e: "epochs_ok ?s" unfolding epochs_ok_def by code_simp
  have cl: "closable ?s"
    unfolding closable_def
  proof (intro conjI)
    have "am_records (si_motion ?s) = []" by code_simp
    then show "motion_set_ok (si_motion ?s)" by (simp add: motion_set_ok_def)
  qed code_simp+
  let ?p = "bm_submit_input demo_methods (be_batch (si_batches ?s ! 0)) (cn_batch_state (hd (si_controllers ?s))) 9"
  obtain r ba buf where b: "run_buffer int_math (grant_of ?s) (scene_local ?s) ?p empty_buffer = ((r, ba), buf)" by (metis prod.exhaust)
  have "fst (fst (run_buffer int_math (grant_of ?s) (scene_local ?s) ?p empty_buffer)) = cr_success"
    "written ?s (wb_local (snd (run_buffer int_math (grant_of ?s) (scene_local ?s) ?p empty_buffer))) 1 = Some 9" by code_simp+
  then have w: "r = cr_success" "written ?s (wb_local buf) 1 = Some 9" using b by simp_all
  have h: "si_command_epoch ?s \<noteq> - 1" "unat (m_revision (si_state ?s)) + length (si_targets ?s) < 2 ^ 64" by (simp_all add: f)
  have "(1 :: nat) < length (m_records (si_state ?s))" by (simp add: f)
  with submitted_input_is_a_transaction [OF demo_attached_pool e h(1) cl h(2) prod.collapse [symmetric],
      of int_math demo_methods demo_handle 9] f(1,2) b w show ?thesis
    by fastforce
qed

end
