(* ===== verification/Scene_Advance.thy ===== *)
theory Scene_Advance
  imports Scene_Attach
begin

section \<open>Fixed steps and synchronisation of a scene\<close>

text \<open>
  The frame operations of \<open>SceneInstance.cpp\<close>. A frame adds its time to an accumulator, runs as many
  fixed steps as fit, and writes the worlds of the changed nodes to the entities bound to them. The
  writer is the host's: the calls made to it are a list of entities and transforms, in order.
  A count of nanoseconds is an integer.
\<close>

subsection \<open>The batch of evaluated nodes\<close>

definition queue_node :: "node_handle \<Rightarrow> ('x, 'v, 'b) scene_instance \<Rightarrow> ('x, 'v, 'b) scene_instance" where
  "queue_node node si =
     (if si_evaluated_stamp si ! node \<noteq> si_evaluated_epoch si
      then si\<lparr>si_evaluated_stamp := (si_evaluated_stamp si)[node := si_evaluated_epoch si],
              si_evaluated_changes := si_evaluated_changes si @ [node]\<rparr>
      else si)"

definition queue_evaluated :: "node_handle list \<Rightarrow> ('x, 'v, 'b) scene_instance \<Rightarrow> ('x, 'v, 'b) scene_instance" where
  "queue_evaluated changed si = fold queue_node changed si"

definition reset_evaluated_batch :: "('x, 'v, 'b) scene_instance \<Rightarrow> ('x, 'v, 'b) scene_instance" where
  "reset_evaluated_batch si =
     (let si = si\<lparr>si_evaluated_changes := [], si_evaluated_epoch := si_evaluated_epoch si + 1\<rparr>;
          si = (if si_evaluated_epoch si = 0
                then si\<lparr>si_evaluated_stamp := replicate (length (si_evaluated_stamp si)) 0,
                        si_evaluated_epoch := si_evaluated_epoch si + 1\<rparr>
                else si)
      in si\<lparr>si_direct_batch_valid := True\<rparr>)"

definition evaluate_dirty ::
  "('x, 'v, 'q, 'f) az_math \<Rightarrow> ('x, 'v, 'b) scene_instance \<Rightarrow> ('x, 'v, 'b) scene_instance" where
  "evaluate_dirty m si =
     (case make_transform_evaluation_plan (si_topology si) (si_state si) (si_transform_workspace si) of
        (Inl _, tws) \<Rightarrow> si\<lparr>si_transform_workspace := tws, si_direct_batch_valid := False\<rparr>
      | (Inr plan, tws) \<Rightarrow>
          (case evaluate_transforms (si_topology si) (policy_compose m) (si_state si) plan (Some tws) of
             (result, st) \<Rightarrow>
               (let si = si\<lparr>si_transform_workspace := tws, si_state := st\<rparr>
                in if res_error result = te_none then queue_evaluated (res_changed_nodes result) si
                   else si\<lparr>si_direct_batch_valid := False\<rparr>)))"

subsection \<open>Synchronisation\<close>

definition synchronize ::
  "('x, 'v, 'q, 'f) az_math \<Rightarrow> ('x, 'v, 'b) scene_instance \<Rightarrow>
   (entity_id \<times> 'x) list \<times> ('x, 'v, 'b) scene_instance" where
  "synchronize m si =
     (let changed = (if si_direct_batch_valid si
                     then sort_key (\<lambda>n. si_topological_rank si ! n) (si_evaluated_changes si)
                     else changed_transform_nodes_since (si_topology si) (si_state si) (si_last_synchronized_revision si));
          targets = filter (\<lambda>n. et_entity (si_entity_bindings si ! n) \<noteq> None) changed;
          writes = map (\<lambda>n. (et_entity (si_entity_bindings si ! n),
                             az_mul m (world_of (si_state si) n) (et_node_to_target (si_entity_bindings si ! n)))) targets
      in (writes,
          reset_evaluated_batch
            (si\<lparr>si_last_synchronized_count := si_last_synchronized_count si + word_of_nat (length targets),
                si_last_synchronized_revision := m_revision (si_state si)\<rparr>)))"

subsection \<open>The frame\<close>

definition advance_step ::
  "('x, 'v, 'q, 'f) az_math \<Rightarrow> ('x, 'v, 'cfg, 'inp, 'b) batch_methods \<Rightarrow>
   ('x, 'v, 'b) scene_instance \<Rightarrow> ('x, 'v, 'b) scene_instance" where
  "advance_step m bm si =
     (let step = next_step (si_sequence si);
          si = (if has_running_controllers bm si then run_controllers m bm step si else si)
      in case advance_motion_scene (si_topology si) (policy_integrate m) (policy_compose m) (si_state si)
                (si_motion si) (si_sequence si) (si_motion_workspace si) (si_transform_workspace si) of
           (result, st, seq, mws, tws) \<Rightarrow>
             (let si = si\<lparr>si_state := st, si_sequence := seq, si_motion_workspace := mws,
                          si_transform_workspace := tws\<rparr>
              in if mr_error result = me_none then queue_evaluated (mr_changed_nodes result) si
                 else si\<lparr>si_direct_batch_valid := False\<rparr>))"

definition frame_time :: "int \<Rightarrow> ('x, 'v, 'b) scene_instance \<Rightarrow> int" where
  "frame_time frame_delta si =
     (let maximum_backlog = fs_delta (si_sequence si) * uint (si_max_catch_up si);
          time = si_accumulator si + max frame_delta 0
      in if time > maximum_backlog then maximum_backlog else time)"

definition step_count :: "int \<Rightarrow> ('x, 'v, 'b) scene_instance \<Rightarrow> nat" where
  "step_count frame_delta si =
     min (nat (frame_time frame_delta si div fs_delta (si_sequence si))) (unat (si_max_catch_up si))"

definition advance ::
  "('x, 'v, 'q, 'f) az_math \<Rightarrow> ('x, 'v, 'cfg, 'inp, 'b) batch_methods \<Rightarrow> int \<Rightarrow>
   ('x, 'v, 'b) scene_instance \<Rightarrow> (entity_id \<times> 'x) list \<times> ('x, 'v, 'b) scene_instance" where
  "advance m bm frame_delta si =
     (let si = si\<lparr>si_last_synchronized_count := 0\<rparr>
      in if \<not> si_active si then ([], si)
         else
           let fixed_step = fs_delta (si_sequence si);
               count = step_count frame_delta si;
               si = si\<lparr>si_accumulator := frame_time frame_delta si\<rparr>;
               si = (advance_step m bm ^^ count) si;
               si = si\<lparr>si_accumulator := si_accumulator si - fixed_step * int count\<rparr>;
               si = (if count = 0 \<and> has_dirty_transforms (si_state si) then evaluate_dirty m si else si)
           in synchronize m si)"

definition needs_tick ::
  "('x, 'v, 'cfg, 'inp, 'b) batch_methods \<Rightarrow> ('x, 'v, 'b) scene_instance \<Rightarrow> bool" where
  "needs_tick bm si \<longleftrightarrow>
     si_active si \<and>
     (has_running_controllers bm si \<or> am_records (si_motion si) \<noteq> [] \<or> has_dirty_transforms (si_state si))"

subsection \<open>Corrections from outside\<close>

definition correct_world ::
  "('x, 'v, 'q, 'f) az_math \<Rightarrow> scene_node_handle \<Rightarrow> 'x \<Rightarrow> ('x, 'v, 'b) scene_instance \<Rightarrow>
   bool \<times> ('x, 'v, 'b) scene_instance" where
  "correct_world m node world si =
     (case find_node_binding (si_partitions si) node of
        None \<Rightarrow> (False, si)
      | Some binding \<Rightarrow>
          (let si = (if has_dirty_transforms (si_state si) then evaluate_dirty m si else si);
               loc = (case parent (si_topology si) (rb_node binding) of
                        None \<Rightarrow> world
                      | Some p \<Rightarrow> az_mul m (az_inverse m (world_of (si_state si) p)) world)
           in case set_local (rb_node binding) loc (si_state si) of
                (error, st) \<Rightarrow> (error = te_none, si\<lparr>si_state := st\<rparr>)))"

subsection \<open>Statistics\<close>

record scene_statistics =
  ss_node_count :: u32
  ss_active_motion_count :: u32
  ss_last_synchronized_node_count :: u32
  ss_completed_fixed_steps :: u64
  ss_active :: bool
  ss_partition_count :: u32
  ss_slot_capacity :: u32
  ss_reserved_slot_count :: u32
  ss_bound_slot_count :: u32

definition slot_is_bound :: "('x, 'v, 'b) scene_instance \<Rightarrow> 'x runtime_slot \<Rightarrow> bool" where
  "slot_is_bound si slot \<longleftrightarrow> (\<exists>n \<in> set (rs_nodes slot). et_entity (si_entity_bindings si ! rb_node n) \<noteq> None)"

definition get_statistics :: "('x, 'v, 'b) scene_instance \<Rightarrow> scene_statistics" where
  "get_statistics si =
     (let count = (\<lambda>f. fold (\<lambda>p c. c + word_of_nat (length (f (rp_slots p)))) (si_partitions si) (0 :: u32))
      in \<lparr>ss_node_count = word_of_nat (state_size (si_state si)),
          ss_active_motion_count = word_of_nat (length (am_records (si_motion si))),
          ss_last_synchronized_node_count = si_last_synchronized_count si,
          ss_completed_fixed_steps = fs_next_tick (si_sequence si),
          ss_active = si_active si,
          ss_partition_count = word_of_nat (length (si_partitions si)),
          ss_slot_capacity = count id,
          ss_reserved_slot_count = count (filter rs_reserved),
          ss_bound_slot_count = count (filter (slot_is_bound si))\<rparr>)"

subsection \<open>World revisions record what changed\<close>

text \<open>
  World transforms and their revisions change together, and only in an evaluation: in every
  operation below a node that the operation does not report keeps both.
\<close>

definition world_stamp :: "'x transform_state \<Rightarrow> node_handle \<Rightarrow> 'x \<times> u64" where
  "world_stamp st n = (r_world (m_records st ! n), r_world_revision (m_records st ! n))"

lemma set_local_stamp [simp]: "world_stamp (snd (set_local node loc st)) n = world_stamp st n"
  by (cases "n = node") (simp_all add: world_stamp_def set_local_def Let_def nth_list_update)

lemma push_locals_stamp: "push_locals us st xs = (e, st', ys) \<Longrightarrow> world_stamp st' n = world_stamp st n \<and>
    length (m_records st') = length (m_records st)"
proof (induction us arbitrary: st xs)
  case (Cons u us)
  obtain e1 s1 where s1: "set_local (lmu_node u) (lmu_local u) st = (e1, s1)" by fastforce
  have "world_stamp s1 n = world_stamp st n" "length (m_records s1) = length (m_records st)"
    using set_local_stamp [of "lmu_node u" "lmu_local u" st n] length_set_local [of "lmu_node u" "lmu_local u" st] s1 by simp_all
  with Cons s1 show ?case by (auto split: transform_error.splits)
qed simp

lemma fold_push_stamp:
  "n < length (m_records st) \<Longrightarrow> n \<notin> set nodes \<Longrightarrow>
     world_stamp (fold (evaluation_push t compose v) nodes st) n = world_stamp st n"
  "n < length (m_records st) \<Longrightarrow> r_world_revision (m_records (fold (evaluation_push t compose v) nodes st) ! n) =
     (if n \<in> set nodes then v else r_world_revision (m_records st ! n))"
  "length (m_records (fold (evaluation_push t compose v) nodes st)) = length (m_records st)"
  by (induction nodes arbitrary: st)
    (auto simp: evaluation_push_def update_record_def world_stamp_def record_at_def nth_list_update)

lemma compact_stamp [simp]: "world_stamp (compact_dirty_frontier st) n = world_stamp st n"
  "world_stamp (begin_evaluation b st) n = world_stamp st n"
  by (simp_all add: world_stamp_def)

definition stamps_follow :: "'x transform_state \<Rightarrow> node_handle list \<Rightarrow> 'x transform_state \<Rightarrow> bool" where
  "stamps_follow st changed st' \<longleftrightarrow> length (m_records st') = length (m_records st) \<and>
     (\<forall>n < length (m_records st).
        (n \<notin> set changed \<longrightarrow> world_stamp st' n = world_stamp st n) \<and>
        (n \<in> set changed \<longrightarrow> r_world_revision (m_records st' ! n) = m_revision st'))"

lemma stamps_follow_refl: "stamps_follow st [] st"
  by (simp add: stamps_follow_def)

lemma evaluate_stamps:
  assumes "evaluate_transforms t compose st plan wsp = (res, st')"
  shows "stamps_follow st (res_changed_nodes res) st'"
proof (cases "check_plan t st plan wsp = te_none")
  case False
  with assms show ?thesis by (auto simp: evaluate_transforms_def Let_def stamps_follow_refl)
next
  case True
  let ?ns = "plan_ordered_nodes plan" and ?b = "begin_evaluation (plan_ordered_nodes plan \<noteq> []) st"
  let ?f = "fold (evaluation_push t compose (m_revision ?b)) ?ns ?b"
  have res: "res_changed_nodes res = ?ns" "st' = compact_dirty_frontier ?f"
    using assms True by (auto simp: evaluate_transforms_def Let_def)
  have "m_revision (fold (evaluation_push t compose v) ns s) = m_revision s" for v ns and s :: "'a transform_state"
    by (induction ns arbitrary: s) (simp_all add: evaluation_push_def update_record_def)
  with fold_push_stamp [where st = ?b and nodes = ?ns and v = "m_revision ?b"] show ?thesis
    by (simp add: stamps_follow_def res)
qed

lemma advance_stamps:
  assumes "advance_motion_scene t integrate compose st active seq mws tws = (result, st', seq', mws', tws')"
  shows "stamps_follow st (mr_changed_nodes result) st'"
proof (cases "check_step t st active seq = me_none")
  case False
  with assms show ?thesis by (auto simp: advance_rejected stamps_follow_refl)
next
  case True
  obtain e st1 ns where p: "push_locals (integrated_updates integrate (next_step seq) st active) st [] = (e, st1, ns)"
    using prod_cases3 by blast
  have s1: "world_stamp st1 n = world_stamp st n" "length (m_records st1) = length (m_records st)" for n
    using push_locals_stamp [OF p] by simp_all
  then have stay: "stamps_follow st [] st1" by (simp add: stamps_follow_def)
  show ?thesis
  proof (cases "e = te_none")
    case False
    with assms p True stay show ?thesis by (auto simp: advance_motion_scene_def Let_def)
  next
    case e: True
    obtain r ws where pl: "make_transform_evaluation_plan t st1 tws = (r, ws)" by fastforce
    show ?thesis
    proof (cases r)
      case (Inl e2)
      with assms p True e pl stay show ?thesis by (auto simp: advance_motion_scene_def Let_def)
    next
      case (Inr plan)
      obtain res st2 where ev: "evaluate_transforms t compose st1 plan (Some ws) = (res, st2)" by fastforce
      have follow: "stamps_follow st (res_changed_nodes res) st2"
        using evaluate_stamps [OF ev] s1 by (simp add: stamps_follow_def)
      have "res_changed_nodes res = []" "st2 = st1" if "res_error res \<noteq> te_none"
        using ev that by (auto simp: evaluate_transforms_def Let_def split: if_splits)
      with assms p True e pl Inr ev follow stay show ?thesis
        by (auto simp: advance_motion_scene_def Let_def split: if_splits)
    qed
  qed
qed

subsection \<open>Running the controllers of a step\<close>

text \<open>What controllers cannot reach.\<close>

definition clockwork :: "('x, 'v, 'b) scene_instance \<Rightarrow> _" where
  "clockwork si =
     ((si_topology si, si_partitions si, si_entity_bindings si, si_entity_to_node si, si_sequence si,
       si_motion_workspace si, si_transform_workspace si, si_evaluated_changes si, si_evaluated_stamp si),
      (si_topological_rank si, si_accumulator si, si_last_synchronized_revision si, si_max_catch_up si,
       si_last_synchronized_count si, si_evaluated_epoch si, si_direct_batch_valid si, si_active si))"

lemma clockwork_fields:
  assumes "clockwork si' = clockwork si"
  shows "si_topology si' = si_topology si" "si_partitions si' = si_partitions si"
    "si_entity_bindings si' = si_entity_bindings si" "si_sequence si' = si_sequence si"
    "si_motion_workspace si' = si_motion_workspace si" "si_transform_workspace si' = si_transform_workspace si"
    "si_evaluated_changes si' = si_evaluated_changes si" "si_evaluated_stamp si' = si_evaluated_stamp si"
    "si_topological_rank si' = si_topological_rank si" "si_accumulator si' = si_accumulator si"
    "si_last_synchronized_revision si' = si_last_synchronized_revision si" "si_max_catch_up si' = si_max_catch_up si"
    "si_evaluated_epoch si' = si_evaluated_epoch si" "si_direct_batch_valid si' = si_direct_batch_valid si"
    "si_active si' = si_active si"
  using assms by (simp_all add: clockwork_def)

lemma core_clockwork: "core si' = core si \<Longrightarrow> clockwork si' = clockwork si"
  by (simp add: core_def clockwork_def)

lemma end_clockwork [simp]: "clockwork (end_commands m ok si) = clockwork si"
  by (subst end_commands_same, simp add: clockwork_def)

lemma bulk_identity:
  "am_topology_identity (fst (snd (apply_updates_bulk stationary us ws s))) = am_topology_identity s"
  by (simp add: apply_updates_bulk_def Let_def split: prod.split)

lemma end_commands_identity:
  "am_topology_identity (si_motion (end_commands m ok si)) = am_topology_identity (si_motion si)"
  by (auto simp: end_commands_def Let_def split: prod.split)
    (metis bulk_identity fst_conv snd_conv)

lemma apply_local_stamp:
  "world_stamp (fold (apply_local ts) is st) n = world_stamp st n \<and>
   length (m_records (fold (apply_local ts) is st)) = length (m_records st) \<and>
   m_revision st \<le> m_revision (fold (apply_local ts) is st)"
proof (induction "is" arbitrary: st)
  case (Cons i "is")
  have "m_revision st \<le> m_revision (apply_local ts i st)"
    using set_local_revision [of st] by (auto simp: apply_local_def split: option.split intro: order.strict_implies_order)
      (metis order.strict_implies_order order_refl)
  moreover have "world_stamp (apply_local ts i st) n = world_stamp st n"
    "length (m_records (apply_local ts i st)) = length (m_records st)"
    by (simp_all add: apply_local_def length_set_local split: option.split)
  ultimately show ?case using Cons.IH [of "apply_local ts i st"] by (auto intro: order_trans)
qed simp

lemma end_commands_stamp:
  "world_stamp (si_state (end_commands m ok si)) n = world_stamp (si_state si) n"
  "length (m_records (si_state (end_commands m ok si))) = length (m_records (si_state si))"
  "m_revision (si_state si) \<le> m_revision (si_state (end_commands m ok si))"
  using apply_local_stamp [of "si_targets si" "si_local_touched si" "si_state si" n]
  by (auto simp: end_commands_def Let_def split: prod.split)

lemma run_batch_open:
  fixes si :: "('x, 'v, 'b) scene_instance"
  assumes "sink_open si"
  shows "sink_open (run_batch m bm step i si) \<and> core (run_batch m bm step i si) = core si \<and>
    length (si_targets (run_batch m bm step i si)) = length (si_targets si) \<and>
    si_write_owners (run_batch m bm step i si) = si_write_owners si \<and>
    si_command_epoch (run_batch m bm step i si) = si_command_epoch si"
proof (cases "bm_has_running_controllers bm (be_batch (si_batches si ! i))")
  case True
  obtain b s where run: "run_sink m (si_command_epoch si)
      (bm_fixed_step_batch bm (be_batch (si_batches si ! i)) (step_tick step, step_delta step)) si = (b, s)" by fastforce
  note f = run_sink_open [OF assms run]
  have "sink_open (set_batch i b s)" by (rule sink_open_same [OF f(1)]) simp_all
  with True run f(4) outer_fields [OF f(3)] show ?thesis by (simp add: run_batch_def Let_def)
qed (simp add: run_batch_def Let_def assms)

lemma fold_run_batch_open:
  fixes si :: "('x, 'v, 'b) scene_instance"
  assumes "sink_open si"
  shows "sink_open (fold (run_batch m bm step) is si) \<and> core (fold (run_batch m bm step) is si) = core si \<and>
    length (si_targets (fold (run_batch m bm step) is si)) = length (si_targets si) \<and>
    si_write_owners (fold (run_batch m bm step) is si) = si_write_owners si \<and>
    si_command_epoch (fold (run_batch m bm step) is si) = si_command_epoch si"
  using assms
proof (induction "is" arbitrary: si)
  case (Cons i "is")
  have "sink_open (run_batch m bm step i si)" using run_batch_open [OF Cons.prems] by blast
  from Cons.IH [OF this] run_batch_open [OF Cons.prems, of m bm step i] show ?case by simp
qed simp

lemma sink_open_epochs: "sink_open si \<Longrightarrow> epochs_ok si"
  unfolding sink_open_def sink_ready_def by (metis sink_sim_refl sink_sim_epochs_ok)

definition clock_le :: "('x, 'v, 'b) scene_instance \<Rightarrow> nat \<Rightarrow> ('x, 'v, 'b) scene_instance \<Rightarrow> bool" where
  "clock_le si k si' \<longleftrightarrow> m_revision (si_state si) \<le> m_revision (si_state si') \<and>
     unat (m_revision (si_state si')) \<le> unat (m_revision (si_state si)) + k"

lemma run_controllers_spec:
  fixes si :: "('x, 'v, 'b) scene_instance"
  assumes "target_pool_ok si" "epochs_ok si" "si_command_epoch si \<noteq> - 1" "closable si"
    and room: "unat (m_revision (si_state si)) + length (si_targets si) < 2 ^ 64"
    and wf: "wf_polytree (si_topology si)" and st: "state_ok (si_topology si) compose (si_state si)"
    and s_def: "s = run_controllers m bm step si"
  shows "target_pool_ok s" "epochs_ok s" "closable s" "state_ok (si_topology si) compose (si_state s)"
    and "clockwork s = clockwork si" "length (si_targets s) = length (si_targets si)"
    and "si_command_epoch s = si_command_epoch si + 1" "clock_le si (length (si_targets si)) s"
    and "am_topology_identity (si_motion s) = am_topology_identity (si_motion si)"
    and "world_stamp (si_state s) n = world_stamp (si_state si) n"
proof -
  define b where "b = fold (run_batch m bm step) [0..<length (si_batches si)] (begin_commands si)"
  have s: "s = end_commands m True b" by (simp add: s_def run_controllers_def b_def)
  have op: "sink_open (begin_commands si)" using assms(1-3) by (rule begin_open)
  note f = fold_run_batch_open [OF op, of m bm step "[0..<length (si_batches si)]", folded b_def]
  have b: "sink_open b" "core b = core si" "length (si_targets b) = length (si_targets si)"
    "si_write_owners b = si_write_owners si" "si_command_epoch b = si_command_epoch si + 1"
    using f next_epoch [OF assms(3)] by simp_all
  note c = core_fields [OF b(2)]
  have cl: "closable b" using assms(4) c b(4) by (simp add: closable_def)
  obtain buf where pend: "pending_ok b buf" using b(1) by (auto simp: sink_open_def)
  have room': "unat (m_revision (si_state b)) + length (si_targets b) < 2 ^ 64" using room b(3) c by simp
  note e = end_commands_apply [OF sink_open_pool [OF b(1)] cl pend room' s]
  show "closable s" by (rule e(3))
  show "state_ok (si_topology si) compose (si_state s)" using e(5) wf st c by simp
  show "target_pool_ok s" using sink_open_pool [OF b(1)] by (simp add: s)
  show "epochs_ok s" using sink_open_epochs [OF b(1)] by (simp add: s epochs_ok_def)
  show "clockwork s = clockwork si" using core_clockwork [OF b(2)] by (simp add: s)
  show "length (si_targets s) = length (si_targets si)" "si_command_epoch s = si_command_epoch si + 1"
    using b by (simp_all add: s)
  show "clock_le si (length (si_targets si)) s"
    using e(4) end_commands_stamp(3) [of b m True] b(3) c by (simp add: clock_le_def s)
  show "am_topology_identity (si_motion s) = am_topology_identity (si_motion si)"
    using c by (simp add: s end_commands_identity)
  show "world_stamp (si_state s) n = world_stamp (si_state si) n" using c by (simp add: s end_commands_stamp(1))
qed

subsection \<open>The evaluated batch\<close>

text \<open>
  The batch lists, each once, the nodes stamped with the current epoch. Their worlds are newer than
  the last synchronisation; while the batch is valid these are all the nodes with newer worlds.
\<close>

definition batch_lists :: "('x, 'v, 'b) scene_instance \<Rightarrow> bool" where
  "batch_lists si \<longleftrightarrow>
     length (si_evaluated_stamp si) = node_count (si_topology si) \<and> si_evaluated_epoch si \<noteq> 0 \<and>
     (\<forall>s \<in> set (si_evaluated_stamp si). s \<le> si_evaluated_epoch si) \<and>
     distinct (si_evaluated_changes si) \<and>
     set (si_evaluated_changes si) =
       {n. n < node_count (si_topology si) \<and> si_evaluated_stamp si ! n = si_evaluated_epoch si}"

definition batch_covers :: "('x, 'v, 'b) scene_instance \<Rightarrow> bool" where
  "batch_covers si \<longleftrightarrow>
     si_last_synchronized_revision si \<le> m_revision (si_state si) \<and>
     (\<forall>n < node_count (si_topology si). n \<in> set (si_evaluated_changes si) \<longrightarrow>
        si_last_synchronized_revision si < r_world_revision (m_records (si_state si) ! n)) \<and>
     (si_direct_batch_valid si \<longrightarrow> (\<forall>n < node_count (si_topology si).
        si_last_synchronized_revision si < r_world_revision (m_records (si_state si) ! n) \<longrightarrow>
        n \<in> set (si_evaluated_changes si)))"

lemma queue_node_fields [simp]:
  "si_topology (queue_node n si) = si_topology si" "si_evaluated_epoch (queue_node n si) = si_evaluated_epoch si"
  by (simp_all add: queue_node_def)

lemma queue_node_lists:
  assumes "batch_lists si" and "n < node_count (si_topology si)"
  shows "batch_lists (queue_node n si)"
    and "set (si_evaluated_changes (queue_node n si)) = insert n (set (si_evaluated_changes si))"
proof -
  show changes: "set (si_evaluated_changes (queue_node n si)) = insert n (set (si_evaluated_changes si))"
    using assms by (auto simp: batch_lists_def queue_node_def)
  have stamp: "si_evaluated_stamp (queue_node n si) =
      (if si_evaluated_stamp si ! n = si_evaluated_epoch si then si_evaluated_stamp si
       else (si_evaluated_stamp si)[n := si_evaluated_epoch si])" by (simp add: queue_node_def)
  have "distinct (si_evaluated_changes (queue_node n si))"
    using assms by (auto simp: batch_lists_def queue_node_def)
  with assms changes show "batch_lists (queue_node n si)"
    by (auto simp: batch_lists_def stamp nth_list_update dest!: set_update_subset_insert [THEN subsetD] split: if_splits)
qed

lemma queue_evaluated_lists:
  assumes "batch_lists si" and "set ns \<subseteq> {..< node_count (si_topology si)}"
  shows "batch_lists (queue_evaluated ns si) \<and>
    set (si_evaluated_changes (queue_evaluated ns si)) = set (si_evaluated_changes si) \<union> set ns"
  using assms
proof (induction ns arbitrary: si)
  case (Cons n ns)
  have "batch_lists (queue_node n si)" using Cons.prems by (intro queue_node_lists(1)) simp_all
  from Cons.IH [OF this] queue_node_lists(2) [OF Cons.prems(1), of n] Cons.prems(2) show ?case
    by (auto simp: queue_evaluated_def)
qed (simp add: queue_evaluated_def)

lemma queue_evaluated_same:
  "queue_evaluated ns si = si\<lparr>si_evaluated_stamp := si_evaluated_stamp (queue_evaluated ns si),
     si_evaluated_changes := si_evaluated_changes (queue_evaluated ns si)\<rparr>"
  unfolding queue_evaluated_def
proof (induction ns arbitrary: si)
  case (Cons n ns)
  let ?q = "queue_node n si" and ?f = "fold queue_node ns (queue_node n si)"
  have q: "?q = si\<lparr>si_evaluated_stamp := si_evaluated_stamp ?q, si_evaluated_changes := si_evaluated_changes ?q\<rparr>"
    by (simp add: queue_node_def)
  have "?f = ?q\<lparr>si_evaluated_stamp := si_evaluated_stamp ?f, si_evaluated_changes := si_evaluated_changes ?f\<rparr>"
    by (rule Cons.IH)
  also have "\<dots> = si\<lparr>si_evaluated_stamp := si_evaluated_stamp ?f, si_evaluated_changes := si_evaluated_changes ?f\<rparr>"
    by (subst q) simp
  finally show ?case by simp
qed simp

subsection \<open>The invariant of a running scene\<close>

definition ranks_ok :: "('x, 'v, 'b) scene_instance \<Rightarrow> bool" where
  "ranks_ok si \<longleftrightarrow> (\<forall>n < node_count (si_topology si). si_topological_rank si ! n = rank (si_topology si) n)"

definition running_ok :: "('x, 'v, 'q, 'f) az_math \<Rightarrow> ('x, 'v, 'b) scene_instance \<Rightarrow> bool" where
  "running_ok m si \<longleftrightarrow>
     wf_polytree (si_topology si) \<and> state_ok (si_topology si) (policy_compose m) (si_state si) \<and>
     closable si \<and> am_topology_identity (si_motion si) = pt_identity (si_topology si) \<and>
     cache_coherent (si_topology si) (si_transform_workspace si) \<and> stamps_ok (si_transform_workspace si) \<and>
     target_pool_ok si \<and> epochs_ok si \<and> 0 < fs_delta (si_sequence si) \<and>
     batch_lists si \<and> batch_covers si \<and> ranks_ok si"

definition scene_ok :: "('x, 'v, 'q, 'f) az_math \<Rightarrow> ('x, 'v, 'b) scene_instance \<Rightarrow> bool" where
  "scene_ok m si \<longleftrightarrow> running_ok m si \<and> 0 \<le> si_accumulator si \<and> si_accumulator si < fs_delta (si_sequence si)"

text \<open>The room left on the clocks for \<open>k\<close> steps.\<close>

definition step_cost :: "('x, 'v, 'b) scene_instance \<Rightarrow> nat" where
  "step_cost si = length (si_targets si) + node_count (si_topology si) + 1"

definition clock_room :: "nat \<Rightarrow> ('x, 'v, 'b) scene_instance \<Rightarrow> bool" where
  "clock_room k si \<longleftrightarrow>
     unat (m_revision (si_state si)) + k * step_cost si < 2 ^ 64 - 1 \<and>
     unat (fs_next_tick (si_sequence si)) + k < 2 ^ 64 - 1 \<and>
     unat (si_command_epoch si) + k < 2 ^ 64 - 1"

text \<open>What \<open>k\<close> steps leave alone, and what they may change.\<close>

definition frozen :: "('x, 'v, 'b) scene_instance \<Rightarrow> _" where
  "frozen si =
     ((si_topology si, si_partitions si, si_entity_bindings si, si_entity_to_node si, fs_delta (si_sequence si),
       si_topological_rank si, si_accumulator si, length (si_targets si)),
      (si_last_synchronized_revision si, si_max_catch_up si, si_last_synchronized_count si, si_evaluated_epoch si,
       si_direct_batch_valid si, si_active si))"

definition stepped :: "nat \<Rightarrow> ('x, 'v, 'b) scene_instance \<Rightarrow> ('x, 'v, 'b) scene_instance \<Rightarrow> bool" where
  "stepped k si s \<longleftrightarrow> frozen s = frozen si \<and>
     fs_next_tick (si_sequence s) = fs_next_tick (si_sequence si) + word_of_nat k \<and>
     unat (si_command_epoch s) \<le> unat (si_command_epoch si) + k \<and>
     clock_le si (k * step_cost si) s \<and>
     set (si_evaluated_changes si) \<subseteq> set (si_evaluated_changes s) \<and>
     (\<forall>n < node_count (si_topology si). n \<notin> set (si_evaluated_changes s) \<longrightarrow>
        world_stamp (si_state s) n = world_stamp (si_state si) n)"

lemma frozen_fields:
  assumes "frozen s = frozen si"
  shows "si_topology s = si_topology si" "si_partitions s = si_partitions si"
    "si_entity_bindings s = si_entity_bindings si" "fs_delta (si_sequence s) = fs_delta (si_sequence si)"
    "si_topological_rank s = si_topological_rank si" "si_accumulator s = si_accumulator si"
    "length (si_targets s) = length (si_targets si)"
    "si_last_synchronized_revision s = si_last_synchronized_revision si" "si_max_catch_up s = si_max_catch_up si"
    "si_last_synchronized_count s = si_last_synchronized_count si"
    "si_evaluated_epoch s = si_evaluated_epoch si" "si_direct_batch_valid s = si_direct_batch_valid si"
    "si_active s = si_active si"
  using assms by (simp_all add: frozen_def)

lemma stepped_refl: "stepped 0 si si"
  by (simp add: stepped_def clock_le_def)

lemma stepped_trans:
  assumes "stepped j si s" and "stepped k s s'"
  shows "stepped (j + k) si s'"
proof -
  note f = frozen_fields [of s si]
  have fr: "frozen s = frozen si" using assms(1) by (simp add: stepped_def)
  then have "step_cost s = step_cost si" using f by (simp add: step_cost_def)
  with assms f [OF fr] show ?thesis
    by (auto simp: stepped_def clock_le_def algebra_simps)
qed

lemma clock_room_stepped:
  assumes "stepped j si s" and "clock_room (j + k) si"
  shows "clock_room k s"
proof -
  have fr: "frozen s = frozen si" using assms(1) by (simp add: stepped_def)
  then have "step_cost s = step_cost si" using frozen_fields [OF fr] by (simp add: step_cost_def)
  moreover have "unat (fs_next_tick (si_sequence si) + word_of_nat j) \<le> unat (fs_next_tick (si_sequence si)) + j"
    by (simp add: unat_word_ariths unat_of_nat order_trans [OF mod_less_eq_dividend])
  ultimately show ?thesis
    using assms by (auto simp: stepped_def clock_le_def clock_room_def algebra_simps)
qed

subsection \<open>A step of a running scene\<close>

lemma running_okD:
  assumes "running_ok m si"
  shows "wf_polytree (si_topology si)" "state_ok (si_topology si) (policy_compose m) (si_state si)" "closable si"
    "am_topology_identity (si_motion si) = pt_identity (si_topology si)"
    "cache_coherent (si_topology si) (si_transform_workspace si)" "stamps_ok (si_transform_workspace si)"
    "target_pool_ok si" "epochs_ok si" "0 < fs_delta (si_sequence si)" "batch_lists si" "batch_covers si" "ranks_ok si"
  using assms by (simp_all add: running_ok_def)

lemma state_ok_length: "state_ok t c st \<Longrightarrow> length (m_records st) = node_count t"
  by (simp add: state_ok_def)

lemma active_bound:
  assumes "motion_set_ok s"
  shows "length (am_records s) \<le> am_node_count s"
proof -
  have "distinct (map amr_node (am_records s))" using motion_set_okD(1) [OF assms] by (simp add: strict_sorted_iff)
  moreover have "set (map amr_node (am_records s)) \<subseteq> {..< am_node_count s}" using motion_set_okD(2) [OF assms] by auto
  ultimately show ?thesis by (metis card_lessThan card_mono distinct_card finite_lessThan length_map)
qed

lemma step_checks:
  assumes "running_ok m si" and tick: "fs_next_tick (si_sequence si) \<noteq> - 1"
    and room: "unat (m_revision (si_state si)) + node_count (si_topology si) < 2 ^ 64 - 1"
  shows "check_step (si_topology si) (si_state si) (si_motion si) (si_sequence si) = me_none"
proof -
  note ok = running_okD [OF assms(1)]
  have cnt: "am_node_count (si_motion si) = node_count (si_topology si)" and mo: "motion_set_ok (si_motion si)"
    using ok(3) state_ok_length [OF ok(2)] by (simp_all add: closable_def)
  with active_bound [OF mo] room have "revision_headroom (si_state si) (si_motion si)"
    by (simp add: revision_headroom_nat)
  with ok(4,9) cnt tick motion_set_okD(2) [OF mo] state_ok_length [OF ok(2)] show ?thesis
    by (auto simp: check_step_def next_step_def state_size_def list_all_iff)
qed

text \<open>Reporting an evaluation to the batch keeps it complete.\<close>

lemma covers_after:
  assumes "batch_covers si" and "stamps_follow (si_state si) ns st"
    and "m_revision (si_state si) \<le> m_revision st" and "ns \<noteq> [] \<Longrightarrow> m_revision (si_state si) < m_revision st"
    and "length (m_records (si_state si)) = node_count (si_topology si)"
    and "set (si_evaluated_changes s) = set (si_evaluated_changes si) \<union> set ns"
    and "si_state s = st" "si_topology s = si_topology si" "si_direct_batch_valid s = si_direct_batch_valid si"
    "si_last_synchronized_revision s = si_last_synchronized_revision si"
  shows "batch_covers s"
  unfolding batch_covers_def
proof (intro conjI impI allI)
  let ?L = "si_last_synchronized_revision si"
  have L: "?L \<le> m_revision (si_state si)" using assms(1) by (simp add: batch_covers_def)
  then show "si_last_synchronized_revision s \<le> m_revision (si_state s)" using assms(3,7,10) by simp
  fix n assume n: "n < node_count (si_topology s)"
  have new: "?L < r_world_revision (m_records st ! n)" if "n \<in> set ns"
  proof -
    have "?L < m_revision st" using that assms(4) L by force
    with that n assms(2,5,8) show ?thesis by (simp add: stamps_follow_def)
  qed
  have old: "r_world_revision (m_records st ! n) = r_world_revision (m_records (si_state si) ! n)" if "n \<notin> set ns"
    using that n assms(2,5,8) by (simp add: stamps_follow_def world_stamp_def)
  show "si_last_synchronized_revision s < r_world_revision (m_records (si_state s) ! n)" if "n \<in> set (si_evaluated_changes s)"
  proof (cases "n \<in> set ns")
    case True
    with new assms(7,10) show ?thesis by simp
  next
    case False
    with that assms(6) have "n \<in> set (si_evaluated_changes si)" by simp
    with assms(1,7,8,10) n old [OF False] show ?thesis by (simp add: batch_covers_def)
  qed
  show "n \<in> set (si_evaluated_changes s)"
    if "si_direct_batch_valid s" "si_last_synchronized_revision s < r_world_revision (m_records (si_state s) ! n)"
  proof (cases "n \<in> set ns")
    case True
    with assms(6) show ?thesis by simp
  next
    case False
    with that n assms(1,7-10) old [OF False] have "n \<in> set (si_evaluated_changes si)" by (simp add: batch_covers_def)
    with assms(6) show ?thesis by simp
  qed
qed

lemma canonical_revision:
  assumes "plannable t st1" and "canonical_nodes t st1 \<noteq> []"
  shows "m_dirty_nodes st1 \<noteq> []"
  using no_dirty_canonical(1) [OF assms(1)] assms(2) by (auto simp: has_dirty_transforms_def)

lemma advance_step_ok:
  fixes si :: "('x, 'v, 'b) scene_instance"
  assumes ok: "running_ok m si" and room: "clock_room 1 si" and s_def: "s = advance_step m bm si"
  shows "running_ok m s" and "stepped 1 si s" and "\<not> has_dirty_transforms (si_state s)"
proof -
  let ?t = "si_topology si"
  define c where "c = (if has_running_controllers bm si then run_controllers m bm (next_step (si_sequence si)) si else si)"
  note okD = running_okD [OF ok]
  have epoch: "si_command_epoch si \<noteq> - 1" using room max_u64_unat by (auto simp: clock_room_def)
  have room1: "unat (m_revision (si_state si)) + length (si_targets si) < 2 ^ 64"
    using room by (simp add: clock_room_def step_cost_def)
  note r = run_controllers_spec [OF okD(7,8) epoch okD(3) room1 okD(1,2) refl, of m bm "next_step (si_sequence si)"]
  have c: "target_pool_ok c" "epochs_ok c" "closable c" "state_ok ?t (policy_compose m) (si_state c)"
    "clockwork c = clockwork si" "length (si_targets c) = length (si_targets si)"
    "unat (si_command_epoch c) \<le> unat (si_command_epoch si) + 1" "clock_le si (length (si_targets si)) c"
    "am_topology_identity (si_motion c) = pt_identity ?t"
    and cst: "\<And>n. world_stamp (si_state c) n = world_stamp (si_state si) n"
    using r okD unat_next [OF epoch] by (simp_all add: c_def clock_le_def)
  note cf = clockwork_fields [OF c(5)]
  have cfr: "frozen c = frozen si" using c(5,6) by (simp add: clockwork_def frozen_def)
  have c_len: "length (m_records (si_state c)) = node_count ?t" using state_ok_length [OF c(4)] .
  have "stamps_follow (si_state si) [] (si_state c)"
    using cst c_len state_ok_length [OF okD(2)] by (simp add: stamps_follow_def)
  with covers_after [OF okD(11), of "[]" "si_state c" c] c(8) cf state_ok_length [OF okD(2)]
  have ccov: "batch_covers c" by (simp add: clock_le_def)
  have "running_ok m c"
    using okD c cf ccov by (simp add: running_ok_def batch_lists_def ranks_ok_def)
  moreover have "fs_next_tick (si_sequence c) \<noteq> - 1" using room cf max_u64_unat by (auto simp: clock_room_def)
  moreover have croom: "unat (m_revision (si_state c)) + node_count ?t < 2 ^ 64 - 1"
    using room c(8) by (simp add: clock_room_def clock_le_def step_cost_def)
  ultimately have chk: "check_step ?t (si_state c) (si_motion c) (si_sequence si) = me_none"
    using step_checks [of m c] cf by simp
  note okc = running_okD [OF \<open>running_ok m c\<close>]
  have mo: "motion_set_ok (si_motion c)" and mcnt: "am_node_count (si_motion c) = node_count ?t"
    using c(3) c_len by (simp_all add: closable_def)
  obtain st1 st' :: "'x transform_state" and mws' tws' where adv:
    "advance_motion_scene ?t (policy_integrate m) (policy_compose m) (si_state c) (si_motion c) (si_sequence si)
       (si_motion_workspace si) (si_transform_workspace si) =
      (\<lparr>mr_error = me_none, mr_transform_status = te_none,
        mr_integrated_nodes = map amr_node (am_records (si_motion c)), mr_changed_nodes = canonical_nodes ?t st1,
        mr_step = next_step (si_sequence si), mr_world_revision = m_revision st'\<rparr>, st',
        complete_step (si_sequence si), mws', tws')"
    and dirty: "set (m_dirty_nodes st1) = set (m_dirty_nodes (si_state c)) \<union> amr_node ` set (am_records (si_motion c))"
    and tws: "cache_coherent ?t tws'" "stamps_ok tws'" and pl: "plannable ?t st1"
    and st': "state_ok ?t (policy_compose m) st'" "\<not> has_dirty_transforms st'"
    and rev: "unat (m_revision st') = unat (m_revision (si_state c)) + length (am_records (si_motion c)) +
      (if m_dirty_nodes (si_state c) = [] \<and> am_records (si_motion c) = [] then 0 else 1)"
    using advance_accepted [OF okD(1) c(4) mo okD(5,6) chk, of "policy_integrate m" "si_motion_workspace si"]
    by blast
  let ?ns = "canonical_nodes ?t st1"
  have s: "s = queue_evaluated ?ns (c\<lparr>si_state := st', si_sequence := complete_step (si_sequence si),
      si_motion_workspace := mws', si_transform_workspace := tws'\<rparr>)"
    using adv cf by (simp add: s_def advance_step_def Let_def c_def [symmetric])
  let ?c = "c\<lparr>si_state := st', si_sequence := complete_step (si_sequence si),
      si_motion_workspace := mws', si_transform_workspace := tws'\<rparr>"
  have follow: "stamps_follow (si_state c) ?ns st'" using advance_stamps [OF adv] by simp
  have mono: "m_revision (si_state c) \<le> m_revision st'" using rev by (simp add: word_le_nat_alt)
  have "m_revision (si_state c) < m_revision st'" if "?ns \<noteq> []"
    using canonical_revision [OF pl that] dirty rev by (auto simp: word_less_nat_alt)
  moreover have sub: "set ?ns \<subseteq> {..< node_count (si_topology ?c)}"
    using set_canonical_nodes [OF okD(1), of st1] cf by auto
  moreover have "batch_lists ?c" using okD(10) cf by (simp add: batch_lists_def)
  note q = queue_evaluated_lists [OF this sub]
  have same: "s = ?c\<lparr>si_evaluated_stamp := si_evaluated_stamp s, si_evaluated_changes := si_evaluated_changes s\<rparr>"
    unfolding s by (rule queue_evaluated_same)
  have sf: "si_topology s = ?t" "si_state s = st'" "si_transform_workspace s = tws'" "si_motion s = si_motion c"
    "si_targets s = si_targets c" "si_free_targets s = si_free_targets c" "si_write_owners s = si_write_owners c"
    "si_command_epoch s = si_command_epoch c" "si_topological_rank s = si_topological_rank si"
    "si_direct_batch_valid s = si_direct_batch_valid c" "si_last_synchronized_revision s = si_last_synchronized_revision c"
    "si_sequence s = complete_step (si_sequence si)" "frozen s = frozen ?c"
    using cf by (subst same, simp add: frozen_def)+
  have ch: "set (si_evaluated_changes s) = set (si_evaluated_changes si) \<union> set ?ns" "batch_lists s"
    using q cf by (simp_all add: s)
  ultimately have "batch_covers s"
    using covers_after [OF ccov follow mono, of s] ch sf c_len cf by simp
  moreover have "closable s" "target_pool_ok s" "epochs_ok s"
    using c(1-3) state_ok_length [OF st'(1)] c_len sf
    by (simp_all add: closable_def target_pool_ok_def targets_ok_def owners_ok_def epochs_ok_def)
  ultimately show "running_ok m s"
    using okD(1,9,12) c(9) st' tws sf ch by (simp add: running_ok_def complete_step_def ranks_ok_def)
  show "\<not> has_dirty_transforms (si_state s)" using st'(2) sf by simp
  have "frozen s = frozen si" using sf(13) cfr cf by (simp add: frozen_def complete_step_def)
  moreover have "clock_le si (step_cost si) s"
  proof -
    have "length (am_records (si_motion c)) \<le> node_count ?t" using active_bound [OF mo] mcnt by simp
    then have "unat (m_revision st') \<le> unat (m_revision (si_state si)) + step_cost si"
      using rev c(8) by (simp add: clock_le_def step_cost_def split: if_splits)
    with mono c(8) sf(2) show ?thesis by (auto simp: clock_le_def intro: order_trans)
  qed
  moreover have "world_stamp (si_state s) n = world_stamp (si_state si) n"
    if "n < node_count ?t" "n \<notin> set (si_evaluated_changes s)" for n
    using that follow c_len ch sf(2) cst by (simp add: stamps_follow_def)
  ultimately show "stepped 1 si s"
    using sf c(7) ch by (simp add: stepped_def complete_step_def)
qed

lemma advance_steps_ok:
  fixes si :: "('x, 'v, 'b) scene_instance"
  assumes "running_ok m si" and "clock_room k si"
  shows "running_ok m ((advance_step m bm ^^ k) si) \<and> stepped k si ((advance_step m bm ^^ k) si) \<and>
    (k \<noteq> 0 \<longrightarrow> \<not> has_dirty_transforms (si_state ((advance_step m bm ^^ k) si)))"
  using assms(2)
proof (induction k)
  case 0
  then show ?case using assms(1) by (simp add: stepped_refl)
next
  case (Suc k)
  let ?s = "(advance_step m bm ^^ k) si"
  have "clock_room k si" using Suc.prems by (auto simp: clock_room_def)
  with Suc.IH have IH: "running_ok m ?s" "stepped k si ?s" by simp_all
  have "clock_room 1 ?s" using clock_room_stepped [OF IH(2), of 1] Suc.prems by simp
  note a = advance_step_ok [OF IH(1) this refl, of bm]
  show ?case using a stepped_trans [OF IH(2) a(2)] by simp
qed

text \<open>A frame without a step evaluates what is dirty.\<close>

definition settled :: "('x, 'v, 'q, 'f) az_math \<Rightarrow> ('x, 'v, 'b) scene_instance \<Rightarrow> bool" where
  "settled m si \<longleftrightarrow> \<not> has_dirty_transforms (si_state si) \<and>
     (\<forall>n < node_count (si_topology si).
        path_world (si_topology si) (policy_compose m) (local_of (si_state si)) n (world_of (si_state si) n))"

lemma clean_settled:
  assumes "wf_polytree (si_topology si)" and "state_ok (si_topology si) (policy_compose m) (si_state si)"
    and "\<not> has_dirty_transforms (si_state si)"
  shows "settled m si"
proof -
  have "\<not> r_dirty (m_records (si_state si) ! n)" if "n < node_count (si_topology si)" for n
    using frontier_exact_mem [of "si_state si" n] assms(2,3) that by (simp add: state_ok_def has_dirty_transforms_def)
  then have "path_world (si_topology si) (policy_compose m) (local_of (si_state si)) n (world_of (si_state si) n)"
    if "n < node_count (si_topology si)" for n
    using assms(2) that by (intro worlds_ok_path [OF assms(1)]) (simp_all add: state_ok_def)
  with assms(3) show ?thesis by (simp add: settled_def)
qed

lemma evaluate_dirty_ok:
  fixes si :: "('x, 'v, 'b) scene_instance"
  assumes ok: "running_ok m si" and room: "m_revision (si_state si) \<noteq> - 1" and s_def: "s = evaluate_dirty m si"
  shows "running_ok m s" and "frozen s = frozen si" and "si_sequence s = si_sequence si" and "clock_le si 1 s"
    and "si_command_epoch s = si_command_epoch si" and "\<not> has_dirty_transforms (si_state s)"
    and "\<And>n. n < node_count (si_topology si) \<Longrightarrow> local_of (si_state s) n = local_of (si_state si) n"
    and "set (si_evaluated_changes si) \<subseteq> set (si_evaluated_changes s)"
    and "\<And>n. n < node_count (si_topology si) \<Longrightarrow> n \<notin> set (si_evaluated_changes s) \<Longrightarrow>
      world_stamp (si_state s) n = world_stamp (si_state si) n"
    and "si_motion s = si_motion si" and "si_batches s = si_batches si"
proof -
  let ?t = "si_topology si"
  note okD = running_okD [OF ok]
  obtain plan tws' and st' :: "'x transform_state" where p: "make_transform_evaluation_plan ?t (si_state si) (si_transform_workspace si) = (Inr plan, tws')"
    and tws: "cache_coherent ?t tws'" "stamps_ok tws'"
    and ev: "evaluate_transforms ?t (policy_compose m) (si_state si) plan (Some tws') =
      (\<lparr>res_error = te_none, res_changed_nodes = canonical_nodes ?t (si_state si),
        res_world_revision = next_revision (si_state si) (canonical_nodes ?t (si_state si))\<rparr>, st')"
    and st': "state_ok ?t (policy_compose m) st'" "\<not> has_dirty_transforms st'"
    and rev: "m_revision st' = next_revision (si_state si) (canonical_nodes ?t (si_state si))"
    and loc: "\<And>n. n < node_count ?t \<Longrightarrow> local_of st' n = local_of (si_state si) n"
    using full_evaluation [OF okD(1,2,5,6)] room by blast
  let ?ns = "canonical_nodes ?t (si_state si)" and ?c = "si\<lparr>si_transform_workspace := tws', si_state := st'\<rparr>"
  have s: "s = queue_evaluated ?ns ?c" using p ev by (simp add: s_def evaluate_dirty_def)
  have follow: "stamps_follow (si_state si) ?ns st'" using evaluate_stamps [OF ev] by simp
  have mono: "m_revision (si_state si) \<le> m_revision st'" "?ns \<noteq> [] \<Longrightarrow> m_revision (si_state si) < m_revision st'"
    using rev less_next [OF room] le_next [OF room] by (auto simp: next_revision_def)
  have sub: "set ?ns \<subseteq> {..< node_count (si_topology ?c)}" using set_canonical_nodes [OF okD(1)] by auto
  have "batch_lists ?c" using okD(10) by (simp add: batch_lists_def)
  note q = queue_evaluated_lists [OF this sub]
  have same: "s = ?c\<lparr>si_evaluated_stamp := si_evaluated_stamp s, si_evaluated_changes := si_evaluated_changes s\<rparr>"
    unfolding s by (rule queue_evaluated_same)
  have sf: "si_topology s = ?t" "si_state s = st'" "si_transform_workspace s = tws'" "si_motion s = si_motion si"
    "si_targets s = si_targets si" "si_free_targets s = si_free_targets si" "si_write_owners s = si_write_owners si"
    "si_command_epoch s = si_command_epoch si" "si_topological_rank s = si_topological_rank si"
    "si_direct_batch_valid s = si_direct_batch_valid si" "si_last_synchronized_revision s = si_last_synchronized_revision si"
    "si_sequence s = si_sequence si" "frozen s = frozen si" "si_batches s = si_batches si"
    by (subst same, simp add: frozen_def)+
  have ch: "set (si_evaluated_changes s) = set (si_evaluated_changes si) \<union> set ?ns" "batch_lists s"
    using q by (simp_all add: s)
  have len: "length (m_records (si_state si)) = node_count ?t" by (rule state_ok_length [OF okD(2)])
  have "batch_covers s" by (rule covers_after [OF okD(11) follow mono len ch(1) sf(2,1,10,11)])
  moreover have "closable s" "target_pool_ok s" "epochs_ok s"
    using okD(3,7,8) state_ok_length [OF st'(1)] len sf
    by (simp_all add: closable_def target_pool_ok_def targets_ok_def owners_ok_def epochs_ok_def)
  ultimately show "running_ok m s"
    using okD(1,4,9,12) st' tws sf ch by (simp add: running_ok_def ranks_ok_def)
  show "frozen s = frozen si" "si_sequence s = si_sequence si" "si_command_epoch s = si_command_epoch si"
    "si_motion s = si_motion si" "si_batches s = si_batches si" using sf by simp_all
  show "\<not> has_dirty_transforms (si_state s)" using st'(2) sf by simp
  show "clock_le si 1 s"
    using mono(1) rev unat_next [OF room] sf by (auto simp: clock_le_def next_revision_def)
  show "local_of (si_state s) n = local_of (si_state si) n" if "n < node_count ?t" for n using loc [OF that] sf by simp
  show "set (si_evaluated_changes si) \<subseteq> set (si_evaluated_changes s)" using ch by simp
  show "world_stamp (si_state s) n = world_stamp (si_state si) n"
    if "n < node_count ?t" "n \<notin> set (si_evaluated_changes s)" for n
    using that follow len ch sf(2) by (simp add: stamps_follow_def)
qed

subsection \<open>Synchronisation\<close>

definition newer_nodes :: "('x, 'v, 'b) scene_instance \<Rightarrow> node_handle list" where
  "newer_nodes si = changed_transform_nodes_since (si_topology si) (si_state si) (si_last_synchronized_revision si)"

definition bound :: "('x, 'v, 'b) scene_instance \<Rightarrow> node_handle \<Rightarrow> bool" where
  "bound si n \<longleftrightarrow> et_entity (si_entity_bindings si ! n) \<noteq> None"

definition entity_write ::
  "('x, 'v, 'q, 'f) az_math \<Rightarrow> ('x, 'v, 'b) scene_instance \<Rightarrow> node_handle \<Rightarrow> entity_id \<times> 'x" where
  "entity_write m si n =
     (et_entity (si_entity_bindings si ! n),
      az_mul m (world_of (si_state si) n) (et_node_to_target (si_entity_bindings si ! n)))"

lemma batch_is_newer:
  assumes ok: "running_ok m si" and d: "si_direct_batch_valid si"
  shows "sort_key (\<lambda>n. si_topological_rank si ! n) (si_evaluated_changes si) = newer_nodes si"
proof -
  let ?t = "si_topology si" and ?xs = "sort_key (\<lambda>n. si_topological_rank si ! n) (si_evaluated_changes si)"
  note okD = running_okD [OF ok] and wf = wf_orderD [OF okD(1)]
  have set: "set ?xs = {n. n < node_count ?t \<and> si_last_synchronized_revision si < r_world_revision (m_records (si_state si) ! n)}"
    using okD(10,11) d by (auto simp: batch_lists_def batch_covers_def)
  have key: "map (\<lambda>n. si_topological_rank si ! n) ?xs = map (rank ?t) ?xs"
    using okD(10,12) by (intro map_cong) (auto simp: batch_lists_def ranks_ok_def)
  have "?xs = filter (\<lambda>x. x \<in> set ?xs) (topological_order ?t)"
  proof (rule eq_filter_position)
    show "sorted (map (position (topological_order ?t)) ?xs)"
      using sorted_sort_key [of "\<lambda>n. si_topological_rank si ! n" "si_evaluated_changes si"] unfolding key by simp
    show "distinct ?xs" using okD(10) by (simp add: batch_lists_def)
  qed (use wf set in auto)
  also have "\<dots> = newer_nodes si"
    unfolding newer_nodes_def changed_transform_nodes_since_def set using wf(2)
    by (intro filter_cong) (simp_all add: record_at_def)
  finally show ?thesis .
qed

lemma synchronize_eq:
  assumes "running_ok m si"
  shows "synchronize m si =
    (map (entity_write m si) (filter (bound si) (newer_nodes si)),
     reset_evaluated_batch (si\<lparr>si_last_synchronized_count :=
         si_last_synchronized_count si + word_of_nat (length (filter (bound si) (newer_nodes si))),
       si_last_synchronized_revision := m_revision (si_state si)\<rparr>))"
proof -
  have changed: "(if si_direct_batch_valid si then sort_key (\<lambda>n. si_topological_rank si ! n) (si_evaluated_changes si)
      else changed_transform_nodes_since (si_topology si) (si_state si) (si_last_synchronized_revision si)) = newer_nodes si"
    using batch_is_newer [OF assms] by (cases "si_direct_batch_valid si") (simp_all only: if_True if_False newer_nodes_def)
  show ?thesis unfolding synchronize_def Let_def changed bound_def entity_write_def by (rule refl)
qed

lemma reset_batch_fields [simp]:
  "si_topology (reset_evaluated_batch si) = si_topology si" "si_state (reset_evaluated_batch si) = si_state si"
  "si_motion (reset_evaluated_batch si) = si_motion si" "si_targets (reset_evaluated_batch si) = si_targets si"
  "si_free_targets (reset_evaluated_batch si) = si_free_targets si"
  "si_write_owners (reset_evaluated_batch si) = si_write_owners si"
  "si_command_epoch (reset_evaluated_batch si) = si_command_epoch si" "si_batches (reset_evaluated_batch si) = si_batches si"
  "si_sequence (reset_evaluated_batch si) = si_sequence si" "si_accumulator (reset_evaluated_batch si) = si_accumulator si"
  "si_transform_workspace (reset_evaluated_batch si) = si_transform_workspace si"
  "si_topological_rank (reset_evaluated_batch si) = si_topological_rank si"
  "si_last_synchronized_revision (reset_evaluated_batch si) = si_last_synchronized_revision si"
  "si_last_synchronized_count (reset_evaluated_batch si) = si_last_synchronized_count si"
  "si_entity_bindings (reset_evaluated_batch si) = si_entity_bindings si"
  "si_max_catch_up (reset_evaluated_batch si) = si_max_catch_up si" "si_active (reset_evaluated_batch si) = si_active si"
  "si_evaluated_changes (reset_evaluated_batch si) = []" "si_direct_batch_valid (reset_evaluated_batch si) = True"
  "si_partitions (reset_evaluated_batch si) = si_partitions si" "si_controllers (reset_evaluated_batch si) = si_controllers si"
  by (simp_all add: reset_evaluated_batch_def Let_def)

lemma reset_batch_lists:
  assumes "batch_lists si"
  shows "batch_lists (reset_evaluated_batch si)"
proof (cases "si_evaluated_epoch si + 1 = 0")
  case True
  with assms show ?thesis by (auto simp: batch_lists_def reset_evaluated_batch_def)
next
  case False
  then have lt: "si_evaluated_epoch si < si_evaluated_epoch si + 1"
    by (intro less_next) (metis add.commute add.right_inverse)
  have old: "s < si_evaluated_epoch si + 1" if "s \<in> set (si_evaluated_stamp si)" for s
    using assms that lt by (auto simp: batch_lists_def intro: le_less_trans)
  have "si_evaluated_stamp si ! n \<noteq> si_evaluated_epoch si + 1" if "n < node_count (si_topology si)" for n
    using assms old [of "si_evaluated_stamp si ! n"] that by (auto simp: batch_lists_def)
  moreover have "reset_evaluated_batch si = si\<lparr>si_evaluated_changes := [],
      si_evaluated_epoch := si_evaluated_epoch si + 1, si_direct_batch_valid := True\<rparr>"
    using False by (simp add: reset_evaluated_batch_def)
  ultimately show ?thesis using assms False old by (auto simp: batch_lists_def intro: order.strict_implies_order)
qed

lemma synchronize_ok:
  assumes ok: "running_ok m si"
  shows "running_ok m (snd (synchronize m si))"
proof -
  note okD = running_okD [OF ok]
  let ?s = "snd (synchronize m si)"
  let ?c = "si\<lparr>si_last_synchronized_count :=
         si_last_synchronized_count si + word_of_nat (length (filter (bound si) (newer_nodes si))),
       si_last_synchronized_revision := m_revision (si_state si)\<rparr>"
  have s: "?s = reset_evaluated_batch ?c" by (simp add: synchronize_eq [OF ok])
  have "batch_lists ?c" using okD(10) by (simp add: batch_lists_def)
  then have "batch_lists ?s" unfolding s by (rule reset_batch_lists)
  moreover have "batch_covers ?s"
    using clock_ok_nth [of "si_state si"] okD(2) by (auto simp: s batch_covers_def state_ok_def not_less)
  ultimately show ?thesis
    using okD by (simp add: running_ok_def s closable_def target_pool_ok_def targets_ok_def owners_ok_def epochs_ok_def ranks_ok_def)
qed

subsection \<open>The frame\<close>

lemma frame_time_bounds:
  assumes "0 < fs_delta (si_sequence si)" and "0 \<le> si_accumulator si"
  shows "0 \<le> frame_time d si" and "frame_time d si \<le> fs_delta (si_sequence si) * uint (si_max_catch_up si)"
  using assms by (simp_all add: frame_time_def Let_def)

lemma step_count_bounds:
  assumes "0 < fs_delta (si_sequence si)" and "0 \<le> si_accumulator si"
  shows "step_count d si \<le> unat (si_max_catch_up si)"
    and "int (step_count d si) = frame_time d si div fs_delta (si_sequence si)"
    and "frame_time d si - fs_delta (si_sequence si) * int (step_count d si) = frame_time d si mod fs_delta (si_sequence si)"
proof -
  let ?f = "fs_delta (si_sequence si)" and ?t = "frame_time d si"
  note b = frame_time_bounds [OF assms, of d]
  have "?t div ?f \<le> uint (si_max_catch_up si)"
    using b(2) assms(1) zdiv_mono1 [OF b(2) assms(1)] by simp
  moreover have "0 \<le> ?t div ?f" using b(1) assms(1) by (simp add: pos_imp_zdiv_nonneg_iff)
  moreover have "uint (si_max_catch_up si) = int (unat (si_max_catch_up si))" by simp
  ultimately show "int (step_count d si) = ?t div ?f" unfolding step_count_def by linarith
  then show "?t - ?f * int (step_count d si) = ?t mod ?f" by (simp add: minus_mult_div_eq_mod)
  show "step_count d si \<le> unat (si_max_catch_up si)" by (simp add: step_count_def)
qed

text \<open>The scene a frame synchronises.\<close>

definition frame_scene ::
  "('x, 'v, 'q, 'f) az_math \<Rightarrow> ('x, 'v, 'cfg, 'inp, 'b) batch_methods \<Rightarrow> int \<Rightarrow>
   ('x, 'v, 'b) scene_instance \<Rightarrow> ('x, 'v, 'b) scene_instance" where
  "frame_scene m bm frame_delta si =
     (let count = step_count frame_delta si;
          s = (advance_step m bm ^^ count) (si\<lparr>si_last_synchronized_count := 0, si_accumulator := frame_time frame_delta si\<rparr>);
          s = s\<lparr>si_accumulator := si_accumulator s - fs_delta (si_sequence si) * int count\<rparr>
      in if count = 0 \<and> has_dirty_transforms (si_state s) then evaluate_dirty m s else s)"

lemma advance_active:
  "si_active si \<Longrightarrow> advance m bm d si = synchronize m (frame_scene m bm d si)"
  by (simp add: advance_def frame_scene_def Let_def step_count_def frame_time_def)

lemma running_ok_accumulator:
  "running_ok m (si\<lparr>si_last_synchronized_count := c\<rparr>) = running_ok m si"
  "running_ok m (si\<lparr>si_accumulator := a\<rparr>) = running_ok m si"
  by (simp_all add: running_ok_def closable_def target_pool_ok_def targets_ok_def owners_ok_def epochs_ok_def
      batch_lists_def batch_covers_def ranks_ok_def)

definition frame_room :: "('x, 'v, 'b) scene_instance \<Rightarrow> bool" where
  "frame_room si \<longleftrightarrow> clock_room (unat (si_max_catch_up si)) si"

lemma clock_room_mono: "clock_room k si \<Longrightarrow> j \<le> k \<Longrightarrow> clock_room j si"
  using mult_le_mono1 [of j k "step_cost si"] unfolding clock_room_def by linarith

lemma frame_scene_ok:
  fixes si :: "('x, 'v, 'b) scene_instance"
  assumes ok: "scene_ok m si" and room: "frame_room si" and s_def: "s = frame_scene m bm d si"
  shows "running_ok m s" and "settled m s"
    and "si_accumulator s = frame_time d si mod fs_delta (si_sequence si)"
    and "fs_next_tick (si_sequence s) = fs_next_tick (si_sequence si) + word_of_nat (step_count d si)"
    and "fs_delta (si_sequence s) = fs_delta (si_sequence si)"
    and "si_topology s = si_topology si" "si_entity_bindings s = si_entity_bindings si" "si_max_catch_up s = si_max_catch_up si"
    and "si_active s = si_active si" "si_last_synchronized_count s = 0"
    and "si_last_synchronized_revision s = si_last_synchronized_revision si" "si_direct_batch_valid s = si_direct_batch_valid si"
    and "\<And>n. n < node_count (si_topology si) \<Longrightarrow> n \<notin> set (si_evaluated_changes s) \<Longrightarrow>
      world_stamp (si_state s) n = world_stamp (si_state si) n"
    and "set (si_evaluated_changes si) \<subseteq> set (si_evaluated_changes s)"
proof -
  let ?k = "step_count d si" and ?f = "fs_delta (si_sequence si)"
  define a where "a = si\<lparr>si_last_synchronized_count := 0, si_accumulator := frame_time d si\<rparr>"
  define b where "b = (advance_step m bm ^^ ?k) a"
  define c where "c = b\<lparr>si_accumulator := si_accumulator b - ?f * int ?k\<rparr>"
  have run: "running_ok m si" and acc: "0 \<le> si_accumulator si" using ok by (simp_all add: scene_ok_def)
  note cnt = step_count_bounds [OF running_okD(9) [OF run] acc, of d]
  have a: "running_ok m a" "frozen a = frozen (si\<lparr>si_last_synchronized_count := 0, si_accumulator := frame_time d si\<rparr>)"
    "si_state a = si_state si" "si_sequence a = si_sequence si" "si_topology a = si_topology si"
    "si_evaluated_changes a = si_evaluated_changes si"
    using run by (simp_all add: a_def running_ok_accumulator)
  have "clock_room ?k a"
    using clock_room_mono [OF room [unfolded frame_room_def] cnt(1)] by (simp add: a_def clock_room_def step_cost_def)
  note st = advance_steps_ok [OF a(1) this, of bm, folded b_def]
  have b: "running_ok m b" "stepped ?k a b" "?k \<noteq> 0 \<Longrightarrow> \<not> has_dirty_transforms (si_state b)" using st by simp_all
  have bf: "frozen b = frozen a" using b(2) by (simp add: stepped_def)
  note f = frozen_fields [OF bf]
  have c: "running_ok m c" "si_accumulator c = frame_time d si mod ?f"
    using b(1) f cnt(3) by (simp_all add: c_def running_ok_accumulator a_def)
  have s: "s = (if ?k = 0 \<and> has_dirty_transforms (si_state c) then evaluate_dirty m c else c)"
    unfolding s_def frame_scene_def Let_def a_def [symmetric] b_def [symmetric] c_def [symmetric]
    by (simp add: c_def)
  have moved: "\<And>n. n < node_count (si_topology si) \<Longrightarrow> n \<notin> set (si_evaluated_changes c) \<Longrightarrow>
      world_stamp (si_state c) n = world_stamp (si_state si) n"
    "set (si_evaluated_changes si) \<subseteq> set (si_evaluated_changes c)"
    using b(2) a by (simp_all add: stepped_def c_def)
  have tick: "fs_next_tick (si_sequence c) = fs_next_tick (si_sequence si) + word_of_nat ?k"
    using b(2) a by (simp add: stepped_def c_def)
  have cfields: "fs_delta (si_sequence c) = ?f" "si_topology c = si_topology si" "si_entity_bindings c = si_entity_bindings si"
    "si_max_catch_up c = si_max_catch_up si" "si_active c = si_active si" "si_last_synchronized_count c = 0"
    "si_last_synchronized_revision c = si_last_synchronized_revision si" "si_direct_batch_valid c = si_direct_batch_valid si"
    using f by (simp_all add: c_def a_def)
  have all: "running_ok m s \<and> \<not> has_dirty_transforms (si_state s) \<and> frozen s = frozen c \<and> si_sequence s = si_sequence c \<and>
      set (si_evaluated_changes c) \<subseteq> set (si_evaluated_changes s) \<and>
      (\<forall>n < node_count (si_topology si). n \<notin> set (si_evaluated_changes s) \<longrightarrow> world_stamp (si_state s) n = world_stamp (si_state c) n)"
  proof (cases "?k = 0 \<and> has_dirty_transforms (si_state c)")
    case True
    then have "c = si\<lparr>si_last_synchronized_count := 0, si_accumulator := frame_time d si\<rparr>"
      by (simp add: c_def b_def a_def)
    then have "m_revision (si_state c) \<noteq> - 1" using room max_u64_unat by (auto simp: frame_room_def clock_room_def)
    from evaluate_dirty_ok [OF c(1) this refl] True cfields show ?thesis by (simp add: s)
  next
    case False
    then have "\<not> has_dirty_transforms (si_state c)" using b(3) by (auto simp: c_def)
    with False c(1) show ?thesis by (auto simp: s)
  qed
  then have fr: "frozen s = frozen c" by simp
  note sf = frozen_fields [OF fr]
  show "running_ok m s" using all by simp
  then show "settled m s" using all running_okD(1,2) clean_settled by blast
  show "si_accumulator s = frame_time d si mod ?f" using sf c(2) by simp
  show "fs_next_tick (si_sequence s) = fs_next_tick (si_sequence si) + word_of_nat ?k"
    "fs_delta (si_sequence s) = ?f" using all tick cfields by simp_all
  show "si_topology s = si_topology si" "si_entity_bindings s = si_entity_bindings si" "si_max_catch_up s = si_max_catch_up si"
    "si_active s = si_active si" "si_last_synchronized_count s = 0"
    "si_last_synchronized_revision s = si_last_synchronized_revision si" "si_direct_batch_valid s = si_direct_batch_valid si"
    using sf cfields by simp_all
  show "set (si_evaluated_changes si) \<subseteq> set (si_evaluated_changes s)" using all moved(2) by blast
  show "world_stamp (si_state s) n = world_stamp (si_state si) n"
    if "n < node_count (si_topology si)" "n \<notin> set (si_evaluated_changes s)" for n
    using that all moved by auto
qed

text \<open>A new scene is well formed.\<close>

lemma rank_positions_nth:
  assumes "wf_polytree t" and "n < node_count t"
  shows "rank_positions (topological_order t) (replicate (node_count t) 0) ! n = rank t n"
proof -
  note wf = wf_orderD [OF assms(1)]
  have "length (topological_order t) = node_count t" by (metis card_lessThan distinct_card wf(1,2))
  then show ?thesis
    unfolding rank_positions_def using assms(2) wf by (intro fold_positions_nth) auto
qed

lemma new_instance_scene_ok:
  fixes m :: "('x, 'v, 'q, 'f) az_math"
  assumes wf: "wf_polytree t" and st: "state_ok t (policy_compose m) st"
    and fresh: "\<And>n. n < node_count t \<Longrightarrow> r_world_revision (m_records st ! n) = 0" and step: "0 < step"
  shows "scene_ok m (new_instance m t st ps step catch_up :: ('x, 'v, 'b) scene_instance)"
proof -
  let ?si = "new_instance m t st ps step catch_up :: ('x, 'v, 'b) scene_instance"
  have len: "length (m_records st) = node_count t" using st by (rule state_ok_length)
  have pieces: "closable ?si" "target_pool_ok ?si" "epochs_ok ?si"
    using new_instance_closable [OF len] new_instance_pool_ok by (auto simp: epochs_ok_def new_instance_def Let_def)
  have "batch_lists ?si" "batch_covers ?si" "ranks_ok ?si"
    using len fresh rank_positions_nth [OF wf]
    by (auto simp: batch_lists_def batch_covers_def ranks_ok_def new_instance_def Let_def state_size_def)
  moreover have "cache_coherent t (si_transform_workspace ?si)" "stamps_ok (si_transform_workspace ?si)"
    "am_topology_identity (si_motion ?si) = pt_identity t" "fs_delta (si_sequence ?si) = step" "si_accumulator ?si = 0"
    "si_topology ?si = t" "si_state ?si = st"
    by (simp_all add: new_instance_def Let_def cache_coherent_new stamps_ok_new new_motion_set_def)
  ultimately show ?thesis using pieces wf st step by (simp add: scene_ok_def running_ok_def)
qed

lemma scene_ok_outside:
  "scene_ok m (si\<lparr>si_partitions := ps, si_entity_bindings := es, si_active := a\<rparr>) = scene_ok m si"
  by (simp add: scene_ok_def running_ok_def closable_def target_pool_ok_def targets_ok_def owners_ok_def
      epochs_ok_def batch_lists_def batch_covers_def ranks_ok_def)

subsection \<open>A running scene\<close>

text \<open>The demo scene made active, with entity 5 bound to its node 1.\<close>

definition demo_running :: "(int, int, unit) scene_instance" where
  "demo_running =
     set_scene_active True
       (demo_reserved\<lparr>si_entity_bindings := (si_entity_bindings demo_reserved)[1 := \<lparr>et_entity = Some 5, et_node_to_target = 0\<rparr>]\<rparr>)"

lemma demo_running_ok: "scene_ok int_math demo_running" "layout_ok demo_running" "frame_room demo_running"
  "si_active demo_running" "running_ok int_math demo_running"
proof -
  have st: "state_ok small_tree (policy_compose int_math) small_state"
    using initial_system_ok [OF small_initial]
    by (simp add: system_ok_def policy_compose_def [abs_def] int_math_def)
  have fresh: "r_world_revision (m_records small_state ! n) = 0" if "n < node_count small_tree" for n
    using that by (auto simp: small_tree_def small_state_def make_state_def fresh_record_def less_4)
  have base: "scene_ok int_math demo_scene"
    unfolding demo_scene_def by (rule new_instance_scene_ok [OF small_tree_wf st fresh]) simp_all
  have eq: "demo_running = demo_scene\<lparr>si_partitions := si_partitions demo_running,
      si_entity_bindings := si_entity_bindings demo_running, si_active := True\<rparr>"
    by (simp add: demo_running_def set_scene_active_def demo_reserved_def reserve_slot_def split: prod.split)
  show ok: "scene_ok int_math demo_running"
    using base by (subst eq) (simp only: scene_ok_outside)
  then show "running_ok int_math demo_running" by (simp add: scene_ok_def)
  show "layout_ok demo_running" unfolding layout_ok_def by (intro conjI; code_simp)
  show "si_active demo_running" by code_simp
  have "unat (m_revision (si_state demo_running)) = 0" "step_cost demo_running = 5" "unat (si_max_catch_up demo_running) = 4"
    "unat (fs_next_tick (si_sequence demo_running)) = 0" "unat (si_command_epoch demo_running) = 1" by code_simp+
  then show "frame_room demo_running" by (simp add: frame_room_def clock_room_def)
qed

subsection \<open>Properties of the frame\<close>

lemma filter_members: "ys = filter P xs \<Longrightarrow> ys = filter (\<lambda>x. x \<in> set ys) xs"
  by (auto intro: filter_cong)

lemma synchronize_state:
  assumes "running_ok m si"
  shows "si_state (snd (synchronize m si)) = si_state si" "si_topology (snd (synchronize m si)) = si_topology si"
    "si_sequence (snd (synchronize m si)) = si_sequence si" "si_accumulator (snd (synchronize m si)) = si_accumulator si"
    "si_max_catch_up (snd (synchronize m si)) = si_max_catch_up si"
    "si_entity_bindings (snd (synchronize m si)) = si_entity_bindings si"
    "si_last_synchronized_revision (snd (synchronize m si)) = m_revision (si_state si)"
  by (simp_all add: synchronize_eq [OF assms])

text \<open>C23. Time is neither lost nor run twice, up to the configured backlog. A frame of an active scene
  takes as many whole fixed steps as the accumulated time, cut to the backlog of the catch-up limit,
  holds, at most that limit; the tick counts them, the rest stays in the accumulator, below one step,
  and the scene is well formed again.\<close>

theorem frame_time_is_accounted:
  assumes "scene_ok m si" and "frame_room si" and "si_active si"
    and "advance m bm frame_delta si = (writes, si')"
  shows "\<exists>steps \<le> unat (si_max_catch_up si).
    fs_next_tick (si_sequence si') = fs_next_tick (si_sequence si) + word_of_nat steps \<and>
    fs_delta (si_sequence si) * int steps + si_accumulator si' =
      min (si_accumulator si + max frame_delta 0) (fs_delta (si_sequence si) * uint (si_max_catch_up si)) \<and>
    0 \<le> si_accumulator si' \<and> si_accumulator si' < fs_delta (si_sequence si) \<and> scene_ok m si'"
proof -
  let ?f = "fs_delta (si_sequence si)" and ?t = "frame_time frame_delta si" and ?k = "step_count frame_delta si"
  note f = frame_scene_ok [OF assms(1,2) refl, where bm = bm and d = frame_delta]
  have run: "running_ok m si" and acc: "0 \<le> si_accumulator si" using assms(1) by (simp_all add: scene_ok_def)
  note pos = running_okD(9) [OF run]
  note cnt = step_count_bounds [OF pos acc, of frame_delta]
  have si': "si' = snd (synchronize m (frame_scene m bm frame_delta si))"
    using assms(4) by (simp add: advance_active [OF assms(3)])
  note s = synchronize_state [OF f(1), folded si']
  have a: "si_accumulator si' = ?t mod ?f" using s f(3) by simp
  then have b: "0 \<le> si_accumulator si'" "si_accumulator si' < ?f" using pos by simp_all
  moreover have "running_ok m si'" using synchronize_ok [OF f(1)] by (simp add: si')
  ultimately have "scene_ok m si'" using s f(5) by (simp add: scene_ok_def)
  moreover have "?f * int ?k + si_accumulator si' = ?t" using a cnt(3) by simp
  moreover have "?t = min (si_accumulator si + max frame_delta 0) (?f * uint (si_max_catch_up si))"
    by (simp add: frame_time_def Let_def min_def)
  moreover have "fs_next_tick (si_sequence si') = fs_next_tick (si_sequence si) + word_of_nat ?k" using s f(4) by simp
  ultimately show ?thesis using cnt(1) b by (intro exI [of _ ?k]) simp
qed

theorem frame_time_is_accounted_witness:
  "\<exists>steps \<le> unat (si_max_catch_up demo_running).
    16 * int steps + si_accumulator (snd (advance int_math demo_methods 40 demo_running)) = 40 \<and>
    scene_ok int_math (snd (advance int_math demo_methods 40 demo_running))"
proof -
  have f: "fs_delta (si_sequence demo_running) = 16" "si_accumulator demo_running = 0" "uint (si_max_catch_up demo_running) = 4"
    by code_simp+
  show ?thesis
    using frame_time_is_accounted [OF demo_running_ok(1,3,4), of demo_methods 40] unfolding f
    by (cases "advance int_math demo_methods 40 demo_running") fastforce
qed

text \<open>C24. The queue of evaluated nodes is only an optimisation: synchronising a well-formed scene from
  it gives the same calls to the writer, in the same order, and the same scene as searching all
  nodes for revisions newer than the last synchronisation.\<close>

theorem direct_batch_is_the_revision_query:
  assumes "running_ok m si"
  shows "synchronize m si = synchronize m (si\<lparr>si_direct_batch_valid := False\<rparr>)"
proof -
  let ?q = "si\<lparr>si_direct_batch_valid := False\<rparr>"
  have frame: "closable ?q = closable si" "target_pool_ok ?q = target_pool_ok si" "epochs_ok ?q = epochs_ok si"
    "batch_lists ?q = batch_lists si" "ranks_ok ?q = ranks_ok si"
    by (simp_all add: closable_def target_pool_ok_def targets_ok_def owners_ok_def epochs_ok_def batch_lists_def ranks_ok_def)
  have "batch_covers ?q" using running_okD(11) [OF assms] by (simp add: batch_covers_def)
  then have q: "running_ok m ?q" using assms by (simp add: running_ok_def frame)
  have "newer_nodes ?q = newer_nodes si" "bound ?q = bound si" "entity_write m ?q = entity_write m si"
    by (simp_all add: newer_nodes_def bound_def [abs_def] entity_write_def [abs_def])
  then show ?thesis
    unfolding synchronize_eq [OF assms] synchronize_eq [OF q] by (simp add: reset_evaluated_batch_def Let_def)
qed

theorem direct_batch_is_the_revision_query_witness:
  "si_direct_batch_valid demo_running \<and> synchronize int_math demo_running =
     synchronize int_math (demo_running\<lparr>si_direct_batch_valid := False\<rparr>)"
proof
  show "si_direct_batch_valid demo_running" by code_simp
qed (rule direct_batch_is_the_revision_query [OF demo_running_ok(5)])

text \<open>C25. After a frame every bound entity is up to date. No node of the scene is dirty and the world of
  every node is the composition of the locals along its path from the root. The writer was called
  for bound nodes only, parents before children, at most once for each, with the node's new world
  and the offset of its entity; and for every bound node whose world the frame changed.\<close>

theorem frame_writes_bring_entities_up_to_date:
  assumes "scene_ok m si" and "frame_room si" and "si_active si"
    and "advance m bm frame_delta si = (writes, si')"
  shows "\<not> has_dirty_transforms (si_state si') \<and>
    (\<forall>n < node_count (si_topology si).
       path_world (si_topology si) (policy_compose m) (local_of (si_state si')) n (world_of (si_state si') n)) \<and>
    (\<exists>nodes. writes = map (entity_write m si') nodes \<and>
       nodes = filter (\<lambda>n. n \<in> set nodes) (topological_order (si_topology si)) \<and>
       (\<forall>n \<in> set nodes. bound si n) \<and>
       (\<forall>n < node_count (si_topology si). bound si n \<longrightarrow>
          world_of (si_state si') n \<noteq> world_of (si_state si) n \<longrightarrow> n \<in> set nodes))"
proof -
  let ?s = "frame_scene m bm frame_delta si" and ?t = "si_topology si"
  note f = frame_scene_ok [OF assms(1,2) refl, where bm = bm and d = frame_delta]
  have adv: "synchronize m ?s = (writes, si')" using assms(4) by (simp add: advance_active [OF assms(3)])
  then have si': "si' = snd (synchronize m ?s)" by simp
  note s = synchronize_state [OF f(1), folded si']
  define ns where "ns = filter (bound ?s) (newer_nodes ?s)"
  have writes: "writes = map (entity_write m si') ns"
    using adv s by (simp add: synchronize_eq [OF f(1)] entity_write_def [abs_def] ns_def)
  have bd: "bound ?s = bound si" using f(7) by (simp add: bound_def [abs_def])
  have order: "ns = filter (\<lambda>n. bound si n \<and>
      si_last_synchronized_revision si < r_world_revision (record_at (si_state ?s) n)) (topological_order ?t)"
    using f(6,11) by (simp add: newer_nodes_def changed_transform_nodes_since_def bd conj_commute ns_def)
  then have nodes: "ns = filter (\<lambda>n. n \<in> set ns) (topological_order ?t)"
    by (rule filter_members)
  have moved: "n \<in> set ns" if n: "n < node_count ?t" "bound si n"
    and w: "world_of (si_state si') n \<noteq> world_of (si_state si) n" for n
  proof -
        have "n \<in> set (si_evaluated_changes ?s)"
      using f(13) [OF n(1)] w s(1) by (auto simp: world_stamp_def world_of_def record_at_def)
    with f(1) [THEN running_okD(11)] n(1) f(6) have "n \<in> set (newer_nodes ?s)"
      using running_okD(1) [OF f(1)] by (simp add: batch_covers_def newer_nodes_def changed_transform_nodes_since_def
          record_at_def wf_orderD)
    with n(2) show ?thesis by (simp add: bd ns_def)
  qed
  have "settled m ?s" by (rule f(2))
  then have "settled m si'" using s by (simp add: settled_def)
  then have "\<not> has_dirty_transforms (si_state si')" "\<forall>n < node_count ?t.
      path_world ?t (policy_compose m) (local_of (si_state si')) n (world_of (si_state si') n)"
    using f(6) s(2) by (simp_all add: settled_def)
  moreover have "\<forall>n \<in> set ns. bound si n" by (simp add: ns_def bd)
  ultimately show ?thesis using writes nodes moved by blast
qed

theorem frame_writes_bring_entities_up_to_date_witness:
  "\<exists>writes si'. advance int_math demo_methods 10 demo_running = (writes, si') \<and> writes = [(Some 5, 11)] \<and>
    \<not> has_dirty_transforms (si_state si')"
proof -
  obtain writes si' where a: "advance int_math demo_methods 10 demo_running = (writes, si')" by fastforce
  have "fst (advance int_math demo_methods 10 demo_running) = [(Some 5, 11)]" by code_simp
  with a frame_writes_bring_entities_up_to_date [OF demo_running_ok(1,3,4) a] show ?thesis by simp
qed

subsection \<open>Correcting a world transform\<close>

lemma path_world_ancestors:
  "path_world t compose loc n w \<Longrightarrow> (\<And>a. descends t a n \<Longrightarrow> loc a = loc' a) \<Longrightarrow> path_world t compose loc' n w"
proof (induction rule: path_world.induct)
  case (path_root n)
  then show ?case using path_world.path_root [of t n compose loc'] by (simp add: descends_refl)
next
  case (path_child n p w)
  have "loc n = loc' n" by (intro path_child.prems descends_refl)
  moreover have "path_world t compose loc' p w"
    by (intro path_child.IH path_child.prems descends_step [OF _ path_child.hyps(1)])
  ultimately show ?case using path_world.path_child [OF path_child.hyps(1)] by metis
qed

lemma running_ok_set_local:
  assumes ok: "running_ok m si"
  shows "running_ok m (si\<lparr>si_state := snd (set_local n loc (si_state si))\<rparr>)"
proof -
  let ?st = "snd (set_local n loc (si_state si))" and ?q = "si\<lparr>si_state := snd (set_local n loc (si_state si))\<rparr>"
  note okD = running_okD [OF ok]
  have mono: "m_revision (si_state si) \<le> m_revision ?st"
    using set_local_revision [of "si_state si" n loc] by (auto intro: order.strict_implies_order)
  have "r_world_revision (m_records ?st ! k) = r_world_revision (m_records (si_state si) ! k)" for k
    using set_local_stamp [of n loc "si_state si" k] by (simp add: world_stamp_def)
  then have "batch_covers ?q" using okD(11) mono by (auto simp: batch_covers_def)
  moreover have "closable ?q = closable si" "target_pool_ok ?q = target_pool_ok si" "epochs_ok ?q = epochs_ok si"
    "batch_lists ?q = batch_lists si" "ranks_ok ?q = ranks_ok si"
    by (simp_all add: closable_def target_pool_ok_def targets_ok_def owners_ok_def epochs_ok_def batch_lists_def ranks_ok_def
        length_set_local)
  ultimately show ?thesis using ok state_ok_set_local [OF okD(1,2)] by (simp add: running_ok_def)
qed

lemma running_ok_settled: "running_ok m si \<Longrightarrow> \<not> has_dirty_transforms (si_state si) \<Longrightarrow> settled m si"
  by (intro clean_settled running_okD)

lemma clean_or_evaluated:
  assumes "running_ok m si" and "unat (m_revision (si_state si)) < 2 ^ 64 - 1"
    and s_def: "s = (if has_dirty_transforms (si_state si) then evaluate_dirty m si else si)"
  shows "running_ok m s" "settled m s" "si_topology s = si_topology si" "si_partitions s = si_partitions si"
    "unat (m_revision (si_state s)) \<le> unat (m_revision (si_state si)) + 1"
    "\<And>n. n < node_count (si_topology si) \<Longrightarrow> local_of (si_state s) n = local_of (si_state si) n"
proof -
  have "m_revision (si_state si) \<noteq> - 1" using assms(2) max_u64_unat by auto
  note e = evaluate_dirty_ok [OF assms(1) this refl]
  show run: "running_ok m s" using e(1) assms(1) by (simp add: s_def)
  show "settled m s" by (rule running_ok_settled [OF run]) (use e(6) in \<open>simp add: s_def\<close>)
  show "si_topology s = si_topology si" "si_partitions s = si_partitions si"
    "unat (m_revision (si_state s)) \<le> unat (m_revision (si_state si)) + 1"
    using frozen_fields [OF e(2)] e(4) by (simp_all add: s_def clock_le_def)
  show "local_of (si_state s) n = local_of (si_state si) n" if "n < node_count (si_topology si)" for n
    using e(7) [OF that] by (simp add: s_def)
qed

text \<open>A corrected world is reached. If the engine's inverse undoes a transform, correcting the world of
  a node of the scene succeeds, and the next evaluation gives the node exactly that world; no
  other node's local changes.\<close>

theorem corrected_worlds_are_reached:
  assumes "running_ok m si" and "layout_ok si" and "unat (m_revision (si_state si)) + 2 < 2 ^ 64 - 1"
    and "\<And>p x. az_mul m p (az_mul m (az_inverse m p) x) = x"
    and "find_node_binding (si_partitions si) node = Some binding"
    and "correct_world m node world si = (ok, si')"
  shows "ok \<and> world_of (si_state (evaluate_dirty m si')) (rb_node binding) = world \<and>
    (\<forall>n < node_count (si_topology si). n \<noteq> rb_node binding \<longrightarrow>
       local_of (si_state (evaluate_dirty m si')) n = local_of (si_state si) n)"
proof -
  let ?t = "si_topology si" and ?n = "rb_node binding"
  define s where "s = (if has_dirty_transforms (si_state si) then evaluate_dirty m si else si)"
  define loc where "loc = (case parent ?t ?n of None \<Rightarrow> world
    | Some p \<Rightarrow> az_mul m (az_inverse m (world_of (si_state s) p)) world)"
  have room: "unat (m_revision (si_state si)) < 2 ^ 64 - 1" using assms(3) by simp
  note c = clean_or_evaluated [OF assms(1) room s_def]
  have n: "?n < node_count ?t"
    using find_node_binding_bound [OF assms(2,5)] assms(2) by (simp add: layout_ok_def)
  have wf: "wf_polytree ?t" by (rule running_okD(1) [OF assms(1)])
  have rev: "m_revision (si_state s) \<noteq> - 1" using c(5) assms(3) max_u64_unat by auto
  have "length (m_records (si_state s)) = node_count ?t" using state_ok_length [OF running_okD(2) [OF c(1)]] c(3) by simp
  then have set_ok: "fst (set_local ?n loc (si_state s)) = te_none" using n rev by (simp add: set_local_ok)
  have si': "ok" "si' = s\<lparr>si_state := snd (set_local ?n loc (si_state s))\<rparr>"
    using assms(5,6) set_ok unfolding correct_world_def Let_def s_def [symmetric]
    by (auto simp: c(3) loc_def [symmetric] split: prod.splits)
  have run': "running_ok m si'" unfolding si'(2) by (rule running_ok_set_local [OF c(1)])
  have "unat (m_revision (si_state si')) \<le> unat (m_revision (si_state s)) + 1"
    using set_local_ok_revision [OF set_ok] unat_next [OF rev] by (simp add: si'(2))
  then have rev': "m_revision (si_state si') \<noteq> - 1" using c(5) assms(3) max_u64_unat by auto
  define e where "e = evaluate_dirty m si'"
  note ev = evaluate_dirty_ok [OF run' rev' e_def]
  have top: "si_topology e = ?t" "si_topology si' = ?t" using frozen_fields [OF ev(2)] c(3) by (simp_all add: si'(2))
  have loc': "local_of (si_state e) k = (if k = ?n then loc else local_of (si_state s) k)" if "k < node_count ?t" for k
    using ev(7) [of k] that by (simp add: top c(3) si'(2) local_of_def record_at_def set_local_other set_local_ok_record [OF set_ok])
  have path: "path_world ?t (policy_compose m) (local_of (si_state e)) k (world_of (si_state e) k)" if "k < node_count ?t" for k
    using running_ok_settled [OF ev(1,6)] that by (simp add: settled_def top)
  have "world_of (si_state e) ?n = world"
  proof (cases "parent ?t ?n")
    case None
    from path [OF n] have "world_of (si_state e) ?n = local_of (si_state e) ?n"
      using None by (cases rule: path_world.cases) simp_all
    then show ?thesis using loc' [OF n] None by (simp add: loc_def)
  next
    case (Some p)
    note p = wf_parentD [OF wf n Some]
    have anc: "local_of (si_state s) a = local_of (si_state e) a" if "descends ?t a p" for a
    proof -
      have "a < node_count ?t" "a \<noteq> ?n" using descends_rank [OF wf that p(1)] p(2) by auto
      then show ?thesis using loc' [of a] by simp
    qed
    have "path_world ?t (policy_compose m) (local_of (si_state s)) p (world_of (si_state s) p)"
      using c(2,3) p(1) by (simp add: settled_def)
    then have "path_world ?t (policy_compose m) (local_of (si_state e)) p (world_of (si_state s) p)"
      by (rule path_world_ancestors) (rule anc)
    then have pw: "world_of (si_state e) p = world_of (si_state s) p"
      by (rule path_world_deterministic [OF path [OF p(1)]])
    have "path_world ?t (policy_compose m) (local_of (si_state e)) ?n
        (policy_compose m (world_of (si_state e) p) (local_of (si_state e) ?n))"
      using Some path [OF p(1)] by (rule path_child)
    then have "world_of (si_state e) ?n = policy_compose m (world_of (si_state e) p) (local_of (si_state e) ?n)"
      by (rule path_world_deterministic [OF path [OF n]])
    then show ?thesis using loc' [OF n] Some assms(4) by (simp add: pw loc_def policy_compose_def)
  qed
  moreover have "local_of (si_state e) k = local_of (si_state si) k" if "k < node_count ?t" "k \<noteq> ?n" for k
    using loc' [OF that(1)] that c(6) by simp
  ultimately show ?thesis using si'(1) by (simp add: e_def)
qed

theorem corrected_worlds_are_reached_witness:
  "case correct_world int_math \<lparr>nh_slot = demo_slot, nh_binding_id = ''b''\<rparr> 77 demo_running of
     (ok, si') \<Rightarrow> ok \<and> world_of (si_state (evaluate_dirty int_math si')) 1 = 77"
proof -
  obtain ok si' where a: "correct_world int_math \<lparr>nh_slot = demo_slot, nh_binding_id = ''b''\<rparr> 77 demo_running = (ok, si')" by fastforce
  have b: "find_node_binding (si_partitions demo_running) \<lparr>nh_slot = demo_slot, nh_binding_id = ''b''\<rparr> =
      Some \<lparr>rb_binding_id = ''b'', rb_node = 1, rb_initial_local = 10\<rparr>" by code_simp
  have room: "unat (m_revision (si_state demo_running)) + 2 < 2 ^ 64 - 1"
  proof -
    have "unat (m_revision (si_state demo_running)) = 0" by code_simp
    then show ?thesis by simp
  qed
  have "az_mul int_math p (az_mul int_math (az_inverse int_math p) x) = x" for p x by (simp add: int_math_def)
  from corrected_worlds_are_reached [OF demo_running_ok(5,2) room this b a] show ?thesis by (simp add: a)
qed

end
