(* ===== verification/Task_Executor.thy ===== *)
theory Task_Executor
  imports Prelude
begin

section \<open>The thread pool of the parallel evaluation\<close>

text \<open>
  \<open>src/cpu_task_executor.cpp\<close>: one calling thread and a fixed set of workers. Every section under
  the mutex and every atomic operation is one step, and steps of different threads interleave
  freely. A thread whose wait predicate fails sleeps until it is notified, so that a missing
  notification would show as a deadlock. The callback is seen as the list of index ranges it was
  called with, in the order the calls happen. A \<open>size_t\<close> that is added to is a natural number
  modulo \<open>2 ^ 64\<close>; the statistics are words.
\<close>

subsection \<open>Threads and shared state\<close>

text \<open>Where a thread is in \<open>drain_job\<close>: the loop test, the claim of a chunk, the callback, the count.\<close>

datatype drain_pc = At_load | At_fetch | At_call nat | At_count

datatype worker_pc = W_check | W_sleeping | W_take | W_drain drain_pc | W_finish | W_exit

datatype caller_pc =
    C_idle | C_notify | C_drain drain_pc | C_check | C_sleeping | C_stop_notify | C_join | C_gone

record pool_worker =
  pw_pc :: worker_pc
  pw_observed :: u64

record executor =
  x_workers :: "pool_worker list"
  x_caller :: caller_pc
  x_next :: nat
  x_count :: nat
  x_grain :: nat
  x_remaining :: nat
  x_generation :: u64
  x_stopping :: bool
  x_task_count :: u64
  x_dispatch_count :: u64
  x_requested :: nat
  x_calls :: "(nat \<times> nat) list"

definition worker_total :: "nat \<Rightarrow> nat \<Rightarrow> nat" where
  "worker_total requested hardware =
     (let hardware = max 1 hardware; automatic = min 15 (hardware - 1)
      in if requested = 0 then automatic else requested)"

definition new_executor :: "nat \<Rightarrow> executor" where
  "new_executor n_workers =
     \<lparr>x_workers = replicate n_workers \<lparr>pw_pc = W_check, pw_observed = 0\<rparr>, x_caller = C_idle, x_next = 0, x_count = 0,
      x_grain = 1, x_remaining = 0, x_generation = 0, x_stopping = False, x_task_count = 0, x_dispatch_count = 0,
      x_requested = 0, x_calls = []\<rparr>"

subsection \<open>Steps\<close>

text \<open>One step of \<open>drain_job\<close>; \<open>None\<close> when its loop ends.\<close>

definition drain_step :: "drain_pc \<Rightarrow> executor \<Rightarrow> drain_pc option \<times> executor" where
  "drain_step pc s =
     (case pc of
        At_load \<Rightarrow> (if x_next s < x_count s then Some At_fetch else None, s)
      | At_fetch \<Rightarrow>
          (Some (if x_next s < x_count s then At_call (x_next s) else At_load),
           s\<lparr>x_next := (x_next s + x_grain s) mod 2 ^ 64\<rparr>)
      | At_call first \<Rightarrow>
          (Some At_count, s\<lparr>x_calls := x_calls s @ [(first, min ((first + x_grain s) mod 2 ^ 64) (x_count s))]\<rparr>)
      | At_count \<Rightarrow> (Some At_load, s\<lparr>x_task_count := x_task_count s + 1\<rparr>))"

definition set_worker :: "nat \<Rightarrow> pool_worker \<Rightarrow> executor \<Rightarrow> executor" where
  "set_worker i w s = s\<lparr>x_workers := (x_workers s)[i := w]\<rparr>"

definition wake_worker :: "pool_worker \<Rightarrow> pool_worker" where
  "wake_worker w = (if pw_pc w = W_sleeping then w\<lparr>pw_pc := W_check\<rparr> else w)"

definition wake_workers :: "executor \<Rightarrow> executor" where
  "wake_workers s = s\<lparr>x_workers := map wake_worker (x_workers s)\<rparr>"

definition wake_caller :: "executor \<Rightarrow> executor" where
  "wake_caller s = (if x_caller s = C_sleeping then s\<lparr>x_caller := C_check\<rparr> else s)"

definition worker_step :: "nat \<Rightarrow> executor \<Rightarrow> executor option" where
  "worker_step i s =
     (let w = x_workers s ! i in
      case pw_pc w of
        W_check \<Rightarrow>
          Some (set_worker i (w\<lparr>pw_pc := if x_stopping s then W_exit
                                        else if x_generation s \<noteq> pw_observed w then W_take else W_sleeping\<rparr>) s)
      | W_sleeping \<Rightarrow> None
      | W_take \<Rightarrow> Some (set_worker i (w\<lparr>pw_observed := x_generation s, pw_pc := W_drain At_load\<rparr>) s)
      | W_drain pc \<Rightarrow>
          (case drain_step pc s of
             (next_pc, s) \<Rightarrow>
               Some (set_worker i (w\<lparr>pw_pc := case next_pc of None \<Rightarrow> W_finish | Some pc \<Rightarrow> W_drain pc\<rparr>) s))
      | W_finish \<Rightarrow>
          (let s = s\<lparr>x_remaining := x_remaining s - 1\<rparr>;
               s = (if x_remaining s = 0 then wake_caller s else s)
           in Some (set_worker i (w\<lparr>pw_pc := W_check\<rparr>) s))
      | W_exit \<Rightarrow> None)"

definition caller_step :: "executor \<Rightarrow> executor option" where
  "caller_step s =
     (case x_caller s of
        C_idle \<Rightarrow> None
      | C_notify \<Rightarrow> Some ((wake_workers s)\<lparr>x_caller := C_drain At_load\<rparr>)
      | C_drain pc \<Rightarrow>
          (case drain_step pc s of
             (next_pc, s) \<Rightarrow> Some (s\<lparr>x_caller := case next_pc of None \<Rightarrow> C_check | Some pc \<Rightarrow> C_drain pc\<rparr>))
      | C_check \<Rightarrow> Some (s\<lparr>x_caller := if x_remaining s = 0 then C_idle else C_sleeping\<rparr>)
      | C_sleeping \<Rightarrow> None
      | C_stop_notify \<Rightarrow> Some ((wake_workers s)\<lparr>x_caller := C_join\<rparr>)
      | C_join \<Rightarrow> if list_all (\<lambda>w. pw_pc w = W_exit) (x_workers s) then Some (s\<lparr>x_caller := C_gone\<rparr>) else None
      | C_gone \<Rightarrow> None)"

text \<open>The call of \<open>execute\<close> up to the publication of the job; small work runs on the caller at once.\<close>

definition begin_execute :: "nat \<Rightarrow> nat \<Rightarrow> executor \<Rightarrow> executor" where
  "begin_execute n_items minimum_grain s =
     (let grain = max 1 minimum_grain;
          s = s\<lparr>x_requested := n_items, x_calls := []\<rparr>
      in if n_items = 0 then s
         else if x_workers s = [] \<or> n_items div grain < 2 then s\<lparr>x_calls := [(0, n_items)]\<rparr>
         else s\<lparr>x_count := n_items, x_grain := grain, x_next := 0, x_remaining := length (x_workers s),
                x_generation := x_generation s + 1, x_dispatch_count := x_dispatch_count s + 1,
                x_caller := C_notify\<rparr>)"

definition begin_destroy :: "executor \<Rightarrow> executor" where
  "begin_destroy s = s\<lparr>x_stopping := True, x_generation := x_generation s + 1, x_caller := C_stop_notify\<rparr>"

definition reset_statistics :: "executor \<Rightarrow> executor" where
  "reset_statistics s = s\<lparr>x_task_count := 0, x_dispatch_count := 0\<rparr>"

text \<open>The sizes the counters can hold: every thread may claim once beyond the end.\<close>

definition fits :: "nat \<Rightarrow> nat \<Rightarrow> executor \<Rightarrow> bool" where
  "fits n_items minimum_grain s \<longleftrightarrow> n_items + max 1 minimum_grain * (length (x_workers s) + 2) < 2 ^ 64"

inductive progress :: "executor \<Rightarrow> executor \<Rightarrow> bool" where
  worker_moves: "i < length (x_workers s) \<Longrightarrow> worker_step i s = Some s' \<Longrightarrow> progress s s'"
| caller_moves: "caller_step s = Some s' \<Longrightarrow> progress s s'"

inductive executor_step :: "executor \<Rightarrow> executor \<Rightarrow> bool" where
  moves: "progress s s' \<Longrightarrow> executor_step s s'"
| spurious_worker: "i < length (x_workers s) \<Longrightarrow> pw_pc (x_workers s ! i) = W_sleeping \<Longrightarrow>
    executor_step s (set_worker i ((x_workers s ! i)\<lparr>pw_pc := W_check\<rparr>) s)"
| spurious_caller: "x_caller s = C_sleeping \<Longrightarrow> executor_step s (s\<lparr>x_caller := C_check\<rparr>)"
| executes: "x_caller s = C_idle \<Longrightarrow> fits n_items grain s \<Longrightarrow> executor_step s (begin_execute n_items grain s)"
| destroys: "x_caller s = C_idle \<Longrightarrow> executor_step s (begin_destroy s)"
| resets: "x_caller s = C_idle \<Longrightarrow> executor_step s (reset_statistics s)"

inductive reachable_executor :: "executor \<Rightarrow> bool" where
  starts: "reachable_executor (new_executor n_workers)"
| continues: "reachable_executor s \<Longrightarrow> executor_step s s' \<Longrightarrow> reachable_executor s'"

subsection \<open>The invariant\<close>

text \<open>A worker owes the current job its decrement until it has finished it.\<close>

definition owes :: "u64 \<Rightarrow> pool_worker \<Rightarrow> bool" where
  "owes g w \<longleftrightarrow>
     (case pw_pc w of
        W_check \<Rightarrow> pw_observed w \<noteq> g
      | W_sleeping \<Rightarrow> pw_observed w \<noteq> g
      | W_exit \<Rightarrow> False
      | _ \<Rightarrow> True)"

definition debt :: "executor \<Rightarrow> nat" where
  "debt s = length (filter (owes (x_generation s)) (x_workers s))"

definition worker_ok :: "u64 \<Rightarrow> bool \<Rightarrow> bool \<Rightarrow> pool_worker \<Rightarrow> bool" where
  "worker_ok g stopping notifying w \<longleftrightarrow>
     (case pw_pc w of
        W_check \<Rightarrow> True
      | W_sleeping \<Rightarrow> pw_observed w = g \<or> notifying
      | W_take \<Rightarrow> pw_observed w \<noteq> g
      | W_exit \<Rightarrow> stopping
      | _ \<Rightarrow> pw_observed w = g)"

definition worker_drain :: "pool_worker \<Rightarrow> drain_pc multiset" where
  "worker_drain w = (case pw_pc w of W_drain pc \<Rightarrow> {#pc#} | _ \<Rightarrow> {#})"

definition caller_drain :: "caller_pc \<Rightarrow> drain_pc multiset" where
  "caller_drain c = (case c of C_drain pc \<Rightarrow> {#pc#} | _ \<Rightarrow> {#})"

definition drains :: "executor \<Rightarrow> drain_pc multiset" where
  "drains s = caller_drain (x_caller s) + sum_list (map worker_drain (x_workers s))"

definition in_call :: "drain_pc \<Rightarrow> nat multiset" where
  "in_call pc = (case pc of At_call first \<Rightarrow> {#first#} | _ \<Rightarrow> {#})"

text \<open>
  A published job: \<open>n\<close> chunks are claimed; those below the end have been called or are about to be,
  each once. \<open>D\<close> are the threads that drain it.
\<close>

definition claimed_chunks :: "nat \<Rightarrow> nat \<Rightarrow> nat \<Rightarrow> nat list" where
  "claimed_chunks grain amount n = filter (\<lambda>a. a < amount) (map (\<lambda>k. k * grain) [0..<n])"

lemma claimed_Suc: "mset (claimed_chunks g c (Suc n)) =
    (if n * g < c then add_mset (n * g) (mset (claimed_chunks g c n)) else mset (claimed_chunks g c n))"
  by (simp add: claimed_chunks_def)

definition job_ok :: "drain_pc multiset \<Rightarrow> executor \<Rightarrow> bool" where
  "job_ok D s \<longleftrightarrow>
     0 < x_grain s \<and> x_requested s = x_count s \<and>
     x_count s + x_grain s * (length (x_workers s) + 2) < 2 ^ 64 \<and>
     x_next s + x_grain s * count D At_fetch < x_count s + x_grain s * (length (x_workers s) + 1) \<and>
     (\<forall>(a, b) \<in> set (x_calls s). b = min (a + x_grain s) (x_count s)) \<and>
     (\<exists>n. x_next s = n * x_grain s \<and>
        mset (map fst (x_calls s)) + sum_mset (image_mset in_call D) =
        mset (claimed_chunks (x_grain s) (x_count s) n))"

definition calls_on :: "nat \<Rightarrow> executor \<Rightarrow> nat" where
  "calls_on i s = length (filter (\<lambda>(a, b). a \<le> i \<and> i < b) (x_calls s))"

definition covered :: "executor \<Rightarrow> bool" where
  "covered s \<longleftrightarrow> (\<forall>i. calls_on i s = (if i < x_requested s then 1 else 0))"

definition caller_ok :: "executor \<Rightarrow> bool" where
  "caller_ok s \<longleftrightarrow>
     (case x_caller s of
        C_idle \<Rightarrow> x_remaining s = 0 \<and> covered s
      | C_notify \<Rightarrow> job_ok (drains s) s
      | C_drain pc \<Rightarrow> job_ok (drains s) s
      | C_check \<Rightarrow> job_ok (drains s) s \<and> x_count s \<le> x_next s
      | C_sleeping \<Rightarrow> job_ok (drains s) s \<and> x_count s \<le> x_next s \<and> x_remaining s \<noteq> 0
      | _ \<Rightarrow> True)"

definition notifying :: "caller_pc \<Rightarrow> bool" where
  "notifying c \<longleftrightarrow> c = C_notify \<or> c = C_stop_notify"

definition stops :: "caller_pc \<Rightarrow> bool" where
  "stops c \<longleftrightarrow> c = C_stop_notify \<or> c = C_join \<or> c = C_gone"

definition executor_ok :: "executor \<Rightarrow> bool" where
  "executor_ok s \<longleftrightarrow>
     (\<forall>w \<in> set (x_workers s). worker_ok (x_generation s) (x_stopping s) (notifying (x_caller s)) w) \<and>
     x_stopping s = stops (x_caller s) \<and>
     (if x_stopping s
      then \<forall>w \<in> set (x_workers s). pw_observed w \<noteq> x_generation s \<and> pw_pc w \<in> {W_check, W_sleeping, W_exit}
      else x_remaining s = debt s) \<and>
     caller_ok s"

subsection \<open>Draining a job\<close>

lemma drains_size: "size (drains s) \<le> length (x_workers s) + 1"
proof -
  have "size (sum_list (map worker_drain ws)) \<le> length ws" for ws
    by (induction ws) (auto simp: worker_drain_def split: worker_pc.split)
  from this [of "x_workers s"] show ?thesis by (auto simp: drains_def caller_drain_def split: caller_pc.split)
qed

text \<open>One step of one draining thread, the others being \<open>R\<close>.\<close>

lemma job_drain_step:
  assumes "job_ok (add_mset pc R) s" and "size R \<le> length (x_workers s)"
    and "drain_step pc s = (next_pc, s')"
  shows "job_ok (R + (case next_pc of None \<Rightarrow> {#} | Some pc \<Rightarrow> {#pc#})) s'"
    and "next_pc = None \<Longrightarrow> x_count s' \<le> x_next s'" and "x_next s \<le> x_next s'"
    and "x_workers s' = x_workers s" "x_caller s' = x_caller s" "x_remaining s' = x_remaining s"
    "x_generation s' = x_generation s" "x_stopping s' = x_stopping s" "x_count s' = x_count s" "x_grain s' = x_grain s"
proof -
  obtain n where n: "x_next s = n * x_grain s"
    "mset (map fst (x_calls s)) + sum_mset (image_mset in_call (add_mset pc R)) =
      mset (claimed_chunks (x_grain s) (x_count s) n)"
    using assms(1) by (auto simp: job_ok_def)
  have g: "0 < x_grain s" "x_requested s = x_count s" "x_count s + x_grain s * (length (x_workers s) + 2) < 2 ^ 64"
    "x_next s + x_grain s * count (add_mset pc R) At_fetch < x_count s + x_grain s * (length (x_workers s) + 1)"
    "\<forall>(a, b) \<in> set (x_calls s). b = min (a + x_grain s) (x_count s)"
    using assms(1) by (simp_all add: job_ok_def)
  have cR: "count R At_fetch \<le> length (x_workers s)" using assms(2) count_le_size [of R At_fetch] by linarith
  show "x_workers s' = x_workers s" "x_caller s' = x_caller s" "x_remaining s' = x_remaining s"
    "x_generation s' = x_generation s" "x_stopping s' = x_stopping s" "x_count s' = x_count s" "x_grain s' = x_grain s"
    using assms(3) by (auto simp: drain_step_def split: drain_pc.splits)
  show "next_pc = None \<Longrightarrow> x_count s' \<le> x_next s'"
    using assms(3) by (auto simp: drain_step_def split: drain_pc.splits if_splits)
  have fetch: "pc = At_fetch \<Longrightarrow> (x_next s + x_grain s) mod 2 ^ 64 = x_next s + x_grain s"
    using g(3,4) by simp
  show "x_next s \<le> x_next s'"
    using assms(3) fetch by (auto simp: drain_step_def split: drain_pc.splits)
  show "job_ok (R + (case next_pc of None \<Rightarrow> {#} | Some pc \<Rightarrow> {#pc#})) s'"
  proof (cases pc)
    case At_load
    have "x_grain s * (count R At_fetch + 1) \<le> x_grain s * (length (x_workers s) + 1)" using cR by simp
    then have "x_next s < x_count s \<Longrightarrow>
        x_next s + x_grain s * (count R At_fetch + 1) < x_count s + x_grain s * (length (x_workers s) + 1)" by linarith
    with At_load assms(3) n g show ?thesis
      by (auto simp: drain_step_def job_ok_def in_call_def split: if_splits)
  next
    case At_fetch
    have next': "x_next s + x_grain s = Suc n * x_grain s" using n(1) by simp
    have "x_next s + x_grain s + x_grain s * count R At_fetch < x_count s + x_grain s * (length (x_workers s) + 1)"
      using g(4) At_fetch by simp
    with At_fetch assms(3) n g next' fetch [OF At_fetch] claimed_Suc [of "x_grain s" "x_count s" n] show ?thesis
      by (auto simp: drain_step_def job_ok_def in_call_def split: if_splits intro!: exI [of _ "Suc n"])
  next
    case (At_call first)
    have "first \<in># mset (claimed_chunks (x_grain s) (x_count s) n)"
      unfolding n(2) [symmetric] by (simp add: At_call in_call_def)
    then have "first < x_count s" by (simp add: claimed_chunks_def)
    then have "(first + x_grain s) mod 2 ^ 64 = first + x_grain s" using g(3) by simp
    with At_call assms(3) n g show ?thesis
      by (auto simp: drain_step_def job_ok_def in_call_def)
  next
    case At_count
    with assms(3) n g show ?thesis by (auto simp: drain_step_def job_ok_def in_call_def)
  qed
qed

text \<open>A drained job: every index was in exactly one call.\<close>

lemma chunk_unique:
  fixes g :: nat
  assumes "0 < g"
  shows "k * g \<le> i \<and> i < k * g + g \<longleftrightarrow> k = i div g"
proof
  assume "k * g \<le> i \<and> i < k * g + g"
  then have "i - k * g < g" "i = k * g + (i - k * g)" by auto
  then show "k = i div g" by (metis add.commute assms div_less div_mult_self3 less_not_refl2 add_0)
next
  assume "k = i div g"
  then show "k * g \<le> i \<and> i < k * g + g"
    using div_mult_mod_eq [of i g] mod_less_divisor [OF assms, of i] by (intro conjI; simp only:; linarith)
qed

lemma length_filter_mset: "mset xs = mset ys \<Longrightarrow> length (filter P xs) = length (filter P ys)"
  by (metis mset_filter size_mset)

lemma job_covered:
  assumes "job_ok {#} s" and "x_count s \<le> x_next s"
  shows "covered s"
  unfolding covered_def
proof
  fix i
  let ?g = "x_grain s" and ?c = "x_count s"
  obtain n where n: "x_next s = n * ?g"
    "mset (map fst (x_calls s)) = mset (claimed_chunks ?g ?c n)"
    and g: "0 < ?g" "x_requested s = ?c" and ends: "\<forall>(a, b) \<in> set (x_calls s). b = min (a + ?g) ?c"
    using assms(1) by (auto simp: job_ok_def)
  let ?Q = "\<lambda>a. a \<le> i \<and> i < min (a + ?g) ?c"
  have "filter (\<lambda>(a, b). a \<le> i \<and> i < b) (x_calls s) = filter (\<lambda>ab. ?Q (fst ab)) (x_calls s)"
    using ends by (intro filter_cong) auto
  then have "calls_on i s = length (filter ?Q (map fst (x_calls s)))"
    by (simp add: calls_on_def filter_map comp_def)
  also have "\<dots> = length (filter ?Q (claimed_chunks ?g ?c n))" by (rule length_filter_mset [OF n(2)])
  also have "\<dots> = length (filter (\<lambda>k. k * ?g < ?c \<and> ?Q (k * ?g)) [0..<n])"
    unfolding claimed_chunks_def filter_map filter_filter length_map comp_def ..
  also have "filter (\<lambda>k. k * ?g < ?c \<and> ?Q (k * ?g)) [0..<n] = filter (\<lambda>k. k = i div ?g \<and> i < ?c) [0..<n]"
    using chunk_unique [OF g(1), of _ i] le_less_trans [OF div_times_less_eq_dividend [of i ?g], of ?c]
    by (intro filter_cong) auto
  also have "length \<dots> = (if i < x_requested s then 1 else 0)"
  proof (cases "i < ?c")
    case True
    then have "i div ?g < n" using assms(2) n(1) g(1) by (metis div_less_iff_less_mult less_le_trans)
    moreover have "length (filter (\<lambda>k. k = j) [0..<n]) = 1" if "j < n" for j
      using that by (induction n) (auto simp: less_Suc_eq)
    ultimately show ?thesis using True g(2) by simp
  qed (simp add: g(2))
  finally show "calls_on i s = (if i < x_requested s then 1 else 0)" .
qed

subsection \<open>Every step keeps the invariant\<close>

lemma sum_list_split:
  fixes f :: "'a \<Rightarrow> 'm :: comm_monoid_add"
  assumes "i < length xs"
  obtains R where "sum_list (map f xs) = f (xs ! i) + R" and "\<And>x. sum_list (map f (xs[i := x])) = f x + R"
proof
  let ?R = "sum_list (map f (take i xs)) + sum_list (map f (drop (Suc i) xs))"
  show "sum_list (map f xs) = f (xs ! i) + ?R"
    by (subst id_take_nth_drop [OF assms]) (simp add: add_ac)
  show "sum_list (map f (xs[i := x])) = f x + ?R" for x
    by (simp add: upd_conv_take_nth_drop [OF assms] add_ac)
qed

lemma debt_sum: "length (filter P xs) = sum_list (map (\<lambda>x. if P x then 1 else 0) xs)"
  by (induction xs) simp_all

lemma executor_okD:
  assumes "executor_ok s"
  shows "\<And>w. w \<in> set (x_workers s) \<Longrightarrow> worker_ok (x_generation s) (x_stopping s) (notifying (x_caller s)) w"
    "x_stopping s = stops (x_caller s)" "\<not> x_stopping s \<Longrightarrow> x_remaining s = debt s"
    "\<And>w. x_stopping s \<Longrightarrow> w \<in> set (x_workers s) \<Longrightarrow>
      pw_observed w \<noteq> x_generation s \<and> pw_pc w \<in> {W_check, W_sleeping, W_exit}" "caller_ok s"
  using assms by (auto simp: executor_ok_def split: if_splits)

lemma debt_pos: "w \<in> set (x_workers s) \<Longrightarrow> owes (x_generation s) w \<Longrightarrow> 0 < debt s"
  by (auto simp: debt_def length_greater_0_conv filter_empty_conv simp del: length_greater_0_conv intro!: length_pos_if_in_set)

lemma job_ok_load [simp]: "job_ok (add_mset At_load D) s = job_ok D s"
  by (simp add: job_ok_def in_call_def)

lemma job_ok_cong:
  assumes "x_grain s' = x_grain s" "x_requested s' = x_requested s" "x_count s' = x_count s"
    "length (x_workers s') = length (x_workers s)" "x_next s' = x_next s" "x_calls s' = x_calls s"
  shows "job_ok D s' = job_ok D s"
  using assms by (simp add: job_ok_def)

text \<open>A worker that drains or owes keeps the caller from being idle.\<close>

lemma owing_caller:
  assumes "executor_ok s" and "i < length (x_workers s)" and "owes (x_generation s) (x_workers s ! i)"
    and "\<not> x_stopping s"
  shows "x_remaining s \<noteq> 0" "job_ok (drains s) s"
proof -
  have "0 < debt s" using assms(2,3) by (intro debt_pos [of "x_workers s ! i"]) simp_all
  then show "x_remaining s \<noteq> 0" using executor_okD(3) [OF assms(1,4)] by simp
  then show "job_ok (drains s) s"
    using executor_okD(2,5) [OF assms(1)] assms(4) by (auto simp: caller_ok_def stops_def split: caller_pc.splits)
qed

lemma set_worker_fields [simp]:
  "x_workers (set_worker i w s) = (x_workers s)[i := w]" "x_caller (set_worker i w s) = x_caller s"
  "x_next (set_worker i w s) = x_next s" "x_count (set_worker i w s) = x_count s" "x_grain (set_worker i w s) = x_grain s"
  "x_remaining (set_worker i w s) = x_remaining s" "x_generation (set_worker i w s) = x_generation s"
  "x_stopping (set_worker i w s) = x_stopping s" "x_requested (set_worker i w s) = x_requested s"
  "x_calls (set_worker i w s) = x_calls s"
  by (simp_all add: set_worker_def)

lemma worker_split:
  assumes "i < length (x_workers s)"
  obtains R k where "drains s = worker_drain (x_workers s ! i) + R" and "size R \<le> length (x_workers s)"
    and "\<And>w s'. x_workers s' = (x_workers s)[i := w] \<Longrightarrow> x_caller s' = x_caller s \<Longrightarrow> drains s' = worker_drain w + R"
    and "debt s = (if owes (x_generation s) (x_workers s ! i) then 1 else 0) + k"
    and "\<And>w s'. x_workers s' = (x_workers s)[i := w] \<Longrightarrow> x_generation s' = x_generation s \<Longrightarrow>
      debt s' = (if owes (x_generation s) w then 1 else 0) + k"
proof -
  obtain Q where Q: "sum_list (map worker_drain (x_workers s)) = worker_drain (x_workers s ! i) + Q"
    "\<And>w. sum_list (map worker_drain ((x_workers s)[i := w])) = worker_drain w + Q"
    by (rule sum_list_split [OF assms, where f = worker_drain]) blast
  obtain k :: nat where k: "sum_list (map (\<lambda>w. if owes (x_generation s) w then 1 else 0) (x_workers s)) =
      (if owes (x_generation s) (x_workers s ! i) then 1 else 0) + k"
    "\<And>w. sum_list (map (\<lambda>w. if owes (x_generation s) w then 1 else 0) ((x_workers s)[i := w])) =
      (if owes (x_generation s) w then 1 else 0) + k"
    by (rule sum_list_split [OF assms, where f = "\<lambda>w. if owes (x_generation s) w then 1 else 0 :: nat"]) blast
  let ?R = "caller_drain (x_caller s) + Q"
  have d: "drains s' = worker_drain w + ?R" if "x_workers s' = (x_workers s)[i := w]" "x_caller s' = x_caller s" for w s'
    using that Q(2) by (simp add: drains_def ac_simps)
  let ?w = "\<lparr>pw_pc = W_drain At_load, pw_observed = 0\<rparr>"
  have "size (drains (set_worker i ?w s)) \<le> length (x_workers s) + 1"
    using drains_size [of "set_worker i ?w s"] by simp
  then have "size ?R \<le> length (x_workers s)" using d [of "set_worker i ?w s" ?w] by (simp add: worker_drain_def)
  moreover have "drains s = worker_drain (x_workers s ! i) + ?R" using Q(1) by (simp add: drains_def ac_simps)
  moreover have "debt s = (if owes (x_generation s) (x_workers s ! i) then 1 else 0) + k"
    unfolding debt_def debt_sum by (rule k(1))
  moreover have "debt s' = (if owes (x_generation s) w then 1 else 0) + k"
    if "x_workers s' = (x_workers s)[i := w]" "x_generation s' = x_generation s" for w s'
    unfolding debt_def debt_sum that by (rule k(2))
  ultimately show thesis using that d by blast
qed

lemma executor_ok_set_worker:
  assumes ok: "executor_ok s" and i: "i < length (x_workers s)"
    and w: "worker_ok (x_generation s) (x_stopping s) (notifying (x_caller s)) w"
      "\<not> x_stopping s \<Longrightarrow> owes (x_generation s) w = owes (x_generation s) (x_workers s ! i)"
      "x_stopping s \<Longrightarrow> pw_observed w \<noteq> x_generation s \<and> pw_pc w \<in> {W_check, W_sleeping, W_exit}"
    and s': "x_workers s' = (x_workers s)[i := w]" "x_caller s' = x_caller s" "x_generation s' = x_generation s"
      "x_stopping s' = x_stopping s" "x_remaining s' = x_remaining s"
    and caller: "caller_ok s'"
  shows "executor_ok s'"
proof -
  obtain k where k: "debt s = (if owes (x_generation s) (x_workers s ! i) then 1 else 0) + k"
    "\<And>w s'. x_workers s' = (x_workers s)[i := w] \<Longrightarrow> x_generation s' = x_generation s \<Longrightarrow>
      debt s' = (if owes (x_generation s) w then 1 else 0) + k"
    by (rule worker_split [OF i]) blast
  note okD = executor_okD [OF ok]
  have "debt s' = debt s" if "\<not> x_stopping s" using k(1) k(2) [OF s'(1,3)] w(2) [OF that] by simp
  moreover have "\<forall>v \<in> set (x_workers s'). worker_ok (x_generation s) (x_stopping s) (notifying (x_caller s)) v"
    using okD(1) w(1) set_update_subset_insert [of "x_workers s" i w] s'(1) by auto
  moreover have "\<forall>v \<in> set (x_workers s'). pw_observed v \<noteq> x_generation s \<and> pw_pc v \<in> {W_check, W_sleeping, W_exit}"
    if "x_stopping s" using okD(4) [OF that] w(3) [OF that] set_update_subset_insert [of "x_workers s" i w] s'(1) by auto
  ultimately show ?thesis using okD(2,3) caller s' by (simp add: executor_ok_def)
qed

lemma caller_ok_same_drains:
  assumes "caller_ok s" and "drains s' = drains s \<or> drains s' = add_mset At_load (drains s)"
    and "x_grain s' = x_grain s" "x_requested s' = x_requested s" "x_count s' = x_count s"
    "length (x_workers s') = length (x_workers s)" "x_next s' = x_next s" "x_calls s' = x_calls s"
    "x_caller s' = x_caller s" "x_remaining s' = x_remaining s"
  shows "caller_ok s'"
proof -
  have "job_ok (drains s') s' = job_ok (drains s) s"
    using assms(2) job_ok_cong [OF assms(3-8)] by (metis job_ok_load)
  moreover have "covered s' = covered s" using assms(4,8) by (simp add: covered_def calls_on_def)
  ultimately show ?thesis using assms(1) unfolding caller_ok_def assms(5,7,9,10)
    by (cases "x_caller s") simp_all
qed

lemma worker_step_ok:
  assumes ok: "executor_ok s" and i: "i < length (x_workers s)" and step: "worker_step i s = Some s'"
  shows "executor_ok s'"
proof -
  define w where "w = x_workers s ! i"
  note okD = executor_okD [OF ok]
  have mem: "w \<in> set (x_workers s)" using i by (simp add: w_def)
  obtain R k where dr: "drains s = worker_drain w + R" and size: "size R \<le> length (x_workers s)"
    and dr': "\<And>w s'. x_workers s' = (x_workers s)[i := w] \<Longrightarrow> x_caller s' = x_caller s \<Longrightarrow> drains s' = worker_drain w + R"
    and de: "debt s = (if owes (x_generation s) w then 1 else 0) + k"
    and de': "\<And>w s'. x_workers s' = (x_workers s)[i := w] \<Longrightarrow> x_generation s' = x_generation s \<Longrightarrow>
      debt s' = (if owes (x_generation s) w then 1 else 0) + k"
    by (rule worker_split [OF i, folded w_def]) (rule that, assumption+)
  have wok: "worker_ok (x_generation s) (x_stopping s) (notifying (x_caller s)) w" by (rule okD(1) [OF mem])
  show ?thesis
  proof (cases "pw_pc w")
    case W_check
    let ?v = "w\<lparr>pw_pc := if x_stopping s then W_exit else if x_generation s \<noteq> pw_observed w then W_take else W_sleeping\<rparr>"
    have s': "s' = set_worker i ?v s" using step W_check by (simp add: worker_step_def w_def [symmetric] Let_def)
    have "drains s' = drains s" using dr dr' [of s' ?v] by (simp add: s' worker_drain_def W_check)
    then have caller: "caller_ok s'" by (intro caller_ok_same_drains [OF okD(5)]) (simp_all add: s')
    have v: "worker_ok (x_generation s) (x_stopping s) (notifying (x_caller s)) ?v"
      "\<not> x_stopping s \<Longrightarrow> owes (x_generation s) ?v = owes (x_generation s) (x_workers s ! i)"
      "x_stopping s \<Longrightarrow> pw_observed ?v \<noteq> x_generation s \<and> pw_pc ?v \<in> {W_check, W_sleeping, W_exit}"
      using okD(4) [OF _ mem] by (auto simp: worker_ok_def owes_def W_check w_def [symmetric])
    show ?thesis by (rule executor_ok_set_worker [OF ok i v]) (simp_all add: s' caller [unfolded s'])
  next
    case W_take
    then have run: "\<not> x_stopping s" using okD(4) [OF _ mem] by auto
    let ?v = "w\<lparr>pw_observed := x_generation s, pw_pc := W_drain At_load\<rparr>"
    have s': "s' = set_worker i ?v s" using step W_take by (simp add: worker_step_def w_def [symmetric] Let_def)
    have "drains s' = add_mset At_load (drains s)" using dr dr' [of s' ?v] by (simp add: s' worker_drain_def W_take)
    then have caller: "caller_ok s'" by (intro caller_ok_same_drains [OF okD(5)]) (simp_all add: s')
    have v: "worker_ok (x_generation s) (x_stopping s) (notifying (x_caller s)) ?v"
      "\<not> x_stopping s \<Longrightarrow> owes (x_generation s) ?v = owes (x_generation s) (x_workers s ! i)"
      "x_stopping s \<Longrightarrow> pw_observed ?v \<noteq> x_generation s \<and> pw_pc ?v \<in> {W_check, W_sleeping, W_exit}"
      using run by (simp_all add: worker_ok_def owes_def W_take w_def [symmetric])
    show ?thesis by (rule executor_ok_set_worker [OF ok i v]) (simp_all add: s' caller [unfolded s'])
  next
    case (W_drain pc)
    then have run: "\<not> x_stopping s" using okD(4) [OF _ mem] by auto
    have "owes (x_generation s) (x_workers s ! i)" by (simp add: owes_def W_drain w_def [symmetric])
    note busy = owing_caller [OF ok i this run]
    obtain next_pc t where t: "drain_step pc s = (next_pc, t)" by fastforce
    have "job_ok (add_mset pc R) s" using busy(2) dr by (simp add: worker_drain_def W_drain)
    note j = job_drain_step [OF this size t]
    let ?v = "w\<lparr>pw_pc := case next_pc of None \<Rightarrow> W_finish | Some pc \<Rightarrow> W_drain pc\<rparr>"
    have s': "s' = set_worker i ?v t" using step W_drain t by (simp add: worker_step_def w_def [symmetric] Let_def)
    have "drains s' = R + (case next_pc of None \<Rightarrow> {#} | Some pc \<Rightarrow> {#pc#})"
      using dr' [of s' ?v] j(4,5) by (simp add: s' worker_drain_def split: option.split)
    moreover have "job_ok D s' = job_ok D t" for D by (rule job_ok_cong) (simp_all add: s')
    ultimately have job: "job_ok (drains s') s'" using j(1) by simp
    have caller: "caller_ok s'"
      using okD(5) job j busy(1) executor_okD(2) [OF ok] run
      by (auto simp: caller_ok_def s' stops_def split: caller_pc.splits)
    have v: "worker_ok (x_generation s) (x_stopping s) (notifying (x_caller s)) ?v"
      "\<not> x_stopping s \<Longrightarrow> owes (x_generation s) ?v = owes (x_generation s) (x_workers s ! i)"
      "x_stopping s \<Longrightarrow> pw_observed ?v \<noteq> x_generation s \<and> pw_pc ?v \<in> {W_check, W_sleeping, W_exit}"
      using wok run by (simp_all add: worker_ok_def owes_def W_drain w_def [symmetric] split: option.split)
    show ?thesis by (rule executor_ok_set_worker [OF ok i v]) (simp_all add: s' j caller [unfolded s'])
  next
    case W_finish
    then have run: "\<not> x_stopping s" using okD(4) [OF _ mem] by auto
    have owes: "owes (x_generation s) w" by (simp add: owes_def W_finish)
    then have "owes (x_generation s) (x_workers s ! i)" by (simp add: w_def)
    note busy = owing_caller [OF ok i this run]
    let ?t = "s\<lparr>x_remaining := x_remaining s - 1\<rparr>" and ?v = "w\<lparr>pw_pc := W_check\<rparr>"
    let ?c = "if x_remaining s - 1 = 0 \<and> x_caller s = C_sleeping then C_check else x_caller s"
    have s': "s' = set_worker i ?v (?t\<lparr>x_caller := ?c\<rparr>)"
      using step W_finish by (auto simp: worker_step_def w_def [symmetric] Let_def wake_caller_def)
    have obs: "pw_observed w = x_generation s" using wok by (simp add: worker_ok_def W_finish)
    have "debt s' = k" using de' [of s' ?v] by (simp add: s' owes_def obs)
    then have "x_remaining s' = debt s'" using okD(3) [OF run] de owes by (simp add: s')
    moreover have dr_same: "drains s' = drains s"
    proof -
      have "drains (set_worker i ?v s) = drains s" using dr dr' [of "set_worker i ?v s" ?v] by (simp add: worker_drain_def W_finish)
      then show ?thesis by (simp add: s' drains_def caller_drain_def)
    qed
    moreover have "job_ok D s' = job_ok D s" for D by (rule job_ok_cong) (simp_all add: s')
    ultimately have "caller_ok s'"
      using okD(5) busy executor_okD(2) [OF ok] run
      by (auto simp: caller_ok_def s' stops_def split: caller_pc.splits)
    moreover have "x_stopping s' = stops (x_caller s')" "notifying (x_caller s') = notifying (x_caller s)"
      "x_stopping s' = x_stopping s" "x_generation s' = x_generation s"
      using okD(2) by (auto simp: s' stops_def notifying_def)
    moreover have "\<forall>v \<in> set (x_workers s'). worker_ok (x_generation s) (x_stopping s) (notifying (x_caller s)) v"
      using okD(1) set_update_subset_insert [of "x_workers s" i ?v] by (auto simp: s' worker_ok_def)
    ultimately show ?thesis using run \<open>x_remaining s' = debt s'\<close> by (simp add: executor_ok_def)
  qed (use step in \<open>simp_all add: worker_step_def w_def [symmetric]\<close>)
qed

lemma wake_worker_fields [simp]:
  "pw_observed (wake_worker w) = pw_observed w" "owes g (wake_worker w) = owes g w" "worker_drain (wake_worker w) = worker_drain w"
  by (auto simp: wake_worker_def owes_def worker_drain_def)

lemma wake_worker_ok: "worker_ok g b n w \<Longrightarrow> worker_ok g b n' (wake_worker w)"
  by (auto simp: wake_worker_def worker_ok_def split: worker_pc.splits)

lemma wake_workers_fields [simp]:
  "x_workers (wake_workers s) = map wake_worker (x_workers s)" "x_generation (wake_workers s) = x_generation s"
  "x_stopping (wake_workers s) = x_stopping s" "x_remaining (wake_workers s) = x_remaining s"
  "x_grain (wake_workers s) = x_grain s" "x_count (wake_workers s) = x_count s" "x_next (wake_workers s) = x_next s"
  "x_requested (wake_workers s) = x_requested s" "x_calls (wake_workers s) = x_calls s"
  by (simp_all add: wake_workers_def)

lemma filter_wake: "length (filter (owes g) (map wake_worker ws)) = length (filter (owes g) ws)"
  by (simp add: filter_map comp_def)

text \<open>Only the place of the caller changes.\<close>

lemma executor_ok_caller:
  assumes ok: "executor_ok s" and s': "x_workers s' = x_workers s" "x_generation s' = x_generation s"
      "x_stopping s' = x_stopping s" "x_remaining s' = x_remaining s"
    and c: "stops (x_caller s') = stops (x_caller s)" "notifying (x_caller s') \<or> \<not> notifying (x_caller s)" and "caller_ok s'"
  shows "executor_ok s'"
proof -
  note okD = executor_okD [OF ok]
  have "worker_ok g b n w \<Longrightarrow> n' \<or> \<not> n \<Longrightarrow> worker_ok g b n' w" for g b n n' w
    by (auto simp: worker_ok_def split: worker_pc.splits)
  then have "\<forall>w \<in> set (x_workers s). worker_ok (x_generation s) (x_stopping s) (notifying (x_caller s')) w"
    using okD(1) c(2) by blast
  moreover have "debt s' = debt s" by (simp add: debt_def s')
  ultimately show ?thesis using okD(2-4) assms by (simp add: executor_ok_def)
qed

lemma no_drains:
  assumes "\<And>w. w \<in> set (x_workers s) \<Longrightarrow> \<not> owes (x_generation s) w" and "caller_drain (x_caller s) = {#}"
  shows "drains s = {#}"
proof -
  have "worker_drain w = {#}" if "w \<in> set (x_workers s)" for w
    using assms(1) [OF that] by (auto simp: worker_drain_def owes_def split: worker_pc.splits)
  then have "sum_list (map worker_drain (x_workers s)) = {#}" by (simp add: sum_list_0 cong: map_cong)
  with assms(2) show ?thesis by (simp add: drains_def)
qed

lemma no_debt: "executor_ok s \<Longrightarrow> \<not> x_stopping s \<Longrightarrow> x_remaining s = 0 \<Longrightarrow> w \<in> set (x_workers s) \<Longrightarrow> \<not> owes (x_generation s) w"
  using executor_okD(3) debt_pos by fastforce

lemma notified_ok:
  assumes ok: "executor_ok s" and n: "notifying (x_caller s)" and c: "\<not> notifying c" "stops c = stops (x_caller s)"
    and "caller_ok (s\<lparr>x_workers := map wake_worker (x_workers s), x_caller := c\<rparr>)"
  shows "executor_ok (s\<lparr>x_workers := map wake_worker (x_workers s), x_caller := c\<rparr>)"
proof -
  note okD = executor_okD [OF ok]
  have "\<forall>w \<in> set (map wake_worker (x_workers s)). worker_ok (x_generation s) (x_stopping s) (notifying c) w"
    using okD(1) by (auto intro: wake_worker_ok)
  moreover have "\<forall>w \<in> set (map wake_worker (x_workers s)). pw_observed w \<noteq> x_generation s \<and> pw_pc w \<in> {W_check, W_sleeping, W_exit}"
    if "x_stopping s" using okD(4) [OF that] by (auto simp: wake_worker_def)
  moreover have "debt (s\<lparr>x_workers := map wake_worker (x_workers s), x_caller := c\<rparr>) = debt s"
    by (simp add: debt_def filter_map comp_def)
  ultimately show ?thesis using okD(2,3) assms(5) c(2) by (simp add: executor_ok_def)
qed

lemma caller_step_ok:
  assumes ok: "executor_ok s" and step: "caller_step s = Some s'"
  shows "executor_ok s'"
proof -
  note okD = executor_okD [OF ok]
  have run: "\<not> stops (x_caller s) \<Longrightarrow> \<not> x_stopping s" using okD(2) by simp
  have cong: "job_ok D (s\<lparr>x_caller := c\<rparr>) = job_ok D s" for D c by (rule job_ok_cong) simp_all
  show ?thesis
  proof (cases "x_caller s")
    case C_notify
    have s': "s' = s\<lparr>x_workers := map wake_worker (x_workers s), x_caller := C_drain At_load\<rparr>"
      using step C_notify by (simp add: caller_step_def wake_workers_def)
    have "drains s' = add_mset At_load (drains s)"
      by (simp add: s' drains_def caller_drain_def C_notify comp_def)
    moreover have "job_ok D s' = job_ok D s" for D by (rule job_ok_cong) (simp_all add: s')
    ultimately have "caller_ok s'" using okD(5) by (simp add: caller_ok_def C_notify) (simp add: s')
    then show ?thesis unfolding s' by (intro notified_ok [OF ok]) (simp_all add: C_notify notifying_def stops_def)
  next
    case (C_drain pc)
    obtain next_pc t where t: "drain_step pc s = (next_pc, t)" by fastforce
    let ?R = "sum_list (map worker_drain (x_workers s))"
    have dr: "drains s = add_mset pc ?R" by (simp add: drains_def caller_drain_def C_drain)
    then have size: "size ?R \<le> length (x_workers s)" using drains_size [of s] by simp
    have "job_ok (add_mset pc ?R) s" using okD(5) dr by (simp add: caller_ok_def C_drain)
    note j = job_drain_step [OF this size t]
    have s': "s' = t\<lparr>x_caller := case next_pc of None \<Rightarrow> C_check | Some pc \<Rightarrow> C_drain pc\<rparr>"
      using step C_drain t by (simp add: caller_step_def)
    have "drains s' = ?R + (case next_pc of None \<Rightarrow> {#} | Some pc \<Rightarrow> {#pc#})"
      using j(4) by (simp add: s' drains_def caller_drain_def split: option.split)
    moreover have "job_ok D s' = job_ok D t" for D by (rule job_ok_cong) (simp_all add: s')
    ultimately have "job_ok (drains s') s'" using j(1) by simp
    then have "caller_ok s'" using j(2) by (cases next_pc) (simp_all add: caller_ok_def s')
    then show ?thesis
      using j(4-8) by (intro executor_ok_caller [OF ok]) (simp_all add: s' C_drain stops_def notifying_def split: option.split)
  next
    case C_check
    have s': "s' = s\<lparr>x_caller := if x_remaining s = 0 then C_idle else C_sleeping\<rparr>"
      using step C_check by (simp add: caller_step_def)
    have job: "job_ok (drains s) s" "x_count s \<le> x_next s" using okD(5) by (simp_all add: caller_ok_def C_check)
    have "caller_ok s'"
    proof (cases "x_remaining s = 0")
      case True
      have "drains s = {#}"
        using no_debt [OF ok run True] by (intro no_drains) (auto simp: C_check stops_def caller_drain_def)
      then have "covered s" using job by (intro job_covered) simp_all
      with True show ?thesis by (simp add: s' caller_ok_def covered_def calls_on_def)
    next
      case False
      moreover have "drains s' = drains s" using False by (simp add: s' drains_def caller_drain_def C_check)
      ultimately show ?thesis using job by (simp add: s' caller_ok_def cong)
    qed
    then show ?thesis by (intro executor_ok_caller [OF ok]) (simp_all add: s' C_check stops_def notifying_def)
  next
    case C_stop_notify
    have s': "s' = s\<lparr>x_workers := map wake_worker (x_workers s), x_caller := C_join\<rparr>"
      using step C_stop_notify by (simp add: caller_step_def wake_workers_def)
    show ?thesis unfolding s'
      by (intro notified_ok [OF ok]) (simp_all add: C_stop_notify notifying_def stops_def caller_ok_def)
  next
    case C_join
    then have "s' = s\<lparr>x_caller := C_gone\<rparr>" using step by (simp add: caller_step_def split: if_splits)
    then show ?thesis by (intro executor_ok_caller [OF ok]) (simp_all add: C_join stops_def notifying_def caller_ok_def)
  qed (use step in \<open>simp_all add: caller_step_def\<close>)
qed

lemma begin_execute_ok:
  assumes ok: "executor_ok s" and idle: "x_caller s = C_idle" and "fits n_items grain s"
  shows "executor_ok (begin_execute n_items grain s)"
proof -
  note okD = executor_okD [OF ok]
  have run: "\<not> x_stopping s" using okD(2) idle by (simp add: stops_def)
  have rem: "x_remaining s = 0" using okD(5) idle by (simp add: caller_ok_def)
  note free = no_debt [OF ok run rem]
  let ?g = "max 1 grain"
  show ?thesis
  proof (cases "n_items = 0 \<or> x_workers s = [] \<or> n_items div ?g < 2")
    case True
    let ?s = "begin_execute n_items grain s"
    have s: "?s = s\<lparr>x_requested := n_items, x_calls := if n_items = 0 then [] else [(0, n_items)]\<rparr>"
      using True by (auto simp: begin_execute_def Let_def)
    have "caller_ok ?s" using idle rem by (simp add: s caller_ok_def covered_def calls_on_def)
    then show ?thesis by (intro executor_ok_caller [OF ok]) (simp_all add: s)
  next
    case False
    let ?s = "begin_execute n_items grain s"
    have s: "?s = s\<lparr>x_requested := n_items, x_calls := [], x_count := n_items, x_grain := ?g, x_next := 0,
        x_remaining := length (x_workers s), x_generation := x_generation s + 1,
        x_dispatch_count := x_dispatch_count s + 1, x_caller := C_notify\<rparr>"
      using False by (simp add: begin_execute_def Let_def)
    have idle_worker: "pw_observed w = x_generation s \<and> pw_pc w \<in> {W_check, W_sleeping}" if "w \<in> set (x_workers s)" for w
      using free [OF that] okD(1) [OF that] run by (auto simp: owes_def worker_ok_def split: worker_pc.splits)
    have "filter (owes (x_generation s + 1)) (x_workers s) = x_workers s"
      using idle_worker by (intro filter_True ballI) (fastforce simp: owes_def neq_next [THEN not_sym])
    then have "debt ?s = length (x_workers s)" by (simp add: debt_def s)
    moreover have "worker_ok (x_generation s + 1) False True w" if "w \<in> set (x_workers s)" for w
      using idle_worker [OF that] by (auto simp: worker_ok_def)
    moreover have "drains ?s = {#}"
      using no_drains [OF free] by (simp add: s drains_def caller_drain_def idle)
    then have "job_ok (drains ?s) ?s"
      using assms(3) False by (auto simp: job_ok_def s fits_def claimed_chunks_def intro!: exI [of _ 0])
    then have "caller_ok ?s" by (simp add: caller_ok_def) (simp add: s)
    ultimately show ?thesis using run by (simp add: executor_ok_def) (simp add: s notifying_def stops_def)
  qed
qed

lemma begin_destroy_ok:
  assumes ok: "executor_ok s" and idle: "x_caller s = C_idle"
  shows "executor_ok (begin_destroy s)"
proof -
  note okD = executor_okD [OF ok]
  have run: "\<not> x_stopping s" using okD(2) idle by (simp add: stops_def)
  have rem: "x_remaining s = 0" using okD(5) idle by (simp add: caller_ok_def)
  have "pw_observed w = x_generation s \<and> pw_pc w \<in> {W_check, W_sleeping}" if "w \<in> set (x_workers s)" for w
    using no_debt [OF ok run rem that] okD(1) [OF that] run by (auto simp: owes_def worker_ok_def split: worker_pc.splits)
  then have "worker_ok (x_generation s + 1) True True w \<and> pw_observed w \<noteq> x_generation s + 1 \<and>
      pw_pc w \<in> {W_check, W_sleeping, W_exit}" if "w \<in> set (x_workers s)" for w
    using that by (fastforce simp: worker_ok_def neq_next [THEN not_sym])
  then show ?thesis
    by (simp add: executor_ok_def begin_destroy_def notifying_def stops_def caller_ok_def)
qed

lemma new_executor_ok: "executor_ok (new_executor n_workers)"
  by (auto simp: executor_ok_def new_executor_def worker_ok_def stops_def debt_def owes_def caller_ok_def covered_def calls_on_def)

lemma executor_step_ok: "executor_step s s' \<Longrightarrow> executor_ok s \<Longrightarrow> executor_ok s'"
proof (induction rule: executor_step.induct)
  case (moves s s')
  then show ?case by cases (auto intro: worker_step_ok caller_step_ok)
next
  case (spurious_worker i s)
  let ?v = "(x_workers s ! i)\<lparr>pw_pc := W_check\<rparr>"
  note okD = executor_okD [OF spurious_worker.prems]
  have mem: "x_workers s ! i \<in> set (x_workers s)" using spurious_worker by simp
  have v: "worker_ok (x_generation s) (x_stopping s) (notifying (x_caller s)) ?v"
    "\<not> x_stopping s \<Longrightarrow> owes (x_generation s) ?v = owes (x_generation s) (x_workers s ! i)"
    "x_stopping s \<Longrightarrow> pw_observed ?v \<noteq> x_generation s \<and> pw_pc ?v \<in> {W_check, W_sleeping, W_exit}"
    using okD(4) [OF _ mem] spurious_worker.hyps(2) by (simp_all add: worker_ok_def owes_def)
  have "drains (set_worker i ?v s) = drains s"
    by (rule worker_split [OF spurious_worker.hyps(1)]) (simp add: worker_drain_def spurious_worker.hyps(2))
  then have "caller_ok (set_worker i ?v s)" by (intro caller_ok_same_drains [OF okD(5)]) simp_all
  then show ?case by (intro executor_ok_set_worker [OF spurious_worker.prems spurious_worker.hyps(1) v]) simp_all
next
  case (spurious_caller s)
  let ?s = "s\<lparr>x_caller := C_check\<rparr>"
  have "drains ?s = drains s" by (simp add: drains_def caller_drain_def spurious_caller.hyps)
  moreover have "job_ok D ?s = job_ok D s" for D by (rule job_ok_cong) simp_all
  ultimately have "caller_ok ?s"
    using executor_okD(5) [OF spurious_caller.prems] spurious_caller.hyps by (simp add: caller_ok_def)
  then show ?case
    by (intro executor_ok_caller [OF spurious_caller.prems]) (simp_all add: spurious_caller.hyps stops_def notifying_def)
next
  case (resets s)
  have "caller_ok (reset_statistics s)"
    using executor_okD(5) [OF resets.prems] resets.hyps by (simp add: caller_ok_def reset_statistics_def covered_def calls_on_def)
  then show ?case by (intro executor_ok_caller [OF resets.prems]) (simp_all add: reset_statistics_def)
qed (auto intro: begin_execute_ok begin_destroy_ok)

lemma reachable_executor_ok: "reachable_executor s \<Longrightarrow> executor_ok s"
  by (induction rule: reachable_executor.induct) (auto intro: new_executor_ok executor_step_ok)

subsection \<open>The work that is left\<close>

definition chunks_left :: "executor \<Rightarrow> nat" where
  "chunks_left s = (x_count s - x_next s + x_grain s - 1) div x_grain s"

definition drain_weight :: "bool \<Rightarrow> drain_pc \<Rightarrow> nat" where
  "drain_weight unclaimed pc =
     (case pc of At_load \<Rightarrow> if unclaimed then 7 else 5 | At_fetch \<Rightarrow> 6 | At_call _ \<Rightarrow> 9 | At_count \<Rightarrow> 8)"

definition worker_weight :: "bool \<Rightarrow> u64 \<Rightarrow> pool_worker \<Rightarrow> nat" where
  "worker_weight unclaimed g w =
     (case pw_pc w of
        W_check \<Rightarrow> if pw_observed w \<noteq> g then 11 else 1
      | W_sleeping \<Rightarrow> if pw_observed w \<noteq> g then 12 else 0
      | W_take \<Rightarrow> 10
      | W_drain pc \<Rightarrow> drain_weight unclaimed pc
      | W_finish \<Rightarrow> 4
      | W_exit \<Rightarrow> 0)"

definition caller_weight :: "bool \<Rightarrow> nat \<Rightarrow> caller_pc \<Rightarrow> nat" where
  "caller_weight unclaimed n c =
     (case c of
        C_notify \<Rightarrow> 20 + n | C_stop_notify \<Rightarrow> 20 + n | C_drain pc \<Rightarrow> drain_weight unclaimed pc
      | C_check \<Rightarrow> 2 | C_sleeping \<Rightarrow> 1 | C_join \<Rightarrow> 1 | C_idle \<Rightarrow> 0 | C_gone \<Rightarrow> 0)"

definition work :: "executor \<Rightarrow> nat" where
  "work s =
     (let unclaimed = x_next s < x_count s
      in 4 * chunks_left s + caller_weight unclaimed (length (x_workers s)) (x_caller s) +
         sum_list (map (worker_weight unclaimed (x_generation s)) (x_workers s)))"

lemma drain_weight_mono: "(unclaimed' \<Longrightarrow> unclaimed) \<Longrightarrow> drain_weight unclaimed' pc \<le> drain_weight unclaimed pc"
  by (cases pc) (auto simp: drain_weight_def)

lemma worker_weight_mono: "(unclaimed' \<Longrightarrow> unclaimed) \<Longrightarrow> worker_weight unclaimed' g w \<le> worker_weight unclaimed g w"
  by (auto simp: worker_weight_def drain_weight_mono split: worker_pc.split)

lemma caller_weight_mono: "(unclaimed' \<Longrightarrow> unclaimed) \<Longrightarrow> caller_weight unclaimed' n c \<le> caller_weight unclaimed n c"
  by (auto simp: caller_weight_def drain_weight_mono split: caller_pc.split)

lemma sum_list_mono_map: "(\<And>x. x \<in> set xs \<Longrightarrow> f x \<le> g x) \<Longrightarrow> sum_list (map f xs) \<le> (sum_list (map g xs) :: nat)"
  by (induction xs) (auto intro: add_mono)

lemma chunks_fetched:
  assumes "0 < x_grain s" and "x_next s < x_count s"
  shows "chunks_left (s\<lparr>x_next := x_next s + x_grain s\<rparr>) + 1 \<le> chunks_left s"
proof -
  let ?g = "x_grain s" and ?d = "x_count s - x_next s"
  have "?d + ?g - 1 = (?d - 1) + ?g" using assms(2) by simp
  then have "chunks_left s = (?d - 1 + ?g) div ?g" unfolding chunks_left_def by (rule arg_cong)
  also have "\<dots> = (?d - 1) div ?g + 1" using assms(1) by (intro div_add_self2) simp
  finally have "chunks_left s = (?d - 1) div ?g + 1" .
  moreover have "(x_count s - (x_next s + ?g) + ?g - 1) div ?g \<le> (?d - 1) div ?g"
  proof (cases "x_next s + ?g < x_count s")
    case True
    then show ?thesis by (intro div_le_mono) linarith
  next
    case False
    then have "x_count s - (x_next s + ?g) + ?g - 1 = ?g - 1" by simp
    then show ?thesis using assms(1) by simp
  qed
  ultimately show ?thesis by (simp add: chunks_left_def)
qed

lemma drain_step_work:
  assumes "job_ok (add_mset pc R) s" and "drain_step pc s = (next_pc, s')"
  shows "4 * chunks_left s' + (case next_pc of None \<Rightarrow> 4 | Some pc \<Rightarrow> drain_weight (x_next s' < x_count s') pc)
    < 4 * chunks_left s + drain_weight (x_next s < x_count s) pc"
proof -
  have g: "0 < x_grain s"
    and fit: "x_next s + x_grain s * count (add_mset pc R) At_fetch < x_count s + x_grain s * (length (x_workers s) + 1)"
      "x_count s + x_grain s * (length (x_workers s) + 2) < 2 ^ 64"
    using assms(1) by (simp_all add: job_ok_def)
  show ?thesis
  proof (cases pc)
    case At_load
    with assms(2) show ?thesis by (auto simp: drain_step_def drain_weight_def)
  next
    case At_fetch
    then have m: "(x_next s + x_grain s) mod 2 ^ 64 = x_next s + x_grain s" using fit by simp
    have s': "s' = s\<lparr>x_next := x_next s + x_grain s\<rparr>"
      "next_pc = Some (if x_next s < x_count s then At_call (x_next s) else At_load)"
      using assms(2) At_fetch m by (simp_all add: drain_step_def)
    show ?thesis
    proof (cases "x_next s < x_count s")
      case True
      with chunks_fetched [OF g True] At_fetch show ?thesis by (simp add: s' drain_weight_def)
    next
      case False
      then have "chunks_left s' \<le> chunks_left s" by (simp add: s' chunks_left_def)
      with False At_fetch show ?thesis by (simp add: s' drain_weight_def)
    qed
  next
    case (At_call first)
    with assms(2) show ?thesis by (auto simp: drain_step_def drain_weight_def chunks_left_def)
  next
    case At_count
    with assms(2) show ?thesis by (auto simp: drain_step_def drain_weight_def chunks_left_def)
  qed
qed

text \<open>A step of one worker from \<open>s\<close> to \<open>s'\<close>, seen in the measure.\<close>

lemma work_worker:
  assumes i: "i < length (x_workers s)" and s': "x_workers s' = (x_workers s)[i := w]" "x_generation s' = x_generation s"
    and mono: "x_next s' < x_count s' \<Longrightarrow> x_next s < x_count s"
    and less: "4 * chunks_left s' + caller_weight (x_next s' < x_count s') (length (x_workers s)) (x_caller s') +
        worker_weight (x_next s' < x_count s') (x_generation s) w
      < 4 * chunks_left s + caller_weight (x_next s < x_count s) (length (x_workers s)) (x_caller s) +
        worker_weight (x_next s < x_count s) (x_generation s) (x_workers s ! i)"
  shows "work s' < work s"
proof -
  let ?f = "worker_weight (x_next s < x_count s) (x_generation s)"
  let ?f' = "worker_weight (x_next s' < x_count s') (x_generation s)"
  obtain k where k: "sum_list (map ?f (x_workers s)) = ?f (x_workers s ! i) + k"
    "\<And>w. sum_list (map ?f ((x_workers s)[i := w])) = ?f w + k"
    by (rule sum_list_split [OF i, where f = ?f]) blast
  obtain k' where k': "sum_list (map ?f' (x_workers s)) = ?f' (x_workers s ! i) + k'"
    "\<And>w. sum_list (map ?f' ((x_workers s)[i := w])) = ?f' w + k'"
    by (rule sum_list_split [OF i, where f = ?f']) blast
  let ?z = "\<lparr>pw_pc = W_exit, pw_observed = 0\<rparr>"
  have "sum_list (map ?f' ((x_workers s)[i := ?z])) \<le> sum_list (map ?f ((x_workers s)[i := ?z]))"
    using mono by (intro sum_list_mono_map worker_weight_mono)
  then have "k' \<le> k" using k(2) [of ?z] k'(2) [of ?z] by (simp add: worker_weight_def)
  then show ?thesis using less k(1) k'(2) [of w] by (simp add: work_def Let_def s')
qed

lemma worker_step_work:
  assumes ok: "executor_ok s" and i: "i < length (x_workers s)" and step: "worker_step i s = Some s'"
  shows "work s' < work s"
proof -
  define w where "w = x_workers s ! i"
  note okD = executor_okD [OF ok]
  have mem: "w \<in> set (x_workers s)" using i by (simp add: w_def)
  have wok: "worker_ok (x_generation s) (x_stopping s) (notifying (x_caller s)) w" by (rule okD(1) [OF mem])
  have same: "chunks_left (set_worker i v s) = chunks_left s" for v by (simp add: chunks_left_def)
  show ?thesis
  proof (cases "pw_pc w")
    case W_check
    let ?v = "w\<lparr>pw_pc := if x_stopping s then W_exit else if x_generation s \<noteq> pw_observed w then W_take else W_sleeping\<rparr>"
    have s': "s' = set_worker i ?v s" using step W_check by (simp add: worker_step_def w_def [symmetric] Let_def)
    have "worker_weight b (x_generation s) ?v < worker_weight b (x_generation s) w" for b
      using W_check by (auto simp: worker_weight_def)
    then show ?thesis unfolding s' by (intro work_worker [OF i]) (simp_all add: same w_def [symmetric])
  next
    case W_take
    let ?v = "w\<lparr>pw_observed := x_generation s, pw_pc := W_drain At_load\<rparr>"
    have s': "s' = set_worker i ?v s" using step W_take by (simp add: worker_step_def w_def [symmetric] Let_def)
    have "worker_weight b (x_generation s) ?v < worker_weight b (x_generation s) w" for b
      using W_take by (auto simp: worker_weight_def drain_weight_def)
    then show ?thesis unfolding s' by (intro work_worker [OF i]) (simp_all add: same w_def [symmetric])
  next
    case (W_drain pc)
    then have run: "\<not> x_stopping s" using okD(4) [OF _ mem] by auto
    have "owes (x_generation s) (x_workers s ! i)" by (simp add: owes_def W_drain w_def [symmetric])
    note busy = owing_caller [OF ok i this run]
    obtain next_pc t where t: "drain_step pc s = (next_pc, t)" by fastforce
    obtain R where dr: "drains s = worker_drain w + R" and size: "size R \<le> length (x_workers s)"
      by (rule worker_split [OF i, folded w_def]) blast
    have job: "job_ok (add_mset pc R) s" using busy(2) dr by (simp add: worker_drain_def W_drain)
    note j = job_drain_step [OF job size t] and d = drain_step_work [OF job t]
    let ?v = "w\<lparr>pw_pc := case next_pc of None \<Rightarrow> W_finish | Some pc \<Rightarrow> W_drain pc\<rparr>"
    have s': "s' = set_worker i ?v t" using step W_drain t by (simp add: worker_step_def w_def [symmetric] Let_def)
    have unclaimed: "x_next s' < x_count s' \<Longrightarrow> x_next s < x_count s" using j(3,9) by (simp add: s')
    have vw: "worker_weight b (x_generation s) ?v = (case next_pc of None \<Rightarrow> 4 | Some pc \<Rightarrow> drain_weight b pc)" for b
      by (simp add: worker_weight_def split: option.split)
    have cl: "chunks_left s' = chunks_left t" by (simp add: chunks_left_def s')
    have ww: "worker_weight b (x_generation s) w = drain_weight b pc" for b by (simp add: worker_weight_def W_drain)
    have st: "x_next s' = x_next t" "x_count s' = x_count t" "x_caller s' = x_caller s" by (simp_all add: s' j(5))
    have "4 * chunks_left s' + worker_weight (x_next s' < x_count s') (x_generation s) ?v
      < 4 * chunks_left s + worker_weight (x_next s < x_count s) (x_generation s) w"
      using d by (simp only: vw ww cl st)
    moreover have "caller_weight (x_next s' < x_count s') (length (x_workers s)) (x_caller s)
      \<le> caller_weight (x_next s < x_count s) (length (x_workers s)) (x_caller s)"
      by (rule caller_weight_mono) (rule unclaimed)
    ultimately have "4 * chunks_left s' + caller_weight (x_next s' < x_count s') (length (x_workers s)) (x_caller s') +
        worker_weight (x_next s' < x_count s') (x_generation s) ?v
      < 4 * chunks_left s + caller_weight (x_next s < x_count s) (length (x_workers s)) (x_caller s) +
        worker_weight (x_next s < x_count s) (x_generation s) w"
      unfolding st(3) by linarith
    then show ?thesis
      by (intro work_worker [OF i _ _ unclaimed, where w = ?v]) (simp_all add: s' j(4,7) w_def [symmetric])
  next
    case W_finish
    let ?t = "s\<lparr>x_remaining := x_remaining s - 1\<rparr>" and ?v = "w\<lparr>pw_pc := W_check\<rparr>"
    let ?c = "if x_remaining s - 1 = 0 \<and> x_caller s = C_sleeping then C_check else x_caller s"
    have s': "s' = set_worker i ?v (?t\<lparr>x_caller := ?c\<rparr>)"
      using step W_finish by (auto simp: worker_step_def w_def [symmetric] Let_def wake_caller_def)
    have "pw_observed w = x_generation s" using wok by (simp add: worker_ok_def W_finish)
    then have v: "worker_weight b (x_generation s) ?v + 3 = worker_weight b (x_generation s) w" for b
      by (simp add: worker_weight_def W_finish)
    have c: "caller_weight b n ?c \<le> caller_weight b n (x_caller s) + 1" for b n by (simp add: caller_weight_def)
    have less: "caller_weight b n ?c + worker_weight b (x_generation s) ?v
        < caller_weight b n (x_caller s) + worker_weight b (x_generation s) w" for b n
      using v [of b] c [of b n] by linarith
    have cl: "chunks_left s' = chunks_left s" by (simp add: chunks_left_def s')
    have "4 * chunks_left s' + caller_weight (x_next s' < x_count s') (length (x_workers s)) (x_caller s') +
        worker_weight (x_next s' < x_count s') (x_generation s) ?v
      < 4 * chunks_left s + caller_weight (x_next s < x_count s) (length (x_workers s)) (x_caller s) +
        worker_weight (x_next s < x_count s) (x_generation s) w"
      using less [of "x_next s < x_count s" "length (x_workers s)"] unfolding cl by (simp add: s')
    then show ?thesis
      by (intro work_worker [OF i, where w = ?v]) (simp_all add: s' w_def [symmetric])
  qed (use step in \<open>simp_all add: worker_step_def w_def [symmetric]\<close>)
qed

lemma woken_work: "sum_list (map (worker_weight b g) (map wake_worker ws)) \<le> sum_list (map (worker_weight b g) ws) + length ws"
proof (induction ws)
  case (Cons w ws)
  have "worker_weight b g (wake_worker w) \<le> worker_weight b g w + 1" by (simp add: wake_worker_def worker_weight_def)
  with Cons.IH show ?case by simp
qed simp

lemma caller_step_work:
  assumes ok: "executor_ok s" and step: "caller_step s = Some s'"
  shows "work s' < work s"
proof (cases "x_caller s")
  case C_notify
  have "s' = s\<lparr>x_workers := map wake_worker (x_workers s), x_caller := C_drain At_load\<rparr>"
    using step C_notify by (simp add: caller_step_def wake_workers_def)
  then show ?thesis
    using woken_work [of "x_next s < x_count s" "x_generation s" "x_workers s"]
    by (cases "x_next s < x_count s") (simp_all add: work_def Let_def caller_weight_def drain_weight_def C_notify chunks_left_def)
next
  case (C_drain pc)
  obtain next_pc t where t: "drain_step pc s = (next_pc, t)" by fastforce
  let ?R = "sum_list (map worker_drain (x_workers s))"
  have dr: "drains s = add_mset pc ?R" by (simp add: drains_def caller_drain_def C_drain)
  then have size: "size ?R \<le> length (x_workers s)" using drains_size [of s] by simp
  have job: "job_ok (add_mset pc ?R) s" using executor_okD(5) [OF ok] dr by (simp add: caller_ok_def C_drain)
  note j = job_drain_step [OF job size t] and d = drain_step_work [OF job t]
  let ?c = "case next_pc of None \<Rightarrow> C_check | Some pc \<Rightarrow> C_drain pc"
  have s': "s' = t\<lparr>x_caller := ?c\<rparr>" using step C_drain t by (simp add: caller_step_def)
  have cl: "chunks_left s' = chunks_left t" by (simp add: chunks_left_def s')
  have "caller_weight b n ?c \<le> (case next_pc of None \<Rightarrow> 4 | Some pc \<Rightarrow> drain_weight b pc)" for b n
    by (simp add: caller_weight_def split: option.split)
  from this [of "x_next t < x_count t" "length (x_workers s)"]
  have "4 * chunks_left s' + caller_weight (x_next s' < x_count s') (length (x_workers s)) (x_caller s')
    < 4 * chunks_left s + caller_weight (x_next s < x_count s) (length (x_workers s)) (x_caller s)"
    using d unfolding cl by (simp add: s' C_drain caller_weight_def)
  moreover have "sum_list (map (worker_weight (x_next s' < x_count s') (x_generation s')) (x_workers s'))
    \<le> sum_list (map (worker_weight (x_next s < x_count s) (x_generation s)) (x_workers s))"
    using j(3,4,7,9) by (simp add: s') (intro sum_list_mono_map worker_weight_mono, simp)
  ultimately show ?thesis using j(4) by (simp add: work_def Let_def s')
next
  case C_stop_notify
  have "s' = s\<lparr>x_workers := map wake_worker (x_workers s), x_caller := C_join\<rparr>"
    using step C_stop_notify by (simp add: caller_step_def wake_workers_def)
  then show ?thesis
    using woken_work [of "x_next s < x_count s" "x_generation s" "x_workers s"]
    by (cases "x_next s < x_count s") (simp_all add: work_def Let_def caller_weight_def C_stop_notify chunks_left_def)
qed (use step in \<open>auto simp: caller_step_def work_def caller_weight_def chunks_left_def split: if_splits\<close>)

lemma progress_work: "progress s s' \<Longrightarrow> executor_ok s \<Longrightarrow> work s' < work s"
  by (induction rule: progress.induct) (auto intro: worker_step_work caller_step_work)

text \<open>A thread that does not sleep, has not ended and is not waiting for the others can move.\<close>

lemma worker_can_move:
  assumes "i < length (x_workers s)" and "pw_pc (x_workers s ! i) \<notin> {W_sleeping, W_exit}"
  shows "\<exists>s'. progress s s'"
proof -
  have "\<exists>s'. worker_step i s = Some s'"
    using assms(2) by (cases "pw_pc (x_workers s ! i)") (simp_all add: worker_step_def Let_def split: prod.split)
  then show ?thesis using worker_moves [OF assms(1)] by blast
qed

lemma busy_can_move:
  assumes ok: "executor_ok s" and busy: "x_caller s \<notin> {C_idle, C_gone}"
  shows "\<exists>s'. progress s s'"
proof (cases "x_caller s = C_sleeping \<or> x_caller s = C_join")
  case False
  then have "\<exists>s'. caller_step s = Some s'"
    using busy by (cases "x_caller s") (simp_all add: caller_step_def split: prod.split)
  then show ?thesis using caller_moves by blast
next
  case True
  note okD = executor_okD [OF ok]
  show ?thesis
  proof (cases "x_caller s = C_sleeping")
    case asleep: True
    then have run: "\<not> x_stopping s" using okD(2) by (simp add: stops_def)
    have "debt s \<noteq> 0" using okD(3) [OF run] okD(5) asleep by (simp add: caller_ok_def)
    then obtain i where i: "i < length (x_workers s)" "owes (x_generation s) (x_workers s ! i)"
      by (auto simp: debt_def filter_empty_conv in_set_conv_nth)
    have "worker_ok (x_generation s) (x_stopping s) (notifying (x_caller s)) (x_workers s ! i)"
      using i(1) by (intro okD(1)) simp
    then have "pw_pc (x_workers s ! i) \<notin> {W_sleeping, W_exit}"
      using i(2) asleep by (auto simp: worker_ok_def owes_def notifying_def)
    with i(1) show ?thesis by (rule worker_can_move)
  next
    case False
    with True have join: "x_caller s = C_join" by simp
    then have stop: "x_stopping s" using okD(2) by (simp add: stops_def)
    show ?thesis
    proof (cases "list_all (\<lambda>w. pw_pc w = W_exit) (x_workers s)")
      case ended: True
      then have "caller_step s = Some (s\<lparr>x_caller := C_gone\<rparr>)" by (simp add: caller_step_def join)
      then show ?thesis using caller_moves by blast
    next
      case False
      then obtain i where i: "i < length (x_workers s)" "pw_pc (x_workers s ! i) \<noteq> W_exit"
        by (auto simp: list_all_iff in_set_conv_nth)
      have mem: "x_workers s ! i \<in> set (x_workers s)" using i(1) by simp
      have "pw_pc (x_workers s ! i) \<notin> {W_sleeping, W_exit}"
        using okD(1) [OF mem] okD(4) [OF stop mem] i(2) join by (auto simp: worker_ok_def notifying_def)
      with i(1) show ?thesis by (rule worker_can_move)
    qed
  qed
qed

subsection \<open>Properties\<close>

text \<open>A run given as the threads that move, for concrete executions: \<open>None\<close> is the caller.\<close>

fun play :: "nat option list \<Rightarrow> executor \<Rightarrow> executor option" where
  "play [] s = Some s"
| "play (None # moves) s = (case caller_step s of None \<Rightarrow> None | Some s \<Rightarrow> play moves s)"
| "play (Some i # moves) s =
     (if i < length (x_workers s) then case worker_step i s of None \<Rightarrow> None | Some s \<Rightarrow> play moves s else None)"

lemma play_reachable: "play moves s = Some s' \<Longrightarrow> reachable_executor s \<Longrightarrow> reachable_executor s'"
proof (induction moves s rule: play.induct)
  case (2 moves s)
  then show ?case by (auto split: option.splits intro: continues moves caller_moves)
next
  case (3 i moves s)
  then show ?case by (auto split: option.splits if_splits intro: continues moves worker_moves)
qed simp

text \<open>One worker and one caller over two indices: each of them runs one.\<close>

definition demo_moves :: "nat option list" where
  "demo_moves =
     [None, Some 0, Some 0, Some 0, Some 0, None, None, Some 0, None, Some 0, None, Some 0, None, None, Some 0, None, Some 0]"

text \<open>C26. When a parallel call has returned, its callback has been called on exactly the requested
  range: whatever the interleaving of the threads was, every index below the requested count was in
  exactly one of the calls and no other index in any, no worker still has to count itself out of the
  job, and none of them is in the callback.
\<close>

theorem parallel_calls_cover_the_range:
  assumes "reachable_executor s" and "x_caller s = C_idle"
  shows "(\<forall>i. calls_on i s = (if i < x_requested s then 1 else 0)) \<and> x_remaining s = 0 \<and>
    (\<forall>w \<in> set (x_workers s). pw_pc w = W_check \<or> pw_pc w = W_sleeping)"
proof (intro conjI ballI)
  note ok = reachable_executor_ok [OF assms(1)]
  note okD = executor_okD [OF ok]
  show "\<forall>i. calls_on i s = (if i < x_requested s then 1 else 0)" and rem: "x_remaining s = 0"
    using okD(5) assms(2) by (simp_all add: caller_ok_def covered_def)
  have run: "\<not> x_stopping s" using okD(2) assms(2) by (simp add: stops_def)
  fix w assume w: "w \<in> set (x_workers s)"
  show "pw_pc w = W_check \<or> pw_pc w = W_sleeping"
    using no_debt [OF ok run rem w] okD(1) [OF w] run by (auto simp: owes_def worker_ok_def split: worker_pc.splits)
qed

theorem parallel_calls_cover_the_range_witness:
  "x_requested (begin_execute 2 1 (new_executor 1)) = 2 \<and>
   (\<exists>s. play demo_moves (begin_execute 2 1 (new_executor 1)) = Some s \<and> x_calls s = [(0, 1), (1, 2)] \<and> calls_on 1 s = 1)"
proof -
  have start: "reachable_executor (begin_execute 2 1 (new_executor 1))"
    by (rule continues [OF starts executes]) (simp_all add: new_executor_def fits_def)
  obtain s where s: "play demo_moves (begin_execute 2 1 (new_executor 1)) = Some s" "x_caller s = C_idle"
    "x_requested s = 2" "x_calls s = [(0, 1), (1, 2)]"
    by (simp add: demo_moves_def begin_execute_def new_executor_def worker_step_def caller_step_def drain_step_def
        set_worker_def wake_workers_def wake_worker_def wake_caller_def Let_def)
  have "reachable_executor s" by (rule play_reachable [OF s(1) start])
  from parallel_calls_cover_the_range [OF this s(2)] have "calls_on 1 s = 1" by (simp add: s(3))
  with s show ?thesis by (simp add: begin_execute_def new_executor_def)
qed

text \<open>C27. A call always comes back: once a job or the destruction has begun, the threads can take at
  most as many further steps as the work measure counts, in any interleaving, and as long as the caller has not returned one of
  them can take a step. So no notification is lost and the caller returns.
\<close>

theorem executor_never_hangs:
  assumes "reachable_executor s" and "(progress ^^ n) s s'"
  shows "n \<le> work s \<and> (x_caller s' \<in> {C_idle, C_gone} \<or> (\<exists>s''. progress s' s''))"
proof -
  have "executor_ok s' \<and> n + work s' \<le> work s"
    using assms(2)
  proof (induction n arbitrary: s')
    case 0
    then show ?case using reachable_executor_ok [OF assms(1)] by simp
  next
    case (Suc n)
    then obtain t where t: "(progress ^^ n) s t" "progress t s'" by auto
    from Suc.IH [OF t(1)] have ok: "executor_ok t" "n + work t \<le> work s" by simp_all
    have "executor_ok s'" by (rule executor_step_ok [OF moves [OF t(2)] ok(1)])
    with ok(2) progress_work [OF t(2) ok(1)] show ?case by simp
  qed
  then show ?thesis using busy_can_move [of s'] by auto
qed

theorem executor_never_hangs_witness:
  "\<exists>s s'. reachable_executor s \<and> x_caller s = C_notify \<and> work s = 40 \<and> progress s s' \<and> (\<exists>s''. progress s' s'')"
proof -
  let ?s = "begin_execute 2 1 (new_executor 1)"
  have start: "reachable_executor ?s"
    by (rule continues [OF starts executes]) (simp_all add: new_executor_def fits_def)
  have c: "x_caller ?s = C_notify" "work ?s = 40"
    by (simp_all add: begin_execute_def new_executor_def Let_def work_def chunks_left_def caller_weight_def worker_weight_def)
  let ?s' = "(wake_workers ?s)\<lparr>x_caller := C_drain At_load\<rparr>"
  have step: "progress ?s ?s'" by (rule caller_moves) (simp only: caller_step_def c caller_pc.case)
  then have "(progress ^^ 1) ?s ?s'" by (simp only: relpowp_1)
  from executor_never_hangs [OF start this] have "\<exists>s''. progress ?s' s''" by simp
  with start c step show ?thesis by blast
qed

end
