(* ===== verification/Authoring_Scene.thy ===== *)
theory Authoring_Scene
  imports Transform_System
begin

section \<open>The authoring scene\<close>

text \<open>
  \<open>include/scene_polytree/authoring_scene.hpp\<close>: an editable hierarchy together with one local
  transform per stable node. The editable hierarchy itself (\<open>wz::core::graph::MutablePolytree\<close>,
  its freeze and its identities) is a git submodule. It is an argument of every definition that
  uses it: a record of its functions over an abstract hierarchy \<open>'t\<close>, with node and edge payloads
  \<open>'n\<close> and \<open>'e\<close>. A \<open>StableNodeId\<close> is its value. The workspace of a freeze is scratch memory of the
  submodule and is left out.
\<close>

subsection \<open>The mutable polytree as the scene uses it\<close>

type_synonym stable_id = u64

datatype 'm mutation_error = mu_revision_exhausted | mu_invalid_parent | mu_other 'm

text \<open>What a freeze returns: the dense topology and the stable id of every dense node.\<close>

record frozen_polytree =
  fz_topology :: polytree
  fz_identities :: "stable_id list"

record ('t, 'n, 'e, 'm, 'z) topology_library =
  tl_empty :: 't
  tl_valid :: "stable_id \<Rightarrow> bool"
  tl_invalid_node :: stable_id
  tl_append_child :: nat
  tl_contains :: "'t \<Rightarrow> stable_id \<Rightarrow> bool"
  tl_parent :: "'t \<Rightarrow> stable_id \<Rightarrow> stable_id"
  tl_insert_root :: "'t \<Rightarrow> 'n \<Rightarrow> nat \<Rightarrow> ('m mutation_error + stable_id) \<times> 't"
  tl_insert_child :: "'t \<Rightarrow> stable_id \<Rightarrow> 'n \<Rightarrow> 'e \<Rightarrow> nat \<Rightarrow> ('m mutation_error + stable_id) \<times> 't"
  tl_reparent :: "'t \<Rightarrow> stable_id \<Rightarrow> stable_id \<Rightarrow> 'e \<Rightarrow> nat \<Rightarrow> ('m mutation_error + stable_id) \<times> 't"
  tl_detach_to_root :: "'t \<Rightarrow> stable_id \<Rightarrow> nat \<Rightarrow> ('m mutation_error + stable_id) \<times> 't"
  tl_erase_subtree :: "'t \<Rightarrow> stable_id \<Rightarrow> ('m mutation_error + nat) \<times> 't"
  tl_replace_node_data :: "'t \<Rightarrow> stable_id \<Rightarrow> 'n \<Rightarrow> ('m mutation_error + stable_id) \<times> 't"
  tl_replace_parent_edge_data :: "'t \<Rightarrow> stable_id \<Rightarrow> 'e \<Rightarrow> ('m mutation_error + stable_id) \<times> 't"
  tl_freeze :: "'t \<Rightarrow> 'z + frozen_polytree"

subsection \<open>State\<close>

record 'a authoring_record =
  ar_local :: 'a
  ar_local_revision :: u64

record 'a authoring_state =
  as_records :: "stable_id \<rightharpoonup> 'a authoring_record"
  as_revision :: u64

record ('t, 'a) authoring_scene =
  au_topology :: 't
  au_state :: "'a authoring_state"

definition new_authoring_scene :: "('t, 'n, 'e, 'm, 'z) topology_library \<Rightarrow> ('t, 'a) authoring_scene" where
  "new_authoring_scene lib = \<lparr>au_topology = tl_empty lib, au_state = \<lparr>as_records = Map.empty, as_revision = 0\<rparr>\<rparr>"

definition authoring_available :: "'a authoring_state \<Rightarrow> bool" where
  "authoring_available st \<longleftrightarrow> as_revision st \<noteq> - 1"

definition authoring_contains :: "('t, 'n, 'e, 'm, 'z) topology_library \<Rightarrow> stable_id \<Rightarrow> 'a authoring_state \<Rightarrow> bool" where
  "authoring_contains lib node st \<longleftrightarrow> tl_valid lib node \<and> node \<in> dom (as_records st)"

definition authoring_set_local ::
  "('t, 'n, 'e, 'm, 'z) topology_library \<Rightarrow> stable_id \<Rightarrow> 'a \<Rightarrow> 'a authoring_state \<Rightarrow>
   transform_error \<times> 'a authoring_state" where
  "authoring_set_local lib node loc st =
     (case as_records st node of
        None \<Rightarrow> (te_invalid_node, st)
      | Some r \<Rightarrow>
          if \<not> tl_valid lib node then (te_invalid_node, st)
          else if \<not> authoring_available st then (te_revision_exhausted, st)
          else let rev = as_revision st + 1
               in (te_none,
                   st\<lparr>as_revision := rev,
                      as_records := (as_records st)(node \<mapsto> \<lparr>ar_local = loc, ar_local_revision = rev\<rparr>)\<rparr>))"

text \<open>\<open>emplace\<close> keeps an entry that is already there.\<close>

definition authoring_insert :: "stable_id \<Rightarrow> 'a \<Rightarrow> 'a authoring_state \<Rightarrow> transform_error \<times> 'a authoring_state" where
  "authoring_insert node loc st =
     (if \<not> authoring_available st then (te_revision_exhausted, st)
      else let rev = as_revision st + 1
           in (te_none,
               st\<lparr>as_revision := rev,
                  as_records := (case as_records st node of
                     Some _ \<Rightarrow> as_records st
                   | None \<Rightarrow> (as_records st)(node \<mapsto> \<lparr>ar_local = loc, ar_local_revision = rev\<rparr>))\<rparr>))"

definition erase_absent_nodes ::
  "('t, 'n, 'e, 'm, 'z) topology_library \<Rightarrow> 't \<Rightarrow> 'a authoring_state \<Rightarrow> 'a authoring_state" where
  "erase_absent_nodes lib topology st =
     st\<lparr>as_records := (\<lambda>node. if tl_contains lib topology node then as_records st node else None)\<rparr>"

definition note_scene_change :: "'a authoring_state \<Rightarrow> transform_error \<times> 'a authoring_state" where
  "note_scene_change st =
     (if \<not> authoring_available st then (te_revision_exhausted, st)
      else (te_none, st\<lparr>as_revision := as_revision st + 1\<rparr>))"

subsection \<open>Operations of the scene\<close>

definition insert_root ::
  "('t, 'n, 'e, 'm, 'z) topology_library \<Rightarrow> 'n \<Rightarrow> 'a \<Rightarrow> nat \<Rightarrow> ('t, 'a) authoring_scene \<Rightarrow>
   ('m mutation_error + stable_id) \<times> ('t, 'a) authoring_scene" where
  "insert_root lib node_data loc ordinal au =
     (if \<not> authoring_available (au_state au) then (Inl mu_revision_exhausted, au)
      else (case tl_insert_root lib (au_topology au) node_data ordinal of
              (Inl error, t) \<Rightarrow> (Inl error, au\<lparr>au_topology := t\<rparr>)
            | (Inr node, t) \<Rightarrow>
                (Inr node, au\<lparr>au_topology := t, au_state := snd (authoring_insert node loc (au_state au))\<rparr>)))"

definition insert_child ::
  "('t, 'n, 'e, 'm, 'z) topology_library \<Rightarrow> stable_id \<Rightarrow> 'n \<Rightarrow> 'e \<Rightarrow> 'a \<Rightarrow> nat \<Rightarrow> ('t, 'a) authoring_scene \<Rightarrow>
   ('m mutation_error + stable_id) \<times> ('t, 'a) authoring_scene" where
  "insert_child lib parent_id node_data edge_data loc ordinal au =
     (if \<not> authoring_available (au_state au) then (Inl mu_revision_exhausted, au)
      else (case tl_insert_child lib (au_topology au) parent_id node_data edge_data ordinal of
              (Inl error, t) \<Rightarrow> (Inl error, au\<lparr>au_topology := t\<rparr>)
            | (Inr node, t) \<Rightarrow>
                (Inr node, au\<lparr>au_topology := t, au_state := snd (authoring_insert node loc (au_state au))\<rparr>)))"

definition scene_set_local ::
  "('t, 'n, 'e, 'm, 'z) topology_library \<Rightarrow> stable_id \<Rightarrow> 'a \<Rightarrow> ('t, 'a) authoring_scene \<Rightarrow>
   transform_error \<times> ('t, 'a) authoring_scene" where
  "scene_set_local lib node loc au =
     (if \<not> tl_contains lib (au_topology au) node then (te_invalid_node, au)
      else (case authoring_set_local lib node loc (au_state au) of
              (error, st) \<Rightarrow> (error, au\<lparr>au_state := st\<rparr>)))"

text \<open>The change of a parent is noted in the state; reparent and detach differ in when it is one.\<close>

definition reparent ::
  "('t, 'n, 'e, 'm, 'z) topology_library \<Rightarrow> stable_id \<Rightarrow> stable_id \<Rightarrow> 'e \<Rightarrow> nat \<Rightarrow> ('t, 'a) authoring_scene \<Rightarrow>
   ('m mutation_error + stable_id) \<times> ('t, 'a) authoring_scene" where
  "reparent lib node new_parent edge_data ordinal au =
     (let old_parent = (if tl_contains lib (au_topology au) node then tl_parent lib (au_topology au) node
                        else tl_invalid_node lib)
      in if old_parent \<noteq> new_parent \<and> \<not> authoring_available (au_state au) then (Inl mu_revision_exhausted, au)
         else (case tl_reparent lib (au_topology au) node new_parent edge_data ordinal of
                 (outcome, t) \<Rightarrow>
                   (outcome, au\<lparr>au_topology := t,
                      au_state := (if isl outcome \<or> old_parent = new_parent then au_state au
                                   else snd (note_scene_change (au_state au)))\<rparr>)))"

definition detach_to_root ::
  "('t, 'n, 'e, 'm, 'z) topology_library \<Rightarrow> stable_id \<Rightarrow> nat \<Rightarrow> ('t, 'a) authoring_scene \<Rightarrow>
   ('m mutation_error + stable_id) \<times> ('t, 'a) authoring_scene" where
  "detach_to_root lib node ordinal au =
     (let parent_changes =
            tl_contains lib (au_topology au) node \<and> tl_parent lib (au_topology au) node \<noteq> tl_invalid_node lib
      in if parent_changes \<and> \<not> authoring_available (au_state au) then (Inl mu_revision_exhausted, au)
         else (case tl_detach_to_root lib (au_topology au) node ordinal of
                 (outcome, t) \<Rightarrow>
                   (outcome, au\<lparr>au_topology := t,
                      au_state := (if isl outcome \<or> \<not> parent_changes then au_state au
                                   else snd (note_scene_change (au_state au)))\<rparr>)))"

definition erase_subtree ::
  "('t, 'n, 'e, 'm, 'z) topology_library \<Rightarrow> stable_id \<Rightarrow> ('t, 'a) authoring_scene \<Rightarrow>
   ('m mutation_error + nat) \<times> ('t, 'a) authoring_scene" where
  "erase_subtree lib node au =
     (if \<not> authoring_available (au_state au) then (Inl mu_revision_exhausted, au)
      else (case tl_erase_subtree lib (au_topology au) node of
              (outcome, t) \<Rightarrow>
                (outcome, au\<lparr>au_topology := t,
                   au_state := (if isl outcome then au_state au
                                else snd (note_scene_change (erase_absent_nodes lib t (au_state au))))\<rparr>)))"

definition replace_node_data ::
  "('t, 'n, 'e, 'm, 'z) topology_library \<Rightarrow> stable_id \<Rightarrow> 'n \<Rightarrow> ('t, 'a) authoring_scene \<Rightarrow>
   ('m mutation_error + stable_id) \<times> ('t, 'a) authoring_scene" where
  "replace_node_data lib node node_data au =
     (case tl_replace_node_data lib (au_topology au) node node_data of
        (outcome, t) \<Rightarrow> (outcome, au\<lparr>au_topology := t\<rparr>))"

definition replace_parent_edge_data ::
  "('t, 'n, 'e, 'm, 'z) topology_library \<Rightarrow> stable_id \<Rightarrow> 'e \<Rightarrow> ('t, 'a) authoring_scene \<Rightarrow>
   ('m mutation_error + stable_id) \<times> ('t, 'a) authoring_scene" where
  "replace_parent_edge_data lib node edge_data au =
     (case tl_replace_parent_edge_data lib (au_topology au) node edge_data of
        (outcome, t) \<Rightarrow> (outcome, au\<lparr>au_topology := t\<rparr>))"

inductive authoring_step ::
  "('t, 'n, 'e, 'm, 'z) topology_library \<Rightarrow> ('t, 'a) authoring_scene \<Rightarrow> ('t, 'a) authoring_scene \<Rightarrow> bool" for lib where
  inserts_root: "authoring_step lib au (snd (insert_root lib node_data loc ordinal au))"
| inserts_child: "authoring_step lib au (snd (insert_child lib parent_id node_data edge_data loc ordinal au))"
| sets_local: "authoring_step lib au (snd (scene_set_local lib node loc au))"
| reparents: "authoring_step lib au (snd (reparent lib node new_parent edge_data ordinal au))"
| detaches: "authoring_step lib au (snd (detach_to_root lib node ordinal au))"
| erases: "authoring_step lib au (snd (erase_subtree lib node au))"
| replaces_data: "authoring_step lib au (snd (replace_node_data lib node node_data au))"
| replaces_edge: "authoring_step lib au (snd (replace_parent_edge_data lib node edge_data au))"

end
