(* ===== verification/Scene_Freeze.thy ===== *)
theory Scene_Freeze
  imports Authoring_Scene
begin

section \<open>Freezing an authoring scene\<close>

text \<open>
  \<open>include/scene_polytree/scene_freeze.hpp\<close>: the runtime scene made from an authoring scene, and
  the incremental freeze that carries the worlds of a previous runtime scene over by stable id. The
  two directions of \<open>FrozenIdentityMap\<close> are read off the list of stable ids; the freeze metrics are
  only passed through and are left out.
\<close>

record 'a runtime_scene =
  rt_topology :: polytree
  rt_identities :: "stable_id list"
  rt_state :: "'a transform_state"
  rt_authoring_revisions :: "u64 list"

datatype 'z freeze_failure = Freeze_error 'z | Out_of_range

definition runtime_handle :: "stable_id list \<Rightarrow> stable_id \<Rightarrow> node_handle option" where
  "runtime_handle identities sid = find_index (\<lambda>s. s = sid) identities"

definition authoring_id :: "stable_id list \<Rightarrow> node_handle \<Rightarrow> stable_id option" where
  "authoring_id identities node = (if node < length identities then Some (identities ! node) else None)"

definition stable_parent :: "polytree \<Rightarrow> stable_id list \<Rightarrow> node_handle \<Rightarrow> stable_id option" where
  "stable_parent topology identities node =
     (case parent topology node of None \<Rightarrow> None | Some p \<Rightarrow> authoring_id identities p)"

definition fresh_runtime_record :: "'a authoring_record \<Rightarrow> 'a transform_record" where
  "fresh_runtime_record authoring =
     \<lparr>r_local = ar_local authoring, r_world = ar_local authoring,
      r_local_revision = ar_local_revision authoring, r_world_revision = 0, r_dirty = True\<rparr>"

definition freeze_record ::
  "frozen_polytree \<Rightarrow> 'a runtime_scene option \<Rightarrow> 'a authoring_record \<Rightarrow> node_handle \<Rightarrow> 'a transform_record" where
  "freeze_record frozen previous authoring runtime =
     (case previous of
        None \<Rightarrow> fresh_runtime_record authoring
      | Some prev \<Rightarrow>
          (case runtime_handle (rt_identities prev) (fz_identities frozen ! runtime) of
             None \<Rightarrow> fresh_runtime_record authoring
           | Some old_runtime \<Rightarrow>
               (let result = record_at (rt_state prev) old_runtime;
                    old_authoring_revision = rt_authoring_revisions prev ! old_runtime;
                    local_changed = old_authoring_revision \<noteq> ar_local_revision authoring;
                    runtime_local_diverged = r_local_revision result \<noteq> old_authoring_revision;
                    parent_changed =
                      stable_parent (rt_topology prev) (rt_identities prev) old_runtime \<noteq>
                      stable_parent (fz_topology frozen) (fz_identities frozen) runtime
                in result\<lparr>r_local := ar_local authoring, r_local_revision := ar_local_revision authoring,
                          r_dirty := r_dirty result \<or> local_changed \<or> runtime_local_diverged \<or> parent_changed\<rparr>)))"

text \<open>\<open>record\<close> throws when the node has no record; every other failure is the submodule's.\<close>

definition freeze_scene ::
  "('t, 'n, 'e, 'm, 'z) topology_library \<Rightarrow> ('t, 'a) authoring_scene \<Rightarrow> 'a runtime_scene option \<Rightarrow>
   'z freeze_failure + 'a runtime_scene" where
  "freeze_scene lib source previous =
     (case tl_freeze lib (au_topology source) of
        Inl error \<Rightarrow> Inl (Freeze_error error)
      | Inr frozen \<Rightarrow>
          (let stable_nodes = fz_identities frozen;
               authored = as_records (au_state source)
           in if \<exists>sid \<in> set stable_nodes. authored sid = None then Inl Out_of_range
              else let previous_revision = (case previous of None \<Rightarrow> 0 | Some prev \<Rightarrow> m_revision (rt_state prev))
                   in Inr \<lparr>rt_topology = fz_topology frozen, rt_identities = stable_nodes,
                           rt_state = make_state
                             (map (\<lambda>index. freeze_record frozen previous (the (authored (stable_nodes ! index))) index)
                                [0..<length stable_nodes])
                             (max (as_revision (au_state source)) previous_revision),
                           rt_authoring_revisions =
                             map (\<lambda>sid. ar_local_revision (the (authored sid))) stable_nodes\<rparr>))"

definition runtime_set_local :: "node_handle \<Rightarrow> 'a \<Rightarrow> 'a runtime_scene \<Rightarrow> transform_error \<times> 'a runtime_scene" where
  "runtime_set_local node loc rt =
     (case set_local node loc (rt_state rt) of (error, st) \<Rightarrow> (error, rt\<lparr>rt_state := st\<rparr>))"

definition authoring_local_revision :: "node_handle \<Rightarrow> 'a runtime_scene \<Rightarrow> u64" where
  "authoring_local_revision node rt = rt_authoring_revisions rt ! node"

subsection \<open>What the scene relies on of the mutable polytree\<close>

text \<open>
  The documented behaviour of the submodule: a failing operation changes nothing, insertion adds
  one node that was not there under the parent it was given, the other edits add none, and a freeze
  lists every node once, in a well-formed topology with the same parents. \<open>lawful\<close> is the
  submodule's own invariant.
\<close>

definition adds_node ::
  "('t, 'n, 'e, 'm, 'z) topology_library \<Rightarrow> ('t \<Rightarrow> bool) \<Rightarrow> 't \<Rightarrow> stable_id \<Rightarrow>
   ('m mutation_error + stable_id) \<times> 't \<Rightarrow> bool" where
  "adds_node lib lawful t parent_id outcome \<longleftrightarrow>
     (case outcome of
        (Inl _, t') \<Rightarrow> t' = t
      | (Inr node, t') \<Rightarrow> lawful t' \<and> \<not> tl_contains lib t node \<and>
          (\<forall>k. tl_contains lib t' k \<longleftrightarrow> k = node \<or> tl_contains lib t k) \<and>
          (\<forall>k. tl_contains lib t' k \<longrightarrow> tl_parent lib t' k = (if k = node then parent_id else tl_parent lib t k)))"

definition keeps_nodes ::
  "('t, 'n, 'e, 'm, 'z) topology_library \<Rightarrow> ('t \<Rightarrow> bool) \<Rightarrow> 't \<Rightarrow> ('m mutation_error + 'r) \<times> 't \<Rightarrow> bool" where
  "keeps_nodes lib lawful t outcome \<longleftrightarrow>
     lawful (snd outcome) \<and> (\<forall>k. tl_contains lib (snd outcome) k \<longleftrightarrow> tl_contains lib t k)"

definition frozen_from ::
  "('t, 'n, 'e, 'm, 'z) topology_library \<Rightarrow> 't \<Rightarrow> frozen_polytree \<Rightarrow> bool" where
  "frozen_from lib t frozen \<longleftrightarrow>
     wf_polytree (fz_topology frozen) \<and> distinct (fz_identities frozen) \<and>
     length (fz_identities frozen) = node_count (fz_topology frozen) \<and>
     set (fz_identities frozen) = {k. tl_contains lib t k} \<and>
     (\<forall>n < node_count (fz_topology frozen). tl_parent lib t (fz_identities frozen ! n) =
        (case parent (fz_topology frozen) n of None \<Rightarrow> tl_invalid_node lib | Some p \<Rightarrow> fz_identities frozen ! p))"

definition library_ok :: "('t, 'n, 'e, 'm, 'z) topology_library \<Rightarrow> ('t \<Rightarrow> bool) \<Rightarrow> bool" where
  "library_ok lib lawful \<longleftrightarrow>
     lawful (tl_empty lib) \<and> (\<forall>k. \<not> tl_contains lib (tl_empty lib) k) \<and>
     \<not> tl_valid lib (tl_invalid_node lib) \<and>
     (\<forall>t. lawful t \<longrightarrow>
        (\<forall>k. tl_contains lib t k \<longrightarrow> tl_valid lib k) \<and>
        (\<forall>d ordinal. adds_node lib lawful t (tl_invalid_node lib) (tl_insert_root lib t d ordinal)) \<and>
        (\<forall>p d e ordinal. adds_node lib lawful t p (tl_insert_child lib t p d e ordinal)) \<and>
        (\<forall>n p e ordinal. keeps_nodes lib lawful t (tl_reparent lib t n p e ordinal)) \<and>
        (\<forall>n ordinal. keeps_nodes lib lawful t (tl_detach_to_root lib t n ordinal)) \<and>
        (\<forall>n d. keeps_nodes lib lawful t (tl_replace_node_data lib t n d)) \<and>
        (\<forall>n e. keeps_nodes lib lawful t (tl_replace_parent_edge_data lib t n e)) \<and>
        (\<forall>n. case tl_erase_subtree lib t n of
               (Inl _, t') \<Rightarrow> t' = t
             | (Inr _, t') \<Rightarrow> lawful t' \<and> (\<forall>k. tl_contains lib t' k \<longrightarrow> tl_contains lib t k)) \<and>
        (\<forall>frozen. tl_freeze lib t = Inr frozen \<longrightarrow> frozen_from lib t frozen))"

lemma library_okD:
  assumes "library_ok lib lawful"
  shows "lawful (tl_empty lib)" "\<And>k. \<not> tl_contains lib (tl_empty lib) k" "\<not> tl_valid lib (tl_invalid_node lib)"
    and "\<And>t k. lawful t \<Longrightarrow> tl_contains lib t k \<Longrightarrow> tl_valid lib k"
    "\<And>t d ordinal. lawful t \<Longrightarrow> adds_node lib lawful t (tl_invalid_node lib) (tl_insert_root lib t d ordinal)"
    "\<And>t p d e ordinal. lawful t \<Longrightarrow> adds_node lib lawful t p (tl_insert_child lib t p d e ordinal)"
    "\<And>t n p e ordinal. lawful t \<Longrightarrow> keeps_nodes lib lawful t (tl_reparent lib t n p e ordinal)"
    "\<And>t n ordinal. lawful t \<Longrightarrow> keeps_nodes lib lawful t (tl_detach_to_root lib t n ordinal)"
    "\<And>t n d. lawful t \<Longrightarrow> keeps_nodes lib lawful t (tl_replace_node_data lib t n d)"
    "\<And>t n e. lawful t \<Longrightarrow> keeps_nodes lib lawful t (tl_replace_parent_edge_data lib t n e)"
    "\<And>t n. lawful t \<Longrightarrow> case tl_erase_subtree lib t n of
               (Inl _, t') \<Rightarrow> t' = t
             | (Inr _, t') \<Rightarrow> lawful t' \<and> (\<forall>k. tl_contains lib t' k \<longrightarrow> tl_contains lib t k)"
    "\<And>t frozen. lawful t \<Longrightarrow> tl_freeze lib t = Inr frozen \<Longrightarrow> frozen_from lib t frozen"
  using assms by (simp_all add: library_ok_def)

lemma library_okI:
  assumes "lawful (tl_empty lib)" "\<And>k. \<not> tl_contains lib (tl_empty lib) k" "\<not> tl_valid lib (tl_invalid_node lib)"
    and "\<And>t k. lawful t \<Longrightarrow> tl_contains lib t k \<Longrightarrow> tl_valid lib k"
    "\<And>t d ordinal. lawful t \<Longrightarrow> adds_node lib lawful t (tl_invalid_node lib) (tl_insert_root lib t d ordinal)"
    "\<And>t p d e ordinal. lawful t \<Longrightarrow> adds_node lib lawful t p (tl_insert_child lib t p d e ordinal)"
    "\<And>t n p e ordinal. lawful t \<Longrightarrow> keeps_nodes lib lawful t (tl_reparent lib t n p e ordinal)"
    "\<And>t n ordinal. lawful t \<Longrightarrow> keeps_nodes lib lawful t (tl_detach_to_root lib t n ordinal)"
    "\<And>t n d. lawful t \<Longrightarrow> keeps_nodes lib lawful t (tl_replace_node_data lib t n d)"
    "\<And>t n e. lawful t \<Longrightarrow> keeps_nodes lib lawful t (tl_replace_parent_edge_data lib t n e)"
    "\<And>t n. lawful t \<Longrightarrow> case tl_erase_subtree lib t n of
               (Inl _, t') \<Rightarrow> t' = t
             | (Inr _, t') \<Rightarrow> lawful t' \<and> (\<forall>k. tl_contains lib t' k \<longrightarrow> tl_contains lib t k)"
    "\<And>t frozen. lawful t \<Longrightarrow> tl_freeze lib t = Inr frozen \<Longrightarrow> frozen_from lib t frozen"
  shows "library_ok lib lawful"
  using assms by (simp add: library_ok_def)

subsection \<open>Authoring scenes stay consistent\<close>

definition authoring_ok ::
  "('t, 'n, 'e, 'm, 'z) topology_library \<Rightarrow> ('t \<Rightarrow> bool) \<Rightarrow> ('t, 'a) authoring_scene \<Rightarrow> bool" where
  "authoring_ok lib lawful au \<longleftrightarrow>
     lawful (au_topology au) \<and> dom (as_records (au_state au)) = {k. tl_contains lib (au_topology au) k} \<and>
     (\<forall>k r. as_records (au_state au) k = Some r \<longrightarrow> ar_local_revision r \<le> as_revision (au_state au))"

text \<open>
  What later states of a scene still know of an earlier one: the clock has not gone back, and a
  record with an old revision is an old record.
\<close>

definition authored_since :: "('t, 'a) authoring_scene \<Rightarrow> ('t, 'a) authoring_scene \<Rightarrow> bool" where
  "authored_since au au' \<longleftrightarrow>
     as_revision (au_state au) \<le> as_revision (au_state au') \<and>
     (\<forall>k r. as_records (au_state au') k = Some r \<longrightarrow>
        as_records (au_state au) k = Some r \<or> as_revision (au_state au) < ar_local_revision r)"

lemma authored_since_refl [simp]: "authored_since au au"
  by (simp add: authored_since_def)

lemma authored_since_same: "au_state au' = au_state au \<Longrightarrow> authored_since au au'"
  by (simp add: authored_since_def)

lemma authoring_ok_insert:
  assumes ok: "authoring_ok lib lawful au" and available: "authoring_available (au_state au)"
    and adds: "adds_node lib lawful (au_topology au) parent_id (Inr node, t)"
  shows "authoring_ok lib lawful (au\<lparr>au_topology := t, au_state := snd (authoring_insert node loc (au_state au))\<rparr>)"
    "authored_since au (au\<lparr>au_topology := t, au_state := snd (authoring_insert node loc (au_state au))\<rparr>)"
proof -
  have "as_records (au_state au) node = None"
    using ok adds by (auto simp: authoring_ok_def adds_node_def)
  then have st: "snd (authoring_insert node loc (au_state au)) = (au_state au)\<lparr>as_revision := as_revision (au_state au) + 1,
      as_records := (as_records (au_state au))(node \<mapsto> \<lparr>ar_local = loc, ar_local_revision = as_revision (au_state au) + 1\<rparr>)\<rparr>"
    using available by (simp add: authoring_insert_def Let_def)
  have rev: "as_revision (au_state au) \<noteq> - 1" using available by (simp add: authoring_available_def)
  show "authoring_ok lib lawful (au\<lparr>au_topology := t, au_state := snd (authoring_insert node loc (au_state au))\<rparr>)"
    using ok adds rev by (auto simp: st authoring_ok_def adds_node_def intro: le_next)
  show "authored_since au (au\<lparr>au_topology := t, au_state := snd (authoring_insert node loc (au_state au))\<rparr>)"
    using rev by (auto simp: st authored_since_def less_next order.strict_implies_order)
qed

definition inserted ::
  "('m mutation_error + stable_id) \<times> 't \<Rightarrow> 'a \<Rightarrow> ('t, 'a) authoring_scene \<Rightarrow> ('t, 'a) authoring_scene" where
  "inserted outcome loc au =
     (case outcome of
        (Inl _, t) \<Rightarrow> au\<lparr>au_topology := t\<rparr>
      | (Inr node, t) \<Rightarrow> au\<lparr>au_topology := t, au_state := snd (authoring_insert node loc (au_state au))\<rparr>)"

lemma insert_outcome_ok:
  assumes ok: "authoring_ok lib lawful au" and available: "authoring_available (au_state au)"
    and adds: "adds_node lib lawful (au_topology au) parent_id outcome"
  shows "authoring_ok lib lawful (inserted outcome loc au) \<and> authored_since au (inserted outcome loc au)"
proof (cases outcome)
  case (Pair result t)
  show ?thesis
  proof (cases result)
    case (Inl e)
    with adds ok show ?thesis by (simp add: Pair adds_node_def inserted_def authored_since_def)
  next
    case (Inr node)
    with authoring_ok_insert [OF ok available] adds show ?thesis by (simp add: Pair inserted_def)
  qed
qed

lemma authoring_ok_topology:
  assumes "authoring_ok lib lawful au" and "keeps_nodes lib lawful (au_topology au) (outcome, t)"
  shows "authoring_ok lib lawful (au\<lparr>au_topology := t\<rparr>)"
  using assms by (simp add: authoring_ok_def keeps_nodes_def)

lemma note_scene_change_ok:
  assumes "authoring_ok lib lawful au"
  shows "authoring_ok lib lawful (au\<lparr>au_state := snd (note_scene_change (au_state au))\<rparr>)"
    "authored_since au (au\<lparr>au_state := snd (note_scene_change (au_state au))\<rparr>)"
  using assms
  by (auto simp: authoring_ok_def authored_since_def note_scene_change_def authoring_available_def
      intro: le_next order.strict_implies_order [OF less_next])

lemma authoring_step_ok:
  assumes lib: "library_ok lib lawful" and step: "authoring_step lib au au'" and ok: "authoring_ok lib lawful au"
  shows "authoring_ok lib lawful au' \<and> authored_since au au'"
  using step
proof cases
  case (inserts_root d loc ordinal)
  have "adds_node lib lawful (au_topology au) (tl_invalid_node lib) (tl_insert_root lib (au_topology au) d ordinal)"
    using library_okD(5) [OF lib] ok by (simp add: authoring_ok_def)
  from insert_outcome_ok [OF ok _ this, of loc] show ?thesis
    by (cases "authoring_available (au_state au)")
      (auto simp: inserts_root insert_root_def inserted_def ok split: prod.split sum.split)
next
  case (inserts_child p d e loc ordinal)
  have "adds_node lib lawful (au_topology au) p (tl_insert_child lib (au_topology au) p d e ordinal)"
    using library_okD(6) [OF lib] ok by (simp add: authoring_ok_def)
  from insert_outcome_ok [OF ok _ this, of loc] show ?thesis
    by (cases "authoring_available (au_state au)")
      (auto simp: inserts_child insert_child_def inserted_def ok split: prod.split sum.split)
next
  case (sets_local node loc)
  show ?thesis
    using ok less_next [of "as_revision (au_state au)"]
    by (auto simp: sets_local scene_set_local_def authoring_set_local_def authoring_ok_def authored_since_def
        authoring_available_def Let_def split: option.splits if_splits
        intro: le_next order.strict_implies_order [OF less_next])
next
  case (reparents node p e ordinal)
  obtain outcome t where t: "tl_reparent lib (au_topology au) node p e ordinal = (outcome, t)" by fastforce
  note k = authoring_ok_topology [OF ok, of outcome t]
  have kok: "authoring_ok lib lawful (au\<lparr>au_topology := t\<rparr>)"
    using k library_okD(7) [OF lib, of "au_topology au" node p e ordinal] ok by (simp add: t authoring_ok_def)
  note n = note_scene_change_ok [OF kok]
  show ?thesis
    using ok kok n by (auto simp: reparents reparent_def t Let_def authored_since_def)
next
  case (detaches node ordinal)
  obtain outcome t where t: "tl_detach_to_root lib (au_topology au) node ordinal = (outcome, t)" by fastforce
  have kok: "authoring_ok lib lawful (au\<lparr>au_topology := t\<rparr>)"
    using authoring_ok_topology [OF ok, of outcome t] library_okD(8) [OF lib, of "au_topology au" node ordinal] ok
    by (simp add: t authoring_ok_def)
  note n = note_scene_change_ok [OF kok]
  show ?thesis
    using ok kok n by (auto simp: detaches detach_to_root_def t Let_def authored_since_def)
next
  case (erases node)
  obtain outcome t where t: "tl_erase_subtree lib (au_topology au) node = (outcome, t)" by fastforce
  have l: "case outcome of Inl _ \<Rightarrow> t = au_topology au
      | Inr _ \<Rightarrow> lawful t \<and> (\<forall>k. tl_contains lib t k \<longrightarrow> tl_contains lib (au_topology au) k)"
    using library_okD(11) [OF lib, of "au_topology au" node] ok by (simp add: t authoring_ok_def split: sum.splits)
  let ?e = "au\<lparr>au_topology := t, au_state := erase_absent_nodes lib t (au_state au)\<rparr>"
  show ?thesis
  proof (cases "authoring_available (au_state au) \<and> \<not> isl outcome")
    case True
    then obtain r where r: "outcome = Inr r" by (cases outcome) auto
    have "authoring_ok lib lawful ?e"
      using ok l by (auto simp: authoring_ok_def r erase_absent_nodes_def dom_def split: if_splits)
    note n = note_scene_change_ok [OF this]
    have "authored_since au (?e\<lparr>au_state := snd (note_scene_change (au_state ?e))\<rparr>)"
      using n(2) by (auto simp: authored_since_def erase_absent_nodes_def note_scene_change_def split: if_splits)
    with n(1) True show ?thesis by (simp add: erases erase_subtree_def t)
  next
    case False
    then show ?thesis using ok l by (auto simp: erases erase_subtree_def t split: sum.splits intro: authored_since_same)
  qed
next
  case (replaces_data node d)
  then show ?thesis
    using library_okD(9) [OF lib, of "au_topology au" node d] ok
    by (auto simp: replace_node_data_def authoring_ok_def keeps_nodes_def authored_since_def split: prod.splits)
next
  case (replaces_edge node e)
  then show ?thesis
    using library_okD(10) [OF lib, of "au_topology au" node e] ok
    by (auto simp: replace_parent_edge_data_def authoring_ok_def keeps_nodes_def authored_since_def split: prod.splits)
qed

inductive reachable_authoring ::
  "('t, 'n, 'e, 'm, 'z) topology_library \<Rightarrow> ('t, 'a) authoring_scene \<Rightarrow> bool" for lib where
  authoring_starts: "reachable_authoring lib (new_authoring_scene lib)"
| authoring_goes_on: "reachable_authoring lib au \<Longrightarrow> authoring_step lib au au' \<Longrightarrow> reachable_authoring lib au'"

lemma reachable_authoring_ok:
  assumes lib: "library_ok lib lawful" and "reachable_authoring lib au"
  shows "authoring_ok lib lawful au"
  using assms(2)
proof induction
  case authoring_starts
  then show ?case using library_okD(1,2) [OF lib] by (simp add: authoring_ok_def new_authoring_scene_def)
next
  case (authoring_goes_on au au')
  then show ?case using authoring_step_ok [OF lib] by blast
qed

subsection \<open>Locals of a running scene\<close>

text \<open>A local that has changed has a revision from after the change began.\<close>

definition locals_follow :: "'a transform_state \<Rightarrow> 'a transform_state \<Rightarrow> bool" where
  "locals_follow st st' \<longleftrightarrow>
     length (m_records st') = length (m_records st) \<and> m_revision st \<le> m_revision st' \<and>
     (\<forall>n < length (m_records st).
        r_local_revision (m_records st' ! n) = r_local_revision (m_records st ! n) \<and>
          r_local (m_records st' ! n) = r_local (m_records st ! n)
        \<or> m_revision st < r_local_revision (m_records st' ! n))"

lemma locals_follow_refl [simp]: "locals_follow st st"
  by (simp add: locals_follow_def)

lemma locals_follow_set_local: "locals_follow st (snd (set_local node loc st))"
  by (auto simp: locals_follow_def set_local_def Let_def revision_available_def nth_list_update
      intro: less_next order.strict_implies_order [OF less_next])

lemma locals_follow_mark_dirty: "locals_follow st (snd (mark_dirty node st))"
  by (auto simp: locals_follow_def mark_dirty_def Let_def revision_available_def nth_list_update
      intro: order.strict_implies_order [OF less_next])

lemma locals_follow_evaluated:
  assumes "evaluated t compose nodes st st'" and "nodes \<noteq> [] \<Longrightarrow> m_revision st \<noteq> - 1"
  shows "locals_follow st st'"
  using assms by (auto simp: locals_follow_def evaluated_def next_revision_def intro: order.strict_implies_order [OF less_next])

lemma system_step_locals:
  assumes wf: "wf_polytree t" and ok: "system_ok t compose sys" and step: "system_step t compose sys sys'"
  shows "locals_follow (sys_state sys) (sys_state sys')"
proof -
  have evaluates: "locals_follow (sys_state sys)
      (snd (evaluate_transforms t compose (sys_state sys) plan (Some (sys_workspace sys))))"
    if plan: "plan \<in> set (sys_plans sys)" for plan
  proof (cases "check_plan t (sys_state sys) plan (Some (sys_workspace sys)) = te_none")
    case True
    note ev = held_plan_evaluable [OF wf ok plan True]
    note eff = sequential.accept_state [OF TrueI ev(1) True, of compose]
    show ?thesis
      by (rule locals_follow_evaluated [OF eff]) (use True in \<open>auto simp: check_plan_def revision_available_def split: if_splits\<close>)
  next
    case False
    then show ?thesis using sequential.reject [OF TrueI False, of compose] by simp
  qed
  have md: "sys_plans sys \<noteq> [] \<Longrightarrow> metadata_ok t (sys_workspace sys)" using ok by (simp add: system_ok_def)
  from step show ?thesis
  proof cases
    case (step_evaluate plan result st)
    with evaluates [of plan] show ?thesis by simp
  next
    case (step_evaluate_on plan sched workers grain result st ws)
    have "st = snd (evaluate_transforms t compose (sys_state sys) plan (Some (sys_workspace sys)))"
      using held_plan_in_parallel [OF wf ok step_evaluate_on(2-4)] .
    with step_evaluate_on evaluates [of plan] show ?thesis by simp
  qed (simp_all add: locals_follow_set_local locals_follow_mark_dirty)
qed

subsection \<open>Sessions\<close>

text \<open>
  An authoring scene and the runtime scene last frozen from it, both in use: the scene is edited, the
  runtime is edited, planned and evaluated, and now and then it is frozen again, with a new
  workspace, over the previous runtime scene.
\<close>

definition started :: "'a runtime_scene \<Rightarrow> 'a transform_system" where
  "started rt = \<lparr>sys_state = rt_state rt, sys_workspace = new_workspace, sys_plans = []\<rparr>"

inductive session ::
  "('t, 'n, 'e, 'm, 'z) topology_library \<Rightarrow> ('a \<Rightarrow> 'a \<Rightarrow> 'a) \<Rightarrow> ('t, 'a) authoring_scene \<Rightarrow>
   'a runtime_scene \<Rightarrow> 'a transform_system \<Rightarrow> bool" for lib compose where
  first_freeze: "reachable_authoring lib au \<Longrightarrow> freeze_scene lib au None = Inr rt \<Longrightarrow>
    session lib compose au rt (started rt)"
| edits: "session lib compose au rt sys \<Longrightarrow> authoring_step lib au au' \<Longrightarrow> session lib compose au' rt sys"
| runs: "session lib compose au rt sys \<Longrightarrow> system_step (rt_topology rt) compose sys sys' \<Longrightarrow>
    session lib compose au (rt\<lparr>rt_state := sys_state sys'\<rparr>) sys'"
| refreezes: "session lib compose au rt sys \<Longrightarrow> freeze_scene lib au (Some rt) = Inr rt' \<Longrightarrow>
    session lib compose au rt' (started rt')"

text \<open>
  \<open>F\<close> are the locals of the last freeze: a local of the runtime or of the scene that still has the
  revision it had then is still that local.
\<close>

definition tracks ::
  "('t, 'a) authoring_scene \<Rightarrow> 'a runtime_scene \<Rightarrow> (node_handle \<Rightarrow> 'a) \<Rightarrow> bool" where
  "tracks au rt F \<longleftrightarrow>
     (\<forall>n < length (rt_identities rt).
        rt_authoring_revisions rt ! n \<le> m_revision (rt_state rt) \<and>
        rt_authoring_revisions rt ! n \<le> as_revision (au_state au) \<and>
        (r_local_revision (m_records (rt_state rt) ! n) = rt_authoring_revisions rt ! n \<longrightarrow>
           r_local (m_records (rt_state rt) ! n) = F n) \<and>
        (\<forall>r. as_records (au_state au) (rt_identities rt ! n) = Some r \<longrightarrow>
           ar_local_revision r = rt_authoring_revisions rt ! n \<longrightarrow> ar_local r = F n))"

definition runtime_ok :: "('a \<Rightarrow> 'a \<Rightarrow> 'a) \<Rightarrow> 'a runtime_scene \<Rightarrow> bool" where
  "runtime_ok compose rt \<longleftrightarrow>
     wf_polytree (rt_topology rt) \<and> distinct (rt_identities rt) \<and>
     length (rt_identities rt) = node_count (rt_topology rt) \<and>
     length (rt_authoring_revisions rt) = node_count (rt_topology rt) \<and>
     state_ok (rt_topology rt) compose (rt_state rt)"

definition session_ok ::
  "('t, 'n, 'e, 'm, 'z) topology_library \<Rightarrow> ('t \<Rightarrow> bool) \<Rightarrow> ('a \<Rightarrow> 'a \<Rightarrow> 'a) \<Rightarrow> ('t, 'a) authoring_scene \<Rightarrow>
   'a runtime_scene \<Rightarrow> 'a transform_system \<Rightarrow> bool" where
  "session_ok lib lawful compose au rt sys \<longleftrightarrow>
     authoring_ok lib lawful au \<and> runtime_ok compose rt \<and> rt_state rt = sys_state sys \<and>
     reachable_system (rt_topology rt) compose sys \<and> (\<exists>F. tracks au rt F)"

lemma runtime_handle_Some:
  "runtime_handle identities sid = Some n \<Longrightarrow> n < length identities \<and> identities ! n = sid"
  unfolding runtime_handle_def by (drule find_index_SomeD) simp

lemma runtime_handle_nth:
  "distinct identities \<Longrightarrow> n < length identities \<Longrightarrow> runtime_handle identities (identities ! n) = Some n"
  unfolding runtime_handle_def by (intro find_index_unique) (auto simp: nth_eq_iff_index_eq)

subsection \<open>A freeze\<close>

lemma freeze_never_out_of_range:
  assumes lib: "library_ok lib lawful" and au: "authoring_ok lib lawful au" and fz: "tl_freeze lib (au_topology au) = Inr frozen"
  shows "\<exists>rt. freeze_scene lib au previous = Inr rt"
proof -
  have "frozen_from lib (au_topology au) frozen"
    using library_okD(12) [OF lib _ fz] au by (simp add: authoring_ok_def)
  then have "as_records (au_state au) sid \<noteq> None" if "sid \<in> set (fz_identities frozen)" for sid
    using au that by (auto simp: authoring_ok_def frozen_from_def)
  then show ?thesis using fz by (auto simp: freeze_scene_def Let_def)
qed

lemma freeze_sceneD:
  assumes "freeze_scene lib au previous = Inr rt" and fz: "tl_freeze lib (au_topology au) = Inr frozen"
  shows "rt_topology rt = fz_topology frozen" "rt_identities rt = fz_identities frozen"
    "length (m_records (rt_state rt)) = length (fz_identities frozen)"
    "frontier_exact (rt_state rt)"
    "m_revision (rt_state rt) = max (as_revision (au_state au))
       (case previous of None \<Rightarrow> 0 | Some prev \<Rightarrow> m_revision (rt_state prev))"
    and "\<And>n. n < length (fz_identities frozen) \<Longrightarrow> \<exists>r. as_records (au_state au) (fz_identities frozen ! n) = Some r \<and>
      rt_authoring_revisions rt ! n = ar_local_revision r \<and>
      m_records (rt_state rt) ! n = freeze_record frozen previous r n"
    and "length (rt_authoring_revisions rt) = length (fz_identities frozen)"
proof -
  let ?a = "as_records (au_state au)" and ?ids = "fz_identities frozen"
  let ?records = "map (\<lambda>index. freeze_record frozen previous (the (?a (?ids ! index))) index) [0..<length ?ids]"
  let ?revision = "max (as_revision (au_state au)) (case previous of None \<Rightarrow> 0 | Some prev \<Rightarrow> m_revision (rt_state prev))"
  have all: "\<forall>sid \<in> set ?ids. ?a sid \<noteq> None" and st: "rt_state rt = make_state ?records ?revision"
    and ids: "rt_topology rt = fz_topology frozen" "rt_identities rt = ?ids"
    "rt_authoring_revisions rt = map (\<lambda>sid. ar_local_revision (the (?a sid))) ?ids"
    using assms by (auto simp: freeze_scene_def Let_def split: if_splits)
  show "rt_topology rt = fz_topology frozen" "rt_identities rt = ?ids" by (fact ids)+
  show "length (m_records (rt_state rt)) = length ?ids" "frontier_exact (rt_state rt)" "m_revision (rt_state rt) = ?revision"
    "length (rt_authoring_revisions rt) = length ?ids"
    by (simp_all add: st frontier_exact_make_state ids) (simp_all add: make_state_def)
  show "\<exists>r. ?a (?ids ! n) = Some r \<and> rt_authoring_revisions rt ! n = ar_local_revision r \<and>
      m_records (rt_state rt) ! n = freeze_record frozen previous r n" if n: "n < length ?ids" for n
  proof -
    obtain r where "?a (?ids ! n) = Some r" using all n by fastforce
    then show ?thesis using n by (simp add: st ids make_state_def)
  qed
qed

lemma freeze_record_local:
  "r_local (freeze_record frozen previous r n) = ar_local r"
  "r_local_revision (freeze_record frozen previous r n) = ar_local_revision r"
  by (auto simp: freeze_record_def fresh_runtime_record_def Let_def split: option.split)

text \<open>A record that a freeze leaves clean comes from a clean one with the same local and parent.\<close>

lemma freeze_record_clean:
  assumes "\<not> r_dirty (freeze_record frozen previous r n)"
  obtains prev old where "previous = Some prev" "runtime_handle (rt_identities prev) (fz_identities frozen ! n) = Some old"
    "\<not> r_dirty (m_records (rt_state prev) ! old)"
    "r_world (freeze_record frozen previous r n) = r_world (m_records (rt_state prev) ! old)"
    "r_local_revision (m_records (rt_state prev) ! old) = rt_authoring_revisions prev ! old"
    "ar_local_revision r = rt_authoring_revisions prev ! old"
    "stable_parent (rt_topology prev) (rt_identities prev) old = stable_parent (fz_topology frozen) (fz_identities frozen) n"
  using assms
  by (auto simp: freeze_record_def fresh_runtime_record_def Let_def record_at_def split: option.splits)

lemma freeze_world:
  "runtime_handle (rt_identities prev) (fz_identities frozen ! n) = Some old \<Longrightarrow>
   r_world (freeze_record frozen (Some prev) r n) = r_world (m_records (rt_state prev) ! old)"
  by (simp add: freeze_record_def Let_def record_at_def)

lemma freeze_worlds_ok:
  assumes wf: "wf_polytree (fz_topology frozen)" and len: "length (fz_identities frozen) = node_count (fz_topology frozen)"
    and dist: "distinct (fz_identities frozen)"
    and fz: "tl_freeze lib (au_topology au) = Inr frozen" and rt: "freeze_scene lib au previous = Inr rt"
    and prev: "\<And>prev. previous = Some prev \<Longrightarrow> runtime_ok compose prev \<and> (\<exists>F. tracks au prev F)"
  shows "worlds_ok (fz_topology frozen) compose (rt_state rt)"
  unfolding worlds_ok_def
proof (intro allI impI)
  let ?t = "fz_topology frozen" and ?ids = "fz_identities frozen"
  note D = freeze_sceneD [OF rt fz]
  fix n assume n: "n < node_count ?t" and clean: "\<not> r_dirty (m_records (rt_state rt) ! n)"
  obtain r where r: "as_records (au_state au) (?ids ! n) = Some r" "m_records (rt_state rt) ! n = freeze_record frozen previous r n"
    using D(6) [of n] n len by auto
  obtain prev' old where p: "previous = Some prev'" "runtime_handle (rt_identities prev') (?ids ! n) = Some old"
    "\<not> r_dirty (m_records (rt_state prev') ! old)"
    "r_world (freeze_record frozen previous r n) = r_world (m_records (rt_state prev') ! old)"
    "r_local_revision (m_records (rt_state prev') ! old) = rt_authoring_revisions prev' ! old"
    "ar_local_revision r = rt_authoring_revisions prev' ! old"
    "stable_parent (rt_topology prev') (rt_identities prev') old = stable_parent ?t ?ids n"
    by (rule freeze_record_clean [OF clean [unfolded r(2)]])
  obtain F where ok: "runtime_ok compose prev'" and F: "tracks au prev' F" using prev [OF p(1)] by blast
  have old: "old < length (rt_identities prev')" "rt_identities prev' ! old = ?ids ! n"
    using runtime_handle_Some [OF p(2)] by simp_all
  then have oldn: "old < node_count (rt_topology prev')" using ok by (simp add: runtime_ok_def)
  have "ar_local r = F old" "r_local (m_records (rt_state prev') ! old) = F old"
    using F old r(1) p(5,6) by (auto simp: tracks_def)
  then have loc: "local_of (rt_state rt) n = local_of (rt_state prev') old"
    by (simp add: local_of_def record_at_def r(2) freeze_record_local)
  have world: "world_of (rt_state rt) n = world_of (rt_state prev') old"
    by (simp add: world_of_def record_at_def r(2) p(4))
  have was: "world_of (rt_state prev') old = world_from (rt_topology prev') compose (rt_state prev') old"
    using ok oldn p(3) by (simp add: runtime_ok_def state_ok_def worlds_ok_def)
  show "world_of (rt_state rt) n = world_from ?t compose (rt_state rt) n"
  proof (cases "parent (rt_topology prev') old")
    case None
    then have "parent ?t n = None"
      using p(7) wf_parentD(1) [OF wf n] len by (auto simp: stable_parent_def authoring_id_def split: option.splits)
    with None loc was world show ?thesis by (simp add: world_from_def)
  next
    case (Some q)
    have wf': "wf_polytree (rt_topology prev')" and len': "length (rt_identities prev') = node_count (rt_topology prev')"
      and dist': "distinct (rt_identities prev')" using ok by (simp_all add: runtime_ok_def)
    have q: "q < length (rt_identities prev')" using wf_parentD(1) [OF wf' oldn Some] len' by simp
    obtain q' where q': "parent ?t n = Some q'"
      using p(7) q Some by (cases "parent ?t n") (simp_all add: stable_parent_def authoring_id_def)
    have ql: "q' < length ?ids" using wf_parentD(1) [OF wf n q'] len by simp
    have same: "?ids ! q' = rt_identities prev' ! q"
      using p(7) q ql Some q' by (simp add: stable_parent_def authoring_id_def)
    obtain rq where rq: "m_records (rt_state rt) ! q' = freeze_record frozen previous rq q'"
      using D(6) [OF ql] by blast
    have "runtime_handle (rt_identities prev') (?ids ! q') = Some q"
      unfolding same using runtime_handle_nth [OF dist' q] .
    then have "world_of (rt_state rt) q' = world_of (rt_state prev') q"
      by (simp add: world_of_def record_at_def rq p(1) freeze_world)
    with Some q' loc was world show ?thesis by (simp add: world_from_def)
  qed
qed

lemma freeze_starts:
  assumes lib: "library_ok lib lawful" and au: "authoring_ok lib lawful au" and rt: "freeze_scene lib au previous = Inr rt"
    and prev: "\<And>prev. previous = Some prev \<Longrightarrow> runtime_ok compose prev \<and> (\<exists>F. tracks au prev F)"
  shows "runtime_ok compose rt \<and> tracks au rt (\<lambda>n. ar_local (the (as_records (au_state au) (rt_identities rt ! n)))) \<and>
    initial_system (rt_topology rt) compose (started rt)"
proof -
  obtain frozen where fz: "tl_freeze lib (au_topology au) = Inr frozen"
    using rt by (cases "tl_freeze lib (au_topology au)") (auto simp: freeze_scene_def)
  note D = freeze_sceneD [OF rt fz]
  have from_: "frozen_from lib (au_topology au) frozen"
    using library_okD(12) [OF lib _ fz] au by (simp add: authoring_ok_def)
  then have wf: "wf_polytree (fz_topology frozen)" "distinct (fz_identities frozen)"
    "length (fz_identities frozen) = node_count (fz_topology frozen)" by (simp_all add: frozen_from_def)
  let ?st = "rt_state rt"
  have rec: "\<exists>r. as_records (au_state au) (fz_identities frozen ! n) = Some r \<and>
      rt_authoring_revisions rt ! n = ar_local_revision r \<and> ar_local_revision r \<le> as_revision (au_state au) \<and>
      r_local (m_records ?st ! n) = ar_local r \<and> r_local_revision (m_records ?st ! n) = ar_local_revision r \<and>
      r_world_revision (m_records ?st ! n) \<le> m_revision ?st"
    if n: "n < length (fz_identities frozen)" for n
  proof -
    obtain r where r: "as_records (au_state au) (fz_identities frozen ! n) = Some r"
      "rt_authoring_revisions rt ! n = ar_local_revision r" "m_records ?st ! n = freeze_record frozen previous r n"
      using D(6) [OF n] by blast
    have "r_world_revision (freeze_record frozen previous r n) \<le> m_revision ?st"
    proof (cases "\<exists>prev old. previous = Some prev \<and> runtime_handle (rt_identities prev) (fz_identities frozen ! n) = Some old")
      case True
      then obtain prev' old where p: "previous = Some prev'"
        "runtime_handle (rt_identities prev') (fz_identities frozen ! n) = Some old" by blast
      have "runtime_ok compose prev'" using prev [OF p(1)] by simp
      with runtime_handle_Some [OF p(2)]
      have "r_world_revision (m_records (rt_state prev') ! old) \<le> m_revision (rt_state prev')"
        by (simp add: runtime_ok_def state_ok_def clock_ok_nth)
      then show ?thesis by (simp add: D(5) p freeze_record_def Let_def record_at_def le_max_iff_disj)
    qed (auto simp: freeze_record_def fresh_runtime_record_def split: option.split)
    with r au show ?thesis by (auto simp: authoring_ok_def freeze_record_local)
  qed
  have "clock_ok ?st"
    unfolding clock_ok_def
  proof
    fix x assume "x \<in> set (m_records ?st)"
    then obtain n where n: "n < length (fz_identities frozen)" "x = m_records ?st ! n"
      using D(3) by (auto simp: in_set_conv_nth)
    have "as_revision (au_state au) \<le> m_revision ?st" by (simp add: D(5))
    with rec [OF n(1)] n(2) show "r_local_revision x \<le> m_revision ?st \<and> r_world_revision x \<le> m_revision ?st"
      by (auto intro: order.trans)
  qed
  moreover have "worlds_ok (fz_topology frozen) compose ?st" by (rule freeze_worlds_ok [OF wf(1,3,2) fz rt prev])
  ultimately have st: "state_ok (rt_topology rt) compose ?st"
    using D(1,3,4) wf(3) by (simp add: state_ok_def)
  have "tracks au rt (\<lambda>n. ar_local (the (as_records (au_state au) (rt_identities rt ! n))))"
    unfolding tracks_def
  proof (intro allI impI)
    fix n assume "n < length (rt_identities rt)"
    then have "n < length (fz_identities frozen)" by (simp add: D(2))
    from rec [OF this] obtain r where r: "as_records (au_state au) (fz_identities frozen ! n) = Some r"
      "rt_authoring_revisions rt ! n = ar_local_revision r" "ar_local_revision r \<le> as_revision (au_state au)"
      "r_local (m_records ?st ! n) = ar_local r" by blast
    moreover have "ar_local_revision r \<le> m_revision ?st" using r(3) by (simp add: D(5) le_max_iff_disj)
    ultimately show "rt_authoring_revisions rt ! n \<le> m_revision (rt_state rt) \<and>
        rt_authoring_revisions rt ! n \<le> as_revision (au_state au) \<and>
        (r_local_revision (m_records (rt_state rt) ! n) = rt_authoring_revisions rt ! n \<longrightarrow>
           r_local (m_records (rt_state rt) ! n) = ar_local (the (as_records (au_state au) (rt_identities rt ! n)))) \<and>
        (\<forall>r. as_records (au_state au) (rt_identities rt ! n) = Some r \<longrightarrow>
           ar_local_revision r = rt_authoring_revisions rt ! n \<longrightarrow>
           ar_local r = ar_local (the (as_records (au_state au) (rt_identities rt ! n))))"
      by (simp add: D(2))
  qed
  with st wf D show ?thesis by (simp add: runtime_ok_def initial_system_def state_ok_def started_def)
qed

lemma tracks_edit:
  assumes "tracks au rt F" and "authored_since au au'"
  shows "tracks au' rt F"
  unfolding tracks_def
proof (intro allI impI)
  fix n assume n: "n < length (rt_identities rt)"
  have old: "rt_authoring_revisions rt ! n \<le> as_revision (au_state au)"
    "as_revision (au_state au) \<le> as_revision (au_state au')"
    using assms n by (simp_all add: tracks_def authored_since_def)
  have "ar_local r = F n" if "as_records (au_state au') (rt_identities rt ! n) = Some r"
    "ar_local_revision r = rt_authoring_revisions rt ! n" for r
  proof -
    have "\<not> as_revision (au_state au) < ar_local_revision r" using old(1) that(2) by simp
    then have "as_records (au_state au) (rt_identities rt ! n) = Some r"
      using assms(2) that(1) by (auto simp: authored_since_def)
    with assms(1) n that(2) show ?thesis by (auto simp: tracks_def)
  qed
  moreover have "rt_authoring_revisions rt ! n \<le> as_revision (au_state au')" using old by (rule order.trans)
  ultimately show "rt_authoring_revisions rt ! n \<le> m_revision (rt_state rt) \<and>
        rt_authoring_revisions rt ! n \<le> as_revision (au_state au') \<and>
        (r_local_revision (m_records (rt_state rt) ! n) = rt_authoring_revisions rt ! n \<longrightarrow>
           r_local (m_records (rt_state rt) ! n) = F n) \<and>
        (\<forall>r. as_records (au_state au') (rt_identities rt ! n) = Some r \<longrightarrow>
           ar_local_revision r = rt_authoring_revisions rt ! n \<longrightarrow> ar_local r = F n)"
    using assms(1) n by (auto simp: tracks_def)
qed

lemma tracks_run:
  assumes "tracks au rt F" and "locals_follow (rt_state rt) st" and "length (m_records (rt_state rt)) = length (rt_identities rt)"
  shows "tracks au (rt\<lparr>rt_state := st\<rparr>) F"
  unfolding tracks_def
proof (intro allI impI)
  fix n assume "n < length (rt_identities (rt\<lparr>rt_state := st\<rparr>))"
  then have n: "n < length (rt_identities rt)" by simp
  have old: "rt_authoring_revisions rt ! n \<le> m_revision (rt_state rt)" "m_revision (rt_state rt) \<le> m_revision st"
    using assms n by (simp_all add: tracks_def locals_follow_def)
  have "r_local (m_records st ! n) = F n" if "r_local_revision (m_records st ! n) = rt_authoring_revisions rt ! n"
  proof -
    have "\<not> m_revision (rt_state rt) < r_local_revision (m_records st ! n)" using old(1) that by simp
    then show ?thesis using assms n that by (auto simp: tracks_def locals_follow_def)
  qed
  moreover have "rt_authoring_revisions rt ! n \<le> m_revision st" using old by (rule order.trans)
  ultimately show "rt_authoring_revisions (rt\<lparr>rt_state := st\<rparr>) ! n \<le> m_revision (rt_state (rt\<lparr>rt_state := st\<rparr>)) \<and>
        rt_authoring_revisions (rt\<lparr>rt_state := st\<rparr>) ! n \<le> as_revision (au_state au) \<and>
        (r_local_revision (m_records (rt_state (rt\<lparr>rt_state := st\<rparr>)) ! n) = rt_authoring_revisions (rt\<lparr>rt_state := st\<rparr>) ! n \<longrightarrow>
           r_local (m_records (rt_state (rt\<lparr>rt_state := st\<rparr>)) ! n) = F n) \<and>
        (\<forall>r. as_records (au_state au) (rt_identities (rt\<lparr>rt_state := st\<rparr>) ! n) = Some r \<longrightarrow>
           ar_local_revision r = rt_authoring_revisions (rt\<lparr>rt_state := st\<rparr>) ! n \<longrightarrow> ar_local r = F n)"
    using assms(1) n by (simp add: tracks_def)
qed

lemma session_invariant:
  assumes lib: "library_ok lib lawful" and "session lib compose au rt sys"
  shows "session_ok lib lawful compose au rt sys"
  using assms(2)
proof induction
  case (first_freeze au rt)
  have au: "authoring_ok lib lawful au" by (rule reachable_authoring_ok [OF lib first_freeze(1)])
  from freeze_starts [OF lib au first_freeze(2)] au reach_init show ?case
    by (auto simp: session_ok_def started_def)
next
  case (edits au rt sys au')
  from authoring_step_ok [OF lib edits.hyps(2)] edits.IH tracks_edit show ?case
    by (fastforce simp: session_ok_def)
next
  case (runs au rt sys sys')
  have wf: "wf_polytree (rt_topology rt)" and reach: "reachable_system (rt_topology rt) compose sys"
    and st: "rt_state rt = sys_state sys" and ids: "length (rt_identities rt) = node_count (rt_topology rt)"
    using runs.IH by (simp_all add: session_ok_def runtime_ok_def)
  obtain F where F: "tracks au rt F" using runs.IH by (auto simp: session_ok_def)
  have reach': "reachable_system (rt_topology rt) compose sys'" by (rule reach_step [OF reach runs.hyps(2)])
  have ok: "state_ok (rt_topology rt) compose (sys_state sys)" "state_ok (rt_topology rt) compose (sys_state sys')"
    using reachable_state_ok [OF wf reach] reachable_state_ok [OF wf reach'] .
  have "locals_follow (rt_state rt) (sys_state sys')"
    using system_step_locals [OF wf reachable_system_ok [OF wf reach] runs.hyps(2)] st by simp
  moreover have "length (m_records (rt_state rt)) = length (rt_identities rt)" using ok(1) ids st by (simp add: state_ok_def)
  ultimately have "tracks au (rt\<lparr>rt_state := sys_state sys'\<rparr>) F" by (rule tracks_run [OF F])
  with runs.IH reach' ok(2) show ?case by (auto simp: session_ok_def runtime_ok_def)
next
  case (refreezes au rt sys rt')
  have au: "authoring_ok lib lawful au" and prev: "runtime_ok compose rt \<and> (\<exists>F. tracks au rt F)"
    using refreezes.IH by (auto simp: session_ok_def)
  have "runtime_ok compose rt' \<and> tracks au rt' (\<lambda>n. ar_local (the (as_records (au_state au) (rt_identities rt' ! n)))) \<and>
    initial_system (rt_topology rt') compose (started rt')"
    by (rule freeze_starts [OF lib au refreezes.hyps(2)]) (use prev in auto)
  with au reach_init show ?case by (auto simp: session_ok_def started_def)
qed

subsection \<open>A library that behaves as documented\<close>

text \<open>
  The nodes in the order they were inserted, with their parents (zero for none). Insertion, detaching
  and the replacement of payloads work; reparenting and erasing always fail.
\<close>

type_synonym node_table = "stable_id \<times> (stable_id \<times> stable_id) list"

definition table_contains :: "node_table \<Rightarrow> stable_id \<Rightarrow> bool" where
  "table_contains t k \<longleftrightarrow> k \<in> fst ` set (snd t)"

definition table_parent :: "node_table \<Rightarrow> stable_id \<Rightarrow> stable_id" where
  "table_parent t k = (case map_of (snd t) k of None \<Rightarrow> 0 | Some p \<Rightarrow> p)"

definition table_add :: "node_table \<Rightarrow> stable_id \<Rightarrow> (unit mutation_error + stable_id) \<times> node_table" where
  "table_add t p =
     (if fst t = - 1 then (Inl (mu_other ()), t) else (Inr (fst t), (fst t + 1, snd t @ [(fst t, p)])))"

definition table_freeze :: "node_table \<Rightarrow> unit + frozen_polytree" where
  "table_freeze t =
     (let ns = snd t; count = length ns;
          above = (\<lambda>n. if n < count then find_index (\<lambda>e. fst e = snd (ns ! n)) ns else None)
      in Inr \<lparr>fz_topology =
                \<lparr>pt_identity = 0, node_count = count, parent = above, topological_order = [0..<count],
                 reverse_topological_order = rev [0..<count], pt_roots = filter (\<lambda>n. above n = None) [0..<count],
                 dependency_levels = map (\<lambda>n. [n]) [0..<count]\<rparr>,
              fz_identities = map fst ns\<rparr>)"

definition table_library :: "(node_table, 'n, 'e, unit, unit) topology_library" where
  "table_library =
     \<lparr>tl_empty = (1, []), tl_valid = (\<lambda>k. k \<noteq> 0), tl_invalid_node = 0, tl_append_child = 0,
      tl_contains = table_contains, tl_parent = table_parent,
      tl_insert_root = (\<lambda>t d ordinal. table_add t 0),
      tl_insert_child = (\<lambda>t p d e ordinal. if table_contains t p then table_add t p else (Inl mu_invalid_parent, t)),
      tl_reparent = (\<lambda>t n p e ordinal. (Inl (mu_other ()), t)),
      tl_detach_to_root = (\<lambda>t n ordinal.
         (Inr n, (fst t, map (\<lambda>e. (fst e, if fst e = n then 0 else snd e)) (snd t)))),
      tl_erase_subtree = (\<lambda>t n. (Inl (mu_other ()), t)),
      tl_replace_node_data = (\<lambda>t n d. (Inr n, t)), tl_replace_parent_edge_data = (\<lambda>t n e. (Inr n, t)),
      tl_freeze = table_freeze\<rparr>"

lemma table_library_fields [simp]:
  "tl_empty table_library = (1, [])" "tl_valid table_library k = (k \<noteq> 0)" "tl_invalid_node table_library = 0"
  "tl_contains table_library = table_contains" "tl_parent table_library = table_parent" "tl_insert_root table_library t d ordinal = table_add t 0"
  "tl_insert_child table_library t p d e ordinal = (if table_contains t p then table_add t p else (Inl mu_invalid_parent, t))"
  "tl_reparent table_library t n p e ordinal = (Inl (mu_other ()), t)"
  "tl_detach_to_root table_library t n ordinal =
    (Inr n, (fst t, map (\<lambda>e. (fst e, if fst e = n then 0 else snd e)) (snd t)))"
  "tl_erase_subtree table_library t n = (Inl (mu_other ()), t)" "tl_replace_node_data table_library t n d = (Inr n, t)"
  "tl_replace_parent_edge_data table_library t n e = (Inr n, t)" "tl_freeze table_library = table_freeze"
  by (simp_all add: table_library_def)

definition table_ok :: "node_table \<Rightarrow> bool" where
  "table_ok t \<longleftrightarrow>
     fst t \<noteq> 0 \<and> distinct (map fst (snd t)) \<and> (\<forall>e \<in> set (snd t). fst e \<noteq> 0 \<and> fst e < fst t) \<and>
     (\<forall>n < length (snd t). snd (snd t ! n) = 0 \<or> (\<exists>m < n. fst (snd t ! m) = snd (snd t ! n)))"

lemma table_add_ok:
  assumes ok: "table_ok t" and p: "p = 0 \<or> table_contains t p"
  shows "adds_node table_library table_ok t p (table_add t p)"
proof (cases "fst t = - 1")
  case False
  have less: "fst t < fst t + 1" using False by (rule less_next)
  have new: "fst t \<notin> fst ` set (snd t)" using ok by (auto simp: table_ok_def)
  have "fst t + 1 \<noteq> 0" using less by auto
  moreover have "fst e < fst t + 1" if "e \<in> set (snd t)" for e
    using ok that less by (auto simp: table_ok_def intro: less_trans)
  moreover have "\<exists>m < length (snd t). fst (snd t ! m) = p" if "p \<noteq> 0"
  proof -
    have "p \<in> set (map fst (snd t))" using p that by (simp add: table_contains_def)
    then show ?thesis by (auto simp only: in_set_conv_nth length_map nth_map)
  qed
  moreover have "snd ((snd t @ [(fst t, p)]) ! n) = 0 \<or>
      (\<exists>m < n. fst ((snd t @ [(fst t, p)]) ! m) = snd ((snd t @ [(fst t, p)]) ! n))"
    if n: "n < Suc (length (snd t))" for n
  proof (cases "n < length (snd t)")
    case True
    then have "snd (snd t ! n) = 0 \<or> (\<exists>m < n. fst (snd t ! m) = snd (snd t ! n))" using ok by (simp add: table_ok_def)
    with True show ?thesis by (auto simp: nth_append intro: less_trans)
  next
    case False
    with n have "n = length (snd t)" by simp
    with \<open>p \<noteq> 0 \<Longrightarrow> \<exists>m < length (snd t). fst (snd t ! m) = p\<close> show ?thesis by (auto simp: nth_append)
  qed
  ultimately have "table_ok (fst t + 1, snd t @ [(fst t, p)])"
    using ok new less by (simp add: table_ok_def)
  moreover have "map_of (snd t) (fst t) = None" using new by (simp add: map_of_eq_None_iff)
  ultimately show ?thesis using new False
    by (auto simp: adds_node_def table_add_def table_contains_def table_parent_def map_add_def split: option.split)
qed (simp add: adds_node_def table_add_def)

lemma table_freeze_ok:
  assumes ok: "table_ok t" and fz: "table_freeze t = Inr frozen"
  shows "frozen_from table_library t frozen"
proof -
  let ?ns = "snd t" let ?p = "\<lambda>n. if n < length ?ns then find_index (\<lambda>e. fst e = snd (?ns ! n)) ?ns else None"
  have dist: "distinct (map fst ?ns)" and ids: "\<And>e. e \<in> set ?ns \<Longrightarrow> fst e \<noteq> 0"
    and up: "\<And>n. n < length ?ns \<Longrightarrow> snd (?ns ! n) = 0 \<or> (\<exists>m < n. fst (?ns ! m) = snd (?ns ! n))"
    using ok by (auto simp: table_ok_def)
  have p: "m < n \<and> fst (?ns ! m) = snd (?ns ! n)" if pn: "?p n = Some m" for n m
  proof -
    have n: "n < length ?ns" using pn by (simp split: if_splits)
    then have m: "m < length ?ns" "fst (?ns ! m) = snd (?ns ! n)" using pn find_index_SomeD by fastforce+
    then have "snd (?ns ! n) \<noteq> 0" using ids [of "?ns ! m"] by simp
    then obtain k where k: "k < n" "fst (?ns ! k) = snd (?ns ! n)" using up [OF n] by blast
    then have "k = m" using m n nth_eq_iff_index_eq [OF dist, of k m] by simp
    with k show ?thesis by simp
  qed
  have root: "snd (?ns ! n) = 0" if none: "?p n = None" and n: "n < length ?ns" for n
  proof (rule ccontr)
    assume "snd (?ns ! n) \<noteq> 0"
    then obtain k where "k < n" "fst (?ns ! k) = snd (?ns ! n)" using up [OF n] by blast
    then have "find_index (\<lambda>e. fst e = snd (?ns ! n)) ?ns \<noteq> None"
      using n bexI [OF _ nth_mem [of k ?ns], of "\<lambda>e. fst e = snd (?ns ! n)"] by (simp add: find_index_None)
    with none n show False by simp
  qed
  have frozen: "frozen = \<lparr>fz_topology =
                \<lparr>pt_identity = 0, node_count = length ?ns, parent = ?p, topological_order = [0..<length ?ns],
                 reverse_topological_order = rev [0..<length ?ns], pt_roots = filter (\<lambda>n. ?p n = None) [0..<length ?ns],
                 dependency_levels = map (\<lambda>n. [n]) [0..<length ?ns]\<rparr>, fz_identities = map fst ?ns\<rparr>"
    using fz by (simp add: table_freeze_def Let_def)
  have pos: "position [0..<length ?ns] n = n" if "n < length ?ns" for n
    using position_nth [of "[0..<length ?ns]" n] that by simp
  have "parents_first (fz_topology frozen)"
    unfolding parents_first_def
  proof (intro allI impI)
    fix n q assume n: "n < node_count (fz_topology frozen)" and q: "parent (fz_topology frozen) n = Some q"
    have "?p n = Some q" using q by (simp only: frozen frozen_polytree.simps polytree.simps)
    from p [OF this] n pos show "q < node_count (fz_topology frozen) \<and>
        rank (fz_topology frozen) q < rank (fz_topology frozen) n" by (simp add: frozen)
  qed
  moreover have "levels_ok (fz_topology frozen)"
    unfolding levels_ok_def
  proof (intro conjI allI impI ballI)
    have c: "concat (dependency_levels (fz_topology frozen)) = [0..<length ?ns]" by (simp add: frozen)
    show "distinct (concat (dependency_levels (fz_topology frozen)))" unfolding c by simp
    show "set (concat (dependency_levels (fz_topology frozen))) = {..<node_count (fz_topology frozen)}"
      unfolding c by (auto simp: frozen)
    fix i n q assume i: "i < length (dependency_levels (fz_topology frozen))" and n: "n \<in> set (dependency_levels (fz_topology frozen) ! i)"
      and q: "parent (fz_topology frozen) n = Some q"
    have "?p n = Some q" using q by (simp only: frozen frozen_polytree.simps polytree.simps)
    then have "q < n" by (rule p [THEN conjunct1])
    with i n show "\<exists>j < i. q \<in> set (dependency_levels (fz_topology frozen) ! j)" by (auto simp: frozen)
  qed
  ultimately have wf: "wf_polytree (fz_topology frozen)"
    by (auto simp: wf_polytree_def) (simp_all add: frozen atLeast0LessThan)
  have par: "table_parent t (fst (?ns ! n)) = snd (?ns ! n)" if "n < length ?ns" for n
  proof -
    have "map_of ?ns (fst (?ns ! n)) = Some (snd (?ns ! n))" using dist that by simp
    then show ?thesis by (simp add: table_parent_def)
  qed
  have "table_parent t (fst (?ns ! n)) = (case ?p n of None \<Rightarrow> 0 | Some q \<Rightarrow> map fst ?ns ! q)" if n: "n < length ?ns" for n
  proof (cases "?p n")
    case None
    with root [OF None n] par [OF n] show ?thesis by simp
  next
    case (Some q)
    with p [OF Some] par [OF n] n show ?thesis by simp
  qed
  moreover have "set (map fst ?ns) = {k. table_contains t k}" by (auto simp: table_contains_def)
  ultimately show ?thesis using wf dist by (simp add: frozen_from_def) (simp add: frozen split: option.split)
qed

lemma table_detach_ok:
  assumes "table_ok t"
  shows "keeps_nodes table_library table_ok t (Inr n, (fst t, map (\<lambda>e. (fst e, if fst e = n then 0 else snd e)) (snd t)))"
  using assms by (auto simp: keeps_nodes_def table_ok_def table_contains_def comp_def image_image)

lemma table_library_ok: "library_ok table_library table_ok"
proof -
  have ins: "adds_node table_library table_ok t p (if table_contains t p then table_add t p else (Inl mu_invalid_parent, t))"
    if "table_ok t" for t p
    using table_add_ok [OF that, of p] by (cases "table_contains t p") (simp_all add: adds_node_def)
  have valid: "tl_valid table_library k" if "table_ok t" "tl_contains table_library t k" for t k
    using that by (auto simp: table_ok_def table_contains_def)
  have keep: "keeps_nodes table_library table_ok t (r, t)" if "table_ok t" for t and r :: "unit mutation_error + stable_id"
    using that by (simp add: keeps_nodes_def)
  show ?thesis
  proof (rule library_okI)
    show "table_ok (tl_empty table_library)" by (simp add: table_ok_def)
    show "\<not> tl_contains table_library (tl_empty table_library) k" for k by (simp add: table_contains_def)
  qed (simp_all add: ins keep table_detach_ok table_add_ok table_freeze_ok valid [simplified])
qed

subsection \<open>Properties\<close>

definition authored_local :: "('t, 'a) authoring_scene \<Rightarrow> stable_id \<Rightarrow> 'a" where
  "authored_local au sid = ar_local (the (as_records (au_state au) sid))"

lemma path_world_cong:
  assumes wf: "wf_polytree t" and "path_world t compose loc n w" and "n < node_count t"
    and same: "\<And>k. k < node_count t \<Longrightarrow> loc' k = loc k"
  shows "path_world t compose loc' n w"
  using assms(2,3)
proof induction
  case (path_root n)
  then show ?case using path_world.path_root [OF path_root.hyps, of compose loc'] same by simp
next
  case (path_child n p w)
  have "p < node_count t" by (rule wf_parentD(1) [OF wf path_child.prems path_child.hyps(1)])
  then show ?case using path_world.path_child [OF path_child.hyps(1) path_child.IH] same path_child.prems by simp
qed

text \<open>C28. Incremental freezing loses nothing: whatever was edited in the authoring scene, edited, planned
  and evaluated in the running one, and refrozen before, freezing over the previous runtime scene
  succeeds whenever the polytree freezes, and one full plan and evaluation of the result then gives
  every node the composition of the authored locals along its path, though clean nodes keep the
  world they had.
\<close>

theorem refreezing_reaches_the_authored_scene:
  assumes "library_ok lib lawful" and "session lib compose au rt sys"
    and "tl_freeze lib (au_topology au) = Inr frozen"
    and "as_revision (au_state au) \<noteq> - 1" and "m_revision (rt_state rt) \<noteq> - 1"
  shows "\<exists>rt' plan ws result st. freeze_scene lib au (Some rt) = Inr rt' \<and>
    rt_topology rt' = fz_topology frozen \<and> rt_identities rt' = fz_identities frozen \<and>
    make_transform_evaluation_plan (rt_topology rt') (rt_state rt') new_workspace = (Inr plan, ws) \<and>
    evaluate_transforms (rt_topology rt') compose (rt_state rt') plan (Some ws) = (result, st) \<and>
    res_error result = te_none \<and> \<not> has_dirty_transforms st \<and>
    (\<forall>n < node_count (rt_topology rt').
       path_world (rt_topology rt') compose (\<lambda>k. authored_local au (rt_identities rt' ! k)) n (world_of st n))"
proof -
  have ok: "session_ok lib lawful compose au rt sys" using assms(1,2) by (rule session_invariant)
  then have au: "authoring_ok lib lawful au" and prev: "runtime_ok compose rt \<and> (\<exists>F. tracks au rt F)"
    by (auto simp: session_ok_def)
  obtain rt' where rt': "freeze_scene lib au (Some rt) = Inr rt'"
    using freeze_never_out_of_range [OF assms(1) au assms(3)] by blast
  note D = freeze_sceneD [OF rt' assms(3)]
  have "runtime_ok compose rt' \<and> tracks au rt' (\<lambda>n. ar_local (the (as_records (au_state au) (rt_identities rt' ! n)))) \<and>
    initial_system (rt_topology rt') compose (started rt')"
    by (rule freeze_starts [OF assms(1) au rt']) (use prev in auto)
  then have wf: "wf_polytree (rt_topology rt')" and st: "state_ok (rt_topology rt') compose (rt_state rt')"
    and len: "length (rt_identities rt') = node_count (rt_topology rt')" by (simp_all add: runtime_ok_def)
  have room: "m_revision (rt_state rt') \<noteq> - 1 \<or> m_dirty_nodes (rt_state rt') = []"
    using assms(4,5) by (auto simp: D(5) max_def)
  have loc: "authored_local au (rt_identities rt' ! k) = local_of (rt_state rt') k" if "k < node_count (rt_topology rt')" for k
  proof -
    have "k < length (fz_identities frozen)" using that len D(2) by simp
    from D(6) [OF this] show ?thesis
      by (auto simp: authored_local_def local_of_def record_at_def D(2) freeze_record_local)
  qed
  show ?thesis
    using full_evaluation [OF wf st cache_coherent_new stamps_ok_new room] rt' D(1,2)
      path_world_cong [OF wf _ _ loc, of compose] by fastforce
qed

text \<open>A root and a child; after the first freeze the running scene moves the root and the author the child.\<close>

abbreviation demo_library :: "(node_table, unit, unit, unit, unit) topology_library" where
  "demo_library \<equiv> table_library"

definition demo_authored :: "(node_table, int) authoring_scene" where
  "demo_authored =
     snd (insert_child demo_library 1 () () 10 0 (snd (insert_root demo_library () 5 0 (new_authoring_scene demo_library))))"

definition demo_edited :: "(node_table, int) authoring_scene" where
  "demo_edited = snd (scene_set_local demo_library 2 30 demo_authored)"

theorem refreezing_reaches_the_authored_scene_witness:
  "\<exists>rt rt' st. freeze_scene demo_library demo_authored None = Inr rt \<and>
    freeze_scene demo_library demo_edited
      (Some (rt\<lparr>rt_state := snd (set_local 0 7 (rt_state rt))\<rparr>)) = Inr rt' \<and>
    node_count (rt_topology rt') = 2 \<and> authored_local demo_edited (rt_identities rt' ! 1) = 30 \<and>
    path_world (rt_topology rt') (+) (\<lambda>k. authored_local demo_edited (rt_identities rt' ! k)) 1 (world_of st 1)"
proof -
  have reach: "reachable_authoring demo_library demo_authored"
    unfolding demo_authored_def by (rule authoring_goes_on [OF authoring_goes_on [OF authoring_starts inserts_root] inserts_child])
  have au: "authoring_ok demo_library table_ok demo_authored" by (rule reachable_authoring_ok [OF table_library_ok reach])
  have table: "au_topology demo_authored = (3, [(1, 0), (2, 1)])" "au_topology demo_edited = (3, [(1, 0), (2, 1)])"
    "as_records (au_state demo_edited) 2 = Some \<lparr>ar_local = 30, ar_local_revision = 3\<rparr>" "as_revision (au_state demo_edited) = 3"
    "as_revision (au_state demo_authored) = 2"
    by (simp_all add: demo_edited_def demo_authored_def insert_root_def insert_child_def new_authoring_scene_def
        authoring_available_def table_add_def authoring_insert_def Let_def table_contains_def scene_set_local_def authoring_set_local_def)
  obtain frozen where fz: "tl_freeze demo_library (3, [(1, 0), (2, 1)]) = Inr frozen"
    "node_count (fz_topology frozen) = 2" "fz_identities frozen = [1, 2]"
    by (simp add: table_freeze_def Let_def)
  obtain rt where rt: "freeze_scene demo_library demo_authored None = Inr rt"
    using freeze_never_out_of_range [OF table_library_ok au, of frozen None] fz(1) by (auto simp: table)
  have rev: "m_revision (rt_state rt) = 2"
    using freeze_sceneD(5) [OF rt, of frozen] fz(1) by (simp add: table)
  let ?st = "snd (set_local 0 7 (rt_state rt))"
  have "session demo_library (+) demo_authored (rt\<lparr>rt_state := ?st\<rparr>) ((started rt)\<lparr>sys_state := ?st\<rparr>)"
    using runs [OF first_freeze [OF reach rt] step_set_local, of "(+)" 0 7] by (simp add: started_def)
  then have s: "session demo_library (+) demo_edited (rt\<lparr>rt_state := ?st\<rparr>) ((started rt)\<lparr>sys_state := ?st\<rparr>)"
    unfolding demo_edited_def by (rule edits) (rule sets_local)
  have "m_revision ?st \<noteq> - 1" by (simp add: set_local_def Let_def revision_available_def rev)
  with refreezing_reaches_the_authored_scene [OF table_library_ok s, of frozen] fz
  obtain rt' st where "freeze_scene demo_library demo_edited (Some (rt\<lparr>rt_state := ?st\<rparr>)) = Inr rt'"
    "rt_topology rt' = fz_topology frozen" "rt_identities rt' = fz_identities frozen"
    and all: "\<forall>n < 2. path_world (rt_topology rt') (+) (\<lambda>k. authored_local demo_edited (rt_identities rt' ! k)) n (world_of st n)"
    by (auto simp: table)
  moreover have "path_world (rt_topology rt') (+) (\<lambda>k. authored_local demo_edited (rt_identities rt' ! k)) 1 (world_of st 1)"
    using all by simp
  moreover have "authored_local demo_edited (rt_identities rt' ! 1) = 30"
    using table(3) fz(3) \<open>rt_identities rt' = fz_identities frozen\<close> by (simp add: authored_local_def)
  ultimately show ?thesis using rt fz(2) by (intro exI [of _ rt] exI [of _ rt'] exI [of _ st]) simp
qed

end
