(* ===== verification/Scene_Create.thy ===== *)
theory Scene_Create
  imports Scene_Freeze Scene_Advance
begin

section \<open>The creation of a scene instance\<close>

text \<open>
  \<open>InstantiateTopology\<close>, \<open>ResolveNodeBinding\<close> and \<open>SceneInstance::Create\<close> of
  \<open>SceneInstance.cpp\<close>: the permanent nodes and every slot of every partition are planted in an
  authoring scene, which is frozen once; the stable ids of the slots become runtime handles. The
  mutable polytree is the argument \<open>lib\<close>.
\<close>

subsection \<open>Definitions\<close>

datatype transform_node_payload = Payload_transform
datatype transform_edge_payload = Payload_parent

record 'x stable_node_binding =
  sb_binding_id :: name
  sb_node :: stable_id
  sb_initial_local :: 'x

record 'x stable_partition =
  sp_partition :: u64
  sp_slots :: "'x stable_node_binding list list"

type_synonym ('t, 'm, 'z) scene_library =
  "('t, transform_node_payload, transform_edge_payload, 'm, 'z) topology_library"

definition instantiate_node ::
  "('t, 'm, 'z) scene_library \<Rightarrow> 'x node_descriptor \<Rightarrow>
   bool \<times> 'x stable_node_binding list \<times> ('t, 'x) authoring_scene \<Rightarrow>
   bool \<times> 'x stable_node_binding list \<times> ('t, 'x) authoring_scene" where
  "instantiate_node lib node = (\<lambda>(valid, slot, scene).
     if \<not> valid then (valid, slot, scene)
     else
       let above = find (\<lambda>b. sb_binding_id b = nd_parent_binding_id node) slot;
           outcome =
             (if nd_parent_binding_id node = []
              then insert_root lib Payload_transform (nd_initial_local node) (tl_append_child lib) scene
              else (case above of
                      Some b \<Rightarrow> insert_child lib (sb_node b) Payload_transform Payload_parent
                                  (nd_initial_local node) (tl_append_child lib) scene
                    | None \<Rightarrow> (Inl mu_invalid_parent, scene)))
       in (case outcome of
             (Inl _, scene) \<Rightarrow> (False, slot, scene)
           | (Inr stable_node, scene) \<Rightarrow>
               (True, slot @ [\<lparr>sb_binding_id = nd_binding_id node, sb_node = stable_node,
                               sb_initial_local = nd_initial_local node\<rparr>], scene)))"

definition instantiate_topology ::
  "('t, 'm, 'z) scene_library \<Rightarrow> 'x node_descriptor list \<Rightarrow> ('t, 'x) authoring_scene \<Rightarrow>
   'x stable_node_binding list option \<times> ('t, 'x) authoring_scene" where
  "instantiate_topology lib nodes scene =
     (case fold (instantiate_node lib) nodes (True, [], scene) of
        (valid, slot, scene) \<Rightarrow> (if valid then Some slot else None, scene))"

definition instantiate_slot ::
  "('t, 'm, 'z) scene_library \<Rightarrow> 'x node_descriptor list \<Rightarrow>
   bool \<times> 'x stable_node_binding list list \<times> ('t, 'x) authoring_scene \<Rightarrow>
   bool \<times> 'x stable_node_binding list list \<times> ('t, 'x) authoring_scene" where
  "instantiate_slot lib nodes = (\<lambda>(valid, slots, scene).
     if \<not> valid then (valid, slots, scene)
     else (case instantiate_topology lib nodes scene of
             (Some slot, scene) \<Rightarrow> (True, slots @ [slot], scene)
           | (None, scene) \<Rightarrow> (False, slots, scene)))"

definition instantiate_partition ::
  "('t, 'm, 'z) scene_library \<Rightarrow> 'x partition_descriptor \<Rightarrow>
   bool \<times> 'x stable_partition list \<times> ('t, 'x) authoring_scene \<Rightarrow>
   bool \<times> 'x stable_partition list \<times> ('t, 'x) authoring_scene" where
  "instantiate_partition lib p = (\<lambda>(valid, partitions, scene).
     case fold (\<lambda>_. instantiate_slot lib (pd_nodes p)) [0..<unat (pd_capacity p)] (valid, [], scene) of
       (valid, slots, scene) \<Rightarrow>
         (valid, partitions @ [\<lparr>sp_partition = pd_partition p, sp_slots = slots\<rparr>], scene))"

definition resolve_node_binding :: "stable_id list \<Rightarrow> 'x stable_node_binding \<Rightarrow> 'x runtime_node_binding" where
  "resolve_node_binding identities b =
     \<lparr>rb_binding_id = sb_binding_id b, rb_node = the (runtime_handle identities (sb_node b)),
      rb_initial_local = sb_initial_local b\<rparr>"

definition resolve_slot :: "stable_id list \<Rightarrow> 'x stable_node_binding list \<Rightarrow> 'x runtime_slot" where
  "resolve_slot identities slot =
     \<lparr>rs_nodes = map (resolve_node_binding identities) slot, rs_generation = 1, rs_reserved = False\<rparr>"

definition resolve_partition :: "stable_id list \<Rightarrow> 'x stable_partition \<Rightarrow> 'x runtime_partition" where
  "resolve_partition identities p =
     \<lparr>rp_partition = sp_partition p, rp_slots = map (resolve_slot identities) (sp_slots p)\<rparr>"

definition invalid_descriptor :: "'x scene_descriptor \<Rightarrow> bool" where
  "invalid_descriptor d \<longleftrightarrow>
     sd_fixed_step d \<le> 0 \<or> sd_max_catch_up d = 0 \<or> (sd_permanent_nodes d = [] \<and> sd_partitions d = []) \<or>
     (\<exists>p \<in> set (sd_partitions d). pd_partition p = 0 \<or> pd_capacity p = 0 \<or> pd_nodes p = [])"

definition plant_permanent ::
  "('t, 'm, 'z) scene_library \<Rightarrow> 'x scene_descriptor \<Rightarrow> ('t, 'x) authoring_scene option" where
  "plant_permanent lib d =
     (if sd_permanent_nodes d = [] then Some (new_authoring_scene lib)
      else (case instantiate_topology lib (sd_permanent_nodes d) (new_authoring_scene lib) of
              (None, _) \<Rightarrow> None
            | (Some _, scene) \<Rightarrow> Some scene))"

definition create_scene ::
  "('x, 'v, 'q, 'f) az_math \<Rightarrow> ('t, 'm, 'z) scene_library \<Rightarrow> 'x scene_descriptor \<Rightarrow>
   ('x, 'v, 'b) scene_instance option" where
  "create_scene m lib d =
     (if invalid_descriptor d then None
      else (case plant_permanent lib d of
              None \<Rightarrow> None
            | Some authoring \<Rightarrow>
                (case fold (instantiate_partition lib) (sd_partitions d) (True, [], authoring) of
                   (valid, partitions, authoring) \<Rightarrow>
                     if \<not> valid then None
                     else (case freeze_scene lib authoring None of
                             Inl _ \<Rightarrow> None
                           | Inr runtime \<Rightarrow>
                               Some (new_instance m (rt_topology runtime) (rt_state runtime)
                                       (map (resolve_partition (rt_identities runtime)) partitions)
                                       (sd_fixed_step d) (sd_max_catch_up d))))))"

subsection \<open>Planted nodes\<close>

text \<open>The nodes of one slot, in the authoring scene: their locals and parents are those described.\<close>

definition planted_node ::
  "('t, 'm, 'z) scene_library \<Rightarrow> ('t, 'x) authoring_scene \<Rightarrow> 'x stable_node_binding list \<Rightarrow> nat \<Rightarrow>
   'x node_descriptor \<Rightarrow> bool" where
  "planted_node lib au slot j node \<longleftrightarrow>
     authored_local au (sb_node (slot ! j)) = nd_initial_local node \<and>
     (if nd_parent_binding_id node = []
      then tl_parent lib (au_topology au) (sb_node (slot ! j)) = tl_invalid_node lib
      else \<exists>b. find (\<lambda>b. sb_binding_id b = nd_parent_binding_id node) (take j slot) = Some b \<and>
             tl_parent lib (au_topology au) (sb_node (slot ! j)) = sb_node b)"

definition planted ::
  "('t, 'm, 'z) scene_library \<Rightarrow> ('t, 'x) authoring_scene \<Rightarrow> 'x node_descriptor list \<Rightarrow>
   'x stable_node_binding list \<Rightarrow> bool" where
  "planted lib au nodes slot \<longleftrightarrow>
     map sb_binding_id slot = map nd_binding_id nodes \<and> map sb_initial_local slot = map nd_initial_local nodes \<and>
     (\<forall>b \<in> set slot. tl_contains lib (au_topology au) (sb_node b)) \<and>
     (\<forall>j < length nodes. planted_node lib au slot j (nodes ! j))"

text \<open>What planting more leaves alone.\<close>

definition extends ::
  "('t, 'm, 'z) scene_library \<Rightarrow> ('t, 'x) authoring_scene \<Rightarrow> ('t, 'x) authoring_scene \<Rightarrow> bool" where
  "extends lib au au' \<longleftrightarrow>
     (\<forall>k. tl_contains lib (au_topology au) k \<longrightarrow> tl_contains lib (au_topology au') k \<and>
        authored_local au' k = authored_local au k \<and>
        tl_parent lib (au_topology au') k = tl_parent lib (au_topology au) k)"

lemma extends_refl [simp]: "extends lib au au"
  by (simp add: extends_def)

lemma extends_trans: "extends lib au au' \<Longrightarrow> extends lib au' au'' \<Longrightarrow> extends lib au au''"
  by (simp add: extends_def)

lemma planted_extends:
  assumes "planted lib au nodes slot" and "extends lib au au'"
  shows "planted lib au' nodes slot"
proof -
  have "length slot = length nodes" using assms(1) by (metis planted_def length_map)
  then have "tl_contains lib (au_topology au) (sb_node (slot ! j))" if "j < length nodes" for j
    using assms(1) that by (simp add: planted_def)
  with assms show ?thesis by (auto simp: planted_def planted_node_def extends_def)
qed

lemma inserted_node:
  assumes "authoring_ok lib lawful au" and "authoring_available (au_state au)"
    and "adds_node lib lawful (au_topology au) parent_id (Inr node, t)"
    and au': "au' = au\<lparr>au_topology := t, au_state := snd (authoring_insert node loc (au_state au))\<rparr>"
  shows "authoring_ok lib lawful au'" "extends lib au au'" "\<not> tl_contains lib (au_topology au) node"
    "tl_contains lib (au_topology au') node" "authored_local au' node = loc"
    "tl_parent lib (au_topology au') node = parent_id"
proof -
  show "authoring_ok lib lawful au'" unfolding au' by (rule authoring_ok_insert(1) [OF assms(1-3)])
  have none: "as_records (au_state au) node = None"
    using assms(1,3) by (auto simp: authoring_ok_def adds_node_def)
  then have rec: "as_records (au_state au') = (as_records (au_state au))
      (node \<mapsto> \<lparr>ar_local = loc, ar_local_revision = as_revision (au_state au) + 1\<rparr>)"
    using assms(2) by (simp add: au' authoring_insert_def Let_def)
  show "authored_local au' node = loc" by (simp add: authored_local_def rec)
  show new: "\<not> tl_contains lib (au_topology au) node" "tl_contains lib (au_topology au') node"
    "tl_parent lib (au_topology au') node = parent_id" using assms(3) by (simp_all add: adds_node_def au')
  have other: "authored_local au' k = authored_local au k" if "k \<noteq> node" for k using that by (simp add: authored_local_def rec)
  show "extends lib au au'"
    unfolding extends_def
  proof (intro allI impI)
    fix k assume k: "tl_contains lib (au_topology au) k"
    with new(1) have "k \<noteq> node" by blast
    with k other assms(3) show "tl_contains lib (au_topology au') k \<and> authored_local au' k = authored_local au k \<and>
        tl_parent lib (au_topology au') k = tl_parent lib (au_topology au) k"
      by (simp add: adds_node_def au')
  qed
qed

text \<open>New nodes: the scene has grown by nodes that were not there and has kept the others.\<close>

definition grown ::
  "('t, 'm, 'z) scene_library \<Rightarrow> ('t \<Rightarrow> bool) \<Rightarrow> ('t, 'x) authoring_scene \<Rightarrow> stable_id list \<Rightarrow> ('t, 'x) authoring_scene \<Rightarrow> bool" where
  "grown lib lawful au ids au' \<longleftrightarrow>
     authoring_ok lib lawful au' \<and> extends lib au au' \<and> distinct ids \<and>
     (\<forall>k \<in> set ids. tl_contains lib (au_topology au') k \<and> \<not> tl_contains lib (au_topology au) k)"

lemma grown_refl: "authoring_ok lib lawful au \<Longrightarrow> grown lib lawful au [] au"
  by (simp add: grown_def)

lemma grown_trans:
  assumes "grown lib lawful au ids au'" and "grown lib lawful au' ids' au''"
  shows "grown lib lawful au (ids @ ids') au''"
  using assms extends_trans [of lib au au' au''] by (auto simp: grown_def extends_def)

text \<open>What a successful insertion has done, at the root or below a node.\<close>

lemma insert_root_grown:
  assumes lib: "library_ok lib lawful" and ok: "authoring_ok lib lawful au"
    and ins: "insert_root lib d loc ordinal au = (Inr node, au')"
  shows "grown lib lawful au [node] au'" "authored_local au' node = loc"
    "tl_parent lib (au_topology au') node = tl_invalid_node lib"
proof -
  have available: "authoring_available (au_state au)" using ins by (simp add: insert_root_def split: if_splits)
  obtain t where t: "tl_insert_root lib (au_topology au) d ordinal = (Inr node, t)"
    "au' = au\<lparr>au_topology := t, au_state := snd (authoring_insert node loc (au_state au))\<rparr>"
    using ins by (auto simp: insert_root_def split: if_splits prod.splits sum.splits)
  have "adds_node lib lawful (au_topology au) (tl_invalid_node lib) (Inr node, t)"
    using library_okD(5) [OF lib, of "au_topology au" d ordinal] ok t(1) by (simp add: authoring_ok_def)
  note I = inserted_node [OF ok available this t(2)]
  from I show "grown lib lawful au [node] au'" "authored_local au' node = loc"
    "tl_parent lib (au_topology au') node = tl_invalid_node lib" by (simp_all add: grown_def)
qed

lemma insert_child_grown:
  assumes lib: "library_ok lib lawful" and ok: "authoring_ok lib lawful au"
    and ins: "insert_child lib p d e loc ordinal au = (Inr node, au')"
  shows "grown lib lawful au [node] au'" "authored_local au' node = loc"
    "tl_parent lib (au_topology au') node = p"
proof -
  have available: "authoring_available (au_state au)" using ins by (simp add: insert_child_def split: if_splits)
  obtain t where t: "tl_insert_child lib (au_topology au) p d e ordinal = (Inr node, t)"
    "au' = au\<lparr>au_topology := t, au_state := snd (authoring_insert node loc (au_state au))\<rparr>"
    using ins by (auto simp: insert_child_def split: if_splits prod.splits sum.splits)
  have "adds_node lib lawful (au_topology au) p (Inr node, t)"
    using library_okD(6) [OF lib, of "au_topology au" p d e ordinal] ok t(1) by (simp add: authoring_ok_def)
  note I = inserted_node [OF ok available this t(2)]
  from I show "grown lib lawful au [node] au'" "authored_local au' node = loc"
    "tl_parent lib (au_topology au') node = p" by (simp_all add: grown_def)
qed

lemma planted_snoc:
  assumes slot: "planted lib au nodes slot" and grown: "grown lib lawful au [node] au'"
    and loc: "authored_local au' node = nd_initial_local n"
    and above: "if nd_parent_binding_id n = [] then tl_parent lib (au_topology au') node = tl_invalid_node lib
      else \<exists>b. find (\<lambda>b. sb_binding_id b = nd_parent_binding_id n) slot = Some b \<and> tl_parent lib (au_topology au') node = sb_node b"
  shows "planted lib au' (nodes @ [n])
    (slot @ [\<lparr>sb_binding_id = nd_binding_id n, sb_node = node, sb_initial_local = nd_initial_local n\<rparr>])"
proof -
  let ?new = "\<lparr>sb_binding_id = nd_binding_id n, sb_node = node, sb_initial_local = nd_initial_local n\<rparr>"
  have p: "planted lib au' nodes slot" by (rule planted_extends [OF slot]) (use grown in \<open>simp add: grown_def\<close>)
  have len: "length slot = length nodes" using slot by (metis planted_def length_map)
  have "tl_contains lib (au_topology au') node" using grown by (simp add: grown_def)
  moreover have "planted_node lib au' (slot @ [?new]) j ((nodes @ [n]) ! j)" if "j < Suc (length nodes)" for j
  proof (cases "j < length nodes")
    case True
    with p show ?thesis by (simp add: planted_def planted_node_def nth_append len)
  next
    case False
    with that have "j = length nodes" by simp
    with loc above show ?thesis by (simp add: planted_node_def nth_append len)
  qed
  ultimately show ?thesis using p by (simp add: planted_def)
qed

lemma instantiate_nodes:
  assumes lib: "library_ok lib lawful" and ok: "authoring_ok lib lawful au"
    and "fold (instantiate_node lib) nodes (True, [], au) = (True, slot, au')"
  shows "grown lib lawful au (map sb_node slot) au' \<and> planted lib au' nodes slot"
  using assms(3)
proof (induction nodes arbitrary: slot au' rule: rev_induct)
  case Nil
  then show ?case using ok by (simp add: grown_refl planted_def)
next
  case (snoc n nodes)
  obtain valid slot1 au1 where prefix: "fold (instantiate_node lib) nodes (True, [], au) = (valid, slot1, au1)"
    by (cases "fold (instantiate_node lib) nodes (True, [], au)") auto
  have step: "instantiate_node lib n (valid, slot1, au1) = (True, slot, au')" using snoc.prems prefix by simp
  then have valid: valid by (cases valid) (simp_all add: instantiate_node_def)
  from snoc.IH [of slot1 au1] prefix valid have IH: "grown lib lawful au (map sb_node slot1) au1" "planted lib au1 nodes slot1"
    by simp_all
  have ok1: "authoring_ok lib lawful au1" using IH(1) by (simp add: grown_def)
  let ?above = "find (\<lambda>b. sb_binding_id b = nd_parent_binding_id n) slot1"
  let ?new = "\<lambda>node. \<lparr>sb_binding_id = nd_binding_id n, sb_node = node, sb_initial_local = nd_initial_local n\<rparr>"
  have "\<exists>node. slot = slot1 @ [?new node] \<and> grown lib lawful au1 [node] au' \<and> authored_local au' node = nd_initial_local n \<and>
      (if nd_parent_binding_id n = [] then tl_parent lib (au_topology au') node = tl_invalid_node lib
       else \<exists>b. ?above = Some b \<and> tl_parent lib (au_topology au') node = sb_node b)"
  proof (cases "nd_parent_binding_id n = []")
    case True
    obtain node where "insert_root lib Payload_transform (nd_initial_local n) (tl_append_child lib) au1 = (Inr node, au')"
      "slot = slot1 @ [?new node]"
      using step valid True by (auto simp: instantiate_node_def split: prod.splits sum.splits)
    with insert_root_grown [OF lib ok1] True show ?thesis by fastforce
  next
    case False
    then obtain b node where "?above = Some b" "slot = slot1 @ [?new node]"
      "insert_child lib (sb_node b) Payload_transform Payload_parent (nd_initial_local n) (tl_append_child lib) au1 = (Inr node, au')"
      using step valid by (auto simp: instantiate_node_def split: option.splits prod.splits sum.splits)
    with insert_child_grown [OF lib ok1] False show ?thesis by fastforce
  qed
  then obtain node where node: "slot = slot1 @ [?new node]" "grown lib lawful au1 [node] au'"
    "authored_local au' node = nd_initial_local n"
    "if nd_parent_binding_id n = [] then tl_parent lib (au_topology au') node = tl_invalid_node lib
       else \<exists>b. ?above = Some b \<and> tl_parent lib (au_topology au') node = sb_node b" by blast
  show ?case
    using grown_trans [OF IH(1) node(2)] planted_snoc [OF IH(2) node(2-4)] node(1) by simp
qed

lemma instantiate_topology_planted:
  assumes "library_ok lib lawful" and "authoring_ok lib lawful au"
    and "instantiate_topology lib nodes au = (Some slot, au')"
  shows "grown lib lawful au (map sb_node slot) au'" "planted lib au' nodes slot"
  using instantiate_nodes [OF assms(1,2), of nodes slot au'] assms(3)
  by (auto simp: instantiate_topology_def split: prod.splits if_splits)

definition slot_ids :: "'x stable_node_binding list list \<Rightarrow> stable_id list" where
  "slot_ids slots = concat (map (map sb_node) slots)"

lemma instantiate_slots:
  assumes lib: "library_ok lib lawful" and ok: "authoring_ok lib lawful au"
    and "fold (\<lambda>_. instantiate_slot lib nodes) xs (True, [], au) = (True, slots, au')"
  shows "grown lib lawful au (slot_ids slots) au' \<and> (\<forall>s \<in> set slots. planted lib au' nodes s) \<and> length slots = length xs"
  using assms(3)
proof (induction xs arbitrary: slots au' rule: rev_induct)
  case Nil
  then show ?case using ok by (simp add: grown_refl slot_ids_def)
next
  case (snoc x xs)
  obtain valid slots1 au1 where prefix: "fold (\<lambda>_. instantiate_slot lib nodes) xs (True, [], au) = (valid, slots1, au1)"
    by (cases "fold (\<lambda>_. instantiate_slot lib nodes) xs (True, [], au)") auto
  have step: "instantiate_slot lib nodes (valid, slots1, au1) = (True, slots, au')" using snoc.prems prefix by simp
  then have valid: valid by (cases valid) (simp_all add: instantiate_slot_def)
  with snoc.IH [of slots1 au1] prefix have IH: "grown lib lawful au (slot_ids slots1) au1"
    "\<forall>s \<in> set slots1. planted lib au1 nodes s" "length slots1 = length xs" by simp_all
  obtain slot where slot: "instantiate_topology lib nodes au1 = (Some slot, au')" "slots = slots1 @ [slot]"
    using step valid by (auto simp: instantiate_slot_def split: prod.splits option.splits)
  have ok1: "authoring_ok lib lawful au1" using IH(1) by (simp add: grown_def)
  note S = instantiate_topology_planted [OF lib ok1 slot(1)]
  have "extends lib au1 au'" using S(1) by (simp add: grown_def)
  with IH(2) have "\<forall>s \<in> set slots1. planted lib au' nodes s" by (blast intro: planted_extends)
  with S grown_trans [OF IH(1) S(1)] IH(3) slot(2) show ?case by (simp add: slot_ids_def)
qed

definition partition_ids :: "'x stable_partition list \<Rightarrow> stable_id list" where
  "partition_ids ps = concat (map (\<lambda>p. slot_ids (sp_slots p)) ps)"

definition partition_planted ::
  "('t, 'm, 'z) scene_library \<Rightarrow> ('t, 'x) authoring_scene \<Rightarrow> 'x partition_descriptor \<Rightarrow> 'x stable_partition \<Rightarrow> bool" where
  "partition_planted lib au d p \<longleftrightarrow>
     sp_partition p = pd_partition d \<and> length (sp_slots p) = unat (pd_capacity d) \<and>
     (\<forall>s \<in> set (sp_slots p). planted lib au (pd_nodes d) s)"

lemma instantiate_partitions:
  assumes lib: "library_ok lib lawful" and ok: "authoring_ok lib lawful au"
    and "fold (instantiate_partition lib) ds (True, [], au) = (True, ps, au')"
  shows "grown lib lawful au (partition_ids ps) au' \<and> list_all2 (partition_planted lib au') ds ps"
  using assms(3)
proof (induction ds arbitrary: ps au' rule: rev_induct)
  case Nil
  then show ?case using ok by (simp add: grown_refl partition_ids_def)
next
  case (snoc d ds)
  obtain valid ps1 au1 where prefix: "fold (instantiate_partition lib) ds (True, [], au) = (valid, ps1, au1)"
    by (cases "fold (instantiate_partition lib) ds (True, [], au)") auto
  have stuck: "fold (\<lambda>_. instantiate_slot lib (pd_nodes d)) xs (False, [], au1) = (False, [], au1)" for xs :: "nat list"
    by (induction xs) (simp_all add: instantiate_slot_def)
  have step: "instantiate_partition lib d (valid, ps1, au1) = (True, ps, au')" using snoc.prems prefix by simp
  then have valid: valid by (cases valid) (simp_all add: instantiate_partition_def stuck)
  with snoc.IH [of ps1 au1] prefix have IH: "grown lib lawful au (partition_ids ps1) au1"
    "list_all2 (partition_planted lib au1) ds ps1" by simp_all
  have ok1: "authoring_ok lib lawful au1" using IH(1) by (simp add: grown_def)
  obtain slots where slots: "fold (\<lambda>_. instantiate_slot lib (pd_nodes d)) [0..<unat (pd_capacity d)] (True, [], au1) = (True, slots, au')"
    "ps = ps1 @ [\<lparr>sp_partition = pd_partition d, sp_slots = slots\<rparr>]"
    using step valid by (auto simp: instantiate_partition_def split: prod.splits)
  note S = instantiate_slots [OF lib ok1 slots(1)]
  have "extends lib au1 au'" using S by (simp add: grown_def)
  then have "partition_planted lib au1 d p \<Longrightarrow> partition_planted lib au' d p" for d p
    by (auto simp: partition_planted_def intro: planted_extends)
  with IH(2) have "list_all2 (partition_planted lib au') ds ps1" by (rule list_all2_mono)
  moreover have "partition_planted lib au' d \<lparr>sp_partition = pd_partition d, sp_slots = slots\<rparr>"
    using S by (simp add: partition_planted_def)
  ultimately have "list_all2 (partition_planted lib au') (ds @ [d]) ps" unfolding slots(2) by (intro list_all2_appendI) simp_all
  with S grown_trans [OF IH(1), of "slot_ids slots" au'] slots(2) show ?case by (simp add: partition_ids_def)
qed

subsection \<open>The frozen scene\<close>

lemma find_map_record: "find P (map f xs) = map_option f (find (\<lambda>x. P (f x)) xs)"
  by (induction xs) simp_all

definition slot_matches ::
  "polytree \<Rightarrow> 'x transform_state \<Rightarrow> 'x node_descriptor list \<Rightarrow> 'x runtime_slot \<Rightarrow> bool" where
  "slot_matches t st nodes s \<longleftrightarrow>
     \<not> rs_reserved s \<and> rs_generation s = 1 \<and> map rb_binding_id (rs_nodes s) = map nd_binding_id nodes \<and>
     map rb_initial_local (rs_nodes s) = map nd_initial_local nodes \<and>
     (\<forall>j < length nodes.
        local_of st (rb_node (rs_nodes s ! j)) = nd_initial_local (nodes ! j) \<and>
        (if nd_parent_binding_id (nodes ! j) = [] then parent t (rb_node (rs_nodes s ! j)) = None
         else \<exists>b. find_binding (nd_parent_binding_id (nodes ! j)) (take j (rs_nodes s)) = Some b \<and>
                parent t (rb_node (rs_nodes s ! j)) = Some (rb_node b)))"

definition partition_matches ::
  "polytree \<Rightarrow> 'x transform_state \<Rightarrow> 'x partition_descriptor \<Rightarrow> 'x runtime_partition \<Rightarrow> bool" where
  "partition_matches t st d p \<longleftrightarrow>
     rp_partition p = pd_partition d \<and> length (rp_slots p) = unat (pd_capacity d) \<and>
     (\<forall>s \<in> set (rp_slots p). slot_matches t st (pd_nodes d) s)"

text \<open>A node of the authoring scene in a frozen runtime.\<close>

lemma frozen_node:
  assumes from_: "frozen_from lib (au_topology au) fz" and lib: "library_ok lib lawful"
    and ok: "authoring_ok lib lawful au" and k: "tl_contains lib (au_topology au) k"
  obtains n where "runtime_handle (fz_identities fz) k = Some n" "n < node_count (fz_topology fz)"
    "fz_identities fz ! n = k"
    "tl_parent lib (au_topology au) k = tl_invalid_node lib \<Longrightarrow> parent (fz_topology fz) n = None"
    "\<And>q. tl_contains lib (au_topology au) q \<Longrightarrow> tl_parent lib (au_topology au) k = q \<Longrightarrow>
      \<exists>p. runtime_handle (fz_identities fz) q = Some p \<and> parent (fz_topology fz) n = Some p"
proof -
  let ?ids = "fz_identities fz" and ?t = "fz_topology fz"
  have ids: "distinct ?ids" "length ?ids = node_count ?t" "set ?ids = {k. tl_contains lib (au_topology au) k}" and wf: "wf_polytree ?t"
    and par: "\<And>n. n < node_count ?t \<Longrightarrow> tl_parent lib (au_topology au) (?ids ! n) =
      (case parent ?t n of None \<Rightarrow> tl_invalid_node lib | Some p \<Rightarrow> ?ids ! p)"
    using from_ by (auto simp: frozen_from_def)
  have valid: "tl_contains lib (au_topology au) q \<Longrightarrow> q \<noteq> tl_invalid_node lib" for q
    using library_okD(3,4) [OF lib] ok by (auto simp: authoring_ok_def)
  from k ids(3) obtain n where n: "n < node_count ?t" "?ids ! n = k" using ids(2) by (metis in_set_conv_nth mem_Collect_eq)
  have mem: "tl_contains lib (au_topology au) (?ids ! p)" if "parent ?t n = Some p" for p
    using wf_parentD(1) [OF wf n(1) that] ids(2,3) by (metis mem_Collect_eq nth_mem)
  have "runtime_handle ?ids k = Some n" using runtime_handle_nth [OF ids(1), of n] n ids(2) by simp
  moreover have "parent ?t n = None" if "tl_parent lib (au_topology au) k = tl_invalid_node lib"
    using par [OF n(1)] that valid [OF mem] n(2) by (cases "parent ?t n") auto
  moreover have "\<exists>p. runtime_handle ?ids q = Some p \<and> parent ?t n = Some p"
    if q: "tl_contains lib (au_topology au) q" "tl_parent lib (au_topology au) k = q" for q
  proof (cases "parent ?t n")
    case None
    then have False using par [OF n(1)] q n(2) valid [OF q(1)] by simp
    then show ?thesis ..
  next
    case (Some p)
    then have "?ids ! p = q" using par [OF n(1)] q(2) n(2) by simp
    moreover have "p < length ?ids" using wf_parentD(1) [OF wf n(1) Some] ids(2) by simp
    ultimately show ?thesis using runtime_handle_nth [OF ids(1), of p] Some by simp
  qed
  ultimately show thesis using that n by blast
qed

lemma resolve_slot_matches:
  assumes from_: "frozen_from lib (au_topology au) fz" and lib: "library_ok lib lawful"
    and ok: "authoring_ok lib lawful au" and p: "planted lib au nodes slot"
    and loc: "\<And>n. n < node_count (fz_topology fz) \<Longrightarrow> local_of st n = authored_local au (fz_identities fz ! n)"
  shows "slot_matches (fz_topology fz) st nodes (resolve_slot (fz_identities fz) slot)"
  unfolding slot_matches_def
proof (intro conjI allI impI)
  let ?ids = "fz_identities fz" and ?t = "fz_topology fz"
  let ?s = "resolve_slot ?ids slot"
  have len: "length slot = length nodes" using p by (metis planted_def length_map)
  show "\<not> rs_reserved ?s" "rs_generation ?s = 1" by (simp_all add: resolve_slot_def)
  show "map rb_binding_id (rs_nodes ?s) = map nd_binding_id nodes" "map rb_initial_local (rs_nodes ?s) = map nd_initial_local nodes"
    using p by (simp_all add: resolve_slot_def resolve_node_binding_def planted_def comp_def)
  fix j assume j: "j < length nodes"
  have node: "rs_nodes ?s ! j = resolve_node_binding ?ids (slot ! j)" using j len by (simp add: resolve_slot_def)
  have pj: "planted_node lib au slot j (nodes ! j)" using p j by (simp add: planted_def)
  have mem: "tl_contains lib (au_topology au) (sb_node b)" if "b \<in> set slot" for b using p that by (simp add: planted_def)
  have "slot ! j \<in> set slot" using j len by simp
  note memj = mem [OF this]
  obtain n where n: "runtime_handle ?ids (sb_node (slot ! j)) = Some n" "n < node_count ?t" "?ids ! n = sb_node (slot ! j)"
    "tl_parent lib (au_topology au) (sb_node (slot ! j)) = tl_invalid_node lib \<Longrightarrow> parent ?t n = None"
    "\<And>q. tl_contains lib (au_topology au) q \<Longrightarrow> tl_parent lib (au_topology au) (sb_node (slot ! j)) = q \<Longrightarrow>
      \<exists>p. runtime_handle ?ids q = Some p \<and> parent ?t n = Some p"
    by (rule frozen_node [OF from_ lib ok memj]) blast
  have rb: "rb_node (rs_nodes ?s ! j) = n" by (simp add: node resolve_node_binding_def n(1))
  show "local_of st (rb_node (rs_nodes ?s ! j)) = nd_initial_local (nodes ! j)"
    using loc [OF n(2)] pj by (simp add: rb n(3) planted_node_def)
  show "if nd_parent_binding_id (nodes ! j) = [] then parent ?t (rb_node (rs_nodes ?s ! j)) = None
         else \<exists>b. find_binding (nd_parent_binding_id (nodes ! j)) (take j (rs_nodes ?s)) = Some b \<and>
                parent ?t (rb_node (rs_nodes ?s ! j)) = Some (rb_node b)"
  proof (cases "nd_parent_binding_id (nodes ! j) = []")
    case True
    with pj n(4) show ?thesis by (simp add: rb planted_node_def)
  next
    case False
    then obtain b where b: "find (\<lambda>b. sb_binding_id b = nd_parent_binding_id (nodes ! j)) (take j slot) = Some b"
      "tl_parent lib (au_topology au) (sb_node (slot ! j)) = sb_node b" using pj by (auto simp: planted_node_def)
    have "b \<in> set slot" using find_Some_mem [OF b(1)] by (auto dest: in_set_takeD)
    from n(5) [OF mem [OF this] b(2)] obtain q where q: "runtime_handle ?ids (sb_node b) = Some q" "parent ?t n = Some q" by blast
    have "find_binding (nd_parent_binding_id (nodes ! j)) (take j (rs_nodes ?s)) = Some (resolve_node_binding ?ids b)"
      using b(1) by (simp add: find_binding_def resolve_slot_def take_map find_map_record) (simp add: resolve_node_binding_def)
    with False q show ?thesis by (simp add: rb) (simp add: resolve_node_binding_def)
  qed
qed

lemma slot_nodes_resolved:
  fixes ps :: "'x stable_partition list"
  shows "slot_nodes (map (resolve_partition ids) ps) = map (\<lambda>k. the (runtime_handle ids k)) (partition_ids ps)"
proof -
  have "map rb_node (rs_nodes (resolve_slot ids s)) = map (\<lambda>k. the (runtime_handle ids k)) (map sb_node s)" for s :: "'x stable_node_binding list"
    by (simp add: resolve_slot_def resolve_node_binding_def comp_def)
  then show ?thesis
    by (simp add: slot_nodes_def partition_ids_def slot_ids_def resolve_partition_def map_concat comp_def)
qed

lemma create_sceneD:
  assumes "create_scene m lib d = Some si"
  obtains au0 ps au rt where "plant_permanent lib d = Some au0"
    "fold (instantiate_partition lib) (sd_partitions d) (True, [], au0) = (True, ps, au)"
    "freeze_scene lib au None = Inr rt" "0 < sd_fixed_step d"
    "si = new_instance m (rt_topology rt) (rt_state rt) (map (resolve_partition (rt_identities rt)) ps) (sd_fixed_step d) (sd_max_catch_up d)"
  using assms
  by (auto simp: create_scene_def invalid_descriptor_def split: if_splits option.splits prod.splits sum.splits)

lemma freeze_worlds_new:
  assumes "freeze_scene lib au None = Inr rt" and "n < length (m_records (rt_state rt))"
  shows "r_world_revision (m_records (rt_state rt) ! n) = 0"
proof -
  obtain fz where fz: "tl_freeze lib (au_topology au) = Inr fz"
    using assms(1) by (cases "tl_freeze lib (au_topology au)") (auto simp: freeze_scene_def)
  note D = freeze_sceneD [OF assms(1) fz]
  from D(6) [of n] assms(2) D(3) show ?thesis by (auto simp: freeze_record_def fresh_runtime_record_def)
qed

lemma plant_permanent_ok:
  fixes au :: "('t, 'x) authoring_scene"
  assumes lib: "library_ok lib lawful" and "plant_permanent lib d = Some au"
  shows "authoring_ok lib lawful au"
proof -
  have new: "authoring_ok lib lawful (new_authoring_scene lib :: ('t, 'x) authoring_scene)" by (rule reachable_authoring_ok [OF lib authoring_starts])
  show ?thesis
  proof (cases "sd_permanent_nodes d = []")
    case True
    with assms(2) new show ?thesis by (simp add: plant_permanent_def)
  next
    case False
    then obtain slot where "instantiate_topology lib (sd_permanent_nodes d) (new_authoring_scene lib) = (Some slot, au)"
      using assms(2) by (auto simp: plant_permanent_def split: prod.splits option.splits)
    from instantiate_topology_planted(1) [OF lib new this] show ?thesis by (simp add: grown_def)
  qed
qed

text \<open>The runtime made from planted partitions.\<close>

lemma resolved_partitions:
  assumes lib: "library_ok lib lawful" and ok: "authoring_ok lib lawful au"
    and rt: "freeze_scene lib au None = Inr rt" and ps: "list_all2 (partition_planted lib au) ds ps"
    and ids: "distinct (partition_ids ps)" "\<And>k. k \<in> set (partition_ids ps) \<Longrightarrow> tl_contains lib (au_topology au) k"
  shows "list_all2 (partition_matches (rt_topology rt) (rt_state rt)) ds (map (resolve_partition (rt_identities rt)) ps)"
    and "distinct (slot_nodes (map (resolve_partition (rt_identities rt)) ps))"
    and "set (slot_nodes (map (resolve_partition (rt_identities rt)) ps)) \<subseteq> {..< node_count (rt_topology rt)}"
proof -
  obtain fz where fz: "tl_freeze lib (au_topology au) = Inr fz"
    using rt by (cases "tl_freeze lib (au_topology au)") (auto simp: freeze_scene_def)
  note D = freeze_sceneD [OF rt fz]
  have from_: "frozen_from lib (au_topology au) fz" using library_okD(12) [OF lib _ fz] ok by (simp add: authoring_ok_def)
  then have len: "length (fz_identities fz) = node_count (fz_topology fz)" by (simp add: frozen_from_def)
  have loc: "local_of (rt_state rt) n = authored_local au (fz_identities fz ! n)" if n: "n < node_count (fz_topology fz)" for n
    using D(6) [of n] n len by (auto simp: local_of_def record_at_def freeze_record_local authored_local_def)
  have "partition_matches (rt_topology rt) (rt_state rt) d (resolve_partition (rt_identities rt) p)"
    if "partition_planted lib au d p" for d p
    using that resolve_slot_matches [OF from_ lib ok _ loc]
    by (auto simp: partition_planted_def partition_matches_def resolve_partition_def D(1,2))
  then show "list_all2 (partition_matches (rt_topology rt) (rt_state rt)) ds (map (resolve_partition (rt_identities rt)) ps)"
    using ps by (simp add: list_all2_map2 list_all2_mono)
  let ?h = "\<lambda>k. the (runtime_handle (fz_identities fz) k)"
  have handle: "?h k < node_count (fz_topology fz) \<and> fz_identities fz ! ?h k = k" if "k \<in> set (partition_ids ps)" for k
    by (rule frozen_node [OF from_ lib ok ids(2) [OF that]]) simp
  have "inj_on ?h (set (partition_ids ps))" by (rule inj_on_inverseI [where g = "\<lambda>n. fz_identities fz ! n"]) (use handle in blast)
  with ids(1) show "distinct (slot_nodes (map (resolve_partition (rt_identities rt)) ps))"
    by (simp add: slot_nodes_resolved distinct_map D(2))
  show "set (slot_nodes (map (resolve_partition (rt_identities rt)) ps)) \<subseteq> {..< node_count (rt_topology rt)}"
    using handle by (auto simp: slot_nodes_resolved D(1,2))
qed

lemma resolved_binding_ids:
  "slot_matches t st nodes s \<Longrightarrow> distinct (map nd_binding_id nodes) \<Longrightarrow> distinct (map rb_binding_id (rs_nodes s))"
  by (simp add: slot_matches_def)

lemma created_scene_matches:
  assumes "library_ok lib lawful" and "create_scene m lib d = Some si"
    and "\<forall>p \<in> set (sd_partitions d). distinct (map nd_binding_id (pd_nodes p))"
  shows "scene_ok m si \<and> layout_ok si \<and>
    list_all2 (partition_matches (si_topology si) (si_state si)) (sd_partitions d) (si_partitions si)"
proof -
  obtain au0 ps au rt where c: "plant_permanent lib d = Some au0"
    "fold (instantiate_partition lib) (sd_partitions d) (True, [], au0) = (True, ps, au)"
    "freeze_scene lib au None = Inr rt" "0 < sd_fixed_step d"
    and si: "si = new_instance m (rt_topology rt) (rt_state rt) (map (resolve_partition (rt_identities rt)) ps)
      (sd_fixed_step d) (sd_max_catch_up d)"
    by (rule create_sceneD [OF assms(2)])
  note grown = instantiate_partitions [OF assms(1) plant_permanent_ok [OF assms(1) c(1)] c(2)]
  have ok: "authoring_ok lib lawful au" using grown by (simp add: grown_def)
  have run: "runtime_ok (policy_compose m) rt"
    using freeze_starts [OF assms(1) ok c(3), of "policy_compose m"] by simp
  note R = resolved_partitions [OF assms(1) ok c(3), of "sd_partitions d" ps]
  have match: "list_all2 (partition_matches (rt_topology rt) (rt_state rt)) (sd_partitions d)
      (map (resolve_partition (rt_identities rt)) ps)"
    and nodes: "distinct (slot_nodes (map (resolve_partition (rt_identities rt)) ps))"
      "set (slot_nodes (map (resolve_partition (rt_identities rt)) ps)) \<subseteq> {..< node_count (rt_topology rt)}"
    using R grown by (simp_all add: grown_def)
  have wf: "wf_polytree (rt_topology rt)" and st: "state_ok (rt_topology rt) (policy_compose m) (rt_state rt)"
    using run by (simp_all add: runtime_ok_def)
  have fields: "si_topology si = rt_topology rt" "si_state si = rt_state rt"
    "si_partitions si = map (resolve_partition (rt_identities rt)) ps"
    by (simp_all add: si new_instance_def Let_def)
  have len: "length (m_records (rt_state rt)) = node_count (rt_topology rt)" using st by (simp add: state_ok_def)
  have "scene_ok m si"
    unfolding si by (rule new_instance_scene_ok [OF wf st freeze_worlds_new [OF c(3)] c(4)]) (simp add: len)
  moreover have "distinct (map rb_binding_id (rs_nodes s))"
    if p: "p \<in> set (map (resolve_partition (rt_identities rt)) ps)" and s: "s \<in> set (rp_slots p)" for p s
  proof -
    obtain i where i: "i < length (sd_partitions d)" "map (resolve_partition (rt_identities rt)) ps ! i = p"
      using p list_all2_lengthD [OF match] by (metis in_set_conv_nth)
    have "partition_matches (rt_topology rt) (rt_state rt) (sd_partitions d ! i) p"
      using list_all2_nthD [OF match i(1)] i(2) by simp
    with s have "slot_matches (rt_topology rt) (rt_state rt) (pd_nodes (sd_partitions d ! i)) s"
      by (simp add: partition_matches_def)
    then show ?thesis by (rule resolved_binding_ids) (use assms(3) i(1) in simp)
  qed
  then have "layout_ok si"
    using nodes len by (simp add: layout_ok_def fields) (simp add: si new_instance_def Let_def state_size_def)
  ultimately show ?thesis using match by (simp add: fields)
qed

lemma created_scene_idle: "create_scene m lib d = Some si \<Longrightarrow> \<not> si_active si"
  by (elim create_sceneD) (simp add: new_instance_def Let_def)

subsection \<open>Properties\<close>

text \<open>C29. A scene that is created is the one described: it satisfies the invariants that the slot
  operations and the frames rely on, its partitions are those of the descriptor, in order, each with
  as many free slots as its capacity, and in every slot the described binding ids name runtime nodes
  that no other slot has, with the described initial locals, each below the node of the same slot
  that its parent id names.\<close>

theorem created_scenes_match_their_descriptor:
  assumes "library_ok lib lawful" and "create_scene m lib d = Some si"
    and "\<forall>p \<in> set (sd_partitions d). distinct (map nd_binding_id (pd_nodes p))"
  shows "scene_ok m si \<and> layout_ok si \<and>
    list_all2 (partition_matches (si_topology si) (si_state si)) (sd_partitions d) (si_partitions si)"
  by (rule created_scene_matches [OF assms])

text \<open>Two slots of a root and a child, planted in the table of the previous section.\<close>

definition demo_descriptor :: "int scene_descriptor" where
  "demo_descriptor =
     \<lparr>sd_permanent_nodes = [],
      sd_partitions = [\<lparr>pd_partition = 7, pd_capacity = 2,
        pd_nodes = [\<lparr>nd_binding_id = ''a'', nd_parent_binding_id = [], nd_initial_local = 1\<rparr>,
                    \<lparr>nd_binding_id = ''b'', nd_parent_binding_id = ''a'', nd_initial_local = 10\<rparr>]\<rparr>],
      sd_fixed_step = 16, sd_max_catch_up = 4\<rparr>"

lemma demo_descriptor_creates:
  "\<exists>si :: (int, int, unit) scene_instance. create_scene int_math table_library demo_descriptor = Some si"
  by (simp add: create_scene_def invalid_descriptor_def demo_descriptor_def plant_permanent_def instantiate_partition_def
      instantiate_slot_def instantiate_topology_def instantiate_node_def insert_root_def insert_child_def
      new_authoring_scene_def authoring_available_def table_add_def authoring_insert_def table_contains_def
      freeze_scene_def table_freeze_def Let_def upt_conv_Cons)

theorem created_scenes_match_their_descriptor_witness:
  "\<exists>si :: (int, int, unit) scene_instance. create_scene int_math table_library demo_descriptor = Some si \<and>
     scene_ok int_math si \<and> layout_ok si \<and> length (rp_slots (hd (si_partitions si))) = 2 \<and>
     slot_matches (si_topology si) (si_state si) (pd_nodes (hd (sd_partitions demo_descriptor)))
       (rp_slots (hd (si_partitions si)) ! 1)"
proof -
  obtain si :: "(int, int, unit) scene_instance" where si: "create_scene int_math table_library demo_descriptor = Some si"
    using demo_descriptor_creates by blast
  have "\<forall>p \<in> set (sd_partitions demo_descriptor). distinct (map nd_binding_id (pd_nodes p))"
    by (simp add: demo_descriptor_def)
  from created_scenes_match_their_descriptor [OF table_library_ok si this]
  have ok: "scene_ok int_math si" "layout_ok si"
    and "list_all2 (partition_matches (si_topology si) (si_state si)) (sd_partitions demo_descriptor) (si_partitions si)" by simp_all
  then obtain p where p: "si_partitions si = [p]"
    "partition_matches (si_topology si) (si_state si) (hd (sd_partitions demo_descriptor)) p"
    by (auto simp: demo_descriptor_def list_all2_Cons1)
  then have "length (rp_slots p) = 2" by (simp add: partition_matches_def demo_descriptor_def)
  with si ok p show ?thesis by (simp add: partition_matches_def)
qed

end
