(* ===== verification/System_Component.thy ===== *)
theory System_Component
  imports Scene_Create "HOL-Library.AList"
begin

section \<open>The system component\<close>

text \<open>
  \<open>ScenePolytreeSystemComponent.cpp\<close> and \<open>.h\<close>: the owner of all scenes. Requests are checked at once
  and queued as commands; a tick drains the queue in order and advances the scenes. Before that,
  scene entities and prefabs register, and the first root spawnable resolves the registrations.

  Every public function holds one recursive lock, so calls are atomic. What the code sends over event
  buses is the list of notifications a call returns; handlers that call back while the queue is drained
  are the subject of \<open>System_Handlers\<close>. The unordered map of scenes is an association list with unique keys; the order in
  which a tick visits it is an argument. An \<open>AssetId\<close> is valid when its guid is not zero. Time enters
  a tick in nanoseconds.
\<close>

subsection \<open>Data\<close>

text \<open>The engine's math, the methods of the controller batches and the mutable polytree.\<close>

record ('x, 'v, 'q, 'f, 'cfg, 'inp, 'b, 't, 'm, 'z) host =
  h_math :: "('x, 'v, 'q, 'f) az_math"
  h_methods :: "('x, 'v, 'cfg, 'inp, 'b) batch_methods"
  h_library :: "('t, 'm, 'z) scene_library"

datatype correction_space = cs_local | cs_world
datatype correction_source = co_terrain | co_physics | co_gameplay | co_external

record 'x scene_correction =
  co_node :: scene_node_handle
  co_transform :: 'x
  co_space :: correction_space
  co_source :: correction_source

datatype ('x, 'cfg) scene_command =
    Create_command scene_handle "'x scene_descriptor"
  | Destroy_command scene_handle
  | Place_slot_command slot_handle 'x scene_command_id entity_id
  | Bind_slot_command slot_handle "'x entity_binding list" scene_command_id entity_id
  | Unbind_slot_command slot_handle scene_command_id entity_id
  | Reset_slot_command slot_handle scene_command_id entity_id
  | Release_slot_command slot_handle scene_command_id entity_id
  | Attach_controllers_command instance_handle "'cfg controller_declaration list" scene_command_id entity_id
  | Detach_controllers_command instance_handle scene_command_id entity_id
  | Active_command scene_handle bool
  | Correction_command "'x scene_correction"

datatype scene_life = sl_pending | sl_alive | sl_destroying

record ('x, 'v, 'b) scene_entry =
  se_instance :: "('x, 'v, 'b) scene_instance option"
  se_life :: scene_life

record registered_scene_entity =
  rse_entity :: entity_id
  rse_default :: bool

record prefab_registration_descriptor =
  prd_prefab :: asset_id
  prd_capacity :: u32
  prd_key :: name

record pending_registration =
  pr_token :: registration_token
  pr_owner :: entity_id
  pr_target :: entity_id
  pr_descriptor :: prefab_registration_descriptor

record resolved_registration =
  rr_token :: registration_token
  rr_owner :: entity_id
  rr_partition :: u64
  rr_descriptor :: prefab_registration_descriptor

record registration_result =
  re_code :: result_code
  re_token :: registration_token

record factory_token =
  ft_type_id :: type_id
  ft_generation :: u32

definition factory_token_valid :: "factory_token \<Rightarrow> bool" where
  "factory_token_valid t \<longleftrightarrow> ft_type_id t \<noteq> 0 \<and> ft_generation t \<noteq> 0"

definition no_factory_token :: factory_token where
  "no_factory_token = \<lparr>ft_type_id = 0, ft_generation = 0\<rparr>"

record factory_result =
  fr_code :: controller_result
  fr_token :: factory_token

record 'b registered_factory =
  rf_token :: factory_token
  rf_factory :: "'b controller_factory"

datatype 'x notification =
    Scene_ready scene_handle
  | Scene_failed scene_handle scene_polytree_failure
  | Command_completed entity_id scene_command_id scene_command_type result_code
  | Set_entity_world entity_id 'x
  | Begin_build entity_id "resolved_registration list"
  | Registration_failed entity_id registration_token scene_polytree_failure

record ('x, 'v, 'cfg, 'b) system_component =
  sy_scenes :: "(scene_handle \<times> ('x, 'v, 'b) scene_entry) list"
  sy_commands :: "('x, 'cfg) scene_command list"
  sy_entities :: "registered_scene_entity list"
  sy_registrations :: "pending_registration list"
  sy_factories :: "'b registered_factory list"
  sy_next_scene :: u64
  sy_next_registration :: u64
  sy_next_command :: u64
  sy_next_factory_generation :: u32
  sy_collection_closed :: bool
  sy_tick_connected :: bool

definition new_system :: "('x, 'v, 'cfg, 'b) system_component" where
  "new_system =
     \<lparr>sy_scenes = [], sy_commands = [], sy_entities = [], sy_registrations = [], sy_factories = [],
      sy_next_scene = 1, sy_next_registration = 1, sy_next_command = 1, sy_next_factory_generation = 1,
      sy_collection_closed = False, sy_tick_connected = False\<rparr>"

definition deactivate :: "('x, 'v, 'cfg, 'b) system_component \<Rightarrow> ('x, 'v, 'cfg, 'b) system_component" where
  "deactivate sys =
     sys\<lparr>sy_tick_connected := False, sy_commands := [], sy_scenes := [], sy_entities := [], sy_registrations := [],
        sy_factories := [], sy_collection_closed := False\<rparr>"

subsection \<open>Scenes and the queue\<close>

definition map_system_result :: "controller_result \<Rightarrow> result_code" where
  "map_system_result code =
     (case code of
        cr_success \<Rightarrow> rc_success
      | cr_factory_not_found \<Rightarrow> rc_controller_factory_not_found
      | cr_invalid_configuration \<Rightarrow> rc_controller_invalid_configuration
      | cr_invalid_target \<Rightarrow> rc_controller_target_not_found
      | cr_invalid_handle \<Rightarrow> rc_stale_handle
      | cr_stale_handle \<Rightarrow> rc_stale_handle
      | cr_construction_failed \<Rightarrow> rc_controller_construction_failed
      | _ \<Rightarrow> rc_controller_construction_failed)"

definition find_scene ::
  "('x, 'v, 'cfg, 'b) system_component \<Rightarrow> scene_handle \<Rightarrow> ('x, 'v, 'b) scene_instance option" where
  "find_scene sys scene =
     (case map_of (sy_scenes sys) scene of
        Some entry \<Rightarrow> if se_life entry = sl_alive then se_instance entry else None
      | None \<Rightarrow> None)"

definition set_instance ::
  "scene_handle \<Rightarrow> ('x, 'v, 'b) scene_instance \<Rightarrow> ('x, 'v, 'cfg, 'b) system_component \<Rightarrow>
   ('x, 'v, 'cfg, 'b) system_component" where
  "set_instance scene si sys =
     sys\<lparr>sy_scenes := map (\<lambda>(id, entry). (id, if id = scene then entry\<lparr>se_instance := Some si\<rparr> else entry)) (sy_scenes sys)\<rparr>"

definition accepts_commands :: "('x, 'v, 'cfg, 'b) system_component \<Rightarrow> scene_handle \<Rightarrow> bool" where
  "accepts_commands sys scene \<longleftrightarrow>
     scene \<noteq> 0 \<and>
     (case map_of (sy_scenes sys) scene of None \<Rightarrow> False | Some entry \<Rightarrow> se_life entry \<noteq> sl_destroying)"

definition system_needs_tick ::
  "('x, 'v, 'q, 'f, 'cfg, 'inp, 'b, 't, 'm, 'z) host \<Rightarrow> ('x, 'v, 'cfg, 'b) system_component \<Rightarrow> bool" where
  "system_needs_tick h sys \<longleftrightarrow>
     sy_commands sys \<noteq> [] \<or>
     (\<exists>(id, entry) \<in> set (sy_scenes sys). se_life entry = sl_alive \<and>
        (case se_instance entry of None \<Rightarrow> False | Some si \<Rightarrow> needs_tick (h_methods h) si))"

definition refresh_tick ::
  "('x, 'v, 'q, 'f, 'cfg, 'inp, 'b, 't, 'm, 'z) host \<Rightarrow> ('x, 'v, 'cfg, 'b) system_component \<Rightarrow>
   ('x, 'v, 'cfg, 'b) system_component" where
  "refresh_tick h sys =
     (if system_needs_tick h sys \<and> \<not> sy_tick_connected sys then sys\<lparr>sy_tick_connected := True\<rparr>
      else if \<not> system_needs_tick h sys \<and> sy_tick_connected sys then sys\<lparr>sy_tick_connected := False\<rparr>
      else sys)"

definition enqueue ::
  "('x, 'v, 'q, 'f, 'cfg, 'inp, 'b, 't, 'm, 'z) host \<Rightarrow> ('x, 'cfg) scene_command \<Rightarrow>
   ('x, 'v, 'cfg, 'b) system_component \<Rightarrow> ('x, 'v, 'cfg, 'b) system_component" where
  "enqueue h command sys = refresh_tick h (sys\<lparr>sy_commands := sy_commands sys @ [command]\<rparr>)"

text \<open>A submission takes the next command id.\<close>

definition submit ::
  "('x, 'v, 'q, 'f, 'cfg, 'inp, 'b, 't, 'm, 'z) host \<Rightarrow> (scene_command_id \<Rightarrow> ('x, 'cfg) scene_command) \<Rightarrow>
   ('x, 'v, 'cfg, 'b) system_component \<Rightarrow> scene_command_submission \<times> ('x, 'v, 'cfg, 'b) system_component" where
  "submit h command sys =
     (let id = sy_next_command sys
      in (\<lparr>scs_code = rc_success, scs_command = id\<rparr>, enqueue h (command id) (sys\<lparr>sy_next_command := id + 1\<rparr>)))"

definition refuse :: "result_code \<Rightarrow> scene_command_submission" where
  "refuse code = \<lparr>scs_code = code, scs_command = 0\<rparr>"

subsection \<open>Requests\<close>

definition request_create_scene ::
  "('x, 'v, 'q, 'f, 'cfg, 'inp, 'b, 't, 'm, 'z) host \<Rightarrow> 'x scene_descriptor \<Rightarrow>
   ('x, 'v, 'cfg, 'b) system_component \<Rightarrow> scene_handle \<times> ('x, 'v, 'cfg, 'b) system_component" where
  "request_create_scene h d sys =
     (if sd_fixed_step d \<le> 0 \<or> sd_max_catch_up d = 0 \<or> (sd_permanent_nodes d = [] \<and> sd_partitions d = [])
      then (0, sys)
      else let handle = sy_next_scene sys;
               scenes = (if handle \<in> fst ` set (sy_scenes sys) then sy_scenes sys
                         else sy_scenes sys @ [(handle, \<lparr>se_instance = None, se_life = sl_pending\<rparr>)])
           in (handle, enqueue h (Create_command handle d) (sys\<lparr>sy_next_scene := handle + 1, sy_scenes := scenes\<rparr>)))"

definition destroy_scene ::
  "('x, 'v, 'q, 'f, 'cfg, 'inp, 'b, 't, 'm, 'z) host \<Rightarrow> scene_handle \<Rightarrow>
   ('x, 'v, 'cfg, 'b) system_component \<Rightarrow> ('x, 'v, 'cfg, 'b) system_component" where
  "destroy_scene h scene sys =
     (case map_of (sy_scenes sys) scene of
        None \<Rightarrow> sys
      | Some entry \<Rightarrow>
          if se_life entry = sl_destroying then sys
          else enqueue h (Destroy_command scene)
                 (sys\<lparr>sy_scenes := AList.update scene (entry\<lparr>se_life := sl_destroying\<rparr>) (sy_scenes sys)\<rparr>))"

definition system_reserve_slot ::
  "spawner_handle \<Rightarrow> ('x, 'v, 'cfg, 'b) system_component \<Rightarrow> slot_result \<times> ('x, 'v, 'cfg, 'b) system_component" where
  "system_reserve_slot spawner sys =
     (case find_scene sys (ph_scene spawner) of
        Some si \<Rightarrow> (case reserve_slot spawner si of (result, si) \<Rightarrow> (result, set_instance (ph_scene spawner) si sys))
      | None \<Rightarrow>
          (\<lparr>sr_code = (if accepts_commands sys (ph_scene spawner) then rc_scene_not_ready else rc_scene_not_found),
            sr_handle = no_slot\<rparr>, sys))"

definition submit_place_slot ::
  "('x, 'v, 'q, 'f, 'cfg, 'inp, 'b, 't, 'm, 'z) host \<Rightarrow> slot_handle \<Rightarrow> 'x \<Rightarrow> entity_id \<Rightarrow>
   ('x, 'v, 'cfg, 'b) system_component \<Rightarrow> scene_command_submission \<times> ('x, 'v, 'cfg, 'b) system_component" where
  "submit_place_slot h slot root_world completion sys =
     (if \<not> accepts_commands sys (ph_scene (sh_spawner slot)) then (refuse rc_scene_not_found, sys)
      else if \<not> az_is_finite (h_math h) root_world then (refuse rc_invalid_transform, sys)
      else submit h (\<lambda>id. Place_slot_command slot root_world id completion) sys)"

definition submit_bind_slot ::
  "('x, 'v, 'q, 'f, 'cfg, 'inp, 'b, 't, 'm, 'z) host \<Rightarrow> slot_handle \<Rightarrow> 'x entity_binding list \<Rightarrow> entity_id \<Rightarrow>
   ('x, 'v, 'cfg, 'b) system_component \<Rightarrow> scene_command_submission \<times> ('x, 'v, 'cfg, 'b) system_component" where
  "submit_bind_slot h slot bindings completion sys =
     (if \<not> accepts_commands sys (ph_scene (sh_spawner slot)) then (refuse rc_scene_not_found, sys)
      else if bindings = [] then (refuse rc_invalid_binding, sys)
      else submit h (\<lambda>id. Bind_slot_command slot bindings id completion) sys)"

definition submit_unbind_slot ::
  "('x, 'v, 'q, 'f, 'cfg, 'inp, 'b, 't, 'm, 'z) host \<Rightarrow> slot_handle \<Rightarrow> entity_id \<Rightarrow>
   ('x, 'v, 'cfg, 'b) system_component \<Rightarrow> scene_command_submission \<times> ('x, 'v, 'cfg, 'b) system_component" where
  "submit_unbind_slot h slot completion sys =
     (if \<not> accepts_commands sys (ph_scene (sh_spawner slot)) then (refuse rc_scene_not_found, sys)
      else submit h (\<lambda>id. Unbind_slot_command slot id completion) sys)"

definition submit_reset_slot ::
  "('x, 'v, 'q, 'f, 'cfg, 'inp, 'b, 't, 'm, 'z) host \<Rightarrow> slot_handle \<Rightarrow> entity_id \<Rightarrow>
   ('x, 'v, 'cfg, 'b) system_component \<Rightarrow> scene_command_submission \<times> ('x, 'v, 'cfg, 'b) system_component" where
  "submit_reset_slot h slot completion sys =
     (if \<not> accepts_commands sys (ph_scene (sh_spawner slot)) then (refuse rc_scene_not_found, sys)
      else submit h (\<lambda>id. Reset_slot_command slot id completion) sys)"

definition submit_release_slot ::
  "('x, 'v, 'q, 'f, 'cfg, 'inp, 'b, 't, 'm, 'z) host \<Rightarrow> slot_handle \<Rightarrow> entity_id \<Rightarrow>
   ('x, 'v, 'cfg, 'b) system_component \<Rightarrow> scene_command_submission \<times> ('x, 'v, 'cfg, 'b) system_component" where
  "submit_release_slot h slot completion sys =
     (if \<not> accepts_commands sys (ph_scene (sh_spawner slot)) then (refuse rc_scene_not_found, sys)
      else submit h (\<lambda>id. Release_slot_command slot id completion) sys)"

definition system_resolve_node :: "slot_handle \<Rightarrow> name \<Rightarrow> ('x, 'v, 'cfg, 'b) system_component \<Rightarrow> node_result" where
  "system_resolve_node slot binding_id sys =
     (case find_scene sys (ph_scene (sh_spawner slot)) of
        Some si \<Rightarrow> resolve_node slot binding_id si
      | None \<Rightarrow> \<lparr>nr_code = rc_scene_not_ready, nr_handle = no_node\<rparr>)"

definition submit_scene_active ::
  "('x, 'v, 'q, 'f, 'cfg, 'inp, 'b, 't, 'm, 'z) host \<Rightarrow> scene_handle \<Rightarrow> bool \<Rightarrow>
   ('x, 'v, 'cfg, 'b) system_component \<Rightarrow> bool \<times> ('x, 'v, 'cfg, 'b) system_component" where
  "submit_scene_active h scene active sys =
     (if \<not> accepts_commands sys scene then (False, sys) else (True, enqueue h (Active_command scene active) sys))"

definition request_correction ::
  "('x, 'v, 'q, 'f, 'cfg, 'inp, 'b, 't, 'm, 'z) host \<Rightarrow> 'x scene_correction \<Rightarrow>
   ('x, 'v, 'cfg, 'b) system_component \<Rightarrow> bool \<times> ('x, 'v, 'cfg, 'b) system_component" where
  "request_correction h correction sys =
     (if \<not> accepts_commands sys (ph_scene (sh_spawner (nh_slot (co_node correction)))) \<or>
         \<not> node_valid (co_node correction) \<or> \<not> az_is_finite (h_math h) (co_transform correction)
      then (False, sys) else (True, enqueue h (Correction_command correction) sys))"

definition no_statistics :: scene_statistics where
  "no_statistics =
     \<lparr>ss_node_count = 0, ss_active_motion_count = 0, ss_last_synchronized_node_count = 0, ss_completed_fixed_steps = 0,
      ss_active = False, ss_partition_count = 0, ss_slot_capacity = 0, ss_reserved_slot_count = 0,
      ss_bound_slot_count = 0\<rparr>"

definition system_statistics :: "scene_handle \<Rightarrow> ('x, 'v, 'cfg, 'b) system_component \<Rightarrow> scene_statistics" where
  "system_statistics scene sys =
     (case find_scene sys scene of Some si \<Rightarrow> get_statistics si | None \<Rightarrow> no_statistics)"

definition is_scene_alive :: "scene_handle \<Rightarrow> ('x, 'v, 'cfg, 'b) system_component \<Rightarrow> bool" where
  "is_scene_alive scene sys \<longleftrightarrow> accepts_commands sys scene"

definition is_scene_ready :: "scene_handle \<Rightarrow> ('x, 'v, 'cfg, 'b) system_component \<Rightarrow> bool" where
  "is_scene_ready scene sys \<longleftrightarrow> find_scene sys scene \<noteq> None"

text \<open>The requests without a completion only tell whether the command was taken.\<close>

definition system_place_slot ::
  "('x, 'v, 'q, 'f, 'cfg, 'inp, 'b, 't, 'm, 'z) host \<Rightarrow> slot_handle \<Rightarrow> 'x \<Rightarrow>
   ('x, 'v, 'cfg, 'b) system_component \<Rightarrow> result_code \<times> ('x, 'v, 'cfg, 'b) system_component" where
  "system_place_slot h slot root_world sys = apfst scs_code (submit_place_slot h slot root_world None sys)"

definition system_bind_slot ::
  "('x, 'v, 'q, 'f, 'cfg, 'inp, 'b, 't, 'm, 'z) host \<Rightarrow> slot_handle \<Rightarrow> 'x entity_binding list \<Rightarrow>
   ('x, 'v, 'cfg, 'b) system_component \<Rightarrow> result_code \<times> ('x, 'v, 'cfg, 'b) system_component" where
  "system_bind_slot h slot bindings sys = apfst scs_code (submit_bind_slot h slot bindings None sys)"

definition system_unbind_slot ::
  "('x, 'v, 'q, 'f, 'cfg, 'inp, 'b, 't, 'm, 'z) host \<Rightarrow> slot_handle \<Rightarrow>
   ('x, 'v, 'cfg, 'b) system_component \<Rightarrow> result_code \<times> ('x, 'v, 'cfg, 'b) system_component" where
  "system_unbind_slot h slot sys = apfst scs_code (submit_unbind_slot h slot None sys)"

definition system_reset_slot ::
  "('x, 'v, 'q, 'f, 'cfg, 'inp, 'b, 't, 'm, 'z) host \<Rightarrow> slot_handle \<Rightarrow>
   ('x, 'v, 'cfg, 'b) system_component \<Rightarrow> result_code \<times> ('x, 'v, 'cfg, 'b) system_component" where
  "system_reset_slot h slot sys = apfst scs_code (submit_reset_slot h slot None sys)"

definition system_release_slot ::
  "('x, 'v, 'q, 'f, 'cfg, 'inp, 'b, 't, 'm, 'z) host \<Rightarrow> slot_handle \<Rightarrow>
   ('x, 'v, 'cfg, 'b) system_component \<Rightarrow> result_code \<times> ('x, 'v, 'cfg, 'b) system_component" where
  "system_release_slot h slot sys = apfst scs_code (submit_release_slot h slot None sys)"

subsection \<open>Registration\<close>

definition register_scene_entity ::
  "entity_id \<Rightarrow> bool \<Rightarrow> ('x, 'v, 'cfg, 'b) system_component \<Rightarrow> result_code \<times> ('x, 'v, 'cfg, 'b) system_component" where
  "register_scene_entity entity is_default sys =
     (if sy_collection_closed sys then (rc_registration_closed, sys)
      else if entity = None \<or> (\<exists>e \<in> set (sy_entities sys). rse_entity e = entity) then (rc_invalid_binding, sys)
      else (rc_success, sys\<lparr>sy_entities := sy_entities sys @ [\<lparr>rse_entity = entity, rse_default = is_default\<rparr>]\<rparr>))"

definition unregister_scene_entity ::
  "entity_id \<Rightarrow> ('x, 'v, 'cfg, 'b) system_component \<Rightarrow> ('x, 'v, 'cfg, 'b) system_component" where
  "unregister_scene_entity entity sys = sys\<lparr>sy_entities := filter (\<lambda>e. rse_entity e \<noteq> entity) (sy_entities sys)\<rparr>"

definition register_prefab ::
  "entity_id \<Rightarrow> entity_id \<Rightarrow> prefab_registration_descriptor \<Rightarrow> ('x, 'v, 'cfg, 'b) system_component \<Rightarrow>
   registration_result \<times> ('x, 'v, 'cfg, 'b) system_component" where
  "register_prefab owner target descriptor sys =
     (if sy_collection_closed sys then (\<lparr>re_code = rc_registration_closed, re_token = 0\<rparr>, sys)
      else if owner = None \<or> fst (prd_prefab descriptor) = 0 then (\<lparr>re_code = rc_invalid_prefab, re_token = 0\<rparr>, sys)
      else if prd_capacity descriptor = 0 then (\<lparr>re_code = rc_zero_capacity, re_token = 0\<rparr>, sys)
      else if prd_key descriptor = [] \<or>
              (\<exists>r \<in> set (sy_registrations sys). pr_owner r = owner \<and> prd_key (pr_descriptor r) = prd_key descriptor)
      then (\<lparr>re_code = rc_duplicate_binding_id, re_token = 0\<rparr>, sys)
      else let token = sy_next_registration sys
           in (\<lparr>re_code = rc_success, re_token = token\<rparr>,
               sys\<lparr>sy_next_registration := token + 1,
                  sy_registrations := sy_registrations sys @
                    [\<lparr>pr_token = token, pr_owner = owner, pr_target = target, pr_descriptor = descriptor\<rparr>]\<rparr>))"

definition unregister_prefab ::
  "registration_token \<Rightarrow> ('x, 'v, 'cfg, 'b) system_component \<Rightarrow> ('x, 'v, 'cfg, 'b) system_component" where
  "unregister_prefab token sys = sys\<lparr>sy_registrations := filter (\<lambda>r. pr_token r \<noteq> token) (sy_registrations sys)\<rparr>"

definition default_scenes :: "registered_scene_entity list \<Rightarrow> entity_id list" where
  "default_scenes entities = map rse_entity (filter rse_default entities)"

text \<open>The canonical order of the registrations: by the number of the owner, then by key.\<close>

definition registration_key :: "pending_registration \<Rightarrow> u64 \<times> name" where
  "registration_key r = ((case pr_owner r of None \<Rightarrow> 4294967295 | Some e \<Rightarrow> e), prd_key (pr_descriptor r))"

definition targets_scene :: "entity_id list \<Rightarrow> entity_id \<Rightarrow> pending_registration \<Rightarrow> bool" where
  "targets_scene defaults scene r \<longleftrightarrow>
     (if pr_target r = None then length defaults = 1 \<and> hd defaults = scene else pr_target r = scene)"

definition resolve_step ::
  "entity_id list \<Rightarrow> entity_id \<Rightarrow> pending_registration \<Rightarrow> resolved_registration list \<times> u64 \<Rightarrow>
   resolved_registration list \<times> u64" where
  "resolve_step defaults scene r = (\<lambda>(resolved, next_partition).
     if targets_scene defaults scene r
     then (resolved @ [\<lparr>rr_token = pr_token r, rr_owner = pr_owner r, rr_partition = next_partition,
                        rr_descriptor = pr_descriptor r\<rparr>], next_partition + 1)
     else (resolved, next_partition))"

definition failure_code :: "entity_id list \<Rightarrow> registered_scene_entity list \<Rightarrow> pending_registration \<Rightarrow> result_code" where
  "failure_code defaults entities r =
     (let uses_default = pr_target r = None;
          explicit_target_exists = \<not> uses_default \<and> (\<exists>e \<in> set entities. rse_entity e = pr_target r)
      in if uses_default \<and> defaults = [] then rc_missing_default_scene
         else if uses_default \<and> length defaults \<noteq> 1 then rc_duplicate_default_scene
         else if \<not> uses_default \<and> \<not> explicit_target_exists then rc_scene_not_found
         else rc_success)"

definition registration_failure :: "result_code \<Rightarrow> pending_registration \<Rightarrow> 'x notification" where
  "registration_failure code r =
     Registration_failed (pr_owner r) (pr_token r)
       \<lparr>f_code = code, f_registration_key = prd_key (pr_descriptor r), f_asset_id = prd_prefab (pr_descriptor r),
        f_node_id = []\<rparr>"

definition on_root_spawnable_ready ::
  "('x, 'v, 'cfg, 'b) system_component \<Rightarrow> 'x notification list \<times> ('x, 'v, 'cfg, 'b) system_component" where
  "on_root_spawnable_ready sys =
     (if sy_collection_closed sys then ([], sys)
      else let defaults = default_scenes (sy_entities sys);
               sorted_registrations = sort_key registration_key (sy_registrations sys)
           in (map (\<lambda>e. Begin_build (rse_entity e)
                       (fst (fold (resolve_step defaults (rse_entity e)) sorted_registrations ([], 1)))) (sy_entities sys) @
               concat (map (\<lambda>r. let code = failure_code defaults (sy_entities sys) r
                                 in if code \<noteq> rc_success then [registration_failure code r] else []) sorted_registrations),
               sys\<lparr>sy_collection_closed := True\<rparr>))"

definition on_game_entities_reset :: "('x, 'v, 'cfg, 'b) system_component \<Rightarrow> ('x, 'v, 'cfg, 'b) system_component" where
  "on_game_entities_reset sys = sys\<lparr>sy_collection_closed := False, sy_entities := [], sy_registrations := []\<rparr>"

subsection \<open>Controllers\<close>

definition register_controller_factory ::
  "'b controller_factory option \<Rightarrow> ('x, 'v, 'cfg, 'b) system_component \<Rightarrow>
   factory_result \<times> ('x, 'v, 'cfg, 'b) system_component" where
  "register_controller_factory factory sys =
     (case factory of
        None \<Rightarrow> (\<lparr>fr_code = cr_invalid_configuration, fr_token = no_factory_token\<rparr>, sys)
      | Some f \<Rightarrow>
          if cf_type_id f = 0 then (\<lparr>fr_code = cr_invalid_configuration, fr_token = no_factory_token\<rparr>, sys)
          else if \<exists>e \<in> set (sy_factories sys). ft_type_id (rf_token e) = cf_type_id f
          then (\<lparr>fr_code = cr_factory_already_registered, fr_token = no_factory_token\<rparr>, sys)
          else let generation = sy_next_factory_generation sys + 1;
                   generation = (if generation = 0 then generation + 1 else generation);
                   token = \<lparr>ft_type_id = cf_type_id f, ft_generation = generation\<rparr>
               in (\<lparr>fr_code = cr_success, fr_token = token\<rparr>,
                   sys\<lparr>sy_next_factory_generation := generation,
                      sy_factories := sy_factories sys @ [\<lparr>rf_token = token, rf_factory = f\<rparr>]\<rparr>))"

definition unregister_controller_factory ::
  "factory_token \<Rightarrow> ('x, 'v, 'cfg, 'b) system_component \<Rightarrow> controller_result \<times> ('x, 'v, 'cfg, 'b) system_component" where
  "unregister_controller_factory token sys =
     (case find_index (\<lambda>e. rf_token e = token) (sy_factories sys) of
        None \<Rightarrow> (cr_stale_handle, sys)
      | Some found \<Rightarrow>
          if \<not> factory_token_valid token then (cr_stale_handle, sys)
          else if \<exists>(id, entry) \<in> set (sy_scenes sys).
                    (case se_instance entry of None \<Rightarrow> False
                     | Some si \<Rightarrow> has_controller_type (ft_type_id token) (si_controllers si))
          then (cr_factory_in_use, sys)
          else (cr_success, sys\<lparr>sy_factories := take found (sy_factories sys) @ drop (Suc found) (sy_factories sys)\<rparr>))"

definition system_find_controller ::
  "instance_handle \<Rightarrow> name \<Rightarrow> ('x, 'v, 'cfg, 'b) system_component \<Rightarrow> lookup_result" where
  "system_find_controller inst declaration_id sys =
     (case find_scene sys (ph_scene (sh_spawner (ih_slot inst))) of
        Some si \<Rightarrow> find_controller inst declaration_id (si_controllers si)
      | None \<Rightarrow> \<lparr>lr_code = cr_stale_handle, lr_handle = no_controller\<rparr>)"

definition system_submit_input ::
  "('x, 'v, 'q, 'f, 'cfg, 'inp, 'b, 't, 'm, 'z) host \<Rightarrow> controller_handle \<Rightarrow> 'inp \<Rightarrow>
   ('x, 'v, 'cfg, 'b) system_component \<Rightarrow> controller_result \<times> ('x, 'v, 'cfg, 'b) system_component" where
  "system_submit_input h controller inp sys =
     (let scene = ph_scene (sh_spawner (ih_slot (ch_instance controller)))
      in case find_scene sys scene of
           None \<Rightarrow> (cr_stale_handle, sys)
         | Some si \<Rightarrow>
             (case submit_controller_input (h_math h) (h_methods h) controller inp si of
                (result, si) \<Rightarrow>
                  (let sys = set_instance scene si sys
                   in (result, if result = cr_success then refresh_tick h sys else sys))))"

definition submit_attach_controllers ::
  "('x, 'v, 'q, 'f, 'cfg, 'inp, 'b, 't, 'm, 'z) host \<Rightarrow> instance_handle \<Rightarrow> 'cfg controller_declaration list \<Rightarrow>
   entity_id \<Rightarrow> ('x, 'v, 'cfg, 'b) system_component \<Rightarrow> scene_command_submission \<times> ('x, 'v, 'cfg, 'b) system_component" where
  "submit_attach_controllers h inst declarations completion sys =
     (if \<not> instance_valid inst \<or> \<not> accepts_commands sys (ph_scene (sh_spawner (ih_slot inst)))
      then (refuse rc_scene_not_found, sys)
      else submit h (\<lambda>id. Attach_controllers_command inst declarations id completion) sys)"

definition submit_detach_controllers ::
  "('x, 'v, 'q, 'f, 'cfg, 'inp, 'b, 't, 'm, 'z) host \<Rightarrow> instance_handle \<Rightarrow> entity_id \<Rightarrow>
   ('x, 'v, 'cfg, 'b) system_component \<Rightarrow> scene_command_submission \<times> ('x, 'v, 'cfg, 'b) system_component" where
  "submit_detach_controllers h inst completion sys =
     (let scene = ph_scene (sh_spawner (ih_slot inst))
      in case find_scene sys scene of
           None \<Rightarrow> (refuse rc_scene_not_found, sys)
         | Some si \<Rightarrow>
             if \<not> instance_valid inst then (refuse rc_scene_not_found, sys)
             else (case close_controller_input (h_methods h) inst si of
                     (closed, si) \<Rightarrow>
                       (let sys = set_instance scene si sys
                        in if closed \<noteq> cr_success then (refuse (map_system_result closed), sys)
                           else submit h (\<lambda>id. Detach_controllers_command inst id completion) sys)))"

definition system_close_input ::
  "('x, 'v, 'q, 'f, 'cfg, 'inp, 'b, 't, 'm, 'z) host \<Rightarrow> instance_handle \<Rightarrow>
   ('x, 'v, 'cfg, 'b) system_component \<Rightarrow> controller_result \<times> ('x, 'v, 'cfg, 'b) system_component" where
  "system_close_input h inst sys =
     (let scene = ph_scene (sh_spawner (ih_slot inst))
      in case find_scene sys scene of
           None \<Rightarrow> (cr_stale_handle, sys)
         | Some si \<Rightarrow>
             (case close_controller_input (h_methods h) inst si of
                (result, si) \<Rightarrow> (result, set_instance scene si sys)))"

definition destroy_controllers_immediately ::
  "('x, 'v, 'q, 'f, 'cfg, 'inp, 'b, 't, 'm, 'z) host \<Rightarrow> instance_handle \<Rightarrow>
   ('x, 'v, 'cfg, 'b) system_component \<Rightarrow> controller_result \<times> ('x, 'v, 'cfg, 'b) system_component" where
  "destroy_controllers_immediately h inst sys =
     (let scene = ph_scene (sh_spawner (ih_slot inst))
      in case find_scene sys scene of
           None \<Rightarrow> (cr_stale_handle, refresh_tick h sys)
         | Some si \<Rightarrow>
             (case detach_controllers (h_methods h) inst si of
                (result, si) \<Rightarrow> (result, refresh_tick h (set_instance scene si sys))))"

subsection \<open>Processing\<close>

definition complete ::
  "scene_command_id \<Rightarrow> entity_id \<Rightarrow> scene_command_type \<Rightarrow> result_code \<Rightarrow> 'x notification list" where
  "complete command entity type result =
     (if command \<noteq> 0 \<and> entity \<noteq> None then [Command_completed entity command type result] else [])"

text \<open>A command on the slot of a scene: the scene must be alive, or the command fails.\<close>

definition process_on ::
  "scene_handle \<Rightarrow> (('x, 'v, 'b) scene_instance \<Rightarrow> result_code \<times> ('x, 'v, 'b) scene_instance) \<Rightarrow>
   scene_command_id \<Rightarrow> entity_id \<Rightarrow> scene_command_type \<Rightarrow> ('x, 'v, 'cfg, 'b) system_component \<Rightarrow>
   'x notification list \<times> ('x, 'v, 'cfg, 'b) system_component" where
  "process_on scene f command entity type sys =
     (case find_scene sys scene of
        None \<Rightarrow> (complete command entity type rc_scene_not_found, sys)
      | Some si \<Rightarrow> (case f si of (result, si) \<Rightarrow> (complete command entity type result, set_instance scene si sys)))"

definition process_create ::
  "('x, 'v, 'q, 'f, 'cfg, 'inp, 'b, 't, 'm, 'z) host \<Rightarrow> scene_handle \<Rightarrow> 'x scene_descriptor \<Rightarrow>
   ('x, 'v, 'cfg, 'b) system_component \<Rightarrow> 'x notification list \<times> ('x, 'v, 'cfg, 'b) system_component" where
  "process_create h scene d sys =
     (case map_of (sy_scenes sys) scene of
        None \<Rightarrow> ([], sys)
      | Some entry \<Rightarrow>
          if se_life entry \<noteq> sl_pending then ([], sys)
          else (case create_scene (h_math h) (h_library h) d of
                  Some si \<Rightarrow>
                    ([Scene_ready scene],
                     sys\<lparr>sy_scenes := AList.update scene (entry\<lparr>se_instance := Some si, se_life := sl_alive\<rparr>) (sy_scenes sys)\<rparr>)
                | None \<Rightarrow>
                    ([Scene_failed scene (failure_of rc_construction_failed [])],
                     sys\<lparr>sy_scenes := AList.delete scene (sy_scenes sys)\<rparr>)))"

definition resolve_factory ::
  "('x, 'v, 'cfg, 'b) system_component \<Rightarrow> type_id \<Rightarrow> 'b controller_factory option" where
  "resolve_factory sys type_id =
     map_option rf_factory (find (\<lambda>e. ft_type_id (rf_token e) = type_id) (sy_factories sys))"

fun process ::
  "('x, 'v, 'q, 'f, 'cfg, 'inp, 'b, 't, 'm, 'z) host \<Rightarrow> ('x, 'cfg) scene_command \<Rightarrow>
   ('x, 'v, 'cfg, 'b) system_component \<Rightarrow> 'x notification list \<times> ('x, 'v, 'cfg, 'b) system_component" where
  "process h (Create_command scene d) sys = process_create h scene d sys"
| "process h (Destroy_command scene) sys = ([], sys\<lparr>sy_scenes := AList.delete scene (sy_scenes sys)\<rparr>)"
| "process h (Place_slot_command slot root_world cid entity) sys =
     process_on (ph_scene (sh_spawner slot)) (place_slot (h_math h) slot root_world) cid entity sct_place_slot sys"
| "process h (Bind_slot_command slot bindings cid entity) sys =
     process_on (ph_scene (sh_spawner slot)) (bind_slot (h_math h) slot bindings) cid entity sct_bind_slot sys"
| "process h (Unbind_slot_command slot cid entity) sys =
     process_on (ph_scene (sh_spawner slot)) (unbind_slot (h_math h) slot) cid entity sct_unbind_slot sys"
| "process h (Reset_slot_command slot cid entity) sys =
     process_on (ph_scene (sh_spawner slot)) (reset_slot (h_math h) slot) cid entity sct_reset_slot sys"
| "process h (Release_slot_command slot cid entity) sys =
     process_on (ph_scene (sh_spawner slot)) (release_slot (h_math h) slot) cid entity sct_release_slot sys"
| "process h (Attach_controllers_command inst declarations cid entity) sys =
     process_on (ph_scene (sh_spawner (ih_slot inst)))
       (attach_controllers (h_math h) (h_methods h) inst declarations (Some (resolve_factory sys)))
       cid entity sct_attach_controllers sys"
| "process h (Detach_controllers_command inst cid entity) sys =
     (let scene = ph_scene (sh_spawner (ih_slot inst))
      in case find_scene sys scene of
           None \<Rightarrow> (complete cid entity sct_detach_controllers (map_system_result cr_stale_handle), sys)
         | Some si \<Rightarrow>
             (case detach_controllers (h_methods h) inst si of
                (detached, si) \<Rightarrow>
                  (complete cid entity sct_detach_controllers (map_system_result detached), set_instance scene si sys)))"
| "process h (Active_command scene active) sys =
     (case find_scene sys scene of
        None \<Rightarrow> ([], sys)
      | Some si \<Rightarrow> ([], set_instance scene (set_scene_active active si) sys))"
| "process h (Correction_command c) sys =
     (let scene = ph_scene (sh_spawner (nh_slot (co_node c)))
      in case find_scene sys scene of
           None \<Rightarrow> ([], sys)
         | Some si \<Rightarrow>
             (case (case co_space c of
                      cs_local \<Rightarrow> correct_local (co_node c) (co_transform c) si
                    | cs_world \<Rightarrow> correct_world (h_math h) (co_node c) (co_transform c) si) of
                (accepted, si) \<Rightarrow> ([], set_instance scene si sys)))"

definition process_next ::
  "('x, 'v, 'q, 'f, 'cfg, 'inp, 'b, 't, 'm, 'z) host \<Rightarrow> ('x, 'cfg) scene_command \<Rightarrow>
   'x notification list \<times> ('x, 'v, 'cfg, 'b) system_component \<Rightarrow>
   'x notification list \<times> ('x, 'v, 'cfg, 'b) system_component" where
  "process_next h command = (\<lambda>(events, sys). case process h command sys of (more_events, sys) \<Rightarrow> (events @ more_events, sys))"

definition drain_commands ::
  "('x, 'v, 'q, 'f, 'cfg, 'inp, 'b, 't, 'm, 'z) host \<Rightarrow> ('x, 'v, 'cfg, 'b) system_component \<Rightarrow>
   'x notification list \<times> ('x, 'v, 'cfg, 'b) system_component" where
  "drain_commands h sys = fold (process_next h) (sy_commands sys) ([], sys\<lparr>sy_commands := []\<rparr>)"

definition advance_scene ::
  "('x, 'v, 'q, 'f, 'cfg, 'inp, 'b, 't, 'm, 'z) host \<Rightarrow> int \<Rightarrow> scene_handle \<Rightarrow>
   'x notification list \<times> ('x, 'v, 'cfg, 'b) system_component \<Rightarrow>
   'x notification list \<times> ('x, 'v, 'cfg, 'b) system_component" where
  "advance_scene h frame_delta scene = (\<lambda>(events, sys).
     case find_scene sys scene of
       None \<Rightarrow> (events, sys)
     | Some si \<Rightarrow>
         (case advance (h_math h) (h_methods h) frame_delta si of
            (writes, si) \<Rightarrow>
              (events @ map (\<lambda>(entity, world). Set_entity_world entity world) writes, set_instance scene si sys)))"

text \<open>
  \<open>order\<close> is the order of the scenes in the unordered map. The handlers of the notifications of this tick do
  not call back; \<open>System_Handlers\<close> has the tick whose handlers do.
\<close>

definition on_tick ::
  "('x, 'v, 'q, 'f, 'cfg, 'inp, 'b, 't, 'm, 'z) host \<Rightarrow> int \<Rightarrow> scene_handle list \<Rightarrow>
   ('x, 'v, 'cfg, 'b) system_component \<Rightarrow> 'x notification list \<times> ('x, 'v, 'cfg, 'b) system_component" where
  "on_tick h frame_delta order sys =
     (case fold (advance_scene h frame_delta) order (drain_commands h sys) of
        (events, sys) \<Rightarrow> (events, refresh_tick h sys))"

subsection \<open>Runs\<close>

text \<open>The completions that are owed: a command with a valid id and a completion entity.\<close>

type_synonym completion = "scene_command_id \<times> entity_id \<times> scene_command_type"

definition owed :: "scene_command_id \<Rightarrow> entity_id \<Rightarrow> scene_command_type \<Rightarrow> completion list" where
  "owed command entity type = (if command \<noteq> 0 \<and> entity \<noteq> None then [(command, entity, type)] else [])"

fun command_owed :: "('x, 'cfg) scene_command \<Rightarrow> completion list" where
  "command_owed (Place_slot_command _ _ cid entity) = owed cid entity sct_place_slot"
| "command_owed (Bind_slot_command _ _ cid entity) = owed cid entity sct_bind_slot"
| "command_owed (Unbind_slot_command _ cid entity) = owed cid entity sct_unbind_slot"
| "command_owed (Reset_slot_command _ cid entity) = owed cid entity sct_reset_slot"
| "command_owed (Release_slot_command _ cid entity) = owed cid entity sct_release_slot"
| "command_owed (Attach_controllers_command _ _ cid entity) = owed cid entity sct_attach_controllers"
| "command_owed (Detach_controllers_command _ cid entity) = owed cid entity sct_detach_controllers"
| "command_owed _ = []"

definition queued :: "('x, 'v, 'cfg, 'b) system_component \<Rightarrow> completion list" where
  "queued sys = concat (map command_owed (sy_commands sys))"

fun event_completion :: "'x notification \<Rightarrow> completion list" where
  "event_completion (Command_completed entity cid type _) = [(cid, entity, type)]"
| "event_completion _ = []"

definition completions :: "'x notification list \<Rightarrow> completion list" where
  "completions events = concat (map event_completion events)"

text \<open>The completion a client may expect of a submission.\<close>

definition promised :: "scene_command_submission \<Rightarrow> entity_id \<Rightarrow> scene_command_type \<Rightarrow> completion list" where
  "promised s entity type = (if submission_accepted s then owed (scs_command s) entity type else [])"

text \<open>A call of a client, with the completions it promises and the notifications it sends.\<close>

inductive client_call ::
  "('x, 'v, 'q, 'f, 'cfg, 'inp, 'b, 't, 'm, 'z) host \<Rightarrow> ('x, 'v, 'cfg, 'b) system_component \<Rightarrow>
   completion list \<Rightarrow> 'x notification list \<Rightarrow> ('x, 'v, 'cfg, 'b) system_component \<Rightarrow> bool" for h where
  client_create: "request_create_scene h d sys = (handle, sys') \<Longrightarrow> client_call h sys [] [] sys'"
| client_destroy: "client_call h sys [] [] (destroy_scene h scene sys)"
| client_reserve: "system_reserve_slot spawner sys = (result, sys') \<Longrightarrow> client_call h sys [] [] sys'"
| client_place: "submit_place_slot h slot world entity sys = (s, sys') \<Longrightarrow>
    client_call h sys (promised s entity sct_place_slot) [] sys'"
| client_bind: "submit_bind_slot h slot bindings entity sys = (s, sys') \<Longrightarrow>
    client_call h sys (promised s entity sct_bind_slot) [] sys'"
| client_unbind: "submit_unbind_slot h slot entity sys = (s, sys') \<Longrightarrow>
    client_call h sys (promised s entity sct_unbind_slot) [] sys'"
| client_reset: "submit_reset_slot h slot entity sys = (s, sys') \<Longrightarrow>
    client_call h sys (promised s entity sct_reset_slot) [] sys'"
| client_release: "submit_release_slot h slot entity sys = (s, sys') \<Longrightarrow>
    client_call h sys (promised s entity sct_release_slot) [] sys'"
| client_attach: "submit_attach_controllers h inst declarations entity sys = (s, sys') \<Longrightarrow>
    client_call h sys (promised s entity sct_attach_controllers) [] sys'"
| client_detach: "submit_detach_controllers h inst entity sys = (s, sys') \<Longrightarrow>
    client_call h sys (promised s entity sct_detach_controllers) [] sys'"
| client_active: "submit_scene_active h scene active sys = (accepted, sys') \<Longrightarrow> client_call h sys [] [] sys'"
| client_correct: "request_correction h correction sys = (accepted, sys') \<Longrightarrow> client_call h sys [] [] sys'"
| client_register_entity: "register_scene_entity entity is_default sys = (code, sys') \<Longrightarrow> client_call h sys [] [] sys'"
| client_unregister_entity: "client_call h sys [] [] (unregister_scene_entity entity sys)"
| client_register_prefab: "register_prefab owner target descriptor sys = (r, sys') \<Longrightarrow> client_call h sys [] [] sys'"
| client_unregister_prefab: "client_call h sys [] [] (unregister_prefab token sys)"
| client_ready: "on_root_spawnable_ready sys = (events, sys') \<Longrightarrow> client_call h sys [] events sys'"
| client_game_reset: "client_call h sys [] [] (on_game_entities_reset sys)"
| client_register_factory: "register_controller_factory factory sys = (f, sys') \<Longrightarrow> client_call h sys [] [] sys'"
| client_unregister_factory: "unregister_controller_factory ftoken sys = (code, sys') \<Longrightarrow> client_call h sys [] [] sys'"
| client_input: "system_submit_input h controller inp sys = (code, sys') \<Longrightarrow> client_call h sys [] [] sys'"
| client_close: "system_close_input h inst sys = (code, sys') \<Longrightarrow> client_call h sys [] [] sys'"
| client_destroy_controllers: "destroy_controllers_immediately h inst sys = (code, sys') \<Longrightarrow> client_call h sys [] [] sys'"

text \<open>The component is called by its clients and by the tick.\<close>

inductive system_call ::
  "('x, 'v, 'q, 'f, 'cfg, 'inp, 'b, 't, 'm, 'z) host \<Rightarrow> ('x, 'v, 'cfg, 'b) system_component \<Rightarrow>
   completion list \<Rightarrow> 'x notification list \<Rightarrow> ('x, 'v, 'cfg, 'b) system_component \<Rightarrow> bool" for h where
  call_client: "client_call h sys promises events sys' \<Longrightarrow> system_call h sys promises events sys'"
| call_tick: "on_tick h frame_delta order sys = (events, sys') \<Longrightarrow> distinct order \<Longrightarrow>
    set order = fst ` set (sy_scenes (snd (drain_commands h sys))) \<Longrightarrow> system_call h sys [] events sys'"

lemmas call_create = client_create [THEN call_client]
lemmas call_reserve = client_reserve [THEN call_client]
lemmas call_place = client_place [THEN call_client]
lemmas call_bind = client_bind [THEN call_client]
lemmas call_unbind = client_unbind [THEN call_client]
lemmas call_reset = client_reset [THEN call_client]
lemmas call_release = client_release [THEN call_client]
lemmas call_attach = client_attach [THEN call_client]
lemmas call_detach = client_detach [THEN call_client]
lemmas call_register_entity = client_register_entity [THEN call_client]
lemmas call_unregister_entity = client_unregister_entity [THEN call_client]
lemmas call_register_prefab = client_register_prefab [THEN call_client]
lemmas call_unregister_prefab = client_unregister_prefab [THEN call_client]
lemmas call_ready = client_ready [THEN call_client]
lemmas call_game_reset = client_game_reset [THEN call_client]
lemmas call_destroy_controllers = client_destroy_controllers [THEN call_client]

text \<open>\<open>n\<close> calls since the component was activated.\<close>

inductive system_run ::
  "('x, 'v, 'q, 'f, 'cfg, 'inp, 'b, 't, 'm, 'z) host \<Rightarrow> nat \<Rightarrow> completion list \<Rightarrow> completion list \<Rightarrow>
   ('x, 'v, 'cfg, 'b) system_component \<Rightarrow> bool" for h where
  run_starts: "system_run h 0 [] [] new_system"
| run_calls: "system_run h n expected received sys \<Longrightarrow> system_call h sys promises events sys' \<Longrightarrow>
    system_run h (Suc n) (expected @ promises) (received @ completions events) sys'"

subsection \<open>What calls change\<close>

lemma refresh_tick_fields [simp]:
  "sy_commands (refresh_tick h sys) = sy_commands sys" "sy_scenes (refresh_tick h sys) = sy_scenes sys"
  "sy_next_command (refresh_tick h sys) = sy_next_command sys" "sy_next_scene (refresh_tick h sys) = sy_next_scene sys"
  "sy_entities (refresh_tick h sys) = sy_entities sys" "sy_registrations (refresh_tick h sys) = sy_registrations sys"
  "sy_factories (refresh_tick h sys) = sy_factories sys" "sy_collection_closed (refresh_tick h sys) = sy_collection_closed sys"
  "sy_tick_connected (refresh_tick h sys) = system_needs_tick h sys"
  "sy_next_registration (refresh_tick h sys) = sy_next_registration sys"
  by (auto simp: refresh_tick_def)

lemma system_needs_tick_refresh [simp]: "system_needs_tick h (refresh_tick h sys) = system_needs_tick h sys"
  by (simp add: system_needs_tick_def)

lemma set_instance_fields [simp]:
  "sy_commands (set_instance scene si sys) = sy_commands sys" "map fst (sy_scenes (set_instance scene si sys)) = map fst (sy_scenes sys)"
  "sy_next_command (set_instance scene si sys) = sy_next_command sys" "sy_next_scene (set_instance scene si sys) = sy_next_scene sys"
  "sy_tick_connected (set_instance scene si sys) = sy_tick_connected sys"
  "sy_entities (set_instance scene si sys) = sy_entities sys" "sy_registrations (set_instance scene si sys) = sy_registrations sys"
  "sy_collection_closed (set_instance scene si sys) = sy_collection_closed sys"
  "sy_next_registration (set_instance scene si sys) = sy_next_registration sys"
  by (simp_all add: set_instance_def comp_def case_prod_unfold)

lemma map_of_map_entry:
  "map_of (map (\<lambda>(k', entry). (k', if k' = scene then f entry else entry)) xs) k =
    map_option (\<lambda>entry. if k = scene then f entry else entry) (map_of xs k)"
  by (induction xs) auto

lemma map_of_set_instance:
  "map_of (sy_scenes (set_instance scene si sys)) k =
    map_option (\<lambda>entry. if k = scene then entry\<lparr>se_instance := Some si\<rparr> else entry) (map_of (sy_scenes sys) k)"
  by (simp add: set_instance_def map_of_map_entry)

lemma enqueue_fields [simp]:
  "sy_commands (enqueue h c sys) = sy_commands sys @ [c]" "sy_scenes (enqueue h c sys) = sy_scenes sys"
  "sy_next_command (enqueue h c sys) = sy_next_command sys" "sy_next_scene (enqueue h c sys) = sy_next_scene sys"
  "sy_tick_connected (enqueue h c sys) = True"
  "sy_entities (enqueue h c sys) = sy_entities sys" "sy_registrations (enqueue h c sys) = sy_registrations sys"
  "sy_collection_closed (enqueue h c sys) = sy_collection_closed sys"
  "sy_next_registration (enqueue h c sys) = sy_next_registration sys"
  by (simp_all add: enqueue_def system_needs_tick_def)

lemma completions_append [simp]: "completions (xs @ ys) = completions xs @ completions ys"
  by (simp add: completions_def)

lemma completions_nil [simp]: "completions [] = []"
  by (simp add: completions_def)

lemma completions_complete [simp]: "completions (complete command entity type result) = owed command entity type"
  by (simp add: complete_def owed_def completions_def)

text \<open>Processing sends exactly the completion the command owes, and does not touch the queue.\<close>

lemma process_completes:
  assumes "process h c sys = (events, sys')"
  shows "completions events = command_owed c \<and> sy_commands sys' = sy_commands sys \<and>
    sy_next_command sys' = sy_next_command sys \<and> sy_next_scene sys' = sy_next_scene sys \<and>
    sy_tick_connected sys' = sy_tick_connected sys"
  using assms
  by (cases c)
    (auto simp: process_on_def process_create_def Let_def completions_def [of "[_]"] split: option.splits prod.splits if_splits)

lemma process_next_step:
  "process h c s = (more_events, t) \<Longrightarrow> process_next h c (es, s) = (es @ more_events, t)"
  by (simp add: process_next_def)

lemma drain_completes:
  fixes sys :: "('x, 'v, 'cfg, 'b) system_component" and h :: "('x, 'v, 'q, 'f, 'cfg, 'inp, 'b, 't, 'm, 'z) host"
  assumes "drain_commands h sys = (events, sys')"
  shows "completions events = queued sys \<and> sy_commands sys' = [] \<and> sy_next_command sys' = sy_next_command sys \<and>
    sy_next_scene sys' = sy_next_scene sys"
proof -
  have "fold (process_next h) cs (es, s) = (es', s') \<Longrightarrow> completions es' = completions es @ concat (map command_owed cs) \<and>
      sy_commands s' = sy_commands s \<and> sy_next_command s' = sy_next_command s \<and> sy_next_scene s' = sy_next_scene s"
    for cs es es' and s s' :: "('x, 'v, 'cfg, 'b) system_component"
  proof (induction cs arbitrary: es s)
    case (Cons c cs)
    obtain more_events t where t: "process h c s = (more_events, t)" by fastforce
    with Cons.prems have "fold (process_next h) cs (es @ more_events, t) = (es', s')" by (simp add: process_next_step)
    from Cons.IH [OF this] process_completes [OF t] show ?case by simp
  qed simp
  from this [OF assms [unfolded drain_commands_def]] show ?thesis by (simp add: queued_def)
qed

lemma advance_scenes_complete:
  fixes s :: "('x, 'v, 'cfg, 'b) system_component" and h :: "('x, 'v, 'q, 'f, 'cfg, 'inp, 'b, 't, 'm, 'z) host"
  assumes "fold (advance_scene h frame_delta) order (es, s) = (es', s')"
  shows "completions es' = completions es \<and> sy_commands s' = sy_commands s \<and> sy_next_command s' = sy_next_command s \<and>
    sy_next_scene s' = sy_next_scene s"
  using assms
proof (induction order arbitrary: es s)
  case (Cons k order)
  obtain es1 s1 where s1: "advance_scene h frame_delta k (es, s) = (es1, s1)" by fastforce
  have "completions (map (\<lambda>(entity, world). Set_entity_world entity world) writes) = []" for writes :: "(entity_id \<times> 'x) list"
    by (simp add: completions_def comp_def case_prod_unfold)
  with s1 have "completions es1 = completions es \<and> sy_commands s1 = sy_commands s \<and> sy_next_command s1 = sy_next_command s \<and>
      sy_next_scene s1 = sy_next_scene s"
    by (auto simp: advance_scene_def split: option.splits prod.splits)
  with Cons.IH [of es1 s1] Cons.prems s1 show ?case by simp
qed simp

lemma tick_completes:
  assumes "on_tick h frame_delta order sys = (events, sys')"
  shows "completions events = queued sys \<and> sy_commands sys' = [] \<and> sy_next_command sys' = sy_next_command sys \<and>
    sy_next_scene sys' = sy_next_scene sys \<and> sy_tick_connected sys' = system_needs_tick h sys'"
proof -
  obtain es s where s: "drain_commands h sys = (es, s)" by fastforce
  obtain es' s' where s': "fold (advance_scene h frame_delta) order (es, s) = (es', s')" by fastforce
  from assms drain_completes [OF s] advance_scenes_complete [OF s'] show ?thesis by (auto simp: on_tick_def s s')
qed

text \<open>Every other call at most appends to the queue what it promises.\<close>

lemma submit_queues:
  assumes "submit h command sys = (s, sys')" and "\<And>cid. command_owed (command cid) = owed cid entity type"
  shows "queued sys' = queued sys @ promised s entity type" "sy_tick_connected sys'"
    "sy_next_command sys' = sy_next_command sys + 1" "scs_command s = sy_next_command sys"
  using assms by (auto simp: submit_def Let_def queued_def promised_def submission_accepted_def owed_def)

text \<open>What a call promises is what it appends to the queue; what a tick sends is what was queued.\<close>

lemma completions_begin_builds: "completions (map (\<lambda>e. Begin_build (f e) (g e)) es) = []"
  by (induction es) (simp_all add: completions_def)

lemma completions_failures: "completions (concat (map (\<lambda>r. if p r then [registration_failure (k r) r] else []) rs)) = []"
  by (induction rs) (auto simp: completions_def registration_failure_def)

lemmas submissions = submit_place_slot_def submit_bind_slot_def submit_unbind_slot_def submit_reset_slot_def
  submit_release_slot_def submit_attach_controllers_def submit_detach_controllers_def

lemmas requests = request_create_scene_def destroy_scene_def system_reserve_slot_def submit_scene_active_def
  request_correction_def register_scene_entity_def unregister_scene_entity_def register_prefab_def unregister_prefab_def
  on_game_entities_reset_def register_controller_factory_def unregister_controller_factory_def system_submit_input_def
  system_close_input_def destroy_controllers_immediately_def

lemma refused_promises_nothing [simp]: "promised (refuse code) entity type = []"
  by (simp add: promised_def refuse_def submission_accepted_def)

lemma queued_of_commands: "sy_commands sys' = sy_commands sys \<Longrightarrow> queued sys' = queued sys"
  by (simp add: queued_def)

lemma queued_enqueue [simp]: "queued (enqueue h c sys) = queued sys @ command_owed c"
  by (simp add: queued_def)

lemma promised_singleton:
  "promised s entity type = [] \<or> promised s entity type = [(scs_command s, entity, type)]"
  by (simp add: promised_def owed_def)

lemma client_owes:
  assumes "client_call h sys promises events sys'"
  shows "queued sys' = queued sys @ promises \<and> completions events = []"
  using assms
proof cases
  case client_ready
  then show ?thesis
    by (auto simp: on_root_spawnable_ready_def Let_def completions_begin_builds completions_failures queued_def split: if_splits)
qed (auto simp: submissions requests Let_def submit_def promised_def owed_def submission_accepted_def queued_def refuse_def
    split: if_splits option.splits prod.splits)

lemma call_owes:
  assumes "system_call h sys promises events sys'"
  shows "queued sys @ promises = completions events @ queued sys'"
  using assms
proof cases
  case call_client
  with client_owes show ?thesis by fastforce
next
  case (call_tick frame_delta order)
  from tick_completes [OF call_tick(2)] call_tick(1) show ?thesis by (simp add: queued_def)
qed

text \<open>A call takes at most one command id, and promises a completion only under it.\<close>

lemma client_counts:
  assumes "client_call h sys promises events sys'"
  shows "promises = [] \<and> sy_next_command sys' \<in> {sy_next_command sys, sy_next_command sys + 1} \<or>
    (\<exists>entity type. promises = [(sy_next_command sys, entity, type)]) \<and> sy_next_command sys' = sy_next_command sys + 1"
  using assms
proof cases
  case client_ready
  then show ?thesis by (auto simp: on_root_spawnable_ready_def Let_def split: if_splits)
qed (use promised_singleton in \<open>auto simp: submissions requests Let_def submit_def promised_def owed_def submission_accepted_def refuse_def
    split: if_splits option.splits prod.splits\<close>)

lemma call_counts:
  assumes "system_call h sys promises events sys'"
  shows "promises = [] \<and> sy_next_command sys' \<in> {sy_next_command sys, sy_next_command sys + 1} \<or>
    (\<exists>entity type. promises = [(sy_next_command sys, entity, type)]) \<and> sy_next_command sys' = sy_next_command sys + 1"
  using assms
proof cases
  case (call_tick frame_delta order)
  from tick_completes [OF call_tick(2)] call_tick(1) show ?thesis by simp
qed (rule client_counts)

text \<open>The tick stays connected while commands wait.\<close>

lemma client_keeps_tick:
  assumes "client_call h sys promises events sys'" and "sy_commands sys \<noteq> [] \<longrightarrow> sy_tick_connected sys"
  shows "sy_commands sys' \<noteq> [] \<longrightarrow> sy_tick_connected sys'"
  using assms
proof cases
  case client_ready
  with assms(2) show ?thesis by (auto simp: on_root_spawnable_ready_def Let_def split: if_splits)
qed (auto simp: submissions requests Let_def submit_def system_needs_tick_def
    split: if_splits option.splits prod.splits)

lemma call_keeps_tick:
  assumes "system_call h sys promises events sys'" and "sy_commands sys \<noteq> [] \<longrightarrow> sy_tick_connected sys"
  shows "sy_commands sys' \<noteq> [] \<longrightarrow> sy_tick_connected sys'"
  using assms(1)
proof cases
  case call_client
  from client_keeps_tick [OF this assms(2)] show ?thesis .
next
  case (call_tick frame_delta order)
  from tick_completes [OF call_tick(2)] show ?thesis by simp
qed

definition ids_below :: "nat \<Rightarrow> completion list \<Rightarrow> bool" where
  "ids_below n cs \<longleftrightarrow> sorted_wrt (<) (map fst cs) \<and> (\<forall>c \<in> set cs. fst c \<noteq> 0 \<and> unat (fst c) < n)"

lemma run_ids:
  assumes "system_run h n expected received sys" and "n < 2 ^ 64 - 1"
  shows "sy_next_command sys \<noteq> 0 \<and> unat (sy_next_command sys) \<le> n + 1 \<and> ids_below (unat (sy_next_command sys)) expected"
  using assms
proof induction
  case run_starts
  show ?case by (simp add: new_system_def ids_below_def)
next
  case (run_calls n expected received sys promises events sys')
  from run_calls have IH: "sy_next_command sys \<noteq> 0" "unat (sy_next_command sys) \<le> n + 1"
      "ids_below (unat (sy_next_command sys)) expected"
    by simp_all
  let ?k = "sy_next_command sys"
  have "?k \<noteq> - 1" using IH(2) run_calls.prems max_u64_unat by fastforce
  then have step: "unat (?k + 1) = Suc (unat ?k)" by (simp add: unat_next)
  then have "?k + 1 \<noteq> 0" by auto
  have grow: "ids_below (Suc (unat ?k)) expected" "ids_below (Suc (unat ?k)) (expected @ [(?k, entity, type)])" for entity type
    using IH by (auto simp: ids_below_def sorted_wrt_append word_less_nat_alt)
  from call_counts [OF run_calls.hyps(2)] IH step \<open>?k + 1 \<noteq> 0\<close> grow show ?case by auto
qed

subsection \<open>The lives of scenes\<close>

text \<open>
  Between calls every entry can still be settled: a pending scene has its creation in the queue, one
  that is being destroyed its destruction, and an alive one has an instance.
\<close>

definition life_ok :: "('x, 'cfg) scene_command list \<Rightarrow> scene_handle \<Rightarrow> ('x, 'v, 'b) scene_entry \<Rightarrow> bool" where
  "life_ok cs k entry \<longleftrightarrow>
     (case se_life entry of
        sl_pending \<Rightarrow> \<exists>d. Create_command k d \<in> set cs
      | sl_alive \<Rightarrow> se_instance entry \<noteq> None
      | sl_destroying \<Rightarrow> Destroy_command k \<in> set cs)"

definition lives_ok :: "('x, 'cfg) scene_command list \<Rightarrow> (scene_handle \<times> ('x, 'v, 'b) scene_entry) list \<Rightarrow> bool" where
  "lives_ok cs scenes \<longleftrightarrow> distinct (map fst scenes) \<and> (\<forall>k. pred_option (life_ok cs k) (map_of scenes k))"

lemma lives_ok_entry: "lives_ok cs scenes \<Longrightarrow> map_of scenes k = Some entry \<Longrightarrow> life_ok cs k entry"
  unfolding lives_ok_def by (metis option.pred_inject(2))

lemma lives_okI:
  assumes "distinct (map fst scenes)" and "\<And>k entry. map_of scenes k = Some entry \<Longrightarrow> life_ok cs k entry"
  shows "lives_ok cs scenes"
  unfolding lives_ok_def
proof (intro conjI allI)
  show "pred_option (life_ok cs k) (map_of scenes k)" for k
    using assms(2) by (cases "map_of scenes k") simp_all
qed (rule assms(1))

lemma lives_ok_keys: "lives_ok cs scenes \<Longrightarrow> distinct (map fst scenes)"
  by (simp add: lives_ok_def)

text \<open>To keep the invariant, look at the entries of the new map one by one.\<close>

lemma lives_ok_step:
  assumes "lives_ok cs scenes" and "distinct (map fst scenes')"
    and "\<And>k. map_of scenes' k = map_of scenes k \<and> (\<forall>entry. map_of scenes k = Some entry \<longrightarrow> life_ok cs k entry \<longrightarrow> life_ok cs' k entry) \<or>
           map_of scenes' k = None \<or> (\<exists>entry. map_of scenes' k = Some entry \<and> life_ok cs' k entry)"
  shows "lives_ok cs' scenes'"
proof (rule lives_okI [OF assms(2)])
  fix k entry
  assume k: "map_of scenes' k = Some entry"
  from assms(3) [of k] show "life_ok cs' k entry"
  proof (elim disjE)
    assume "map_of scenes' k = map_of scenes k \<and> (\<forall>entry. map_of scenes k = Some entry \<longrightarrow> life_ok cs k entry \<longrightarrow> life_ok cs' k entry)"
    with k have "map_of scenes k = Some entry" by simp
    from lives_ok_entry [OF assms(1) this] \<open>_ \<and> _\<close> this show ?thesis by blast
  qed (use k in auto)
qed

lemma life_ok_mono: "life_ok cs k entry \<Longrightarrow> set cs \<subseteq> set cs' \<Longrightarrow> life_ok cs' k entry"
  by (auto simp: life_ok_def split: scene_life.splits)

lemma lives_ok_mono: "lives_ok cs scenes \<Longrightarrow> set cs \<subseteq> set cs' \<Longrightarrow> lives_ok cs' scenes"
  by (rule lives_ok_step [OF _ lives_ok_keys]) (auto intro: life_ok_mono)

lemma lives_ok_append: "lives_ok cs scenes \<Longrightarrow> lives_ok (cs @ more_cs) scenes"
  by (rule lives_ok_mono) auto

lemma lives_ok_update:
  assumes "lives_ok cs scenes" and "life_ok cs scene entry"
  shows "lives_ok cs (AList.update scene entry scenes)"
  by (rule lives_ok_step [OF assms(1) distinct_update [OF lives_ok_keys [OF assms(1)]]])
    (use assms(2) in \<open>auto simp: update_conv'\<close>)

lemma find_scene_Some:
  "find_scene sys scene = Some si \<longleftrightarrow>
    (\<exists>entry. map_of (sy_scenes sys) scene = Some entry \<and> se_life entry = sl_alive \<and> se_instance entry = Some si)"
  by (auto simp: find_scene_def split: option.splits)

lemma lives_ok_set_instance:
  assumes "lives_ok cs (sy_scenes sys)"
  shows "lives_ok cs (sy_scenes (set_instance scene si sys))"
proof (rule lives_ok_step [OF assms])
  show "distinct (map fst (sy_scenes (set_instance scene si sys)))" using lives_ok_keys [OF assms] by simp
  fix k
  show "map_of (sy_scenes (set_instance scene si sys)) k = map_of (sy_scenes sys) k \<and>
      (\<forall>entry. map_of (sy_scenes sys) k = Some entry \<longrightarrow> life_ok cs k entry \<longrightarrow> life_ok cs k entry) \<or>
    map_of (sy_scenes (set_instance scene si sys)) k = None \<or>
    (\<exists>entry. map_of (sy_scenes (set_instance scene si sys)) k = Some entry \<and> life_ok cs k entry)"
    using lives_ok_entry [OF assms, of k]
    by (cases "map_of (sy_scenes sys) k") (auto simp: map_of_set_instance life_ok_def split: scene_life.splits)
qed

text \<open>A command settles what it is about and leaves the others to the rest of the queue.\<close>

lemma life_ok_skip:
  assumes "life_ok (c # cs) k entry" and "\<And>d. c \<noteq> Create_command k d" and "c \<noteq> Destroy_command k"
  shows "life_ok cs k entry"
  using assms by (auto simp: life_ok_def split: scene_life.splits)

lemma lives_ok_skip:
  assumes "lives_ok (c # cs) scenes" and "\<And>k d. c \<noteq> Create_command k d" and "\<And>k. c \<noteq> Destroy_command k"
  shows "lives_ok cs scenes"
  by (rule lives_okI [OF lives_ok_keys [OF assms(1)]]) (rule life_ok_skip [OF lives_ok_entry [OF assms(1)] assms(2,3)])

lemma lives_ok_delete:
  assumes "lives_ok (c # cs) scenes" and "\<And>k d. k \<noteq> scene \<Longrightarrow> c \<noteq> Create_command k d \<and> c \<noteq> Destroy_command k"
  shows "lives_ok cs (AList.delete scene scenes)"
proof (rule lives_okI)
  show "distinct (map fst (AList.delete scene scenes))"
    using lives_ok_keys [OF assms(1)] by (rule distinct_delete)
  fix k entry
  assume k: "map_of (AList.delete scene scenes) k = Some entry"
  then have "k \<noteq> scene" by (auto simp: delete_conv')
  with k have "map_of scenes k = Some entry" by (simp add: delete_conv')
  from life_ok_skip [OF lives_ok_entry [OF assms(1) this]] assms(2) [OF \<open>k \<noteq> scene\<close>] show "life_ok cs k entry" by blast
qed

lemma life_ok_after_create:
  assumes "life_ok (Create_command scene d # cs) k entry" and "k \<noteq> scene \<or> se_life entry \<noteq> sl_pending"
  shows "life_ok cs k entry"
  using assms by (auto simp: life_ok_def split: scene_life.splits)

lemma process_create_lives:
  fixes h :: "('x, 'v, 'q, 'f, 'cfg, 'inp, 'b, 't, 'm, 'z) host"
  assumes "process_create h scene d sys = (events, sys')" and inv: "lives_ok (Create_command scene d # cs) (sy_scenes sys)"
  shows "lives_ok cs (sy_scenes sys')"
proof (cases "\<exists>entry. map_of (sy_scenes sys) scene = Some entry \<and> se_life entry = sl_pending")
  case False
  with assms(1) have "sys' = sys" by (auto simp: process_create_def split: option.splits if_splits)
  moreover have "lives_ok cs (sy_scenes sys)"
  proof (rule lives_okI [OF lives_ok_keys [OF inv]])
    fix k entry
    assume "map_of (sy_scenes sys) k = Some entry"
    with False lives_ok_entry [OF inv this] show "life_ok cs k entry" by (auto intro: life_ok_after_create)
  qed
  ultimately show ?thesis by simp
next
  case True
  then obtain entry where entry: "map_of (sy_scenes sys) scene = Some entry" "se_life entry = sl_pending" by blast
  have gone: "lives_ok cs (AList.delete scene (sy_scenes sys))" by (rule lives_ok_delete [OF inv]) simp
  show ?thesis
  proof (cases "create_scene (h_math h) (h_library h) d :: ('x, 'v, 'b) scene_instance option")
    case None
    with assms(1) entry gone show ?thesis by (auto simp: process_create_def)
  next
    case (Some si)
    let ?entry = "entry\<lparr>se_instance := Some si, se_life := sl_alive\<rparr>"
    have "lives_ok cs (AList.update scene ?entry (sy_scenes sys))"
    proof (rule lives_okI [OF distinct_update [OF lives_ok_keys [OF inv]]])
      fix k e
      assume "map_of (AList.update scene ?entry (sy_scenes sys)) k = Some e"
      then show "life_ok cs k e"
        using lives_ok_entry [OF inv, of k e] life_ok_after_create [of scene d cs k e]
        by (cases "k = scene") (auto simp: update_conv' life_ok_def [of _ _ ?entry])
    qed
    with assms(1) entry Some show ?thesis by (auto simp: process_create_def)
  qed
qed

text \<open>Only creation and destruction touch more than the instance of one scene.\<close>

lemma process_other:
  assumes "process h c sys = (events, sys')" and "\<nexists>k d. c = Create_command k d" and "\<nexists>k. c = Destroy_command k"
  shows "sys' = sys \<or> (\<exists>scene si. sys' = set_instance scene si sys)"
  using assms by (cases c) (auto simp: process_on_def Let_def split: option.splits prod.splits)

lemma process_lives:
  assumes "process h c sys = (events, sys')" and inv: "lives_ok (c # cs) (sy_scenes sys)"
  shows "lives_ok cs (sy_scenes sys')"
proof (cases "(\<exists>k d. c = Create_command k d) \<or> (\<exists>k. c = Destroy_command k)")
  case True
  then show ?thesis
    using assms process_create_lives lives_ok_delete [OF inv] by fastforce
next
  case False
  then have "lives_ok cs (sy_scenes sys)" by (intro lives_ok_skip [OF inv]) auto
  with process_other [OF assms(1)] False show ?thesis by (auto intro: lives_ok_set_instance)
qed

lemma drain_lives:
  fixes h :: "('x, 'v, 'q, 'f, 'cfg, 'inp, 'b, 't, 'm, 'z) host"
  assumes "drain_commands h sys = (events, sys')" and "lives_ok (sy_commands sys) (sy_scenes sys)"
  shows "lives_ok ([] :: ('x, 'cfg) scene_command list) (sy_scenes sys')"
proof -
  have "fold (process_next h) cs (es, s) = (es', s') \<Longrightarrow> lives_ok cs (sy_scenes s) \<Longrightarrow>
      lives_ok ([] :: ('x, 'cfg) scene_command list) (sy_scenes s')"
    for cs es es' and s s' :: "('x, 'v, 'cfg, 'b) system_component"
  proof (induction cs arbitrary: es s)
    case (Cons c cs)
    obtain more_events t where t: "process h c s = (more_events, t)" by fastforce
    with Cons.prems have "fold (process_next h) cs (es @ more_events, t) = (es', s')" by (simp add: process_next_step)
    from Cons.IH [OF this process_lives [OF t Cons.prems(2)]] show ?case .
  qed simp
  from this [OF assms(1) [unfolded drain_commands_def]] assms(2) show ?thesis by simp
qed

text \<open>The frames of the scenes do not touch each other.\<close>

lemma advance_scene_step:
  assumes "advance_scene h frame_delta k (es, s) = (es', s')"
  shows "find_scene s' j =
      (if j = k then map_option (\<lambda>si. snd (advance (h_math h) (h_methods h) frame_delta si)) (find_scene s k) else find_scene s j)"
    and "lives_ok cs (sy_scenes s) \<Longrightarrow> lives_ok cs (sy_scenes s')" and "fst ` set (sy_scenes s') = fst ` set (sy_scenes s)"
proof -
  show "lives_ok cs (sy_scenes s) \<Longrightarrow> lives_ok cs (sy_scenes s')"
    using assms by (auto simp: advance_scene_def split: option.splits prod.splits intro: lives_ok_set_instance)
  have "map fst (sy_scenes s') = map fst (sy_scenes s)"
    using assms by (auto simp: advance_scene_def split: option.splits prod.splits)
  then show "fst ` set (sy_scenes s') = fst ` set (sy_scenes s)" by (metis set_map)
  show "find_scene s' j =
      (if j = k then map_option (\<lambda>si. snd (advance (h_math h) (h_methods h) frame_delta si)) (find_scene s k) else find_scene s j)"
    using assms
    by (auto simp: advance_scene_def find_scene_def map_of_set_instance split: option.splits prod.splits if_splits)
qed

lemma advance_scenes_each:
  fixes h :: "('x, 'v, 'q, 'f, 'cfg, 'inp, 'b, 't, 'm, 'z) host" and cs :: "('x, 'cfg) scene_command list"
  assumes "fold (advance_scene h frame_delta) order (es, s) = (es', s')" and "distinct order"
  shows "find_scene s' k =
      (if k \<in> set order then map_option (\<lambda>si. snd (advance (h_math h) (h_methods h) frame_delta si)) (find_scene s k)
       else find_scene s k) \<and>
    (lives_ok cs (sy_scenes s) \<longrightarrow> lives_ok cs (sy_scenes s')) \<and> fst ` set (sy_scenes s') = fst ` set (sy_scenes s)"
  using assms
proof (induction order arbitrary: es s)
  case (Cons j order)
  obtain es1 s1 where s1: "advance_scene h frame_delta j (es, s) = (es1, s1)" by fastforce
  from Cons.IH [of es1 s1] Cons.prems s1 advance_scene_step(1) [OF s1, of k] advance_scene_step(2,3) [OF s1]
  show ?case by auto
qed simp

text \<open>Processing adds no scene.\<close>

lemma process_keys:
  assumes "process h c sys = (events, sys')"
  shows "fst ` set (sy_scenes sys') \<subseteq> fst ` set (sy_scenes sys)"
proof -
  have create: "fst ` set (sy_scenes sys') \<subseteq> fst ` set (sy_scenes sys)" if p: "process_create h scene d sys = (events, sys')" for scene d
  proof (cases "map_of (sy_scenes sys) scene")
    case (Some entry)
    then have "scene \<in> fst ` set (sy_scenes sys)" by (metis map_of_eq_None_iff option.distinct(1))
    moreover have "fst ` set (AList.update scene e (sy_scenes sys)) = insert scene (fst ` set (sy_scenes sys))" for e
      by (simp add: dom_update)
    moreover from Some p have "sy_scenes sys' = sy_scenes sys \<or> sy_scenes sys' = AList.delete scene (sy_scenes sys) \<or>
        (\<exists>e. sy_scenes sys' = AList.update scene e (sy_scenes sys))"
      by (auto simp: process_create_def split: option.splits if_splits)
    ultimately show ?thesis
      using dom_delete_subset [of scene "sy_scenes sys"] by (elim disjE exE) (simp_all add: insert_absorb)
  qed (use p in \<open>auto simp: process_create_def\<close>)
  show ?thesis
  proof (cases "(\<exists>k d. c = Create_command k d) \<or> (\<exists>k. c = Destroy_command k)")
    case True
    then show ?thesis
    proof (elim disjE exE)
      fix k
      assume "c = Destroy_command k"
      with assms have "sy_scenes sys' = AList.delete k (sy_scenes sys)" by auto
      then show ?thesis by (simp only: dom_delete_subset)
    qed (use assms create in simp)
  next
    case False
    with process_other [OF assms] have "map fst (sy_scenes sys') = map fst (sy_scenes sys)" by auto
    then show ?thesis by (metis order.refl set_map)
  qed
qed

lemma drain_keys:
  fixes h :: "('x, 'v, 'q, 'f, 'cfg, 'inp, 'b, 't, 'm, 'z) host"
  assumes "drain_commands h sys = (events, sys')"
  shows "fst ` set (sy_scenes sys') \<subseteq> fst ` set (sy_scenes sys)"
proof -
  have "fold (process_next h) cs (es, s) = (es', s') \<Longrightarrow> fst ` set (sy_scenes s') \<subseteq> fst ` set (sy_scenes s)"
    for cs es es' and s s' :: "('x, 'v, 'cfg, 'b) system_component"
  proof (induction cs arbitrary: es s)
    case (Cons c cs)
    obtain more_events t where t: "process h c s = (more_events, t)" by fastforce
    with Cons.prems have "fold (process_next h) cs (es @ more_events, t) = (es', s')" by (simp add: process_next_step)
    from Cons.IH [OF this] process_keys [OF t] show ?case by (rule order.trans)
  qed simp
  from this [OF assms(1) [unfolded drain_commands_def]] show ?thesis by simp
qed

lemma tick_lives:
  fixes h :: "('x, 'v, 'q, 'f, 'cfg, 'inp, 'b, 't, 'm, 'z) host"
  assumes "on_tick h frame_delta order sys = (events, sys')" and "distinct order"
    and "lives_ok (sy_commands sys) (sy_scenes sys)"
  shows "lives_ok ([] :: ('x, 'cfg) scene_command list) (sy_scenes sys')"
    and "fst ` set (sy_scenes sys') \<subseteq> fst ` set (sy_scenes sys)"
    and "find_scene sys' k =
      (if k \<in> set order then map_option (\<lambda>si. snd (advance (h_math h) (h_methods h) frame_delta si))
         (find_scene (snd (drain_commands h sys)) k)
       else find_scene (snd (drain_commands h sys)) k)"
proof -
  obtain es s where s: "drain_commands h sys = (es, s)" by fastforce
  obtain es' s' where s': "fold (advance_scene h frame_delta) order (es, s) = (es', s')" by fastforce
  from assms(1) have sys': "sys' = refresh_tick h s'" by (simp add: on_tick_def s s')
  note each = advance_scenes_each [OF s' assms(2)]
  from each drain_lives [OF s assms(3)] show "lives_ok ([] :: ('x, 'cfg) scene_command list) (sy_scenes sys')"
    by (simp add: sys')
  from each drain_keys [OF s] show "fst ` set (sy_scenes sys') \<subseteq> fst ` set (sy_scenes sys)" by (simp add: sys')
  have "find_scene sys' k = find_scene s' k" by (simp add: sys' find_scene_def)
  with each show "find_scene sys' k =
      (if k \<in> set order then map_option (\<lambda>si. snd (advance (h_math h) (h_methods h) frame_delta si))
         (find_scene (snd (drain_commands h sys)) k)
       else find_scene (snd (drain_commands h sys)) k)"
    by (simp add: s)
qed

text \<open>A request adds at most the scene with the next number, with its creation queued.\<close>

lemma create_lives:
  assumes "request_create_scene h d sys = (handle, sys')" and "lives_ok (sy_commands sys) (sy_scenes sys)"
    and "sy_next_scene sys \<notin> fst ` set (sy_scenes sys)"
  shows "lives_ok (sy_commands sys') (sy_scenes sys')"
proof (cases "sd_fixed_step d \<le> 0 \<or> sd_max_catch_up d = 0 \<or> (sd_permanent_nodes d = [] \<and> sd_partitions d = [])")
  case True
  with assms(1,2) show ?thesis by (simp add: request_create_scene_def)
next
  case False
  let ?k = "sy_next_scene sys"
  let ?cs = "sy_commands sys @ [Create_command ?k d]"
  let ?scenes = "sy_scenes sys @ [(?k, \<lparr>se_instance = None, se_life = sl_pending\<rparr>)]"
  from False assms(1,3) have "sy_commands sys' = ?cs" "sy_scenes sys' = ?scenes"
    by (auto simp: request_create_scene_def Let_def)
  moreover have "lives_ok ?cs ?scenes"
  proof (rule lives_okI)
    show "distinct (map fst ?scenes)" using lives_ok_keys [OF assms(2)] assms(3) by simp
    fix k entry
    assume "map_of ?scenes k = Some entry"
    then show "life_ok ?cs k entry"
      using lives_ok_entry [OF lives_ok_append [OF assms(2), where more_cs = "[Create_command ?k d]"], of k entry]
      by (auto simp: map_add_Some_iff life_ok_def split: if_splits scene_life.splits)
  qed
  ultimately show ?thesis by simp
qed

lemma destroy_lives:
  assumes "lives_ok (sy_commands sys) (sy_scenes sys)"
  shows "lives_ok (sy_commands (destroy_scene h scene sys)) (sy_scenes (destroy_scene h scene sys))"
  using assms lives_ok_update [OF lives_ok_append [OF assms, of "[Destroy_command scene]"], of scene]
  by (auto simp: destroy_scene_def life_ok_def split: option.splits)

lemma client_lives:
  fixes h :: "('x, 'v, 'q, 'f, 'cfg, 'inp, 'b, 't, 'm, 'z) host"
  assumes "client_call h sys promises events sys'" and inv: "lives_ok (sy_commands sys) (sy_scenes sys)"
    and new: "sy_next_scene sys \<notin> fst ` set (sy_scenes sys)"
  shows "lives_ok (sy_commands sys') (sy_scenes sys')"
  using assms(1)
proof cases
  case (client_create d handle)
  from create_lives [OF client_create(3) inv new] show ?thesis .
next
  case (client_destroy scene)
  with destroy_lives [OF inv] show ?thesis by simp
next
  case client_ready
  with inv show ?thesis by (auto simp: on_root_spawnable_ready_def Let_def split: if_splits)
qed (use inv in \<open>auto simp: submissions requests Let_def submit_def
    split: if_splits option.splits prod.splits intro: lives_ok_append [OF lives_ok_set_instance] lives_ok_append
      lives_ok_set_instance\<close>)

lemma call_lives:
  fixes h :: "('x, 'v, 'q, 'f, 'cfg, 'inp, 'b, 't, 'm, 'z) host"
  assumes "system_call h sys promises events sys'" and inv: "lives_ok (sy_commands sys) (sy_scenes sys)"
    and new: "sy_next_scene sys \<notin> fst ` set (sy_scenes sys)"
  shows "lives_ok (sy_commands sys') (sy_scenes sys')"
  using assms(1)
proof cases
  case call_client
  from client_lives [OF this inv new] show ?thesis .
next
  case (call_tick frame_delta order)
  from tick_lives(1) [OF call_tick(2,3) inv] tick_completes [OF call_tick(2)] show ?thesis by simp
qed

definition handles_below :: "u64 \<Rightarrow> ('x, 'v, 'cfg, 'b) system_component \<Rightarrow> bool" where
  "handles_below k sys \<longleftrightarrow> (\<forall>scene \<in> fst ` set (sy_scenes sys). scene \<noteq> 0 \<and> scene < k)"

lemma handles_below_keys:
  "handles_below k sys \<Longrightarrow> fst ` set (sy_scenes sys') \<subseteq> fst ` set (sy_scenes sys) \<Longrightarrow> handles_below k sys'"
  unfolding handles_below_def by blast

lemma set_instance_keys [simp]: "fst ` set (sy_scenes (set_instance scene si sys)) = fst ` set (sy_scenes sys)"
  by (metis set_instance_fields(2) set_map)

lemma handles_below_same [simp]:
  "handles_below k (enqueue h c sys) = handles_below k sys" "handles_below k (set_instance scene si sys) = handles_below k sys"
  "handles_below k (refresh_tick h sys) = handles_below k sys" "handles_below k (sys\<lparr>sy_next_command := i\<rparr>) = handles_below k sys"
  "handles_below k (sys\<lparr>sy_entities := es\<rparr>) = handles_below k sys"
  "handles_below k (sys\<lparr>sy_registrations := rs\<rparr>) = handles_below k sys"
  "handles_below k (sys\<lparr>sy_next_registration := t\<rparr>) = handles_below k sys"
  "handles_below k (sys\<lparr>sy_factories := fs\<rparr>) = handles_below k sys"
  "handles_below k (sys\<lparr>sy_next_factory_generation := g\<rparr>) = handles_below k sys"
  "handles_below k (sys\<lparr>sy_collection_closed := b\<rparr>) = handles_below k sys"
  by (simp_all add: handles_below_def ball_simps(9) [symmetric] del: ball_simps)

lemma client_handles:
  fixes h :: "('x, 'v, 'q, 'f, 'cfg, 'inp, 'b, 't, 'm, 'z) host"
  assumes "client_call h sys promises events sys'" and "lives_ok (sy_commands sys) (sy_scenes sys)"
    and "handles_below (sy_next_scene sys) sys" and "sy_next_scene sys \<noteq> 0" and "sy_next_scene sys \<noteq> - 1"
  shows "handles_below (sy_next_scene sys') sys' \<and> sy_next_scene sys' \<noteq> 0 \<and>
    unat (sy_next_scene sys') \<le> unat (sy_next_scene sys) + 1"
  using assms(1)
proof cases
  case (client_create d handle)
  show ?thesis
  proof (cases "sd_fixed_step d \<le> 0 \<or> sd_max_catch_up d = 0 \<or> (sd_permanent_nodes d = [] \<and> sd_partitions d = [])")
    case True
    with client_create assms(3,4) show ?thesis by (simp add: request_create_scene_def)
  next
    case False
    let ?k = "sy_next_scene sys"
    have k: "?k + 1 \<noteq> 0" "?k < ?k + 1" "unat (?k + 1) = unat ?k + 1" using assms(5) clock_simps
      by (auto simp: add_eq_0_iff2)
    from False client_create(3) have sys': "sy_next_scene sys' = ?k + 1"
        "fst ` set (sy_scenes sys') \<subseteq> insert ?k (fst ` set (sy_scenes sys))"
      by (auto simp: request_create_scene_def Let_def split: if_splits)
    have "scene \<noteq> 0 \<and> scene < ?k + 1" if "scene \<in> fst ` set (sy_scenes sys')" for scene
    proof -
      from that sys'(2) have "scene = ?k \<or> scene \<in> fst ` set (sy_scenes sys)" by blast
      with assms(3,4) k(2) show ?thesis by (auto simp: handles_below_def)
    qed
    with sys'(1) k show ?thesis by (simp add: handles_below_def)
  qed
next
  case (client_destroy scene)
  have "fst ` set (sy_scenes (destroy_scene h scene sys)) \<subseteq> fst ` set (sy_scenes sys)"
  proof (cases "map_of (sy_scenes sys) scene")
    case (Some entry)
    then have "scene \<in> fst ` set (sy_scenes sys)" by (metis map_of_eq_None_iff option.distinct(1))
    with Some show ?thesis by (simp add: destroy_scene_def dom_update)
  qed (simp add: destroy_scene_def)
  from handles_below_keys [OF assms(3) this] have "handles_below (sy_next_scene sys) sys'" by (simp add: client_destroy)
  moreover have "sy_next_scene sys' = sy_next_scene sys" by (simp add: client_destroy destroy_scene_def split: option.split)
  ultimately show ?thesis using assms(4) by simp
next
  case client_ready
  then have "sy_scenes sys' = sy_scenes sys" "sy_next_scene sys' = sy_next_scene sys"
    by (auto simp: on_root_spawnable_ready_def Let_def split: if_splits)
  with assms(3,4) show ?thesis by (simp add: handles_below_def)
qed (use assms(3,4) in \<open>auto simp: submissions requests Let_def submit_def
    split: if_splits option.splits prod.splits\<close>)

lemma call_handles:
  fixes h :: "('x, 'v, 'q, 'f, 'cfg, 'inp, 'b, 't, 'm, 'z) host"
  assumes "system_call h sys promises events sys'" and "lives_ok (sy_commands sys) (sy_scenes sys)"
    and "handles_below (sy_next_scene sys) sys" and "sy_next_scene sys \<noteq> 0" and "sy_next_scene sys \<noteq> - 1"
  shows "handles_below (sy_next_scene sys') sys' \<and> sy_next_scene sys' \<noteq> 0 \<and>
    unat (sy_next_scene sys') \<le> unat (sy_next_scene sys) + 1"
  using assms(1)
proof cases
  case call_client
  from client_handles [OF this assms(2-5)] show ?thesis .
next
  case (call_tick frame_delta order)
  from handles_below_keys [OF assms(3) tick_lives(2) [OF call_tick(2,3) assms(2)]] tick_completes [OF call_tick(2)] assms(4)
  show ?thesis by simp
qed

lemma run_lives:
  fixes h :: "('x, 'v, 'q, 'f, 'cfg, 'inp, 'b, 't, 'm, 'z) host"
  assumes "system_run h n expected received sys" and "n < 2 ^ 64 - 1"
  shows "lives_ok (sy_commands sys) (sy_scenes sys) \<and> handles_below (sy_next_scene sys) sys \<and> sy_next_scene sys \<noteq> 0 \<and>
    unat (sy_next_scene sys) \<le> n + 1"
  using assms
proof induction
  case run_starts
  show ?case by (simp add: new_system_def lives_ok_def handles_below_def)
next
  case (run_calls n expected received sys promises events sys')
  then have IH: "lives_ok (sy_commands sys) (sy_scenes sys)" "handles_below (sy_next_scene sys) sys"
      "sy_next_scene sys \<noteq> 0" "unat (sy_next_scene sys) \<le> n + 1"
    by simp_all
  then have max: "sy_next_scene sys \<noteq> - 1" using run_calls.prems max_u64_unat by fastforce
  have "sy_next_scene sys \<notin> fst ` set (sy_scenes sys)" using IH(2) unfolding handles_below_def by blast
  from call_handles [OF run_calls.hyps(2) IH(1-3) max] call_lives [OF run_calls.hyps(2) IH(1) this] IH(4)
  show ?case by simp
qed

subsection \<open>Work is noticed\<close>

text \<open>
  What the component relies on in a batch: closing input and refusing input start no controller. The
  virtual methods of batches are outside this repository.
\<close>

definition calm_batches :: "('x, 'v, 'q, 'f, 'cfg, 'inp, 'b, 't, 'm, 'z) host \<Rightarrow> bool" where
  "calm_batches h \<longleftrightarrow>
     (\<forall>batch state code batch'. bm_close_input (h_methods h) batch state = (code, batch') \<longrightarrow>
        bm_has_running_controllers (h_methods h) batch' \<longrightarrow> bm_has_running_controllers (h_methods h) batch) \<and>
     (\<forall>batch state inp epoch (si :: ('x, 'v, 'b) scene_instance) code batch' si'.
        run_sink (h_math h) epoch (bm_submit_input (h_methods h) batch state inp) si = ((code, batch'), si') \<longrightarrow>
        code \<noteq> cr_success \<longrightarrow>
        bm_has_running_controllers (h_methods h) batch' \<longrightarrow> bm_has_running_controllers (h_methods h) batch)"

lemma running_set_batch:
  assumes "has_running_controllers bm (set_batch b batch si)"
    and "bm_has_running_controllers bm batch \<Longrightarrow> bm_has_running_controllers bm (be_batch (si_batches si ! b))"
    and "b < length (si_batches si)"
  shows "has_running_controllers bm si"
proof -
  from assms(1) obtain i where i: "i < length (si_batches si)"
      "bm_has_running_controllers bm (be_batch ((si_batches si)[b := (si_batches si ! b)\<lparr>be_batch := batch\<rparr>] ! i))"
    by (auto simp: has_running_controllers_def set_batch_def in_set_conv_nth)
  then have "bm_has_running_controllers bm (be_batch (si_batches si ! i))"
    using assms(2,3) by (cases "i = b") auto
  with i(1) show ?thesis by (auto simp: has_running_controllers_def)
qed

text \<open>An operation that starts nothing: no new transform to evaluate, no motion, no controller.\<close>

definition starts_nothing ::
  "('x, 'v, 'cfg, 'inp, 'b) batch_methods \<Rightarrow> ('x, 'v, 'b) scene_instance \<Rightarrow> ('x, 'v, 'b) scene_instance \<Rightarrow> bool" where
  "starts_nothing bm si si' \<longleftrightarrow>
     si_active si' = si_active si \<and> si_motion si' = si_motion si \<and> si_state si' = si_state si \<and>
     (has_running_controllers bm si' \<longrightarrow> has_running_controllers bm si)"

lemma starts_nothing_trans: "starts_nothing bm a b \<Longrightarrow> starts_nothing bm b c \<Longrightarrow> starts_nothing bm a c"
  by (auto simp: starts_nothing_def)

lemma starts_nothing_refl [simp]: "starts_nothing bm a a"
  by (simp add: starts_nothing_def)

lemma starts_nothing_tick: "starts_nothing bm si si' \<Longrightarrow> needs_tick bm si' \<Longrightarrow> needs_tick bm si"
  by (auto simp: starts_nothing_def needs_tick_def)

lemma reserve_starts_nothing: "reserve_slot spawner si = (r, si') \<Longrightarrow> starts_nothing bm si si'"
  by (auto simp: reserve_slot_def starts_nothing_def has_running_controllers_def split: prod.splits)

lemma close_starts_nothing:
  assumes "calm_batches h" and "close_controller_input (h_methods h) inst si = (code, si')"
  shows "starts_nothing (h_methods h) si si'"
proof -
  have step: "starts_nothing (h_methods h) s s'" if "close_step (h_methods h) inst i (r, s) = (r', s')" for i r s r' s'
  proof (cases "find_batch (ch_type_id (cn_handle (si_controllers s ! i))) (si_batches s)")
    case (Some b)
    then have b: "b < length (si_batches s)" using find_batch_bound by blast
    obtain closed batch where c: "bm_close_input (h_methods h) (be_batch (si_batches s ! b)) (cn_batch_state (si_controllers s ! i)) = (closed, batch)"
      by fastforce
    have calm: "bm_has_running_controllers (h_methods h) batch \<Longrightarrow> bm_has_running_controllers (h_methods h) (be_batch (si_batches s ! b))"
      using assms(1) c unfolding calm_batches_def by blast
    have "starts_nothing (h_methods h) s (set_batch b batch s)"
      using running_set_batch [OF _ calm b] by (auto simp: starts_nothing_def set_batch_def)
    moreover have "has_running_controllers bm (x\<lparr>si_controllers := y\<rparr>) = has_running_controllers bm x" for bm x y
      by (simp add: has_running_controllers_def)
    ultimately show ?thesis
      using that Some c by (auto simp: close_step_def Let_def starts_nothing_def split: if_splits)
  qed (use that in \<open>auto simp: close_step_def Let_def split: if_splits\<close>)
  have "starts_nothing (h_methods h) s s'" if "fold (close_step (h_methods h) inst) is (r, s) = (r', s')" for "is" r s r' s'
    using that
  proof (induction "is" arbitrary: r s)
    case (Cons i "is")
    obtain r1 s1 where s1: "close_step (h_methods h) inst i (r, s) = (r1, s1)" by fastforce
    with Cons.prems have "fold (close_step (h_methods h) inst) is (r1, s1) = (r', s')" by simp
    from starts_nothing_trans [OF step [OF s1] Cons.IH [OF this]] show ?case .
  qed simp
  with assms(2) show ?thesis
    by (auto simp: close_controller_input_def split: if_splits prod.splits)
qed

lemma refusal_starts_nothing:
  assumes calm: "calm_batches h" and sub: "submit_controller_input (h_math h) (h_methods h) controller inp si = (code, si')"
    and "code \<noteq> cr_success"
  shows "starts_nothing (h_methods h) si si'"
proof -
  consider "si' = si" | b found where "find_batch (ch_type_id controller) (si_batches si) = Some b"
      "find (\<lambda>r. cn_handle r = controller) (si_controllers si) = Some found"
    using sub by (auto simp: submit_controller_input_def split: option.splits)
  then show ?thesis
  proof cases
    case 2
    then have b: "b < length (si_batches si)" using find_batch_bound by blast
    obtain result batch s where run: "run_sink (h_math h) (si_command_epoch (begin_commands si))
        (bm_submit_input (h_methods h) (be_batch (si_batches si ! b)) (cn_batch_state found) inp) (begin_commands si) =
        ((result, batch), s)"
      by (metis prod.collapse)
    with sub 2 assms(3) have eqs: "result = code" "si' = end_commands (h_math h) False (set_batch b batch s)"
      by (auto simp: submit_controller_input_def Let_def begin_commands_def)
    have batches: "si_batches s = si_batches si" and "si_active s = si_active si" and "si_motion s = si_motion si"
      and "si_state s = si_state si"
      using outer_fields(1,3) [OF run_sink_frame [OF run, THEN conjunct1]]
      by (simp_all add: begin_commands_def core_def)
    have "bm_has_running_controllers (h_methods h) batch \<Longrightarrow> bm_has_running_controllers (h_methods h) (be_batch (si_batches s ! b))"
      using calm run eqs(1) assms(3) unfolding calm_batches_def batches by blast
    from running_set_batch [OF _ this] b batches
    have "has_running_controllers (h_methods h) (set_batch b batch s) \<Longrightarrow> has_running_controllers (h_methods h) s" by simp
    then show ?thesis
      using batches \<open>si_active s = _\<close> \<open>si_motion s = _\<close> \<open>si_state s = _\<close>
      by (simp add: eqs(2) starts_nothing_def end_commands_def set_batch_def has_running_controllers_def)
  qed simp
qed

lemma system_needs_tick_alt:
  "system_needs_tick h sys \<longleftrightarrow>
    sy_commands sys \<noteq> [] \<or>
    (\<exists>k entry si. (k, entry) \<in> set (sy_scenes sys) \<and> se_life entry = sl_alive \<and> se_instance entry = Some si \<and>
       needs_tick (h_methods h) si)"
proof -
  have found: "(case x of None \<Rightarrow> False | Some si \<Rightarrow> needs_tick (h_methods h) si) \<longleftrightarrow>
      (\<exists>si. x = Some si \<and> needs_tick (h_methods h) si)" for x
    by (cases x) simp_all
  show ?thesis unfolding system_needs_tick_def found by blast
qed

lemma needs_tick_found:
  assumes "lives_ok cs (sy_scenes sys)"
  shows "system_needs_tick h sys \<longleftrightarrow>
    sy_commands sys \<noteq> [] \<or> (\<exists>k si. find_scene sys k = Some si \<and> needs_tick (h_methods h) si)"
proof -
  have entry: "(k, entry) \<in> set (sy_scenes sys) \<longleftrightarrow> map_of (sy_scenes sys) k = Some entry" for k entry
    using lives_ok_keys [OF assms] by simp
  show ?thesis unfolding system_needs_tick_alt entry find_scene_Some by blast
qed

lemma set_instance_notices:
  assumes "lives_ok cs (sy_scenes sys)" and "find_scene sys scene = Some si" and "starts_nothing (h_methods h) si si'"
    and "system_needs_tick h (set_instance scene si' sys)"
  shows "system_needs_tick h sys"
proof -
  have "find_scene (set_instance scene si' sys) k = (if k = scene then Some si' else find_scene sys k)" for k
    using assms(2) by (auto simp: find_scene_def map_of_set_instance split: option.splits if_splits)
  with assms starts_nothing_tick [OF assms(3)] show ?thesis
    by (auto simp: needs_tick_found [OF assms(1)] needs_tick_found [OF lives_ok_set_instance [OF assms(1)]] split: if_splits)
qed

lemma system_needs_tick_same [simp]:
  "system_needs_tick h (enqueue h c sys) = True"
  "system_needs_tick h (sys\<lparr>sy_entities := es\<rparr>) = system_needs_tick h sys"
  "system_needs_tick h (sys\<lparr>sy_registrations := rs\<rparr>) = system_needs_tick h sys"
  "system_needs_tick h (sys\<lparr>sy_next_registration := t\<rparr>) = system_needs_tick h sys"
  "system_needs_tick h (sys\<lparr>sy_factories := fs\<rparr>) = system_needs_tick h sys"
  "system_needs_tick h (sys\<lparr>sy_next_factory_generation := g\<rparr>) = system_needs_tick h sys"
  "system_needs_tick h (sys\<lparr>sy_collection_closed := b\<rparr>) = system_needs_tick h sys"
  by (simp_all add: system_needs_tick_def)

lemma client_notices:
  fixes h :: "('x, 'v, 'q, 'f, 'cfg, 'inp, 'b, 't, 'm, 'z) host"
  assumes "client_call h sys promises events sys'" and calm: "calm_batches h"
    and inv: "lives_ok (sy_commands sys) (sy_scenes sys)" and connected: "system_needs_tick h sys \<longrightarrow> sy_tick_connected sys"
  shows "system_needs_tick h sys' \<longrightarrow> sy_tick_connected sys'"
  using assms(1)
proof cases
  case client_ready
  with connected show ?thesis by (auto simp: on_root_spawnable_ready_def Let_def split: if_splits)
next
  case (client_reserve spawner result)
  show ?thesis
  proof (cases "find_scene sys (ph_scene spawner)")
    case None
    with client_reserve connected show ?thesis by (simp add: system_reserve_slot_def)
  next
    case (Some si)
    obtain r si' where r: "reserve_slot spawner si = (r, si')" by fastforce
    with Some client_reserve have "sys' = set_instance (ph_scene spawner) si' sys" by (simp add: system_reserve_slot_def)
    with set_instance_notices [OF inv Some reserve_starts_nothing [OF r], where h = h] connected show ?thesis by auto
  qed
next
  case (client_close inst code)
  show ?thesis
  proof (cases "find_scene sys (ph_scene (sh_spawner (ih_slot inst)))")
    case None
    with client_close connected show ?thesis by (simp add: system_close_input_def)
  next
    case (Some si)
    obtain r si' where r: "close_controller_input (h_methods h) inst si = (r, si')" by fastforce
    with Some client_close have "sys' = set_instance (ph_scene (sh_spawner (ih_slot inst))) si' sys"
      by (simp add: system_close_input_def Let_def)
    with set_instance_notices [OF inv Some close_starts_nothing [OF calm r]] connected show ?thesis by auto
  qed
next
  case (client_detach inst entity s)
  show ?thesis
  proof (cases "find_scene sys (ph_scene (sh_spawner (ih_slot inst)))")
    case None
    with client_detach connected show ?thesis by (simp add: submit_detach_controllers_def)
  next
    case (Some si)
    obtain r si' where r: "close_controller_input (h_methods h) inst si = (r, si')" by fastforce
    with Some client_detach(3) have "sys' = sys \<or> sys' = set_instance (ph_scene (sh_spawner (ih_slot inst))) si' sys \<or> sy_tick_connected sys'"
      by (auto simp: submit_detach_controllers_def Let_def submit_def split: if_splits)
    with set_instance_notices [OF inv Some close_starts_nothing [OF calm r]] connected show ?thesis by auto
  qed
next
  case (client_input controller inp code)
  let ?scene = "ph_scene (sh_spawner (ih_slot (ch_instance controller)))"
  show ?thesis
  proof (cases "find_scene sys ?scene")
    case None
    with client_input connected show ?thesis by (simp add: system_submit_input_def)
  next
    case (Some si)
    obtain r si' where r: "submit_controller_input (h_math h) (h_methods h) controller inp si = (r, si')" by fastforce
    show ?thesis
    proof (cases "r = cr_success")
      case True
      with Some r client_input(3) show ?thesis by (auto simp: system_submit_input_def Let_def)
    next
      case False
      with Some r client_input(3) have "sys' = set_instance ?scene si' sys" by (simp add: system_submit_input_def Let_def)
      with set_instance_notices [OF inv Some refusal_starts_nothing [OF calm r False]] connected show ?thesis by auto
    qed
  qed
qed (use connected in \<open>auto simp: submissions requests Let_def submit_def split: if_splits option.splits prod.splits\<close>)

lemma call_notices:
  fixes h :: "('x, 'v, 'q, 'f, 'cfg, 'inp, 'b, 't, 'm, 'z) host"
  assumes "system_call h sys promises events sys'" and calm: "calm_batches h"
    and inv: "lives_ok (sy_commands sys) (sy_scenes sys)" and connected: "system_needs_tick h sys \<longrightarrow> sy_tick_connected sys"
  shows "system_needs_tick h sys' \<longrightarrow> sy_tick_connected sys'"
  using assms(1)
proof cases
  case call_client
  from client_notices [OF this calm inv connected] show ?thesis .
next
  case (call_tick frame_delta order)
  from tick_completes [OF call_tick(2)] show ?thesis by simp
qed

lemma run_notices:
  fixes h :: "('x, 'v, 'q, 'f, 'cfg, 'inp, 'b, 't, 'm, 'z) host"
  assumes "system_run h n expected received sys" and "n < 2 ^ 64 - 1" and "calm_batches h"
  shows "system_needs_tick h sys \<longrightarrow> sy_tick_connected sys"
  using assms(1,2)
proof induction
  case run_starts
  show ?case by (simp add: new_system_def system_needs_tick_def)
next
  case (run_calls n expected received sys promises events sys')
  then have "n < 2 ^ 64 - 1" by simp
  from call_notices [OF run_calls.hyps(2) assms(3) run_lives [OF run_calls.hyps(1) this, THEN conjunct1]] run_calls.IH [OF this]
  show ?case .
qed

lemma run_owes:
  "system_run h n expected received sys \<Longrightarrow>
     expected = received @ queued sys \<and> (sy_commands sys \<noteq> [] \<longrightarrow> sy_tick_connected sys)"
proof (induction rule: system_run.induct)
  case run_starts
  show ?case by (simp add: new_system_def queued_def)
next
  case (run_calls n expected received sys promises events sys')
  with call_owes [OF run_calls.hyps(2)] call_keeps_tick [OF run_calls.hyps(2)] show ?case by simp
qed

subsection \<open>Properties\<close>

text \<open>Two scenes' worth of calls: a creation, then a placement for which entity 9 wants to be told.\<close>

definition demo_host :: "(int, int, int, int, unit, int, unit, node_table, unit, unit) host" where
  "demo_host = \<lparr>h_math = int_math, h_methods = demo_methods, h_library = table_library\<rparr>"

definition demo_created :: "(int, int, unit, unit) system_component" where
  "demo_created = snd (request_create_scene demo_host demo_descriptor new_system)"

definition demo_placed :: "(int, int, unit, unit) system_component" where
  "demo_placed = snd (submit_place_slot demo_host (demo_slot\<lparr>sh_spawner := (sh_spawner demo_slot)\<lparr>ph_scene := 1\<rparr>\<rparr>) 5 (Some 9) demo_created)"

lemma demo_created_fields:
  "sy_commands demo_created = [Create_command 1 demo_descriptor]"
  "sy_scenes demo_created = [(1, \<lparr>se_instance = None, se_life = sl_pending\<rparr>)]" "sy_next_command demo_created = 1"
  by (simp_all add: demo_created_def request_create_scene_def demo_descriptor_def new_system_def Let_def)

lemma demo_placed_submission:
  "submit_place_slot demo_host (demo_slot\<lparr>sh_spawner := (sh_spawner demo_slot)\<lparr>ph_scene := 1\<rparr>\<rparr>) 5 (Some 9) demo_created =
    (\<lparr>scs_code = rc_success, scs_command = 1\<rparr>, demo_placed)"
  by (simp add: demo_placed_def submit_place_slot_def accepts_commands_def demo_created_fields submit_def Let_def
      demo_host_def int_math_def)

lemma demo_run: "system_run demo_host 2 [(1, Some 9, sct_place_slot)] [] demo_placed"
proof -
  have "request_create_scene demo_host demo_descriptor new_system =
      (fst (request_create_scene demo_host demo_descriptor new_system), demo_created)"
    by (simp add: demo_created_def)
  from run_calls [OF run_starts call_create [OF this]] have "system_run demo_host 1 [] [] demo_created" by simp
  from run_calls [OF this call_place [OF demo_placed_submission]] show ?thesis
    by (simp add: promised_def submission_accepted_def owed_def numeral_2_eq_2)
qed


lemma demo_calm: "calm_batches demo_host"
proof -
  have "bm_has_running_controllers (h_methods demo_host) = (\<lambda>_. False)" by (simp add: demo_host_def demo_methods_def)
  then show ?thesis by (simp add: calm_batches_def)
qed


end
