(* ===== verification/System_Registration.thy ===== *)
theory System_Registration
  imports System_Component "HOL-Library.Multiset"
begin

section \<open>The resolution of registrations\<close>

text \<open>
  What \<open>OnRootSpawnableReady\<close> makes of the scene entities and prefabs that registered before: an
  invariant of the registration state in every run, a target for each registration, and the partition
  numbers the scenes get.
\<close>

subsection \<open>The registration state\<close>

definition owner_and_key :: "pending_registration \<Rightarrow> entity_id \<times> name" where
  "owner_and_key r = (pr_owner r, prd_key (pr_descriptor r))"

definition registrations_ok :: "('x, 'v, 'cfg, 'b) system_component \<Rightarrow> bool" where
  "registrations_ok sys \<longleftrightarrow>
     distinct (map rse_entity (sy_entities sys)) \<and> None \<notin> rse_entity ` set (sy_entities sys) \<and>
     distinct (map owner_and_key (sy_registrations sys)) \<and> None \<notin> pr_owner ` set (sy_registrations sys) \<and>
     distinct (map pr_token (sy_registrations sys)) \<and>
     (\<forall>r \<in> set (sy_registrations sys). pr_token r \<noteq> 0 \<and> pr_token r < sy_next_registration sys \<and>
        fst (prd_prefab (pr_descriptor r)) \<noteq> 0 \<and> prd_capacity (pr_descriptor r) \<noteq> 0 \<and> prd_key (pr_descriptor r) \<noteq> [])"

definition registration_view ::
  "('x, 'v, 'cfg, 'b) system_component \<Rightarrow> registered_scene_entity list \<times> pending_registration list \<times> u64" where
  "registration_view sys = (sy_entities sys, sy_registrations sys, sy_next_registration sys)"

lemma registrations_ok_view:
  "registration_view sys' = registration_view sys \<Longrightarrow> registrations_ok sys \<Longrightarrow> registrations_ok sys'"
  by (simp add: registrations_ok_def registration_view_def)

lemma registration_view_same [simp]:
  "registration_view (enqueue h c sys) = registration_view sys"
  "registration_view (set_instance scene si sys) = registration_view sys"
  "registration_view (refresh_tick h sys) = registration_view sys"
  "registration_view (sys\<lparr>sy_commands := cs\<rparr>) = registration_view sys"
  "registration_view (sys\<lparr>sy_scenes := ss\<rparr>) = registration_view sys"
  "registration_view (sys\<lparr>sy_next_scene := s\<rparr>) = registration_view sys"
  "registration_view (sys\<lparr>sy_next_command := i\<rparr>) = registration_view sys"
  "registration_view (sys\<lparr>sy_factories := fs\<rparr>) = registration_view sys"
  "registration_view (sys\<lparr>sy_next_factory_generation := g\<rparr>) = registration_view sys"
  "registration_view (sys\<lparr>sy_collection_closed := b\<rparr>) = registration_view sys"
  by (simp_all add: registration_view_def)

lemma registrations_ok_same [simp]:
  "registrations_ok (enqueue h c sys) = registrations_ok sys"
  "registrations_ok (set_instance scene si sys) = registrations_ok sys"
  "registrations_ok (refresh_tick h sys) = registrations_ok sys"
  "registrations_ok (sys\<lparr>sy_scenes := ss\<rparr>) = registrations_ok sys"
  "registrations_ok (sys\<lparr>sy_next_scene := s\<rparr>) = registrations_ok sys"
  "registrations_ok (sys\<lparr>sy_next_command := i\<rparr>) = registrations_ok sys"
  "registrations_ok (sys\<lparr>sy_factories := fs\<rparr>) = registrations_ok sys"
  "registrations_ok (sys\<lparr>sy_next_factory_generation := g\<rparr>) = registrations_ok sys"
  by (simp_all add: registrations_ok_def)

lemma process_view: "process h c sys = (events, sys') \<Longrightarrow> registration_view sys' = registration_view sys"
proof (cases "(\<exists>k d. c = Create_command k d) \<or> (\<exists>k. c = Destroy_command k)")
  case True
  assume "process h c sys = (events, sys')"
  with True show ?thesis by (auto simp: process_create_def split: option.splits if_splits)
next
  case False
  assume "process h c sys = (events, sys')"
  from process_other [OF this] False show ?thesis by auto
qed

lemma tick_view:
  fixes h :: "('x, 'v, 'q, 'f, 'cfg, 'inp, 'b, 't, 'm, 'z) host"
  assumes "on_tick h frame_delta order sys = (events, sys')"
  shows "registration_view sys' = registration_view sys"
proof -
  have drain: "fold (process_next h) cs (es, s) = (es', s') \<Longrightarrow> registration_view s' = registration_view s"
    for cs es es' and s s' :: "('x, 'v, 'cfg, 'b) system_component"
  proof (induction cs arbitrary: es s)
    case (Cons c cs)
    obtain more_events t where t: "process h c s = (more_events, t)" by fastforce
    with Cons.prems have "fold (process_next h) cs (es @ more_events, t) = (es', s')" by (simp add: process_next_step)
    from Cons.IH [OF this] process_view [OF t] show ?case by simp
  qed simp
  have frames: "fold (advance_scene h frame_delta) ks (es, s) = (es', s') \<Longrightarrow> registration_view s' = registration_view s"
    for ks es es' and s s' :: "('x, 'v, 'cfg, 'b) system_component"
  proof (induction ks arbitrary: es s)
    case (Cons k ks)
    obtain es1 s1 where s1: "advance_scene h frame_delta k (es, s) = (es1, s1)" by fastforce
    then have "registration_view s1 = registration_view s"
      by (auto simp: advance_scene_def split: option.splits prod.splits)
    with Cons.IH [of es1 s1] Cons.prems s1 show ?case by simp
  qed simp
  obtain es s where s: "drain_commands h sys = (es, s)" by fastforce
  obtain es' s' where s': "fold (advance_scene h frame_delta) order (es, s) = (es', s')" by fastforce
  from assms drain [OF s [unfolded drain_commands_def]] frames [OF s'] show ?thesis by (auto simp: on_tick_def s s')
qed

lemma distinct_filter_map: "distinct (map f xs) \<Longrightarrow> distinct (map f (filter P xs))"
  by (induction xs) auto

lemma register_prefab_ok:
  assumes "register_prefab owner target d sys = (r, sys')" and ok: "registrations_ok sys"
    and "sy_next_registration sys \<noteq> 0" and "sy_next_registration sys \<noteq> - 1"
  shows "registrations_ok sys'"
proof (cases "re_code r = rc_success")
  case False
  with assms(1) ok show ?thesis by (auto simp: register_prefab_def Let_def split: if_splits)
next
  case True
  let ?k = "sy_next_registration sys"
  from True assms(1) have sys': "sys' = sys\<lparr>sy_next_registration := ?k + 1,
      sy_registrations := sy_registrations sys @ [\<lparr>pr_token = ?k, pr_owner = owner, pr_target = target, pr_descriptor = d\<rparr>]\<rparr>"
    and fresh: "owner \<noteq> None" "fst (prd_prefab d) \<noteq> 0" "prd_capacity d \<noteq> 0" "prd_key d \<noteq> []"
      "\<forall>r \<in> set (sy_registrations sys). \<not> (pr_owner r = owner \<and> prd_key (pr_descriptor r) = prd_key d)"
    by (auto simp: register_prefab_def Let_def split: if_splits)
  have k: "?k < ?k + 1" by (rule less_next [OF assms(4)])
  have "?k \<notin> pr_token ` set (sy_registrations sys)" using ok by (auto simp: registrations_ok_def)
  with ok fresh k assms(3) show ?thesis
    by (auto simp: sys' registrations_ok_def owner_and_key_def image_iff intro: less_trans)
qed

lemma client_registrations:
  assumes "client_call h sys promises events sys'" and ok: "registrations_ok sys"
    and "sy_next_registration sys \<noteq> 0" and "sy_next_registration sys \<noteq> - 1"
  shows "registrations_ok sys' \<and> sy_next_registration sys' \<noteq> 0 \<and>
    unat (sy_next_registration sys') \<le> unat (sy_next_registration sys) + 1"
proof -
  have same: ?thesis if "registration_view sys' = registration_view sys"
    using registrations_ok_view [OF that ok] that assms(3) by (simp add: registration_view_def)
  have step: "sy_next_registration sys + 1 \<noteq> 0" "unat (sy_next_registration sys + 1) = unat (sy_next_registration sys) + 1"
    using assms(4) unat_next by (auto simp: add_eq_0_iff2)
  from assms(1) show ?thesis
  proof cases
    case client_ready
    then have "registration_view sys' = registration_view sys"
      by (auto simp: on_root_spawnable_ready_def Let_def split: if_splits)
    then show ?thesis by (rule same)
  next
    case (client_register_entity entity is_default code)
    then have "sys' = sys \<or> entity \<noteq> None \<and> entity \<notin> rse_entity ` set (sy_entities sys) \<and>
        sys' = sys\<lparr>sy_entities := sy_entities sys @ [\<lparr>rse_entity = entity, rse_default = is_default\<rparr>]\<rparr>"
      by (auto simp: register_scene_entity_def split: if_splits)
    then show ?thesis
    proof
      assume "sys' = sys"
      then show ?thesis using ok assms(3) by simp
    next
      assume "entity \<noteq> None \<and> entity \<notin> rse_entity ` set (sy_entities sys) \<and>
        sys' = sys\<lparr>sy_entities := sy_entities sys @ [\<lparr>rse_entity = entity, rse_default = is_default\<rparr>]\<rparr>"
      moreover from this have "None \<noteq> entity" by auto
      ultimately show ?thesis using ok assms(3) unfolding registrations_ok_def by simp
    qed
  next
    case (client_unregister_entity entity)
    with ok assms(3) show ?thesis by (auto simp: unregister_scene_entity_def registrations_ok_def distinct_filter_map)
  next
    case (client_register_prefab owner target d r)
    with register_prefab_ok [OF client_register_prefab(3) ok assms(3,4)] step assms(3) show ?thesis
      by (auto simp: register_prefab_def Let_def split: if_splits)
  next
    case (client_unregister_prefab token)
    with ok assms(3) show ?thesis by (auto simp: unregister_prefab_def registrations_ok_def distinct_filter_map)
  next
    case client_game_reset
    with assms(3) show ?thesis by (simp add: on_game_entities_reset_def registrations_ok_def)
  qed (use ok assms(3) in \<open>auto simp: submissions requests Let_def submit_def split: if_splits option.splits prod.splits\<close>)
qed

lemma call_registrations:
  assumes "system_call h sys promises events sys'" and ok: "registrations_ok sys"
    and "sy_next_registration sys \<noteq> 0" and "sy_next_registration sys \<noteq> - 1"
  shows "registrations_ok sys' \<and> sy_next_registration sys' \<noteq> 0 \<and>
    unat (sy_next_registration sys') \<le> unat (sy_next_registration sys) + 1"
  using assms(1)
proof cases
  case call_client
  from client_registrations [OF this assms(2-)] show ?thesis .
next
  case (call_tick frame_delta order)
  have "registration_view sys' = registration_view sys" by (rule tick_view [OF call_tick(2)])
  from registrations_ok_view [OF this ok] this assms(3) show ?thesis by (simp add: registration_view_def)
qed

lemma run_registrations:
  fixes h :: "('x, 'v, 'q, 'f, 'cfg, 'inp, 'b, 't, 'm, 'z) host"
  assumes "system_run h n expected received sys" and "n < 2 ^ 64 - 1"
  shows "registrations_ok sys \<and> sy_next_registration sys \<noteq> 0 \<and> unat (sy_next_registration sys) \<le> n + 1"
  using assms
proof induction
  case run_starts
  show ?case by (simp add: new_system_def registrations_ok_def)
next
  case (run_calls n expected received sys promises events sys')
  then have IH: "registrations_ok sys" "sy_next_registration sys \<noteq> 0" "unat (sy_next_registration sys) \<le> n + 1" by simp_all
  then have "sy_next_registration sys \<noteq> - 1" using run_calls.prems max_u64_unat by fastforce
  from call_registrations [OF run_calls.hyps(2) IH(1,2) this] IH(3) show ?case by simp
qed

subsection \<open>Where a registration goes\<close>

text \<open>
  The scene entity of a registration, or the reason why it has none: the entity it names, or the
  only default scene.
\<close>

definition registration_target :: "('x, 'v, 'cfg, 'b) system_component \<Rightarrow> pending_registration \<Rightarrow> result_code + entity_id" where
  "registration_target sys r =
     (if pr_target r = None
      then (case default_scenes (sy_entities sys) of
              [] \<Rightarrow> Inl rc_missing_default_scene
            | [scene] \<Rightarrow> Inr scene
            | _ \<Rightarrow> Inl rc_duplicate_default_scene)
      else if pr_target r \<in> rse_entity ` set (sy_entities sys) then Inr (pr_target r) else Inl rc_scene_not_found)"

lemma targets_scene_iff:
  assumes "e \<in> set (sy_entities sys)"
  shows "targets_scene (default_scenes (sy_entities sys)) (rse_entity e) r \<longleftrightarrow> registration_target sys r = Inr (rse_entity e)"
  using assms by (auto simp: targets_scene_def registration_target_def split: list.splits)

lemma default_scenes_registered: "set (default_scenes entities) \<subseteq> rse_entity ` set entities"
  by (auto simp: default_scenes_def)

lemma registration_target_registered:
  "registration_target sys r = Inr scene \<Longrightarrow> scene \<in> rse_entity ` set (sy_entities sys)"
  using default_scenes_registered [of "sy_entities sys"]
  by (auto simp: registration_target_def split: if_splits list.splits)

lemma failure_code_iff:
  "failure_code (default_scenes (sy_entities sys)) (sy_entities sys) r =
    (case registration_target sys r of Inl code \<Rightarrow> code | Inr _ \<Rightarrow> rc_success)"
proof -
  have "(\<exists>e \<in> set (sy_entities sys). rse_entity e = pr_target r) \<longleftrightarrow> pr_target r \<in> rse_entity ` set (sy_entities sys)"
    by (metis imageE imageI)
  then show ?thesis by (auto simp: failure_code_def registration_target_def Let_def split: list.split)
qed

lemma failed_target_is_error: "registration_target sys r = Inl code \<Longrightarrow> code \<noteq> rc_success"
  by (auto simp: registration_target_def split: if_splits list.splits)

subsection \<open>Partitions\<close>

text \<open>Numbered registrations: what a scene gets to build.\<close>

fun numbered :: "u64 \<Rightarrow> pending_registration list \<Rightarrow> resolved_registration list" where
  "numbered k [] = []"
| "numbered k (r # rs) =
     \<lparr>rr_token = pr_token r, rr_owner = pr_owner r, rr_partition = k, rr_descriptor = pr_descriptor r\<rparr> # numbered (k + 1) rs"

lemma resolve_fold:
  "fold (resolve_step defaults scene) rs (resolved, k) =
    (resolved @ numbered k (filter (targets_scene defaults scene) rs),
     k + word_of_nat (length (filter (targets_scene defaults scene) rs)))"
  by (induction rs arbitrary: resolved k) (simp_all add: resolve_step_def)

lemma numbered_fields:
  "length (numbered k rs) = length rs"
  "map rr_token (numbered k rs) = map pr_token rs" "map rr_owner (numbered k rs) = map pr_owner rs"
  "map rr_descriptor (numbered k rs) = map pr_descriptor rs"
  "i < length rs \<Longrightarrow> rr_partition (numbered k rs ! i) = k + word_of_nat i"
  by (induction k rs arbitrary: i rule: numbered.induct) (auto simp: nth_Cons split: nat.split)

definition canonical :: "('x, 'v, 'cfg, 'b) system_component \<Rightarrow> pending_registration list" where
  "canonical sys = sort_key registration_key (sy_registrations sys)"

text \<open>What is sent, told from the targets alone.\<close>

lemma ready_events:
  assumes "\<not> sy_collection_closed sys"
  shows "on_root_spawnable_ready sys =
    (map (\<lambda>e. Begin_build (rse_entity e) (numbered 1 (filter (\<lambda>r. registration_target sys r = Inr (rse_entity e)) (canonical sys))))
       (sy_entities sys) @
     concat (map (\<lambda>r. case registration_target sys r of Inl code \<Rightarrow> [registration_failure code r] | Inr _ \<Rightarrow> []) (canonical sys)),
     sys\<lparr>sy_collection_closed := True\<rparr>)"
proof -
  have builds: "map (\<lambda>e. Begin_build (rse_entity e)
        (fst (fold (resolve_step (default_scenes (sy_entities sys)) (rse_entity e)) (canonical sys) ([], 1)))) (sy_entities sys) =
      map (\<lambda>e. Begin_build (rse_entity e)
        (numbered 1 (filter (\<lambda>r. registration_target sys r = Inr (rse_entity e)) (canonical sys)))) (sy_entities sys)"
  proof (rule map_cong [OF refl])
    fix e
    assume "e \<in> set (sy_entities sys)"
    then have "targets_scene (default_scenes (sy_entities sys)) (rse_entity e) = (\<lambda>r. registration_target sys r = Inr (rse_entity e))"
      by (simp add: fun_eq_iff targets_scene_iff)
    then show "Begin_build (rse_entity e)
        (fst (fold (resolve_step (default_scenes (sy_entities sys)) (rse_entity e)) (canonical sys) ([], 1))) =
      Begin_build (rse_entity e) (numbered 1 (filter (\<lambda>r. registration_target sys r = Inr (rse_entity e)) (canonical sys)))"
      by (simp add: resolve_fold)
  qed
  have failures: "concat (map (\<lambda>r. let code = failure_code (default_scenes (sy_entities sys)) (sy_entities sys) r
        in if code \<noteq> rc_success then [registration_failure code r] else []) (canonical sys)) =
      concat (map (\<lambda>r. case registration_target sys r of Inl code \<Rightarrow> [registration_failure code r] | Inr _ \<Rightarrow> []) (canonical sys))"
    by (intro arg_cong [of _ _ concat] map_cong refl)
      (auto simp: failure_code_iff Let_def dest: failed_target_is_error split: sum.split)
  show ?thesis
    using assms builds failures by (simp add: on_root_spawnable_ready_def canonical_def Let_def)
qed

subsection \<open>Each registration once\<close>

text \<open>The registrations a notification answers.\<close>

fun answered :: "'x notification \<Rightarrow> registration_token list" where
  "answered (Begin_build scene resolved) = map rr_token resolved"
| "answered (Registration_failed owner token failure) = [token]"
| "answered _ = []"

lemma mset_scattered:
  assumes "distinct es"
  shows "mset (concat (map (\<lambda>e. map f (filter (\<lambda>r. g r = Inr e) rs)) es)) =
    mset (map f (filter (\<lambda>r. \<exists>e \<in> set es. g r = Inr e) rs))"
proof (induction rs)
  case Nil
  show ?case by (induction es) simp_all
next
  case (Cons r rs)
  have "mset (concat (map (\<lambda>e. map f (filter (\<lambda>r. g r = Inr e) (r # rs))) es)) =
      mset (concat (map (\<lambda>e. map f (filter (\<lambda>r. g r = Inr e) rs)) es)) + (if \<exists>e \<in> set es. g r = Inr e then {#f r#} else {#})"
    using assms by (induction es) auto
  with Cons show ?case by simp
qed

lemma mset_split: "mset (map f (filter P xs)) + mset (map f (filter (\<lambda>x. \<not> P x) xs)) = mset (map f xs)"
  by (induction xs) auto

lemma answered_builds:
  "concat (map answered (map (\<lambda>e. Begin_build (h e) (numbered 1 (k e))) es)) = concat (map (\<lambda>e. map pr_token (k e)) es)"
  by (simp add: comp_def numbered_fields)

lemma answered_failures:
  "concat (map answered (concat (map (\<lambda>r. case g r of Inl code \<Rightarrow> [registration_failure code r] | Inr _ \<Rightarrow> []) rs))) =
    map pr_token (filter (\<lambda>r. \<nexists>e. g r = Inr e) rs)"
  by (induction rs) (auto simp: registration_failure_def split: sum.split)

lemma answered_once:
  assumes "distinct (map rse_entity (sy_entities sys))" and "\<not> sy_collection_closed sys"
  shows "mset (concat (map answered (fst (on_root_spawnable_ready sys)))) = mset (map pr_token (sy_registrations sys))"
proof -
  let ?target = "registration_target sys" and ?rs = "canonical sys" and ?es = "map rse_entity (sy_entities sys)"
  have known: "(\<exists>e \<in> set ?es. ?target r = Inr e) \<longleftrightarrow> (\<exists>e. ?target r = Inr e)" for r
    using registration_target_registered by fastforce
  have "mset (concat (map answered (fst (on_root_spawnable_ready sys)))) =
      mset (concat (map (\<lambda>e. map pr_token (filter (\<lambda>r. ?target r = Inr e) ?rs)) ?es)) +
      mset (map pr_token (filter (\<lambda>r. \<nexists>e. ?target r = Inr e) ?rs))"
    by (simp add: ready_events [OF assms(2)] answered_builds answered_failures numbered_fields comp_def del: mset_map)
  also have "\<dots> = mset (map pr_token (filter (\<lambda>r. \<exists>e. ?target r = Inr e) ?rs)) +
      mset (map pr_token (filter (\<lambda>r. \<nexists>e. ?target r = Inr e) ?rs))"
    by (simp only: mset_scattered [OF assms(1)] known)
  also have "\<dots> = mset (map pr_token ?rs)" by (rule mset_split)
  finally show ?thesis by (simp add: canonical_def)
qed

text \<open>The canonical order does not depend on the order of the registrations.\<close>

lemma registration_key_inj:
  assumes "registrations_ok sys"
  shows "inj_on registration_key (set (sy_registrations sys))"
proof (rule inj_onI)
  fix r s
  assume r: "r \<in> set (sy_registrations sys)" and s: "s \<in> set (sy_registrations sys)" and "registration_key r = registration_key s"
  moreover have "pr_owner r \<noteq> None" "pr_owner s \<noteq> None"
    using assms r s unfolding registrations_ok_def by (metis imageI)+
  ultimately have "owner_and_key r = owner_and_key s" by (auto simp: registration_key_def owner_and_key_def)
  moreover have "inj_on owner_and_key (set (sy_registrations sys))" using assms by (simp add: registrations_ok_def distinct_map)
  ultimately show "r = s" using r s by (auto dest: inj_onD)
qed

lemma canonical_permutation:
  assumes "registrations_ok sys" and "mset regs = mset (sy_registrations sys)"
  shows "sort_key registration_key regs = canonical sys"
proof (rule sort_key_inj_key_eq)
  show "mset regs = mset (canonical sys)" using assms(2) by (simp add: canonical_def)
  show "inj_on registration_key (set regs)"
    using registration_key_inj [OF assms(1)] mset_eq_setD [OF assms(2)] by simp
qed (simp add: canonical_def)

lemma ready_permutation:
  assumes ok: "registrations_ok sys" and regs: "mset regs = mset (sy_registrations sys)"
    and "on_root_spawnable_ready sys = (events, sys')"
  shows "on_root_spawnable_ready (sys\<lparr>sy_registrations := regs\<rparr>) = (events, sys'\<lparr>sy_registrations := regs\<rparr>)"
proof (cases "sy_collection_closed sys")
  case True
  with assms(3) show ?thesis by (simp add: on_root_spawnable_ready_def)
next
  case False
  let ?sys = "sys\<lparr>sy_registrations := regs\<rparr>"
  have "canonical ?sys = canonical sys" using canonical_permutation [OF ok regs] by (simp add: canonical_def)
  moreover have "registration_target ?sys = registration_target sys" by (simp add: fun_eq_iff registration_target_def)
  ultimately show ?thesis using assms(3) False by (auto simp: ready_events)
qed

subsection \<open>Properties\<close>

text \<open>C32. Closing the collection answers every registration exactly once, whatever order they came in. In a run, each
pending registration is either in the build of the scene it names (or of the only default scene) or refused with the
reason; the partitions of a scene are numbered from 1, the answers do not depend on the order of registration, and a second
notification does nothing.\<close>

theorem registrations_are_resolved_once:
  fixes h :: "('x, 'v, 'q, 'f, 'cfg, 'inp, 'b, 't, 'm, 'z) host"
  assumes "system_run h n expected received sys" and "n < 2 ^ 64 - 1" and "\<not> sy_collection_closed sys"
    and "on_root_spawnable_ready sys = (events, sys')"
  shows "mset (concat (map answered events)) = mset (map pr_token (sy_registrations sys)) \<and>
    distinct (map pr_token (sy_registrations sys)) \<and>
    (\<forall>scene resolved. Begin_build scene resolved \<in> set events \<longrightarrow>
      rr_token ` set resolved = pr_token ` {r \<in> set (sy_registrations sys). registration_target sys r = Inr scene} \<and>
      (\<forall>i < length resolved. rr_partition (resolved ! i) = word_of_nat (i + 1))) \<and>
    (\<forall>owner token failure. Registration_failed owner token failure \<in> set events \<longrightarrow>
      (\<exists>r \<in> set (sy_registrations sys). pr_token r = token \<and> pr_owner r = owner \<and>
        registration_target sys r = Inl (f_code failure))) \<and>
    (\<forall>regs. mset regs = mset (sy_registrations sys) \<longrightarrow>
      on_root_spawnable_ready (sys\<lparr>sy_registrations := regs\<rparr>) = (events, sys'\<lparr>sy_registrations := regs\<rparr>)) \<and>
    on_root_spawnable_ready sys' = ([], sys')"
proof -
  have ok: "registrations_ok sys" using run_registrations [OF assms(1,2)] by simp
  have events: "events =
      map (\<lambda>e. Begin_build (rse_entity e) (numbered 1 (filter (\<lambda>r. registration_target sys r = Inr (rse_entity e)) (canonical sys))))
        (sy_entities sys) @
      concat (map (\<lambda>r. case registration_target sys r of Inl code \<Rightarrow> [registration_failure code r] | Inr _ \<Rightarrow> []) (canonical sys))"
    and sys': "sys' = sys\<lparr>sy_collection_closed := True\<rparr>"
    using assms(4) ready_events [OF assms(3)] by simp_all
  have "mset (concat (map answered events)) = mset (map pr_token (sy_registrations sys))"
    using answered_once [OF _ assms(3)] ok assms(4) by (simp add: registrations_ok_def)
  moreover have "distinct (map pr_token (sy_registrations sys))" using ok by (simp add: registrations_ok_def)
  moreover have "rr_token ` set resolved = pr_token ` {r \<in> set (sy_registrations sys). registration_target sys r = Inr scene} \<and>
      (\<forall>i < length resolved. rr_partition (resolved ! i) = word_of_nat (i + 1))"
    if "Begin_build scene resolved \<in> set events" for scene resolved
  proof -
    let ?mine = "filter (\<lambda>r. registration_target sys r = Inr scene) (canonical sys)"
    have "resolved = numbered 1 ?mine"
      using that by (auto simp: events registration_failure_def split: sum.splits)
    moreover from this have "rr_token ` set resolved = pr_token ` set ?mine" by (metis numbered_fields(2) set_map)
    ultimately show ?thesis by (simp add: numbered_fields canonical_def)
  qed
  moreover have "\<exists>r \<in> set (sy_registrations sys). pr_token r = token \<and> pr_owner r = owner \<and>
        registration_target sys r = Inl (f_code failure)" if "Registration_failed owner token failure \<in> set events"
    for owner token failure
    using that by (auto simp: events registration_failure_def canonical_def split: sum.splits)
  moreover have "on_root_spawnable_ready (sys\<lparr>sy_registrations := regs\<rparr>) = (events, sys'\<lparr>sy_registrations := regs\<rparr>)"
    if "mset regs = mset (sy_registrations sys)" for regs
    by (rule ready_permutation [OF ok that assms(4)])
  moreover have "on_root_spawnable_ready sys' = ([], sys')" by (simp add: sys' on_root_spawnable_ready_def)
  ultimately show ?thesis by blast
qed

text \<open>A default scene and two prefabs; the second names a scene that never registered.\<close>

definition demo_prefab :: prefab_registration_descriptor where
  "demo_prefab = \<lparr>prd_prefab = (3, 0), prd_capacity = 2, prd_key = ''k''\<rparr>"

definition demo_scene_registered :: "(int, int, unit, unit) system_component" where
  "demo_scene_registered = snd (register_scene_entity (Some 5) True new_system)"

definition demo_registered :: "(int, int, unit, unit) system_component" where
  "demo_registered = snd (register_prefab (Some 7) (Some 9) demo_prefab (snd (register_prefab (Some 8) None demo_prefab demo_scene_registered)))"

lemma demo_registered_fields:
  "sy_registrations demo_registered =
      [\<lparr>pr_token = 1, pr_owner = Some 8, pr_target = None, pr_descriptor = demo_prefab\<rparr>,
       \<lparr>pr_token = 2, pr_owner = Some 7, pr_target = Some 9, pr_descriptor = demo_prefab\<rparr>]"
  "sy_entities demo_registered = [\<lparr>rse_entity = Some 5, rse_default = True\<rparr>]" "\<not> sy_collection_closed demo_registered"
  by (simp_all add: demo_registered_def demo_scene_registered_def register_prefab_def register_scene_entity_def new_system_def
      demo_prefab_def Let_def)

lemma demo_registered_run: "system_run demo_host 3 [] [] demo_registered"
proof -
  have 1: "system_run demo_host 1 [] [] demo_scene_registered"
    using run_calls [OF run_starts call_register_entity, of "Some 5" True _ demo_scene_registered demo_host]
    by (simp add: demo_scene_registered_def prod_eq_iff)
  obtain s r where s: "register_prefab (Some 8) None demo_prefab demo_scene_registered = (r, s)" by fastforce
  from run_calls [OF 1 call_register_prefab [OF s]] have 2: "system_run demo_host 2 [] [] s" by (simp add: numeral_2_eq_2)
  obtain r' s' where s': "register_prefab (Some 7) (Some 9) demo_prefab s = (r', s')" by fastforce
  from run_calls [OF 2 call_register_prefab [OF s']] have "system_run demo_host 3 [] [] s'" by (simp add: numeral_3_eq_3 numeral_2_eq_2)
  with s s' show ?thesis by (simp add: demo_registered_def)
qed

theorem registrations_are_resolved_once_witness:
  "\<exists>events sys' :: (int, int, unit, unit) system_component. on_root_spawnable_ready demo_registered = (events, sys') \<and>
     mset (concat (map answered events)) = {#1, 2#} \<and>
     (\<exists>r \<in> set (sy_registrations demo_registered). pr_token r = 2 \<and> registration_target demo_registered r = Inl rc_scene_not_found) \<and>
     rr_token ` set [\<lparr>rr_token = 1, rr_owner = Some 8, rr_partition = 1, rr_descriptor = demo_prefab\<rparr>] =
       pr_token ` {r \<in> set (sy_registrations demo_registered). registration_target demo_registered r = Inr (Some 5)}"
proof -
  note fields = demo_registered_fields
  have n: "(3::nat) < 2 ^ 64 - 1" by simp
  obtain events and sys' :: "(int, int, unit, unit) system_component"
    where ready: "on_root_spawnable_ready demo_registered = (events, sys')" by fastforce
  note resolved = registrations_are_resolved_once [OF demo_registered_run n fields(3) ready]
  have "events =
      [Begin_build (Some 5) [\<lparr>rr_token = 1, rr_owner = Some 8, rr_partition = 1, rr_descriptor = demo_prefab\<rparr>],
       Registration_failed (Some 7) 2 \<lparr>f_code = rc_scene_not_found, f_registration_key = ''k'', f_asset_id = (3, 0), f_node_id = []\<rparr>]"
    using ready
    by (simp add: on_root_spawnable_ready_def fields default_scenes_def registration_key_def resolve_step_def targets_scene_def
        failure_code_def registration_failure_def demo_prefab_def Let_def)
  then show ?thesis
    using ready resolved [THEN conjunct1] resolved [THEN conjunct2, THEN conjunct2, THEN conjunct1]
      resolved [THEN conjunct2, THEN conjunct2, THEN conjunct2, THEN conjunct1]
    by (auto simp: fields)
qed

end
