(* ===== verification/System_Handlers.thy ===== *)
theory System_Handlers
  imports System_Component
begin

section \<open>Ticks whose handlers call back\<close>

text \<open>
  \<open>Complete\<close> and \<open>OnSceneReady\<close> call their handlers synchronously, in the middle of \<open>DrainCommands\<close>, and the
  handlers of this repository use that: the spawner answers the completion of one command by submitting
  the next. The mutex is recursive, the queue that is drained has been swapped out of the component, and
  what a handler submits goes into the fresh queue. This theory has the tick with such handlers: a drain in
  which every notification may be answered by any client calls.
\<close>

subsection \<open>The drain\<close>

definition swap_commands ::
  "('x, 'v, 'cfg, 'b) system_component \<Rightarrow> ('x, 'cfg) scene_command list \<times> ('x, 'v, 'cfg, 'b) system_component" where
  "swap_commands sys = (sy_commands sys, sys\<lparr>sy_commands := []\<rparr>)"

text \<open>
  Every command sends its notification last, with one exception: a failed creation is notified
  while the scene is still pending, and the scene is erased afterwards.
\<close>

definition creation_fails ::
  "('x, 'v, 'q, 'f, 'cfg, 'inp, 'b, 't, 'm, 'z) host \<Rightarrow> ('x, 'cfg) scene_command \<Rightarrow>
   ('x, 'v, 'cfg, 'b) system_component \<Rightarrow> bool" where
  "creation_fails h command sys =
     (case command of
        Create_command scene d \<Rightarrow>
          (case map_of (sy_scenes sys) scene of
             None \<Rightarrow> False
           | Some entry \<Rightarrow> se_life entry = sl_pending \<and>
               (case create_scene (h_math h) (h_library h) d of
                  None \<Rightarrow> True
                | Some (si :: ('x, 'v, 'b) scene_instance) \<Rightarrow> False))
      | _ \<Rightarrow> False)"

definition process_sends ::
  "('x, 'v, 'q, 'f, 'cfg, 'inp, 'b, 't, 'm, 'z) host \<Rightarrow> ('x, 'cfg) scene_command \<Rightarrow>
   ('x, 'v, 'cfg, 'b) system_component \<Rightarrow> 'x notification list \<times> ('x, 'v, 'cfg, 'b) system_component" where
  "process_sends h command sys =
     (if creation_fails h command sys then (fst (process h command sys), sys) else process h command sys)"

definition process_ends ::
  "bool \<Rightarrow> ('x, 'cfg) scene_command \<Rightarrow> ('x, 'v, 'cfg, 'b) system_component \<Rightarrow>
   ('x, 'v, 'cfg, 'b) system_component" where
  "process_ends failed command sys =
     (case command of
        Create_command scene d \<Rightarrow>
          if failed then sys\<lparr>sy_scenes := AList.delete scene (sy_scenes sys)\<rparr> else sys
      | _ \<Rightarrow> sys)"

lemma process_phases:
  "process h command sys =
    (case process_sends h command sys of
       (events, sys') \<Rightarrow> (events, process_ends (creation_fails h command sys) command sys'))"
  by (cases command)
    (auto simp: process_sends_def process_ends_def creation_fails_def process_create_def
      split: option.splits prod.split)

text \<open>The calls of the handlers of one notification: how many, what they are promised, what they cause to be sent.\<close>

inductive handled ::
  "('x, 'v, 'q, 'f, 'cfg, 'inp, 'b, 't, 'm, 'z) host \<Rightarrow> ('x, 'v, 'cfg, 'b) system_component \<Rightarrow> nat \<Rightarrow>
   completion list \<Rightarrow> 'x notification list \<Rightarrow> ('x, 'v, 'cfg, 'b) system_component \<Rightarrow> bool" for h where
  handled_all: "handled h sys 0 [] [] sys"
| handled_call: "client_call h sys promises events sys1 \<Longrightarrow> handled h sys1 k more_promises more_events sys' \<Longrightarrow>
    handled h sys (Suc k) (promises @ more_promises) (events @ more_events) sys'"

inductive drained ::
  "('x, 'v, 'q, 'f, 'cfg, 'inp, 'b, 't, 'm, 'z) host \<Rightarrow> ('x, 'cfg) scene_command list \<Rightarrow>
   ('x, 'v, 'cfg, 'b) system_component \<Rightarrow> nat \<Rightarrow> completion list \<Rightarrow> 'x notification list \<Rightarrow>
   ('x, 'v, 'cfg, 'b) system_component \<Rightarrow> bool" for h where
  drained_all: "drained h [] sys 0 [] [] sys"
| drained_next: "process_sends h command sys = (events, sys1) \<Longrightarrow>
    handled h sys1 k promises answers sys2 \<Longrightarrow> (events = [] \<Longrightarrow> k = 0) \<Longrightarrow>
    drained h commands (process_ends (creation_fails h command sys) command sys2) j more_promises more_events sys' \<Longrightarrow>
    drained h (command # commands) sys (k + j) (promises @ more_promises) (events @ answers @ more_events) sys'"

text \<open>\<open>OnTick\<close>, with the number of calls its handlers made and what they were promised.\<close>

inductive ticked ::
  "('x, 'v, 'q, 'f, 'cfg, 'inp, 'b, 't, 'm, 'z) host \<Rightarrow> int \<Rightarrow> ('x, 'v, 'cfg, 'b) system_component \<Rightarrow> nat \<Rightarrow>
   completion list \<Rightarrow> 'x notification list \<Rightarrow> ('x, 'v, 'cfg, 'b) system_component \<Rightarrow> bool" for h frame_delta where
  ticks: "swap_commands sys = (commands, sys0) \<Longrightarrow> drained h commands sys0 k promises events sys1 \<Longrightarrow>
    distinct order \<Longrightarrow> set order = fst ` set (sy_scenes sys1) \<Longrightarrow>
    fold (advance_scene h frame_delta) order (events, sys1) = (all_events, sys2) \<Longrightarrow>
    ticked h frame_delta sys k promises all_events (refresh_tick h sys2)"

inductive_cases tickedE: "ticked h frame_delta sys k promises events sys'"

text \<open>\<open>n\<close> bounds the calls since the component was activated, those of handlers included.\<close>

inductive handler_run ::
  "('x, 'v, 'q, 'f, 'cfg, 'inp, 'b, 't, 'm, 'z) host \<Rightarrow> nat \<Rightarrow> completion list \<Rightarrow> completion list \<Rightarrow>
   ('x, 'v, 'cfg, 'b) system_component \<Rightarrow> bool" for h where
  handler_run_starts: "handler_run h 0 [] [] new_system"
| handler_run_call: "handler_run h n expected received sys \<Longrightarrow> client_call h sys promises events sys' \<Longrightarrow>
    handler_run h (Suc n) (expected @ promises) (received @ completions events) sys'"
| handler_run_tick: "handler_run h n expected received sys \<Longrightarrow> ticked h frame_delta sys k promises events sys' \<Longrightarrow>
    handler_run h (Suc (n + k)) (expected @ promises) (received @ completions events) sys'"

subsection \<open>Silent handlers\<close>

text \<open>A tick whose handlers do not call back is the tick of \<open>System_Component\<close>.\<close>

lemma silent_drain:
  fixes h :: "('x, 'v, 'q, 'f, 'cfg, 'inp, 'b, 't, 'm, 'z) host" and s :: "('x, 'v, 'cfg, 'b) system_component"
  assumes "fold (process_next h) commands (es, s) = (es', s')"
  shows "\<exists>events. es' = es @ events \<and> drained h commands s 0 [] events s'"
  using assms
proof (induction commands arbitrary: es s)
  case Nil
  then show ?case by (auto intro: drained_all)
next
  case (Cons c cs)
  obtain events s1 where c: "process_sends h c s = (events, s1)" by fastforce
  let ?s1 = "process_ends (creation_fails h c s) c s1"
  have "process h c s = (events, ?s1)" using c process_phases [of h c s] by simp
  with Cons.prems have "fold (process_next h) cs (es @ events, ?s1) = (es', s')" by (simp add: process_next_step)
  from Cons.IH [OF this] obtain rest where "es' = (es @ events) @ rest" "drained h cs ?s1 0 [] rest s'" by blast
  with drained_next [OF c handled_all _ this(2)] show ?case by auto
qed

lemma silent_tick:
  assumes "on_tick h frame_delta order sys = (events, sys')" and "distinct order"
    and "set order = fst ` set (sy_scenes (snd (drain_commands h sys)))"
  shows "ticked h frame_delta sys 0 [] events sys'"
proof -
  obtain es s where s: "drain_commands h sys = (es, s)" by fastforce
  from silent_drain [OF s [unfolded drain_commands_def]]
  have "drained h (sy_commands sys) (sys\<lparr>sy_commands := []\<rparr>) 0 [] es s" by simp
  moreover obtain es' s' where s': "fold (advance_scene h frame_delta) order (es, s) = (es', s')" by fastforce
  ultimately have "ticked h frame_delta sys 0 [] es' (refresh_tick h s')"
    using assms(2,3) s by (intro ticks [where order = order]) (auto simp: swap_commands_def)
  with assms(1) s s' show ?thesis by (simp add: on_tick_def)
qed

subsection \<open>What is promised, queued and sent\<close>

text \<open>Ids of completions, in order, between two values of the counter.\<close>

definition ids_between :: "nat \<Rightarrow> nat \<Rightarrow> completion list \<Rightarrow> bool" where
  "ids_between lo hi cs \<longleftrightarrow> lo \<le> hi \<and> sorted_wrt (<) (map fst cs) \<and> (\<forall>c \<in> set cs. lo \<le> unat (fst c) \<and> unat (fst c) < hi)"

lemma ids_between_append:
  assumes "ids_between a b xs" and "ids_between b c ys"
  shows "ids_between a c (xs @ ys)"
proof -
  have "fst x < fst y" if "x \<in> set xs" "y \<in> set ys" for x y
    using assms that by (fastforce simp: ids_between_def word_less_nat_alt)
  with assms show ?thesis by (fastforce simp: ids_between_def sorted_wrt_append)
qed

lemma client_ids:
  assumes "client_call h sys promises events sys'" and "unat (sy_next_command sys) < 2 ^ 64 - 1"
  shows "ids_between (unat (sy_next_command sys)) (unat (sy_next_command sys')) promises \<and>
    unat (sy_next_command sys') \<le> Suc (unat (sy_next_command sys))"
proof -
  have "sy_next_command sys \<noteq> - 1" using assms(2) max_u64_unat by fastforce
  then have "unat (sy_next_command sys + 1) = Suc (unat (sy_next_command sys))" by (simp add: unat_next)
  with client_counts [OF assms(1)] show ?thesis by (auto simp: ids_between_def)
qed

lemma handled_owes:
  "handled h sys k promises events sys' \<Longrightarrow> queued sys' = queued sys @ promises \<and> completions events = []"
  by (induction rule: handled.induct) (auto dest: client_owes)

lemma handled_silent: "handled h sys 0 promises events sys' \<Longrightarrow> sys' = sys"
  by (auto elim: handled.cases)

lemma handled_ids:
  "handled h sys k promises events sys' \<Longrightarrow> unat (sy_next_command sys) + k < 2 ^ 64 \<Longrightarrow>
    ids_between (unat (sy_next_command sys)) (unat (sy_next_command sys')) promises \<and>
    unat (sy_next_command sys') \<le> unat (sy_next_command sys) + k"
proof (induction rule: handled.induct)
  case (handled_call sys promises events sys1 k more_promises more_events sys')
  from client_ids [OF handled_call.hyps(1)] handled_call.prems
  have one: "ids_between (unat (sy_next_command sys)) (unat (sy_next_command sys1)) promises"
    "unat (sy_next_command sys1) \<le> Suc (unat (sy_next_command sys))" by auto
  with handled_call.IH handled_call.prems ids_between_append [OF one(1)] show ?case by auto
qed (simp add: ids_between_def)

lemma process_sends_fields:
  assumes "process_sends h c sys = (events, sys')"
  shows "completions events = command_owed c" "sy_commands sys' = sy_commands sys"
    "sy_next_command sys' = sy_next_command sys"
  using assms process_completes [of h c sys "fst (process h c sys)" "snd (process h c sys)"]
  by (auto simp: process_sends_def split: if_splits)

lemma process_ends_fields [simp]:
  "sy_commands (process_ends failed c sys) = sy_commands sys"
  "sy_next_command (process_ends failed c sys) = sy_next_command sys"
  "queued (process_ends failed c sys) = queued sys"
  by (simp_all add: process_ends_def queued_def split: scene_command.split)

lemma drained_owes:
  "drained h commands sys k promises events sys' \<Longrightarrow>
    completions events = concat (map command_owed commands) \<and> queued sys' = queued sys @ promises \<and>
    (k = 0 \<longrightarrow> sy_commands sys' = sy_commands sys)"
proof (induction rule: drained.induct)
  case (drained_next command sys events sys1 k promises answers sys2 commands j more_promises more_events sys')
  note sent = process_sends_fields [OF drained_next.hyps(1)]
  have "queued sys1 = queued sys" using sent(2) by (rule queued_of_commands)
  with sent(1,2) handled_owes [OF drained_next.hyps(2)] drained_next.IH handled_silent [of h sys1 promises answers sys2]
    drained_next.hyps(2)
  show ?case by auto
qed simp

lemma drained_ids:
  "drained h commands sys k promises events sys' \<Longrightarrow> unat (sy_next_command sys) + k < 2 ^ 64 \<Longrightarrow>
    ids_between (unat (sy_next_command sys)) (unat (sy_next_command sys')) promises \<and>
    unat (sy_next_command sys') \<le> unat (sy_next_command sys) + k"
proof (induction rule: drained.induct)
  case (drained_next command sys events sys1 k promises answers sys2 commands j more_promises more_events sys')
  have next_id: "sy_next_command sys1 = sy_next_command sys" by (rule process_sends_fields(3) [OF drained_next.hyps(1)])
  from handled_ids [OF drained_next.hyps(2)] drained_next.prems
  have one: "ids_between (unat (sy_next_command sys)) (unat (sy_next_command sys2)) promises"
    "unat (sy_next_command sys2) \<le> unat (sy_next_command sys) + k" by (auto simp: next_id)
  with drained_next.IH drained_next.prems ids_between_append [OF one(1)] show ?case by auto
qed (simp add: ids_between_def)

lemma ticked_owes:
  assumes "ticked h frame_delta sys k promises events sys'"
  shows "completions events = queued sys \<and> queued sys' = promises \<and> (k = 0 \<longrightarrow> sy_commands sys' = []) \<and>
    sy_tick_connected sys' = system_needs_tick h sys'"
  using assms
proof cases
  case (ticks commands sys0 drained_events sys1 order sys2)
  from drained_owes [OF ticks(3)] advance_scenes_complete [OF ticks(6)] ticks(1,2) show ?thesis
    by (auto simp: swap_commands_def queued_def)
qed

lemma ticked_ids:
  assumes "ticked h frame_delta sys k promises events sys'" and "unat (sy_next_command sys) + k < 2 ^ 64"
  shows "ids_between (unat (sy_next_command sys)) (unat (sy_next_command sys')) promises \<and>
    unat (sy_next_command sys') \<le> unat (sy_next_command sys) + k"
  using assms(1)
proof cases
  case (ticks commands sys0 drained_events sys1 order sys2)
  have "sy_next_command sys0 = sy_next_command sys" using ticks(2) by (auto simp: swap_commands_def)
  with drained_ids [OF ticks(3)] assms(2) advance_scenes_complete [OF ticks(6)] ticks(1) show ?thesis by simp
qed

lemma handler_run_owes:
  "handler_run h n expected received sys \<Longrightarrow>
    expected = received @ queued sys \<and> (sy_commands sys \<noteq> [] \<longrightarrow> sy_tick_connected sys)"
proof (induction rule: handler_run.induct)
  case handler_run_starts
  show ?case by (simp add: new_system_def queued_def)
next
  case (handler_run_call n expected received sys promises events sys')
  with client_owes [OF handler_run_call.hyps(2)] client_keeps_tick [OF handler_run_call.hyps(2)] show ?case by simp
next
  case (handler_run_tick n expected received sys frame_delta k promises events sys')
  with ticked_owes [OF handler_run_tick.hyps(2)] show ?case by (simp add: system_needs_tick_def)
qed

lemma handler_run_ids:
  "handler_run h n expected received sys \<Longrightarrow> n < 2 ^ 64 - 1 \<Longrightarrow>
    ids_between 1 (unat (sy_next_command sys)) expected \<and> unat (sy_next_command sys) \<le> Suc n"
proof (induction rule: handler_run.induct)
  case handler_run_starts
  show ?case by (simp add: new_system_def ids_between_def)
next
  case (handler_run_call n expected received sys promises events sys')
  then have IH: "ids_between 1 (unat (sy_next_command sys)) expected" "unat (sy_next_command sys) \<le> Suc n" by simp_all
  with client_ids [OF handler_run_call.hyps(2)] handler_run_call.prems ids_between_append [OF IH(1)] show ?case by simp
next
  case (handler_run_tick n expected received sys frame_delta k promises events sys')
  then have IH: "ids_between 1 (unat (sy_next_command sys)) expected" "unat (sy_next_command sys) \<le> Suc n" by simp_all
  with ticked_ids [OF handler_run_tick.hyps(2)] handler_run_tick.prems ids_between_append [OF IH(1)] show ?case by simp
qed

subsection \<open>Properties\<close>

text \<open>C30. Commands complete in the order of submission, each once, also when handlers submit while the queue is
  drained. In every run of fewer than 2^64 - 1 calls the completions promised so far, to clients and to
  handlers, have increasing command ids and are those received followed by those of the queue, and the tick
  stays connected while commands wait. A tick completes exactly the commands queued before it, in that
  order; what its handlers submit meanwhile is not touched by this tick but is the queue it leaves, in the
  order of submission, with the tick connected for it; if no handler calls back, the queue is empty.\<close>

theorem commands_complete_in_order:
  fixes h :: "('x, 'v, 'q, 'f, 'cfg, 'inp, 'b, 't, 'm, 'z) host"
  assumes "handler_run h n expected received sys" and "n < 2 ^ 64 - 1"
  shows "expected = received @ queued sys \<and> sorted_wrt (<) (map fst expected) \<and>
    (sy_commands sys \<noteq> [] \<longrightarrow> sy_tick_connected sys) \<and>
    (ticked h frame_delta sys k promises events sys' \<longrightarrow>
      completions events = queued sys \<and> received @ completions events = expected \<and> queued sys' = promises \<and>
      (sy_commands sys' \<noteq> [] \<longrightarrow> sy_tick_connected sys') \<and> (k = 0 \<longrightarrow> sy_commands sys' = []) \<and>
      (n + k < 2 ^ 64 - 2 \<longrightarrow> sorted_wrt (<) (map fst (expected @ promises))))"
proof (intro conjI impI)
  note run = handler_run_owes [OF assms(1)] handler_run_ids [OF assms]
  show "expected = received @ queued sys" "sy_commands sys \<noteq> [] \<Longrightarrow> sy_tick_connected sys" using run by simp_all
  show "sorted_wrt (<) (map fst expected)" using run by (simp add: ids_between_def)
  assume tick: "ticked h frame_delta sys k promises events sys'"
  note owes = ticked_owes [OF tick]
  show "completions events = queued sys" "received @ completions events = expected" "queued sys' = promises"
    using owes run by simp_all
  show "sy_commands sys' \<noteq> [] \<Longrightarrow> sy_tick_connected sys'" using owes by (simp add: system_needs_tick_def)
  show "k = 0 \<Longrightarrow> sy_commands sys' = []" using owes by simp
  assume "n + k < 2 ^ 64 - 2"
  then have "Suc (n + k) < 2 ^ 64 - 1" by simp
  from handler_run_ids [OF handler_run_tick [OF assms(1) tick] this]
  show "sorted_wrt (<) (map fst (expected @ promises))" by (simp add: ids_between_def)
qed

text \<open>
  The scene of \<open>demo_placed\<close> is created and its slot placed; the handler of the completion that entity 9
  waits for resets the slot. The reset waits for the next tick.
\<close>

abbreviation demo_placed_slot :: slot_handle where
  "demo_placed_slot \<equiv> demo_slot\<lparr>sh_spawner := (sh_spawner demo_slot)\<lparr>ph_scene := 1\<rparr>\<rparr>"

lemma demo_handler_run: "handler_run demo_host 2 [(1, Some 9, sct_place_slot)] [] demo_placed"
proof -
  have "request_create_scene demo_host demo_descriptor new_system =
      (fst (request_create_scene demo_host demo_descriptor new_system), demo_created)"
    by (simp add: demo_created_def)
  from handler_run_call [OF handler_run_starts client_create [OF this]] have "handler_run demo_host 1 [] [] demo_created" by simp
  from handler_run_call [OF this client_place [OF demo_placed_submission]] show ?thesis
    by (simp add: promised_def submission_accepted_def owed_def numeral_2_eq_2)
qed

lemma demo_placed_fields:
  "sy_commands demo_placed = [Create_command 1 demo_descriptor, Place_slot_command demo_placed_slot 5 1 (Some 9)]"
  "sy_scenes demo_placed = [(1, \<lparr>se_instance = None, se_life = sl_pending\<rparr>)]" "sy_next_command demo_placed = 2"
  by (simp_all add: demo_placed_def submit_place_slot_def accepts_commands_def demo_created_fields submit_def Let_def
      demo_host_def int_math_def)

lemma demo_reset_in_handler:
  fixes s :: "(int, int, unit, unit) system_component"
  assumes "sy_scenes s = [(1, \<lparr>se_instance = i, se_life = sl_alive\<rparr>)]" and "sy_next_command s = 2"
  shows "\<exists>s'. handled demo_host s 1 [(2, Some 9, sct_reset_slot)] [] s' \<and> sy_scenes s' = sy_scenes s"
proof -
  obtain r s' where submitted: "submit_reset_slot demo_host demo_placed_slot (Some 9) s = (r, s')" by fastforce
  then have "promised r (Some 9) sct_reset_slot = [(2, Some 9, sct_reset_slot)]" "sy_scenes s' = sy_scenes s"
    using assms by (auto simp: submit_reset_slot_def accepts_commands_def submit_def Let_def promised_def owed_def
        submission_accepted_def)
  with handled_call [OF client_reset [OF submitted] handled_all] show ?thesis by auto
qed

lemma demo_answered_tick:
  "\<exists>events sys'. ticked demo_host 16 demo_placed 1 [(2, Some 9, sct_reset_slot)] events sys'"
proof -
  obtain si :: "(int, int, unit) scene_instance" where si: "create_scene int_math table_library demo_descriptor = Some si"
    using demo_descriptor_creates by blast
  let ?s0 = "demo_placed\<lparr>sy_commands := []\<rparr>"
  let ?s1 = "?s0\<lparr>sy_scenes := [(1, \<lparr>se_instance = Some si, se_life = sl_alive\<rparr>)]\<rparr>"
  let ?create = "Create_command 1 demo_descriptor :: (int, unit) scene_command"
  let ?place = "Place_slot_command demo_placed_slot 5 1 (Some 9) :: (int, unit) scene_command"
  obtain code si1 where place: "place_slot int_math demo_placed_slot 5 si = (code, si1)" by fastforce
  let ?s2 = "set_instance 1 si1 ?s1"
  have created: "\<not> creation_fails demo_host ?create ?s0" "process demo_host ?create ?s0 = ([Scene_ready 1], ?s1)"
    by (simp_all add: creation_fails_def process_create_def demo_placed_fields si demo_host_def)
  then have sends1: "process_sends demo_host ?create ?s0 = ([Scene_ready 1], ?s1)"
    and ends1: "process_ends (creation_fails demo_host ?create ?s0) ?create ?s1 = ?s1"
    by (simp_all add: process_sends_def process_ends_def)
  have sends2: "process_sends demo_host ?place ?s1 = (complete 1 (Some 9) sct_place_slot code, ?s2)"
    by (simp add: process_sends_def creation_fails_def process_on_def find_scene_def place demo_host_def)
  have "sy_scenes ?s2 = [(1, \<lparr>se_instance = Some si1, se_life = sl_alive\<rparr>)]" "sy_next_command ?s2 = 2"
    by (simp_all add: set_instance_def demo_placed_fields)
  from demo_reset_in_handler [OF this] obtain s3 where
    handled: "handled demo_host ?s2 1 [(2, Some 9, sct_reset_slot)] [] s3" and scenes: "sy_scenes s3 = sy_scenes ?s2"
    by blast
  have ends2: "process_ends f ?place s3 = s3" for f by (simp add: process_ends_def)
  have "complete 1 (Some 9) sct_place_slot code \<noteq> ([] :: int notification list)" by (simp add: complete_def)
  with drained_next [OF sends2 handled _ drained_all [of _ "process_ends (creation_fails demo_host ?place ?s1) ?place s3"]]
  have "drained demo_host [?place] ?s1 1 [(2, Some 9, sct_reset_slot)] (complete 1 (Some 9) sct_place_slot code) s3"
    by (simp add: ends2)
  with drained_next [OF sends1 handled_all, of "[?place]" 1 "[(2, Some 9, sct_reset_slot)]"]
  have drained: "drained demo_host [?create, ?place] ?s0 1 [(2, Some 9, sct_reset_slot)]
      ([Scene_ready 1] @ complete 1 (Some 9) sct_place_slot code) s3"
    by (simp add: ends1)
  have swapped: "swap_commands demo_placed = ([?create, ?place], ?s0)" by (simp add: swap_commands_def demo_placed_fields)
  have order: "set [1] = fst ` set (sy_scenes s3)" by (simp add: scenes set_instance_def)
  obtain es s4 where "fold (advance_scene demo_host 16) [1] ([Scene_ready 1] @ complete 1 (Some 9) sct_place_slot code, s3) = (es, s4)"
    by fastforce
  from ticks [OF swapped drained _ order this] show ?thesis by auto
qed

theorem commands_complete_in_order_witness:
  "\<exists>events sys'. ticked demo_host 16 demo_placed 1 [(2, Some 9, sct_reset_slot)] events sys' \<and>
     completions events = [(1, Some 9, sct_place_slot)] \<and> queued sys' = [(2, Some 9, sct_reset_slot)] \<and>
     sy_tick_connected sys'"
proof -
  have n: "(2::nat) < 2 ^ 64 - 1" by simp
  obtain events sys' where tick: "ticked demo_host 16 demo_placed 1 [(2, Some 9, sct_reset_slot)] events sys'"
    using demo_answered_tick by blast
  note ordered = commands_complete_in_order [OF demo_handler_run n, of 16 1 "[(2, Some 9, sct_reset_slot)]" events sys']
  from ordered tick have queue: "completions events = [(1, Some 9, sct_place_slot)]" "queued sys' = [(2, Some 9, sct_reset_slot)]"
    "sy_commands sys' \<noteq> [] \<longrightarrow> sy_tick_connected sys'" by auto
  then have "sy_commands sys' \<noteq> []" by (auto simp: queued_def)
  with queue tick show ?thesis by blast
qed

end
