(* ===== verification/Level_Component.thy ===== *)
theory Level_Component
  imports System_Registration Prefab_Topology
begin

section \<open>The level component\<close>

text \<open>
  \<open>ScenePolytreeComponent.cpp\<close>: the component of a scene entity. It registers the entity, is given the
  resolved registrations, waits for the assets of their prefabs, asks the system component for a
  scene and tells every owner of a registration how that ended.

  The state carries the system component (\<open>None\<close> while its interface is not registered) and the list
  of what has been sent. What the asset manager holds at a call is an argument: the entities of a
  spawnable, or \<open>None\<close> while it is not ready; a reference is ready when its asset is. Connecting to
  the bus of a ready asset calls \<open>OnAssetReady\<close> at once.
\<close>

subsection \<open>State\<close>

record 'x level_config =
  lvc_default :: bool
  lvc_fixed_step :: int
  lvc_max_catch_up :: u32
  lvc_permanent_nodes :: "'x node_descriptor list"

datatype level_event =
    Registration_ready entity_id registration_token spawner_handle
  | Registration_refused entity_id registration_token scene_polytree_failure
  | Queue_load asset_id

record ('x, 'v, 'cfg, 'b) level_component =
  lv_entity :: entity_id
  lv_config :: "'x level_config"
  lv_registrations :: "resolved_registration list"
  lv_failure :: scene_polytree_failure
  lv_scene :: scene_handle
  lv_lifecycle :: lifecycle
  lv_assets :: "asset_id list"
  lv_listening :: "scene_handle option"
  lv_system :: "('x, 'v, 'cfg, 'b) system_component option"
  lv_sent :: "level_event list"

type_synonym 'x asset_view = "asset_id \<Rightarrow> 'x entity_view option list option"

definition new_level ::
  "entity_id \<Rightarrow> 'x level_config \<Rightarrow> ('x, 'v, 'cfg, 'b) system_component option \<Rightarrow> ('x, 'v, 'cfg, 'b) level_component" where
  "new_level entity config sys =
     \<lparr>lv_entity = entity, lv_config = config, lv_registrations = [], lv_failure = no_failure, lv_scene = 0,
      lv_lifecycle = lc_collecting, lv_assets = [], lv_listening = None, lv_system = sys, lv_sent = []\<rparr>"

subsection \<open>Failure\<close>

definition notify_failure :: "('x, 'v, 'cfg, 'b) level_component \<Rightarrow> ('x, 'v, 'cfg, 'b) level_component" where
  "notify_failure lv =
     lv\<lparr>lv_sent := lv_sent lv @ map (\<lambda>r. Registration_refused (rr_owner r) (rr_token r) (lv_failure lv)) (lv_registrations lv)\<rparr>"

definition fail_build ::
  "scene_polytree_failure \<Rightarrow> ('x, 'v, 'cfg, 'b) level_component \<Rightarrow> ('x, 'v, 'cfg, 'b) level_component" where
  "fail_build failure lv =
     (if lv_lifecycle lv = lc_destroying then lv
      else notify_failure (lv\<lparr>lv_failure := failure, lv_lifecycle := lc_failed, lv_assets := [], lv_listening := None\<rparr>))"

subsection \<open>Building\<close>

definition prefab_of :: "resolved_registration \<Rightarrow> asset_id" where
  "prefab_of r = prd_prefab (rr_descriptor r)"

text \<open>The normalised permanent nodes; validation always returns, so there is no further case.\<close>

definition permanent_nodes :: "('x \<Rightarrow> bool) \<Rightarrow> 'x level_config \<Rightarrow> scene_polytree_failure + 'x node_descriptor list" where
  "permanent_nodes is_finite config =
     (if lvc_permanent_nodes config = [] then Inr []
      else (case validate_and_normalize is_finite (lvc_permanent_nodes config) of
              None \<Rightarrow> Inl no_failure
            | Some r \<Rightarrow> if topology_succeeds r then Inr (ptr_nodes r) else Inl (ptr_failure r)))"

definition add_partition ::
  "('x \<Rightarrow> bool) \<Rightarrow> 'x asset_view \<Rightarrow> resolved_registration \<Rightarrow> scene_polytree_failure + 'x partition_descriptor list \<Rightarrow>
   scene_polytree_failure + 'x partition_descriptor list" where
  "add_partition is_finite assets r partitions =
     (case partitions of
        Inl failure \<Rightarrow> Inl failure
      | Inr ps \<Rightarrow>
          (let topology = extract_entity_hierarchy is_finite (the (assets (prefab_of r)))
           in if topology_succeeds topology
              then Inr (ps @ [\<lparr>pd_partition = rr_partition r, pd_capacity = prd_capacity (rr_descriptor r),
                               pd_nodes = ptr_nodes topology\<rparr>])
              else Inl ((ptr_failure topology)\<lparr>f_registration_key := prd_key (rr_descriptor r), f_asset_id := prefab_of r\<rparr>)))"

definition build_descriptor ::
  "('x \<Rightarrow> bool) \<Rightarrow> 'x asset_view \<Rightarrow> 'x level_config \<Rightarrow> resolved_registration list \<Rightarrow>
   scene_polytree_failure + 'x scene_descriptor" where
  "build_descriptor is_finite assets config rs =
     (case permanent_nodes is_finite config of
        Inl failure \<Rightarrow> Inl failure
      | Inr permanent \<Rightarrow>
          (case fold (add_partition is_finite assets) rs (Inr []) of
             Inl failure \<Rightarrow> Inl failure
           | Inr ps \<Rightarrow>
               Inr \<lparr>sd_permanent_nodes = permanent, sd_partitions = ps, sd_fixed_step = lvc_fixed_step config,
                    sd_max_catch_up = lvc_max_catch_up config\<rparr>))"

definition request_scene ::
  "('x, 'v, 'q, 'f, 'cfg, 'inp, 'b, 't, 'm, 'z) host \<Rightarrow> 'x scene_descriptor \<Rightarrow>
   ('x, 'v, 'cfg, 'b) level_component \<Rightarrow> ('x, 'v, 'cfg, 'b) level_component" where
  "request_scene h d lv =
     (case lv_system lv of
        None \<Rightarrow> lv\<lparr>lv_scene := 0\<rparr>
      | Some sys \<Rightarrow> (case request_create_scene h d sys of (scene, sys) \<Rightarrow> lv\<lparr>lv_scene := scene, lv_system := Some sys\<rparr>))"

definition try_build ::
  "('x, 'v, 'q, 'f, 'cfg, 'inp, 'b, 't, 'm, 'z) host \<Rightarrow> 'x asset_view \<Rightarrow>
   ('x, 'v, 'cfg, 'b) level_component \<Rightarrow> ('x, 'v, 'cfg, 'b) level_component" where
  "try_build h assets lv =
     (if lv_lifecycle lv \<noteq> lc_building \<or> lv_scene lv \<noteq> 0 \<or> (\<exists>r \<in> set (lv_registrations lv). assets (prefab_of r) = None)
      then lv
      else (case build_descriptor (az_is_finite (h_math h)) assets (lv_config lv) (lv_registrations lv) of
              Inl failure \<Rightarrow> fail_build failure lv
            | Inr d \<Rightarrow>
                (let lv = request_scene h d lv
                 in if lv_scene lv = 0 then fail_build (failure_of rc_construction_failed []) lv
                    else lv\<lparr>lv_assets := [], lv_listening := Some (lv_scene lv)\<rparr>)))"

definition connect_asset ::
  "('x, 'v, 'q, 'f, 'cfg, 'inp, 'b, 't, 'm, 'z) host \<Rightarrow> 'x asset_view \<Rightarrow> resolved_registration \<Rightarrow>
   ('x, 'v, 'cfg, 'b) level_component \<Rightarrow> ('x, 'v, 'cfg, 'b) level_component" where
  "connect_asset h assets r lv =
     (if lv_lifecycle lv \<noteq> lc_building \<or> lv_scene lv \<noteq> 0 then lv
      else let asset = prefab_of r;
               lv = (if asset \<in> set (lv_assets lv) then lv
                     else let lv = lv\<lparr>lv_assets := lv_assets lv @ [asset]\<rparr>
                          in if assets asset \<noteq> None then try_build h assets lv else lv)
           in if lv_lifecycle lv = lc_building \<and> lv_scene lv = 0
              then lv\<lparr>lv_sent := lv_sent lv @ [Queue_load asset]\<rparr> else lv)"

definition begin_build ::
  "('x, 'v, 'q, 'f, 'cfg, 'inp, 'b, 't, 'm, 'z) host \<Rightarrow> 'x asset_view \<Rightarrow> resolved_registration list \<Rightarrow>
   ('x, 'v, 'cfg, 'b) level_component \<Rightarrow> ('x, 'v, 'cfg, 'b) level_component" where
  "begin_build h assets rs lv =
     (if lv_lifecycle lv \<noteq> lc_collecting then fail_build (failure_of rc_registration_closed []) lv
      else let lv = lv\<lparr>lv_lifecycle := lc_building, lv_registrations := rs\<rparr>
           in if rs = [] \<and> lvc_permanent_nodes (lv_config lv) = [] then fail_build (failure_of rc_empty_scene []) lv
              else try_build h assets (fold (connect_asset h assets) rs lv))"

definition on_asset_ready ::
  "('x, 'v, 'q, 'f, 'cfg, 'inp, 'b, 't, 'm, 'z) host \<Rightarrow> 'x asset_view \<Rightarrow>
   ('x, 'v, 'cfg, 'b) level_component \<Rightarrow> ('x, 'v, 'cfg, 'b) level_component" where
  "on_asset_ready h assets lv = try_build h assets lv"

definition asset_failure :: "asset_id \<Rightarrow> resolved_registration list \<Rightarrow> scene_polytree_failure" where
  "asset_failure asset rs =
     \<lparr>f_code = rc_asset_load_failed,
      f_registration_key = (case find (\<lambda>r. prefab_of r = asset) rs of None \<Rightarrow> [] | Some r \<Rightarrow> prd_key (rr_descriptor r)),
      f_asset_id = asset, f_node_id = []\<rparr>"

definition on_asset_error :: "asset_id \<Rightarrow> ('x, 'v, 'cfg, 'b) level_component \<Rightarrow> ('x, 'v, 'cfg, 'b) level_component" where
  "on_asset_error asset lv = fail_build (asset_failure asset (lv_registrations lv)) lv"

definition on_asset_canceled :: "asset_id \<Rightarrow> ('x, 'v, 'cfg, 'b) level_component \<Rightarrow> ('x, 'v, 'cfg, 'b) level_component" where
  "on_asset_canceled asset lv = fail_build (asset_failure asset (lv_registrations lv)) lv"

definition on_scene_ready :: "scene_handle \<Rightarrow> ('x, 'v, 'cfg, 'b) level_component \<Rightarrow> ('x, 'v, 'cfg, 'b) level_component" where
  "on_scene_ready scene lv =
     (if lv_lifecycle lv \<noteq> lc_building \<or> scene \<noteq> lv_scene lv then lv
      else lv\<lparr>lv_lifecycle := lc_ready, lv_listening := None,
             lv_sent := lv_sent lv @ map (\<lambda>r. Registration_ready (rr_owner r) (rr_token r)
               \<lparr>ph_scene = lv_scene lv, ph_partition = rr_partition r, ph_generation = 1\<rparr>) (lv_registrations lv)\<rparr>)"

definition on_scene_failed ::
  "scene_handle \<Rightarrow> scene_polytree_failure \<Rightarrow> ('x, 'v, 'cfg, 'b) level_component \<Rightarrow> ('x, 'v, 'cfg, 'b) level_component" where
  "on_scene_failed scene failure lv = (if scene = lv_scene lv then fail_build failure lv else lv)"

subsection \<open>Activation\<close>

definition level_activate :: "('x, 'v, 'cfg, 'b) level_component \<Rightarrow> ('x, 'v, 'cfg, 'b) level_component" where
  "level_activate lv =
     (let lv = lv\<lparr>lv_lifecycle := lc_collecting, lv_failure := no_failure\<rparr>
      in case lv_system lv of
           None \<Rightarrow> fail_build (failure_of rc_scene_not_found []) lv
         | Some sys \<Rightarrow>
             (case register_scene_entity (lv_entity lv) (lvc_default (lv_config lv)) sys of
                (code, sys) \<Rightarrow>
                  (let lv = lv\<lparr>lv_system := Some sys\<rparr>
                   in if code \<noteq> rc_success then fail_build (failure_of code []) lv else lv)))"

definition level_deactivate ::
  "('x, 'v, 'q, 'f, 'cfg, 'inp, 'b, 't, 'm, 'z) host \<Rightarrow> ('x, 'v, 'cfg, 'b) level_component \<Rightarrow>
   ('x, 'v, 'cfg, 'b) level_component" where
  "level_deactivate h lv =
     lv\<lparr>lv_lifecycle := lc_destroying, lv_assets := [], lv_listening := None,
       lv_system := map_option (\<lambda>sys. destroy_scene h (lv_scene lv) (unregister_scene_entity (lv_entity lv) sys)) (lv_system lv),
       lv_scene := 0, lv_registrations := []\<rparr>"

subsection \<open>Runs\<close>

text \<open>
  What can reach an active component: the build, asset events while it is connected to the asset, scene
  events while it listens to the scene, and anything else that happens to the system component.
\<close>

inductive level_step ::
  "('x, 'v, 'q, 'f, 'cfg, 'inp, 'b, 't, 'm, 'z) host \<Rightarrow> ('x, 'v, 'cfg, 'b) level_component \<Rightarrow>
   ('x, 'v, 'cfg, 'b) level_component \<Rightarrow> bool" for h where
  step_begin: "lv_lifecycle lv = lc_collecting \<Longrightarrow> level_step h lv (begin_build h assets rs lv)"
| step_asset_ready: "asset \<in> set (lv_assets lv) \<Longrightarrow> level_step h lv (on_asset_ready h assets lv)"
| step_asset_error: "asset \<in> set (lv_assets lv) \<Longrightarrow> level_step h lv (on_asset_error asset lv)"
| step_asset_canceled: "asset \<in> set (lv_assets lv) \<Longrightarrow> level_step h lv (on_asset_canceled asset lv)"
| step_scene_ready: "lv_listening lv = Some scene \<Longrightarrow> level_step h lv (on_scene_ready scene lv)"
| step_scene_failed: "lv_listening lv = Some scene \<Longrightarrow> level_step h lv (on_scene_failed scene failure lv)"
| step_system: "level_step h lv (lv\<lparr>lv_system := sys\<rparr>)"

inductive level_run ::
  "('x, 'v, 'q, 'f, 'cfg, 'inp, 'b, 't, 'm, 'z) host \<Rightarrow> ('x, 'v, 'cfg, 'b) level_component \<Rightarrow> bool" for h where
  level_starts: "level_run h (level_activate (new_level entity config sys))"
| level_steps: "level_run h lv \<Longrightarrow> level_step h lv lv' \<Longrightarrow> level_run h lv'"

text \<open>What the owners have been told.\<close>

type_synonym level_answer = "entity_id \<times> registration_token \<times> (scene_polytree_failure + spawner_handle)"

fun level_answer :: "level_event \<Rightarrow> level_answer list" where
  "level_answer (Registration_ready owner token spawner) = [(owner, token, Inr spawner)]"
| "level_answer (Registration_refused owner token failure) = [(owner, token, Inl failure)]"
| "level_answer (Queue_load asset) = []"

definition level_answers :: "('x, 'v, 'cfg, 'b) level_component \<Rightarrow> level_answer list" where
  "level_answers lv = concat (map level_answer (lv_sent lv))"

definition accepted_answers :: "scene_handle \<Rightarrow> resolved_registration list \<Rightarrow> level_answer list" where
  "accepted_answers scene rs =
     map (\<lambda>r. (rr_owner r, rr_token r, Inr \<lparr>ph_scene = scene, ph_partition = rr_partition r, ph_generation = 1\<rparr>)) rs"

definition refused_answers :: "scene_polytree_failure \<Rightarrow> resolved_registration list \<Rightarrow> level_answer list" where
  "refused_answers failure rs = map (\<lambda>r. (rr_owner r, rr_token r, Inl failure)) rs"

definition level_ok :: "('x, 'v, 'cfg, 'b) level_component \<Rightarrow> bool" where
  "level_ok lv \<longleftrightarrow>
     (case lv_lifecycle lv of
        lc_collecting \<Rightarrow> lv_registrations lv = [] \<and> level_answers lv = [] \<and> lv_scene lv = 0 \<and> lv_assets lv = [] \<and> lv_listening lv = None
      | lc_building \<Rightarrow> level_answers lv = [] \<and>
          (if lv_scene lv = 0 then lv_listening lv = None else lv_listening lv = Some (lv_scene lv) \<and> lv_assets lv = [])
      | lc_ready \<Rightarrow> level_answers lv = accepted_answers (lv_scene lv) (lv_registrations lv) \<and> lv_scene lv \<noteq> 0 \<and>
          lv_assets lv = [] \<and> lv_listening lv = None
      | lc_failed \<Rightarrow> level_answers lv = refused_answers (lv_failure lv) (lv_registrations lv) \<and>
          lv_assets lv = [] \<and> lv_listening lv = None
      | lc_destroying \<Rightarrow> False)"

lemma level_answers_send:
  "level_answers (lv\<lparr>lv_sent := lv_sent lv @ map (\<lambda>r. Registration_refused (rr_owner r) (rr_token r) f) rs\<rparr>) =
    level_answers lv @ refused_answers f rs"
  "level_answers (lv\<lparr>lv_sent := lv_sent lv @ map (\<lambda>r. Registration_ready (rr_owner r) (rr_token r)
      \<lparr>ph_scene = s, ph_partition = rr_partition r, ph_generation = 1\<rparr>) rs\<rparr>) = level_answers lv @ accepted_answers s rs"
  "level_answers (lv\<lparr>lv_sent := lv_sent lv @ [Queue_load a]\<rparr>) = level_answers lv"
  by (simp_all add: level_answers_def refused_answers_def accepted_answers_def comp_def concat_map_singleton)

lemma level_answers_same [simp]:
  "level_answers (lv\<lparr>lv_lifecycle := l\<rparr>) = level_answers lv" "level_answers (lv\<lparr>lv_failure := f\<rparr>) = level_answers lv"
  "level_answers (lv\<lparr>lv_assets := as\<rparr>) = level_answers lv" "level_answers (lv\<lparr>lv_listening := li\<rparr>) = level_answers lv"
  "level_answers (lv\<lparr>lv_scene := s\<rparr>) = level_answers lv" "level_answers (lv\<lparr>lv_system := sys\<rparr>) = level_answers lv"
  "level_answers (lv\<lparr>lv_registrations := rs\<rparr>) = level_answers lv"
  by (simp_all add: level_answers_def)

text \<open>A failure answers every registration if none was answered before.\<close>

lemma fail_build_ok:
  assumes "level_answers lv = []" and "lv_lifecycle lv \<noteq> lc_destroying"
  shows "level_ok (fail_build failure lv)" and "lv_lifecycle (fail_build failure lv) = lc_failed"
  using assms level_answers_send(1) [of "lv\<lparr>lv_failure := failure, lv_lifecycle := lc_failed, lv_assets := [], lv_listening := None\<rparr>"
      failure "lv_registrations lv"]
  by (simp_all add: fail_build_def notify_failure_def level_ok_def)

lemma request_scene_fields [simp]:
  "lv_lifecycle (request_scene h d lv) = lv_lifecycle lv" "level_answers (request_scene h d lv) = level_answers lv"
  "lv_registrations (request_scene h d lv) = lv_registrations lv" "lv_config (request_scene h d lv) = lv_config lv"
  by (simp_all add: request_scene_def split: option.split prod.split)

lemma try_build_ok:
  assumes "level_ok lv"
  shows "level_ok (try_build h assets lv)"
    and "lv_lifecycle lv = lc_building \<Longrightarrow> lv_lifecycle (try_build h assets lv) \<in> {lc_building, lc_failed}"
proof -
  have "level_ok (try_build h assets lv) \<and>
      (lv_lifecycle lv = lc_building \<longrightarrow> lv_lifecycle (try_build h assets lv) \<in> {lc_building, lc_failed})"
  proof (cases "lv_lifecycle lv \<noteq> lc_building \<or> lv_scene lv \<noteq> 0 \<or> (\<exists>r \<in> set (lv_registrations lv). assets (prefab_of r) = None)")
    case True
    with assms show ?thesis by (simp add: try_build_def)
  next
    case False
    then have open_build: "level_answers lv = []" "lv_lifecycle lv = lc_building" using assms by (auto simp: level_ok_def)
    show ?thesis
    proof (cases "build_descriptor (az_is_finite (h_math h)) assets (lv_config lv) (lv_registrations lv)")
      case (Inl failure)
      have "try_build h assets lv = fail_build failure lv" using False Inl by (auto simp: try_build_def)
      with open_build show ?thesis by (simp add: fail_build_ok)
    next
      case (Inr d)
      let ?lv = "request_scene h d lv"
      show ?thesis
      proof (cases "lv_scene ?lv = 0")
        case True
        have "try_build h assets lv = fail_build (failure_of rc_construction_failed []) ?lv"
          using False Inr True by (auto simp: try_build_def Let_def)
        with open_build show ?thesis by (simp add: fail_build_ok)
      next
        case scene: False
        have "try_build h assets lv = ?lv\<lparr>lv_assets := [], lv_listening := Some (lv_scene ?lv)\<rparr>"
          using False Inr scene by (auto simp: try_build_def Let_def)
        with scene open_build show ?thesis by (simp add: level_ok_def)
      qed
    qed
  qed
  then show "level_ok (try_build h assets lv)"
    and "lv_lifecycle lv = lc_building \<Longrightarrow> lv_lifecycle (try_build h assets lv) \<in> {lc_building, lc_failed}" by simp_all
qed

lemma connect_asset_ok:
  fixes lv :: "('x, 'v, 'cfg, 'b) level_component"
  assumes "level_ok lv"
  shows "level_ok (connect_asset h assets r lv)"
proof (cases "lv_lifecycle lv \<noteq> lc_building \<or> lv_scene lv \<noteq> 0")
  case True
  with assms show ?thesis by (auto simp: connect_asset_def)
next
  case False
  let ?lv1 = "lv\<lparr>lv_assets := lv_assets lv @ [prefab_of r]\<rparr>"
  have connected: "level_ok ?lv1" using assms False by (auto simp: level_ok_def)
  have send: "level_ok (if lv_lifecycle s = lc_building \<and> lv_scene s = 0 then s\<lparr>lv_sent := lv_sent s @ [Queue_load (prefab_of r)]\<rparr> else s)"
    if "level_ok s" for s :: "('x, 'v, 'cfg, 'b) level_component"
    using that by (auto simp: level_ok_def level_answers_send(3))
  from send [OF assms] send [OF connected] send [OF try_build_ok(1) [OF connected, of h assets]] False show ?thesis
    by (auto simp: connect_asset_def Let_def)
qed

lemma begin_build_ok:
  fixes lv :: "('x, 'v, 'cfg, 'b) level_component"
  assumes "level_ok lv" and "lv_lifecycle lv = lc_collecting"
  shows "level_ok (begin_build h assets rs lv)"
proof -
  let ?lv = "lv\<lparr>lv_lifecycle := lc_building, lv_registrations := rs\<rparr>"
  have start: "level_ok ?lv" "level_answers ?lv = []" using assms by (simp_all add: level_ok_def)
  have "level_ok s \<Longrightarrow> level_ok (fold (connect_asset h assets) rs' s)" for rs' and s :: "('x, 'v, 'cfg, 'b) level_component"
    by (induction rs' arbitrary: s) (simp_all add: connect_asset_ok)
  from this [OF start(1)] start(2) assms(2) show ?thesis
    by (auto simp: begin_build_def Let_def intro: try_build_ok(1) fail_build_ok(1))
qed

lemma level_activate_ok:
  fixes sys :: "('x, 'v, 'cfg, 'b) system_component option"
  shows "level_ok (level_activate (new_level entity config sys))"
proof -
  have fresh: "level_answers (new_level entity config sys) = []" by (simp add: new_level_def level_answers_def)
  show ?thesis
    by (auto simp: level_activate_def Let_def fresh fail_build_ok split: option.split prod.split)
      (simp_all add: new_level_def level_ok_def level_answers_def fail_build_ok)
qed

lemma level_step_ok:
  assumes "level_step h lv lv'" and "level_ok lv"
  shows "level_ok lv'"
  using assms
proof cases
  case (step_begin assets rs)
  with begin_build_ok assms(2) show ?thesis by blast
next
  case (step_asset_ready asset assets)
  with try_build_ok(1) assms(2) show ?thesis by (simp add: on_asset_ready_def)
next
  case (step_asset_error asset)
  with assms(2) have "level_answers lv = []" "lv_lifecycle lv = lc_building" by (auto simp: level_ok_def split: lifecycle.splits)
  with step_asset_error show ?thesis by (simp add: on_asset_error_def fail_build_ok)
next
  case (step_asset_canceled asset)
  with assms(2) have "level_answers lv = []" "lv_lifecycle lv = lc_building" by (auto simp: level_ok_def split: lifecycle.splits)
  with step_asset_canceled show ?thesis by (simp add: on_asset_canceled_def fail_build_ok)
next
  case (step_scene_ready scene)
  with assms(2) have "level_answers lv = []" "lv_lifecycle lv = lc_building" "scene = lv_scene lv" "lv_scene lv \<noteq> 0" "lv_assets lv = []"
    by (auto simp: level_ok_def split: lifecycle.splits if_splits)
  with step_scene_ready show ?thesis
    using level_answers_send(2) [of "lv\<lparr>lv_lifecycle := lc_ready, lv_listening := None\<rparr>" "lv_scene lv" "lv_registrations lv"]
    by (simp add: on_scene_ready_def level_ok_def)
next
  case (step_scene_failed scene failure)
  with assms(2) have "level_answers lv = []" "lv_lifecycle lv = lc_building" by (auto simp: level_ok_def split: lifecycle.splits)
  with step_scene_failed assms(2) show ?thesis by (simp add: on_scene_failed_def fail_build_ok)
next
  case (step_system sys)
  with assms(2) show ?thesis by (cases "lv_lifecycle lv") (simp_all add: level_ok_def)
qed

lemma level_run_ok: "level_run h lv \<Longrightarrow> level_ok lv"
  by (induction rule: level_run.induct) (auto intro: level_activate_ok level_step_ok)

subsection \<open>Properties\<close>

text \<open>C33. Every registration of a build is answered once. In every run nothing is told before the build is decided; when
the scene is ready each owner has its spawner handle in registration order, when the build fails each has the failure; and
once all assets of an undecided build are ready, the next asset event decides it or asks for the scene.\<close>

theorem builds_answer_each_registration_once:
  assumes "level_run h lv"
  shows "lv_lifecycle lv \<noteq> lc_destroying \<and>
    (lv_lifecycle lv = lc_collecting \<or> lv_lifecycle lv = lc_building \<longrightarrow> level_answers lv = []) \<and>
    (lv_lifecycle lv = lc_ready \<longrightarrow>
      lv_scene lv \<noteq> 0 \<and> level_answers lv = accepted_answers (lv_scene lv) (lv_registrations lv)) \<and>
    (lv_lifecycle lv = lc_failed \<longrightarrow> level_answers lv = refused_answers (lv_failure lv) (lv_registrations lv)) \<and>
    (lv_lifecycle lv = lc_building \<and> lv_scene lv = 0 \<and> (\<forall>r \<in> set (lv_registrations lv). assets (prefab_of r) \<noteq> None) \<longrightarrow>
      lv_lifecycle (on_asset_ready h assets lv) = lc_failed \<or>
      lv_scene (on_asset_ready h assets lv) \<noteq> 0 \<and>
      lv_listening (on_asset_ready h assets lv) = Some (lv_scene (on_asset_ready h assets lv)))"
proof (intro conjI impI)
  note ok = level_run_ok [OF assms]
  show "lv_lifecycle lv \<noteq> lc_destroying" using ok by (auto simp: level_ok_def)
  show "level_answers lv = []" if "lv_lifecycle lv = lc_collecting \<or> lv_lifecycle lv = lc_building"
    using ok that by (auto simp: level_ok_def)
  show "lv_scene lv \<noteq> 0" "level_answers lv = accepted_answers (lv_scene lv) (lv_registrations lv)" if "lv_lifecycle lv = lc_ready"
    using ok that by (auto simp: level_ok_def)
  show "level_answers lv = refused_answers (lv_failure lv) (lv_registrations lv)" if "lv_lifecycle lv = lc_failed"
    using ok that by (auto simp: level_ok_def)
  assume ready: "lv_lifecycle lv = lc_building \<and> lv_scene lv = 0 \<and> (\<forall>r \<in> set (lv_registrations lv). assets (prefab_of r) \<noteq> None)"
  then have undecided: "level_answers lv = []" "lv_lifecycle lv \<noteq> lc_destroying" using ok by (auto simp: level_ok_def)
  have no_wait: "\<not> (\<exists>r \<in> set (lv_registrations lv). assets (prefab_of r) = None)" using ready by auto
  show "lv_lifecycle (on_asset_ready h assets lv) = lc_failed \<or>
      lv_scene (on_asset_ready h assets lv) \<noteq> 0 \<and>
      lv_listening (on_asset_ready h assets lv) = Some (lv_scene (on_asset_ready h assets lv))"
  proof (cases "build_descriptor (az_is_finite (h_math h)) assets (lv_config lv) (lv_registrations lv)")
    case (Inl failure)
    with ready no_wait undecided show ?thesis by (simp add: on_asset_ready_def try_build_def fail_build_ok)
  next
    case (Inr d)
    with ready no_wait undecided show ?thesis
      by (cases "lv_scene (request_scene h d lv) = 0") (simp_all add: on_asset_ready_def try_build_def Let_def fail_build_ok)
  qed
qed

text \<open>What a descriptor that could be built looks like.\<close>

lemma add_partition_simps [simp]:
  "add_partition is_finite assets r (Inl failure) = Inl failure"
  "add_partition is_finite assets r (Inr ps) =
    (if topology_succeeds (extract_entity_hierarchy is_finite (the (assets (prefab_of r))))
     then Inr (ps @ [\<lparr>pd_partition = rr_partition r, pd_capacity = prd_capacity (rr_descriptor r),
       pd_nodes = ptr_nodes (extract_entity_hierarchy is_finite (the (assets (prefab_of r))))\<rparr>])
     else Inl ((ptr_failure (extract_entity_hierarchy is_finite (the (assets (prefab_of r)))))
       \<lparr>f_registration_key := prd_key (rr_descriptor r), f_asset_id := prefab_of r\<rparr>))"
  by (simp_all add: add_partition_def Let_def)

lemma add_partitions:
  "fold (add_partition is_finite assets) rs (Inr ps) = Inr ps' \<Longrightarrow>
    \<exists>qs. ps' = ps @ qs \<and>
      list_all2 (\<lambda>r p. pd_partition p = rr_partition r \<and> pd_capacity p = prd_capacity (rr_descriptor r) \<and>
        valid_topology is_finite (pd_nodes p)) rs qs"
proof (induction rs arbitrary: ps)
  case (Cons r rs)
  let ?t = "extract_entity_hierarchy is_finite (the (assets (prefab_of r)))"
  have inl: "fold (add_partition is_finite assets) rs (Inl failure) = Inl failure" for failure
    by (induction rs) simp_all
  have ok: "topology_succeeds ?t"
    using Cons.prems inl by (cases "topology_succeeds ?t") simp_all
  let ?p = "\<lparr>pd_partition = rr_partition r, pd_capacity = prd_capacity (rr_descriptor r), pd_nodes = ptr_nodes ?t\<rparr>"
  from Cons.prems ok have "fold (add_partition is_finite assets) rs (Inr (ps @ [?p])) = Inr ps'"
    by simp
  from Cons.IH [OF this] obtain qs where "ps' = (ps @ [?p]) @ qs"
    "list_all2 (\<lambda>r p. pd_partition p = rr_partition r \<and> pd_capacity p = prd_capacity (rr_descriptor r) \<and>
        valid_topology is_finite (pd_nodes p)) rs qs" by blast
  with extraction_normalized [OF ok] show ?case by (intro exI [of _ "?p # qs"]) simp
qed simp

lemma permanent_nodes_nonempty:
  assumes "permanent_nodes is_finite config = Inr nodes" and "lvc_permanent_nodes config \<noteq> []"
  shows "nodes \<noteq> [] \<and> distinct (map nd_binding_id nodes)"
proof -
  from assms obtain r where r: "validate_and_normalize is_finite (lvc_permanent_nodes config) = Some r" "topology_succeeds r" "nodes = ptr_nodes r"
    by (auto simp: permanent_nodes_def split: option.splits if_splits)
  obtain r' where r': "validate_and_normalize is_finite (lvc_permanent_nodes config) = Some r'"
    "if valid_topology is_finite (lvc_permanent_nodes config)
      then ptr_failure r' = no_failure \<and> ptr_entities r' = [] \<and> normalized_from (lvc_permanent_nodes config) (ptr_nodes r')
      else diagnosis_holds is_finite (lvc_permanent_nodes config) (ptr_failure r') \<and> ptr_nodes r' = []"
    using validate_cases by blast
  have "r' = r" using r(1) r'(1) by simp
  moreover have "\<not> diagnosis_holds is_finite (lvc_permanent_nodes config) (ptr_failure r)"
    using r(2) by (auto simp: diagnosis_holds_def topology_succeeds_def)
  ultimately have norm: "valid_topology is_finite (lvc_permanent_nodes config)" "normalized_from (lvc_permanent_nodes config) (ptr_nodes r)"
    using r'(2) by (auto split: if_splits)
  then have same: "mset (ptr_nodes r) = mset (lvc_permanent_nodes config)" by (simp add: normalized_from_def)
  then have "mset (map nd_binding_id (ptr_nodes r)) = mset (map nd_binding_id (lvc_permanent_nodes config))" by simp
  then have "distinct (map nd_binding_id (ptr_nodes r))"
    using norm(1) mset_eq_imp_distinct_iff unfolding valid_topology_def by blast
  moreover have "ptr_nodes r \<noteq> []" using same assms(2) by auto
  ultimately show ?thesis by (simp add: r(3))
qed

lemma run_registration_count:
  fixes h :: "('x, 'v, 'q, 'f, 'cfg, 'inp, 'b, 't, 'm, 'z) host"
  assumes "system_run h n expected received sys" and "n < 2 ^ 64 - 1"
  shows "length (sy_registrations sys) \<le> n"
proof -
  note ok = run_registrations [OF assms]
  let ?tokens = "unat ` pr_token ` set (sy_registrations sys)"
  have "?tokens \<subseteq> {1..n}"
  proof
    fix k
    assume "k \<in> ?tokens"
    then obtain r where r: "r \<in> set (sy_registrations sys)" "k = unat (pr_token r)" by blast
    with ok have "pr_token r \<noteq> 0" "pr_token r < sy_next_registration sys" by (auto simp: registrations_ok_def)
    with r(2) ok show "k \<in> {1..n}" by (auto simp: word_less_nat_alt unat_gt_0 Suc_le_eq)
  qed
  then have "card ?tokens \<le> n" using card_mono [of "{1..n}"] by fastforce
  moreover have "card ?tokens = length (sy_registrations sys)"
  proof -
    have "card ?tokens = card (pr_token ` set (sy_registrations sys))" by (rule card_image) (simp add: inj_on_def word_unat_eq_iff)
    also have "\<dots> = length (map pr_token (sy_registrations sys))"
      using ok distinct_card [of "map pr_token (sy_registrations sys)"] by (simp add: registrations_ok_def)
    finally show ?thesis by simp
  qed
  ultimately show ?thesis by simp
qed

lemma word_of_nat_injD:
  assumes "word_of_nat a = (word_of_nat b :: u64)" and "a < 2 ^ 64" and "b < 2 ^ 64"
  shows "a = b"
  using arg_cong [OF assms(1), of unat] assms(2,3) by (simp add: unat_of_nat)

text \<open>The registrations of a build: numbered from 1, few enough for the numbers to differ, none without capacity.\<close>

lemma build_registrations:
  assumes "system_run h n expected received sys" and "n < 2 ^ 64 - 1" and "\<not> sy_collection_closed sys"
    and "Begin_build scene rs \<in> set (fst (on_root_spawnable_ready sys) :: 'x notification list)"
  shows "length rs < 2 ^ 64 - 1" "\<And>i. i < length rs \<Longrightarrow> rr_partition (rs ! i) = word_of_nat (i + 1)"
    "\<And>r. r \<in> set rs \<Longrightarrow> prd_capacity (rr_descriptor r) \<noteq> 0"
proof -
  note ok = run_registrations [OF assms(1,2), THEN conjunct1]
  let ?mine = "filter (\<lambda>r. registration_target sys r = Inr scene) (canonical sys)"
  have rs: "rs = numbered 1 ?mine"
    using assms(4) by (auto simp: ready_events [OF assms(3)] registration_failure_def split: sum.splits)
  have "length rs \<le> length (sy_registrations sys)" by (simp add: rs numbered_fields canonical_def le_trans [OF length_filter_le])
  then show "length rs < 2 ^ 64 - 1" using run_registration_count [OF assms(1,2)] assms(2) by simp
  show "rr_partition (rs ! i) = word_of_nat (i + 1)" if "i < length rs" for i
    using that by (simp add: rs numbered_fields)
  show "prd_capacity (rr_descriptor r) \<noteq> 0" if "r \<in> set rs" for r
  proof -
    from that have "rr_descriptor r \<in> set (map rr_descriptor (numbered 1 ?mine))" by (simp add: rs)
    then have "rr_descriptor r \<in> pr_descriptor ` set (sy_registrations sys)" by (auto simp: numbered_fields canonical_def)
    with ok show ?thesis by (auto simp: registrations_ok_def)
  qed
qed

text \<open>Partitions that follow such registrations.\<close>

lemma built_partitions:
  assumes each: "list_all2 (\<lambda>r p. pd_partition p = rr_partition r \<and> pd_capacity p = prd_capacity (rr_descriptor r) \<and> good (pd_nodes p)) rs ps"
    and few: "length rs < 2 ^ 64 - 1" and number: "\<And>i. i < length rs \<Longrightarrow> rr_partition (rs ! i) = word_of_nat (i + 1)"
    and capacities: "\<And>r. r \<in> set rs \<Longrightarrow> prd_capacity (rr_descriptor r) \<noteq> 0"
  shows "map pd_partition ps = map (\<lambda>i. word_of_nat (i + 1)) [0..<length rs]" "distinct (map pd_partition ps)"
    "map pd_capacity ps = map (\<lambda>r. prd_capacity (rr_descriptor r)) rs"
    "\<And>p. p \<in> set ps \<Longrightarrow> good (pd_nodes p) \<and> pd_partition p \<noteq> 0 \<and> pd_capacity p \<noteq> 0"
proof -
  have same: "length ps = length rs" using list_all2_lengthD [OF each] by simp
  show numbers: "map pd_partition ps = map (\<lambda>i. word_of_nat (i + 1)) [0..<length rs]"
    using list_all2_nthD [OF each] number by (intro nth_equalityI) (simp_all add: same)
  show "distinct (map pd_partition ps)"
    unfolding numbers distinct_map using few by (auto intro!: inj_onI dest!: word_of_nat_injD)
  show "map pd_capacity ps = map (\<lambda>r. prd_capacity (rr_descriptor r)) rs"
    using each by (induction rule: list_all2_induct) simp_all
  have nonzero: "(word_of_nat (i + 1) :: u64) \<noteq> 0" if "i < length rs" for i
    using that few word_of_nat_injD [of "i + 1" 0] by fastforce
  show "good (pd_nodes p) \<and> pd_partition p \<noteq> 0 \<and> pd_capacity p \<noteq> 0" if p: "p \<in> set ps" for p
  proof -
    from p obtain i where i: "i < length rs" "p = ps ! i" by (auto simp: in_set_conv_nth same)
    with list_all2_nthD [OF each this(1)] nonzero [OF this(1)] capacities [of "rs ! i"] number show ?thesis by simp
  qed
qed

text \<open>C34. A scene request is never refused for its descriptor. If the registrations a scene entity is given come from a
run of the system component, its time step and catch-up limit are positive and it has something to build, then a
descriptor that can be built passes every check of scene creation: partitions are numbered from 1, have the capacities
registered, and hold valid topologies with distinct binding ids.\<close>

theorem scene_requests_are_well_formed:
  fixes h :: "('x, 'v, 'q, 'f, 'cfg, 'inp, 'b, 't, 'm, 'z) host"
  assumes "system_run h n expected received sys" and "n < 2 ^ 64 - 1" and "\<not> sy_collection_closed sys"
    and "Begin_build scene rs \<in> set (fst (on_root_spawnable_ready sys) :: 'x notification list)"
    and "0 < lvc_fixed_step config" and "lvc_max_catch_up config \<noteq> 0"
    and "rs \<noteq> [] \<or> lvc_permanent_nodes config \<noteq> []"
    and "build_descriptor (az_is_finite (h_math h)) assets config rs = Inr d"
  shows "\<not> invalid_descriptor d \<and> fst (request_create_scene h d s) = sy_next_scene s \<and>
    map pd_partition (sd_partitions d) = map (\<lambda>i. word_of_nat (i + 1)) [0..<length rs] \<and> distinct (map pd_partition (sd_partitions d)) \<and>
    map pd_capacity (sd_partitions d) = map (\<lambda>r. prd_capacity (rr_descriptor r)) rs \<and>
    (\<forall>p \<in> set (sd_partitions d). valid_topology (az_is_finite (h_math h)) (pd_nodes p)) \<and>
    distinct (map nd_binding_id (sd_permanent_nodes d))"
proof -
  from assms(8) obtain permanent where permanent: "permanent_nodes (az_is_finite (h_math h)) config = Inr permanent"
    and parts: "fold (add_partition (az_is_finite (h_math h)) assets) rs (Inr []) = Inr (sd_partitions d)"
    and d: "sd_permanent_nodes d = permanent" "sd_fixed_step d = lvc_fixed_step config" "sd_max_catch_up d = lvc_max_catch_up config"
    by (auto simp: build_descriptor_def split: sum.splits)
  have each: "list_all2 (\<lambda>r p. pd_partition p = rr_partition r \<and> pd_capacity p = prd_capacity (rr_descriptor r) \<and>
      valid_topology (az_is_finite (h_math h)) (pd_nodes p)) rs (sd_partitions d)" using add_partitions [OF parts] by auto
  note built = built_partitions [OF each build_registrations [OF assms(1-4)]]
  have permanent_ok: "distinct (map nd_binding_id permanent)" "lvc_permanent_nodes config \<noteq> [] \<longrightarrow> permanent \<noteq> []"
    using permanent_nodes_nonempty [OF permanent] permanent by (cases "lvc_permanent_nodes config = []"; simp add: permanent_nodes_def)+
  have "\<not> invalid_descriptor d"
    using built(4) assms(5-7) permanent_ok(2) list_all2_lengthD [OF each]
    by (auto simp: invalid_descriptor_def d valid_topology_def)
  moreover from this have "fst (request_create_scene h d s) = sy_next_scene s"
    by (auto simp: request_create_scene_def invalid_descriptor_def Let_def)
  ultimately show ?thesis using built permanent_ok(1) d(1) by (intro conjI ballI) simp_all
qed

text \<open>The scene entity of the registrations above, with its one prefab: a root entity with a child.\<close>

definition demo_config :: "int level_config" where
  "demo_config = \<lparr>lvc_default = True, lvc_fixed_step = 16, lvc_max_catch_up = 4, lvc_permanent_nodes = []\<rparr>"

definition demo_assets :: "int asset_view" where
  "demo_assets asset =
     (if asset = (3, 0)
      then Some [Some \<lparr>ev_id = Some 40, ev_name = ''a'', ev_transform = Some \<lparr>tv_parent = None, tv_local = 1\<rparr>\<rparr>,
                 Some \<lparr>ev_id = Some 41, ev_name = ''b'', ev_transform = Some \<lparr>tv_parent = Some 40, tv_local = 10\<rparr>\<rparr>]
      else None)"

definition demo_build :: "resolved_registration list" where
  "demo_build = [\<lparr>rr_token = 1, rr_owner = Some 8, rr_partition = 1, rr_descriptor = demo_prefab\<rparr>]"

definition demo_level :: "(int, int, unit, unit) level_component" where
  "demo_level = begin_build demo_host (\<lambda>_. None) demo_build (level_activate (new_level (Some 5) demo_config (Some new_system)))"

lemma demo_level_run: "level_run demo_host demo_level"
  unfolding demo_level_def
  by (rule level_steps [OF level_starts step_begin])
    (simp add: level_activate_def new_level_def register_scene_entity_def new_system_def Let_def)

theorem builds_answer_each_registration_once_witness:
  "level_answers demo_level = [] \<and>
   (if lv_scene (on_asset_ready demo_host demo_assets demo_level) = 0
    then lv_lifecycle (on_asset_ready demo_host demo_assets demo_level) = lc_failed
    else lv_lifecycle (on_asset_ready demo_host demo_assets demo_level) = lc_failed \<or>
      lv_listening (on_asset_ready demo_host demo_assets demo_level) =
        Some (lv_scene (on_asset_ready demo_host demo_assets demo_level)))"
proof -
  have fields: "lv_lifecycle demo_level = lc_building" "lv_scene demo_level = 0" "lv_registrations demo_level = demo_build"
    by (simp_all add: demo_level_def level_activate_def new_level_def register_scene_entity_def new_system_def Let_def
        begin_build_def connect_asset_def try_build_def demo_build_def)
  moreover have "\<forall>r \<in> set demo_build. demo_assets (prefab_of r) \<noteq> None"
    by (simp add: demo_build_def demo_assets_def prefab_of_def demo_prefab_def)
  ultimately show ?thesis
    using builds_answer_each_registration_once [OF demo_level_run, of demo_assets] by auto
qed

lemma demo_extracted:
  "extract_entity_hierarchy (az_is_finite int_math) (the (demo_assets (3, 0))) =
     \<lparr>ptr_nodes = [\<lparr>nd_binding_id = ''a'', nd_parent_binding_id = [], nd_initial_local = 1\<rparr>,
        \<lparr>nd_binding_id = ''a/b'', nd_parent_binding_id = ''a'', nd_initial_local = 10\<rparr>],
      ptr_entities = [Some 40, Some 41], ptr_failure = no_failure\<rparr>"
  by code_simp

theorem scene_requests_are_well_formed_witness:
  "\<exists>d. build_descriptor (az_is_finite int_math) demo_assets demo_config demo_build = Inr d \<and> \<not> invalid_descriptor d \<and>
     map pd_partition (sd_partitions d) = [1]"
proof -
  note fields = demo_registered_fields
  have begun: "Begin_build (Some 5) demo_build \<in> set (fst (on_root_spawnable_ready demo_registered))"
    by (simp add: on_root_spawnable_ready_def fields default_scenes_def registration_key_def resolve_step_def targets_scene_def
        demo_build_def demo_prefab_def Let_def)
  have n: "(3::nat) < 2 ^ 64 - 1" by simp
  obtain d where d: "build_descriptor (az_is_finite (h_math demo_host)) demo_assets demo_config demo_build = Inr d"
    using demo_extracted
    by (simp add: build_descriptor_def permanent_nodes_def demo_config_def demo_build_def prefab_of_def demo_prefab_def
        demo_host_def topology_succeeds_def no_failure_def)
  have "demo_build \<noteq> []" by (simp add: demo_build_def)
  with scene_requests_are_well_formed [OF demo_registered_run n fields(3) begun _ _ _ d] d show ?thesis
    by (simp add: demo_config_def demo_host_def demo_build_def)
qed

end
