(* ===== verification/Spawner.thy ===== *)
theory Spawner
  imports Level_Component
begin

section \<open>The spawner component\<close>

text \<open>
  \<open>ScenePolytreeSpawnerComponent.cpp\<close>: one prefab, its registration and the instances spawned from it. Each
  instance runs through a sequence of slot commands of the system component and of requests to
  the engine's spawn service; each request is answered by a notification.

  The state carries what the code reaches through interfaces: the system component (\<open>None\<close> while it is
  not registered), whether the spawn service is, the ticket the service hands out next, the world
  transform of the spawner's entity, and the list of what has been sent. Notifications queued on the tick bus
  and those sent at once are sent in program order; handlers of notifications that call back are
  not modelled. An enumeration value outside its enumeration is \<open>None\<close>.
\<close>

subsection \<open>Data\<close>

datatype spawn_trigger_mode = tm_on_ready | tm_external_requests_only | tm_on_ready_and_external_requests

datatype default_placement = dp_spawner_world_transform

datatype spawner_lifecycle = spl_inactive | spl_registering | spl_ready | spl_failed | spl_deactivating

datatype spawn_error =
    spe_none
  | spe_not_ready
  | spe_external_requests_disabled
  | spe_shutting_down
  | spe_invalid_configuration
  | spe_invalid_prefab
  | spe_invalid_placement
  | spe_no_capacity
  | spe_scene_command_failed
  | spe_spawn_service_unavailable
  | spe_o3de_spawn_failed
  | spe_hierarchy_mismatch
  | spe_invalid_binding
  | spe_duplicate_binding
  | spe_inactive_entity
  | spe_invalid_transform
  | spe_competing_transform_parent
  | spe_cancelled
  | spe_cleanup_failed
  | spe_controller_factory_not_found
  | spe_invalid_controller_configuration
  | spe_controller_target_not_found
  | spe_cross_instance_controller_target
  | spe_controller_write_conflict
  | spe_controller_construction_failed

datatype despawn_error =
    dse_none
  | dse_not_ready
  | dse_shutting_down
  | dse_stale_instance
  | dse_instance_not_active
  | dse_scene_command_failed
  | dse_despawn_service_unavailable
  | dse_cleanup_failed

text \<open>\<open>SpawnRequestId\<close> and \<open>DespawnRequestId\<close> have the same fields.\<close>

record request_id =
  rq_generation :: u32
  rq_value :: u64

definition no_request :: request_id where
  "no_request = \<lparr>rq_generation = 0, rq_value = 0\<rparr>"

record request_context =
  rx_entity :: entity_id
  rx_correlation :: u64

record 'x spawn_request =
  sq_context :: request_context
  sq_explicit :: bool
  sq_world :: 'x

record spawn_failure =
  sf_error :: spawn_error
  sf_scene :: result_code
  sf_cleanup :: result_code

definition spawn_failure_of :: "spawn_error \<Rightarrow> spawn_failure" where
  "spawn_failure_of error = \<lparr>sf_error = error, sf_scene = rc_success, sf_cleanup = rc_success\<rparr>"

record despawn_failure =
  df_error :: despawn_error
  df_scene :: result_code
  df_cleanup :: result_code

definition despawn_failure_of :: "despawn_error \<Rightarrow> despawn_failure" where
  "despawn_failure_of error = \<lparr>df_error = error, df_scene = rc_success, df_cleanup = rc_success\<rparr>"

record spawner_failure =
  pf_error :: spawn_error
  pf_registration :: scene_polytree_failure

record spawner_config =
  spc_scene_entity :: entity_id
  spc_prefab :: asset_id
  spc_capacity :: u32
  spc_default_placement :: "default_placement option"
  spc_trigger_mode :: "spawn_trigger_mode option"
  spc_initial_spawn_count :: u32

datatype spawn_boundary = sb_cancelable | sb_cancelled | sb_committed

text \<open>
  What the callbacks of the spawn service share with the instance they are for. Both hold a pointer to it,
  and the callbacks may outlive the instance: the states are kept in a store, and an index is the pointer.
\<close>

record 'x callback_state =
  cb_boundary :: spawn_boundary
  cb_error :: spawn_error
  cb_topology :: "'x node_descriptor list"
  cb_placement :: 'x
  cb_hierarchy :: "entity_id list"

definition new_callback_state :: "'x node_descriptor list \<Rightarrow> 'x \<Rightarrow> 'x callback_state" where
  "new_callback_state topology placement =
     \<lparr>cb_boundary = sb_cancelable, cb_error = spe_none, cb_topology = topology, cb_placement = placement, cb_hierarchy = []\<rparr>"

datatype instance_state =
    is_resetting
  | is_placing
  | is_spawning
  | is_binding
  | is_attaching_controllers
  | is_active
  | is_detaching_controllers
  | is_unbinding
  | is_despawning_entities
  | is_cleanup_resetting
  | is_releasing

record spawn_ticket =
  tk_id :: u32
  tk_valid :: bool

record ('x, 'cfg) instance_record =
  ir_spawn_request :: request_id
  ir_request :: "'x spawn_request"
  ir_instance :: instance_handle
  ir_placement :: 'x
  ir_state :: instance_state
  ir_pending :: scene_command_id
  ir_pending_type :: scene_command_type
  ir_ticket :: "spawn_ticket option"
  ir_callback :: nat
  ir_declarations :: "'cfg controller_declaration list"
  ir_spawn_failure :: spawn_failure
  ir_despawn_request :: request_id
  ir_despawn_failure :: despawn_failure
  ir_terminal :: bool
  ir_attached :: bool

text \<open>\<open>Spawn_all\<close> and \<open>Despawn_all\<close> are requests to the spawn service, with what their completion brings back.\<close>

datatype spawner_event =
    Spawner_ready spawner_handle
  | Spawner_failed spawner_failure
  | Spawn_succeeded request_id instance_handle request_context
  | Spawn_failed request_id spawn_failure request_context
  | Despawn_succeeded request_id instance_handle
  | Despawn_failed request_id instance_handle despawn_failure
  | Spawn_all u32 request_id u32 nat
  | Despawn_all u32 request_id u32
  | Despawn_at_once u32

record ('x, 'v, 'cfg, 'b) spawner =
  sw_entity :: entity_id
  sw_config :: spawner_config
  sw_lifecycle :: spawner_lifecycle
  sw_generation :: u32
  sw_next_spawn :: u64
  sw_next_despawn :: u64
  sw_registration :: registration_token
  sw_spawner :: spawner_handle
  sw_topology :: "'x node_descriptor list"
  sw_instances :: "(u64 \<times> ('x, 'cfg) instance_record) list"
  sw_callbacks :: "'x callback_state list"
  sw_system :: "('x, 'v, 'cfg, 'b) system_component option"
  sw_service :: bool
  sw_ticket :: spawn_ticket
  sw_world :: 'x
  sw_sent :: "spawner_event list"

definition send :: "spawner_event list \<Rightarrow> ('x, 'v, 'cfg, 'b) spawner \<Rightarrow> ('x, 'v, 'cfg, 'b) spawner" where
  "send events sw = sw\<lparr>sw_sent := sw_sent sw @ events\<rparr>"

text \<open>Each activation has a generation of its own; zero is skipped.\<close>

definition next_generation :: "u32 \<Rightarrow> u32" where
  "next_generation generation = (if generation + 1 = 0 then generation + 2 else generation + 1)"

subsection \<open>Records of instances\<close>

definition find_request :: "request_id \<Rightarrow> ('x, 'v, 'cfg, 'b) spawner \<Rightarrow> ('x, 'cfg) instance_record option" where
  "find_request rid sw = (if rq_generation rid = sw_generation sw then map_of (sw_instances sw) (rq_value rid) else None)"

definition find_instance :: "instance_handle \<Rightarrow> ('x, 'v, 'cfg, 'b) spawner \<Rightarrow> ('x, 'cfg) instance_record option" where
  "find_instance inst sw =
     (if ih_spawner_generation inst = sw_generation sw
      then map_option snd (find (\<lambda>(_, r). ir_instance r = inst) (sw_instances sw)) else None)"

definition find_command :: "scene_command_id \<Rightarrow> ('x, 'v, 'cfg, 'b) spawner \<Rightarrow> ('x, 'cfg) instance_record option" where
  "find_command command sw = map_option snd (find (\<lambda>(_, r). ir_pending r = command) (sw_instances sw))"

definition change_record ::
  "request_id \<Rightarrow> (('x, 'cfg) instance_record \<Rightarrow> ('x, 'cfg) instance_record) \<Rightarrow>
   ('x, 'v, 'cfg, 'b) spawner \<Rightarrow> ('x, 'v, 'cfg, 'b) spawner" where
  "change_record rid f sw =
     sw\<lparr>sw_instances := map (\<lambda>(k, r). (k, if k = rq_value rid then f r else r)) (sw_instances sw)\<rparr>"

text \<open>An accepted command: the instance waits for its completion in a new state.\<close>

definition wait_for ::
  "request_id \<Rightarrow> instance_state \<Rightarrow> scene_command_id \<Rightarrow> scene_command_type \<Rightarrow>
   ('x, 'v, 'cfg, 'b) spawner \<Rightarrow> ('x, 'v, 'cfg, 'b) spawner" where
  "wait_for rid state command type =
     change_record rid (\<lambda>r. r\<lparr>ir_state := state, ir_pending := command, ir_pending_type := type\<rparr>)"

subsection \<open>Cleaning up\<close>

definition queue_spawn_failure ::
  "request_id \<Rightarrow> spawn_failure \<Rightarrow> request_context \<Rightarrow> ('x, 'v, 'cfg, 'b) spawner \<Rightarrow> ('x, 'v, 'cfg, 'b) spawner" where
  "queue_spawn_failure rid failure context = send [Spawn_failed rid failure context]"

definition queue_despawn_failure ::
  "request_id \<Rightarrow> instance_handle \<Rightarrow> despawn_failure \<Rightarrow> ('x, 'v, 'cfg, 'b) spawner \<Rightarrow> ('x, 'v, 'cfg, 'b) spawner" where
  "queue_despawn_failure rid inst failure = send [Despawn_failed rid inst failure]"

definition finish_release ::
  "request_id \<Rightarrow> result_code \<Rightarrow> ('x, 'v, 'cfg, 'b) spawner \<Rightarrow> ('x, 'v, 'cfg, 'b) spawner" where
  "finish_release rid result sw =
     (case find_request rid sw of
        None \<Rightarrow> sw
      | Some r \<Rightarrow>
          (let final_spawn = (if result \<noteq> rc_success \<and> ir_terminal r then (ir_spawn_failure r)\<lparr>sf_cleanup := result\<rparr>
                              else ir_spawn_failure r);
               failure = (if result \<noteq> rc_success \<and> \<not> ir_terminal r then (ir_despawn_failure r)\<lparr>df_cleanup := result\<rparr>
                          else ir_despawn_failure r);
               sw = sw\<lparr>sw_instances := AList.delete (rq_value rid) (sw_instances sw)\<rparr>
           in if ir_terminal r then queue_spawn_failure rid final_spawn (sq_context (ir_request r)) sw
              else if df_error failure \<noteq> dse_none \<or> df_cleanup failure \<noteq> rc_success
              then queue_despawn_failure (ir_despawn_request r) (ir_instance r)
                     (if df_error failure = dse_none then failure\<lparr>df_error := dse_cleanup_failed\<rparr> else failure) sw
              else send [Despawn_succeeded (ir_despawn_request r) (ir_instance r)] sw))"

definition spawner_submit_release ::
  "('x, 'v, 'q, 'f, 'cfg, 'inp, 'b, 't, 'm, 'z) host \<Rightarrow> request_id \<Rightarrow>
   ('x, 'v, 'cfg, 'b) spawner \<Rightarrow> ('x, 'v, 'cfg, 'b) spawner" where
  "spawner_submit_release h rid sw =
     (case find_request rid sw of
        None \<Rightarrow> sw
      | Some r \<Rightarrow>
          (case sw_system sw of
             None \<Rightarrow> finish_release rid rc_scene_not_found sw
           | Some sys \<Rightarrow>
               (case submit_release_slot h (ih_slot (ir_instance r)) (sw_entity sw) sys of
                  (submitted, sys) \<Rightarrow>
                    (let sw = sw\<lparr>sw_system := Some sys\<rparr>
                     in if \<not> submission_accepted submitted then finish_release rid (scs_code submitted) sw
                        else wait_for rid is_releasing (scs_command submitted) sct_release_slot sw))))"

text \<open>A failed cleanup step is noted in the failure that will be reported; the cleanup goes on.\<close>

definition note_cleanup :: "result_code \<Rightarrow> ('x, 'cfg) instance_record \<Rightarrow> ('x, 'cfg) instance_record" where
  "note_cleanup code r =
     (if ir_terminal r then r\<lparr>ir_spawn_failure := (ir_spawn_failure r)\<lparr>sf_cleanup := code\<rparr>\<rparr>
      else r\<lparr>ir_despawn_failure := (ir_despawn_failure r)\<lparr>df_cleanup := code\<rparr>\<rparr>)"

definition command_despawn_failure :: "result_code \<Rightarrow> despawn_failure" where
  "command_despawn_failure code = \<lparr>df_error = dse_scene_command_failed, df_scene = code, df_cleanup = code\<rparr>"

definition note_command_failure :: "result_code \<Rightarrow> ('x, 'cfg) instance_record \<Rightarrow> ('x, 'cfg) instance_record" where
  "note_command_failure code r =
     (if ir_terminal r then r\<lparr>ir_spawn_failure := (ir_spawn_failure r)\<lparr>sf_cleanup := code\<rparr>\<rparr>
      else r\<lparr>ir_despawn_failure := command_despawn_failure code\<rparr>)"

definition submit_cleanup_reset ::
  "('x, 'v, 'q, 'f, 'cfg, 'inp, 'b, 't, 'm, 'z) host \<Rightarrow> request_id \<Rightarrow>
   ('x, 'v, 'cfg, 'b) spawner \<Rightarrow> ('x, 'v, 'cfg, 'b) spawner" where
  "submit_cleanup_reset h rid sw =
     (case find_request rid sw of
        None \<Rightarrow> sw
      | Some r \<Rightarrow>
          (case sw_system sw of
             None \<Rightarrow> spawner_submit_release h rid (change_record rid (note_cleanup rc_scene_not_found) sw)
           | Some sys \<Rightarrow>
               (case submit_reset_slot h (ih_slot (ir_instance r)) (sw_entity sw) sys of
                  (submitted, sys) \<Rightarrow>
                    (let sw = sw\<lparr>sw_system := Some sys\<rparr>
                     in if \<not> submission_accepted submitted
                        then spawner_submit_release h rid (change_record rid (note_cleanup (scs_code submitted)) sw)
                        else wait_for rid is_cleanup_resetting (scs_command submitted) sct_reset_slot sw))))"

definition begin_entity_despawn ::
  "('x, 'v, 'q, 'f, 'cfg, 'inp, 'b, 't, 'm, 'z) host \<Rightarrow> request_id \<Rightarrow>
   ('x, 'v, 'cfg, 'b) spawner \<Rightarrow> ('x, 'v, 'cfg, 'b) spawner" where
  "begin_entity_despawn h rid sw =
     (case find_request rid sw of
        None \<Rightarrow> sw
      | Some r \<Rightarrow>
          (case ir_ticket r of
             None \<Rightarrow> submit_cleanup_reset h rid sw
           | Some ticket \<Rightarrow>
               if \<not> tk_valid ticket then submit_cleanup_reset h rid sw
               else if \<not> sw_service sw
               then submit_cleanup_reset h rid
                      (change_record rid
                        (\<lambda>r. (if ir_terminal r
                              then r\<lparr>ir_spawn_failure := (ir_spawn_failure r)\<lparr>sf_cleanup := rc_construction_failed\<rparr>\<rparr>
                              else r\<lparr>ir_despawn_failure := despawn_failure_of dse_despawn_service_unavailable\<rparr>)
                             \<lparr>ir_ticket := None\<rparr>) sw)
               else send [Despawn_all (sw_generation sw) rid (tk_id ticket)]
                      (change_record rid (\<lambda>r. r\<lparr>ir_state := is_despawning_entities\<rparr>) sw)))"

definition spawner_submit_unbind ::
  "('x, 'v, 'q, 'f, 'cfg, 'inp, 'b, 't, 'm, 'z) host \<Rightarrow> request_id \<Rightarrow>
   ('x, 'v, 'cfg, 'b) spawner \<Rightarrow> ('x, 'v, 'cfg, 'b) spawner" where
  "spawner_submit_unbind h rid sw =
     (case find_request rid sw of
        None \<Rightarrow> sw
      | Some r \<Rightarrow>
          (case sw_system sw of
             None \<Rightarrow> begin_entity_despawn h rid (change_record rid (note_command_failure rc_scene_not_found) sw)
           | Some sys \<Rightarrow>
               (case submit_unbind_slot h (ih_slot (ir_instance r)) (sw_entity sw) sys of
                  (submitted, sys) \<Rightarrow>
                    (let sw = sw\<lparr>sw_system := Some sys\<rparr>
                     in if \<not> submission_accepted submitted
                        then begin_entity_despawn h rid (change_record rid (note_command_failure (scs_code submitted)) sw)
                        else wait_for rid is_unbinding (scs_command submitted) sct_unbind_slot sw))))"

definition begin_spawn_failure ::
  "('x, 'v, 'q, 'f, 'cfg, 'inp, 'b, 't, 'm, 'z) host \<Rightarrow> request_id \<Rightarrow> spawn_failure \<Rightarrow>
   ('x, 'v, 'cfg, 'b) spawner \<Rightarrow> ('x, 'v, 'cfg, 'b) spawner" where
  "begin_spawn_failure h rid failure sw =
     (case find_request rid sw of
        None \<Rightarrow> sw
      | Some r \<Rightarrow>
          if ir_terminal r then sw
          else spawner_submit_unbind h rid (change_record rid (\<lambda>r. r\<lparr>ir_terminal := True, ir_spawn_failure := failure\<rparr>) sw))"

subsection \<open>Controllers of an instance\<close>

definition scene_failure :: "result_code \<Rightarrow> spawn_failure" where
  "scene_failure result = \<lparr>sf_error = spe_scene_command_failed, sf_scene = result, sf_cleanup = rc_success\<rparr>"

definition controller_failure :: "result_code \<Rightarrow> spawn_failure" where
  "controller_failure result =
     \<lparr>sf_error =
        (if result = rc_controller_factory_not_found then spe_controller_factory_not_found
         else if result = rc_controller_invalid_configuration then spe_invalid_controller_configuration
         else if result = rc_controller_target_not_found then spe_controller_target_not_found
         else if result = rc_controller_target_outside_instance then spe_cross_instance_controller_target
         else if result = rc_controller_write_conflict then spe_controller_write_conflict
         else if result = rc_controller_construction_failed then spe_controller_construction_failed
         else spe_scene_command_failed),
      sf_scene = result, sf_cleanup = rc_success\<rparr>"

definition spawner_submit_attach ::
  "('x, 'v, 'q, 'f, 'cfg, 'inp, 'b, 't, 'm, 'z) host \<Rightarrow> request_id \<Rightarrow> 'cfg controller_declaration list \<Rightarrow>
   ('x, 'v, 'cfg, 'b) spawner \<Rightarrow> ('x, 'v, 'cfg, 'b) spawner" where
  "spawner_submit_attach h rid declarations sw =
     (case find_request rid sw of
        None \<Rightarrow> sw
      | Some r \<Rightarrow>
          (case sw_system sw of
             None \<Rightarrow> begin_spawn_failure h rid (spawn_failure_of spe_not_ready) sw
           | Some sys \<Rightarrow>
               (case submit_attach_controllers h (ir_instance r) declarations (sw_entity sw) sys of
                  (submitted, sys) \<Rightarrow>
                    (let sw = sw\<lparr>sw_system := Some sys\<rparr>
                     in if \<not> submission_accepted submitted
                        then begin_spawn_failure h rid (controller_failure (scs_code submitted)) sw
                        else wait_for rid is_attaching_controllers (scs_command submitted) sct_attach_controllers sw))))"

definition spawner_submit_detach ::
  "('x, 'v, 'q, 'f, 'cfg, 'inp, 'b, 't, 'm, 'z) host \<Rightarrow> request_id \<Rightarrow>
   ('x, 'v, 'cfg, 'b) spawner \<Rightarrow> ('x, 'v, 'cfg, 'b) spawner" where
  "spawner_submit_detach h rid sw =
     (case find_request rid sw of
        None \<Rightarrow> sw
      | Some r \<Rightarrow>
          (case sw_system sw of
             None \<Rightarrow>
               spawner_submit_unbind h rid
                 (change_record rid (\<lambda>r. r\<lparr>ir_despawn_failure := command_despawn_failure rc_scene_not_found\<rparr>) sw)
           | Some sys \<Rightarrow>
               (case submit_detach_controllers h (ir_instance r) (sw_entity sw) sys of
                  (submitted, sys) \<Rightarrow>
                    if \<not> submission_accepted submitted
                    then spawner_submit_unbind h rid
                           (change_record rid
                             (\<lambda>r. r\<lparr>ir_attached := False, ir_despawn_failure := command_despawn_failure (scs_code submitted)\<rparr>)
                             (sw\<lparr>sw_system := Some (snd (destroy_controllers_immediately h (ir_instance r) sys))\<rparr>))
                    else wait_for rid is_detaching_controllers (scs_command submitted) sct_detach_controllers
                           (sw\<lparr>sw_system := Some sys\<rparr>))))"

subsection \<open>Spawning\<close>

definition spawner_submit_bind ::
  "('x, 'v, 'q, 'f, 'cfg, 'inp, 'b, 't, 'm, 'z) host \<Rightarrow> request_id \<Rightarrow> 'x entity_binding list \<Rightarrow>
   ('x, 'v, 'cfg, 'b) spawner \<Rightarrow> ('x, 'v, 'cfg, 'b) spawner" where
  "spawner_submit_bind h rid bindings sw =
     (case find_request rid sw of
        None \<Rightarrow> sw
      | Some r \<Rightarrow>
          (case sw_system sw of
             None \<Rightarrow> begin_spawn_failure h rid (spawn_failure_of spe_not_ready) sw
           | Some sys \<Rightarrow>
               (case submit_bind_slot h (ih_slot (ir_instance r)) bindings (sw_entity sw) sys of
                  (submitted, sys) \<Rightarrow>
                    (let sw = sw\<lparr>sw_system := Some sys\<rparr>
                     in if \<not> submission_accepted submitted
                        then begin_spawn_failure h rid (scene_failure (scs_code submitted)) sw
                        else wait_for rid is_binding (scs_command submitted) sct_bind_slot sw))))"

definition callback_boundary :: "('x, 'v, 'cfg, 'b) spawner \<Rightarrow> ('x, 'cfg) instance_record \<Rightarrow> spawn_boundary" where
  "callback_boundary sw r = cb_boundary (sw_callbacks sw ! ir_callback r)"

definition begin_entity_spawn ::
  "('x, 'v, 'q, 'f, 'cfg, 'inp, 'b, 't, 'm, 'z) host \<Rightarrow> request_id \<Rightarrow>
   ('x, 'v, 'cfg, 'b) spawner \<Rightarrow> ('x, 'v, 'cfg, 'b) spawner" where
  "begin_entity_spawn h rid sw =
     (case find_request rid sw of
        None \<Rightarrow> sw
      | Some r \<Rightarrow>
          if callback_boundary sw r = sb_cancelled then begin_spawn_failure h rid (spawn_failure_of spe_cancelled) sw
          else if \<not> sw_service sw then begin_spawn_failure h rid (spawn_failure_of spe_spawn_service_unavailable) sw
          else let ticket = sw_ticket sw;
                   sw = change_record rid (\<lambda>r. r\<lparr>ir_ticket := Some ticket\<rparr>) sw
               in if \<not> tk_valid ticket then begin_spawn_failure h rid (spawn_failure_of spe_o3de_spawn_failed) sw
                  else send [Spawn_all (sw_generation sw) rid (tk_id ticket) (ir_callback r)]
                         (change_record rid (\<lambda>r. r\<lparr>ir_state := is_spawning\<rparr>) sw))"

definition spawner_submit_place ::
  "('x, 'v, 'q, 'f, 'cfg, 'inp, 'b, 't, 'm, 'z) host \<Rightarrow> request_id \<Rightarrow>
   ('x, 'v, 'cfg, 'b) spawner \<Rightarrow> ('x, 'v, 'cfg, 'b) spawner" where
  "spawner_submit_place h rid sw =
     (case find_request rid sw of
        None \<Rightarrow> sw
      | Some r \<Rightarrow>
          (case sw_system sw of
             None \<Rightarrow> begin_spawn_failure h rid (spawn_failure_of spe_not_ready) sw
           | Some sys \<Rightarrow>
               (case submit_place_slot h (ih_slot (ir_instance r)) (ir_placement r) (sw_entity sw) sys of
                  (submitted, sys) \<Rightarrow>
                    (let sw = sw\<lparr>sw_system := Some sys\<rparr>
                     in if \<not> submission_accepted submitted
                        then begin_spawn_failure h rid (scene_failure (scs_code submitted)) sw
                        else wait_for rid is_placing (scs_command submitted) sct_place_slot sw))))"

definition spawner_submit_reset ::
  "('x, 'v, 'q, 'f, 'cfg, 'inp, 'b, 't, 'm, 'z) host \<Rightarrow> request_id \<Rightarrow>
   ('x, 'v, 'cfg, 'b) spawner \<Rightarrow> ('x, 'v, 'cfg, 'b) spawner" where
  "spawner_submit_reset h rid sw =
     (case find_request rid sw of
        None \<Rightarrow> sw
      | Some r \<Rightarrow>
          (case sw_system sw of
             None \<Rightarrow> begin_spawn_failure h rid (spawn_failure_of spe_not_ready) sw
           | Some sys \<Rightarrow>
               (case submit_reset_slot h (ih_slot (ir_instance r)) (sw_entity sw) sys of
                  (submitted, sys) \<Rightarrow>
                    (let sw = sw\<lparr>sw_system := Some sys\<rparr>
                     in if \<not> submission_accepted submitted
                        then begin_spawn_failure h rid (scene_failure (scs_code submitted)) sw
                        else wait_for rid is_resetting (scs_command submitted) sct_reset_slot sw))))"

text \<open>The placement of a request: the spawner's world transform, unless the request has its own.\<close>

definition placement_of :: "'x spawn_request \<Rightarrow> 'x option \<Rightarrow> 'x \<Rightarrow> 'x" where
  "placement_of request initial world =
     (case initial of Some placement \<Rightarrow> placement | None \<Rightarrow> if sq_explicit request then sq_world request else world)"

definition new_record ::
  "request_id \<Rightarrow> 'x spawn_request \<Rightarrow> instance_handle \<Rightarrow> 'x \<Rightarrow> nat \<Rightarrow> ('x, 'cfg) instance_record" where
  "new_record rid request inst placement callback =
     \<lparr>ir_spawn_request = rid, ir_request = request, ir_instance = inst, ir_placement = placement, ir_state = is_resetting,
      ir_pending = 0, ir_pending_type = sct_reset_slot, ir_ticket = None, ir_callback = callback, ir_declarations = [],
      ir_spawn_failure = spawn_failure_of spe_none, ir_despawn_request = no_request,
      ir_despawn_failure = despawn_failure_of dse_none, ir_terminal = False, ir_attached = False\<rparr>"

definition begin_spawn ::
  "('x, 'v, 'q, 'f, 'cfg, 'inp, 'b, 't, 'm, 'z) host \<Rightarrow> request_id \<Rightarrow> 'x spawn_request \<Rightarrow> 'x option \<Rightarrow>
   ('x, 'v, 'cfg, 'b) spawner \<Rightarrow> ('x, 'v, 'cfg, 'b) spawner" where
  "begin_spawn h rid request initial sw =
     (let placement = placement_of request initial (sw_world sw)
      in if \<not> az_is_finite (h_math h) placement
         then queue_spawn_failure rid (spawn_failure_of spe_invalid_placement) (sq_context request) sw
         else case sw_system sw of
                None \<Rightarrow> queue_spawn_failure rid (spawn_failure_of spe_not_ready) (sq_context request) sw
              | Some sys \<Rightarrow>
                  (case system_reserve_slot (sw_spawner sw) sys of
                     (reserved, sys) \<Rightarrow>
                       (let sw = sw\<lparr>sw_system := Some sys\<rparr>
                        in if \<not> slot_succeeds reserved
                           then queue_spawn_failure rid
                                  \<lparr>sf_error = (if sr_code reserved = rc_slot_unavailable then spe_no_capacity
                                               else spe_scene_command_failed),
                                   sf_scene = sr_code reserved, sf_cleanup = rc_success\<rparr>
                                  (sq_context request) sw
                           else let inst = \<lparr>ih_slot = sr_handle reserved, ih_spawner_generation = sw_generation sw\<rparr>;
                                    r = new_record rid request inst placement (length (sw_callbacks sw));
                                    instances = (if rq_value rid \<in> fst ` set (sw_instances sw) then sw_instances sw
                                                 else sw_instances sw @ [(rq_value rid, r)])
                                in spawner_submit_reset h rid
                                     (sw\<lparr>sw_instances := instances,
                                        sw_callbacks := sw_callbacks sw @ [new_callback_state (sw_topology sw) placement]\<rparr>))))"

definition allocate_spawn :: "('x, 'v, 'cfg, 'b) spawner \<Rightarrow> request_id \<times> ('x, 'v, 'cfg, 'b) spawner" where
  "allocate_spawn sw =
     (\<lparr>rq_generation = sw_generation sw, rq_value = sw_next_spawn sw\<rparr>, sw\<lparr>sw_next_spawn := sw_next_spawn sw + 1\<rparr>)"

definition allocate_despawn :: "('x, 'v, 'cfg, 'b) spawner \<Rightarrow> request_id \<times> ('x, 'v, 'cfg, 'b) spawner" where
  "allocate_despawn sw =
     (\<lparr>rq_generation = sw_generation sw, rq_value = sw_next_despawn sw\<rparr>, sw\<lparr>sw_next_despawn := sw_next_despawn sw + 1\<rparr>)"

subsection \<open>Requests of clients\<close>

definition spawn ::
  "('x, 'v, 'q, 'f, 'cfg, 'inp, 'b, 't, 'm, 'z) host \<Rightarrow> 'x spawn_request \<Rightarrow>
   ('x, 'v, 'cfg, 'b) spawner \<Rightarrow> request_id \<times> ('x, 'v, 'cfg, 'b) spawner" where
  "spawn h request sw =
     (case allocate_spawn sw of
        (rid, sw) \<Rightarrow>
          (rid,
           if sw_lifecycle sw = spl_deactivating \<or> sw_lifecycle sw = spl_inactive
           then queue_spawn_failure rid (spawn_failure_of spe_shutting_down) (sq_context request) sw
           else if sw_lifecycle sw \<noteq> spl_ready
           then queue_spawn_failure rid (spawn_failure_of spe_not_ready) (sq_context request) sw
           else if spc_trigger_mode (sw_config sw) = Some tm_on_ready
           then queue_spawn_failure rid (spawn_failure_of spe_external_requests_disabled) (sq_context request) sw
           else begin_spawn h rid request None sw))"

definition despawn ::
  "('x, 'v, 'q, 'f, 'cfg, 'inp, 'b, 't, 'm, 'z) host \<Rightarrow> instance_handle \<Rightarrow>
   ('x, 'v, 'cfg, 'b) spawner \<Rightarrow> request_id \<times> ('x, 'v, 'cfg, 'b) spawner" where
  "despawn h inst sw =
     (case allocate_despawn sw of
        (did, sw) \<Rightarrow>
          (did,
           if sw_lifecycle sw = spl_deactivating \<or> sw_lifecycle sw = spl_inactive
           then queue_despawn_failure did inst (despawn_failure_of dse_shutting_down) sw
           else if sw_lifecycle sw \<noteq> spl_ready
           then queue_despawn_failure did inst (despawn_failure_of dse_not_ready) sw
           else case find_instance inst sw of
                  None \<Rightarrow> queue_despawn_failure did inst (despawn_failure_of dse_stale_instance) sw
                | Some r \<Rightarrow>
                    if ir_state r \<noteq> is_active
                    then queue_despawn_failure did inst (despawn_failure_of dse_instance_not_active) sw
                    else let rid = ir_spawn_request r;
                             sw = change_record rid (\<lambda>r. r\<lparr>ir_terminal := False, ir_despawn_request := did\<rparr>) sw
                         in if ir_attached r then spawner_submit_detach h rid sw else spawner_submit_unbind h rid sw))"

text \<open>\<open>compare_exchange_strong\<close> of the boundary from \<open>Cancelable\<close>.\<close>

definition cancel_boundary :: "nat \<Rightarrow> ('x, 'v, 'cfg, 'b) spawner \<Rightarrow> bool \<times> ('x, 'v, 'cfg, 'b) spawner" where
  "cancel_boundary i sw =
     (if cb_boundary (sw_callbacks sw ! i) = sb_cancelable
      then (True, sw\<lparr>sw_callbacks := (sw_callbacks sw)[i := (sw_callbacks sw ! i)\<lparr>cb_boundary := sb_cancelled\<rparr>]\<rparr>)
      else (False, sw))"

definition cancel_spawn :: "request_id \<Rightarrow> ('x, 'v, 'cfg, 'b) spawner \<Rightarrow> bool \<times> ('x, 'v, 'cfg, 'b) spawner" where
  "cancel_spawn rid sw =
     (case find_request rid sw of
        None \<Rightarrow> (False, sw)
      | Some r \<Rightarrow> if ir_state r = is_active \<or> ir_terminal r then (False, sw) else cancel_boundary (ir_callback r) sw)"

subsection \<open>Becoming ready\<close>

definition enter_failure ::
  "spawn_error \<Rightarrow> scene_polytree_failure \<Rightarrow> ('x, 'v, 'cfg, 'b) spawner \<Rightarrow> ('x, 'v, 'cfg, 'b) spawner" where
  "enter_failure error failure sw =
     send [Spawner_failed \<lparr>pf_error = error, pf_registration = failure\<rparr>] (sw\<lparr>sw_lifecycle := spl_failed\<rparr>)"

definition begin_initial_spawn ::
  "('x, 'v, 'q, 'f, 'cfg, 'inp, 'b, 't, 'm, 'z) host \<Rightarrow> 'x \<Rightarrow> nat \<Rightarrow>
   ('x, 'v, 'cfg, 'b) spawner \<Rightarrow> ('x, 'v, 'cfg, 'b) spawner" where
  "begin_initial_spawn h placement index sw =
     (case allocate_spawn sw of
        (rid, sw) \<Rightarrow>
          begin_spawn h rid
            \<lparr>sq_context = \<lparr>rx_entity = sw_entity sw, rx_correlation = of_nat index\<rparr>, sq_explicit = False,
             sq_world = az_identity (h_math h)\<rparr> (Some placement) sw)"

definition begin_initial_spawns ::
  "('x, 'v, 'q, 'f, 'cfg, 'inp, 'b, 't, 'm, 'z) host \<Rightarrow> ('x, 'v, 'cfg, 'b) spawner \<Rightarrow> ('x, 'v, 'cfg, 'b) spawner" where
  "begin_initial_spawns h sw =
     (if spc_trigger_mode (sw_config sw) = Some tm_external_requests_only \<or> spc_initial_spawn_count (sw_config sw) = 0 then sw
      else fold (begin_initial_spawn h (sw_world sw)) [0..<unat (spc_initial_spawn_count (sw_config sw))] sw)"

text \<open>
  \<open>held\<close> is what the component's own reference to the prefab holds, \<open>None\<close> while it is not ready;
  \<open>found\<close> is what the asset manager has under its id, when there is an asset manager: the id of the
  reference it returns (the null id when it has none) and what that one holds.
\<close>

definition prefab_reference ::
  "asset_id \<Rightarrow> 'x entity_view option list option \<Rightarrow> (asset_id \<times> 'x entity_view option list option) option \<Rightarrow>
   asset_id \<times> 'x entity_view option list option" where
  "prefab_reference prefab held found =
     (case (held, found) of (None, Some reference) \<Rightarrow> reference | _ \<Rightarrow> (prefab, held))"

definition on_registration_ready ::
  "('x, 'v, 'q, 'f, 'cfg, 'inp, 'b, 't, 'm, 'z) host \<Rightarrow> 'x entity_view option list option \<Rightarrow>
   (asset_id \<times> 'x entity_view option list option) option \<Rightarrow> registration_token \<Rightarrow> spawner_handle \<Rightarrow>
   ('x, 'v, 'cfg, 'b) spawner \<Rightarrow> ('x, 'v, 'cfg, 'b) spawner" where
  "on_registration_ready h held found token spawner sw =
     (if sw_lifecycle sw \<noteq> spl_registering \<or> token \<noteq> sw_registration sw \<or> \<not> spawner_valid spawner then sw
      else case prefab_reference (spc_prefab (sw_config sw)) held found of
             (prefab, loaded) \<Rightarrow>
               (let sw = sw\<lparr>sw_config := (sw_config sw)\<lparr>spc_prefab := prefab\<rparr>\<rparr>
                in case loaded of
                     None \<Rightarrow> enter_failure spe_invalid_prefab
                               \<lparr>f_code = rc_asset_load_failed, f_registration_key = [], f_asset_id = prefab, f_node_id = []\<rparr> sw
                   | Some entities \<Rightarrow>
                       (let topology = extract_entity_hierarchy (az_is_finite (h_math h)) entities
                        in if \<not> topology_succeeds topology then enter_failure spe_invalid_prefab (ptr_failure topology) sw
                           else begin_initial_spawns h
                                  (send [Spawner_ready spawner]
                                    (sw\<lparr>sw_spawner := spawner, sw_topology := ptr_nodes topology,
                                       sw_lifecycle := spl_ready\<rparr>)))))"

definition registration_error :: "result_code \<Rightarrow> spawn_error" where
  "registration_error code = (if code = rc_invalid_prefab then spe_invalid_prefab else spe_not_ready)"

definition on_registration_failed ::
  "registration_token \<Rightarrow> scene_polytree_failure \<Rightarrow> ('x, 'v, 'cfg, 'b) spawner \<Rightarrow> ('x, 'v, 'cfg, 'b) spawner" where
  "on_registration_failed token failure sw =
     (if token = sw_registration sw \<and> sw_lifecycle sw = spl_registering
      then enter_failure (registration_error (f_code failure)) failure sw else sw)"

subsection \<open>Notifications\<close>

text \<open>The scene result that is reported with an error of the callbacks.\<close>

definition spawn_error_result :: "spawn_error \<Rightarrow> result_code" where
  "spawn_error_result error =
     (if error = spe_invalid_transform then rc_invalid_transform
      else if error = spe_invalid_controller_configuration then rc_controller_invalid_configuration
      else rc_invalid_binding)"

definition has_ticket :: "u32 \<Rightarrow> ('x, 'cfg) instance_record \<Rightarrow> bool" where
  "has_ticket ticket r \<longleftrightarrow> (case ir_ticket r of None \<Rightarrow> False | Some t \<Rightarrow> tk_id t = ticket)"

definition on_spawn_completed ::
  "('x, 'v, 'q, 'f, 'cfg, 'inp, 'b, 't, 'm, 'z) host \<Rightarrow> u32 \<Rightarrow> request_id \<Rightarrow> u32 \<Rightarrow> spawn_error \<Rightarrow>
   'x entity_binding list \<Rightarrow> 'cfg controller_declaration list \<Rightarrow>
   ('x, 'v, 'cfg, 'b) spawner \<Rightarrow> ('x, 'v, 'cfg, 'b) spawner" where
  "on_spawn_completed h generation rid ticket error bindings declarations sw =
     (case find_request rid sw of
        None \<Rightarrow> sw
      | Some r \<Rightarrow>
          if generation \<noteq> sw_generation sw \<or> ir_state r \<noteq> is_spawning \<or> \<not> has_ticket ticket r then sw
          else if error \<noteq> spe_none
          then begin_spawn_failure h rid
                 \<lparr>sf_error = error, sf_scene = spawn_error_result error, sf_cleanup = rc_success\<rparr> sw
          else spawner_submit_bind h rid bindings (change_record rid (\<lambda>r. r\<lparr>ir_declarations := declarations\<rparr>) sw))"

definition on_despawn_completed ::
  "('x, 'v, 'q, 'f, 'cfg, 'inp, 'b, 't, 'm, 'z) host \<Rightarrow> u32 \<Rightarrow> request_id \<Rightarrow> u32 \<Rightarrow>
   ('x, 'v, 'cfg, 'b) spawner \<Rightarrow> ('x, 'v, 'cfg, 'b) spawner" where
  "on_despawn_completed h generation rid ticket sw =
     (case find_request rid sw of
        None \<Rightarrow> sw
      | Some r \<Rightarrow>
          if generation \<noteq> sw_generation sw \<or> ir_state r \<noteq> is_despawning_entities \<or> \<not> has_ticket ticket r then sw
          else submit_cleanup_reset h rid (change_record rid (\<lambda>r. r\<lparr>ir_ticket := None\<rparr>) sw))"

text \<open>The instance becomes active.\<close>

definition activate_instance ::
  "bool \<Rightarrow> ('x, 'cfg) instance_record \<Rightarrow> ('x, 'v, 'cfg, 'b) spawner \<Rightarrow> ('x, 'v, 'cfg, 'b) spawner" where
  "activate_instance attached r sw =
     send [Spawn_succeeded (ir_spawn_request r) (ir_instance r) (sq_context (ir_request r))]
       (change_record (ir_spawn_request r) (\<lambda>r. r\<lparr>ir_state := is_active, ir_attached := ir_attached r \<or> attached\<rparr>) sw)"

text \<open>The step after an early command: on failure or after a cancellation the spawn fails.\<close>

definition continue_spawn ::
  "('x, 'v, 'q, 'f, 'cfg, 'inp, 'b, 't, 'm, 'z) host \<Rightarrow> result_code \<Rightarrow> ('x, 'cfg) instance_record \<Rightarrow>
   (request_id \<Rightarrow> ('x, 'v, 'cfg, 'b) spawner \<Rightarrow> ('x, 'v, 'cfg, 'b) spawner) \<Rightarrow>
   ('x, 'v, 'cfg, 'b) spawner \<Rightarrow> ('x, 'v, 'cfg, 'b) spawner" where
  "continue_spawn h result r step sw =
     (let rid = ir_spawn_request r
      in if result \<noteq> rc_success then begin_spawn_failure h rid (scene_failure result) sw
         else if callback_boundary sw r = sb_cancelled then begin_spawn_failure h rid (spawn_failure_of spe_cancelled) sw
         else step rid sw)"

definition on_command_completed ::
  "('x, 'v, 'q, 'f, 'cfg, 'inp, 'b, 't, 'm, 'z) host \<Rightarrow> scene_command_id \<Rightarrow> scene_command_type \<Rightarrow> result_code \<Rightarrow>
   ('x, 'v, 'cfg, 'b) spawner \<Rightarrow> ('x, 'v, 'cfg, 'b) spawner" where
  "on_command_completed h command type result sw =
     (case find_command command sw of
        None \<Rightarrow> sw
      | Some r \<Rightarrow>
          if ir_pending_type r \<noteq> type then sw
          else let rid = ir_spawn_request r;
                   sw = change_record rid (\<lambda>r. r\<lparr>ir_pending := 0\<rparr>) sw
               in case ir_state r of
                    is_resetting \<Rightarrow> continue_spawn h result r (spawner_submit_place h) sw
                  | is_placing \<Rightarrow> continue_spawn h result r (begin_entity_spawn h) sw
                  | is_binding \<Rightarrow>
                      if result \<noteq> rc_success then begin_spawn_failure h rid (scene_failure result) sw
                      else if ir_declarations r \<noteq> []
                      then spawner_submit_attach h rid (ir_declarations r)
                             (change_record rid (\<lambda>r. r\<lparr>ir_declarations := []\<rparr>) sw)
                      else activate_instance False r sw
                  | is_attaching_controllers \<Rightarrow>
                      if result \<noteq> rc_success then begin_spawn_failure h rid (controller_failure result) sw
                      else activate_instance True r sw
                  | is_detaching_controllers \<Rightarrow>
                      spawner_submit_unbind h rid
                        (change_record rid
                          (\<lambda>r. (if result \<noteq> rc_success then r\<lparr>ir_despawn_failure := command_despawn_failure result\<rparr> else r)
                               \<lparr>ir_attached := False\<rparr>) sw)
                  | is_unbinding \<Rightarrow>
                      begin_entity_despawn h rid
                        (if result \<noteq> rc_success then change_record rid (note_command_failure result) sw else sw)
                  | is_cleanup_resetting \<Rightarrow>
                      spawner_submit_release h rid
                        (if result \<noteq> rc_success then change_record rid (note_cleanup result) sw else sw)
                  | is_releasing \<Rightarrow> finish_release rid result sw
                  | _ \<Rightarrow> sw)"

subsection \<open>Activation\<close>

definition valid_trigger_mode :: "spawn_trigger_mode option \<Rightarrow> bool" where
  "valid_trigger_mode mode \<longleftrightarrow>
     mode = Some tm_on_ready \<or> mode = Some tm_external_requests_only \<or> mode = Some tm_on_ready_and_external_requests"

definition spawner_activate :: "('x, 'v, 'cfg, 'b) spawner \<Rightarrow> ('x, 'v, 'cfg, 'b) spawner" where
  "spawner_activate sw =
     (let sw = sw\<lparr>sw_generation := next_generation (sw_generation sw), sw_lifecycle := spl_registering, sw_registration := 0,
                 sw_spawner := no_spawner, sw_topology := [], sw_instances := []\<rparr>;
          config = sw_config sw
      in if fst (spc_prefab config) = 0 then enter_failure spe_invalid_prefab (failure_of rc_invalid_prefab []) sw
         else if spc_capacity config = 0 then enter_failure spe_invalid_configuration (failure_of rc_zero_capacity []) sw
         else if spc_initial_spawn_count config > spc_capacity config
         then enter_failure spe_invalid_configuration (failure_of rc_invalid_configuration []) sw
         else if spc_default_placement config \<noteq> Some dp_spawner_world_transform \<or>
                 \<not> valid_trigger_mode (spc_trigger_mode config)
         then enter_failure spe_invalid_configuration (failure_of rc_invalid_configuration []) sw
         else case sw_system sw of
                None \<Rightarrow> enter_failure spe_not_ready (failure_of rc_scene_not_found []) sw
              | Some sys \<Rightarrow>
                  (case register_prefab (sw_entity sw) (spc_scene_entity config)
                          \<lparr>prd_prefab = spc_prefab config, prd_capacity = spc_capacity config, prd_key = ''ScenePolytreeSpawner''\<rparr>
                          sys of
                     (registered, sys) \<Rightarrow>
                       (let sw = sw\<lparr>sw_system := Some sys\<rparr>
                        in if \<not> (re_code registered = rc_success \<and> re_token registered \<noteq> 0)
                           then enter_failure (registration_error (re_code registered)) (failure_of (re_code registered) []) sw
                           else sw\<lparr>sw_registration := re_token registered\<rparr>)))"

text \<open>Deactivation gives every instance back without waiting: its commands have no completion.\<close>

definition retire_slot ::
  "('x, 'v, 'q, 'f, 'cfg, 'inp, 'b, 't, 'm, 'z) host \<Rightarrow> ('x, 'cfg) instance_record \<Rightarrow>
   ('x, 'v, 'cfg, 'b) system_component \<Rightarrow> ('x, 'v, 'cfg, 'b) system_component" where
  "retire_slot h r sys =
     (let slot = ih_slot (ir_instance r);
          sys = (if ir_attached r then snd (destroy_controllers_immediately h (ir_instance r) sys) else sys)
      in snd (system_release_slot h slot (snd (system_reset_slot h slot (snd (system_unbind_slot h slot sys))))))"

definition retire_instance ::
  "('x, 'v, 'q, 'f, 'cfg, 'inp, 'b, 't, 'm, 'z) host \<Rightarrow> ('x, 'cfg) instance_record \<Rightarrow>
   ('x, 'v, 'cfg, 'b) spawner \<Rightarrow> ('x, 'v, 'cfg, 'b) spawner" where
  "retire_instance h r sw =
     (let sw = snd (cancel_boundary (ir_callback r) sw);
          sw = sw\<lparr>sw_system := map_option (retire_slot h r) (sw_system sw)\<rparr>
      in case ir_ticket r of
           None \<Rightarrow> sw
         | Some t \<Rightarrow> if sw_service sw \<and> tk_valid t then send [Despawn_at_once (tk_id t)] sw else sw)"

text \<open>\<open>order\<close> is the order of the instances in the unordered map.\<close>

definition retire_next ::
  "('x, 'v, 'q, 'f, 'cfg, 'inp, 'b, 't, 'm, 'z) host \<Rightarrow> u64 \<Rightarrow>
   ('x, 'v, 'cfg, 'b) spawner \<Rightarrow> ('x, 'v, 'cfg, 'b) spawner" where
  "retire_next h key sw =
     (case map_of (sw_instances sw) key of None \<Rightarrow> sw | Some r \<Rightarrow> retire_instance h r sw)"

definition spawner_deactivate ::
  "('x, 'v, 'q, 'f, 'cfg, 'inp, 'b, 't, 'm, 'z) host \<Rightarrow> u64 list \<Rightarrow>
   ('x, 'v, 'cfg, 'b) spawner \<Rightarrow> ('x, 'v, 'cfg, 'b) spawner" where
  "spawner_deactivate h order sw =
     (if sw_lifecycle sw = spl_inactive then sw
      else let sw = sw\<lparr>sw_lifecycle := spl_deactivating, sw_generation := next_generation (sw_generation sw)\<rparr>;
               sw = (fold (retire_next h) order sw)\<lparr>sw_instances := []\<rparr>
           in sw\<lparr>sw_system := map_option (unregister_prefab (sw_registration sw)) (sw_system sw), sw_registration := 0,
                sw_spawner := no_spawner, sw_topology := [], sw_lifecycle := spl_inactive\<rparr>)"

definition new_spawner ::
  "entity_id \<Rightarrow> spawner_config \<Rightarrow> ('x, 'v, 'cfg, 'b) system_component option \<Rightarrow> bool \<Rightarrow> spawn_ticket \<Rightarrow> 'x \<Rightarrow>
   ('x, 'v, 'cfg, 'b) spawner" where
  "new_spawner entity config sys service ticket world =
     \<lparr>sw_entity = entity, sw_config = config, sw_lifecycle = spl_inactive, sw_generation = 0, sw_next_spawn = 1,
      sw_next_despawn = 1, sw_registration = 0, sw_spawner = no_spawner, sw_topology = [], sw_instances = [],
      sw_callbacks = [], sw_system = sys, sw_service = service, sw_ticket = ticket, sw_world = world, sw_sent = []\<rparr>"

end
