(* ===== verification/Spawn_Callbacks.thy ===== *)
theory Spawn_Callbacks
  imports Spawner
begin

section \<open>The callbacks of the spawn service\<close>

text \<open>
  The functions at the top of \<open>ScenePolytreeSpawnerComponent.cpp\<close> that the spawn service calls:
  \<open>PreparePrefabInstance\<close> before the entities of an instance are activated and
  \<open>CollectPrefabBindings\<close> when that is done. Both share the callback state of the instance.

  An entity is \<open>None\<close> for a null pointer. The methods of the engine's transform component that change it are
  arguments: \<open>tm_clear_parent\<close> is \<open>SetParent\<close> with the invalid id, \<open>tm_set_world\<close> is \<open>SetWorldTM\<close>.
  The store of the error and of the boundary are atomic; the callbacks run one after the other.
\<close>

record 'x transform_methods =
  tm_clear_parent :: "'x transform_view \<Rightarrow> 'x transform_view"
  tm_set_world :: "'x \<Rightarrow> 'x transform_view \<Rightarrow> 'x transform_view"

text \<open>
  What the completion callback sees of an entity: whether it is active, and its components. A component
  that is null or provides no behaviour is \<open>None\<close>; a provider is the copy of its declaration it gives out.
\<close>

record ('x, 'cfg) spawned_entity =
  se_view :: "'x entity_view"
  se_active :: bool
  se_providers :: "'cfg controller_declaration option list"

record ('x, 'cfg) collected_bindings =
  cl_error :: spawn_error
  cl_bindings :: "'x entity_binding list"
  cl_declarations :: "'cfg controller_declaration list"

definition collected_error :: "spawn_error \<Rightarrow> ('x, 'cfg) collected_bindings" where
  "collected_error error = \<lparr>cl_error = error, cl_bindings = [], cl_declarations = []\<rparr>"

text \<open>\<open>compare_exchange_strong\<close>: the first error stays.\<close>

definition store_preparation_error :: "spawn_error \<Rightarrow> 'x callback_state \<Rightarrow> 'x callback_state" where
  "store_preparation_error error cb = (if cb_error cb = spe_none then cb\<lparr>cb_error := error\<rparr> else cb)"

definition hierarchy_failure :: "result_code \<Rightarrow> spawn_error" where
  "hierarchy_failure result =
     (case result of
        rc_duplicate_binding_id \<Rightarrow> spe_duplicate_binding
      | rc_invalid_transform \<Rightarrow> spe_invalid_transform
      | rc_invalid_binding \<Rightarrow> spe_invalid_binding
      | _ \<Rightarrow> spe_hierarchy_mismatch)"

subsection \<open>Preparing an instance\<close>

definition is_entity :: "entity_id \<Rightarrow> 'x entity_view option \<Rightarrow> bool" where
  "is_entity entity candidate \<longleftrightarrow> (case candidate of None \<Rightarrow> False | Some e \<Rightarrow> ev_id e = entity)"

text \<open>The loop over the nodes: whether it is still valid, the logical worlds, the shared state and the entities.\<close>

type_synonym 'x preparation = "bool \<times> 'x list \<times> 'x callback_state \<times> 'x entity_view option list"

definition give_up :: "spawn_error \<Rightarrow> 'x preparation \<Rightarrow> 'x preparation" where
  "give_up error = (\<lambda>(valid, worlds, cb, entities). (False, worlds, store_preparation_error error cb, entities))"

definition find_transform :: "entity_id \<Rightarrow> 'x entity_view option list \<Rightarrow> (nat \<times> 'x entity_view \<times> 'x transform_view) option" where
  "find_transform entity entities =
     (case find_index (is_entity entity) entities of
        None \<Rightarrow> None
      | Some i \<Rightarrow>
          (case entities ! i of
             None \<Rightarrow> None
           | Some e \<Rightarrow> map_option (\<lambda>tv. (i, e, tv)) (ev_transform e)))"

text \<open>The world of the parent: the placement for a root; an unknown parent has none.\<close>

definition parent_world_of :: "'x callback_state \<Rightarrow> 'x node_descriptor \<Rightarrow> 'x list \<Rightarrow> 'x option" where
  "parent_world_of cb node worlds =
     (if nd_parent_binding_id node = [] then Some (cb_placement cb)
      else map_option (\<lambda>i. worlds ! i) (find_index (\<lambda>n. nd_binding_id n = nd_parent_binding_id node) (cb_topology cb)))"

definition prepare_node ::
  "('x, 'v, 'q, 'f) az_math \<Rightarrow> 'x transform_methods \<Rightarrow> 'x prefab_topology_result \<Rightarrow> nat \<Rightarrow>
   'x preparation \<Rightarrow> 'x preparation" where
  "prepare_node m tm hierarchy index = (\<lambda>(valid, worlds, cb, entities).
     if \<not> valid then (valid, worlds, cb, entities)
     else let registered = cb_topology cb ! index; node = ptr_nodes hierarchy ! index
          in if nd_binding_id node \<noteq> nd_binding_id registered \<or> nd_parent_binding_id node \<noteq> nd_parent_binding_id registered
             then give_up spe_hierarchy_mismatch (valid, worlds, cb, entities)
             else case find_transform (ptr_entities hierarchy ! index) entities of
                    None \<Rightarrow> give_up spe_invalid_transform (valid, worlds, cb, entities)
                  | Some (i, e, tv) \<Rightarrow>
                      (case parent_world_of cb node worlds of
                         None \<Rightarrow> give_up spe_invalid_binding (valid, worlds, cb, entities)
                       | Some parent_world \<Rightarrow>
                           (let world = az_mul m parent_world (nd_initial_local node);
                                worlds = worlds[index := world];
                                tv = tm_set_world tm world (tm_clear_parent tm tv);
                                entities = entities[i := Some (e\<lparr>ev_transform := Some tv\<rparr>)]
                            in if tv_parent tv \<noteq> None
                               then give_up spe_competing_transform_parent (valid, worlds, cb, entities)
                               else (valid, worlds, cb, entities))))"

definition prepare_prefab_instance ::
  "('x, 'v, 'q, 'f) az_math \<Rightarrow> 'x transform_methods \<Rightarrow> 'x callback_state \<Rightarrow> 'x entity_view option list \<Rightarrow>
   'x callback_state \<times> 'x entity_view option list" where
  "prepare_prefab_instance m tm cb entities =
     (if cb_boundary cb \<noteq> sb_cancelable then (cb, entities)
      else let cb = cb\<lparr>cb_boundary := sb_committed\<rparr>;
               hierarchy = extract_entity_hierarchy (az_is_finite m) entities;
               count = length (cb_topology cb)
           in if \<not> topology_succeeds hierarchy
              then (store_preparation_error (hierarchy_failure (f_code (ptr_failure hierarchy))) cb, entities)
              else if length (ptr_nodes hierarchy) \<noteq> count
              then (store_preparation_error spe_hierarchy_mismatch cb, entities)
              else case fold (prepare_node m tm hierarchy) [0..<count] (True, replicate count (az_identity m), cb, entities) of
                     (valid, worlds, cb, entities) \<Rightarrow>
                       (if valid then cb\<lparr>cb_hierarchy := ptr_entities hierarchy\<rparr> else cb, entities))"

subsection \<open>Collecting bindings and controllers\<close>

definition is_spawned :: "entity_id \<Rightarrow> ('x, 'cfg) spawned_entity option \<Rightarrow> bool" where
  "is_spawned entity candidate \<longleftrightarrow> is_entity entity (map_option se_view candidate)"

definition matches :: "entity_id \<Rightarrow> ('x, 'cfg) spawned_entity option list \<Rightarrow> nat" where
  "matches entity entities = length (filter (is_spawned entity) entities)"

definition collect_binding ::
  "('x, 'v, 'q, 'f) az_math \<Rightarrow> ('x, 'cfg) spawned_entity option list \<Rightarrow> 'x node_descriptor \<times> entity_id \<Rightarrow>
   ('x, 'cfg) collected_bindings \<Rightarrow> ('x, 'cfg) collected_bindings" where
  "collect_binding m entities = (\<lambda>(node, entity) result.
     if cl_error result \<noteq> spe_none then result
     else if matches entity entities \<noteq> 1
     then result\<lparr>cl_error := (if matches entity entities = 0 then spe_hierarchy_mismatch else spe_duplicate_binding)\<rparr>
     else case find (is_spawned entity) entities of
            Some (Some e) \<Rightarrow>
              if ev_id (se_view e) = None then result\<lparr>cl_error := spe_invalid_binding\<rparr>
              else if \<not> se_active e then result\<lparr>cl_error := spe_inactive_entity\<rparr>
              else (case ev_transform (se_view e) of
                      None \<Rightarrow> result\<lparr>cl_error := spe_invalid_transform\<rparr>
                    | Some tv \<Rightarrow>
                        if tv_parent tv \<noteq> None then result\<lparr>cl_error := spe_competing_transform_parent\<rparr>
                        else if \<exists>b \<in> set (cl_bindings result). eb_entity b = ev_id (se_view e)
                        then result\<lparr>cl_error := spe_duplicate_binding\<rparr>
                        else result\<lparr>cl_bindings := cl_bindings result @
                               [\<lparr>eb_binding_id = nd_binding_id node, eb_entity = ev_id (se_view e),
                                 eb_node_to_entity = az_identity m\<rparr>]\<rparr>)
          | _ \<Rightarrow> result\<lparr>cl_error := spe_invalid_binding\<rparr>)"

text \<open>\<open>clone\<close> is the virtual method \<open>Clone\<close> of a configuration; it may return null.\<close>

definition valid_target :: "('x, 'cfg) spawned_entity option list \<Rightarrow> target_reference \<Rightarrow> bool" where
  "valid_target entities target \<longleftrightarrow>
     tr_prefab_entity target \<noteq> None \<and> tr_binding_id target = [] \<and> matches (tr_prefab_entity target) entities = 1"

definition collect_declaration ::
  "('cfg \<Rightarrow> 'cfg option) \<Rightarrow> ('x, 'cfg) spawned_entity option list \<Rightarrow> name \<Rightarrow> 'cfg controller_declaration option \<Rightarrow>
   ('x, 'cfg) collected_bindings \<Rightarrow> ('x, 'cfg) collected_bindings" where
  "collect_declaration clone entities binding_id component result =
     (case component of
        None \<Rightarrow> result
      | Some d \<Rightarrow>
          if cl_error result \<noteq> spe_none then result
          else let configuration = Option.bind (cd_configuration d) clone;
                   invalid_target = (cd_targets d = [] \<or> (\<exists>t \<in> set (cd_targets d). \<not> valid_target entities t))
               in if binding_id = [] \<or> cd_declaration_id d = [] \<or> cd_type_id d = 0 \<or> configuration = None \<or> invalid_target
                  then result\<lparr>cl_error := spe_invalid_controller_configuration\<rparr>
                  else result\<lparr>cl_declarations := cl_declarations result @
                         [d\<lparr>cd_configuration := configuration, cd_provider_binding_id := binding_id\<rparr>]\<rparr>)"

definition provider_binding :: "'x callback_state \<Rightarrow> entity_id list \<Rightarrow> entity_id \<Rightarrow> name" where
  "provider_binding cb hierarchy entity =
     (case find_index ((=) entity) hierarchy of None \<Rightarrow> [] | Some i \<Rightarrow> nd_binding_id (cb_topology cb ! i))"

definition collect_providers ::
  "('cfg \<Rightarrow> 'cfg option) \<Rightarrow> 'x callback_state \<Rightarrow> ('x, 'cfg) spawned_entity option list \<Rightarrow>
   ('x, 'cfg) spawned_entity option \<Rightarrow> ('x, 'cfg) collected_bindings \<Rightarrow> ('x, 'cfg) collected_bindings" where
  "collect_providers clone cb entities entity result =
     (case entity of
        None \<Rightarrow> result
      | Some e \<Rightarrow>
          if cl_error result \<noteq> spe_none then result
          else fold (collect_declaration clone entities (provider_binding cb (cb_hierarchy cb) (ev_id (se_view e))))
                 (se_providers e) result)"

definition collect_prefab_bindings ::
  "('x, 'v, 'q, 'f) az_math \<Rightarrow> ('cfg \<Rightarrow> 'cfg option) \<Rightarrow> 'x callback_state \<Rightarrow> ('x, 'cfg) spawned_entity option list \<Rightarrow>
   ('x, 'cfg) collected_bindings" where
  "collect_prefab_bindings m clone cb entities =
     (if cb_boundary cb = sb_cancelled then collected_error spe_cancelled
      else if cb_error cb \<noteq> spe_none then collected_error (cb_error cb)
      else if entities = [] then collected_error spe_o3de_spawn_failed
      else if length (cb_hierarchy cb) \<noteq> length (cb_topology cb) then collected_error spe_hierarchy_mismatch
      else let result = fold (collect_binding m entities) (zip (cb_topology cb) (cb_hierarchy cb)) (collected_error spe_none);
               result = (if cl_error result = spe_none then fold (collect_providers clone cb entities) entities result else result)
           in if cl_error result \<noteq> spe_none then result\<lparr>cl_bindings := [], cl_declarations := []\<rparr> else result)"

subsection \<open>What is collected\<close>

text \<open>An entity that can be bound: it was spawned once, is active, and its transform has no parent.\<close>

definition bindable :: "('x, 'cfg) spawned_entity option list \<Rightarrow> entity_id \<Rightarrow> bool" where
  "bindable entities entity \<longleftrightarrow> entity \<noteq> None \<and> matches entity entities = 1 \<and>
     (case find (is_spawned entity) entities of
        Some (Some e) \<Rightarrow> se_active e \<and> (case ev_transform (se_view e) of None \<Rightarrow> False | Some tv \<Rightarrow> tv_parent tv = None)
      | _ \<Rightarrow> False)"

definition binding_of :: "('x, 'v, 'q, 'f) az_math \<Rightarrow> 'x node_descriptor \<times> entity_id \<Rightarrow> 'x entity_binding" where
  "binding_of m = (\<lambda>(node, entity). \<lparr>eb_binding_id = nd_binding_id node, eb_entity = entity, eb_node_to_entity = az_identity m\<rparr>)"

definition acceptable ::
  "('cfg \<Rightarrow> 'cfg option) \<Rightarrow> ('x, 'cfg) spawned_entity option list \<Rightarrow> name \<Rightarrow> 'cfg controller_declaration \<Rightarrow> bool" where
  "acceptable clone entities binding_id d \<longleftrightarrow>
     binding_id \<noteq> [] \<and> cd_declaration_id d \<noteq> [] \<and> cd_type_id d \<noteq> 0 \<and> Option.bind (cd_configuration d) clone \<noteq> None \<and>
     cd_targets d \<noteq> [] \<and> (\<forall>t \<in> set (cd_targets d). valid_target entities t)"

definition completed ::
  "('cfg \<Rightarrow> 'cfg option) \<Rightarrow> name \<Rightarrow> 'cfg controller_declaration \<Rightarrow> 'cfg controller_declaration" where
  "completed clone binding_id d =
     d\<lparr>cd_configuration := Option.bind (cd_configuration d) clone, cd_provider_binding_id := binding_id\<rparr>"

definition provided :: "('x, 'cfg) spawned_entity option list \<Rightarrow> (entity_id \<times> 'cfg controller_declaration) list" where
  "provided entities =
     concat (map (\<lambda>entity. case entity of None \<Rightarrow> []
       | Some e \<Rightarrow> map (Pair (ev_id (se_view e))) (List.map_filter id (se_providers e))) entities)"

lemma find_is_spawned: "find (is_spawned entity) entities = Some (Some e) \<Longrightarrow> ev_id (se_view e) = entity"
  by (drule find_Some_iff [THEN iffD1]) (auto simp: is_spawned_def is_entity_def split: option.splits dest: sym)

lemma collect_binding_step:
  "cl_error result = spe_none \<Longrightarrow>
     collect_binding m entities (node, entity) result =
       (if bindable entities entity \<and> entity \<notin> eb_entity ` set (cl_bindings result)
        then result\<lparr>cl_bindings := cl_bindings result @ [binding_of m (node, entity)]\<rparr>
        else result\<lparr>cl_error := cl_error (collect_binding m entities (node, entity) result)\<rparr>) \<and>
     (cl_error (collect_binding m entities (node, entity) result) = spe_none \<longleftrightarrow>
        bindable entities entity \<and> entity \<notin> eb_entity ` set (cl_bindings result))"
  using find_is_spawned [of entity entities]
  by (auto simp: collect_binding_def bindable_def binding_of_def intro: rev_image_eqI split: option.splits)

lemma collect_binding_stops: "cl_error result \<noteq> spe_none \<Longrightarrow> fold (collect_binding m entities) ps result = result"
  by (induction ps) (auto simp: collect_binding_def)

lemma collect_bindings_spec:
  assumes "cl_error result = spe_none"
  shows "(cl_error (fold (collect_binding m entities) ps result) = spe_none \<longleftrightarrow>
      (\<forall>entity \<in> set (map snd ps). bindable entities entity \<and> entity \<notin> eb_entity ` set (cl_bindings result)) \<and> distinct (map snd ps)) \<and>
    (cl_error (fold (collect_binding m entities) ps result) = spe_none \<longrightarrow>
      fold (collect_binding m entities) ps result = result\<lparr>cl_bindings := cl_bindings result @ map (binding_of m) ps\<rparr>)"
  using assms
proof (induction ps arbitrary: result)
  case Nil
  then show ?case by simp
next
  case (Cons p ps)
  obtain node entity where p: "p = (node, entity)" by (cases p)
  note step = collect_binding_step [OF Cons.prems, of m entities node entity]
  show ?case
  proof (cases "bindable entities entity \<and> entity \<notin> eb_entity ` set (cl_bindings result)")
    case True
    let ?next = "result\<lparr>cl_bindings := cl_bindings result @ [binding_of m (node, entity)]\<rparr>"
    have "collect_binding m entities p result = ?next" using step True by (simp add: p)
    moreover have "cl_error ?next = spe_none" using Cons.prems by simp
    ultimately show ?thesis using Cons.IH [of ?next] True by (auto simp: p binding_of_def)
  next
    case False
    then have "cl_error (collect_binding m entities p result) \<noteq> spe_none" using step by (simp add: p)
    moreover from this have "fold (collect_binding m entities) (p # ps) result = collect_binding m entities p result"
      by (simp add: collect_binding_stops)
    ultimately show ?thesis using False by (auto simp: p)
  qed
qed

lemma collect_declaration_stops:
  "cl_error result \<noteq> spe_none \<Longrightarrow> fold (collect_declaration clone entities binding_id) cs result = result"
  by (induction cs) (auto simp: collect_declaration_def split: option.split)

lemma collect_declarations_spec:
  assumes "cl_error result = spe_none"
  shows "(cl_error (fold (collect_declaration clone entities binding_id) cs result) = spe_none \<longleftrightarrow>
      (\<forall>d. Some d \<in> set cs \<longrightarrow> acceptable clone entities binding_id d)) \<and>
    (cl_error (fold (collect_declaration clone entities binding_id) cs result) = spe_none \<longrightarrow>
      fold (collect_declaration clone entities binding_id) cs result =
        result\<lparr>cl_declarations := cl_declarations result @ map (completed clone binding_id) (List.map_filter id cs)\<rparr>)"
  using assms
proof (induction cs arbitrary: result)
  case Nil
  then show ?case by (simp add: List.map_filter_def)
next
  case (Cons c cs)
  show ?case
  proof (cases c)
    case None
    then have "collect_declaration clone entities binding_id c result = result" by (simp add: collect_declaration_def)
    then show ?thesis using Cons.IH [OF Cons.prems] by (simp add: None List.map_filter_def)
  next
    case (Some d)
    let ?next = "result\<lparr>cl_declarations := cl_declarations result @ [completed clone binding_id d]\<rparr>"
    show ?thesis
    proof (cases "acceptable clone entities binding_id d")
      case True
      then have "collect_declaration clone entities binding_id c result = ?next"
        using Cons.prems by (auto simp: Some collect_declaration_def acceptable_def completed_def Let_def)
      moreover have "cl_error ?next = spe_none" using Cons.prems by simp
      ultimately show ?thesis using Cons.IH [of ?next] True by (simp add: Some List.map_filter_def)
    next
      case False
      then have "cl_error (collect_declaration clone entities binding_id c result) \<noteq> spe_none"
        using Cons.prems by (auto simp: Some collect_declaration_def acceptable_def Let_def)
      moreover from this have "fold (collect_declaration clone entities binding_id) (c # cs) result =
          collect_declaration clone entities binding_id c result"
        by (simp add: collect_declaration_stops)
      ultimately show ?thesis using False by (auto simp: Some)
    qed
  qed
qed

text \<open>What the providers of the spawned entities declare, and the binding of the node they stand for.\<close>

lemma map_filter_id_mem: "d \<in> set (List.map_filter id cs) \<longleftrightarrow> Some d \<in> set cs"
  by (force simp: List.map_filter_def)

lemma provided_simps [simp]:
  "provided [] = []"
  "provided (None # entities) = provided entities"
  "provided (Some e # entities) = map (Pair (ev_id (se_view e))) (List.map_filter id (se_providers e)) @ provided entities"
  by (simp_all add: provided_def)

lemma collect_providers_stops:
  "cl_error result \<noteq> spe_none \<Longrightarrow> fold (collect_providers clone cb entities) es result = result"
  by (induction es) (auto simp: collect_providers_def split: option.split)

lemma collect_providers_spec:
  assumes "cl_error result = spe_none"
  shows "(cl_error (fold (collect_providers clone cb entities) es result) = spe_none \<longleftrightarrow>
      (\<forall>(entity, d) \<in> set (provided es). acceptable clone entities (provider_binding cb (cb_hierarchy cb) entity) d)) \<and>
    (cl_error (fold (collect_providers clone cb entities) es result) = spe_none \<longrightarrow>
      fold (collect_providers clone cb entities) es result =
        result\<lparr>cl_declarations := cl_declarations result @
          map (\<lambda>(entity, d). completed clone (provider_binding cb (cb_hierarchy cb) entity) d) (provided es)\<rparr>)"
  using assms
proof (induction es arbitrary: result)
  case Nil
  then show ?case by simp
next
  case (Cons entity es)
  show ?case
  proof (cases entity)
    case None
    then have "collect_providers clone cb entities entity result = result" by (simp add: collect_providers_def)
    then show ?thesis using Cons.IH [OF Cons.prems] by (simp add: None)
  next
    case (Some e)
    let ?id = "provider_binding cb (cb_hierarchy cb) (ev_id (se_view e))"
    let ?here = "fold (collect_declaration clone entities ?id) (se_providers e) result"
    have here: "collect_providers clone cb entities (Some e) result = ?here"
      using Cons.prems by (simp add: collect_providers_def)
    note spec = collect_declarations_spec [OF Cons.prems, of clone entities ?id "se_providers e"]
    show ?thesis
    proof (cases "cl_error ?here = spe_none")
      case True
      then have "\<forall>d. Some d \<in> set (se_providers e) \<longrightarrow> acceptable clone entities ?id d" using spec by blast
      then have first: "\<forall>d \<in> set (List.map_filter id (se_providers e)). acceptable clone entities ?id d" by (simp add: map_filter_id_mem)
      have "?here = result\<lparr>cl_declarations := cl_declarations result @ map (completed clone ?id) (List.map_filter id (se_providers e))\<rparr>"
        using spec True by blast
      then show ?thesis using Cons.IH [OF True] first by (simp add: here Some ball_Un comp_def)
    next
      case False
      then have "\<not> (\<forall>d. Some d \<in> set (se_providers e) \<longrightarrow> acceptable clone entities ?id d)" using spec by blast
      then have "\<not> (\<forall>d \<in> set (List.map_filter id (se_providers e)). acceptable clone entities ?id d)" by (auto simp: Ball_def map_filter_id_mem)
      moreover have "fold (collect_providers clone cb entities) (entity # es) result = ?here"
        using False by (simp add: here Some collect_providers_stops)
      ultimately show ?thesis using False by (auto simp: Some)
    qed
  qed
qed

text \<open>C39. The completion callback binds every node of the prefab or nothing. It succeeds exactly when the instance was
not cancelled, was prepared without an error for every node, each node's entity was spawned once, is active and has no
transform parent, no entity stands for two nodes, and every provider declares a controller with a
configuration and with targets among the spawned entities. Then there is one binding per node in topology order
and one declaration per provider, tagged with the node of its entity; otherwise nothing is handed on.\<close>

theorem collected_bindings_are_complete:
  fixes entities :: "('x, 'cfg) spawned_entity option list"
  assumes "collect_prefab_bindings m clone cb entities = result"
  shows "(cl_error result = spe_none \<longleftrightarrow>
      cb_boundary cb \<noteq> sb_cancelled \<and> cb_error cb = spe_none \<and> entities \<noteq> [] \<and>
      length (cb_hierarchy cb) = length (cb_topology cb) \<and> distinct (cb_hierarchy cb) \<and>
      (\<forall>entity \<in> set (cb_hierarchy cb). bindable entities entity) \<and>
      (\<forall>(entity, d) \<in> set (provided entities). acceptable clone entities (provider_binding cb (cb_hierarchy cb) entity) d)) \<and>
    (if cl_error result = spe_none
     then cl_bindings result = map (binding_of m) (zip (cb_topology cb) (cb_hierarchy cb)) \<and>
       cl_declarations result =
         map (\<lambda>(entity, d). completed clone (provider_binding cb (cb_hierarchy cb) entity) d) (provided entities)
     else cl_bindings result = [] \<and> cl_declarations result = [])"
proof (cases "cb_boundary cb \<noteq> sb_cancelled \<and> cb_error cb = spe_none \<and> entities \<noteq> [] \<and> length (cb_hierarchy cb) = length (cb_topology cb)")
  case False
  then obtain error where error: "result = collected_error error" "error \<noteq> spe_none"
    using assms by (auto simp: collect_prefab_bindings_def split: if_splits)
  with False show ?thesis by (auto simp: collected_error_def)
next
  case True
  let ?pairs = "zip (cb_topology cb) (cb_hierarchy cb)"
  let ?bound = "fold (collect_binding m entities) ?pairs (collected_error spe_none)"
  have start: "cl_error (collected_error spe_none :: ('x, 'cfg) collected_bindings) = spe_none" by (simp add: collected_error_def)
  have hierarchy: "map snd ?pairs = cb_hierarchy cb" using True by simp
  note bound = collect_bindings_spec [OF start, of m entities ?pairs, unfolded hierarchy]
  show ?thesis
  proof (cases "cl_error ?bound = spe_none")
    case False
    then have "result = ?bound\<lparr>cl_bindings := [], cl_declarations := []\<rparr>"
      using assms True by (simp add: collect_prefab_bindings_def Let_def)
    then show ?thesis using False bound by (auto simp: collected_error_def)
  next
    case bindings: True
    note providers = collect_providers_spec [OF bindings, of clone cb entities entities]
    have "result = (let result = fold (collect_providers clone cb entities) entities ?bound
        in if cl_error result \<noteq> spe_none then result\<lparr>cl_bindings := [], cl_declarations := []\<rparr> else result)"
      using assms True bindings by (auto simp: collect_prefab_bindings_def Let_def)
    then show ?thesis using True bindings bound providers
      by (auto simp: Let_def collected_error_def split: if_splits)
  qed
qed

text \<open>One entity, 7, with a provider that targets it.\<close>

definition demo_callback_state :: "int callback_state" where
  "demo_callback_state =
     (new_callback_state [\<lparr>nd_binding_id = ''n'', nd_parent_binding_id = [], nd_initial_local = 3\<rparr>] 5)
     \<lparr>cb_boundary := sb_committed, cb_hierarchy := [Some 7]\<rparr>"

definition demo_spawned_entities :: "(int, unit) spawned_entity option list" where
  "demo_spawned_entities =
     [None, Some \<lparr>se_view = \<lparr>ev_id = Some 7, ev_name = ''n'', ev_transform = Some \<lparr>tv_parent = None, tv_local = 8\<rparr>\<rparr>, se_active = True,
        se_providers = [None, Some \<lparr>cd_declaration_id = ''d'', cd_type_id = 5, cd_execution_order = 0, cd_provider_binding_id = [],
          cd_configuration = Some (),
          cd_targets = [\<lparr>tr_slot = ''s'', tr_prefab_entity = Some 7, tr_binding_id = [], tr_access = ta_read_write\<rparr>]\<rparr>]\<rparr>]"

theorem collected_bindings_are_complete_witness:
  "cl_error (collect_prefab_bindings int_math Some demo_callback_state demo_spawned_entities) = spe_none \<and>
   map eb_entity (cl_bindings (collect_prefab_bindings int_math Some demo_callback_state demo_spawned_entities)) = [Some 7] \<and>
   map cd_provider_binding_id (cl_declarations (collect_prefab_bindings int_math Some demo_callback_state demo_spawned_entities)) = [''n'']"
proof -
  let ?result = "collect_prefab_bindings int_math Some demo_callback_state demo_spawned_entities"
  note spec = collected_bindings_are_complete [of int_math Some demo_callback_state demo_spawned_entities ?result, OF refl]
  have "cl_error ?result = spe_none" by code_simp
  then show ?thesis using spec
    by (simp add: demo_callback_state_def demo_spawned_entities_def new_callback_state_def binding_of_def completed_def
        provider_binding_def List.map_filter_def)
qed

subsection \<open>What is prepared\<close>

text \<open>The logical world of a node: its local after the world of its parent, or after the placement of the instance.\<close>

definition composes_at :: "('x, 'v, 'q, 'f) az_math \<Rightarrow> 'x \<Rightarrow> 'x node_descriptor list \<Rightarrow> 'x list \<Rightarrow> nat \<Rightarrow> bool" where
  "composes_at m placement nodes worlds i \<longleftrightarrow>
     (if nd_parent_binding_id (nodes ! i) = [] then worlds ! i = az_mul m placement (nd_initial_local (nodes ! i))
      else \<exists>j < i. nd_binding_id (nodes ! j) = nd_parent_binding_id (nodes ! i) \<and>
        worlds ! i = az_mul m (worlds ! j) (nd_initial_local (nodes ! i)))"

text \<open>The first entity with the id has had its parent cleared and then its world set.\<close>

definition placed_as ::
  "'x transform_methods \<Rightarrow> entity_id \<Rightarrow> 'x \<Rightarrow> 'x entity_view option list \<Rightarrow> 'x entity_view option list \<Rightarrow> bool" where
  "placed_as tm entity world before after \<longleftrightarrow>
     (\<exists>k e tv. find_index (is_entity entity) before = Some k \<and> before ! k = Some e \<and> ev_transform e = Some tv \<and>
        after ! k = Some (e\<lparr>ev_transform := Some (tm_set_world tm world (tm_clear_parent tm tv))\<rparr>) \<and>
        tv_parent (tm_set_world tm world (tm_clear_parent tm tv)) = None)"

definition same_node :: "'x node_descriptor \<Rightarrow> 'x node_descriptor \<Rightarrow> bool" where
  "same_node a b \<longleftrightarrow> nd_binding_id a = nd_binding_id b \<and> nd_parent_binding_id a = nd_parent_binding_id b"

text \<open>The loop after \<open>i\<close> nodes.\<close>

definition prepared_upto ::
  "('x, 'v, 'q, 'f) az_math \<Rightarrow> 'x transform_methods \<Rightarrow> 'x prefab_topology_result \<Rightarrow> 'x callback_state \<Rightarrow>
   'x entity_view option list \<Rightarrow> nat \<Rightarrow> 'x preparation \<Rightarrow> bool" where
  "prepared_upto m tm hierarchy cb entities i = (\<lambda>(valid, worlds, c, after).
     length worlds = length (cb_topology cb) \<and> map (map_option ev_id) after = map (map_option ev_id) entities \<and>
     c = cb\<lparr>cb_error := cb_error c\<rparr> \<and> (valid \<longleftrightarrow> cb_error c = spe_none) \<and>
     (valid \<longrightarrow>
       (\<forall>j < i. same_node (ptr_nodes hierarchy ! j) (cb_topology cb ! j) \<and>
          composes_at m (cb_placement cb) (ptr_nodes hierarchy) worlds j \<and>
          placed_as tm (ptr_entities hierarchy ! j) (worlds ! j) entities after) \<and>
       (\<forall>k < length entities. (\<forall>j < i. \<not> is_entity (ptr_entities hierarchy ! j) (entities ! k)) \<longrightarrow> after ! k = entities ! k)))"

lemma is_entity_id: "is_entity entity candidate \<longleftrightarrow> map_option ev_id candidate = Some entity"
  by (auto simp: is_entity_def split: option.split)

lemma find_entity_ids:
  "map (map_option ev_id) after = map (map_option ev_id) entities \<Longrightarrow>
     find_index (is_entity entity) after = find_index (is_entity entity) entities"
proof (induction after arbitrary: entities)
  case Nil
  then show ?case by simp
next
  case (Cons a after)
  then obtain e es where es: "entities = e # es" "map_option ev_id a = map_option ev_id e"
    "map (map_option ev_id) after = map (map_option ev_id) es" by (cases entities) auto
  have "is_entity entity a = is_entity entity e" by (simp only: is_entity_id es(2))
  with Cons.IH [OF es(3)] show ?case by (simp add: es(1))
qed

lemma composes_at_update: "j < i \<Longrightarrow> composes_at m placement nodes (worlds[i := w]) j = composes_at m placement nodes worlds j"
  by (auto simp: composes_at_def)

lemma give_up_prepared:
  assumes "prepared_upto m tm hierarchy cb entities i (True, worlds, c, after)" and "error \<noteq> spe_none"
    and "length worlds' = length worlds" and "map (map_option ev_id) after' = map (map_option ev_id) after"
  shows "prepared_upto m tm hierarchy cb entities j (give_up error (True, worlds', c, after'))"
  using assms by (cases c; cases cb) (auto simp: prepared_upto_def give_up_def store_preparation_error_def)

lemma find_transform_Some:
  "find_transform entity entities = Some (k, e, tv) \<Longrightarrow>
     find_index (is_entity entity) entities = Some k \<and> k < length entities \<and> entities ! k = Some e \<and>
     ev_id e = entity \<and> ev_transform e = Some tv"
  by (auto simp: find_transform_def is_entity_def split: option.splits dest!: find_index_SomeD)

text \<open>One more node: the world is composed from an earlier node, and no earlier entity is touched.\<close>

lemma prepared_step:
  assumes inv: "prepared_upto m tm hierarchy cb entities i (True, worlds, c, after)"
    and same: "same_node (ptr_nodes hierarchy ! i) (cb_topology cb ! i)"
    and ents: "length (ptr_entities hierarchy) = length (cb_topology cb)" "distinct (ptr_entities hierarchy)"
    and i: "i < length (cb_topology cb)"
    and found: "find_transform (ptr_entities hierarchy ! i) after = Some (k, e, tv)"
    and parents: "nd_parent_binding_id (ptr_nodes hierarchy ! i) \<noteq> [] \<longrightarrow>
      (\<exists>j < i. nd_binding_id (ptr_nodes hierarchy ! j) = nd_parent_binding_id (ptr_nodes hierarchy ! i))"
    and parent: "parent_world_of c (ptr_nodes hierarchy ! i) worlds = Some parent_world"
    and world: "world = az_mul m parent_world (nd_initial_local (ptr_nodes hierarchy ! i))"
    and c: "cb_topology c = cb_topology cb" "cb_placement c = cb_placement cb"
    and placed: "tv_parent (tm_set_world tm world (tm_clear_parent tm tv)) = None"
  shows "prepared_upto m tm hierarchy cb entities (Suc i)
    (True, worlds[i := world], c, after[k := Some (e\<lparr>ev_transform := Some (tm_set_world tm world (tm_clear_parent tm tv))\<rparr>)])"
proof -
  let ?node = "ptr_nodes hierarchy ! i" and ?entity = "ptr_entities hierarchy ! i"
  let ?new = "Some (e\<lparr>ev_transform := Some (tm_set_world tm world (tm_clear_parent tm tv))\<rparr>)"
  note inv' = inv [unfolded prepared_upto_def, simplified]
  have before: "same_node (ptr_nodes hierarchy ! j) (cb_topology cb ! j)"
    "composes_at m (cb_placement cb) (ptr_nodes hierarchy) worlds j"
    "placed_as tm (ptr_entities hierarchy ! j) (worlds ! j) entities after" if "j < i" for j
    using inv' that by blast+
  have ids: "map (map_option ev_id) after = map (map_option ev_id) entities" using inv' by blast
  then have len: "length after = length entities" by (metis length_map)
  have id_at: "map_option ev_id (after ! l) = map_option ev_id (entities ! l)" if "l < length entities" for l
    using ids len that by (metis nth_map)
  note at = find_transform_Some [OF found]
  have first: "find_index (is_entity ?entity) entities = Some k" using at find_entity_ids [OF ids] by simp
  have k: "k < length entities" using at len by simp
  have apart: "\<not> is_entity (ptr_entities hierarchy ! j) (entities ! k)" if "j < i" for j
  proof -
    have "map_option ev_id (entities ! k) = Some ?entity" using id_at [OF k] at by simp
    moreover have "ptr_entities hierarchy ! j \<noteq> ?entity" using ents i that by (simp add: nth_eq_iff_index_eq)
    ultimately show ?thesis by (auto simp: is_entity_id)
  qed
  then have old: "entities ! k = Some e" using inv' k at by auto
  have here: "composes_at m (cb_placement cb) (ptr_nodes hierarchy) (worlds[i := world]) i"
  proof (cases "nd_parent_binding_id ?node = []")
    case True
    then show ?thesis using parent world c i inv' by (simp add: composes_at_def parent_world_of_def)
  next
    case False
    then obtain l where l: "find_index (\<lambda>n. nd_binding_id n = nd_parent_binding_id ?node) (cb_topology cb) = Some l"
      "parent_world = worlds ! l" using parent c by (auto simp: parent_world_of_def)
    obtain j where j: "j < i" "nd_binding_id (ptr_nodes hierarchy ! j) = nd_parent_binding_id ?node" using parents False by blast
    note l' = find_index_SomeD [OF l(1)]
    have "nd_binding_id (cb_topology cb ! j) = nd_parent_binding_id ?node" using before(1) [OF j(1)] j(2) by (simp add: same_node_def)
    then have li: "l < i" using l' j(1) by (meson leI order.strict_trans2)
    moreover have "nd_binding_id (ptr_nodes hierarchy ! l) = nd_parent_binding_id ?node"
      using before(1) [OF li] l' by (simp add: same_node_def)
    ultimately show ?thesis using False l(2) world i inv' by (auto simp: composes_at_def)
  qed
  have there: "placed_as tm (ptr_entities hierarchy ! j) (worlds[i := world] ! j) entities (after[k := ?new])" if j: "j < i" for j
  proof -
    obtain l f tf where l: "find_index (is_entity (ptr_entities hierarchy ! j)) entities = Some l" "entities ! l = Some f"
      "ev_transform f = Some tf"
      "after ! l = Some (f\<lparr>ev_transform := Some (tm_set_world tm (worlds ! j) (tm_clear_parent tm tf))\<rparr>)"
      "tv_parent (tm_set_world tm (worlds ! j) (tm_clear_parent tm tf)) = None"
      using before(3) [OF j] by (auto simp: placed_as_def)
    have "l \<noteq> k" using find_index_SomeD [OF l(1)] apart [OF j] by auto
    with l j show ?thesis by (auto simp: placed_as_def)
  qed
  have mine: "placed_as tm ?entity (worlds[i := world] ! i) entities (after[k := ?new])"
    using first old at placed k len i inv' by (auto simp: placed_as_def)
  have "map (map_option ev_id) (after[k := ?new]) = (map (map_option ev_id) after)[k := map (map_option ev_id) after ! k]"
    using at by (simp add: map_update)
  then have ids': "map (map_option ev_id) (after[k := ?new]) = map (map_option ev_id) entities"
    by (simp only: list_update_id ids)
  show ?thesis
    using inv' ids' here there mine same before(1,2) at find_index_SomeD [OF first]
    by (auto simp: prepared_upto_def less_Suc_eq composes_at_update nth_list_update len)
qed

lemma prepare_node_prepared:
  assumes inv: "prepared_upto m tm hierarchy cb entities i st" and i: "i < length (cb_topology cb)"
    and ents: "length (ptr_entities hierarchy) = length (cb_topology cb)" "distinct (ptr_entities hierarchy)"
    and parents: "nd_parent_binding_id (ptr_nodes hierarchy ! i) \<noteq> [] \<longrightarrow>
      (\<exists>j < i. nd_binding_id (ptr_nodes hierarchy ! j) = nd_parent_binding_id (ptr_nodes hierarchy ! i))"
  shows "prepared_upto m tm hierarchy cb entities (Suc i) (prepare_node m tm hierarchy i st)"
proof -
  obtain valid worlds c after where st: "st = (valid, worlds, c, after)" by (cases st) auto
  let ?node = "ptr_nodes hierarchy ! i" and ?entity = "ptr_entities hierarchy ! i"
  show ?thesis
  proof (cases valid)
    case False
    then show ?thesis using inv by (simp add: st prepare_node_def prepared_upto_def)
  next
    case True
    have at_true: "prepared_upto m tm hierarchy cb entities i (True, worlds, c, after)" using inv True by (simp add: st)
    note inv' = at_true [unfolded prepared_upto_def, simplified]
    have c: "cb_topology c = cb_topology cb" "cb_placement c = cb_placement cb"
      using inv' by (metis callback_state.select_convs(3,4) callback_state.surjective callback_state.update_convs(2))+
    have ids: "map (map_option ev_id) after = map (map_option ev_id) entities" using inv' by blast
    then have len: "length after = length entities" by (metis length_map)
    have stop: "prepared_upto m tm hierarchy cb entities (Suc i) (give_up error (True, worlds', c, after'))"
      if "error \<noteq> spe_none" "length worlds' = length worlds" "map (map_option ev_id) after' = map (map_option ev_id) after"
      for error worlds' after'
      using give_up_prepared [of m tm hierarchy cb entities i worlds c after error worlds' after' "Suc i"] inv that by (simp add: st True)
    show ?thesis
    proof (cases "same_node ?node (cb_topology cb ! i)")
      case False
      then show ?thesis using stop [of spe_hierarchy_mismatch]
        by (auto simp: st True prepare_node_def Let_def c same_node_def)
    next
      case same: True
      show ?thesis
      proof (cases "find_transform ?entity after")
        case None
        then show ?thesis using stop [of spe_invalid_transform] same
          by (auto simp: st True prepare_node_def Let_def c same_node_def)
      next
        case (Some found)
        then obtain k e tv where found: "find_transform ?entity after = Some (k, e, tv)" by (cases found) auto
        note at = find_transform_Some [OF found]
        show ?thesis
        proof (cases "parent_world_of c ?node worlds")
          case None
          then show ?thesis using stop [of spe_invalid_binding] same found
            by (auto simp: st True prepare_node_def Let_def c same_node_def)
        next
          case (Some parent_world)
          let ?world = "az_mul m parent_world (nd_initial_local ?node)"
          let ?tv = "tm_set_world tm ?world (tm_clear_parent tm tv)"
          let ?after = "after[k := Some (e\<lparr>ev_transform := Some ?tv\<rparr>)]"
          have ids': "map (map_option ev_id) ?after = map (map_option ev_id) after"
            using at by (intro nth_equalityI) (auto simp: nth_list_update)
          show ?thesis
          proof (cases "tv_parent ?tv = None")
            case False
            then show ?thesis using stop [of spe_competing_transform_parent "worlds[i := ?world]" ?after] ids' same found Some
              by (auto simp: st True prepare_node_def Let_def c same_node_def)
          next
            case placed: True
            have step: "prepare_node m tm hierarchy i st = (True, worlds[i := ?world], c, ?after)"
              using same found Some placed by (auto simp: st True prepare_node_def Let_def c same_node_def)
            show ?thesis unfolding step
              by (rule prepared_step [OF at_true same ents i found parents Some refl c placed])
          qed
        qed
      qed
    qed
  qed
qed

lemma extracted_entities:
  assumes "topology_succeeds (extract_entity_hierarchy is_finite entities)"
  shows "distinct (ptr_entities (extract_entity_hierarchy is_finite entities))"
    "length (ptr_entities (extract_entity_hierarchy is_finite entities)) = length (ptr_nodes (extract_entity_hierarchy is_finite entities))"
proof -
  from assms obtain inferred by_entity L B I where
    linked: "linked is_finite L" and frame: "same_frame L B" and I: "I = sort_key (\<lambda>n. (in_depth n, in_path n)) B"
    and r: "extract_entity_hierarchy is_finite entities =
      \<lparr>ptr_nodes = map (describe_inferred I) I, ptr_entities = map in_entity I, ptr_failure = no_failure\<rparr>"
    by (rule extraction_success)
  show "distinct (ptr_entities (extract_entity_hierarchy is_finite entities))"
    using frame_entities [OF linked frame] by (simp add: r I)
  show "length (ptr_entities (extract_entity_hierarchy is_finite entities)) = length (ptr_nodes (extract_entity_hierarchy is_finite entities))"
    by (simp add: r)
qed

lemma prepare_loop:
  fixes m :: "('x, 'v, 'q, 'f) az_math" and cb :: "'x callback_state" and entities :: "'x entity_view option list"
  defines "r \<equiv> extract_entity_hierarchy (az_is_finite m) entities"
  assumes ok: "topology_succeeds r" and len: "length (ptr_nodes r) = length (cb_topology cb)" and none: "cb_error cb = spe_none"
    and n: "n \<le> length (cb_topology cb)"
  shows "prepared_upto m tm r cb entities n
    (fold (prepare_node m tm r) [0..<n] (True, replicate (length (cb_topology cb)) (az_identity m), cb, entities))"
  using n
proof (induction n)
  case 0
  then show ?case using none by (cases cb) (simp add: prepared_upto_def)
next
  case (Suc n)
  have normal: "normalized_from (ptr_nodes r) (ptr_nodes r)" "distinct (map nd_binding_id (ptr_nodes r))"
    using extraction_normalized [OF ok [unfolded r_def]] by (simp_all add: r_def valid_topology_def)
  have "\<exists>j < n. nd_binding_id (ptr_nodes r ! j) = nd_parent_binding_id (ptr_nodes r ! n)"
    if "nd_parent_binding_id (ptr_nodes r ! n) \<noteq> []"
    using normalized_parents_first [OF normal _ that] Suc.prems len by simp
  moreover have "length (ptr_entities r) = length (cb_topology cb)" "distinct (ptr_entities r)"
    using extracted_entities [OF ok [unfolded r_def]] len by (simp_all add: r_def)
  ultimately show ?case using prepare_node_prepared [OF Suc.IH] Suc.prems by simp
qed

text \<open>C40. Preparation detaches the instance and puts every entity where its node is. If the spawn is no longer
cancelable nothing happens. Otherwise it is committed, and unless an error is stored the spawned hierarchy is the registered
one, its entities are recorded in node order, each node's world is its local composed with that of its parent, or with the
placement for a root, and the entity of each node has lost its parent before it got that world; no other
entity is touched. With an error no hierarchy is recorded.\<close>

theorem prepared_entities_hold_composed_worlds:
  fixes m :: "('x, 'v, 'q, 'f) az_math" and cb :: "'x callback_state"
  assumes prepare: "prepare_prefab_instance m tm cb entities = (cb', after)" and none: "cb_error cb = spe_none"
    and r: "r = extract_entity_hierarchy (az_is_finite m) entities"
  shows "if cb_boundary cb \<noteq> sb_cancelable then cb' = cb \<and> after = entities
    else cb_boundary cb' = sb_committed \<and>
      (if cb_error cb' = spe_none
       then topology_succeeds r \<and> list_all2 same_node (ptr_nodes r) (cb_topology cb) \<and> cb_hierarchy cb' = ptr_entities r \<and>
         length after = length entities \<and>
         (\<exists>worlds. length worlds = length (cb_topology cb) \<and>
           (\<forall>i < length worlds. composes_at m (cb_placement cb) (ptr_nodes r) worlds i \<and>
             placed_as tm (ptr_entities r ! i) (worlds ! i) entities after)) \<and>
         (\<forall>k < length entities. after ! k \<noteq> entities ! k \<longrightarrow> (\<exists>entity \<in> set (ptr_entities r). is_entity entity (entities ! k)))
       else cb_hierarchy cb' = cb_hierarchy cb)"
proof (cases "cb_boundary cb = sb_cancelable \<and> topology_succeeds r \<and> length (ptr_nodes r) = length (cb_topology cb)")
  case False
  then show ?thesis
    using prepare none
    by (auto simp: prepare_prefab_instance_def Let_def r store_preparation_error_def hierarchy_failure_def
        split: if_splits result_code.splits)
next
  case True
  let ?cb = "cb\<lparr>cb_boundary := sb_committed\<rparr>" and ?n = "length (cb_topology cb)"
  obtain valid worlds c es where loop:
    "fold (prepare_node m tm r) [0..<?n] (True, replicate ?n (az_identity m), ?cb, entities) = (valid, worlds, c, es)"
    by (metis prod_cases4)
  have inv: "prepared_upto m tm r ?cb entities ?n (valid, worlds, c, es)"
    using prepare_loop [of m entities ?cb ?n tm] True none loop by (simp add: r)
  have result: "cb' = (if valid then c\<lparr>cb_hierarchy := ptr_entities r\<rparr> else c)" "after = es"
    using prepare True loop by (auto simp: prepare_prefab_instance_def Let_def r)
  have c: "c = ?cb\<lparr>cb_error := cb_error c\<rparr>" using inv by (simp add: prepared_upto_def)
  have fields: "cb_boundary c = sb_committed" "cb_hierarchy c = cb_hierarchy cb" by (subst c, simp)+
  have ids: "map (map_option ev_id) es = map (map_option ev_id) entities" using inv by (simp add: prepared_upto_def)
  have ents: "length (ptr_entities r) = ?n" using True extracted_entities [of "az_is_finite m" entities] by (simp add: r)
  show ?thesis
  proof (cases valid)
    case False
    then show ?thesis using True result fields inv by (simp add: prepared_upto_def)
  next
    case valid: True
    note inv' = inv [unfolded prepared_upto_def, simplified valid, simplified]
    have "list_all2 same_node (ptr_nodes r) (cb_topology cb)" using True inv' by (simp add: list_all2_conv_all_nth)
    moreover have "length es = length entities" using ids by (metis length_map)
    moreover have "\<exists>entity \<in> set (ptr_entities r). is_entity entity (entities ! k)"
      if "k < length entities" "es ! k \<noteq> entities ! k" for k
      using inv' that ents by (metis nth_mem)
    ultimately show ?thesis using True result fields inv' valid by auto
  qed
qed

text \<open>A root, entity 7, and its child, entity 8.\<close>

definition demo_methods_of_transforms :: "int transform_methods" where
  "demo_methods_of_transforms =
     \<lparr>tm_clear_parent = (\<lambda>tv. tv\<lparr>tv_parent := None\<rparr>), tm_set_world = (\<lambda>world tv. tv\<lparr>tv_local := world\<rparr>)\<rparr>"

definition demo_prefab_entities :: "int entity_view option list" where
  "demo_prefab_entities =
     [Some \<lparr>ev_id = Some 8, ev_name = ''c'', ev_transform = Some \<lparr>tv_parent = Some 7, tv_local = 2\<rparr>\<rparr>, None,
      Some \<lparr>ev_id = Some 7, ev_name = ''n'', ev_transform = Some \<lparr>tv_parent = None, tv_local = 3\<rparr>\<rparr>]"

definition demo_unprepared :: "int callback_state" where
  "demo_unprepared =
     new_callback_state [\<lparr>nd_binding_id = ''n'', nd_parent_binding_id = [], nd_initial_local = 3\<rparr>,
       \<lparr>nd_binding_id = ''n/c'', nd_parent_binding_id = ''n'', nd_initial_local = 2\<rparr>] 5"

theorem prepared_entities_hold_composed_worlds_witness:
  "\<exists>cb after worlds. prepare_prefab_instance int_math demo_methods_of_transforms demo_unprepared demo_prefab_entities = (cb, after) \<and>
     cb_error cb = spe_none \<and> cb_hierarchy cb = [Some 7, Some 8] \<and> length worlds = 2 \<and>
     placed_as demo_methods_of_transforms (Some 8) (worlds ! 1) demo_prefab_entities after"
proof -
  let ?r = "extract_entity_hierarchy (az_is_finite int_math) demo_prefab_entities"
  obtain cb after where prepare: "prepare_prefab_instance int_math demo_methods_of_transforms demo_unprepared demo_prefab_entities = (cb, after)"
    by (metis surj_pair)
  have "cb_error (fst (prepare_prefab_instance int_math demo_methods_of_transforms demo_unprepared demo_prefab_entities)) = spe_none"
    by code_simp
  then have error: "cb_error cb = spe_none" by (simp add: prepare)
  have entities: "ptr_entities ?r = [Some 7, Some 8]" by code_simp
  have start: "cb_boundary demo_unprepared = sb_cancelable" "cb_error demo_unprepared = spe_none" "length (cb_topology demo_unprepared) = 2"
    by (simp_all add: demo_unprepared_def new_callback_state_def)
  from prepared_entities_hold_composed_worlds [OF prepare start(2) refl] obtain worlds where
    "cb_hierarchy cb = ptr_entities ?r" "length worlds = 2"
    "placed_as demo_methods_of_transforms (ptr_entities ?r ! 1) (worlds ! 1) demo_prefab_entities after"
    by (auto simp: start error)
  with prepare error entities show ?thesis by auto
qed

end
