(* ===== verification/Spawner_Steps.thy ===== *)
theory Spawner_Steps
  imports Spawner "HOL-Library.Multiset"
begin

section \<open>What a step does to an instance\<close>

text \<open>
  Every operation of the spawner works on one instance and leaves the others alone. This theory
  describes the outcome of an operation once for all of them, with \<open>advanced\<close>: which requests have been
  answered and which answer the instance still owes, that it has moved on in the order of its states,
  and what its next step is waiting for.
\<close>

subsection \<open>Answers\<close>

datatype spawner_answer = Spawn_answer request_id | Despawn_answer request_id

fun event_answer :: "spawner_event \<Rightarrow> spawner_answer list" where
  "event_answer (Spawn_succeeded rid _ _) = [Spawn_answer rid]"
| "event_answer (Spawn_failed rid _ _) = [Spawn_answer rid]"
| "event_answer (Despawn_succeeded did _) = [Despawn_answer did]"
| "event_answer (Despawn_failed did _ _) = [Despawn_answer did]"
| "event_answer _ = []"

definition answers :: "spawner_event list \<Rightarrow> spawner_answer list" where
  "answers events = concat (map event_answer events)"

lemma answers_simps [simp]:
  "answers [] = []" "answers (e # es) = event_answer e @ answers es" "answers (es @ es') = answers es @ answers es'"
  by (simp_all add: answers_def)

text \<open>The states in the order an instance goes through them; it may leave some out.\<close>

fun state_rank :: "instance_state \<Rightarrow> nat" where
  "state_rank is_resetting = 11"
| "state_rank is_placing = 10"
| "state_rank is_spawning = 9"
| "state_rank is_binding = 8"
| "state_rank is_attaching_controllers = 7"
| "state_rank is_active = 6"
| "state_rank is_detaching_controllers = 5"
| "state_rank is_unbinding = 4"
| "state_rank is_despawning_entities = 3"
| "state_rank is_cleanup_resetting = 2"
| "state_rank is_releasing = 1"

text \<open>The command an instance waits for in a state.\<close>

fun awaited_type :: "instance_state \<Rightarrow> scene_command_type option" where
  "awaited_type is_resetting = Some sct_reset_slot"
| "awaited_type is_placing = Some sct_place_slot"
| "awaited_type is_spawning = None"
| "awaited_type is_binding = Some sct_bind_slot"
| "awaited_type is_attaching_controllers = Some sct_attach_controllers"
| "awaited_type is_active = None"
| "awaited_type is_detaching_controllers = Some sct_detach_controllers"
| "awaited_type is_unbinding = Some sct_unbind_slot"
| "awaited_type is_despawning_entities = None"
| "awaited_type is_cleanup_resetting = Some sct_reset_slot"
| "awaited_type is_releasing = Some sct_release_slot"

text \<open>What an instance still owes: the end of its spawn, nothing while it is active, and then the end of its despawn.\<close>

definition due_by :: "('x, 'cfg) instance_record \<Rightarrow> spawner_answer list" where
  "due_by r =
     (if ir_terminal r \<or> state_rank (ir_state r) > 6 then [Spawn_answer (ir_spawn_request r)]
      else if ir_state r = is_active then []
      else [Despawn_answer (ir_despawn_request r)])"

text \<open>What it owes once it is being taken down.\<close>

definition closing_key :: "('x, 'cfg) instance_record \<Rightarrow> spawner_answer" where
  "closing_key r = (if ir_terminal r then Spawn_answer (ir_spawn_request r) else Despawn_answer (ir_despawn_request r))"

definition record_ok :: "request_id \<Rightarrow> ('x, 'cfg) instance_record \<Rightarrow> bool" where
  "record_ok rid r \<longleftrightarrow> ir_spawn_request r = rid \<and> (ir_terminal r \<longrightarrow> state_rank (ir_state r) \<le> 4)"

text \<open>What the next step of an instance waits for: the completion of a promised command, or the answer to an event.\<close>

definition parked ::
  "entity_id \<Rightarrow> completion list \<Rightarrow> spawner_event list \<Rightarrow> u32 \<Rightarrow> ('x, 'cfg) instance_record \<Rightarrow> bool" where
  "parked entity promises events generation r \<longleftrightarrow>
     (\<forall>type. awaited_type (ir_state r) = Some type \<longrightarrow>
        ir_pending_type r = type \<and> (entity \<noteq> None \<longrightarrow> (ir_pending r, entity, type) \<in> set promises)) \<and>
     (awaited_type (ir_state r) = None \<longrightarrow> ir_pending r = 0) \<and>
     (ir_state r = is_spawning \<longrightarrow>
        (\<exists>t. ir_ticket r = Some t \<and> Spawn_all generation (ir_spawn_request r) (tk_id t) (ir_callback r) \<in> set events)) \<and>
     (ir_state r = is_despawning_entities \<longrightarrow>
        (\<exists>t. ir_ticket r = Some t \<and> Despawn_all generation (ir_spawn_request r) (tk_id t) \<in> set events))"

text \<open>At the start of a step an instance waits for no command.\<close>

abbreviation idle :: "request_id \<Rightarrow> ('x, 'cfg) instance_record \<Rightarrow> bool" where
  "idle rid r \<equiv> ir_spawn_request r = rid \<and> ir_pending r = 0"

lemma parked_mono:
  "parked entity promises events generation r \<Longrightarrow> set promises \<subseteq> set promises' \<Longrightarrow> set events \<subseteq> set events' \<Longrightarrow>
    parked entity promises' events' generation r"
  by (fastforce simp: parked_def)

subsection \<open>Outcomes\<close>

text \<open>Calls of the system component, with all they promise.\<close>

inductive system_calls ::
  "('x, 'v, 'q, 'f, 'cfg, 'inp, 'b, 't, 'm, 'z) host \<Rightarrow> nat \<Rightarrow> completion list \<Rightarrow>
   ('x, 'v, 'cfg, 'b) system_component \<Rightarrow> ('x, 'v, 'cfg, 'b) system_component \<Rightarrow> bool" for h where
  no_calls: "system_calls h 0 [] sys sys"
| more_calls: "system_calls h n promises sys sys' \<Longrightarrow> system_call h sys' more_promises [] sys'' \<Longrightarrow>
    system_calls h (Suc n) (promises @ more_promises) sys sys''"

lemma one_call: "system_call h sys promises [] sys' \<Longrightarrow> system_calls h 1 promises sys sys'"
  using more_calls [OF no_calls] by fastforce

lemma calls_append:
  "system_calls h m qs sys' sys'' \<Longrightarrow> system_calls h n ps sys sys' \<Longrightarrow> system_calls h (n + m) (ps @ qs) sys sys''"
proof (induction rule: system_calls.induct)
  case (more_calls m promises sys' s more_promises s')
  from system_calls.more_calls [OF more_calls.IH [OF more_calls.prems] more_calls.hyps(2)] show ?case by simp
qed simp

definition system_moves ::
  "('x, 'v, 'q, 'f, 'cfg, 'inp, 'b, 't, 'm, 'z) host \<Rightarrow> completion list \<Rightarrow>
   ('x, 'v, 'cfg, 'b) system_component option \<Rightarrow> ('x, 'v, 'cfg, 'b) system_component option \<Rightarrow> bool" where
  "system_moves h promises s s' \<longleftrightarrow>
     (case (s, s') of
        (None, None) \<Rightarrow> promises = []
      | (Some sys, Some sys') \<Rightarrow> \<exists>n. system_calls h n promises sys sys'
      | _ \<Rightarrow> False)"

lemma system_moves_refl [simp]: "system_moves h [] s s"
  by (auto simp: system_moves_def intro: no_calls split: option.splits)

lemma system_moves_trans:
  "system_moves h ps s s' \<Longrightarrow> system_moves h qs s' s'' \<Longrightarrow> system_moves h (ps @ qs) s s''"
  using calls_append by (fastforce simp: system_moves_def split: option.splits)

lemma system_moves_call:
  "system_call h sys ps [] sys' \<Longrightarrow> system_moves h ps (Some sys) (Some sys')"
  by (auto simp: system_moves_def dest: one_call)

text \<open>Everything an operation on an instance does not change.\<close>

definition same_setting :: "('x, 'v, 'cfg, 'b) spawner \<Rightarrow> ('x, 'v, 'cfg, 'b) spawner \<Rightarrow> bool" where
  "same_setting sw sw' \<longleftrightarrow>
     sw'\<lparr>sw_instances := [], sw_system := None, sw_sent := []\<rparr> = sw\<lparr>sw_instances := [], sw_system := None, sw_sent := []\<rparr>"

lemma same_setting_refl [simp]: "same_setting sw sw"
  by (simp add: same_setting_def)

lemma same_setting_trans: "same_setting a b \<Longrightarrow> same_setting b c \<Longrightarrow> same_setting a c"
  by (simp add: same_setting_def)

lemma same_setting_fields:
  assumes "same_setting sw sw'"
  shows "sw_entity sw' = sw_entity sw" "sw_config sw' = sw_config sw" "sw_lifecycle sw' = sw_lifecycle sw"
    "sw_generation sw' = sw_generation sw" "sw_next_spawn sw' = sw_next_spawn sw" "sw_next_despawn sw' = sw_next_despawn sw"
    "sw_callbacks sw' = sw_callbacks sw" "sw_registration sw' = sw_registration sw" "sw_spawner sw' = sw_spawner sw"
    "sw_topology sw' = sw_topology sw" "sw_world sw' = sw_world sw"
  using arg_cong [OF assms [unfolded same_setting_def], of sw_entity] arg_cong [OF assms [unfolded same_setting_def], of sw_config]
    arg_cong [OF assms [unfolded same_setting_def], of sw_lifecycle] arg_cong [OF assms [unfolded same_setting_def], of sw_generation]
    arg_cong [OF assms [unfolded same_setting_def], of sw_next_spawn] arg_cong [OF assms [unfolded same_setting_def], of sw_next_despawn]
    arg_cong [OF assms [unfolded same_setting_def], of sw_callbacks] arg_cong [OF assms [unfolded same_setting_def], of sw_registration]
    arg_cong [OF assms [unfolded same_setting_def], of sw_spawner] arg_cong [OF assms [unfolded same_setting_def], of sw_topology]
    arg_cong [OF assms [unfolded same_setting_def], of sw_world]
  by simp_all

text \<open>A change within the instance and of the system component, before anything has been sent.\<close>

definition quiet ::
  "('x, 'v, 'q, 'f, 'cfg, 'inp, 'b, 't, 'm, 'z) host \<Rightarrow> request_id \<Rightarrow>
   ('x, 'v, 'cfg, 'b) spawner \<Rightarrow> ('x, 'v, 'cfg, 'b) spawner \<Rightarrow> bool" where
  "quiet h rid sw sw' \<longleftrightarrow>
     same_setting sw sw' \<and> map fst (sw_instances sw') = map fst (sw_instances sw) \<and>
     AList.delete (rq_value rid) (sw_instances sw') = AList.delete (rq_value rid) (sw_instances sw) \<and>
     sw_sent sw' = sw_sent sw \<and> (\<exists>promises. system_moves h promises (sw_system sw) (sw_system sw'))"

definition outcome ::
  "request_id \<Rightarrow> spawner_answer list \<Rightarrow> nat \<Rightarrow> completion list \<Rightarrow> spawner_event list \<Rightarrow>
   ('x, 'v, 'cfg, 'b) spawner \<Rightarrow> bool" where
  "outcome rid keys limit promises events sw \<longleftrightarrow>
     (case map_of (sw_instances sw) (rq_value rid) of
        None \<Rightarrow> answers events = keys
      | Some r \<Rightarrow>
          answers events @ due_by r = keys \<and> record_ok rid r \<and> state_rank (ir_state r) \<le> limit \<and>
          parked (sw_entity sw) promises events (sw_generation sw) r)"

definition advanced ::
  "('x, 'v, 'q, 'f, 'cfg, 'inp, 'b, 't, 'm, 'z) host \<Rightarrow> request_id \<Rightarrow> spawner_answer list \<Rightarrow> nat \<Rightarrow>
   ('x, 'v, 'cfg, 'b) spawner \<Rightarrow> ('x, 'v, 'cfg, 'b) spawner \<Rightarrow> bool" where
  "advanced h rid keys limit sw sw' \<longleftrightarrow>
     same_setting sw sw' \<and> (distinct (map fst (sw_instances sw)) \<longrightarrow> distinct (map fst (sw_instances sw'))) \<and>
     AList.delete (rq_value rid) (sw_instances sw') = AList.delete (rq_value rid) (sw_instances sw) \<and>
     (\<exists>promises events. sw_sent sw' = sw_sent sw @ events \<and> system_moves h promises (sw_system sw) (sw_system sw') \<and>
        outcome rid keys limit promises events sw')"

lemma delete_map_entry [simp]:
  "AList.delete v (map (\<lambda>(k, r). (k, if k = v then f r else r)) xs) = AList.delete v xs"
  by (induction xs) auto

lemma keys_map_entry [simp]: "map fst (map (\<lambda>(k, r). (k, if k = v then f r else r)) xs) = map fst xs"
  by (induction xs) auto

lemma change_record_fields [simp]:
  "same_setting sw (change_record rid f sw)" "map fst (sw_instances (change_record rid f sw)) = map fst (sw_instances sw)"
  "AList.delete (rq_value rid) (sw_instances (change_record rid f sw)) = AList.delete (rq_value rid) (sw_instances sw)"
  "sw_sent (change_record rid f sw) = sw_sent sw" "sw_system (change_record rid f sw) = sw_system sw"
  "sw_entity (change_record rid f sw) = sw_entity sw" "sw_generation (change_record rid f sw) = sw_generation sw"
  "sw_callbacks (change_record rid f sw) = sw_callbacks sw" "sw_service (change_record rid f sw) = sw_service sw"
  "sw_ticket (change_record rid f sw) = sw_ticket sw"
  by (simp_all only: change_record_def same_setting_def) (simp_all, auto)

lemma change_record_self [simp]:
  "map_of (sw_instances (change_record rid f sw)) (rq_value rid) = map_option f (map_of (sw_instances sw) (rq_value rid))"
  "find_request rid (change_record rid f sw) = map_option f (find_request rid sw)"
  by (simp_all add: change_record_def map_of_map_entry find_request_def)

lemma quiet_change: "quiet h rid sw (change_record rid f sw)"
  by (auto simp: quiet_def intro: exI [of _ "[]"])

lemma quiet_system:
  "sw_system sw = Some sys \<Longrightarrow> system_call h sys promises [] sys' \<Longrightarrow> quiet h rid sw (sw\<lparr>sw_system := Some sys'\<rparr>)"
  by (auto simp: quiet_def same_setting_def dest: system_moves_call)

lemma quiet_trans: "quiet h rid a b \<Longrightarrow> quiet h rid b c \<Longrightarrow> quiet h rid a c"
  unfolding quiet_def by (auto intro: same_setting_trans system_moves_trans)

lemma find_request_setting [simp]:
  "find_request rid (sw\<lparr>sw_system := s\<rparr>) = find_request rid sw" "find_request rid (send es sw) = find_request rid sw"
  by (simp_all add: find_request_def send_def)

lemma advanced_after:
  assumes "quiet h rid sw sw1" and "advanced h rid keys limit sw1 sw'"
  shows "advanced h rid keys limit sw sw'"
proof -
  from assms(1) obtain ps where ps: "system_moves h ps (sw_system sw) (sw_system sw1)" by (auto simp: quiet_def)
  from assms(2) obtain qs events where qs: "sw_sent sw' = sw_sent sw1 @ events"
      "system_moves h qs (sw_system sw1) (sw_system sw')" "outcome rid keys limit qs events sw'"
    by (auto simp: advanced_def)
  from qs(3) have "outcome rid keys limit (ps @ qs) events sw'"
    by (auto simp: outcome_def intro: parked_mono split: option.splits)
  with system_moves_trans [OF ps qs(2)] qs(1) assms show ?thesis
    unfolding advanced_def quiet_def by (auto intro: same_setting_trans)
qed

lemma advanced_send:
  assumes "quiet h rid sw sw1" and "outcome rid keys limit [] events (send events sw1)"
  shows "advanced h rid keys limit sw (send events sw1)"
proof (rule advanced_after [OF assms(1)])
  have "same_setting sw1 (send events sw1)" by (simp add: same_setting_def send_def)
  moreover have "system_moves h [] (sw_system sw1) (sw_system (send events sw1))" by (simp add: send_def)
  ultimately show "advanced h rid keys limit sw1 (send events sw1)"
    unfolding advanced_def using assms(2) by (fastforce simp: send_def)
qed

lemma outcome_limit: "outcome rid keys m ps es sw \<Longrightarrow> m \<le> n \<Longrightarrow> outcome rid keys n ps es sw"
  by (auto simp: outcome_def split: option.splits)

lemma advanced_limit: "advanced h rid keys m sw sw' \<Longrightarrow> m \<le> n \<Longrightarrow> advanced h rid keys n sw sw'"
  unfolding advanced_def using outcome_limit by blast

subsection \<open>Taking an instance down\<close>

lemma find_request_Some:
  "find_request rid sw = Some r \<longleftrightarrow> rq_generation rid = sw_generation sw \<and> map_of (sw_instances sw) (rq_value rid) = Some r"
  by (simp add: find_request_def)

text \<open>An accepted command: the instance is parked under it.\<close>

lemma advanced_wait:
  assumes "sw_system sw = Some sys" and "system_call h sys (promised s (sw_entity sw) type) [] sys'"
    and "submission_accepted s" and "find_request rid sw = Some r" and "idle rid r"
    and "awaited_type state = Some type" and "due_by (r\<lparr>ir_state := state\<rparr>) = keys" and "state_rank state \<le> limit"
    and "ir_terminal r \<Longrightarrow> state_rank state \<le> 4"
  shows "advanced h rid keys limit sw (wait_for rid state (scs_command s) type (sw\<lparr>sw_system := Some sys'\<rparr>))"
proof -
  let ?r = "r\<lparr>ir_state := state, ir_pending := scs_command s, ir_pending_type := type\<rparr>"
  let ?sw = "wait_for rid state (scs_command s) type (sw\<lparr>sw_system := Some sys'\<rparr>)"
  have quiet: "quiet h rid sw ?sw"
    unfolding wait_for_def by (rule quiet_trans [OF quiet_system [OF assms(1,2)] quiet_change])
  have now: "map_of (sw_instances ?sw) (rq_value rid) = Some ?r"
    using assms(4) by (simp add: wait_for_def find_request_Some)
  have "parked (sw_entity ?sw) (promised s (sw_entity sw) type) [] (sw_generation ?sw) ?r"
    using assms(3,6) by (auto simp: parked_def wait_for_def promised_def owed_def submission_accepted_def)
  moreover have "due_by ?r = keys" using assms(7) by (auto simp: due_by_def)
  moreover have "record_ok rid ?r" using assms(5,9) by (simp add: record_ok_def)
  ultimately have "outcome rid keys limit (promised s (sw_entity sw) type) [] ?sw"
    using assms(8) by (simp add: outcome_def now)
  moreover have "system_moves h (promised s (sw_entity sw) type) (sw_system sw) (sw_system ?sw)"
    using system_moves_call [OF assms(2)] by (simp add: assms(1) wait_for_def)
  ultimately show ?thesis
    using quiet unfolding advanced_def quiet_def by fastforce
qed

lemma advanced_gone:
  assumes "find_request rid sw = Some r" and "distinct (map fst (sw_instances sw)) \<longrightarrow> distinct (map fst (sw_instances sw'))"
    and "same_setting sw sw'" and "sw_instances sw' = AList.delete (rq_value rid) (sw_instances sw)"
    and "sw_system sw' = sw_system sw" and "sw_sent sw' = sw_sent sw @ events" and "answers events = keys"
  shows "advanced h rid keys limit sw sw'"
  using assms unfolding advanced_def outcome_def
  by (auto simp: delete_conv' AList.delete_idem intro!: exI [of _ "[]"] exI [of _ events])

lemma one_event: "event_answer e = [key] \<Longrightarrow> \<exists>event. send [e] sw = send [event] sw \<and> event_answer event = [key]"
  by blast

lemma finish_release_advances:
  assumes "find_request rid sw = Some r" and "idle rid r"
  shows "advanced h rid [closing_key r] limit sw (finish_release rid result sw)"
proof -
  have "\<exists>event. finish_release rid result sw =
      send [event] (sw\<lparr>sw_instances := AList.delete (rq_value rid) (sw_instances sw)\<rparr>) \<and> event_answer event = [closing_key r]"
    using assms(1)
    by (auto simp: finish_release_def Let_def queue_spawn_failure_def queue_despawn_failure_def closing_key_def assms(2)
        intro!: one_event)
  then obtain event where event: "finish_release rid result sw =
      send [event] (sw\<lparr>sw_instances := AList.delete (rq_value rid) (sw_instances sw)\<rparr>)" "event_answer event = [closing_key r]"
    by blast
  show ?thesis
    by (rule advanced_gone [OF assms(1), of _ "[event]"])
      (simp_all add: event send_def same_setting_def distinct_delete)
qed

text \<open>The steps of taking down: a refused command or a missing system component leads to the next step.\<close>

lemma closing_due: "state_rank state \<le> 5 \<Longrightarrow> due_by (r\<lparr>ir_state := state\<rparr>) = [closing_key r]"
  by (cases state) (auto simp: due_by_def closing_key_def)

definition keeps_closing :: "(('x, 'cfg) instance_record \<Rightarrow> ('x, 'cfg) instance_record) \<Rightarrow> bool" where
  "keeps_closing f \<longleftrightarrow> (\<forall>r. closing_key (f r) = closing_key r \<and> ir_spawn_request (f r) = ir_spawn_request r \<and> ir_pending (f r) = ir_pending r)"

text \<open>\<open>closes\<close>: whatever it does, the operation takes the instance further down.\<close>

definition closes ::
  "('x, 'v, 'q, 'f, 'cfg, 'inp, 'b, 't, 'm, 'z) host \<Rightarrow> nat \<Rightarrow>
   (('x, 'v, 'cfg, 'b) spawner \<Rightarrow> ('x, 'v, 'cfg, 'b) spawner) \<Rightarrow> request_id \<Rightarrow> bool" where
  "closes h limit g rid \<longleftrightarrow>
     (\<forall>sw r. find_request rid sw = Some r \<longrightarrow> idle rid r \<longrightarrow> advanced h rid [closing_key r] limit sw (g sw))"

lemma closesD:
  "closes h limit g rid \<Longrightarrow> find_request rid sw = Some r \<Longrightarrow> idle rid r \<Longrightarrow> limit \<le> n \<Longrightarrow>
    advanced h rid [closing_key r] n sw (g sw)"
  unfolding closes_def using advanced_limit by blast

lemma closes_change:
  assumes "closes h limit g rid" and "find_request rid sw = Some r" and "idle rid r" and "keeps_closing f"
  shows "advanced h rid [closing_key r] limit sw (g (change_record rid f sw))"
  using closesD [OF assms(1), of "change_record rid f sw" "f r" limit] assms(2-4) advanced_after [OF quiet_change]
  by (fastforce simp: keeps_closing_def)

lemma keeps_closing_notes [simp]:
  "keeps_closing (note_cleanup code)" "keeps_closing (note_command_failure code)"
  by (simp_all add: keeps_closing_def note_cleanup_def note_command_failure_def closing_key_def)

text \<open>The shape of every step that submits a command.\<close>

lemma advanced_submit:
  assumes "find_request rid sw = Some r" and "idle rid r" and "sw_system sw = Some sys"
    and "system_call h sys (promised s (sw_entity sw) type) [] sys'"
    and "submission_accepted s \<Longrightarrow> sw' = wait_for rid state (scs_command s) type (sw\<lparr>sw_system := Some sys'\<rparr>)"
    and "\<not> submission_accepted s \<Longrightarrow> advanced h rid keys limit (sw\<lparr>sw_system := Some sys'\<rparr>) sw'"
    and "awaited_type state = Some type" and "due_by (r\<lparr>ir_state := state\<rparr>) = keys" and "state_rank state \<le> limit"
    and "ir_terminal r \<Longrightarrow> state_rank state \<le> 4"
  shows "advanced h rid keys limit sw sw'"
proof (cases "submission_accepted s")
  case True
  from advanced_wait [OF assms(3,4) True assms(1,2,7-10)] assms(5) [OF True] show ?thesis by simp
next
  case False
  from advanced_after [OF quiet_system [OF assms(3,4)] assms(6) [OF False]] show ?thesis .
qed

lemma release_closes: "closes h 1 (spawner_submit_release h rid) rid"
  unfolding closes_def
proof (intro allI impI, goal_cases)
  case (1 sw r)
  have finish: "advanced h rid [closing_key r] 1 sw1 (finish_release rid code sw1)" if "find_request rid sw1 = Some r" for sw1 code
    by (rule finish_release_advances [OF that 1(2)])
  show ?case
  proof (cases "sw_system sw")
    case None
    with 1 finish show ?thesis by (simp add: spawner_submit_release_def)
  next
    case (Some sys)
    obtain s sys' where s: "submit_release_slot h (ih_slot (ir_instance r)) (sw_entity sw) sys = (s, sys')" by fastforce
    show ?thesis
      by (rule advanced_submit [OF 1 Some call_release [OF s], of _ is_releasing])
        (use 1 Some s finish in \<open>simp_all add: spawner_submit_release_def closing_due\<close>)
  qed
qed

lemma cleanup_reset_closes: "closes h 2 (submit_cleanup_reset h rid) rid"
  unfolding closes_def
proof (intro allI impI, goal_cases)
  case (1 sw r)
  have release: "advanced h rid [closing_key r] 2 sw1 (spawner_submit_release h rid (change_record rid (note_cleanup code) sw1))"
    if "find_request rid sw1 = Some r" for sw1 code
    by (rule advanced_limit [OF closes_change [OF release_closes that 1(2)]]) simp_all
  show ?case
  proof (cases "sw_system sw")
    case None
    with 1 release show ?thesis by (simp add: submit_cleanup_reset_def)
  next
    case (Some sys)
    obtain s sys' where s: "submit_reset_slot h (ih_slot (ir_instance r)) (sw_entity sw) sys = (s, sys')" by fastforce
    show ?thesis
      by (rule advanced_submit [OF 1 Some call_reset [OF s], of _ is_cleanup_resetting])
        (use 1 Some s release in \<open>simp_all add: submit_cleanup_reset_def closing_due\<close>)
  qed
qed

lemma entity_despawn_closes: "closes h 3 (begin_entity_despawn h rid) rid"
  unfolding closes_def
proof (intro allI impI, goal_cases)
  case (1 sw r)
  have reset: "advanced h rid [closing_key r] 3 sw (submit_cleanup_reset h rid sw)"
    by (rule closesD [OF cleanup_reset_closes 1]) simp
  have without_service: "advanced h rid [closing_key r] 3 sw (submit_cleanup_reset h rid (change_record rid f sw))"
    if "keeps_closing f" for f
    by (rule advanced_limit [OF closes_change [OF cleanup_reset_closes 1 that]]) simp
  show ?case
  proof (cases "\<exists>t. ir_ticket r = Some t \<and> tk_valid t \<and> sw_service sw")
    case False
    with 1 reset without_service show ?thesis
      by (auto simp: begin_entity_despawn_def keeps_closing_def closing_key_def split: option.splits)
  next
    case True
    then obtain t where t: "ir_ticket r = Some t" "tk_valid t" "sw_service sw" by blast
    let ?sw = "change_record rid (\<lambda>r. r\<lparr>ir_state := is_despawning_entities\<rparr>) sw"
    let ?e = "Despawn_all (sw_generation sw) rid (tk_id t)"
    have "due_by (r\<lparr>ir_state := is_despawning_entities\<rparr>) = [closing_key r]" by (simp add: closing_due)
    then have "outcome rid [closing_key r] 3 [] [?e] (send [?e] ?sw)"
      using 1 t by (simp add: outcome_def send_def find_request_Some record_ok_def parked_def)
    from advanced_send [OF quiet_change this] 1 t show ?thesis by (simp add: begin_entity_despawn_def)
  qed
qed

lemma unbind_closes: "closes h 4 (spawner_submit_unbind h rid) rid"
  unfolding closes_def
proof (intro allI impI, goal_cases)
  case (1 sw r)
  have despawn: "advanced h rid [closing_key r] 4 sw1 (begin_entity_despawn h rid (change_record rid (note_command_failure code) sw1))"
    if "find_request rid sw1 = Some r" for sw1 code
    by (rule advanced_limit [OF closes_change [OF entity_despawn_closes that 1(2)]]) simp_all
  show ?case
  proof (cases "sw_system sw")
    case None
    with 1 despawn show ?thesis by (simp add: spawner_submit_unbind_def)
  next
    case (Some sys)
    obtain s sys' where s: "submit_unbind_slot h (ih_slot (ir_instance r)) (sw_entity sw) sys = (s, sys')" by fastforce
    show ?thesis
      by (rule advanced_submit [OF 1 Some call_unbind [OF s], of _ is_unbinding])
        (use 1 Some s despawn in \<open>simp_all add: spawner_submit_unbind_def closing_due\<close>)
  qed
qed

lemma begin_spawn_failure_advances:
  assumes "find_request rid sw = Some r" and "idle rid r" and "\<not> ir_terminal r"
  shows "advanced h rid [Spawn_answer rid] 4 sw (begin_spawn_failure h rid failure sw)"
proof -
  let ?f = "\<lambda>r. r\<lparr>ir_terminal := True, ir_spawn_failure := failure\<rparr>"
  have "advanced h rid [closing_key (?f r)] 4 (change_record rid ?f sw) (spawner_submit_unbind h rid (change_record rid ?f sw))"
    by (rule closesD [OF unbind_closes]) (simp_all add: assms)
  with assms have "advanced h rid [Spawn_answer rid] 4 (change_record rid ?f sw) (spawner_submit_unbind h rid (change_record rid ?f sw))"
    by (simp add: closing_key_def)
  from advanced_after [OF quiet_change this] assms show ?thesis by (simp add: begin_spawn_failure_def)
qed

subsection \<open>Bringing an instance up\<close>

lemma early_due: "\<not> ir_terminal r \<Longrightarrow> state_rank state > 6 \<Longrightarrow> due_by (r\<lparr>ir_state := state\<rparr>) = [Spawn_answer (ir_spawn_request r)]"
  by (auto simp: due_by_def)

lemma spawn_failure_advances:
  assumes "find_request rid sw = Some r" and "idle rid r" and "\<not> ir_terminal r" and "4 \<le> limit"
  shows "advanced h rid [Spawn_answer rid] limit sw (begin_spawn_failure h rid failure sw)"
  by (rule advanced_limit [OF begin_spawn_failure_advances [OF assms(1-3)] assms(4)])

lemma submit_attach_advances:
  assumes "find_request rid sw = Some r" and "idle rid r" and "\<not> ir_terminal r"
  shows "advanced h rid [Spawn_answer rid] 7 sw (spawner_submit_attach h rid declarations sw)"
proof (cases "sw_system sw")
  case None
  with assms spawn_failure_advances [OF assms, of 7 h] show ?thesis by (simp add: spawner_submit_attach_def)
next
  case (Some sys)
  obtain s sys' where s: "submit_attach_controllers h (ir_instance r) declarations (sw_entity sw) sys = (s, sys')" by fastforce
  have "find_request rid (sw\<lparr>sw_system := Some sys'\<rparr>) = Some r" using assms(1) by simp
  note fails = spawn_failure_advances [OF this assms(2,3), of 7 h]
  show ?thesis
    by (rule advanced_submit [OF assms(1,2) Some call_attach [OF s], of _ is_attaching_controllers])
      (use assms Some s fails in \<open>simp_all add: spawner_submit_attach_def early_due\<close>)
qed

lemma submit_bind_advances:
  assumes "find_request rid sw = Some r" and "idle rid r" and "\<not> ir_terminal r"
  shows "advanced h rid [Spawn_answer rid] 8 sw (spawner_submit_bind h rid bindings sw)"
proof (cases "sw_system sw")
  case None
  with assms spawn_failure_advances [OF assms, of 8 h] show ?thesis by (simp add: spawner_submit_bind_def)
next
  case (Some sys)
  obtain s sys' where s: "submit_bind_slot h (ih_slot (ir_instance r)) bindings (sw_entity sw) sys = (s, sys')" by fastforce
  have "find_request rid (sw\<lparr>sw_system := Some sys'\<rparr>) = Some r" using assms(1) by simp
  note fails = spawn_failure_advances [OF this assms(2,3), of 8 h]
  show ?thesis
    by (rule advanced_submit [OF assms(1,2) Some call_bind [OF s], of _ is_binding])
      (use assms Some s fails in \<open>simp_all add: spawner_submit_bind_def early_due\<close>)
qed

lemma submit_place_advances:
  assumes "find_request rid sw = Some r" and "idle rid r" and "\<not> ir_terminal r"
  shows "advanced h rid [Spawn_answer rid] 10 sw (spawner_submit_place h rid sw)"
proof (cases "sw_system sw")
  case None
  with assms spawn_failure_advances [OF assms, of 10 h] show ?thesis by (simp add: spawner_submit_place_def)
next
  case (Some sys)
  obtain s sys' where s: "submit_place_slot h (ih_slot (ir_instance r)) (ir_placement r) (sw_entity sw) sys = (s, sys')" by fastforce
  have "find_request rid (sw\<lparr>sw_system := Some sys'\<rparr>) = Some r" using assms(1) by simp
  note fails = spawn_failure_advances [OF this assms(2,3), of 10 h]
  show ?thesis
    by (rule advanced_submit [OF assms(1,2) Some call_place [OF s], of _ is_placing])
      (use assms Some s fails in \<open>simp_all add: spawner_submit_place_def early_due\<close>)
qed

lemma submit_reset_advances:
  assumes "find_request rid sw = Some r" and "idle rid r" and "\<not> ir_terminal r"
  shows "advanced h rid [Spawn_answer rid] 11 sw (spawner_submit_reset h rid sw)"
proof (cases "sw_system sw")
  case None
  with assms spawn_failure_advances [OF assms, of 11 h] show ?thesis by (simp add: spawner_submit_reset_def)
next
  case (Some sys)
  obtain s sys' where s: "submit_reset_slot h (ih_slot (ir_instance r)) (sw_entity sw) sys = (s, sys')" by fastforce
  have "find_request rid (sw\<lparr>sw_system := Some sys'\<rparr>) = Some r" using assms(1) by simp
  note fails = spawn_failure_advances [OF this assms(2,3), of 11 h]
  show ?thesis
    by (rule advanced_submit [OF assms(1,2) Some call_reset [OF s], of _ is_resetting])
      (use assms Some s fails in \<open>simp_all add: spawner_submit_reset_def early_due\<close>)
qed

lemma entity_spawn_advances:
  assumes "find_request rid sw = Some r" and "idle rid r" and "\<not> ir_terminal r"
  shows "advanced h rid [Spawn_answer rid] 9 sw (begin_entity_spawn h rid sw)"
proof -
  let ?ticket = "\<lambda>r. r\<lparr>ir_ticket := Some (sw_ticket sw)\<rparr>"
  let ?sw1 = "change_record rid ?ticket sw"
  let ?sw2 = "change_record rid (\<lambda>r. r\<lparr>ir_state := is_spawning\<rparr>) ?sw1"
  let ?e = "Spawn_all (sw_generation sw) rid (tk_id (sw_ticket sw)) (ir_callback r)"
  have "find_request rid ?sw1 = Some (?ticket r)" using assms(1) by simp
  from advanced_after [OF quiet_change spawn_failure_advances [OF this, of 9 h "spawn_failure_of spe_o3de_spawn_failed"]] assms
  have invalid: "advanced h rid [Spawn_answer rid] 9 sw (begin_spawn_failure h rid (spawn_failure_of spe_o3de_spawn_failed) ?sw1)"
    by simp
  have "outcome rid [Spawn_answer rid] 9 [] [?e] (send [?e] ?sw2)"
    using assms by (auto simp: outcome_def send_def find_request_Some record_ok_def parked_def due_by_def)
  from advanced_send [OF quiet_trans [OF quiet_change quiet_change] this]
  have sent: "advanced h rid [Spawn_answer rid] 9 sw (send [?e] ?sw2)" .
  show ?thesis
    using assms spawn_failure_advances [OF assms, of 9 h] invalid sent by (simp add: begin_entity_spawn_def Let_def)
qed

lemma activate_advances:
  assumes "find_request rid sw = Some r'" and "idle rid r'" and "\<not> ir_terminal r'" and "ir_spawn_request r = rid"
  shows "advanced h rid [Spawn_answer rid] 6 sw (activate_instance attached r sw)"
proof -
  let ?sw = "change_record rid (\<lambda>r. r\<lparr>ir_state := is_active, ir_attached := ir_attached r \<or> attached\<rparr>) sw"
  let ?e = "Spawn_succeeded rid (ir_instance r) (sq_context (ir_request r))"
  have "outcome rid [Spawn_answer rid] 6 [] [?e] (send [?e] ?sw)"
    using assms by (auto simp: outcome_def send_def find_request_Some record_ok_def parked_def due_by_def)
  from advanced_send [OF quiet_change this] show ?thesis by (simp add: activate_instance_def assms(4))
qed

lemma submit_detach_advances:
  assumes "find_request rid sw = Some r" and "idle rid r" and "\<not> ir_terminal r"
  shows "advanced h rid [Despawn_answer (ir_despawn_request r)] 5 sw (spawner_submit_detach h rid sw)"
proof -
  have key: "closing_key r = Despawn_answer (ir_despawn_request r)" using assms(3) by (simp add: closing_key_def)
  have unbind: "advanced h rid [closing_key r] 5 sw1 (spawner_submit_unbind h rid (change_record rid f sw1))"
    if "find_request rid sw1 = Some r" "keeps_closing f" for sw1 f
    by (rule advanced_limit [OF closes_change [OF unbind_closes that(1) assms(2) that(2)]]) simp
  have keeps: "keeps_closing (\<lambda>r. r\<lparr>ir_despawn_failure := f\<rparr>)" "keeps_closing (\<lambda>r. r\<lparr>ir_attached := b, ir_despawn_failure := f\<rparr>)"
    for f b
    by (simp_all add: keeps_closing_def closing_key_def)
  show ?thesis
  proof (cases "sw_system sw")
    case None
    with assms unbind [OF assms(1) keeps(1)] show ?thesis by (simp add: spawner_submit_detach_def key)
  next
    case (Some sys)
    obtain s sys' where s: "submit_detach_controllers h (ir_instance r) (sw_entity sw) sys = (s, sys')" by fastforce
    obtain code sys'' where d: "destroy_controllers_immediately h (ir_instance r) sys' = (code, sys'')" by fastforce
    have "quiet h rid (sw\<lparr>sw_system := Some sys'\<rparr>) (sw\<lparr>sw_system := Some sys''\<rparr>)"
      using quiet_system [of "sw\<lparr>sw_system := Some sys'\<rparr>", OF _ call_destroy_controllers [OF d]] by simp
    from advanced_after [OF this unbind [OF _ keeps(2)]] assms(1)
    have refused: "advanced h rid [closing_key r] 5 (sw\<lparr>sw_system := Some sys'\<rparr>)
        (spawner_submit_unbind h rid (change_record rid (\<lambda>r. r\<lparr>ir_attached := b, ir_despawn_failure := f\<rparr>)
          (sw\<lparr>sw_system := Some sys''\<rparr>)))" for b f
      by simp
    have "advanced h rid [closing_key r] 5 sw (spawner_submit_detach h rid sw)"
      by (rule advanced_submit [OF assms(1,2) Some call_detach [OF s], of _ is_detaching_controllers])
        (use assms Some s d refused in \<open>simp_all add: spawner_submit_detach_def closing_due\<close>)
    then show ?thesis by (simp add: key)
  qed
qed

end
