(* ===== verification/Spawner_Runs.thy ===== *)
theory Spawner_Runs
  imports Spawner_Steps
begin

section \<open>Runs of the spawner\<close>

text \<open>
  The spawner together with the system component it uses: requests of clients, notifications, ticks and
  other calls of the system component, in any order. Every request is accounted for, and every instance
  that is not active waits for something that is on its way.
\<close>

subsection \<open>The ledger\<close>

definition due :: "('x, 'v, 'cfg, 'b) spawner \<Rightarrow> spawner_answer list" where
  "due sw = concat (map (\<lambda>(_, r). due_by r) (sw_instances sw))"

definition ledger :: "('x, 'v, 'cfg, 'b) spawner \<Rightarrow> spawner_answer multiset" where
  "ledger sw = mset (answers (sw_sent sw)) + mset (due sw)"

definition instances_ok :: "('x, 'v, 'cfg, 'b) spawner \<Rightarrow> bool" where
  "instances_ok sw \<longleftrightarrow>
     distinct (map fst (sw_instances sw)) \<and>
     (\<forall>(k, r) \<in> set (sw_instances sw). record_ok \<lparr>rq_generation = sw_generation sw, rq_value = k\<rparr> r)"

lemma instances_okD:
  assumes "instances_ok sw" and "map_of (sw_instances sw) k = Some r"
  shows "record_ok \<lparr>rq_generation = sw_generation sw, rq_value = k\<rparr> r" "ir_spawn_request r = \<lparr>rq_generation = sw_generation sw, rq_value = k\<rparr>"
    "rq_value (ir_spawn_request r) = k" "find_request (ir_spawn_request r) sw = Some r"
proof -
  show ok: "record_ok \<lparr>rq_generation = sw_generation sw, rq_value = k\<rparr> r"
    using assms by (auto simp: instances_ok_def dest!: map_of_SomeD)
  then show "ir_spawn_request r = \<lparr>rq_generation = sw_generation sw, rq_value = k\<rparr>" by (simp add: record_ok_def)
  with assms(2) show "rq_value (ir_spawn_request r) = k" "find_request (ir_spawn_request r) sw = Some r"
    by (simp_all add: find_request_def)
qed

lemma due_split:
  assumes "distinct (map fst xs)" and "map_of xs k = Some r"
  shows "mset (concat (map (\<lambda>(_, r). due_by r) xs)) = mset (due_by r) + mset (concat (map (\<lambda>(_, r). due_by r) (AList.delete k xs)))"
  using assms
proof (induction xs)
  case (Cons x xs)
  obtain k' r' where x: "x = (k', r')" by (cases x)
  show ?case
  proof (cases "k' = k")
    case True
    with Cons.prems x have "k \<notin> fst ` set xs" "r' = r" by auto
    with x True show ?thesis by (simp add: delete_id)
  next
    case False
    with Cons x show ?thesis by (auto split: if_splits)
  qed
qed simp

lemma due_gone: "map_of xs k = None \<Longrightarrow> AList.delete k xs = xs"
  by (simp add: delete_id map_of_eq_None_iff)

text \<open>What an operation on one instance does to the ledger.\<close>

lemma advanced_ledger:
  assumes "advanced h rid keys limit sw sw'" and "instances_ok sw" and "map_of (sw_instances sw) (rq_value rid) = Some r"
    and "rid = \<lparr>rq_generation = sw_generation sw, rq_value = k\<rparr>"
  shows "instances_ok sw' \<and> ledger sw' + mset (due_by r) = ledger sw + mset keys"
proof -
  let ?v = "rq_value rid" and ?due = "\<lambda>xs. mset (concat (map (\<lambda>(_, r). due_by r) xs))"
  from assms(1) obtain promises events where out: "sw_sent sw' = sw_sent sw @ events" "outcome rid keys limit promises events sw'"
    and rest: "AList.delete ?v (sw_instances sw') = AList.delete ?v (sw_instances sw)"
    and same: "same_setting sw sw'" and keys: "distinct (map fst (sw_instances sw'))"
    using assms(2) unfolding advanced_def instances_ok_def by blast
  have others: "map_of (sw_instances sw') k' = map_of (sw_instances sw) k'" if "k' \<noteq> ?v" for k'
    using arg_cong [OF rest, of "\<lambda>xs. map_of xs k'"] that by (simp add: delete_conv')
  have "record_ok \<lparr>rq_generation = sw_generation sw', rq_value = k'\<rparr> r'" if "(k', r') \<in> set (sw_instances sw')" for k' r'
  proof (cases "k' = ?v")
    case True
    with that keys out(2) have "record_ok rid r'" by (auto simp: outcome_def)
    then show ?thesis using True assms(4) same_setting_fields(4) [OF same] by simp
  next
    case False
    from that keys have "map_of (sw_instances sw') k' = Some r'" by simp
    with others [OF False] instances_okD(1) [OF assms(2)] show ?thesis by (simp add: same_setting_fields [OF same])
  qed
  with keys have ok: "instances_ok sw'" by (auto simp: instances_ok_def)
  have before: "?due (sw_instances sw) = mset (due_by r) + ?due (AList.delete ?v (sw_instances sw))"
    using due_split [OF _ assms(3)] assms(2) by (simp add: instances_ok_def)
  have "mset (answers events) + ?due (sw_instances sw') = mset keys + ?due (AList.delete ?v (sw_instances sw))"
  proof (cases "map_of (sw_instances sw') ?v")
    case None
    then have "sw_instances sw' = AList.delete ?v (sw_instances sw)" using due_gone [OF None] rest by simp
    with None out(2) show ?thesis by (simp add: outcome_def)
  next
    case (Some r')
    then have "answers events @ due_by r' = keys" using out(2) by (simp add: outcome_def)
    then have "mset keys = mset (answers events) + mset (due_by r')" by (metis mset_append)
    with due_split [OF keys Some] show ?thesis by (simp add: rest)
  qed
  with before ok show ?thesis by (simp add: ledger_def due_def out(1))
qed

subsection \<open>What instances wait for\<close>

text \<open>
  \<open>W\<close> holds the completions that are still to be delivered, \<open>P\<close> the ids of all commands so far; the
  instances with a key in \<open>K\<close> are left out.
\<close>

definition tracked ::
  "u64 set \<Rightarrow> completion list \<Rightarrow> u64 set \<Rightarrow> ('x, 'v, 'cfg, 'b) spawner \<Rightarrow> bool" where
  "tracked K W P sw \<longleftrightarrow>
     (\<forall>k r. k \<notin> K \<longrightarrow> map_of (sw_instances sw) k = Some r \<longrightarrow>
        parked (sw_entity sw) W (sw_sent sw) (sw_generation sw) r \<and> (ir_pending r = 0 \<or> ir_pending r \<in> P)) \<and>
     (\<forall>k r k' r'. k \<notin> K \<longrightarrow> k' \<notin> K \<longrightarrow> k \<noteq> k' \<longrightarrow> map_of (sw_instances sw) k = Some r \<longrightarrow>
        map_of (sw_instances sw) k' = Some r' \<longrightarrow> ir_pending r \<noteq> 0 \<longrightarrow> ir_pending r \<noteq> ir_pending r')"

lemma tracked_parked:
  "tracked K W P sw \<Longrightarrow> map_of (sw_instances sw) k = Some r \<Longrightarrow> k \<notin> K \<Longrightarrow>
    parked (sw_entity sw) W (sw_sent sw) (sw_generation sw) r \<and> (ir_pending r = 0 \<or> ir_pending r \<in> P)"
  unfolding tracked_def by blast

lemma tracked_apart:
  "tracked K W P sw \<Longrightarrow> map_of (sw_instances sw) k = Some r \<Longrightarrow> map_of (sw_instances sw) k' = Some r' \<Longrightarrow> k \<notin> K \<Longrightarrow> k' \<notin> K \<Longrightarrow>
    k \<noteq> k' \<Longrightarrow> ir_pending r \<noteq> 0 \<Longrightarrow> ir_pending r \<noteq> ir_pending r'"
  unfolding tracked_def by blast

lemma tracked_weaken: "tracked K W P sw \<Longrightarrow> K \<subseteq> K' \<Longrightarrow> tracked K' W P sw"
  unfolding tracked_def by blast

text \<open>The instance an operation worked on ends up parked; the others stay so.\<close>

lemma advanced_tracks:
  assumes "advanced h rid keys limit sw sw'" and "sw_entity sw \<noteq> None"
  obtains promises where "system_moves h promises (sw_system sw) (sw_system sw')"
    and "\<And>W P. tracked {rq_value rid} W P sw \<Longrightarrow> fst ` set promises \<inter> P = {} \<Longrightarrow>
      tracked {} (W @ promises) (P \<union> fst ` set promises) sw'"
proof -
  let ?v = "rq_value rid"
  from assms(1) obtain promises events where out: "sw_sent sw' = sw_sent sw @ events"
      "system_moves h promises (sw_system sw) (sw_system sw')" "outcome rid keys limit promises events sw'"
    and rest: "AList.delete ?v (sw_instances sw') = AList.delete ?v (sw_instances sw)" and same: "same_setting sw sw'"
    unfolding advanced_def by blast
  note fields = same_setting_fields [OF same]
  have others: "map_of (sw_instances sw') k' = map_of (sw_instances sw) k'" if "k' \<noteq> ?v" for k'
    using arg_cong [OF rest, of "\<lambda>xs. map_of xs k'"] that by (simp add: delete_conv')
  have old: "parked (sw_entity sw') (W @ promises) (sw_sent sw') (sw_generation sw') r \<and> (ir_pending r = 0 \<or> ir_pending r \<in> P)"
    if "tracked {?v} W P sw" "map_of (sw_instances sw') k = Some r" "k \<noteq> ?v" for k r W P
  proof -
    from that others have "map_of (sw_instances sw) k = Some r" by simp
    from tracked_parked [OF that(1) this] that(3) show ?thesis
      by (auto simp: fields out(1) intro: parked_mono)
  qed
  have new: "parked (sw_entity sw') (W @ promises) (sw_sent sw') (sw_generation sw') r \<and>
      (ir_pending r = 0 \<or> ir_pending r \<in> fst ` set promises)"
    if "map_of (sw_instances sw') ?v = Some r" for r W
  proof -
    from that out(3) have parked: "parked (sw_entity sw') promises events (sw_generation sw') r" by (simp add: outcome_def)
    then have "parked (sw_entity sw') (W @ promises) (sw_sent sw') (sw_generation sw') r"
      by (rule parked_mono) (simp_all add: out(1))
    moreover have "ir_pending r = 0 \<or> ir_pending r \<in> fst ` set promises"
    proof (cases "awaited_type (ir_state r)")
      case None
      with parked show ?thesis by (simp add: parked_def)
    next
      case (Some type)
      with parked assms(2) have "(ir_pending r, sw_entity sw', type) \<in> set promises" by (simp add: parked_def fields)
      then show ?thesis by force
    qed
    ultimately show ?thesis by blast
  qed
  have "tracked {} (W @ promises) (P \<union> fst ` set promises) sw'"
    if tracked: "tracked {?v} W P sw" and fresh: "fst ` set promises \<inter> P = {}" for W P
    unfolding tracked_def
  proof (intro conjI allI impI)
    fix k r
    assume r: "map_of (sw_instances sw') k = Some r"
    have "parked (sw_entity sw') (W @ promises) (sw_sent sw') (sw_generation sw') r \<and>
        (ir_pending r = 0 \<or> ir_pending r \<in> P \<union> fst ` set promises)"
    proof (cases "k = ?v")
      case True
      with r have "map_of (sw_instances sw') ?v = Some r" by simp
      from new [OF this, of W] show ?thesis by blast
    next
      case False
      with old [OF tracked r] show ?thesis by blast
    qed
    then show "parked (sw_entity sw') (W @ promises) (sw_sent sw') (sw_generation sw') r"
      and "ir_pending r = 0 \<or> ir_pending r \<in> P \<union> fst ` set promises" by blast+
  next
    fix k r k' r'
    assume kr: "k \<noteq> k'" "map_of (sw_instances sw') k = Some r" "map_of (sw_instances sw') k' = Some r'" "ir_pending r \<noteq> 0"
    consider "k = ?v" "k' \<noteq> ?v" | "k' = ?v" "k \<noteq> ?v" | "k \<noteq> ?v" "k' \<noteq> ?v" using kr(1) by blast
    then show "ir_pending r \<noteq> ir_pending r'"
    proof cases
      case 1
      from kr(2) 1 have "map_of (sw_instances sw') ?v = Some r" by simp
      from new [OF this] kr(4) have "ir_pending r \<in> fst ` set promises" by blast
      moreover from old [OF tracked kr(3) 1(2)] have "ir_pending r' = 0 \<or> ir_pending r' \<in> P" by blast
      ultimately show ?thesis using kr(4) fresh by auto
    next
      case 2
      from kr(3) 2 have "map_of (sw_instances sw') ?v = Some r'" by simp
      from new [OF this] have "ir_pending r' = 0 \<or> ir_pending r' \<in> fst ` set promises" by blast
      moreover from old [OF tracked kr(2) 2(2)] kr(4) have "ir_pending r \<in> P" by blast
      ultimately show ?thesis using kr(4) fresh by auto
    next
      case 3
      with kr others tracked_apart [OF tracked, of k r k' r'] show ?thesis by simp
    qed
  qed
  with out(2) show thesis by (rule that)
qed

subsection \<open>Counters and the lifecycle\<close>

definition standing :: "('x, 'v, 'cfg, 'b) spawner \<Rightarrow> u64 \<times> u64 \<times> spawner_lifecycle" where
  "standing sw = (sw_next_spawn sw, sw_next_despawn sw, sw_lifecycle sw)"

lemma standing_updates [simp]:
  "standing (sw\<lparr>sw_system := s\<rparr>) = standing sw" "standing (sw\<lparr>sw_instances := xs\<rparr>) = standing sw"
  "standing (sw\<lparr>sw_callbacks := cbs\<rparr>) = standing sw" "standing (send es sw) = standing sw"
  "standing (change_record rid f sw) = standing sw" "standing (wait_for rid state command type sw) = standing sw"
  "standing (queue_spawn_failure rid failure context sw) = standing sw"
  "standing (queue_despawn_failure rid inst despawn_failure sw) = standing sw"
  by (simp_all add: standing_def send_def change_record_def wait_for_def queue_spawn_failure_def queue_despawn_failure_def)

lemma standing_finish_release [simp]: "standing (finish_release rid result sw) = standing sw"
  by (simp add: finish_release_def Let_def split: option.splits)

lemma standing_release [simp]: "standing (spawner_submit_release h rid sw) = standing sw"
  by (simp add: spawner_submit_release_def Let_def split: option.splits prod.splits)

lemma standing_cleanup [simp]: "standing (submit_cleanup_reset h rid sw) = standing sw"
  by (simp add: submit_cleanup_reset_def Let_def split: option.splits prod.splits)

lemma standing_entity_despawn [simp]: "standing (begin_entity_despawn h rid sw) = standing sw"
  by (simp add: begin_entity_despawn_def Let_def split: option.splits)

lemma standing_unbind [simp]: "standing (spawner_submit_unbind h rid sw) = standing sw"
  by (simp add: spawner_submit_unbind_def Let_def split: option.splits prod.splits)

lemma standing_failure [simp]: "standing (begin_spawn_failure h rid failure sw) = standing sw"
  by (simp add: begin_spawn_failure_def split: option.splits)

lemma standing_submissions [simp]:
  "standing (spawner_submit_attach h rid declarations sw) = standing sw" "standing (spawner_submit_detach h rid sw) = standing sw"
  "standing (spawner_submit_bind h rid bindings sw) = standing sw" "standing (spawner_submit_place h rid sw) = standing sw"
  "standing (spawner_submit_reset h rid sw) = standing sw"
  by (simp_all add: spawner_submit_attach_def spawner_submit_detach_def spawner_submit_bind_def spawner_submit_place_def
      spawner_submit_reset_def Let_def split: option.splits prod.splits)

lemma standing_entity_spawn [simp]: "standing (begin_entity_spawn h rid sw) = standing sw"
  by (simp add: begin_entity_spawn_def Let_def split: option.splits)

lemma standing_begin_spawn [simp]: "standing (begin_spawn h rid request initial sw) = standing sw"
  by (simp add: begin_spawn_def Let_def split: option.splits prod.splits)

lemma standing_notifications [simp]:
  "standing (on_spawn_completed h generation rid ticket error bindings declarations sw) = standing sw"
  "standing (on_despawn_completed h generation rid ticket sw) = standing sw"
  "standing (activate_instance attached r sw) = standing sw"
  by (simp_all add: on_spawn_completed_def on_despawn_completed_def activate_instance_def split: option.splits)

lemma standing_command [simp]: "standing (on_command_completed h command type result sw) = standing sw"
  by (simp add: on_command_completed_def continue_spawn_def Let_def split: option.splits instance_state.splits)

lemma standing_cancel [simp]: "standing (snd (cancel_spawn rid sw)) = standing sw"
  by (simp add: cancel_spawn_def cancel_boundary_def standing_def split: option.splits)

lemma standing_spawn: "spawn h request sw = (rid, sw') \<Longrightarrow> standing sw' = (sw_next_spawn sw + 1, sw_next_despawn sw, sw_lifecycle sw)"
  by (auto simp: spawn_def allocate_spawn_def) (simp_all add: standing_def)

lemma standing_despawn: "despawn h inst sw = (did, sw') \<Longrightarrow> standing sw' = (sw_next_spawn sw, sw_next_despawn sw + 1, sw_lifecycle sw)"
  by (auto simp: despawn_def allocate_despawn_def Let_def split: option.splits) (simp_all add: standing_def)

subsection \<open>Operations\<close>

definition spawn_values :: "spawner_answer list \<Rightarrow> u64 set" where
  "spawn_values keys = {rq_value q |q. Spawn_answer q \<in> set keys}"

lemma spawn_values_append: "spawn_values (as @ bs) = spawn_values as \<union> spawn_values bs"
  by (auto simp: spawn_values_def)

lemma spawn_values_simps [simp]:
  "spawn_values [] = {}" "spawn_values [Spawn_answer q] = {rq_value q}" "spawn_values [Despawn_answer q] = {}"
  by (auto simp: spawn_values_def)

text \<open>The effect of a whole operation, with the requests it takes on.\<close>

definition effect ::
  "('x, 'v, 'q, 'f, 'cfg, 'inp, 'b, 't, 'm, 'z) host \<Rightarrow> spawner_answer list \<Rightarrow>
   ('x, 'v, 'cfg, 'b) spawner \<Rightarrow> ('x, 'v, 'cfg, 'b) spawner \<Rightarrow> bool" where
  "effect h new sw sw' \<longleftrightarrow>
     sw_entity sw' = sw_entity sw \<and> sw_generation sw' = sw_generation sw \<and>
     fst ` set (sw_instances sw') \<subseteq> fst ` set (sw_instances sw) \<union> spawn_values new \<and>
     (instances_ok sw \<longrightarrow> instances_ok sw' \<and> ledger sw' = ledger sw + mset new) \<and>
     (\<exists>promises. system_moves h promises (sw_system sw) (sw_system sw') \<and>
        (\<forall>W P. instances_ok sw \<longrightarrow> sw_entity sw \<noteq> None \<longrightarrow> tracked {} W P sw \<longrightarrow>
           distinct (map fst promises) \<longrightarrow> fst ` set promises \<inter> P = {} \<longrightarrow>
             tracked {} (W @ promises) (P \<union> fst ` set promises) sw'))"

lemma effect_trans:
  assumes "effect h as sw sw1" and "effect h bs sw1 sw2"
  shows "effect h (as @ bs) sw sw2"
  unfolding effect_def
proof (intro conjI allI impI)
  show "sw_entity sw2 = sw_entity sw" "sw_generation sw2 = sw_generation sw" using assms by (simp_all add: effect_def)
  show "fst ` set (sw_instances sw2) \<subseteq> fst ` set (sw_instances sw) \<union> spawn_values (as @ bs)"
    using assms unfolding effect_def spawn_values_append by blast
next
  assume "instances_ok sw"
  with assms show "instances_ok sw2" "ledger sw2 = ledger sw + mset (as @ bs)" by (simp_all add: effect_def)
next
  from assms(1) obtain ps where ps: "system_moves h ps (sw_system sw) (sw_system sw1)"
      "\<And>W P. instances_ok sw \<Longrightarrow> sw_entity sw \<noteq> None \<Longrightarrow> tracked {} W P sw \<Longrightarrow> distinct (map fst ps) \<Longrightarrow>
        fst ` set ps \<inter> P = {} \<Longrightarrow> tracked {} (W @ ps) (P \<union> fst ` set ps) sw1"
    unfolding effect_def by blast
  from assms(2) obtain qs where qs: "system_moves h qs (sw_system sw1) (sw_system sw2)"
      "\<And>W P. instances_ok sw1 \<Longrightarrow> sw_entity sw1 \<noteq> None \<Longrightarrow> tracked {} W P sw1 \<Longrightarrow> distinct (map fst qs) \<Longrightarrow>
        fst ` set qs \<inter> P = {} \<Longrightarrow> tracked {} (W @ qs) (P \<union> fst ` set qs) sw2"
    unfolding effect_def by blast
  have "tracked {} (W @ ps @ qs) (P \<union> fst ` set (ps @ qs)) sw2"
    if "instances_ok sw" "sw_entity sw \<noteq> None" "tracked {} W P sw" "distinct (map fst (ps @ qs))" "fst ` set (ps @ qs) \<inter> P = {}"
    for W P
  proof -
    from that(4,5) have "tracked {} (W @ ps) (P \<union> fst ` set ps) sw1" by (intro ps(2) that) auto
    moreover have "instances_ok sw1" "sw_entity sw1 \<noteq> None" using assms(1) that(1,2) by (simp_all add: effect_def)
    moreover have "distinct (map fst qs)" "fst ` set qs \<inter> (P \<union> fst ` set ps) = {}" using that(4,5) by auto
    ultimately have "tracked {} ((W @ ps) @ qs) ((P \<union> fst ` set ps) \<union> fst ` set qs) sw2" by (intro qs(2))
    then show ?thesis by (simp add: Un_assoc image_Un)
  qed
  with system_moves_trans [OF ps(1) qs(1)]
  show "\<exists>promises. system_moves h promises (sw_system sw) (sw_system sw2) \<and>
      (\<forall>W P. instances_ok sw \<longrightarrow> sw_entity sw \<noteq> None \<longrightarrow> tracked {} W P sw \<longrightarrow> distinct (map fst promises) \<longrightarrow>
        fst ` set promises \<inter> P = {} \<longrightarrow> tracked {} (W @ promises) (P \<union> fst ` set promises) sw2)"
    by blast
qed

lemma effect_setting:
  assumes "sw_entity sw' = sw_entity sw" and "sw_generation sw' = sw_generation sw" and "sw_instances sw' = sw_instances sw"
    and "sw_sent sw' = sw_sent sw" and "sw_system sw' = sw_system sw"
  shows "effect h [] sw sw'"
  using assms unfolding effect_def instances_ok_def ledger_def due_def tracked_def
  by (auto intro!: exI [of _ "[]"])

lemma effect_refl [simp]: "effect h [] sw sw"
  by (rule effect_setting) simp_all

lemma parked_more: "parked entity W es generation r \<Longrightarrow> parked entity (W @ ps) (es @ events) generation r"
  by (erule parked_mono) auto

text \<open>Sending, and a call of the system component, leave the instances as they are.\<close>

lemma tracked_same:
  assumes "tracked K W P sw" and "sw_instances sw' = sw_instances sw" and "sw_entity sw' = sw_entity sw"
    and "sw_generation sw' = sw_generation sw" and "set W \<subseteq> set W'" and "P \<subseteq> P'" and "set (sw_sent sw) \<subseteq> set (sw_sent sw')"
  shows "tracked K W' P' sw'"
proof -
  have "parked (sw_entity sw') W' (sw_sent sw') (sw_generation sw') r \<and> (ir_pending r = 0 \<or> ir_pending r \<in> P')"
    if "k \<notin> K" "map_of (sw_instances sw') k = Some r" for k r
    using tracked_parked [OF assms(1), of k r] that assms(2-7) by (auto intro: parked_mono)
  moreover have "ir_pending r \<noteq> ir_pending r'"
    if "k \<notin> K" "k' \<notin> K" "k \<noteq> k'" "map_of (sw_instances sw') k = Some r" "map_of (sw_instances sw') k' = Some r'"
      "ir_pending r \<noteq> 0" for k r k' r'
    using tracked_apart [OF assms(1), of k r k' r'] that assms(2) by simp
  ultimately show ?thesis unfolding tracked_def by blast
qed

lemma effect_send:
  assumes "answers events = new"
  shows "effect h new sw (send events sw)"
proof -
  have fields: "sw_instances (send events sw) = sw_instances sw" "sw_entity (send events sw) = sw_entity sw"
    "sw_generation (send events sw) = sw_generation sw" "sw_sent (send events sw) = sw_sent sw @ events"
    "sw_system (send events sw) = sw_system sw"
    by (simp_all add: send_def)
  have "tracked {} (W @ []) (P \<union> fst ` set []) (send events sw)" if "tracked {} W P sw" for W P
    by (rule tracked_same [OF that]) (auto simp: fields)
  moreover have "ledger (send events sw) = ledger sw + mset new" by (simp add: ledger_def due_def fields assms)
  moreover have "instances_ok (send events sw) = instances_ok sw" by (simp add: instances_ok_def fields)
  ultimately show ?thesis unfolding effect_def by (auto simp: fields intro!: exI [of _ "[]"])
qed

lemma effect_call:
  assumes "sw_system sw = Some sys" and "system_call h sys promises [] sys'"
  shows "effect h [] sw (sw\<lparr>sw_system := Some sys'\<rparr>)"
proof -
  let ?sw = "sw\<lparr>sw_system := Some sys'\<rparr>"
  have "tracked {} (W @ promises) (P \<union> fst ` set promises) ?sw" if "tracked {} W P sw" for W P
    by (rule tracked_same [OF that]) auto
  moreover have "ledger ?sw = ledger sw" "instances_ok ?sw = instances_ok sw" by (simp_all add: ledger_def due_def instances_ok_def)
  ultimately show ?thesis using system_moves_call [OF assms(2)] unfolding effect_def by (auto simp: assms(1))
qed

lemma keys_of_delete: "AList.delete k xs = AList.delete k ys \<Longrightarrow> fst ` set xs \<subseteq> fst ` set ys \<union> {k}"
proof
  fix k'
  assume eq: "AList.delete k xs = AList.delete k ys" and k': "k' \<in> fst ` set xs"
  show "k' \<in> fst ` set ys \<union> {k}"
  proof (cases "k' = k")
    case False
    with k' have "k' \<in> fst ` set (AList.delete k xs)" by (force simp: AList.delete_eq)
    then have "k' \<in> fst ` set (AList.delete k ys)" by (simp only: eq)
    then show ?thesis by (force simp: AList.delete_eq)
  qed simp
qed

lemma effect_advanced:
  assumes "advanced h rid keys limit sw sw'" and "map_of (sw_instances sw) (rq_value rid) = Some r"
    and "rq_generation rid = sw_generation sw" and "mset keys = mset (due_by r) + mset new"
  shows "effect h new sw sw'"
  unfolding effect_def
proof (intro conjI impI)
  from assms(1) have same: "same_setting sw sw'"
    and rest: "AList.delete (rq_value rid) (sw_instances sw') = AList.delete (rq_value rid) (sw_instances sw)"
    unfolding advanced_def by blast+
  show "sw_entity sw' = sw_entity sw" "sw_generation sw' = sw_generation sw" by (simp_all add: same_setting_fields [OF same])
  from assms(2) have "rq_value rid \<in> fst ` set (sw_instances sw)" by (force dest: map_of_SomeD)
  with keys_of_delete [OF rest] have "fst ` set (sw_instances sw') \<subseteq> fst ` set (sw_instances sw)"
    by (simp only: Un_insert_right Un_empty_right insert_absorb)
  then show "fst ` set (sw_instances sw') \<subseteq> fst ` set (sw_instances sw) \<union> spawn_values new" by (rule le_supI1)
  have rid: "rid = \<lparr>rq_generation = sw_generation sw, rq_value = rq_value rid\<rparr>" by (simp add: assms(3) [symmetric])
  assume "instances_ok sw"
  from advanced_ledger [OF assms(1) this assms(2) rid] assms(4)
  show "instances_ok sw'" "ledger sw' = ledger sw + mset new" by (auto simp: add.assoc)
next
  show "\<exists>promises. system_moves h promises (sw_system sw) (sw_system sw') \<and>
      (\<forall>W P. instances_ok sw \<longrightarrow> sw_entity sw \<noteq> None \<longrightarrow> tracked {} W P sw \<longrightarrow> distinct (map fst promises) \<longrightarrow>
        fst ` set promises \<inter> P = {} \<longrightarrow> tracked {} (W @ promises) (P \<union> fst ` set promises) sw')"
  proof (cases "sw_entity sw = None")
    case True
    with assms(1) show ?thesis unfolding advanced_def by auto
  next
    case False
    from advanced_tracks [OF assms(1) False] obtain promises where
      "system_moves h promises (sw_system sw) (sw_system sw')"
      "\<And>W P. tracked {rq_value rid} W P sw \<Longrightarrow> fst ` set promises \<inter> P = {} \<Longrightarrow>
        tracked {} (W @ promises) (P \<union> fst ` set promises) sw'" by blast
    then show ?thesis using tracked_weaken [of "{}" _ _ sw "{rq_value rid}"] by blast
  qed
qed

lemma effect_queue_failure:
  "effect h [Spawn_answer rid] sw (queue_spawn_failure rid failure context sw)"
  "effect h [Despawn_answer did] sw (queue_despawn_failure did inst despawn_failure sw)"
  by (simp_all add: queue_spawn_failure_def queue_despawn_failure_def effect_send)

text \<open>A new instance.\<close>

lemma tracked_add:
  assumes "tracked {} W P sw" and "sw_instances sw' = sw_instances sw @ [(k, r)]" and "sw_entity sw' = sw_entity sw"
    and "sw_generation sw' = sw_generation sw" and "sw_sent sw' = sw_sent sw"
  shows "tracked {k} W P sw'"
proof -
  have "map_of (sw_instances sw') k' = map_of (sw_instances sw) k'" if "k' \<noteq> k" for k'
    using that by (simp add: assms(2) map_add_def split: option.splits)
  then show ?thesis using assms(1) unfolding tracked_def assms(3-5) by (simp add: insert_iff)
qed

lemma new_record_ok: "record_ok rid (new_record rid request inst placement callback)"
    "due_by (new_record rid request inst placement callback) = [Spawn_answer rid]"
  by (simp_all add: new_record_def record_ok_def due_by_def)

lemma new_record_advances:
  assumes "find_request rid sw = Some (new_record rid request inst placement callback)"
  shows "advanced h rid [Spawn_answer rid] 11 sw (spawner_submit_reset h rid sw)"
  by (rule submit_reset_advances [OF assms]) (simp_all add: new_record_def)

lemma add_effect:
  assumes "sw_instances sw1 = sw_instances sw @ [(rq_value rid, r)]" and "sw_entity sw1 = sw_entity sw"
    and "sw_generation sw1 = sw_generation sw" and "sw_sent sw1 = sw_sent sw" and "sw_system sw1 = sw_system sw"
    and "rq_value rid \<notin> fst ` set (sw_instances sw)" and "rq_generation rid = sw_generation sw"
    and "record_ok rid r" and "due_by r = [Spawn_answer rid]" and "advanced h rid [Spawn_answer rid] limit sw1 sw'"
  shows "effect h [Spawn_answer rid] sw sw'"
  unfolding effect_def
proof (intro conjI impI)
  let ?v = "rq_value rid"
  from assms(10) have same: "same_setting sw1 sw'"
    and rest: "AList.delete ?v (sw_instances sw') = AList.delete ?v (sw_instances sw1)"
    unfolding advanced_def by blast+
  show "sw_entity sw' = sw_entity sw" "sw_generation sw' = sw_generation sw"
    by (simp_all add: same_setting_fields [OF same] assms(2,3))
  show "fst ` set (sw_instances sw') \<subseteq> fst ` set (sw_instances sw) \<union> spawn_values [Spawn_answer rid]"
    using keys_of_delete [OF rest] by (auto simp: assms(1))
  have found: "map_of (sw_instances sw1) ?v = Some r"
    using assms(6) by (simp add: assms(1) map_add_def map_of_eq_None_iff [THEN iffD2])
  have rid: "rid = \<lparr>rq_generation = sw_generation sw1, rq_value = ?v\<rparr>" by (simp add: assms(3) assms(7) [symmetric])
  assume ok: "instances_ok sw"
  then have ok1: "instances_ok sw1"
    using assms(6,8) rid by (auto simp: instances_ok_def assms(1,3))
  have "ledger sw1 = ledger sw + {#Spawn_answer rid#}" by (simp add: ledger_def due_def assms(1,4,9))
  with advanced_ledger [OF assms(10) ok1 found rid] assms(9)
  show "instances_ok sw'" "ledger sw' = ledger sw + mset [Spawn_answer rid]" by auto
next
  show "\<exists>promises. system_moves h promises (sw_system sw) (sw_system sw') \<and>
      (\<forall>W P. instances_ok sw \<longrightarrow> sw_entity sw \<noteq> None \<longrightarrow> tracked {} W P sw \<longrightarrow> distinct (map fst promises) \<longrightarrow>
        fst ` set promises \<inter> P = {} \<longrightarrow> tracked {} (W @ promises) (P \<union> fst ` set promises) sw')"
  proof (cases "sw_entity sw = None")
    case True
    with assms(5,10) show ?thesis unfolding advanced_def by auto
  next
    case False
    then have "sw_entity sw1 \<noteq> None" by (simp add: assms(2))
    from advanced_tracks [OF assms(10) this] obtain promises where
      "system_moves h promises (sw_system sw) (sw_system sw')"
      "\<And>W P. tracked {rq_value rid} W P sw1 \<Longrightarrow> fst ` set promises \<inter> P = {} \<Longrightarrow>
        tracked {} (W @ promises) (P \<union> fst ` set promises) sw'" by (auto simp: assms(5))
    then show ?thesis using tracked_add [OF _ assms(1-4)] by blast
  qed
qed

lemma begin_spawn_effect:
  assumes "rq_generation rid = sw_generation sw" and "rq_value rid \<notin> fst ` set (sw_instances sw)"
  shows "effect h [Spawn_answer rid] sw (begin_spawn h rid request initial sw)"
proof (cases "az_is_finite (h_math h) (placement_of request initial (sw_world sw)) \<and> sw_system sw \<noteq> None")
  case False
  then show ?thesis by (auto simp: begin_spawn_def Let_def effect_queue_failure split: option.splits)
next
  case True
  then obtain sys where sys: "sw_system sw = Some sys" by blast
  obtain reserved sys' where reserved: "system_reserve_slot (sw_spawner sw) sys = (reserved, sys')" by fastforce
  have called: "effect h [] sw (sw\<lparr>sw_system := Some sys'\<rparr>)" by (rule effect_call [OF sys call_reserve [OF reserved]])
  let ?sw = "sw\<lparr>sw_system := Some sys'\<rparr>"
  show ?thesis
  proof (cases "slot_succeeds reserved")
    case False
    with True sys reserved effect_trans [OF called effect_queue_failure(1)] show ?thesis
      by (simp add: begin_spawn_def Let_def)
  next
    case succeeds: True
    let ?placement = "placement_of request initial (sw_world sw)"
    let ?r = "new_record rid request \<lparr>ih_slot = sr_handle reserved, ih_spawner_generation = sw_generation sw\<rparr> ?placement
      (length (sw_callbacks sw))"
    let ?sw1 = "?sw\<lparr>sw_instances := sw_instances sw @ [(rq_value rid, ?r)],
      sw_callbacks := sw_callbacks sw @ [new_callback_state (sw_topology sw) ?placement]\<rparr>"
    have "find_request rid ?sw1 = Some ?r"
      using assms by (simp add: find_request_def map_add_def map_of_eq_None_iff [THEN iffD2])
    from new_record_advances [OF this] have step: "advanced h rid [Spawn_answer rid] 11 ?sw1 (spawner_submit_reset h rid ?sw1)" .
    have "effect h [Spawn_answer rid] ?sw (spawner_submit_reset h rid ?sw1)"
      by (rule add_effect [OF _ _ _ _ _ _ _ new_record_ok step]) (simp_all add: assms)
    from effect_trans [OF called this] True succeeds sys reserved assms(2) show ?thesis by (simp add: begin_spawn_def Let_def)
  qed
qed

text \<open>The requests a spawner takes on when it makes its initial spawns.\<close>

definition spawn_ids :: "u32 \<Rightarrow> u64 \<Rightarrow> nat \<Rightarrow> spawner_answer list" where
  "spawn_ids generation value n =
     map (\<lambda>i. Spawn_answer \<lparr>rq_generation = generation, rq_value = value + of_nat i\<rparr>) [0..<n]"

definition keys_below :: "nat \<Rightarrow> ('x, 'v, 'cfg, 'b) spawner \<Rightarrow> bool" where
  "keys_below n sw \<longleftrightarrow> (\<forall>k \<in> fst ` set (sw_instances sw). unat k < n)"

definition idle_ok :: "('x, 'v, 'cfg, 'b) spawner \<Rightarrow> bool" where
  "idle_ok sw \<longleftrightarrow> (\<forall>k r. map_of (sw_instances sw) k = Some r \<longrightarrow> awaited_type (ir_state r) = None \<longrightarrow> ir_pending r = 0)"

lemma tracked_idle: "tracked {} W P sw \<Longrightarrow> idle_ok sw"
  unfolding tracked_def idle_ok_def parked_def by blast

lemma spawn_effect:
  assumes "spawn h request sw = (rid, sw')" and "sw_next_spawn sw \<notin> fst ` set (sw_instances sw)"
  shows "effect h [Spawn_answer rid] sw sw'"
proof -
  let ?sw = "sw\<lparr>sw_next_spawn := sw_next_spawn sw + 1\<rparr>"
  have start: "effect h [] sw ?sw" by (rule effect_setting) simp_all
  have rid: "rid = \<lparr>rq_generation = sw_generation sw, rq_value = sw_next_spawn sw\<rparr>"
    using assms(1) by (simp add: spawn_def allocate_spawn_def)
  have "effect h [Spawn_answer rid] ?sw (begin_spawn h rid request None ?sw)"
    by (rule begin_spawn_effect) (simp_all add: rid assms(2))
  then have "effect h [Spawn_answer rid] ?sw sw'"
    using assms(1) effect_queue_failure(1) [of h rid ?sw]
    by (auto simp: spawn_def allocate_spawn_def rid split: if_splits)
  from effect_trans [OF start this] show ?thesis by simp
qed

lemma spawn_counters:
  assumes "spawn h request sw = (rid, sw')"
  shows "rid = \<lparr>rq_generation = sw_generation sw, rq_value = sw_next_spawn sw\<rparr>"
  using assms by (simp add: spawn_def allocate_spawn_def)

lemma find_instance_Some:
  assumes "find_instance inst sw = Some r" and "instances_ok sw"
  obtains k where "map_of (sw_instances sw) k = Some r"
proof -
  from assms(1) obtain k where "find (\<lambda>(_, r). ir_instance r = inst) (sw_instances sw) = Some (k, r)"
    by (auto simp: find_instance_def split: if_splits)
  then have "(k, r) \<in> set (sw_instances sw)" by (auto dest: find_Some_mem)
  with assms(2) have "map_of (sw_instances sw) k = Some r" by (simp add: instances_ok_def)
  then show thesis by (rule that)
qed

lemma find_command_Some:
  assumes "find_command command sw = Some r" and "instances_ok sw"
  obtains k where "map_of (sw_instances sw) k = Some r" and "ir_pending r = command"
proof -
  from assms(1) obtain k where "find (\<lambda>(_, r). ir_pending r = command) (sw_instances sw) = Some (k, r)"
    by (auto simp: find_command_def)
  then have "(k, r) \<in> set (sw_instances sw)" "ir_pending r = command" by (auto dest: find_Some_mem)
  with assms(2) that show thesis by (simp add: instances_ok_def)
qed

lemma find_command_None:
  assumes "find_command command sw = None" and "map_of (sw_instances sw) k = Some r"
  shows "ir_pending r \<noteq> command"
  using assms by (auto simp: find_command_def find_None_iff dest!: map_of_SomeD)

text \<open>An operation that continues with a record found under its request.\<close>

lemma effect_found:
  assumes "instances_ok sw" and "map_of (sw_instances sw) k = Some r"
    and "advanced h (ir_spawn_request r) keys limit sw sw'" and "mset keys = mset (due_by r) + mset new"
  shows "effect h new sw sw'"
  by (rule effect_advanced [OF assms(3) _ _ assms(4)]) (simp_all add: instances_okD [OF assms(1,2)] assms(2))

lemma despawn_effect:
  assumes "despawn h inst sw = (did, sw')" and "instances_ok sw" and "idle_ok sw"
  shows "effect h [Despawn_answer did] sw sw'"
proof -
  let ?sw = "sw\<lparr>sw_next_despawn := sw_next_despawn sw + 1\<rparr>"
  have start: "effect h [] sw ?sw" by (rule effect_setting) simp_all
  have "effect h [Despawn_answer did] ?sw sw'"
  proof (cases "sw_lifecycle ?sw = spl_ready \<and> (\<exists>r. find_instance inst ?sw = Some r \<and> ir_state r = is_active)")
    case False
    with assms(1) effect_queue_failure(2) [of h did ?sw] show ?thesis
      by (auto simp: despawn_def allocate_despawn_def Let_def split: if_splits option.splits)
  next
    case True
    then obtain r where r: "find_instance inst ?sw = Some r" "ir_state r = is_active" by blast
    have ok: "instances_ok ?sw" using assms(2) by (simp add: instances_ok_def)
    from find_instance_Some [OF r(1) ok] obtain k where k: "map_of (sw_instances ?sw) k = Some r" .
    let ?rid = "ir_spawn_request r" and ?f = "\<lambda>r. r\<lparr>ir_terminal := False, ir_despawn_request := did\<rparr>"
    let ?sw1 = "change_record ?rid ?f ?sw"
    note found = instances_okD [OF ok k]
    have pending: "ir_pending r = 0" using assms(3) k r(2) by (auto simp: idle_ok_def)
    have found1: "find_request ?rid ?sw1 = Some (?f r)" using found(4) by simp
    have "advanced h ?rid [Despawn_answer did] 5 ?sw1 (spawner_submit_detach h ?rid ?sw1)"
      using submit_detach_advances [OF found1, of h] pending by simp
    moreover have "advanced h ?rid [closing_key (?f r)] 5 ?sw1 (spawner_submit_unbind h ?rid ?sw1)"
      by (rule closesD [OF unbind_closes found1]) (simp_all add: pending)
    ultimately have "advanced h ?rid [Despawn_answer did] 5 ?sw1
        (if ir_attached r then spawner_submit_detach h ?rid ?sw1 else spawner_submit_unbind h ?rid ?sw1)"
      by (simp add: closing_key_def)
    from advanced_after [OF quiet_change this] have "advanced h ?rid [Despawn_answer did] 5 ?sw sw'"
      using assms(1) True r by (auto simp: despawn_def allocate_despawn_def Let_def)
    moreover have "due_by r = []"
      using r(2) found(1) by (auto simp: due_by_def record_ok_def)
    ultimately show ?thesis by (intro effect_found [OF ok k]) simp_all
  qed
  from effect_trans [OF start this] show ?thesis by simp
qed

text \<open>An answer of the spawn service takes the instance it is for on to its next state.\<close>

lemma spawn_completed_advances:
  assumes "instances_ok sw" and "idle_ok sw" and "find_request rid sw = Some r" and "ir_state r = is_spawning" and "has_ticket ticket r"
  shows "advanced h rid (due_by r) 8 sw (on_spawn_completed h (sw_generation sw) rid ticket error bindings declarations sw)"
proof -
  have k: "map_of (sw_instances sw) (rq_value rid) = Some r" using assms(3) by (simp add: find_request_Some)
  note found = instances_okD [OF assms(1) k]
  have rid: "ir_spawn_request r = rid" using assms(3) found(2) by (simp add: find_request_Some)
  have idle: "ir_pending r = 0" "\<not> ir_terminal r"
    using assms(2) k assms(4) found(1) by (auto simp: idle_ok_def record_ok_def)
  then have due: "due_by r = [Spawn_answer rid]" using assms(4) rid by (simp add: due_by_def)
  let ?f = "\<lambda>r. r\<lparr>ir_declarations := declarations\<rparr>"
  have "find_request rid (change_record rid ?f sw) = Some (?f r)" using assms(3) by simp
  from submit_bind_advances [OF this, of h bindings]
  have "advanced h rid [Spawn_answer rid] 8 (change_record rid ?f sw) (spawner_submit_bind h rid bindings (change_record rid ?f sw))"
    by (simp add: rid idle)
  from advanced_after [OF quiet_change this]
  have bound: "advanced h rid [Spawn_answer rid] 8 sw (spawner_submit_bind h rid bindings (change_record rid ?f sw))" .
  have failed: "advanced h rid [Spawn_answer rid] 8 sw (begin_spawn_failure h rid failure sw)" for failure
    by (rule spawn_failure_advances [OF assms(3)]) (simp_all add: rid idle)
  show ?thesis using assms(3-5) bound failed by (simp add: on_spawn_completed_def due)
qed

lemma despawn_completed_advances:
  assumes "instances_ok sw" and "idle_ok sw" and "find_request rid sw = Some r" and "ir_state r = is_despawning_entities"
    and "has_ticket ticket r"
  shows "advanced h rid (due_by r) 2 sw (on_despawn_completed h (sw_generation sw) rid ticket sw)"
proof -
  have k: "map_of (sw_instances sw) (rq_value rid) = Some r" using assms(3) by (simp add: find_request_Some)
  have rid: "ir_spawn_request r = rid" using assms(3) instances_okD(2) [OF assms(1) k] by (simp add: find_request_Some)
  have idle: "ir_pending r = 0" using assms(2) k assms(4) by (auto simp: idle_ok_def)
  have due: "due_by r = [closing_key r]" using assms(4) by (simp add: due_by_def closing_key_def)
  have "advanced h rid [closing_key r] 2 sw (submit_cleanup_reset h rid (change_record rid (\<lambda>r. r\<lparr>ir_ticket := None\<rparr>) sw))"
    by (rule closes_change [OF cleanup_reset_closes assms(3)]) (simp_all add: rid idle keeps_closing_def closing_key_def)
  then show ?thesis using assms(3-5) by (simp add: on_despawn_completed_def due)
qed

lemma effect_request:
  assumes "instances_ok sw" and "find_request rid sw = Some r" and "advanced h rid (due_by r) limit sw sw'"
  shows "effect h [] sw sw'"
  using effect_advanced [OF assms(3), of r "[]"] assms(2) by (simp add: find_request_Some)

lemma spawn_completed_effect:
  assumes "instances_ok sw" and "idle_ok sw"
  shows "effect h [] sw (on_spawn_completed h generation rid ticket error bindings declarations sw)"
proof (cases "\<exists>r. find_request rid sw = Some r \<and> generation = sw_generation sw \<and> ir_state r = is_spawning \<and> has_ticket ticket r")
  case False
  then show ?thesis by (auto simp: on_spawn_completed_def split: option.splits)
next
  case True
  then obtain r where r: "find_request rid sw = Some r" "generation = sw_generation sw" "ir_state r = is_spawning" "has_ticket ticket r"
    by blast
  show ?thesis
    unfolding r(2) by (rule effect_request [OF assms(1) r(1) spawn_completed_advances [OF assms r(1,3,4)]])
qed

lemma despawn_completed_effect:
  assumes "instances_ok sw" and "idle_ok sw"
  shows "effect h [] sw (on_despawn_completed h generation rid ticket sw)"
proof (cases "\<exists>r. find_request rid sw = Some r \<and> generation = sw_generation sw \<and> ir_state r = is_despawning_entities \<and> has_ticket ticket r")
  case False
  then show ?thesis by (auto simp: on_despawn_completed_def split: option.splits)
next
  case True
  then obtain r where r: "find_request rid sw = Some r" "generation = sw_generation sw" "ir_state r = is_despawning_entities"
    "has_ticket ticket r" by blast
  show ?thesis
    unfolding r(2) by (rule effect_request [OF assms(1) r(1) despawn_completed_advances [OF assms r(1,3,4)]])
qed

lemma cancel_effect: "effect h [] sw (snd (cancel_spawn rid sw))"
  by (rule effect_setting) (auto simp: cancel_spawn_def cancel_boundary_def split: option.splits)

lemma enter_failure_effect: "effect h [] sw (enter_failure error failure sw)"
proof -
  have "effect h [] sw (sw\<lparr>sw_lifecycle := spl_failed\<rparr>)" by (rule effect_setting) simp_all
  from effect_trans [OF this effect_send [of "[Spawner_failed \<lparr>pf_error = error, pf_registration = failure\<rparr>]" "[]"]]
  show ?thesis by (simp add: enter_failure_def)
qed

text \<open>The completion of the command an instance waits for takes it on, and answers at most what it owes.\<close>

lemma command_advances:
  assumes "instances_ok sw" and "map_of (sw_instances sw) k = Some r" and "find_command command sw = Some r"
    and "awaited_type (ir_state r) = Some type" and "ir_pending_type r = type"
  shows "advanced h (ir_spawn_request r) (due_by r) (state_rank (ir_state r) - 1) sw (on_command_completed h command type result sw)"
proof -
  let ?rid = "ir_spawn_request r" and ?f = "\<lambda>r. r\<lparr>ir_pending := 0\<rparr>"
  let ?sw = "change_record ?rid ?f sw"
  note found = instances_okD [OF assms(1,2)]
  have found1: "find_request ?rid ?sw = Some (?f r)" using found(4) by simp
  have early: "\<not> ir_terminal r" if "state_rank (ir_state r) > 4"
    using that found(1) by (simp add: record_ok_def)
  have failed: "advanced h ?rid [Spawn_answer ?rid] limit ?sw (begin_spawn_failure h ?rid failure ?sw)"
    if "state_rank (ir_state r) > 4" "4 \<le> limit" for failure limit
    by (rule spawn_failure_advances [OF found1 _ _ that(2)]) (simp_all add: early [OF that(1)])
  have due: "due_by r = (if state_rank (ir_state r) > 6 then [Spawn_answer ?rid] else [closing_key r])"
    using assms(4) early by (cases "ir_state r") (simp_all add: due_by_def closing_key_def)
  have same: "closing_key (?f r) = closing_key r" by (auto simp: closing_key_def)
  have closes: "advanced h ?rid [closing_key r] limit ?sw (g (change_record ?rid f ?sw))"
    if "closes h limit g ?rid" "keeps_closing f" for g limit f
    using closes_change [OF that(1) found1 _ that(2)] by (simp add: same)
  have plain: "advanced h ?rid [closing_key r] limit ?sw (g ?sw)" if "closes h limit g ?rid" for g limit
    using closesD [OF that found1, of limit] by (simp add: same)
  let ?sw' = "on_command_completed h command type result sw"
  have "advanced h ?rid (due_by r) (state_rank (ir_state r) - 1) ?sw ?sw'"
  proof (cases "ir_state r")
    case is_resetting
    with submit_place_advances [OF found1, of h] failed early assms(3,5) show ?thesis
      by (simp add: on_command_completed_def continue_spawn_def Let_def due)
  next
    case is_placing
    with entity_spawn_advances [OF found1, of h] failed early assms(3,5) show ?thesis
      by (simp add: on_command_completed_def continue_spawn_def Let_def due)
  next
    case is_binding
    let ?g = "\<lambda>r. r\<lparr>ir_declarations := []\<rparr>"
    have "find_request ?rid (change_record ?rid ?g ?sw) = Some (?g (?f r))"
      by (simp add: found(4))
    from submit_attach_advances [OF this, of h] early is_binding
    have "advanced h ?rid [Spawn_answer ?rid] 7 (change_record ?rid ?g ?sw) (spawner_submit_attach h ?rid ds (change_record ?rid ?g ?sw))" for ds
      by simp
    from advanced_after [OF quiet_change this]
    have "advanced h ?rid [Spawn_answer ?rid] 7 ?sw (spawner_submit_attach h ?rid ds (change_record ?rid ?g ?sw))" for ds .
    moreover have "advanced h ?rid [Spawn_answer ?rid] 7 ?sw (activate_instance False r ?sw)"
      by (rule advanced_limit [OF activate_advances [OF found1]]) (use early is_binding in simp_all)
    ultimately show ?thesis using is_binding failed assms(3,5)
      by (simp add: on_command_completed_def Let_def due)
  next
    case is_attaching_controllers
    have "advanced h ?rid [Spawn_answer ?rid] 6 ?sw (activate_instance True r ?sw)"
      by (rule activate_advances [OF found1]) (use early is_attaching_controllers in simp_all)
    with is_attaching_controllers failed assms(3,5) show ?thesis
      by (simp add: on_command_completed_def Let_def due)
  next
    case is_detaching_controllers
    with closes [OF unbind_closes] assms(3,5) show ?thesis
      by (simp add: on_command_completed_def Let_def due keeps_closing_def closing_key_def)
  next
    case is_unbinding
    with closes [OF entity_despawn_closes] plain [OF entity_despawn_closes] assms(3,5) show ?thesis
      by (simp add: on_command_completed_def Let_def due)
  next
    case is_cleanup_resetting
    with closes [OF release_closes] plain [OF release_closes] assms(3,5) show ?thesis
      by (simp add: on_command_completed_def Let_def due)
  next
    case is_releasing
    have "advanced h ?rid [closing_key (?f r)] 0 ?sw (finish_release ?rid result ?sw)"
      by (rule finish_release_advances [OF found1]) simp
    with is_releasing assms(3,5) show ?thesis
      by (simp add: on_command_completed_def Let_def due same)
  qed (use assms(4) in simp_all)
  from advanced_after [OF quiet_change this] show ?thesis .
qed

text \<open>The initial spawns take the next requests in order.\<close>

lemma begin_initial_spawn_effect:
  assumes "sw_next_spawn sw \<notin> fst ` set (sw_instances sw)"
  shows "effect h [Spawn_answer \<lparr>rq_generation = sw_generation sw, rq_value = sw_next_spawn sw\<rparr>] sw
      (begin_initial_spawn h placement index sw)"
proof -
  let ?sw = "sw\<lparr>sw_next_spawn := sw_next_spawn sw + 1\<rparr>"
  have "effect h [] sw ?sw" by (rule effect_setting) simp_all
  moreover have "effect h [Spawn_answer \<lparr>rq_generation = sw_generation sw, rq_value = sw_next_spawn sw\<rparr>] ?sw
      (begin_spawn h \<lparr>rq_generation = sw_generation sw, rq_value = sw_next_spawn sw\<rparr> request (Some placement) ?sw)" for request
    by (rule begin_spawn_effect) (simp_all add: assms)
  ultimately show ?thesis using effect_trans by (fastforce simp: begin_initial_spawn_def allocate_spawn_def)
qed

lemma begin_spawn_counters:
  "sw_next_spawn (begin_spawn h rid request initial sw) = sw_next_spawn sw \<and>
    sw_next_despawn (begin_spawn h rid request initial sw) = sw_next_despawn sw"
  using standing_begin_spawn [of h rid request initial sw] by (simp add: standing_def)

lemma keys_below_fresh: "keys_below (unat k) sw \<Longrightarrow> k \<notin> fst ` set (sw_instances sw)"
  by (auto simp: keys_below_def)

lemma initial_spawns_effect:
  assumes "keys_below (unat (sw_next_spawn sw)) sw" and "unat (sw_next_spawn sw) + length is < 2 ^ 64"
  shows "effect h (spawn_ids (sw_generation sw) (sw_next_spawn sw) (length is)) sw (fold (begin_initial_spawn h placement) is sw) \<and>
    sw_next_spawn (fold (begin_initial_spawn h placement) is sw) = sw_next_spawn sw + of_nat (length is) \<and>
    sw_next_despawn (fold (begin_initial_spawn h placement) is sw) = sw_next_despawn sw"
  using assms
proof (induction "is" arbitrary: sw)
  case Nil
  then show ?case by (simp add: spawn_ids_def)
next
  case (Cons i "is")
  let ?sw = "begin_initial_spawn h placement i sw"
  let ?rid = "\<lparr>rq_generation = sw_generation sw, rq_value = sw_next_spawn sw\<rparr>"
  note fresh = keys_below_fresh [OF Cons.prems(1)]
  note first = begin_initial_spawn_effect [OF fresh, of h placement i]
  have fields: "sw_generation ?sw = sw_generation sw"
    "fst ` set (sw_instances ?sw) \<subseteq> fst ` set (sw_instances sw) \<union> {sw_next_spawn sw}"
    using first by (simp_all add: effect_def)
  have counters: "sw_next_spawn ?sw = sw_next_spawn sw + 1" "sw_next_despawn ?sw = sw_next_despawn sw"
    using begin_spawn_counters [of h ?rid _ _ "sw\<lparr>sw_next_spawn := sw_next_spawn sw + 1\<rparr>"]
    by (simp_all add: begin_initial_spawn_def allocate_spawn_def)
  have "sw_next_spawn sw \<noteq> - 1" using Cons.prems(2) max_u64_unat by fastforce
  then have succ: "unat (sw_next_spawn ?sw) = Suc (unat (sw_next_spawn sw))" by (simp add: counters unat_next)
  have "keys_below (unat (sw_next_spawn ?sw)) ?sw"
    using Cons.prems(1) fields(2) unfolding keys_below_def succ by fastforce
  moreover have "unat (sw_next_spawn ?sw) + length is < 2 ^ 64" using Cons.prems(2) succ by simp
  ultimately have rest: "effect h (spawn_ids (sw_generation ?sw) (sw_next_spawn ?sw) (length is)) ?sw (fold (begin_initial_spawn h placement) is ?sw)"
      "sw_next_spawn (fold (begin_initial_spawn h placement) is ?sw) = sw_next_spawn ?sw + of_nat (length is)"
      "sw_next_despawn (fold (begin_initial_spawn h placement) is ?sw) = sw_next_despawn ?sw"
    using Cons.IH by blast+
  have "spawn_ids (sw_generation sw) (sw_next_spawn sw) (length (i # is)) =
      Spawn_answer ?rid # spawn_ids (sw_generation ?sw) (sw_next_spawn ?sw) (length is)"
    by (simp add: spawn_ids_def upt_rec [of 0] map_Suc_upt [symmetric] counters fields add.assoc del: upt_Suc)
  with effect_trans [OF first rest(1)] rest(2,3) counters show ?case by (simp add: add.assoc)
qed

lemma initial_effect:
  assumes "keys_below (unat (sw_next_spawn sw)) sw" and "unat (sw_next_spawn sw) + 2 ^ 32 \<le> 2 ^ 64"
  shows "effect h (spawn_ids (sw_generation sw) (sw_next_spawn sw) (unat (sw_next_spawn (begin_initial_spawns h sw) - sw_next_spawn sw)))
      sw (begin_initial_spawns h sw) \<and>
    unat (sw_next_spawn (begin_initial_spawns h sw)) =
      unat (sw_next_spawn sw) + unat (sw_next_spawn (begin_initial_spawns h sw) - sw_next_spawn sw) \<and>
    sw_next_despawn (begin_initial_spawns h sw) = sw_next_despawn sw"
proof (cases "spc_trigger_mode (sw_config sw) = Some tm_external_requests_only \<or> spc_initial_spawn_count (sw_config sw) = 0")
  case True
  then show ?thesis by (auto simp: begin_initial_spawns_def spawn_ids_def)
next
  case False
  let ?n = "unat (spc_initial_spawn_count (sw_config sw))"
  have small: "?n < 2 ^ 32" using unsigned_less [of "spc_initial_spawn_count (sw_config sw)"] by simp
  then have "unat (sw_next_spawn sw) + length [0..<?n] < 2 ^ 64" using assms(2) by simp
  from initial_spawns_effect [OF assms(1) this, of h "sw_world sw"] False
  have all: "effect h (spawn_ids (sw_generation sw) (sw_next_spawn sw) ?n) sw (begin_initial_spawns h sw)"
    "sw_next_spawn (begin_initial_spawns h sw) = sw_next_spawn sw + of_nat ?n"
    "sw_next_despawn (begin_initial_spawns h sw) = sw_next_despawn sw"
    by (simp_all add: begin_initial_spawns_def)
  have "unat (of_nat m :: u64) = m" if "m < 2 ^ 32" for m :: nat
    using that by (simp add: unsigned_of_nat take_bit_nat_eq_self)
  from this [OF small] have n: "unat (of_nat ?n :: u64) = ?n" .
  have "unat (sw_next_spawn sw + of_nat ?n) = unat (sw_next_spawn sw) + ?n"
    using small assms(2) by (subst unat_word_ariths(1)) (simp only: n, simp)
  with all n show ?thesis by simp
qed

lemma ready_effect:
  assumes "keys_below (unat (sw_next_spawn sw)) sw" and "unat (sw_next_spawn sw) + 2 ^ 32 \<le> 2 ^ 64"
    and "sw' = on_registration_ready h held found token spawner sw"
  shows "effect h (spawn_ids (sw_generation sw) (sw_next_spawn sw) (unat (sw_next_spawn sw' - sw_next_spawn sw))) sw sw' \<and>
    unat (sw_next_spawn sw') = unat (sw_next_spawn sw) + unat (sw_next_spawn sw' - sw_next_spawn sw) \<and>
    sw_next_despawn sw' = sw_next_despawn sw"
proof -
  have none: ?thesis if "effect h [] sw sw'" "sw_next_spawn sw' = sw_next_spawn sw" "sw_next_despawn sw' = sw_next_despawn sw"
    using that by (simp add: spawn_ids_def)
  obtain prefab loaded where reference: "prefab_reference (spc_prefab (sw_config sw)) held found = (prefab, loaded)" by fastforce
  let ?sw1 = "sw\<lparr>sw_config := (sw_config sw)\<lparr>spc_prefab := prefab\<rparr>\<rparr>"
  have config: "effect h [] sw ?sw1" by (rule effect_setting) simp_all
  from effect_trans [OF config enter_failure_effect]
  have failed: "effect h [] sw (enter_failure error failure ?sw1)" for error failure by simp
  show ?thesis
  proof (cases "sw_lifecycle sw \<noteq> spl_registering \<or> token \<noteq> sw_registration sw \<or> \<not> spawner_valid spawner")
    case True
    then show ?thesis using none effect_refl by (auto simp: assms(3) on_registration_ready_def)
  next
    case accepted: False
    show ?thesis
    proof (cases "\<exists>entities. loaded = Some entities \<and> topology_succeeds (extract_entity_hierarchy (az_is_finite (h_math h)) entities)")
      case False
      with accepted reference have "\<exists>error failure. sw' = enter_failure error failure ?sw1"
        by (auto simp: assms(3) on_registration_ready_def Let_def split: option.splits)
      then show ?thesis using none failed by (auto simp: enter_failure_def send_def)
    next
      case True
      then obtain entities where loaded: "loaded = Some entities"
          "topology_succeeds (extract_entity_hierarchy (az_is_finite (h_math h)) entities)" by blast
      let ?sw2 = "?sw1\<lparr>sw_spawner := spawner, sw_topology := ptr_nodes (extract_entity_hierarchy (az_is_finite (h_math h)) entities),
        sw_lifecycle := spl_ready\<rparr>"
      let ?sw3 = "send [Spawner_ready spawner] ?sw2"
      have sw': "sw' = begin_initial_spawns h ?sw3"
        using accepted reference loaded by (simp add: assms(3) on_registration_ready_def Let_def)
      have "effect h [] sw ?sw2" by (rule effect_setting) simp_all
      from effect_trans [OF this effect_send [of "[Spawner_ready spawner]" "[]"]] have start: "effect h [] sw ?sw3" by simp
      have fields: "sw_next_spawn ?sw3 = sw_next_spawn sw" "sw_next_despawn ?sw3 = sw_next_despawn sw"
        "sw_generation ?sw3 = sw_generation sw" "sw_instances ?sw3 = sw_instances sw"
        by (simp_all add: send_def)
      have "keys_below (unat (sw_next_spawn ?sw3)) ?sw3" using assms(1) by (simp add: keys_below_def fields)
      from initial_effect [OF this, of h] assms(2) effect_trans [OF start] show ?thesis
        by (fastforce simp: fields sw')
    qed
  qed
qed

lemma registration_failed_effect: "effect h [] sw (on_registration_failed token failure sw)"
  by (simp add: on_registration_failed_def enter_failure_effect)

subsection \<open>Activation and deactivation\<close>

lemma activate_fields:
  assumes "sw' = spawner_activate sw"
  shows "sw_entity sw' = sw_entity sw \<and> sw_instances sw' = [] \<and> sw_next_spawn sw' = sw_next_spawn sw \<and>
    sw_next_despawn sw' = sw_next_despawn sw \<and> (\<exists>events. sw_sent sw' = sw_sent sw @ events \<and> answers events = []) \<and>
    sw_lifecycle sw' \<noteq> spl_inactive \<and> system_moves h [] (sw_system sw) (sw_system sw')"
proof (cases "sw_system sw")
  case None
  then show ?thesis by (simp add: assms spawner_activate_def Let_def enter_failure_def send_def)
next
  case (Some sys)
  let ?d = "\<lparr>prd_prefab = spc_prefab (sw_config sw), prd_capacity = spc_capacity (sw_config sw), prd_key = ''ScenePolytreeSpawner''\<rparr>"
  obtain registered sys' where registered: "register_prefab (sw_entity sw) (spc_scene_entity (sw_config sw)) ?d sys = (registered, sys')"
    by fastforce
  have "system_moves h [] (Some sys) (Some sys')" by (rule system_moves_call [OF call_register_prefab [OF registered]])
  then show ?thesis using Some registered
    by (simp add: assms spawner_activate_def Let_def enter_failure_def send_def)
qed

text \<open>Giving a slot back without a completion is no promise.\<close>

lemma retire_slot_moves: "system_moves h [] (Some sys) (Some (retire_slot h r sys))"
proof -
  let ?slot = "ih_slot (ir_instance r)"
  let ?sys0 = "if ir_attached r then snd (destroy_controllers_immediately h (ir_instance r) sys) else sys"
  obtain code sys1 where d: "destroy_controllers_immediately h (ir_instance r) sys = (code, sys1)" by fastforce
  obtain s2 sys2 where u: "submit_unbind_slot h ?slot None ?sys0 = (s2, sys2)" by fastforce
  obtain s3 sys3 where e: "submit_reset_slot h ?slot None sys2 = (s3, sys3)" by fastforce
  obtain s4 sys4 where l: "submit_release_slot h ?slot None sys3 = (s4, sys4)" by fastforce
  have none: "promised s None type = []" for s type by (simp add: promised_def owed_def)
  have "system_moves h [] (Some sys) (Some ?sys0)"
    using system_moves_call [OF call_destroy_controllers [OF d]] by (simp add: d)
  moreover have "system_moves h [] (Some ?sys0) (Some sys2)" "system_moves h [] (Some sys2) (Some sys3)" "system_moves h [] (Some sys3) (Some sys4)"
    using system_moves_call [OF call_unbind [OF u]] system_moves_call [OF call_reset [OF e]] system_moves_call [OF call_release [OF l]]
    by (simp_all add: none)
  ultimately have "system_moves h [] (Some sys) (Some sys4)"
    using system_moves_trans [of h "[]" _ _ "[]"] by (metis append_Nil)
  moreover have "retire_slot h r sys = sys4"
    using u e l by (simp add: retire_slot_def Let_def system_unbind_slot_def system_reset_slot_def system_release_slot_def)
  ultimately show ?thesis by simp
qed

lemma cancel_boundary_fields [simp]:
  "sw_sent (snd (cancel_boundary i sw)) = sw_sent sw" "sw_system (snd (cancel_boundary i sw)) = sw_system sw"
  "sw_entity (snd (cancel_boundary i sw)) = sw_entity sw" "sw_next_spawn (snd (cancel_boundary i sw)) = sw_next_spawn sw"
  "sw_next_despawn (snd (cancel_boundary i sw)) = sw_next_despawn sw" "sw_instances (snd (cancel_boundary i sw)) = sw_instances sw"
  "sw_registration (snd (cancel_boundary i sw)) = sw_registration sw" "sw_service (snd (cancel_boundary i sw)) = sw_service sw"
  "sw_lifecycle (snd (cancel_boundary i sw)) = sw_lifecycle sw"
  by (simp_all add: cancel_boundary_def)

definition retired ::
  "('x, 'v, 'q, 'f, 'cfg, 'inp, 'b, 't, 'm, 'z) host \<Rightarrow> ('x, 'v, 'cfg, 'b) spawner \<Rightarrow> ('x, 'v, 'cfg, 'b) spawner \<Rightarrow> bool" where
  "retired h sw sw' \<longleftrightarrow>
     sw_entity sw' = sw_entity sw \<and> sw_next_spawn sw' = sw_next_spawn sw \<and> sw_next_despawn sw' = sw_next_despawn sw \<and>
     (\<exists>events. sw_sent sw' = sw_sent sw @ events \<and> answers events = []) \<and> system_moves h [] (sw_system sw) (sw_system sw')"

lemma retired_refl: "retired h sw sw"
  by (simp add: retired_def)

lemma retired_trans: "retired h a b \<Longrightarrow> retired h b c \<Longrightarrow> retired h a c"
  unfolding retired_def using system_moves_trans [of h "[]" _ _ "[]"] by fastforce

lemma retire_instance_retires: "retired h sw (retire_instance h r sw)"
proof (cases "sw_system sw")
  case None
  then show ?thesis
    by (simp add: retired_def retire_instance_def Let_def send_def split: option.splits)
next
  case (Some sys)
  with retire_slot_moves [of h sys r] show ?thesis
    by (simp add: retired_def retire_instance_def Let_def send_def split: option.splits)
qed

lemma retire_all_retires: "retired h sw (fold (retire_next h) order sw)"
proof (induction order arbitrary: sw)
  case (Cons k order)
  have "retired h sw (retire_next h k sw)"
    by (simp add: retire_next_def retired_refl retire_instance_retires split: option.splits)
  from retired_trans [OF this Cons.IH] show ?case by simp
qed (simp add: retired_refl)

lemma deactivate_fields:
  assumes "sw' = spawner_deactivate h order sw" and "sw_lifecycle sw \<noteq> spl_inactive"
  shows "retired h sw sw' \<and> sw_instances sw' = [] \<and> sw_lifecycle sw' = spl_inactive"
proof -
  let ?sw = "sw\<lparr>sw_lifecycle := spl_deactivating, sw_generation := next_generation (sw_generation sw)\<rparr>"
  let ?last = "fold (retire_next h) order ?sw"
  have "retired h sw ?last" using retire_all_retires [of h ?sw order] by (simp add: retired_def)
  moreover have "retired h ?last sw'"
    using system_moves_call [OF call_unregister_prefab] assms
    by (cases "sw_system ?last") (simp_all add: retired_def spawner_deactivate_def Let_def)
  ultimately have "retired h sw sw'" by (rule retired_trans)
  then show ?thesis using assms by (simp add: spawner_deactivate_def Let_def)
qed

subsection \<open>Runs\<close>

text \<open>
  An operation of the spawner with the requests it takes on and those it gives up. \<open>op_environment\<close> stands for the
  callbacks of the spawn service and for changes of what the spawner reads.
\<close>

inductive spawner_op ::
  "('x, 'v, 'q, 'f, 'cfg, 'inp, 'b, 't, 'm, 'z) host \<Rightarrow> ('x, 'v, 'cfg, 'b) spawner \<Rightarrow> spawner_answer list \<Rightarrow>
   spawner_answer list \<Rightarrow> ('x, 'v, 'cfg, 'b) spawner \<Rightarrow> bool" for h where
  op_activate: "sw_lifecycle sw = spl_inactive \<Longrightarrow> spawner_op h sw [] [] (spawner_activate sw)"
| op_deactivate: "sw_lifecycle sw \<noteq> spl_inactive \<Longrightarrow> set order = fst ` set (sw_instances sw) \<Longrightarrow>
    spawner_op h sw [] (due sw) (spawner_deactivate h order sw)"
| op_ready: "sw' = on_registration_ready h held found token spawner sw \<Longrightarrow>
    spawner_op h sw (spawn_ids (sw_generation sw) (sw_next_spawn sw) (unat (sw_next_spawn sw' - sw_next_spawn sw))) [] sw'"
| op_failed: "spawner_op h sw [] [] (on_registration_failed token failure sw)"
| op_spawn: "spawn h request sw = (rid, sw') \<Longrightarrow> spawner_op h sw [Spawn_answer rid] [] sw'"
| op_despawn: "despawn h inst sw = (did, sw') \<Longrightarrow> spawner_op h sw [Despawn_answer did] [] sw'"
| op_cancel: "spawner_op h sw [] [] (snd (cancel_spawn rid sw))"
| op_spawned: "spawner_op h sw [] [] (on_spawn_completed h generation rid ticket error bindings declarations sw)"
| op_despawned: "spawner_op h sw [] [] (on_despawn_completed h generation rid ticket sw)"
| op_environment: "spawner_op h sw [] [] (sw\<lparr>sw_callbacks := callbacks, sw_service := service, sw_ticket := next_ticket, sw_world := world\<rparr>)"

text \<open>
  A run: \<open>n\<close> calls of the system component, the completions it has promised, the ones it has sent that are not
  delivered yet, the requests the spawner has taken on and those a deactivation has given up.
\<close>

inductive spawner_run ::
  "('x, 'v, 'q, 'f, 'cfg, 'inp, 'b, 't, 'm, 'z) host \<Rightarrow> nat \<Rightarrow> completion list \<Rightarrow> completion list \<Rightarrow>
   spawner_answer list \<Rightarrow> spawner_answer list \<Rightarrow> ('x, 'v, 'cfg, 'b) spawner \<Rightarrow> bool" for h where
  run_begins: "entity \<noteq> None \<Longrightarrow> spawner_run h 0 [] [] [] [] (new_spawner entity config (Some new_system) service next_ticket world)"
| run_operates: "spawner_run h n expected inbox issued lost sw \<Longrightarrow> spawner_op h sw new given_up sw' \<Longrightarrow>
    sw_system sw = Some sys \<Longrightarrow> sw_system sw' = Some sys' \<Longrightarrow> system_calls h m promises sys sys' \<Longrightarrow>
    spawner_run h (n + m) (expected @ promises) inbox (issued @ new) (lost @ given_up) sw'"
| run_delivers: "spawner_run h n expected ((command, entity, type) # inbox) issued lost sw \<Longrightarrow>
    sw' = (if entity = sw_entity sw \<and> sw_lifecycle sw \<noteq> spl_inactive then on_command_completed h command type result sw else sw) \<Longrightarrow>
    sw_system sw = Some sys \<Longrightarrow> sw_system sw' = Some sys' \<Longrightarrow> system_calls h m promises sys sys' \<Longrightarrow>
    spawner_run h (n + m) (expected @ promises) inbox issued lost sw'"
| run_elsewhere: "spawner_run h n expected inbox issued lost sw \<Longrightarrow> sw_system sw = Some sys \<Longrightarrow>
    system_call h sys promises events sys' \<Longrightarrow>
    spawner_run h (Suc n) (expected @ promises) (inbox @ completions events) issued lost (sw\<lparr>sw_system := Some sys'\<rparr>)"

subsection \<open>What holds in every run\<close>

lemma calls_run:
  "system_calls h m promises sys sys' \<Longrightarrow> system_run h n expected received sys \<Longrightarrow>
    system_run h (n + m) (expected @ promises) received sys'"
proof (induction rule: system_calls.induct)
  case (more_calls m promises sys sys' more_promises sys'')
  from run_calls [OF more_calls.IH [OF more_calls.prems] more_calls.hyps(2)] show ?case by simp
qed simp

lemma calls_queue: "system_calls h m promises sys sys' \<Longrightarrow> queued sys' = queued sys @ promises"
proof (induction rule: system_calls.induct)
  case (more_calls m promises sys sys' more_promises sys'')
  with call_owes [OF more_calls.hyps(2)] show ?case by simp
qed simp

lemma moves_promises:
  "system_moves h ps (Some sys) (Some sys') \<Longrightarrow> system_calls h m qs sys sys' \<Longrightarrow> ps = qs"
  by (auto simp: system_moves_def dest!: calls_queue)

text \<open>The requests are numbered: each counter is above all the numbers it has given out.\<close>

definition numbered_requests :: "spawner_answer list \<Rightarrow> ('x, 'v, 'cfg, 'b) spawner \<Rightarrow> bool" where
  "numbered_requests issued sw \<longleftrightarrow>
     unat (sw_next_spawn sw) + unat (sw_next_despawn sw) = length issued + 2 \<and> distinct issued \<and>
     (\<forall>q. Spawn_answer q \<in> set issued \<longrightarrow> unat (rq_value q) < unat (sw_next_spawn sw)) \<and>
     (\<forall>q. Despawn_answer q \<in> set issued \<longrightarrow> unat (rq_value q) < unat (sw_next_despawn sw))"

lemma unat_add_below:
  fixes num :: u64
  assumes "unat num + i < 2 ^ 64"
  shows "unat (num + of_nat i) = unat num + i"
proof -
  have i: "unat (of_nat i :: u64) = i" using assms by (simp add: unsigned_of_nat take_bit_nat_eq_self)
  show ?thesis using assms by (subst unat_word_ariths(1)) (simp only: i, simp)
qed

lemma numbered_spawns:
  assumes "numbered_requests issued sw" and "unat (sw_next_spawn sw) + k < 2 ^ 64"
    and "unat (sw_next_spawn sw') = unat (sw_next_spawn sw) + k" and "sw_next_despawn sw' = sw_next_despawn sw"
  shows "numbered_requests (issued @ spawn_ids generation (sw_next_spawn sw) k) sw'"
proof -
  let ?id = "\<lambda>i. \<lparr>rq_generation = generation, rq_value = sw_next_spawn sw + of_nat i\<rparr>"
  have num: "unat (rq_value (?id i)) = unat (sw_next_spawn sw) + i" if "i < k" for i
    using unat_add_below [of "sw_next_spawn sw" i] assms(2) that by simp
  have "inj_on (\<lambda>i. Spawn_answer (?id i)) {0..<k}"
  proof (rule inj_onI)
    fix i j
    assume ij: "i \<in> {0..<k}" "j \<in> {0..<k}" "Spawn_answer (?id i) = Spawn_answer (?id j)"
    then have "unat (rq_value (?id i)) = unat (rq_value (?id j))" by simp
    with num [of i] num [of j] ij(1,2) show "i = j" by simp
  qed
  then have "distinct (spawn_ids generation (sw_next_spawn sw) k)" by (simp add: spawn_ids_def distinct_map)
  moreover have "set issued \<inter> set (spawn_ids generation (sw_next_spawn sw) k) = {}"
  proof -
    have "Spawn_answer (?id i) \<notin> set issued" if "i < k" for i
      using assms(1) num [OF that] unfolding numbered_requests_def by (metis not_add_less1)
    then show ?thesis by (auto simp: spawn_ids_def)
  qed
  moreover have "unat (rq_value q) < unat (sw_next_spawn sw')" if "Spawn_answer q \<in> set (spawn_ids generation (sw_next_spawn sw) k)" for q
    using that num assms(3) by (auto simp: spawn_ids_def)
  moreover have "Despawn_answer q \<notin> set (spawn_ids generation (sw_next_spawn sw) k)" for q by (auto simp: spawn_ids_def)
  moreover have "length (spawn_ids generation (sw_next_spawn sw) k) = k" by (simp add: spawn_ids_def)
  ultimately show ?thesis
    using assms(1,3,4) unfolding numbered_requests_def by (fastforce simp: trans_less_add1)
qed

lemma numbered_despawn:
  assumes "numbered_requests issued sw" and "sw_next_despawn sw \<noteq> - 1"
    and "sw_next_despawn sw' = sw_next_despawn sw + 1" and "sw_next_spawn sw' = sw_next_spawn sw"
  shows "numbered_requests (issued @ [Despawn_answer \<lparr>rq_generation = generation, rq_value = sw_next_despawn sw\<rparr>]) sw'"
proof -
  have "unat (sw_next_despawn sw') = Suc (unat (sw_next_despawn sw))" using assms(2,3) by (simp add: unat_next)
  moreover have "Despawn_answer \<lparr>rq_generation = generation, rq_value = sw_next_despawn sw\<rparr> \<notin> set issued"
    using assms(1) by (auto simp: numbered_requests_def)
  ultimately show ?thesis using assms(1,4) unfolding numbered_requests_def by (auto simp: less_SucI)
qed

lemma numbered_same:
  "numbered_requests issued sw \<Longrightarrow> sw_next_spawn sw' = sw_next_spawn sw \<Longrightarrow> sw_next_despawn sw' = sw_next_despawn sw \<Longrightarrow>
    numbered_requests (issued @ []) sw'"
  by (simp add: numbered_requests_def)

definition run_ok ::
  "('x, 'v, 'q, 'f, 'cfg, 'inp, 'b, 't, 'm, 'z) host \<Rightarrow> nat \<Rightarrow> completion list \<Rightarrow> completion list \<Rightarrow>
   spawner_answer list \<Rightarrow> spawner_answer list \<Rightarrow> ('x, 'v, 'cfg, 'b) spawner \<Rightarrow> bool" where
  "run_ok h n expected inbox issued lost sw \<longleftrightarrow>
     (\<exists>sys delivered. sw_system sw = Some sys \<and> system_run h n expected (delivered @ inbox) sys \<and>
        tracked {} (inbox @ queued sys) (fst ` set expected) sw) \<and>
     sw_entity sw \<noteq> None \<and> instances_ok sw \<and> ledger sw + mset lost = mset issued \<and>
     keys_below (unat (sw_next_spawn sw)) sw \<and> numbered_requests issued sw \<and>
     (sw_lifecycle sw = spl_inactive \<longrightarrow> sw_instances sw = [])"

lemma fresh_promises:
  assumes "system_run h n (expected @ promises) received sys" and "n < 2 ^ 64 - 1"
  shows "distinct (map fst promises)" "fst ` set promises \<inter> fst ` set expected = {}"
proof -
  from run_ids [OF assms] have "sorted_wrt (<) (map fst (expected @ promises))" by (simp add: ids_below_def)
  then have "distinct (map fst (expected @ promises))" by (simp add: strict_sorted_iff)
  then show "distinct (map fst promises)" "fst ` set promises \<inter> fst ` set expected = {}" by auto
qed

lemma run_ok_effect:
  assumes "run_ok h n expected inbox issued lost sw" and "effect h new sw sw'" and "numbered_requests (issued @ new) sw'"
    and "sw_system sw = Some sys" and "sw_system sw' = Some sys'" and "system_calls h m promises sys sys'"
    and "n + m < 2 ^ 64 - 1" and "sw_lifecycle sw' = spl_inactive \<Longrightarrow> sw_instances sw' = []"
    and "unat (sw_next_spawn sw) \<le> unat (sw_next_spawn sw')"
  shows "run_ok h (n + m) (expected @ promises) inbox (issued @ new) (lost @ []) sw'"
proof -
  from assms(1,4) obtain delivered where run: "system_run h n expected (delivered @ inbox) sys"
    and tracks: "tracked {} (inbox @ queued sys) (fst ` set expected) sw" by (auto simp: run_ok_def)
  note run' = calls_run [OF assms(6) run]
  note fresh = fresh_promises [OF run' assms(7)]
  have ok: "instances_ok sw" "sw_entity sw \<noteq> None" "keys_below (unat (sw_next_spawn sw)) sw"
    "ledger sw + mset lost = mset issued" "numbered_requests issued sw" using assms(1) by (simp_all add: run_ok_def)
  from assms(2) obtain ps where "system_moves h ps (sw_system sw) (sw_system sw')"
    and tracks': "\<And>W P. instances_ok sw \<Longrightarrow> sw_entity sw \<noteq> None \<Longrightarrow> tracked {} W P sw \<Longrightarrow> distinct (map fst ps) \<Longrightarrow>
      fst ` set ps \<inter> P = {} \<Longrightarrow> tracked {} (W @ ps) (P \<union> fst ` set ps) sw'"
    unfolding effect_def by blast
  with moves_promises assms(4-6) have ps: "ps = promises" by fastforce
  from tracks' [OF ok(1,2) tracks] fresh have "tracked {} (inbox @ queued sys') (fst ` set (expected @ promises)) sw'"
    by (simp add: ps calls_queue [OF assms(6)] image_Un)
  with run' assms(5) have system: "\<exists>sys delivered. sw_system sw' = Some sys \<and>
      system_run h (n + m) (expected @ promises) (delivered @ inbox) sys \<and>
      tracked {} (inbox @ queued sys) (fst ` set (expected @ promises)) sw'" by blast
  have "keys_below (unat (sw_next_spawn sw')) sw'"
    unfolding keys_below_def
  proof
    fix k
    assume "k \<in> fst ` set (sw_instances sw')"
    moreover have "fst ` set (sw_instances sw') \<subseteq> fst ` set (sw_instances sw) \<union> spawn_values new"
      using assms(2) by (simp add: effect_def)
    ultimately consider "k \<in> fst ` set (sw_instances sw)" | "k \<in> spawn_values new" by blast
    then show "unat k < unat (sw_next_spawn sw')"
    proof cases
      case 1
      with ok(3) have "unat k < unat (sw_next_spawn sw)" unfolding keys_below_def by blast
      with assms(9) show ?thesis by simp
    next
      case 2
      with assms(3) show ?thesis by (auto simp: spawn_values_def numbered_requests_def)
    qed
  qed
  moreover have "instances_ok sw'" "ledger sw' = ledger sw + mset new" "sw_entity sw' \<noteq> None"
    using assms(2) ok(1,2) by (simp_all add: effect_def)
  moreover have "ledger sw' + mset lost = mset (issued @ new)"
    using \<open>ledger sw' = _\<close> ok(4) by (simp add: ac_simps)
  ultimately show ?thesis using system assms(3,8) by (simp add: run_ok_def)
qed

text \<open>Without instances nothing is left to track.\<close>

lemma run_ok_cleared:
  assumes "run_ok h n expected inbox issued lost sw" and "retired h sw sw'" and "sw_instances sw' = []"
    and "sw_system sw = Some sys" and "sw_system sw' = Some sys'" and "system_calls h m promises sys sys'"
  shows "run_ok h (n + m) (expected @ promises) inbox (issued @ []) (lost @ due sw) sw'"
proof -
  from assms(1,4) obtain delivered where run: "system_run h n expected (delivered @ inbox) sys" by (auto simp: run_ok_def)
  from assms(2) obtain events where sent: "sw_sent sw' = sw_sent sw @ events" "answers events = []" by (auto simp: retired_def)
  have "tracked {} W P sw'" for W P by (simp add: tracked_def assms(3))
  with calls_run [OF assms(6) run] assms(5)
  have system: "\<exists>sys delivered. sw_system sw' = Some sys \<and> system_run h (n + m) (expected @ promises) (delivered @ inbox) sys \<and>
      tracked {} (inbox @ queued sys) (fst ` set (expected @ promises)) sw'" by blast
  have ok: "sw_entity sw' \<noteq> None" "numbered_requests (issued @ []) sw'" "ledger sw + mset lost = mset issued"
    using assms(1,2) by (auto simp: run_ok_def retired_def numbered_requests_def)
  have "ledger sw' + mset (lost @ due sw) = mset (issued @ [])"
    using ok(3) by (simp add: ledger_def sent due_def [of sw'] assms(3) ac_simps)
  with system ok show ?thesis by (simp add: run_ok_def instances_ok_def keys_below_def assms(3))
qed

text \<open>Delivering a completion: nobody else waits for it.\<close>

lemma parked_drop:
  assumes "parked entity (c # W) es generation r" and "ir_pending r \<noteq> fst c"
  shows "parked entity W es generation r"
proof -
  from assms(2) have "(ir_pending r, entity, type) \<in> set (c # W) \<longleftrightarrow> (ir_pending r, entity, type) \<in> set W" for type by auto
  with assms(1) show ?thesis by (simp only: parked_def)
qed

lemma tracked_drop:
  assumes "tracked {} (c # W) P sw" and "\<And>k r. k \<notin> K \<Longrightarrow> map_of (sw_instances sw) k = Some r \<Longrightarrow> ir_pending r \<noteq> fst c"
  shows "tracked K W P sw"
  unfolding tracked_def
proof (intro conjI allI impI)
  fix k r
  assume kr: "k \<notin> K" "map_of (sw_instances sw) k = Some r"
  from tracked_parked [OF assms(1) kr(2)] have "parked (sw_entity sw) (c # W) (sw_sent sw) (sw_generation sw) r"
    and "ir_pending r = 0 \<or> ir_pending r \<in> P" by simp_all
  then show "parked (sw_entity sw) W (sw_sent sw) (sw_generation sw) r" "ir_pending r = 0 \<or> ir_pending r \<in> P"
    using parked_drop assms(2) [OF kr] by blast+
next
  fix k r k' r'
  assume "k \<noteq> k'" "map_of (sw_instances sw) k = Some r" "map_of (sw_instances sw) k' = Some r'" "ir_pending r \<noteq> 0"
  then show "ir_pending r \<noteq> ir_pending r'" by (intro tracked_apart [OF assms(1)]) simp_all
qed

lemma inbox_distinct:
  assumes "system_run h n expected (delivered @ inbox) sys" and "n < 2 ^ 64 - 1"
  shows "distinct (map fst (inbox @ queued sys)) \<and> 0 \<notin> fst ` set (inbox @ queued sys) \<and> set (inbox @ queued sys) \<subseteq> set expected"
proof -
  from run_owes [OF assms(1)] have expected: "expected = delivered @ inbox @ queued sys" by simp
  from run_ids [OF assms] have "sorted_wrt (<) (map fst expected)" "\<forall>c \<in> set expected. fst c \<noteq> 0" by (auto simp: ids_below_def)
  then have "distinct (map fst expected)" "0 \<notin> fst ` set expected" by (auto simp: strict_sorted_iff)
  then show ?thesis by (auto simp: expected)
qed

text \<open>A record that waits for the delivered command waits for exactly this completion.\<close>

lemma waits_for_delivery:
  assumes "tracked {} (inbox @ queued sys) P sw" and "distinct (map fst (inbox @ queued sys))"
    and "0 \<notin> fst ` set (inbox @ queued sys)" and "(command, entity, type) \<in> set (inbox @ queued sys)"
    and "map_of (sw_instances sw) k = Some r" and "ir_pending r = command" and "sw_entity sw \<noteq> None"
  shows "awaited_type (ir_state r) = Some type \<and> ir_pending_type r = type \<and> entity = sw_entity sw"
proof -
  have nonzero: "command \<noteq> 0" using assms(3,4) by force
  from tracked_parked [OF assms(1,5)] have parked: "parked (sw_entity sw) (inbox @ queued sys) (sw_sent sw) (sw_generation sw) r" by simp
  with nonzero assms(6) obtain t where t: "awaited_type (ir_state r) = Some t" by (auto simp: parked_def)
  with parked assms(6,7) have "(command, sw_entity sw, t) \<in> set (inbox @ queued sys)" "ir_pending_type r = t" by (auto simp: parked_def)
  from eq_key_imp_eq_value [OF assms(2) this(1) assms(4)] have "(sw_entity sw, t) = (entity, type)" .
  with t \<open>ir_pending_type r = t\<close> show ?thesis by simp
qed

lemma run_ok_delivers:
  assumes "run_ok h n expected ((command, entity, type) # inbox) issued lost sw"
    and "sw' = (if entity = sw_entity sw \<and> sw_lifecycle sw \<noteq> spl_inactive then on_command_completed h command type result sw else sw)"
    and "sw_system sw = Some sys" and "sw_system sw' = Some sys'" and "system_calls h m promises sys sys'"
    and "n + m < 2 ^ 64 - 1"
  shows "run_ok h (n + m) (expected @ promises) inbox issued lost sw'"
proof -
  let ?c = "(command, entity, type)"
  from assms(1,3) obtain delivered where run: "system_run h n expected (delivered @ ?c # inbox) sys"
    and tracks: "tracked {} ((?c # inbox) @ queued sys) (fst ` set expected) sw" by (auto simp: run_ok_def)
  have n: "n < 2 ^ 64 - 1" using assms(6) by simp
  note ids = inbox_distinct [OF run n]
  note run' = calls_run [OF assms(5) run]
  note fresh = fresh_promises [OF run' assms(6)]
  have ok: "instances_ok sw" "sw_entity sw \<noteq> None" "keys_below (unat (sw_next_spawn sw)) sw" "numbered_requests issued sw"
    "ledger sw + mset lost = mset issued" using assms(1) by (simp_all add: run_ok_def)
  have waits: "awaited_type (ir_state r) = Some type \<and> ir_pending_type r = type \<and> entity = sw_entity sw"
    if "map_of (sw_instances sw) k = Some r" "ir_pending r = command" for k r
    by (rule waits_for_delivery [OF tracks]) (use ids that ok(2) in auto)
  have standing: "standing sw' = standing sw" by (simp add: assms(2))
  have goal: ?thesis
    if "tracked {} (inbox @ queued sys @ promises) (fst ` set expected \<union> fst ` set promises) sw'" "instances_ok sw'" "ledger sw' = ledger sw"
      "sw_entity sw' = sw_entity sw" "fst ` set (sw_instances sw') \<subseteq> fst ` set (sw_instances sw)"
  proof -
    from that(5) have keys: "keys_below (unat (sw_next_spawn sw)) sw'" using ok(3) unfolding keys_below_def by blast
    have empty: "sw_instances sw' = []" if "sw_lifecycle sw' = spl_inactive"
    proof -
      from that standing have "sw_lifecycle sw = spl_inactive" by (simp add: standing_def)
      with assms(1) \<open>fst ` set (sw_instances sw') \<subseteq> _\<close> show ?thesis by (simp add: run_ok_def)
    qed
    have "tracked {} (inbox @ queued sys') (fst ` set (expected @ promises)) sw'"
      using that(1) by (simp add: calls_queue [OF assms(5)] image_Un)
    moreover have "\<exists>delivered. system_run h (n + m) (expected @ promises) (delivered @ inbox) sys'"
      using run' by (intro exI [of _ "delivered @ [?c]"]) simp
    ultimately show ?thesis
      using assms(4) ok that keys empty standing unfolding run_ok_def standing_def numbered_requests_def by auto
  qed
  show ?thesis
  proof (cases "entity = sw_entity sw \<and> sw_lifecycle sw \<noteq> spl_inactive \<and> find_command command sw \<noteq> None")
    case False
    then have same: "sw' = sw" by (auto simp: assms(2) on_command_completed_def)
    have "ir_pending r \<noteq> command" if "map_of (sw_instances sw) k = Some r" for k r
    proof
      assume "ir_pending r = command"
      from waits [OF that this] that False find_command_None [of command sw k r] \<open>ir_pending r = command\<close> assms(1)
      show False by (auto simp: run_ok_def)
    qed
    then have "tracked {} (inbox @ queued sys) (fst ` set expected) sw"
      using tracked_drop [of ?c "inbox @ queued sys" _ sw "{}"] tracks by simp
    then have "tracked {} (inbox @ queued sys @ promises) (fst ` set expected \<union> fst ` set promises) sw"
      by (rule tracked_same) auto
    then show ?thesis using goal ok by (simp add: same)
  next
    case True
    then obtain r where r: "find_command command sw = Some r" by blast
    from find_command_Some [OF r ok(1)] obtain k where k: "map_of (sw_instances sw) k = Some r" "ir_pending r = command" .
    have sw': "sw' = on_command_completed h command type result sw" using True by (simp add: assms(2))
    note waits = waits [OF k]
    note found = instances_okD [OF ok(1) k(1)]
    from command_advances [OF ok(1) k(1) r, of type h result] waits
    have advanced: "advanced h (ir_spawn_request r) (due_by r) (state_rank (ir_state r) - 1) sw sw'" by (simp add: sw')
    have "ir_pending r' \<noteq> command" if "k' \<notin> {k}" "map_of (sw_instances sw) k' = Some r'" for k' r'
      using tracked_apart [OF tracks k(1) that(2)] that(1) k(2) ids by auto
    then have others: "tracked {rq_value (ir_spawn_request r)} (inbox @ queued sys) (fst ` set expected) sw"
      using tracked_drop [of ?c "inbox @ queued sys" _ sw "{k}"] tracks by (simp add: found)
    from advanced_tracks [OF advanced ok(2)] obtain ps where ps: "system_moves h ps (sw_system sw) (sw_system sw')"
      "\<And>W P. tracked {rq_value (ir_spawn_request r)} W P sw \<Longrightarrow> fst ` set ps \<inter> P = {} \<Longrightarrow> tracked {} (W @ ps) (P \<union> fst ` set ps) sw'" by blast
    from ps(1) moves_promises assms(3-5) have "ps = promises" by fastforce
    with ps(2) [OF others] fresh have tracked: "tracked {} (inbox @ queued sys @ promises) (fst ` set expected \<union> fst ` set promises) sw'" by simp
    have "effect h [] sw sw'" by (rule effect_found [OF ok(1) k(1) advanced]) simp
    then have "instances_ok sw'" "ledger sw' = ledger sw" "sw_entity sw' = sw_entity sw"
      "fst ` set (sw_instances sw') \<subseteq> fst ` set (sw_instances sw)"
      using ok(1) by (simp_all add: effect_def)
    with tracked goal show ?thesis by blast
  qed
qed

lemma run_ok_begins:
  assumes "entity \<noteq> None"
  shows "run_ok h 0 [] [] [] [] (new_spawner entity config (Some new_system) service next_ticket world)"
proof -
  have "system_run h 0 [] ([] @ []) new_system" using run_starts by simp
  then show ?thesis using assms
    by (auto simp: run_ok_def new_spawner_def instances_ok_def tracked_def ledger_def due_def keys_below_def numbered_requests_def
        intro!: exI [of _ "[]"])
qed

lemma op_same:
  assumes "effect h [] sw sw'" and "standing sw' = standing sw"
    and "run_ok h n expected inbox issued lost sw" and "sw_system sw = Some sys" and "sw_system sw' = Some sys'"
    and "system_calls h m promises sys sys'" and "n + m < 2 ^ 64 - 1"
  shows "run_ok h (n + m) (expected @ promises) inbox (issued @ []) (lost @ []) sw'"
proof (rule run_ok_effect [OF assms(3,1) _ assms(4-7)])
  show "numbered_requests (issued @ []) sw'"
    using assms(2,3) by (simp add: run_ok_def numbered_requests_def standing_def)
  show "unat (sw_next_spawn sw) \<le> unat (sw_next_spawn sw')" using assms(2) by (simp add: standing_def)
  assume "sw_lifecycle sw' = spl_inactive"
  with assms(2,3) have "sw_instances sw = []" by (simp add: run_ok_def standing_def)
  with assms(1) show "sw_instances sw' = []" by (simp add: effect_def)
qed

lemma op_registration_failed:
  assumes "run_ok h n expected inbox issued lost sw" and "sw' = on_registration_failed token failure sw"
    and "sw_system sw = Some sys" and "sw_system sw' = Some sys'" and "system_calls h m promises sys sys'" and "n + m < 2 ^ 64 - 1"
  shows "run_ok h (n + m) (expected @ promises) inbox (issued @ []) (lost @ []) sw'"
proof -
  have fields: "sw_next_spawn sw' = sw_next_spawn sw" "sw_next_despawn sw' = sw_next_despawn sw" "sw_instances sw' = sw_instances sw"
    "sw_lifecycle sw' = spl_inactive \<Longrightarrow> sw_lifecycle sw = spl_inactive"
    by (auto simp: assms(2) on_registration_failed_def enter_failure_def send_def split: if_splits)
  show ?thesis
    by (rule run_ok_effect [OF assms(1) _ _ assms(3-6)])
      (use assms(1) fields registration_failed_effect in \<open>auto simp: run_ok_def numbered_requests_def assms(2)\<close>)
qed

lemma initial_spawns_lifecycle: "sw_lifecycle (fold (begin_initial_spawn h placement) is sw) = sw_lifecycle sw"
proof (induction "is" arbitrary: sw)
  case (Cons i "is")
  have "standing (begin_initial_spawn h placement i sw) = (sw_next_spawn sw + 1, sw_next_despawn sw, sw_lifecycle sw)"
    by (simp add: begin_initial_spawn_def allocate_spawn_def) (simp add: standing_def)
  with Cons.IH show ?case by (simp add: standing_def)
qed simp

lemma ready_stays_active:
  "sw_lifecycle sw \<noteq> spl_inactive \<Longrightarrow> sw_lifecycle (on_registration_ready h held found token spawner sw) \<noteq> spl_inactive"
  by (auto simp: on_registration_ready_def begin_initial_spawns_def initial_spawns_lifecycle enter_failure_def send_def Let_def
      split: prod.splits option.splits)

lemma run_ok_operates:
  assumes "spawner_op h sw new given_up sw'" and "run_ok h n expected inbox issued lost sw"
    and "sw_system sw = Some sys" and "sw_system sw' = Some sys'" and "system_calls h m promises sys sys'"
    and "n + m < 2 ^ 64 - 1" and "length issued < 2 ^ 63"
  shows "run_ok h (n + m) (expected @ promises) inbox (issued @ new) (lost @ given_up) sw'"
proof -
  have ok: "instances_ok sw" "keys_below (unat (sw_next_spawn sw)) sw" "numbered_requests issued sw"
    "sw_lifecycle sw = spl_inactive \<Longrightarrow> sw_instances sw = []" using assms(2) by (simp_all add: run_ok_def)
  have idle: "idle_ok sw" using assms(2) tracked_idle by (auto simp: run_ok_def)
  have room: "unat (sw_next_spawn sw) + 2 ^ 32 \<le> 2 ^ 64" and "unat (sw_next_despawn sw) < 2 ^ 64 - 1"
    using ok(3) assms(7) by (simp_all add: numbered_requests_def)
  then have despawns: "sw_next_despawn sw \<noteq> - 1" using max_u64_unat by fastforce
  note same = op_same [OF _ _ assms(2-6)]
  note step = run_ok_effect [OF assms(2) _ _ assms(3-6)]
  from assms(1) show ?thesis
  proof cases
    case op_activate
    have fields: "sw_instances sw' = []" "retired h sw sw'" using activate_fields [OF op_activate(3)] by (auto simp: retired_def)
    have "due sw = []" by (simp add: due_def ok(4) [OF op_activate(4)])
    with run_ok_cleared [OF assms(2) fields(2,1) assms(3-5)] op_activate show ?thesis by simp
  next
    case (op_deactivate order)
    from deactivate_fields [OF op_deactivate(3,4)] have fields: "sw_instances sw' = []" "retired h sw sw'" by simp_all
    from run_ok_cleared [OF assms(2) fields(2,1) assms(3-5)] op_deactivate show ?thesis by simp
  next
    case (op_ready held found token spawner)
    let ?k = "unat (sw_next_spawn sw' - sw_next_spawn sw)"
    from ready_effect [OF ok(2) room op_ready(3)] have eff: "effect h new sw sw'" "sw_next_despawn sw' = sw_next_despawn sw"
      and k: "unat (sw_next_spawn sw') = unat (sw_next_spawn sw) + ?k" by (auto simp: op_ready(1))
    have "unat (sw_next_spawn sw') < 2 ^ 64" using unsigned_less [of "sw_next_spawn sw'"] by simp
    with k have bound: "unat (sw_next_spawn sw) + ?k < 2 ^ 64" by simp
    have "numbered_requests (issued @ new) sw'"
      unfolding op_ready(1) by (rule numbered_spawns [OF ok(3) bound k eff(2)])
    moreover have "sw_instances sw' = []" if "sw_lifecycle sw' = spl_inactive"
    proof (cases "sw_lifecycle sw = spl_inactive")
      case True
      then have "sw' = sw" by (simp add: op_ready(3) on_registration_ready_def)
      with ok(4) True show ?thesis by simp
    next
      case False
      with that show ?thesis unfolding op_ready(3) by (simp add: ready_stays_active)
    qed
    ultimately show ?thesis using step [OF eff(1)] k op_ready(2) by simp
  next
    case (op_failed token failure)
    from op_registration_failed [OF assms(2) op_failed(3) assms(3-6)] op_failed show ?thesis by simp
  next
    case (op_spawn request rid)
    note standing = standing_spawn [OF op_spawn(3)]
    have small: "sw_next_spawn sw \<noteq> - 1" using room max_u64_unat by fastforce
    then have next_spawn: "unat (sw_next_spawn sw') = unat (sw_next_spawn sw) + 1" using standing by (simp add: standing_def unat_next)
    have "spawn_ids (sw_generation sw) (sw_next_spawn sw) 1 = new"
      by (simp add: spawn_ids_def op_spawn(1) spawn_counters [OF op_spawn(3)])
    with numbered_spawns [OF ok(3) _ next_spawn] room standing have numbers: "numbered_requests (issued @ new) sw'"
      by (fastforce simp: standing_def)
    from spawn_effect [OF op_spawn(3) keys_below_fresh [OF ok(2)]] have eff: "effect h new sw sw'" by (simp add: op_spawn(1))
    have "sw_instances sw' = []" if "sw_lifecycle sw' = spl_inactive"
    proof -
      from that standing have "sw_lifecycle sw = spl_inactive" by (simp add: standing_def)
      with ok(4) op_spawn(3) show ?thesis by (auto simp: spawn_def allocate_spawn_def queue_spawn_failure_def send_def)
    qed
    with step [OF eff numbers] next_spawn op_spawn(2) show ?thesis by simp
  next
    case (op_despawn inst did)
    note standing = standing_despawn [OF op_despawn(3)]
    from despawn_effect [OF op_despawn(3) ok(1) idle] have eff: "effect h new sw sw'" by (simp add: op_despawn(1))
    have did: "did = \<lparr>rq_generation = sw_generation sw, rq_value = sw_next_despawn sw\<rparr>"
      using op_despawn(3) by (simp add: despawn_def allocate_despawn_def)
    have "numbered_requests (issued @ new) sw'"
      unfolding op_despawn(1) did by (rule numbered_despawn [OF ok(3) despawns]) (use standing in \<open>simp_all add: standing_def\<close>)
    moreover have "sw_instances sw' = []" if "sw_lifecycle sw' = spl_inactive"
    proof -
      from that standing have "sw_instances sw = []" using ok(4) by (simp add: standing_def)
      with eff show ?thesis by (simp add: effect_def op_despawn(1))
    qed
    ultimately show ?thesis using step [OF eff] standing op_despawn(2) by (simp add: standing_def)
  next
    case (op_cancel rid)
    have "effect h [] sw sw'" "standing sw' = standing sw" by (simp_all add: op_cancel(3) cancel_effect)
    from same [OF this] op_cancel(1,2) show ?thesis by simp
  next
    case (op_spawned generation rid ticket error bindings declarations)
    have "effect h [] sw sw'" "standing sw' = standing sw" by (simp_all add: op_spawned(3) spawn_completed_effect [OF ok(1) idle])
    from same [OF this] op_spawned(1,2) show ?thesis by simp
  next
    case (op_despawned generation rid ticket)
    have "effect h [] sw sw'" "standing sw' = standing sw" by (simp_all add: op_despawned(3) despawn_completed_effect [OF ok(1) idle])
    from same [OF this] op_despawned(1,2) show ?thesis by simp
  next
    case (op_environment callbacks service next_ticket world)
    have "effect h [] sw sw'" by (rule effect_setting) (simp_all add: op_environment(3))
    with same [OF this] op_environment show ?thesis by (simp add: standing_def)
  qed
qed

lemma run_ok_elsewhere:
  assumes "run_ok h n expected inbox issued lost sw" and "sw_system sw = Some sys" and "system_call h sys promises events sys'"
  shows "run_ok h (Suc n) (expected @ promises) (inbox @ completions events) issued lost (sw\<lparr>sw_system := Some sys'\<rparr>)"
proof -
  from assms(1,2) obtain delivered where run: "system_run h n expected (delivered @ inbox) sys"
    and tracks: "tracked {} (inbox @ queued sys) (fst ` set expected) sw" by (auto simp: run_ok_def)
  let ?sw = "sw\<lparr>sw_system := Some sys'\<rparr>"
  from run_calls [OF run assms(3)] have "system_run h (Suc n) (expected @ promises) (delivered @ inbox @ completions events) sys'" by simp
  moreover have "tracked {} ((inbox @ completions events) @ queued sys') (fst ` set (expected @ promises)) ?sw"
  proof (rule tracked_same [OF tracks])
    show "set (inbox @ queued sys) \<subseteq> set ((inbox @ completions events) @ queued sys')"
      using arg_cong [OF call_owes [OF assms(3)], of set] by auto
  qed auto
  ultimately show ?thesis using assms(1)
    by (auto simp: run_ok_def instances_ok_def ledger_def due_def keys_below_def numbered_requests_def)
qed

lemma run_invariant:
  "spawner_run h n expected inbox issued lost sw \<Longrightarrow> n < 2 ^ 64 - 1 \<Longrightarrow> length issued < 2 ^ 63 \<Longrightarrow>
    run_ok h n expected inbox issued lost sw"
proof (induction rule: spawner_run.induct)
  case (run_begins entity config service next_ticket world)
  from run_ok_begins [OF this(1)] show ?case .
next
  case (run_operates n expected inbox issued lost sw new given_up sw' sys sys' m promises)
  then have "run_ok h n expected inbox issued lost sw" by simp
  from run_ok_operates [OF run_operates.hyps(2) this run_operates.hyps(3-5)] run_operates.prems show ?case by simp
next
  case (run_delivers n expected command entity type inbox issued lost sw sw' result sys sys' m promises)
  then have "run_ok h n expected ((command, entity, type) # inbox) issued lost sw" by simp
  from run_ok_delivers [OF this run_delivers.hyps(2-5) run_delivers.prems(1)] show ?case .
next
  case (run_elsewhere n expected inbox issued lost sw sys promises events sys')
  then have "run_ok h n expected inbox issued lost sw" by simp
  from run_ok_elsewhere [OF this run_elsewhere.hyps(2,3)] show ?case .
qed

end
