(* ===== verification/Spawner_Promises.thy ===== *)
theory Spawner_Promises
  imports Spawner_Runs
begin

section \<open>What a spawner promises\<close>

text \<open>
  The properties of \<open>ScenePolytreeSpawnerComponent.cpp\<close> over all runs of the previous theory, and a run with
  an instance to apply them to.
\<close>

subsection \<open>Properties\<close>

text \<open>C35. Every request is answered at most once, and none is forgotten. In every run the requests taken on are distinct,
and each is in exactly one place: answered by one notification, still owed by an instance, or given up by a
deactivation.\<close>

theorem requests_are_answered_at_most_once:
  fixes h :: "('x, 'v, 'q, 'f, 'cfg, 'inp, 'b, 't, 'm, 'z) host"
  assumes "spawner_run h n expected inbox issued lost sw" and "n < 2 ^ 64 - 1" and "length issued < 2 ^ 63"
  shows "distinct issued \<and> mset (answers (sw_sent sw)) + mset (due sw) + mset lost = mset issued"
  using run_invariant [OF assms] by (simp add: run_ok_def ledger_def numbered_requests_def)

text \<open>C36. No instance waits in vain. In every run an instance that is not active waits for the completion of a command that
is still queued in the system component, with the tick connected, or already sent to the spawner; or for the answer to a
request it has sent to the spawn service under the ticket it holds. No two instances wait for the same command.\<close>

theorem instances_wait_for_what_is_coming:
  fixes h :: "('x, 'v, 'q, 'f, 'cfg, 'inp, 'b, 't, 'm, 'z) host"
  assumes "spawner_run h n expected inbox issued lost sw" and "n < 2 ^ 64 - 1" and "length issued < 2 ^ 63"
    and "sw_system sw = Some sys" and "map_of (sw_instances sw) k = Some r"
  shows "(case awaited_type (ir_state r) of
      Some type \<Rightarrow> (ir_pending r, sw_entity sw, type) \<in> set (inbox @ queued sys) \<and> ir_pending_type r = type
    | None \<Rightarrow> ir_state r = is_active \<or>
        ir_state r = is_spawning \<and> (\<exists>t. ir_ticket r = Some t \<and>
          Spawn_all (sw_generation sw) (ir_spawn_request r) (tk_id t) (ir_callback r) \<in> set (sw_sent sw)) \<or>
        ir_state r = is_despawning_entities \<and> (\<exists>t. ir_ticket r = Some t \<and>
          Despawn_all (sw_generation sw) (ir_spawn_request r) (tk_id t) \<in> set (sw_sent sw))) \<and>
    (queued sys \<noteq> [] \<longrightarrow> sy_tick_connected sys) \<and>
    (\<forall>k' r'. k' \<noteq> k \<longrightarrow> map_of (sw_instances sw) k' = Some r' \<longrightarrow> awaited_type (ir_state r) \<noteq> None \<longrightarrow>
      ir_pending r' \<noteq> ir_pending r)"
proof -
  from run_invariant [OF assms(1-3)] assms(4) obtain delivered where run: "system_run h n expected (delivered @ inbox) sys"
    and tracks: "tracked {} (inbox @ queued sys) (fst ` set expected) sw" and entity: "sw_entity sw \<noteq> None" by (auto simp: run_ok_def)
  from tracked_parked [OF tracks assms(5)]
  have parked: "parked (sw_entity sw) (inbox @ queued sys) (sw_sent sw) (sw_generation sw) r" by simp
  have "queued sys \<noteq> [] \<longrightarrow> sy_tick_connected sys" using run_owes [OF run] by (auto simp: queued_def)
  moreover have "ir_pending r' \<noteq> ir_pending r"
    if other: "k' \<noteq> k" "map_of (sw_instances sw) k' = Some r'" and waits: "awaited_type (ir_state r) \<noteq> None" for k' r'
  proof -
    from parked waits entity obtain type where "(ir_pending r, sw_entity sw, type) \<in> set (inbox @ queued sys)" by (auto simp: parked_def)
    with inbox_distinct [OF run assms(2)] have "ir_pending r \<noteq> 0" by force
    with tracked_apart [OF tracks assms(5) other(2)] other(1) show ?thesis by auto
  qed
  moreover have "case awaited_type (ir_state r) of
      Some type \<Rightarrow> (ir_pending r, sw_entity sw, type) \<in> set (inbox @ queued sys) \<and> ir_pending_type r = type
    | None \<Rightarrow> ir_state r = is_active \<or>
        ir_state r = is_spawning \<and> (\<exists>t. ir_ticket r = Some t \<and>
          Spawn_all (sw_generation sw) (ir_spawn_request r) (tk_id t) (ir_callback r) \<in> set (sw_sent sw)) \<or>
        ir_state r = is_despawning_entities \<and> (\<exists>t. ir_ticket r = Some t \<and>
          Despawn_all (sw_generation sw) (ir_spawn_request r) (tk_id t) \<in> set (sw_sent sw))"
    using parked entity by (cases "ir_state r") (simp_all add: parked_def)
  ultimately show ?thesis by blast
qed

text \<open>The instance with this key has moved on in the order of its states, or is gone; the others are as they were.\<close>

definition moved_on :: "u64 \<Rightarrow> ('x, 'v, 'cfg, 'b) spawner \<Rightarrow> ('x, 'v, 'cfg, 'b) spawner \<Rightarrow> bool" where
  "moved_on k sw sw' \<longleftrightarrow>
     AList.delete k (sw_instances sw') = AList.delete k (sw_instances sw) \<and>
     (\<forall>r r'. map_of (sw_instances sw) k = Some r \<longrightarrow> map_of (sw_instances sw') k = Some r' \<longrightarrow>
        state_rank (ir_state r') < state_rank (ir_state r))"

lemma advanced_moves_on:
  assumes "advanced h rid keys limit sw sw'" and "map_of (sw_instances sw) (rq_value rid) = Some r"
    and "limit \<le> state_rank (ir_state r) - 1" and "state_rank (ir_state r) \<noteq> 0"
  shows "moved_on (rq_value rid) sw sw'"
  using assms unfolding moved_on_def advanced_def outcome_def by fastforce

text \<open>C37. What an instance waits for takes it on, so a spawn and a despawn come to an end. When the completion of the
pending command is delivered, or the spawn service answers under the ticket of the instance, the instance is gone or in a
strictly later state, whatever the result is, and all other instances are untouched.\<close>

theorem answers_move_instances_on:
  fixes h :: "('x, 'v, 'q, 'f, 'cfg, 'inp, 'b, 't, 'm, 'z) host"
  assumes "spawner_run h n expected inbox issued lost sw" and "n < 2 ^ 64 - 1" and "length issued < 2 ^ 63"
    and "map_of (sw_instances sw) k = Some r" and "rid = \<lparr>rq_generation = sw_generation sw, rq_value = k\<rparr>"
  shows "(awaited_type (ir_state r) = Some type \<longrightarrow> moved_on k sw (on_command_completed h (ir_pending r) type result sw)) \<and>
    (ir_state r = is_spawning \<and> ir_ticket r = Some t \<longrightarrow>
      moved_on k sw (on_spawn_completed h (sw_generation sw) rid (tk_id t) error bindings declarations sw)) \<and>
    (ir_state r = is_despawning_entities \<and> ir_ticket r = Some t \<longrightarrow>
      moved_on k sw (on_despawn_completed h (sw_generation sw) rid (tk_id t) sw))"
proof -
  from run_invariant [OF assms(1-3)] obtain sys delivered where run: "system_run h n expected (delivered @ inbox) sys"
    and tracks: "tracked {} (inbox @ queued sys) (fst ` set expected) sw" and entity: "sw_entity sw \<noteq> None"
    and ok: "instances_ok sw" by (auto simp: run_ok_def)
  note found = instances_okD [OF ok assms(4)]
  have request: "find_request rid sw = Some r" "ir_spawn_request r = rid" "rq_value rid = k"
    using found by (simp_all add: assms(5))
  have mine: "map_of (sw_instances sw) (rq_value rid) = Some r" using assms(4) request(3) by simp
  note idle = tracked_idle [OF tracks]
  have "moved_on k sw (on_command_completed h (ir_pending r) type result sw)" if waits: "awaited_type (ir_state r) = Some type"
  proof -
    from tracked_parked [OF tracks assms(4)] waits entity
    have "ir_pending_type r = type" "(ir_pending r, sw_entity sw, type) \<in> set (inbox @ queued sys)" by (simp_all add: parked_def)
    with inbox_distinct [OF run assms(2)] have nonzero: "ir_pending r \<noteq> 0" by force
    from find_command_None [OF _ assms(4)] obtain r' where r': "find_command (ir_pending r) sw = Some r'"
      by (cases "find_command (ir_pending r) sw") auto
    from find_command_Some [OF r' ok] obtain k' where k': "map_of (sw_instances sw) k' = Some r'" "ir_pending r' = ir_pending r" .
    with tracked_apart [OF tracks assms(4) k'(1)] nonzero have "k' = k" by auto
    with k'(1) assms(4) r' have "find_command (ir_pending r) sw = Some r" by simp
    from command_advances [OF ok assms(4) this waits \<open>ir_pending_type r = type\<close>, of h result]
    have "advanced h rid (due_by r) (state_rank (ir_state r) - 1) sw (on_command_completed h (ir_pending r) type result sw)"
      by (simp add: request(2))
    moreover have "state_rank (ir_state r) \<noteq> 0" by (cases "ir_state r") simp_all
    ultimately show ?thesis using advanced_moves_on [OF _ mine] request(3) by blast
  qed
  moreover have "moved_on k sw (on_spawn_completed h (sw_generation sw) rid (tk_id t) error bindings declarations sw)"
    if waits: "ir_state r = is_spawning" "ir_ticket r = Some t"
    using advanced_moves_on [OF spawn_completed_advances [OF ok idle request(1) waits(1), where h = h] mine] waits request(3)
    by (simp add: has_ticket_def)
  moreover have "moved_on k sw (on_despawn_completed h (sw_generation sw) rid (tk_id t) sw)"
    if waits: "ir_state r = is_despawning_entities" "ir_ticket r = Some t"
    using advanced_moves_on [OF despawn_completed_advances [OF ok idle request(1) waits(1), where h = h] mine] waits request(3)
    by (simp add: has_ticket_def)
  ultimately show ?thesis by blast
qed

subsection \<open>A run with an instance\<close>

text \<open>Entity 9 has a spawner for the prefab of the level component's demo, with two instances at most, in scene 1.\<close>

definition demo_spawner_handle :: spawner_handle where
  "demo_spawner_handle = \<lparr>ph_scene = 1, ph_partition = 7, ph_generation = 1\<rparr>"

definition demo_ready_scene :: "(int, int, unit, unit) system_component" where
  "demo_ready_scene = snd (on_tick demo_host 16 [1] demo_created)"

definition demo_slots_free :: "(int, int, unit) scene_instance \<Rightarrow> bool" where
  "demo_slots_free si \<longleftrightarrow>
     (\<exists>a b. si_partitions si = [\<lparr>rp_partition = 7, rp_slots = [a, b]\<rparr>] \<and> \<not> rs_reserved a \<and> rs_generation a = 1)"

lemma demo_ready_scene:
  "\<exists>si. sy_scenes demo_ready_scene = [(1, \<lparr>se_instance = Some si, se_life = sl_alive\<rparr>)] \<and> demo_slots_free si"
  "completions (fst (on_tick demo_host 16 [1] demo_created)) = []" "queued demo_ready_scene = []"
  "sy_next_command demo_ready_scene = 1" "sy_collection_closed demo_ready_scene = False"
  "sy_registrations demo_ready_scene = []" "sy_next_registration demo_ready_scene = 1"
  "set [1] = fst ` set (sy_scenes (snd (drain_commands demo_host demo_created)))"
proof -
  obtain si :: "(int, int, unit) scene_instance" where si: "create_scene int_math table_library demo_descriptor = Some si"
    using demo_descriptor_creates by blast
  have "\<forall>p \<in> set (sd_partitions demo_descriptor). distinct (map nd_binding_id (pd_nodes p))" by (simp add: demo_descriptor_def)
  from created_scene_matches [OF table_library_ok si this]
  have "list_all2 (partition_matches (si_topology si) (si_state si)) (sd_partitions demo_descriptor) (si_partitions si)" by simp
  then obtain p where p: "si_partitions si = [p]"
    "partition_matches (si_topology si) (si_state si) (hd (sd_partitions demo_descriptor)) p"
    by (auto simp: demo_descriptor_def list_all2_Cons1)
  then have slots: "rp_partition p = 7" "length (rp_slots p) = 2" "\<forall>s \<in> set (rp_slots p). \<not> rs_reserved s \<and> rs_generation s = 1"
    by (auto simp: partition_matches_def slot_matches_def demo_descriptor_def)
  then obtain a b where "rp_slots p = [a, b]" by (auto simp: length_Suc_conv numeral_2_eq_2)
  with slots(1) have "p = \<lparr>rp_partition = 7, rp_slots = [a, b]\<rparr>" by (cases p) simp
  with p slots have free: "demo_slots_free (si\<lparr>si_last_synchronized_count := 0\<rparr>)"
    by (auto simp: demo_slots_free_def)
  let ?drained = "demo_created\<lparr>sy_commands := [], sy_scenes := [(1, \<lparr>se_instance = Some si, se_life = sl_alive\<rparr>)]\<rparr>"
  have drained: "drain_commands demo_host demo_created = ([Scene_ready 1], ?drained)"
    by (simp add: drain_commands_def demo_created_fields process_next_def process_create_def si demo_host_def)
  then show "set [1] = fst ` set (sy_scenes (snd (drain_commands demo_host demo_created)))" by simp
  have created: "sy_collection_closed demo_created = False" "sy_registrations demo_created = []" "sy_next_registration demo_created = 1"
    by (simp_all add: demo_created_def request_create_scene_def demo_descriptor_def new_system_def Let_def)
  have idle: "advance (h_math demo_host) (h_methods demo_host) 16 si = ([], si\<lparr>si_last_synchronized_count := 0\<rparr>)"
    using created_scene_idle [OF si] by (simp add: advance_def Let_def)
  have tick: "on_tick demo_host 16 [1] demo_created = ([Scene_ready 1], refresh_tick demo_host (set_instance 1 (si\<lparr>si_last_synchronized_count := 0\<rparr>) ?drained))"
    by (simp add: on_tick_def drained advance_scene_def find_scene_def idle)
  show "completions (fst (on_tick demo_host 16 [1] demo_created)) = []" by (simp add: tick completions_def)
  show "queued demo_ready_scene = []" "sy_next_command demo_ready_scene = 1" "sy_collection_closed demo_ready_scene = False"
    "sy_registrations demo_ready_scene = []" "sy_next_registration demo_ready_scene = 1"
    by (simp_all add: demo_ready_scene_def tick queued_def demo_created_fields created)
  show "\<exists>si. sy_scenes demo_ready_scene = [(1, \<lparr>se_instance = Some si, se_life = sl_alive\<rparr>)] \<and> demo_slots_free si"
    using free by (auto simp: demo_ready_scene_def tick set_instance_def)
qed

lemma demo_reserves:
  assumes "demo_slots_free si"
  shows "fst (reserve_slot demo_spawner_handle si) =
    \<lparr>sr_code = rc_success, sr_handle = \<lparr>sh_spawner = demo_spawner_handle, sh_slot = 0, sh_generation = 1\<rparr>\<rparr>"
proof -
  obtain a b where ab: "si_partitions si = [\<lparr>rp_partition = 7, rp_slots = [a, b]\<rparr>]" "\<not> rs_reserved a" "rs_generation a = 1"
    using assms by (auto simp: demo_slots_free_def)
  have "find_partition (si_partitions si) demo_spawner_handle = Some 0"
    by (simp add: ab(1) find_partition_def demo_spawner_handle_def spawner_valid_def)
  with ab show ?thesis by (simp add: reserve_slot_def reserve_in_def slot_of_def split: prod.split)
qed

definition demo_spawner_config :: spawner_config where
  "demo_spawner_config =
     \<lparr>spc_scene_entity = None, spc_prefab = (3, 0), spc_capacity = 2, spc_default_placement = Some dp_spawner_world_transform,
      spc_trigger_mode = Some tm_external_requests_only, spc_initial_spawn_count = 0\<rparr>"

definition demo_request :: "int spawn_request" where
  "demo_request = \<lparr>sq_context = \<lparr>rx_entity = Some 4, rx_correlation = 6\<rparr>, sq_explicit = True, sq_world = 5\<rparr>"

definition demo_activated :: "(int, int, unit, unit) spawner" where
  "demo_activated =
     spawner_activate (new_spawner (Some 9) demo_spawner_config (Some demo_ready_scene) True \<lparr>tk_id = 3, tk_valid = True\<rparr> 0)"

definition demo_ready_spawner :: "(int, int, unit, unit) spawner" where
  "demo_ready_spawner =
     on_registration_ready demo_host (demo_assets (3, 0)) None 1 demo_spawner_handle demo_activated"

definition demo_spawned :: "(int, int, unit, unit) spawner" where
  "demo_spawned = snd (spawn demo_host demo_request demo_ready_spawner)"

lemma demo_ready_spawner:
  "\<exists>sys. sw_system demo_ready_spawner = Some sys \<and> sy_scenes sys = sy_scenes demo_ready_scene \<and> queued sys = [] \<and> sy_next_command sys = 1 \<and>
     system_call demo_host demo_ready_scene [] [] sys"
  "sw_instances demo_ready_spawner = []" "sw_lifecycle demo_ready_spawner = spl_ready" "sw_generation demo_ready_spawner = 1"
  "sw_next_spawn demo_ready_spawner = 1" "sw_spawner demo_ready_spawner = demo_spawner_handle" "sw_entity demo_ready_spawner = Some 9"
  "sw_config demo_ready_spawner = demo_spawner_config" "sw_system demo_activated = sw_system demo_ready_spawner"
  "sw_next_spawn demo_activated = 1"
proof -
  note fields = demo_ready_scene(3-7)
  obtain sys where r: "register_prefab (Some 9) None
      \<lparr>prd_prefab = (3, 0), prd_capacity = 2, prd_key = ''ScenePolytreeSpawner''\<rparr> demo_ready_scene =
      (\<lparr>re_code = rc_success, re_token = 1\<rparr>, sys)"
    by (simp add: register_prefab_def fields Let_def)
  then have sys: "sy_scenes sys = sy_scenes demo_ready_scene" "queued sys = []" "sy_next_command sys = 1"
    using demo_ready_scene(3) by (auto simp: register_prefab_def fields Let_def queued_def)
  let ?sw0 = "new_spawner (Some 9) demo_spawner_config (Some demo_ready_scene) True \<lparr>tk_id = 3, tk_valid = True\<rparr> 0
    :: (int, int, unit, unit) spawner"
  let ?sw1 = "?sw0\<lparr>sw_generation := 1, sw_lifecycle := spl_registering, sw_system := Some sys, sw_registration := 1\<rparr>"
  have activated: "demo_activated = ?sw1"
    using r by (simp add: demo_activated_def spawner_activate_def new_spawner_def Let_def demo_spawner_config_def next_generation_def valid_trigger_mode_def)
  obtain entities where entities: "demo_assets (3, 0) = Some entities" by (simp add: demo_assets_def)
  have "az_is_finite (h_math demo_host) = az_is_finite int_math" by (simp add: demo_host_def)
  with demo_extracted entities have topology: "topology_succeeds (extract_entity_hierarchy (az_is_finite (h_math demo_host)) entities)"
    by (simp add: topology_succeeds_def no_failure_def)
  have ready: "demo_ready_spawner = send [Spawner_ready demo_spawner_handle]
      (?sw1\<lparr>sw_spawner := demo_spawner_handle, sw_topology := ptr_nodes (extract_entity_hierarchy (az_is_finite (h_math demo_host)) entities),
        sw_lifecycle := spl_ready\<rparr>)"
    unfolding demo_ready_spawner_def activated using topology entities
    by (simp add: on_registration_ready_def new_spawner_def spawner_valid_def demo_spawner_handle_def
        prefab_reference_def demo_spawner_config_def Let_def begin_initial_spawns_def send_def)
  show "\<exists>sys. sw_system demo_ready_spawner = Some sys \<and> sy_scenes sys = sy_scenes demo_ready_scene \<and> queued sys = [] \<and> sy_next_command sys = 1 \<and>
     system_call demo_host demo_ready_scene [] [] sys"
    using sys call_register_prefab [OF r, of demo_host] by (simp add: ready send_def)
  show "sw_instances demo_ready_spawner = []" "sw_lifecycle demo_ready_spawner = spl_ready" "sw_generation demo_ready_spawner = 1"
    "sw_next_spawn demo_ready_spawner = 1" "sw_spawner demo_ready_spawner = demo_spawner_handle" "sw_entity demo_ready_spawner = Some 9"
    "sw_config demo_ready_spawner = demo_spawner_config" "sw_system demo_activated = sw_system demo_ready_spawner"
    "sw_next_spawn demo_activated = 1"
    by (simp_all add: ready activated send_def new_spawner_def)
qed


lemma demo_spawned:
  "\<exists>sys sys'. sw_system demo_ready_spawner = Some sys \<and> sw_system demo_spawned = Some sys' \<and>
     system_calls demo_host 2 [(1, Some 9, sct_reset_slot)] sys sys'"
  "\<exists>r. map_of (sw_instances demo_spawned) 1 = Some r \<and> ir_state r = is_resetting \<and> ir_pending r = 1 \<and>
     ir_spawn_request r = \<lparr>rq_generation = 1, rq_value = 1\<rparr> \<and> sw_instances demo_spawned = [(1, r)]"
  "spawn demo_host demo_request demo_ready_spawner = (\<lparr>rq_generation = 1, rq_value = 1\<rparr>, demo_spawned)"
  "sw_generation demo_spawned = 1" "sw_entity demo_spawned = Some 9" "sw_lifecycle demo_spawned = spl_ready"
proof -
  note ready = demo_ready_spawner
  from ready(1) obtain sys where sys: "sw_system demo_ready_spawner = Some sys" "sy_scenes sys = sy_scenes demo_ready_scene"
      "queued sys = []" "sy_next_command sys = 1" by blast
  from demo_ready_scene(1) sys(2) obtain si where si: "sy_scenes sys = [(1, \<lparr>se_instance = Some si, se_life = sl_alive\<rparr>)]" "demo_slots_free si"
    by auto
  let ?slot = "\<lparr>sh_spawner = demo_spawner_handle, sh_slot = 0, sh_generation = 1\<rparr>"
  let ?reserved = "\<lparr>sr_code = rc_success, sr_handle = ?slot\<rparr>"
  obtain si' where reserve: "reserve_slot demo_spawner_handle si = (?reserved, si')"
    using demo_reserves [OF si(2)] by (cases "reserve_slot demo_spawner_handle si") simp
  let ?sys1 = "set_instance 1 si' sys"
  have scene: "ph_scene demo_spawner_handle = 1" by (simp add: demo_spawner_handle_def)
  have reserved: "system_reserve_slot demo_spawner_handle sys = (?reserved, ?sys1)"
    by (simp add: system_reserve_slot_def scene find_scene_def si(1) reserve)
  have valid: "slot_succeeds ?reserved" by (simp add: slot_succeeds_def slot_valid_def spawner_valid_def demo_spawner_handle_def)
  have accepts: "accepts_commands ?sys1 1" by (simp add: accepts_commands_def set_instance_def si(1))
  obtain sys2 where reset: "submit_reset_slot demo_host ?slot (Some 9) ?sys1 = (\<lparr>scs_code = rc_success, scs_command = 1\<rparr>, sys2)"
    by (simp add: submit_reset_slot_def scene accepts submit_def sys(4) Let_def)
  let ?rid = "\<lparr>rq_generation = 1, rq_value = 1\<rparr> :: request_id"
  let ?r = "(new_record ?rid demo_request \<lparr>ih_slot = ?slot, ih_spawner_generation = 1\<rparr> 5 (length (sw_callbacks demo_ready_spawner)))
    \<lparr>ir_state := is_resetting, ir_pending := 1, ir_pending_type := sct_reset_slot\<rparr>"
  have spawned: "spawn demo_host demo_request demo_ready_spawner =
      (?rid, demo_ready_spawner\<lparr>sw_next_spawn := 2, sw_instances := [(1, ?r)],
        sw_callbacks := sw_callbacks demo_ready_spawner @ [new_callback_state (sw_topology demo_ready_spawner) 5], sw_system := Some sys2\<rparr>)"
    using reset valid
    by (simp add: spawn_def allocate_spawn_def ready begin_spawn_def demo_request_def placement_of_def demo_host_def int_math_def
      sys(1) reserved spawner_submit_reset_def find_request_def submission_accepted_def wait_for_def change_record_def
      demo_spawner_config_def Let_def new_record_def)
  then have fields: "demo_spawned = demo_ready_spawner\<lparr>sw_next_spawn := 2, sw_instances := [(1, ?r)],
      sw_callbacks := sw_callbacks demo_ready_spawner @ [new_callback_state (sw_topology demo_ready_spawner) 5], sw_system := Some sys2\<rparr>"
    by (simp add: demo_spawned_def)
  have "promised \<lparr>scs_code = rc_success, scs_command = 1\<rparr> (Some 9) sct_reset_slot = [(1, Some 9, sct_reset_slot)]"
    by (simp add: promised_def submission_accepted_def owed_def)
  with more_calls [OF one_call [OF call_reserve [OF reserved]] call_reset [OF reset]]
  have "system_calls demo_host 2 [(1, Some 9, sct_reset_slot)] sys sys2" by (simp add: numeral_2_eq_2)
  with sys(1) show "\<exists>sys sys'. sw_system demo_ready_spawner = Some sys \<and> sw_system demo_spawned = Some sys' \<and>
     system_calls demo_host 2 [(1, Some 9, sct_reset_slot)] sys sys'" by (simp add: fields)
  show "spawn demo_host demo_request demo_ready_spawner = (?rid, demo_spawned)" using spawned by (simp add: fields)
  show "sw_generation demo_spawned = 1" "sw_entity demo_spawned = Some 9" "sw_lifecycle demo_spawned = spl_ready"
    by (simp_all add: fields ready)
  show "\<exists>r. map_of (sw_instances demo_spawned) 1 = Some r \<and> ir_state r = is_resetting \<and> ir_pending r = 1 \<and>
     ir_spawn_request r = \<lparr>rq_generation = 1, rq_value = 1\<rparr> \<and> sw_instances demo_spawned = [(1, r)]"
    by (simp add: fields new_record_def)
qed

text \<open>The run: the scene is created, the spawner registers and becomes ready, one spawn is requested.\<close>

lemma demo_spawner_run:
  "spawner_run demo_host 5 [(1, Some 9, sct_reset_slot)] [] [Spawn_answer \<lparr>rq_generation = 1, rq_value = 1\<rparr>] [] demo_spawned"
proof -
  let ?new = "\<lambda>sys. new_spawner (Some 9) demo_spawner_config (Some sys) True \<lparr>tk_id = 3, tk_valid = True\<rparr> 0
    :: (int, int, unit, unit) spawner"
  have start: "spawner_run demo_host 0 [] [] [] [] (?new new_system)" by (rule run_begins) simp
  have "request_create_scene demo_host demo_descriptor new_system =
      (fst (request_create_scene demo_host demo_descriptor new_system), demo_created)" by (simp add: demo_created_def)
  from run_elsewhere [OF start _ call_create [OF this]] have created: "spawner_run demo_host 1 [] [] [] [] (?new demo_created)"
    by (simp add: new_spawner_def)
  have "on_tick demo_host 16 [1] demo_created = (fst (on_tick demo_host 16 [1] demo_created), demo_ready_scene)"
    by (simp add: demo_ready_scene_def)
  from run_elsewhere [OF created _ call_tick [OF this _ demo_ready_scene(8)]] demo_ready_scene(2)
  have settled: "spawner_run demo_host 2 [] [] [] [] (?new demo_ready_scene)" by (simp add: new_spawner_def numeral_2_eq_2)
  have spawned: "spawner_run demo_host (3 + 2) ([] @ [(1, Some 9, sct_reset_slot)]) [] ([] @ [Spawn_answer \<lparr>rq_generation = 1, rq_value = 1\<rparr>])
      ([] @ []) demo_spawned" if "spawner_run demo_host 3 [] [] [] [] demo_ready_spawner"
    using demo_spawned(1) run_operates [OF that op_spawn [OF demo_spawned(3)]] by blast
  from demo_ready_spawner(1) obtain sys where sys: "sw_system demo_ready_spawner = Some sys"
    "system_call demo_host demo_ready_scene [] [] sys" by blast
  have "spawner_op demo_host (?new demo_ready_scene) [] [] demo_activated"
    unfolding demo_activated_def by (rule op_activate) (simp add: new_spawner_def)
  from run_operates [OF settled this _ _ one_call [OF sys(2)]] sys(1)
  have activated: "spawner_run demo_host 3 [] [] [] [] demo_activated"
    by (simp add: demo_ready_spawner(9) new_spawner_def)
  have "spawner_op demo_host demo_activated [] [] demo_ready_spawner"
    using op_ready [OF demo_ready_spawner_def] by (simp add: demo_ready_spawner(5,10) spawn_ids_def)
  from run_operates [OF activated this _ sys(1) no_calls] sys(1)
  have "spawner_run demo_host 3 [] [] [] [] demo_ready_spawner" by (simp add: demo_ready_spawner(9))
  with spawned show ?thesis by simp
qed


theorem requests_are_answered_at_most_once_witness:
  "mset (answers (sw_sent demo_spawned)) + mset (due demo_spawned) = {#Spawn_answer \<lparr>rq_generation = 1, rq_value = 1\<rparr>#} \<and>
    due demo_spawned = [Spawn_answer \<lparr>rq_generation = 1, rq_value = 1\<rparr>]"
proof -
  have n: "(5::nat) < 2 ^ 64 - 1" by simp
  from demo_spawned(2) obtain r where r: "sw_instances demo_spawned = [(1, r)]" "ir_state r = is_resetting"
    "ir_spawn_request r = \<lparr>rq_generation = 1, rq_value = 1\<rparr>" by blast
  then have "due demo_spawned = [Spawn_answer \<lparr>rq_generation = 1, rq_value = 1\<rparr>]" by (simp add: due_def due_by_def)
  with requests_are_answered_at_most_once [OF demo_spawner_run n] show ?thesis by simp
qed

theorem instances_wait_for_what_is_coming_witness:
  "\<exists>r sys. map_of (sw_instances demo_spawned) 1 = Some r \<and> sw_system demo_spawned = Some sys \<and> ir_state r = is_resetting \<and>
     (1, Some 9, sct_reset_slot) \<in> set (queued sys)"
proof -
  have n: "(5::nat) < 2 ^ 64 - 1" by simp
  from demo_spawned(1) obtain sys where sys: "sw_system demo_spawned = Some sys" by blast
  from demo_spawned(2) obtain r where r: "map_of (sw_instances demo_spawned) 1 = Some r" "ir_state r = is_resetting" "ir_pending r = 1"
    by blast
  from instances_wait_for_what_is_coming [OF demo_spawner_run n _ sys r(1)] r sys show ?thesis
    by (simp add: demo_spawned(5))
qed

theorem answers_move_instances_on_witness:
  "moved_on 1 demo_spawned (on_command_completed demo_host 1 sct_reset_slot rc_success demo_spawned) \<and>
    map_of (sw_instances demo_spawned) 1 \<noteq> None"
proof -
  have n: "(5::nat) < 2 ^ 64 - 1" by simp
  from demo_spawned(2) obtain r where r: "map_of (sw_instances demo_spawned) 1 = Some r" "ir_state r = is_resetting" "ir_pending r = 1"
    by blast
  from answers_move_instances_on [OF demo_spawner_run n _ r(1) refl, of sct_reset_slot rc_success] r show ?thesis by simp
qed

end
