(* ===== verification/Spawner_Deactivation.thy ===== *)
theory Spawner_Deactivation
  imports Spawner
begin

section \<open>Deactivating a spawner while its controllers are being attached\<close>

text \<open>
  \<open>Deactivate\<close> detaches the controllers of an instance before it gives its slot back, but only when the
  record says that they are attached. While the command that attaches them is still in the queue it does
  not: the slot commands are queued behind the attachment, and each of them is refused because the slot
  has controllers by then. The record is gone, so nobody asks again.
\<close>

subsection \<open>A slot with controllers\<close>

lemma slot_commands_refused:
  assumes "has_controllers slot (si_controllers si)"
  shows "snd (unbind_slot m slot si) = si" "snd (reset_slot m slot si) = si" "snd (release_slot m slot si) = si"
  using assms by (simp_all add: unbind_slot_def reset_slot_def release_slot_def split: option.split)

lemma end_commands_partitions [simp]: "si_partitions (end_commands m ok si) = si_partitions si"
  by (subst end_commands_same) simp

lemma attach_keeps_partitions:
  assumes ready: "attach_ready si" and room: "attach_room declarations si" and some: "declarations \<noteq> []"
    and a: "attach_controllers m bm inst declarations resolver si = (rc_success, si')"
  shows "si_partitions si' = si_partitions si"
proof -
  let ?ds = "sort_declarations declarations"
  obtain f pending pcs s1
    where p: "prepare_controllers si inst f ?ds [0..<length ?ds] (replicate (length (si_write_owners si)) 0, []) = Inr (pending, pcs)"
      and c: "create_controllers m bm inst ?ds pcs (begin_commands si) = (rc_success, s1)"
      and si': "si' = (end_commands m True s1)\<lparr>si_batches := sort_key be_type_id (si_batches (end_commands m True s1))\<rparr>"
    by (rule attach_shape [OF some a])
  have "attach_room ?ds si" using room by (simp add: attach_room_sort)
  note prep = prepared_allocatable [OF ready this p]
  have "sink_open (begin_commands si)" using ready by (intro begin_open) (simp_all add: attach_ready_def)
  then have "core s1 = core (begin_commands si)" using create_controllers_spec [OF _ prep(3) c] by blast
  then have "core s1 = core si" by simp
  then have "si_partitions s1 = si_partitions si" by (rule core_fields(3))
  then show ?thesis by (simp add: si')
qed

lemma attach_leaves_controllers:
  assumes "attach_ready si" and "attach_room declarations si" and some: "declarations \<noteq> []"
    and "attach_controllers m bm inst declarations resolver si = (rc_success, si')"
  shows "owns_controllers inst (si_controllers si')"
proof -
  obtain rs where rs: "si_controllers si' = si_controllers si @ rs"
    "list_all2 (\<lambda>d r. new_controller inst d r \<and> list_all2 (reference_granted si inst si') (cd_targets d) (cn_targets r))
      (sort_declarations declarations) rs"
    using attach_success [OF assms] by blast
  have "length (sort_declarations declarations) \<noteq> 0" using some by simp
  then obtain d ds where ds: "sort_declarations declarations = d # ds" by (cases "sort_declarations declarations") simp_all
  then obtain r rs' where "rs = r # rs'" "new_controller inst d r" using rs(2) by (auto simp: list_all2_Cons1)
  then show ?thesis by (auto simp: rs(1) owns_controllers_def new_controller_def)
qed

lemma owned_slot_has_controllers: "owns_controllers inst cs \<Longrightarrow> has_controllers (ih_slot inst) cs"
  by (auto simp: owns_controllers_def has_controllers_def)

lemma attached_instance_valid:
  "attach_controllers m bm inst declarations resolver si = (rc_success, si') \<Longrightarrow> instance_valid inst"
  by (auto simp: attach_controllers_def split: if_splits)

subsection \<open>The queue\<close>

lemma find_scene_set_instance:
  "find_scene sys scene = Some si \<Longrightarrow> find_scene (set_instance scene si' sys) scene = Some si'"
  by (auto simp: find_scene_def map_of_set_instance split: option.splits if_splits)

lemma process_on_keeps:
  assumes "find_scene sys scene = Some si" and "snd (f si) = si'"
  shows "find_scene (snd (process_on scene f command entity type sys)) scene = Some si'"
  using assms find_scene_set_instance [OF assms(1)] by (auto simp: process_on_def split: prod.split)

lemma accepts_found: "scene \<noteq> 0 \<Longrightarrow> find_scene sys scene = Some si \<Longrightarrow> accepts_commands sys scene"
  by (auto simp: accepts_commands_def find_scene_def split: option.splits if_splits)

lemma snd_process_next: "snd (process_next h c (events, sys)) = snd (process h c sys)"
  by (simp add: process_next_def split: prod.split)

lemma enqueue_factories [simp]: "sy_factories (enqueue h c sys) = sy_factories sys"
  by (simp add: enqueue_def refresh_tick_def)

text \<open>What retiring an instance whose controllers are not attached leaves in the queue.\<close>

lemma retire_slot_queue:
  assumes "\<not> ir_attached r" and "slot = ih_slot (ir_instance r)" and "accepts_commands sys (ph_scene (sh_spawner slot))"
  shows "\<exists>a b c. sy_commands (retire_slot h r sys) =
      sy_commands sys @ [Unbind_slot_command slot a None, Reset_slot_command slot b None, Release_slot_command slot c None] \<and>
    sy_scenes (retire_slot h r sys) = sy_scenes sys \<and> sy_factories (retire_slot h r sys) = sy_factories sys"
  using assms
  by (simp add: retire_slot_def system_unbind_slot_def system_reset_slot_def system_release_slot_def submit_unbind_slot_def
      submit_reset_slot_def submit_release_slot_def submit_def accepts_commands_def apsnd_def map_prod_def Let_def split: prod.split)

subsection \<open>The defect\<close>

lemma queue_keeps_controllers:
  fixes sys :: "('x, 'v, 'cfg, 'b) system_component" and h :: "('x, 'v, 'q, 'f, 'cfg, 'inp, 'b, 't, 'm, 'z) host"
  assumes queue: "sy_commands sys = [Attach_controllers_command inst declarations command completion,
      Unbind_slot_command (ih_slot inst) a None, Reset_slot_command (ih_slot inst) b None, Release_slot_command (ih_slot inst) c None]"
    and scene: "scene = ph_scene (sh_spawner (ih_slot inst))" and found: "find_scene sys scene = Some si"
    and attach: "snd (attach_controllers (h_math h) (h_methods h) inst declarations (Some (resolve_factory sys)) si) = si'"
    and owned: "has_controllers (ih_slot inst) (si_controllers si')"
  shows "find_scene (snd (drain_commands h sys)) scene = Some si'"
proof -
  let ?sys0 = "sys\<lparr>sy_commands := []\<rparr>"
  have found0: "find_scene ?sys0 scene = Some si" using found by (simp add: find_scene_def)
  have resolver: "resolve_factory ?sys0 = resolve_factory sys" by (simp add: resolve_factory_def fun_eq_iff)
  define sys1 where "sys1 = snd (process h (Attach_controllers_command inst declarations command completion) ?sys0)"
  define sys2 where "sys2 = snd (process h (Unbind_slot_command (ih_slot inst) a None) sys1)"
  define sys3 where "sys3 = snd (process h (Reset_slot_command (ih_slot inst) b None) sys2)"
  have 1: "find_scene sys1 scene = Some si'"
    unfolding sys1_def process.simps scene [symmetric] using attach by (intro process_on_keeps [OF found0]) (simp add: resolver)
  have 2: "find_scene sys2 scene = Some si'"
    unfolding sys2_def process.simps scene [symmetric] by (intro process_on_keeps [OF 1] slot_commands_refused owned)
  have 3: "find_scene sys3 scene = Some si'"
    unfolding sys3_def process.simps scene [symmetric] by (intro process_on_keeps [OF 2] slot_commands_refused owned)
  have 4: "find_scene (snd (process h (Release_slot_command (ih_slot inst) c None) sys3)) scene = Some si'"
    unfolding process.simps scene [symmetric] by (intro process_on_keeps [OF 3] slot_commands_refused owned)
  have next_step: "snd (process_next h x acc) = snd (process h x (snd acc))" for x acc
    using snd_process_next [of h x "fst acc" "snd acc"] by simp
  have "snd (drain_commands h sys) = snd (process h (Release_slot_command (ih_slot inst) c None) sys3)"
    by (simp only: drain_commands_def queue fold_simps comp_apply id_apply next_step snd_conv sys1_def sys2_def sys3_def)
  with 4 show ?thesis by simp
qed

text \<open>C38. Deactivating a spawner before the command that attaches the controllers of its instance has run keeps
the slot: after the next drain the controllers of the instance are in the scene, no slot was given back, and
the spawner has forgotten the instance. The flag that guards the immediate detachment is only set when that
command completes, and the three slot commands that follow it in the queue are refused because of the
controllers it attached.\<close>

theorem deactivation_during_attach_keeps_the_slot:
  fixes sys :: "('x, 'v, 'cfg, 'b) system_component" and h :: "('x, 'v, 'q, 'f, 'cfg, 'inp, 'b, 't, 'm, 'z) host"
  assumes active: "sw_lifecycle sw \<noteq> spl_inactive" and instances: "sw_instances sw = [(key, r)]"
    and unattached: "\<not> ir_attached r" and system: "sw_system sw = Some sys"
    and queue: "sy_commands sys = [Attach_controllers_command (ir_instance r) declarations command completion]"
    and found: "find_scene sys (ph_scene (sh_spawner (ih_slot (ir_instance r)))) = Some si"
    and ready: "attach_ready si" and room: "attach_room declarations si" and some: "declarations \<noteq> []"
    and attach: "attach_controllers (h_math h) (h_methods h) (ir_instance r) declarations (Some (resolve_factory sys)) si =
      (rc_success, si')"
  shows "\<exists>sys'. sw_system (spawner_deactivate h [key] sw) = Some sys' \<and>
    find_scene (snd (drain_commands h sys')) (ph_scene (sh_spawner (ih_slot (ir_instance r)))) = Some si' \<and>
    owns_controllers (ir_instance r) (si_controllers si') \<and> si_partitions si' = si_partitions si \<and>
    sw_instances (spawner_deactivate h [key] sw) = []"
proof -
  let ?slot = "ih_slot (ir_instance r)"
  let ?scene = "ph_scene (sh_spawner ?slot)"
  have "instance_valid (ir_instance r)" using attached_instance_valid [OF attach] .
  then have "?scene \<noteq> 0" by (simp add: instance_valid_def slot_valid_def spawner_valid_def)
  then have "accepts_commands sys ?scene" using found by (rule accepts_found)
  from retire_slot_queue [OF unattached refl this, of h] obtain a b c where retired:
    "sy_commands (retire_slot h r sys) = sy_commands sys @
       [Unbind_slot_command ?slot a None, Reset_slot_command ?slot b None, Release_slot_command ?slot c None]"
    "sy_scenes (retire_slot h r sys) = sy_scenes sys" "sy_factories (retire_slot h r sys) = sy_factories sys" by blast
  let ?sys' = "unregister_prefab (sw_registration sw) (retire_slot h r sys)"
  have owned: "owns_controllers (ir_instance r) (si_controllers si')" using attach_leaves_controllers [OF ready room some attach] .
  have kept: "si_partitions si' = si_partitions si" using attach_keeps_partitions [OF ready room some attach] .
  have same: "sy_commands ?sys' = sy_commands (retire_slot h r sys)" "sy_scenes ?sys' = sy_scenes sys"
    "sy_factories ?sys' = sy_factories sys"
    by (simp_all add: unregister_prefab_def retired)
  have after: "sw_system (spawner_deactivate h [key] sw) = Some ?sys'" "sw_instances (spawner_deactivate h [key] sw) = []"
    using active
    by (simp_all add: spawner_deactivate_def instances retire_next_def retire_instance_def Let_def cancel_boundary_def send_def system
        split: option.split)
  have "find_scene (snd (drain_commands h ?sys')) ?scene = Some si'"
  proof (rule queue_keeps_controllers [OF _ refl])
    show "sy_commands ?sys' = [Attach_controllers_command (ir_instance r) declarations command completion, Unbind_slot_command ?slot a None,
        Reset_slot_command ?slot b None, Release_slot_command ?slot c None]" by (simp add: same retired queue)
    show "find_scene ?sys' ?scene = Some si" using found by (simp add: find_scene_def same)
    have "resolve_factory ?sys' = resolve_factory sys" by (simp add: resolve_factory_def fun_eq_iff same)
    then show "snd (attach_controllers (h_math h) (h_methods h) (ir_instance r) declarations (Some (resolve_factory ?sys')) si) = si'"
      using attach by simp
    show "has_controllers ?slot (si_controllers si')" using owned by (rule owned_slot_has_controllers)
  qed
  with after owned kept show ?thesis by blast
qed

text \<open>Entity 9 has a spawner for scene 1 whose only instance, in slot 0, waits for its controllers.\<close>

definition demo_attaching_record :: "(int, unit) instance_record" where
  "demo_attaching_record =
     (new_record \<lparr>rq_generation = 1, rq_value = 1\<rparr>
        \<lparr>sq_context = \<lparr>rx_entity = Some 4, rx_correlation = 6\<rparr>, sq_explicit = True, sq_world = 5\<rparr> demo_instance 5 0)
     \<lparr>ir_state := is_attaching_controllers, ir_pending := 4, ir_pending_type := sct_attach_controllers\<rparr>"

definition demo_attaching_system :: "(int, int, unit, unit) system_component" where
  "demo_attaching_system = new_system
     \<lparr>sy_scenes := [(1, \<lparr>se_instance = Some demo_reserved, se_life = sl_alive\<rparr>)],
      sy_commands := [Attach_controllers_command demo_instance [demo_declaration ''a'' ''b''] 4 (Some 9)],
      sy_factories := [\<lparr>rf_token = \<lparr>ft_type_id = 5, ft_generation = 1\<rparr>, rf_factory = \<lparr>cf_type_id = 5, cf_create_batch = Some ()\<rparr>\<rparr>],
      sy_next_command := 5\<rparr>"

definition demo_attaching_spawner :: "(int, int, unit, unit) spawner" where
  "demo_attaching_spawner =
     (new_spawner (Some 9)
        \<lparr>spc_scene_entity = None, spc_prefab = (3, 0), spc_capacity = 2, spc_default_placement = Some dp_spawner_world_transform,
         spc_trigger_mode = Some tm_external_requests_only, spc_initial_spawn_count = 0\<rparr>
        (Some demo_attaching_system) True \<lparr>tk_id = 3, tk_valid = True\<rparr> 0)
     \<lparr>sw_lifecycle := spl_ready, sw_generation := 1, sw_instances := [(1, demo_attaching_record)],
      sw_callbacks := [new_callback_state [] 5]\<rparr>"

lemma demo_attaches:
  "\<exists>si'. attach_controllers int_math demo_methods demo_instance [demo_declaration ''a'' ''b'']
     (Some (resolve_factory demo_attaching_system)) demo_reserved = (rc_success, si')"
proof -
  have factory: "resolve_factory demo_attaching_system =
      (\<lambda>ty. if ty = 5 then Some \<lparr>cf_type_id = 5, cf_create_batch = Some ()\<rparr> else None)"
    by (simp add: resolve_factory_def demo_attaching_system_def fun_eq_iff)
  have "fst (attach_controllers int_math demo_methods demo_instance [demo_declaration ''a'' ''b'']
     (Some (\<lambda>ty. if ty = 5 then Some \<lparr>cf_type_id = 5, cf_create_batch = Some ()\<rparr> else None)) demo_reserved) = rc_success"
    by code_simp
  then show ?thesis unfolding factory by (simp add: prod_eq_iff)
qed

theorem deactivation_during_attach_keeps_the_slot_witness:
  "\<exists>sys si. sw_system (spawner_deactivate demo_host [1] demo_attaching_spawner) = Some sys \<and>
     find_scene (snd (drain_commands demo_host sys)) 1 = Some si \<and> owns_controllers demo_instance (si_controllers si) \<and>
     si_partitions si = si_partitions demo_reserved"
proof -
  obtain si' where attached: "attach_controllers int_math demo_methods demo_instance [demo_declaration ''a'' ''b'']
     (Some (resolve_factory demo_attaching_system)) demo_reserved = (rc_success, si')"
    using demo_attaches by blast
  have host: "h_math demo_host = int_math" "h_methods demo_host = demo_methods" by (simp_all add: demo_host_def)
  have inst: "ir_instance demo_attaching_record = demo_instance" "\<not> ir_attached demo_attaching_record"
    by (simp_all add: demo_attaching_record_def new_record_def)
  have scene: "ph_scene (sh_spawner (ih_slot demo_instance)) = 1"
    by (simp add: demo_instance_def demo_slot_def demo_spawner_def)
  have sw: "sw_lifecycle demo_attaching_spawner \<noteq> spl_inactive" "sw_instances demo_attaching_spawner = [(1, demo_attaching_record)]"
    "sw_system demo_attaching_spawner = Some demo_attaching_system"
    by (simp_all add: demo_attaching_spawner_def new_spawner_def)
  have queue: "sy_commands demo_attaching_system =
      [Attach_controllers_command (ir_instance demo_attaching_record) [demo_declaration ''a'' ''b''] 4 (Some 9)]"
    by (simp add: demo_attaching_system_def inst)
  have found: "find_scene demo_attaching_system (ph_scene (sh_spawner (ih_slot (ir_instance demo_attaching_record)))) = Some demo_reserved"
    by (simp add: find_scene_def demo_attaching_system_def inst scene)
  have attach: "attach_controllers (h_math demo_host) (h_methods demo_host) (ir_instance demo_attaching_record) [demo_declaration ''a'' ''b'']
     (Some (resolve_factory demo_attaching_system)) demo_reserved = (rc_success, si')"
    using attached by (simp add: host inst)
  have some: "[demo_declaration ''a'' ''b''] \<noteq> []" by simp
  show ?thesis
    using deactivation_during_attach_keeps_the_slot [OF sw(1,2) inst(2) sw(3) queue found demo_attach_ready demo_attach_room(1) some attach]
    unfolding inst scene by blast
qed

end
