(* ===== verification/Spec2Isabelle.thy ===== *)
theory Spec2Isabelle
  imports Motion_Evaluation Transform_System Prefab_Topology Scene_Advance Task_Executor Scene_Create
    System_Registration System_Handlers Level_Component Spawn_Callbacks Spawner_Promises Spawner_Deactivation
begin

text \<open>
  A verification library for \<open>scene-polytree\<close>, a C++ library of transform hierarchies over a frozen forest,
  with an extension for motion and an integration into the O3DE engine.

  \<^bold>\<open>The program.\<close> An authoring scene is an editable hierarchy with one local transform per node
  (\<open>include/scene_polytree/authoring_scene.hpp\<close>). Freezing it (\<open>scene_freeze.hpp\<close>) gives a runtime scene: a frozen
  topology, in which a parent comes before its children, and a state with local, world, revisions and a dirty flag
  for every node (\<open>transform_state.hpp\<close>). Evaluation makes the worlds follow the locals: a planner finds the nodes below
  a dirty one (\<open>transform_evaluation.hpp\<close>), and the nodes of the plan are composed with their parents, one after the
  other or in dependency levels on the threads of \<open>src/cpu_task_executor.cpp\<close>. The motion extension
  (\<open>extensions/motion\<close>) keeps the moving nodes in a sparse set and advances them by fixed steps.

  The integration (\<open>integrations/o3de/Code\<close>) puts these together. A scene instance (\<open>SceneInstance.cpp\<close>) is frozen
  once from permanent nodes and from partitions, each a prefab topology (\<open>PrefabTopology.cpp\<close>) copied into a fixed
  number of slots; slots are reserved, bound to entities, driven by controllers through a transactional command sink,
  and given back. The system component (\<open>ScenePolytreeSystemComponent.cpp\<close>) owns all scenes, queues commands and runs
  them with the frames. The level component (\<open>ScenePolytreeComponent.cpp\<close>) collects the prefabs of its level and asks
  for a scene. The spawner component (\<open>ScenePolytreeSpawnerComponent.cpp\<close>) takes spawn and despawn requests and
  drives an instance through the slot and controller commands and through the spawn service of the engine.

  \<^bold>\<open>The theories\<close>, each importing those it calls; names of definitions follow the source.

  \<^item> \<open>Prelude\<close>: machine types, the guard of all revision clocks, lemmas on lists and words. \<open>Polytree_View\<close>: what
    the code asks of a frozen polytree, and the well-formedness it relies on.
  \<^item> \<open>Transform_State\<close>, \<open>Transform_Workspace\<close>, \<open>Transform_Plan\<close>, \<open>Transform_Evaluation\<close>: state, planning
    workspace with its cached metadata, the planner and both evaluators. \<open>Transform_System\<close>: all histories of a client,
    with the properties: plans are exactly the affected nodes and work once, a full evaluation reaches the worlds of
    the specification, the parallel evaluation is the sequential one under every schedule.
  \<^item> \<open>Active_Motion\<close>, \<open>Motion_Evaluation\<close>: the sparse set, with its single and batch updates, and the fixed step,
    which either changes nothing or reaches the integrated state.
  \<^item> \<open>Task_Executor\<close>: caller and workers as an interleaving of atomic steps; every index is in one call, and no
    wake-up is lost.
  \<^item> \<open>Authoring_Scene\<close>, \<open>Scene_Freeze\<close>: edits, and freezing with what an earlier runtime scene keeps; after any
    session an incremental freeze gives the worlds of a freeze from scratch.
  \<^item> \<open>Prefab_Topology\<close>: extraction of a hierarchy from entities, its validation and its normal form.
  \<^item> \<open>Scene_Types\<close>, \<open>Controller_Types\<close>, \<open>Generational_Pool\<close>, \<open>Scene_State\<close>: data, handles with generations, the
    scene and its lookups. \<open>Scene_Slots\<close>: slot operations. \<open>Scene_Commands\<close>, \<open>Scene_Buffers\<close>: the command sink and its
    refinement of a write buffer. \<open>Scene_Controllers\<close>, \<open>Scene_Attach\<close>: attaching, input, detaching, and their
    effect. \<open>Scene_Advance\<close>: frames. \<open>Scene_Create\<close>: creation from a descriptor.
  \<^item> \<open>System_Component\<close>, \<open>System_Registration\<close>: requests, command queue, frames, registrations. The runs of the
    system component are an inductive relation that also counts what each submission is owed. \<open>System_Handlers\<close>:
    ticks whose handlers call back while the queue is drained, as the spawner does; their runs keep the order of
    completions, and what handlers submit is the queue of the next tick.
  \<^item> \<open>Level_Component\<close>: the build of a level scene, as a step relation with an invariant over its answers.
  \<^item> \<open>Spawner\<close>: the operations of the spawner. \<open>Spawner_Steps\<close>: what each operation may do to an instance and to the
    queue. \<open>Spawner_Runs\<close>: the runs of a spawner with its system component and the spawn service, and their
    invariant. \<open>Spawner_Promises\<close>: what follows for requests. \<open>Spawner_Deactivation\<close>: a deactivation that does not
    give its slot back. \<open>Spawn_Callbacks\<close>: preparing and collecting the spawned entities.

  \<^bold>\<open>The lemmas.\<close> Each component has an invariant that all its operations keep (\<open>system_ok\<close>, \<open>scene_ok\<close>, \<open>executor_ok\<close>, \<open>run_ok\<close> and others), lemmas on
  the branches of each operation, errors included, and where it has a contract an abstract description that it refines
  or a contract stated as a locale: the collectors of the planner, the two evaluators, the keyed store of motions and the
  pools with generations are locales interpreted on the model's definitions. State machines (executor, system,
  level, spawner, transform histories) are inductive relations, their properties inductions over them. Every property
  with hypotheses is followed by an instance of it on concrete data.

  \<^bold>\<open>Choices.\<close>
  \<^item> Machine integers are words of their width: revisions, generations, ids and counters. Where the code
    refuses to pass the maximum that is a branch of the model; where it does not, a hypothesis such as
    \<open>n < 2 ^ 64 - 1\<close> says that the counter has not wrapped in the run considered. Node handles are natural numbers,
    durations are integers.
  \<^item> The transforms and their composition, integration and finiteness are arguments; no law of arithmetic is assumed
    unless the property names it, so floating point is covered.
  \<^item> The \<open>polytree\<close> submodule is not in the repository. Its frozen form is a list of parents with metadata, its
    editing and freezing a record of functions with the documented behaviour as a hypothesis; a table of nodes shows
    that the hypothesis can hold.
  \<^item> Controllers (batches and factories) are records of functions; a method that is given a sink is a tree of the
    calls it makes. Asset manager, spawn service, tickets, entity transforms and the order in an unordered map are arguments.
  \<^item> Loops are folds and recursions over what the code iterates; no fuel is used. The recursions over parent
    links terminate because each call marks a node that was not marked. The recursion that computes depths
    has no guard in the code, so it is partial in the model, and validation is proved to return for every input.
  \<^item> Threads interleave at the atomic operations and at the critical sections of the code; waits may wake without
    cause. Relaxed atomics are single steps.
  \<^item> Notifications are lists returned by an operation or collected in the state. The callback state that a
    spawner shares with the spawn service lives in a store; the record of an instance holds its index.

  \<^bold>\<open>Not modelled\<close>: reflection, services, module registration and bus connection (they register names with the
  engine), capacities of vectors, handlers that call back into the level or spawner component while it is notifying, or
  into the system component from an entity transform or the end of the collection (its drain is modelled with such
  handlers in \<open>System_Handlers\<close>; the other runs of the system component, and the spawner with its system component,
  deliver the notifications of a tick after it), a \<open>BeginBuild\<close> that arrives when a level no
  longer collects, the deactivation of a level as a step of its runs, a target access that is neither of the two
  enumerators, a command sink that was cleared, exceptions of allocation, overflow of the nanosecond counters, the constructor of threads;
  tests, benchmarks and build files.
\<close>

end
